(* ===== verification/XlsPrelude.thy ===== *)
theory XlsPrelude
  imports Main "HOL-Library.Word" "HOL-Library.Monad_Syntax"
begin

text \<open>
  Shared vocabulary of the development: the machine types of the C++ sources, the two ways a
  call can fail, the loop combinators that every component's loops are written with, and the
  arithmetic on bits that the component proofs rest on.

  \<^item> A failed \<open>XLS_CHECK\<close>, \<open>XLS_DCHECK\<close>, \<open>XLS_LOG(FATAL)\<close>, \<open>.value()\<close> on an error or
    out-of-range \<open>.at()\<close> terminates the process. Functions that can do so return an
    \<open>option\<close>, with \<open>None\<close> for the abort; they are composed with the library's \<open>do\<close> blocks.
  \<^item> \<open>absl::StatusOr<T>\<close> is the sum \<open>status + 'a\<close>: the error's code (its message is not
    modelled) or the value.
  \<^item> \<open>int64_t\<close> lengths, counts and indices are \<open>nat\<close>. A guard \<open>XLS_CHECK_GE(x, 0)\<close> on such
    an argument is its type; a subtraction that could go below zero is guarded explicitly.
  \<^item> \<open>uint64_t\<close> and \<open>int64_t\<close> data are \<open>64 word\<close>, \<open>uint8_t\<close> data are \<open>8 word\<close>.
\<close>

unbundle bit_operations_syntax

type_synonym u8 = "8 word"
type_synonym u64 = "64 word"

text \<open>The status codes the modelled sources construct.\<close>

datatype status = InvalidArgumentError | InternalError | UnimplementedError | NotFoundError | AbortedError | DeadlineExceededError

type_synonym 'a status_or = "status + 'a"

section \<open>Checks, statuses and loops\<close>

text \<open>\<open>XLS_CHECK\<close> and \<open>StatusOr::value()\<close>.\<close>

definition check :: "bool \<Rightarrow> unit option" where
  "check P = (if P then Some () else None)"

definition status_value :: "'a status_or \<Rightarrow> 'a option" where
  "status_value r = (case r of Inl _ \<Rightarrow> None | Inr v \<Rightarrow> Some v)"

text \<open>An element access that aborts out of range (\<open>.at(i)\<close>, or \<open>operator[]\<close> where the sources rely on its check).\<close>

definition list_at :: "'a list \<Rightarrow> nat \<Rightarrow> 'a option" where
  "list_at xs i = (if i < length xs then Some (xs ! i) else None)"

text \<open>A \<open>for\<close> loop that threads a state, and one that may return from its body.\<close>

fun for_state :: "('i \<Rightarrow> 's \<Rightarrow> 's option) \<Rightarrow> 'i list \<Rightarrow> 's \<Rightarrow> 's option" where
  "for_state f [] s = Some s"
| "for_state f (i # is) s = do { s' \<leftarrow> f i s; for_state f is s' }"

fun for_find :: "('i \<Rightarrow> 'r option option) \<Rightarrow> 'i list \<Rightarrow> 'r option option" where
  "for_find f [] = Some None"
| "for_find f (i # is) = do { r \<leftarrow> f i; (case r of None \<Rightarrow> for_find f is | Some x \<Rightarrow> Some (Some x)) }"

text \<open>A vector built element by element, in the order of the indices.\<close>

definition generate :: "nat \<Rightarrow> (nat \<Rightarrow> 'a option) \<Rightarrow> 'a list option" where
  "generate n f = for_state (\<lambda>i v. do { x \<leftarrow> f i; Some (v @ [x]) }) [0..<n] []"

text \<open>\<open>XLS_ASSIGN_OR_RETURN\<close>: an error status is returned, a value is passed on.\<close>

definition or_return :: "'a status_or option \<Rightarrow> ('a \<Rightarrow> 'b status_or option) \<Rightarrow> 'b status_or option" where
  "or_return m f = do { r \<leftarrow> m; (case r of Inl e \<Rightarrow> Some (Inl e) | Inr v \<Rightarrow> f v) }"

text \<open>The decimal text of an integer (\<open>absl::StrCat\<close>) and \<open>absl::StrJoin\<close>.\<close>

function nat_string :: "nat \<Rightarrow> string" where
  "nat_string n = (if n < 10 then [char_of (48 + n)] else nat_string (n div 10) @ [char_of (48 + n mod 10)])"
  by pat_completeness auto
termination
  by (relation "measure id") auto

definition int_string :: "int \<Rightarrow> string" where
  "int_string i = (if i < 0 then ''-'' @ nat_string (nat (- i)) else nat_string (nat i))"

fun str_join :: "string list \<Rightarrow> string \<Rightarrow> string" where
  "str_join [] sep = []"
| "str_join [s] sep = s"
| "str_join (s # ss) sep = s @ sep @ str_join ss sep"

named_theorems abort_simps \<open>equations that run checks and aborting calls\<close>
named_theorems bit_val \<open>equations that give the bits of a value\<close>

lemma check_bind [simp, abort_simps]: "(check P \<bind> f) = (if P then f () else None)"
  by (simp add: check_def)

lemma check_eq_Some [simp]: "check P = Some u \<longleftrightarrow> P"
  by (simp add: check_def)

lemma status_value_simps [simp, abort_simps]:
  "status_value (Inr v) = Some v" "status_value (Inl e) = None"
  by (simp_all add: status_value_def)

lemma status_value_eq_Some [simp]: "status_value r = Some v \<longleftrightarrow> r = Inr v"
  by (cases r) simp_all

lemma or_return_simps [simp, abort_simps]:
  "or_return (Some (Inr v)) f = f v" "or_return (Some (Inl e)) f = Some (Inl e)" "or_return None f = None"
  by (simp_all add: or_return_def)

lemma list_at_simps [simp, abort_simps]:
  "i < length xs \<Longrightarrow> list_at xs i = Some (xs ! i)"
  "length xs \<le> i \<Longrightarrow> list_at xs i = None"
  by (simp_all add: list_at_def)

lemma list_at_eq_Some: "list_at xs i = Some x \<longleftrightarrow> i < length xs \<and> x = xs ! i"
  by (auto simp: list_at_def)

lemma for_state_Nil_fun [simp]: "for_state f [] = Some"
  by (rule ext) simp

lemma for_state_append:
  "for_state f (xs @ ys) s = (for_state f xs s \<bind> for_state f ys)"
  by (induction xs arbitrary: s) (simp_all cong: bind_option_cong)

lemma for_state_cong:
  "(\<And>i t. i \<in> set is \<Longrightarrow> f i t = g i t) \<Longrightarrow> for_state f is s = for_state g is s"
  by (induction "is" arbitrary: s) (auto intro: bind_option_cong)

lemma for_state_total:
  "(\<And>i t. i \<in> set is \<Longrightarrow> f i t = Some (g i t)) \<Longrightarrow> for_state f is s = Some (fold g is s)"
  by (induction "is" arbitrary: s) auto

lemma for_state_inv:
  assumes "P s"
    and "\<And>i t. i \<in> set is \<Longrightarrow> P t \<Longrightarrow> \<exists>t'. f i t = Some t' \<and> P t'"
  shows "\<exists>s'. for_state f is s = Some s' \<and> P s'"
  using assms
proof (induction "is" arbitrary: s)
  case (Cons i "is")
  then obtain t where "f i s = Some t" "P t" by (metis list.set_intros(1))
  with Cons show ?case by auto
qed simp

text \<open>The invariant rule for a counting loop: \<open>P k\<close> holds before the iteration \<open>k\<close>.\<close>

lemma for_state_upt_range:
  assumes "P a s" and "a \<le> n"
    and "\<And>i t. a \<le> i \<Longrightarrow> i < n \<Longrightarrow> P i t \<Longrightarrow> \<exists>t'. f i t = Some t' \<and> P (Suc i) t'"
  shows "\<exists>s'. for_state f [a..<n] s = Some s' \<and> P n s'"
  using assms(2,3)
proof (induction n rule: nat_induct_at_least)
  case base
  then show ?case using assms(1) by simp
next
  case (Suc n)
  then obtain t where "for_state f [a..<n] s = Some t" "P n t" by auto
  then show ?case using Suc.prems[of n t] Suc.hyps by (auto simp: for_state_append)
qed

lemmas for_state_upt = for_state_upt_range[where a = 0, simplified]

lemma for_find_total:
  assumes "\<And>i. i \<in> set is \<Longrightarrow> f i = Some (g i)"
  shows "for_find f is = Some (case find (\<lambda>i. g i \<noteq> None) is of None \<Rightarrow> None | Some i \<Rightarrow> g i)"
  using assms by (induction "is") (auto split: option.splits)

lemma for_find_cong:
  "(\<And>i. i \<in> set is \<Longrightarrow> f i = g i) \<Longrightarrow> for_find f is = for_find g is"
  by (induction "is") (auto intro: bind_option_cong split: option.splits)

lemma for_find_all_None:
  "(\<And>i. i \<in> set is \<Longrightarrow> f i = Some None) \<Longrightarrow> for_find f is = Some None"
  by (induction "is") auto

text \<open>A search loop that returns a constant, or the index it stopped at.\<close>

lemma for_find_test:
  "(\<And>i. i \<in> set is \<Longrightarrow> f i = Some (if P i then Some c else None)) \<Longrightarrow>
     for_find f is = Some (if \<exists>i \<in> set is. P i then Some c else None)"
  by (induction "is") auto

lemma for_find_index:
  "(\<And>i. i \<in> set is \<Longrightarrow> f i = Some (if P i then Some (g i) else None)) \<Longrightarrow>
     for_find f is = Some (map_option g (find P is))"
  by (induction "is") auto

section \<open>Bits of numbers\<close>

text \<open>The numeric value of a list of words, least significant first, bit by bit.\<close>

definition words_nat :: "'a::len word list \<Rightarrow> nat" where
  "words_nat ws = horner_sum unat (2 ^ LENGTH('a)) ws"

lemma words_nat_Nil [simp]: "words_nat [] = 0"
  by (simp add: words_nat_def)

lemma words_nat_Cons:
  "words_nat (w # ws) = unat (w :: 'a::len word) + 2 ^ LENGTH('a) * words_nat ws"
  by (simp add: words_nat_def)

lemma int_words_nat: "int (words_nat ws) = horner_sum uint (2 ^ LENGTH('a)) (ws :: 'a::len word list)"
  by (induction ws) (simp_all add: words_nat_Cons)

lemma bit_words_nat [bit_val]:
  "bit (words_nat (ws :: 'a::len word list)) n \<longleftrightarrow>
     n div LENGTH('a) < length ws \<and> bit (ws ! (n div LENGTH('a))) (n mod LENGTH('a))"
proof -
  have "bit (words_nat ws) n \<longleftrightarrow> bit (int (words_nat ws)) n"
    by (simp add: bit_of_nat_iff_bit)
  then show ?thesis by (simp only: int_words_nat bit_horner_sum_uint_exp_iff)
qed

lemma nat_bit_eqI: "(\<And>i. bit (a::nat) i \<longleftrightarrow> bit b i) \<Longrightarrow> a = b"
  by (rule bit_eqI) simp

lemma bit_nat_less: "(\<And>i. n \<le> i \<Longrightarrow> \<not> bit (v::nat) i) \<Longrightarrow> v < 2 ^ n"
proof -
  assume a: "\<And>i. n \<le> i \<Longrightarrow> \<not> bit v i"
  have "take_bit n v = v" by (rule bit_eqI) (use a not_le in \<open>auto simp: bit_take_bit_iff\<close>)
  then show ?thesis by (simp add: take_bit_nat_eq_self_iff)
qed

lemma bit_nat_less_iff: "(v::nat) < 2 ^ n \<longleftrightarrow> (\<forall>i \<ge> n. \<not> bit v i)"
proof
  assume "v < 2 ^ n"
  then have "take_bit n v = v" by (simp add: take_bit_nat_eq_self_iff)
  then show "\<forall>i\<ge>n. \<not> bit v i" by (metis bit_take_bit_iff not_le)
qed (auto intro: bit_nat_less)

lemma bit_word_le: "bit (w :: 'a::len word) n \<Longrightarrow> n < LENGTH('a)"
  by (rule bit_imp_le_length)

lemma bit_unat [bit_val]: "bit (unat (w :: 'a::len word)) n \<longleftrightarrow> bit w n"
  by (simp add: bit_unsigned_iff)

lemma bit_word_of_nat [bit_val]:
  "bit (word_of_nat v :: 'a::len word) n \<longleftrightarrow> n < LENGTH('a) \<and> bit v n"
proof -
  have "bit (word_of_nat v :: 'a word) n \<longleftrightarrow> bit (unat (word_of_nat v :: 'a word)) n"
    by (simp only: bit_unat)
  then show ?thesis by (simp add: unsigned_of_nat bit_take_bit_iff)
qed

lemma bit_top: "2 ^ k \<le> (v::nat) \<Longrightarrow> v < 2 ^ Suc k \<Longrightarrow> bit v k"
proof -
  assume "2 ^ k \<le> v" "v < 2 ^ Suc k"
  then have "v div 2 ^ k = 1" by (intro div_nat_eqI) auto
  then show ?thesis by (simp add: bit_iff_odd)
qed

lemma find_upt_Some:
  "find P [0..<n] = Some i \<longleftrightarrow> i < n \<and> P i \<and> (\<forall>j<i. \<not> P j)"
  by (auto simp: find_Some_iff)

lemma find_upt_None: "find P [0..<n] = None \<longleftrightarrow> (\<forall>j<n. \<not> P j)"
  by (auto simp: find_None_iff)

lemma find_rev_upt_Some:
  "find P (rev [a..<n]) = Some i \<longleftrightarrow> a \<le> i \<and> i < n \<and> P i \<and> (\<forall>j. i < j \<and> j < n \<longrightarrow> \<not> P j)"
proof (induction n)
  case (Suc n)
  then show ?case by (auto simp: less_Suc_eq)
qed simp

lemma find_rev_upt_None: "find P (rev [a..<n]) = None \<longleftrightarrow> (\<forall>j. a \<le> j \<and> j < n \<longrightarrow> \<not> P j)"
  by (auto simp: find_None_iff)

lemma nat_less_top_bit:
  assumes "bit (a::nat) k" "\<not> bit b k" "\<And>i. k < i \<Longrightarrow> bit a i = bit b i"
  shows "b < a"
proof -
  have q: "drop_bit (Suc k) a = drop_bit (Suc k) b"
    using assms(3) by (auto intro!: nat_bit_eqI simp: bit_drop_bit_eq)
  have split: "x = 2 ^ Suc k * drop_bit (Suc k) x + of_bool (bit x k) * 2 ^ k + take_bit k x" for x :: nat
    using bits_ident[of "Suc k" x] take_bit_Suc_from_most[of k x]
    by (simp add: push_bit_eq_mult mult.commute algebra_simps)
  have "b = 2 ^ Suc k * drop_bit (Suc k) b + take_bit k b"
    using split[of b] assms(2) by simp
  moreover have "a = 2 ^ Suc k * drop_bit (Suc k) b + 2 ^ k + take_bit k a"
    using split[of a] assms(1) by (simp add: q)
  moreover have "take_bit k b < 2 ^ k" by simp
  ultimately show ?thesis by linarith
qed

lemma int_less_power_iff: "int a < 2 ^ k \<longleftrightarrow> a < 2 ^ k"
  using of_nat_less_iff[of a "2 ^ k", where 'a = int] by simp

lemma add_shift_or: "(v::nat) < 2 ^ i \<Longrightarrow> v + 2 ^ i * x = v OR push_bit i x"
proof -
  assume "v < 2 ^ i"
  then have "v + push_bit i x = v OR push_bit i x"
    by (intro disjunctive_add) (auto simp: bit_nat_less_iff bit_push_bit_iff)
  then show ?thesis by (simp add: push_bit_eq_mult mult.commute)
qed

lemma nat_complement:
  assumes "(u::nat) < 2 ^ n" "\<And>i. bit w i \<longleftrightarrow> i < n \<and> \<not> bit u i"
  shows "int w = 2 ^ n - 1 - int u"
proof -
  have "w + u = w OR u" by (rule disjunctive_add) (simp add: assms(2))
  also have "\<dots> = mask n"
  proof (rule nat_bit_eqI)
    fix i
    have "bit u i \<Longrightarrow> i < n" using assms(1) by (meson bit_nat_less_iff not_le)
    then show "bit (w OR u) i \<longleftrightarrow> bit (mask n :: nat) i" by (auto simp: bit_or_iff bit_mask_iff assms(2))
  qed
  finally have "int w + int u = int (mask n)" by (metis of_nat_add)
  then show ?thesis by (simp add: of_nat_mask_eq mask_eq_exp_minus_1)
qed

section \<open>Runs and searches\<close>

text \<open>The length of the run of indices from zero on which \<open>P\<close> holds; a loop that returns its first failing index counts it.\<close>

definition run_length :: "(nat \<Rightarrow> bool) \<Rightarrow> nat \<Rightarrow> nat" where
  "run_length P n = length (takeWhile P [0..<n])"

lemma run_length_unique:
  "k \<le> n \<Longrightarrow> (\<And>i. i < k \<Longrightarrow> P i) \<Longrightarrow> k = n \<or> \<not> P k \<Longrightarrow> run_length P n = k"
proof -
  assume a: "k \<le> n" "\<And>i. i < k \<Longrightarrow> P i" "k = n \<or> \<not> P k"
  have "[0..<n] = [0..<k] @ [k..<n]" using a(1) le_Suc_ex upt_add_eq_append by blast
  moreover have "takeWhile P [k..<n] = []" using a(1,3) by (cases "k = n") (auto simp: upt_conv_Cons)
  ultimately have "takeWhile P [0..<n] = [0..<k] @ takeWhile P [k..<n]"
    using a(2) takeWhile_append2[of "[0..<k]" P "[k..<n]"] by simp
  then show ?thesis using \<open>takeWhile P [k..<n] = []\<close> by (simp add: run_length_def)
qed

lemma run_length_le: "run_length P n \<le> n"
  using length_takeWhile_le[of P "[0..<n]"] by (simp add: run_length_def)

lemma run_length_holds: "i < run_length P n \<Longrightarrow> P i"
  using nth_mem[of i "takeWhile P [0..<n]"] takeWhile_nth[of i P "[0..<n]"] run_length_le[of P n]
  by (auto simp: run_length_def dest: set_takeWhileD)

lemma run_length_stop: "run_length P n < n \<Longrightarrow> \<not> P (run_length P n)"
  using nth_length_takeWhile[of P "[0..<n]"] by (simp add: run_length_def)

lemma run_length_0: "run_length P n = n \<longleftrightarrow> (\<forall>i < n. P i)"
  using run_length_holds[of _ P n] run_length_unique[of n n P] by auto

lemma for_find_run:
  assumes "\<And>i. i < n \<Longrightarrow> f i = Some (if P i then None else Some i)"
  shows "(do { r \<leftarrow> for_find f [0..<n]; Some (case r of Some i \<Rightarrow> i | None \<Rightarrow> n) }) = Some (run_length P n)"
proof -
  have "for_find f [0..<n] = Some (map_option (\<lambda>i. i) (find (\<lambda>i. \<not> P i) [0..<n]))"
    by (rule for_find_index) (use assms in auto)
  then show ?thesis
    by (cases "find (\<lambda>i. \<not> P i) [0..<n]")
      (auto simp: find_upt_Some find_upt_None intro!: run_length_unique[symmetric])
qed

lemma for_find_bool:
  assumes "\<And>i. a \<le> i \<Longrightarrow> i < n \<Longrightarrow> f i = Some (if P i then Some False else None)"
  shows "(do { r \<leftarrow> for_find f [a..<n]; Some (case r of Some x \<Rightarrow> x | None \<Rightarrow> True) })
     = Some (\<forall>i. a \<le> i \<and> i < n \<longrightarrow> \<not> P i)"
  by (subst for_find_test[where P = P and c = False]) (use assms in auto)

lemmas bitwise = bit_and_iff bit_or_iff bit_xor_iff bit_not_iff bit_mask_iff bit_take_bit_iff bit_word_of_nat

lemma sint_word_of_int_64: "- (2 ^ 63) \<le> x \<and> x < 2 ^ 63 \<Longrightarrow> sint (word_of_int x :: u64) = x"
  by (simp add: signed_of_int signed_take_bit_int_eq_self_iff)

text \<open>The \<open>int64_t\<close> that a sum of numbers of this type wraps to.\<close>

definition int64_wrap :: "int \<Rightarrow> int" where
  "int64_wrap x = sint (word_of_int x :: u64)"

lemma int64_wrap_exact: "- (2 ^ 63) \<le> x \<and> x < 2 ^ 63 \<Longrightarrow> int64_wrap x = x"
  by (simp add: int64_wrap_def sint_word_of_int_64)

lemma int64_wrap_negative: "2 ^ 63 \<le> x \<Longrightarrow> x < 2 ^ 64 \<Longrightarrow> int64_wrap x < 0"
proof -
  assume x: "2 ^ 63 \<le> x" "x < 2 ^ 64"
  then have "x div 2 ^ 63 = 1" by (simp add: div_pos_geq)
  then have "bit x 63" by (simp add: bit_iff_odd)
  then show ?thesis by (simp add: int64_wrap_def signed_of_int signed_take_bit_negative_iff)
qed

lemma int64_wrap_le:
  assumes "0 \<le> x"
  shows "int64_wrap x \<le> x"
proof -
  have "sint w \<le> uint w" for w :: u64
    using uint_lt2p[of w] by (simp add: sint_uint signed_take_bit_eq_take_bit_minus take_bit_int_eq_self)
  then have "int64_wrap x \<le> uint (word_of_int x :: u64)" by (simp add: int64_wrap_def)
  also have "\<dots> \<le> x" using assms by (simp add: unsigned_of_int take_bit_int_less_eq_self_iff)
  finally show ?thesis .
qed

lemma unat_word_of_nat_64: "v < 2 ^ 64 \<Longrightarrow> unat (word_of_nat v :: u64) = v"
  by (simp add: unsigned_of_nat take_bit_nat_eq_self_iff)

lemma for_state_map: "for_state g (map h is) s = for_state (\<lambda>i. g (h i)) is s"
  by (induction "is" arbitrary: s) (auto intro: bind_option_cong)

lemma for_state_rev_index:
  "for_state (\<lambda>i s. do { x \<leftarrow> list_at xs (length xs - i - 1); f x s }) [0..<length xs] s = for_state f (rev xs) s"
proof -
  have "map (\<lambda>i. xs ! (length xs - i - 1)) [0..<length xs] = rev xs"
    by (auto intro!: nth_equalityI simp: rev_nth)
  then have "for_state f (rev xs) s = for_state (\<lambda>i. f (xs ! (length xs - i - 1))) [0..<length xs] s"
    using for_state_map[of f "\<lambda>i. xs ! (length xs - i - 1)" "[0..<length xs]" s] by simp
  also have "\<dots> = for_state (\<lambda>i s. do { x \<leftarrow> list_at xs (length xs - i - 1); f x s }) [0..<length xs] s"
    by (rule for_state_cong) simp
  finally show ?thesis by simp
qed

lemma run_length_cong: "(\<And>i. i < n \<Longrightarrow> P i = Q i) \<Longrightarrow> run_length P n = run_length Q n"
  unfolding run_length_def by (rule arg_cong[of _ _ length], rule takeWhile_cong) auto

lemma generate_eq: "(\<And>i. i < n \<Longrightarrow> f i = Some (g i)) \<Longrightarrow> generate n f = Some (map g [0..<n])"
proof (induction n)
  case (Suc n)
  then show ?case by (simp add: generate_def for_state_append)
qed (simp add: generate_def)

lemma generate_ex:
  assumes "\<And>i. i < n \<Longrightarrow> \<exists>x. f i = Some x \<and> P i x"
  shows "\<exists>v. generate n f = Some v \<and> length v = n \<and> (\<forall>i < n. P i (v ! i))"
proof -
  obtain g where "\<And>i. i < n \<Longrightarrow> f i = Some (g i) \<and> P i (g i)" using assms by metis
  then show ?thesis using generate_eq[of n f g] by auto
qed

text \<open>The invariant rule for a loop that counts down: \<open>P k\<close> holds when \<open>k\<close> iterations are left.\<close>

lemma for_state_down:
  assumes "P n s" "\<And>i t. i < n \<Longrightarrow> P (Suc i) t \<Longrightarrow> \<exists>t'. f i t = Some t' \<and> P i t'"
  shows "\<exists>s'. for_state f (rev [0..<n]) s = Some s' \<and> P 0 s'"
  using assms
proof (induction n arbitrary: s)
  case (Suc n)
  obtain t where t: "f n s = Some t" "P n t" using Suc.prems(2)[of n s] Suc.prems(1) by auto
  then show ?case using Suc.IH[of t] Suc.prems(2) by simp
qed simp

section \<open>Total correctness of aborting code\<close>

text \<open>\<open>yields P r\<close>: the computation does not abort and its result satisfies \<open>P\<close>.\<close>

definition yields :: "('a \<Rightarrow> bool) \<Rightarrow> 'a option \<Rightarrow> bool" where
  "yields P r \<longleftrightarrow> (\<exists>v. r = Some v \<and> P v)"

named_theorems yields_rules \<open>total correctness of single calls\<close>

lemma yields_Some [simp]: "yields P (Some v) \<longleftrightarrow> P v"
  by (simp add: yields_def)

lemma yields_None [simp]: "\<not> yields P None"
  by (simp add: yields_def)

lemma yields_bind: "yields P r \<Longrightarrow> (\<And>v. P v \<Longrightarrow> yields Q (f v)) \<Longrightarrow> yields Q (r \<bind> f)"
  by (auto simp: yields_def)

lemma yields_mono: "yields P r \<Longrightarrow> (\<And>v. P v \<Longrightarrow> Q v) \<Longrightarrow> yields Q r"
  by (auto simp: yields_def)

lemma yields_check: "P \<Longrightarrow> yields (\<lambda>_. True) (check P)"
  by (simp add: check_def)

lemma yields_list_at: "i < length xs \<Longrightarrow> P (xs ! i) \<Longrightarrow> yields P (list_at xs i)"
  by simp

lemma yields_for_upt:
  "P 0 s \<Longrightarrow> (\<And>i t. i < n \<Longrightarrow> P i t \<Longrightarrow> yields (P (Suc i)) (f i t)) \<Longrightarrow> yields (P n) (for_state f [0..<n] s)"
  unfolding yields_def using for_state_upt[of P s n f] by blast

lemma yields_for_down:
  "P n s \<Longrightarrow> (\<And>i t. i < n \<Longrightarrow> P (Suc i) t \<Longrightarrow> yields (P i) (f i t)) \<Longrightarrow> yields (P 0) (for_state f (rev [0..<n]) s)"
  unfolding yields_def using for_state_down[of P n s f] by blast

lemma yields_generate:
  "(\<And>i. i < n \<Longrightarrow> yields (P i) (f i)) \<Longrightarrow> yields (\<lambda>v. length v = n \<and> (\<forall>i < n. P i (v ! i))) (generate n f)"
  unfolding yields_def by (rule generate_ex)

end
