(* ===== verification/MathUtil.thy ===== *)
theory MathUtil
  imports XlsPrelude
begin

text \<open>
  The integer helpers of \<open>xls/common/math_util.h\<close>, \<open>math_util.cc\<close> and
  \<open>xls/common/bits_util.h\<close>: ratios rounded up and down, powers of two, logarithms, the low-bit
  mask and the mixed-radix counter. Signed arguments are \<open>int\<close> (no call in the modelled
  sources comes near the bounds of \<open>int64_t\<close>); unsigned ones are \<open>64 word\<close>.
\<close>

section \<open>Definitions\<close>

text \<open>C++ division and remainder truncate toward zero.\<close>

definition c_div :: "int \<Rightarrow> int \<Rightarrow> int" where
  "c_div a b = sgn a * sgn b * (\<bar>a\<bar> div \<bar>b\<bar>)"

definition c_mod :: "int \<Rightarrow> int \<Rightarrow> int" where
  "c_mod a b = a - c_div a b * b"

definition CeilOrFloorOfRatio :: "bool \<Rightarrow> int \<Rightarrow> int \<Rightarrow> int option" where
  "CeilOrFloorOfRatio ceil numerator denominator = do {
     check (denominator \<noteq> 0);
     check (numerator \<noteq> - (2 ^ 63) \<or> denominator \<noteq> - 1);
     let rounded_toward_zero = c_div numerator denominator;
     let needs_round = (c_mod numerator denominator \<noteq> 0);
     let same_sign = ((numerator \<ge> 0) = (denominator \<ge> 0));
     Some (if ceil then rounded_toward_zero + of_bool (same_sign \<and> needs_round)
           else rounded_toward_zero - of_bool (\<not> same_sign \<and> needs_round)) }"

definition CeilOfRatio :: "int \<Rightarrow> int \<Rightarrow> int option" where
  "CeilOfRatio numerator denominator = CeilOrFloorOfRatio True numerator denominator"

definition FloorOfRatio :: "int \<Rightarrow> int \<Rightarrow> int option" where
  "FloorOfRatio numerator denominator = CeilOrFloorOfRatio False numerator denominator"

definition RoundUpToNearest :: "int \<Rightarrow> int \<Rightarrow> int option" where
  "RoundUpToNearest v divisor = do { q \<leftarrow> CeilOfRatio v divisor; Some (q * divisor) }"

definition RoundDownToNearest :: "int \<Rightarrow> int \<Rightarrow> int" where
  "RoundDownToNearest v divisor = c_div v divisor * divisor"

definition IsPowerOfTwo :: "u64 \<Rightarrow> bool" where
  "IsPowerOfTwo x \<longleftrightarrow> x \<noteq> 0 \<and> x AND (x - 1) = 0"

definition IsEven :: "u64 \<Rightarrow> bool" where
  "IsEven x \<longleftrightarrow> x AND 1 = 0"

text \<open>\<open>Exp2<uint64_t>\<close>: \<open>std::numeric_limits<uint64_t>::digits\<close> is 64.\<close>

definition Exp2 :: "nat \<Rightarrow> u64 option" where
  "Exp2 n = do { check (n < 64); Some (push_bit n 1) }"

text \<open>The loop of \<open>FactorizePowerOfTwo\<close> halves an even, positive \<open>x\<close>.\<close>

function FactorizePowerOfTwo_loop :: "u64 \<Rightarrow> nat \<Rightarrow> u64 \<times> nat" where
  "FactorizePowerOfTwo_loop x n =
     (if IsEven x \<and> x > 0 then FactorizePowerOfTwo_loop (x div 2) (n + 1) else (x, n))"
  by pat_completeness auto
termination
  by (relation "measure (\<lambda>(x, _). unat x)")
    (auto simp: word_gt_0 unat_div unat_gt_0 intro!: div_less_dividend)

definition FactorizePowerOfTwo :: "u64 \<Rightarrow> u64 \<times> nat" where
  "FactorizePowerOfTwo x = FactorizePowerOfTwo_loop x 0"

definition Clz :: "u64 \<Rightarrow> nat" where
  "Clz v = (case find (\<lambda>i. (drop_bit (64 - i - 1) v) AND 1 \<noteq> 0) [0..<64] of Some i \<Rightarrow> i | None \<Rightarrow> 64)"

definition FloorOfLog2 :: "u64 \<Rightarrow> nat" where
  "FloorOfLog2 v = (if v = 0 then 0 else 63 - Clz v)"

definition CeilOfLog2 :: "u64 \<Rightarrow> nat" where
  "CeilOfLog2 v =
     (if v = 0 then 0
      else let floor_log = FloorOfLog2 v in if v AND (v - 1) = 0 then floor_log else floor_log + 1)"

text \<open>\<open>xls/common/bits_util.h\<close>.\<close>

definition Mask :: "nat \<Rightarrow> u64 option" where
  "Mask bit_count = do {
     check (bit_count \<le> 64);
     Some (if bit_count = 64 then - 1 else push_bit bit_count 1 - 1) }"

text \<open>
  \<open>MixedRadixIterate\<close>. The lambda \<open>increment_number\<close> returns the new number and whether it
  overflowed. The callback's effects are its answers, so the loop is modelled over a callback
  that also threads a state \<open>'s\<close>.
\<close>

fun increment_number :: "int list \<Rightarrow> int list \<Rightarrow> int list \<times> bool" where
  "increment_number (r # radix) (d # number) =
     (if d + 1 \<ge> r then let (number', overflow) = increment_number radix number in (0 # number', overflow)
      else ((d + 1) # number, False))"
| "increment_number radix number = (number, True)"

fun MixedRadixIterate_loop ::
  "nat \<Rightarrow> int list \<Rightarrow> (int list \<Rightarrow> 's \<Rightarrow> bool \<times> 's) \<Rightarrow> int list \<Rightarrow> 's \<Rightarrow> (bool \<times> 's) option" where
  "MixedRadixIterate_loop 0 radix f number s = None"
| "MixedRadixIterate_loop (Suc fuel) radix f number s =
     (let (stop, s') = f number s in
      if stop then Some (True, s')
      else let (number', overflow) = increment_number radix number in
           if overflow then Some (False, s') else MixedRadixIterate_loop fuel radix f number' s')"

definition MixedRadixIterate ::
  "nat \<Rightarrow> int list \<Rightarrow> (int list \<Rightarrow> 's \<Rightarrow> bool \<times> 's) \<Rightarrow> 's \<Rightarrow> (bool \<times> 's) option" where
  "MixedRadixIterate fuel radix f s =
     MixedRadixIterate_loop fuel radix f (replicate (length radix) 0) s"

text \<open>
  What \<open>MixedRadixIterate\<close> promises: the callback sees the digits of \<open>0\<close>, \<open>1\<close>, ... in turn,
  least significant first, until it answers \<open>true\<close>.
\<close>

fun mixed_digits :: "int list \<Rightarrow> nat \<Rightarrow> int list" where
  "mixed_digits [] k = []"
| "mixed_digits (r # rs) k = int (k mod nat r) # mixed_digits rs (k div nat r)"

definition radix_count :: "int list \<Rightarrow> nat" where
  "radix_count radix = prod_list (map nat radix)"

fun visit_until :: "('n \<Rightarrow> 's \<Rightarrow> bool \<times> 's) \<Rightarrow> 'n list \<Rightarrow> 's \<Rightarrow> bool \<times> 's" where
  "visit_until f [] s = (False, s)"
| "visit_until f (x # xs) s = (let (stop, s') = f x s in if stop then (True, s') else visit_until f xs s')"

section \<open>Ratios\<close>

lemma c_div_nonneg: "0 \<le> a \<Longrightarrow> 0 < b \<Longrightarrow> c_div a b = a div b"
  by (cases "a = 0") (auto simp: c_div_def)

lemma c_mod_alt: "b \<noteq> 0 \<Longrightarrow> c_mod a b = sgn a * (\<bar>a\<bar> mod \<bar>b\<bar>)"
proof -
  assume "b \<noteq> 0"
  have "c_div a b * b = sgn a * ((\<bar>a\<bar> div \<bar>b\<bar>) * \<bar>b\<bar>)"
    by (simp add: c_div_def abs_sgn algebra_simps)
  then have "c_mod a b = sgn a * (\<bar>a\<bar> - (\<bar>a\<bar> div \<bar>b\<bar>) * \<bar>b\<bar>)"
    by (simp add: c_mod_def right_diff_distrib sgn_mult_abs)
  then show ?thesis by (simp add: minus_div_mult_eq_mod)
qed

lemma c_mod_eq_0_iff: "b \<noteq> 0 \<Longrightarrow> c_mod a b = 0 \<longleftrightarrow> b dvd a"
  by (auto simp: c_mod_alt sgn_0_0 simp flip: dvd_eq_mod_eq_0)

lemma floor_ratio_eq:
  fixes a b :: int
  assumes "b \<noteq> 0"
  shows "c_div a b - of_bool ((a \<ge> 0) \<noteq> (b \<ge> 0) \<and> c_mod a b \<noteq> 0) = a div b"
  using assms
  by (cases a "0::int" rule: linorder_cases; cases b "0::int" rule: linorder_cases)
    (auto simp: c_mod_eq_0_iff c_div_def zdiv_zminus1_eq_if zdiv_zminus2_eq_if simp flip: dvd_eq_mod_eq_0)

lemma ceil_ratio_eq:
  fixes a b :: int
  assumes "b \<noteq> 0"
  shows "c_div a b + of_bool ((a \<ge> 0) = (b \<ge> 0) \<and> c_mod a b \<noteq> 0) = - ((- a) div b)"
  using assms
  by (cases a "0::int" rule: linorder_cases; cases b "0::int" rule: linorder_cases)
    (auto simp: c_mod_eq_0_iff c_div_def zdiv_zminus1_eq_if zdiv_zminus2_eq_if simp flip: dvd_eq_mod_eq_0)

lemma CeilOfRatio_eq:
  assumes "b \<noteq> 0" "a \<noteq> - (2 ^ 63) \<or> b \<noteq> - 1"
  shows "CeilOfRatio a b = Some (- ((- a) div b))"
  using assms ceil_ratio_eq[of b a] by (simp add: CeilOfRatio_def CeilOrFloorOfRatio_def Let_def)

lemma FloorOfRatio_eq:
  assumes "b \<noteq> 0" "a \<noteq> - (2 ^ 63) \<or> b \<noteq> - 1"
  shows "FloorOfRatio a b = Some (a div b)"
  using assms floor_ratio_eq[of b a] by (simp add: FloorOfRatio_def CeilOrFloorOfRatio_def Let_def)

lemma CeilOfRatio_nat: "0 < d \<Longrightarrow> CeilOfRatio (int n) (int d) = Some (int ((n + d - 1) div d))"
proof -
  assume d: "0 < d"
  define q where "q = (n + d - 1) div d"
  define r where "r = (n + d - 1) mod d"
  have "n + d - 1 = q * d + r" "r < d" using d by (simp_all add: q_def r_def)
  then have "- int n = int d * (- int q) + (int d - 1 - int r)" "0 \<le> int d - 1 - int r" "int d - 1 - int r < int d"
    using d by (simp_all add: algebra_simps flip: of_nat_mult of_nat_add)
  then have "(- int n) div int d = - int q" by (rule int_div_pos_eq)
  then show ?thesis using d by (simp add: CeilOfRatio_eq q_def)
qed

section \<open>Masks and logarithms\<close>

lemma Mask_eq [simp]: "n \<le> 64 \<Longrightarrow> Mask n = Some (mask n)"
  by (auto simp: Mask_def mask_eq_exp_minus_1 push_bit_eq_mult)

lemma and_one_neq_0: "(x::u64) AND 1 \<noteq> 0 \<longleftrightarrow> bit x 0"
  by (simp add: and_one_eq bit_0 odd_iff_mod_2_eq_one)

lemma Clz_bits:
  assumes "v \<noteq> 0"
  shows "Clz v < 64 \<and> bit v (63 - Clz v) \<and> (\<forall>i > 63 - Clz v. \<not> bit v i)"
proof -
  let ?P = "\<lambda>i. bit v (63 - i)"
  obtain k where k: "bit v k" using assms by (auto simp: bit_eq_iff)
  then have "k < 64" using bit_imp_le_length by fastforce
  then obtain i where i: "find ?P [0..<64] = Some i"
    using k by (cases "find ?P [0..<64]") (auto simp: find_upt_None dest: spec[of _ "63 - k"])
  then have c: "Clz v = i" by (simp add: Clz_def and_one_neq_0 bit_drop_bit_eq)
  have "\<not> bit v j" if "63 - i < j" for j
  proof
    assume b: "bit v j"
    then have "j < 64" using bit_imp_le_length by fastforce
    then show False using i that b by (auto simp: find_upt_Some dest!: spec[of _ "63 - j"])
  qed
  then show ?thesis using i c by (auto simp: find_upt_Some)
qed

lemma FloorOfLog2_bounds:
  assumes "v \<noteq> 0"
  shows "2 ^ FloorOfLog2 v \<le> unat v \<and> unat v < 2 ^ Suc (FloorOfLog2 v)"
proof
  have k: "FloorOfLog2 v = 63 - Clz v" using assms by (simp add: FloorOfLog2_def)
  have "bit (unat v) (FloorOfLog2 v)" using Clz_bits[OF assms] by (simp add: k bit_unat)
  then show "2 ^ FloorOfLog2 v \<le> unat v"
    using bit_nat_less_iff[of "unat v" "FloorOfLog2 v"] by (auto simp: not_less)
  show "unat v < 2 ^ Suc (FloorOfLog2 v)"
    by (rule bit_nat_less) (use Clz_bits[OF assms] in \<open>simp add: k bit_unat\<close>)
qed

lemma and_pred_eq_0_iff:
  assumes "2 ^ k \<le> unat (v::u64)" "unat v < 2 ^ Suc k"
  shows "v AND (v - 1) = 0 \<longleftrightarrow> unat v = 2 ^ k"
proof -
  have v0: "v \<noteq> 0" using assms(1) by auto
  then have p: "unat (v - 1) = unat v - 1" by (simp add: unat_minus_one)
  show ?thesis
  proof
    assume "v AND (v - 1) = 0"
    then have "\<not> bit v k \<or> \<not> bit (v - 1) k" by (metis bit_0_eq bit_and_iff bot_apply bot_bool_def)
    moreover have "bit v k" using bit_top[OF assms] by (simp add: bit_unat)
    ultimately have "\<not> bit (unat v - 1) k" by (simp add: p flip: bit_unat)
    then have "\<not> 2 ^ k \<le> unat v - 1" using bit_top[of k "unat v - 1"] less_imp_diff_less[OF assms(2)] by blast
    then show "unat v = 2 ^ k" using assms(1) by linarith
  next
    assume e: "unat v = 2 ^ k"
    have "\<not> (bit v n \<and> bit (v - 1) n)" for n
    proof -
      have "bit v n \<longleftrightarrow> n = k" by (simp add: e bit_exp_iff flip: bit_unat)
      moreover have "\<not> bit (v - 1) k"
        by (simp add: p e bit_nat_less_iff[THEN iffD1, rule_format, of _ k] flip: bit_unat)
      ultimately show ?thesis by auto
    qed
    then show "v AND (v - 1) = 0" by (auto intro!: bit_eqI simp: bit_and_iff)
  qed
qed

lemma CeilOfLog2_bounds:
  assumes "v \<noteq> 0"
  shows "unat v \<le> 2 ^ CeilOfLog2 v \<and> (\<forall>k. unat v \<le> 2 ^ k \<longrightarrow> CeilOfLog2 v \<le> k)"
proof -
  note b = FloorOfLog2_bounds[OF assms]
  note a = and_pred_eq_0_iff[OF b[THEN conjunct1] b[THEN conjunct2]]
  have le: "k \<le> j" if "(2::nat) ^ k \<le> 2 ^ j" for k j
    using that by simp
  show ?thesis
  proof (cases "unat v = 2 ^ FloorOfLog2 v")
    case True
    then show ?thesis using assms a by (auto simp: CeilOfLog2_def)
  next
    case False
    then have "2 ^ FloorOfLog2 v < unat v" using b by simp
    then have "Suc (FloorOfLog2 v) \<le> k" if "unat v \<le> 2 ^ k" for k
      using power_strict_increasing_iff[of "2::nat" "FloorOfLog2 v" k] that
      by (simp add: Suc_le_eq del: power_strict_increasing_iff)
    with False show ?thesis using assms a b by (auto simp: CeilOfLog2_def Let_def)
  qed
qed

lemma IsPowerOfTwo_iff: "IsPowerOfTwo x \<longleftrightarrow> (\<exists>k. unat x = 2 ^ k)"
proof (cases "x = 0")
  case False
  note b = FloorOfLog2_bounds[OF False]
  note a = and_pred_eq_0_iff[OF b[THEN conjunct1] b[THEN conjunct2]]
  have "unat x = 2 ^ k \<Longrightarrow> k = FloorOfLog2 x" for k
    using b by (metis le_antisym less_Suc_eq_le one_less_numeral_iff power_increasing_iff power_strict_increasing_iff semiring_norm(76))
  with False a show ?thesis by (auto simp: IsPowerOfTwo_def)
qed (auto simp: IsPowerOfTwo_def)

lemma IsEven_iff: "IsEven x \<longleftrightarrow> even (unat x)"
  using and_one_neq_0[of x] bit_unat[of x 0] by (simp add: IsEven_def bit_0)

lemma FactorizePowerOfTwo_loop_spec:
  "FactorizePowerOfTwo_loop x n = (y, m) \<Longrightarrow>
     n \<le> m \<and> unat x * 2 ^ n = unat y * 2 ^ m \<and> (x \<noteq> 0 \<longrightarrow> odd (unat y)) \<and> (x = 0 \<longrightarrow> m = n)"
proof (induction x n rule: FactorizePowerOfTwo_loop.induct)
  case (1 x n)
  show ?case
  proof (cases "IsEven x \<and> x > 0")
    case True
    then have ev: "unat (x div 2) * 2 = unat x" by (simp add: IsEven_iff unat_div)
    then have "x div 2 \<noteq> 0" using True by (auto simp: word_gt_0 simp flip: unat_eq_zero)
    then show ?thesis
      using 1 True by (auto simp: FactorizePowerOfTwo_loop.simps[of x n] simp flip: ev)
  next
    case False
    then show ?thesis using 1(2) by (auto simp: FactorizePowerOfTwo_loop.simps[of x n] IsEven_iff word_gt_0)
  qed
qed

section \<open>The mixed-radix counter\<close>

lemma increment_number_digits:
  assumes "\<forall>r \<in> set radix. 0 < r" "k < radix_count radix"
  shows "increment_number radix (mixed_digits radix k)
           = (mixed_digits radix (Suc k mod radix_count radix), Suc k = radix_count radix)"
  using assms
proof (induction radix arbitrary: k)
  case Nil
  then show ?case by (simp add: radix_count_def)
next
  case (Cons r rs)
  define R C where "R = nat r" and "C = radix_count rs"
  have R: "0 < R" "r = int R" and cnt: "radix_count (r # rs) = R * C"
    using Cons.prems(1) by (auto simp: R_def C_def radix_count_def)
  then have cnt': "radix_count (int R # rs) = R * C" by simp
  have kd: "k div R < C" using Cons.prems(2) by (simp add: cnt less_mult_imp_div_less mult.commute)
  have sk: "Suc k mod (R * C) = R * (Suc k div R mod C) + Suc k mod R" by (rule mod_mult2_eq)
  have IH: "increment_number rs (mixed_digits rs (k div R))
      = (mixed_digits rs (Suc (k div R) mod C), Suc (k div R) = C)"
    using Cons.IH[of "k div R"] Cons.prems(1) kd by (simp add: C_def)
  show ?case
  proof (cases "int (k mod R) + 1 \<ge> r")
    case True
    then have m: "Suc (k mod R) = R" using R mod_less_divisor[of R k] by linarith
    then have d: "Suc k mod R = 0" "Suc k div R = Suc (k div R)"
      by (simp_all add: mod_Suc div_Suc)
    have "(Suc k = R * C) = (Suc (k div R) = C)"
      using d R by (metis div_mult_self1_is_m mod_0_imp_dvd dvd_div_mult_self mult.commute)
    then show ?thesis using True IH R sk d by (simp add: cnt')
  next
    case False
    then have m: "Suc (k mod R) < R" using R by linarith
    then have d: "Suc k mod R = Suc (k mod R)" "Suc k div R = k div R"
      by (simp_all add: mod_Suc div_Suc)
    have "Suc k \<noteq> R * C" using d m by (metis mod_mult_self1_is_0 nat.distinct(1))
    then show ?thesis using False R sk d kd m by (simp add: cnt')
  qed
qed

lemma mixed_digits_0: "mixed_digits radix 0 = replicate (length radix) 0"
  by (induction radix) simp_all

lemma MixedRadixIterate_loop_eq:
  assumes "\<forall>r \<in> set radix. 0 < r" "k < radix_count radix" "radix_count radix - k \<le> fuel"
  shows "MixedRadixIterate_loop fuel radix f (mixed_digits radix k) s
           = Some (visit_until f (map (mixed_digits radix) [k..<radix_count radix]) s)"
  using assms(2,3)
proof (induction fuel arbitrary: k s)
  case (Suc fuel)
  have u: "[k..<radix_count radix] = k # [Suc k..<radix_count radix]"
    using Suc.prems by (simp add: upt_conv_Cons)
  show ?case
    using Suc increment_number_digits[OF assms(1) Suc.prems(1)]
    by (cases "Suc k = radix_count radix") (auto simp: u split: prod.splits)
qed simp

lemma MixedRadixIterate_eq:
  assumes "\<forall>r \<in> set radix. 0 < r" "radix_count radix \<le> fuel"
  shows "MixedRadixIterate fuel radix f s
           = Some (visit_until f (map (mixed_digits radix) [0..<radix_count radix]) s)"
proof -
  have "0 < radix_count radix" using assms(1) by (induction radix) (auto simp: radix_count_def)
  then show ?thesis
    using MixedRadixIterate_loop_eq[of radix 0 fuel f s] assms
    by (simp add: MixedRadixIterate_def mixed_digits_0)
qed

lemma mixed_digits_inj:
  assumes "\<forall>r \<in> set radix. 0 < r" "j < radix_count radix" "k < radix_count radix"
    "mixed_digits radix j = mixed_digits radix k"
  shows "j = k"
  using assms
proof (induction radix arbitrary: j k)
  case (Cons r rs)
  then have "j mod nat r = k mod nat r" "j div nat r = k div nat r"
    by (auto simp: radix_count_def less_mult_imp_div_less mult.commute)
  then show ?case by (metis div_mult_mod_eq)
qed (simp add: radix_count_def)

lemma mixed_digits_below: "\<forall>r \<in> set radix. 0 < r \<Longrightarrow> list_all2 (\<lambda>d r. 0 \<le> d \<and> d < r) (mixed_digits radix k) radix"
proof (induction radix arbitrary: k)
  case (Cons r rs)
  have "int (k mod nat r) < r" using Cons.prems by (simp add: zmod_int)
  then show ?case using Cons by simp
qed simp

lemma mixed_digits_surj:
  assumes "list_all2 (\<lambda>d r. 0 \<le> d \<and> d < r) number radix"
  shows "\<exists>k < radix_count radix. mixed_digits radix k = number"
  using assms
proof (induction rule: list_all2_induct)
  case (Cons d number r radix)
  then obtain k where k: "k < radix_count radix" "mixed_digits radix k = number" by blast
  let ?k = "nat d + nat r * k"
  have d: "nat d < nat r" using Cons.hyps by auto
  have "?k mod nat r = nat d" "?k div nat r = k" using d by simp_all
  moreover have "?k < nat r * radix_count radix"
  proof -
    have "?k < nat r * Suc k" using d by simp
    also have "\<dots> \<le> nat r * radix_count radix" using k(1) by (intro mult_le_mono2) simp
    finally show ?thesis .
  qed
  ultimately show ?case using k(2) Cons.hyps by (intro exI[of _ ?k]) (simp add: radix_count_def)
qed (simp add: radix_count_def)

end
