(* ===== verification/BitStore.thy ===== *)
theory BitStore
  imports XlsPrelude
begin

text \<open>
  The interface between the bitmap that stores bits (\<open>InlineBitmap\<close>) and the code that builds
  values bit by bit (\<open>Bits(span)\<close>, \<open>Bits::Slice\<close>, \<open>BitsRope\<close>): a store of fixed width with
  checked reads and writes. The lemmas say what a loop of writes leaves in the store.
\<close>

locale bit_store =
  fixes width :: "'s \<Rightarrow> nat"
    and get :: "'s \<Rightarrow> nat \<Rightarrow> bool option"
    and put :: "'s \<Rightarrow> nat \<Rightarrow> bool \<Rightarrow> 's option"
    and fresh :: "nat \<Rightarrow> 's option"
    and invar :: "'s \<Rightarrow> bool"
    and num :: "'s \<Rightarrow> nat"
  assumes fresh_ok: "\<exists>s. fresh n = Some s \<and> invar s \<and> width s = n \<and> num s = 0"
    and get_eq: "invar s \<Longrightarrow> get s i = (if i < width s then Some (bit (num s) i) else None)"
    and put_ok: "invar s \<Longrightarrow> i < width s \<Longrightarrow>
      \<exists>t. put s i x = Some t \<and> invar t \<and> width t = width s \<and>
          (\<forall>j. bit (num t) j \<longleftrightarrow> (if j = i then x else bit (num s) j))"
    and put_out: "invar s \<Longrightarrow> \<not> i < width s \<Longrightarrow> put s i x = None"
begin

lemma fill_ok:
  assumes "invar s" "a + n \<le> width s"
  shows "\<exists>t. for_state (\<lambda>i t. put t (a + i) (f i)) [0..<n] s = Some t \<and> invar t \<and> width t = width s \<and>
     (\<forall>j. bit (num t) j \<longleftrightarrow> (if a \<le> j \<and> j < a + n then f (j - a) else bit (num s) j))"
proof (rule for_state_upt[where P = "\<lambda>k t. invar t \<and> width t = width s \<and>
     (\<forall>j. bit (num t) j \<longleftrightarrow> (if a \<le> j \<and> j < a + k then f (j - a) else bit (num s) j))"])
  fix i t
  assume i: "i < n" and t: "invar t \<and> width t = width s \<and>
     (\<forall>j. bit (num t) j \<longleftrightarrow> (if a \<le> j \<and> j < a + i then f (j - a) else bit (num s) j))"
  then obtain u where "put t (a + i) (f i) = Some u" "invar u" "width u = width s"
    "\<forall>j. bit (num u) j \<longleftrightarrow> (if j = a + i then f i else bit (num t) j)"
    using put_ok[of t "a + i" "f i"] assms(2) by auto
  then show "\<exists>u. put t (a + i) (f i) = Some u \<and> invar u \<and> width u = width s \<and>
     (\<forall>j. bit (num u) j \<longleftrightarrow> (if a \<le> j \<and> j < a + Suc i then f (j - a) else bit (num s) j))"
    using t by (auto simp: less_Suc_eq)
qed (use assms in auto)

text \<open>Writing only where a condition holds, as \<open>Slice\<close> does on a fresh store.\<close>

lemma fill_where_ok:
  assumes "invar s" "n \<le> width s" "num s = 0"
  shows "\<exists>t. for_state (\<lambda>i t. if f i then put t i True else Some t) [0..<n] s = Some t \<and> invar t \<and>
     width t = width s \<and> (\<forall>j. bit (num t) j \<longleftrightarrow> j < n \<and> f j)"
proof (rule for_state_upt[where P = "\<lambda>k t. invar t \<and> width t = width s \<and>
     (\<forall>j. bit (num t) j \<longleftrightarrow> j < k \<and> f j)"])
  fix i t
  assume i: "i < n" and t: "invar t \<and> width t = width s \<and> (\<forall>j. bit (num t) j \<longleftrightarrow> j < i \<and> f j)"
  then obtain u where "put t i True = Some u" "invar u" "width u = width s"
    "\<forall>j. bit (num u) j \<longleftrightarrow> (if j = i then True else bit (num t) j)"
    using put_ok[of t i True] assms(2) by auto
  then show "\<exists>u. (if f i then put t i True else Some t) = Some u \<and> invar u \<and> width u = width s \<and>
     (\<forall>j. bit (num u) j \<longleftrightarrow> j < Suc i \<and> f j)"
    using t by (auto simp: less_Suc_eq)
qed (use assms in auto)

end

end
