(* ===== verification/InlineBitmap.thy ===== *)
theory InlineBitmap
  imports MathUtil BitStore
begin

text \<open>
  \<open>xls/data_structures/inline_bitmap.h\<close>: a bitmap of \<open>bit_count_\<close> bits held in 64-bit words, least
  significant first, with every bit above \<open>bit_count_\<close> kept at zero. Each member function is a
  definition \<open>InlineBitmap_<name>\<close>; mutating ones return the new bitmap. The second half
  relates a bitmap to its number \<open>uval\<close>, shows that the width and the number determine it, and
  gives the effect of every operation on the number.
\<close>

section \<open>The class\<close>

record inline_bitmap =
  bit_count :: nat
  data :: "u64 list"

definition kWordBits :: nat where
  "kWordBits = 64"

definition word_count :: "inline_bitmap \<Rightarrow> nat" where
  "word_count b = length (data b)"

definition byte_count :: "inline_bitmap \<Rightarrow> nat option" where
  "byte_count b = do { n \<leftarrow> CeilOfRatio (int (bit_count b)) 8; Some (nat n) }"

definition MaskForWord :: "inline_bitmap \<Rightarrow> nat \<Rightarrow> u64 option" where
  "MaskForWord b wordno =
     (let remainder = bit_count b mod kWordBits
      in if wordno + 1 < word_count b \<or> remainder = 0 then Mask kWordBits else Mask remainder)"

definition MaskLastWord :: "inline_bitmap \<Rightarrow> inline_bitmap option" where
  "MaskLastWord b =
     (if word_count b = 0 then Some b
      else do {
        let last_wordno = word_count b - 1;
        m \<leftarrow> MaskForWord b last_wordno;
        Some (b\<lparr>data := (data b)[last_wordno := (data b ! last_wordno) AND m]\<rparr>) })"

definition InlineBitmap_new :: "nat \<Rightarrow> bool \<Rightarrow> inline_bitmap option" where
  "InlineBitmap_new n fill = do {
     words \<leftarrow> CeilOfRatio (int n) (int kWordBits);
     MaskLastWord \<lparr>bit_count = n, data = replicate (nat words) (if fill then - 1 else 0)\<rparr> }"

definition InlineBitmap_FromWord :: "u64 \<Rightarrow> nat \<Rightarrow> bool \<Rightarrow> inline_bitmap option" where
  "InlineBitmap_FromWord word n fill = do {
     result \<leftarrow> InlineBitmap_new n fill;
     if n \<noteq> 0 then do {
       m \<leftarrow> MaskForWord result 0;
       Some (result\<lparr>data := (data result)[0 := word AND m]\<rparr>) }
     else Some result }"

text \<open>
  The byte view of the words (\<open>std::memcpy\<close>, \<open>bit_cast<uint8_t*>\<close>) on a little-endian machine,
  which the class checks for: byte \<open>j\<close> is byte \<open>j mod 8\<close> of word \<open>j div 8\<close>.
\<close>

definition get_byte :: "u64 list \<Rightarrow> nat \<Rightarrow> u8" where
  "get_byte ws j = ucast (drop_bit (8 * (j mod 8)) (ws ! (j div 8)))"

definition put_byte :: "nat \<Rightarrow> u8 \<Rightarrow> u64 list \<Rightarrow> u64 list" where
  "put_byte j v ws =
     ws[j div 8 := (ws ! (j div 8) AND NOT (push_bit (8 * (j mod 8)) 255))
                   OR push_bit (8 * (j mod 8)) (ucast v)]"

definition InlineBitmap_FromBytes :: "nat \<Rightarrow> u8 list \<Rightarrow> inline_bitmap option" where
  "InlineBitmap_FromBytes n bytes = do {
     result \<leftarrow> InlineBitmap_new n False;
     bc \<leftarrow> CeilOfRatio (int n) 8;
     check (int (length bytes) = bc);
     MaskLastWord (result\<lparr>data := fold (\<lambda>j. put_byte j (bytes ! j)) [0..<nat bc] (data result)\<rparr>) }"

definition InlineBitmap_eq :: "inline_bitmap \<Rightarrow> inline_bitmap \<Rightarrow> bool option" where
  "InlineBitmap_eq a b =
     (if bit_count a \<noteq> bit_count b then Some False
      else do {
        r \<leftarrow> for_find (\<lambda>wordno. do {
               m \<leftarrow> MaskForWord a wordno;
               lhs \<leftarrow> list_at (data a) wordno;
               rhs \<leftarrow> list_at (data b) wordno;
               Some (if lhs AND m \<noteq> rhs AND m then Some False else None) }) [0..<word_count a];
        Some (case r of Some x \<Rightarrow> x | None \<Rightarrow> True) })"

definition InlineBitmap_IsAllOnes :: "inline_bitmap \<Rightarrow> bool option" where
  "InlineBitmap_IsAllOnes b = do {
     r \<leftarrow> for_find (\<lambda>wordno. do {
            m \<leftarrow> MaskForWord b wordno;
            w \<leftarrow> list_at (data b) wordno;
            Some (if w AND m \<noteq> m then Some False else None) }) [0..<word_count b];
     Some (case r of Some x \<Rightarrow> x | None \<Rightarrow> True) }"

definition InlineBitmap_IsAllZeroes :: "inline_bitmap \<Rightarrow> bool option" where
  "InlineBitmap_IsAllZeroes b = do {
     r \<leftarrow> for_find (\<lambda>wordno. do {
            m \<leftarrow> MaskForWord b wordno;
            w \<leftarrow> list_at (data b) wordno;
            Some (if w AND m \<noteq> 0 then Some False else None) }) [0..<word_count b];
     Some (case r of Some x \<Rightarrow> x | None \<Rightarrow> True) }"

definition InlineBitmap_Get :: "inline_bitmap \<Rightarrow> nat \<Rightarrow> bool option" where
  "InlineBitmap_Get b index = do {
     check (index < bit_count b);
     word \<leftarrow> list_at (data b) (index div kWordBits);
     let bitno = index mod kWordBits;
     Some ((drop_bit bitno word) AND 1 \<noteq> 0) }"

definition InlineBitmap_Set :: "inline_bitmap \<Rightarrow> nat \<Rightarrow> bool \<Rightarrow> inline_bitmap option" where
  "InlineBitmap_Set b index v = do {
     check (index < bit_count b);
     word \<leftarrow> list_at (data b) (index div kWordBits);
     let bitno = index mod kWordBits;
     let word' = (if v then word OR push_bit bitno 1 else word AND NOT (push_bit bitno 1));
     Some (b\<lparr>data := (data b)[index div kWordBits := word']\<rparr>) }"

definition InlineBitmap_SetRange :: "inline_bitmap \<Rightarrow> nat \<Rightarrow> nat \<Rightarrow> bool \<Rightarrow> inline_bitmap option" where
  "InlineBitmap_SetRange b lower_index upper_index v = do {
     check (upper_index \<le> bit_count b);
     for_state (\<lambda>index b'. InlineBitmap_Set b' index v) [lower_index..<upper_index] b }"

definition InlineBitmap_SetAllBitsToFalse :: "inline_bitmap \<Rightarrow> inline_bitmap" where
  "InlineBitmap_SetAllBitsToFalse b = b\<lparr>data := replicate (length (data b)) 0\<rparr>"

definition InlineBitmap_GetWord :: "inline_bitmap \<Rightarrow> nat \<Rightarrow> u64 option" where
  "InlineBitmap_GetWord b wordno =
     (if wordno = 0 \<and> word_count b = 0 then Some 0
      else do { check (wordno < word_count b); list_at (data b) wordno })"

definition InlineBitmap_SetByte :: "inline_bitmap \<Rightarrow> nat \<Rightarrow> u8 \<Rightarrow> inline_bitmap option" where
  "InlineBitmap_SetByte b byteno v = do {
     n \<leftarrow> byte_count b;
     check (byteno < n);
     MaskLastWord (b\<lparr>data := put_byte byteno v (data b)\<rparr>) }"

definition InlineBitmap_GetByte :: "inline_bitmap \<Rightarrow> nat \<Rightarrow> u8 option" where
  "InlineBitmap_GetByte b byteno = do {
     n \<leftarrow> byte_count b;
     check (byteno < n);
     Some (get_byte (data b) byteno) }"

text \<open>The copy into a buffer that is too short would write past its end: it aborts here.\<close>

definition InlineBitmap_WriteBytesToBuffer :: "inline_bitmap \<Rightarrow> u8 list \<Rightarrow> u8 list option" where
  "InlineBitmap_WriteBytesToBuffer b bytes = do {
     n \<leftarrow> CeilOfRatio (int (bit_count b)) 8;
     check (nat n \<le> length bytes);
     Some (map (get_byte (data b)) [0..<nat n] @ drop (nat n) bytes) }"

text \<open>
  \<open>UCmp\<close>: the wider operand's excess bits first, most significant first, then the common bits.
\<close>

definition InlineBitmap_UCmp :: "inline_bitmap \<Rightarrow> inline_bitmap \<Rightarrow> int option" where
  "InlineBitmap_UCmp a b = do {
     let bit_min = min (bit_count a) (bit_count b);
     r1 \<leftarrow> for_find (\<lambda>my_idx. do {
             x \<leftarrow> InlineBitmap_Get a my_idx;
             Some (if x then Some 1 else None) }) (rev [bit_min..<bit_count a]);
     (case r1 of Some r \<Rightarrow> Some r
      | None \<Rightarrow> do {
          r2 \<leftarrow> for_find (\<lambda>other_idx. do {
                  x \<leftarrow> InlineBitmap_Get b other_idx;
                  Some (if x then Some (- 1) else None) }) (rev [bit_min..<bit_count b]);
          (case r2 of Some r \<Rightarrow> Some r
           | None \<Rightarrow> do {
               r3 \<leftarrow> for_find (\<lambda>idx. do {
                       my_word \<leftarrow> InlineBitmap_Get a idx;
                       other_word \<leftarrow> InlineBitmap_Get b idx;
                       Some (if my_word \<and> \<not> other_word then Some 1
                             else if \<not> my_word \<and> other_word then Some (- 1) else None) })
                     (rev [0..<bit_min]);
               Some (case r3 of Some r \<Rightarrow> r | None \<Rightarrow> 0) }) }) }"

definition InlineBitmap_Union :: "inline_bitmap \<Rightarrow> inline_bitmap \<Rightarrow> inline_bitmap option" where
  "InlineBitmap_Union b other = do {
     check (bit_count b = bit_count other);
     ws \<leftarrow> for_state (\<lambda>i ws. do { w \<leftarrow> list_at ws i; o' \<leftarrow> list_at (data other) i; Some (ws[i := w OR o']) })
             [0..<length (data b)] (data b);
     Some (b\<lparr>data := ws\<rparr>) }"

section \<open>The number a bitmap holds\<close>

definition uval :: "inline_bitmap \<Rightarrow> nat" where
  "uval b = words_nat (data b)"

definition bm_inv :: "inline_bitmap \<Rightarrow> bool" where
  "bm_inv b \<longleftrightarrow> length (data b) = (bit_count b + 63) div 64 \<and> uval b < 2 ^ bit_count b"

text \<open>The canonical bitmap of width \<open>n\<close> that holds the low \<open>n\<close> bits of \<open>v\<close>.\<close>

definition mk_bits :: "nat \<Rightarrow> nat \<Rightarrow> inline_bitmap" where
  "mk_bits n v = \<lparr>bit_count = n,
     data = map (\<lambda>k. word_of_nat (drop_bit (64 * k) (take_bit n v))) [0..<(n + 63) div 64]\<rparr>"

text \<open>Its bytes, least significant first.\<close>

definition bytes_of :: "nat \<Rightarrow> nat \<Rightarrow> u8 list" where
  "bytes_of n v = map (\<lambda>j. word_of_nat (drop_bit (8 * j) (take_bit n v))) [0..<(n + 7) div 8]"

lemma bit_uval: "bit (uval b) i \<longleftrightarrow> i div 64 < length (data b) \<and> bit (data b ! (i div 64)) (i mod 64)"
  by (simp add: uval_def bit_words_nat)

lemma mk_bits_fields [simp]:
  "bit_count (mk_bits n v) = n" "length (data (mk_bits n v)) = (n + 63) div 64"
  "word_count (mk_bits n v) = (n + 63) div 64"
  by (simp_all add: mk_bits_def word_count_def)

lemma word_index_less: "i < n \<Longrightarrow> i div 64 < (n + 63) div 64" for i n :: nat
  by linarith

lemma bit_data_mk_bits:
  "k < (n + 63) div 64 \<Longrightarrow>
     bit (data (mk_bits n v) ! k) m \<longleftrightarrow> m < 64 \<and> 64 * k + m < n \<and> bit v (64 * k + m)"
  by (auto simp: mk_bits_def bit_word_of_nat bit_drop_bit_eq bit_take_bit_iff)

lemma bit_data_mk_bits_index:
  "i < n \<Longrightarrow> bit (data (mk_bits n v) ! (i div 64)) (i mod 64) \<longleftrightarrow> bit v i"
  by (simp add: bit_data_mk_bits word_index_less)

lemma uval_mk_bits [simp]: "uval (mk_bits n v) = take_bit n v"
proof (rule nat_bit_eqI)
  fix i
  show "bit (uval (mk_bits n v)) i \<longleftrightarrow> bit (take_bit n v) i"
    using word_index_less[of i n] by (auto simp: bit_uval bit_data_mk_bits bit_take_bit_iff)
qed

lemma bm_inv_mk_bits [simp]: "bm_inv (mk_bits n v)"
  by (simp add: bm_inv_def)

lemma words_eqI:
  assumes "length ws = length us"
    and "\<And>k m. k < length ws \<Longrightarrow> m < 64 \<Longrightarrow> bit ((ws :: u64 list) ! k) m \<longleftrightarrow> bit (us ! k) m"
  shows "ws = us"
  using assms by (auto intro!: nth_equalityI bit_word_eqI)

text \<open>A bitmap is the canonical one as soon as its words hold the right bits.\<close>

lemma eq_mk_bitsI:
  assumes "bit_count b = n" "length (data b) = (n + 63) div 64"
    and "\<And>k m. k < (n + 63) div 64 \<Longrightarrow> m < 64 \<Longrightarrow>
           bit (data b ! k) m \<longleftrightarrow> 64 * k + m < n \<and> bit v (64 * k + m)"
  shows "b = mk_bits n v"
proof -
  have "data b = data (mk_bits n v)"
    using assms by (intro words_eqI) (auto simp: bit_data_mk_bits)
  then show ?thesis using assms(1) by (cases b) (simp add: mk_bits_def)
qed

lemma bm_inv_eq_mk_bits: "bm_inv b \<Longrightarrow> b = mk_bits (bit_count b) (uval b)"
proof (rule eq_mk_bitsI)
  fix k m :: nat
  assume inv: "bm_inv b" and k: "k < (bit_count b + 63) div 64" "m < 64"
  then have km: "(64 * k + m) div 64 = k" "(64 * k + m) mod 64 = m" by simp_all
  have "bit (data b ! k) m \<longleftrightarrow> bit (uval b) (64 * k + m)"
    using inv k by (simp add: bit_uval km bm_inv_def)
  moreover have "bit (uval b) (64 * k + m) \<Longrightarrow> 64 * k + m < bit_count b"
    using inv by (auto simp: bm_inv_def bit_nat_less_iff not_le)
  ultimately show "bit (data b ! k) m \<longleftrightarrow> 64 * k + m < bit_count b \<and> bit (uval b) (64 * k + m)"
    by auto
qed (simp_all add: bm_inv_def)

lemma bm_inv_cases:
  assumes "bm_inv b"
  obtains n v where "b = mk_bits n v" "v < 2 ^ n"
  using bm_inv_eq_mk_bits[OF assms] assms by (auto simp: bm_inv_def)

lemma mk_bits_eq_iff: "mk_bits n v = mk_bits m w \<longleftrightarrow> n = m \<and> take_bit n v = take_bit n w"
proof
  assume "n = m \<and> take_bit n v = take_bit n w"
  then show "mk_bits n v = mk_bits m w" by (auto simp: mk_bits_def)
next
  assume e: "mk_bits n v = mk_bits m w"
  then show "n = m \<and> take_bit n v = take_bit n w" by (metis mk_bits_fields(1) uval_mk_bits)
qed

lemma mk_bits_take_bit [simp]: "mk_bits n (take_bit n v) = mk_bits n v"
  by (simp add: mk_bits_eq_iff)

lemma bm_ext: "bm_inv a \<Longrightarrow> bm_inv b \<Longrightarrow> bit_count a = bit_count b \<Longrightarrow> uval a = uval b \<Longrightarrow> a = b"
  by (metis bm_inv_eq_mk_bits)

section \<open>Every operation on the canonical form\<close>

lemma ceil_words [simp]: "CeilOfRatio (int n) 64 = Some (int ((n + 63) div 64))"
  using CeilOfRatio_nat[of 64 n] by simp

lemma ceil_bytes [simp]: "CeilOfRatio (int n) 8 = Some (int ((n + 7) div 8))"
  using CeilOfRatio_nat[of 8 n] by simp

lemma byte_count_eq [simp]: "byte_count b = Some ((bit_count b + 7) div 8)"
  by (simp add: byte_count_def)

lemma MaskForWord_eq:
  assumes "length (data b) = (bit_count b + 63) div 64" "k < length (data b)"
  shows "\<exists>m. MaskForWord b k = Some m \<and> (\<forall>j < 64. bit m j \<longleftrightarrow> 64 * k + j < bit_count b)"
proof (cases "k + 1 < length (data b) \<or> bit_count b mod 64 = 0")
  case True
  have "64 * k + 63 < bit_count b"
  proof (cases "k + 1 < length (data b)")
    case False
    with True obtain q where "bit_count b = 64 * q" by (auto simp: mod_0_imp_dvd elim: dvdE)
    moreover from this have "(bit_count b + 63) div 64 = q" by simp
    ultimately show ?thesis using assms by simp
  qed (use assms in linarith)
  then show ?thesis using True by (auto simp: MaskForWord_def word_count_def kWordBits_def bit_mask_iff)
next
  case False
  define q r where "q = bit_count b div 64" and "r = bit_count b mod 64"
  have n: "bit_count b = 64 * q + r" "0 < r" "r < 64" using False by (simp_all add: q_def r_def)
  then have "(bit_count b + 63) div 64 = Suc q" by linarith
  then have "64 * k + bit_count b mod 64 = bit_count b" using False assms n by simp
  then show ?thesis
    using False by (auto simp: MaskForWord_def word_count_def kWordBits_def bit_mask_iff Let_def)
qed

lemma MaskLastWord_eq:
  assumes len: "length (data b) = (bit_count b + 63) div 64"
    and bits: "\<And>k m. k < length (data b) \<Longrightarrow> m < 64 \<Longrightarrow> 64 * k + m < bit_count b \<Longrightarrow>
          bit (data b ! k) m \<longleftrightarrow> bit v (64 * k + m)"
  shows "MaskLastWord b = Some (mk_bits (bit_count b) v)"
proof (cases "length (data b) = 0")
  case True
  then have "b = mk_bits (bit_count b) v" using len by (intro eq_mk_bitsI) auto
  then show ?thesis using True by (simp add: MaskLastWord_def word_count_def)
next
  case False
  define l where "l = length (data b) - 1"
  obtain m where m: "MaskForWord b l = Some m" "\<And>j. j < 64 \<Longrightarrow> bit m j \<longleftrightarrow> 64 * l + j < bit_count b"
    using MaskForWord_eq[OF len, of l] False by (auto simp: l_def)
  have "b\<lparr>data := (data b)[l := (data b ! l) AND m]\<rparr> = mk_bits (bit_count b) v"
  proof (rule eq_mk_bitsI)
    fix k j :: nat
    assume k: "k < (bit_count b + 63) div 64" "j < 64"
    show "bit (data (b\<lparr>data := (data b)[l := (data b ! l) AND m]\<rparr>) ! k) j \<longleftrightarrow>
        64 * k + j < bit_count b \<and> bit v (64 * k + j)"
    proof (cases "k = l")
      case True
      then show ?thesis using k m(2) bits[of k j] len by (auto simp: bit_and_iff)
    next
      case False
      then have "k < length (data b) - 1" using k len by (simp add: l_def)
      then have "64 * k + j < bit_count b" using k(2) len by linarith
      then show ?thesis using False bits[of k j] k len by simp
    qed
  qed (use len in auto)
  then show ?thesis using False m(1) by (simp add: MaskLastWord_def word_count_def l_def)
qed

lemma InlineBitmap_new_eq [simp]:
  "InlineBitmap_new n fill = Some (mk_bits n (if fill then mask n else 0))"
proof -
  let ?b = "\<lparr>bit_count = n, data = replicate ((n + 63) div 64) (if fill then - 1 else 0)\<rparr>"
  have "MaskLastWord ?b = Some (mk_bits (bit_count ?b) (if fill then mask n else 0))"
    by (rule MaskLastWord_eq) (auto simp: bit_mask_iff)
  then show ?thesis by (simp add: InlineBitmap_new_def kWordBits_def)
qed

lemma InlineBitmap_FromWord_eq:
  "InlineBitmap_FromWord w n fill = Some (mk_bits n (unat w OR (if fill then push_bit 64 (mask n) else 0)))"
proof (cases "n = 0")
  case False
  let ?r = "mk_bits n (if fill then mask n else 0)"
  have "0 < (n + 63) div 64" using False by linarith
  then obtain m where m: "MaskForWord ?r 0 = Some m" "\<And>j. j < 64 \<Longrightarrow> bit m j \<longleftrightarrow> j < n"
    using MaskForWord_eq[of ?r 0] by auto
  have "?r\<lparr>data := (data ?r)[0 := w AND m]\<rparr> =
      mk_bits n (unat w OR (if fill then push_bit 64 (mask n) else 0))"
  proof (rule eq_mk_bitsI)
    fix k j :: nat
    assume k: "k < (n + 63) div 64" "j < 64"
    have w: "bit w (64 + i) = False" for i using bit_imp_le_length[of w "64 + i"] by auto
    show "bit (data (?r\<lparr>data := (data ?r)[0 := w AND m]\<rparr>) ! k) j \<longleftrightarrow> 64 * k + j < n \<and>
      bit (unat w OR (if fill then push_bit 64 (mask n) else 0)) (64 * k + j)"
      using m(2)[of j] k
      by (cases k) (auto simp: bit_and_iff bit_or_iff bit_unat bit_data_mk_bits bit_mask_iff
        bit_push_bit_iff add.assoc w)
  qed simp_all
  then show ?thesis using False m(1) by (simp add: InlineBitmap_FromWord_def)
qed (simp add: InlineBitmap_FromWord_def mk_bits_eq_iff)

text \<open>Loops over the words under their masks compare the bits below the width.\<close>

lemma masked_words:
  assumes "k < (n + 63) div 64" "MaskForWord (mk_bits n v) k = Some m"
  shows "data (mk_bits n v) ! k AND m = data (mk_bits n v) ! k"
    and "data (mk_bits n w) ! k AND m = data (mk_bits n w) ! k"
    and "m = data (mk_bits n (mask n)) ! k"
proof -
  have m: "bit m j \<longleftrightarrow> 64 * k + j < n" if "j < 64" for j
    using MaskForWord_eq[of "mk_bits n v" k] assms that by auto
  show "data (mk_bits n v) ! k AND m = data (mk_bits n v) ! k"
    "data (mk_bits n w) ! k AND m = data (mk_bits n w) ! k"
    "m = data (mk_bits n (mask n)) ! k"
    using assms(1) by (auto intro!: bit_word_eqI simp: bit_and_iff bit_data_mk_bits m bit_mask_iff)
qed

lemma find_differing_word:
  "(find (\<lambda>k. data (mk_bits n v) ! k \<noteq> data (mk_bits n w) ! k) [0..<(n + 63) div 64] = None)
     \<longleftrightarrow> take_bit n v = take_bit n w"
proof -
  have "(\<forall>k < (n + 63) div 64. data (mk_bits n v) ! k = data (mk_bits n w) ! k)
      \<longleftrightarrow> data (mk_bits n v) = data (mk_bits n w)"
    by (auto simp: list_eq_iff_nth_eq)
  also have "\<dots> \<longleftrightarrow> mk_bits n v = mk_bits n w"
    by (simp add: mk_bits_def)
  finally show ?thesis by (simp add: find_None_iff mk_bits_eq_iff)
qed

lemma masked_loop:
  assumes "\<And>k m. k < (n + 63) div 64 \<Longrightarrow> MaskForWord (mk_bits n v) k = Some m \<Longrightarrow>
      f k m = Some (if data (mk_bits n v) ! k \<noteq> data (mk_bits n w) ! k then Some False else None)"
  shows "for_find (\<lambda>k. MaskForWord (mk_bits n v) k \<bind> f k) [0..<(n + 63) div 64]
           = Some (if take_bit n v = take_bit n w then None else Some False)"
proof -
  let ?P = "\<lambda>k. data (mk_bits n v) ! k \<noteq> data (mk_bits n w) ! k"
  have "for_find (\<lambda>k. MaskForWord (mk_bits n v) k \<bind> f k) [0..<(n + 63) div 64]
      = Some (if \<exists>k \<in> set [0..<(n + 63) div 64]. ?P k then Some False else None)"
  proof (rule for_find_test)
    fix k assume "k \<in> set [0..<(n + 63) div 64]"
    then have k: "k < (n + 63) div 64" by simp
    then obtain m where "MaskForWord (mk_bits n v) k = Some m"
      using MaskForWord_eq[of "mk_bits n v" k] by auto
    then show "(MaskForWord (mk_bits n v) k \<bind> f k) = Some (if ?P k then Some False else None)"
      using assms[OF k] by simp
  qed
  also have "(\<exists>k \<in> set [0..<(n + 63) div 64]. ?P k) \<longleftrightarrow> take_bit n v \<noteq> take_bit n w"
    using find_differing_word[of n v w] by (auto simp: find_None_iff)
  finally show ?thesis by (simp cong: if_cong)
qed

lemma InlineBitmap_eq_eq [simp]:
  "InlineBitmap_eq (mk_bits n v) (mk_bits m w) = Some (mk_bits n v = mk_bits m w)"
proof (cases "n = m")
  case True
  show ?thesis
    unfolding InlineBitmap_eq_def mk_bits_fields True
    by (subst masked_loop[where w = w]) (auto simp: masked_words mk_bits_eq_iff)
qed (simp add: InlineBitmap_eq_def mk_bits_eq_iff)

lemma InlineBitmap_IsAllOnes_eq [simp]:
  "InlineBitmap_IsAllOnes (mk_bits n v) = Some (take_bit n v = mask n)"
  unfolding InlineBitmap_IsAllOnes_def mk_bits_fields
  by (subst masked_loop[where w = "mask n"]) (auto simp: masked_words(1) masked_words(3)[symmetric])

lemma data_mk_bits_0: "k < (n + 63) div 64 \<Longrightarrow> data (mk_bits n 0) ! k = 0"
  by (simp add: mk_bits_def)

lemma InlineBitmap_IsAllZeroes_eq [simp]:
  "InlineBitmap_IsAllZeroes (mk_bits n v) = Some (take_bit n v = 0)"
  unfolding InlineBitmap_IsAllZeroes_def mk_bits_fields
  by (subst masked_loop[where w = 0]) (auto simp: masked_words(1) data_mk_bits_0)

lemma InlineBitmap_Get_eq [simp]:
  "InlineBitmap_Get (mk_bits n v) i = (if i < n then Some (bit v i) else None)"
  by (simp add: InlineBitmap_Get_def kWordBits_def word_index_less and_one_neq_0 bit_drop_bit_eq bit_data_mk_bits)

lemma InlineBitmap_Set_eq [simp]:
  "InlineBitmap_Set (mk_bits n v) i x =
     (if i < n then Some (mk_bits n (if x then set_bit i v else unset_bit i v)) else None)"
proof (cases "i < n")
  case True
  let ?w = "data (mk_bits n v) ! (i div 64)"
  let ?w' = "if x then ?w OR push_bit (i mod 64) 1 else ?w AND NOT (push_bit (i mod 64) 1)"
  have "(mk_bits n v)\<lparr>data := (data (mk_bits n v))[i div 64 := ?w']\<rparr>
      = mk_bits n (if x then set_bit i v else unset_bit i v)"
  proof (rule eq_mk_bitsI)
    fix k m :: nat assume k: "k < (n + 63) div 64" "m < 64"
    have "i = 64 * k + m \<longleftrightarrow> i div 64 = k \<and> i mod 64 = m" using k(2) by auto
    moreover have "bit ?w' m \<longleftrightarrow> (if i mod 64 = m then x else bit ?w m)" using k(2)
      by (auto simp: bit_or_iff bit_and_iff bit_not_iff bit_push_bit_iff bit_1_iff bit_exp_iff)
    ultimately show "bit (data ((mk_bits n v)\<lparr>data := (data (mk_bits n v))[i div 64 := ?w']\<rparr>) ! k) m
       \<longleftrightarrow> 64 * k + m < n \<and> bit (if x then set_bit i v else unset_bit i v) (64 * k + m)"
      using k True by (auto simp: bit_data_mk_bits nth_list_update bit_set_bit_iff bit_unset_bit_iff word_index_less)
  qed simp_all
  then show ?thesis using True by (simp add: InlineBitmap_Set_def kWordBits_def word_index_less Let_def)
qed (simp add: InlineBitmap_Set_def)

lemma InlineBitmap_GetWord_0 [simp]:
  "InlineBitmap_GetWord (mk_bits n v) 0 = Some (word_of_nat (take_bit n v))"
proof (cases "n = 0")
  case False
  then have "0 < (n + 63) div 64" by linarith
  then show ?thesis by (simp add: InlineBitmap_GetWord_def) (simp add: mk_bits_def)
qed (simp add: InlineBitmap_GetWord_def)

lemma InlineBitmap_GetWord_eq:
  "0 < n \<Longrightarrow> InlineBitmap_GetWord (mk_bits n v) k =
     (if k < (n + 63) div 64 then Some (word_of_nat (drop_bit (64 * k) (take_bit n v))) else None)"
  by (auto simp: InlineBitmap_GetWord_def) (simp_all add: mk_bits_def)

lemma InlineBitmap_SetAllBitsToFalse_eq [simp]:
  "InlineBitmap_SetAllBitsToFalse (mk_bits n v) = mk_bits n 0"
  by (auto intro!: eq_mk_bitsI simp: InlineBitmap_SetAllBitsToFalse_def)

lemma InlineBitmap_SetRange_eq [simp]:
  "l \<le> u \<Longrightarrow> InlineBitmap_SetRange (mk_bits n v) l u x =
     (if u \<le> n then Some (mk_bits n (if x then v OR push_bit l (mask (u - l))
                                     else (v OR push_bit l (mask (u - l))) XOR push_bit l (mask (u - l))))
      else None)"
proof (cases "u \<le> n")
  case True
  let ?B = "\<lambda>i t. \<exists>v'. t = mk_bits n v' \<and> (\<forall>j. bit v' j \<longleftrightarrow> (if l \<le> j \<and> j < i then x else bit v j))"
  assume "l \<le> u"
  then have "\<exists>t. for_state (\<lambda>i b. InlineBitmap_Set b i x) [l..<u] (mk_bits n v) = Some t \<and> ?B u t"
  proof (intro for_state_upt_range)
    fix i t assume i: "l \<le> i" "i < u" "?B i t"
    then obtain v' where v': "t = mk_bits n v'" "\<forall>j. bit v' j \<longleftrightarrow> (if l \<le> j \<and> j < i then x else bit v j)" by blast
    with i True have "InlineBitmap_Set t i x = Some (mk_bits n (if x then set_bit i v' else unset_bit i v'))"
      by simp
    moreover have "\<forall>j. bit (if x then set_bit i v' else unset_bit i v') j
        \<longleftrightarrow> (if l \<le> j \<and> j < Suc i then x else bit v j)"
      using v'(2) i by (auto simp: bit_set_bit_iff bit_unset_bit_iff less_Suc_eq)
    ultimately show "\<exists>t'. InlineBitmap_Set t i x = Some t' \<and> ?B (Suc i) t'" by blast
  qed (auto intro!: exI[of _ v])
  then obtain v' where v': "for_state (\<lambda>i b. InlineBitmap_Set b i x) [l..<u] (mk_bits n v) = Some (mk_bits n v')"
    "\<And>j. bit v' j \<longleftrightarrow> (if l \<le> j \<and> j < u then x else bit v j)" by blast
  have "v' = (if x then v OR push_bit l (mask (u - l))
      else (v OR push_bit l (mask (u - l))) XOR push_bit l (mask (u - l)))"
    by (rule nat_bit_eqI) (auto simp: v'(2) bit_or_iff bit_xor_iff bit_push_bit_iff bit_mask_iff)
  then show ?thesis using True v'(1) by (simp add: InlineBitmap_SetRange_def)
qed (simp add: InlineBitmap_SetRange_def)

lemma InlineBitmap_Union_eq [simp]:
  "InlineBitmap_Union (mk_bits n v) (mk_bits m w) = (if n = m then Some (mk_bits n (v OR w)) else None)"
proof (cases "n = m")
  case True
  let ?a = "data (mk_bits n v)" and ?b = "data (mk_bits n w)" and ?l = "(n + 63) div 64"
  let ?f = "\<lambda>i ws. do { x \<leftarrow> list_at ws i; y \<leftarrow> list_at ?b i; Some (ws[i := x OR y]) }"
  have "\<exists>t. for_state ?f [0..<?l] ?a = Some t \<and>
     (length t = ?l \<and> (\<forall>k < ?l. t ! k = (if k < ?l then ?a ! k OR ?b ! k else ?a ! k)))"
    by (rule for_state_upt[where P = "\<lambda>i t. length t = ?l \<and>
        (\<forall>k < ?l. t ! k = (if k < i then ?a ! k OR ?b ! k else ?a ! k))"])
      (auto simp: nth_list_update)
  then obtain t where t: "for_state ?f [0..<?l] ?a = Some t" "length t = ?l"
    "\<And>k. k < ?l \<Longrightarrow> t ! k = ?a ! k OR ?b ! k" by auto
  have "(mk_bits n v)\<lparr>data := t\<rparr> = mk_bits n (v OR w)"
    by (rule eq_mk_bitsI) (auto simp: t(2,3) bit_or_iff bit_data_mk_bits)
  then show ?thesis using True t(1) by (simp add: InlineBitmap_Union_def)
qed (simp add: InlineBitmap_Union_def)

lemma InlineBitmap_UCmp_eq [simp]:
  "InlineBitmap_UCmp (mk_bits n v) (mk_bits m w) = Some (sgn (int (take_bit n v) - int (take_bit m w)))"
proof -
  let ?k = "min n m" and ?a = "take_bit n v" and ?b = "take_bit m w"
  have l1: "for_find (\<lambda>i. do { x \<leftarrow> InlineBitmap_Get (mk_bits n v) i; Some (if x then Some 1 else None) })
      (rev [?k..<n]) = Some (if \<exists>i \<in> set (rev [?k..<n]). bit v i then Some 1 else None)"
    by (rule for_find_test) auto
  have l2: "for_find (\<lambda>i. do { x \<leftarrow> InlineBitmap_Get (mk_bits m w) i; Some (if x then Some (- 1) else None) })
      (rev [?k..<m]) = Some (if \<exists>i \<in> set (rev [?k..<m]). bit w i then Some (- 1) else None)"
    by (rule for_find_test) auto
  have l3: "for_find (\<lambda>idx. do { x \<leftarrow> InlineBitmap_Get (mk_bits n v) idx; y \<leftarrow> InlineBitmap_Get (mk_bits m w) idx;
        Some (if x \<and> \<not> y then Some 1 else if \<not> x \<and> y then Some (- 1) else None) }) (rev [0..<?k])
      = Some (map_option (\<lambda>i. if bit v i then 1 else - 1 :: int) (find (\<lambda>i. bit v i \<noteq> bit w i) (rev [0..<?k])))"
    by (rule for_find_index) auto
  let ?hi = "\<lambda>x l. \<exists>i \<in> set (rev [?k..<l]). bit (x::nat) i"
  let ?top = "find (\<lambda>i. bit v i \<noteq> bit w i) (rev [0..<?k])"
  have run: "InlineBitmap_UCmp (mk_bits n v) (mk_bits m w) = Some
      (if ?hi v n then 1 else if ?hi w m then - 1
       else case ?top of None \<Rightarrow> 0 | Some i \<Rightarrow> if bit v i then 1 else - 1)"
    unfolding InlineBitmap_UCmp_def Let_def mk_bits_fields l1 l2 l3
    by (cases "?hi v n"; cases "?hi w m"; cases ?top; simp only: if_True if_False option.simps Option.bind.simps)
  have big: "x < y" if "bit y i" "k \<le> i" "x < 2 ^ k" for x y i k :: nat
    using that bit_nat_less_iff[of y k] by auto
  consider (1) "?hi v n" | (2) "\<not> ?hi v n" "?hi w m" | (3) "\<not> ?hi v n" "\<not> ?hi w m" by blast
  then show ?thesis
  proof cases
    case 1
    then obtain i where "i \<in> set (rev [?k..<n])" and b: "bit v i" by blast
    then have i: "?k \<le> i" "i < n" by simp_all
    then have "?k = m" by linarith
    then have "?b < ?a" using big[of ?a i m ?b] b i by (simp add: bit_take_bit_iff)
    then show ?thesis unfolding run using 1 by simp
  next
    case 2
    then obtain i where "i \<in> set (rev [?k..<m])" and b: "bit w i" by blast
    then have i: "?k \<le> i" "i < m" by simp_all
    then have "?k = n" by linarith
    then have "?a < ?b" using big[of ?b i n ?a] b i by (simp add: bit_take_bit_iff)
    then show ?thesis unfolding run using 2 by simp
  next
    case 3
    then have eqs: "bit ?a i \<longleftrightarrow> i < ?k \<and> bit v i" "bit ?b i \<longleftrightarrow> i < ?k \<and> bit w i" for i
      by (auto simp: bit_take_bit_iff not_less)
    show ?thesis
    proof (cases ?top)
      case None
      then have "?a = ?b" by (intro nat_bit_eqI) (auto simp: eqs find_rev_upt_None)
      then show ?thesis unfolding run using 3 None by simp
    next
      case (Some i)
      then have i: "i < ?k" "bit v i \<noteq> bit w i" "\<And>j. i < j \<Longrightarrow> bit ?a j = bit ?b j"
        by (auto simp: find_rev_upt_Some eqs)
      have "?b < ?a" if "bit v i"
        by (rule nat_less_top_bit[of _ i, OF _ _ i(3)]) (use that i(1,2) in \<open>simp_all add: eqs\<close>)
      moreover have "?a < ?b" if "\<not> bit v i"
        by (rule nat_less_top_bit[of _ i, OF _ _ i(3)[symmetric]]) (use that i(1,2) in \<open>simp_all add: eqs\<close>)
      ultimately show ?thesis unfolding run using 3 Some by auto
    qed
  qed
qed

section \<open>Bytes\<close>

text \<open>Bit \<open>64 * k + m\<close> of the words is bit \<open>m mod 8\<close> of byte \<open>8 * k + m div 8\<close>.\<close>

lemma byte_index:
  fixes k m :: nat
  shows "(64 * k + m) div 8 = 8 * k + m div 8" "(64 * k + m) mod 8 = m mod 8"
    "8 * (8 * k + m div 8) + m mod 8 = 64 * k + m"
  using div_mult_self2[of 8 m "8 * k"] mod_mult_self2[of m 8 "8 * k"]
  by (simp_all add: algebra_simps)

lemma length_bytes_of [simp]: "length (bytes_of n v) = (n + 7) div 8"
  by (simp add: bytes_of_def)

lemma bit_bytes_of:
  "j < (n + 7) div 8 \<Longrightarrow> bit (bytes_of n v ! j) m \<longleftrightarrow> m < 8 \<and> 8 * j + m < n \<and> bit v (8 * j + m)"
  by (auto simp: bytes_of_def bit_word_of_nat bit_drop_bit_eq bit_take_bit_iff)

lemma words_nat_bytes_of [simp]: "words_nat (bytes_of n v) = take_bit n v"
proof (rule nat_bit_eqI)
  fix i
  have "i < n \<Longrightarrow> i div 8 < (n + 7) div 8" by linarith
  moreover have "8 * (i div 8) + i mod 8 = i" by simp
  ultimately show "bit (words_nat (bytes_of n v)) i \<longleftrightarrow> bit (take_bit n v) i"
    by (auto simp: bit_words_nat bit_bytes_of bit_take_bit_iff)
qed

lemma get_byte_mk_bits:
  assumes "j < (n + 7) div 8"
  shows "get_byte (data (mk_bits n v)) j = bytes_of n v ! j"
proof (rule bit_word_eqI)
  fix m assume "m < LENGTH(8)"
  then have m: "m < 8" by simp
  have j: "j div 8 < (n + 63) div 64" using assms by linarith
  have e: "64 * (j div 8) + (8 * (j mod 8) + m) = 8 * j + m"
    using div_mult_mod_eq[of j 8] by linarith
  moreover have "8 * (j mod 8) + m < 64" using m by linarith
  ultimately show "bit (get_byte (data (mk_bits n v)) j) m \<longleftrightarrow> bit (bytes_of n v ! j) m"
    using m j assms by (simp only: get_byte_def bit_ucast_iff bit_drop_bit_eq bit_data_mk_bits bit_bytes_of o_def e) simp
qed

lemma bit_put_byte:
  assumes "j < 8 * length ws" "k < length ws" "m < 64"
  shows "bit (put_byte j x ws ! k) m \<longleftrightarrow> (if 8 * k + m div 8 = j then bit x (m mod 8) else bit (ws ! k) m)"
proof (cases "j div 8 = k")
  case False
  then have "8 * k + m div 8 \<noteq> j" using assms(3) by auto
  then show ?thesis using False by (simp add: put_byte_def)
next
  case True
  have "mask 8 = (255 :: int)" by (simp add: mask_eq_exp_minus_1)
  then have m255: "bit (255 :: int) i \<longleftrightarrow> i < 8" for i
    using bit_mask_iff[of 8 i, where 'a = int] by simp
  define r where "r = j mod 8"
  have j: "j = 8 * k + r" "r < 8" using True by (auto simp: r_def)
  have eq: "8 * k + m div 8 = j \<longleftrightarrow> 8 * r \<le> m \<and> m - 8 * r < 8" using j by auto
  have sub: "m - 8 * r = m mod 8" if "8 * r \<le> m" "m - 8 * r < 8"
    using that by (metis add.commute le_add_diff_inverse mod_less mod_mult_self2)
  have uc: "bit (ucast x :: u64) i \<longleftrightarrow> bit x i" for i
    using bit_imp_le_length[of x i] by (auto simp: bit_ucast_iff)
  have x8: "bit x i \<Longrightarrow> i < 8" for i using bit_imp_le_length[of x i] by auto
  have "bit (put_byte j x ws ! k) m \<longleftrightarrow>
      (bit (ws ! k) m \<and> \<not> (8 * r \<le> m \<and> m - 8 * r < 8)) \<or> (8 * r \<le> m \<and> bit x (m - 8 * r))"
    using assms True
    by (simp add: put_byte_def bit_or_iff bit_and_iff bit_not_iff bit_push_bit_iff m255 uc flip: r_def) auto
  then show ?thesis unfolding eq using sub x8[of "m - 8 * r"] by auto
qed

lemma length_put_byte [simp]: "length (put_byte j x ws) = length ws"
  by (simp add: put_byte_def)

lemma bit_fold_put_byte:
  assumes "l \<le> 8 * length ws" "k < length ws" "m < 64"
  shows "length (fold (\<lambda>j. put_byte j (bytes ! j)) [0..<l] ws) = length ws \<and>
    (bit (fold (\<lambda>j. put_byte j (bytes ! j)) [0..<l] ws ! k) m \<longleftrightarrow>
       (if 8 * k + m div 8 < l then bit (bytes ! (8 * k + m div 8)) (m mod 8) else bit (ws ! k) m))"
  using assms(1)
proof (induction l)
  case (Suc l)
  then show ?case using assms(2,3)
    by (auto simp: bit_put_byte less_Suc_eq)
qed simp

lemma InlineBitmap_FromBytes_eq [simp]:
  "InlineBitmap_FromBytes n bytes =
     (if length bytes = (n + 7) div 8 then Some (mk_bits n (words_nat bytes)) else None)"
proof (cases "length bytes = (n + 7) div 8")
  case True
  let ?l = "(n + 7) div 8" and ?ws = "data (mk_bits n 0)"
  let ?b = "(mk_bits n 0)\<lparr>data := fold (\<lambda>j. put_byte j (bytes ! j)) [0..<?l] ?ws\<rparr>"
  have l: "?l \<le> 8 * length ?ws" by (simp, linarith?)
  have len: "length (fold (\<lambda>j. put_byte j (bytes ! j)) [0..<l] ws) = length ws" for l ws
    by (induction l) simp_all
  have "MaskLastWord ?b = Some (mk_bits (bit_count ?b) (words_nat bytes))"
  proof (rule MaskLastWord_eq)
    fix k m :: nat assume k: "k < length (data ?b)" "m < 64" "64 * k + m < bit_count ?b"
    note d = byte_index
    have "8 * k + m div 8 < ?l" using k(3) by (simp, linarith?)
    then show "bit (data ?b ! k) m \<longleftrightarrow> bit (words_nat bytes) (64 * k + m)"
      using k bit_fold_put_byte[OF l, of k m bytes] True by (simp add: bit_words_nat d len)
  qed (simp add: len)
  then show ?thesis using True by (simp add: InlineBitmap_FromBytes_def)
qed (auto simp: InlineBitmap_FromBytes_def)

lemma InlineBitmap_WriteBytesToBuffer_eq [simp]:
  "InlineBitmap_WriteBytesToBuffer (mk_bits n v) bytes =
     (if (n + 7) div 8 \<le> length bytes then Some (bytes_of n v @ drop ((n + 7) div 8) bytes) else None)"
proof -
  have "map (get_byte (data (mk_bits n v))) [0..<(n + 7) div 8] = bytes_of n v"
    by (rule nth_equalityI) (simp_all add: get_byte_mk_bits)
  then show ?thesis by (simp add: InlineBitmap_WriteBytesToBuffer_def)
qed

lemma InlineBitmap_GetByte_eq [simp]:
  "InlineBitmap_GetByte (mk_bits n v) j = (if j < (n + 7) div 8 then Some (bytes_of n v ! j) else None)"
  by (simp add: InlineBitmap_GetByte_def get_byte_mk_bits)

lemma InlineBitmap_SetByte_eq:
  "InlineBitmap_SetByte (mk_bits n v) j x =
     (if j < (n + 7) div 8 then Some (mk_bits n (words_nat ((bytes_of n v)[j := x]))) else None)"
proof (cases "j < (n + 7) div 8")
  case True
  let ?b = "(mk_bits n v)\<lparr>data := put_byte j x (data (mk_bits n v))\<rparr>"
  have j: "j < 8 * length (data (mk_bits n v))" using True by (simp, linarith?)
  have "MaskLastWord ?b = Some (mk_bits (bit_count ?b) (words_nat ((bytes_of n v)[j := x])))"
  proof (rule MaskLastWord_eq)
    fix k m :: nat assume k: "k < length (data ?b)" "m < 64" "64 * k + m < bit_count ?b"
    note d = byte_index
    have "8 * k + m div 8 < (n + 7) div 8" using k(3) by (simp, linarith?)
    then show "bit (data ?b ! k) m \<longleftrightarrow> bit (words_nat ((bytes_of n v)[j := x])) (64 * k + m)"
      using k bit_put_byte[OF j, of k m x] True
      by (auto simp: bit_words_nat d nth_list_update bit_bytes_of bit_data_mk_bits add.commute[of m])
  qed simp
  then show ?thesis using True by (simp add: InlineBitmap_SetByte_def)
qed (simp add: InlineBitmap_SetByte_def)

section \<open>The bitmap as a bit store\<close>

interpretation bitmap: bit_store bit_count InlineBitmap_Get InlineBitmap_Set
  "\<lambda>n. InlineBitmap_new n False" bm_inv uval
proof unfold_locales
  fix n s i x
  show "\<exists>s. InlineBitmap_new n False = Some s \<and> bm_inv s \<and> bit_count s = n \<and> uval s = 0"
    by simp
  assume s: "bm_inv s"
  show "InlineBitmap_Get s i = (if i < bit_count s then Some (bit (uval s) i) else None)"
    using s by (elim bm_inv_cases) (simp add: bit_take_bit_iff)
  show "\<exists>t. InlineBitmap_Set s i x = Some t \<and> bm_inv t \<and> bit_count t = bit_count s \<and>
      (\<forall>j. bit (uval t) j \<longleftrightarrow> (if j = i then x else bit (uval s) j))" if "i < bit_count s"
    using s that
    by (elim bm_inv_cases) (auto simp: bit_take_bit_iff bit_set_bit_iff bit_unset_bit_iff)
  show "InlineBitmap_Set s i x = None" if "\<not> i < bit_count s"
    using s that by (elim bm_inv_cases) simp
qed

end
