(* ===== verification/XlsBits.thy ===== *)
theory XlsBits
  imports InlineBitmap
begin

text \<open>
  \<open>xls/ir/bits.h\<close>, \<open>bits.cc\<close> and \<open>bit_push_buffer.h\<close>: the literal bit vectors of the IR. Class
  \<open>Bits\<close> has one member, its \<open>InlineBitmap\<close>, so the model identifies the two types. The
  definitions follow the members in file order; the second half gives each of them on the
  canonical form \<open>mk_bits n v\<close> of the bitmap theory. Text output (\<open>ToString\<close>, \<open>ToRawDigits\<close>) and
  hashing are not modelled.
\<close>

section \<open>Construction\<close>

type_synonym bits = inline_bitmap

definition Bits_new :: "nat \<Rightarrow> bits option" where
  "Bits_new n = InlineBitmap_new n False"

definition MinBitCountUnsigned :: "u64 \<Rightarrow> nat" where
  "MinBitCountUnsigned v = (if v = 0 then 0 else FloorOfLog2 v + 1)"

text \<open>The argument is an \<open>int64_t\<close>.\<close>

definition MinBitCountSigned :: "u64 \<Rightarrow> nat" where
  "MinBitCountSigned v =
     (if v = 0 then 0
      else if sint v < 0 then MinBitCountUnsigned (- (v + 1)) + 1
      else MinBitCountUnsigned v + 1)"

definition UBitsWithStatus :: "u64 \<Rightarrow> nat \<Rightarrow> bits status_or option" where
  "UBitsWithStatus v n =
     (if MinBitCountUnsigned v > n then Some (Inl InvalidArgumentError)
      else do { b \<leftarrow> InlineBitmap_FromWord v n False; Some (Inr b) })"

definition SBitsWithStatus :: "u64 \<Rightarrow> nat \<Rightarrow> bits status_or option" where
  "SBitsWithStatus v n =
     (if MinBitCountSigned v > n then Some (Inl InvalidArgumentError)
      else do {
        let fill = (sint v < 0);
        b \<leftarrow> InlineBitmap_FromWord v n fill;
        Some (Inr b) })"

definition UBits :: "u64 \<Rightarrow> nat \<Rightarrow> bits option" where
  "UBits v n = do { r \<leftarrow> UBitsWithStatus v n; status_value r }"

definition SBits :: "u64 \<Rightarrow> nat \<Rightarrow> bits option" where
  "SBits v n = do { r \<leftarrow> SBitsWithStatus v n; status_value r }"

definition Bits_of_span :: "bool list \<Rightarrow> bits option" where
  "Bits_of_span bs = do {
     b \<leftarrow> InlineBitmap_new (length bs) False;
     for_state (\<lambda>i b'. InlineBitmap_Set b' i (bs ! i)) [0..<length bs] b }"

definition Bits_SetRange :: "bits \<Rightarrow> nat \<Rightarrow> nat \<Rightarrow> bool \<Rightarrow> bits option" where
  "Bits_SetRange b start_index end_index v = InlineBitmap_SetRange b start_index end_index v"

definition Bits_AllOnes :: "nat \<Rightarrow> bits option" where
  "Bits_AllOnes n = (if n = 0 then Bits_new 0 else SBits (- 1) n)"

definition Bits_UpdateWithSet :: "bits \<Rightarrow> nat \<Rightarrow> bool \<Rightarrow> bits option" where
  "Bits_UpdateWithSet b index v = InlineBitmap_Set b index v"

definition Bits_PowerOfTwo :: "nat \<Rightarrow> nat \<Rightarrow> bits option" where
  "Bits_PowerOfTwo set_bit_index n = do { b \<leftarrow> Bits_new n; InlineBitmap_Set b set_bit_index True }"

text \<open>For width zero the index \<open>bit_count - 1\<close> is negative and the bitmap's check fails.\<close>

definition Bits_MaxSigned :: "nat \<Rightarrow> bits option" where
  "Bits_MaxSigned n = do { b \<leftarrow> Bits_AllOnes n; check (n \<noteq> 0); Bits_UpdateWithSet b (n - 1) False }"

definition Bits_MinSigned :: "nat \<Rightarrow> bits option" where
  "Bits_MinSigned n = do { check (n \<noteq> 0); Bits_PowerOfTwo (n - 1) n }"

definition Bits_FromBytes :: "u8 list \<Rightarrow> nat \<Rightarrow> bits option" where
  "Bits_FromBytes bytes n = InlineBitmap_FromBytes n bytes"

definition Bits_FromBitmap :: "inline_bitmap \<Rightarrow> bits" where
  "Bits_FromBitmap bm = bm"

section \<open>Observation\<close>

definition Bits_Get :: "bits \<Rightarrow> nat \<Rightarrow> bool option" where
  "Bits_Get b index = InlineBitmap_Get b index"

definition Bits_msb :: "bits \<Rightarrow> bool option" where
  "Bits_msb b = (if bit_count b = 0 then Some False else Bits_Get b (bit_count b - 1))"

definition Bits_GetFromMsb :: "bits \<Rightarrow> nat \<Rightarrow> bool option" where
  "Bits_GetFromMsb b index = do {
     check (index < bit_count b);
     InlineBitmap_Get b (bit_count b - index - 1) }"

definition Bits_ToBytes :: "bits \<Rightarrow> u8 list option" where
  "Bits_ToBytes b = do {
     n \<leftarrow> byte_count b;
     InlineBitmap_WriteBytesToBuffer b (replicate n 0) }"

definition Bits_ToBitVector :: "bits \<Rightarrow> bool list option" where
  "Bits_ToBitVector b =
     for_state (\<lambda>i bs. do { x \<leftarrow> InlineBitmap_Get b i; Some (bs[i := x]) })
       [0..<bit_count b] (replicate (bit_count b) False)"

text \<open>\<open>BitPushBuffer\<close> is the vector of the bits pushed so far; \<open>FlattenTo\<close> pushes the most significant bit first.\<close>

definition PushBit :: "bool list \<Rightarrow> bool \<Rightarrow> bool list" where
  "PushBit buffer x = buffer @ [x]"

definition Bits_FlattenTo :: "bits \<Rightarrow> bool list \<Rightarrow> bool list option" where
  "Bits_FlattenTo b buffer =
     for_state (\<lambda>i buf. do { x \<leftarrow> Bits_Get b (bit_count b - i - 1); Some (PushBit buf x) })
       [0..<bit_count b] buffer"

definition GetUint8Data :: "bool list \<Rightarrow> u8 list option" where
  "GetUint8Data buffer = do {
     n \<leftarrow> CeilOfRatio (int (length buffer)) 8;
     for_state (\<lambda>i r. do {
         w \<leftarrow> list_at r (i div 8);
         Some (r[i div 8 := w OR push_bit (7 - i mod 8) (of_bool (buffer ! i))]) })
       [0..<length buffer] (replicate (nat n) 0) }"

definition Bits_IsAllOnes :: "bits \<Rightarrow> bool option" where
  "Bits_IsAllOnes b = InlineBitmap_IsAllOnes b"

definition Bits_IsZero :: "bits \<Rightarrow> bool option" where
  "Bits_IsZero b = InlineBitmap_IsAllZeroes b"

definition Bits_eq :: "bits \<Rightarrow> bits \<Rightarrow> bool option" where
  "Bits_eq a b = InlineBitmap_eq a b"

definition Bits_PopCount :: "bits \<Rightarrow> nat option" where
  "Bits_PopCount b =
     for_state (\<lambda>i c. do { x \<leftarrow> Bits_Get b i; Some (if x then c + 1 else c) }) [0..<bit_count b] 0"

definition Bits_IsOne :: "bits \<Rightarrow> bool option" where
  "Bits_IsOne b = do { c \<leftarrow> Bits_PopCount b; if c = 1 then Bits_Get b 0 else Some False }"

definition Bits_IsPowerOfTwo :: "bits \<Rightarrow> bool option" where
  "Bits_IsPowerOfTwo b = do { c \<leftarrow> Bits_PopCount b; Some (c = 1) }"

text \<open>The four counting loops return the loop index at the first bit that ends the run.\<close>

definition Bits_CountLeadingZeros :: "bits \<Rightarrow> nat option" where
  "Bits_CountLeadingZeros b = do {
     r \<leftarrow> for_find (\<lambda>i. do { x \<leftarrow> Bits_Get b (bit_count b - 1 - i); Some (if x then Some i else None) })
           [0..<bit_count b];
     Some (case r of Some i \<Rightarrow> i | None \<Rightarrow> bit_count b) }"

definition Bits_CountLeadingOnes :: "bits \<Rightarrow> nat option" where
  "Bits_CountLeadingOnes b = do {
     r \<leftarrow> for_find (\<lambda>i. do { x \<leftarrow> Bits_Get b (bit_count b - 1 - i); Some (if \<not> x then Some i else None) })
           [0..<bit_count b];
     Some (case r of Some i \<Rightarrow> i | None \<Rightarrow> bit_count b) }"

definition Bits_CountTrailingZeros :: "bits \<Rightarrow> nat option" where
  "Bits_CountTrailingZeros b = do {
     r \<leftarrow> for_find (\<lambda>i. do { x \<leftarrow> Bits_Get b i; Some (if x then Some i else None) }) [0..<bit_count b];
     Some (case r of Some i \<Rightarrow> i | None \<Rightarrow> bit_count b) }"

definition Bits_CountTrailingOnes :: "bits \<Rightarrow> nat option" where
  "Bits_CountTrailingOnes b = do {
     r \<leftarrow> for_find (\<lambda>i. do { x \<leftarrow> Bits_Get b i; Some (if \<not> x then Some i else None) }) [0..<bit_count b];
     Some (case r of Some i \<Rightarrow> i | None \<Rightarrow> bit_count b) }"

text \<open>The three out-parameters are the payload: leading zeros, set bits, trailing zeros.\<close>

definition Bits_HasSingleRunOfSetBits :: "bits \<Rightarrow> (nat \<times> nat \<times> nat) option option" where
  "Bits_HasSingleRunOfSetBits b = do {
     leading_zeros \<leftarrow> Bits_CountLeadingZeros b;
     trailing_zeros \<leftarrow> Bits_CountTrailingZeros b;
     if bit_count b = trailing_zeros then do {
       check (leading_zeros = bit_count b);
       Some None }
     else do {
       r \<leftarrow> for_find (\<lambda>i. do { x \<leftarrow> Bits_Get b i; Some (if \<not> x then Some () else None) })
             [trailing_zeros..<bit_count b - leading_zeros];
       if r = Some () then Some None
       else do {
         check (leading_zeros + trailing_zeros \<le> bit_count b);
         Some (Some (leading_zeros, bit_count b - leading_zeros - trailing_zeros, trailing_zeros)) } } }"

definition Bits_FitsInNBitsUnsigned :: "bits \<Rightarrow> nat \<Rightarrow> bool option" where
  "Bits_FitsInNBitsUnsigned b n = do {
     r \<leftarrow> for_find (\<lambda>i. do { x \<leftarrow> Bits_Get b i; Some (if x then Some False else None) }) [n..<bit_count b];
     Some (case r of Some x \<Rightarrow> x | None \<Rightarrow> True) }"

definition Bits_FitsInNBitsSigned :: "bits \<Rightarrow> nat \<Rightarrow> bool option" where
  "Bits_FitsInNBitsSigned b n =
     (if n = 0 then Bits_IsZero b
      else do {
        r \<leftarrow> for_find (\<lambda>i. do {
               x \<leftarrow> Bits_Get b i;
               m \<leftarrow> Bits_msb b;
               Some (if x \<noteq> m then Some False else None) }) [n - 1..<bit_count b];
        Some (case r of Some x \<Rightarrow> x | None \<Rightarrow> True) })"

definition Bits_FitsInUint64 :: "bits \<Rightarrow> bool option" where
  "Bits_FitsInUint64 b = Bits_FitsInNBitsUnsigned b 64"

definition Bits_FitsInInt64 :: "bits \<Rightarrow> bool option" where
  "Bits_FitsInInt64 b = Bits_FitsInNBitsSigned b 64"

definition Bits_ToUint64 :: "bits \<Rightarrow> u64 status_or option" where
  "Bits_ToUint64 b =
     (if bit_count b = 0 then Some (Inr 0)
      else do {
        fits \<leftarrow> Bits_FitsInUint64 b;
        if \<not> fits then Some (Inl InvalidArgumentError)
        else do { w \<leftarrow> InlineBitmap_GetWord b 0; Some (Inr w) } })"

definition Bits_WordToUint64 :: "bits \<Rightarrow> nat \<Rightarrow> u64 status_or option" where
  "Bits_WordToUint64 b word_number =
     (if bit_count b = 0 then Some (Inr 0)
      else do { w \<leftarrow> InlineBitmap_GetWord b word_number; Some (Inr w) })"

text \<open>The result is an \<open>int64_t\<close>.\<close>

definition Bits_ToInt64 :: "bits \<Rightarrow> u64 status_or option" where
  "Bits_ToInt64 b = do {
     fits \<leftarrow> Bits_FitsInInt64 b;
     if \<not> fits then Some (Inl InvalidArgumentError)
     else do {
       word \<leftarrow> InlineBitmap_GetWord b 0;
       m \<leftarrow> Bits_msb b;
       let word' = (if m \<and> bit_count b < 64 then word OR push_bit (bit_count b) (- 1) else word);
       Some (Inr word') } }"

definition Bits_Slice :: "bits \<Rightarrow> nat \<Rightarrow> nat \<Rightarrow> bits option" where
  "Bits_Slice b start width = do {
     check (int64_wrap (int (start + width)) \<le> int (bit_count b));
     result \<leftarrow> Bits_new width;
     for_state (\<lambda>i r. do {
         x \<leftarrow> Bits_Get b (start + i);
         if x then InlineBitmap_Set r i True else Some r }) [0..<width] result }"

section \<open>BitsRope\<close>

record bits_rope =
  rope_bitmap :: inline_bitmap
  rope_index :: nat

definition BitsRope_new :: "nat \<Rightarrow> bits_rope option" where
  "BitsRope_new total_bit_count = do {
     b \<leftarrow> InlineBitmap_new total_bit_count False;
     Some \<lparr>rope_bitmap = b, rope_index = 0\<rparr> }"

definition BitsRope_push_back :: "bits \<Rightarrow> bits_rope \<Rightarrow> bits_rope option" where
  "BitsRope_push_back b rope = do {
     bm \<leftarrow> for_state (\<lambda>i bm. do {
              x \<leftarrow> Bits_Get b i;
              InlineBitmap_Set bm (rope_index rope + i) x }) [0..<bit_count b] (rope_bitmap rope);
     Some \<lparr>rope_bitmap = bm, rope_index = rope_index rope + bit_count b\<rparr> }"

definition BitsRope_push_back_bit :: "bool \<Rightarrow> bits_rope \<Rightarrow> bits_rope option" where
  "BitsRope_push_back_bit x rope = do {
     bm \<leftarrow> InlineBitmap_Set (rope_bitmap rope) (rope_index rope) x;
     Some \<lparr>rope_bitmap = bm, rope_index = rope_index rope + 1\<rparr> }"

definition BitsRope_Build :: "bits_rope \<Rightarrow> bits option" where
  "BitsRope_Build rope = do {
     check (rope_index rope = bit_count (rope_bitmap rope));
     Some (rope_bitmap rope) }"

section \<open>Every operation on the canonical form\<close>

lemma MinBitCountUnsigned_le_iff: "MinBitCountUnsigned v \<le> n \<longleftrightarrow> unat v < 2 ^ n"
proof (cases "v = 0")
  case False
  note b = FloorOfLog2_bounds[OF False]
  have "FloorOfLog2 v < n \<longleftrightarrow> unat v < 2 ^ n"
  proof
    assume "FloorOfLog2 v < n"
    then have "(2::nat) ^ Suc (FloorOfLog2 v) \<le> 2 ^ n" by (intro power_increasing) auto
    then show "unat v < 2 ^ n" using b by linarith
  next
    assume "unat v < 2 ^ n"
    then have "(2::nat) ^ FloorOfLog2 v < 2 ^ n" using b by linarith
    then show "FloorOfLog2 v < n" by simp
  qed
  then show ?thesis using False by (auto simp: MinBitCountUnsigned_def)
qed (simp add: MinBitCountUnsigned_def)

lemma Bits_new_eq [simp]: "Bits_new n = Some (mk_bits n 0)"
  by (simp add: Bits_new_def)

lemma UBitsWithStatus_eq:
  "UBitsWithStatus v n = Some (if unat v < 2 ^ n then Inr (mk_bits n (unat v)) else Inl InvalidArgumentError)"
  using MinBitCountUnsigned_le_iff[of v n]
  by (auto simp: UBitsWithStatus_def InlineBitmap_FromWord_eq not_le)

lemma UBits_eq [simp]: "UBits v n = (if unat v < 2 ^ n then Some (mk_bits n (unat v)) else None)"
  by (simp add: UBits_def UBitsWithStatus_eq)

text \<open>The two's complement reading of a bit vector, and the bit vector of an integer.\<close>

definition sval :: "bits \<Rightarrow> int" where
  "sval b = int (uval b) - (if bit_count b \<noteq> 0 \<and> bit (uval b) (bit_count b - 1) then 2 ^ bit_count b else 0)"

definition mk_int :: "nat \<Rightarrow> int \<Rightarrow> bits" where
  "mk_int n x = mk_bits n (nat (take_bit n x))"

lemma mk_int_of_nat [simp]: "mk_int n (int v) = mk_bits n v"
  by (simp add: mk_int_def flip: of_nat_take_bit)

lemma mk_int_eq_iff: "mk_int n x = mk_int m y \<longleftrightarrow> n = m \<and> take_bit n x = take_bit n y"
  by (auto simp: mk_int_def mk_bits_eq_iff take_bit_nat_eq eq_nat_nat_iff)

lemma mk_int_cong: "x mod 2 ^ n = y mod 2 ^ n \<Longrightarrow> mk_int n x = mk_int n y"
  by (simp add: mk_int_eq_iff take_bit_eq_mod)

lemma mk_int_fields [simp]: "bit_count (mk_int n x) = n" "bm_inv (mk_int n x)"
  by (simp_all add: mk_int_def)

lemma int_uval_mk_int [simp]: "int (uval (mk_int n x)) = take_bit n x"
  by (simp add: mk_int_def of_nat_take_bit)

lemma sval_mod: "sval b mod 2 ^ bit_count b = int (uval b) mod 2 ^ bit_count b"
  by (simp add: sval_def mod_diff_right_eq[symmetric])

lemma mk_int_sval: "bm_inv b \<Longrightarrow> mk_int (bit_count b) (sval b) = b"
proof -
  assume "bm_inv b"
  then have "mk_int (bit_count b) (sval b) = mk_int (bit_count b) (int (uval b))"
    by (intro mk_int_cong sval_mod)
  then show ?thesis using bm_inv_eq_mk_bits[OF \<open>bm_inv b\<close>] by simp
qed

lemma sval_range:
  assumes "bm_inv b" "0 < bit_count b"
  shows "- (2 ^ (bit_count b - 1)) \<le> sval b \<and> sval b < 2 ^ (bit_count b - 1)"
proof -
  obtain k where k: "bit_count b = Suc k" using assms(2) by (cases "bit_count b") auto
  have u: "uval b < 2 ^ Suc k" using assms(1) by (simp add: bm_inv_def k)
  have "\<not> bit (uval b) k \<longleftrightarrow> int (uval b) < 2 ^ k"
    using bit_top[of k "uval b"] u bit_nat_less_iff[of "uval b" k]
    unfolding int_less_power_iff by (auto simp: not_less[symmetric])
  moreover have "int (uval b) < 2 ^ Suc k" using u unfolding int_less_power_iff .
  ultimately show ?thesis by (auto simp: sval_def k)
qed

lemma sval_mk_int_exact:
  assumes "0 < n" "- (2 ^ (n - 1)) \<le> x" "x < 2 ^ (n - 1)"
  shows "sval (mk_int n x) = x"
proof -
  let ?s = "sval (mk_int n x)"
  have p: "(2::int) ^ n = 2 * 2 ^ (n - 1)" using assms(1) by (cases n) auto
  have "?s mod 2 ^ n = x mod 2 ^ n" using sval_mod[of "mk_int n x"] by (simp add: take_bit_eq_mod)
  then have d: "(2 ^ n) dvd (?s - x)" by (simp add: mod_eq_dvd_iff)
  have "- (2 ^ (n - 1)) \<le> ?s" "?s < 2 ^ (n - 1)" using sval_range[of "mk_int n x"] assms(1) by auto
  then have "\<bar>?s - x\<bar> < 2 ^ n" using assms p by linarith
  then have "?s - x = 0" using d dvd_imp_le_int[of "?s - x" "2 ^ n"] by force
  then show ?thesis by simp
qed

lemma sval_width0 [simp]: "bm_inv b \<Longrightarrow> bit_count b = 0 \<Longrightarrow> sval b = 0"
  by (simp add: sval_def bm_inv_def)

lemma sint_u64: "sint (v :: u64) = int (unat v) - (if bit v 63 then 2 ^ 64 else 0)"
proof -
  have "take_bit 64 (uint v) = uint v" using unsigned_less[of v, where 'a = int] by (simp add: take_bit_int_eq_self_iff)
  then show ?thesis by (simp add: sint_uint signed_take_bit_eq_take_bit_minus bit_uint_iff)
qed

lemma sint_neg_iff: "sint (v :: u64) < 0 \<longleftrightarrow> bit v 63"
  using unsigned_less[of v, where 'a = int] by (auto simp: sint_u64)

lemma unat_not_u64: "int (unat (NOT (v :: u64))) = 2 ^ 64 - 1 - int (unat v)"
proof -
  have "unat v + unat (NOT v) = 2 ^ 64 - 1"
  proof -
    have "unat v + unat (NOT v) = unat v OR unat (NOT v)"
      by (intro disjunctive_add) (auto simp: bit_unat bit_not_iff)
    also have "\<dots> = unat (v OR NOT v)" by (simp only: unsigned_or_eq)
    also have "\<dots> = 2 ^ 64 - 1" by (simp add: unsigned_minus_1_eq_mask mask_eq_exp_minus_1)
    finally show ?thesis .
  qed
  then have "unat v + unat (NOT v) = 18446744073709551615" by simp
  then have "int (unat v) + int (unat (NOT v)) = 18446744073709551615" by linarith
  then show ?thesis by simp
qed

lemma MinBitCountSigned_le_iff:
  assumes n: "0 < n"
  shows "MinBitCountSigned v \<le> n \<longleftrightarrow> - (2 ^ (n - 1)) \<le> sint v \<and> sint v < 2 ^ (n - 1)"
proof -
  consider "v = 0" | "sint v < 0" | "v \<noteq> 0" "0 \<le> sint v" by linarith
  then show ?thesis
  proof cases
    case 2
    have "- (v + 1) = NOT v" by (simp add: not_eq_complement)
    then have "int (unat (- (v + 1))) = - sint v - 1"
      using 2[unfolded sint_neg_iff] unat_not_u64[of v] by (simp add: sint_u64)
    moreover have "v \<noteq> 0" using 2 by auto
    then have "MinBitCountSigned v \<le> n \<longleftrightarrow> MinBitCountUnsigned (- (v + 1)) \<le> n - 1"
      using n 2 by (auto simp: MinBitCountSigned_def)
    ultimately show ?thesis using 2 
      unfolding MinBitCountUnsigned_le_iff int_less_power_iff[symmetric]
      by (smt (verit) zero_le_power)
  next
    case 3
    then have "MinBitCountSigned v \<le> n \<longleftrightarrow> MinBitCountUnsigned v \<le> n - 1"
      using n by (auto simp: MinBitCountSigned_def)
    also have "\<dots> \<longleftrightarrow> sint v < 2 ^ (n - 1)"
    proof -
      have "sint v = int (unat v)" using 3(2) sint_neg_iff[of v] sint_u64[of v] by auto
      then show ?thesis unfolding MinBitCountUnsigned_le_iff int_less_power_iff[symmetric] by simp
    qed
    finally show ?thesis using 3(2) by (smt (verit) zero_le_power)
  qed (simp add: MinBitCountSigned_def)
qed

lemma mk_int_of_u64: "mk_int 64 (sint (v :: u64)) = mk_bits 64 (unat v)"
proof -
  have "mk_int 64 (sint v) = mk_int 64 (int (unat v))"
    by (rule mk_int_cong) (simp add: sint_u64)
  then show ?thesis by (simp only: mk_int_of_nat)
qed

lemma SBitsWithStatus_eq:
  "SBitsWithStatus v n =
     Some (if (n = 0 \<and> v = 0) \<or> (n \<noteq> 0 \<and> - (2 ^ (n - 1)) \<le> sint v \<and> sint v < 2 ^ (n - 1))
           then Inr (mk_int n (sint v)) else Inl InvalidArgumentError)"
proof -
  have le: "MinBitCountSigned v \<le> n \<longleftrightarrow>
      (n = 0 \<and> v = 0) \<or> (n \<noteq> 0 \<and> - (2 ^ (n - 1)) \<le> sint v \<and> sint v < 2 ^ (n - 1))"
    using MinBitCountSigned_le_iff[of n v] by (cases "n = 0") (auto simp: MinBitCountSigned_def)
  have "InlineBitmap_FromWord v n (sint v < 0) = Some (mk_int n (sint v))"
  proof -
    have "bit (nat (take_bit n (sint v))) i \<longleftrightarrow>
        i < n \<and> bit (unat v OR (if bit v 63 then push_bit 64 (mask n) else 0)) i" for i
    proof -
      have "bit (nat (take_bit n (sint v))) i \<longleftrightarrow> i < n \<and> bit (sint v) i"
        by (simp add: bit_nat_iff bit_take_bit_iff)
      also have "\<dots> \<longleftrightarrow> i < n \<and> (bit v i \<or> bit v 63 \<and> 64 \<le> i)"
        by (auto simp: bit_sint_iff)
      finally show ?thesis
        by (auto simp: bit_or_iff bit_unat bit_push_bit_iff bit_mask_iff)
    qed
    then have "take_bit n (unat v OR (if bit v 63 then push_bit 64 (mask n) else 0))
        = take_bit n (nat (take_bit n (sint v)))"
      by (intro nat_bit_eqI) (auto simp only: bit_take_bit_iff)
    then show ?thesis
      unfolding InlineBitmap_FromWord_eq mk_int_def sint_neg_iff by (simp add: mk_bits_eq_iff)
  qed
  then show ?thesis
    unfolding SBitsWithStatus_def le[symmetric] by (cases "MinBitCountSigned v \<le> n") simp_all
qed

lemma SBits_eq:
  "SBits v n = (if (n = 0 \<and> v = 0) \<or> (n \<noteq> 0 \<and> - (2 ^ (n - 1)) \<le> sint v \<and> sint v < 2 ^ (n - 1))
                then Some (mk_int n (sint v)) else None)"
  by (simp add: SBits_def SBitsWithStatus_eq)

lemma take_bit_minus_1_nat: "nat (take_bit n (- 1 :: int)) = mask n"
  by (simp add: take_bit_minus_one_eq_mask nat_mask_eq)

lemma Bits_AllOnes_eq [simp]: "Bits_AllOnes n = Some (mk_bits n (mask n))"
proof -
  have "(- 1 :: int) < 2 ^ (n - 1)" by (rule less_le_trans[of _ 0]) simp_all
  moreover have "- (2 ^ (n - 1)) \<le> (- 1 :: int)" by simp
  ultimately show ?thesis
    using mk_int_def[of n "- 1"] take_bit_minus_1_nat[of n] by (auto simp: Bits_AllOnes_def SBits_eq mk_bits_eq_iff)
qed

lemma eq_mk_bits_uvalI:
  assumes "bm_inv t" "bit_count t = n" "\<And>i. i < n \<Longrightarrow> bit (uval t) i \<longleftrightarrow> bit v i"
  shows "t = mk_bits n v"
proof -
  have "take_bit n (uval t) = take_bit n v"
    by (rule nat_bit_eqI) (use assms(3) in \<open>auto simp: bit_take_bit_iff\<close>)
  then show ?thesis using bm_inv_eq_mk_bits[OF assms(1)] assms(2) by (metis mk_bits_eq_iff)
qed

lemma Bits_SetRange_eq [simp]:
  "l \<le> u \<Longrightarrow> Bits_SetRange (mk_bits n v) l u x = InlineBitmap_SetRange (mk_bits n v) l u x"
  by (simp add: Bits_SetRange_def)

lemma Bits_UpdateWithSet_eq [simp]:
  "Bits_UpdateWithSet (mk_bits n v) i x =
     (if i < n then Some (mk_bits n (if x then set_bit i v else unset_bit i v)) else None)"
  by (simp add: Bits_UpdateWithSet_def)

lemma Bits_PowerOfTwo_eq [simp]:
  "Bits_PowerOfTwo i n = (if i < n then Some (mk_bits n (2 ^ i)) else None)"
  by (simp add: Bits_PowerOfTwo_def set_bit_eq_or push_bit_eq_mult)

lemma Bits_MinSigned_eq [simp]:
  "Bits_MinSigned n = (if n = 0 then None else Some (mk_bits n (2 ^ (n - 1))))"
  by (simp add: Bits_MinSigned_def)

lemma Bits_MaxSigned_eq [simp]:
  "Bits_MaxSigned n = (if n = 0 then None else Some (mk_bits n (mask (n - 1))))"
proof (cases n)
  case (Suc k)
  then have "unset_bit k (mask n :: nat) = mask k"
    by (intro nat_bit_eqI) (auto simp: bit_unset_bit_iff bit_mask_iff)
  then show ?thesis using Suc by (simp add: Bits_MaxSigned_def)
qed (simp add: Bits_MaxSigned_def)

lemma Bits_FromBytes_eq [simp]:
  "Bits_FromBytes bytes n = (if length bytes = (n + 7) div 8 then Some (mk_bits n (words_nat bytes)) else None)"
  by (simp add: Bits_FromBytes_def)

lemma Bits_Get_eq [simp]: "Bits_Get (mk_bits n v) i = (if i < n then Some (bit v i) else None)"
  by (simp add: Bits_Get_def)

lemma Bits_msb_eq [simp]: "Bits_msb (mk_bits n v) = Some (n \<noteq> 0 \<and> bit v (n - 1))"
  by (simp add: Bits_msb_def)

lemma Bits_GetFromMsb_eq [simp]:
  "Bits_GetFromMsb (mk_bits n v) i = (if i < n then Some (bit v (n - i - 1)) else None)"
  by (simp add: Bits_GetFromMsb_def)

lemma Bits_ToBytes_eq [simp]: "Bits_ToBytes (mk_bits n v) = Some (bytes_of n v)"
  by (simp add: Bits_ToBytes_def)

lemma Bits_IsAllOnes_eq [simp]: "Bits_IsAllOnes (mk_bits n v) = Some (take_bit n v = mask n)"
  by (simp add: Bits_IsAllOnes_def)

lemma Bits_IsZero_eq [simp]: "Bits_IsZero (mk_bits n v) = Some (take_bit n v = 0)"
  by (simp add: Bits_IsZero_def)

lemma Bits_eq_eq [simp]: "Bits_eq (mk_bits n v) (mk_bits m w) = Some (mk_bits n v = mk_bits m w)"
  by (simp add: Bits_eq_def)

lemma Bits_of_span_eq [simp]: "Bits_of_span bs = Some (mk_bits (length bs) (horner_sum of_bool 2 bs))"
proof -
  let ?n = "length bs"
  obtain t where t: "for_state (\<lambda>i t. InlineBitmap_Set t (0 + i) (bs ! i)) [0..<?n] (mk_bits ?n 0) = Some t"
    and inv: "bm_inv t" "bit_count t = ?n"
    and b: "\<forall>j. bit (uval t) j \<longleftrightarrow> (if 0 \<le> j \<and> j < 0 + ?n then bs ! (j - 0) else bit (uval (mk_bits ?n 0)) j)"
    using bitmap.fill_ok[of "mk_bits ?n 0" 0 ?n "\<lambda>i. bs ! i"] by auto
  have "t = mk_bits ?n (horner_sum of_bool 2 bs)"
    using inv by (rule eq_mk_bits_uvalI) (simp add: b bit_horner_sum_bit_iff)
  then show ?thesis using t by (simp add: Bits_of_span_def)
qed

lemma Bits_Slice_eq [simp]:
  assumes "s + w \<le> n"
  shows "Bits_Slice (mk_bits n v) s w = Some (mk_bits w (drop_bit s v))"
proof -
  obtain t where t: "for_state (\<lambda>i t. if bit v (s + i) then InlineBitmap_Set t i True else Some t) [0..<w] (mk_bits w 0) = Some t"
    and inv: "bm_inv t" "bit_count t = w" and b: "\<forall>j. bit (uval t) j \<longleftrightarrow> j < w \<and> bit v (s + j)"
    using bitmap.fill_where_ok[of "mk_bits w 0" w "\<lambda>i. bit v (s + i)"] by auto
  have "t = mk_bits w (drop_bit s v)"
    using inv by (rule eq_mk_bits_uvalI) (simp add: b bit_drop_bit_eq)
  moreover have "for_state (\<lambda>i r. do { x \<leftarrow> Bits_Get (mk_bits n v) (s + i);
         if x then InlineBitmap_Set r i True else Some r }) [0..<w] (mk_bits w 0) = Some t"
    unfolding t[symmetric] by (rule for_state_cong) (use assms in auto)
  moreover have "int64_wrap (int (s + w)) \<le> int n" using int64_wrap_le[of "int (s + w)"] assms by linarith
  ultimately show ?thesis by (simp add: Bits_Slice_def)
qed

text \<open>Counting, searching and converting.\<close>

lemma Bits_ToBitVector_eq [simp]: "Bits_ToBitVector (mk_bits n v) = Some (map (bit v) [0..<n])"
proof -
  have "\<exists>bs. for_state (\<lambda>i bs. do { x \<leftarrow> InlineBitmap_Get (mk_bits n v) i; Some (bs[i := x]) })
       [0..<n] (replicate n False) = Some bs \<and> bs = map (bit v) [0..<n] @ replicate (n - n) False"
  proof (rule for_state_upt[where P = "\<lambda>k bs. bs = map (bit v) [0..<k] @ replicate (n - k) False"])
    fix i t assume i: "i < n" "t = map (bit v) [0..<i] @ replicate (n - i) False"
    then have "replicate (n - i) False = False # replicate (n - Suc i) False"
      by (simp add: Suc_diff_Suc[symmetric])
    then show "\<exists>t'. do { x \<leftarrow> InlineBitmap_Get (mk_bits n v) i; Some (t[i := x]) } = Some t' \<and>
        t' = map (bit v) [0..<Suc i] @ replicate (n - Suc i) False"
      using i by (simp add: list_update_append)
  qed simp
  then show ?thesis by (simp add: Bits_ToBitVector_def)
qed

lemma Bits_FlattenTo_eq [simp]: "Bits_FlattenTo (mk_bits n v) buf = Some (buf @ rev (map (bit v) [0..<n]))"
proof -
  have "\<exists>bs. for_state (\<lambda>i bs. do { x \<leftarrow> Bits_Get (mk_bits n v) (n - i - 1); Some (PushBit bs x) })
       [0..<n] buf = Some bs \<and> bs = buf @ rev (map (bit v) [n - n..<n])"
  proof (rule for_state_upt[where P = "\<lambda>k bs. bs = buf @ rev (map (bit v) [n - k..<n])"])
    fix i t assume i: "i < n" "t = buf @ rev (map (bit v) [n - i..<n])"
    have "[n - Suc i..<n] = (n - Suc i) # [n - i..<n]"
      using i(1) upt_conv_Cons[of "n - Suc i" n] by (simp add: Suc_diff_Suc)
    then show "\<exists>t'. do { x \<leftarrow> Bits_Get (mk_bits n v) (n - i - 1); Some (PushBit t x) } = Some t' \<and>
      t' = buf @ rev (map (bit v) [n - Suc i..<n])"
      using i by (simp add: PushBit_def)
  qed simp
  then show ?thesis by (simp add: Bits_FlattenTo_def)
qed

lemma Bits_PopCount_eq [simp]: "Bits_PopCount (mk_bits n v) = Some (card {i. i < n \<and> bit v i})"
proof -
  have "\<exists>c. for_state (\<lambda>i c. do { x \<leftarrow> Bits_Get (mk_bits n v) i; Some (if x then c + 1 else c) })
       [0..<n] 0 = Some c \<and> c = card {i. i < n \<and> bit v i}"
  proof (rule for_state_upt[where P = "\<lambda>k c. c = card {i. i < k \<and> bit v i}"])
    fix i t assume i: "i < n" "t = card {j. j < i \<and> bit v j}"
    have "{j. j < Suc i \<and> bit v j} = (if bit v i then insert i {j. j < i \<and> bit v j} else {j. j < i \<and> bit v j})"
      by (auto simp: less_Suc_eq)
    then show "\<exists>t'. do { x \<leftarrow> Bits_Get (mk_bits n v) i; Some (if x then t + 1 else t) } = Some t' \<and>
      t' = card {j. j < Suc i \<and> bit v j}" using i by simp
  qed simp
  then show ?thesis by (simp add: Bits_PopCount_def)
qed


lemma Bits_IsOne_eq [simp]: "Bits_IsOne (mk_bits n v) = Some (take_bit n v = 1)"
proof -
  let ?S = "{i. i < n \<and> bit v i}"
  have "take_bit n v = 1 \<longleftrightarrow> ?S = {0}"
  proof
    assume "take_bit n v = 1"
    then have "bit (take_bit n v) i \<longleftrightarrow> i = 0" for i by (simp only: bit_1_iff)
    then show "?S = {0}" by (auto simp: bit_take_bit_iff)
  next
    assume "?S = {0}"
    then have "i < n \<and> bit v i \<longleftrightarrow> i = 0" for i by auto
    then show "take_bit n v = 1"
      by (intro nat_bit_eqI) (simp only: bit_take_bit_iff bit_1_iff)
  qed
  moreover have "card ?S = 1 \<and> bit v 0 \<and> 0 < n \<longleftrightarrow> ?S = {0}"
  proof
    assume a: "card ?S = 1 \<and> bit v 0 \<and> 0 < n"
    then obtain k where "?S = {k}" by (meson card_1_singletonE)
    moreover from a have "0 \<in> ?S" by simp
    ultimately show "?S = {0}" by simp
  next
    assume S: "?S = {0}"
    then have "0 \<in> ?S" by simp
    then have "bit v 0" "0 < n" by simp_all
    then show "card ?S = 1 \<and> bit v 0 \<and> 0 < n" unfolding S by simp
  qed
  moreover have "card ?S = 1 \<Longrightarrow> 0 < n" by (rule ccontr) simp
  ultimately show ?thesis
    by (cases "card ?S = 1") (auto simp: Bits_IsOne_def)
qed

lemma Bits_IsPowerOfTwo_eq [simp]: "Bits_IsPowerOfTwo (mk_bits n v) = Some (\<exists>k. take_bit n v = 2 ^ k)"
proof -
  let ?S = "{i. i < n \<and> bit v i}"
  have "take_bit n v = 2 ^ k \<longleftrightarrow> ?S = {k}" for k
  proof
    assume "take_bit n v = 2 ^ k"
    then have "bit (take_bit n v) i \<longleftrightarrow> i = k" for i by (simp add: bit_exp_iff possible_bit_def)
    then show "?S = {k}" by (auto simp: bit_take_bit_iff)
  next
    assume "?S = {k}"
    then have "i < n \<and> bit v i \<longleftrightarrow> i = k" for i by auto
    then show "take_bit n v = 2 ^ k"
      by (intro nat_bit_eqI) (simp add: bit_take_bit_iff bit_exp_iff possible_bit_def)
  qed
  then show ?thesis by (simp add: Bits_IsPowerOfTwo_def card_1_singleton_iff)
qed

lemma Bits_CountLeadingZeros_eq [simp]:
  "Bits_CountLeadingZeros (mk_bits n v) = Some (run_length (\<lambda>i. \<not> bit v (n - 1 - i)) n)"
  unfolding Bits_CountLeadingZeros_def mk_bits_fields by (rule for_find_run) auto

lemma Bits_CountLeadingOnes_eq [simp]:
  "Bits_CountLeadingOnes (mk_bits n v) = Some (run_length (\<lambda>i. bit v (n - 1 - i)) n)"
  unfolding Bits_CountLeadingOnes_def mk_bits_fields by (rule for_find_run) auto

lemma Bits_CountTrailingZeros_eq [simp]:
  "Bits_CountTrailingZeros (mk_bits n v) = Some (run_length (\<lambda>i. \<not> bit v i) n)"
  unfolding Bits_CountTrailingZeros_def mk_bits_fields by (rule for_find_run) auto

lemma Bits_CountTrailingOnes_eq [simp]:
  "Bits_CountTrailingOnes (mk_bits n v) = Some (run_length (bit v) n)"
  unfolding Bits_CountTrailingOnes_def mk_bits_fields by (rule for_find_run) auto

lemma Bits_FitsInNBitsUnsigned_eq [simp]:
  "Bits_FitsInNBitsUnsigned (mk_bits n v) k = Some (take_bit n v < 2 ^ k)"
proof -
  have "take_bit n v < 2 ^ k \<longleftrightarrow> (\<forall>i. k \<le> i \<and> i < n \<longrightarrow> \<not> bit v i)"
    by (auto simp: bit_nat_less_iff bit_take_bit_iff)
  then show ?thesis
    unfolding Bits_FitsInNBitsUnsigned_def mk_bits_fields
    by (subst for_find_bool[where P = "bit v"]) auto
qed

lemma Bits_ToUint64_eq:
  "Bits_ToUint64 (mk_bits n v) =
     Some (if take_bit n v < 2 ^ 64 then Inr (word_of_nat (take_bit n v)) else Inl InvalidArgumentError)"
  by (simp add: Bits_ToUint64_def Bits_FitsInUint64_def)

lemma bit_sval: "bm_inv b \<Longrightarrow> bit (sval b) i \<longleftrightarrow>
    bit_count b \<noteq> 0 \<and> bit (uval b) (min i (bit_count b - 1))"
proof (cases "bit_count b")
  case (Suc k)
  assume "bm_inv b"
  then have u: "take_bit (Suc k) (int (uval b)) = int (uval b)"
    using Suc by (simp add: bm_inv_def take_bit_int_eq_self_iff) (metis int_less_power_iff power_Suc)
  have "sval b = signed_take_bit k (int (uval b))"
    using Suc u by (simp add: sval_def signed_take_bit_eq_take_bit_minus bit_of_nat_iff_bit)
  then show ?thesis using Suc by (simp add: bit_signed_take_bit_iff bit_of_nat_iff_bit min.commute)
qed simp

lemma Bits_FitsInNBitsSigned_eq:
  "Bits_FitsInNBitsSigned (mk_bits n v) k =
     Some (if k = 0 then take_bit n v = 0
           else - (2 ^ (k - 1)) \<le> sval (mk_bits n v) \<and> sval (mk_bits n v) < 2 ^ (k - 1))"
proof (cases "k = 0")
  case False
  let ?b = "mk_bits n v"
  have s: "bit (sval ?b) i \<longleftrightarrow> n \<noteq> 0 \<and> bit v (min i (n - 1))" for i
    by (auto simp: bit_sval bit_take_bit_iff)
  have "- (2 ^ (k - 1)) \<le> sval ?b \<and> sval ?b < 2 ^ (k - 1) \<longleftrightarrow> signed_take_bit (k - 1) (sval ?b) = sval ?b"
    by (auto simp: signed_take_bit_int_eq_self_iff)
  also have "\<dots> \<longleftrightarrow> (\<forall>i \<ge> k - 1. bit (sval ?b) i = bit (sval ?b) (k - 1))"
    by (auto simp: bit_eq_iff bit_signed_take_bit_iff min_def)
  also have "\<dots> \<longleftrightarrow> (\<forall>i. k - 1 \<le> i \<and> i < n \<longrightarrow> \<not> (bit v i \<noteq> bit v (n - 1)))"
  proof
    assume a: "\<forall>i \<ge> k - 1. bit (sval ?b) i = bit (sval ?b) (k - 1)"
    show "\<forall>i. k - 1 \<le> i \<and> i < n \<longrightarrow> \<not> (bit v i \<noteq> bit v (n - 1))"
    proof (intro allI impI)
      fix i assume i: "k - 1 \<le> i \<and> i < n"
      then have "bit (sval ?b) i = bit (sval ?b) (n - 1)" using a by (metis Suc_pred' le_trans less_Suc_eq_le less_nat_zero_code neq0_conv)
      then show "\<not> (bit v i \<noteq> bit v (n - 1))" using i by (auto simp: s min_def split: if_splits)
    qed
  next
    assume a: "\<forall>i. k - 1 \<le> i \<and> i < n \<longrightarrow> \<not> (bit v i \<noteq> bit v (n - 1))"
    have top: "bit (sval ?b) i = (n \<noteq> 0 \<and> bit v (n - 1))" if "k - 1 \<le> i" for i
    proof (cases "i < n")
      case True
      then have i: "min i (n - 1) = i" by linarith
      have "bit v i = bit v (n - 1)" using a that True by blast
      then show ?thesis using True by (simp only: s i)
    qed (auto simp: s min_def)
    then show "\<forall>i \<ge> k - 1. bit (sval ?b) i = bit (sval ?b) (k - 1)" using top[of "k - 1"] by blast
  qed
  finally show ?thesis
    using False unfolding Bits_FitsInNBitsSigned_def mk_bits_fields
    by (subst for_find_bool[where P = "\<lambda>i. bit v i \<noteq> bit v (n - 1)"]) auto
qed (simp add: Bits_FitsInNBitsSigned_def)

lemma Bits_ToInt64_eq:
  "Bits_ToInt64 (mk_bits n v) =
     Some (if - (2 ^ 63) \<le> sval (mk_bits n v) \<and> sval (mk_bits n v) < 2 ^ 63
           then Inr (word_of_int (sval (mk_bits n v))) else Inl InvalidArgumentError)"
proof -
  let ?b = "mk_bits n v"
  let ?w = "word_of_nat (take_bit n v) :: u64"
  have "(if n \<noteq> 0 \<and> bit v (n - 1) \<and> n < 64 then ?w OR push_bit n (- 1) else ?w) = word_of_int (sval ?b)"
  proof (rule bit_word_eqI)
    fix i assume "i < LENGTH(64)"
    then show "bit (if n \<noteq> 0 \<and> bit v (n - 1) \<and> n < 64 then ?w OR push_bit n (- 1) else ?w) i \<longleftrightarrow>
        bit (word_of_int (sval ?b) :: u64) i"
      by (auto simp: bit_sval bit_or_iff bit_word_of_nat bit_word_of_int_iff bit_take_bit_iff bit_push_bit_iff
        bit_not_iff bit_mask_iff min_def not_le split: if_splits)
  qed
  then show ?thesis
    by (simp add: Bits_ToInt64_def Bits_FitsInInt64_def Bits_FitsInNBitsSigned_eq cong: if_cong)
qed

text \<open>A rope holds the parts pushed so far, the first one in the low bits.\<close>

definition rope_inv :: "bits_rope \<Rightarrow> nat \<Rightarrow> nat \<Rightarrow> bool" where
  "rope_inv rope tot v \<longleftrightarrow> rope_bitmap rope = mk_bits tot v \<and> rope_index rope \<le> tot \<and> v < 2 ^ rope_index rope"

lemma BitsRope_push_back_eq:
  assumes "rope_inv rope tot v"
  shows "rope_index rope + n \<le> tot \<Longrightarrow> \<exists>r. BitsRope_push_back (mk_bits n w) rope = Some r \<and>
      rope_inv r tot (v + 2 ^ rope_index rope * take_bit n w) \<and> rope_index r = rope_index rope + n"
proof -
  let ?i = "rope_index rope" and ?v = "v + 2 ^ rope_index rope * take_bit n w"
  assume le: "?i + n \<le> tot"
  have r: "rope_bitmap rope = mk_bits tot v" "v < 2 ^ ?i" using assms by (simp_all add: rope_inv_def)
  have v: "?v = v OR push_bit ?i (take_bit n w)"
    using r(2) by (rule add_shift_or)
  obtain t where t: "for_state (\<lambda>i t. InlineBitmap_Set t (?i + i) (bit w i)) [0..<n] (mk_bits tot v) = Some t"
    and inv: "bm_inv t" "bit_count t = tot"
    and b: "\<forall>j. bit (uval t) j \<longleftrightarrow> (if ?i \<le> j \<and> j < ?i + n then bit w (j - ?i) else bit (uval (mk_bits tot v)) j)"
    using bitmap.fill_ok[of "mk_bits tot v" ?i n "bit w"] le by auto
  have "t = mk_bits tot ?v"
    using inv
  proof (rule eq_mk_bits_uvalI)
    fix j assume "j < tot"
    have "?i \<le> j \<Longrightarrow> \<not> bit v j" using r(2) by (simp add: bit_nat_less_iff)
    then show "bit (uval t) j \<longleftrightarrow> bit ?v j"
      unfolding v b[rule_format] using \<open>j < tot\<close> by (auto simp: bit_or_iff bit_push_bit_iff bit_take_bit_iff)
  qed
  moreover have "for_state (\<lambda>i bm. do { x \<leftarrow> Bits_Get (mk_bits n w) i; InlineBitmap_Set bm (?i + i) x })
      [0..<n] (mk_bits tot v) = Some t"
    unfolding t[symmetric] by (rule for_state_cong) simp
  moreover have "?v < 2 ^ (?i + n)"
    unfolding v bit_nat_less_iff using r(2) by (auto simp: bit_or_iff bit_push_bit_iff bit_take_bit_iff bit_nat_less_iff)
  ultimately show ?thesis using le r by (simp add: BitsRope_push_back_def rope_inv_def)
qed

lemma BitsRope_push_back_bit_eq:
  assumes "rope_inv rope tot v" "rope_index rope < tot"
  shows "\<exists>r. BitsRope_push_back_bit x rope = Some r \<and>
      rope_inv r tot (v + 2 ^ rope_index rope * of_bool x) \<and> rope_index r = rope_index rope + 1"
proof -
  let ?i = "rope_index rope"
  have r: "rope_bitmap rope = mk_bits tot v" "v < 2 ^ ?i" using assms by (simp_all add: rope_inv_def)
  have b: "\<not> bit v ?i" using r(2) by (simp add: bit_nat_less_iff)
  have "(if x then set_bit ?i v else unset_bit ?i v) = v + 2 ^ ?i * of_bool x"
    using b by (auto simp: set_bit_eq intro!: nat_bit_eqI simp: bit_unset_bit_iff)
  then show ?thesis using assms(2) r by (simp add: BitsRope_push_back_bit_def rope_inv_def)
qed

end
