(* ===== verification/BigInt.thy ===== *)
theory BigInt
  imports XlsBits
begin

text \<open>
  \<open>xls/ir/big_int.h\<close> and \<open>big_int.cc\<close>: arbitrary precision integers as a thin class over the
  \<open>BIGNUM\<close> of the OpenSSL library. The library is not part of the repository: its functions are
  a record that every definition takes as its first argument, with \<open>None\<close> for the failure the
  sources check for, and \<open>bignum_ok\<close> is what its documentation promises about the integer \<open>val\<close>
  a \<open>BIGNUM\<close> holds. The lemmas give every operation on that integer.
\<close>

section \<open>The library\<close>

record 'n bignum_lib =
  BN_new :: 'n
  BN_one :: "'n option"
  BN_copy :: "'n \<Rightarrow> 'n option"
  BN_bin2bn :: "u8 list \<Rightarrow> 'n option"
  BN_bn2bin_padded :: "nat \<Rightarrow> 'n \<Rightarrow> u8 list option"
  BN_num_bits :: "'n \<Rightarrow> nat"
  BN_num_bytes :: "'n \<Rightarrow> nat"
  BN_is_zero :: "'n \<Rightarrow> bool"
  BN_is_negative :: "'n \<Rightarrow> bool"
  BN_is_odd :: "'n \<Rightarrow> bool"
  BN_set_negative :: "'n \<Rightarrow> bool \<Rightarrow> 'n"
  BN_add :: "'n \<Rightarrow> 'n \<Rightarrow> 'n option"
  BN_sub :: "'n \<Rightarrow> 'n \<Rightarrow> 'n option"
  BN_mul :: "'n \<Rightarrow> 'n \<Rightarrow> 'n option"
  BN_div :: "'n \<Rightarrow> 'n \<Rightarrow> ('n \<times> 'n) option"
  BN_add_word :: "'n \<Rightarrow> u64 \<Rightarrow> 'n option"
  BN_sub_word :: "'n \<Rightarrow> u64 \<Rightarrow> 'n option"
  BN_lshift :: "'n \<Rightarrow> nat \<Rightarrow> 'n option"
  BN_cmp :: "'n \<Rightarrow> 'n \<Rightarrow> int"

text \<open>The number of bits of a natural number without its leading zeros.\<close>

fun num_bits :: "nat \<Rightarrow> nat" where
  "num_bits v = (if v = 0 then 0 else Suc (num_bits (v div 2)))"

declare num_bits.simps [simp del]

definition num_bits_signed :: "int \<Rightarrow> nat" where
  "num_bits_signed x = (if x = 0 then 0 else if x < 0 then num_bits (nat (- x - 1)) + 1 else num_bits (nat x) + 1)"

text \<open>
  The documented behaviour: conversions are big-endian and unsigned, division truncates and fails
  on a zero divisor, the sign of zero cannot be set, and no call runs out of memory.
\<close>

definition bignum_ok :: "('n, 'z) bignum_lib_scheme \<Rightarrow> ('n \<Rightarrow> int) \<Rightarrow> bool" where
  "bignum_ok L val \<longleftrightarrow>
     val (BN_new L) = 0 \<and> map_option val (BN_one L) = Some 1 \<and>
     (\<forall>x. map_option val (BN_copy L x) = Some (val x)) \<and>
     (\<forall>bytes. map_option val (BN_bin2bn L bytes) = Some (int (words_nat (rev bytes)))) \<and>
     (\<forall>x k. nat \<bar>val x\<bar> < 2 ^ (8 * k) \<longrightarrow>
        (\<exists>bs. BN_bn2bin_padded L k x = Some bs \<and> length bs = k \<and> words_nat (rev bs) = nat \<bar>val x\<bar>)) \<and>
     (\<forall>x. BN_num_bits L x = num_bits (nat \<bar>val x\<bar>) \<and> BN_num_bytes L x = (num_bits (nat \<bar>val x\<bar>) + 7) div 8) \<and>
     (\<forall>x. BN_is_zero L x \<longleftrightarrow> val x = 0) \<and>
     (\<forall>x. BN_is_negative L x \<longleftrightarrow> val x < 0) \<and>
     (\<forall>x. BN_is_odd L x \<longleftrightarrow> odd (val x)) \<and>
     (\<forall>x s. val (BN_set_negative L x s) = (if s then - \<bar>val x\<bar> else \<bar>val x\<bar>)) \<and>
     (\<forall>x y. map_option val (BN_add L x y) = Some (val x + val y)) \<and>
     (\<forall>x y. map_option val (BN_sub L x y) = Some (val x - val y)) \<and>
     (\<forall>x y. map_option val (BN_mul L x y) = Some (val x * val y)) \<and>
     (\<forall>x y. map_option (map_prod val val) (BN_div L x y) =
        (if val y = 0 then None else Some (c_div (val x) (val y), c_mod (val x) (val y)))) \<and>
     (\<forall>x w. map_option val (BN_add_word L x w) = Some (val x + int (unat w))) \<and>
     (\<forall>x w. map_option val (BN_sub_word L x w) = Some (val x - int (unat w))) \<and>
     (\<forall>x k. map_option val (BN_lshift L x k) = Some (val x * 2 ^ k)) \<and>
     (\<forall>x y. (BN_cmp L x y = 0 \<longleftrightarrow> val x = val y) \<and> (BN_cmp L x y < 0 \<longleftrightarrow> val x < val y))"

section \<open>The class\<close>

definition BigInt_MakeUnsigned :: "('n, 'z) bignum_lib_scheme \<Rightarrow> bits \<Rightarrow> 'n option" where
  "BigInt_MakeUnsigned L b = do {
     byte_vector \<leftarrow> Bits_ToBytes b;
     BN_bin2bn L (rev byte_vector) }"

definition BigInt_MakeSigned :: "('n, 'z) bignum_lib_scheme \<Rightarrow> bits \<Rightarrow> 'n option" where
  "BigInt_MakeSigned L b = do {
     m \<leftarrow> Bits_msb b;
     if bit_count b = 0 \<or> \<not> m then BigInt_MakeUnsigned L b
     else do {
       bytes \<leftarrow> Bits_ToBytes b;
       let byte_vector = map (\<lambda>byte. NOT byte) (rev bytes);
       let bits_in_msb = bit_count b mod 8;
       byte_vector \<leftarrow> (if bits_in_msb \<noteq> 0 then do {
           k \<leftarrow> Mask bits_in_msb;
           top \<leftarrow> list_at byte_vector 0;
           Some (byte_vector[0 := top AND ucast k]) }
         else Some byte_vector);
       v \<leftarrow> BN_bin2bn L byte_vector;
       v \<leftarrow> BN_add_word L v 1;
       Some (BN_set_negative L v True) } }"

definition BigInt_Zero :: "('n, 'z) bignum_lib_scheme \<Rightarrow> 'n" where
  "BigInt_Zero L = BN_new L"

definition BigInt_One :: "('n, 'z) bignum_lib_scheme \<Rightarrow> 'n option" where
  "BigInt_One L = BN_one L"

definition BigInt_Negate :: "('n, 'z) bignum_lib_scheme \<Rightarrow> 'n \<Rightarrow> 'n option" where
  "BigInt_Negate L x = do {
     v \<leftarrow> BN_copy L x;
     Some (BN_set_negative L v (\<not> BN_is_negative L v)) }"

definition BigInt_Absolute :: "('n, 'z) bignum_lib_scheme \<Rightarrow> 'n \<Rightarrow> 'n option" where
  "BigInt_Absolute L x = do { r \<leftarrow> BN_copy L x; Some (BN_set_negative L r False) }"

definition BigInt_SignedBitCount :: "('n, 'z) bignum_lib_scheme \<Rightarrow> 'n \<Rightarrow> nat option" where
  "BigInt_SignedBitCount L x =
     (if BN_is_zero L x then Some 0
      else if BN_is_negative L x then do {
        magnitude \<leftarrow> BigInt_Negate L x;
        magnitude \<leftarrow> BN_sub_word L magnitude 1;
        Some (BN_num_bits L magnitude + 1) }
      else Some (BN_num_bits L x + 1))"

definition BigInt_UnsignedBitCount :: "('n, 'z) bignum_lib_scheme \<Rightarrow> 'n \<Rightarrow> nat option" where
  "BigInt_UnsignedBitCount L x = do { check (\<not> BN_is_negative L x); Some (BN_num_bits L x) }"

definition BigInt_ToSignedBits :: "('n, 'z) bignum_lib_scheme \<Rightarrow> 'n \<Rightarrow> bits option" where
  "BigInt_ToSignedBits L x =
     (if BN_is_zero L x then Bits_new 0
      else do {
        let is_negative = BN_is_negative L x;
        d \<leftarrow> BN_copy L x;
        let d = BN_set_negative L d False;
        d \<leftarrow> (if is_negative then BN_sub_word L d 1 else Some d);
        byte_vector \<leftarrow> BN_bn2bin_padded L (BN_num_bytes L d) d;
        let byte_vector = (if is_negative then map (\<lambda>byte. NOT byte) byte_vector else byte_vector);
        result_bit_count \<leftarrow> BigInt_SignedBitCount L x;
        rope \<leftarrow> BitsRope_new result_bit_count;
        low \<leftarrow> Bits_FromBytes (rev byte_vector) (result_bit_count - 1);
        rope \<leftarrow> BitsRope_push_back low rope;
        top \<leftarrow> (if is_negative then Bits_AllOnes 1 else Bits_new 1);
        rope \<leftarrow> BitsRope_push_back top rope;
        BitsRope_Build rope })"

definition BigInt_ToUnsignedBits :: "('n, 'z) bignum_lib_scheme \<Rightarrow> 'n \<Rightarrow> bits option" where
  "BigInt_ToUnsignedBits L x = do {
     check (\<not> BN_is_negative L x);
     byte_vector \<leftarrow> BN_bn2bin_padded L (BN_num_bytes L x) x;
     Bits_FromBytes (rev byte_vector) (BN_num_bits L x) }"

definition BigInt_ToSignedBitsWithBitCount ::
  "('n, 'z) bignum_lib_scheme \<Rightarrow> 'n \<Rightarrow> nat \<Rightarrow> bits status_or option" where
  "BigInt_ToSignedBitsWithBitCount L x n = do {
     min_bit_count \<leftarrow> BigInt_SignedBitCount L x;
     if n < min_bit_count then Some (Inl InvalidArgumentError)
     else do {
       rope \<leftarrow> BitsRope_new n;
       b \<leftarrow> BigInt_ToSignedBits L x;
       rope \<leftarrow> BitsRope_push_back b rope;
       ext \<leftarrow> (if BN_is_negative L x then Bits_AllOnes (n - min_bit_count) else Bits_new (n - min_bit_count));
       rope \<leftarrow> BitsRope_push_back ext rope;
       r \<leftarrow> BitsRope_Build rope;
       Some (Inr r) } }"

definition BigInt_ToUnsignedBitsWithBitCount ::
  "('n, 'z) bignum_lib_scheme \<Rightarrow> 'n \<Rightarrow> nat \<Rightarrow> bits status_or option" where
  "BigInt_ToUnsignedBitsWithBitCount L x n = do {
     min_bit_count \<leftarrow> BigInt_UnsignedBitCount L x;
     if n < min_bit_count then Some (Inl InvalidArgumentError)
     else do {
       rope \<leftarrow> BitsRope_new n;
       b \<leftarrow> BigInt_ToUnsignedBits L x;
       rope \<leftarrow> BitsRope_push_back b rope;
       ext \<leftarrow> Bits_new (n - min_bit_count);
       rope \<leftarrow> BitsRope_push_back ext rope;
       r \<leftarrow> BitsRope_Build rope;
       Some (Inr r) } }"

definition BigInt_Add :: "('n, 'z) bignum_lib_scheme \<Rightarrow> 'n \<Rightarrow> 'n \<Rightarrow> 'n option" where
  "BigInt_Add L lhs rhs = BN_add L lhs rhs"

definition BigInt_Sub :: "('n, 'z) bignum_lib_scheme \<Rightarrow> 'n \<Rightarrow> 'n \<Rightarrow> 'n option" where
  "BigInt_Sub L lhs rhs = BN_sub L lhs rhs"

definition BigInt_Mul :: "('n, 'z) bignum_lib_scheme \<Rightarrow> 'n \<Rightarrow> 'n \<Rightarrow> 'n option" where
  "BigInt_Mul L lhs rhs = BN_mul L lhs rhs"

definition BigInt_Div :: "('n, 'z) bignum_lib_scheme \<Rightarrow> 'n \<Rightarrow> 'n \<Rightarrow> 'n option" where
  "BigInt_Div L lhs rhs = do { qr \<leftarrow> BN_div L lhs rhs; Some (fst qr) }"

definition BigInt_Mod :: "('n, 'z) bignum_lib_scheme \<Rightarrow> 'n \<Rightarrow> 'n \<Rightarrow> 'n option" where
  "BigInt_Mod L lhs rhs = do { qr \<leftarrow> BN_div L lhs rhs; Some (snd qr) }"

definition int_max :: nat where
  "int_max = 2147483647"

text \<open>\<open>BigInt::Exp2\<close> ignores the result of \<open>BN_lshift\<close>: on failure its output is the zero it started with.\<close>

definition BigInt_Exp2 :: "('n, 'z) bignum_lib_scheme \<Rightarrow> nat \<Rightarrow> 'n option" where
  "BigInt_Exp2 L e = do {
     one \<leftarrow> BigInt_One L;
     if e = 0 then Some one
     else do {
       check (e \<le> int_max);
       Some (case BN_lshift L one e of Some v \<Rightarrow> v | None \<Rightarrow> BN_new L) } }"

definition BigInt_eq :: "('n, 'z) bignum_lib_scheme \<Rightarrow> 'n \<Rightarrow> 'n \<Rightarrow> bool" where
  "BigInt_eq L lhs rhs \<longleftrightarrow> BN_cmp L lhs rhs = 0"

definition BigInt_LessThan :: "('n, 'z) bignum_lib_scheme \<Rightarrow> 'n \<Rightarrow> 'n \<Rightarrow> bool" where
  "BigInt_LessThan L lhs rhs \<longleftrightarrow> BN_cmp L lhs rhs < 0"

definition BigInt_GreaterThan :: "('n, 'z) bignum_lib_scheme \<Rightarrow> 'n \<Rightarrow> 'n \<Rightarrow> bool" where
  "BigInt_GreaterThan L lhs rhs \<longleftrightarrow> BN_cmp L lhs rhs > 0"

definition BigInt_le :: "('n, 'z) bignum_lib_scheme \<Rightarrow> 'n \<Rightarrow> 'n \<Rightarrow> bool" where
  "BigInt_le L lhs rhs \<longleftrightarrow> BN_cmp L lhs rhs \<le> 0"

definition BigInt_ge :: "('n, 'z) bignum_lib_scheme \<Rightarrow> 'n \<Rightarrow> 'n \<Rightarrow> bool" where
  "BigInt_ge L lhs rhs \<longleftrightarrow> BN_cmp L lhs rhs \<ge> 0"

definition BigInt_IsEven :: "('n, 'z) bignum_lib_scheme \<Rightarrow> 'n \<Rightarrow> bool" where
  "BigInt_IsEven L x \<longleftrightarrow> \<not> BN_is_odd L x"

definition BigInt_IsPowerOfTwo :: "('n, 'z) bignum_lib_scheme \<Rightarrow> 'n \<Rightarrow> bool option" where
  "BigInt_IsPowerOfTwo L x = do {
     one \<leftarrow> BigInt_One L;
     if BigInt_LessThan L x one then Some False
     else do {
       let num_significant_bits = BN_num_bits L x;
       p \<leftarrow> BigInt_Exp2 L (num_significant_bits - 1);
       Some (BigInt_eq L p x) } }"

definition BigInt_CeilingLog2 :: "('n, 'z) bignum_lib_scheme \<Rightarrow> 'n \<Rightarrow> int option" where
  "BigInt_CeilingLog2 L x = do {
     check (\<not> BN_is_negative L x);
     if BigInt_eq L x (BigInt_Zero L) then Some (- (2 ^ 63))
     else do {
       one \<leftarrow> BigInt_One L;
       if BigInt_eq L x one then Some 0
       else do {
         let num_significant_bits = BN_num_bits L x;
         p \<leftarrow> BigInt_Exp2 L (num_significant_bits - 1);
         Some (if BigInt_eq L p x then int num_significant_bits - 1 else int num_significant_bits) } } }"

partial_function (option) BigInt_FactorizePowerOfTwo_loop ::
  "('n, 'z) bignum_lib_scheme \<Rightarrow> 'n \<Rightarrow> 'n \<Rightarrow> 'n \<Rightarrow> nat \<Rightarrow> ('n \<times> nat) option" where
  "BigInt_FactorizePowerOfTwo_loop L zero two x pow =
     (if BigInt_IsEven L x \<and> \<not> BigInt_eq L x zero
      then do {
        x' \<leftarrow> BigInt_Div L x two;
        BigInt_FactorizePowerOfTwo_loop L zero two x' (pow + 1) }
      else Some (x, pow))"

definition BigInt_FactorizePowerOfTwo :: "('n, 'z) bignum_lib_scheme \<Rightarrow> 'n \<Rightarrow> ('n \<times> nat) option" where
  "BigInt_FactorizePowerOfTwo L input = do {
     two \<leftarrow> BigInt_Exp2 L 1;
     x \<leftarrow> BN_copy L input;
     BigInt_FactorizePowerOfTwo_loop L (BigInt_Zero L) two x 0 }"

section \<open>Bit lengths and sequencing\<close>

lemma num_bits_le_iff: "num_bits v \<le> n \<longleftrightarrow> v < 2 ^ n"
proof (induction v arbitrary: n rule: num_bits.induct)
  case (1 v)
  show ?case
  proof (cases "v = 0")
    case False
    note IH = 1[OF False]
    show ?thesis
    proof (cases n)
      case (Suc m)
      have "v < 2 ^ Suc m \<longleftrightarrow> v div 2 < 2 ^ m" by (auto simp: div_less_iff_less_mult mult.commute)
      then show ?thesis using False IH[of m] Suc num_bits.simps[of v] by simp
    qed (use False num_bits.simps[of v] in simp)
  qed (simp add: num_bits.simps)
qed

lemma num_bits_bounds: "0 < v \<Longrightarrow> 2 ^ (num_bits v - 1) \<le> v \<and> v < 2 ^ num_bits v \<and> 0 < num_bits v"
  using num_bits_le_iff[of v "num_bits v"] num_bits_le_iff[of v "num_bits v - 1"] num_bits_le_iff[of v 0]
  by (cases "num_bits v") auto

lemma less_num_bits: "v < 2 ^ num_bits v"
  using num_bits_le_iff[of v "num_bits v"] by simp

lemma num_bits_signed_le_iff:
  "num_bits_signed x \<le> n \<longleftrightarrow> (if n = 0 then x = 0 else - (2 ^ (n - 1)) \<le> x \<and> x < 2 ^ (n - 1))"
proof -
  have p: "nat y < 2 ^ k \<longleftrightarrow> y < 2 ^ k" if "0 \<le> y" for y :: int and k
    using that int_less_power_iff[of "nat y" k] by simp
  consider "x = 0" | "x < 0" | "0 < x" by linarith
  then show ?thesis
  proof cases
    case 2
    then show ?thesis using num_bits_le_iff[of "nat (- x - 1)" "n - 1"] p[of "- x - 1" "n - 1"]
      by (cases n) (auto simp: num_bits_signed_def)
  next
    case 3
    then show ?thesis using num_bits_le_iff[of "nat x" "n - 1"] p[of x "n - 1"]
      by (cases n) (auto simp: num_bits_signed_def intro: order_trans[of _ 0])
  qed (auto simp: num_bits_signed_def)
qed

text \<open>Sequencing on a call whose result is known up to the integer it holds.\<close>

lemma val_bind:
  assumes "map_option val r = Some c" "\<And>z. val z = c \<Longrightarrow> f z = R"
  shows "r \<bind> f = R"
  using assms by (cases r) auto

lemma val_bind_map:
  assumes "map_option val r = Some c" "\<And>z. val z = c \<Longrightarrow> map_option val' (f z) = R"
  shows "map_option val' (r \<bind> f) = R"
  using assms by (cases r) auto

section \<open>Every operation on the integer\<close>

lemma bignum_consts:
  assumes "bignum_ok L val"
  shows "val (BigInt_Zero L) = 0" "map_option val (BigInt_One L) = Some 1" "val (BN_new L) = 0"
    "map_option val (BN_copy L x) = Some (val x)"
  using assms by (simp_all add: bignum_ok_def BigInt_Zero_def BigInt_One_def)

lemma bignum_bin2bn:
  "bignum_ok L val \<Longrightarrow> map_option val (BN_bin2bn L bytes) = Some (int (words_nat (rev bytes)))"
  by (simp add: bignum_ok_def)

lemma bignum_bn2bin:
  "bignum_ok L val \<Longrightarrow> nat \<bar>val x\<bar> < 2 ^ (8 * k) \<Longrightarrow>
     \<exists>bs. BN_bn2bin_padded L k x = Some bs \<and> length bs = k \<and> words_nat (rev bs) = nat \<bar>val x\<bar>"
  by (simp add: bignum_ok_def)

lemma bignum_obs:
  assumes "bignum_ok L val"
  shows "BN_num_bits L x = num_bits (nat \<bar>val x\<bar>)" "BN_num_bytes L x = (num_bits (nat \<bar>val x\<bar>) + 7) div 8"
    "BN_is_zero L x \<longleftrightarrow> val x = 0" "BN_is_negative L x \<longleftrightarrow> val x < 0" "BN_is_odd L x \<longleftrightarrow> odd (val x)"
    "val (BN_set_negative L x s) = (if s then - \<bar>val x\<bar> else \<bar>val x\<bar>)"
  using assms by (simp_all add: bignum_ok_def)

lemma bignum_arith:
  assumes "bignum_ok L val"
  shows "map_option val (BigInt_Add L x y) = Some (val x + val y)"
    "map_option val (BigInt_Sub L x y) = Some (val x - val y)"
    "map_option val (BigInt_Mul L x y) = Some (val x * val y)"
    "map_option val (BN_add_word L x w) = Some (val x + int (unat w))"
    "map_option val (BN_sub_word L x w) = Some (val x - int (unat w))"
    "map_option val (BN_lshift L x k) = Some (val x * 2 ^ k)"
  using assms by (simp_all add: bignum_ok_def BigInt_Add_def BigInt_Sub_def BigInt_Mul_def)

lemma BigInt_Div_val:
  assumes "bignum_ok L val"
  shows "map_option val (BigInt_Div L x y) = (if val y = 0 then None else Some (c_div (val x) (val y)))"
proof -
  have "map_option (map_prod val val) (BN_div L x y) =
        (if val y = 0 then None else Some (c_div (val x) (val y), c_mod (val x) (val y)))"
    using assms by (simp add: bignum_ok_def)
  then show ?thesis by (cases "BN_div L x y") (auto simp: BigInt_Div_def split: if_splits)
qed

lemma BigInt_Mod_val:
  assumes "bignum_ok L val"
  shows "map_option val (BigInt_Mod L x y) = (if val y = 0 then None else Some (c_mod (val x) (val y)))"
proof -
  have "map_option (map_prod val val) (BN_div L x y) =
        (if val y = 0 then None else Some (c_div (val x) (val y), c_mod (val x) (val y)))"
    using assms by (simp add: bignum_ok_def)
  then show ?thesis by (cases "BN_div L x y") (auto simp: BigInt_Mod_def split: if_splits)
qed

lemma BigInt_cmp_val:
  assumes "bignum_ok L val"
  shows "BigInt_eq L x y \<longleftrightarrow> val x = val y" "BigInt_LessThan L x y \<longleftrightarrow> val x < val y"
    "BigInt_GreaterThan L x y \<longleftrightarrow> val x > val y" "BigInt_le L x y \<longleftrightarrow> val x \<le> val y"
    "BigInt_ge L x y \<longleftrightarrow> val x \<ge> val y"
proof -
  have c: "BN_cmp L x y = 0 \<longleftrightarrow> val x = val y" "BN_cmp L x y < 0 \<longleftrightarrow> val x < val y"
    using assms by (simp_all add: bignum_ok_def)
  show "BigInt_eq L x y \<longleftrightarrow> val x = val y" "BigInt_LessThan L x y \<longleftrightarrow> val x < val y"
    "BigInt_GreaterThan L x y \<longleftrightarrow> val x > val y" "BigInt_le L x y \<longleftrightarrow> val x \<le> val y"
    "BigInt_ge L x y \<longleftrightarrow> val x \<ge> val y"
    unfolding BigInt_eq_def BigInt_LessThan_def BigInt_GreaterThan_def BigInt_le_def BigInt_ge_def
    using c by linarith+
qed

lemma BigInt_sign_val:
  assumes "bignum_ok L val"
  shows "map_option val (BigInt_Negate L x) = Some (- val x)"
    "map_option val (BigInt_Absolute L x) = Some \<bar>val x\<bar>"
  unfolding BigInt_Negate_def BigInt_Absolute_def
  by (rule val_bind_map[OF bignum_consts(4)[OF assms]]; auto simp: bignum_obs[OF assms])+

lemma BigInt_Exp2_val:
  assumes "bignum_ok L val"
  shows "map_option val (BigInt_Exp2 L e) = (if e \<le> int_max then Some (2 ^ e) else None)"
  unfolding BigInt_Exp2_def
proof (rule val_bind_map[OF bignum_consts(2)[OF assms]])
  fix one assume o: "val one = 1"
  obtain s where "BN_lshift L one e = Some s" "val s = 2 ^ e"
    using bignum_arith(6)[OF assms, of one e] o by (cases "BN_lshift L one e") auto
  then show "map_option val (if e = 0 then Some one
      else check (e \<le> int_max) \<bind> (\<lambda>_. Some (case BN_lshift L one e of Some v \<Rightarrow> v | None \<Rightarrow> BN_new L)))
    = (if e \<le> int_max then Some (2 ^ e) else None)"
    using o by (auto simp: int_max_def)
qed

lemma BigInt_SignedBitCount_eq:
  assumes "bignum_ok L val"
  shows "BigInt_SignedBitCount L x = Some (num_bits_signed (val x))"
proof -
  have "val x < 0 \<Longrightarrow> do { m \<leftarrow> BigInt_Negate L x; m \<leftarrow> BN_sub_word L m 1; Some (BN_num_bits L m + 1) }
     = Some (num_bits (nat (- val x - 1)) + 1)"
    by (rule val_bind[OF BigInt_sign_val(1)[OF assms]], rule val_bind[OF bignum_arith(5)[OF assms]])
      (simp add: bignum_obs[OF assms])
  then show ?thesis by (simp add: BigInt_SignedBitCount_def bignum_obs[OF assms] num_bits_signed_def)
qed

lemma BigInt_UnsignedBitCount_eq:
  "bignum_ok L val \<Longrightarrow>
     BigInt_UnsignedBitCount L x = (if val x < 0 then None else Some (num_bits (nat (val x))))"
  by (simp add: BigInt_UnsignedBitCount_def bignum_obs)

lemma BigInt_MakeUnsigned_val:
  "bignum_ok L val \<Longrightarrow> map_option val (BigInt_MakeUnsigned L (mk_bits n v)) = Some (int (take_bit n v))"
  by (simp add: BigInt_MakeUnsigned_def bignum_bin2bn)


lemma bit_words_nat_not:
  "bit (words_nat (map (\<lambda>byte. NOT byte) bs)) i \<longleftrightarrow> i < 8 * length bs \<and> \<not> bit (words_nat (bs :: u8 list)) i"
  by (auto simp: bit_words_nat bit_not_iff)

lemma masked_complement:
  fixes v :: nat
  assumes "0 < n" "Mask (n mod 8) = Some k"
  defines "bs \<equiv> map (\<lambda>byte. NOT byte) (rev (bytes_of n v))"
  shows "int (words_nat (rev (if n mod 8 \<noteq> 0 then bs[0 := bs ! 0 AND ucast k] else bs))) = 2 ^ n - 1 - int (take_bit n v)"
proof (rule nat_complement)
  let ?l = "(n + 7) div 8"
  let ?bs = "if n mod 8 \<noteq> 0 then bs[0 := bs ! 0 AND ucast k] else bs"
  fix i :: nat
  have l: "length bs = ?l" "0 < ?l" using assms(1) by (simp_all add: bs_def)
  have nth: "rev ?bs ! j = (if n mod 8 \<noteq> 0 \<and> j = ?l - 1 then NOT (bytes_of n v ! j) AND ucast k else NOT (bytes_of n v ! j))" if "j < ?l" for j
  proof -
    have "rev bs ! j = NOT (bytes_of n v ! j)" using that by (simp add: bs_def flip: rev_map)
    moreover have "bs ! 0 = NOT (bytes_of n v ! (?l - 1))" using l by (simp add: bs_def rev_nth)
    ultimately show ?thesis using l that by (auto simp: rev_update)
  qed
  have k: "bit k m \<longleftrightarrow> m < n mod 8" if "m < 8" for m
    using assms(2) that by (auto simp: bit_mask_iff)
  have d: "8 * (i div 8) + i mod 8 = i" by simp
  have "bit (words_nat (rev ?bs)) i \<longleftrightarrow> i div 8 < ?l \<and> bit (rev ?bs ! (i div 8)) (i mod 8)"
    using l by (simp add: bit_words_nat)
  also have "\<dots> \<longleftrightarrow> i < n \<and> \<not> bit v i"
  proof (cases "i div 8 < ?l")
    case True
    have lt: "i < n \<longleftrightarrow> \<not> (n mod 8 \<noteq> 0 \<and> i div 8 = ?l - 1) \<or> i mod 8 < n mod 8"
    proof -
      obtain q r where n: "n div 8 = q" "n mod 8 = r" by simp
      obtain a b where i: "i div 8 = a" "i mod 8 = b" by simp
      have nq: "n = 8 * q + r" "r < 8" using n by auto
      have ib: "i = 8 * a + b" "b < 8" using i by auto
      have l: "?l = (if r = 0 then q else Suc q)" using nq by auto
      have "a < (if r = 0 then q else Suc q)" using True i l by simp
      then show ?thesis unfolding l i n using nq ib by (cases "r = 0"; cases "a = q"; simp; linarith)
    qed
    have "bit (rev ?bs ! (i div 8)) (i mod 8) \<longleftrightarrow> \<not> (i < n \<and> bit v i) \<and> i < n"
      unfolding nth[OF True] using bit_bytes_of[OF True, of v "i mod 8"] d k[of "i mod 8"] lt
      by (auto simp: bit_and_iff bit_not_iff bit_ucast_iff)
    then show ?thesis using True by auto
  qed auto
  finally show "bit (words_nat (rev ?bs)) i \<longleftrightarrow> i < n \<and> \<not> bit (take_bit n v) i"
    by (auto simp: bit_take_bit_iff)
qed simp


lemma BigInt_MakeSigned_val:
  assumes "bignum_ok L val"
  shows "map_option val (BigInt_MakeSigned L (mk_bits n v)) = Some (sval (mk_bits n v))"
proof (cases "n = 0 \<or> \<not> bit v (n - 1)")
  case True
  then show ?thesis
    using BigInt_MakeUnsigned_val[OF assms, of n v]
    by (auto simp: BigInt_MakeSigned_def sval_def bit_take_bit_iff)
next
  case False
  then have n: "0 < n" "bit v (n - 1)" by auto
  let ?bs = "map (\<lambda>byte. NOT byte) (rev (bytes_of n v))"
  obtain k where k: "Mask (n mod 8) = Some k" by (cases "Mask (n mod 8)") (auto split: if_splits)
  let ?bv = "if n mod 8 \<noteq> 0 then ?bs[0 := ?bs ! 0 AND ucast k] else ?bs"
  have "0 < length ?bs" using n(1) by simp
  then have "BigInt_MakeSigned L (mk_bits n v) = do {
      x \<leftarrow> BN_bin2bn L ?bv; x \<leftarrow> BN_add_word L x 1; Some (BN_set_negative L x True) }"
    using n k by (simp add: BigInt_MakeSigned_def Let_def)
  also have "map_option val \<dots> = Some (- \<bar>int (words_nat (rev ?bv)) + 1\<bar>)"
    by (rule val_bind_map[OF bignum_bin2bn[OF assms]], rule val_bind_map[OF bignum_arith(4)[OF assms]])
      (simp add: bignum_obs[OF assms])
  also have "int (words_nat (rev ?bv)) + 1 = 2 ^ n - int (take_bit n v)"
    using masked_complement[OF n(1) k, of v] by simp
  also have "- \<bar>2 ^ n - int (take_bit n v)\<bar> = sval (mk_bits n v)"
  proof -
    have "int (take_bit n v) < 2 ^ n" using int_less_power_iff[of "take_bit n v" n] by simp
    then have "- \<bar>2 ^ n - int (take_bit n v)\<bar> = int (take_bit n v) - 2 ^ n" by linarith
    then show ?thesis using n by (simp add: sval_def bit_take_bit_iff)
  qed
  finally show ?thesis .
qed

lemma rope_two:
  "(do { rope \<leftarrow> BitsRope_new (n + m);
         rope \<leftarrow> BitsRope_push_back (mk_bits n v) rope;
         rope \<leftarrow> BitsRope_push_back (mk_bits m w) rope;
         BitsRope_Build rope }) = Some (mk_bits (n + m) (take_bit n v + 2 ^ n * take_bit m w))"
proof -
  let ?r0 = "\<lparr>rope_bitmap = mk_bits (n + m) 0, rope_index = 0\<rparr>"
  have "rope_inv ?r0 (n + m) 0" by (simp add: rope_inv_def)
  then obtain r1 where r1: "BitsRope_push_back (mk_bits n v) ?r0 = Some r1"
    "rope_inv r1 (n + m) (take_bit n v)" "rope_index r1 = n"
    using BitsRope_push_back_eq[of ?r0 "n + m" 0 n v] by auto
  then obtain r2 where "BitsRope_push_back (mk_bits m w) r1 = Some r2"
    "rope_inv r2 (n + m) (take_bit n v + 2 ^ n * take_bit m w)" "rope_index r2 = n + m"
    using BitsRope_push_back_eq[of r1 "n + m" "take_bit n v" m w] by auto
  then show ?thesis using r1 by (simp add: BitsRope_new_def BitsRope_Build_def rope_inv_def)
qed

lemma BigInt_ToUnsignedBits_eq:
  assumes "bignum_ok L val"
  shows "BigInt_ToUnsignedBits L x = (if val x < 0 then None else Some (mk_bits (num_bits (nat (val x))) (nat (val x))))"
proof (cases "val x < 0")
  case False
  let ?v = "nat (val x)"
  have "num_bits ?v \<le> 8 * ((num_bits ?v + 7) div 8)" by linarith
  then have "?v < 2 ^ (8 * ((num_bits ?v + 7) div 8))" using num_bits_le_iff by blast
  then obtain bs where "BN_bn2bin_padded L ((num_bits ?v + 7) div 8) x = Some bs"
    "length bs = (num_bits ?v + 7) div 8" "words_nat (rev bs) = ?v"
    using bignum_bn2bin[OF assms, of x] False by auto
  then show ?thesis using False by (simp add: BigInt_ToUnsignedBits_def bignum_obs[OF assms])
qed (simp add: BigInt_ToUnsignedBits_def bignum_obs[OF assms])

lemma BigInt_ToUnsignedBitsWithBitCount_eq:
  assumes "bignum_ok L val"
  shows "BigInt_ToUnsignedBitsWithBitCount L x n =
    (if val x < 0 then None
     else Some (if val x < 2 ^ n then Inr (mk_bits n (nat (val x))) else Inl InvalidArgumentError))"
proof (cases "val x < 0")
  case False
  let ?v = "nat (val x)" and ?m = "num_bits (nat (val x))"
  have lt: "val x < 2 ^ n \<longleftrightarrow> ?m \<le> n"
    using False int_less_power_iff[of ?v n] num_bits_le_iff[of ?v n] by simp
  show ?thesis
  proof (cases "?m \<le> n")
    case True
    have "take_bit ?m ?v = ?v" using less_num_bits[of ?v] by (simp add: take_bit_nat_eq_self_iff)
    then show ?thesis
      using rope_two[of ?m "n - ?m" ?v 0] True False
      by (simp add: BigInt_ToUnsignedBitsWithBitCount_def BigInt_UnsignedBitCount_eq[OF assms]
          BigInt_ToUnsignedBits_eq[OF assms] lt bind_eq_Some_conv flip: bind_assoc)
  qed (use False lt in \<open>simp add: BigInt_ToUnsignedBitsWithBitCount_def BigInt_UnsignedBitCount_eq[OF assms]\<close>)
qed (simp add: BigInt_ToUnsignedBitsWithBitCount_def BigInt_UnsignedBitCount_eq[OF assms])

lemma take_bit_of_negative:
  "d < 2 ^ k \<Longrightarrow> take_bit (k + 1) (- int d - 1) = 2 ^ k + (2 ^ k - 1 - int d)"
proof -
  assume "d < 2 ^ k"
  then have d: "int d < 2 ^ k" by (simp only: int_less_power_iff)
  have "(- int d - 1) mod 2 ^ (k + 1) = (- int d - 1 + 2 ^ (k + 1)) mod 2 ^ (k + 1)" by simp
  also have "\<dots> = - int d - 1 + 2 ^ (k + 1)"
  proof (rule mod_pos_pos_trivial)
    have "(2::int) ^ (k + 1) = 2 * 2 ^ k" by simp
    then show "0 \<le> - int d - 1 + 2 ^ (k + 1)" using d by linarith
  qed simp
  finally show ?thesis by (simp add: take_bit_eq_mod)
qed

lemma take_bit_of_positive: "v < 2 ^ k \<Longrightarrow> take_bit (k + 1) (int v) = int v"
proof -
  assume "v < 2 ^ k"
  then have "v < 2 ^ (k + 1)" by simp
  then show ?thesis by (simp add: take_bit_int_eq_self_iff int_less_power_iff del: power_Suc)
qed

lemma complement_bytes:
  assumes "d < 2 ^ k" "k \<le> 8 * length bs" "words_nat (bs :: u8 list) = d"
  shows "take_bit k (words_nat (map (\<lambda>byte. NOT byte) bs)) = 2 ^ k - 1 - d"
proof -
  have "int (take_bit k (words_nat (map (\<lambda>byte. NOT byte) bs))) = 2 ^ k - 1 - int d"
    using assms(1) by (rule nat_complement) (use assms in \<open>auto simp: bit_take_bit_iff bit_words_nat_not\<close>)
  also have "\<dots> = int (2 ^ k - 1 - d)" using assms(1) by (simp add: of_nat_diff)
  finally show ?thesis by (simp only: of_nat_eq_iff)
qed

lemma bn2bin_bind:
  assumes ok: "bignum_ok L val" and z: "val z = int d"
    and F: "\<And>bv. length bv = (num_bits d + 7) div 8 \<Longrightarrow> words_nat (rev bv) = d \<Longrightarrow> F bv = R"
  shows "(do { bv \<leftarrow> BN_bn2bin_padded L (BN_num_bytes L z) z; F bv }) = R"
proof -
  let ?l = "(num_bits d + 7) div 8"
  have "num_bits d \<le> 8 * ?l" by linarith
  then have "d < 2 ^ (8 * ?l)" using num_bits_le_iff by blast
  then show ?thesis using bignum_bn2bin[OF ok, of z ?l] F z by (auto simp: bignum_obs[OF ok])
qed

lemma two_complement_parts:
  fixes x :: int
  defines "d \<equiv> nat (if x < 0 then - x - 1 else x)"
  defines "k \<equiv> num_bits d"
  shows "mk_bits (k + 1) (take_bit k (if x < 0 then 2 ^ k - 1 - d else d) + 2 ^ k * take_bit 1 (if x < 0 then 1 else 0))
    = mk_int (k + 1) x"
proof -
  let ?u = "if x < 0 then 2 ^ k - 1 - d else d" and ?t = "if x < 0 then 1 else 0 :: nat"
  have dk: "d < 2 ^ k" by (simp add: k_def less_num_bits)
  have "take_bit k ?u = ?u" using dk by (auto simp: take_bit_nat_eq_self_iff)
  moreover have "take_bit (k + 1) x = int (?u + 2 ^ k * ?t)"
  proof (cases "x < 0")
    case True
    then have "x = - int d - 1" by (simp add: d_def)
    then show ?thesis using True take_bit_of_negative[OF dk] dk by (simp add: of_nat_diff)
  next
    case False
    then have "x = int d" by (simp add: d_def)
    then show ?thesis using False take_bit_of_positive[OF dk] by simp
  qed
  then have "nat (take_bit (k + 1) x) = ?u + 2 ^ k * ?t" by (simp only: nat_int)
  ultimately show ?thesis by (simp add: mk_int_def)
qed

lemma BigInt_ToSignedBits_eq:
  assumes ok: "bignum_ok L val"
  shows "BigInt_ToSignedBits L x = Some (mk_int (num_bits_signed (val x)) (val x))"
proof (cases "val x = 0")
  case True
  then show ?thesis
    by (simp add: BigInt_ToSignedBits_def bignum_obs[OF ok] num_bits_signed_def mk_int_def mk_bits_eq_iff)
next
  case False
  let ?neg = "val x < 0"
  define d where "d = nat (if ?neg then - val x - 1 else val x)"
  define k where "k = num_bits d"
  have c: "num_bits_signed (val x) = k + 1" using False by (simp add: num_bits_signed_def d_def k_def)
  have dk: "d < 2 ^ k" by (simp add: k_def less_num_bits)
  let ?t = "if ?neg then 1 else 0 :: nat" and ?u = "if ?neg then 2 ^ k - 1 - d else d"
  have dec: "map_option val (if ?neg then BN_sub_word L (BN_set_negative L z False) 1
      else Some (BN_set_negative L z False)) = Some (int d)" if "val z = val x" for z
    using that bignum_arith(5)[OF ok, of "BN_set_negative L z False" 1]
    by (cases ?neg) (simp_all add: bignum_obs[OF ok] d_def)
  have low: "Bits_FromBytes (rev (if ?neg then map (\<lambda>byte. NOT byte) bv else bv)) k = Some (mk_bits k ?u)"
    if bv: "length bv = (k + 7) div 8" "words_nat (rev bv) = d" for bv :: "u8 list"
  proof -
    have "k \<le> 8 * length (rev bv)" using bv(1) by simp
    then show ?thesis
      using complement_bytes[OF dk _ bv(2)] bv dk
      by (auto simp: mk_bits_eq_iff rev_map take_bit_nat_eq_self)
  qed
  have "BigInt_ToSignedBits L x = do {
      rope \<leftarrow> BitsRope_new (k + 1);
      rope \<leftarrow> BitsRope_push_back (mk_bits k ?u) rope;
      rope \<leftarrow> BitsRope_push_back (mk_bits 1 ?t) rope;
      BitsRope_Build rope }"
    unfolding BigInt_ToSignedBits_def BigInt_SignedBitCount_eq[OF ok] c bignum_obs(3,4)[OF ok] Let_def if_not_P[OF False]
    by (rule val_bind[OF bignum_consts(4)[OF ok]], rule val_bind[OF dec], assumption, rule bn2bin_bind[OF ok], assumption)
      (simp add: low k_def[symmetric] del: Bits_FromBytes_eq cong: if_cong)
  then show ?thesis
    using two_complement_parts[of "val x"] by (simp only: rope_two c d_def k_def)
qed

lemma bit_beyond_num_bits_signed:
  assumes "num_bits_signed x \<le> Suc i"
  shows "bit x i \<longleftrightarrow> x < 0"
proof -
  have "- (2 ^ i) \<le> x \<and> x < 2 ^ i" using num_bits_signed_le_iff[of x "Suc i"] assms by simp
  then have "x div 2 ^ i = (if x < 0 then - 1 else 0)"
    by (auto simp: div_pos_pos_trivial intro!: int_div_pos_eq[where r = "x + 2 ^ i"])
  then show ?thesis by (auto simp: bit_iff_odd)
qed

lemma sign_extension_parts:
  assumes "num_bits_signed x \<le> m"
  shows "mk_bits (m + e) (take_bit m (nat (take_bit m x)) + 2 ^ m * take_bit e (if x < 0 then mask e else 0))
    = mk_int (m + e) x"
proof -
  let ?l = "nat (take_bit m x)" and ?h = "if x < 0 then mask e else 0 :: nat"
  have "take_bit m ?l = ?l" "take_bit e ?h = ?h" "?l < 2 ^ m"
    by (simp_all add: take_bit_nat_eq nat_less_iff)
  then have "take_bit m ?l + 2 ^ m * take_bit e ?h = ?l OR push_bit m ?h" by (simp only: add_shift_or)
  also have "\<dots> = nat (take_bit (m + e) x)"
  proof (rule nat_bit_eqI)
    fix i
    show "bit (?l OR push_bit m ?h) i \<longleftrightarrow> bit (nat (take_bit (m + e) x)) i"
      using bit_beyond_num_bits_signed[of x i] assms
      by (cases "i < m") (auto simp: bit_or_iff bit_push_bit_iff bit_mask_iff bit_nat_iff bit_take_bit_iff)
  qed
  finally show ?thesis by (simp add: mk_int_def)
qed

lemma BigInt_ToSignedBitsWithBitCount_eq:
  assumes ok: "bignum_ok L val"
  shows "BigInt_ToSignedBitsWithBitCount L x n =
    Some (if num_bits_signed (val x) \<le> n then Inr (mk_int n (val x)) else Inl InvalidArgumentError)"
proof (cases "num_bits_signed (val x) \<le> n")
  case True
  define m where "m = num_bits_signed (val x)"
  let ?e = "if val x < 0 then mask (n - m) else 0 :: nat"
  have "(if BN_is_negative L x then Bits_AllOnes (n - m) else Bits_new (n - m)) = Some (mk_bits (n - m) ?e)"
    by (simp add: bignum_obs[OF ok])
  then show ?thesis
    using True rope_two[of m "n - m" "nat (take_bit m (val x))" ?e] sign_extension_parts[of "val x" m "n - m"]
    by (simp add: BigInt_ToSignedBitsWithBitCount_def BigInt_SignedBitCount_eq[OF ok] BigInt_ToSignedBits_eq[OF ok]
      mk_int_def[of m] m_def[symmetric] flip: bind_assoc split: if_splits)
qed (simp add: BigInt_ToSignedBitsWithBitCount_def BigInt_SignedBitCount_eq[OF ok])

lemma BigInt_IsPowerOfTwo_eq:
  assumes ok: "bignum_ok L val" and small: "num_bits (nat (val x)) \<le> int_max"
  shows "BigInt_IsPowerOfTwo L x = Some (\<exists>k. val x = 2 ^ k)"
  unfolding BigInt_IsPowerOfTwo_def
proof (rule val_bind[OF bignum_consts(2)[OF ok]])
  fix one assume one: "val one = 1"
  let ?n = "num_bits (nat (val x))"
  have "map_option val (BigInt_Exp2 L (?n - 1)) = Some (2 ^ (?n - 1))"
    using small by (simp add: BigInt_Exp2_val[OF ok])
  then obtain p where p: "BigInt_Exp2 L (?n - 1) = Some p" "val p = 2 ^ (?n - 1)" by auto
  have "(\<exists>k. val x = 2 ^ k) \<longleftrightarrow> 0 < val x \<and> val x = 2 ^ (?n - 1)"
  proof
    assume "\<exists>k. val x = 2 ^ k"
    then obtain k where k: "val x = 2 ^ k" by blast
    then have "?n = Suc k"
      using num_bits_le_iff[of "2 ^ k" "Suc k"] num_bits_le_iff[of "2 ^ k" k] by (simp add: nat_power_eq)
    then show "0 < val x \<and> val x = 2 ^ (?n - 1)" using k by simp
  qed auto
  then show "(if BigInt_LessThan L x one then Some False
      else let num_significant_bits = BN_num_bits L x
           in BigInt_Exp2 L (num_significant_bits - 1) \<bind> (\<lambda>p. Some (BigInt_eq L p x))) = Some (\<exists>k. val x = 2 ^ k)"
    using p one by (auto simp: BigInt_cmp_val[OF ok] bignum_obs[OF ok] Let_def)
qed

lemma BigInt_CeilingLog2_eq:
  assumes ok: "bignum_ok L val" and small: "num_bits (nat (val x)) \<le> int_max" and pos: "0 < val x"
  shows "\<exists>k. BigInt_CeilingLog2 L x = Some (int k) \<and> val x \<le> 2 ^ k \<and> (k = 0 \<or> 2 ^ (k - 1) < val x)"
proof -
  let ?n = "num_bits (nat (val x))"
  have b: "2 ^ (?n - 1) \<le> val x \<and> val x < 2 ^ ?n \<and> 0 < ?n"
    using num_bits_bounds[of "nat (val x)"] pos
    by (simp add: nat_le_iff nat_less_iff le_nat_iff)
  have "map_option val (BigInt_Exp2 L (?n - 1)) = Some (2 ^ (?n - 1))"
    using small by (simp add: BigInt_Exp2_val[OF ok])
  then obtain p where p: "BigInt_Exp2 L (?n - 1) = Some p" "val p = 2 ^ (?n - 1)" by auto
  let ?k = "if val x = 2 ^ (?n - 1) then ?n - 1 else ?n"
  obtain one where one: "BigInt_One L = Some one" "val one = 1" using bignum_consts(2)[OF ok] by auto
  have "num_bits 1 = 1" by (simp add: num_bits.simps)
  then have "BigInt_CeilingLog2 L x = Some (int ?k)"
    using pos one p b
    by (auto simp: BigInt_CeilingLog2_def bignum_obs[OF ok] BigInt_cmp_val[OF ok] bignum_consts(1)[OF ok] Let_def of_nat_diff)
  moreover have "val x \<le> 2 ^ ?k \<and> (?k = 0 \<or> 2 ^ (?k - 1) < val x)"
  proof -
    obtain n where n: "?n = n" by simp
    have "n - 1 = 0 \<or> (2::int) ^ (n - 1 - 1) < 2 ^ (n - 1)" by auto
    then show ?thesis using b unfolding n by auto
  qed
  ultimately show ?thesis by blast
qed

text \<open>The loop ends because a nonzero even number is halved in every iteration.\<close>

lemma BigInt_FactorizePowerOfTwo_loop_spec:
  assumes ok: "bignum_ok L val" and z: "val zero = 0" and two: "val two = 2"
  shows "\<exists>y k. BigInt_FactorizePowerOfTwo_loop L zero two x pow = Some (y, pow + k) \<and>
           val x = val y * 2 ^ k \<and> (odd (val y) \<or> val y = 0 \<and> k = 0)"
proof (induction "nat \<bar>val x\<bar>" arbitrary: x pow rule: less_induct)
  case less
  show ?case
  proof (cases "even (val x) \<and> val x \<noteq> 0")
    case True
    then obtain c where c: "val x = 2 * c" "c \<noteq> 0" by (auto elim: evenE)
    have "map_option val (BigInt_Div L x two) = Some c"
      using c two by (simp add: BigInt_Div_val[OF ok] c_div_def abs_mult sgn_mult mult_sgn_abs)
    then obtain x' where x': "BigInt_Div L x two = Some x'" "val x' = c" by auto
    moreover have "nat \<bar>val x'\<bar> < nat \<bar>val x\<bar>" using c x' by simp
    ultimately obtain y k where y: "BigInt_FactorizePowerOfTwo_loop L zero two x' (pow + 1) = Some (y, pow + 1 + k)"
      "c = val y * 2 ^ k" "odd (val y) \<or> val y = 0 \<and> k = 0"
      using less[of x' "pow + 1"] by auto
    then have "BigInt_FactorizePowerOfTwo_loop L zero two x pow = Some (y, pow + Suc k)"
      using True x' by (subst BigInt_FactorizePowerOfTwo_loop.simps)
        (simp add: BigInt_IsEven_def bignum_obs[OF ok] BigInt_cmp_val[OF ok] z)
    moreover have "val x = val y * 2 ^ Suc k" "odd (val y) \<or> val y = 0 \<and> Suc k = 0"
      using c y by auto
    ultimately show ?thesis by blast
  next
    case False
    then have "BigInt_FactorizePowerOfTwo_loop L zero two x pow = Some (x, pow + 0)"
      by (subst BigInt_FactorizePowerOfTwo_loop.simps)
        (auto simp: BigInt_IsEven_def bignum_obs[OF ok] BigInt_cmp_val[OF ok] z)
    then show ?thesis using False by fastforce
  qed
qed

lemma BigInt_FactorizePowerOfTwo_spec:
  assumes ok: "bignum_ok L val"
  shows "\<exists>y k. BigInt_FactorizePowerOfTwo L x = Some (y, k) \<and>
           val x = val y * 2 ^ k \<and> (odd (val y) \<or> val y = 0 \<and> k = 0)"
proof -
  have "map_option val (BigInt_Exp2 L 1) = Some 2" by (simp add: BigInt_Exp2_val[OF ok] int_max_def)
  then obtain two where two: "BigInt_Exp2 L 1 = Some two" "val two = 2" by auto
  have "map_option val (BN_copy L x) = Some (val x)" by (rule bignum_consts(4)[OF ok])
  then obtain x' where x': "BN_copy L x = Some x'" "val x' = val x" by auto
  show ?thesis
    using BigInt_FactorizePowerOfTwo_loop_spec[OF ok bignum_consts(1)[OF ok] two(2), of x' 0] two x'
    by (simp add: BigInt_FactorizePowerOfTwo_def)
qed

section \<open>The integers as a library\<close>

text \<open>A library that keeps a \<open>BIGNUM\<close> as its integer has the documented behaviour.\<close>

definition int_bignum :: "int bignum_lib" where
  "int_bignum = \<lparr>BN_new = 0, BN_one = Some 1, BN_copy = Some,
     BN_bin2bn = (\<lambda>bytes. Some (int (words_nat (rev bytes)))),
     BN_bn2bin_padded = (\<lambda>k x. if nat \<bar>x\<bar> < 2 ^ (8 * k) then Some (rev (bytes_of (8 * k) (nat \<bar>x\<bar>))) else None),
     BN_num_bits = (\<lambda>x. num_bits (nat \<bar>x\<bar>)), BN_num_bytes = (\<lambda>x. (num_bits (nat \<bar>x\<bar>) + 7) div 8),
     BN_is_zero = (\<lambda>x. x = 0), BN_is_negative = (\<lambda>x. x < 0), BN_is_odd = odd,
     BN_set_negative = (\<lambda>x s. if s then - \<bar>x\<bar> else \<bar>x\<bar>),
     BN_add = (\<lambda>x y. Some (x + y)), BN_sub = (\<lambda>x y. Some (x - y)), BN_mul = (\<lambda>x y. Some (x * y)),
     BN_div = (\<lambda>x y. if y = 0 then None else Some (c_div x y, c_mod x y)),
     BN_add_word = (\<lambda>x w. Some (x + int (unat w))), BN_sub_word = (\<lambda>x w. Some (x - int (unat w))),
     BN_lshift = (\<lambda>x k. Some (x * 2 ^ k)), BN_cmp = (\<lambda>x y. sgn (x - y))\<rparr>"

lemma int_bignum_ok: "bignum_ok int_bignum (\<lambda>x. x)"
proof -
  have "words_nat (bytes_of (8 * k) v) = v" if "v < 2 ^ (8 * k)" for k v
    using that by (simp add: take_bit_nat_eq_self_iff)
  then show ?thesis
    by (auto simp: bignum_ok_def int_bignum_def sgn_if)
qed

end
