(* ===== verification/BitsOps.thy ===== *)
theory BitsOps
  imports BigInt
begin

text \<open>
  \<open>xls/ir/bits_ops.h\<close> and \<open>bits_ops.cc\<close>: the operations on literal bit vectors that give the IR
  its arithmetic. Most of them have two paths, one on a machine word for at most 64 bits and one on
  bytes or \<open>BigInt\<close>s above that; the lemmas of the second half show that both compute the same
  operation on the number, so that each operation is one equation on the canonical form. Functions
  that use \<open>BigInt\<close> take the number library as their first argument.
\<close>

section \<open>Shared steps\<close>

text \<open>\<open>b.ToUint64().value()\<close> and \<open>b.ToInt64().value()\<close>.\<close>

definition u64_value :: "bits \<Rightarrow> u64 option" where
  "u64_value b = do { r \<leftarrow> Bits_ToUint64 b; status_value r }"

definition i64_value :: "bits \<Rightarrow> u64 option" where
  "i64_value b = do { r \<leftarrow> Bits_ToInt64 b; status_value r }"

text \<open>The loop over the bytes of two vectors that the wide bitwise operations share.\<close>

definition bytes_zip :: "(u8 \<Rightarrow> u8 \<Rightarrow> u8) \<Rightarrow> bits \<Rightarrow> bits \<Rightarrow> bits option" where
  "bytes_zip f lhs rhs = do {
     bytes \<leftarrow> Bits_ToBytes lhs;
     rhs_bytes \<leftarrow> Bits_ToBytes rhs;
     bytes \<leftarrow> for_state (\<lambda>i bs. do { x \<leftarrow> list_at bs i; y \<leftarrow> list_at rhs_bytes i; Some (bs[i := f x y]) })
       [0..<length bytes] bytes;
     Bits_FromBytes bytes (bit_count lhs) }"

text \<open>The loop of the n-ary operations: an empty operand list aborts.\<close>

definition nary_fold :: "(bits \<Rightarrow> bits \<Rightarrow> bits option) \<Rightarrow> bits list \<Rightarrow> bits option" where
  "nary_fold f operands = do {
     accum \<leftarrow> list_at operands 0;
     for_state (\<lambda>i acc. do { x \<leftarrow> list_at operands i; f acc x }) [1..<length operands] accum }"

section \<open>Bitwise operations\<close>

definition bits_ops_And :: "bits \<Rightarrow> bits \<Rightarrow> bits option" where
  "bits_ops_And lhs rhs = do {
     check (bit_count lhs = bit_count rhs);
     if bit_count lhs \<le> 64 then do {
       x \<leftarrow> u64_value lhs; y \<leftarrow> u64_value rhs;
       UBits (x AND y) (bit_count lhs) }
     else bytes_zip (\<lambda>x y. x AND y) lhs rhs }"

definition bits_ops_Or :: "bits \<Rightarrow> bits \<Rightarrow> bits option" where
  "bits_ops_Or lhs rhs = do {
     check (bit_count lhs = bit_count rhs);
     if bit_count lhs \<le> 64 then do {
       x \<leftarrow> u64_value lhs; y \<leftarrow> u64_value rhs;
       UBits (x OR y) (bit_count lhs) }
     else bytes_zip (\<lambda>x y. x OR y) lhs rhs }"

definition bits_ops_Xor :: "bits \<Rightarrow> bits \<Rightarrow> bits option" where
  "bits_ops_Xor lhs rhs = do {
     check (bit_count lhs = bit_count rhs);
     if bit_count lhs \<le> 64 then do {
       x \<leftarrow> u64_value lhs; y \<leftarrow> u64_value rhs;
       UBits (x XOR y) (bit_count lhs) }
     else bytes_zip (\<lambda>x y. x XOR y) lhs rhs }"

definition bits_ops_Nand :: "bits \<Rightarrow> bits \<Rightarrow> bits option" where
  "bits_ops_Nand lhs rhs = do {
     check (bit_count lhs = bit_count rhs);
     if bit_count lhs \<le> 64 then do {
       x \<leftarrow> u64_value lhs; y \<leftarrow> u64_value rhs; m \<leftarrow> Mask (bit_count lhs);
       UBits (NOT (x AND y) AND m) (bit_count lhs) }
     else bytes_zip (\<lambda>x y. NOT (x AND y)) lhs rhs }"

definition bits_ops_Nor :: "bits \<Rightarrow> bits \<Rightarrow> bits option" where
  "bits_ops_Nor lhs rhs = do {
     check (bit_count lhs = bit_count rhs);
     if bit_count lhs \<le> 64 then do {
       x \<leftarrow> u64_value lhs; y \<leftarrow> u64_value rhs; m \<leftarrow> Mask (bit_count lhs);
       UBits (NOT (x OR y) AND m) (bit_count lhs) }
     else bytes_zip (\<lambda>x y. NOT (x OR y)) lhs rhs }"

definition bits_ops_Not :: "bits \<Rightarrow> bits option" where
  "bits_ops_Not b =
     (if bit_count b \<le> 64 then do {
        x \<leftarrow> u64_value b; m \<leftarrow> Mask (bit_count b);
        UBits (NOT x AND m) (bit_count b) }
      else do {
        bytes \<leftarrow> Bits_ToBytes b;
        Bits_FromBytes (map (\<lambda>byte. NOT byte) bytes) (bit_count b) })"

definition NaryAnd :: "bits list \<Rightarrow> bits option" where
  "NaryAnd operands = nary_fold bits_ops_And operands"

definition NaryOr :: "bits list \<Rightarrow> bits option" where
  "NaryOr operands = nary_fold bits_ops_Or operands"

definition NaryXor :: "bits list \<Rightarrow> bits option" where
  "NaryXor operands = nary_fold bits_ops_Xor operands"

definition NaryNand :: "bits list \<Rightarrow> bits option" where
  "NaryNand operands = do { accum \<leftarrow> nary_fold bits_ops_And operands; bits_ops_Not accum }"

definition NaryNor :: "bits list \<Rightarrow> bits option" where
  "NaryNor operands = do { accum \<leftarrow> nary_fold bits_ops_Or operands; bits_ops_Not accum }"

definition AndReduce :: "bits \<Rightarrow> bits option" where
  "AndReduce b = do { x \<leftarrow> Bits_IsAllOnes b; if x then UBits 1 1 else UBits 0 1 }"

definition OrReduce :: "bits \<Rightarrow> bits option" where
  "OrReduce b = do { x \<leftarrow> Bits_IsZero b; if x then UBits 0 1 else UBits 1 1 }"

definition XorReduce :: "bits \<Rightarrow> bits option" where
  "XorReduce b = do { c \<leftarrow> Bits_PopCount b; if c mod 2 = 1 then UBits 1 1 else UBits 0 1 }"

section \<open>Rearranging bits\<close>

definition bits_ops_Concat :: "bits list \<Rightarrow> bits option" where
  "bits_ops_Concat inputs = do {
     let new_bit_count = fold (\<lambda>b n. n + bit_count b) inputs 0;
     rope \<leftarrow> BitsRope_new new_bit_count;
     rope \<leftarrow> for_state (\<lambda>i r. do { b \<leftarrow> list_at inputs (length inputs - i - 1); BitsRope_push_back b r })
       [0..<length inputs] rope;
     BitsRope_Build rope }"

definition ZeroExtend :: "bits \<Rightarrow> nat \<Rightarrow> bits option" where
  "ZeroExtend b new_bit_count = do {
     check (bit_count b \<le> new_bit_count);
     z \<leftarrow> UBits 0 (new_bit_count - bit_count b);
     bits_ops_Concat [z, b] }"

definition SignExtend :: "bits \<Rightarrow> nat \<Rightarrow> bits option" where
  "SignExtend b new_bit_count = do {
     check (bit_count b \<le> new_bit_count);
     let ext_width = new_bit_count - bit_count b;
     m \<leftarrow> Bits_msb b;
     e \<leftarrow> (if m then Bits_AllOnes ext_width else Bits_new ext_width);
     bits_ops_Concat [e, b] }"

definition TruncateOrSignExtend :: "bits \<Rightarrow> nat \<Rightarrow> bits option" where
  "TruncateOrSignExtend b n =
     (if bit_count b = n then Some b
      else if bit_count b < n then SignExtend b n
      else Bits_Slice b 0 n)"

definition ShiftLeftLogical :: "bits \<Rightarrow> nat \<Rightarrow> bits option" where
  "ShiftLeftLogical b amount = do {
     let shift_amount = min amount (bit_count b);
     s \<leftarrow> Bits_Slice b 0 (bit_count b - shift_amount);
     z \<leftarrow> UBits 0 shift_amount;
     bits_ops_Concat [s, z] }"

definition ShiftRightLogical :: "bits \<Rightarrow> nat \<Rightarrow> bits option" where
  "ShiftRightLogical b amount = do {
     let shift_amount = min amount (bit_count b);
     z \<leftarrow> UBits 0 shift_amount;
     s \<leftarrow> Bits_Slice b shift_amount (bit_count b - shift_amount);
     bits_ops_Concat [z, s] }"

definition ShiftRightArith :: "bits \<Rightarrow> nat \<Rightarrow> bits option" where
  "ShiftRightArith b amount = do {
     let shift_amount = min amount (bit_count b);
     m \<leftarrow> Bits_msb b;
     e \<leftarrow> (if m then Bits_AllOnes shift_amount else UBits 0 shift_amount);
     s \<leftarrow> Bits_Slice b shift_amount (bit_count b - shift_amount);
     bits_ops_Concat [e, s] }"

definition OneHotLsbToMsb :: "bits \<Rightarrow> bits option" where
  "OneHotLsbToMsb b = do {
     r \<leftarrow> for_find (\<lambda>i. do { x \<leftarrow> Bits_Get b i; Some (if x then Some i else None) }) [0..<bit_count b];
     (case r of Some i \<Rightarrow> Bits_PowerOfTwo i (bit_count b + 1)
      | None \<Rightarrow> Bits_PowerOfTwo (bit_count b) (bit_count b + 1)) }"

definition OneHotMsbToLsb :: "bits \<Rightarrow> bits option" where
  "OneHotMsbToLsb b = do {
     r \<leftarrow> for_find (\<lambda>i. do { x \<leftarrow> Bits_Get b i; Some (if x then Some i else None) }) (rev [0..<bit_count b]);
     (case r of Some i \<Rightarrow> Bits_PowerOfTwo i (bit_count b + 1)
      | None \<Rightarrow> Bits_PowerOfTwo (bit_count b) (bit_count b + 1)) }"

definition bits_ops_CountLeadingOnes :: "bits \<Rightarrow> nat option" where
  "bits_ops_CountLeadingOnes b = do { n \<leftarrow> bits_ops_Not b; Bits_CountLeadingZeros n }"

definition bits_ops_CountTrailingOnes :: "bits \<Rightarrow> nat option" where
  "bits_ops_CountTrailingOnes b = do { n \<leftarrow> bits_ops_Not b; Bits_CountTrailingZeros n }"

definition bits_ops_Reverse :: "bits \<Rightarrow> bits option" where
  "bits_ops_Reverse b = do { bits_vector \<leftarrow> Bits_ToBitVector b; Bits_of_span (rev bits_vector) }"

definition DropLeadingZeroes :: "bits \<Rightarrow> bits option" where
  "DropLeadingZeroes b = do {
     first_one \<leftarrow> for_find (\<lambda>i. do { x \<leftarrow> Bits_Get b i; Some (if x then Some i else None) }) (rev [0..<bit_count b]);
     (case first_one of None \<Rightarrow> Bits_new 0 | Some i \<Rightarrow> Bits_Slice b 0 (i + 1)) }"

definition BitSliceUpdate :: "bits \<Rightarrow> nat \<Rightarrow> bits \<Rightarrow> bits option" where
  "BitSliceUpdate to_update start update_value =
     (if start \<ge> bit_count to_update then Some to_update
      else do {
        lsb_slice \<leftarrow> Bits_Slice to_update 0 start;
        update_slice \<leftarrow> Bits_Slice update_value 0 (min (bit_count update_value) (bit_count to_update - start));
        let msb_start = min (bit_count to_update) (start + bit_count update_value);
        msb_slice \<leftarrow> Bits_Slice to_update msb_start (bit_count to_update - msb_start);
        bits_ops_Concat [msb_slice, update_slice, lsb_slice] })"

text \<open>The outer loop collects bits; it ends early, with what it has, at the first index where a vector differs.\<close>

fun LongestCommonPrefixLSB_loop :: "bits list \<Rightarrow> bits \<Rightarrow> nat list \<Rightarrow> bool list \<Rightarrow> bool list option" where
  "LongestCommonPrefixLSB_loop bits_span first [] result_vector = Some result_vector"
| "LongestCommonPrefixLSB_loop bits_span first (i # is) result_vector = do {
     expected_bit \<leftarrow> Bits_Get first i;
     differs \<leftarrow> for_find (\<lambda>b. do { x \<leftarrow> Bits_Get b i; Some (if x \<noteq> expected_bit then Some () else None) }) bits_span;
     (case differs of Some _ \<Rightarrow> Some result_vector
      | None \<Rightarrow> LongestCommonPrefixLSB_loop bits_span first is (result_vector @ [expected_bit])) }"

definition LongestCommonPrefixLSB :: "bits list \<Rightarrow> bits option" where
  "LongestCommonPrefixLSB bits_span =
     (case bits_span of [] \<Rightarrow> Bits_new 0
      | first # _ \<Rightarrow> do {
          let input_size = bit_count first;
          check (list_all (\<lambda>b. bit_count b = input_size) bits_span);
          result_vector \<leftarrow> LongestCommonPrefixLSB_loop bits_span first [0..<input_size] [];
          Bits_of_span result_vector })"

fun reverse_all :: "bits list \<Rightarrow> bits list option" where
  "reverse_all [] = Some []"
| "reverse_all (b # bs) = do { r \<leftarrow> bits_ops_Reverse b; rs \<leftarrow> reverse_all bs; Some (r # rs) }"

definition LongestCommonPrefixMSB :: "bits list \<Rightarrow> bits option" where
  "LongestCommonPrefixMSB bits_span = do {
     reversed \<leftarrow> reverse_all bits_span;
     p \<leftarrow> LongestCommonPrefixLSB reversed;
     bits_ops_Reverse p }"

section \<open>Arithmetic\<close>

definition bits_ops_Add :: "('n, 'z) bignum_lib_scheme \<Rightarrow> bits \<Rightarrow> bits \<Rightarrow> bits option" where
  "bits_ops_Add L lhs rhs = do {
     check (bit_count lhs = bit_count rhs);
     if bit_count lhs \<le> 64 then do {
       lhs_int \<leftarrow> u64_value lhs; rhs_int \<leftarrow> u64_value rhs; m \<leftarrow> Mask (bit_count lhs);
       UBits ((lhs_int + rhs_int) AND m) (bit_count lhs) }
     else do {
       x \<leftarrow> BigInt_MakeSigned L lhs; y \<leftarrow> BigInt_MakeSigned L rhs;
       s \<leftarrow> BigInt_Add L x y;
       r \<leftarrow> BigInt_ToSignedBits L s;
       TruncateOrSignExtend r (bit_count lhs) } }"

definition bits_ops_Sub :: "('n, 'z) bignum_lib_scheme \<Rightarrow> bits \<Rightarrow> bits \<Rightarrow> bits option" where
  "bits_ops_Sub L lhs rhs = do {
     check (bit_count lhs = bit_count rhs);
     if bit_count lhs \<le> 64 then do {
       lhs_int \<leftarrow> u64_value lhs; rhs_int \<leftarrow> u64_value rhs; m \<leftarrow> Mask (bit_count lhs);
       UBits ((lhs_int - rhs_int) AND m) (bit_count lhs) }
     else do {
       x \<leftarrow> BigInt_MakeSigned L lhs; y \<leftarrow> BigInt_MakeSigned L rhs;
       d \<leftarrow> BigInt_Sub L x y;
       r \<leftarrow> BigInt_ToSignedBits L d;
       TruncateOrSignExtend r (bit_count lhs) } }"

definition bits_ops_Mul :: "('n, 'z) bignum_lib_scheme \<Rightarrow> bits \<Rightarrow> bits \<Rightarrow> bits option" where
  "bits_ops_Mul L lhs rhs = do {
     check (bit_count lhs = bit_count rhs);
     if bit_count lhs \<le> 64 then do {
       lhs_int \<leftarrow> u64_value lhs; rhs_int \<leftarrow> u64_value rhs; m \<leftarrow> Mask (bit_count lhs);
       UBits ((lhs_int * rhs_int) AND m) (bit_count lhs) }
     else do {
       le \<leftarrow> SignExtend lhs (bit_count lhs); re \<leftarrow> SignExtend rhs (bit_count lhs);
       x \<leftarrow> BigInt_MakeSigned L le; y \<leftarrow> BigInt_MakeSigned L re;
       product \<leftarrow> BigInt_Mul L x y;
       r \<leftarrow> BigInt_ToSignedBitsWithBitCount L product (bit_count lhs * 2);
       v \<leftarrow> status_value r;
       Bits_Slice v 0 (bit_count lhs) } }"

text \<open>The \<open>int64_t\<close> product cannot overflow: the operands' widths add up to at most 64.\<close>

definition bits_ops_SMul :: "('n, 'z) bignum_lib_scheme \<Rightarrow> bits \<Rightarrow> bits \<Rightarrow> bits option" where
  "bits_ops_SMul L lhs rhs = do {
     let result_width = bit_count lhs + bit_count rhs;
     if result_width \<le> 64 then do {
       lhs_int \<leftarrow> i64_value lhs; rhs_int \<leftarrow> i64_value rhs;
       SBits (lhs_int * rhs_int) result_width }
     else do {
       x \<leftarrow> BigInt_MakeSigned L lhs; y \<leftarrow> BigInt_MakeSigned L rhs;
       product \<leftarrow> BigInt_Mul L x y;
       r \<leftarrow> BigInt_ToSignedBitsWithBitCount L product result_width;
       status_value r } }"

definition bits_ops_UMul :: "('n, 'z) bignum_lib_scheme \<Rightarrow> bits \<Rightarrow> bits \<Rightarrow> bits option" where
  "bits_ops_UMul L lhs rhs = do {
     let result_width = bit_count lhs + bit_count rhs;
     if result_width \<le> 64 then do {
       lhs_int \<leftarrow> u64_value lhs; rhs_int \<leftarrow> u64_value rhs;
       UBits (lhs_int * rhs_int) result_width }
     else do {
       x \<leftarrow> BigInt_MakeUnsigned L lhs; y \<leftarrow> BigInt_MakeUnsigned L rhs;
       product \<leftarrow> BigInt_Mul L x y;
       r \<leftarrow> BigInt_ToUnsignedBitsWithBitCount L product result_width;
       status_value r } }"

section \<open>Comparison\<close>

definition UEqual :: "bits \<Rightarrow> bits \<Rightarrow> bool option" where
  "UEqual lhs rhs = do { c \<leftarrow> InlineBitmap_UCmp lhs rhs; Some (c = 0) }"

definition ULessThanOrEqual :: "bits \<Rightarrow> bits \<Rightarrow> bool option" where
  "ULessThanOrEqual lhs rhs = do { c \<leftarrow> InlineBitmap_UCmp lhs rhs; Some (c \<le> 0) }"

definition ULessThan :: "bits \<Rightarrow> bits \<Rightarrow> bool option" where
  "ULessThan lhs rhs = do { c \<leftarrow> InlineBitmap_UCmp lhs rhs; Some (c < 0) }"

definition UGreaterThanOrEqual :: "bits \<Rightarrow> bits \<Rightarrow> bool option" where
  "UGreaterThanOrEqual lhs rhs = do { l \<leftarrow> ULessThan lhs rhs; Some (\<not> l) }"

definition UGreaterThan :: "bits \<Rightarrow> bits \<Rightarrow> bool option" where
  "UGreaterThan lhs rhs = do { l \<leftarrow> ULessThanOrEqual lhs rhs; Some (\<not> l) }"

definition UEqual_int :: "bits \<Rightarrow> u64 \<Rightarrow> bool option" where
  "UEqual_int lhs rhs = do { check (0 \<le> sint rhs); b \<leftarrow> UBits rhs 64; UEqual lhs b }"

definition UGreaterThanOrEqual_int :: "bits \<Rightarrow> u64 \<Rightarrow> bool option" where
  "UGreaterThanOrEqual_int lhs rhs = do { check (0 \<le> sint rhs); b \<leftarrow> UBits rhs 64; UGreaterThanOrEqual lhs b }"

definition UGreaterThan_int :: "bits \<Rightarrow> u64 \<Rightarrow> bool option" where
  "UGreaterThan_int lhs rhs = do { check (0 \<le> sint rhs); b \<leftarrow> UBits rhs 64; UGreaterThan lhs b }"

definition ULessThanOrEqual_int :: "bits \<Rightarrow> u64 \<Rightarrow> bool option" where
  "ULessThanOrEqual_int lhs rhs = do { check (0 \<le> sint rhs); b \<leftarrow> UBits rhs 64; ULessThanOrEqual lhs b }"

definition ULessThan_int :: "bits \<Rightarrow> u64 \<Rightarrow> bool option" where
  "ULessThan_int lhs rhs = do { check (0 \<le> sint rhs); b \<leftarrow> UBits rhs 64; ULessThan lhs b }"

definition SEqual :: "('n, 'z) bignum_lib_scheme \<Rightarrow> bits \<Rightarrow> bits \<Rightarrow> bool option" where
  "SEqual L lhs rhs = do {
     x \<leftarrow> BigInt_MakeSigned L lhs; y \<leftarrow> BigInt_MakeSigned L rhs;
     Some (BigInt_eq L x y) }"

definition SLessThan :: "('n, 'z) bignum_lib_scheme \<Rightarrow> bits \<Rightarrow> bits \<Rightarrow> bool option" where
  "SLessThan L lhs rhs =
     (if bit_count lhs \<le> 64 \<and> bit_count rhs \<le> 64 then do {
        x \<leftarrow> i64_value lhs; y \<leftarrow> i64_value rhs;
        Some (sint x < sint y) }
      else do {
        x \<leftarrow> BigInt_MakeSigned L lhs; y \<leftarrow> BigInt_MakeSigned L rhs;
        Some (BigInt_LessThan L x y) })"

definition SLessThanOrEqual :: "('n, 'z) bignum_lib_scheme \<Rightarrow> bits \<Rightarrow> bits \<Rightarrow> bool option" where
  "SLessThanOrEqual L lhs rhs = do { e \<leftarrow> SEqual L lhs rhs; if e then Some True else SLessThan L lhs rhs }"

definition SGreaterThanOrEqual :: "('n, 'z) bignum_lib_scheme \<Rightarrow> bits \<Rightarrow> bits \<Rightarrow> bool option" where
  "SGreaterThanOrEqual L lhs rhs = do { l \<leftarrow> SLessThan L lhs rhs; Some (\<not> l) }"

definition SGreaterThan :: "('n, 'z) bignum_lib_scheme \<Rightarrow> bits \<Rightarrow> bits \<Rightarrow> bool option" where
  "SGreaterThan L lhs rhs = do { l \<leftarrow> SLessThanOrEqual L lhs rhs; Some (\<not> l) }"

definition SEqual_int :: "('n, 'z) bignum_lib_scheme \<Rightarrow> bits \<Rightarrow> u64 \<Rightarrow> bool option" where
  "SEqual_int L lhs rhs = do { b \<leftarrow> SBits rhs 64; SEqual L lhs b }"

definition SGreaterThanOrEqual_int :: "('n, 'z) bignum_lib_scheme \<Rightarrow> bits \<Rightarrow> u64 \<Rightarrow> bool option" where
  "SGreaterThanOrEqual_int L lhs rhs = do { b \<leftarrow> SBits rhs 64; SGreaterThanOrEqual L lhs b }"

definition SGreaterThan_int :: "('n, 'z) bignum_lib_scheme \<Rightarrow> bits \<Rightarrow> u64 \<Rightarrow> bool option" where
  "SGreaterThan_int L lhs rhs = do { b \<leftarrow> SBits rhs 64; SGreaterThan L lhs b }"

definition SLessThanOrEqual_int :: "('n, 'z) bignum_lib_scheme \<Rightarrow> bits \<Rightarrow> u64 \<Rightarrow> bool option" where
  "SLessThanOrEqual_int L lhs rhs = do { b \<leftarrow> SBits rhs 64; SLessThanOrEqual L lhs b }"

definition SLessThan_int :: "('n, 'z) bignum_lib_scheme \<Rightarrow> bits \<Rightarrow> u64 \<Rightarrow> bool option" where
  "SLessThan_int L lhs rhs = do { b \<leftarrow> SBits rhs 64; SLessThan L lhs b }"

section \<open>Division and negation\<close>

definition bits_ops_UDiv :: "('n, 'z) bignum_lib_scheme \<Rightarrow> bits \<Rightarrow> bits \<Rightarrow> bits option" where
  "bits_ops_UDiv L lhs rhs = do {
     z \<leftarrow> Bits_IsZero rhs;
     if z then Bits_AllOnes (bit_count lhs)
     else do {
       x \<leftarrow> BigInt_MakeUnsigned L lhs; y \<leftarrow> BigInt_MakeUnsigned L rhs;
       quotient \<leftarrow> BigInt_Div L x y;
       q \<leftarrow> BigInt_ToUnsignedBits L quotient;
       ZeroExtend q (bit_count lhs) } }"

definition bits_ops_UMod :: "('n, 'z) bignum_lib_scheme \<Rightarrow> bits \<Rightarrow> bits \<Rightarrow> bits option" where
  "bits_ops_UMod L lhs rhs = do {
     z \<leftarrow> Bits_IsZero rhs;
     if z then Bits_new (bit_count rhs)
     else do {
       x \<leftarrow> BigInt_MakeUnsigned L lhs; y \<leftarrow> BigInt_MakeUnsigned L rhs;
       modulo \<leftarrow> BigInt_Mod L x y;
       q \<leftarrow> BigInt_ToUnsignedBits L modulo;
       ZeroExtend q (bit_count rhs) } }"

definition bits_ops_SDiv :: "('n, 'z) bignum_lib_scheme \<Rightarrow> bits \<Rightarrow> bits \<Rightarrow> bits option" where
  "bits_ops_SDiv L lhs rhs = do {
     z \<leftarrow> Bits_IsZero rhs;
     if z then
       (if bit_count lhs = 0 then UBits 0 0
        else do {
          zero \<leftarrow> UBits 0 (bit_count lhs);
          neg \<leftarrow> SLessThan L lhs zero;
          if neg then do {
            one \<leftarrow> UBits 1 1; low \<leftarrow> UBits 0 (bit_count lhs - 1);
            bits_ops_Concat [one, low] }
          else do { ones \<leftarrow> Bits_AllOnes (bit_count lhs - 1); ZeroExtend ones (bit_count lhs) } })
     else do {
       x \<leftarrow> BigInt_MakeSigned L lhs; y \<leftarrow> BigInt_MakeSigned L rhs;
       quotient \<leftarrow> BigInt_Div L x y;
       q \<leftarrow> BigInt_ToSignedBits L quotient;
       TruncateOrSignExtend q (bit_count lhs) } }"

definition bits_ops_SMod :: "('n, 'z) bignum_lib_scheme \<Rightarrow> bits \<Rightarrow> bits \<Rightarrow> bits option" where
  "bits_ops_SMod L lhs rhs = do {
     z \<leftarrow> Bits_IsZero rhs;
     if z then Bits_new (bit_count rhs)
     else do {
       x \<leftarrow> BigInt_MakeSigned L lhs; y \<leftarrow> BigInt_MakeSigned L rhs;
       modulo \<leftarrow> BigInt_Mod L x y;
       q \<leftarrow> BigInt_ToSignedBits L modulo;
       TruncateOrSignExtend q (bit_count rhs) } }"

definition bits_ops_Negate :: "('n, 'z) bignum_lib_scheme \<Rightarrow> bits \<Rightarrow> bits option" where
  "bits_ops_Negate L b =
     (if bit_count b < 64 then do {
        x \<leftarrow> i64_value b; m \<leftarrow> Mask (bit_count b);
        UBits (- x AND m) (bit_count b) }
      else do {
        x \<leftarrow> BigInt_MakeSigned L b;
        y \<leftarrow> BigInt_Negate L x;
        r \<leftarrow> BigInt_ToSignedBits L y;
        TruncateOrSignExtend r (bit_count b) })"

definition bits_ops_Abs :: "('n, 'z) bignum_lib_scheme \<Rightarrow> bits \<Rightarrow> bits option" where
  "bits_ops_Abs L b = do { m \<leftarrow> Bits_GetFromMsb b 0; if m then bits_ops_Negate L b else Some b }"

section \<open>Operations by opcode\<close>

text \<open>
  The opcodes that the two functions tell apart; \<open>kOther\<close> stands for the other members of the
  enumeration, by their number.
\<close>

datatype op = kAnd | kNand | kOr | kNor | kXor | kOther nat

definition LogicalOpIdentity :: "op \<Rightarrow> nat \<Rightarrow> bits option" where
  "LogicalOpIdentity op width =
     (if op = kAnd \<or> op = kNand then Bits_AllOnes width
      else if op = kOr \<or> op = kNor \<or> op = kXor then Bits_new width
      else None)"

definition DoLogicalOp :: "op \<Rightarrow> bits list \<Rightarrow> bits option" where
  "DoLogicalOp op operands = do {
     check (length operands > 0);
     if op = kAnd then NaryAnd operands
     else if op = kOr then NaryOr operands
     else if op = kXor then NaryXor operands
     else if op = kNand then NaryNand operands
     else if op = kNor then NaryNor operands
     else None }"

section \<open>Every operation on the canonical form\<close>

lemma mk_bits_cong: "(\<And>i. i < n \<Longrightarrow> bit v i \<longleftrightarrow> bit w i) \<Longrightarrow> mk_bits n v = mk_bits n w"
  unfolding mk_bits_eq_iff by (auto intro!: nat_bit_eqI simp: bit_take_bit_iff)

lemma take_bit_64: "n \<le> 64 \<Longrightarrow> take_bit n (v::nat) < 2 ^ 64"
proof -
  assume "n \<le> 64"
  then have "(2::nat) ^ n \<le> 2 ^ 64" by (intro power_increasing) auto
  then show ?thesis using take_bit_nat_less_exp[of n v] by linarith
qed

lemma u64_value_eq [simp]: "n \<le> 64 \<Longrightarrow> u64_value (mk_bits n v) = Some (word_of_nat (take_bit n v))"
  using take_bit_64[of n v] by (simp add: u64_value_def Bits_ToUint64_eq)

lemma unat_u64_value [simp]: "n \<le> 64 \<Longrightarrow> unat (word_of_nat (take_bit n v) :: u64) = take_bit n v"
  using take_bit_64[of n v] by (simp add: unsigned_of_nat take_bit_nat_eq_self_iff)

text \<open>A word result within the width is the vector of its bits.\<close>

lemma UBits_bits:
  assumes "n \<le> 64" "\<And>i. i < 64 \<Longrightarrow> bit x i \<longleftrightarrow> i < n \<and> bit v i"
  shows "UBits x n = Some (mk_bits n v)"
proof -
  have b: "bit x i \<longleftrightarrow> i < n \<and> bit v i" for i
    using assms bit_imp_le_length[of x i] by (cases "i < 64") auto
  have "unat x < 2 ^ n" by (rule bit_nat_less) (simp add: bit_unat b)
  moreover have "mk_bits n (unat x) = mk_bits n v" by (rule mk_bits_cong) (simp add: bit_unat b)
  ultimately show ?thesis by simp
qed

lemma bytes_zip_eq:
  assumes "\<And>x y m. m < 8 \<Longrightarrow> bit (f x y) m \<longleftrightarrow> g (bit x m) (bit y m)"
    and "\<And>i. i < n \<Longrightarrow> bit r i \<longleftrightarrow> g (bit v i) (bit w i)"
  shows "bytes_zip f (mk_bits n v) (mk_bits n w) = Some (mk_bits n r)"
proof -
  let ?l = "(n + 7) div 8" and ?a = "bytes_of n v" and ?b = "bytes_of n w"
  let ?P = "\<lambda>k bs. bs = map (\<lambda>j. if j < k then f (?a ! j) (?b ! j) else ?a ! j) [0..<?l]"
  have "\<exists>bs. for_state (\<lambda>i bs. do { x \<leftarrow> list_at bs i; y \<leftarrow> list_at ?b i; Some (bs[i := f x y]) }) [0..<?l] ?a = Some bs \<and> ?P ?l bs"
    by (rule for_state_upt[where P = ?P]) (auto intro!: nth_equalityI simp: nth_list_update less_Suc_eq)
  then have loop: "for_state (\<lambda>i bs. do { x \<leftarrow> list_at bs i; y \<leftarrow> list_at ?b i; Some (bs[i := f x y]) }) [0..<?l] ?a
      = Some (map (\<lambda>j. f (?a ! j) (?b ! j)) [0..<?l])" (is "_ = Some ?bs")
    by auto
  have "mk_bits n (words_nat ?bs) = mk_bits n r"
  proof (rule mk_bits_cong)
    fix i assume i: "i < n"
    then have "i div 8 < ?l" by linarith
    moreover have "8 * (i div 8) + i mod 8 = i" by simp
    ultimately show "bit (words_nat ?bs) i \<longleftrightarrow> bit r i"
      using i assms by (simp add: bit_words_nat bit_bytes_of)
  qed
  then show ?thesis using loop by (simp add: bytes_zip_def)
qed

lemma bits_ops_And_eq [simp]:
  "bits_ops_And (mk_bits n v) (mk_bits m w) = (if n = m then Some (mk_bits n (v AND w)) else None)"
proof -
  have "n \<le> 64 \<Longrightarrow> UBits (word_of_nat (take_bit n v) AND word_of_nat (take_bit n w)) n = Some (mk_bits n (v AND w))"
    by (rule UBits_bits) (auto simp: bitwise)
  moreover have "bytes_zip (\<lambda>x y. x AND y) (mk_bits n v) (mk_bits n w) = Some (mk_bits n (v AND w))"
    by (rule bytes_zip_eq[where g = "(\<and>)"]) (auto simp: bitwise)
  ultimately show ?thesis by (auto simp: bits_ops_And_def simp del: UBits_eq)
qed

lemma bits_ops_Or_eq [simp]:
  "bits_ops_Or (mk_bits n v) (mk_bits m w) = (if n = m then Some (mk_bits n (v OR w)) else None)"
proof -
  have "n \<le> 64 \<Longrightarrow> UBits (word_of_nat (take_bit n v) OR word_of_nat (take_bit n w)) n = Some (mk_bits n (v OR w))"
    by (rule UBits_bits) (auto simp: bitwise)
  moreover have "bytes_zip (\<lambda>x y. x OR y) (mk_bits n v) (mk_bits n w) = Some (mk_bits n (v OR w))"
    by (rule bytes_zip_eq[where g = "(\<or>)"]) (auto simp: bitwise)
  ultimately show ?thesis by (auto simp: bits_ops_Or_def simp del: UBits_eq)
qed

lemma bits_ops_Xor_eq [simp]:
  "bits_ops_Xor (mk_bits n v) (mk_bits m w) = (if n = m then Some (mk_bits n (v XOR w)) else None)"
proof -
  have "n \<le> 64 \<Longrightarrow> UBits (word_of_nat (take_bit n v) XOR word_of_nat (take_bit n w)) n = Some (mk_bits n (v XOR w))"
    by (rule UBits_bits) (auto simp: bitwise)
  moreover have "bytes_zip (\<lambda>x y. x XOR y) (mk_bits n v) (mk_bits n w) = Some (mk_bits n (v XOR w))"
    by (rule bytes_zip_eq[where g = "(\<noteq>)"]) (auto simp: bitwise)
  ultimately show ?thesis by (auto simp: bits_ops_Xor_def simp del: UBits_eq)
qed

text \<open>The complement within the width is the exclusive or with its mask.\<close>

lemma bits_ops_Not_eq [simp]: "bits_ops_Not (mk_bits n v) = Some (mk_bits n (v XOR mask n))"
proof (cases "n \<le> 64")
  case True
  have "UBits (NOT (word_of_nat (take_bit n v)) AND mask n) n = Some (mk_bits n (v XOR mask n))"
    using True by (rule UBits_bits) (auto simp: bitwise)
  then show ?thesis using True by (simp add: bits_ops_Not_def del: UBits_eq)
next
  case False
  have "mk_bits n (words_nat (map (\<lambda>byte. NOT byte) (bytes_of n v))) = mk_bits n (v XOR mask n)"
    by (rule mk_bits_cong) (auto simp: bit_words_nat_not bit_xor_iff bit_mask_iff bit_take_bit_iff)
  then show ?thesis using False by (simp add: bits_ops_Not_def)
qed

lemma bits_ops_Nand_eq [simp]:
  "bits_ops_Nand (mk_bits n v) (mk_bits m w) = (if n = m then Some (mk_bits n ((v AND w) XOR mask n)) else None)"
proof -
  have "n \<le> 64 \<Longrightarrow> UBits (NOT (word_of_nat (take_bit n v) AND word_of_nat (take_bit n w)) AND mask n) n
      = Some (mk_bits n ((v AND w) XOR mask n))"
    by (rule UBits_bits) (auto simp: bitwise)
  moreover have "bytes_zip (\<lambda>x y. NOT (x AND y)) (mk_bits n v) (mk_bits n w) = Some (mk_bits n ((v AND w) XOR mask n))"
    by (rule bytes_zip_eq[where g = "\<lambda>a b. \<not> (a \<and> b)"]) (auto simp: bitwise)
  ultimately show ?thesis by (auto simp: bits_ops_Nand_def simp del: UBits_eq)
qed

lemma bits_ops_Nor_eq [simp]:
  "bits_ops_Nor (mk_bits n v) (mk_bits m w) = (if n = m then Some (mk_bits n ((v OR w) XOR mask n)) else None)"
proof -
  have "n \<le> 64 \<Longrightarrow> UBits (NOT (word_of_nat (take_bit n v) OR word_of_nat (take_bit n w)) AND mask n) n
      = Some (mk_bits n ((v OR w) XOR mask n))"
    by (rule UBits_bits) (auto simp: bitwise)
  moreover have "bytes_zip (\<lambda>x y. NOT (x OR y)) (mk_bits n v) (mk_bits n w) = Some (mk_bits n ((v OR w) XOR mask n))"
    by (rule bytes_zip_eq[where g = "\<lambda>a b. \<not> (a \<or> b)"]) (auto simp: bitwise)
  ultimately show ?thesis by (auto simp: bits_ops_Nor_def simp del: UBits_eq)
qed

lemma AndReduce_eq [simp]: "AndReduce (mk_bits n v) = Some (mk_bits 1 (of_bool (take_bit n v = mask n)))"
  by (simp add: AndReduce_def)

lemma OrReduce_eq [simp]: "OrReduce (mk_bits n v) = Some (mk_bits 1 (of_bool (take_bit n v \<noteq> 0)))"
  by (simp add: OrReduce_def)

lemma XorReduce_eq [simp]: "XorReduce (mk_bits n v) = Some (mk_bits 1 (of_bool (odd (card {i. i < n \<and> bit v i}))))"
  by (simp add: XorReduce_def odd_iff_mod_2_eq_one)

text \<open>The number of a concatenation: the first part is the most significant.\<close>

fun concat_nat :: "bits list \<Rightarrow> nat" where
  "concat_nat [] = 0"
| "concat_nat (b # bs) = concat_nat bs + 2 ^ sum_list (map bit_count bs) * uval b"

lemma rope_concat:
  assumes "\<forall>b \<in> set inputs. bm_inv b" "rope_inv rope tot v" "rope_index rope + sum_list (map bit_count inputs) \<le> tot"
  shows "\<exists>r. for_state BitsRope_push_back (rev inputs) rope = Some r \<and>
      rope_inv r tot (v + 2 ^ rope_index rope * concat_nat inputs) \<and>
      rope_index r = rope_index rope + sum_list (map bit_count inputs)"
  using assms
proof (induction inputs)
  case (Cons b bs)
  let ?w = "sum_list (map bit_count bs)"
  obtain r where r: "for_state BitsRope_push_back (rev bs) rope = Some r"
    "rope_inv r tot (v + 2 ^ rope_index rope * concat_nat bs)" "rope_index r = rope_index rope + ?w"
    using Cons by auto
  have b: "mk_bits (bit_count b) (uval b) = b" "take_bit (bit_count b) (uval b) = uval b"
    using Cons.prems(1) bm_inv_eq_mk_bits[of b] by (auto simp: bm_inv_def take_bit_nat_eq_self_iff)
  obtain r' where "BitsRope_push_back b r = Some r'"
    "rope_inv r' tot (v + 2 ^ rope_index rope * concat_nat bs + 2 ^ (rope_index rope + ?w) * uval b)"
    "rope_index r' = rope_index rope + ?w + bit_count b"
    using BitsRope_push_back_eq[OF r(2), of "bit_count b" "uval b"] Cons.prems(3) b r(3) by auto
  then show ?case using r by (auto simp: for_state_append algebra_simps power_add)
qed simp

lemma bits_ops_Concat_eq:
  assumes "\<forall>b \<in> set inputs. bm_inv b"
  shows "bits_ops_Concat inputs = Some (mk_bits (sum_list (map bit_count inputs)) (concat_nat inputs))"
proof -
  have w: "fold (\<lambda>b n. n + bit_count b) bs a = a + sum_list (map bit_count bs)" for bs :: "bits list" and a
    by (induction bs arbitrary: a) auto
  let ?n = "sum_list (map bit_count inputs)"
  let ?r0 = "\<lparr>rope_bitmap = mk_bits ?n 0, rope_index = 0\<rparr>"
  have "rope_inv ?r0 ?n 0" by (simp add: rope_inv_def)
  then obtain r where "for_state BitsRope_push_back (rev inputs) ?r0 = Some r"
    "rope_inv r ?n (concat_nat inputs)" "rope_index r = ?n"
    using rope_concat[OF assms, of ?r0 ?n 0] by auto
  then show ?thesis
    unfolding bits_ops_Concat_def Let_def w for_state_rev_index
    by (simp add: BitsRope_new_def BitsRope_Build_def rope_inv_def)
qed

lemma concat_two [simp]:
  "bits_ops_Concat [mk_bits n v, mk_bits m w] = Some (mk_bits (n + m) (take_bit m w OR push_bit m v))"
proof -
  have "mk_bits (n + m) (take_bit m w + 2 ^ m * take_bit n v) = mk_bits (n + m) (take_bit m w OR push_bit m v)"
    unfolding add_shift_or[OF take_bit_nat_less_exp]
    by (rule mk_bits_cong) (auto simp: bitwise bit_push_bit_iff)
  then show ?thesis by (simp add: bits_ops_Concat_eq)
qed

lemma ZeroExtend_eq [simp]:
  "ZeroExtend (mk_bits n v) m = (if n \<le> m then Some (mk_bits m (take_bit n v)) else None)"
  by (simp add: ZeroExtend_def)

lemma SignExtend_eq [simp]:
  "SignExtend (mk_bits n v) m = (if n \<le> m then Some (mk_int m (sval (mk_bits n v))) else None)"
proof (cases "n \<le> m")
  case True
  let ?e = "if n \<noteq> 0 \<and> bit v (n - 1) then mask (m - n) else 0 :: nat"
  have "mk_bits m (take_bit n v OR push_bit n ?e) = mk_int m (sval (mk_bits n v))"
    unfolding mk_int_def
    by (rule mk_bits_cong)
      (auto simp: bitwise bit_push_bit_iff bit_nat_iff bit_sval min_def not_le)
  then show ?thesis
    using True by (cases "n \<noteq> 0 \<and> bit v (n - 1)") (auto simp: SignExtend_def simp del: sval_width0)
qed (simp add: SignExtend_def)

text \<open>Narrowing and widening keep the integer modulo the new width.\<close>

lemma slice_low: "k \<le> n \<Longrightarrow> Bits_Slice (mk_int n x) 0 k = Some (mk_int k x)"
  unfolding mk_int_def by (auto simp: bitwise bit_nat_iff intro!: mk_bits_cong)

lemma TruncateOrSignExtend_eq:
  "TruncateOrSignExtend (mk_int n x) m =
     Some (if n \<le> m then mk_int m (sval (mk_int n x)) else mk_int m x)"
proof (cases "n = m")
  case True
  then show ?thesis using mk_int_sval[of "mk_int n x"] by (simp add: TruncateOrSignExtend_def)
next
  case False
  then show ?thesis using SignExtend_eq[of n "nat (take_bit n x)" m] slice_low[of m n x]
    by (auto simp: TruncateOrSignExtend_def simp flip: mk_int_def)
qed


lemma concat_three:
  "bits_ops_Concat [mk_bits n v, mk_bits m w, mk_bits k u] =
     Some (mk_bits (n + (m + k)) (take_bit k u OR push_bit k (take_bit m w) OR push_bit (k + m) v))"
proof -
  have s: "sum_list (map bit_count [mk_bits m w, mk_bits k u]) = m + k" by simp
  have "concat_nat [mk_bits m w, mk_bits k u] = take_bit k u OR push_bit k (take_bit m w)"
    by (simp add: add_shift_or)
  moreover have "\<dots> < 2 ^ (m + k)"
    by (rule bit_nat_less) (auto simp: bitwise bit_push_bit_iff)
  ultimately have "concat_nat [mk_bits n v, mk_bits m w, mk_bits k u]
      = take_bit k u OR push_bit k (take_bit m w) OR push_bit (m + k) (take_bit n v)"
    unfolding concat_nat.simps(2)[of "mk_bits n v"] s by (simp add: add_shift_or or.assoc)
  moreover have "mk_bits (n + (m + k)) (take_bit k u OR push_bit k (take_bit m w) OR push_bit (m + k) (take_bit n v))
      = mk_bits (n + (m + k)) (take_bit k u OR push_bit k (take_bit m w) OR push_bit (k + m) v)"
    by (rule mk_bits_cong) (auto simp: bitwise bit_push_bit_iff add.commute)
  ultimately show ?thesis by (simp add: bits_ops_Concat_eq del: concat_nat.simps)
qed

lemma ShiftLeftLogical_eq [simp]: "ShiftLeftLogical (mk_bits n v) k = Some (mk_bits n (push_bit k v))"
proof -
  have "mk_bits n (push_bit (min k n) v) = mk_bits n (push_bit k v)"
    by (rule mk_bits_cong) (auto simp: bit_push_bit_iff min_def)
  then show ?thesis by (simp add: ShiftLeftLogical_def Let_def)
qed

lemma ShiftRightLogical_eq [simp]:
  "ShiftRightLogical (mk_bits n v) k = Some (mk_bits n (drop_bit k (take_bit n v)))"
proof -
  have "mk_bits n (take_bit (n - min k n) (drop_bit (min k n) v)) = mk_bits n (drop_bit k (take_bit n v))"
    by (rule mk_bits_cong) (auto simp: bit_take_bit_iff bit_drop_bit_eq min_def)
  then show ?thesis by (simp add: ShiftRightLogical_def Let_def)
qed

lemma ShiftRightArith_eq [simp]:
  "ShiftRightArith (mk_bits n v) k = Some (mk_int n (drop_bit k (sval (mk_bits n v))))"
proof -
  let ?j = "min k n"
  let ?e = "if n \<noteq> 0 \<and> bit v (n - 1) then mask ?j else 0 :: nat"
  have "mk_bits n (take_bit (n - ?j) (drop_bit ?j v) OR push_bit (n - ?j) ?e) = mk_int n (drop_bit k (sval (mk_bits n v)))"
    unfolding mk_int_def
    by (rule mk_bits_cong)
      (auto simp: bitwise bit_push_bit_iff bit_drop_bit_eq bit_nat_iff bit_sval min_def not_le)
  then show ?thesis by (cases "n \<noteq> 0 \<and> bit v (n - 1)") (auto simp: ShiftRightArith_def Let_def simp del: sval_width0)
qed

lemma OneHotLsbToMsb_eq [simp]:
  "OneHotLsbToMsb (mk_bits n v) = Some (mk_bits (n + 1) (2 ^ run_length (\<lambda>i. \<not> bit v i) n))"
proof -
  have "for_find (\<lambda>i. do { x \<leftarrow> Bits_Get (mk_bits n v) i; Some (if x then Some i else None) }) [0..<n]
      = Some (map_option (\<lambda>i. i) (find (bit v) [0..<n]))"
    by (rule for_find_index) auto
  moreover have "find (bit v) [0..<n] = None \<Longrightarrow> run_length (\<lambda>i. \<not> bit v i) n = n"
    by (intro run_length_unique) (auto simp: find_upt_None)
  moreover have "find (bit v) [0..<n] = Some i \<Longrightarrow> run_length (\<lambda>i. \<not> bit v i) n = i \<and> i < n" for i
    by (auto simp: find_upt_Some intro: run_length_unique)
  ultimately show ?thesis
    by (cases "find (bit v) [0..<n]") (simp_all add: OneHotLsbToMsb_def)
qed

lemma find_top_bit:
  "for_find (\<lambda>i. do { x \<leftarrow> Bits_Get (mk_bits n v) i; Some (if x then Some i else None) }) (rev [0..<n])
     = Some (if take_bit n v = 0 then None else Some (num_bits (take_bit n v) - 1))"
proof -
  let ?u = "take_bit n v"
  have "for_find (\<lambda>i. do { x \<leftarrow> Bits_Get (mk_bits n v) i; Some (if x then Some i else None) }) (rev [0..<n])
      = Some (map_option (\<lambda>i. i) (find (bit v) (rev [0..<n])))"
    by (rule for_find_index) auto
  moreover have "find (bit v) (rev [0..<n]) = (if ?u = 0 then None else Some (num_bits ?u - 1))"
  proof (cases "?u = 0")
    case True
    then have "\<not> bit ?u j" for j by simp
    then have "find (bit v) (rev [0..<n]) = None" unfolding find_rev_upt_None by (auto simp: bit_take_bit_iff)
    then show ?thesis using True by simp
  next
    case False
    have b: "2 ^ (num_bits ?u - 1) \<le> ?u \<and> ?u < 2 ^ num_bits ?u \<and> 0 < num_bits ?u"
      using num_bits_bounds[of ?u] False by simp
    then have top: "bit ?u (num_bits ?u - 1)" using bit_top[of "num_bits ?u - 1" ?u] by simp
    have "\<not> bit ?u j" if "num_bits ?u - 1 < j" for j
      using b bit_nat_less_iff[of ?u "num_bits ?u"] that by auto
    then have "find (bit v) (rev [0..<n]) = Some (num_bits ?u - 1)"
      unfolding find_rev_upt_Some using top by (auto simp: bit_take_bit_iff)
    then show ?thesis using False by simp
  qed
  ultimately show ?thesis by (simp split: if_splits)
qed

lemma num_bits_take_bit: "num_bits (take_bit n v) \<le> n"
  by (simp add: num_bits_le_iff)

lemma OneHotMsbToLsb_eq [simp]:
  "OneHotMsbToLsb (mk_bits n v) =
     Some (mk_bits (n + 1) (if take_bit n v = 0 then 2 ^ n else 2 ^ (num_bits (take_bit n v) - 1)))"
  unfolding OneHotMsbToLsb_def mk_bits_fields find_top_bit using num_bits_take_bit[of n v] by (auto simp: less_Suc_eq_le)

lemma DropLeadingZeroes_eq [simp]:
  "DropLeadingZeroes (mk_bits n v) = Some (mk_bits (num_bits (take_bit n v)) v)"
proof (cases "take_bit n v = 0")
  case False
  then have "0 < num_bits (take_bit n v)" using num_bits_bounds[of "take_bit n v"] by simp
  then show ?thesis
    unfolding DropLeadingZeroes_def mk_bits_fields find_top_bit
    using False num_bits_take_bit[of n v] by simp
next
  case True
  then show ?thesis
    unfolding DropLeadingZeroes_def mk_bits_fields find_top_bit by (simp add: num_bits.simps mk_bits_eq_iff)
qed

lemma bits_ops_CountLeadingOnes_eq [simp]:
  "bits_ops_CountLeadingOnes (mk_bits n v) = Some (run_length (\<lambda>i. bit v (n - 1 - i)) n)"
  unfolding bits_ops_CountLeadingOnes_def bits_ops_Not_eq bind.bind_lunit Bits_CountLeadingZeros_eq
  by (auto intro!: run_length_cong simp: bitwise)

lemma bits_ops_CountTrailingOnes_eq [simp]:
  "bits_ops_CountTrailingOnes (mk_bits n v) = Some (run_length (bit v) n)"
  unfolding bits_ops_CountTrailingOnes_def bits_ops_Not_eq bind.bind_lunit Bits_CountTrailingZeros_eq
  by (auto intro!: run_length_cong simp: bitwise)

definition reverse_nat :: "nat \<Rightarrow> nat \<Rightarrow> nat" where
  "reverse_nat n v = horner_sum of_bool 2 (rev (map (bit v) [0..<n]))"

lemma bit_reverse_nat: "bit (reverse_nat n v) i \<longleftrightarrow> i < n \<and> bit v (n - 1 - i)"
  by (auto simp: reverse_nat_def bit_horner_sum_bit_iff rev_nth)

lemma bits_ops_Reverse_eq [simp]: "bits_ops_Reverse (mk_bits n v) = Some (mk_bits n (reverse_nat n v))"
  by (simp add: bits_ops_Reverse_def reverse_nat_def)

lemma BitSliceUpdate_eq [simp]:
  "BitSliceUpdate (mk_bits n v) s (mk_bits m w) =
     Some (mk_bits n (take_bit s v OR push_bit s (take_bit m w) OR push_bit (s + m) (drop_bit (s + m) v)))"
proof (cases "n \<le> s")
  case True
  have "mk_bits n v = mk_bits n (take_bit s v OR push_bit s (take_bit m w) OR push_bit (s + m) (drop_bit (s + m) v))"
    using True by (intro mk_bits_cong) (auto simp: bitwise bit_push_bit_iff)
  then show ?thesis using True by (simp add: BitSliceUpdate_def)
next
  case False
  let ?u = "min m (n - s)" and ?h = "min n (s + m)"
  have w: "n - ?h + (?u + s) = n" using False by auto
  have "mk_bits n (take_bit s v OR push_bit s (take_bit ?u w) OR push_bit (s + ?u) (drop_bit ?h v))
      = mk_bits n (take_bit s v OR push_bit s (take_bit m w) OR push_bit (s + m) (drop_bit (s + m) v))"
    using False by (intro mk_bits_cong) (auto simp: bitwise bit_push_bit_iff bit_drop_bit_eq min_def)
  then show ?thesis using False w by (simp add: BitSliceUpdate_def Let_def concat_three)
qed

lemma LCP_loop:
  assumes "\<And>b. b \<in> set bs \<Longrightarrow> \<exists>v. b = mk_bits n v" "f \<in> set bs" "k \<le> n"
  shows "LongestCommonPrefixLSB_loop bs f [k..<n] acc =
     Some (acc @ map (bit (uval f)) [k..<k + run_length (\<lambda>i. \<forall>b \<in> set bs. bit (uval b) (k + i) = bit (uval f) (k + i)) (n - k)])"
  using assms(3)
proof (induction "n - k" arbitrary: k acc)
  case 0
  then show ?case by (simp add: run_length_def)
next
  case (Suc d)
  then have k: "k < n" "[k..<n] = k # [Suc k..<n]" by (simp_all add: upt_conv_Cons)
  have get: "b \<in> set bs \<Longrightarrow> Bits_Get b k = Some (bit (uval b) k)" for b
    using assms(1)[of b] k by (auto simp: bit_take_bit_iff)
  let ?e = "bit (uval f) k"
  let ?P = "\<lambda>k i. \<forall>b \<in> set bs. bit (uval b) (k + i) = bit (uval f) (k + i)"
  have loop: "for_find (\<lambda>b. do { x \<leftarrow> Bits_Get b k; Some (if x \<noteq> ?e then Some () else None) }) bs
      = Some (if \<exists>b \<in> set bs. bit (uval b) k \<noteq> ?e then Some () else None)"
    by (rule for_find_test) (simp add: get)
  have rl: "run_length (?P k) (n - k) = (if ?P k 0 then Suc (run_length (?P (Suc k)) (n - Suc k)) else 0)"
  proof -
    have "[0..<n - k] = 0 # map Suc [0..<n - Suc k]" using k(1) by (simp add: map_Suc_upt upt_conv_Cons Suc_diff_Suc)
    then show ?thesis by (simp add: run_length_def takeWhile_map comp_def)
  qed
  show ?case
  proof (cases "?P k 0")
    case True
    have "[k..<k + Suc (run_length (?P (Suc k)) (n - Suc k))] = k # [Suc k..<Suc k + run_length (?P (Suc k)) (n - Suc k)]"
      by (simp add: upt_conv_Cons)
    then show ?thesis
      using True Suc.hyps(1)[of "Suc k" "acc @ [?e]"] Suc.hyps(2) k get[OF assms(2)] loop unfolding rl by simp
  next
    case False
    then show ?thesis using k get[OF assms(2)] loop unfolding rl by auto
  qed
qed


text \<open>The longest prefix, from the low end, on which every vector agrees.\<close>

definition agree_length :: "nat \<Rightarrow> bits list \<Rightarrow> nat" where
  "agree_length n bs = run_length (\<lambda>i. \<forall>b \<in> set bs. bit (uval b) i = bit (uval (hd bs)) i) n"

lemma LongestCommonPrefixLSB_eq:
  assumes "bs \<noteq> []" "\<And>b. b \<in> set bs \<Longrightarrow> bm_inv b \<and> bit_count b = n"
  shows "LongestCommonPrefixLSB bs = Some (mk_bits (agree_length n bs) (uval (hd bs)))"
proof -
  obtain f r where f: "bs = f # r" using assms(1) by (cases bs) auto
  have mk: "b \<in> set bs \<Longrightarrow> \<exists>v. b = mk_bits n v" for b using assms(2)[of b] bm_inv_eq_mk_bits[of b] by metis
  have "LongestCommonPrefixLSB_loop bs f [0..<n] [] = Some (map (bit (uval f)) [0..<agree_length n bs])"
    using LCP_loop[of bs n f 0 "[]"] mk f by (simp add: agree_length_def)
  moreover have "mk_bits (agree_length n bs) (horner_sum of_bool 2 (map (bit (uval f)) [0..<agree_length n bs]))
      = mk_bits (agree_length n bs) (uval f)"
    by (rule mk_bits_cong) (simp add: bit_horner_sum_bit_iff)
  moreover have "list_all (\<lambda>b. bit_count b = n) bs" using assms(2) by (auto simp: list_all_iff)
  ultimately show ?thesis using assms(2) f by (simp add: LongestCommonPrefixLSB_def)
qed

section \<open>Arithmetic on the number\<close>

lemma take_bit_sval [simp]: "take_bit n (sval (mk_bits n v)) = take_bit n (int v)"
  using sval_mod[of "mk_bits n v"] by (simp add: take_bit_eq_mod zmod_int)

lemma mk_int_arith:
  "mk_int n (sval (mk_bits n v) + sval (mk_bits n w)) = mk_bits n (v + w)"
  "mk_int n (sval (mk_bits n v) - sval (mk_bits n w)) = mk_int n (int v - int w)"
  "mk_int n (sval (mk_bits n v) * sval (mk_bits n w)) = mk_bits n (v * w)"
  "mk_int n (- sval (mk_bits n v)) = mk_int n (- int v)"
proof -
  have t: "take_bit n (f (sval (mk_bits n v)) (sval (mk_bits n w))) = take_bit n (f (int v) (int w))"
    if "\<And>x y. take_bit n (f (take_bit n x) (take_bit n y)) = take_bit n (f x y)" for f :: "int \<Rightarrow> int \<Rightarrow> int"
    by (metis that take_bit_sval)
  show "mk_int n (sval (mk_bits n v) + sval (mk_bits n w)) = mk_bits n (v + w)"
    unfolding mk_int_of_nat[symmetric] of_nat_add by (simp add: mk_int_eq_iff t take_bit_add)
  show "mk_int n (sval (mk_bits n v) - sval (mk_bits n w)) = mk_int n (int v - int w)"
    by (simp add: mk_int_eq_iff t take_bit_diff)
  show "mk_int n (sval (mk_bits n v) * sval (mk_bits n w)) = mk_bits n (v * w)"
    unfolding mk_int_of_nat[symmetric] of_nat_mult by (simp add: mk_int_eq_iff t take_bit_mult)
  show "mk_int n (- sval (mk_bits n v)) = mk_int n (- int v)"
    using t[of "\<lambda>x y. - x"] by (simp add: mk_int_eq_iff take_bit_minus)
qed

text \<open>The two paths: a masked word operation, and a detour through a \<open>BigInt\<close>.\<close>

lemma UBits_masked: "n \<le> 64 \<Longrightarrow> w = word_of_int x \<Longrightarrow> UBits (w AND mask n) n = Some (mk_int n x)"
  unfolding mk_int_def
  by (rule UBits_bits) (auto simp: bitwise bit_word_of_int_iff bit_nat_iff)

lemma TruncateOrSignExtend_ToSignedBits:
  assumes "bignum_ok L val"
  shows "(do { r \<leftarrow> BigInt_ToSignedBits L x; TruncateOrSignExtend r n }) = Some (mk_int n (val x))"
proof -
  let ?m = "num_bits_signed (val x)"
  have "sval (mk_int ?m (val x)) = val x"
  proof (cases "?m = 0")
    case True
    then show ?thesis by (simp add: num_bits_signed_def split: if_splits)
  next
    case False
    then show ?thesis using num_bits_signed_le_iff[of "val x" ?m] by (intro sval_mk_int_exact) auto
  qed
  then show ?thesis by (simp add: BigInt_ToSignedBits_eq[OF assms] TruncateOrSignExtend_eq)
qed

lemma MakeSigned_bind:
  assumes "bignum_ok L val" "\<And>x y. val x = sval (mk_bits n v) \<Longrightarrow> val y = sval (mk_bits m w) \<Longrightarrow> f x y = R"
  shows "(do { x \<leftarrow> BigInt_MakeSigned L (mk_bits n v); y \<leftarrow> BigInt_MakeSigned L (mk_bits m w); f x y }) = R"
  by (rule val_bind[OF BigInt_MakeSigned_val[OF assms(1)]], rule val_bind[OF BigInt_MakeSigned_val[OF assms(1)]])
    (rule assms(2))

lemma MakeUnsigned_bind:
  assumes "bignum_ok L val" "\<And>x y. val x = int (take_bit n v) \<Longrightarrow> val y = int (take_bit m w) \<Longrightarrow> f x y = R"
  shows "(do { x \<leftarrow> BigInt_MakeUnsigned L (mk_bits n v); y \<leftarrow> BigInt_MakeUnsigned L (mk_bits m w); f x y }) = R"
  by (rule val_bind[OF BigInt_MakeUnsigned_val[OF assms(1)]], rule val_bind[OF BigInt_MakeUnsigned_val[OF assms(1)]])
    (rule assms(2))

lemma signed_detour:
  assumes ok: "bignum_ok L val"
    and op: "\<And>x y. val y \<noteq> 0 \<or> nz \<Longrightarrow> map_option val (op x y) = Some (g (val x) (val y))"
    and nz: "sval (mk_bits m w) \<noteq> 0 \<or> nz"
  shows "(do { x \<leftarrow> BigInt_MakeSigned L (mk_bits n v); y \<leftarrow> BigInt_MakeSigned L (mk_bits m w);
       s \<leftarrow> op x y; r \<leftarrow> BigInt_ToSignedBits L s; TruncateOrSignExtend r k })
     = Some (mk_int k (g (sval (mk_bits n v)) (sval (mk_bits m w))))"
proof (rule MakeSigned_bind[OF ok])
  fix x y assume xy: "val x = sval (mk_bits n v)" "val y = sval (mk_bits m w)"
  show "(do { s \<leftarrow> op x y; r \<leftarrow> BigInt_ToSignedBits L s; TruncateOrSignExtend r k })
     = Some (mk_int k (g (sval (mk_bits n v)) (sval (mk_bits m w))))"
    by (rule val_bind[OF op]) (use xy nz in \<open>auto simp: TruncateOrSignExtend_ToSignedBits[OF ok]\<close>)
qed

lemma bits_ops_Add_eq:
  assumes "bignum_ok L val"
  shows "bits_ops_Add L (mk_bits n v) (mk_bits m w) = (if n = m then Some (mk_bits n (v + w)) else None)"
proof (cases "n \<le> 64")
  case True
  have "mk_int n (int (take_bit n v + take_bit n w)) = mk_bits n (v + w)"
    by (simp only: mk_int_of_nat mk_bits_eq_iff take_bit_add)
  then have "UBits ((word_of_nat (take_bit n v) + word_of_nat (take_bit n w)) AND mask n) n = Some (mk_bits n (v + w))"
    using UBits_masked[OF True, of _ "int (take_bit n v + take_bit n w)"] by simp
  then show ?thesis using True by (auto simp: bits_ops_Add_def simp del: UBits_eq)
next
  case False
  then show ?thesis
    using signed_detour[OF assms, of True "BigInt_Add L" "(+)" n w n v n]
    by (auto simp: bits_ops_Add_def mk_int_arith bignum_arith[OF assms])
qed

lemma bits_ops_Sub_eq:
  assumes "bignum_ok L val"
  shows "bits_ops_Sub L (mk_bits n v) (mk_bits m w) = (if n = m then Some (mk_int n (int v - int w)) else None)"
proof (cases "n \<le> 64")
  case True
  have "mk_int n (int (take_bit n v) - int (take_bit n w)) = mk_int n (int v - int w)"
    unfolding mk_int_eq_iff by (simp add: of_nat_take_bit take_bit_diff)
  then have "UBits ((word_of_nat (take_bit n v) - word_of_nat (take_bit n w)) AND mask n) n = Some (mk_int n (int v - int w))"
    using UBits_masked[OF True, of _ "int (take_bit n v) - int (take_bit n w)"] by simp
  then show ?thesis using True by (auto simp: bits_ops_Sub_def simp del: UBits_eq)
next
  case False
  then show ?thesis
    using signed_detour[OF assms, of True "BigInt_Sub L" "(-)" n w n v n]
    by (auto simp: bits_ops_Sub_def mk_int_arith bignum_arith[OF assms])
qed


text \<open>Products and quotients of two's complement numbers stay within the sum of their widths.\<close>

lemma sval_abs_le:
  assumes "bm_inv b" "0 < bit_count b"
  shows "\<bar>sval b\<bar> \<le> 2 ^ (bit_count b - 1)"
  using sval_range[OF assms] by linarith

lemma num_bits_signed_prod:
  "num_bits_signed (sval (mk_bits n v) * sval (mk_bits m w)) \<le> n + m"
proof (cases "n = 0 \<or> m = 0")
  case True
  then show ?thesis by (auto simp: num_bits_signed_def)
next
  case False
  let ?a = "sval (mk_bits n v)" and ?b = "sval (mk_bits m w)"
  have "\<bar>?a * ?b\<bar> \<le> 2 ^ (n - 1) * 2 ^ (m - 1)"
    unfolding abs_mult using sval_abs_le[of "mk_bits n v"] sval_abs_le[of "mk_bits m w"] False
    by (intro mult_mono) auto
  also have "\<dots> = 2 ^ (n + m - 2)" using False by (simp flip: power_add)
  also have "\<dots> < 2 ^ (n + m - 1)" using False by (intro power_strict_increasing) auto
  finally have "\<bar>?a * ?b\<bar> < 2 ^ (n + m - 1)" .
  then have "- (2 ^ (n + m - 1)) \<le> ?a * ?b" "?a * ?b < 2 ^ (n + m - 1)" by linarith+
  then show ?thesis using False by (simp add: num_bits_signed_le_iff)
qed

lemma bits_ops_Mul_eq:
  assumes "bignum_ok L val"
  shows "bits_ops_Mul L (mk_bits n v) (mk_bits m w) = (if n = m then Some (mk_bits n (v * w)) else None)"
proof (cases "n \<le> 64")
  case True
  have "mk_int n (int (take_bit n v * take_bit n w)) = mk_bits n (v * w)"
    by (simp only: mk_int_of_nat mk_bits_eq_iff take_bit_mult)
  then have "UBits ((word_of_nat (take_bit n v) * word_of_nat (take_bit n w)) AND mask n) n = Some (mk_bits n (v * w))"
    using UBits_masked[OF True, of _ "int (take_bit n v * take_bit n w)"] by simp
  then show ?thesis using True by (auto simp: bits_ops_Mul_def simp del: UBits_eq)
next
  case False
  have ext: "SignExtend (mk_bits n u) n = Some (mk_bits n u)" for u
    using mk_int_sval[of "mk_bits n u"] by simp
  have "(do { x \<leftarrow> BigInt_MakeSigned L (mk_bits n v); y \<leftarrow> BigInt_MakeSigned L (mk_bits n w);
       p \<leftarrow> BigInt_Mul L x y; r \<leftarrow> BigInt_ToSignedBitsWithBitCount L p (n * 2); u \<leftarrow> status_value r; Bits_Slice u 0 n })
     = Some (mk_bits n (v * w))"
  proof (rule MakeSigned_bind[OF assms], rule val_bind[OF bignum_arith(3)[OF assms]])
    fix x y p assume "val x = sval (mk_bits n v)" "val y = sval (mk_bits n w)" "val p = val x * val y"
    then show "(do { r \<leftarrow> BigInt_ToSignedBitsWithBitCount L p (n * 2); u \<leftarrow> status_value r; Bits_Slice u 0 n }) = Some (mk_bits n (v * w))"
      using num_bits_signed_prod[of n v n w]
      by (simp add: BigInt_ToSignedBitsWithBitCount_eq[OF assms] mult_2_right slice_low mk_int_arith)
  qed
  then show ?thesis using False ext[of v] ext[of w] by (auto simp: bits_ops_Mul_def simp del: SignExtend_eq)
qed

lemma i64_value_eq:
  "n \<le> 64 \<Longrightarrow> i64_value (mk_bits n v) = Some (word_of_int (sval (mk_bits n v))) \<and>
     sint (word_of_int (sval (mk_bits n v)) :: u64) = sval (mk_bits n v)"
proof -
  assume n: "n \<le> 64"
  have r: "- (2 ^ 63) \<le> sval (mk_bits n v) \<and> sval (mk_bits n v) < 2 ^ 63"
  proof (cases "n = 0")
    case False
    have "(2::int) ^ (n - 1) \<le> 2 ^ 63" using n by (intro power_increasing) auto
    then show ?thesis using sval_range[of "mk_bits n v"] False by (smt (verit) bm_inv_mk_bits mk_bits_fields(1) neq0_conv)
  qed simp
  then have "sint (word_of_int (sval (mk_bits n v)) :: u64) = sval (mk_bits n v)" by (rule sint_word_of_int_64)
  then show ?thesis using r by (simp add: i64_value_def Bits_ToInt64_eq)
qed

lemma bits_ops_SMul_eq:
  assumes "bignum_ok L val"
  shows "bits_ops_SMul L (mk_bits n v) (mk_bits m w) =
    Some (mk_int (n + m) (sval (mk_bits n v) * sval (mk_bits m w)))"
proof (cases "n + m \<le> 64")
  case True
  let ?p = "sval (mk_bits n v) * sval (mk_bits m w)"
  have fits: "n + m = 0 \<and> ?p = 0 \<or> n + m \<noteq> 0 \<and> - (2 ^ (n + m - 1)) \<le> ?p \<and> ?p < 2 ^ (n + m - 1)"
    using num_bits_signed_prod[of n v m w] unfolding num_bits_signed_le_iff by (auto split: if_splits)
  have s: "sint (word_of_int ?p :: u64) = ?p"
  proof (cases "n + m = 0")
    case False
    have "(2::int) ^ (n + m - 1) \<le> 2 ^ 63" using True by (intro power_increasing) auto
    then have "- (2 ^ 63) \<le> ?p \<and> ?p < 2 ^ 63" using fits False by linarith
    then show ?thesis by (rule sint_word_of_int_64)
  qed (use fits in simp)
  have "SBits (word_of_int ?p) (n + m) = Some (mk_int (n + m) ?p)"
    unfolding SBits_eq s using fits by (auto simp: s)
  then show ?thesis
    using True i64_value_eq[of n v] i64_value_eq[of m w]
    by (simp add: bits_ops_SMul_def Let_def)
next
  case False
  have "(do { x \<leftarrow> BigInt_MakeSigned L (mk_bits n v); y \<leftarrow> BigInt_MakeSigned L (mk_bits m w);
       p \<leftarrow> BigInt_Mul L x y; r \<leftarrow> BigInt_ToSignedBitsWithBitCount L p (n + m); status_value r })
     = Some (mk_int (n + m) (sval (mk_bits n v) * sval (mk_bits m w)))"
    by (rule MakeSigned_bind[OF assms], rule val_bind[OF bignum_arith(3)[OF assms]])
      (simp add: BigInt_ToSignedBitsWithBitCount_eq[OF assms] num_bits_signed_prod)
  then show ?thesis using False by (simp add: bits_ops_SMul_def Let_def)
qed

lemma bits_ops_UMul_eq:
  assumes "bignum_ok L val"
  shows "bits_ops_UMul L (mk_bits n v) (mk_bits m w) = Some (mk_bits (n + m) (take_bit n v * take_bit m w))"
proof -
  have lt: "take_bit n v * take_bit m w < 2 ^ (n + m)"
    unfolding power_add by (intro mult_strict_mono) auto
  show ?thesis
  proof (cases "n + m \<le> 64")
    case True
    have "(2::nat) ^ (n + m) \<le> 2 ^ 64" using True by (intro power_increasing) auto
    then have "unat (word_of_nat (take_bit n v * take_bit m w) :: u64) = take_bit n v * take_bit m w"
      using lt by (intro unat_word_of_nat_64) linarith
    then have "UBits (word_of_nat (take_bit n v) * word_of_nat (take_bit m w)) (n + m) = Some (mk_bits (n + m) (take_bit n v * take_bit m w))"
      using lt by simp
    then show ?thesis using True by (simp add: bits_ops_UMul_def Let_def del: UBits_eq)
  next
    case False
    have "int (take_bit n v) * int (take_bit m w) < 2 ^ (n + m)"
      using lt int_less_power_iff[of "take_bit n v * take_bit m w" "n + m"] by simp
    moreover have "\<not> int (take_bit n v) * int (take_bit m w) < 0" by (simp add: not_less)
    ultimately have "(do { x \<leftarrow> BigInt_MakeUnsigned L (mk_bits n v); y \<leftarrow> BigInt_MakeUnsigned L (mk_bits m w);
         p \<leftarrow> BigInt_Mul L x y; r \<leftarrow> BigInt_ToUnsignedBitsWithBitCount L p (n + m); status_value r })
       = Some (mk_bits (n + m) (take_bit n v * take_bit m w))"
      by (intro MakeUnsigned_bind[OF assms] val_bind[OF bignum_arith(3)[OF assms]])
        (simp add: BigInt_ToUnsignedBitsWithBitCount_eq[OF assms] nat_mult_distrib)
    then show ?thesis using False by (simp add: bits_ops_UMul_def Let_def)
  qed
qed


section \<open>Comparison and division on the number\<close>

lemma unsigned_compare_eq [simp]:
  "UEqual (mk_bits n v) (mk_bits m w) = Some (take_bit n v = take_bit m w)"
  "ULessThan (mk_bits n v) (mk_bits m w) = Some (take_bit n v < take_bit m w)"
  "ULessThanOrEqual (mk_bits n v) (mk_bits m w) = Some (take_bit n v \<le> take_bit m w)"
  "UGreaterThan (mk_bits n v) (mk_bits m w) = Some (take_bit n v > take_bit m w)"
  "UGreaterThanOrEqual (mk_bits n v) (mk_bits m w) = Some (take_bit n v \<ge> take_bit m w)"
  by (auto simp: UEqual_def ULessThan_def ULessThanOrEqual_def UGreaterThan_def UGreaterThanOrEqual_def sgn_if)

lemma unat_64 [simp]: "unat (w :: u64) < 2 ^ 64" "take_bit 64 (unat w) = unat w"
  using unsigned_less[of w, where 'a = nat] by (simp_all add: take_bit_nat_eq_self_iff)

lemma unsigned_compare_int_eq:
  assumes "0 \<le> sint c"
  shows "UEqual_int (mk_bits n v) c = Some (take_bit n v = unat c)"
    "ULessThan_int (mk_bits n v) c = Some (take_bit n v < unat c)"
    "ULessThanOrEqual_int (mk_bits n v) c = Some (take_bit n v \<le> unat c)"
    "UGreaterThan_int (mk_bits n v) c = Some (take_bit n v > unat c)"
    "UGreaterThanOrEqual_int (mk_bits n v) c = Some (take_bit n v \<ge> unat c)"
  using assms unat_64(1)[of c] unat_64(2)[of c]
  by (simp_all only: UEqual_int_def ULessThan_int_def ULessThanOrEqual_int_def UGreaterThan_int_def
      UGreaterThanOrEqual_int_def check_bind if_True UBits_eq bind.bind_lunit unsigned_compare_eq)

lemma SEqual_eq:
  assumes "bignum_ok L val"
  shows "SEqual L (mk_bits n v) (mk_bits m w) = Some (sval (mk_bits n v) = sval (mk_bits m w))"
  unfolding SEqual_def by (rule MakeSigned_bind[OF assms]) (simp add: BigInt_cmp_val[OF assms])

lemma SLessThan_eq:
  assumes "bignum_ok L val"
  shows "SLessThan L (mk_bits n v) (mk_bits m w) = Some (sval (mk_bits n v) < sval (mk_bits m w))"
proof (cases "n \<le> 64 \<and> m \<le> 64")
  case True
  then show ?thesis using i64_value_eq[of n v] i64_value_eq[of m w] by (simp add: SLessThan_def)
next
  case False
  have "(do { x \<leftarrow> BigInt_MakeSigned L (mk_bits n v); y \<leftarrow> BigInt_MakeSigned L (mk_bits m w); Some (BigInt_LessThan L x y) })
      = Some (sval (mk_bits n v) < sval (mk_bits m w))"
    by (rule MakeSigned_bind[OF assms]) (simp add: BigInt_cmp_val[OF assms])
  then show ?thesis using False by (auto simp: SLessThan_def)
qed

lemma signed_compare_eq:
  assumes "bignum_ok L val"
  shows "SLessThanOrEqual L (mk_bits n v) (mk_bits m w) = Some (sval (mk_bits n v) \<le> sval (mk_bits m w))"
    "SGreaterThan L (mk_bits n v) (mk_bits m w) = Some (sval (mk_bits n v) > sval (mk_bits m w))"
    "SGreaterThanOrEqual L (mk_bits n v) (mk_bits m w) = Some (sval (mk_bits n v) \<ge> sval (mk_bits m w))"
  by (auto simp: SLessThanOrEqual_def SGreaterThan_def SGreaterThanOrEqual_def SEqual_eq[OF assms] SLessThan_eq[OF assms])

lemma take_bit_num_bits [simp]: "take_bit (num_bits v) v = v"
  by (simp add: take_bit_nat_eq_self_iff less_num_bits)

lemma bits_ops_UDiv_eq:
  assumes "bignum_ok L val"
  shows "bits_ops_UDiv L (mk_bits n v) (mk_bits m w) =
    Some (mk_bits n (if take_bit m w = 0 then mask n else take_bit n v div take_bit m w))"
proof (cases "take_bit m w = 0")
  case False
  let ?q = "take_bit n v div take_bit m w"
  have "?q \<le> take_bit n v" by simp
  then have q: "?q < 2 ^ n" using take_bit_nat_less_exp[of n v] by linarith
  have "(do { x \<leftarrow> BigInt_MakeUnsigned L (mk_bits n v); y \<leftarrow> BigInt_MakeUnsigned L (mk_bits m w);
       z \<leftarrow> BigInt_Div L x y; b \<leftarrow> BigInt_ToUnsignedBits L z; ZeroExtend b n }) = Some (mk_bits n ?q)"
  proof (rule MakeUnsigned_bind[OF assms])
    fix x y assume xy: "val x = int (take_bit n v)" "val y = int (take_bit m w)"
    have "map_option val (BigInt_Div L x y) = Some (int ?q)"
      using xy False by (simp add: BigInt_Div_val[OF assms] c_div_def zdiv_int sgn_if)
    then show "(do { z \<leftarrow> BigInt_Div L x y; b \<leftarrow> BigInt_ToUnsignedBits L z; ZeroExtend b n }) = Some (mk_bits n ?q)"
      by (rule val_bind) (use q in \<open>simp add: BigInt_ToUnsignedBits_eq[OF assms] num_bits_le_iff\<close>)
  qed
  then show ?thesis using False by (simp add: bits_ops_UDiv_def)
qed (simp add: bits_ops_UDiv_def)

lemma bits_ops_UMod_eq:
  assumes "bignum_ok L val"
  shows "bits_ops_UMod L (mk_bits n v) (mk_bits m w) =
    Some (mk_bits m (if take_bit m w = 0 then 0 else take_bit n v mod take_bit m w))"
proof (cases "take_bit m w = 0")
  case False
  let ?q = "take_bit n v mod take_bit m w"
  have "?q < take_bit m w" using False by simp
  then have q: "?q < 2 ^ m" using take_bit_nat_less_exp[of m w] by linarith
  have "(do { x \<leftarrow> BigInt_MakeUnsigned L (mk_bits n v); y \<leftarrow> BigInt_MakeUnsigned L (mk_bits m w);
       z \<leftarrow> BigInt_Mod L x y; b \<leftarrow> BigInt_ToUnsignedBits L z; ZeroExtend b m }) = Some (mk_bits m ?q)"
  proof (rule MakeUnsigned_bind[OF assms])
    fix x y assume xy: "val x = int (take_bit n v)" "val y = int (take_bit m w)"
    have "map_option val (BigInt_Mod L x y) = Some (int ?q)"
      using xy False by (simp add: BigInt_Mod_val[OF assms] c_mod_alt zmod_int sgn_if)
    then show "(do { z \<leftarrow> BigInt_Mod L x y; b \<leftarrow> BigInt_ToUnsignedBits L z; ZeroExtend b m }) = Some (mk_bits m ?q)"
      by (rule val_bind) (use q in \<open>simp add: BigInt_ToUnsignedBits_eq[OF assms] num_bits_le_iff\<close>)
  qed
  then show ?thesis using False by (simp add: bits_ops_UMod_def)
qed (simp add: bits_ops_UMod_def)

lemma sval_eq_0_iff: "sval (mk_bits n v) = 0 \<longleftrightarrow> take_bit n v = 0"
proof
  assume "sval (mk_bits n v) = 0"
  then have "mk_int n 0 = mk_bits n v" using mk_int_sval[of "mk_bits n v"] by simp
  then show "take_bit n v = 0" using mk_int_of_nat[of n 0] by (simp add: mk_bits_eq_iff)
qed (simp add: sval_def)

lemma bits_ops_SDiv_eq:
  assumes "bignum_ok L val"
  shows "bits_ops_SDiv L (mk_bits n v) (mk_bits m w) = Some (
    if take_bit m w \<noteq> 0 then mk_int n (c_div (sval (mk_bits n v)) (sval (mk_bits m w)))
    else if sval (mk_bits n v) < 0 then mk_bits n (2 ^ (n - 1))
    else mk_bits n (mask (n - 1)))"
proof (cases "take_bit m w = 0")
  case False
  then show ?thesis
    using signed_detour[OF assms, of False "BigInt_Div L" c_div m w n v n]
    by (simp add: bits_ops_SDiv_def BigInt_Div_val[OF assms] sval_eq_0_iff)
next
  case True
  show ?thesis
  proof (cases n)
    case 0
    then show ?thesis using True by (simp add: bits_ops_SDiv_def mk_bits_eq_iff)
  next
    case (Suc k)
    have s0: "sval (mk_bits n 0) = 0" by (simp add: sval_eq_0_iff)
    have "mk_bits n (push_bit k (1::nat)) = mk_bits n (2 ^ k)" by (simp add: push_bit_eq_mult)
    then show ?thesis using True Suc s0
      by (simp add: bits_ops_SDiv_def SLessThan_eq[OF assms] take_bit_of_mask min_def mk_bits_eq_iff)
  qed
qed

lemma bits_ops_SMod_eq:
  assumes "bignum_ok L val"
  shows "bits_ops_SMod L (mk_bits n v) (mk_bits m w) =
    Some (if take_bit m w = 0 then mk_bits m 0 else mk_int m (c_mod (sval (mk_bits n v)) (sval (mk_bits m w))))"
proof (cases "take_bit m w = 0")
  case False
  then show ?thesis
    using signed_detour[OF assms, of False "BigInt_Mod L" c_mod m w n v m]
    by (simp add: bits_ops_SMod_def BigInt_Mod_val[OF assms] sval_eq_0_iff)
qed (simp add: bits_ops_SMod_def)

lemma bits_ops_Negate_eq:
  assumes "bignum_ok L val"
  shows "bits_ops_Negate L (mk_bits n v) = Some (mk_int n (- int v))"
proof (cases "n < 64")
  case True
  have "UBits (- word_of_int (sval (mk_bits n v)) AND mask n) n = Some (mk_int n (- int v))"
    using UBits_masked[of n "- word_of_int (sval (mk_bits n v))" "- sval (mk_bits n v)"] True
    by (simp only: mk_int_arith of_int_minus refl less_imp_le)
  then show ?thesis using True i64_value_eq[of n v] by (simp add: bits_ops_Negate_def del: UBits_eq)
next
  case False
  have "(do { x \<leftarrow> BigInt_MakeSigned L (mk_bits n v); y \<leftarrow> BigInt_Negate L x; r \<leftarrow> BigInt_ToSignedBits L y; TruncateOrSignExtend r n })
      = Some (mk_int n (- int v))"
    by (rule val_bind[OF BigInt_MakeSigned_val[OF assms]], rule val_bind[OF BigInt_sign_val(1)[OF assms]])
      (simp add: TruncateOrSignExtend_ToSignedBits[OF assms] mk_int_arith)
  then show ?thesis using False by (simp add: bits_ops_Negate_def)
qed

lemma bits_ops_Abs_eq:
  assumes "bignum_ok L val"
  shows "bits_ops_Abs L (mk_bits n v) = (if n = 0 then None else Some (mk_int n \<bar>sval (mk_bits n v)\<bar>))"
proof (cases "n = 0")
  case False
  have neg: "bit v (n - 1) \<longleftrightarrow> sval (mk_bits n v) < 0"
    using False int_less_power_iff[of "take_bit n v" n] by (simp add: sval_def bit_take_bit_iff)
  have "mk_int n (sval (mk_bits n v)) = mk_bits n v" using mk_int_sval[of "mk_bits n v"] by simp
  then show ?thesis
    using False neg mk_int_arith(4)[of n v] by (auto simp: bits_ops_Abs_def bits_ops_Negate_eq[OF assms])
qed (simp add: bits_ops_Abs_def)

section \<open>N-ary operations\<close>

lemma nary_fold_eq:
  assumes "\<And>a b. f (mk_bits n a) (mk_bits n b) = Some (mk_bits n (g a b))"
  shows "nary_fold f (map (mk_bits n) (v # vs)) = Some (mk_bits n (fold (\<lambda>x acc. g acc x) vs v))"
proof -
  let ?os = "map (mk_bits n) (v # vs)"
  have idx: "map (\<lambda>i. (v # vs) ! i) [1..<length ?os] = vs"
    by (simp add: map_Suc_upt[symmetric] comp_def map_nth del: upt_Suc map_Suc_upt)
  have "for_state (\<lambda>i acc. do { x \<leftarrow> list_at ?os i; f acc x }) [1..<length ?os] s
      = for_state (\<lambda>x acc. f acc (mk_bits n x)) (map (\<lambda>i. (v # vs) ! i) [1..<length ?os]) s" for s
    unfolding for_state_map by (rule for_state_cong) (auto simp: nth_Cons list_at_def split: nat.splits)
  moreover have "for_state (\<lambda>x acc. f acc (mk_bits n x)) vs (mk_bits n a) = Some (mk_bits n (fold (\<lambda>x acc. g acc x) vs a))" for a
    by (induction vs arbitrary: a) (simp_all add: assms)
  ultimately show ?thesis unfolding nary_fold_def idx by simp
qed

lemma DoLogicalOp_eq:
  "DoLogicalOp kAnd (map (mk_bits n) (v # vs)) = Some (mk_bits n (fold (\<lambda>x acc. acc AND x) vs v))"
  "DoLogicalOp kOr (map (mk_bits n) (v # vs)) = Some (mk_bits n (fold (\<lambda>x acc. acc OR x) vs v))"
  "DoLogicalOp kXor (map (mk_bits n) (v # vs)) = Some (mk_bits n (fold (\<lambda>x acc. acc XOR x) vs v))"
  "DoLogicalOp kNand (map (mk_bits n) (v # vs)) = Some (mk_bits n (fold (\<lambda>x acc. acc AND x) vs v XOR mask n))"
  "DoLogicalOp kNor (map (mk_bits n) (v # vs)) = Some (mk_bits n (fold (\<lambda>x acc. acc OR x) vs v XOR mask n))"
proof -
  have a: "nary_fold bits_ops_And (map (mk_bits n) (v # vs)) = Some (mk_bits n (fold (\<lambda>x acc. acc AND x) vs v))"
    "nary_fold bits_ops_Or (map (mk_bits n) (v # vs)) = Some (mk_bits n (fold (\<lambda>x acc. acc OR x) vs v))"
    "nary_fold bits_ops_Xor (map (mk_bits n) (v # vs)) = Some (mk_bits n (fold (\<lambda>x acc. acc XOR x) vs v))"
    by (rule nary_fold_eq, simp)+
  show "DoLogicalOp kAnd (map (mk_bits n) (v # vs)) = Some (mk_bits n (fold (\<lambda>x acc. acc AND x) vs v))"
    "DoLogicalOp kOr (map (mk_bits n) (v # vs)) = Some (mk_bits n (fold (\<lambda>x acc. acc OR x) vs v))"
    "DoLogicalOp kXor (map (mk_bits n) (v # vs)) = Some (mk_bits n (fold (\<lambda>x acc. acc XOR x) vs v))"
    "DoLogicalOp kNand (map (mk_bits n) (v # vs)) = Some (mk_bits n (fold (\<lambda>x acc. acc AND x) vs v XOR mask n))"
    "DoLogicalOp kNor (map (mk_bits n) (v # vs)) = Some (mk_bits n (fold (\<lambda>x acc. acc OR x) vs v XOR mask n))"
    using a by (simp_all add: DoLogicalOp_def NaryAnd_def NaryOr_def NaryXor_def NaryNand_def NaryNor_def)
qed

text \<open>The empty list of operands aborts; the identity of an operation may be prepended.\<close>

lemma LogicalOpIdentity_unit:
  assumes "op \<in> {kAnd, kOr, kXor, kNand, kNor}"
  shows "\<exists>e. LogicalOpIdentity op n = Some (mk_bits n e) \<and>
    DoLogicalOp op (map (mk_bits n) (e # v # vs)) = DoLogicalOp op (map (mk_bits n) (v # vs))"
proof -
  have m: "DoLogicalOp kAnd (map (mk_bits n) (mask n # v # vs)) = DoLogicalOp kAnd (map (mk_bits n) (v # vs))"
    "DoLogicalOp kNand (map (mk_bits n) (mask n # v # vs)) = DoLogicalOp kNand (map (mk_bits n) (v # vs))"
  proof -
    have g: "take_bit n u = take_bit n u' \<Longrightarrow>
        take_bit n (fold (\<lambda>x acc. acc AND x) vs u) = take_bit n (fold (\<lambda>x acc. acc AND x) vs u')" for u u' :: nat
      by (induction vs arbitrary: u u') simp_all
    have f: "take_bit n (fold (\<lambda>x acc. acc AND x) vs (mask n AND u)) = take_bit n (fold (\<lambda>x acc. acc AND x) vs u)" for u :: nat
      by (rule g) (auto intro!: nat_bit_eqI simp: bitwise)
    show "DoLogicalOp kAnd (map (mk_bits n) (mask n # v # vs)) = DoLogicalOp kAnd (map (mk_bits n) (v # vs))"
      "DoLogicalOp kNand (map (mk_bits n) (mask n # v # vs)) = DoLogicalOp kNand (map (mk_bits n) (v # vs))"
      unfolding DoLogicalOp_eq using f[of v] by (simp_all add: mk_bits_eq_iff take_bit_xor)
  qed
  have z: "DoLogicalOp o' (map (mk_bits n) (0 # v # vs)) = DoLogicalOp o' (map (mk_bits n) (v # vs))"
    if "o' \<in> {kOr, kXor, kNor}" for o'
    using that by (auto simp only: DoLogicalOp_eq insert_iff empty_iff) simp_all
  show ?thesis using assms m z by (auto simp: LogicalOpIdentity_def simp del: list.map)
qed

text \<open>Truncating division stays in the range of the width but for the least number by minus one.\<close>

lemma signed_div_bounds:
  fixes x y :: int
  assumes n: "0 < n" and x: "- (2 ^ (n - 1)) \<le> x \<and> x < 2 ^ (n - 1)" and y: "- (2 ^ (n - 1)) \<le> y \<and> y < 2 ^ (n - 1)"
    and "y \<noteq> 0" "\<not> (x = - (2 ^ (n - 1)) \<and> y = - 1)"
  shows "- (2 ^ (n - 1)) \<le> c_div x y \<and> c_div x y < 2 ^ (n - 1)" "- (2 ^ (n - 1)) \<le> c_mod x y \<and> c_mod x y < 2 ^ (n - 1)"
    "c_div x y * y + c_mod x y = x" "\<bar>c_mod x y\<bar> < \<bar>y\<bar>"
proof -
  show eq: "c_div x y * y + c_mod x y = x" by (simp add: c_mod_def)
  have m: "\<bar>c_mod x y\<bar> = \<bar>x\<bar> mod \<bar>y\<bar>" unfolding c_mod_alt[OF \<open>y \<noteq> 0\<close>] using \<open>y \<noteq> 0\<close> by (simp add: abs_mult sgn_if pos_mod_sign)
  then show lt: "\<bar>c_mod x y\<bar> < \<bar>y\<bar>" using \<open>y \<noteq> 0\<close> by simp
  have d: "\<bar>c_div x y\<bar> = \<bar>x\<bar> div \<bar>y\<bar>" by (simp add: c_div_def abs_mult sgn_if \<open>y \<noteq> 0\<close> pos_imp_zdiv_nonneg_iff)
  show "- (2 ^ (n - 1)) \<le> c_mod x y \<and> c_mod x y < 2 ^ (n - 1)" using lt y by linarith
  consider "\<bar>y\<bar> = 1" | "2 \<le> \<bar>y\<bar>" using \<open>y \<noteq> 0\<close> by linarith
  then show "- (2 ^ (n - 1)) \<le> c_div x y \<and> c_div x y < 2 ^ (n - 1)"
  proof cases
    case 1
    then have "c_div x y = x * y" by (auto simp: c_div_def sgn_if abs_if)
    then show ?thesis using 1 x assms(5) by (auto simp: abs_if split: if_splits)
  next
    case 2
    have "\<bar>x\<bar> div \<bar>y\<bar> \<le> \<bar>x\<bar> div 2" using 2 by (intro zdiv_mono2) auto
    moreover have "\<bar>x\<bar> \<le> 2 ^ (n - 1)" using x by linarith
    moreover have "(0::int) < 2 ^ (n - 1)" by simp
    ultimately show ?thesis using d by linarith
  qed
qed

end
