(* ===== verification/Interval.thy ===== *)
theory Interval
  imports BitsOps
begin

text \<open>
  \<open>xls/ir/interval.h\<close> and \<open>interval.cc\<close>: intervals of bit vectors of one width, bounds inclusive, read
  as unsigned numbers. An interval whose upper bound is below its lower bound is improper and wraps
  around. The model follows the class; the lemmas give each operation on the canonical interval
  \<open>mk_iv n a b\<close> and on the set \<open>iv_points\<close> of numbers it covers. Printing and the random
  generator for tests are not modelled.
\<close>

section \<open>The class\<close>

record interval =
  is_valid :: bool
  lower_bound :: bits
  upper_bound :: bits

definition Interval_new :: "bits \<Rightarrow> bits \<Rightarrow> interval option" where
  "Interval_new lower upper = do {
     check (bit_count lower = bit_count upper);
     Some \<lparr>is_valid = True, lower_bound = lower, upper_bound = upper\<rparr> }"

definition EnsureValid :: "interval \<Rightarrow> unit option" where
  "EnsureValid iv = do {
     check (is_valid iv);
     check (bit_count (lower_bound iv) = bit_count (upper_bound iv)) }"

definition Interval_BitCount :: "interval \<Rightarrow> nat option" where
  "Interval_BitCount iv = do { EnsureValid iv; Some (bit_count (lower_bound iv)) }"

definition Interval_less :: "interval \<Rightarrow> interval \<Rightarrow> bool option" where
  "Interval_less lhs rhs = do {
     l \<leftarrow> ULessThan (lower_bound lhs) (lower_bound rhs);
     if l then Some True
     else do {
       e \<leftarrow> UEqual (lower_bound lhs) (lower_bound rhs);
       if e then ULessThan (upper_bound lhs) (upper_bound rhs) else Some False } }"

definition Interval_eq :: "interval \<Rightarrow> interval \<Rightarrow> bool option" where
  "Interval_eq lhs rhs = do {
     l \<leftarrow> UEqual (lower_bound lhs) (lower_bound rhs);
     if l then UEqual (upper_bound lhs) (upper_bound rhs) else Some False }"

definition Interval_Maximal :: "nat \<Rightarrow> interval option" where
  "Interval_Maximal bit_width = do {
     z \<leftarrow> UBits 0 bit_width;
     m \<leftarrow> Bits_AllOnes bit_width;
     Interval_new z m }"

definition Interval_Precise :: "bits \<Rightarrow> interval option" where
  "Interval_Precise b = Interval_new b b"

definition Interval_ZeroExtend :: "interval \<Rightarrow> nat \<Rightarrow> interval option" where
  "Interval_ZeroExtend iv bit_width = do {
     n \<leftarrow> Interval_BitCount iv;
     check (n \<le> bit_width);
     l \<leftarrow> ZeroExtend (lower_bound iv) bit_width;
     u \<leftarrow> ZeroExtend (upper_bound iv) bit_width;
     Interval_new l u }"

definition IsImproper :: "interval \<Rightarrow> bool option" where
  "IsImproper iv = do {
     EnsureValid iv;
     n \<leftarrow> Interval_BitCount iv;
     if n = 0 then Some False else ULessThan (upper_bound iv) (lower_bound iv) }"

text \<open>The checks that the operations on two proper intervals start with.\<close>

definition check_proper_pair :: "interval \<Rightarrow> interval \<Rightarrow> unit option" where
  "check_proper_pair lhs rhs = do {
     n \<leftarrow> Interval_BitCount lhs;
     m \<leftarrow> Interval_BitCount rhs;
     check (n = m);
     i \<leftarrow> IsImproper lhs;
     check (\<not> i);
     j \<leftarrow> IsImproper rhs;
     check (\<not> j) }"

partial_function (option) Interval_Overlaps :: "interval \<Rightarrow> interval \<Rightarrow> bool option" where
  "Interval_Overlaps lhs rhs = do {
     check_proper_pair lhs rhs;
     n \<leftarrow> Interval_BitCount lhs;
     if n = 0 then Some True
     else do {
       swap \<leftarrow> Interval_less rhs lhs;
       if swap then Interval_Overlaps rhs lhs
       else UGreaterThanOrEqual (upper_bound lhs) (lower_bound rhs) } }"

definition Interval_Disjoint :: "interval \<Rightarrow> interval \<Rightarrow> bool option" where
  "Interval_Disjoint lhs rhs = do { x \<leftarrow> Interval_Overlaps lhs rhs; Some (\<not> x) }"

partial_function (option) Interval_Abuts :: "('n, 'z) bignum_lib_scheme \<Rightarrow> interval \<Rightarrow> interval \<Rightarrow> bool option" where
  "Interval_Abuts L lhs rhs = do {
     check_proper_pair lhs rhs;
     n \<leftarrow> Interval_BitCount lhs;
     if n = 0 then Some False
     else do {
       swap \<leftarrow> Interval_less rhs lhs;
       if swap then Interval_Abuts L rhs lhs
       else do {
         over \<leftarrow> Interval_Overlaps lhs rhs;
         if over then Some False
         else do {
           one \<leftarrow> UBits 1 n;
           s \<leftarrow> bits_ops_Add L (upper_bound lhs) one;
           UEqual s (lower_bound rhs) } } } }"

definition Interval_ConvexHull :: "interval \<Rightarrow> interval \<Rightarrow> interval option" where
  "Interval_ConvexHull lhs rhs = do {
     check_proper_pair lhs rhs;
     n \<leftarrow> Interval_BitCount lhs;
     if n = 0 then do { z \<leftarrow> Bits_new 0; Interval_new z z }
     else do {
       let result = lhs;
       l \<leftarrow> ULessThan (lower_bound rhs) (lower_bound result);
       let result = (if l then result\<lparr>lower_bound := lower_bound rhs\<rparr> else result);
       g \<leftarrow> UGreaterThan (upper_bound rhs) (upper_bound result);
       Some (if g then result\<lparr>upper_bound := upper_bound rhs\<rparr> else result) } }"

definition Interval_Intersect :: "interval \<Rightarrow> interval \<Rightarrow> interval option option" where
  "Interval_Intersect lhs rhs = do {
     check_proper_pair lhs rhs;
     over \<leftarrow> Interval_Overlaps lhs rhs;
     if \<not> over then Some None
     else do {
       g \<leftarrow> UGreaterThan (lower_bound rhs) (lower_bound lhs);
       let lower = (if g then lower_bound rhs else lower_bound lhs);
       l \<leftarrow> ULessThan (upper_bound rhs) (upper_bound lhs);
       let upper = (if l then upper_bound rhs else upper_bound lhs);
       iv \<leftarrow> Interval_new lower upper;
       Some (Some iv) } }"

definition Interval_Difference ::
  "('n, 'z) bignum_lib_scheme \<Rightarrow> interval \<Rightarrow> interval \<Rightarrow> interval list option" where
  "Interval_Difference L lhs rhs = do {
     check_proper_pair lhs rhs;
     over \<leftarrow> Interval_Overlaps lhs rhs;
     if \<not> over then Some [lhs]
     else do {
       l \<leftarrow> ULessThan (lower_bound lhs) (lower_bound rhs);
       result \<leftarrow> (if l then do {
           n \<leftarrow> Interval_BitCount rhs;
           one \<leftarrow> UBits 1 n;
           u \<leftarrow> bits_ops_Sub L (lower_bound rhs) one;
           iv \<leftarrow> Interval_new (lower_bound lhs) u;
           Some [iv] }
         else Some []);
       g \<leftarrow> ULessThan (upper_bound rhs) (upper_bound lhs);
       if g then do {
         n \<leftarrow> Interval_BitCount rhs;
         one \<leftarrow> UBits 1 n;
         l' \<leftarrow> bits_ops_Add L (upper_bound rhs) one;
         iv \<leftarrow> Interval_new l' (upper_bound lhs);
         Some (result @ [iv]) }
       else Some result } }"

definition Interval_Complement :: "('n, 'z) bignum_lib_scheme \<Rightarrow> interval \<Rightarrow> interval list option" where
  "Interval_Complement L iv = do {
     n \<leftarrow> Interval_BitCount iv;
     m \<leftarrow> Interval_Maximal n;
     Interval_Difference L m iv }"

definition IsSubsetOf :: "interval \<Rightarrow> interval \<Rightarrow> bool option" where
  "IsSubsetOf lhs rhs = do {
     check_proper_pair lhs rhs;
     l \<leftarrow> ULessThanOrEqual (lower_bound rhs) (lower_bound lhs);
     if l then UGreaterThanOrEqual (upper_bound rhs) (upper_bound lhs) else Some False }"

text \<open>
  \<open>ForEachElement\<close> takes a callback with state; it returns whether the callback stopped the walk,
  and the callback's state. Both loops are \<open>while (true)\<close>.
\<close>

partial_function (option) ForEachElement_loop ::
  "('n, 'z) bignum_lib_scheme \<Rightarrow> (bits \<Rightarrow> 's \<Rightarrow> bool \<times> 's) \<Rightarrow> bits \<Rightarrow> bits \<Rightarrow> bits \<Rightarrow> 's \<Rightarrow> (bool \<times> 's) option" where
  "ForEachElement_loop L callback stop_at one v s =
     (let r = callback v s in
      if fst r then Some (True, snd r)
      else do {
        e \<leftarrow> UEqual v stop_at;
        if e then Some (False, snd r)
        else do {
          v' \<leftarrow> bits_ops_Add L v one;
          ForEachElement_loop L callback stop_at one v' (snd r) } })"

definition Interval_ForEachElement ::
  "('n, 'z) bignum_lib_scheme \<Rightarrow> (bits \<Rightarrow> 's \<Rightarrow> bool \<times> 's) \<Rightarrow> interval \<Rightarrow> 's \<Rightarrow> (bool \<times> 's) option" where
  "Interval_ForEachElement L callback iv s = do {
     EnsureValid iv;
     e \<leftarrow> UEqual (lower_bound iv) (upper_bound iv);
     if e then Some (callback (lower_bound iv) s)
     else do {
       n \<leftarrow> Interval_BitCount iv;
       zero \<leftarrow> UBits 0 n;
       one \<leftarrow> UBits 1 n;
       max \<leftarrow> Bits_AllOnes n;
       g \<leftarrow> UGreaterThan (lower_bound iv) (upper_bound iv);
       if g then do {
         r \<leftarrow> ForEachElement_loop L callback max one (lower_bound iv) s;
         if fst r then Some r
         else ForEachElement_loop L callback (upper_bound iv) one zero (snd r) }
       else ForEachElement_loop L callback (upper_bound iv) one (lower_bound iv) s } }"

definition Interval_Elements :: "('n, 'z) bignum_lib_scheme \<Rightarrow> interval \<Rightarrow> bits list option" where
  "Interval_Elements L iv = do {
     r \<leftarrow> Interval_ForEachElement L (\<lambda>v result. (False, result @ [v])) iv [];
     Some (snd r) }"

text \<open>The size of a proper interval, and of a wrapped one as the sum of its two parts (one level of recursion).\<close>

definition SizeBits_proper :: "('n, 'z) bignum_lib_scheme \<Rightarrow> interval \<Rightarrow> bits option" where
  "SizeBits_proper L iv = do {
     n \<leftarrow> Interval_BitCount iv;
     let padded_size = n + 1;
     difference \<leftarrow> bits_ops_Sub L (upper_bound iv) (lower_bound iv);
     one \<leftarrow> UBits 1 padded_size;
     d \<leftarrow> ZeroExtend difference padded_size;
     bits_ops_Add L one d }"

partial_function (option) SizeBits :: "('n, 'z) bignum_lib_scheme \<Rightarrow> interval \<Rightarrow> bits option" where
  "SizeBits L iv = do {
     EnsureValid iv;
     g \<leftarrow> UGreaterThan (lower_bound iv) (upper_bound iv);
     if g then do {
       n \<leftarrow> Interval_BitCount iv;
       zero \<leftarrow> UBits 0 n;
       max \<leftarrow> Bits_AllOnes n;
       i1 \<leftarrow> Interval_new (lower_bound iv) max;
       x \<leftarrow> SizeBits L i1;
       i2 \<leftarrow> Interval_new zero (upper_bound iv);
       y \<leftarrow> SizeBits L i2;
       bits_ops_Add L x y }
     else SizeBits_proper L iv }"

text \<open>\<open>Size\<close> returns an \<open>int64_t\<close> or nothing.\<close>

definition Interval_Size :: "('n, 'z) bignum_lib_scheme \<Rightarrow> interval \<Rightarrow> u64 option option" where
  "Interval_Size L iv = do {
     b \<leftarrow> SizeBits L iv;
     size_status \<leftarrow> Bits_ToUint64 b;
     Some (case size_status of
         Inr sz \<Rightarrow> if unat sz > 2 ^ 63 - 1 then None else Some sz
       | Inl _ \<Rightarrow> None) }"

definition Interval_IsPrecise :: "interval \<Rightarrow> bool option" where
  "Interval_IsPrecise iv = do {
     EnsureValid iv;
     n \<leftarrow> Interval_BitCount iv;
     if n = 0 then Some True else Bits_eq (lower_bound iv) (upper_bound iv) }"

definition Interval_GetPreciseValue :: "interval \<Rightarrow> bits option option" where
  "Interval_GetPreciseValue iv = do {
     p \<leftarrow> Interval_IsPrecise iv;
     Some (if \<not> p then None else Some (lower_bound iv)) }"

definition Interval_IsMaximal :: "('n, 'z) bignum_lib_scheme \<Rightarrow> interval \<Rightarrow> bool option" where
  "Interval_IsMaximal L iv = do {
     EnsureValid iv;
     n \<leftarrow> Interval_BitCount iv;
     if n = 0 then Some True
     else do {
       one \<leftarrow> UBits 1 n;
       upper_plus_one \<leftarrow> bits_ops_Add L (upper_bound iv) one;
       UEqual upper_plus_one (lower_bound iv) } }"

definition IsTrueWhenAndWith :: "interval \<Rightarrow> bits \<Rightarrow> bool option" where
  "IsTrueWhenAndWith iv v = do {
     n \<leftarrow> Interval_BitCount iv;
     check (bit_count v = n);
     lz \<leftarrow> Bits_CountTrailingZeros (lower_bound iv);
     uz \<leftarrow> Bits_CountTrailingZeros (upper_bound iv);
     let right_index = min lz uz;
     hz \<leftarrow> Bits_CountLeadingZeros (upper_bound iv);
     let left_index = n - hz;
     m \<leftarrow> Bits_new n;
     interval_mask_value \<leftarrow> Bits_SetRange m right_index left_index True;
     a \<leftarrow> bits_ops_And interval_mask_value v;
     z \<leftarrow> Bits_IsZero a;
     Some (\<not> z) }"

definition Interval_Covers :: "interval \<Rightarrow> bits \<Rightarrow> bool option" where
  "Interval_Covers iv point = do {
     EnsureValid iv;
     n \<leftarrow> Interval_BitCount iv;
     check (n = bit_count point);
     if n = 0 then Some True
     else do {
       improper \<leftarrow> IsImproper iv;
       l \<leftarrow> ULessThanOrEqual (lower_bound iv) point;
       u \<leftarrow> ULessThanOrEqual point (upper_bound iv);
       Some (if improper then l \<or> u else l \<and> u) } }"

definition Interval_CoversZero :: "interval \<Rightarrow> bool option" where
  "Interval_CoversZero iv = do { n \<leftarrow> Interval_BitCount iv; z \<leftarrow> UBits 0 n; Interval_Covers iv z }"

definition Interval_CoversOne :: "interval \<Rightarrow> bool option" where
  "Interval_CoversOne iv = do {
     n \<leftarrow> Interval_BitCount iv;
     if n > 0 then do { o' \<leftarrow> UBits 1 n; Interval_Covers iv o' } else Some False }"

definition Interval_CoversMax :: "interval \<Rightarrow> bool option" where
  "Interval_CoversMax iv = do { n \<leftarrow> Interval_BitCount iv; m \<leftarrow> Bits_AllOnes n; Interval_Covers iv m }"

section \<open>The numbers of an interval\<close>

definition mk_iv :: "nat \<Rightarrow> nat \<Rightarrow> nat \<Rightarrow> interval" where
  "mk_iv n a b = \<lparr>is_valid = True, lower_bound = mk_bits n a, upper_bound = mk_bits n b\<rparr>"

definition wf_iv :: "nat \<Rightarrow> interval \<Rightarrow> bool" where
  "wf_iv n iv \<longleftrightarrow> is_valid iv \<and> bm_inv (lower_bound iv) \<and> bm_inv (upper_bound iv) \<and>
     bit_count (lower_bound iv) = n \<and> bit_count (upper_bound iv) = n"

definition lo :: "interval \<Rightarrow> nat" where
  "lo iv = uval (lower_bound iv)"

definition hi :: "interval \<Rightarrow> nat" where
  "hi iv = uval (upper_bound iv)"

definition iv_points :: "nat \<Rightarrow> interval \<Rightarrow> nat set" where
  "iv_points n iv = {x. x < 2 ^ n \<and> (if lo iv \<le> hi iv then lo iv \<le> x \<and> x \<le> hi iv else lo iv \<le> x \<or> x \<le> hi iv)}"

text \<open>Well-formed intervals that do not wrap.\<close>

definition proper :: "nat \<Rightarrow> interval \<Rightarrow> bool" where
  "proper n iv \<longleftrightarrow> wf_iv n iv \<and> lo iv \<le> hi iv"

section \<open>Every operation on the canonical form\<close>

lemma take_bit_less [simp]: "a < 2 ^ n \<Longrightarrow> take_bit n a = (a::nat)"
  by (simp add: take_bit_nat_eq_self_iff)

lemma mask_less [simp]: "(mask n :: nat) < 2 ^ n"
  by (simp add: mask_eq_exp_minus_1)

lemma wf_iv_bounds: "wf_iv n iv \<Longrightarrow> lo iv < 2 ^ n \<and> hi iv < 2 ^ n"
  by (auto simp: wf_iv_def lo_def hi_def bm_inv_def)

lemma wf_iv_eq: "wf_iv n iv \<Longrightarrow> iv = mk_iv n (lo iv) (hi iv)"
  using bm_inv_eq_mk_bits[of "lower_bound iv"] bm_inv_eq_mk_bits[of "upper_bound iv"]
  by (cases iv) (simp add: wf_iv_def mk_iv_def lo_def hi_def)

lemma mk_iv_fields [simp]:
  "is_valid (mk_iv n a b)" "lower_bound (mk_iv n a b) = mk_bits n a" "upper_bound (mk_iv n a b) = mk_bits n b"
  "a < 2 ^ n \<Longrightarrow> lo (mk_iv n a b) = a" "b < 2 ^ n \<Longrightarrow> hi (mk_iv n a b) = b" "wf_iv n (mk_iv n a b)"
  by (simp_all add: mk_iv_def lo_def hi_def wf_iv_def take_bit_nat_eq_self_iff)

text \<open>Every well-formed interval is canonical, with bounds below the power of two.\<close>

lemma wf_iv_cases:
  assumes "wf_iv n iv"
  obtains a b where "iv = mk_iv n a b" "a < 2 ^ n" "b < 2 ^ n" "lo iv = a" "hi iv = b"
  using wf_iv_eq[OF assms] wf_iv_bounds[OF assms] by blast

lemma proper_cases:
  assumes "proper n iv"
  obtains a b where "iv = mk_iv n a b" "a \<le> b" "b < 2 ^ n" "lo iv = a" "hi iv = b"
  using wf_iv_eq[of n iv] wf_iv_bounds[of n iv] assms unfolding proper_def by blast

lemma proper_mk_iv [simp]: "a \<le> b \<Longrightarrow> b < 2 ^ n \<Longrightarrow> proper n (mk_iv n a b)"
  by (simp add: proper_def)

lemma iv_points_mk_iv:
  "a < 2 ^ n \<Longrightarrow> b < 2 ^ n \<Longrightarrow>
     iv_points n (mk_iv n a b) = {x. x < 2 ^ n \<and> (if a \<le> b then a \<le> x \<and> x \<le> b else a \<le> x \<or> x \<le> b)}"
  by (simp add: iv_points_def)

lemma iv_points_proper [simp]: "a \<le> b \<Longrightarrow> b < 2 ^ n \<Longrightarrow> iv_points n (mk_iv n a b) = {a..b}"
  by (auto simp: iv_points_mk_iv)

lemma iv_points_of_proper: "proper n iv \<Longrightarrow> iv_points n iv = {lo iv..hi iv}"
  using proper_cases[of n iv] by (metis iv_points_proper)

lemma Interval_new_eq [simp]:
  "Interval_new (mk_bits n a) (mk_bits m b) = (if n = m then Some (mk_iv n a b) else None)"
  by (simp add: Interval_new_def mk_iv_def)

lemma EnsureValid_eq [simp]: "EnsureValid (mk_iv n a b) = Some ()"
  by (simp add: EnsureValid_def check_def)

lemma Interval_BitCount_eq [simp]: "Interval_BitCount (mk_iv n a b) = Some n"
  by (simp add: Interval_BitCount_def)

lemma Interval_less_eq:
  assumes "a < 2 ^ n" "b < 2 ^ n" "c < 2 ^ m" "d < 2 ^ m"
  shows "Interval_less (mk_iv n a b) (mk_iv m c d) = Some (a < c \<or> a = c \<and> b < d)"
  using assms by (auto simp: Interval_less_def)

lemma Interval_eq_eq:
  assumes "a < 2 ^ n" "b < 2 ^ n" "c < 2 ^ m" "d < 2 ^ m"
  shows "Interval_eq (mk_iv n a b) (mk_iv m c d) = Some (a = c \<and> b = d)"
  using assms by (auto simp: Interval_eq_def)

lemma Interval_Maximal_eq [simp]: "Interval_Maximal n = Some (mk_iv n 0 (mask n))"
  by (simp add: Interval_Maximal_def)

lemma Interval_Precise_eq [simp]: "Interval_Precise (mk_bits n a) = Some (mk_iv n a a)"
  by (simp add: Interval_Precise_def)

lemma Interval_ZeroExtend_eq:
  "a < 2 ^ n \<Longrightarrow> b < 2 ^ n \<Longrightarrow> Interval_ZeroExtend (mk_iv n a b) m = (if n \<le> m then Some (mk_iv m a b) else None)"
  by (simp add: Interval_ZeroExtend_def)

lemma IsImproper_eq: "a < 2 ^ n \<Longrightarrow> b < 2 ^ n \<Longrightarrow> IsImproper (mk_iv n a b) = Some (b < a)"
  by (auto simp: IsImproper_def)

lemma check_proper_pair_eq:
  assumes "a < 2 ^ n" "b < 2 ^ n" "c < 2 ^ m" "d < 2 ^ m"
  shows "check_proper_pair (mk_iv n a b) (mk_iv m c d) = (if n = m \<and> a \<le> b \<and> c \<le> d then Some () else None)"
  using assms by (auto simp: check_proper_pair_def IsImproper_eq check_def)

text \<open>The operations on two proper intervals, and their abort on anything else.\<close>

lemma Interval_Overlaps_eq:
  assumes "a \<le> b" "b < 2 ^ n" "c \<le> d" "d < 2 ^ n"
  shows "Interval_Overlaps (mk_iv n a b) (mk_iv n c d) = Some (a \<le> d \<and> c \<le> b)"
proof -
  have p: "a < 2 ^ n" "c < 2 ^ n" using assms by linarith+
  have ordered: "Interval_Overlaps (mk_iv n a b) (mk_iv n c d) = Some (c \<le> b)"
    if "a \<le> b" "b < 2 ^ n" "c \<le> d" "d < 2 ^ n" "\<not> (c < a \<or> c = a \<and> d < b)" for a b c d
  proof -
    have "a < 2 ^ n" "c < 2 ^ n" using that by linarith+
    then show ?thesis using that by (subst Interval_Overlaps.simps)
      (auto simp: check_proper_pair_eq Interval_less_eq)
  qed
  show ?thesis
  proof (cases "c < a \<or> c = a \<and> d < b")
    case True
    have "Interval_Overlaps (mk_iv n c d) (mk_iv n a b) = Some (a \<le> d)"
      using ordered[of c d a b] assms True by auto
    then have "Interval_Overlaps (mk_iv n a b) (mk_iv n c d) = (if n = 0 then Some True else Some (a \<le> d))"
      using assms p True by (subst Interval_Overlaps.simps) (auto simp: check_proper_pair_eq Interval_less_eq)
    then show ?thesis using assms True by auto
  next
    case False
    then show ?thesis using ordered[of a b c d] assms by auto
  qed
qed

lemma Interval_Abuts_eq:
  assumes ok: "bignum_ok L val" and "a \<le> b" "b < 2 ^ n" "c \<le> d" "d < 2 ^ n"
  shows "Interval_Abuts L (mk_iv n a b) (mk_iv n c d) = Some (b + 1 = c \<or> d + 1 = a)"
proof -
  have p: "a < 2 ^ n" "c < 2 ^ n" using assms by linarith+
  have ordered: "Interval_Abuts L (mk_iv n a b) (mk_iv n c d) = Some (b + 1 = c)"
    if "a \<le> b" "b < 2 ^ n" "c \<le> d" "d < 2 ^ n" "\<not> (c < a \<or> c = a \<and> d < b)" for a b c d
  proof -
    have q: "a < 2 ^ n" "c < 2 ^ n" using that by linarith+
    have "b < c \<Longrightarrow> b + 1 < 2 ^ n" using q by simp
    then show ?thesis using that q by (subst Interval_Abuts.simps)
      (auto simp: check_proper_pair_eq Interval_less_eq Interval_Overlaps_eq bits_ops_Add_eq[OF ok])
  qed
  show ?thesis
  proof (cases "c < a \<or> c = a \<and> d < b")
    case True
    have "Interval_Abuts L (mk_iv n c d) (mk_iv n a b) = Some (d + 1 = a)"
      using ordered[of c d a b] assms True by auto
    then have "Interval_Abuts L (mk_iv n a b) (mk_iv n c d) = (if n = 0 then Some False else Some (d + 1 = a))"
      using assms p True by (subst Interval_Abuts.simps) (auto simp: check_proper_pair_eq Interval_less_eq)
    then show ?thesis using assms True by auto
  next
    case False
    then show ?thesis using ordered[of a b c d] assms by auto
  qed
qed

lemma mk_iv_update [simp]:
  "(mk_iv n a b)\<lparr>lower_bound := mk_bits n c\<rparr> = mk_iv n c b" "(mk_iv n a b)\<lparr>upper_bound := mk_bits n c\<rparr> = mk_iv n a c"
  by (simp_all add: mk_iv_def)

lemma Interval_ConvexHull_eq:
  assumes "a \<le> b" "b < 2 ^ n" "c \<le> d" "d < 2 ^ n"
  shows "Interval_ConvexHull (mk_iv n a b) (mk_iv n c d) = Some (mk_iv n (min a c) (max b d))"
proof -
  have "a < 2 ^ n" "c < 2 ^ n" using assms by linarith+
  then show ?thesis using assms
    by (cases "n = 0"; cases "c < a"; cases "b < d")
      (simp_all add: Interval_ConvexHull_def check_proper_pair_eq min_def max_def Let_def)
qed

lemma Interval_Intersect_eq:
  assumes "a \<le> b" "b < 2 ^ n" "c \<le> d" "d < 2 ^ n"
  shows "Interval_Intersect (mk_iv n a b) (mk_iv n c d) =
    Some (if a \<le> d \<and> c \<le> b then Some (mk_iv n (max a c) (min b d)) else None)"
proof -
  have "a < 2 ^ n" "c < 2 ^ n" using assms by linarith+
  then show ?thesis using assms
    by (auto simp: Interval_Intersect_def check_proper_pair_eq Interval_Overlaps_eq min_def max_def Let_def)
qed

lemma Interval_Difference_eq:
  assumes ok: "bignum_ok L val" and "a \<le> b" "b < 2 ^ n" "c \<le> d" "d < 2 ^ n"
  shows "Interval_Difference L (mk_iv n a b) (mk_iv n c d) =
    Some (if a \<le> d \<and> c \<le> b
          then (if a < c then [mk_iv n a (c - 1)] else []) @ (if d < b then [mk_iv n (d + 1) b] else [])
          else [mk_iv n a b])"
proof -
  have p: "a < 2 ^ n" "c < 2 ^ n" using assms by linarith+
  have s: "mk_int n (int c - 1) = mk_bits n (c - 1)" if "a < c"
    using that mk_int_of_nat[of n "c - 1"] by (simp add: of_nat_diff)
  have n: "a < c \<or> d < b \<Longrightarrow> 0 < n" using assms p by (cases n) auto
  show ?thesis
  proof (cases "a \<le> d \<and> c \<le> b")
    case True
    show ?thesis using assms p s n True
      by (cases "a < c"; cases "d < b")
        (simp_all add: Interval_Difference_def check_proper_pair_eq Interval_Overlaps_eq
          bits_ops_Sub_eq[OF ok] bits_ops_Add_eq[OF ok])
  qed (use assms p in \<open>auto simp: Interval_Difference_def check_proper_pair_eq Interval_Overlaps_eq\<close>)
qed

lemma Interval_Complement_eq:
  assumes "bignum_ok L val" "c \<le> d" "d < 2 ^ n"
  shows "Interval_Complement L (mk_iv n c d) =
    Some ((if 0 < c then [mk_iv n 0 (c - 1)] else []) @ (if d < mask n then [mk_iv n (d + 1) (mask n)] else []))"
proof -
  have "d \<le> mask n" using assms(3) by (simp add: mask_eq_exp_minus_1)
  then have "c \<le> mask n" using assms(2) by linarith
  then show ?thesis
    using Interval_Difference_eq[OF assms(1), of 0 "mask n" n c d] assms(2,3) by (simp add: Interval_Complement_def)
qed

lemma IsSubsetOf_eq:
  assumes "a \<le> b" "b < 2 ^ n" "c \<le> d" "d < 2 ^ n"
  shows "IsSubsetOf (mk_iv n a b) (mk_iv n c d) = Some (c \<le> a \<and> b \<le> d)"
proof -
  have "a < 2 ^ n" "c < 2 ^ n" using assms by linarith+
  then show ?thesis using assms by (auto simp: IsSubsetOf_def check_proper_pair_eq)
qed

lemma Interval_Covers_eq:
  assumes "a < 2 ^ n" "b < 2 ^ n" "x < 2 ^ m"
  shows "Interval_Covers (mk_iv n a b) (mk_bits m x) = (if n = m then Some (x \<in> iv_points n (mk_iv n a b)) else None)"
  using assms by (auto simp: Interval_Covers_def IsImproper_eq iv_points_mk_iv)

lemma Interval_CoversZero_eq:
  "a < 2 ^ n \<Longrightarrow> b < 2 ^ n \<Longrightarrow> Interval_CoversZero (mk_iv n a b) = Some (0 \<in> iv_points n (mk_iv n a b))"
  by (simp add: Interval_CoversZero_def Interval_Covers_eq)

lemma Interval_CoversOne_eq:
  "a < 2 ^ n \<Longrightarrow> b < 2 ^ n \<Longrightarrow> Interval_CoversOne (mk_iv n a b) = Some (1 \<in> iv_points n (mk_iv n a b))"
  using one_less_power[of "2::nat" n]
  by (cases "n = 0") (auto simp: Interval_CoversOne_def Interval_Covers_eq iv_points_mk_iv)

lemma Interval_CoversMax_eq:
  "a < 2 ^ n \<Longrightarrow> b < 2 ^ n \<Longrightarrow> Interval_CoversMax (mk_iv n a b) = Some (mask n \<in> iv_points n (mk_iv n a b))"
  by (simp add: Interval_CoversMax_def Interval_Covers_eq)

lemma Interval_IsPrecise_eq:
  "a < 2 ^ n \<Longrightarrow> b < 2 ^ n \<Longrightarrow> Interval_IsPrecise (mk_iv n a b) = Some (a = b)"
  by (cases n) (auto simp: Interval_IsPrecise_def mk_bits_eq_iff)

lemma Interval_GetPreciseValue_eq:
  "a < 2 ^ n \<Longrightarrow> b < 2 ^ n \<Longrightarrow>
     Interval_GetPreciseValue (mk_iv n a b) = Some (if a = b then Some (mk_bits n a) else None)"
  by (auto simp: Interval_GetPreciseValue_def Interval_IsPrecise_eq)

text \<open>The count of the points, also of a wrapped interval.\<close>

lemma SizeBits_proper_eq:
  assumes ok: "bignum_ok L val" and "a \<le> b" "b < 2 ^ n"
  shows "SizeBits L (mk_iv n a b) = Some (mk_bits (n + 1) (b - a + 1))"
proof -
  have "a < 2 ^ n" "b - a < 2 ^ n" using assms by linarith+
  moreover have "mk_int n (int b - int a) = mk_bits n (b - a)"
    using mk_int_of_nat[of n "b - a"] assms(2) by (simp add: of_nat_diff)
  ultimately show ?thesis using assms
    by (subst SizeBits.simps) (simp add: SizeBits_proper_def bits_ops_Sub_eq[OF ok] bits_ops_Add_eq[OF ok])
qed

lemma card_iv_points:
  assumes "a < 2 ^ n" "b < 2 ^ n"
  shows "card (iv_points n (mk_iv n a b)) = (if a \<le> b then b - a + 1 else (2 ^ n - a) + (b + 1))"
proof (cases "a \<le> b")
  case False
  then have "iv_points n (mk_iv n a b) = {a..<2 ^ n} \<union> {0..<b + 1}" using assms by (auto simp: iv_points_mk_iv)
  then show ?thesis using False assms by (simp add: card_Un_disjoint)
qed (use assms in simp)

lemma SizeBits_eq:
  assumes ok: "bignum_ok L val" and "a < 2 ^ n" "b < 2 ^ n"
  shows "SizeBits L (mk_iv n a b) = Some (mk_bits (n + 1) (card (iv_points n (mk_iv n a b))))"
proof (cases "a \<le> b")
  case True
  then show ?thesis using SizeBits_proper_eq[OF ok True assms(3)] by (simp only: card_iv_points[OF assms(2,3)] if_True)
next
  case False
  have "a \<le> mask n" "mask n - a + 1 = 2 ^ n - a" using assms(2) by (simp_all add: mask_eq_exp_minus_1)
  then show ?thesis using False assms(2,3) SizeBits_proper_eq[OF ok, of a "mask n" n] SizeBits_proper_eq[OF ok, of 0 b n]
    by (subst SizeBits.simps) (simp add: bits_ops_Add_eq[OF ok] card_iv_points)
qed

lemma Interval_Size_eq:
  assumes ok: "bignum_ok L val" and "a < 2 ^ n" "b < 2 ^ n"
  defines "c \<equiv> card (iv_points n (mk_iv n a b))"
  shows "Interval_Size L (mk_iv n a b) = Some (if c < 2 ^ 63 then Some (word_of_nat c) else None)"
proof -
  have "c < 2 ^ (n + 1)" using assms(2,3) unfolding c_def card_iv_points[OF assms(2,3)] by (simp split: if_splits) linarith
  then have "take_bit (n + 1) c = c" by simp
  then have "Interval_Size L (mk_iv n a b) = Some (if c < 2 ^ 64 then
      (if unat (word_of_nat c :: u64) > 2 ^ 63 - 1 then None else Some (word_of_nat c)) else None)"
    using SizeBits_eq[OF ok assms(2,3), folded c_def] unfolding Interval_Size_def Bits_ToUint64_eq by (simp add: Bits_ToUint64_eq)
  then show ?thesis using unat_word_of_nat_64[of c] by auto
qed

lemma Interval_IsMaximal_eq:
  assumes ok: "bignum_ok L val" and "a < 2 ^ n" "b < 2 ^ n"
  shows "Interval_IsMaximal L (mk_iv n a b) = Some (iv_points n (mk_iv n a b) = {..<2 ^ n})"
proof (cases "n = 0")
  case True
  then show ?thesis using assms by (auto simp: Interval_IsMaximal_def iv_points_mk_iv)
next
  case False
  have fin: "iv_points n (mk_iv n a b) \<subseteq> {..<2 ^ n}" by (auto simp: iv_points_def)
  have "iv_points n (mk_iv n a b) = {..<2 ^ n} \<longleftrightarrow> card (iv_points n (mk_iv n a b)) = 2 ^ n"
  proof
    assume "card (iv_points n (mk_iv n a b)) = 2 ^ n"
    then show "iv_points n (mk_iv n a b) = {..<2 ^ n}" by (intro card_subset_eq[OF _ fin]) simp_all
  qed simp
  also have "\<dots> \<longleftrightarrow> (b + 1) mod 2 ^ n = a"
  proof (cases "b + 1 = 2 ^ n")
    case True
    then have "(b + 1) mod 2 ^ n = 0" by simp
    then show ?thesis unfolding card_iv_points[OF assms(2,3)] using True assms(2,3) by (simp only: split: if_splits) linarith
  next
    case False
    then have "(b + 1) mod 2 ^ n = b + 1" using assms(3) by simp
    then show ?thesis unfolding card_iv_points[OF assms(2,3)] using False assms(2,3) by (simp only: split: if_splits) linarith
  qed
  finally have "iv_points n (mk_iv n a b) = {..<2 ^ n} \<longleftrightarrow> (b + 1) mod 2 ^ n = a" .
  moreover have "(1::nat) < 2 ^ n" using False one_less_power[of "2::nat" n] by simp
  then have "Interval_IsMaximal L (mk_iv n a b) = Some (take_bit n (b + 1) = a)"
    using False assms(2) by (simp add: Interval_IsMaximal_def bits_ops_Add_eq[OF ok])
  ultimately show ?thesis by (simp only: take_bit_eq_mod)
qed

text \<open>The walk over the points: ascending from the lower bound, around the end when it wraps.\<close>

definition iv_walk :: "nat \<Rightarrow> nat \<Rightarrow> nat \<Rightarrow> nat list" where
  "iv_walk n a b = (if a \<le> b then [a..<Suc b] else [a..<2 ^ n] @ [0..<Suc b])"

lemma set_iv_walk: "a < 2 ^ n \<Longrightarrow> b < 2 ^ n \<Longrightarrow> set (iv_walk n a b) = iv_points n (mk_iv n a b) \<and> distinct (iv_walk n a b)"
  by (auto simp: iv_walk_def iv_points_mk_iv)

lemma ForEachElement_loop_eq:
  assumes ok: "bignum_ok L val" and "a \<le> b" "b < 2 ^ n" "0 < n"
  shows "ForEachElement_loop L f (mk_bits n b) (mk_bits n 1) (mk_bits n a) s
     = Some (visit_until f (map (mk_bits n) [a..<Suc b]) s)"
  using assms(2)
proof (induction "b - a" arbitrary: a s)
  case 0
  then show ?case by (subst ForEachElement_loop.simps) (simp add: Let_def split: prod.splits)
next
  case (Suc k)
  then have a: "a < b" "[a..<Suc b] = a # [Suc a..<Suc b]" by (simp_all add: upt_conv_Cons)
  show ?case
    using Suc.hyps(1)[of "Suc a" "snd (f (mk_bits n a) s)"] Suc.hyps(2) a assms(3)
    by (subst ForEachElement_loop.simps)
      (simp add: Let_def bits_ops_Add_eq[OF ok] split: prod.splits del: upt_Suc)
qed

lemma visit_until_append:
  "visit_until f (xs @ ys) s = (let r = visit_until f xs s in if fst r then r else visit_until f ys (snd r))"
  by (induction xs arbitrary: s) (auto split: prod.splits simp: Let_def)

lemma Interval_ForEachElement_eq:
  assumes ok: "bignum_ok L val" and "a < 2 ^ n" "b < 2 ^ n"
  shows "Interval_ForEachElement L f (mk_iv n a b) s = Some (visit_until f (map (mk_bits n) (iv_walk n a b)) s)"
proof (cases "a = b")
  case True
  then show ?thesis using assms
    by (cases "f (mk_bits n b) s") (auto simp: Interval_ForEachElement_def iv_walk_def)
next
  case False
  then have n: "0 < n" "(1::nat) < 2 ^ n" using assms by (cases n; auto)+
  have m: "mask n < (2::nat) ^ n" "Suc (mask n) = 2 ^ n" "a \<le> mask n" using assms(2) by (auto simp: mask_eq_exp_minus_1)
  show ?thesis
    using False assms(2,3) n m(3) ForEachElement_loop_eq[OF ok _ assms(3) n(1), of a f s]
      ForEachElement_loop_eq[OF ok m(3) m(1) n(1), of f s, unfolded m(2)]
      ForEachElement_loop_eq[OF ok _ assms(3) n(1), of 0 f]
    by (auto simp: Interval_ForEachElement_def iv_walk_def visit_until_append Let_def simp del: upt_Suc)
qed

lemma Interval_Elements_eq:
  assumes ok: "bignum_ok L val" and "a < 2 ^ n" "b < 2 ^ n"
  shows "Interval_Elements L (mk_iv n a b) = Some (map (mk_bits n) (iv_walk n a b))"
proof -
  have "visit_until (\<lambda>v r. (False, r @ [v])) xs acc = (False, acc @ xs)" for xs acc :: "bits list"
    by (induction xs arbitrary: acc) auto
  then show ?thesis by (simp add: Interval_Elements_def Interval_ForEachElement_eq[OF assms])
qed

end
