(* ===== verification/SetAlgebra.thy ===== *)
theory SetAlgebra
  imports XlsPrelude
begin

text \<open>
  The interface of a canonical representation of sets of numbers below a bound: what its clients
  rely on of the union, the intersection and the complement. The operations may abort; a provider
  promises that they do not on represented sets, that the result is represented again and what it
  stands for. Since the representation is canonical, the laws of a Boolean algebra hold of the
  representations themselves, and not only of the sets.
\<close>

locale set_algebra =
  fixes inv :: "'a \<Rightarrow> bool"
    and pts :: "'a \<Rightarrow> nat set"
    and carrier :: "nat set"
    and join :: "'a \<Rightarrow> 'a \<Rightarrow> 'a option"
    and meet :: "'a \<Rightarrow> 'a \<Rightarrow> 'a option"
    and compl :: "'a \<Rightarrow> 'a option"
  assumes canonical: "inv a \<Longrightarrow> inv b \<Longrightarrow> pts a = pts b \<Longrightarrow> a = b"
    and pts_carrier: "inv a \<Longrightarrow> pts a \<subseteq> carrier"
    and join_ok: "inv a \<Longrightarrow> inv b \<Longrightarrow> \<exists>c. join a b = Some c \<and> inv c \<and> pts c = pts a \<union> pts b"
    and meet_ok: "inv a \<Longrightarrow> inv b \<Longrightarrow> \<exists>c. meet a b = Some c \<and> inv c \<and> pts c = pts a \<inter> pts b"
    and compl_ok: "inv a \<Longrightarrow> \<exists>c. compl a = Some c \<and> inv c \<and> pts c = carrier - pts a"
begin

text \<open>A value of the option type that stands for a given set.\<close>

definition stands_for :: "'a option \<Rightarrow> nat set \<Rightarrow> bool" where
  "stands_for r X \<longleftrightarrow> (\<exists>c. r = Some c \<and> inv c \<and> pts c = X)"

lemma stands_for_unique: "stands_for r X \<Longrightarrow> stands_for s X \<Longrightarrow> r = s"
  using canonical by (fastforce simp: stands_for_def)

lemma stands_for_Some [intro]: "inv a \<Longrightarrow> stands_for (Some a) (pts a)"
  by (simp add: stands_for_def)

lemma stands_for_bind:
  "stands_for r X \<Longrightarrow> (\<And>c. inv c \<Longrightarrow> pts c = X \<Longrightarrow> stands_for (f c) Y) \<Longrightarrow> stands_for (r \<bind> f) Y"
  by (fastforce simp: stands_for_def)

lemma stands_for_ops:
  "inv a \<Longrightarrow> inv b \<Longrightarrow> stands_for (join a b) (pts a \<union> pts b)"
  "inv a \<Longrightarrow> inv b \<Longrightarrow> stands_for (meet a b) (pts a \<inter> pts b)"
  "inv a \<Longrightarrow> stands_for (compl a) (carrier - pts a)"
  using join_ok meet_ok compl_ok by (simp_all add: stands_for_def)

lemma stands_for_opsI:
  "inv a \<Longrightarrow> inv b \<Longrightarrow> X = pts a \<union> pts b \<Longrightarrow> stands_for (join a b) X"
  "inv a \<Longrightarrow> inv b \<Longrightarrow> X = pts a \<inter> pts b \<Longrightarrow> stands_for (meet a b) X"
  "inv a \<Longrightarrow> X = carrier - pts a \<Longrightarrow> stands_for (compl a) X"
  by (simp_all add: stands_for_ops)

lemma join_commute: "inv a \<Longrightarrow> inv b \<Longrightarrow> join a b = join b a"
  by (rule stands_for_unique[of _ "pts a \<union> pts b"]) (auto intro!: stands_for_opsI)

lemma meet_commute: "inv a \<Longrightarrow> inv b \<Longrightarrow> meet a b = meet b a"
  by (rule stands_for_unique[of _ "pts a \<inter> pts b"]) (auto intro!: stands_for_opsI)

lemma join_idem: "inv a \<Longrightarrow> join a a = Some a"
  by (rule stands_for_unique[of _ "pts a"]) (auto intro!: stands_for_opsI)

lemma double_compl: "inv a \<Longrightarrow> (compl a \<bind> compl) = Some a"
  by (rule stands_for_unique[of _ "pts a"])
    (use pts_carrier in \<open>auto intro!: stands_for_opsI intro: stands_for_bind[OF stands_for_ops(3)]\<close>)

lemma meet_de_morgan:
  assumes "inv a" "inv b"
  shows "(do { a' \<leftarrow> compl a; b' \<leftarrow> compl b; c \<leftarrow> join a' b'; compl c }) = meet a b"
proof (rule stands_for_unique[of _ "pts a \<inter> pts b"])
  show "stands_for (do { a' \<leftarrow> compl a; b' \<leftarrow> compl b; c \<leftarrow> join a' b'; compl c }) (pts a \<inter> pts b)"
    by (rule stands_for_bind[OF stands_for_ops(3)[OF assms(1)]], rule stands_for_bind[OF stands_for_ops(3)[OF assms(2)]],
        rule stands_for_bind[OF stands_for_ops(1)]) (use assms pts_carrier[OF assms(1)] in \<open>auto intro!: stands_for_opsI\<close>)
qed (rule stands_for_ops(2)[OF assms])

lemma absorb:
  assumes "inv a" "inv b"
  shows "(do { c \<leftarrow> meet a b; join a c }) = Some a"
proof (rule stands_for_unique[of _ "pts a"])
  show "stands_for (do { c \<leftarrow> meet a b; join a c }) (pts a)"
    by (rule stands_for_bind[OF stands_for_ops(2)[OF assms]]) (use assms in \<open>auto intro!: stands_for_opsI\<close>)
qed (use assms in auto)

end

end
