(* ===== verification/IntervalSet.thy ===== *)
theory IntervalSet
  imports Interval SetAlgebra
begin

text \<open>
  \<open>xls/ir/interval_set.h\<close> and \<open>interval_set.cc\<close>: finite unions of intervals of one width, with a
  normal form (proper, sorted, neither overlapping nor adjacent) that \<open>Normalize\<close> computes. The
  model follows the class; \<open>set_points\<close> is the set of numbers an interval set stands for, and the
  lemmas give every operation on it. Printing and the random generator for tests are not modelled.
\<close>

section \<open>The class\<close>

text \<open>A default-constructed set has bit count \<open>-1\<close>.\<close>

record interval_set =
  is_normalized :: bool
  set_bit_count :: int
  intervals :: "interval list"

definition IntervalSet_default :: interval_set where
  "IntervalSet_default = \<lparr>is_normalized = True, set_bit_count = - 1, intervals = []\<rparr>"

definition IntervalSet_new :: "nat \<Rightarrow> interval_set" where
  "IntervalSet_new n = \<lparr>is_normalized = True, set_bit_count = int n, intervals = []\<rparr>"

definition NumberOfIntervals :: "interval_set \<Rightarrow> nat" where
  "NumberOfIntervals S = length (intervals S)"

definition Intervals :: "interval_set \<Rightarrow> interval list option" where
  "Intervals S = do { check (is_normalized S); Some (intervals S) }"

definition IntervalSet_BitCount :: "interval_set \<Rightarrow> nat option" where
  "IntervalSet_BitCount S = do { check (set_bit_count S \<ge> 0); Some (nat (set_bit_count S)) }"

definition AddInterval :: "interval \<Rightarrow> interval_set \<Rightarrow> interval_set option" where
  "AddInterval iv S = do {
     let S = S\<lparr>is_normalized := False\<rparr>;
     n \<leftarrow> IntervalSet_BitCount S;
     m \<leftarrow> Interval_BitCount iv;
     check (n = m);
     Some (S\<lparr>intervals := intervals S @ [iv]\<rparr>) }"

definition SetIntervals :: "interval list \<Rightarrow> interval_set \<Rightarrow> interval_set option" where
  "SetIntervals ivs S = do {
     n \<leftarrow> (case ivs of [] \<Rightarrow> Some (- 1) | iv # _ \<Rightarrow> do { m \<leftarrow> Interval_BitCount iv; Some (int m) });
     for_state AddInterval ivs \<lparr>is_normalized = False, set_bit_count = n, intervals = []\<rparr> }"

text \<open>
  \<open>std::sort\<close> with the intervals' \<open>operator<\<close>. The order is total on intervals of one width, so
  the sorted sequence is unique and insertion sort computes it.
\<close>

fun insert_sorted :: "interval \<Rightarrow> interval list \<Rightarrow> interval list option" where
  "insert_sorted iv [] = Some [iv]"
| "insert_sorted iv (x # xs) = do {
     l \<leftarrow> Interval_less x iv;
     if l then do { ys \<leftarrow> insert_sorted iv xs; Some (x # ys) } else Some (iv # x # xs) }"

definition sort_intervals :: "interval list \<Rightarrow> interval list option" where
  "sort_intervals ivs = for_state insert_sorted ivs []"

definition expand_improper :: "interval list \<Rightarrow> bits \<Rightarrow> bits \<Rightarrow> interval list option" where
  "expand_improper ivs zero ones =
     for_state (\<lambda>iv acc. do {
         improper \<leftarrow> IsImproper iv;
         if improper then do {
           a \<leftarrow> Interval_new zero (upper_bound iv);
           b \<leftarrow> Interval_new (lower_bound iv) ones;
           Some (acc @ [a, b]) }
         else Some (acc @ [iv]) }) ivs []"

text \<open>The inner loop joins what overlaps or abuts; the outer one restarts at the first interval left over.\<close>

fun merge_inner ::
  "('n, 'z) bignum_lib_scheme \<Rightarrow> interval \<Rightarrow> interval list \<Rightarrow> (interval \<times> interval list) option" where
  "merge_inner L iv [] = Some (iv, [])"
| "merge_inner L iv (x # xs) = do {
     over \<leftarrow> Interval_Overlaps iv x;
     abut \<leftarrow> (if over then Some True else Interval_Abuts L iv x);
     if abut then do { iv' \<leftarrow> Interval_ConvexHull iv x; merge_inner L iv' xs }
     else Some (iv, x # xs) }"

partial_function (option) merge_outer ::
  "('n, 'z) bignum_lib_scheme \<Rightarrow> interval list \<Rightarrow> interval list \<Rightarrow> interval list option" where
  "merge_outer L ivs acc =
     (case ivs of [] \<Rightarrow> Some acc
      | iv # _ \<Rightarrow> do {
          r \<leftarrow> merge_inner L iv ivs;
          merge_outer L (snd r) (acc @ [fst r]) })"

definition IntervalSet_Normalize :: "('n, 'z) bignum_lib_scheme \<Rightarrow> interval_set \<Rightarrow> interval_set option" where
  "IntervalSet_Normalize L S = do {
     n \<leftarrow> IntervalSet_BitCount S;
     zero \<leftarrow> Bits_new n;
     max \<leftarrow> Bits_AllOnes n;
     e \<leftarrow> expand_improper (intervals S) zero max;
     e \<leftarrow> sort_intervals e;
     ivs \<leftarrow> merge_outer L e [];
     Some (S\<lparr>intervals := ivs, is_normalized := True\<rparr>) }"

definition IntervalSet_Maximal :: "('n, 'z) bignum_lib_scheme \<Rightarrow> nat \<Rightarrow> interval_set option" where
  "IntervalSet_Maximal L n = do {
     m \<leftarrow> Interval_Maximal n;
     result \<leftarrow> AddInterval m (IntervalSet_new n);
     IntervalSet_Normalize L result }"

definition IntervalSet_Precise :: "('n, 'z) bignum_lib_scheme \<Rightarrow> bits \<Rightarrow> interval_set option" where
  "IntervalSet_Precise L b = do {
     p \<leftarrow> Interval_Precise b;
     result \<leftarrow> AddInterval p (IntervalSet_new (bit_count b));
     IntervalSet_Normalize L result }"

definition IntervalSet_LowerBound :: "interval_set \<Rightarrow> bits option option" where
  "IntervalSet_LowerBound S = do {
     check (set_bit_count S \<ge> 0);
     for_state (\<lambda>iv lower. (case lower of
         Some l \<Rightarrow> do { less \<leftarrow> ULessThan (lower_bound iv) l; Some (if less then Some (lower_bound iv) else lower) }
       | None \<Rightarrow> Some (Some (lower_bound iv)))) (intervals S) None }"

definition IntervalSet_UpperBound :: "interval_set \<Rightarrow> bits option option" where
  "IntervalSet_UpperBound S = do {
     check (set_bit_count S \<ge> 0);
     for_state (\<lambda>iv upper. (case upper of
         Some u \<Rightarrow> do { greater \<leftarrow> UGreaterThan (upper_bound iv) u; Some (if greater then Some (upper_bound iv) else upper) }
       | None \<Rightarrow> Some (Some (upper_bound iv)))) (intervals S) None }"

definition IntervalSet_ConvexHull :: "interval_set \<Rightarrow> interval option option" where
  "IntervalSet_ConvexHull S = do {
     check (set_bit_count S \<ge> 0);
     lower \<leftarrow> IntervalSet_LowerBound S;
     upper \<leftarrow> IntervalSet_UpperBound S;
     (case (lower, upper) of
        (Some l, Some u) \<Rightarrow> do { iv \<leftarrow> Interval_new l u; Some (Some iv) }
      | _ \<Rightarrow> Some None) }"

definition IntervalSet_ZeroExtend :: "('n, 'z) bignum_lib_scheme \<Rightarrow> interval_set \<Rightarrow> nat \<Rightarrow> interval_set option" where
  "IntervalSet_ZeroExtend L S bit_width = do {
     n \<leftarrow> IntervalSet_BitCount S;
     check (n \<le> bit_width);
     ivs \<leftarrow> Intervals S;
     result \<leftarrow> for_state (\<lambda>iv r. do { iv' \<leftarrow> Interval_ZeroExtend iv bit_width; AddInterval iv' r }) ivs
       (IntervalSet_new bit_width);
     IntervalSet_Normalize L result }"

fun ForEachElement_intervals ::
  "('n, 'z) bignum_lib_scheme \<Rightarrow> (bits \<Rightarrow> 's \<Rightarrow> bool \<times> 's) \<Rightarrow> interval list \<Rightarrow> 's \<Rightarrow> (bool \<times> 's) option" where
  "ForEachElement_intervals L callback [] s = Some (False, s)"
| "ForEachElement_intervals L callback (iv # ivs) s = do {
     r \<leftarrow> Interval_ForEachElement L callback iv s;
     if fst r then Some r else ForEachElement_intervals L callback ivs (snd r) }"

definition IntervalSet_ForEachElement ::
  "('n, 'z) bignum_lib_scheme \<Rightarrow> (bits \<Rightarrow> 's \<Rightarrow> bool \<times> 's) \<Rightarrow> interval_set \<Rightarrow> 's \<Rightarrow> (bool \<times> 's) option" where
  "IntervalSet_ForEachElement L callback S s = do {
     check (is_normalized S);
     ForEachElement_intervals L callback (intervals S) s }"

definition IntervalSet_Combine ::
  "('n, 'z) bignum_lib_scheme \<Rightarrow> interval_set \<Rightarrow> interval_set \<Rightarrow> interval_set option" where
  "IntervalSet_Combine L lhs rhs = do {
     n \<leftarrow> IntervalSet_BitCount lhs;
     m \<leftarrow> IntervalSet_BitCount rhs;
     check (n = m);
     combined \<leftarrow> for_state AddInterval (intervals lhs) (IntervalSet_new n);
     combined \<leftarrow> for_state AddInterval (intervals rhs) combined;
     IntervalSet_Normalize L combined }"

text \<open>
  The sweep of \<open>Intersect\<close> over two lists. The lists are the parts from the iterators on; the
  remainders are inserted before the element the iterator is at, which stays in the list.
\<close>

partial_function (option) Intersect_loop ::
  "('n, 'z) bignum_lib_scheme \<Rightarrow> interval list \<Rightarrow> interval list \<Rightarrow> interval_set \<Rightarrow> interval_set option" where
  "Intersect_loop L left right result =
     (case (left, right) of
        (l # ls, r # rs) \<Rightarrow> do {
          lt \<leftarrow> ULessThan (upper_bound l) (upper_bound r);
          if lt then do {
            x \<leftarrow> Interval_Intersect l r;
            (case x of
               Some intersection \<Rightarrow> do {
                 result' \<leftarrow> AddInterval intersection result;
                 difference \<leftarrow> Interval_Difference L r l;
                 Intersect_loop L ls (difference @ right) result' }
             | None \<Rightarrow> Intersect_loop L ls right result) }
          else do {
            gt \<leftarrow> ULessThan (upper_bound r) (upper_bound l);
            if gt then do {
              x \<leftarrow> Interval_Intersect l r;
              (case x of
                 Some intersection \<Rightarrow> do {
                   result' \<leftarrow> AddInterval intersection result;
                   difference \<leftarrow> Interval_Difference L l r;
                   Intersect_loop L (difference @ left) rs result' }
               | None \<Rightarrow> Intersect_loop L left rs result) }
            else do {
              eq \<leftarrow> UEqual (upper_bound l) (upper_bound r);
              if eq then do {
                x \<leftarrow> Interval_Intersect l r;
                (case x of
                   Some intersection \<Rightarrow> do {
                     result' \<leftarrow> AddInterval intersection result;
                     Intersect_loop L ls rs result' }
                 | None \<Rightarrow> Intersect_loop L ls rs result) }
              else Intersect_loop L left right result } } }
      | _ \<Rightarrow> Some result)"

definition IntervalSet_Intersect ::
  "('n, 'z) bignum_lib_scheme \<Rightarrow> interval_set \<Rightarrow> interval_set \<Rightarrow> interval_set option" where
  "IntervalSet_Intersect L lhs rhs = do {
     n \<leftarrow> IntervalSet_BitCount lhs;
     m \<leftarrow> IntervalSet_BitCount rhs;
     check (n = m);
     left \<leftarrow> Intervals lhs;
     right \<leftarrow> Intervals rhs;
     result \<leftarrow> Intersect_loop L left right (IntervalSet_new n);
     IntervalSet_Normalize L result }"

definition IntervalSet_Complement :: "('n, 'z) bignum_lib_scheme \<Rightarrow> interval_set \<Rightarrow> interval_set option" where
  "IntervalSet_Complement L S = do {
     n \<leftarrow> IntervalSet_BitCount S;
     result \<leftarrow> IntervalSet_Maximal L n;
     ivs \<leftarrow> Intervals S;
     for_state (\<lambda>iv r. do {
         cs \<leftarrow> Interval_Complement L iv;
         complement_set \<leftarrow> for_state AddInterval cs (IntervalSet_new n);
         complement_set \<leftarrow> IntervalSet_Normalize L complement_set;
         IntervalSet_Intersect L r complement_set }) ivs result }"

text \<open>The sum is an \<open>int64_t\<close>; nothing guards it against overflow.\<close>

fun Size_sum :: "('n, 'z) bignum_lib_scheme \<Rightarrow> interval list \<Rightarrow> u64 \<Rightarrow> u64 option option" where
  "Size_sum L [] total_size = Some (Some total_size)"
| "Size_sum L (iv # ivs) total_size = do {
     s \<leftarrow> Interval_Size L iv;
     (case s of Some c \<Rightarrow> Size_sum L ivs (total_size + c) | None \<Rightarrow> Some None) }"

definition IntervalSet_Size :: "('n, 'z) bignum_lib_scheme \<Rightarrow> interval_set \<Rightarrow> u64 option option" where
  "IntervalSet_Size L S = do { check (is_normalized S); Size_sum L (intervals S) 0 }"

text \<open>The loop of \<open>Index\<close>: the interval that holds the index, and the index within it.\<close>

fun Index_search :: "('n, 'z) bignum_lib_scheme \<Rightarrow> interval list \<Rightarrow> bits \<Rightarrow> (interval option \<times> bits) option" where
  "Index_search L [] so_far = Some (None, so_far)"
| "Index_search L (iv # ivs) so_far = do {
     sz \<leftarrow> SizeBits L iv;
     l \<leftarrow> ULessThan so_far sz;
     if l then Some (Some iv, so_far)
     else do { so_far' \<leftarrow> bits_ops_Sub L so_far sz; Index_search L ivs so_far' } }"

definition IntervalSet_Index :: "('n, 'z) bignum_lib_scheme \<Rightarrow> interval_set \<Rightarrow> bits \<Rightarrow> bits option option" where
  "IntervalSet_Index L S index = do {
     check (is_normalized S);
     n \<leftarrow> IntervalSet_BitCount S;
     check (bit_count index = n);
     so_far \<leftarrow> ZeroExtend index (n + 1);
     ivs \<leftarrow> Intervals S;
     r \<leftarrow> Index_search L ivs so_far;
     (case fst r of
        None \<Rightarrow> Some None
      | Some to_index \<Rightarrow> do {
          l \<leftarrow> ZeroExtend (lower_bound to_index) (n + 1);
          result \<leftarrow> bits_ops_Add L (snd r) l;
          m \<leftarrow> Bits_msb result;
          check (\<not> m);
          b \<leftarrow> Bits_Slice result 0 n;
          Some (Some b) }) }"

definition IsTrueWhenMaskWith :: "interval_set \<Rightarrow> bits \<Rightarrow> bool option" where
  "IsTrueWhenMaskWith S v = do {
     n \<leftarrow> IntervalSet_BitCount S;
     check (bit_count v = n);
     r \<leftarrow> for_find (\<lambda>iv. do { x \<leftarrow> IsTrueWhenAndWith iv v; Some (if x then Some True else None) }) (intervals S);
     Some (case r of Some x \<Rightarrow> x | None \<Rightarrow> False) }"

definition IntervalSet_Covers :: "interval_set \<Rightarrow> bits \<Rightarrow> bool option" where
  "IntervalSet_Covers S b = do {
     n \<leftarrow> IntervalSet_BitCount S;
     check (bit_count b = n);
     r \<leftarrow> for_find (\<lambda>iv. do { x \<leftarrow> Interval_Covers iv b; Some (if x then Some True else None) }) (intervals S);
     Some (case r of Some x \<Rightarrow> x | None \<Rightarrow> False) }"

definition IntervalSet_CoversZero :: "interval_set \<Rightarrow> bool option" where
  "IntervalSet_CoversZero S = do { n \<leftarrow> IntervalSet_BitCount S; z \<leftarrow> UBits 0 n; IntervalSet_Covers S z }"

definition IntervalSet_CoversOne :: "interval_set \<Rightarrow> bool option" where
  "IntervalSet_CoversOne S = do { n \<leftarrow> IntervalSet_BitCount S; o' \<leftarrow> UBits 1 n; IntervalSet_Covers S o' }"

definition IntervalSet_CoversMax :: "interval_set \<Rightarrow> bool option" where
  "IntervalSet_CoversMax S = do { n \<leftarrow> IntervalSet_BitCount S; m \<leftarrow> Bits_AllOnes n; IntervalSet_Covers S m }"

fun IsPrecise_loop :: "interval list \<Rightarrow> interval option \<Rightarrow> bool option" where
  "IsPrecise_loop [] precisely = Some True"
| "IsPrecise_loop (iv # ivs) precisely = do {
     same \<leftarrow> (case precisely of Some p \<Rightarrow> Interval_eq p iv | None \<Rightarrow> Some True);
     if \<not> same then Some False
     else do {
       p \<leftarrow> Interval_IsPrecise iv;
       if \<not> p then Some False else IsPrecise_loop ivs (Some iv) } }"

definition IntervalSet_IsPrecise :: "interval_set \<Rightarrow> bool option" where
  "IntervalSet_IsPrecise S = do { check (set_bit_count S \<ge> 0); IsPrecise_loop (intervals S) None }"

definition IntervalSet_GetPreciseValue :: "interval_set \<Rightarrow> bits option option" where
  "IntervalSet_GetPreciseValue S = do {
     check (is_normalized S);
     p \<leftarrow> IntervalSet_IsPrecise S;
     if \<not> p then Some None
     else do {
       check (length (intervals S) = 1);
       iv \<leftarrow> list_at (intervals S) 0;
       Interval_GetPreciseValue iv } }"

definition IntervalSet_IsMaximal :: "('n, 'z) bignum_lib_scheme \<Rightarrow> interval_set \<Rightarrow> bool option" where
  "IntervalSet_IsMaximal L S = do {
     check (is_normalized S);
     check (set_bit_count S \<ge> 0);
     r \<leftarrow> for_find (\<lambda>iv. do { x \<leftarrow> Interval_IsMaximal L iv; Some (if x then Some True else None) }) (intervals S);
     Some (case r of Some x \<Rightarrow> x | None \<Rightarrow> False) }"

definition IntervalSet_IsEmpty :: "interval_set \<Rightarrow> bool option" where
  "IntervalSet_IsEmpty S = do { check (is_normalized S); Some (intervals S = []) }"

definition IntervalSet_eq :: "('n, 'z) bignum_lib_scheme \<Rightarrow> interval_set \<Rightarrow> interval_set \<Rightarrow> bool option" where
  "IntervalSet_eq L lhs rhs = do {
     lhs \<leftarrow> IntervalSet_Normalize L lhs;
     rhs \<leftarrow> IntervalSet_Normalize L rhs;
     if set_bit_count lhs \<noteq> set_bit_count rhs then Some False
     else if length (intervals lhs) \<noteq> length (intervals rhs) then Some False
     else do {
       r \<leftarrow> for_find (\<lambda>p. do { e \<leftarrow> Interval_eq (fst p) (snd p); Some (if \<not> e then Some False else None) })
         (zip (intervals lhs) (intervals rhs));
       Some (case r of Some x \<Rightarrow> x | None \<Rightarrow> True) } }"

section \<open>The numbers of an interval set\<close>

definition wf_set :: "nat \<Rightarrow> interval_set \<Rightarrow> bool" where
  "wf_set n S \<longleftrightarrow> set_bit_count S = int n \<and> (\<forall>iv \<in> set (intervals S). wf_iv n iv)"

definition list_points :: "nat \<Rightarrow> interval list \<Rightarrow> nat set" where
  "list_points n ivs = (\<Union>iv \<in> set ivs. iv_points n iv)"

definition set_points :: "nat \<Rightarrow> interval_set \<Rightarrow> nat set" where
  "set_points n S = list_points n (intervals S)"

text \<open>The normal form: proper intervals in ascending order with a gap between any two.\<close>

fun separated :: "interval list \<Rightarrow> bool" where
  "separated [] \<longleftrightarrow> True"
| "separated [x] \<longleftrightarrow> True"
| "separated (x # y # xs) \<longleftrightarrow> hi x + 1 < lo y \<and> separated (y # xs)"

definition norm_list :: "nat \<Rightarrow> interval list \<Rightarrow> bool" where
  "norm_list n ivs \<longleftrightarrow> (\<forall>iv \<in> set ivs. proper n iv) \<and> separated ivs"

definition norm_set :: "nat \<Rightarrow> interval_set \<Rightarrow> bool" where
  "norm_set n S \<longleftrightarrow> set_bit_count S = int n \<and> is_normalized S \<and> norm_list n (intervals S)"

section \<open>Lists of intervals\<close>

lemma le_mask_iff: "(x::nat) \<le> mask n \<longleftrightarrow> x < 2 ^ n"
proof -
  have "Suc (mask n) = (2::nat) ^ n" by (simp add: mask_eq_exp_minus_1)
  then show ?thesis using less_Suc_eq_le[of x "mask n"] by simp
qed

lemma mk_iv_eq_iff:
  assumes "a < 2 ^ n" "b < 2 ^ n" "c < 2 ^ n" "d < 2 ^ n"
  shows "mk_iv n a b = mk_iv n c d \<longleftrightarrow> a = c \<and> b = d"
  using assms by (simp add: mk_iv_def mk_bits_eq_iff)

lemma list_points_simps [simp]:
  "list_points n [] = {}" "list_points n (iv # ivs) = iv_points n iv \<union> list_points n ivs"
  "list_points n (xs @ ys) = list_points n xs \<union> list_points n ys"
  by (auto simp: list_points_def)

lemma list_points_set: "set xs = set ys \<Longrightarrow> list_points n xs = list_points n ys"
  by (simp add: list_points_def)

lemma list_points_bound: "x \<in> list_points n ivs \<Longrightarrow> x < 2 ^ n"
  by (auto simp: list_points_def iv_points_def)

lemma proper_wf [simp]: "proper n iv \<Longrightarrow> wf_iv n iv"
  by (simp add: proper_def)

lemma norm_set_wf: "norm_set n S \<Longrightarrow> wf_set n S"
  by (auto simp: norm_set_def wf_set_def norm_list_def)

lemma IntervalSet_BitCount_eq [simp]: "wf_set n S \<Longrightarrow> IntervalSet_BitCount S = Some n"
  by (simp add: IntervalSet_BitCount_def wf_set_def)

lemma wf_set_new [simp]: "wf_set n (IntervalSet_new n)" "intervals (IntervalSet_new n) = []"
  by (simp_all add: wf_set_def IntervalSet_new_def)

lemma Interval_BitCount_wf: "wf_iv n iv \<Longrightarrow> Interval_BitCount iv = Some n"
  by (erule wf_iv_cases) simp

lemma AddInterval_eq:
  assumes "wf_set n S" "wf_iv n iv"
  shows "AddInterval iv S = Some (S\<lparr>is_normalized := False, intervals := intervals S @ [iv]\<rparr>)"
    "wf_set n (S\<lparr>is_normalized := False, intervals := intervals S @ [iv]\<rparr>)"
  using assms by (auto simp: AddInterval_def IntervalSet_BitCount_def wf_set_def Interval_BitCount_wf)

lemma AddInterval_all:
  assumes "wf_set n S" "\<forall>iv \<in> set ivs. wf_iv n iv"
  shows "for_state AddInterval ivs S =
      Some (S\<lparr>is_normalized := is_normalized S \<and> ivs = [], intervals := intervals S @ ivs\<rparr>)"
    "wf_set n (S\<lparr>is_normalized := is_normalized S \<and> ivs = [], intervals := intervals S @ ivs\<rparr>)"
proof -
  show "for_state AddInterval ivs S = Some (S\<lparr>is_normalized := is_normalized S \<and> ivs = [], intervals := intervals S @ ivs\<rparr>)"
    using assms
  proof (induction ivs arbitrary: S)
    case (Cons iv ivs)
    note a = AddInterval_eq[OF Cons.prems(1), of iv]
    show ?case using a Cons.IH[OF a(2)] Cons.prems(2) by simp
  qed simp
  show "wf_set n (S\<lparr>is_normalized := is_normalized S \<and> ivs = [], intervals := intervals S @ ivs\<rparr>)"
    using assms by (auto simp: wf_set_def)
qed

section \<open>Normalisation\<close>

text \<open>A wrapped interval is the union of its two parts.\<close>

definition split_iv :: "nat \<Rightarrow> interval \<Rightarrow> interval list" where
  "split_iv n iv = (if hi iv < lo iv then [mk_iv n 0 (hi iv), mk_iv n (lo iv) (mask n)] else [iv])"

lemma split_iv:
  assumes "wf_iv n iv"
  shows "\<forall>x \<in> set (split_iv n iv). proper n x" "list_points n (split_iv n iv) = iv_points n iv"
proof -
  obtain a b where iv: "iv = mk_iv n a b" "a < 2 ^ n" "b < 2 ^ n" "lo iv = a" "hi iv = b"
    by (rule wf_iv_cases[OF assms])
  have m: "a \<le> mask n" "mask n < (2::nat) ^ n" using iv by (simp_all add: mask_eq_exp_minus_1)
  show "\<forall>x \<in> set (split_iv n iv). proper n x"
    unfolding split_iv_def iv(4,5) using iv(1,2,3) m by auto
  show "list_points n (split_iv n iv) = iv_points n iv"
  proof (cases "b < a")
    case True
    have "iv_points n (mk_iv n 0 b) = {0..b}" using iv(3) by simp
    moreover have "iv_points n (mk_iv n a (mask n)) = {a..<2 ^ n}" using m by (auto simp: le_mask_iff)
    moreover have "iv_points n iv = {0..b} \<union> {a..<2 ^ n}" using iv True by (auto simp: iv_points_def)
    ultimately show ?thesis using True by (simp add: split_iv_def iv(4,5))
  qed (use iv(4,5) in \<open>simp add: split_iv_def\<close>)
qed

lemma expand_improper_eq:
  assumes "\<forall>iv \<in> set ivs. wf_iv n iv"
  shows "expand_improper ivs (mk_bits n 0) (mk_bits n (mask n)) = Some (concat (map (split_iv n) ivs))"
proof -
  have "for_state (\<lambda>iv acc. do {
         improper \<leftarrow> IsImproper iv;
         if improper then do {
           a \<leftarrow> Interval_new (mk_bits n 0) (upper_bound iv);
           b \<leftarrow> Interval_new (lower_bound iv) (mk_bits n (mask n));
           Some (acc @ [a, b]) }
         else Some (acc @ [iv]) }) ivs acc = Some (acc @ concat (map (split_iv n) ivs))" for acc
    using assms
  proof (induction ivs arbitrary: acc)
    case (Cons iv ivs)
    obtain a b where iv: "iv = mk_iv n a b" "a < 2 ^ n" "b < 2 ^ n" "lo iv = a" "hi iv = b"
      using Cons.prems wf_iv_cases[of n iv] by auto
    then show ?case using Cons by (simp add: IsImproper_eq split_iv_def)
  qed simp
  then show ?thesis by (simp add: expand_improper_def)
qed

lemma insert_sorted_ok:
  assumes "wf_iv n iv" "\<forall>x \<in> set xs. wf_iv n x" "sorted_wrt (\<lambda>x y. lo x \<le> lo y) xs"
  shows "\<exists>ys. insert_sorted iv xs = Some ys \<and> set ys = insert iv (set xs) \<and> sorted_wrt (\<lambda>x y. lo x \<le> lo y) ys"
  using assms(2,3)
proof (induction xs)
  case (Cons x xs)
  obtain a b where iv: "iv = mk_iv n a b" "a < 2 ^ n" "b < 2 ^ n" "lo iv = a" by (rule wf_iv_cases[OF assms(1)])
  obtain c d where x: "x = mk_iv n c d" "c < 2 ^ n" "d < 2 ^ n" "lo x = c"
    using Cons.prems wf_iv_cases[of n x] by auto
  obtain ys where ys: "insert_sorted iv xs = Some ys" "set ys = insert iv (set xs)" "sorted_wrt (\<lambda>x y. lo x \<le> lo y) ys"
    using Cons by auto
  have less: "Interval_less x iv = Some (c < a \<or> c = a \<and> d < b)" using iv x by (simp add: Interval_less_eq)
  show ?case
  proof (cases "c < a \<or> c = a \<and> d < b")
    case True
    then show ?thesis using less ys Cons.prems iv x by auto
  next
    case False
    then show ?thesis using less Cons.prems iv x by auto
  qed
qed simp

lemma sort_intervals_ok:
  assumes "\<forall>x \<in> set xs. wf_iv n x"
  shows "\<exists>ys. sort_intervals xs = Some ys \<and> set ys = set xs \<and> sorted_wrt (\<lambda>x y. lo x \<le> lo y) ys"
proof -
  have "\<exists>ys. for_state insert_sorted xs zs = Some ys \<and> set ys = set xs \<union> set zs \<and> sorted_wrt (\<lambda>x y. lo x \<le> lo y) ys"
    if "\<forall>x \<in> set zs. wf_iv n x" "sorted_wrt (\<lambda>x y. lo x \<le> lo y) zs" for zs
    using assms that
  proof (induction xs arbitrary: zs)
    case (Cons x xs)
    obtain ys where "insert_sorted x zs = Some ys" "set ys = insert x (set zs)" "sorted_wrt (\<lambda>x y. lo x \<le> lo y) ys"
      using insert_sorted_ok[of n x zs] Cons.prems by auto
    then show ?case using Cons.IH[of ys] Cons.prems by auto
  qed simp
  from this[of "[]"] show ?thesis by (simp add: sort_intervals_def)
qed

lemma merge_inner_ok:
  assumes ok: "bignum_ok L val" and "proper n iv" "\<forall>x \<in> set xs. proper n x \<and> lo iv \<le> lo x" "sorted_wrt (\<lambda>x y. lo x \<le> lo y) xs"
  shows "\<exists>iv' rest. merge_inner L iv xs = Some (iv', rest) \<and> proper n iv' \<and> lo iv' = lo iv \<and>
    iv_points n iv' \<union> list_points n rest = iv_points n iv \<union> list_points n xs \<and>
    length rest \<le> length xs \<and> set rest \<subseteq> set xs \<and> sorted_wrt (\<lambda>x y. lo x \<le> lo y) rest \<and>
    (rest = [] \<or> hi iv' + 1 < lo (hd rest))"
  using assms(2,3,4)
proof (induction xs arbitrary: iv)
  case (Cons x xs)
  obtain a b where iv: "iv = mk_iv n a b" "a \<le> b" "b < 2 ^ n" "lo iv = a" "hi iv = b"
    using Cons.prems(1) by (rule proper_cases)
  obtain c d where x: "x = mk_iv n c d" "c \<le> d" "d < 2 ^ n" "lo x = c" "hi x = d"
    using Cons.prems(2) proper_cases[of n x] by auto
  have ac: "a \<le> c" using Cons.prems(2) iv x by auto
  show ?case
  proof (cases "c \<le> b + 1")
    case True
    let ?h = "mk_iv n a (max b d)"
    have h: "proper n ?h" "lo ?h = a" "hi ?h = max b d" using iv x by auto
    have pts: "iv_points n ?h = iv_points n iv \<union> iv_points n x"
      using iv x True ac by auto
    have "merge_inner L iv (x # xs) = merge_inner L ?h xs"
      using iv x True ac
      by (auto simp: Interval_Overlaps_eq Interval_Abuts_eq[OF ok] Interval_ConvexHull_eq min_def max_def)
    moreover have "\<forall>y \<in> set xs. proper n y \<and> lo ?h \<le> lo y" using Cons.prems(2) h iv by auto
    ultimately show ?thesis
      using Cons.IH[of ?h] h(1,2) Cons.prems(3) pts iv(4) by (fastforce simp: Un_assoc)
  next
    case False
    then have "merge_inner L iv (x # xs) = Some (iv, x # xs)"
      using iv x ac by (auto simp: Interval_Overlaps_eq Interval_Abuts_eq[OF ok])
    then show ?thesis using Cons.prems False iv x by auto
  qed
qed auto

lemma merge_outer_ok:
  assumes ok: "bignum_ok L val" and "\<forall>x \<in> set xs. proper n x" "sorted_wrt (\<lambda>x y. lo x \<le> lo y) xs"
  shows "\<exists>out. merge_outer L xs acc = Some (acc @ out) \<and> norm_list n out \<and> list_points n out = list_points n xs \<and>
    (xs \<noteq> [] \<longrightarrow> out \<noteq> [] \<and> lo (hd out) = lo (hd xs))"
  using assms(2,3)
proof (induction "length xs" arbitrary: xs acc rule: less_induct)
  case less
  show ?case
  proof (cases xs)
    case Nil
    then show ?thesis by (subst merge_outer.simps) (simp add: norm_list_def)
  next
    case (Cons x ys)
    obtain a b where x: "x = mk_iv n a b" "a \<le> b" "b < 2 ^ n" "lo x = a" "hi x = b"
      using less.prems(1) Cons proper_cases[of n x] by auto
    have self: "merge_inner L x xs = merge_inner L x ys"
      unfolding Cons using x by (simp add: Interval_Overlaps_eq Interval_ConvexHull_eq)
    obtain iv' rest where m: "merge_inner L x ys = Some (iv', rest)" "proper n iv'" "lo iv' = lo x"
      "iv_points n iv' \<union> list_points n rest = iv_points n x \<union> list_points n ys"
      "length rest \<le> length ys" "set rest \<subseteq> set ys" "sorted_wrt (\<lambda>x y. lo x \<le> lo y) rest"
      "rest = [] \<or> hi iv' + 1 < lo (hd rest)"
      using merge_inner_ok[OF ok, of n x ys] less.prems Cons by auto
    then obtain out where out: "merge_outer L rest (acc @ [iv']) = Some ((acc @ [iv']) @ out)" "norm_list n out"
      "list_points n out = list_points n rest" "rest \<noteq> [] \<longrightarrow> out \<noteq> [] \<and> lo (hd out) = lo (hd rest)"
      using less.hyps[of rest "acc @ [iv']"] less.prems Cons by auto
    have "merge_outer L xs acc = Some (acc @ iv' # out)"
      using out(1) self m(1) Cons by (subst merge_outer.simps) simp
    moreover have "norm_list n (iv' # out)"
    proof (cases out)
      case (Cons o1 os)
      then have "rest \<noteq> []" using out(3) out(2) by (auto simp: norm_list_def iv_points_of_proper proper_def)
      then show ?thesis using m(2,8) out Cons by (auto simp: norm_list_def)
    qed (use m(2) in \<open>simp add: norm_list_def\<close>)
    ultimately show ?thesis using m out Cons by auto
  qed
qed

lemma IntervalSet_Normalize_ok:
  assumes ok: "bignum_ok L val" and "wf_set n S"
  shows "\<exists>S'. IntervalSet_Normalize L S = Some S' \<and> norm_set n S' \<and> set_points n S' = set_points n S"
proof -
  let ?e = "concat (map (split_iv n) (intervals S))"
  have wf: "\<forall>iv \<in> set (intervals S). wf_iv n iv" using assms(2) by (simp add: wf_set_def)
  then have e: "\<forall>x \<in> set ?e. proper n x" "list_points n ?e = list_points n (intervals S)"
    using split_iv[of n] by (auto simp: list_points_def)
  then obtain ys where ys: "sort_intervals ?e = Some ys" "set ys = set ?e" "sorted_wrt (\<lambda>x y. lo x \<le> lo y) ys"
    using sort_intervals_ok[of ?e n] by auto
  then obtain out where "merge_outer L ys [] = Some out" "norm_list n out" "list_points n out = list_points n ys"
    using merge_outer_ok[OF ok, of ys n "[]"] e by auto
  then have "IntervalSet_Normalize L S = Some (S\<lparr>intervals := out, is_normalized := True\<rparr>)" "norm_list n out"
    "list_points n out = list_points n (intervals S)"
    using ys e assms(2) list_points_set[OF ys(2)] by (simp_all add: IntervalSet_Normalize_def expand_improper_eq[OF wf])
  then show ?thesis using assms(2) by (auto simp: norm_set_def wf_set_def set_points_def)
qed

text \<open>The normal form is unique: two normalised lists with the same numbers are equal.\<close>

lemma separated_above: "separated (x # xs) \<Longrightarrow> \<forall>y \<in> set xs. proper n y \<Longrightarrow> \<forall>y \<in> set xs. hi x + 1 < lo y"
proof (induction xs arbitrary: x)
  case (Cons y ys)
  then have "\<forall>z \<in> set ys. hi y + 1 < lo z" "hi x + 1 < lo y" "lo y \<le> hi y" by (auto simp: proper_def)
  then show ?case by auto
qed simp

lemma norm_list_Cons:
  "norm_list n (x # xs) \<longleftrightarrow> proper n x \<and> norm_list n xs \<and> (\<forall>y \<in> set xs. hi x + 1 < lo y)"
proof -
  have sep: "separated (x # xs) \<longleftrightarrow> separated xs \<and> (\<forall>y \<in> set xs. hi x + 1 < lo y)" if "\<forall>y \<in> set xs. proper n y"
    using separated_above[OF _ that] by (cases xs) auto
  show ?thesis
  proof (cases "\<forall>y \<in> set xs. proper n y")
    case True
    show ?thesis unfolding norm_list_def sep[OF True] using True by auto
  qed (auto simp: norm_list_def)
qed

lemma norm_list_Nil [simp]: "norm_list n []"
  by (simp add: norm_list_def)

lemma norm_points_Cons:
  assumes "norm_list n (x # xs)"
  shows "list_points n (x # xs) = {lo x..hi x} \<union> list_points n xs" "\<forall>p \<in> list_points n xs. hi x + 1 < p" "lo x \<le> hi x"
proof -
  have x: "proper n x" "\<forall>y \<in> set xs. proper n y \<and> hi x + 1 < lo y"
    using assms unfolding norm_list_Cons by (auto simp: norm_list_def)
  show "list_points n (x # xs) = {lo x..hi x} \<union> list_points n xs" using x by (simp add: iv_points_of_proper)
  show "\<forall>p \<in> list_points n xs. hi x + 1 < p" using x by (fastforce simp: list_points_def iv_points_of_proper)
  show "lo x \<le> hi x" using x by (simp add: proper_def)
qed

lemma norm_list_unique:
  "norm_list n xs \<Longrightarrow> norm_list n ys \<Longrightarrow> list_points n xs = list_points n ys \<Longrightarrow> xs = ys"
proof (induction xs arbitrary: ys)
  case Nil
  show ?case
  proof (cases ys)
    case (Cons y ys')
    then show ?thesis using Nil norm_points_Cons[of n y ys'] by auto
  qed simp
next
  case (Cons x xs)
  note px = norm_points_Cons[OF Cons.prems(1)]
  obtain y ys' where y: "ys = y # ys'" using Cons.prems px by (cases ys) auto
  note py = norm_points_Cons[OF Cons.prems(2)[unfolded y]]
  have e: "{lo x..hi x} \<union> list_points n xs = {lo y..hi y} \<union> list_points n ys'" (is "?A = ?B")
    using Cons.prems(3) px(1) py(1) y by simp
  have "lo x \<in> ?B" "lo y \<in> ?A" using e px(3) py(3) by auto
  moreover have "p \<in> ?A \<Longrightarrow> lo x \<le> p" "p \<in> ?B \<Longrightarrow> lo y \<le> p" for p
    using px(2,3) py(2,3) by (auto dest!: bspec)
  ultimately have l: "lo x = lo y" by (meson le_antisym)
  have "hi x + 1 \<notin> ?A" "hi y + 1 \<notin> ?B" using px(2) py(2) by auto
  moreover have "hi x < hi y \<Longrightarrow> hi x + 1 \<in> ?B" "hi y < hi x \<Longrightarrow> hi y + 1 \<in> ?A" using l px(3) py(3) by auto
  ultimately have h: "hi x = hi y" unfolding e by (metis linorder_neqE_nat)
  have "list_points n xs = list_points n ys'"
  proof -
    have "list_points n xs = ?A - {lo x..hi x}" using px(2) by auto
    also have "\<dots> = list_points n ys'" unfolding e using py(2) l h by auto
    finally show ?thesis .
  qed
  then have "xs = ys'" using Cons.IH[of ys'] Cons.prems y by (simp add: norm_list_Cons)
  moreover have "x = y" using Cons.prems y l h wf_iv_eq[of n x] wf_iv_eq[of n y] by (auto simp: norm_list_Cons)
  ultimately show ?case using y by simp
qed

section \<open>Set operations\<close>

lemma IntervalSet_Combine_ok:
  assumes ok: "bignum_ok L val" and "wf_set n A" "wf_set n B"
  shows "\<exists>S. IntervalSet_Combine L A B = Some S \<and> norm_set n S \<and> set_points n S = set_points n A \<union> set_points n B"
proof -
  have "\<forall>iv \<in> set (intervals A). wf_iv n iv" "\<forall>iv \<in> set (intervals B). wf_iv n iv" using assms by (auto simp: wf_set_def)
  note a = AddInterval_all[OF wf_set_new(1) this(1)] and b = this(2)
  note c = AddInterval_all[OF a(2) b]
  show ?thesis using IntervalSet_Normalize_ok[OF ok c(2)] a(1) c(1) assms(2,3)
    by (simp add: IntervalSet_Combine_def set_points_def)
qed

lemma IntervalSet_single_ok:
  assumes ok: "bignum_ok L val" and "wf_iv n iv"
  shows "\<exists>S. (do { r \<leftarrow> AddInterval iv (IntervalSet_new n); IntervalSet_Normalize L r }) = Some S \<and>
    norm_set n S \<and> set_points n S = iv_points n iv"
  using IntervalSet_Normalize_ok[OF ok AddInterval_eq(2)[OF wf_set_new(1) assms(2)]] AddInterval_eq(1)[OF wf_set_new(1) assms(2)]
  by (simp add: set_points_def)

lemma IntervalSet_Maximal_ok:
  "bignum_ok L val \<Longrightarrow> \<exists>S. IntervalSet_Maximal L n = Some S \<and> norm_set n S \<and> set_points n S = {..<2 ^ n}"
proof -
  assume ok: "bignum_ok L val"
  have "iv_points n (mk_iv n 0 (mask n)) = {..<2 ^ n}" by (auto simp: le_mask_iff)
  then show ?thesis using IntervalSet_single_ok[OF ok, of n "mk_iv n 0 (mask n)"] by (simp add: IntervalSet_Maximal_def)
qed

lemma IntervalSet_Precise_ok:
  "bignum_ok L val \<Longrightarrow> a < 2 ^ n \<Longrightarrow>
     \<exists>S. IntervalSet_Precise L (mk_bits n a) = Some S \<and> norm_set n S \<and> set_points n S = {a}"
  using IntervalSet_single_ok[of L val n "mk_iv n a a"] by (simp add: IntervalSet_Precise_def)

lemma IntervalSet_Covers_eq:
  assumes "wf_set n S" "x < 2 ^ n"
  shows "IntervalSet_Covers S (mk_bits n x) = Some (x \<in> set_points n S)"
proof -
  have "Interval_Covers iv (mk_bits n x) = Some (x \<in> iv_points n iv)" if "iv \<in> set (intervals S)" for iv
  proof -
    have "wf_iv n iv" using assms that by (simp add: wf_set_def)
    then obtain a b where "iv = mk_iv n a b" "a < 2 ^ n" "b < 2 ^ n" using wf_iv_cases by blast
    then show ?thesis using assms(2) by (simp add: Interval_Covers_eq)
  qed
  then have "for_find (\<lambda>iv. do { y \<leftarrow> Interval_Covers iv (mk_bits n x); Some (if y then Some True else None) }) (intervals S)
     = Some (if \<exists>iv \<in> set (intervals S). x \<in> iv_points n iv then Some True else None)"
    by (intro for_find_test) simp
  then show ?thesis using assms by (auto simp: IntervalSet_Covers_def set_points_def list_points_def)
qed

lemma IntervalSet_eq_ok:
  assumes ok: "bignum_ok L val" and "wf_set n A" "wf_set n B"
  shows "IntervalSet_eq L A B = Some (set_points n A = set_points n B)"
proof -
  obtain A' where A: "IntervalSet_Normalize L A = Some A'" "norm_set n A'" "set_points n A' = set_points n A"
    using IntervalSet_Normalize_ok[OF ok assms(2)] by auto
  obtain B' where B: "IntervalSet_Normalize L B = Some B'" "norm_set n B'" "set_points n B' = set_points n B"
    using IntervalSet_Normalize_ok[OF ok assms(3)] by auto
  have wf: "\<forall>iv \<in> set (intervals A'). wf_iv n iv" "\<forall>iv \<in> set (intervals B'). wf_iv n iv"
    using A(2) B(2) by (auto simp: norm_set_def norm_list_def)
  have "Interval_eq x y = Some (x = y)" if w: "wf_iv n x" "wf_iv n y" for x y
  proof -
    obtain a b where x: "x = mk_iv n a b" "a < 2 ^ n" "b < 2 ^ n" using wf_iv_cases[OF w(1)] by blast
    obtain c d where y: "y = mk_iv n c d" "c < 2 ^ n" "d < 2 ^ n" using wf_iv_cases[OF w(2)] by blast
    show ?thesis using x y by (simp add: Interval_eq_eq mk_iv_eq_iff)
  qed
  then have "p \<in> set (zip (intervals A') (intervals B')) \<Longrightarrow> Interval_eq (fst p) (snd p) = Some (fst p = snd p)" for p
    using wf set_zip_leftD[of "fst p" "snd p"] set_zip_rightD[of "fst p" "snd p"] by fastforce
  then have "for_find (\<lambda>p. do { e \<leftarrow> Interval_eq (fst p) (snd p); Some (if \<not> e then Some False else None) })
       (zip (intervals A') (intervals B'))
     = Some (if \<exists>p \<in> set (zip (intervals A') (intervals B')). fst p \<noteq> snd p then Some False else None)"
    by (intro for_find_test) simp
  then have "IntervalSet_eq L A B = Some (intervals A' = intervals B')"
    using A B by (auto simp: IntervalSet_eq_def norm_set_def list_eq_iff_zip_eq Ball_def Bex_def)
  moreover have "intervals A' = intervals B' \<longleftrightarrow> set_points n A' = set_points n B'"
    using norm_list_unique[of n "intervals A'" "intervals B'"] A(2) B(2) by (auto simp: norm_set_def set_points_def)
  ultimately show ?thesis using A(3) B(3) by simp
qed


section \<open>Intersection\<close>

text \<open>
  The sweep of \<open>Intersect\<close>, on the bounds alone. Its invariant has a frontier \<open>p\<close>: everything
  below \<open>p\<close> is done. From its iterator on, a list consists of dead intervals that end below \<open>p\<close>, then
  the copies of the interval under the frontier that the sweep has split, all with the same upper
  bound, then intervals not looked at yet.
\<close>

definition sweep_side :: "nat \<Rightarrow> nat \<Rightarrow> interval list \<Rightarrow> interval list \<Rightarrow> interval list \<Rightarrow> bool" where
  "sweep_side n p D G F \<longleftrightarrow>
     (\<forall>x \<in> set D. proper n x \<and> hi x < p) \<and>
     (\<forall>x \<in> set G. proper n x \<and> lo x \<le> p \<and> p \<le> hi x) \<and>
     (\<forall>x \<in> set G. \<forall>y \<in> set G. hi x = hi y) \<and>
     norm_list n F \<and> (\<forall>x \<in> set F. p \<le> lo x) \<and>
     (\<forall>x \<in> set G. \<forall>y \<in> set F. hi x + 1 < lo y)"

text \<open>At most one side has split intervals; a dead interval lies below everything on the other side that it can meet.\<close>

definition sweep_inv :: "nat \<Rightarrow> nat \<Rightarrow> interval list \<Rightarrow> interval list \<Rightarrow> interval list \<Rightarrow>
    interval list \<Rightarrow> interval list \<Rightarrow> interval list \<Rightarrow> bool" where
  "sweep_inv n p D G F D' G' F' \<longleftrightarrow>
     sweep_side n p D G F \<and> sweep_side n p D' G' F' \<and>
     (G = [] \<or> G' = []) \<and> (D = [] \<or> D' = []) \<and>
     (D \<noteq> [] \<longrightarrow> (\<forall>x \<in> set (take 1 (G' @ F')). p \<le> lo x)) \<and>
     (D' \<noteq> [] \<longrightarrow> (\<forall>x \<in> set (take 1 (G @ F)). p \<le> lo x))"

lemma sweep_sideD:
  assumes "sweep_side n p D G F"
  shows "\<And>x. x \<in> set D \<Longrightarrow> proper n x \<and> hi x < p" "\<And>x. x \<in> set G \<Longrightarrow> proper n x \<and> lo x \<le> p \<and> p \<le> hi x"
    "\<And>x y. x \<in> set G \<Longrightarrow> y \<in> set G \<Longrightarrow> hi x = hi y" "norm_list n F" "\<And>x. x \<in> set F \<Longrightarrow> p \<le> lo x"
    "\<And>x y. x \<in> set G \<Longrightarrow> y \<in> set F \<Longrightarrow> hi x + 1 < lo y"
  using assms unfolding sweep_side_def by blast+

lemma sweep_inv_sym: "sweep_inv n p D G F D' G' F' \<longleftrightarrow> sweep_inv n p D' G' F' D G F"
  by (auto simp: sweep_inv_def)

definition sweep_size :: "interval list \<Rightarrow> interval list \<Rightarrow> nat" where
  "sweep_size G F = length F + of_bool (G \<noteq> [])"

text \<open>Removing the head of a side without dead intervals, when the frontier moves past it.\<close>

lemma sweep_drop:
  assumes side: "sweep_side n p [] G F" and hd: "G @ F = l # ls"
  defines "D1 \<equiv> tl G" and "F1 \<equiv> (if G = [] then tl F else F)"
  shows "ls = D1 @ F1" "sweep_side n (hi l + 1) D1 [] F1" "sweep_size [] F1 + 1 = sweep_size G F" "p \<le> hi l" "proper n l"
    "\<forall>x. p \<le> x \<and> x \<le> hi l \<and> x \<in> list_points n (l # ls) \<longrightarrow> x \<in> iv_points n l"
    "\<forall>x \<in> list_points n (l # ls). hi l + 1 \<le> x \<longrightarrow> x \<in> list_points n ls"
    "D1 \<noteq> [] \<Longrightarrow> lo l \<le> p" "\<forall>x \<in> set F1. hi l + 1 \<le> lo x"
proof -
  show ls: "ls = D1 @ F1" using hd by (cases G) (auto simp: D1_def F1_def)
  note G = sweep_sideD(2,3)[OF side] and F = sweep_sideD(4,5,6)[OF side]
  have F1: "norm_list n F1" "\<forall>x \<in> set F1. hi l + 1 < lo x"
    using hd F(1,3) by (cases G; auto simp: F1_def norm_list_Cons)+
  have D1: "\<forall>x \<in> set D1. proper n x \<and> hi x = hi l \<and> lo l \<le> p \<and> p \<le> hi x"
  proof
    fix x assume x: "x \<in> set D1"
    then have xl: "x \<in> set G" "l \<in> set G" using hd by (cases G; simp add: D1_def)+
    then show "proper n x \<and> hi x = hi l \<and> lo l \<le> p \<and> p \<le> hi x"
      using G(1)[of x] G(1)[of l] G(2)[of x l] by simp
  qed
  show "proper n l" using hd G(1)[of l] F(1) by (cases G) (auto simp: norm_list_Cons)
  then have l: "lo l \<le> hi l" "iv_points n l = {lo l..hi l}" by (simp_all add: proper_def iv_points_of_proper)
  show "p \<le> hi l" using hd G(1)[of l] F(2)[of l] l by (cases G) auto
  show "sweep_side n (hi l + 1) D1 [] F1" using D1 F1 by (fastforce simp: sweep_side_def)
  show "sweep_size [] F1 + 1 = sweep_size G F" using hd by (cases G) (auto simp: sweep_size_def F1_def)
  show "D1 \<noteq> [] \<Longrightarrow> lo l \<le> p" using D1 by (cases D1) auto
  show "\<forall>x \<in> set F1. hi l + 1 \<le> lo x" using F1(2) by auto
  have above: "\<forall>x \<in> list_points n F1. hi l + 1 < x"
    using F1 by (fastforce simp: list_points_def norm_list_def iv_points_of_proper)
  have dead: "\<forall>x \<in> list_points n D1. x \<le> hi l \<and> lo l \<le> p"
    using D1 by (fastforce simp: list_points_def iv_points_of_proper)
  show "\<forall>x. p \<le> x \<and> x \<le> hi l \<and> x \<in> list_points n (l # ls) \<longrightarrow> x \<in> iv_points n l"
    using above dead l by (force simp: ls)
  show "\<forall>x \<in> list_points n (l # ls). hi l + 1 \<le> x \<longrightarrow> x \<in> list_points n ls"
    using l by auto
qed

text \<open>The parts of \<open>r\<close> outside \<open>l\<close>, for \<open>l\<close> and \<open>r\<close> that overlap.\<close>

definition iv_rest :: "nat \<Rightarrow> interval \<Rightarrow> interval \<Rightarrow> interval list" where
  "iv_rest n r l = (if lo r < lo l then [mk_iv n (lo r) (lo l - 1)] else []) @
     (if hi l < hi r then [mk_iv n (hi l + 1) (hi r)] else [])"

lemma sweep_split:
  assumes side: "sweep_side n p [] G F" and hd: "G @ F = r # rs"
    and l: "proper n l" "p \<le> hi l" "hi l < hi r" "lo r \<le> hi l"
  defines "D2 \<equiv> (if lo r < lo l then [mk_iv n (lo r) (lo l - 1)] else [])"
    and "G2 \<equiv> mk_iv n (hi l + 1) (hi r) # (if G = [] then [r] else G)"
    and "F2 \<equiv> (if G = [] then tl F else F)"
  shows "iv_rest n r l @ r # rs = D2 @ G2 @ F2" "sweep_side n (hi l + 1) D2 G2 F2" "sweep_size G2 F2 = sweep_size G F"
    "list_points n (D2 @ G2 @ F2) = list_points n (r # rs)" "lo (hd G2) = hi l + 1" "G2 \<noteq> []"
proof -
  note d = sweep_drop[OF side hd]
  obtain a b where r: "r = mk_iv n a b" "a \<le> b" "b < 2 ^ n" "lo r = a" "hi r = b" using d(5) by (rule proper_cases)
  obtain c e where l': "lo l = c" "hi l = e" "c \<le> e" "e < 2 ^ n" using l(1) by (auto elim: proper_cases)
  have rs: "r # rs = (if G = [] then [r] else G) @ F2" using hd by (cases G) (auto simp: F2_def)
  show "iv_rest n r l @ r # rs = D2 @ G2 @ F2"
    using l(3) rs by (simp add: iv_rest_def D2_def G2_def)
  have b: "e + 1 \<le> b" using l l' r by simp
  have D2: "\<forall>x \<in> set D2. proper n x \<and> hi x < e + 1" using l' r by (auto simp: D2_def)
  have G2: "\<forall>x \<in> set G2. proper n x \<and> lo x \<le> e + 1 \<and> e + 1 \<le> hi x \<and> hi x = b"
  proof -
    have "\<forall>x \<in> set G. proper n x \<and> lo x \<le> p \<and> hi x = b"
    proof
      fix x assume x: "x \<in> set G"
      then have "r \<in> set G" using hd by (cases G) simp_all
      then show "proper n x \<and> lo x \<le> p \<and> hi x = b"
        using sweep_sideD(2)[OF side x] sweep_sideD(3)[OF side x, of r] r(5) by simp
    qed
    then show ?thesis using l l' r b d(5) by (auto simp: G2_def)
  qed
  have F2: "norm_list n F2" "\<forall>x \<in> set F2. b + 1 < lo x"
    using sweep_sideD(4,6)[OF side] hd r(5) by (cases G; auto simp: F2_def norm_list_Cons)+
  show "sweep_side n (hi l + 1) D2 G2 F2"
    unfolding sweep_side_def l'(2)
  proof (intro conjI ballI)
    fix x y assume "x \<in> set G2" "y \<in> set G2"
    then show "hi x = hi y" using G2 by simp
  next
    fix x y assume "x \<in> set G2" "y \<in> set F2"
    then show "hi x + 1 < lo y" using G2 F2(2) by simp
  qed (use D2 G2 F2 b in auto)
  show "sweep_size G2 F2 = sweep_size G F" using hd by (cases G) (auto simp: sweep_size_def G2_def F2_def)
  have "list_points n (iv_rest n r l) \<subseteq> iv_points n r"
    using l' r b l(4) by (auto simp: iv_rest_def)
  then have "list_points n (iv_rest n r l @ r # rs) = list_points n (r # rs)" by auto
  then show "list_points n (D2 @ G2 @ F2) = list_points n (r # rs)"
    by (simp only: \<open>iv_rest n r l @ r # rs = D2 @ G2 @ F2\<close>)
  show "lo (hd G2) = hi l + 1" "G2 \<noteq> []" using l l' r b by (simp_all add: G2_def)
qed

text \<open>One iteration of the loop.\<close>

definition iv_meet :: "nat \<Rightarrow> interval \<Rightarrow> interval \<Rightarrow> interval" where
  "iv_meet n l r = mk_iv n (max (lo l) (lo r)) (min (hi l) (hi r))"

definition set_add :: "interval \<Rightarrow> interval_set \<Rightarrow> interval_set" where
  "set_add iv S = S\<lparr>is_normalized := False, intervals := intervals S @ [iv]\<rparr>"

lemma set_add_simps [simp]:
  "wf_set n S \<Longrightarrow> wf_iv n iv \<Longrightarrow> AddInterval iv S = Some (set_add iv S)"
  "wf_set n S \<Longrightarrow> wf_iv n iv \<Longrightarrow> wf_set n (set_add iv S)"
  "set_points n (set_add iv S) = set_points n S \<union> iv_points n iv"
  by (simp_all add: AddInterval_eq set_add_def set_points_def)

lemma Intersect_loop_step:
  assumes ok: "bignum_ok L val" and pr: "proper n l" "proper n r" and S: "wf_set n S"
  shows "hi l < hi r \<Longrightarrow> Intersect_loop L (l # ls) (r # rs) S =
      (if lo r \<le> hi l then Intersect_loop L ls (iv_rest n r l @ r # rs) (set_add (iv_meet n l r) S)
       else Intersect_loop L ls (r # rs) S)"
    and "hi r < hi l \<Longrightarrow> Intersect_loop L (l # ls) (r # rs) S =
      (if lo l \<le> hi r then Intersect_loop L (iv_rest n l r @ l # ls) rs (set_add (iv_meet n l r) S)
       else Intersect_loop L (l # ls) rs S)"
    and "hi l = hi r \<Longrightarrow> Intersect_loop L (l # ls) (r # rs) S = Intersect_loop L ls rs (set_add (iv_meet n l r) S)"
proof -
  obtain a b where l: "l = mk_iv n a b" "a \<le> b" "b < 2 ^ n" "lo l = a" "hi l = b" using pr(1) by (rule proper_cases)
  obtain c d where r: "r = mk_iv n c d" "c \<le> d" "d < 2 ^ n" "lo r = c" "hi r = d" using pr(2) by (rule proper_cases)
  have x: "Interval_Intersect l r = Some (if a \<le> d \<and> c \<le> b then Some (iv_meet n l r) else None)"
    using l(1-3) r(1-3) unfolding iv_meet_def l(4,5) r(4,5) by (simp add: Interval_Intersect_eq)
  have d1: "Interval_Difference L r l = Some (iv_rest n r l)" "Interval_Difference L l r = Some (iv_rest n l r)" if "a \<le> d" "c \<le> b"
    using Interval_Difference_eq[OF ok r(2,3) l(2,3)] Interval_Difference_eq[OF ok l(2,3) r(2,3)] that
    unfolding iv_rest_def l(4,5) r(4,5) unfolding l(1) r(1) by simp_all
  have cmp: "ULessThan (upper_bound l) (upper_bound r) = Some (b < d)" "ULessThan (upper_bound r) (upper_bound l) = Some (d < b)"
    "UEqual (upper_bound l) (upper_bound r) = Some (b = d)"
    using l(1,3) r(1,3) by simp_all
  have w: "wf_iv n (iv_meet n l r)" by (simp add: iv_meet_def)
  show "hi l < hi r \<Longrightarrow> Intersect_loop L (l # ls) (r # rs) S =
      (if lo r \<le> hi l then Intersect_loop L ls (iv_rest n r l @ r # rs) (set_add (iv_meet n l r) S)
       else Intersect_loop L ls (r # rs) S)"
    unfolding l(4,5) r(4,5) using l(2) d1 x cmp w S by (subst Intersect_loop.simps) auto
  show "hi r < hi l \<Longrightarrow> Intersect_loop L (l # ls) (r # rs) S =
      (if lo l \<le> hi r then Intersect_loop L (iv_rest n l r @ l # ls) rs (set_add (iv_meet n l r) S)
       else Intersect_loop L (l # ls) rs S)"
    unfolding l(4,5) r(4,5) using r(2) d1 x cmp w S by (subst Intersect_loop.simps) auto
  show "hi l = hi r \<Longrightarrow> Intersect_loop L (l # ls) (r # rs) S = Intersect_loop L ls rs (set_add (iv_meet n l r) S)"
    unfolding l(4,5) r(4,5) using l(2) r(2) x cmp w S by (subst Intersect_loop.simps) auto
qed

lemma Intersect_loop_empty:
  "Intersect_loop L [] rs S = Some S" "Intersect_loop L ls [] S = Some S"
  by (subst Intersect_loop.simps, simp split: list.splits)+

lemma iv_points_meet:
  assumes "proper n l" "proper n r" "lo l \<le> hi r" "lo r \<le> hi l"
  shows "iv_points n (iv_meet n l r) = iv_points n l \<inter> iv_points n r"
proof -
  have "hi l < 2 ^ n" "lo l \<le> hi l" "lo r \<le> hi r" using assms wf_iv_bounds[of n l] by (auto simp: proper_def)
  then show ?thesis using assms by (auto simp: iv_meet_def iv_points_of_proper)
qed

text \<open>The frontier step on two live heads, for the side that ends first.\<close>

lemma sweep_advance:
  assumes inv: "sweep_inv n p [] G F [] G' F'" and l: "G @ F = l # ls" and r: "G' @ F' = r # rs" and lt: "hi l < hi r"
  shows "\<exists>D1 F1 D2 G2 F2. ls = D1 @ F1 \<and>
      (if lo r \<le> hi l then iv_rest n r l else []) @ r # rs = D2 @ G2 @ F2 \<and>
      sweep_inv n (hi l + 1) D1 [] F1 D2 G2 F2 \<and>
      sweep_size [] F1 + sweep_size G2 F2 < sweep_size G F + sweep_size G' F' \<and>
      list_points n (D2 @ G2 @ F2) = list_points n (r # rs) \<and>
      (\<forall>x. p \<le> x \<and> x \<le> hi l \<and> x \<in> list_points n (l # ls) \<and> x \<in> list_points n (r # rs) \<longrightarrow>
         lo r \<le> hi l \<and> x \<in> iv_points n l \<inter> iv_points n r)"
proof -
  have side: "sweep_side n p [] G F" "sweep_side n p [] G' F'" and one: "G = [] \<or> G' = []"
    using inv by (auto simp: sweep_inv_def)
  obtain D1 F1 where D1: "D1 = tl G" and dl: "ls = D1 @ F1" "sweep_side n (hi l + 1) D1 [] F1"
    "sweep_size [] F1 + 1 = sweep_size G F" "p \<le> hi l" "proper n l" "\<forall>x \<in> set F1. hi l + 1 \<le> lo x"
    using sweep_drop(1-5,9)[OF side(1) l] by blast
  have pr: "proper n r" using sweep_drop(5)[OF side(2) r] .
  have pts: "lo r \<le> hi l \<and> x \<in> iv_points n l \<inter> iv_points n r"
    if "p \<le> x \<and> x \<le> hi l \<and> x \<in> list_points n (l # ls) \<and> x \<in> list_points n (r # rs)" for x
  proof -
    have "x \<in> iv_points n l" using sweep_drop(6)[OF side(1) l] that by blast
    moreover have "x \<in> iv_points n r" using sweep_drop(6)[OF side(2) r] that lt by (meson le_trans less_imp_le)
    ultimately show ?thesis using iv_points_of_proper[OF pr] that by simp
  qed
  show ?thesis
  proof (cases "lo r \<le> hi l")
    case True
    obtain D2 G2 F2 where D2: "D2 = (if lo r < lo l then [mk_iv n (lo r) (lo l - 1)] else [])"
      and sp: "iv_rest n r l @ r # rs = D2 @ G2 @ F2" "sweep_side n (hi l + 1) D2 G2 F2"
      "sweep_size G2 F2 = sweep_size G' F'" "list_points n (D2 @ G2 @ F2) = list_points n (r # rs)"
      "lo (hd G2) = hi l + 1" "G2 \<noteq> []"
      using sweep_split[OF side(2) r dl(5) dl(4) lt True] by blast
    have "D1 = [] \<or> D2 = []"
    proof (cases "G = []")
      case False
      then have "lo l \<le> p" using l sweep_sideD(2)[OF side(1), of l] by (cases G) auto
      moreover have "p \<le> lo r" using False one r sweep_sideD(5)[OF side(2), of r] by auto
      ultimately show ?thesis using D2 by simp
    qed (use D1 in simp)
    moreover have "\<forall>x \<in> set (take 1 F1). hi l + 1 \<le> lo x" using dl(6) by (meson in_set_takeD)
    moreover have "\<forall>x \<in> set (take 1 (G2 @ F2)). hi l + 1 \<le> lo x" using sp(5,6) by (cases G2) auto
    ultimately have "sweep_inv n (hi l + 1) D1 [] F1 D2 G2 F2"
      unfolding sweep_inv_def using dl(2) sp(2) by simp
    moreover have "sweep_size [] F1 + sweep_size G2 F2 < sweep_size G F + sweep_size G' F'" using dl(3) sp(3) by linarith
    ultimately show ?thesis unfolding if_P[OF True] using dl(1) sp(1,4) pts by blast
  next
    case False
    have G': "G' = []" using False dl(4) r sweep_sideD(2)[OF side(2), of r] by (cases G') auto
    then have F': "F' = r # rs" "norm_list n F'" using r sweep_sideD(4)[OF side(2)] by simp_all
    then have "\<forall>x \<in> set F'. hi l + 1 \<le> lo x" using False pr by (auto simp: norm_list_Cons proper_def)
    then have "sweep_side n (hi l + 1) [] [] F'" "\<forall>x \<in> set (take 1 F'). hi l + 1 \<le> lo x"
      using F' by (auto simp: sweep_side_def dest: in_set_takeD)
    then have "sweep_inv n (hi l + 1) D1 [] F1 [] [] F'"
      unfolding sweep_inv_def using dl(2) by simp
    moreover have "sweep_size [] F1 + sweep_size [] F' < sweep_size G F + sweep_size G' F'" using dl(3) G' by simp
    moreover have "[] @ r # rs = [] @ [] @ F'" using F' by simp
    moreover have "list_points n ([] @ [] @ F') = list_points n (r # rs)" using F' by simp
    ultimately show ?thesis unfolding if_not_P[OF False] using dl(1) pts by blast
  qed
qed

text \<open>
  The loop ends and adds exactly the numbers both lists have from the frontier on. Every iteration
  removes a live interval from one side, or a dead one when the sides have any.
\<close>

definition sweep_post :: "nat \<Rightarrow> nat \<Rightarrow> nat set \<Rightarrow> nat set \<Rightarrow> interval_set \<Rightarrow> interval_set option \<Rightarrow> bool" where
  "sweep_post n p A B S res \<longleftrightarrow> (\<exists>S'. res = Some S' \<and> wf_set n S' \<and> set_points n S \<subseteq> set_points n S' \<and>
     set_points n S' \<subseteq> set_points n S \<union> A \<inter> B \<and> (\<forall>x \<ge> p. x \<in> A \<and> x \<in> B \<longrightarrow> x \<in> set_points n S'))"

lemma sweep_post_end: "wf_set n S \<Longrightarrow> A \<inter> B = {} \<Longrightarrow> sweep_post n p A B S (Some S)"
  by (auto simp: sweep_post_def)

text \<open>What an iteration keeps of the postcondition: it drops only numbers it has added or that lie below the new frontier.\<close>

lemma sweep_post_mono:
  assumes "sweep_post n p' A' B' S' res" "set_points n S \<subseteq> set_points n S'" "set_points n S' \<subseteq> set_points n S \<union> A \<inter> B"
    "A' \<subseteq> A" "B' \<subseteq> B" "\<forall>x \<ge> p. x \<in> A \<and> x \<in> B \<longrightarrow> x \<in> set_points n S' \<or> p' \<le> x \<and> x \<in> A' \<and> x \<in> B'"
  shows "sweep_post n p A B S res"
proof -
  obtain S'' where S'': "res = Some S''" "wf_set n S''" "set_points n S' \<subseteq> set_points n S''"
    "set_points n S'' \<subseteq> set_points n S' \<union> A' \<inter> B'" "\<forall>x \<ge> p'. x \<in> A' \<and> x \<in> B' \<longrightarrow> x \<in> set_points n S''"
    using assms(1) unfolding sweep_post_def by blast
  have "set_points n S'' \<subseteq> set_points n S \<union> A \<inter> B" using S''(4) assms(3,4,5) by blast
  moreover have "\<forall>x \<ge> p. x \<in> A \<and> x \<in> B \<longrightarrow> x \<in> set_points n S''" using S''(3,5) assms(6) by blast
  ultimately show ?thesis using S''(1,2,3) assms(2) unfolding sweep_post_def by blast
qed

lemma sweep_dead:
  assumes inv: "sweep_inv n p (d # D) G F [] G' F'" and r: "G' @ F' = r # rs"
  shows "proper n d" "proper n r" "hi d < hi r" "\<not> lo r \<le> hi d" "sweep_inv n p D G F [] G' F'" "\<forall>x \<in> iv_points n d. x < p"
proof -
  have side: "sweep_side n p (d # D) G F" "sweep_side n p [] G' F'" and lr: "p \<le> lo r"
    using inv r by (auto simp: sweep_inv_def)
  show d: "proper n d" using sweep_sideD(1)[OF side(1), of d] by simp
  have hd: "hi d < p" using sweep_sideD(1)[OF side(1), of d] by simp
  show pr: "proper n r" by (rule sweep_drop(5)[OF side(2) r])
  show "hi d < hi r" "\<not> lo r \<le> hi d" using hd lr pr by (auto simp: proper_def)
  show "\<forall>x \<in> iv_points n d. x < p" using hd by (simp add: iv_points_of_proper[OF d])
  have "sweep_side n p D G F" using side(1) unfolding sweep_side_def list.set by blast
  then show "sweep_inv n p D G F [] G' F'" using inv by (simp add: sweep_inv_def)
qed

lemma sweep_both:
  assumes inv: "sweep_inv n p [] G F [] G' F'" and l: "G @ F = l # ls" and r: "G' @ F' = r # rs" and eq: "hi l = hi r"
  shows "\<exists>D1 F1 D2 F2. ls = D1 @ F1 \<and> rs = D2 @ F2 \<and> sweep_inv n (hi l + 1) D1 [] F1 D2 [] F2 \<and>
      sweep_size [] F1 + sweep_size [] F2 < sweep_size G F + sweep_size G' F'"
proof -
  have side: "sweep_side n p [] G F" "sweep_side n p [] G' F'" and one: "G = [] \<or> G' = []"
    using inv by (auto simp: sweep_inv_def)
  obtain D1 F1 where D1: "D1 = tl G" and dl: "ls = D1 @ F1" "sweep_side n (hi l + 1) D1 [] F1"
    "sweep_size [] F1 + 1 = sweep_size G F" "\<forall>x \<in> set F1. hi l + 1 \<le> lo x"
    using sweep_drop(1-3,9)[OF side(1) l] by blast
  obtain D2 F2 where D2: "D2 = tl G'" and dr: "rs = D2 @ F2" "sweep_side n (hi r + 1) D2 [] F2"
    "sweep_size [] F2 + 1 = sweep_size G' F'" "\<forall>x \<in> set F2. hi r + 1 \<le> lo x"
    using sweep_drop(1-3,9)[OF side(2) r] by blast
  have "D1 = [] \<or> D2 = []" using one D1 D2 by auto
  moreover have "\<forall>x \<in> set (take 1 F1). hi l + 1 \<le> lo x" "\<forall>x \<in> set (take 1 F2). hi l + 1 \<le> lo x"
    using dl(4) dr(4) eq by (auto dest: in_set_takeD)
  ultimately have "sweep_inv n (hi l + 1) D1 [] F1 D2 [] F2"
    unfolding sweep_inv_def using dl(2) dr(2) eq by simp
  moreover have "sweep_size [] F1 + sweep_size [] F2 < sweep_size G F + sweep_size G' F'" using dl(3) dr(3) by linarith
  ultimately show ?thesis using dl(1) dr(1) by blast
qed

text \<open>An iteration on two live heads, given that the rest of the loop is right.\<close>

lemma sweep_live_lt:
  assumes inv: "sweep_inv n p [] G F [] G' F'" and l: "G @ F = l # ls" and r: "G' @ F' = r # rs" and lt: "hi l < hi r"
    and S: "wf_set n S"
    and IH: "\<And>D1 F1 D2 G2 F2 T. sweep_size [] F1 + sweep_size G2 F2 < sweep_size G F + sweep_size G' F' \<Longrightarrow>
      sweep_inv n (hi l + 1) D1 [] F1 D2 G2 F2 \<Longrightarrow> wf_set n T \<Longrightarrow>
      sweep_post n (hi l + 1) (list_points n (D1 @ F1)) (list_points n (D2 @ G2 @ F2)) T (loop (D1 @ F1) (D2 @ G2 @ F2) T)"
  shows "sweep_post n p (list_points n (l # ls)) (list_points n (r # rs)) S
    (if lo r \<le> hi l then loop ls (iv_rest n r l @ r # rs) (set_add (iv_meet n l r) S) else loop ls (r # rs) S)"
proof -
  let ?T = "if lo r \<le> hi l then set_add (iv_meet n l r) S else S"
  obtain D1 F1 D2 G2 F2 where adv: "ls = D1 @ F1" "(if lo r \<le> hi l then iv_rest n r l else []) @ r # rs = D2 @ G2 @ F2"
    "sweep_inv n (hi l + 1) D1 [] F1 D2 G2 F2"
    "sweep_size [] F1 + sweep_size G2 F2 < sweep_size G F + sweep_size G' F'"
    "list_points n (D2 @ G2 @ F2) = list_points n (r # rs)"
    and pts: "\<forall>x. p \<le> x \<and> x \<le> hi l \<and> x \<in> list_points n (l # ls) \<and> x \<in> list_points n (r # rs) \<longrightarrow>
         lo r \<le> hi l \<and> x \<in> iv_points n l \<inter> iv_points n r"
    using sweep_advance[OF inv l r lt] by blast
  have side: "sweep_side n p [] G F" "sweep_side n p [] G' F'" using inv by (auto simp: sweep_inv_def)
  have pl: "proper n l" "proper n r" using sweep_drop(5)[OF side(1) l] sweep_drop(5)[OF side(2) r] .
  have T: "wf_set n ?T" using S by (simp add: iv_meet_def)
  have "lo l \<le> hi r" using lt pl by (simp add: proper_def)
  then have Tp: "set_points n ?T = set_points n S \<union> (if lo r \<le> hi l then iv_points n l \<inter> iv_points n r else {})"
    using iv_points_meet[OF pl] by simp
  have "sweep_post n (hi l + 1) (list_points n ls) (list_points n (r # rs)) ?T
      (loop ls ((if lo r \<le> hi l then iv_rest n r l else []) @ r # rs) ?T)"
    using IH[OF adv(4,3) T] adv(1,2,5) by simp
  then have "sweep_post n p (list_points n (l # ls)) (list_points n (r # rs)) S
      (loop ls ((if lo r \<le> hi l then iv_rest n r l else []) @ r # rs) ?T)"
  proof (rule sweep_post_mono)
    show "\<forall>x \<ge> p. x \<in> list_points n (l # ls) \<and> x \<in> list_points n (r # rs) \<longrightarrow>
        x \<in> set_points n ?T \<or> hi l + 1 \<le> x \<and> x \<in> list_points n ls \<and> x \<in> list_points n (r # rs)"
    proof (intro allI impI)
      fix x assume x: "p \<le> x" "x \<in> list_points n (l # ls) \<and> x \<in> list_points n (r # rs)"
      show "x \<in> set_points n ?T \<or> hi l + 1 \<le> x \<and> x \<in> list_points n ls \<and> x \<in> list_points n (r # rs)"
      proof (cases "x \<le> hi l")
        case True
        then have "lo r \<le> hi l" "x \<in> iv_points n l \<inter> iv_points n r" using pts x by blast+
        then show ?thesis unfolding Tp by simp
      next
        case False
        then show ?thesis using sweep_drop(7)[OF side(1) l] x by simp
      qed
    qed
  qed (use Tp in auto)
  then show ?thesis by (cases "lo r \<le> hi l") simp_all
qed

lemma sweep_post_swap: "sweep_post n p A B S res \<longleftrightarrow> sweep_post n p B A S res"
  by (auto simp: sweep_post_def)

lemma iv_meet_commute: "iv_meet n l r = iv_meet n r l"
  by (simp add: iv_meet_def max.commute min.commute)

lemma sweep_live:
  assumes ok: "bignum_ok L val" and inv: "sweep_inv n p [] G F [] G' F'" and S: "wf_set n S"
    and IH: "\<And>p D1 G1 F1 D2 G2 F2 T. sweep_size G1 F1 + sweep_size G2 F2 < sweep_size G F + sweep_size G' F' \<Longrightarrow>
      sweep_inv n p D1 G1 F1 D2 G2 F2 \<Longrightarrow> wf_set n T \<Longrightarrow>
      sweep_post n p (list_points n (D1 @ G1 @ F1)) (list_points n (D2 @ G2 @ F2)) T
        (Intersect_loop L (D1 @ G1 @ F1) (D2 @ G2 @ F2) T)"
  shows "sweep_post n p (list_points n (G @ F)) (list_points n (G' @ F')) S (Intersect_loop L (G @ F) (G' @ F') S)"
proof (cases "G @ F = [] \<or> G' @ F' = []")
  case True
  then show ?thesis using S by (auto simp: Intersect_loop_empty sweep_post_end)
next
  case False
  then obtain l ls r rs where l: "G @ F = l # ls" and r: "G' @ F' = r # rs" by (meson neq_Nil_conv)
  have side: "sweep_side n p [] G F" "sweep_side n p [] G' F'" using inv by (auto simp: sweep_inv_def)
  have pl: "proper n l" "proper n r" using sweep_drop(5)[OF side(1) l] sweep_drop(5)[OF side(2) r] .
  note step = Intersect_loop_step[OF ok pl S, of ls rs]
  consider "hi l < hi r" | "hi r < hi l" | "hi l = hi r" by linarith
  then show ?thesis
  proof cases
    case 1
    show ?thesis unfolding l r step(1)[OF 1]
    proof (rule sweep_live_lt[OF inv l r 1 S])
      fix D1 F1 D2 G2 F2 T
      assume "sweep_size [] F1 + sweep_size G2 F2 < sweep_size G F + sweep_size G' F'"
        "sweep_inv n (hi l + 1) D1 [] F1 D2 G2 F2" "wf_set n T"
      then show "sweep_post n (hi l + 1) (list_points n (D1 @ F1)) (list_points n (D2 @ G2 @ F2)) T
          (Intersect_loop L (D1 @ F1) (D2 @ G2 @ F2) T)"
        using IH[of "[]" F1 G2 F2 "hi l + 1" D1 D2 T] by simp
    qed
  next
    case 2
    have "sweep_post n p (list_points n (r # rs)) (list_points n (l # ls)) S
        (if lo l \<le> hi r then (\<lambda>a b. Intersect_loop L b a) rs (iv_rest n l r @ l # ls) (set_add (iv_meet n r l) S)
         else (\<lambda>a b. Intersect_loop L b a) rs (l # ls) S)"
    proof (rule sweep_live_lt[OF inv[unfolded sweep_inv_sym[of n p "[]" G]] r l 2 S])
      fix D1 F1 D2 G2 F2 T
      assume "sweep_size [] F1 + sweep_size G2 F2 < sweep_size G' F' + sweep_size G F"
        "sweep_inv n (hi r + 1) D1 [] F1 D2 G2 F2" "wf_set n T"
      then show "sweep_post n (hi r + 1) (list_points n (D1 @ F1)) (list_points n (D2 @ G2 @ F2)) T
          (Intersect_loop L (D2 @ G2 @ F2) (D1 @ F1) T)"
        using IH[of G2 F2 "[]" F1 "hi r + 1" D2 D1 T] sweep_inv_sym[of n "hi r + 1" D2 G2 F2]
          sweep_post_swap[of n _ "list_points n (D1 @ F1)"] by (simp add: add.commute)
    qed
    then show ?thesis unfolding l r step(2)[OF 2] sweep_post_swap[of n p "list_points n (l # ls)"]
      iv_meet_commute[of n l r] .
  next
    case 3
    obtain D1 F1 D2 F2 where b: "ls = D1 @ F1" "rs = D2 @ F2" "sweep_inv n (hi l + 1) D1 [] F1 D2 [] F2"
      "sweep_size [] F1 + sweep_size [] F2 < sweep_size G F + sweep_size G' F'"
      using sweep_both[OF inv l r 3] by blast
    let ?T = "set_add (iv_meet n l r) S"
    have o: "lo l \<le> hi r" "lo r \<le> hi l" using pl 3 by (auto simp: proper_def)
    have T: "wf_set n ?T" "set_points n ?T = set_points n S \<union> iv_points n l \<inter> iv_points n r"
      using S iv_points_meet[OF pl o] by (simp_all add: iv_meet_def)
    have "sweep_post n (hi l + 1) (list_points n ls) (list_points n rs) ?T (Intersect_loop L ls rs ?T)"
      using IH[OF b(4,3) T(1)] b(1,2) by simp
    then have "sweep_post n p (list_points n (l # ls)) (list_points n (r # rs)) S (Intersect_loop L ls rs ?T)"
    proof (rule sweep_post_mono)
      show "\<forall>x \<ge> p. x \<in> list_points n (l # ls) \<and> x \<in> list_points n (r # rs) \<longrightarrow>
          x \<in> set_points n ?T \<or> hi l + 1 \<le> x \<and> x \<in> list_points n ls \<and> x \<in> list_points n rs"
        using sweep_drop(6,7)[OF side(1) l] sweep_drop(6,7)[OF side(2) r] 3 T(2)
        by (metis (no_types, lifting) IntI UnCI Suc_eq_plus1 not_less_eq_eq)
    qed (use T(2) in auto)
    then show ?thesis unfolding l r step(3)[OF 3] .
  qed
qed

lemma Intersect_loop_ok:
  assumes ok: "bignum_ok L val"
  shows "sweep_size G F + sweep_size G' F' = m \<Longrightarrow> sweep_inv n p D G F D' G' F' \<Longrightarrow> wf_set n S \<Longrightarrow>
    sweep_post n p (list_points n (D @ G @ F)) (list_points n (D' @ G' @ F')) S
      (Intersect_loop L (D @ G @ F) (D' @ G' @ F') S)"
proof (induction m arbitrary: p D G F D' G' F' S rule: less_induct)
  case (less m)
  note outer = less.IH and m = less.prems(1) and S = less.prems(3)
  show ?case using less.prems(2)
  proof (induction "length D + length D'" arbitrary: D D')
    case (Suc k)
    have one: "D = [] \<or> D' = []" using Suc.prems by (simp add: sweep_inv_def)
    show ?case
    proof (cases D)
      case (Cons d D1)
      then have D': "D' = []" using one by simp
      show ?thesis
      proof (cases "G' @ F'")
        case Nil
        then show ?thesis using S D' by (simp add: Intersect_loop_empty sweep_post_end)
      next
        case (Cons r rs)
        note dead = sweep_dead[OF Suc.prems[unfolded \<open>D = d # D1\<close> D'] Cons]
        have "sweep_post n p (list_points n (D1 @ G @ F)) (list_points n (D' @ G' @ F')) S
            (Intersect_loop L (D1 @ G @ F) (D' @ G' @ F') S)"
          using Suc.hyps(1)[of D1 D'] Suc.hyps(2) dead(5) D' \<open>D = d # D1\<close> by simp
        moreover have "Intersect_loop L (D @ G @ F) (D' @ G' @ F') S = Intersect_loop L (D1 @ G @ F) (D' @ G' @ F') S"
          using Intersect_loop_step(1)[OF ok dead(1,2) S dead(3), of "D1 @ G @ F" rs] dead(4) D' Cons \<open>D = d # D1\<close> by simp
        ultimately show ?thesis
          using dead(6) \<open>D = d # D1\<close> by (auto elim!: sweep_post_mono)
      qed
    next
      case Nil
      then obtain d D1 where D': "D' = d # D1" using Suc.hyps(2) by (cases D') auto
      show ?thesis
      proof (cases "G @ F")
        case Nil
        then show ?thesis using S \<open>D = []\<close> by (simp add: Intersect_loop_empty sweep_post_end)
      next
        case (Cons l ls)
        note dead = sweep_dead[OF Suc.prems[unfolded \<open>D = []\<close> D', unfolded sweep_inv_sym[of n p "[]"]] Cons]
        have "sweep_post n p (list_points n (D @ G @ F)) (list_points n (D1 @ G' @ F')) S
            (Intersect_loop L (D @ G @ F) (D1 @ G' @ F') S)"
          using Suc.hyps(1)[of D D1] Suc.hyps(2) dead(5) D' \<open>D = []\<close> sweep_inv_sym[of n p "[]"] by simp
        moreover have "Intersect_loop L (D @ G @ F) (D' @ G' @ F') S = Intersect_loop L (D @ G @ F) (D1 @ G' @ F') S"
          using Intersect_loop_step(2)[OF ok dead(2,1) S dead(3), of ls "D1 @ G' @ F'"] dead(4) D' Cons \<open>D = []\<close> by simp
        ultimately show ?thesis
          using dead(6) D' by (auto elim!: sweep_post_mono)
      qed
    qed
  next
    case 0
    then have D: "D = []" "D' = []" by auto
    show ?case using sweep_live[OF ok "0.prems"[unfolded D] S] outer m unfolding D by simp
  qed
qed

lemma IntervalSet_Intersect_ok:
  assumes ok: "bignum_ok L val" and "norm_set n A" "norm_set n B"
  shows "\<exists>S. IntervalSet_Intersect L A B = Some S \<and> norm_set n S \<and> set_points n S = set_points n A \<inter> set_points n B"
proof -
  have "sweep_inv n 0 [] [] (intervals A) [] [] (intervals B)"
    using assms(2,3) by (simp add: sweep_inv_def sweep_side_def norm_set_def)
  from Intersect_loop_ok[OF ok refl this wf_set_new(1)]
  obtain R where R: "Intersect_loop L (intervals A) (intervals B) (IntervalSet_new n) = Some R" "wf_set n R"
    "set_points n R = set_points n A \<inter> set_points n B"
    by (auto simp: sweep_post_def set_points_def[of n "IntervalSet_new n"] set_points_def[of n A] set_points_def[of n B])
  show ?thesis using IntervalSet_Normalize_ok[OF ok R(2)] R(1,3) assms(2,3) norm_set_wf[of n A] norm_set_wf[of n B]
    by (auto simp: IntervalSet_Intersect_def Intervals_def norm_set_def)
qed

lemma IntervalSet_Complement_ok:
  assumes ok: "bignum_ok L val" and A: "norm_set n A"
  shows "\<exists>S. IntervalSet_Complement L A = Some S \<and> norm_set n S \<and> set_points n S = {..<2 ^ n} - set_points n A"
proof -
  let ?f = "\<lambda>iv r. do {
         cs \<leftarrow> Interval_Complement L iv;
         c \<leftarrow> for_state AddInterval cs (IntervalSet_new n);
         c \<leftarrow> IntervalSet_Normalize L c;
         IntervalSet_Intersect L r c }"
  have step: "\<exists>S. ?f iv R = Some S \<and> norm_set n S \<and> set_points n S = set_points n R - iv_points n iv"
    if iv: "proper n iv" and R: "norm_set n R" for iv R
  proof -
    obtain c d where iv': "iv = mk_iv n c d" "c \<le> d" "d < 2 ^ n" using iv by (auto elim: proper_cases)
    let ?cs = "(if 0 < c then [mk_iv n 0 (c - 1)] else []) @ (if d < mask n then [mk_iv n (d + 1) (mask n)] else [])"
    have cs: "list_points n ?cs = {..<2 ^ n} - iv_points n iv"
    proof -
      have m: "Suc (mask n) = 2 ^ n" using le_mask_iff[of "mask n" n] by (simp add: mask_eq_exp_minus_1)
      have "list_points n (if 0 < c then [mk_iv n 0 (c - 1)] else []) = {..<c}" using iv'(2,3) by auto
      moreover have "list_points n (if d < mask n then [mk_iv n (d + 1) (mask n)] else []) = {d<..<2 ^ n}"
      proof (cases "d < mask n")
        case True
        then have "{d + 1..mask n} = {d<..<2 ^ n}" using m by auto
        then show ?thesis using True by simp
      next
        case False
        then have "{d<..<2 ^ n} = {}" using m by auto
        then show ?thesis using False by simp
      qed
      ultimately show ?thesis using iv' by auto
    qed
    have "\<forall>x \<in> set ?cs. wf_iv n x" by auto
    note add = AddInterval_all[OF wf_set_new(1) this]
    obtain C where C: "IntervalSet_Normalize L (IntervalSet_new n\<lparr>is_normalized := is_normalized (IntervalSet_new n) \<and> ?cs = [],
          intervals := intervals (IntervalSet_new n) @ ?cs\<rparr>) = Some C" "norm_set n C" "set_points n C = list_points n ?cs"
      using IntervalSet_Normalize_ok[OF ok add(2)] by (auto simp: set_points_def)
    have "set_points n R \<subseteq> {..<2 ^ n}" using list_points_bound by (auto simp: set_points_def)
    then have "set_points n R \<inter> set_points n C = set_points n R - iv_points n iv" using C(3) cs by auto
    then show ?thesis
      using IntervalSet_Intersect_ok[OF ok R C(2)] C(1) add(1) Interval_Complement_eq[OF ok iv'(2,3)] iv'(1) by simp
  qed
  have loop: "\<exists>S. for_state ?f ivs R = Some S \<and> norm_set n S \<and> set_points n S = set_points n R - list_points n ivs"
    if "\<forall>iv \<in> set ivs. proper n iv" "norm_set n R" for ivs R
    using that
  proof (induction ivs arbitrary: R)
    case (Cons iv ivs)
    obtain S where S: "?f iv R = Some S" "norm_set n S" "set_points n S = set_points n R - iv_points n iv"
      using step[of iv R] Cons.prems by auto
    then show ?case using Cons.IH[OF _ S(2)] Cons.prems by (auto simp: Diff_Un Diff_Int_distrib)
  qed auto
  obtain M where M: "IntervalSet_Maximal L n = Some M" "norm_set n M" "set_points n M = {..<2 ^ n}"
    using IntervalSet_Maximal_ok[OF ok] by blast
  show ?thesis using loop[OF _ M(2), of "intervals A"] A M(1,3) norm_set_wf[OF A]
    by (auto simp: IntervalSet_Complement_def Intervals_def norm_set_def norm_list_def set_points_def[of n A])
qed

section \<open>Queries\<close>

lemma extremum_insert:
  fixes X :: "nat set"
  assumes "finite X"
  shows "Min (insert (min a m) X) = Min (insert m (insert a X))" "Max (insert (max a m) X) = Max (insert m (insert a X))"
  using assms by (cases "X = {}"; simp add: ac_simps)+

lemma IntervalSet_bounds_eq:
  assumes S: "wf_set n S"
  shows "IntervalSet_LowerBound S = Some (if intervals S = [] then None else Some (mk_bits n (Min (lo ` set (intervals S)))))"
    and "IntervalSet_UpperBound S = Some (if intervals S = [] then None else Some (mk_bits n (Max (hi ` set (intervals S)))))"
proof -
  have w: "lower_bound iv = mk_bits n (lo iv) \<and> upper_bound iv = mk_bits n (hi iv) \<and> lo iv < 2 ^ n \<and> hi iv < 2 ^ n"
    if "wf_iv n iv" for iv
    using wf_iv_eq[OF that] wf_iv_bounds[OF that] by (metis mk_iv_fields(2,3))
  let ?l = "\<lambda>iv lower. (case lower of
         Some l \<Rightarrow> do { less \<leftarrow> ULessThan (lower_bound iv) l; Some (if less then Some (lower_bound iv) else lower) }
       | None \<Rightarrow> Some (Some (lower_bound iv)))"
  have l: "for_state ?l ivs (Some (mk_bits n m)) = Some (Some (mk_bits n (Min (insert m (lo ` set ivs)))))"
    if "\<forall>iv \<in> set ivs. wf_iv n iv" "m < 2 ^ n" for ivs m
    using that
  proof (induction ivs arbitrary: m)
    case (Cons iv ivs)
    have "?l iv (Some (mk_bits n m)) = Some (Some (mk_bits n (min (lo iv) m)))"
      using w[of iv] Cons.prems by (auto simp: min_def)
    then show ?case using Cons.IH[of "min (lo iv) m"] Cons.prems w[of iv]
      by (simp only: for_state.simps bind.bind_lunit list.set image_insert extremum_insert finite_imageI finite_set)
        (simp add: min_def)
  qed simp
  let ?u = "\<lambda>iv upper. (case upper of
         Some u \<Rightarrow> do { greater \<leftarrow> UGreaterThan (upper_bound iv) u; Some (if greater then Some (upper_bound iv) else upper) }
       | None \<Rightarrow> Some (Some (upper_bound iv)))"
  have u: "for_state ?u ivs (Some (mk_bits n m)) = Some (Some (mk_bits n (Max (insert m (hi ` set ivs)))))"
    if "\<forall>iv \<in> set ivs. wf_iv n iv" "m < 2 ^ n" for ivs m
    using that
  proof (induction ivs arbitrary: m)
    case (Cons iv ivs)
    have "?u iv (Some (mk_bits n m)) = Some (Some (mk_bits n (max (hi iv) m)))"
      using w[of iv] Cons.prems by (auto simp: max_def)
    then show ?case using Cons.IH[of "max (hi iv) m"] Cons.prems w[of iv]
      by (simp only: for_state.simps bind.bind_lunit list.set image_insert extremum_insert finite_imageI finite_set)
        (simp add: max_def)
  qed simp
  show "IntervalSet_LowerBound S = Some (if intervals S = [] then None else Some (mk_bits n (Min (lo ` set (intervals S)))))"
    "IntervalSet_UpperBound S = Some (if intervals S = [] then None else Some (mk_bits n (Max (hi ` set (intervals S)))))"
    using S l u w by (cases "intervals S"; auto simp: IntervalSet_LowerBound_def IntervalSet_UpperBound_def wf_set_def)+
qed

text \<open>The convex hull of a set without wrapped intervals is the smallest interval around its numbers.\<close>

lemma IntervalSet_ConvexHull_eq:
  assumes S: "wf_set n S" and "\<forall>iv \<in> set (intervals S). proper n iv"
  shows "IntervalSet_ConvexHull S = Some (if set_points n S = {} then None
     else Some (mk_iv n (Min (set_points n S)) (Max (set_points n S))))"
proof (cases "intervals S = []")
  case True
  then show ?thesis using S
    by (simp add: IntervalSet_ConvexHull_def IntervalSet_bounds_eq[OF S] set_points_def wf_set_def)
next
  case False
  have pts: "set_points n S = (\<Union>iv \<in> set (intervals S). {lo iv..hi iv})"
    using assms(2) by (simp add: set_points_def list_points_def iv_points_of_proper)
  have fin: "finite (set_points n S)" by (simp add: pts)
  have ne: "set_points n S \<noteq> {}" using False assms(2) by (auto simp: pts proper_def neq_Nil_conv)
  have "Min (set_points n S) = Min (lo ` set (intervals S))"
  proof (rule Min_eqI[OF fin])
    fix y assume "y \<in> set_points n S"
    then obtain iv where "iv \<in> set (intervals S)" "lo iv \<le> y" by (auto simp: pts)
    then show "Min (lo ` set (intervals S)) \<le> y" by (meson List.finite_set Min_le finite_imageI imageI le_trans)
  next
    have "Min (lo ` set (intervals S)) \<in> lo ` set (intervals S)" using False by (intro Min_in) auto
    then show "Min (lo ` set (intervals S)) \<in> set_points n S" using assms(2) by (auto simp: pts proper_def)
  qed
  moreover have "Max (set_points n S) = Max (hi ` set (intervals S))"
  proof (rule Max_eqI[OF fin])
    fix y assume "y \<in> set_points n S"
    then obtain iv where "iv \<in> set (intervals S)" "y \<le> hi iv" by (auto simp: pts)
    then show "y \<le> Max (hi ` set (intervals S))" by (meson List.finite_set Max_ge finite_imageI imageI le_trans)
  next
    have "Max (hi ` set (intervals S)) \<in> hi ` set (intervals S)" using False by (intro Max_in) auto
    then obtain iv where "iv \<in> set (intervals S)" "Max (hi ` set (intervals S)) = hi iv" by auto
    then show "Max (hi ` set (intervals S)) \<in> set_points n S" unfolding pts using assms(2)
      by (intro UN_I[of iv]) (simp_all add: proper_def)
  qed
  ultimately show ?thesis using S False ne
    by (simp add: IntervalSet_ConvexHull_def IntervalSet_bounds_eq[OF S] wf_set_def)
qed

lemma norm_walk:
  "norm_list n ivs \<Longrightarrow> concat (map (\<lambda>iv. [lo iv..<Suc (hi iv)]) ivs) = sorted_list_of_set (list_points n ivs)"
proof (induction ivs)
  case (Cons iv ivs)
  note p = norm_points_Cons[OF Cons.prems]
  have fin: "finite (list_points n ivs)" using finite_subset[of _ "{..<2 ^ n}"] list_points_bound by blast
  have "sorted_list_of_set ({lo iv..hi iv} \<union> list_points n ivs) = [lo iv..<Suc (hi iv)] @ sorted_list_of_set (list_points n ivs)"
  proof (rule sorted_distinct_set_unique)
    show "sorted ([lo iv..<Suc (hi iv)] @ sorted_list_of_set (list_points n ivs))"
      using p(2) fin by (fastforce simp: sorted_append simp del: upt_Suc)
    show "distinct ([lo iv..<Suc (hi iv)] @ sorted_list_of_set (list_points n ivs))"
      using p(2) fin by (fastforce simp del: upt_Suc)
  qed (use fin in \<open>auto simp del: upt_Suc\<close>)
  then show ?case using Cons.IH Cons.prems p(1) by (simp add: norm_list_Cons del: upt_Suc)
qed simp

lemma IntervalSet_ForEachElement_eq:
  assumes ok: "bignum_ok L val" and S: "norm_set n S"
  shows "IntervalSet_ForEachElement L f S s =
    Some (visit_until f (map (mk_bits n) (sorted_list_of_set (set_points n S))) s)"
proof -
  have "ForEachElement_intervals L f ivs s = Some (visit_until f (map (mk_bits n) (concat (map (\<lambda>iv. [lo iv..<Suc (hi iv)]) ivs))) s)"
    if "\<forall>iv \<in> set ivs. proper n iv" for ivs
    using that
  proof (induction ivs arbitrary: s)
    case (Cons iv ivs)
    obtain a b where iv: "iv = mk_iv n a b" "a \<le> b" "b < 2 ^ n" "lo iv = a" "hi iv = b"
      using Cons.prems proper_cases[of n iv] by auto
    have "Interval_ForEachElement L f iv s = Some (visit_until f (map (mk_bits n) [a..<Suc b]) s)" for s
      using Interval_ForEachElement_eq[OF ok, of a n b f s] iv(2,3) unfolding iv(1) by (simp add: iv_walk_def)
    then show ?case using Cons iv(4,5) by (simp add: visit_until_append Let_def del: upt_Suc)
  qed simp
  then show ?thesis
    using S norm_walk[of n "intervals S"] by (simp add: IntervalSet_ForEachElement_def norm_set_def norm_list_def set_points_def)
qed

lemma finite_list_points [simp]: "finite (list_points n ivs)"
  using finite_subset[of _ "{..<2 ^ n}"] list_points_bound by blast

lemma norm_card_Cons:
  assumes "norm_list n (iv # ivs)"
  shows "card (list_points n (iv # ivs)) = (hi iv - lo iv + 1) + card (list_points n ivs)"
proof -
  note p = norm_points_Cons[OF assms]
  have "{lo iv..hi iv} \<inter> list_points n ivs = {}" using p(2) by fastforce
  then show ?thesis using p(1,3) by (simp add: card_Un_disjoint)
qed

lemma Size_sum_eq:
  assumes ok: "bignum_ok L val"
  shows "norm_list n ivs \<Longrightarrow> t + card (list_points n ivs) < 2 ^ 63 \<Longrightarrow>
    Size_sum L ivs (word_of_nat t) = Some (Some (word_of_nat (t + card (list_points n ivs))))"
proof (induction ivs arbitrary: t)
  case (Cons iv ivs)
  obtain a b where iv: "iv = mk_iv n a b" "a \<le> b" "b < 2 ^ n" "lo iv = a" "hi iv = b"
    using Cons.prems(1) proper_cases[of n iv] by (auto simp: norm_list_Cons)
  have c: "card (iv_points n iv) = b - a + 1" using iv by (simp add: iv_points_proper)
  have t: "card (list_points n (iv # ivs)) = (b - a + 1) + card (list_points n ivs)"
    using norm_card_Cons[OF Cons.prems(1)] iv(4,5) by simp
  then have "Interval_Size L iv = Some (Some (word_of_nat (b - a + 1)))"
    using Interval_Size_eq[OF ok, of a n b] iv(1-3) c Cons.prems(2) by simp
  then have "Size_sum L (iv # ivs) (word_of_nat t) = Size_sum L ivs (word_of_nat (t + (b - a + 1)))" by (simp add: ac_simps)
  also have "\<dots> = Some (Some (word_of_nat (t + (b - a + 1) + card (list_points n ivs))))"
    using Cons.IH[of "t + (b - a + 1)"] Cons.prems t by (simp add: norm_list_Cons)
  finally show ?case by (simp only: t add.assoc)
qed simp

lemma IntervalSet_Size_eq:
  assumes "bignum_ok L val" "norm_set n S" "card (set_points n S) < 2 ^ 63"
  shows "IntervalSet_Size L S = Some (Some (word_of_nat (card (set_points n S))))"
  using Size_sum_eq[OF assms(1), of n "intervals S" 0] assms(2,3) by (simp add: IntervalSet_Size_def norm_set_def set_points_def)

lemma Index_search_eq:
  assumes ok: "bignum_ok L val"
  shows "norm_list n ivs \<Longrightarrow> i < 2 ^ (n + 1) \<Longrightarrow>
    (let walk = concat (map (\<lambda>iv. [lo iv..<Suc (hi iv)]) ivs) in
     if i < length walk
     then \<exists>iv j. Index_search L ivs (mk_bits (n + 1) i) = Some (Some iv, mk_bits (n + 1) j) \<and>
            proper n iv \<and> lo iv + j \<le> hi iv \<and> walk ! i = lo iv + j
     else \<exists>b. Index_search L ivs (mk_bits (n + 1) i) = Some (None, b))"
proof (induction ivs arbitrary: i)
  case (Cons iv ivs)
  obtain a b where iv: "iv = mk_iv n a b" "a \<le> b" "b < 2 ^ n" "lo iv = a" "hi iv = b"
    using Cons.prems(1) proper_cases[of n iv] by (auto simp: norm_list_Cons)
  let ?w = "concat (map (\<lambda>iv. [lo iv..<Suc (hi iv)]) ivs)"
  have sz: "SizeBits L iv = Some (mk_bits (n + 1) (b - a + 1))" "b - a + 1 < 2 ^ (n + 1)"
    using SizeBits_proper_eq[OF ok iv(2,3)] iv by auto
  show ?case
  proof (cases "i < b - a + 1")
    case True
    have "[a..<Suc b] ! i = a + i" using True iv(2) by (simp add: nth_upt del: upt_Suc)
    then show ?thesis using True sz Cons.prems iv
      by (auto simp: nth_append norm_list_Cons simp del: upt_Suc intro!: exI[of _ iv] exI[of _ i])
  next
    case False
    have "mk_int (n + 1) (int i - int (b - a + 1)) = mk_bits (n + 1) (i - (b - a + 1))"
      using mk_int_of_nat[of "n + 1" "i - (b - a + 1)"] False by (simp add: of_nat_diff)
    then have "Index_search L (iv # ivs) (mk_bits (n + 1) i) = Index_search L ivs (mk_bits (n + 1) (i - (b - a + 1)))"
      using False sz Cons.prems(2) by (simp add: bits_ops_Sub_eq[OF ok])
    moreover obtain w where w: "?w = w" by blast
    moreover have "concat (map (\<lambda>iv. [lo iv..<Suc (hi iv)]) (iv # ivs)) = [a..<Suc b] @ w" using iv w by simp
    moreover have "length [a..<Suc b] = b - a + 1" using iv(2) by simp
    moreover have "i - (b - a + 1) < length w \<longleftrightarrow> i < b - a + 1 + length w" using False by linarith
    ultimately show ?thesis
      using Cons.IH[of "i - (b - a + 1)"] Cons.prems False unfolding Let_def
      by (simp only: norm_list_Cons nth_append length_append if_False) auto
  qed
qed simp

lemma IntervalSet_Index_eq:
  assumes ok: "bignum_ok L val" and S: "norm_set n S" and i: "i < 2 ^ n"
  shows "IntervalSet_Index L S (mk_bits n i) = Some (if i < card (set_points n S)
     then Some (mk_bits n (sorted_list_of_set (set_points n S) ! i)) else None)"
proof -
  have nl: "norm_list n (intervals S)" using S by (simp add: norm_set_def)
  have i1: "i < 2 ^ (n + 1)" using i by simp
  note w = norm_walk[OF nl, folded set_points_def]
  have len: "length (sorted_list_of_set (set_points n S)) = card (set_points n S)" by simp
  show ?thesis
  proof (cases "i < card (set_points n S)")
    case True
    then obtain iv j where iv: "Index_search L (intervals S) (mk_bits (n + 1) i) = Some (Some iv, mk_bits (n + 1) j)"
      "proper n iv" "lo iv + j \<le> hi iv" "sorted_list_of_set (set_points n S) ! i = lo iv + j"
      using Index_search_eq[OF ok nl i1] len unfolding w by auto
    have b: "lo iv + j < 2 ^ n" using iv(2,3) wf_iv_bounds[of n iv] by (auto simp: proper_def)
    then have "\<not> bit (lo iv + j) n" by (metis bit_take_bit_iff less_irrefl take_bit_nat_eq_self)
    moreover have "lo iv + j < 2 ^ (n + 1)" using b by simp
    moreover have "lower_bound iv = mk_bits n (lo iv)" "lo iv < 2 ^ n" using wf_iv_eq[of n iv] iv(2) b by (metis mk_iv_fields(2) proper_wf, simp)
    ultimately show ?thesis using S True iv i b norm_set_wf[OF S]
      by (simp add: IntervalSet_Index_def norm_set_def Intervals_def bits_ops_Add_eq[OF ok] add.commute)
  next
    case False
    then obtain b where "Index_search L (intervals S) (mk_bits (n + 1) i) = Some (None, b)"
      using Index_search_eq[OF ok nl i1] len unfolding w by auto
    then show ?thesis using S False i norm_set_wf[OF S]
      by (simp add: IntervalSet_Index_def norm_set_def Intervals_def)
  qed
qed


lemma IntervalSet_ZeroExtend_ok:
  assumes ok: "bignum_ok L val" and S: "norm_set n S" and nm: "n \<le> m"
  shows "\<exists>T. IntervalSet_ZeroExtend L S m = Some T \<and> norm_set m T \<and> set_points m T = set_points n S"
proof -
  let ?g = "\<lambda>iv. mk_iv m (lo iv) (hi iv)"
  have pr: "\<forall>iv \<in> set (intervals S). proper n iv" using S by (simp add: norm_set_def norm_list_def)
  have g: "Interval_ZeroExtend iv m = Some (?g iv)" "wf_iv m (?g iv)" "iv_points m (?g iv) = iv_points n iv" if in_S: "iv \<in> set (intervals S)" for iv
  proof -
    obtain a b where iv: "iv = mk_iv n a b" "a \<le> b" "b < 2 ^ n" "lo iv = a" "hi iv = b"
      using bspec[OF pr in_S] by (rule proper_cases)
    moreover have "b < 2 ^ m" using iv(3) nm order_less_le_trans[OF iv(3) power_increasing[OF nm]] by simp
    ultimately show "Interval_ZeroExtend iv m = Some (?g iv)" "wf_iv m (?g iv)" "iv_points m (?g iv) = iv_points n iv"
      using nm Interval_ZeroExtend_eq[of a n b m] by (auto simp: iv_points_mk_iv)
  qed
  have "for_state (\<lambda>iv r. do { iv' \<leftarrow> Interval_ZeroExtend iv m; AddInterval iv' r }) (intervals S) T =
      for_state AddInterval (map ?g (intervals S)) T" for T
    unfolding for_state_map by (rule for_state_cong) (simp add: g(1))
  moreover have "list_points m (map ?g (intervals S)) = set_points n S" using g(3) by (simp add: list_points_def set_points_def)
  moreover note AddInterval_all[OF wf_set_new(1), of "map ?g (intervals S)" m]
  ultimately show ?thesis
    using g(2) nm norm_set_wf[OF S] S IntervalSet_Normalize_ok[OF ok AddInterval_all(2)[OF wf_set_new(1), of "map ?g (intervals S)" m]]
    by (simp add: IntervalSet_ZeroExtend_def Intervals_def norm_set_def set_points_def)
qed

lemma IntervalSet_IsMaximal_eq:
  assumes ok: "bignum_ok L val" and S: "norm_set n S"
  shows "IntervalSet_IsMaximal L S = Some (set_points n S = {..<2 ^ n})"
proof -
  have pr: "\<forall>iv \<in> set (intervals S). proper n iv" "norm_list n (intervals S)" using S by (simp_all add: norm_set_def norm_list_def)
  have f: "Interval_IsMaximal L iv = Some (iv_points n iv = {..<2 ^ n})" if "iv \<in> set (intervals S)" for iv
    using pr that proper_cases[of n iv] Interval_IsMaximal_eq[OF ok] by (metis order_le_less_trans)
  have m: "norm_list n [mk_iv n 0 (mask n)]" "list_points n [mk_iv n 0 (mask n)] = {..<2 ^ n}"
    by (auto simp: norm_list_def proper_def le_mask_iff iv_points_mk_iv)
  have "(\<exists>iv \<in> set (intervals S). iv_points n iv = {..<2 ^ n}) \<longleftrightarrow> set_points n S = {..<2 ^ n}"
  proof
    assume "\<exists>iv \<in> set (intervals S). iv_points n iv = {..<2 ^ n}"
    then show "set_points n S = {..<2 ^ n}" using list_points_bound[of _ n "intervals S"] by (auto simp: set_points_def list_points_def)
  next
    assume "set_points n S = {..<2 ^ n}"
    then have "intervals S = [mk_iv n 0 (mask n)]" using norm_list_unique[OF pr(2) m(1)] m(2) by (simp add: set_points_def)
    then show "\<exists>iv \<in> set (intervals S). iv_points n iv = {..<2 ^ n}" using m(2) by simp
  qed
  moreover have "for_find (\<lambda>iv. do { x \<leftarrow> Interval_IsMaximal L iv; Some (if x then Some True else None) }) (intervals S)
     = Some (if \<exists>iv \<in> set (intervals S). iv_points n iv = {..<2 ^ n} then Some True else None)"
    by (intro for_find_test) (simp add: f)
  ultimately show ?thesis using S by (auto simp: IntervalSet_IsMaximal_def norm_set_def)
qed

lemma norm_set_small:
  assumes S: "norm_set n S"
  shows "set_points n S = {} \<longleftrightarrow> intervals S = []"
    and "a < 2 ^ n \<Longrightarrow> set_points n S = {a} \<longleftrightarrow> intervals S = [mk_iv n a a]"
proof -
  have nl: "norm_list n (intervals S)" using S by (simp add: norm_set_def)
  show "set_points n S = {} \<longleftrightarrow> intervals S = []"
    using norm_list_unique[OF nl norm_list_Nil] list_points_simps(1)[of n] unfolding set_points_def by metis
  assume "a < 2 ^ n"
  then have a: "norm_list n [mk_iv n a a]" "list_points n [mk_iv n a a] = {a}" by (auto simp: norm_list_def proper_def iv_points_mk_iv)
  have "intervals S = [mk_iv n a a]" if "list_points n (intervals S) = {a}"
    using norm_list_unique[OF nl a(1)] that unfolding a(2) by blast
  then show "set_points n S = {a} \<longleftrightarrow> intervals S = [mk_iv n a a]" using a(2) unfolding set_points_def by metis
qed

lemma IntervalSet_IsEmpty_eq: "norm_set n S \<Longrightarrow> IntervalSet_IsEmpty S = Some (set_points n S = {})"
  using norm_set_small(1)[of n S] by (simp add: IntervalSet_IsEmpty_def norm_set_def)

lemma IsPrecise_two:
  assumes "norm_list n (iv # iv2 # ivs)"
  shows "IsPrecise_loop (iv # iv2 # ivs) None = Some False"
proof -
  have p: "proper n iv" "proper n iv2" "hi iv + 1 < lo iv2" using assms by (auto simp: norm_list_Cons)
  obtain a b where iv: "iv = mk_iv n a b" "a \<le> b" "b < 2 ^ n" "hi iv = b" using p(1) by (rule proper_cases)
  obtain c d where iv2: "iv2 = mk_iv n c d" "c \<le> d" "d < 2 ^ n" "lo iv2 = c" using p(2) by (rule proper_cases)
  have lt: "b + 1 < c" using p(3) iv(4) iv2(4) by simp
  have "Interval_eq iv iv2 = Some False" using iv(2,3) iv2(2,3) lt unfolding iv(1) iv2(1) by (subst Interval_eq_eq) auto
  moreover have "Interval_IsPrecise iv = Some (a = b)" using iv(2,3) unfolding iv(1) by (simp add: Interval_IsPrecise_eq)
  ultimately show ?thesis by simp
qed

lemma IntervalSet_IsPrecise_eq:
  assumes S: "norm_set n S"
  shows "IntervalSet_IsPrecise S = Some (card (set_points n S) \<le> 1)"
proof -
  have nl: "norm_list n (intervals S)" using S by (simp add: norm_set_def)
  consider "intervals S = []" | iv where "intervals S = [iv]" | iv iv2 ivs where "intervals S = iv # iv2 # ivs"
    by (cases "intervals S"; cases "tl (intervals S)") auto
  then have "IsPrecise_loop (intervals S) None = Some (card (set_points n S) \<le> 1)"
  proof cases
    case (2 iv)
    then have "proper n iv" using nl by (simp add: norm_list_Cons)
    then obtain a b where iv: "iv = mk_iv n a b" "a \<le> b" "b < 2 ^ n" by (rule proper_cases)
    then show ?thesis using 2 by (auto simp: set_points_def Interval_IsPrecise_eq iv_points_mk_iv)
  next
    case (3 iv iv2 ivs)
    have "card (set_points n S) \<ge> 2"
      using norm_card_Cons[of n iv "iv2 # ivs"] norm_card_Cons[of n iv2 ivs] nl 3 by (simp add: norm_list_Cons set_points_def)
    then show ?thesis using IsPrecise_two[OF nl[unfolded 3]] 3 by simp
  qed (simp add: set_points_def)
  then show ?thesis using S by (simp add: IntervalSet_IsPrecise_def norm_set_def)
qed

lemma IntervalSet_GetPreciseValue_eq:
  assumes S: "norm_set n S"
  shows "set_points n S = {a} \<Longrightarrow> IntervalSet_GetPreciseValue S = Some (Some (mk_bits n a))"
    and "card (set_points n S) > 1 \<Longrightarrow> IntervalSet_GetPreciseValue S = Some None"
    and "set_points n S = {} \<Longrightarrow> IntervalSet_GetPreciseValue S = None"
proof -
  assume a: "set_points n S = {a}"
  then have "a < 2 ^ n" using list_points_bound[of a n "intervals S"] by (simp add: set_points_def)
  then show "IntervalSet_GetPreciseValue S = Some (Some (mk_bits n a))"
    using S norm_set_small(2)[OF S, of a] a IntervalSet_IsPrecise_eq[OF S, unfolded a]
    by (simp add: IntervalSet_GetPreciseValue_def norm_set_def Interval_GetPreciseValue_eq list_at_def)
next
  assume "card (set_points n S) > 1"
  then show "IntervalSet_GetPreciseValue S = Some None"
    using S IntervalSet_IsPrecise_eq[OF S] by (simp add: IntervalSet_GetPreciseValue_def norm_set_def)
next
  assume "set_points n S = {}"
  then show "IntervalSet_GetPreciseValue S = None"
    using S IntervalSet_IsPrecise_eq[OF S] norm_set_small(1)[OF S] by (simp add: IntervalSet_GetPreciseValue_def norm_set_def)
qed

lemma IntervalSet_Covers_consts:
  assumes "wf_set n S"
  shows "IntervalSet_CoversZero S = Some (0 \<in> set_points n S)"
    and "0 < n \<Longrightarrow> IntervalSet_CoversOne S = Some (1 \<in> set_points n S)"
    and "IntervalSet_CoversMax S = Some (mask n \<in> set_points n S)"
  using assms one_less_power[of "2::nat" n] by (simp_all add: IntervalSet_CoversZero_def IntervalSet_CoversOne_def IntervalSet_CoversMax_def IntervalSet_Covers_eq UBits_eq)

section \<open>The Boolean algebra of normalised interval sets\<close>

lemma norm_set_canonical: "norm_set n A \<Longrightarrow> norm_set n B \<Longrightarrow> set_points n A = set_points n B \<Longrightarrow> A = B"
  using norm_list_unique[of n "intervals A" "intervals B"]
  by (cases A; cases B) (simp add: norm_set_def set_points_def)

lemma interval_set_algebra:
  assumes ok: "bignum_ok L val"
  shows "set_algebra (norm_set n) (set_points n) {..<2 ^ n} (IntervalSet_Combine L) (IntervalSet_Intersect L) (IntervalSet_Complement L)"
proof (unfold_locales, goal_cases)
  case (1 A B)
  then show ?case by (rule norm_set_canonical)
next
  case (2 A)
  then show ?case using list_points_bound by (auto simp: set_points_def)
next
  case (3 A B)
  then show ?case using IntervalSet_Combine_ok[OF ok norm_set_wf norm_set_wf] by simp
next
  case (4 A B)
  then show ?case by (rule IntervalSet_Intersect_ok[OF ok])
next
  case (5 A)
  then show ?case by (rule IntervalSet_Complement_ok[OF ok])
qed

interpretation interval_sets: set_algebra "norm_set n" "set_points n" "{..<2 ^ n}"
  "IntervalSet_Combine int_bignum" "IntervalSet_Intersect int_bignum" "IntervalSet_Complement int_bignum" for n
  by (rule interval_set_algebra) (rule int_bignum_ok)

end
