(* ===== verification/Bdd.thy ===== *)
theory Bdd
  imports XlsPrelude
begin

text \<open>
  \<open>xls/data_structures/binary_decision_diagram.h\<close> and \<open>.cc\<close>: binary decision diagrams with a unique
  table and a cache of if-then-else results. The diagram is a record that every operation that adds
  nodes returns updated. Variables and node indices are integers, because the two leaves carry the
  variable and the children \<open>-1\<close>; that an index fits 32 bits is not modelled. The invariant \<open>bdd_inv\<close>
  says that the diagram is ordered and reduced and that both tables are true; under it the operations
  compute what they say, always end, and equal functions have equal nodes.
\<close>

section \<open>The diagram\<close>

record BddNode =
  bn_variable :: int
  bn_high :: int
  bn_low :: int
  bn_path_count :: int

record BinaryDecisionDiagram =
  next_var :: int
  nodes :: "BddNode list"
  node_map :: "int \<times> int \<times> int \<Rightarrow> int option"
  ite_map :: "int \<times> int \<times> int \<Rightarrow> int option"

definition bdd_leaf :: BddNode where
  "bdd_leaf = \<lparr>bn_variable = - 1, bn_high = - 1, bn_low = - 1, bn_path_count = 1\<rparr>"

definition bdd_new :: BinaryDecisionDiagram where
  "bdd_new = \<lparr>next_var = 0, nodes = [bdd_leaf, bdd_leaf], node_map = (\<lambda>_. None), ite_map = (\<lambda>_. None)\<rparr>"

definition bdd_zero :: int where
  "bdd_zero = 0"

definition bdd_one :: int where
  "bdd_one = 1"

definition GetNode :: "BinaryDecisionDiagram \<Rightarrow> int \<Rightarrow> BddNode option" where
  "GetNode b node_index = (if 0 \<le> node_index then list_at (nodes b) (nat node_index) else None)"

definition bdd_size :: "BinaryDecisionDiagram \<Rightarrow> nat" where
  "bdd_size b = length (nodes b)"

definition variable_count :: "BinaryDecisionDiagram \<Rightarrow> int" where
  "variable_count b = next_var b"

definition bdd_path_count :: "BinaryDecisionDiagram \<Rightarrow> int \<Rightarrow> int option" where
  "bdd_path_count b expr = do { n \<leftarrow> GetNode b expr; Some (bn_path_count n) }"

definition IsVariableBaseNode :: "BinaryDecisionDiagram \<Rightarrow> int \<Rightarrow> bool option" where
  "IsVariableBaseNode b expr = do { n \<leftarrow> GetNode b expr; Some (bn_high n = bdd_one \<and> bn_low n = bdd_zero) }"

definition GetVariableBaseNode :: "BinaryDecisionDiagram \<Rightarrow> int \<Rightarrow> int option" where
  "GetVariableBaseNode b variable = node_map b (variable, bdd_one, bdd_zero)"

definition GetOrCreateNode :: "int \<Rightarrow> int \<Rightarrow> int \<Rightarrow> BinaryDecisionDiagram \<Rightarrow> (int \<times> BinaryDecisionDiagram) option" where
  "GetOrCreateNode var high low b =
     (case node_map b (var, high, low) of
        Some i \<Rightarrow> Some (i, b)
      | None \<Rightarrow>
          if low = high then Some (low, b)
          else do {
            l \<leftarrow> GetNode b low;
            h \<leftarrow> GetNode b high;
            let paths = min (bn_path_count l + bn_path_count h) (2 ^ 31 - 1);
            let node = \<lparr>bn_variable = var, bn_high = high, bn_low = low, bn_path_count = paths\<rparr>;
            let node_index = int (length (nodes b));
            Some (node_index, b\<lparr>nodes := nodes b @ [node], node_map := (node_map b)((var, high, low) \<mapsto> node_index)\<rparr>) })"

definition Restrict :: "BinaryDecisionDiagram \<Rightarrow> int \<Rightarrow> int \<Rightarrow> bool \<Rightarrow> int option" where
  "Restrict b expr var value =
     (if expr = bdd_zero \<or> expr = bdd_one then Some expr
      else do {
        node \<leftarrow> GetNode b expr;
        check (var \<le> bn_variable node);
        Some (if bn_variable node = var then (if value then bn_high node else bn_low node) else expr) })"

text \<open>The lowest variable of the three expressions; only the condition is known not to be a leaf.\<close>

definition min_with :: "BinaryDecisionDiagram \<Rightarrow> int \<Rightarrow> int \<Rightarrow> int option" where
  "min_with b expr v =
     (if expr \<noteq> bdd_zero \<and> expr \<noteq> bdd_one then do { n \<leftarrow> GetNode b expr; Some (min v (bn_variable n)) } else Some v)"

partial_function (option) IfThenElse :: "int \<Rightarrow> int \<Rightarrow> int \<Rightarrow> BinaryDecisionDiagram \<Rightarrow> (int \<times> BinaryDecisionDiagram) option" where
  "IfThenElse cond if_true if_false b =
     (if cond = bdd_one then Some (if_true, b)
      else if cond = bdd_zero then Some (if_false, b)
      else if if_true = bdd_one \<and> if_false = bdd_zero then Some (cond, b)
      else if if_true = if_false then Some (if_true, b)
      else case ite_map b (cond, if_true, if_false) of
        Some r \<Rightarrow> Some (r, b)
      | None \<Rightarrow> do {
          n \<leftarrow> GetNode b cond;
          v \<leftarrow> min_with b if_true (bn_variable n);
          min_var \<leftarrow> min_with b if_false v;
          c1 \<leftarrow> Restrict b cond min_var True;
          t1 \<leftarrow> Restrict b if_true min_var True;
          f1 \<leftarrow> Restrict b if_false min_var True;
          r1 \<leftarrow> IfThenElse c1 t1 f1 b;
          c0 \<leftarrow> Restrict (snd r1) cond min_var False;
          t0 \<leftarrow> Restrict (snd r1) if_true min_var False;
          f0 \<leftarrow> Restrict (snd r1) if_false min_var False;
          r0 \<leftarrow> IfThenElse c0 t0 f0 (snd r1);
          if fst r1 = fst r0
          then Some (fst r1, (snd r0)\<lparr>ite_map := (ite_map (snd r0))((cond, if_true, if_false) \<mapsto> fst r1)\<rparr>)
          else do {
            r \<leftarrow> GetOrCreateNode min_var (fst r1) (fst r0) (snd r0);
            Some (fst r, (snd r)\<lparr>ite_map := (ite_map (snd r))((cond, if_true, if_false) \<mapsto> fst r)\<rparr>) } })"

definition NewVariable :: "BinaryDecisionDiagram \<Rightarrow> (int \<times> BinaryDecisionDiagram) option" where
  "NewVariable b = GetOrCreateNode (next_var b) bdd_one bdd_zero (b\<lparr>next_var := next_var b + 1\<rparr>)"

definition bdd_Not :: "int \<Rightarrow> BinaryDecisionDiagram \<Rightarrow> (int \<times> BinaryDecisionDiagram) option" where
  "bdd_Not expr b = IfThenElse expr bdd_zero bdd_one b"

definition bdd_Or :: "int \<Rightarrow> int \<Rightarrow> BinaryDecisionDiagram \<Rightarrow> (int \<times> BinaryDecisionDiagram) option" where
  "bdd_Or x y b = IfThenElse x bdd_one y b"

definition bdd_And :: "int \<Rightarrow> int \<Rightarrow> BinaryDecisionDiagram \<Rightarrow> (int \<times> BinaryDecisionDiagram) option" where
  "bdd_And x y b = IfThenElse x y bdd_zero b"

partial_function (option) Evaluate_loop :: "BinaryDecisionDiagram \<Rightarrow> (int \<Rightarrow> bool option) \<Rightarrow> int \<Rightarrow> bool status_or option" where
  "Evaluate_loop b variable_values result =
     (if result \<noteq> bdd_zero \<and> result \<noteq> bdd_one then do {
        node \<leftarrow> GetNode b result;
        var_node \<leftarrow> GetVariableBaseNode b (bn_variable node);
        (case variable_values var_node of
           None \<Rightarrow> Some (Inl InvalidArgumentError)
         | Some x \<Rightarrow> Evaluate_loop b variable_values (if x then bn_high node else bn_low node)) }
      else Some (Inr (result = bdd_one)))"

definition bdd_Evaluate :: "BinaryDecisionDiagram \<Rightarrow> int \<Rightarrow> (int \<Rightarrow> bool option) \<Rightarrow> bool status_or option" where
  "bdd_Evaluate b expr variable_values = Evaluate_loop b variable_values expr"

text \<open>
  \<open>ToStringDnf\<close>. The helper's output parameters are returned; the stack of terms is as it was on return.
\<close>

partial_function (option) ToStringDnfHelper ::
  "BinaryDecisionDiagram \<Rightarrow> int \<Rightarrow> int \<Rightarrow> string list \<Rightarrow> string \<Rightarrow> (int \<times> string) option" where
  "ToStringDnfHelper b expr minterms_to_emit terms str =
     (if minterms_to_emit < 0 then Some (minterms_to_emit, str)
      else if expr = bdd_zero then Some (minterms_to_emit, str)
      else if expr = bdd_one then
        Some (minterms_to_emit - 1,
          if minterms_to_emit = 0 then str @ '' + ...''
          else if str = [] then str @ str_join terms ''.''
          else str @ '' + '' @ str_join terms ''.'')
      else do {
        node \<leftarrow> GetNode b expr;
        r \<leftarrow> ToStringDnfHelper b (bn_high node) minterms_to_emit (terms @ [''x'' @ int_string (bn_variable node)]) str;
        ToStringDnfHelper b (bn_low node) (fst r) (terms @ [''!x'' @ int_string (bn_variable node)]) (snd r) })"

definition ToStringDnf :: "BinaryDecisionDiagram \<Rightarrow> int \<Rightarrow> int \<Rightarrow> string option" where
  "ToStringDnf b expr minterm_limit =
     (if expr = bdd_zero then Some ''0''
      else if expr = bdd_one then Some ''1''
      else do {
        r \<leftarrow> ToStringDnfHelper b expr (if minterm_limit = 0 then 2 ^ 63 - 1 else minterm_limit) [] [];
        Some (snd r) })"

section \<open>What a node means\<close>

text \<open>The truth function of a node, and the variable from which on it may depend.\<close>

function sem :: "BddNode list \<Rightarrow> (int \<Rightarrow> bool) \<Rightarrow> int \<Rightarrow> bool" where
  "sem ns env i =
     (if i \<le> 1 then i = 1
      else let n = ns ! nat i; j = (if env (bn_variable n) then bn_high n else bn_low n) in if j < i then sem ns env j else False)"
  by pat_completeness auto
termination
  by (relation "measure (\<lambda>(ns, env, i). nat i)") auto

declare sem.simps [simp del]

definition valid :: "BddNode list \<Rightarrow> int \<Rightarrow> bool" where
  "valid ns i \<longleftrightarrow> 0 \<le> i \<and> i < int (length ns)"

definition not_below :: "BddNode list \<Rightarrow> int \<Rightarrow> int \<Rightarrow> bool" where
  "not_below ns v i \<longleftrightarrow> i \<le> 1 \<or> v \<le> bn_variable (ns ! nat i)"

definition node_ok :: "BddNode list \<Rightarrow> int \<Rightarrow> bool" where
  "node_ok ns i \<longleftrightarrow> (let n = ns ! nat i in
     0 \<le> bn_variable n \<and> bn_high n \<noteq> bn_low n \<and> 0 \<le> bn_high n \<and> bn_high n < i \<and> 0 \<le> bn_low n \<and> bn_low n < i \<and>
     not_below ns (bn_variable n + 1) (bn_high n) \<and> not_below ns (bn_variable n + 1) (bn_low n) \<and>
     bn_path_count n = min (bn_path_count (ns ! nat (bn_low n)) + bn_path_count (ns ! nat (bn_high n))) (2 ^ 31 - 1))"

definition node_key :: "BddNode \<Rightarrow> int \<times> int \<times> int" where
  "node_key n = (bn_variable n, bn_high n, bn_low n)"

definition unique_ok :: "BinaryDecisionDiagram \<Rightarrow> bool" where
  "unique_ok b \<longleftrightarrow> (\<forall>k i. node_map b k = Some i \<longleftrightarrow> 2 \<le> i \<and> valid (nodes b) i \<and> node_key (nodes b ! nat i) = k)"

definition ite_result :: "BddNode list \<Rightarrow> int \<Rightarrow> int \<Rightarrow> int \<Rightarrow> int \<Rightarrow> bool" where
  "ite_result ns c t f r \<longleftrightarrow> valid ns r \<and>
     (\<forall>v. not_below ns v c \<and> not_below ns v t \<and> not_below ns v f \<longrightarrow> not_below ns v r) \<and>
     (\<forall>env. sem ns env r = (if sem ns env c then sem ns env t else sem ns env f))"

definition ite_ok :: "BinaryDecisionDiagram \<Rightarrow> bool" where
  "ite_ok b \<longleftrightarrow> (\<forall>c t f r. ite_map b (c, t, f) = Some r \<longrightarrow>
     valid (nodes b) c \<and> valid (nodes b) t \<and> valid (nodes b) f \<and> ite_result (nodes b) c t f r)"

definition bdd_core :: "BinaryDecisionDiagram \<Rightarrow> bool" where
  "bdd_core b \<longleftrightarrow> 2 \<le> length (nodes b) \<and> 0 \<le> next_var b \<and> bn_path_count (nodes b ! 0) = 1 \<and> bn_path_count (nodes b ! 1) = 1 \<and>
     (\<forall>i. 2 \<le> i \<and> valid (nodes b) i \<longrightarrow> node_ok (nodes b) i \<and> bn_variable (nodes b ! nat i) < next_var b) \<and>
     unique_ok b \<and> ite_ok b"

text \<open>Every variable has its base node.\<close>

definition bdd_inv :: "BinaryDecisionDiagram \<Rightarrow> bool" where
  "bdd_inv b \<longleftrightarrow> bdd_core b \<and> (\<forall>v. 0 \<le> v \<and> v < next_var b \<longrightarrow> node_map b (v, 1, 0) \<noteq> None)"

text \<open>A later diagram has the same nodes and perhaps more.\<close>

definition extends :: "BinaryDecisionDiagram \<Rightarrow> BinaryDecisionDiagram \<Rightarrow> bool" where
  "extends b b' \<longleftrightarrow> next_var b' = next_var b \<and> (\<exists>ns. nodes b' = nodes b @ ns)"

lemmas bdd_leaves = bdd_zero_def bdd_one_def

lemma sem_leaf [simp]: "sem ns env 0 = False" "sem ns env 1 = True"
  by (simp_all add: sem.simps)

lemma not_below_leaf [simp]: "not_below ns v 0" "not_below ns v 1"
  by (simp_all add: not_below_def)

lemma not_below_mono: "not_below ns w i \<Longrightarrow> v \<le> w \<Longrightarrow> not_below ns v i"
  by (auto simp: not_below_def)

lemma bdd_coreD:
  assumes "bdd_core b"
  shows "2 \<le> length (nodes b)" "0 \<le> next_var b" "\<forall>i. 2 \<le> i \<and> valid (nodes b) i \<longrightarrow> node_ok (nodes b) i"
    "2 \<le> i \<Longrightarrow> valid (nodes b) i \<Longrightarrow> node_ok (nodes b) i"
    "2 \<le> i \<Longrightarrow> valid (nodes b) i \<Longrightarrow> bn_variable (nodes b ! nat i) < next_var b" "unique_ok b" "ite_ok b"
    "valid (nodes b) 0" "valid (nodes b) 1"
  using assms by (auto simp: bdd_core_def valid_def)

lemma GetNode_valid: "valid (nodes b) i \<Longrightarrow> GetNode b i = Some (nodes b ! nat i)"
  by (auto simp: GetNode_def valid_def nat_less_iff)

lemma valid_append: "valid ns i \<Longrightarrow> valid (ns @ ms) i"
  by (simp add: valid_def)

lemma nth_valid: "valid ns i \<Longrightarrow> (ns @ ms) ! nat i = ns ! nat i"
  by (auto simp: valid_def nth_append nat_less_iff)

lemma not_below_append: "valid ns i \<Longrightarrow> not_below (ns @ ms) v i = not_below ns v i"
  by (simp add: not_below_def nth_valid)

lemma node_ok_append: "valid ns i \<Longrightarrow> node_ok ns i \<Longrightarrow> node_ok (ns @ ms) i"
  by (auto simp: node_ok_def Let_def nth_valid valid_def not_below_append nth_append nat_less_iff)

lemma sem_node:
  assumes "node_ok ns i" "2 \<le> i"
  shows "sem ns env i = sem ns env (if env (bn_variable (ns ! nat i)) then bn_high (ns ! nat i) else bn_low (ns ! nat i))"
  using assms by (subst sem.simps) (auto simp: node_ok_def Let_def)

text \<open>The meaning of a node does not change when nodes are added.\<close>

lemma sem_append:
  assumes "\<forall>i. 2 \<le> i \<and> valid ns i \<longrightarrow> node_ok ns i" "valid ns i"
  shows "sem (ns @ ms) env i = sem ns env i"
  using assms(2)
proof (induction "nat i" arbitrary: i rule: less_induct)
  case less
  show ?case
  proof (cases "2 \<le> i")
    case False
    then have "i = 0 \<or> i = 1" using less.prems by (auto simp: valid_def)
    then show ?thesis by auto
  next
    case True
    let ?n = "ns ! nat i"
    have ok: "node_ok ns i" using assms(1) less.prems True by blast
    have "sem (ns @ ms) env j = sem ns env j" if "j = bn_high ?n \<or> j = bn_low ?n" for j
      using that ok less.prems by (intro less.hyps) (auto simp: node_ok_def Let_def valid_def)
    then show ?thesis
      using sem_node[OF ok True] sem_node[OF node_ok_append[OF less.prems ok] True] by (simp add: nth_valid[OF less.prems])
  qed
qed

text \<open>A node does not depend on the variables below its own.\<close>

lemma sem_indep:
  assumes "\<forall>i. 2 \<le> i \<and> valid ns i \<longrightarrow> node_ok ns i" "valid ns i" "not_below ns (v + 1) i"
  shows "sem ns (env(v := x)) i = sem ns env i"
  using assms(2,3)
proof (induction "nat i" arbitrary: i rule: less_induct)
  case less
  show ?case
  proof (cases "2 \<le> i")
    case False
    then have "i = 0 \<or> i = 1" using less.prems by (auto simp: valid_def)
    then show ?thesis by auto
  next
    case True
    let ?n = "ns ! nat i"
    have ok: "node_ok ns i" using assms(1) less.prems True by blast
    have lt: "v < bn_variable ?n" using less.prems(2) True by (auto simp: not_below_def)
    have "sem ns (env(v := x)) j = sem ns env j" if "j = bn_high ?n \<or> j = bn_low ?n" for j
      using that ok less.prems lt by (intro less.hyps) (auto simp: node_ok_def Let_def valid_def intro: not_below_mono)
    then show ?thesis using sem_node[OF ok True] lt by simp
  qed
qed

section \<open>Adding nodes\<close>

lemma extends_refl [simp]: "extends b b"
  by (simp add: extends_def)

lemma extends_trans: "extends a b \<Longrightarrow> extends b c \<Longrightarrow> extends a c"
  by (auto simp: extends_def)

lemma extendsD:
  assumes "bdd_core b" "extends b b'" "valid (nodes b) i"
  shows "valid (nodes b') i" "nodes b' ! nat i = nodes b ! nat i" "not_below (nodes b') v i = not_below (nodes b) v i"
    "sem (nodes b') env i = sem (nodes b) env i"
proof -
  obtain ms where ms: "nodes b' = nodes b @ ms" using assms(2) by (auto simp: extends_def)
  show "valid (nodes b') i" "nodes b' ! nat i = nodes b ! nat i" "not_below (nodes b') v i = not_below (nodes b) v i"
    unfolding ms using assms(3) by (simp_all add: valid_append nth_valid not_below_append)
  show "sem (nodes b') env i = sem (nodes b) env i"
    unfolding ms using sem_append[OF bdd_coreD(3)[OF assms(1)] assms(3)] .
qed

lemma ite_result_extends:
  assumes "bdd_core b" "extends b b'" "valid (nodes b) c" "valid (nodes b) t" "valid (nodes b) f" "ite_result (nodes b) c t f r"
  shows "ite_result (nodes b') c t f r"
proof -
  note e = extendsD[OF assms(1,2)]
  have r: "valid (nodes b) r" using assms(6) by (simp add: ite_result_def)
  show ?thesis using assms(6) e(1)[OF r] unfolding ite_result_def e(3)[OF r] e(4)[OF r] e(3)[OF assms(3)] e(3)[OF assms(4)]
      e(3)[OF assms(5)] e(4)[OF assms(3)] e(4)[OF assms(4)] e(4)[OF assms(5)] by blast
qed

lemma unique_lookup: "bdd_core b \<Longrightarrow> node_map b k = Some i \<longleftrightarrow> 2 \<le> i \<and> valid (nodes b) i \<and> node_key (nodes b ! nat i) = k"
  using bdd_coreD(6)[of b] unfolding unique_ok_def by blast

lemma base_extends:
  assumes "bdd_inv b" "bdd_core b'" "extends b b'"
  shows "bdd_inv b'"
proof -
  have "node_map b' (v, 1, 0) \<noteq> None" if v: "0 \<le> v" "v < next_var b'" for v
  proof -
    have c: "bdd_core b" using assms(1) by (simp add: bdd_inv_def)
    obtain i where "node_map b (v, 1, 0) = Some i" using assms(1,3) v unfolding bdd_inv_def extends_def not_None_eq by auto
    then have "node_map b' (v, 1, 0) = Some i"
      using unique_lookup[OF c] unique_lookup[OF assms(2)] extendsD(1,2)[OF c assms(3)] by simp
    then show ?thesis by simp
  qed
  then show ?thesis using assms(2) by (simp add: bdd_inv_def)
qed

text \<open>The cache may take any true entry.\<close>

lemma cache_core:
  assumes "bdd_core b" "valid (nodes b) c" "valid (nodes b) t" "valid (nodes b) f" "ite_result (nodes b) c t f r"
  shows "bdd_core (b\<lparr>ite_map := (ite_map b)((c, t, f) \<mapsto> r)\<rparr>)" "extends b (b\<lparr>ite_map := (ite_map b)((c, t, f) \<mapsto> r)\<rparr>)"
  using assms by (auto simp: bdd_core_def unique_ok_def ite_ok_def extends_def)

lemma GetOrCreateNode_ok:
  assumes c: "bdd_core b" and v: "0 \<le> v" "v < next_var b" and hl: "h \<noteq> l" "valid (nodes b) h" "valid (nodes b) l"
    and a: "not_below (nodes b) (v + 1) h" "not_below (nodes b) (v + 1) l"
  shows "yields (\<lambda>(r, b'). bdd_core b' \<and> extends b b' \<and> 2 \<le> r \<and> valid (nodes b') r \<and> node_key (nodes b' ! nat r) = (v, h, l))
    (GetOrCreateNode v h l b)"
proof (cases "node_map b (v, h, l)")
  case (Some i)
  then have "GetOrCreateNode v h l b = Some (i, b)" by (simp add: GetOrCreateNode_def)
  then show ?thesis using Some c unfolding unique_lookup[OF c] by simp
next
  case None
  let ?N = "int (length (nodes b))"
  let ?n = "\<lparr>bn_variable = v, bn_high = h, bn_low = l,
    bn_path_count = min (bn_path_count (nodes b ! nat l) + bn_path_count (nodes b ! nat h)) (2 ^ 31 - 1)\<rparr>"
  let ?b = "b\<lparr>nodes := nodes b @ [?n], node_map := (node_map b)((v, h, l) \<mapsto> ?N)\<rparr>"
  have run: "GetOrCreateNode v h l b = Some (?N, ?b)"
    using None hl by (simp add: GetOrCreateNode_def GetNode_valid Let_def)
  have ext: "extends b ?b" by (simp add: extends_def)
  have new: "valid (nodes ?b) i \<longleftrightarrow> valid (nodes b) i \<or> i = ?N" for i by (auto simp: valid_def)
  have N: "2 \<le> ?N" "(nodes b @ [?n]) ! nat ?N = ?n" using bdd_coreD(1)[OF c] by simp_all
  have okN: "node_ok (nodes b @ [?n]) ?N"
    using v(1) hl a nth_valid[OF hl(2), of "[?n]"] nth_valid[OF hl(3), of "[?n]"]
    unfolding node_ok_def Let_def N(2) by (simp add: valid_def not_below_append)
  have "node_ok (nodes ?b) i \<and> bn_variable (nodes ?b ! nat i) < next_var ?b" if "2 \<le> i" "valid (nodes ?b) i" for i
  proof (cases "i = ?N")
    case True
    then show ?thesis using okN N v(2) by simp
  next
    case False
    then have "valid (nodes b) i" using that new by blast
    then show ?thesis using bdd_coreD(4,5)[OF c that(1)] node_ok_append nth_valid by simp
  qed
  moreover have "unique_ok ?b" unfolding unique_ok_def
  proof (intro allI)
    fix k i
    show "node_map ?b k = Some i \<longleftrightarrow> 2 \<le> i \<and> valid (nodes ?b) i \<and> node_key (nodes ?b ! nat i) = k"
    proof (cases "i = ?N")
      case True
      have "node_map b k \<noteq> Some ?N" using unique_lookup[OF c] by (simp add: valid_def)
      then show ?thesis using True N new by (auto simp: node_key_def)
    next
      case False
      have "node_map ?b k = Some i \<longleftrightarrow> node_map b k = Some i" using False None by auto
      also have "\<dots> \<longleftrightarrow> 2 \<le> i \<and> valid (nodes b) i \<and> node_key (nodes b ! nat i) = k" by (rule unique_lookup[OF c])
      also have "\<dots> \<longleftrightarrow> 2 \<le> i \<and> valid (nodes ?b) i \<and> node_key (nodes ?b ! nat i) = k"
        using False new nth_valid[of "nodes b" i "[?n]"] by auto
      finally show ?thesis .
    qed
  qed
  moreover have "ite_ok ?b"
    using bdd_coreD(7)[OF c] extendsD(1)[OF c ext] ite_result_extends[OF c ext] unfolding ite_ok_def by simp
  moreover have "(nodes b @ [?n]) ! 0 = nodes b ! 0" "(nodes b @ [?n]) ! 1 = nodes b ! 1" using bdd_coreD(1)[OF c] by (auto simp: nth_append)
  ultimately have "bdd_core ?b" using bdd_coreD(1,2)[OF c] c by (simp add: bdd_core_def)
  then show ?thesis unfolding run using ext N new by (simp add: node_key_def)
qed

section \<open>If-then-else\<close>

lemma Restrict_ok:
  assumes c: "bdd_core b" and e: "valid (nodes b) e" "not_below (nodes b) v e"
  shows "\<exists>r. Restrict b e v x = Some r \<and> valid (nodes b) r \<and> not_below (nodes b) (v + 1) r \<and>
    (\<forall>w. not_below (nodes b) w e \<longrightarrow> not_below (nodes b) w r) \<and> (\<forall>env. env v = x \<longrightarrow> sem (nodes b) env e = sem (nodes b) env r)"
proof (cases "e = 0 \<or> e = 1")
  case True
  then show ?thesis using e(1) by (auto simp: Restrict_def bdd_leaves)
next
  case False
  then have e2: "2 \<le> e" using e(1) by (auto simp: valid_def)
  let ?n = "nodes b ! nat e"
  have ok: "node_ok (nodes b) e" using bdd_coreD(4)[OF c e2 e(1)] .
  have le: "v \<le> bn_variable ?n" using e(2) e2 by (simp add: not_below_def)
  let ?r = "if bn_variable ?n = v then (if x then bn_high ?n else bn_low ?n) else e"
  have run: "Restrict b e v x = Some ?r"
    using False le by (simp add: Restrict_def bdd_leaves GetNode_valid[OF e(1)])
  have "valid (nodes b) ?r" using ok e(1) by (auto simp: node_ok_def Let_def valid_def)
  moreover have "not_below (nodes b) (v + 1) ?r" using ok le e2 by (auto simp: node_ok_def Let_def not_below_def)
  moreover have "not_below (nodes b) w ?r" if "not_below (nodes b) w e" for w
    using that ok e2 by (auto simp: node_ok_def Let_def not_below_def)
  moreover have "sem (nodes b) env e = sem (nodes b) env ?r" if "env v = x" for env
    using sem_node[OF ok e2, of env] that by auto
  ultimately show ?thesis using run by blast
qed

lemma min_with_ok:
  assumes "valid (nodes b) e"
  shows "\<exists>w. min_with b e v = Some w \<and> w \<le> v \<and> not_below (nodes b) w e \<and> (\<forall>u. u \<le> v \<and> not_below (nodes b) u e \<longrightarrow> u \<le> w)"
proof (cases "e = 0 \<or> e = 1")
  case True
  then show ?thesis by (auto simp: min_with_def bdd_leaves)
next
  case False
  then have "2 \<le> e" using assms by (auto simp: valid_def)
  then show ?thesis by (auto simp: min_with_def bdd_leaves GetNode_valid[OF assms] not_below_def)
qed

text \<open>The variable the decomposition peels away: no expression is below it, and it is a variable.\<close>

lemma min_var_ok:
  assumes c: "bdd_core b" and V: "valid (nodes b) e" "valid (nodes b) t" "valid (nodes b) f" and e2: "2 \<le> e"
    and a: "not_below (nodes b) u e" "not_below (nodes b) u t" "not_below (nodes b) u f"
  shows "\<exists>w m. GetNode b e = Some (nodes b ! nat e) \<and> min_with b t (bn_variable (nodes b ! nat e)) = Some w \<and>
    min_with b f w = Some m \<and> u \<le> m \<and> 0 \<le> m \<and> m < next_var b \<and> not_below (nodes b) m e \<and> not_below (nodes b) m t \<and> not_below (nodes b) m f \<and>
    (\<forall>u. not_below (nodes b) u e \<and> not_below (nodes b) u t \<and> not_below (nodes b) u f \<longrightarrow> u \<le> m)"
proof -
  let ?v = "bn_variable (nodes b ! nat e)"
  have v: "0 \<le> ?v" "?v < next_var b" using bdd_coreD(4,5)[OF c e2 V(1)] by (auto simp: node_ok_def Let_def)
  obtain w where w: "min_with b t ?v = Some w" "w \<le> ?v" "not_below (nodes b) w t" "\<And>u. u \<le> ?v \<Longrightarrow> not_below (nodes b) u t \<Longrightarrow> u \<le> w"
    using min_with_ok[OF V(2), of ?v] by blast
  obtain m where m: "min_with b f w = Some m" "m \<le> w" "not_below (nodes b) m f" "\<And>u. u \<le> w \<Longrightarrow> not_below (nodes b) u f \<Longrightarrow> u \<le> m"
    using min_with_ok[OF V(3), of w] by blast
  have ev: "not_below (nodes b) u e \<longleftrightarrow> u \<le> ?v" for u using e2 by (simp add: not_below_def)
  have z: "not_below (nodes b) 0 j" if "valid (nodes b) j" for j
    using bdd_coreD(4)[OF c _ that] by (cases "2 \<le> j") (auto simp: node_ok_def Let_def not_below_def)
  have least: "u \<le> m" if "not_below (nodes b) u e" "not_below (nodes b) u t" "not_below (nodes b) u f" for u
    using that w(4) m(4) ev by blast
  have "0 \<le> m" using least z V by blast
  moreover have "u \<le> m" "m < next_var b" "not_below (nodes b) m e" using least a v m(2) w(2) ev by auto
  ultimately show ?thesis using GetNode_valid[OF V(1)] w(1) m(1,3) least not_below_mono[OF w(3) m(2)] by blast
qed

lemma ite_trivial:
  assumes V: "valid (nodes b) c" "valid (nodes b) t" "valid (nodes b) f"
  shows "ite_result (nodes b) 1 t f t" "ite_result (nodes b) 0 t f f" "ite_result (nodes b) c 1 0 c" "ite_result (nodes b) c t t t"
  using assms by (auto simp: ite_result_def)

text \<open>Both cofactors, put together under the variable.\<close>

lemma ite_cofactors:
  assumes node: "bdd_core b" "2 \<le> r" "valid (nodes b) r" "node_key (nodes b ! nat r) = (m, r1, r0)"
    and m: "\<And>u. not_below (nodes b) u c \<and> not_below (nodes b) u t \<and> not_below (nodes b) u f \<Longrightarrow> u \<le> m"
    and r1: "\<And>env. env m \<Longrightarrow> sem (nodes b) env r1 = (if sem (nodes b) env c then sem (nodes b) env t else sem (nodes b) env f)"
    and r0: "\<And>env. \<not> env m \<Longrightarrow> sem (nodes b) env r0 = (if sem (nodes b) env c then sem (nodes b) env t else sem (nodes b) env f)"
  shows "ite_result (nodes b) c t f r"
proof -
  have k: "bn_variable (nodes b ! nat r) = m" "bn_high (nodes b ! nat r) = r1" "bn_low (nodes b ! nat r) = r0"
    using node(4) by (simp_all add: node_key_def)
  have "not_below (nodes b) u r" if "not_below (nodes b) u c \<and> not_below (nodes b) u t \<and> not_below (nodes b) u f" for u
    using m[OF that] k by (simp add: not_below_def)
  moreover have "sem (nodes b) env r = (if sem (nodes b) env c then sem (nodes b) env t else sem (nodes b) env f)" for env
    unfolding sem_node[OF bdd_coreD(4)[OF node(1-3)] node(2)] k using r1[of env] r0[of env] by (cases "env m") auto
  ultimately show ?thesis using node(3) by (simp add: ite_result_def)
qed

lemma IfThenElse_ok:
  assumes "bdd_core b" "valid (nodes b) c" "valid (nodes b) t" "valid (nodes b) f"
    and "not_below (nodes b) (next_var b - int k) c" "not_below (nodes b) (next_var b - int k) t" "not_below (nodes b) (next_var b - int k) f"
  shows "yields (\<lambda>(r, b'). bdd_core b' \<and> extends b b' \<and> ite_result (nodes b') c t f r) (IfThenElse c t f b)"
  using assms
proof (induction k arbitrary: b c t f)
  case 0
  then have "c = 0 \<or> c = 1" using bdd_coreD(5)[OF 0(1) _ 0(2)] by (force simp: not_below_def valid_def)
  then show ?case using 0(1) ite_trivial[OF 0(2-4)] by (subst IfThenElse.simps) (auto simp: bdd_leaves)
next
  case (Suc k)
  note core = Suc.prems(1) and V = Suc.prems(2-4) and A = Suc.prems(5-7)
  let ?res = "\<lambda>(r, b'). bdd_core b' \<and> extends b b' \<and> ite_result (nodes b') c t f r"
  show ?case
  proof (cases "c = 0 \<or> c = 1 \<or> t = 1 \<and> f = 0 \<or> t = f \<or> ite_map b (c, t, f) \<noteq> None")
    case True
    have "ite_result (nodes b) c t f r" if "ite_map b (c, t, f) = Some r" for r
      using bdd_coreD(7)[OF core] that by (auto simp: ite_ok_def)
    then show ?thesis using True core ite_trivial[OF V] by (subst IfThenElse.simps) (auto simp: bdd_leaves)
  next
    case False
    then have c2: "2 \<le> c" using V(1) by (auto simp: valid_def)
    obtain w m where M: "GetNode b c = Some (nodes b ! nat c)" "min_with b t (bn_variable (nodes b ! nat c)) = Some w"
      "min_with b f w = Some m" "next_var b - int (Suc k) \<le> m" "0 \<le> m" "m < next_var b"
      "not_below (nodes b) m c" "not_below (nodes b) m t" "not_below (nodes b) m f"
      and least: "\<And>u. not_below (nodes b) u c \<and> not_below (nodes b) u t \<and> not_below (nodes b) u f \<Longrightarrow> u \<le> m"
      using min_var_ok[OF core V c2 A] by blast
    define cof where "cof = (\<lambda>x b'. do { c' \<leftarrow> Restrict b' c m x; t' \<leftarrow> Restrict b' t m x; f' \<leftarrow> Restrict b' f m x; IfThenElse c' t' f' b' })"
    have cofactor: "yields (\<lambda>(r, b2). bdd_core b2 \<and> extends b1 b2 \<and> valid (nodes b2) r \<and> not_below (nodes b2) (m + 1) r \<and>
        (\<forall>env. env m = x \<longrightarrow> sem (nodes b2) env r = (if sem (nodes b) env c then sem (nodes b) env t else sem (nodes b) env f)))
        (cof x b1)" if b1: "bdd_core b1" "extends b b1" for b1 x
    proof -
      note e = extendsD[OF core b1(2)]
      have nv: "next_var b1 - int k \<le> m + 1" using b1(2) M(4) by (simp add: extends_def)
      obtain c' where c': "Restrict b1 c m x = Some c'" "valid (nodes b1) c'" "not_below (nodes b1) (m + 1) c'"
        "\<And>env. env m = x \<Longrightarrow> sem (nodes b1) env c = sem (nodes b1) env c'"
        using Restrict_ok[OF b1(1) e(1)[OF V(1)], of m x] e(3)[OF V(1)] M(7) by auto
      obtain t' where t': "Restrict b1 t m x = Some t'" "valid (nodes b1) t'" "not_below (nodes b1) (m + 1) t'"
        "\<And>env. env m = x \<Longrightarrow> sem (nodes b1) env t = sem (nodes b1) env t'"
        using Restrict_ok[OF b1(1) e(1)[OF V(2)], of m x] e(3)[OF V(2)] M(8) by auto
      obtain f' where f': "Restrict b1 f m x = Some f'" "valid (nodes b1) f'" "not_below (nodes b1) (m + 1) f'"
        "\<And>env. env m = x \<Longrightarrow> sem (nodes b1) env f = sem (nodes b1) env f'"
        using Restrict_ok[OF b1(1) e(1)[OF V(3)], of m x] e(3)[OF V(3)] M(9) by auto
      have "yields (\<lambda>(r, b2). bdd_core b2 \<and> extends b1 b2 \<and> ite_result (nodes b2) c' t' f' r) (IfThenElse c' t' f' b1)"
        by (rule Suc.IH[OF b1(1) c'(2) t'(2) f'(2)]) (rule not_below_mono[OF c'(3) nv] not_below_mono[OF t'(3) nv] not_below_mono[OF f'(3) nv])+
      then have "yields (\<lambda>(r, b2). bdd_core b2 \<and> extends b1 b2 \<and> valid (nodes b2) r \<and> not_below (nodes b2) (m + 1) r \<and>
        (\<forall>env. env m = x \<longrightarrow> sem (nodes b2) env r = (if sem (nodes b) env c then sem (nodes b) env t else sem (nodes b) env f))) (IfThenElse c' t' f' b1)"
      proof (rule yields_mono, clarify, goal_cases)
        case (1 r b2)
        then have q: "bdd_core b2" "extends b1 b2" "ite_result (nodes b2) c' t' f' r" by auto
        note e2 = extendsD[OF b1(1) q(2)]
        have "not_below (nodes b2) (m + 1) r" using q(3) c'(3) t'(3) f'(3) e2(3)[OF c'(2)] e2(3)[OF t'(2)] e2(3)[OF f'(2)]
          unfolding ite_result_def by blast
        moreover have "sem (nodes b2) env r = (if sem (nodes b) env c then sem (nodes b) env t else sem (nodes b) env f)" if "env m = x" for env
          using q(3) that c'(4)[of env] t'(4)[of env] f'(4)[of env] e(4)[OF V(1)] e(4)[OF V(2)] e(4)[OF V(3)]
            e2(4)[OF c'(2)] e2(4)[OF t'(2)] e2(4)[OF f'(2)] by (simp add: ite_result_def)
        ultimately show ?case using q by (simp add: ite_result_def)
      qed
      then show ?thesis by (simp add: cof_def c'(1) t'(1) f'(1))
    qed
    have run: "IfThenElse c t f b = (do {
          r1 \<leftarrow> cof True b;
          r0 \<leftarrow> cof False (snd r1);
          if fst r1 = fst r0 then Some (fst r1, (snd r0)\<lparr>ite_map := (ite_map (snd r0))((c, t, f) \<mapsto> fst r1)\<rparr>)
          else do { r \<leftarrow> GetOrCreateNode m (fst r1) (fst r0) (snd r0);
            Some (fst r, (snd r)\<lparr>ite_map := (ite_map (snd r))((c, t, f) \<mapsto> fst r)\<rparr>) } })"
    proof -
      have nt: "\<not> (t = 1 \<and> f = 0)" "c \<noteq> 1" "c \<noteq> 0" "t \<noteq> f" "ite_map b (c, t, f) = None" using False by auto
      show ?thesis by (subst IfThenElse.simps) (simp add: bdd_leaves cof_def nt M(1-3))
    qed
    show ?thesis unfolding run
    proof (rule yields_bind[OF cofactor[OF core extends_refl]], clarify, rule yields_bind[OF cofactor], simp, simp, clarify, goal_cases)
      case (1 r1 b1 r0 b2)
      then have x1: "bdd_core b1" "extends b b1" and x2: "bdd_core b2" "extends b b2" "extends b1 b2" using extends_trans by auto
      note e = extendsD[OF core x2(2)] and e1 = extendsD[OF x1(1) x2(3)]
      have V2: "valid (nodes b2) c" "valid (nodes b2) t" "valid (nodes b2) f" using e(1) V by auto
      have least2: "u \<le> m" if "not_below (nodes b2) u c \<and> not_below (nodes b2) u t \<and> not_below (nodes b2) u f" for u
        using that least e(3) V by blast
      have r1: "valid (nodes b2) r1" "not_below (nodes b2) (m + 1) r1" and r0: "valid (nodes b2) r0" "not_below (nodes b2) (m + 1) r0"
        using 1 e1(1,3) by auto
      have s1: "sem (nodes b2) env r1 = (if sem (nodes b2) env c then sem (nodes b2) env t else sem (nodes b2) env f)" if "env m" for env
        using 1 that e(4) V e1(4) by simp
      have s0: "sem (nodes b2) env r0 = (if sem (nodes b2) env c then sem (nodes b2) env t else sem (nodes b2) env f)" if "\<not> env m" for env
        using 1 that e(4) V by simp
      show ?case
      proof (cases "r1 = r0")
        case True
        have "not_below (nodes b2) u r1" if "not_below (nodes b2) u c \<and> not_below (nodes b2) u t \<and> not_below (nodes b2) u f" for u
          using least2[OF that] not_below_mono[OF r1(2), of u] by simp
        then have "ite_result (nodes b2) c t f r1" using r1(1) s1 s0 True unfolding ite_result_def by metis
        then show ?thesis using cache_core[OF x2(1) V2] True extends_trans[OF x2(2)] by simp
      next
        case False
        have m2: "m < next_var b2" using M(6) x2(2) by (simp add: extends_def)
        show ?thesis unfolding fst_conv snd_conv if_not_P[OF False]
        proof (rule yields_bind[OF GetOrCreateNode_ok[OF x2(1) M(5) m2 False r1(1) r0(1) r1(2) r0(2)]], clarify, goal_cases)
          case (1 r b3)
          note e3 = extendsD[OF x2(1) 1(2)]
          have "ite_result (nodes b3) c t f r"
            by (rule ite_cofactors[OF 1(1,3,4,5)]) (use least2 e3(3,4) V2 s1 s0 r1(1) r0(1) in auto)
          then show ?case using cache_core[OF 1(1) e3(1) e3(1) e3(1)] V2 extends_trans[OF x2(2) extends_trans[OF 1(2)]] by simp
        qed
      qed
    qed
  qed
qed

section \<open>The public operations\<close>

lemma bdd_invD: "bdd_inv b \<Longrightarrow> bdd_core b" "bdd_inv b \<Longrightarrow> 0 \<le> v \<Longrightarrow> v < next_var b \<Longrightarrow> node_map b (v, 1, 0) \<noteq> None"
  unfolding bdd_inv_def by blast+

lemma bdd_new_inv: "bdd_inv bdd_new"
  by (auto simp: bdd_inv_def bdd_core_def bdd_new_def unique_ok_def ite_ok_def valid_def bdd_leaf_def)

text \<open>What an operation on expressions promises.\<close>

definition op_ok :: "BinaryDecisionDiagram \<Rightarrow> ((int \<Rightarrow> bool) \<Rightarrow> bool) \<Rightarrow> (int \<times> BinaryDecisionDiagram) option \<Rightarrow> bool" where
  "op_ok b g res \<longleftrightarrow> (\<exists>r b'. res = Some (r, b') \<and> bdd_inv b' \<and> extends b b' \<and> valid (nodes b') r \<and> (\<forall>env. sem (nodes b') env r = g env))"

lemma IfThenElse_inv:
  assumes I: "bdd_inv b" and V: "valid (nodes b) c" "valid (nodes b) t" "valid (nodes b) f"
  shows "op_ok b (\<lambda>env. if sem (nodes b) env c then sem (nodes b) env t else sem (nodes b) env f) (IfThenElse c t f b)"
proof -
  note core = bdd_invD(1)[OF I]
  have z: "not_below (nodes b) (next_var b - int (nat (next_var b))) j" if "valid (nodes b) j" for j
    using bdd_coreD(4)[OF core _ that] bdd_coreD(2)[OF core] by (cases "2 \<le> j") (auto simp: node_ok_def Let_def not_below_def)
  have "yields (\<lambda>(r, b'). bdd_core b' \<and> extends b b' \<and> ite_result (nodes b') c t f r) (IfThenElse c t f b)"
    by (rule IfThenElse_ok[OF core V z[OF V(1)] z[OF V(2)] z[OF V(3)]])
  then obtain r b' where r: "IfThenElse c t f b = Some (r, b')" "bdd_core b'" "extends b b'" "ite_result (nodes b') c t f r"
    by (auto simp: yields_def)
  note e = extendsD(4)[OF core r(3)]
  show ?thesis using r base_extends[OF I r(2,3)] e[OF V(1)] e[OF V(2)] e[OF V(3)] unfolding op_ok_def ite_result_def by auto
qed

lemma bdd_ops_ok:
  assumes I: "bdd_inv b" and V: "valid (nodes b) x" "valid (nodes b) y"
  shows "op_ok b (\<lambda>env. \<not> sem (nodes b) env x) (bdd_Not x b)"
    "op_ok b (\<lambda>env. sem (nodes b) env x \<and> sem (nodes b) env y) (bdd_And x y b)"
    "op_ok b (\<lambda>env. sem (nodes b) env x \<or> sem (nodes b) env y) (bdd_Or x y b)"
proof -
  have L: "valid (nodes b) 0" "valid (nodes b) 1" using bdd_coreD(8,9)[OF bdd_invD(1)[OF I]] .
  have cong: "op_ok b g r" if "op_ok b f r" "f = g" for f g r using that by simp
  show "op_ok b (\<lambda>env. \<not> sem (nodes b) env x) (bdd_Not x b)"
    unfolding bdd_Not_def bdd_leaves by (rule cong[OF IfThenElse_inv[OF I V(1) L]]) simp
  show "op_ok b (\<lambda>env. sem (nodes b) env x \<and> sem (nodes b) env y) (bdd_And x y b)"
    unfolding bdd_And_def bdd_leaves by (rule cong[OF IfThenElse_inv[OF I V L(1)]]) auto
  show "op_ok b (\<lambda>env. sem (nodes b) env x \<or> sem (nodes b) env y) (bdd_Or x y b)"
    unfolding bdd_Or_def bdd_leaves by (rule cong[OF IfThenElse_inv[OF I V(1) L(2) V(2)]]) auto
qed

lemma NewVariable_ok:
  assumes I: "bdd_inv b"
  shows "\<exists>r b' ns. NewVariable b = Some (r, b') \<and> bdd_inv b' \<and> next_var b' = next_var b + 1 \<and> nodes b' = nodes b @ ns \<and>
    valid (nodes b') r \<and> \<not> valid (nodes b) r \<and> (\<forall>env. sem (nodes b') env r = env (next_var b))"
proof -
  let ?b = "b\<lparr>next_var := next_var b + 1\<rparr>"
  note core = bdd_invD(1)[OF I]
  have c: "bdd_core ?b" using core by (auto simp: bdd_core_def unique_ok_def ite_ok_def intro: less_trans)
  have "yields (\<lambda>(r, b'). bdd_core b' \<and> extends ?b b' \<and> 2 \<le> r \<and> valid (nodes b') r \<and> node_key (nodes b' ! nat r) = (next_var b, 1, 0)) (GetOrCreateNode (next_var b) 1 0 ?b)"
    by (rule GetOrCreateNode_ok[OF c]) (use bdd_coreD(2,8,9)[OF core] in auto)
  then obtain r b' where r: "NewVariable b = Some (r, b')" "bdd_core b'" "extends ?b b'" "2 \<le> r" "valid (nodes b') r"
      "node_key (nodes b' ! nat r) = (next_var b, 1, 0)" by (auto simp: yields_def NewVariable_def bdd_leaves)
  obtain ns where ns: "nodes b' = nodes b @ ns" "next_var b' = next_var b + 1" using r(3) by (auto simp: extends_def)
  have "node_map b' (v, 1, 0) \<noteq> None" if v: "0 \<le> v" "v < next_var b'" for v
  proof (cases "v = next_var b")
    case True
    then show ?thesis using r(4-6) unique_lookup[OF r(2)] by auto
  next
    case False
    then obtain i where "node_map b (v, 1, 0) = Some i" using bdd_invD(2)[OF I v(1)] v(2) ns(2) by fastforce
    then have "node_map b' (v, 1, 0) = Some i" using unique_lookup[OF core] unique_lookup[OF r(2)] extendsD(1,2)[OF c r(3)] by simp
    then show ?thesis by simp
  qed
  then have inv: "bdd_inv b'" using r(2) by (simp add: bdd_inv_def)
  have k: "bn_variable (nodes b' ! nat r) = next_var b" "bn_high (nodes b' ! nat r) = 1" "bn_low (nodes b' ! nat r) = 0"
    using r(6) by (simp_all add: node_key_def)
  have "sem (nodes b') env r = env (next_var b)" for env unfolding sem_node[OF bdd_coreD(4)[OF r(2,4,5)] r(4)] k by simp
  moreover have "\<not> valid (nodes b) r"
    using bdd_coreD(5)[OF core r(4)] k(1) nth_valid[of "nodes b" r ns] ns(1) by auto
  ultimately show ?thesis using r(1,5) inv ns by blast
qed

text \<open>Equal functions have equal nodes.\<close>

lemma canonical_core:
  assumes c: "bdd_core b"
  shows "valid (nodes b) i \<Longrightarrow> valid (nodes b) j \<Longrightarrow> \<forall>env. sem (nodes b) env i = sem (nodes b) env j \<Longrightarrow> i = j"
proof (induction "nat (max i j)" arbitrary: i j rule: less_induct)
  case less
  note all = bdd_coreD(3)[OF c] and indep = sem_indep[OF bdd_coreD(3)[OF c]]
  have split: False if "2 \<le> p" "valid (nodes b) p" "valid (nodes b) q" "max p q = max i j" "\<forall>env. sem (nodes b) env p = sem (nodes b) env q"
    "not_below (nodes b) (bn_variable (nodes b ! nat p) + 1) q" for p q
  proof -
    let ?n = "nodes b ! nat p" let ?v = "bn_variable ?n"
    have ok: "node_ok (nodes b) p" using all that(1,2) by blast
    then have ch: "valid (nodes b) (bn_high ?n)" "valid (nodes b) (bn_low ?n)" "not_below (nodes b) (?v + 1) (bn_high ?n)"
        "not_below (nodes b) (?v + 1) (bn_low ?n)" "bn_high ?n < p" "bn_low ?n < p" "bn_high ?n \<noteq> bn_low ?n"
      using that(2) by (auto simp: node_ok_def Let_def valid_def)
    have "sem (nodes b) env (bn_high ?n) = sem (nodes b) env (bn_low ?n)" for env
    proof -
      have "sem (nodes b) env (if x then bn_high ?n else bn_low ?n) = sem (nodes b) env q" for x
      proof -
        have "sem (nodes b) (env(?v := x)) p = sem (nodes b) (env(?v := x)) (if x then bn_high ?n else bn_low ?n)"
          using sem_node[OF ok that(1), of "env(?v := x)"] by simp
        then show ?thesis using that(5) indep[OF that(3,6)] indep[OF ch(1,3)] indep[OF ch(2,4)] by (cases x) auto
      qed
      from this[of True] this[of False] show ?thesis by simp
    qed
    then have "bn_high ?n = bn_low ?n" using ch(1,2,5,6) that(1,2,4) by (intro less.hyps) (auto simp: valid_def nat_less_iff)
    then show False using ch(7) by blast
  qed
  show ?case
  proof (cases "2 \<le> i \<and> 2 \<le> j")
    case False
    have leaf: "q = 0 \<or> q = 1" if "\<not> 2 \<le> q" "valid (nodes b) q" for q using that by (auto simp: valid_def)
    have "\<not> 2 \<le> i \<and> \<not> 2 \<le> j"
      using False split[of i j] split[of j i] leaf[of i] leaf[of j] less.prems by (auto simp: max.commute not_below_def)
    then show ?thesis using leaf less.prems by (metis sem_leaf)
  next
    case True
    let ?n = "nodes b ! nat i" and ?m = "nodes b ! nat j"
    have oki: "node_ok (nodes b) i" and okj: "node_ok (nodes b) j" using all True less.prems by blast+
    have "\<not> bn_variable ?n + 1 \<le> bn_variable ?m" "\<not> bn_variable ?m + 1 \<le> bn_variable ?n"
      using split[of i j] split[of j i] True less.prems by (auto simp: not_below_def max.commute)
    then have v: "bn_variable ?n = bn_variable ?m" by simp
    have ci: "valid (nodes b) (bn_high ?n)" "valid (nodes b) (bn_low ?n)" "not_below (nodes b) (bn_variable ?n + 1) (bn_high ?n)"
        "not_below (nodes b) (bn_variable ?n + 1) (bn_low ?n)" "bn_high ?n < i" "bn_low ?n < i"
      and cj: "valid (nodes b) (bn_high ?m)" "valid (nodes b) (bn_low ?m)" "not_below (nodes b) (bn_variable ?n + 1) (bn_high ?m)"
        "not_below (nodes b) (bn_variable ?n + 1) (bn_low ?m)" "bn_high ?m < j" "bn_low ?m < j"
      using oki okj less.prems(1,2) v by (auto simp: node_ok_def Let_def valid_def)
    have eq: "sem (nodes b) env (if x then bn_high ?n else bn_low ?n) = sem (nodes b) env (if x then bn_high ?m else bn_low ?m)" for env x
    proof -
      let ?e = "env(bn_variable ?n := x)"
      have "sem (nodes b) ?e (if x then bn_high ?n else bn_low ?n) = sem (nodes b) ?e (if x then bn_high ?m else bn_low ?m)"
        using sem_node[OF oki, of ?e] sem_node[OF okj, of ?e] True less.prems(3) v by auto
      then show ?thesis using indep[OF ci(1,3)] indep[OF ci(2,4)] indep[OF cj(1,3)] indep[OF cj(2,4)] by (cases x) auto
    qed
    have "bn_high ?n = bn_high ?m" using eq[of _ True] ci cj by (intro less.hyps) (auto simp: valid_def nat_less_iff less_max_iff_disj)
    moreover have "bn_low ?n = bn_low ?m" using eq[of _ False] ci cj by (intro less.hyps) (auto simp: valid_def nat_less_iff less_max_iff_disj)
    ultimately have "node_key ?n = node_key ?m" using v by (simp add: node_key_def)
    then show ?thesis using unique_lookup[OF c, of "node_key ?n" i] unique_lookup[OF c, of "node_key ?n" j] True less.prems(1,2) by simp
  qed
qed

section \<open>Evaluation\<close>

text \<open>An assignment of values to the base nodes, as one to the variables.\<close>

definition assigned :: "BinaryDecisionDiagram \<Rightarrow> (int \<Rightarrow> bool option) \<Rightarrow> int \<Rightarrow> bool" where
  "assigned b vals v = (\<exists>i. node_map b (v, 1, 0) = Some i \<and> vals i = Some True)"

lemma Evaluate_ok:
  assumes I: "bdd_inv b"
  shows "valid (nodes b) i \<Longrightarrow> yields (\<lambda>r. case r of Inr x \<Rightarrow> x = sem (nodes b) (assigned b vals) i
     | Inl e \<Rightarrow> e = InvalidArgumentError \<and> (\<exists>v w. 0 \<le> v \<and> v < next_var b \<and> GetVariableBaseNode b v = Some w \<and> vals w = None))
    (bdd_Evaluate b i vals)"
  unfolding bdd_Evaluate_def
proof (induction "nat i" arbitrary: i rule: less_induct)
  case less
  note core = bdd_invD(1)[OF I]
  show ?case
  proof (cases "2 \<le> i")
    case False
    then have "i = 0 \<or> i = 1" using less.prems by (auto simp: valid_def)
    then show ?thesis by (subst Evaluate_loop.simps) (auto simp: bdd_leaves)
  next
    case True
    let ?n = "nodes b ! nat i" let ?v = "bn_variable ?n"
    have ok: "node_ok (nodes b) i" and v: "0 \<le> ?v" "?v < next_var b"
      using bdd_coreD(4,5)[OF core True less.prems] by (auto simp: node_ok_def Let_def)
    obtain w where w: "node_map b (?v, 1, 0) = Some w" using bdd_invD(2)[OF I v] by blast
    have run: "Evaluate_loop b vals i = (case vals w of None \<Rightarrow> Some (Inl InvalidArgumentError)
        | Some x \<Rightarrow> Evaluate_loop b vals (if x then bn_high ?n else bn_low ?n))"
      using True by (subst Evaluate_loop.simps) (simp add: bdd_leaves GetNode_valid[OF less.prems] GetVariableBaseNode_def w)
    show ?thesis
    proof (cases "vals w")
      case None
      then show ?thesis using run v w by (auto simp: GetVariableBaseNode_def bdd_leaves)
    next
      case (Some x)
      let ?j = "if x then bn_high ?n else bn_low ?n"
      have "assigned b vals ?v = x" using w Some by (auto simp: assigned_def)
      then have s: "sem (nodes b) (assigned b vals) i = sem (nodes b) (assigned b vals) ?j" using sem_node[OF ok True] by simp
      have "nat ?j < nat i" "valid (nodes b) ?j" using ok less.prems by (auto simp: node_ok_def Let_def valid_def)
      from less.hyps[OF this] show ?thesis unfolding run Some s by simp
    qed
  qed
qed

section \<open>Path counts\<close>

function paths :: "BddNode list \<Rightarrow> int \<Rightarrow> nat" where
  "paths ns i = (if i \<le> 1 then 1 else
     (if bn_low (ns ! nat i) < i then paths ns (bn_low (ns ! nat i)) else 0) +
     (if bn_high (ns ! nat i) < i then paths ns (bn_high (ns ! nat i)) else 0))"
  by pat_completeness auto
termination
  by (relation "measure (\<lambda>(ns, i). nat i)") auto

declare paths.simps [simp del]

lemma paths_leaf [simp]: "paths ns 0 = 1" "paths ns 1 = 1"
  by (subst paths.simps, simp)+

lemma saturated_add: "0 \<le> a \<Longrightarrow> 0 \<le> c \<Longrightarrow> 0 \<le> m \<Longrightarrow> min (min a m + min c m) m = min (a + c) (m :: int)"
  by (auto simp: min_def)

lemma path_count_ok:
  assumes c: "bdd_core b"
  shows "valid (nodes b) i \<Longrightarrow> bdd_path_count b i = Some (min (int (paths (nodes b) i)) (2 ^ 31 - 1))"
proof -
  have "valid (nodes b) i \<Longrightarrow> bn_path_count (nodes b ! nat i) = min (int (paths (nodes b) i)) (2 ^ 31 - 1)" for i
  proof (induction "nat i" arbitrary: i rule: less_induct)
    case less
    show ?case
    proof (cases "2 \<le> i")
      case False
      then have "i = 0 \<or> i = 1" using less.prems by (auto simp: valid_def)
      then show ?thesis using c by (auto simp: bdd_core_def)
    next
      case True
      let ?n = "nodes b ! nat i"
      have ok: "node_ok (nodes b) i" using bdd_coreD(4)[OF c True less.prems] .
      have *: "bn_path_count (nodes b ! nat j) = min (int (paths (nodes b) j)) (2 ^ 31 - 1)" if "j = bn_high ?n \<or> j = bn_low ?n" for j
        using that ok less.prems by (intro less.hyps) (auto simp: node_ok_def Let_def valid_def)
      have "paths (nodes b) i = paths (nodes b) (bn_low ?n) + paths (nodes b) (bn_high ?n)"
        using ok True by (subst paths.simps) (auto simp: node_ok_def Let_def)
      moreover have "bn_path_count ?n = min (bn_path_count (nodes b ! nat (bn_low ?n)) + bn_path_count (nodes b ! nat (bn_high ?n))) (2 ^ 31 - 1)"
        using ok by (simp add: node_ok_def Let_def)
      ultimately show ?thesis using *[of "bn_low ?n"] *[of "bn_high ?n"] saturated_add[of "int (paths (nodes b) (bn_low ?n))"] by simp
    qed
  qed
  then show "valid (nodes b) i \<Longrightarrow> bdd_path_count b i = Some (min (int (paths (nodes b) i)) (2 ^ 31 - 1))"
    by (simp add: bdd_path_count_def GetNode_valid)
qed

section \<open>The states of a diagram\<close>

text \<open>One call of a public operation, on expressions of the diagram.\<close>

inductive bdd_step :: "BinaryDecisionDiagram \<Rightarrow> BinaryDecisionDiagram \<Rightarrow> bool" where
  step_variable: "NewVariable b = Some (r, b') \<Longrightarrow> bdd_step b b'"
| step_not: "valid (nodes b) x \<Longrightarrow> bdd_Not x b = Some (r, b') \<Longrightarrow> bdd_step b b'"
| step_and: "valid (nodes b) x \<Longrightarrow> valid (nodes b) y \<Longrightarrow> bdd_And x y b = Some (r, b') \<Longrightarrow> bdd_step b b'"
| step_or: "valid (nodes b) x \<Longrightarrow> valid (nodes b) y \<Longrightarrow> bdd_Or x y b = Some (r, b') \<Longrightarrow> bdd_step b b'"

lemma bdd_step_inv: "bdd_step b b' \<Longrightarrow> bdd_inv b \<Longrightarrow> bdd_inv b' \<and> (\<exists>ns. nodes b' = nodes b @ ns)"
proof (induction rule: bdd_step.induct)
  case (step_variable b r b')
  then show ?case using NewVariable_ok[of b] by auto
next
  case (step_not b x r b')
  then show ?case using bdd_ops_ok(1)[of b x x] by (auto simp: op_ok_def extends_def)
next
  case (step_and b x y r b')
  then show ?case using bdd_ops_ok(2)[of b x y] by (auto simp: op_ok_def extends_def)
next
  case (step_or b x y r b')
  then show ?case using bdd_ops_ok(3)[of b x y] by (auto simp: op_ok_def extends_def)
qed

lemma bdd_reachable_inv: "bdd_step\<^sup>*\<^sup>* b b' \<Longrightarrow> bdd_inv b \<Longrightarrow> bdd_inv b' \<and> (\<exists>ns. nodes b' = nodes b @ ns)"
proof (induction rule: rtranclp_induct)
  case (step y z)
  then show ?case using bdd_step_inv[of y z] by auto
qed simp

section \<open>The text form\<close>

lemma ToStringDnfHelper_total:
  assumes c: "bdd_core b"
  shows "valid (nodes b) i \<Longrightarrow> \<exists>r. ToStringDnfHelper b i k terms str = Some r"
proof (induction "nat i" arbitrary: i k terms str rule: less_induct)
  case less
  show ?case
  proof (cases "2 \<le> i")
    case False
    then have "i = 0 \<or> i = 1" using less.prems by (auto simp: valid_def)
    then show ?thesis by (subst ToStringDnfHelper.simps) (auto simp: bdd_leaves)
  next
    case True
    let ?n = "nodes b ! nat i"
    have ok: "node_ok (nodes b) i" using bdd_coreD(4)[OF c True less.prems] .
    have step: "\<exists>r. ToStringDnfHelper b j k terms str = Some r" if "j = bn_high ?n \<or> j = bn_low ?n" for j k terms str
      using that ok less.prems by (intro less.hyps) (auto simp: node_ok_def Let_def valid_def)
    obtain r where r: "ToStringDnfHelper b (bn_high ?n) k (terms @ [''x'' @ int_string (bn_variable ?n)]) str = Some r" using step by blast
    obtain q where q: "ToStringDnfHelper b (bn_low ?n) (fst r) (terms @ [''!x'' @ int_string (bn_variable ?n)]) (snd r) = Some q" using step by blast
    show ?thesis using True r q by (subst ToStringDnfHelper.simps) (simp add: bdd_leaves GetNode_valid[OF less.prems])
  qed
qed

lemma ToStringDnf_total: "bdd_core b \<Longrightarrow> valid (nodes b) i \<Longrightarrow> \<exists>s. ToStringDnf b i l = Some s"
proof -
  assume "bdd_core b" "valid (nodes b) i"
  from ToStringDnfHelper_total[OF this, of "if l = 0 then 2 ^ 63 - 1 else l" "[]" "[]"]
  show ?thesis by (auto simp: ToStringDnf_def)
qed

end
