(* ===== verification/Ternary.thy ===== *)
theory Ternary
  imports BitsOps
begin

text \<open>
  \<open>xls/ir/ternary.h\<close> and \<open>ternary.cc\<close>: bits that are known to be zero, known to be one or unknown,
  vectors of them, and their text form. A vector stands for all literals that agree with it on the
  known bits; the lemmas relate the operations to that reading.
\<close>

section \<open>Ternary values and vectors\<close>

datatype TernaryValue = kKnownZero | kKnownOne | kUnknown

type_synonym TernaryVector = "TernaryValue list"

definition ternary_And :: "TernaryValue \<Rightarrow> TernaryValue \<Rightarrow> TernaryValue" where
  "ternary_And a b =
     (if a = kKnownZero \<or> b = kKnownZero then kKnownZero
      else if a = kKnownOne \<and> b = kKnownOne then kKnownOne
      else kUnknown)"

definition ternary_Or :: "TernaryValue \<Rightarrow> TernaryValue \<Rightarrow> TernaryValue" where
  "ternary_Or a b =
     (if a = kKnownOne \<or> b = kKnownOne then kKnownOne
      else if a = kKnownZero \<and> b = kKnownZero then kKnownZero
      else kUnknown)"

fun ternary_Not :: "TernaryValue \<Rightarrow> TernaryValue" where
  "ternary_Not kKnownZero = kKnownOne"
| "ternary_Not kKnownOne = kKnownZero"
| "ternary_Not kUnknown = kUnknown"

definition IsKnown :: "TernaryValue \<Rightarrow> bool" where
  "IsKnown t \<longleftrightarrow> t \<noteq> kUnknown"

definition IsUnknown :: "TernaryValue \<Rightarrow> bool" where
  "IsUnknown t \<longleftrightarrow> t = kUnknown"

definition AllUnknown :: "TernaryVector \<Rightarrow> bool" where
  "AllUnknown v \<longleftrightarrow> list_all IsUnknown v"

definition NumberOfKnownBits :: "TernaryVector \<Rightarrow> nat" where
  "NumberOfKnownBits vec = fold (\<lambda>x result. if x \<noteq> kUnknown then result + 1 else result) vec 0"

definition FromKnownBits :: "bits \<Rightarrow> bits \<Rightarrow> TernaryVector option" where
  "FromKnownBits known_bits known_bits_values = do {
     check (bit_count known_bits = bit_count known_bits_values);
     generate (bit_count known_bits) (\<lambda>i. do {
       k \<leftarrow> Bits_Get known_bits i;
       if k then do { x \<leftarrow> Bits_Get known_bits_values i; Some (if x then kKnownOne else kKnownZero) }
       else Some kUnknown }) }"

definition ToKnownBits :: "TernaryVector \<Rightarrow> bits option" where
  "ToKnownBits v = Bits_of_span (map (\<lambda>t. t \<noteq> kUnknown) v)"

definition ToKnownBitsValues :: "TernaryVector \<Rightarrow> bits option" where
  "ToKnownBitsValues v = Bits_of_span (map (\<lambda>t. t = kKnownOne) v)"

definition BitsToTernary :: "bits \<Rightarrow> TernaryVector option" where
  "BitsToTernary b = generate (bit_count b) (\<lambda>i. do { x \<leftarrow> Bits_Get b i; Some (if x then kKnownOne else kKnownZero) })"

text \<open>The inner option is the \<open>nullopt\<close> of a conflict.\<close>

fun Difference_loop :: "(TernaryValue \<times> TernaryValue) list \<Rightarrow> TernaryVector \<Rightarrow> TernaryVector option" where
  "Difference_loop [] result = Some result"
| "Difference_loop ((l, r) # ps) result =
     (if l \<noteq> kUnknown then
        if r = kUnknown then Difference_loop ps (result @ [l])
        else if l \<noteq> r then None
        else Difference_loop ps (result @ [kUnknown])
      else Difference_loop ps (result @ [kUnknown]))"

definition ternary_Difference :: "TernaryVector \<Rightarrow> TernaryVector \<Rightarrow> TernaryVector option option" where
  "ternary_Difference lhs rhs = do { check (length lhs = length rhs); Some (Difference_loop (zip lhs rhs) []) }"

section \<open>Text\<close>

fun ternary_symbol :: "TernaryValue \<Rightarrow> string" where
  "ternary_symbol kKnownZero = ''0''"
| "ternary_symbol kKnownOne = ''1''"
| "ternary_symbol kUnknown = ''X''"

definition ternary_ToString :: "TernaryVector \<Rightarrow> string" where
  "ternary_ToString v =
     fold (\<lambda>i result. result @ ternary_symbol (v ! i) @ (if i \<noteq> 0 \<and> i mod 4 = 0 then ''_'' else []))
       (rev [0..<length v]) ''0b''"

fun ternary_parse :: "string \<Rightarrow> TernaryVector \<Rightarrow> TernaryVector status_or" where
  "ternary_parse [] result = Inr result"
| "ternary_parse (c # cs) result =
     (if c = CHR ''0'' then ternary_parse cs (result @ [kKnownZero])
      else if c = CHR ''1'' then ternary_parse cs (result @ [kKnownOne])
      else if c = CHR ''X'' \<or> c = CHR ''x'' then ternary_parse cs (result @ [kUnknown])
      else if c = CHR ''_'' then ternary_parse cs result
      else Inl InvalidArgumentError)"

definition StringToTernaryVector :: "string \<Rightarrow> TernaryVector status_or" where
  "StringToTernaryVector s =
     (if take 2 s \<noteq> ''0b'' then Inl InvalidArgumentError
      else case ternary_parse (drop 2 s) [] of Inl e \<Rightarrow> Inl e | Inr result \<Rightarrow> Inr (rev result))"

section \<open>What a vector stands for\<close>

definition ternary_covers :: "TernaryValue \<Rightarrow> bool \<Rightarrow> bool" where
  "ternary_covers t b \<longleftrightarrow> t = kUnknown \<or> t = (if b then kKnownOne else kKnownZero)"

definition vector_covers :: "TernaryVector \<Rightarrow> bits \<Rightarrow> bool" where
  "vector_covers v b \<longleftrightarrow> length v = bit_count b \<and> (\<forall>i < length v. ternary_covers (v ! i) (bit (uval b) i))"

lemma ternary_covers_simps [simp]:
  "ternary_covers kKnownZero b \<longleftrightarrow> \<not> b" "ternary_covers kKnownOne b \<longleftrightarrow> b" "ternary_covers kUnknown b"
  by (auto simp: ternary_covers_def)

lemma ternary_covers_ops:
  "ternary_covers a x \<Longrightarrow> ternary_covers b y \<Longrightarrow> ternary_covers (ternary_And a b) (x \<and> y)"
  "ternary_covers a x \<Longrightarrow> ternary_covers b y \<Longrightarrow> ternary_covers (ternary_Or a b) (x \<or> y)"
  "ternary_covers a x \<Longrightarrow> ternary_covers (ternary_Not a) (\<not> x)"
  by (cases a; cases b; simp add: ternary_And_def ternary_Or_def)+

text \<open>The two connectives forget nothing: a result is unknown only when both outcomes are possible.\<close>

lemma ternary_ops_best:
  "(\<forall>x y. ternary_covers a x \<and> ternary_covers b y \<longrightarrow> (x \<and> y) = z) \<Longrightarrow> ternary_And a b = (if z then kKnownOne else kKnownZero)"
  "(\<forall>x y. ternary_covers a x \<and> ternary_covers b y \<longrightarrow> (x \<or> y) = z) \<Longrightarrow> ternary_Or a b = (if z then kKnownOne else kKnownZero)"
  by (cases a; cases b; cases z; simp add: ternary_And_def ternary_Or_def; blast)+

lemma ToKnownBits_eq:
  "ToKnownBits v = Some (mk_bits (length v) (horner_sum of_bool 2 (map (\<lambda>t. t \<noteq> kUnknown) v)))"
  "ToKnownBitsValues v = Some (mk_bits (length v) (horner_sum of_bool 2 (map (\<lambda>t. t = kKnownOne) v)))"
  by (simp_all add: ToKnownBits_def ToKnownBitsValues_def)

lemma FromKnownBits_eq:
  "FromKnownBits (mk_bits n k) (mk_bits n v) =
     Some (map (\<lambda>i. if bit k i then if bit v i then kKnownOne else kKnownZero else kUnknown) [0..<n])"
  unfolding FromKnownBits_def by (simp, rule generate_eq) simp

lemma BitsToTernary_eq: "BitsToTernary (mk_bits n v) = Some (map (\<lambda>i. if bit v i then kKnownOne else kKnownZero) [0..<n])"
  unfolding BitsToTernary_def by (simp, rule generate_eq) simp

lemma known_bits_roundtrip:
  "(do { k \<leftarrow> ToKnownBits v; x \<leftarrow> ToKnownBitsValues v; FromKnownBits k x }) = Some v"
proof -
  let ?k = "horner_sum of_bool 2 (map (\<lambda>t. t \<noteq> kUnknown) v) :: nat" and ?x = "horner_sum of_bool 2 (map (\<lambda>t. t = kKnownOne) v) :: nat"
  have "map (\<lambda>i. if bit ?k i then if bit ?x i then kKnownOne else kKnownZero else kUnknown) [0..<length v] = v"
  proof (rule nth_equalityI)
    fix i assume "i < length (map (\<lambda>i. if bit ?k i then if bit ?x i then kKnownOne else kKnownZero else kUnknown) [0..<length v])"
    then show "map (\<lambda>i. if bit ?k i then if bit ?x i then kKnownOne else kKnownZero else kUnknown) [0..<length v] ! i = v ! i"
      by (cases "v ! i") (simp_all add: bit_horner_sum_bit_iff)
  qed simp
  then show ?thesis by (simp add: ToKnownBits_eq FromKnownBits_eq)
qed

lemma vector_covers_mk_bits: "vector_covers v (mk_bits n x) \<longleftrightarrow> length v = n \<and> (\<forall>i < n. ternary_covers (v ! i) (bit x i))"
  by (auto simp: vector_covers_def bit_simps)

text \<open>A vector of known bits stands for one literal only.\<close>

lemma vector_covers_known:
  assumes "bm_inv b"
  shows "vector_covers (map (\<lambda>i. if bit v i then kKnownOne else kKnownZero) [0..<n]) b \<longleftrightarrow> b = mk_bits n v"
proof -
  obtain m w where b: "b = mk_bits m w" using assms by (rule bm_inv_cases)
  have "mk_bits n w = mk_bits n v \<longleftrightarrow> (\<forall>i < n. bit v i = bit w i)"
    by (auto simp: mk_bits_eq_iff bit_eq_iff bit_take_bit_iff)
  then show ?thesis by (cases "n = m") (auto simp: b vector_covers_mk_bits ternary_covers_def mk_bits_eq_iff)
qed

text \<open>What \<open>Difference\<close> keeps: the bits only the left vector knows. It fails on contradictory vectors.\<close>

lemma Difference_loop_eq:
  "Difference_loop ps acc =
     (if \<exists>(l, r) \<in> set ps. l \<noteq> kUnknown \<and> r \<noteq> kUnknown \<and> l \<noteq> r then None
      else Some (acc @ map (\<lambda>(l, r). if r = kUnknown then l else kUnknown) ps))"
  by (induction ps acc rule: Difference_loop.induct) auto

lemma ternary_Difference_eq:
  assumes "length lhs = length rhs"
  shows "ternary_Difference lhs rhs = Some (
    if \<exists>i < length lhs. lhs ! i \<noteq> kUnknown \<and> rhs ! i \<noteq> kUnknown \<and> lhs ! i \<noteq> rhs ! i then None
    else Some (map (\<lambda>i. if rhs ! i = kUnknown then lhs ! i else kUnknown) [0..<length lhs]))"
proof -
  have "zip lhs rhs = map (\<lambda>i. (lhs ! i, rhs ! i)) [0..<length lhs]" using assms by (intro nth_equalityI) auto
  then show ?thesis using assms by (auto simp: ternary_Difference_def Difference_loop_eq)
qed

text \<open>The vectors contradict each other exactly when no literal fits both; otherwise the left vector is the right one and the difference.\<close>

lemma ternary_Difference_covers:
  assumes "ternary_Difference lhs rhs = Some (Some d)" "vector_covers rhs b"
  shows "vector_covers lhs b \<longleftrightarrow> vector_covers d b"
proof -
  have len: "length lhs = length rhs" using assms(1) by (auto simp: ternary_Difference_def check_def split: if_splits)
  then have d: "d = map (\<lambda>i. if rhs ! i = kUnknown then lhs ! i else kUnknown) [0..<length lhs]"
    "\<forall>i < length lhs. lhs ! i \<noteq> kUnknown \<and> rhs ! i \<noteq> kUnknown \<longrightarrow> lhs ! i = rhs ! i"
    using assms(1) unfolding ternary_Difference_eq[OF len] by (simp_all split: if_splits) blast
  have iff: "ternary_covers (lhs ! i) x \<longleftrightarrow> ternary_covers (d ! i) x" if "i < length lhs" "ternary_covers (rhs ! i) x" for i x
    using d(2) that unfolding d(1) by (cases "lhs ! i"; cases "rhs ! i") auto
  have "length d = length lhs" unfolding d(1) by simp
  then show ?thesis using assms(2) len iff unfolding vector_covers_def by metis
qed

lemma NumberOfKnownBits_eq: "NumberOfKnownBits v = length (filter IsKnown v)"
proof -
  have "fold (\<lambda>x result. if x \<noteq> kUnknown then result + 1 else result) v k = k + length (filter IsKnown v)" for k :: nat
    by (induction v arbitrary: k) (auto simp: IsKnown_def)
  then show ?thesis by (simp add: NumberOfKnownBits_def)
qed

section \<open>The text form\<close>

text \<open>The text is the symbols from the most significant on, with separators.\<close>

lemma ternary_parse_append:
  "ternary_parse (xs @ ys) acc = (case ternary_parse xs acc of Inl e \<Rightarrow> Inl e | Inr r \<Rightarrow> ternary_parse ys r)"
  by (induction xs arbitrary: acc) auto

lemma parse_symbols:
  "\<exists>s. fold (\<lambda>i result. result @ ternary_symbol (v ! i) @ (if i \<noteq> 0 \<and> i mod 4 = 0 then ''_'' else [])) is r = r @ s \<and>
     ternary_parse s acc = Inr (acc @ map ((!) v) is)"
proof (induction "is" arbitrary: r acc)
  case (Cons i "is")
  let ?t = "ternary_symbol (v ! i) @ (if i \<noteq> 0 \<and> i mod 4 = 0 then ''_'' else [])"
  have t: "ternary_parse ?t acc = Inr (acc @ [v ! i])" by (cases "v ! i") auto
  obtain s where s: "fold (\<lambda>i result. result @ ternary_symbol (v ! i) @ (if i \<noteq> 0 \<and> i mod 4 = 0 then ''_'' else [])) is (r @ ?t) = (r @ ?t) @ s"
    "ternary_parse s (acc @ [v ! i]) = Inr ((acc @ [v ! i]) @ map ((!) v) is)" using Cons.IH[of "r @ ?t" "acc @ [v ! i]"] by blast
  have "ternary_parse (?t @ s) acc = Inr (acc @ map ((!) v) (i # is))" unfolding ternary_parse_append[of ?t] t using s(2) by simp
  then show ?case using s(1) by (intro exI[of _ "?t @ s"]) simp
qed simp

lemma ternary_text_roundtrip: "StringToTernaryVector (ternary_ToString v) = Inr v"
proof -
  obtain s where "ternary_ToString v = ''0b'' @ s" "ternary_parse s [] = Inr (map ((!) v) (rev [0..<length v]))"
    using parse_symbols[of v "rev [0..<length v]" "''0b''" "[]"] unfolding ternary_ToString_def by auto
  then show ?thesis by (simp add: StringToTernaryVector_def rev_map map_nth)
qed

end
