(* ===== verification/AbstractEvaluator.thy ===== *)
theory AbstractEvaluator
  imports Ternary
begin

text \<open>
  \<open>xls/ir/abstract_evaluator.h\<close>: the circuits that evaluate IR operations over any kind of bit. The
  derived class of the C++ template (\<open>One\<close>, \<open>Zero\<close>, \<open>Not\<close>, \<open>And\<close>, \<open>Or\<close>) is a record and the first
  argument of every operation; \<open>TernaryEvaluator\<close> (\<open>xls/passes/ternary_evaluator.h\<close>) and the
  two-valued evaluator of the class's unit test are instances. A vector is a list of elements, least
  significant first; an access out of range aborts.
\<close>

section \<open>The evaluator\<close>

record 'e evaluator =
  el_One :: 'e
  el_Zero :: 'e
  el_Not :: "'e \<Rightarrow> 'e"
  el_And :: "'e \<Rightarrow> 'e \<Rightarrow> 'e"
  el_Or :: "'e \<Rightarrow> 'e \<Rightarrow> 'e"

definition TernaryEvaluator :: "TernaryValue evaluator" where
  "TernaryEvaluator = \<lparr>el_One = kKnownOne, el_Zero = kKnownZero, el_Not = ternary_Not, el_And = ternary_And, el_Or = ternary_Or\<rparr>"

definition BoolEvaluator :: "bool evaluator" where
  "BoolEvaluator = \<lparr>el_One = True, el_Zero = False, el_Not = (\<lambda>x. \<not> x), el_And = (\<lambda>x y. x \<and> y), el_Or = (\<lambda>x y. x \<or> y)\<rparr>"

definition el_Xor :: "'e evaluator \<Rightarrow> 'e \<Rightarrow> 'e \<Rightarrow> 'e" where
  "el_Xor E a b = el_And E (el_Or E a b) (el_Not E (el_And E a b))"

text \<open>\<open>AdderResult\<close> is the pair of the sum and the carry.\<close>

definition HalfAdder :: "'e evaluator \<Rightarrow> 'e \<Rightarrow> 'e \<Rightarrow> 'e \<times> 'e" where
  "HalfAdder E a b = (let carry = el_And E a b; sum = el_And E (el_Or E a b) (el_Not E carry) in (sum, carry))"

definition FullAdder :: "'e evaluator \<Rightarrow> 'e \<Rightarrow> 'e \<Rightarrow> 'e \<Rightarrow> 'e \<times> 'e" where
  "FullAdder E a b carry_in =
     (let first_result = HalfAdder E a b;
          second_result = HalfAdder E (fst first_result) carry_in
      in (fst second_result, el_Or E (snd first_result) (snd second_result)))"

definition BitsToVector :: "'e evaluator \<Rightarrow> bits \<Rightarrow> 'e list option" where
  "BitsToVector E b = generate (bit_count b) (\<lambda>i. do { x \<leftarrow> Bits_Get b i; Some (if x then el_One E else el_Zero E) })"

definition BitwiseNot :: "'e evaluator \<Rightarrow> 'e list \<Rightarrow> 'e list" where
  "BitwiseNot E input = map (el_Not E) input"

definition NaryOp :: "('e \<Rightarrow> 'e \<Rightarrow> 'e) \<Rightarrow> 'e list list \<Rightarrow> 'e list option" where
  "NaryOp f inputs = do {
     check (length inputs > 0);
     for_state (\<lambda>input result. generate (length result) (\<lambda>j. do {
         x \<leftarrow> list_at result j; y \<leftarrow> list_at input j; Some (f x y) })) (tl inputs) (hd inputs) }"

definition BitwiseAnd :: "'e evaluator \<Rightarrow> 'e list list \<Rightarrow> 'e list option" where
  "BitwiseAnd E inputs = NaryOp (el_And E) inputs"

definition BitwiseOr :: "'e evaluator \<Rightarrow> 'e list list \<Rightarrow> 'e list option" where
  "BitwiseOr E inputs = NaryOp (el_Or E) inputs"

definition BitwiseXor :: "'e evaluator \<Rightarrow> 'e list list \<Rightarrow> 'e list option" where
  "BitwiseXor E inputs = NaryOp (el_Xor E) inputs"

text \<open>The sum of the start and the width is compared with a \<open>size_t\<close>, as an unsigned number.\<close>

definition AE_BitSlice :: "'e list \<Rightarrow> nat \<Rightarrow> nat \<Rightarrow> 'e list option" where
  "AE_BitSlice input start width = do {
     check (unat (word_of_nat (start + width) :: u64) \<le> length input);
     generate width (\<lambda>i. list_at input (start + i)) }"

definition AE_Concat :: "'e list list \<Rightarrow> 'e list" where
  "AE_Concat inputs = fold (\<lambda>input result. result @ input) (rev inputs) []"

definition AE_Equals :: "'e evaluator \<Rightarrow> 'e list \<Rightarrow> 'e list \<Rightarrow> 'e option" where
  "AE_Equals E a b = do {
     check (length a = length b);
     for_state (\<lambda>i result. do {
         x \<leftarrow> list_at a i; y \<leftarrow> list_at b i;
         Some (el_And E result (el_Or E (el_And E x y) (el_And E (el_Not E x) (el_Not E y)))) })
       [0..<length a] (el_One E) }"

definition AE_ULessThan :: "'e evaluator \<Rightarrow> 'e list \<Rightarrow> 'e list \<Rightarrow> 'e option" where
  "AE_ULessThan E a b = do {
     check (length a = length b);
     r \<leftarrow> for_state (\<lambda>i (result, upper_bits_lte). do {
         x \<leftarrow> list_at a i; y \<leftarrow> list_at b i;
         Some (el_Or E result (el_And E upper_bits_lte (el_And E (el_Not E x) y)),
               el_And E upper_bits_lte (el_Or E (el_Not E x) y)) })
       (rev [0..<length a]) (el_Zero E, el_One E);
     Some (fst r) }"

text \<open>\<open>back()\<close> of an empty vector is undefined.\<close>

definition vector_back :: "'e list \<Rightarrow> 'e option" where
  "vector_back v = (if v = [] then None else Some (last v))"

definition AE_SLessThan :: "'e evaluator \<Rightarrow> 'e list \<Rightarrow> 'e list \<Rightarrow> 'e option" where
  "AE_SLessThan E a b = do {
     s \<leftarrow> vector_back a;
     t \<leftarrow> vector_back b;
     let a_neg_b_non_neg = el_And E s (el_Not E t);
     let a_non_neg_b_neg = el_And E (el_Not E s) t;
     u \<leftarrow> AE_ULessThan E a b;
     Some (el_Or E a_neg_b_non_neg (el_And E (el_Not E a_non_neg_b_neg) u)) }"

section \<open>Selection\<close>

text \<open>The bits every case that may be selected has in common.\<close>

definition and_reduction :: "'e evaluator \<Rightarrow> 'e list \<Rightarrow> 'e list list \<Rightarrow> nat \<Rightarrow> 'e list option" where
  "and_reduction E selector cases width =
     for_state (\<lambda>i acc. do {
         s \<leftarrow> list_at selector i;
         c \<leftarrow> list_at cases i;
         if s \<noteq> el_Zero E then generate width (\<lambda>j. do { x \<leftarrow> list_at acc j; y \<leftarrow> list_at c j; Some (el_And E x y) })
         else Some acc })
       [0..<length selector] (replicate width (el_One E))"

definition OneHotSelectInternal :: "'e evaluator \<Rightarrow> 'e list \<Rightarrow> 'e list list \<Rightarrow> bool \<Rightarrow> 'e list option" where
  "OneHotSelectInternal E selector cases selector_can_be_zero = do {
     check (length selector = length cases);
     check (length selector > 0);
     let width = length (hd cases);
     result \<leftarrow> for_state (\<lambda>i result. do {
         s \<leftarrow> list_at selector i;
         c \<leftarrow> list_at cases i;
         generate width (\<lambda>j. do { x \<leftarrow> list_at result j; y \<leftarrow> list_at c j; Some (el_Or E x (el_And E y s)) }) })
       [0..<length selector] (replicate width (el_Zero E));
     if \<not> selector_can_be_zero then do {
       m \<leftarrow> and_reduction E selector cases width;
       BitwiseOr E [m, result] }
     else Some result }"

definition AE_OneHotSelect :: "'e evaluator \<Rightarrow> 'e list \<Rightarrow> 'e list list \<Rightarrow> bool \<Rightarrow> 'e list option" where
  "AE_OneHotSelect E selector cases selector_can_be_zero = OneHotSelectInternal E selector cases selector_can_be_zero"

definition PrioritySelectInternal :: "'e evaluator \<Rightarrow> 'e list \<Rightarrow> 'e list list \<Rightarrow> bool \<Rightarrow> 'e list option" where
  "PrioritySelectInternal E selector cases selector_can_be_zero = do {
     check (length selector = length cases);
     check (length selector > 0);
     let width = length (hd cases);
     result \<leftarrow> for_state (\<lambda>i result. do {
         s \<leftarrow> list_at selector i;
         c \<leftarrow> list_at cases i;
         generate width (\<lambda>j. do { x \<leftarrow> list_at result j; y \<leftarrow> list_at c j;
           Some (el_Or E (el_And E y s) (el_And E x (el_Not E s))) }) })
       (rev [0..<length selector]) (replicate width (el_Zero E));
     if \<not> selector_can_be_zero then do {
       m \<leftarrow> and_reduction E selector cases width;
       BitwiseOr E [m, result] }
     else Some result }"

definition AE_PrioritySelect :: "'e evaluator \<Rightarrow> 'e list \<Rightarrow> 'e list list \<Rightarrow> bool \<Rightarrow> 'e list option" where
  "AE_PrioritySelect E selector cases selector_can_be_zero = PrioritySelectInternal E selector cases selector_can_be_zero"

definition AE_Select :: "'e evaluator \<Rightarrow> 'e list \<Rightarrow> 'e list list \<Rightarrow> 'e list option \<Rightarrow> 'e list option" where
  "AE_Select E selector cases default_value = do {
     one_hot_selector \<leftarrow> generate (length cases) (\<lambda>i. do {
         b \<leftarrow> UBits (word_of_nat i) (length selector);
         v \<leftarrow> BitsToVector E b;
         AE_Equals E selector v });
     (case default_value of
        None \<Rightarrow> AE_OneHotSelect E one_hot_selector cases False
      | Some d \<Rightarrow> do {
          b \<leftarrow> UBits (word_of_nat (length cases) - 1) (length selector);
          v \<leftarrow> BitsToVector E b;
          l \<leftarrow> AE_ULessThan E v selector;
          AE_OneHotSelect E (one_hot_selector @ [l]) (cases @ [d]) False }) }"

section \<open>One-hot, extension and reduction\<close>

text \<open>The variable \<open>any_one\<close> of the code is computed and never read; it is left out.\<close>

definition AE_OneHotMsbToLsb :: "'e evaluator \<Rightarrow> 'e list \<Rightarrow> 'e list option" where
  "AE_OneHotMsbToLsb E input = do {
     r \<leftarrow> for_state (\<lambda>i (all_zero, result). do {
         x \<leftarrow> list_at input i;
         Some (el_And E all_zero (el_Not E x), result @ [el_And E all_zero x]) })
       (rev [0..<length input]) (el_One E, []);
     Some (rev (snd r) @ [fst r]) }"

definition AE_OneHotLsbToMsb :: "'e evaluator \<Rightarrow> 'e list \<Rightarrow> 'e list option" where
  "AE_OneHotLsbToMsb E input = do {
     r \<leftarrow> for_state (\<lambda>i (all_zero, result). do {
         x \<leftarrow> list_at input i;
         Some (el_And E all_zero (el_Not E x), result @ [el_And E all_zero x]) })
       [0..<length input] (el_One E, []);
     Some (snd r @ [fst r]) }"

definition AE_ZeroExtend :: "'e evaluator \<Rightarrow> 'e list \<Rightarrow> nat \<Rightarrow> 'e list option" where
  "AE_ZeroExtend E input new_width = do {
     check (new_width \<ge> length input);
     Some (AE_Concat [replicate (new_width - length input) (el_Zero E), input]) }"

definition AE_SignExtend :: "'e list \<Rightarrow> nat \<Rightarrow> 'e list option" where
  "AE_SignExtend input new_width = do {
     check (length input \<ge> 1);
     check (new_width \<ge> length input);
     s \<leftarrow> vector_back input;
     Some (AE_Concat [replicate (new_width - length input) s, input]) }"

definition AE_AndReduce :: "'e evaluator \<Rightarrow> 'e list \<Rightarrow> 'e list" where
  "AE_AndReduce E a = [fold (\<lambda>e result. el_And E result e) a (el_One E)]"

definition AE_OrReduce :: "'e evaluator \<Rightarrow> 'e list \<Rightarrow> 'e list" where
  "AE_OrReduce E a = [fold (\<lambda>e result. el_Or E result e) a (el_Zero E)]"

definition AE_XorReduce :: "'e evaluator \<Rightarrow> 'e list \<Rightarrow> 'e list" where
  "AE_XorReduce E a =
     [fold (\<lambda>e result. el_Or E (el_And E (el_Not E result) e) (el_And E result (el_Not E e))) a (el_Zero E)]"

definition AE_Decode :: "'e evaluator \<Rightarrow> 'e list \<Rightarrow> nat \<Rightarrow> 'e list option" where
  "AE_Decode E input result_width =
     generate result_width (\<lambda>i. do {
       b \<leftarrow> UBits (word_of_nat i) (length input);
       v \<leftarrow> BitsToVector E b;
       AE_Equals E input v })"

definition AE_Encode :: "'e evaluator \<Rightarrow> 'e list \<Rightarrow> 'e list option" where
  "AE_Encode E input = (
     let result_width = MinBitCountUnsigned (word_of_nat (length input) - 1) in
     for_state (\<lambda>i. for_state (\<lambda>j result.
         if bit i j then do { r \<leftarrow> list_at result j; x \<leftarrow> list_at input i; Some (result[j := el_Or E r x]) }
         else Some result) [0..<result_width])
       [0..<length input] (replicate result_width (el_Zero E)))"

section \<open>Shifts\<close>

text \<open>The selector loop stops at the first shift amount that the width of \<open>amount\<close> cannot express.\<close>

fun shift_selector :: "'e evaluator \<Rightarrow> 'e list \<Rightarrow> nat list \<Rightarrow> 'e list \<Rightarrow> 'e list option" where
  "shift_selector E amount [] selector = Some selector"
| "shift_selector E amount (i # is) selector =
     (if length amount < MinBitCountUnsigned (word_of_nat i) then Some selector
      else do {
        b \<leftarrow> UBits (word_of_nat i) (length amount);
        v \<leftarrow> BitsToVector E b;
        e \<leftarrow> AE_Equals E amount v;
        shift_selector E amount is (selector @ [e]) })"

text \<open>A span of the extended vector.\<close>

definition vector_span :: "'e list \<Rightarrow> nat \<Rightarrow> nat \<Rightarrow> 'e list option" where
  "vector_span v start width = do { check (start + width \<le> length v); Some (take width (drop start v)) }"

definition AE_Shift :: "'e evaluator \<Rightarrow> 'e list \<Rightarrow> 'e list \<Rightarrow> bool \<Rightarrow> bool \<Rightarrow> 'e list option" where
  "AE_Shift E input amount right arithmetic = do {
     selector \<leftarrow> shift_selector E amount [0..<length input] [];
     selector \<leftarrow> (if length amount \<ge> MinBitCountUnsigned (word_of_nat (length input)) then do {
         b \<leftarrow> UBits (word_of_nat (length input)) (length amount);
         v \<leftarrow> BitsToVector E b;
         l \<leftarrow> AE_ULessThan E amount v;
         Some (selector @ [el_Not E l]) }
       else Some selector);
     cases \<leftarrow> (if right then do {
         tail \<leftarrow> generate (length selector - 1) (\<lambda>i. if arithmetic then vector_back input else Some (el_Zero E));
         let extended = input @ tail;
         generate (length selector) (\<lambda>i. vector_span extended i (length input)) }
       else do {
         let extended = replicate (length selector - 1) (el_Zero E) @ input;
         generate (length selector) (\<lambda>i. vector_span extended (length selector - 1 - i) (length input)) });
     OneHotSelectInternal E selector cases False }"

definition AE_ShiftRightLogical :: "'e evaluator \<Rightarrow> 'e list \<Rightarrow> 'e list \<Rightarrow> 'e list option" where
  "AE_ShiftRightLogical E input amount = AE_Shift E input amount True False"

definition AE_ShiftRightArith :: "'e evaluator \<Rightarrow> 'e list \<Rightarrow> 'e list \<Rightarrow> 'e list option" where
  "AE_ShiftRightArith E input amount = AE_Shift E input amount True True"

definition AE_ShiftLeftLogical :: "'e evaluator \<Rightarrow> 'e list \<Rightarrow> 'e list \<Rightarrow> 'e list option" where
  "AE_ShiftLeftLogical E input amount = AE_Shift E input amount False False"

definition AE_BitSliceUpdate :: "'e evaluator \<Rightarrow> 'e list \<Rightarrow> 'e list \<Rightarrow> 'e list \<Rightarrow> 'e list option" where
  "AE_BitSliceUpdate E input start v = do {
     let num_ones = min (length input) (length v);
     ones \<leftarrow> Bits_AllOnes num_ones;
     start_ones \<leftarrow> ZeroExtend ones (length input);
     ones_vector \<leftarrow> BitsToVector E start_ones;
     shifted \<leftarrow> AE_ShiftLeftLogical E ones_vector start;
     let mask = BitwiseNot E shifted;
     adjusted_value \<leftarrow> (if length v \<ge> length input then AE_BitSlice v 0 (length input) else AE_ZeroExtend E v (length input));
     m \<leftarrow> BitwiseAnd E [mask, input];
     w \<leftarrow> AE_ShiftLeftLogical E adjusted_value start;
     BitwiseOr E [m, w] }"

section \<open>Arithmetic\<close>

definition AE_Add :: "'e evaluator \<Rightarrow> 'e list \<Rightarrow> 'e list \<Rightarrow> 'e list option" where
  "AE_Add E a b = do {
     r \<leftarrow> for_state (\<lambda>i (result, carry). do {
         x \<leftarrow> list_at a i; y \<leftarrow> list_at b i;
         let r = FullAdder E x y carry;
         Some (result @ [fst r], snd r) })
       [0..<length a] ([], el_Zero E);
     Some (fst r) }"

definition AE_Neg :: "'e evaluator \<Rightarrow> 'e list \<Rightarrow> 'e list option" where
  "AE_Neg E x = do {
     o1 \<leftarrow> UBits 1 (length x);
     v \<leftarrow> BitsToVector E o1;
     AE_Add E (BitwiseNot E x) v }"

definition AE_Abs :: "'e evaluator \<Rightarrow> 'e list \<Rightarrow> 'e list option" where
  "AE_Abs E x = do {
     s \<leftarrow> vector_back x;
     n \<leftarrow> AE_Neg E x;
     AE_Select E [s] [x, n] None }"

text \<open>\<open>UMul\<close>, a Dadda multiplier: the columns of partial products are queues.\<close>

definition partial_products :: "'e evaluator \<Rightarrow> 'e list \<Rightarrow> 'e list \<Rightarrow> 'e list list option" where
  "partial_products E a b =
     for_state (\<lambda>i. for_state (\<lambda>j pp. do {
         x \<leftarrow> list_at a i; y \<leftarrow> list_at b j; c \<leftarrow> list_at pp (i + j);
         Some (pp[i + j := c @ [el_And E x y]]) }) [0..<length b])
       [0..<length a] (replicate (length a + length b) [])"

partial_function (option) first_height :: "nat \<Rightarrow> nat \<Rightarrow> nat option" where
  "first_height max_height n =
     (if max_height < n then do { h \<leftarrow> FloorOfRatio (int (3 * max_height)) 2; first_height (nat h) n }
      else Some max_height)"

function reduce_full :: "'e evaluator \<Rightarrow> nat \<Rightarrow> 'e list \<Rightarrow> 'e list \<Rightarrow> ('e list \<times> 'e list) option" where
  "reduce_full E max_height column next_column =
     (if length column > max_height + 1
      then (case column of
              a # b # c # rest \<Rightarrow>
                let r = FullAdder E a b c in reduce_full E max_height (rest @ [fst r]) (next_column @ [snd r])
            | _ \<Rightarrow> None)
      else Some (column, next_column))"
  by pat_completeness auto
termination
  by (relation "measure (\<lambda>(E, h, column, next_column). length column)") auto

declare reduce_full.simps [simp del]

definition reduce_half :: "'e evaluator \<Rightarrow> nat \<Rightarrow> 'e list \<Rightarrow> 'e list \<Rightarrow> ('e list \<times> 'e list) option" where
  "reduce_half E max_height column next_column =
     (if length column > max_height
      then (case column of
              a # b # rest \<Rightarrow> let r = HalfAdder E a b in Some (rest @ [fst r], next_column @ [snd r])
            | _ \<Rightarrow> None)
      else Some (column, next_column))"

definition reduce_column :: "'e evaluator \<Rightarrow> nat \<Rightarrow> nat \<Rightarrow> 'e list list \<Rightarrow> 'e list list option" where
  "reduce_column E max_height col pp = do {
     column \<leftarrow> list_at pp col;
     if length column \<le> max_height then Some pp
     else do {
       next_column \<leftarrow> list_at pp (col + 1);
       r \<leftarrow> reduce_full E max_height column next_column;
       r \<leftarrow> reduce_half E max_height (fst r) (snd r);
       Some (pp[col := fst r, col + 1 := snd r]) } }"

partial_function (option) reduce_stages :: "'e evaluator \<Rightarrow> nat \<Rightarrow> 'e list list \<Rightarrow> 'e list list option" where
  "reduce_stages E max_height pp =
     (if max_height > 2 then do {
        h \<leftarrow> CeilOfRatio (int (2 * max_height)) 3;
        pp' \<leftarrow> for_state (reduce_column E (nat h)) [0..<length pp] pp;
        reduce_stages E (nat h) pp' }
      else Some pp)"

text \<open>The final carry chain; pushing a carry past the last column is out of range.\<close>

definition ripple_column :: "'e evaluator \<Rightarrow> nat \<Rightarrow> 'e list list \<times> 'e list \<Rightarrow> ('e list list \<times> 'e list) option" where
  "ripple_column E i = (\<lambda>(pp, result). do {
     column \<leftarrow> list_at pp i;
     (case column of
        [] \<Rightarrow> Some (pp, result @ [el_Zero E])
      | [a] \<Rightarrow> Some (pp, result @ [a])
      | [a, b] \<Rightarrow> do {
          let r = HalfAdder E a b;
          next_column \<leftarrow> list_at pp (i + 1);
          Some (pp[i + 1 := next_column @ [snd r]], result @ [fst r]) }
      | [a, b, c] \<Rightarrow> do {
          let r = FullAdder E a b c;
          next_column \<leftarrow> list_at pp (i + 1);
          Some (pp[i + 1 := next_column @ [snd r]], result @ [fst r]) }
      | _ \<Rightarrow> None) })"

definition AE_UMul :: "'e evaluator \<Rightarrow> 'e list \<Rightarrow> 'e list \<Rightarrow> 'e list option" where
  "AE_UMul E a b = do {
     pp \<leftarrow> partial_products E a b;
     max_height \<leftarrow> first_height 2 (max (length a) (length b));
     pp \<leftarrow> reduce_stages E max_height pp;
     r \<leftarrow> for_state (ripple_column E) [0..<length a + length b] (pp, []);
     Some (snd r) }"

definition AE_SMul :: "'e evaluator \<Rightarrow> 'e list \<Rightarrow> 'e list \<Rightarrow> 'e list option" where
  "AE_SMul E a b = do {
     let m = max (length a) (length b);
     temp_a \<leftarrow> AE_SignExtend a (m * 2);
     temp_b \<leftarrow> AE_SignExtend b (m * 2);
     result \<leftarrow> AE_UMul E temp_a temp_b;
     AE_BitSlice result 0 (length a + length b) }"

text \<open>Long division; \<open>DivisionResult\<close> is the pair of the quotient and the remainder.\<close>

definition divide_step :: "'e evaluator \<Rightarrow> 'e list \<Rightarrow> 'e list \<Rightarrow> 'e list \<Rightarrow> nat \<Rightarrow> 'e list \<times> 'e list \<Rightarrow> ('e list \<times> 'e list) option" where
  "divide_step E n divisor neg_divisor i = (\<lambda>(q, r). do {
     x \<leftarrow> list_at n i;
     let r = x # r;
     l \<leftarrow> AE_ULessThan E r divisor;
     let qi = el_Not E l;
     d \<leftarrow> AE_Add E r neg_divisor;
     r \<leftarrow> AE_Select E [qi] [r, d] None;
     Some (q[i := qi], butlast r) })"

definition AE_UDivMod :: "'e evaluator \<Rightarrow> 'e list \<Rightarrow> 'e list \<Rightarrow> ('e list \<times> 'e list) option" where
  "AE_UDivMod E n d = do {
     let nonzero_divisor = AE_OrReduce E d;
     divisor \<leftarrow> AE_ZeroExtend E d (length d + 1);
     neg_divisor \<leftarrow> AE_Neg E divisor;
     qr \<leftarrow> for_state (divide_step E n divisor neg_divisor) (rev [0..<length n])
       (replicate (length n) (el_Zero E), replicate (length d) (el_Zero E));
     q \<leftarrow> AE_Select E nonzero_divisor [replicate (length (fst qr)) (el_One E), fst qr] None;
     r \<leftarrow> AE_Select E nonzero_divisor [replicate (length (snd qr)) (el_Zero E), snd qr] None;
     Some (q, r) }"

definition AE_UDiv :: "'e evaluator \<Rightarrow> 'e list \<Rightarrow> 'e list \<Rightarrow> 'e list option" where
  "AE_UDiv E n d = do { r \<leftarrow> AE_UDivMod E n d; Some (fst r) }"

definition AE_UMod :: "'e evaluator \<Rightarrow> 'e list \<Rightarrow> 'e list \<Rightarrow> 'e list option" where
  "AE_UMod E n d = do { r \<leftarrow> AE_UDivMod E n d; Some (snd r) }"

definition AE_SDivMod :: "'e evaluator \<Rightarrow> 'e list \<Rightarrow> 'e list \<Rightarrow> ('e list \<times> 'e list) option" where
  "AE_SDivMod E n d = do {
     nonzero_divisor \<leftarrow> vector_back (AE_OrReduce E d);
     n_negative \<leftarrow> (if length n > 0 then vector_back n else Some (el_Zero E));
     d_negative \<leftarrow> (if length d > 0 then vector_back d else Some (el_Zero E));
     an \<leftarrow> AE_Abs E n;
     ad \<leftarrow> AE_Abs E d;
     qr \<leftarrow> AE_UDivMod E an ad;
     nr \<leftarrow> AE_Neg E (snd qr);
     remainder \<leftarrow> AE_Select E [n_negative] [snd qr, nr] None;
     nq \<leftarrow> AE_Neg E (fst qr);
     quotient \<leftarrow> AE_Select E [el_Xor E n_negative d_negative] [fst qr, nq] None;
     let w = length quotient;
     let largest_positive = (if w > 0 then (replicate w (el_One E))[w - 1 := el_Zero E] else []);
     let largest_negative = (if w > 0 then (replicate w (el_Zero E))[w - 1 := el_One E] else []);
     quotient \<leftarrow> AE_Select E [n_negative, nonzero_divisor] [largest_positive, largest_negative] (Some quotient);
     Some (quotient, remainder) }"

definition AE_SDiv :: "'e evaluator \<Rightarrow> 'e list \<Rightarrow> 'e list \<Rightarrow> 'e list option" where
  "AE_SDiv E n d = do { r \<leftarrow> AE_SDivMod E n d; Some (fst r) }"

definition AE_SMod :: "'e evaluator \<Rightarrow> 'e list \<Rightarrow> 'e list \<Rightarrow> 'e list option" where
  "AE_SMod E n d = do { r \<leftarrow> AE_SDivMod E n d; Some (snd r) }"

end
