(* ===== verification/ElementLogic.thy ===== *)
theory ElementLogic
  imports AbstractEvaluator
begin

text \<open>
  The contract between the circuits of \<open>AbstractEvaluator\<close> and the derived classes that supply the
  logic: a relation \<open>R e b\<close> between elements and the Booleans they may stand for, which the five
  primitives respect. \<open>vec R n x a\<close> lifts it to vectors: \<open>a\<close> has \<open>n\<close> elements, which stand for the low
  bits of the number \<open>x\<close>. The lemmas of the locale say for each circuit which number its result stands
  for, and that it does not abort. For the two-valued logic this is the correctness of the circuit; for
  ternary logic it is the soundness of the analysis.
\<close>

section \<open>Vectors that stand for numbers\<close>

definition vec :: "('e \<Rightarrow> bool \<Rightarrow> bool) \<Rightarrow> nat \<Rightarrow> int \<Rightarrow> 'e list \<Rightarrow> bool" where
  "vec R n x a \<longleftrightarrow> length a = n \<and> (\<forall>i < n. R (a ! i) (bit x i))"

lemma vecD: "vec R n x a \<Longrightarrow> length a = n" "vec R n x a \<Longrightarrow> i < n \<Longrightarrow> R (a ! i) (bit x i)"
  by (simp_all add: vec_def)

lemma vecI: "length a = n \<Longrightarrow> (\<And>i. i < n \<Longrightarrow> R (a ! i) (bit x i)) \<Longrightarrow> vec R n x a"
  by (simp add: vec_def)

lemma vec_cong: "take_bit n x = take_bit n y \<Longrightarrow> vec R n x a = vec R n y a"
proof -
  assume "take_bit n x = take_bit n y"
  then have "bit x i = bit y i" if "i < n" for i using that by (metis bit_take_bit_iff)
  then show ?thesis by (simp add: vec_def)
qed

lemma vec_bits: "vec R n x a \<Longrightarrow> (\<And>i. i < n \<Longrightarrow> bit x i = bit y i) \<Longrightarrow> vec R n y a"
  by (simp add: vec_def)

lemma vec_take_bit [simp]: "vec R n (take_bit n x) a = vec R n x a"
  by (rule vec_cong) simp

lemma vec_append:
  assumes "vec R n x a" "vec R m y b"
  shows "vec R (n + m) (take_bit n x OR push_bit n y) (a @ b)"
  using assms by (auto simp: vec_def nth_append bit_simps)

lemma vec_split:
  assumes "vec R (n + m) x a"
  shows "vec R n x (take n a)" "vec R m (drop_bit n x) (drop n a)"
  using assms by (auto simp: vec_def bit_simps)

lemma vec_replicate: "(\<And>i. i < n \<Longrightarrow> R e (bit x i)) \<Longrightarrow> vec R n x (replicate n e)"
  by (simp add: vec_def)

lemma vec_back: "vec R n x a \<Longrightarrow> 0 < n \<Longrightarrow> yields (\<lambda>e. R e (bit x (n - 1))) (vector_back a)"
  by (auto simp: vec_def vector_back_def last_conv_nth)

section \<open>The contract of the element logic\<close>

locale element_logic =
  fixes E :: "'e evaluator" and R :: "'e \<Rightarrow> bool \<Rightarrow> bool"
  assumes R_One: "R (el_One E) True"
    and R_Zero: "R (el_Zero E) x \<longleftrightarrow> \<not> x"
    and R_Not: "R a x \<Longrightarrow> R (el_Not E a) (\<not> x)"
    and R_And: "R a x \<Longrightarrow> R b y \<Longrightarrow> R (el_And E a b) (x \<and> y)"
    and R_Or: "R a x \<Longrightarrow> R b y \<Longrightarrow> R (el_Or E a b) (x \<or> y)"
begin

lemma R_Zero_False: "R (el_Zero E) False"
  by (simp add: R_Zero)

lemmas R_ops = R_One R_Zero_False R_Not R_And R_Or

lemma R_cong: "R a x \<Longrightarrow> x = y \<Longrightarrow> R a y"
  by simp

lemma R_Xor: "R a x \<Longrightarrow> R b y \<Longrightarrow> R (el_Xor E a b) (x \<noteq> y)"
  unfolding el_Xor_def by (rule R_cong[OF R_And[OF R_Or R_Not[OF R_And]]]) auto

lemma R_HalfAdder:
  "R a x \<Longrightarrow> R b y \<Longrightarrow> R (fst (HalfAdder E a b)) (x \<noteq> y)" "R a x \<Longrightarrow> R b y \<Longrightarrow> R (snd (HalfAdder E a b)) (x \<and> y)"
  using R_Xor[of a x b y] R_And[of a x b y] by (simp_all add: HalfAdder_def el_Xor_def Let_def)

lemma R_FullAdder:
  assumes "R a x" "R b y" "R c z"
  shows "R (fst (FullAdder E a b c)) ((x \<noteq> y) \<noteq> z)" "R (snd (FullAdder E a b c)) (x \<and> y \<or> (x \<noteq> y) \<and> z)"
  using R_HalfAdder(1)[OF R_HalfAdder(1)[OF assms(1,2)] assms(3)]
    R_Or[OF R_HalfAdder(2)[OF assms(1,2)] R_HalfAdder(2)[OF R_HalfAdder(1)[OF assms(1,2)] assms(3)]]
  by (simp_all add: FullAdder_def Let_def)

lemma BitsToVector_vec: "yields (vec R n (int v)) (BitsToVector E (mk_bits n v))"
proof -
  have "BitsToVector E (mk_bits n v) = Some (map (\<lambda>i. if bit v i then el_One E else el_Zero E) [0..<n])"
    unfolding BitsToVector_def by (simp, rule generate_eq) simp
  then show ?thesis by (auto simp: vec_def R_One R_Zero bit_of_nat_iff)
qed

text \<open>A constant of the width, as the code writes it.\<close>

lemma const_vec:
  assumes "unat w = k" "k < 2 ^ n" "\<And>v. vec R n (int k) v \<Longrightarrow> yields Q (f v)"
  shows "yields Q (do { b \<leftarrow> UBits w n; v \<leftarrow> BitsToVector E b; f v })"
  using assms(1,2) yields_bind[OF BitsToVector_vec assms(3)] by simp

lemma BitwiseNot_vec: "vec R n x a \<Longrightarrow> vec R n (NOT x) (BitwiseNot E a)"
  by (auto simp: vec_def BitwiseNot_def bit_simps R_Not)

lemma map2_vec:
  assumes "vec R n x a" "vec R n y b"
    and "\<And>e d i. i < n \<Longrightarrow> R e (bit x i) \<Longrightarrow> R d (bit y i) \<Longrightarrow> R (f e d) (bit z i)"
  shows "yields (vec R n z) (generate n (\<lambda>j. do { e \<leftarrow> list_at a j; d \<leftarrow> list_at b j; Some (f e d) }))"
proof -
  have "yields (\<lambda>v. length v = n \<and> (\<forall>i < n. R (v ! i) (bit z i))) (generate n (\<lambda>j. do { e \<leftarrow> list_at a j; d \<leftarrow> list_at b j; Some (f e d) }))"
    using assms by (intro yields_generate) (simp add: vecD)
  then show ?thesis by (rule yields_mono) (simp add: vec_def)
qed

lemma NaryOp_vec:
  assumes "inputs \<noteq> []" "list_all2 (\<lambda>x a. vec R n x a) xs inputs"
    and f: "\<And>x y e d i. R e (bit x i) \<Longrightarrow> R d (bit y i) \<Longrightarrow> R (f e d) (bit (g x y) i)"
  shows "yields (vec R n (fold (\<lambda>y x. g x y) (tl xs) (hd xs))) (NaryOp f inputs)"
proof -
  obtain a as x ys where i: "inputs = a # as" "xs = x # ys" "vec R n x a" "list_all2 (\<lambda>x a. vec R n x a) ys as"
    using assms(1,2) by (cases inputs; cases xs) auto
  have "yields (vec R n (fold (\<lambda>y x. g x y) ys x))
     (for_state (\<lambda>input result. generate (length result) (\<lambda>j. do { e \<leftarrow> list_at result j; d \<leftarrow> list_at input j; Some (f e d) })) as a)"
    using i(4,3)
  proof (induction ys as arbitrary: x a rule: list_all2_induct)
    case (Cons y ys b as)
    have "yields (vec R n (g x y)) (generate (length a) (\<lambda>j. do { e \<leftarrow> list_at a j; d \<leftarrow> list_at b j; Some (f e d) }))"
      using map2_vec[OF Cons.prems Cons.hyps(1) f] vecD(1)[OF Cons.prems] by simp
    then show ?case using Cons.IH by (simp add: yields_bind)
  qed simp
  then show ?thesis using i by (simp add: NaryOp_def)
qed

lemma Bitwise_vec:
  assumes "vec R n x a" "vec R n y b"
  shows "yields (vec R n (x AND y)) (BitwiseAnd E [a, b])" "yields (vec R n (x OR y)) (BitwiseOr E [a, b])"
    "yields (vec R n (x XOR y)) (BitwiseXor E [a, b])"
proof -
  have l: "list_all2 (\<lambda>x a. vec R n x a) [x, y] [a, b]" using assms by simp
  show "yields (vec R n (x AND y)) (BitwiseAnd E [a, b])"
    unfolding BitwiseAnd_def using NaryOp_vec[OF _ l, of "el_And E" "(AND)"] by (simp add: bit_simps R_And)
  show "yields (vec R n (x OR y)) (BitwiseOr E [a, b])"
    unfolding BitwiseOr_def using NaryOp_vec[OF _ l, of "el_Or E" "(OR)"] by (simp add: bit_simps R_Or)
  have f: "R (el_Xor E e d) (bit (x XOR y) i)" if "R e (bit x i)" "R d (bit y i)" for x y :: int and e d i
    using R_Xor[OF that] by (simp add: bit_simps)
  show "yields (vec R n (x XOR y)) (BitwiseXor E [a, b])"
    unfolding BitwiseXor_def using NaryOp_vec[OF _ l, of "el_Xor E" "(XOR)", OF _ f] by simp
qed

lemma BitSlice_vec: "vec R n x a \<Longrightarrow> s + w \<le> n \<Longrightarrow> yields (vec R w (drop_bit s x)) (AE_BitSlice a s w)"
proof -
  assume a: "vec R n x a" "s + w \<le> n"
  have "generate w (\<lambda>i. list_at a (s + i)) = Some (map (\<lambda>i. a ! (s + i)) [0..<w])"
    using a by (intro generate_eq) (simp add: vecD)
  moreover have "unat (word_of_nat (s + w) :: u64) \<le> length a"
    using order_trans[OF take_bit_nat_less_eq_self a(2)] vecD(1)[OF a(1)] by (simp add: unsigned_of_nat del: of_nat_add)
  ultimately show ?thesis using a by (auto simp: AE_BitSlice_def vec_def bit_simps)
qed

lemma Concat_eq: "AE_Concat (inputs :: 'f list list) = concat (rev inputs)"
proof -
  have "fold (\<lambda>input result. result @ input) xs acc = acc @ concat xs" for xs :: "'f list list" and acc
    by (induction xs arbitrary: acc) auto
  then show ?thesis unfolding AE_Concat_def by (metis append_Nil)
qed

lemma ZeroExtend_vec:
  assumes "vec R n x a" "n \<le> m"
  shows "yields (vec R m (take_bit n x)) (AE_ZeroExtend E a m)"
proof -
  have "vec R (m - n) 0 (replicate (m - n) (el_Zero E))" by (rule vec_replicate) (simp add: R_Zero)
  then show ?thesis using vec_append[OF assms(1), of "m - n" 0] assms(2) vecD(1)[OF assms(1)]
    by (simp add: AE_ZeroExtend_def Concat_eq)
qed

text \<open>The two's complement number of the low bits.\<close>

lemma SignExtend_vec:
  assumes "vec R n x a" "0 < n" "n \<le> m"
  shows "yields (vec R m (signed_take_bit (n - 1) x)) (AE_SignExtend a m)"
proof -
  obtain s where s: "vector_back a = Some s" "R s (bit x (n - 1))" using vec_back[OF assms(1,2)] by (auto simp: yields_def)
  have "vec R (m - n) (if bit x (n - 1) then - 1 else 0) (replicate (m - n) s)" by (rule vec_replicate) (use s(2) in \<open>cases "bit x (n - 1)"; simp\<close>)
  then have v: "vec R m (take_bit n x OR push_bit n (if bit x (n - 1) then - 1 else 0)) (a @ replicate (m - n) s)"
    using vec_append[OF assms(1), of "m - n"] assms(3) by simp
  have "vec R m (signed_take_bit (n - 1) x) (a @ replicate (m - n) s)"
  proof (rule vec_bits[OF v])
    fix i
    consider "i < n - 1" | "i = n - 1" | "n \<le> i" using assms(2) by linarith
    then show "bit (take_bit n x OR push_bit n (if bit x (n - 1) then - 1 else 0)) i = bit (signed_take_bit (n - 1) x) i"
      by cases (use assms(2) in \<open>auto simp: bit_simps min_def\<close>)
  qed
  then show ?thesis using assms s(1) vecD(1)[OF assms(1)] by (simp add: AE_SignExtend_def Concat_eq)
qed


lemma Equals_vec:
  assumes "vec R n x a" "vec R n y b"
  shows "yields (\<lambda>e. R e (take_bit n x = take_bit n y)) (AE_Equals E a b)"
proof -
  have "yields (\<lambda>e. R e (\<forall>i < n. bit x i = bit y i)) (for_state (\<lambda>i result. do {
         x \<leftarrow> list_at a i; y \<leftarrow> list_at b i;
         Some (el_And E result (el_Or E (el_And E x y) (el_And E (el_Not E x) (el_Not E y)))) })
       [0..<n] (el_One E))"
  proof (rule yields_for_upt[where P = "\<lambda>k e. R e (\<forall>i < k. bit x i = bit y i)"])
    fix i e assume i: "i < n" "R e (\<forall>j < i. bit x j = bit y j)"
    note xy = vecD(2)[OF assms(1) i(1)] vecD(2)[OF assms(2) i(1)]
    have "R (el_And E e (el_Or E (el_And E (a ! i) (b ! i)) (el_And E (el_Not E (a ! i)) (el_Not E (b ! i))))) (\<forall>j < Suc i. bit x j = bit y j)"
      by (rule R_cong[OF R_And[OF i(2) R_Or[OF R_And[OF xy] R_And[OF R_Not[OF xy(1)] R_Not[OF xy(2)]]]]]) (auto simp: less_Suc_eq)
    then show "yields (\<lambda>e. R e (\<forall>j < Suc i. bit x j = bit y j)) (do {
         x \<leftarrow> list_at a i; y \<leftarrow> list_at b i;
         Some (el_And E e (el_Or E (el_And E x y) (el_And E (el_Not E x) (el_Not E y)))) })"
      using i(1) vecD(1)[OF assms(1)] vecD(1)[OF assms(2)] by simp
  qed (simp add: R_One)
  moreover have "(\<forall>i < n. bit x i = bit y i) \<longleftrightarrow> take_bit n x = take_bit n y" by (auto simp: bit_eq_iff bit_take_bit_iff)
  ultimately show ?thesis using vecD(1)[OF assms(1)] vecD(1)[OF assms(2)] by (simp add: AE_Equals_def)
qed

lemma drop_bit_step: "k < n \<Longrightarrow> drop_bit k (take_bit n (x :: int)) = 2 * drop_bit (Suc k) (take_bit n x) + of_bool (bit x k)"
proof -
  assume "k < n"
  then have "bit (take_bit n x) k = bit x k" by (simp add: bit_take_bit_iff)
  then have "drop_bit k (take_bit n x) mod 2 = of_bool (bit x k)" by (simp add: bit_iff_odd_drop_bit mod_2_eq_odd)
  moreover have "drop_bit (Suc k) (take_bit n x) = drop_bit k (take_bit n x) div 2" by (simp add: drop_bit_Suc drop_bit_half)
  ultimately show ?thesis by (metis mult_div_mod_eq)
qed

lemma ULessThan_vec:
  assumes "vec R n x a" "vec R n y b"
  shows "yields (\<lambda>e. R e (take_bit n x < take_bit n y)) (AE_ULessThan E a b)"
proof -
  let ?X = "\<lambda>k. drop_bit k (take_bit n x)" and ?Y = "\<lambda>k. drop_bit k (take_bit n y)"
  let ?P = "\<lambda>k (r, u). R r (?X k < ?Y k) \<and> (\<exists>c. R u c \<and> (?X k = ?Y k \<longrightarrow> c) \<and> (c \<longrightarrow> ?X k \<le> ?Y k))"
  let ?f = "\<lambda>i (result, upper_bits_lte). do {
         x \<leftarrow> list_at a i; y \<leftarrow> list_at b i;
         Some (el_Or E result (el_And E upper_bits_lte (el_And E (el_Not E x) y)),
               el_And E upper_bits_lte (el_Or E (el_Not E x) y)) }"
  have "yields (?P 0) (for_state ?f (rev [0..<n]) (el_Zero E, el_One E))"
  proof (rule yields_for_down[where P = ?P])
    have "?X n = 0" "?Y n = 0" by (simp_all add: drop_bit_take_bit)
    then show "?P n (el_Zero E, el_One E)" using R_One by (auto simp: R_Zero)
  next
    fix i t assume i: "i < n" and P: "?P (Suc i) t"
    obtain r u c where t: "t = (r, u)" "R r (?X (Suc i) < ?Y (Suc i))" "R u c"
      and c: "?X (Suc i) = ?Y (Suc i) \<longrightarrow> c" "c \<longrightarrow> ?X (Suc i) \<le> ?Y (Suc i)" using P by (cases t) auto
    note xy = vecD(2)[OF assms(1) i] vecD(2)[OF assms(2) i]
    note X = drop_bit_step[OF i, of x] and Y = drop_bit_step[OF i, of y]
    have "R (el_Or E r (el_And E u (el_And E (el_Not E (a ! i)) (b ! i)))) (?X i < ?Y i)"
      by (rule R_cong[OF R_Or[OF t(2) R_And[OF t(3) R_And[OF R_Not[OF xy(1)] xy(2)]]]])
        (use c in \<open>unfold X Y, cases "bit x i"; cases "bit y i"; cases c; auto\<close>)
    moreover have "R (el_And E u (el_Or E (el_Not E (a ! i)) (b ! i))) (c \<and> (\<not> bit x i \<or> bit y i))"
      by (rule R_And[OF t(3) R_Or[OF R_Not[OF xy(1)] xy(2)]])
    moreover have "(?X i = ?Y i \<longrightarrow> c \<and> (\<not> bit x i \<or> bit y i)) \<and> (c \<and> (\<not> bit x i \<or> bit y i) \<longrightarrow> ?X i \<le> ?Y i)"
      using c unfolding X Y by (cases "bit x i"; cases "bit y i"; cases c) (auto, presburger)
    ultimately show "yields (?P i) (?f i t)"
      using i vecD(1)[OF assms(1)] vecD(1)[OF assms(2)] t(1) by auto
  qed
  then show ?thesis using vecD(1)[OF assms(1)] vecD(1)[OF assms(2)]
    unfolding AE_ULessThan_def by (auto elim!: yields_bind)
qed

lemma signed_parts: "0 < n \<Longrightarrow> signed_take_bit (n - 1) x = take_bit n x - (if bit x (n - 1) then 2 ^ n else 0)" for x :: int
  by (cases n) (simp_all add: signed_take_bit_eq_take_bit_minus)

lemma SLessThan_vec:
  assumes "vec R n x a" "vec R n y b" "0 < n"
  shows "yields (\<lambda>e. R e (signed_take_bit (n - 1) x < signed_take_bit (n - 1) y)) (AE_SLessThan E a b)"
proof -
  let ?s = "bit x (n - 1)" and ?t = "bit y (n - 1)"
  have "(?s \<and> \<not> ?t) \<or> (\<not> (\<not> ?s \<and> ?t) \<and> take_bit n x < take_bit n y) \<longleftrightarrow> signed_take_bit (n - 1) x < signed_take_bit (n - 1) y"
    using take_bit_int_less_exp[of n x] take_bit_int_less_exp[of n y] take_bit_nonnegative[of n x] take_bit_nonnegative[of n y]
    unfolding signed_parts[OF assms(3)] by (cases ?s; cases ?t; simp only: if_True if_False simp_thms; linarith)
  then show ?thesis unfolding AE_SLessThan_def Let_def
    by (auto intro!: yields_bind[OF vec_back[OF assms(1,3)]] yields_bind[OF vec_back[OF assms(2,3)]]
        yields_bind[OF ULessThan_vec[OF assms(1,2)]] intro: R_cong[OF R_Or[OF R_And[OF _ R_Not] R_And[OF R_Not[OF R_And[OF R_Not]]]]])
qed


lemma BitwiseOr_pointwise:
  "length m = w \<Longrightarrow> length r = w \<Longrightarrow> BitwiseOr E [m, r] = Some (map (\<lambda>j. el_Or E (m ! j) (r ! j)) [0..<w])"
  unfolding BitwiseOr_def NaryOp_def by (simp, rule generate_eq) simp

text \<open>
  A select is given by the selector's elements, for the Booleans \<open>bs\<close>, and the cases, for the numbers \<open>xs\<close>.
\<close>

definition select_args :: "nat \<Rightarrow> nat \<Rightarrow> (nat \<Rightarrow> bool) \<Rightarrow> (nat \<Rightarrow> int) \<Rightarrow> 'e list \<Rightarrow> 'e list list \<Rightarrow> bool" where
  "select_args n w bs xs selector cases \<longleftrightarrow> 0 < n \<and> length selector = n \<and> length cases = n \<and>
     (\<forall>i < n. R (selector ! i) (bs i) \<and> vec R w (xs i) (cases ! i))"

lemma select_argsD:
  assumes "select_args n w bs xs selector cases"
  shows "length selector = n" "length cases = n" "0 < n" "length (hd cases) = w" "i < n \<Longrightarrow> R (selector ! i) (bs i)"
    "i < n \<Longrightarrow> length (cases ! i) = w" "i < n \<Longrightarrow> j < w \<Longrightarrow> R (cases ! i ! j) (bit (xs i) j)"
proof -
  show "length (hd cases) = w" using assms by (cases cases) (auto simp: select_args_def vec_def)
qed (use assms in \<open>auto simp: select_args_def vec_def\<close>)

lemma and_reduction_ok:
  assumes S: "select_args n w bs xs selector cases"
  shows "yields (\<lambda>v. length v = w \<and> (\<forall>j < w. \<exists>c. R (v ! j) c \<and> (c \<longrightarrow> (\<forall>i < n. bs i \<longrightarrow> bit (xs i) j))))
    (and_reduction E selector cases w)"
  unfolding and_reduction_def select_argsD(1)[OF S]
proof (rule yields_for_upt[where P = "\<lambda>k v. length v = w \<and> (\<forall>j < w. \<exists>c. R (v ! j) c \<and> (c \<longrightarrow> (\<forall>i < k. bs i \<longrightarrow> bit (xs i) j)))"], goal_cases)
  case 1
  then show ?case using R_One by auto
next
  case (2 i v)
  note D = select_argsD[OF S]
  show ?case
  proof (cases "selector ! i = el_Zero E")
    case True
    then have "\<not> bs i" using D(5)[OF 2(1)] by (simp add: R_Zero)
    then show ?thesis using 2 True D(1,2) by (auto simp: less_Suc_eq)
  next
    case False
    have "yields (\<lambda>u. length u = w \<and> (\<forall>j < w. \<exists>c. R (u ! j) c \<and> (c \<longrightarrow> (\<forall>i' < Suc i. bs i' \<longrightarrow> bit (xs i') j))))
       (generate w (\<lambda>j. do { x \<leftarrow> list_at v j; y \<leftarrow> list_at (cases ! i) j; Some (el_And E x y) }))"
    proof (rule yields_generate)
      fix j assume j: "j < w"
      then obtain c where c: "R (v ! j) c" "c \<longrightarrow> (\<forall>i' < i. bs i' \<longrightarrow> bit (xs i') j)" using 2(2) by auto
      have "R (el_And E (v ! j) (cases ! i ! j)) (c \<and> bit (xs i) j)" by (rule R_And[OF c(1) D(7)[OF 2(1) j]])
      then show "yields (\<lambda>e. \<exists>c. R e c \<and> (c \<longrightarrow> (\<forall>i' < Suc i. bs i' \<longrightarrow> bit (xs i') j)))
          (do { x \<leftarrow> list_at v j; y \<leftarrow> list_at (cases ! i) j; Some (el_And E x y) })"
        using c(2) j 2 D(6)[OF 2(1)] by (auto simp: less_Suc_eq)
    qed
    then show ?thesis using False 2(1) D(1,2) by simp
  qed
qed

text \<open>The mask of common bits changes nothing when some case is selected.\<close>

lemma select_mask:
  assumes S: "select_args n w bs xs selector cases" and z: "can_be_zero \<or> (\<exists>i < n. bs i)"
    and v: "length v = w \<and> (\<forall>j < w. R (v ! j) (P j))"
    and P: "\<And>i j. i < n \<Longrightarrow> bs i \<Longrightarrow> j < w \<Longrightarrow> \<forall>i < n. bs i \<longrightarrow> bit (xs i) j \<Longrightarrow> P j"
  shows "yields (\<lambda>u. length u = w \<and> (\<forall>j < w. R (u ! j) (P j)))
    (if \<not> can_be_zero then do { m \<leftarrow> and_reduction E selector cases w; BitwiseOr E [m, v] } else Some v)"
proof (cases can_be_zero)
  case False
  then obtain k where k: "k < n" "bs k" using z by blast
  have "yields (\<lambda>u. length u = w \<and> (\<forall>j < w. R (u ! j) (P j))) (do { m \<leftarrow> and_reduction E selector cases w; BitwiseOr E [m, v] })"
  proof (rule yields_bind[OF and_reduction_ok[OF S]])
    fix m assume m: "length m = w \<and> (\<forall>j < w. \<exists>c. R (m ! j) c \<and> (c \<longrightarrow> (\<forall>i < n. bs i \<longrightarrow> bit (xs i) j)))"
    have "R (el_Or E (m ! j) (v ! j)) (P j)" if j: "j < w" for j
    proof -
      obtain c where c: "R (m ! j) c" "c \<longrightarrow> (\<forall>i < n. bs i \<longrightarrow> bit (xs i) j)" using m j by blast
      have "R (v ! j) (P j)" using v j by blast
      then show ?thesis using R_cong[OF R_Or[OF c(1)]] c(2) P[OF k j] by blast
    qed
    then show "yields (\<lambda>u. length u = w \<and> (\<forall>j < w. R (u ! j) (P j))) (BitwiseOr E [m, v])"
      using BitwiseOr_pointwise[of m w v] m v by simp
  qed
  then show ?thesis using False by simp
qed (use v in simp)

lemma OneHotSelectInternal_ok:
  assumes S: "select_args n w bs xs selector cases" and z: "can_be_zero \<or> (\<exists>i < n. bs i)"
  shows "yields (\<lambda>v. length v = w \<and> (\<forall>j < w. R (v ! j) (\<exists>i < n. bs i \<and> bit (xs i) j)))
    (OneHotSelectInternal E selector cases can_be_zero)"
proof -
  note D = select_argsD[OF S]
  have "yields (\<lambda>v. length v = w \<and> (\<forall>j < w. R (v ! j) (\<exists>i < n. bs i \<and> bit (xs i) j)))
    (for_state (\<lambda>i result. do {
         s \<leftarrow> list_at selector i;
         c \<leftarrow> list_at cases i;
         generate w (\<lambda>j. do { x \<leftarrow> list_at result j; y \<leftarrow> list_at c j; Some (el_Or E x (el_And E y s)) }) })
       [0..<n] (replicate w (el_Zero E)))"
  proof (rule yields_for_upt[where P = "\<lambda>k v. length v = w \<and> (\<forall>j < w. R (v ! j) (\<exists>i < k. bs i \<and> bit (xs i) j))"], goal_cases)
    case (2 i v)
    have "yields (\<lambda>u. length u = w \<and> (\<forall>j < w. R (u ! j) (\<exists>i' < Suc i. bs i' \<and> bit (xs i') j)))
       (generate w (\<lambda>j. do { x \<leftarrow> list_at v j; y \<leftarrow> list_at (cases ! i) j; Some (el_Or E x (el_And E y (selector ! i))) }))"
    proof (rule yields_generate)
      fix j assume j: "j < w"
      have "R (el_Or E (v ! j) (el_And E (cases ! i ! j) (selector ! i))) (\<exists>i' < Suc i. bs i' \<and> bit (xs i') j)"
        by (rule R_cong[OF R_Or[OF _ R_And[OF D(7)[OF 2(1) j] D(5)[OF 2(1)]]]]) (use 2(2) j in \<open>auto simp: less_Suc_eq\<close>)
      then show "yields (\<lambda>e. R e (\<exists>i' < Suc i. bs i' \<and> bit (xs i') j))
          (do { x \<leftarrow> list_at v j; y \<leftarrow> list_at (cases ! i) j; Some (el_Or E x (el_And E y (selector ! i))) })"
        using j 2 D(6)[OF 2(1)] by simp
    qed
    then show ?case using 2(1) D(1,2) by simp
  qed (simp add: R_Zero)
  moreover note select_mask[OF S z, where P = "\<lambda>j. \<exists>i < n. bs i \<and> bit (xs i) j"]
  ultimately show ?thesis unfolding OneHotSelectInternal_def D(1,2) using D(3,4)
    by (simp add: Let_def) (rule yields_bind, assumption, blast)
qed

lemma OneHotSelect_one:
  assumes S: "select_args n w bs xs selector cases" and k: "k < n" "\<And>i. i < n \<Longrightarrow> bs i \<longleftrightarrow> i = k"
  shows "yields (vec R w (xs k)) (OneHotSelectInternal E selector cases can_be_zero)"
proof (rule yields_mono[OF OneHotSelectInternal_ok[OF S]])
  show "can_be_zero \<or> (\<exists>i < n. bs i)" using k by blast
  fix v assume v: "length v = w \<and> (\<forall>j < w. R (v ! j) (\<exists>i < n. bs i \<and> bit (xs i) j))"
  have "(\<exists>i < n. bs i \<and> bit (xs i) j) = bit (xs k) j" for j using k by blast
  then show "vec R w (xs k) v" using v by (simp add: vec_def)
qed

end

end
