(* ===== verification/ElementSelect.thy ===== *)
theory ElementSelect
  imports ElementLogic
begin

text \<open>
  The selection circuits of \<open>AbstractEvaluator\<close> under the contract of the element logic: priority selects,
  \<open>Select\<close> with and without a default, the one-hot encoders, the reductions, \<open>Decode\<close> and \<open>Encode\<close>.
\<close>

context element_logic
begin

lemma PrioritySelectInternal_ok:
  assumes S: "select_args n w bs xs selector cases" and z: "can_be_zero \<or> (\<exists>i < n. bs i)"
  shows "yields (\<lambda>v. length v = w \<and> (\<forall>j < w. R (v ! j) (\<exists>i < n. bs i \<and> (\<forall>l < i. \<not> bs l) \<and> bit (xs i) j)))
    (PrioritySelectInternal E selector cases can_be_zero)"
proof -
  note D = select_argsD[OF S]
  let ?P = "\<lambda>k j. \<exists>i < n. k \<le> i \<and> bs i \<and> (\<forall>l < i. k \<le> l \<longrightarrow> \<not> bs l) \<and> bit (xs i) j"
  have "yields (\<lambda>v. length v = w \<and> (\<forall>j < w. R (v ! j) (?P 0 j)))
    (for_state (\<lambda>i result. do {
         s \<leftarrow> list_at selector i;
         c \<leftarrow> list_at cases i;
         generate w (\<lambda>j. do { x \<leftarrow> list_at result j; y \<leftarrow> list_at c j;
           Some (el_Or E (el_And E y s) (el_And E x (el_Not E s))) }) })
       (rev [0..<n]) (replicate w (el_Zero E)))"
  proof (rule yields_for_down[where P = "\<lambda>k v. length v = w \<and> (\<forall>j < w. R (v ! j) (?P k j))"], goal_cases)
    case (2 i v)
    have "yields (\<lambda>u. length u = w \<and> (\<forall>j < w. R (u ! j) (?P i j)))
       (generate w (\<lambda>j. do { x \<leftarrow> list_at v j; y \<leftarrow> list_at (cases ! i) j;
           Some (el_Or E (el_And E y (selector ! i)) (el_And E x (el_Not E (selector ! i)))) }))"
    proof (rule yields_generate)
      fix j assume j: "j < w"
      note s = D(5)[OF 2(1)]
      have v: "R (v ! j) (?P (Suc i) j)" using 2(2) j by blast
      have "bit (xs i) j \<and> bs i \<or> ?P (Suc i) j \<and> \<not> bs i \<longleftrightarrow> ?P i j"
      proof (cases "bs i")
        case True
        then have "?P i j \<longleftrightarrow> bit (xs i) j" using 2(1) by (metis le_less not_less order_refl)
        then show ?thesis using True by blast
      next
        case False
        then have "(i \<le> l \<longrightarrow> \<not> bs l) \<longleftrightarrow> (Suc i \<le> l \<longrightarrow> \<not> bs l)" for l by (metis Suc_le_eq le_less)
        moreover have "i \<le> l \<and> bs l \<longleftrightarrow> Suc i \<le> l \<and> bs l" for l using False by (metis Suc_le_eq le_less)
        ultimately have "?P i j \<longleftrightarrow> ?P (Suc i) j" by (metis (no_types, lifting))
        then show ?thesis using False by blast
      qed
      then have "R (el_Or E (el_And E (cases ! i ! j) (selector ! i)) (el_And E (v ! j) (el_Not E (selector ! i)))) (?P i j)"
        using R_Or[OF R_And[OF D(7)[OF 2(1) j] s] R_And[OF v R_Not[OF s]]] by (rule R_cong[rotated])
      then show "yields (\<lambda>e. R e (?P i j)) (do { x \<leftarrow> list_at v j; y \<leftarrow> list_at (cases ! i) j;
           Some (el_Or E (el_And E y (selector ! i)) (el_And E x (el_Not E (selector ! i)))) })"
        using j 2 D(6)[OF 2(1)] by simp
    qed
    then show ?case using 2(1) D(1,2) by simp
  qed (simp add: R_Zero)
  note loop = this
  let ?Q = "\<lambda>j. \<exists>i < n. bs i \<and> (\<forall>l < i. \<not> bs l) \<and> bit (xs i) j"
  have Q: "?Q j" if "k < n" "bs k" "j < w" "\<forall>i < n. bs i \<longrightarrow> bit (xs i) j" for k j
  proof -
    obtain i where i: "i = (LEAST i. bs i)" by blast
    have "bs i" "i \<le> k" unfolding i using that(2) by (rule LeastI, rule Least_le)
    moreover have "\<not> bs l" if "l < i" for l using not_less_Least[of l bs] that i by simp
    ultimately show ?thesis using that(1,4) by (metis order_le_less_trans)
  qed
  have eq: "PrioritySelectInternal E selector cases can_be_zero =
    (for_state (\<lambda>i result. do {
         s \<leftarrow> list_at selector i;
         c \<leftarrow> list_at cases i;
         generate w (\<lambda>j. do { x \<leftarrow> list_at result j; y \<leftarrow> list_at c j;
           Some (el_Or E (el_And E y s) (el_And E x (el_Not E s))) }) })
       (rev [0..<n]) (replicate w (el_Zero E)) \<bind>
     (\<lambda>v. if \<not> can_be_zero then do { m \<leftarrow> and_reduction E selector cases w; BitwiseOr E [m, v] } else Some v))"
    using D(1-4) by (simp add: PrioritySelectInternal_def Let_def)
  show ?thesis unfolding eq
  proof (rule yields_bind[OF loop])
    fix v assume "length v = w \<and> (\<forall>j < w. R (v ! j) (?P 0 j))"
    then have v: "length v = w \<and> (\<forall>j < w. R (v ! j) (?Q j))" by simp
    show "yields (\<lambda>v. length v = w \<and> (\<forall>j < w. R (v ! j) (?Q j)))
        (if \<not> can_be_zero then do { m \<leftarrow> and_reduction E selector cases w; BitwiseOr E [m, v] } else Some v)"
      by (rule select_mask[OF S z v]) (rule Q)
  qed
qed

text \<open>The selector of \<open>Select\<close> compares with each index.\<close>

lemma one_hot_of_index:
  assumes sel: "vec R m s selector" and len: "k \<le> 2 ^ m" "k \<le> 2 ^ 64"
  shows "yields (\<lambda>v. length v = k \<and> (\<forall>i < k. R (v ! i) (take_bit m s = int i)))
    (generate k (\<lambda>i. do { b \<leftarrow> UBits (word_of_nat i) (length selector); v \<leftarrow> BitsToVector E b; AE_Equals E selector v }))"
proof (rule yields_generate)
  fix i assume i: "i < k"
  then have w: "unat (word_of_nat i :: u64) = i" using len(2) by (intro unat_word_of_nat_64) simp
  have "take_bit m (int i) = int i" using i len(1) by (intro take_bit_int_eq_self) (auto simp: int_less_power_iff)
  then show "yields (\<lambda>e. R e (take_bit m s = int i))
      (do { b \<leftarrow> UBits (word_of_nat i) (length selector); v \<leftarrow> BitsToVector E b; AE_Equals E selector v })"
    unfolding vecD(1)[OF sel] using i len(1) Equals_vec[OF sel, of "int i"] by (intro const_vec[OF w]) auto
qed

lemma Select_vec:
  assumes sel: "vec R m s selector" and cases: "length cases = k" "\<And>i. i < k \<Longrightarrow> vec R w (xs i) (cases ! i)"
    and k: "k \<le> 2 ^ m" "k \<le> 2 ^ 64" "take_bit m s < int k"
  shows "yields (vec R w (xs (nat (take_bit m s)))) (AE_Select E selector cases None)"
proof -
  have k0: "0 < k" using k(3) take_bit_nonnegative[of m s] by linarith
  have s: "nat (take_bit m s) < k" "\<And>i. (take_bit m s = int i) = (i = nat (take_bit m s))"
    using k(3) by (auto simp: nat_less_iff)
  show ?thesis unfolding AE_Select_def AE_OneHotSelect_def cases(1) option.case
  proof (rule yields_bind[OF one_hot_of_index[OF sel k(1,2)]])
    fix v assume "length v = k \<and> (\<forall>i < k. R (v ! i) (take_bit m s = int i))"
    then have "select_args k w (\<lambda>i. take_bit m s = int i) xs v cases" using cases k0 by (simp add: select_args_def)
    then show "yields (vec R w (xs (nat (take_bit m s)))) (OneHotSelectInternal E v cases False)"
      by (rule OneHotSelect_one) (use s in auto)
  qed
qed

lemma Select_default_vec:
  assumes sel: "vec R m s selector" and cases: "length cases = k" "\<And>i. i < k \<Longrightarrow> vec R w (xs i) (cases ! i)"
    and d: "vec R w y d" and k: "k \<le> 2 ^ m" "k \<le> 2 ^ 64" "0 < k"
  shows "yields (vec R w (if take_bit m s < int k then xs (nat (take_bit m s)) else y)) (AE_Select E selector cases (Some d))"
proof -
  let ?t = "take_bit m s"
  let ?bs = "\<lambda>i. if i < k then ?t = int i else int (k - 1) < ?t" and ?ys = "\<lambda>i. if i < k then xs i else y"
    and ?j = "if ?t < int k then nat ?t else k"
  have t: "0 \<le> ?t" by simp
  have lt: "int (k - 1) < ?t \<longleftrightarrow> int k \<le> ?t" using k(3) by linarith
  have bs: "?bs i \<longleftrightarrow> i = ?j" if "i < Suc k" for i
  proof (cases "i < k")
    case True
    then show ?thesis using t by (auto simp: nat_less_iff)
  next
    case False
    then have "i = k" using that by simp
    then show ?thesis using lt t by auto
  qed
  have c: "unat (word_of_nat k - 1 :: u64) = k - 1"
  proof -
    have "(word_of_nat k - 1 :: u64) = word_of_nat (k - 1)" using k(3) by (simp add: of_nat_diff)
    then show ?thesis using k(2,3) unat_word_of_nat_64[of "k - 1"] by simp
  qed
  have tk: "take_bit m (int (k - 1)) = int (k - 1)" using k(1,3) int_less_power_iff[of "k - 1" m] by (intro take_bit_int_eq_self) auto
  have final: "yields (vec R w (if ?t < int k then xs (nat ?t) else y)) (OneHotSelectInternal E (v @ [l]) (cases @ [d]) False)"
    if v: "length v = k \<and> (\<forall>i < k. R (v ! i) (?t = int i))" and l: "R l (int (k - 1) < ?t)" for v l
  proof -
    have "select_args (Suc k) w ?bs ?ys (v @ [l]) (cases @ [d])"
      using v l cases d k(3) by (auto simp: select_args_def nth_append less_Suc_eq)
    then have "yields (vec R w (?ys ?j)) (OneHotSelectInternal E (v @ [l]) (cases @ [d]) False)"
      by (rule OneHotSelect_one) (use bs t in \<open>auto simp: nat_less_iff\<close>)
    moreover have "?ys ?j = (if ?t < int k then xs (nat ?t) else y)" using t by (auto simp: nat_less_iff)
    ultimately show ?thesis by simp
  qed
  show ?thesis unfolding AE_Select_def AE_OneHotSelect_def cases(1) option.case vecD(1)[OF sel]
  proof (rule yields_bind[OF one_hot_of_index[OF sel k(1,2), unfolded vecD(1)[OF sel]]])
    fix v assume v: "length v = k \<and> (\<forall>i < k. R (v ! i) (?t = int i))"
    show "yields (vec R w (if ?t < int k then xs (nat ?t) else y)) (do {
          b \<leftarrow> UBits (word_of_nat k - 1) m; u \<leftarrow> BitsToVector E b; l \<leftarrow> AE_ULessThan E u selector;
          OneHotSelectInternal E (v @ [l]) (cases @ [d]) False })"
    proof (rule const_vec[OF c])
      show "k - 1 < 2 ^ m" using k(1,3) by simp
      fix u assume "vec R m (int (k - 1)) u"
      from ULessThan_vec[OF this sel, unfolded tk]
      show "yields (vec R w (if ?t < int k then xs (nat ?t) else y)) (do { l \<leftarrow> AE_ULessThan E u selector; OneHotSelectInternal E (v @ [l]) (cases @ [d]) False })"
        by (rule yields_bind) (rule final[OF v])
    qed
  qed
qed

text \<open>A choice between two vectors by one element.\<close>

lemma Select_two:
  assumes "R e c" "vec R w x a" "vec R w y b"
  shows "yields (vec R w (if c then y else x)) (AE_Select E [e] [a, b] None)"
proof -
  have e: "vec R 1 (of_bool c) [e]" using assms(1) by (auto simp: vec_def bit_0)
  have "vec R w (if i = 0 then x else y) ([a, b] ! i)" if "i < 2" for i
    using that assms(2,3) by (cases i) auto
  then have "yields (vec R w (if nat (take_bit 1 (of_bool c)) = 0 then x else y)) (AE_Select E [e] [a, b] None)"
    by (intro Select_vec[OF e, where k = 2 and xs = "\<lambda>i. if i = 0 then x else y"]) (auto simp: less_2_cases_iff)
  then show ?thesis by (cases c) simp_all
qed


lemma OneHotLsbToMsb_vec:
  assumes a: "vec R n x a"
  shows "yields (vec R (n + 1) (2 ^ run_length (\<lambda>i. \<not> bit x i) n)) (AE_OneHotLsbToMsb E a)"
proof -
  let ?P = "\<lambda>k (z, r). R z (\<forall>j < k. \<not> bit x j) \<and> length r = k \<and> (\<forall>i < k. R (r ! i) (bit x i \<and> (\<forall>j < i. \<not> bit x j)))"
  let ?f = "\<lambda>i (all_zero, result). do { e \<leftarrow> list_at a i; Some (el_And E all_zero (el_Not E e), result @ [el_And E all_zero e]) }"
  have "yields (?P n) (for_state ?f [0..<n] (el_One E, []))"
  proof (rule yields_for_upt[where P = ?P])
    fix i t assume i: "i < n" and "?P i t"
    then obtain z r where t: "t = (z, r)" "R z (\<forall>j < i. \<not> bit x j)" "length r = i"
      "\<forall>l < i. R (r ! l) (bit x l \<and> (\<forall>j < l. \<not> bit x j))" by auto
    note e = vecD(2)[OF a i]
    have "R (el_And E z (el_Not E (a ! i))) (\<forall>j < Suc i. \<not> bit x j)"
      by (rule R_cong[OF R_And[OF t(2) R_Not[OF e]]]) (auto simp: less_Suc_eq)
    moreover have "R (el_And E z (a ! i)) (bit x i \<and> (\<forall>j < i. \<not> bit x j))" by (rule R_cong[OF R_And[OF t(2) e]]) auto
    ultimately show "yields (?P (Suc i)) (?f i t)" using t i vecD(1)[OF a] by (auto simp: nth_append less_Suc_eq)
  qed (simp add: R_One)
  moreover have "vec R (n + 1) (2 ^ run_length (\<lambda>i. \<not> bit x i) n) (r @ [z])" if "?P n (z, r)" for z r
  proof (rule vecI)
    fix i assume "i < n + 1"
    then consider "i < n" | "i = n" by linarith
    then show "R ((r @ [z]) ! i) (bit (2 ^ run_length (\<lambda>i. \<not> bit x i) n :: int) i)"
    proof cases
      case 1
      have "run_length (\<lambda>i. \<not> bit x i) n = i \<longleftrightarrow> bit x i \<and> (\<forall>j < i. \<not> bit x j)"
      proof
        assume "run_length (\<lambda>i. \<not> bit x i) n = i"
        then show "bit x i \<and> (\<forall>j < i. \<not> bit x j)"
          using run_length_stop[of "\<lambda>i. \<not> bit x i" n] run_length_holds[of _ "\<lambda>i. \<not> bit x i" n] 1 by auto
      next
        assume "bit x i \<and> (\<forall>j < i. \<not> bit x j)"
        then show "run_length (\<lambda>i. \<not> bit x i) n = i" using 1 by (intro run_length_unique) auto
      qed
      then show ?thesis using that 1 by (simp add: nth_append bit_exp_iff eq_commute[of i "run_length (\<lambda>i. \<not> bit x i) n"])
    next
      case 2
      have "run_length (\<lambda>i. \<not> bit x i) n = n \<longleftrightarrow> (\<forall>j < n. \<not> bit x j)"
        by (rule run_length_0)
      then show ?thesis using that 2 by (simp add: nth_append bit_exp_iff eq_commute[of n "run_length (\<lambda>i. \<not> bit x i) n"])
    qed
  qed (use that in simp)
  ultimately show ?thesis unfolding AE_OneHotLsbToMsb_def vecD(1)[OF a] by (auto elim!: yields_bind)
qed

lemma OneHotMsbToLsb_ok:
  assumes a: "vec R n x a"
  shows "yields (\<lambda>v. length v = n + 1 \<and> R (v ! n) (\<forall>j < n. \<not> bit x j) \<and>
      (\<forall>i < n. R (v ! i) (bit x i \<and> (\<forall>j < n. i < j \<longrightarrow> \<not> bit x j)))) (AE_OneHotMsbToLsb E a)"
proof -
  let ?P = "\<lambda>k (z, r). R z (\<forall>j < n. k \<le> j \<longrightarrow> \<not> bit x j) \<and> length r = n - k \<and>
     (\<forall>i < n. k \<le> i \<longrightarrow> R (r ! (n - 1 - i)) (bit x i \<and> (\<forall>j < n. i < j \<longrightarrow> \<not> bit x j)))"
  let ?f = "\<lambda>i (all_zero, result). do { e \<leftarrow> list_at a i; Some (el_And E all_zero (el_Not E e), result @ [el_And E all_zero e]) }"
  have "yields (?P 0) (for_state ?f (rev [0..<n]) (el_One E, []))"
  proof (rule yields_for_down[where P = ?P])
    have "(\<forall>j < n. n \<le> j \<longrightarrow> \<not> bit x j) = True" by auto
    then show "?P n (el_One E, [])" using R_One by simp
  next
    fix i t assume i: "i < n" and P: "?P (Suc i) t"
    obtain z r where t: "t = (z, r)" by (cases t)
    have z: "R z (\<forall>j < n. Suc i \<le> j \<longrightarrow> \<not> bit x j)" and r: "length r = n - Suc i"
      and old: "\<And>l. l < n \<Longrightarrow> Suc i \<le> l \<Longrightarrow> R (r ! (n - 1 - l)) (bit x l \<and> (\<forall>j < n. l < j \<longrightarrow> \<not> bit x j))" using P t by auto
    note e = vecD(2)[OF a i]
    have 1: "R (el_And E z (el_Not E (a ! i))) (\<forall>j < n. i \<le> j \<longrightarrow> \<not> bit x j)"
      by (rule R_cong[OF R_And[OF z R_Not[OF e]]]) (use i in \<open>auto simp: Suc_le_eq le_less\<close>)
    have new: "R (el_And E z (a ! i)) (bit x i \<and> (\<forall>j < n. i < j \<longrightarrow> \<not> bit x j))"
      by (rule R_cong[OF R_And[OF z e]]) (auto simp: Suc_le_eq)
    have "R ((r @ [el_And E z (a ! i)]) ! (n - 1 - l)) (bit x l \<and> (\<forall>j < n. l < j \<longrightarrow> \<not> bit x j))" if "l < n" "i \<le> l" for l
    proof (cases "l = i")
      case True
      then show ?thesis using new r i by (simp add: nth_append)
    next
      case False
      then have "n - 1 - l < n - Suc i" using that by linarith
      then show ?thesis using old[of l] that False r by (simp add: nth_append)
    qed
    then show "yields (?P i) (?f i t)" using 1 r i t vecD(1)[OF a] by auto
  qed
  moreover have "length (rev r @ [z]) = n + 1 \<and> R ((rev r @ [z]) ! n) (\<forall>j < n. \<not> bit x j) \<and>
      (\<forall>i < n. R ((rev r @ [z]) ! i) (bit x i \<and> (\<forall>j < n. i < j \<longrightarrow> \<not> bit x j)))" if "?P 0 (z, r)" for z r
    using that by (auto simp: nth_append rev_nth)
  ultimately show ?thesis unfolding AE_OneHotMsbToLsb_def vecD(1)[OF a] by (auto elim!: yields_bind)
qed

lemma fold_elements:
  assumes "vec R n x a" "R e c" and f: "\<And>e d p q. R e p \<Longrightarrow> R d q \<Longrightarrow> R (f d e) (g q p)"
  shows "R (fold (\<lambda>d e. f d e) a e) (fold (\<lambda>i p. g (bit x i) p) [0..<n] c)"
proof -
  have "R (fold (\<lambda>d e. f d e) (take k a) e) (fold (\<lambda>i p. g (bit x i) p) [0..<k] c)" if "k \<le> n" for k
    using that
  proof (induction k)
    case (Suc k)
    then have "take (Suc k) a = take k a @ [a ! k]" using vecD(1)[OF assms(1)] by (simp add: take_Suc_conv_app_nth)
    then show ?case using Suc f[OF _ vecD(2)[OF assms(1), of k]] by simp
  qed (use assms(2) in simp)
  from this[of n] show ?thesis using vecD(1)[OF assms(1)] by simp
qed

lemma AndReduce_vec: "vec R n x a \<Longrightarrow> vec R 1 (of_bool (take_bit n x = mask n)) (AE_AndReduce E a)"
proof -
  assume a: "vec R n x a"
  have "fold (\<lambda>i p. p \<and> bit x i) [0..<k] True = (\<forall>i < k. bit x i)" for k by (induction k) (auto simp: less_Suc_eq)
  moreover have "(\<forall>i < n. bit x i) = (take_bit n x = mask n)" by (auto simp: bit_eq_iff bit_simps)
  ultimately show ?thesis using fold_elements[OF a R_One, of "\<lambda>d e. el_And E e d" "\<lambda>q p. p \<and> q"] R_And
    by (simp add: AE_AndReduce_def vec_def bit_0)
qed

lemma OrReduce_vec: "vec R n x a \<Longrightarrow> vec R 1 (of_bool (take_bit n x \<noteq> 0)) (AE_OrReduce E a)"
proof -
  assume a: "vec R n x a"
  have "fold (\<lambda>i p. p \<or> bit x i) [0..<k] False = (\<exists>i < k. bit x i)" for k by (induction k) (auto simp: less_Suc_eq)
  moreover have "(\<exists>i < n. bit x i) = (take_bit n x \<noteq> 0)" by (auto simp: bit_eq_iff bit_simps)
  ultimately show ?thesis using fold_elements[OF a R_Zero_False, of "\<lambda>d e. el_Or E e d" "\<lambda>q p. p \<or> q"] R_Or
    by (simp add: AE_OrReduce_def vec_def bit_0)
qed

lemma XorReduce_vec: "vec R n x a \<Longrightarrow> vec R 1 (of_bool (odd (card {i. i < n \<and> bit x i}))) (AE_XorReduce E a)"
proof -
  assume a: "vec R n x a"
  have "fold (\<lambda>i p. (\<not> p \<and> bit x i) \<or> (p \<and> \<not> bit x i)) [0..<k] False = odd (card {i. i < k \<and> bit x i})" for k
  proof (induction k)
    case (Suc k)
    have "{i. i < Suc k \<and> bit x i} = (if bit x k then insert k {i. i < k \<and> bit x i} else {i. i < k \<and> bit x i})" by (auto simp: less_Suc_eq)
    then show ?case using Suc by simp
  qed simp
  moreover have "R (el_Or E (el_And E (el_Not E e) d) (el_And E e (el_Not E d))) ((\<not> p \<and> q) \<or> (p \<and> \<not> q))" if "R e p" "R d q" for e d p q
    using that by (intro R_Or R_And R_Not)
  ultimately show ?thesis
    using fold_elements[OF a R_Zero_False, of "\<lambda>d e. el_Or E (el_And E (el_Not E e) d) (el_And E e (el_Not E d))" "\<lambda>q p. (\<not> p \<and> q) \<or> (p \<and> \<not> q)"]
    by (simp add: AE_XorReduce_def vec_def bit_0)
qed

lemma Decode_vec:
  assumes a: "vec R n x a" and w: "w \<le> 2 ^ n" "w \<le> 2 ^ 64"
  shows "yields (vec R w (2 ^ nat (take_bit n x))) (AE_Decode E a w)"
proof -
  have "(take_bit n x = int i) = bit (2 ^ nat (take_bit n x) :: int) i" for i by (auto simp: bit_exp_iff)
  then show ?thesis using one_hot_of_index[OF a w] unfolding AE_Decode_def
    by (auto elim!: yields_mono simp: vec_def)
qed

lemma Encode_ok:
  fixes a :: "'e list"
  assumes a: "vec R n x a"
  defines "w \<equiv> MinBitCountUnsigned (word_of_nat n - 1)"
  shows "yields (\<lambda>v. length v = w \<and> (\<forall>j < w. R (v ! j) (\<exists>i < n. bit i j \<and> bit x i))) (AE_Encode E a)"
proof -
  let ?P = "\<lambda>i l v. length v = w \<and> (\<forall>j < w. R (v ! j) (\<exists>k < n. (k < i \<or> k = i \<and> j < l) \<and> bit k j \<and> bit x k))"
  let ?g = "\<lambda>i j result. if bit i j then do { r \<leftarrow> list_at result j; e \<leftarrow> list_at a i; Some (result[j := el_Or E r e]) } else Some result"
  have inner: "yields (?P i w) (for_state (?g i) [0..<w] v)" if i: "i < n" and v: "?P i 0 v" for i v
  proof (rule yields_for_upt[where P = "?P i"])
    fix l v assume l: "l < w" and P: "?P i l v"
    show "yields (?P i (Suc l)) (?g i l v)"
    proof (cases "bit i l")
      case True
      have "R (el_Or E (v ! l) (a ! i)) (\<exists>k < n. (k < i \<or> k = i \<and> l < Suc l) \<and> bit k l \<and> bit x k)"
        by (rule R_cong[OF R_Or[of _ "\<exists>k < n. (k < i \<or> k = i \<and> l < l) \<and> bit k l \<and> bit x k"] ]) (use P l True i vecD(2)[OF a i] in auto)
      then show ?thesis using True P l i vecD(1)[OF a] by (auto simp: nth_list_update less_Suc_eq)
    next
      case False
      have "(\<exists>k < n. (k < i \<or> k = i \<and> j < Suc l) \<and> bit k j \<and> bit x k) = (\<exists>k < n. (k < i \<or> k = i \<and> j < l) \<and> bit k j \<and> bit x k)" for j
        using False by (auto simp: less_Suc_eq)
      then show ?thesis using False P by simp
    qed
  qed (rule v)
  have "yields (?P n 0) (for_state (\<lambda>i. for_state (?g i) [0..<w]) [0..<n] (replicate w (el_Zero E)))"
  proof (rule yields_for_upt[where P = "\<lambda>i. ?P i 0"])
    fix i v assume i: "i < n" and v: "?P i 0 v"
    have "(\<exists>k < n. (k < i \<or> k = i \<and> j < w) \<and> bit k j \<and> bit x k) = (\<exists>k < n. (k < Suc i \<or> k = Suc i \<and> j < 0) \<and> bit k j \<and> bit x k)" if "j < w" for j
      using that by (auto simp: less_Suc_eq)
    then show "yields (?P (Suc i) 0) (for_state (?g i) [0..<w] v)"
      by (intro yields_mono[OF inner[OF i v]]) auto
  qed (simp add: R_Zero)
  then show ?thesis unfolding AE_Encode_def vecD(1)[OF a] Let_def w_def[symmetric] by (rule yields_mono) auto
qed

end

end
