(* ===== verification/ElementArith.thy ===== *)
theory ElementArith
  imports ElementSelect
begin

text \<open>
  The ripple-carry adder, negation, absolute value, the barrel shifters, \<open>BitSliceUpdate\<close> and the restoring
  long division of \<open>AbstractEvaluator\<close>, each as the number its result stands for.
\<close>

text \<open>One position of an addition: the sum bit and the carry.\<close>

lemma adder_step:
  fixes x y :: int
  defines "c \<equiv> \<lambda>k. take_bit k x + take_bit k y"
  shows "bit (x + y) i \<longleftrightarrow> ((bit x i \<noteq> bit y i) \<noteq> (2 ^ i \<le> c i))"
    "2 ^ Suc i \<le> c (Suc i) \<longleftrightarrow> bit x i \<and> bit y i \<or> (bit x i \<noteq> bit y i) \<and> 2 ^ i \<le> c i"
proof -
  have step: "take_bit (Suc i) z = take_bit i z + of_bool (bit z i) * 2 ^ i" for z :: int
    by (simp add: take_bit_Suc_from_most ac_simps)
  have r: "0 \<le> take_bit i x" "take_bit i x < 2 ^ i" "0 \<le> take_bit i y" "take_bit i y < 2 ^ i" by simp_all
  define b where "b = (2 ^ i :: int)"
  have c: "c (Suc i) = c i + of_bool (bit x i) * b + of_bool (bit y i) * b" "0 \<le> c i" "c i < 2 * b" "0 < b"
    using r unfolding c_def step b_def by (simp, linarith, linarith, simp)
  show "2 ^ Suc i \<le> c (Suc i) \<longleftrightarrow> bit x i \<and> bit y i \<or> (bit x i \<noteq> bit y i) \<and> 2 ^ i \<le> c i"
    using c(2-4) unfolding c(1) power_Suc b_def[symmetric] by (cases "bit x i"; cases "bit y i") auto
  have "take_bit (Suc i) (x + y) = take_bit (Suc i) (c (Suc i))" unfolding c_def by (simp add: take_bit_add)
  then have "bit (x + y) i \<longleftrightarrow> bit (c (Suc i)) i" by (metis bit_take_bit_iff lessI)
  also have "\<dots> \<longleftrightarrow> odd (c (Suc i) div b)" by (simp add: bit_iff_odd b_def)
  also have "c (Suc i) div b = of_bool (b \<le> c i) + of_bool (bit x i) + of_bool (bit y i)"
  proof -
    have "c i div b = of_bool (b \<le> c i)"
      using c(2-4) int_div_pos_eq[of "c i" b 1 "c i - b"] by (cases "b \<le> c i") auto
    then show ?thesis unfolding c(1) using c(4) by simp
  qed
  also have "odd (of_bool (b \<le> c i) + of_bool (bit x i) + of_bool (bit y i) :: int) \<longleftrightarrow> ((bit x i \<noteq> bit y i) \<noteq> (b \<le> c i))"
    by (cases "b \<le> c i"; cases "bit x i"; cases "bit y i") auto
  finally show "bit (x + y) i \<longleftrightarrow> ((bit x i \<noteq> bit y i) \<noteq> (2 ^ i \<le> c i))" by (simp add: b_def)
qed

context element_logic
begin

lemma Add_vec:
  assumes a: "vec R n x a" and b: "vec R n y b"
  shows "yields (vec R n (x + y)) (AE_Add E a b)"
proof -
  let ?c = "\<lambda>k. take_bit k x + take_bit k y"
  let ?P = "\<lambda>k (r, c). length r = k \<and> (\<forall>i < k. R (r ! i) (bit (x + y) i)) \<and> R c (?c k \<ge> 2 ^ k)"
  let ?f = "\<lambda>i (result, carry). do { e \<leftarrow> list_at a i; d \<leftarrow> list_at b i; let r = FullAdder E e d carry; Some (result @ [fst r], snd r) }"
  have "yields (?P n) (for_state ?f [0..<n] ([], el_Zero E))"
  proof (rule yields_for_upt[where P = ?P])
    fix i t assume i: "i < n" and P: "?P i t"
    obtain r c where t: "t = (r, c)" "length r = i" "\<forall>l < i. R (r ! l) (bit (x + y) l)" "R c (?c i \<ge> 2 ^ i)" using P by (cases t) auto
    note full = R_FullAdder[OF vecD(2)[OF a i] vecD(2)[OF b i] t(4)]
    have s: "(bit x i \<noteq> bit y i) \<noteq> (2 ^ i \<le> ?c i) \<longleftrightarrow> bit (x + y) i" and
      c: "bit x i \<and> bit y i \<or> (bit x i \<noteq> bit y i) \<and> 2 ^ i \<le> ?c i \<longleftrightarrow> 2 ^ Suc i \<le> ?c (Suc i)"
      using adder_step[where x = x and y = y and i = i] by auto
    have "R (fst (FullAdder E (a ! i) (b ! i) c)) (bit (x + y) i)" "R (snd (FullAdder E (a ! i) (b ! i) c)) (2 ^ Suc i \<le> ?c (Suc i))"
      using full unfolding s c by auto
    then show "yields (?P (Suc i)) (?f i t)" using t i vecD(1)[OF a] vecD(1)[OF b] by (auto simp: nth_append less_Suc_eq Let_def)
  qed (simp add: R_Zero)
  then show ?thesis unfolding AE_Add_def vecD(1)[OF a] by (auto elim!: yields_bind simp: vec_def)
qed

lemma Neg_vec:
  assumes a: "vec R n x a" and n: "0 < n"
  shows "yields (vec R n (- x)) (AE_Neg E a)"
  unfolding AE_Neg_def vecD(1)[OF a]
proof (rule const_vec[of 1 1])
  fix v assume "vec R n (int 1) v"
  from Add_vec[OF BitwiseNot_vec[OF a] this] show "yields (vec R n (- x)) (AE_Add E (BitwiseNot E a) v)"
    by (simp add: not_int_def)
qed (use n one_less_power[of "2::nat" n] in auto)

lemma Abs_vec:
  assumes a: "vec R n x a" and n: "0 < n"
  shows "yields (vec R n \<bar>signed_take_bit (n - 1) x\<bar>) (AE_Abs E a)"
  unfolding AE_Abs_def
proof (rule yields_bind[OF vec_back[OF a n]], rule yields_bind[OF Neg_vec[OF a n]])
  fix s v assume s: "R s (bit x (n - 1))" and v: "vec R n (- x) v"
  have neg: "signed_take_bit (n - 1) x < 0 \<longleftrightarrow> bit x (n - 1)" by (rule signed_take_bit_negative_iff)
  have eq: "take_bit n (signed_take_bit (n - 1) x) = take_bit n x" using n by (intro take_bit_signed_take_bit) simp
  have "take_bit n \<bar>signed_take_bit (n - 1) x\<bar> = take_bit n (if bit x (n - 1) then - x else x)"
  proof (cases "bit x (n - 1)")
    case True
    then have "\<bar>signed_take_bit (n - 1) x\<bar> = - signed_take_bit (n - 1) x" using neg by (intro abs_of_neg) blast
    moreover have "take_bit n (- signed_take_bit (n - 1) x) = take_bit n (- x)"
      using take_bit_minus[of n "signed_take_bit (n - 1) x"] take_bit_minus[of n x] unfolding eq by simp
    ultimately show ?thesis using True by simp
  next
    case False
    then show ?thesis using neg eq by simp
  qed
  then show "yields (vec R n \<bar>signed_take_bit (n - 1) x\<bar>) (AE_Select E [s] [a, v] None)"
    using Select_two[OF s a v] vec_cong[of n "\<bar>signed_take_bit (n - 1) x\<bar>" "if bit x (n - 1) then - x else x" R]
    by (elim yields_mono) blast
qed


lemma shift_selector_ok:
  assumes y: "vec R m y amount" and n: "n < 2 ^ 64"
  shows "k \<le> n \<Longrightarrow> k \<le> 2 ^ m \<Longrightarrow> length v = k \<Longrightarrow> \<forall>i < k. R (v ! i) (take_bit m y = int i) \<Longrightarrow>
    yields (\<lambda>u. length u = min n (2 ^ m) \<and> (\<forall>i < min n (2 ^ m). R (u ! i) (take_bit m y = int i))) (shift_selector E amount [k..<n] v)"
proof (induction "n - k" arbitrary: k v)
  case 0
  then show ?case by (simp add: min_def)
next
  case (Suc d)
  then have k: "k < n" "[k..<n] = k # [Suc k..<n]" "unat (word_of_nat k :: u64) = k"
    using n unat_word_of_nat_64[of k] by (auto simp: upt_conv_Cons)
  note len = vecD(1)[OF y]
  have iff: "length amount < MinBitCountUnsigned (word_of_nat k) \<longleftrightarrow> 2 ^ m \<le> k"
    using MinBitCountUnsigned_le_iff[of "word_of_nat k" m] k(3) len by linarith
  show ?case
  proof (cases "2 ^ m \<le> k")
    case True
    then show ?thesis using Suc.prems k(1,2) iff by (simp add: min_def)
  next
    case False
    have tk: "take_bit m (int k) = int k" using False by (intro take_bit_int_eq_self) (auto simp: int_less_power_iff)
    have "yields (\<lambda>u. length u = min n (2 ^ m) \<and> (\<forall>i < min n (2 ^ m). R (u ! i) (take_bit m y = int i)))
      (do { b \<leftarrow> UBits (word_of_nat k) m; c \<leftarrow> BitsToVector E b; e \<leftarrow> AE_Equals E amount c; shift_selector E amount [Suc k..<n] (v @ [e]) })"
    proof (rule const_vec[OF k(3)])
      fix c assume "vec R m (int k) c"
      from Equals_vec[OF y this, unfolded tk]
      show "yields (\<lambda>u. length u = min n (2 ^ m) \<and> (\<forall>i < min n (2 ^ m). R (u ! i) (take_bit m y = int i)))
          (do { e \<leftarrow> AE_Equals E amount c; shift_selector E amount [Suc k..<n] (v @ [e]) })"
        by (rule yields_bind) (rule Suc.hyps(1), use Suc.hyps(2) Suc.prems False k(1) in \<open>auto simp: nth_append less_Suc_eq\<close>)
    qed (use False in simp)
    then show ?thesis using False iff len k(2) by simp
  qed
qed

text \<open>All shifts select by the amount, cut off at the width.\<close>

lemma full_selector_ok:
  assumes y: "vec R m y amount" and n: "n < 2 ^ 64"
  defines "N \<equiv> min (n + 1) (2 ^ m)" and "j \<equiv> min (nat (take_bit m y)) n"
  shows "yields (\<lambda>u. length u = N \<and> (\<forall>i < N. R (u ! i) (i = j)) \<and> j < N \<and> 0 < N)
    (do { selector \<leftarrow> shift_selector E amount [0..<n] [];
       if length amount \<ge> MinBitCountUnsigned (word_of_nat n) then do {
         b \<leftarrow> UBits (word_of_nat n) (length amount);
         v \<leftarrow> BitsToVector E b;
         l \<leftarrow> AE_ULessThan E amount v;
         Some (selector @ [el_Not E l]) }
       else Some selector })"
proof (rule yields_bind[OF shift_selector_ok[OF y n]])
  fix u assume u: "length u = min n (2 ^ m) \<and> (\<forall>i < min n (2 ^ m). R (u ! i) (take_bit m y = int i))"
  have w: "unat (word_of_nat n :: u64) = n" using n by (rule unat_word_of_nat_64)
  note len = vecD(1)[OF y]
  have t: "0 \<le> take_bit m y" "nat (take_bit m y) < 2 ^ m" by (simp_all add: nat_less_iff)
  have iff: "MinBitCountUnsigned (word_of_nat n) \<le> length amount \<longleftrightarrow> n < 2 ^ m"
    using MinBitCountUnsigned_le_iff[of "word_of_nat n" m] w len by simp
  have eq: "(take_bit m y = int i) = (i = j)" if "i < n" for i using that t(1) by (auto simp: j_def)
  let ?Q = "\<lambda>u. length u = N \<and> (\<forall>i < N. R (u ! i) (i = j)) \<and> j < N \<and> 0 < N"
  show "yields ?Q (if length amount \<ge> MinBitCountUnsigned (word_of_nat n) then do {
         b \<leftarrow> UBits (word_of_nat n) (length amount); v \<leftarrow> BitsToVector E b; l \<leftarrow> AE_ULessThan E amount v;
         Some (u @ [el_Not E l]) } else Some u)"
  proof (cases "n < 2 ^ m")
    case True
    have tn: "take_bit m (int n) = int n" using True by (intro take_bit_int_eq_self) (auto simp: int_less_power_iff)
    have N: "N = n + 1" "min n (2 ^ m) = n" using True by (simp_all add: N_def)
    have "yields ?Q (do { b \<leftarrow> UBits (word_of_nat n) m; v \<leftarrow> BitsToVector E b; l \<leftarrow> AE_ULessThan E amount v; Some (u @ [el_Not E l]) })"
    proof (rule const_vec[OF w True])
      fix v assume "vec R m (int n) v"
      from ULessThan_vec[OF y this, unfolded tn]
      show "yields ?Q (do { l \<leftarrow> AE_ULessThan E amount v; Some (u @ [el_Not E l]) })"
      proof (rule yields_bind)
        fix l assume "R l (take_bit m y < int n)"
        then have "R (el_Not E l) (\<not> take_bit m y < int n)" by (rule R_Not)
        moreover have "(\<not> take_bit m y < int n) = (n = j)" using t(1) by (auto simp: j_def)
        ultimately show "yields ?Q (Some (u @ [el_Not E l]))"
          using u eq unfolding N by (auto simp: nth_append less_Suc_eq j_def)
      qed
    qed
    then show ?thesis using True iff len by simp
  next
    case False
    have "nat (take_bit m y) \<le> n" using False t(2) by linarith
    then have "N = 2 ^ m" "min n (2 ^ m) = 2 ^ m" "j = nat (take_bit m y)" using False by (auto simp: N_def j_def)
    moreover have "(take_bit m y = int i) = (i = nat (take_bit m y))" for i using t(1) by auto
    ultimately show ?thesis using u False iff t(2) by simp
  qed
qed (use assms in auto)

lemma vector_span_vec:
  "vec R k x a \<Longrightarrow> i + w \<le> k \<Longrightarrow> yields (vec R w (drop_bit i x)) (vector_span a i w)"
  by (auto simp: vector_span_def vec_def bit_simps)

lemma Shift_ok:
  assumes x: "vec R n x a" and y: "vec R m y amount" and n: "n < 2 ^ 64"
  shows "yields (vec R n (drop_bit (nat (take_bit m y)) (take_bit n x))) (AE_Shift E a amount True False)"
    and "0 < n \<Longrightarrow> yields (vec R n (drop_bit (nat (take_bit m y)) (signed_take_bit (n - 1) x))) (AE_Shift E a amount True True)"
    and "yields (vec R n (push_bit (nat (take_bit m y)) x)) (AE_Shift E a amount False False)"
proof -
  define t where "t = nat (take_bit m y)"
  note len = vecD(1)[OF x]
  define N where "N = min (n + 1) (2 ^ m)"
  have sel: "yields (vec R n z) (AE_Shift E a amount right arith)"
    if cs: "\<And>k. 0 < k \<Longrightarrow> yields (\<lambda>cs. length cs = k \<and> (\<forall>i < k. vec R n (xs k i) (cs ! i)))
       (if right then do {
         tail \<leftarrow> generate (k - 1) (\<lambda>i. if arith then vector_back a else Some (el_Zero E));
         let extended = a @ tail;
         generate k (\<lambda>i. vector_span extended i n) }
       else do {
         let extended = replicate (k - 1) (el_Zero E) @ a;
         generate k (\<lambda>i. vector_span extended (k - 1 - i) n) })"
      and z: "\<And>i k. min t n < k \<Longrightarrow> i < n \<Longrightarrow> bit (xs k (min t n)) i = bit z i" for right arith xs z
  proof -
    have eq: "AE_Shift E a amount right arith =
      (do { selector \<leftarrow> shift_selector E amount [0..<n] [];
         if length amount \<ge> MinBitCountUnsigned (word_of_nat n) then do {
           b \<leftarrow> UBits (word_of_nat n) (length amount);
           v \<leftarrow> BitsToVector E b;
           l \<leftarrow> AE_ULessThan E amount v;
           Some (selector @ [el_Not E l]) }
         else Some selector }) \<bind> (\<lambda>u. (if right then do {
         tail \<leftarrow> generate (length u - 1) (\<lambda>i. if arith then vector_back a else Some (el_Zero E));
         let extended = a @ tail;
         generate (length u) (\<lambda>i. vector_span extended i n) }
       else do {
         let extended = replicate (length u - 1) (el_Zero E) @ a;
         generate (length u) (\<lambda>i. vector_span extended (length u - 1 - i) n) }) \<bind>
       (\<lambda>cs. OneHotSelectInternal E u cs False))"
      unfolding AE_Shift_def len by simp
    show ?thesis unfolding eq
    proof (rule yields_bind[OF full_selector_ok[OF y n]], goal_cases)
      case (1 u)
      then have u: "length u = N" "\<forall>i < N. R (u ! i) (i = min t n)" "min t n < N" "0 < N" by (auto simp: N_def t_def)
      show ?case unfolding u(1)
      proof (rule yields_bind[OF cs[OF u(4)]])
        fix c assume "length c = N \<and> (\<forall>i < N. vec R n (xs N i) (c ! i))"
        then have "select_args N n (\<lambda>i. i = min t n) (xs N) u c" using u by (simp add: select_args_def)
        from OneHotSelect_one[OF this u(3)]
        show "yields (vec R n z) (OneHotSelectInternal E u c False)"
          by (rule yields_mono) (use vec_bits z[OF u(3)] in blast)+
      qed
    qed
  qed
  have right: "yields (\<lambda>cs. length cs = k \<and> (\<forall>i < k. vec R n (drop_bit i z) (cs ! i)))
      (do { tail \<leftarrow> generate (k - 1) f; let extended = a @ tail; generate k (\<lambda>i. vector_span extended i n) })"
    if f: "\<And>i. i < k - 1 \<Longrightarrow> yields (\<lambda>e. R e (bit z (n + i))) (f i)" and z: "\<And>i. i < n \<Longrightarrow> bit z i = bit x i" for f k z
  proof (rule yields_bind[OF yields_generate[where P = "\<lambda>i e. R e (bit z (n + i))", OF f]])
    fix tl assume tl: "length tl = k - 1 \<and> (\<forall>i < k - 1. R (tl ! i) (bit z (n + i)))"
    have "vec R (n + (k - 1)) z (a @ tl)"
    proof (rule vecI)
      fix i assume i: "i < n + (k - 1)"
      then show "R ((a @ tl) ! i) (bit z i)"
        using vecD(2)[OF x, of i] z[of i] tl[THEN conjunct2, rule_format, of "i - n"] len by (cases "i < n") (auto simp: nth_append)
    qed (use len tl in simp)
    then show "yields (\<lambda>cs. length cs = k \<and> (\<forall>i < k. vec R n (drop_bit i z) (cs ! i))) (let extended = a @ tl in generate k (\<lambda>i. vector_span extended i n))"
      unfolding Let_def by (intro yields_generate vector_span_vec) auto
  qed
  show "yields (vec R n (drop_bit (nat (take_bit m y)) (take_bit n x))) (AE_Shift E a amount True False)"
    unfolding t_def[symmetric]
    by (rule sel[where xs = "\<lambda>k i. drop_bit i (take_bit n x)"])
      (use right[where z = "take_bit n x" and f = "\<lambda>i. Some (el_Zero E)"] in \<open>auto simp: bit_simps R_Zero min_def\<close>)
  show "yields (vec R n (push_bit (nat (take_bit m y)) x)) (AE_Shift E a amount False False)"
    unfolding t_def[symmetric]
  proof (rule sel[where xs = "\<lambda>k i. push_bit i x"])
    fix k :: nat assume k: "0 < k"
    have "vec R (k - 1) 0 (replicate (k - 1) (el_Zero E))" by (rule vec_replicate) (simp add: R_Zero)
    from vec_append[OF this x] have v: "vec R (k - 1 + n) (push_bit (k - 1) x) (replicate (k - 1) (el_Zero E) @ a)" by simp
    have "yields (vec R n (push_bit i x)) (vector_span (replicate (k - 1) (el_Zero E) @ a) (k - 1 - i) n)" if "i < k" for i
      by (rule yields_mono[OF vector_span_vec[OF v]], simp, erule vec_bits) (use that in \<open>auto simp: bit_simps\<close>)
    then show "yields (\<lambda>cs. length cs = k \<and> (\<forall>i < k. vec R n (push_bit i x) (cs ! i)))
       (if False then do { tail \<leftarrow> generate (k - 1) (\<lambda>i. if False then vector_back a else Some (el_Zero E)); let extended = a @ tail; generate k (\<lambda>i. vector_span extended i n) }
        else do { let extended = replicate (k - 1) (el_Zero E) @ a; generate k (\<lambda>i. vector_span extended (k - 1 - i) n) })"
      unfolding Let_def if_False by (rule yields_generate)
  qed (auto simp: bit_simps min_def)
  assume n0: "0 < n"
  have sign: "yields (\<lambda>e. R e (bit (signed_take_bit (n - 1) x) (n + i))) (vector_back a)" for i
    using vec_back[OF x n0] by (simp add: bit_signed_take_bit_iff min_absorb1)
  have low_bits: "bit (signed_take_bit (n - 1) x) i = bit x i" if "i < n" for i
    using that by (auto simp: bit_signed_take_bit_iff min_def) (metis Suc_pred le_less_Suc_eq n0)+
  have over: "bit (drop_bit (min t n) (signed_take_bit (n - 1) x)) i = bit (drop_bit t (signed_take_bit (n - 1) x)) i" for i
    using n0 by (auto simp: bit_simps min_def)
  show "yields (vec R n (drop_bit (nat (take_bit m y)) (signed_take_bit (n - 1) x))) (AE_Shift E a amount True True)"
    unfolding t_def[symmetric]
    by (rule sel[where xs = "\<lambda>k i. drop_bit i (signed_take_bit (n - 1) x)"])
      (use right[where z = "signed_take_bit (n - 1) x" and f = "\<lambda>i. vector_back a", OF sign low_bits] over in auto)
qed

end

text \<open>One step of long division.\<close>

lemma long_division_step:
  fixes D Y :: int and b :: bool
  assumes "0 < Y" "0 \<le> D"
  defines "r \<equiv> 2 * (D mod Y) + of_bool b"
  shows "(2 * D + of_bool b) mod Y = (if r < Y then r else r - Y)" "odd ((2 * D + of_bool b) div Y) \<longleftrightarrow> \<not> r < Y"
    "0 \<le> r" "r < 2 * Y"
proof -
  have m: "0 \<le> D mod Y" "D mod Y < Y" using assms(1) by auto
  then show r: "0 \<le> r" "r < 2 * Y" by (auto simp: r_def)
  let ?c = "of_bool (\<not> r < Y) :: int"
  have D2: "2 * (Y * (D div Y)) + 2 * (D mod Y) = 2 * D" by (metis distrib_left mult_div_mod_eq)
  have eq: "2 * D + of_bool b = Y * (2 * (D div Y) + ?c) + (r - ?c * Y)"
    using D2 by (cases "r < Y") (simp_all add: r_def distrib_left mult.left_commute)
  have b: "0 \<le> r - ?c * Y" "r - ?c * Y < Y" using r by auto
  show "(2 * D + of_bool b) mod Y = (if r < Y then r else r - Y)" using int_mod_pos_eq[OF eq b] by auto
  show "odd ((2 * D + of_bool b) div Y) \<longleftrightarrow> \<not> r < Y" using int_div_pos_eq[OF eq b] by auto
qed

context element_logic
begin

lemma BitSliceUpdate_vec:
  assumes x: "vec R n x a" and y: "vec R m y start" and z: "vec R k z v" and n: "n < 2 ^ 64"
  defines "t \<equiv> nat (take_bit m y)"
  shows "yields (vec R n ((x AND NOT (push_bit t (mask k))) OR push_bit t (take_bit k z))) (AE_BitSliceUpdate E a start v)"
proof -
  let ?ones = "int (mask (min n k))"
  have len: "length a = n" "length v = k" using x z vecD(1) by auto
  have adj: "yields (vec R n (take_bit k z)) (if k \<ge> n then AE_BitSlice v 0 n else AE_ZeroExtend E v n)"
  proof (cases "n \<le> k")
    case True
    have "yields (vec R n z) (AE_BitSlice v 0 n)" using BitSlice_vec[OF z, of 0 n] True by simp
    then have "yields (vec R n (take_bit k z)) (AE_BitSlice v 0 n)"
      by (rule yields_mono) (erule vec_bits, use True in \<open>simp add: bit_take_bit_iff\<close>)
    then show ?thesis using True by simp
  next
    case False
    then show ?thesis using ZeroExtend_vec[OF z, of n] by simp
  qed
  have eq: "AE_BitSliceUpdate E a start v = (do {
     ones_vector \<leftarrow> BitsToVector E (mk_bits n (mask (min n k)));
     shifted \<leftarrow> AE_Shift E ones_vector start False False;
     adjusted_value \<leftarrow> (if k \<ge> n then AE_BitSlice v 0 n else AE_ZeroExtend E v n);
     m \<leftarrow> BitwiseAnd E [BitwiseNot E shifted, a];
     w \<leftarrow> AE_Shift E adjusted_value start False False;
     BitwiseOr E [m, w] })"
    unfolding AE_BitSliceUpdate_def len by (simp add: Let_def AE_ShiftLeftLogical_def)
  show ?thesis unfolding eq
  proof (rule yields_bind[OF BitsToVector_vec], rule yields_bind[OF Shift_ok(3)[OF _ y n]], assumption, rule yields_bind[OF adj])
    fix o1 o2 w assume "vec R n ?ones o1" and o2: "vec R n (push_bit (nat (take_bit m y)) ?ones) o2" and w: "vec R n (take_bit k z) w"
    show "yields (vec R n ((x AND NOT (push_bit t (mask k))) OR push_bit t (take_bit k z)))
        (do { m \<leftarrow> BitwiseAnd E [BitwiseNot E o2, a]; w \<leftarrow> AE_Shift E w start False False; BitwiseOr E [m, w] })"
    proof (rule yields_bind[OF Bitwise_vec(1)[OF BitwiseNot_vec[OF o2] x]], rule yields_bind[OF Shift_ok(3)[OF w y n]])
      fix p q assume p: "vec R n (NOT (push_bit (nat (take_bit m y)) ?ones) AND x) p" and q: "vec R n (push_bit (nat (take_bit m y)) (take_bit k z)) q"
      show "yields (vec R n ((x AND NOT (push_bit t (mask k))) OR push_bit t (take_bit k z))) (BitwiseOr E [p, q])"
        by (rule yields_mono[OF Bitwise_vec(2)[OF p q]], erule vec_bits) (auto simp: bit_simps t_def bit_of_nat_iff)
    qed
  qed
qed

lemma vec_exists: "length q = n \<Longrightarrow> (\<forall>i < n. \<exists>c. R (q ! i) c) \<Longrightarrow> \<exists>z. vec R n z q"
proof -
  assume q: "length q = n" "\<forall>i < n. \<exists>c. R (q ! i) c"
  then obtain c where "\<forall>i < n. R (q ! i) (c i)" by metis
  then have "vec R n (horner_sum of_bool 2 (map c [0..<n])) q" using q(1) by (simp add: vec_def bit_horner_sum_bit_iff)
  then show ?thesis by blast
qed

lemma vec_butlast: "vec R (Suc n) x a \<Longrightarrow> vec R n x (butlast a)"
  by (auto simp: vec_def nth_butlast)

lemma vec_Cons: "R e b \<Longrightarrow> vec R n x a \<Longrightarrow> vec R (Suc n) (2 * x + of_bool b) (e # a)"
proof (rule vecI)
  fix i assume a: "R e b" "vec R n x a" "i < Suc n"
  show "R ((e # a) ! i) (bit (2 * x + of_bool b) i)"
  proof (cases i)
    case 0
    then show ?thesis using a(1) by (simp add: bit_0)
  next
    case (Suc j)
    have "(2 * x + of_bool b) div 2 = x" by auto
    then show ?thesis using vecD(2)[OF a(2), of j] a(3) Suc by (simp add: bit_Suc)
  qed
qed (simp add: vecD)

definition division_inv :: "nat \<Rightarrow> nat \<Rightarrow> int \<Rightarrow> int \<Rightarrow> nat \<Rightarrow> 'e list \<times> 'e list \<Rightarrow> bool" where
  "division_inv n m X Y k = (\<lambda>(q, r). length q = n \<and>
     (\<exists>z. vec R m z r \<and> (Y \<noteq> 0 \<longrightarrow> z = drop_bit k X mod Y)) \<and>
     (\<forall>i < n. k \<le> i \<longrightarrow> (\<exists>c. R (q ! i) c \<and> (Y \<noteq> 0 \<longrightarrow> c = bit (X div Y) i))))"

lemma divide_step_ok:
  assumes x: "vec R n X a" and X: "take_bit n X = X" and Y: "take_bit m Y = Y"
    and dv: "vec R (Suc m) Y divisor" and nd: "vec R (Suc m) (- Y) neg_divisor"
    and i: "i < n" and inv: "division_inv n m X Y (Suc i) t"
  shows "yields (division_inv n m X Y i) (divide_step E a divisor neg_divisor i t)"
proof -
  obtain q r where t: "t = (q, r)" by (cases t)
  obtain z where z: "vec R m z r" "Y \<noteq> 0 \<longrightarrow> z = drop_bit (Suc i) X mod Y" and q: "length q = n"
    "\<And>l. l < n \<Longrightarrow> Suc i \<le> l \<Longrightarrow> \<exists>c. R (q ! l) c \<and> (Y \<noteq> 0 \<longrightarrow> c = bit (X div Y) l)"
    using inv unfolding division_inv_def t by auto
  have Y0: "0 \<le> Y" "Y < 2 ^ m" "0 \<le> X" using Y X by (metis take_bit_nonnegative, metis take_bit_int_less_exp, metis take_bit_nonnegative)
  let ?z = "2 * z + of_bool (bit X i)"
  note r1 = vec_Cons[OF vecD(2)[OF x i] z(1)]
  have step: "drop_bit i X = 2 * drop_bit (Suc i) X + of_bool (bit X i)" using drop_bit_step[OF i, of X] X by simp
  have D: "0 \<le> drop_bit (Suc i) X" using Y0(3) by simp
  let ?lt = "take_bit (Suc m) ?z < Y"
  have tY: "take_bit (Suc m) Y = Y" using Y0 by (intro take_bit_int_eq_self) auto
  have nz: "take_bit (Suc m) ?z = ?z" "drop_bit i X mod Y = (if ?lt then ?z else ?z - Y)" "bit (X div Y) i = (\<not> ?lt)" if "Y \<noteq> 0"
  proof -
    have pos: "0 < Y" using that Y0 by simp
    note s = long_division_step[OF pos D, of "bit X i", folded step, folded mp[OF z(2) that]]
    show tz: "take_bit (Suc m) ?z = ?z" using s(3,4) Y0(2) by (intro take_bit_int_eq_self) auto
    show "drop_bit i X mod Y = (if ?lt then ?z else ?z - Y)" using s(1) unfolding tz .
    have "bit (X div Y) i = odd (drop_bit i X div Y)" unfolding bit_iff_odd drop_bit_eq_div
      by (simp add: div_mult2_eq' zdiv_zmult2_eq[symmetric] mult.commute Y0)
    then show "bit (X div Y) i = (\<not> ?lt)" using s(2) unfolding tz by simp
  qed
  have "yields (division_inv n m X Y i) (do { l \<leftarrow> AE_ULessThan E (a ! i # r) divisor; d \<leftarrow> AE_Add E (a ! i # r) neg_divisor;
      s \<leftarrow> AE_Select E [el_Not E l] [a ! i # r, d] None; Some (q[i := el_Not E l], butlast s) })"
  proof (rule yields_bind[OF ULessThan_vec[OF r1 dv, unfolded tY]], rule yields_bind[OF Add_vec[OF r1 nd]])
    fix l d assume l: "R l ?lt" and d: "vec R (Suc m) (?z + - Y) d"
    note nl = R_Not[OF l]
    show "yields (division_inv n m X Y i) (do { s \<leftarrow> AE_Select E [el_Not E l] [a ! i # r, d] None; Some (q[i := el_Not E l], butlast s) })"
    proof (rule yields_bind[OF Select_two[OF nl r1 d]])
      fix s assume s: "vec R (Suc m) (if \<not> ?lt then ?z + - Y else ?z) s"
      have "\<exists>c. R (q[i := el_Not E l] ! j) c \<and> (Y \<noteq> 0 \<longrightarrow> c = bit (X div Y) j)" if "j < n" "i \<le> j" for j
        using q(1) q(2)[of j] nl nz(3) that by (cases "j = i") auto
      moreover have "Y \<noteq> 0 \<longrightarrow> (if \<not> ?lt then ?z + - Y else ?z) = drop_bit i X mod Y" using nz(2) by auto
      ultimately show "yields (division_inv n m X Y i) (Some (q[i := el_Not E l], butlast s))"
        using vec_butlast[OF s] q(1) unfolding division_inv_def by auto
    qed
  qed
  then show ?thesis using i vecD(1)[OF x] by (simp add: divide_step_def t Let_def)
qed

lemma UDivMod_ok:
  assumes a: "vec R n x a" and b: "vec R m y b"
  defines "X \<equiv> take_bit n x" and "Y \<equiv> take_bit m y"
  shows "yields (\<lambda>(q, r). vec R n (if Y = 0 then - 1 else X div Y) q \<and> vec R m (if Y = 0 then 0 else X mod Y) r) (AE_UDivMod E a b)"
proof -
  have len: "length a = n" "length b = m" using a b vecD(1) by auto
  have aX: "vec R n X a" "take_bit n X = X" "take_bit m Y = Y" using a by (simp_all add: X_def Y_def)
  have nonzero: "R (AE_OrReduce E b ! 0) (Y \<noteq> 0)" "AE_OrReduce E b = [AE_OrReduce E b ! 0]"
    using vecD[OF OrReduce_vec[OF b]] by (simp_all add: Y_def bit_0 AE_OrReduce_def)
  have start: "division_inv n m X Y n (replicate n (el_Zero E), replicate m (el_Zero E))"
  proof -
    have "drop_bit n X = 0" unfolding X_def by (simp add: drop_bit_take_bit)
    then show ?thesis unfolding division_inv_def by (auto intro!: exI[of _ 0] vec_replicate simp: R_Zero)
  qed
  have loop: "yields (\<lambda>(q, r). vec R n (if Y = 0 then - 1 else X div Y) q \<and> vec R m (if Y = 0 then 0 else X mod Y) r)
     (do { qr \<leftarrow> for_state (divide_step E a divisor neg_divisor) (rev [0..<n]) (replicate n (el_Zero E), replicate m (el_Zero E));
       q \<leftarrow> AE_Select E (AE_OrReduce E b) [replicate (length (fst qr)) (el_One E), fst qr] None;
       r \<leftarrow> AE_Select E (AE_OrReduce E b) [replicate (length (snd qr)) (el_Zero E), snd qr] None;
       Some (q, r) })"
    if dv: "vec R (Suc m) Y divisor" "vec R (Suc m) (- Y) neg_divisor" for divisor neg_divisor
  proof (rule yields_bind[OF yields_for_down[where P = "division_inv n m X Y", OF start divide_step_ok[OF aX dv]]], assumption+, goal_cases)
    case (1 qr)
    obtain q r where qr: "qr = (q, r)" by (cases qr)
    obtain z where z: "vec R m z r" "Y \<noteq> 0 \<longrightarrow> z = X mod Y" and q: "length q = n"
      "\<forall>i < n. \<exists>c. R (q ! i) c \<and> (Y \<noteq> 0 \<longrightarrow> c = bit (X div Y) i)" using 1 unfolding division_inv_def qr by auto
    have "\<exists>u. vec R n u q \<and> (Y \<noteq> 0 \<longrightarrow> u = X div Y)"
    proof (cases "Y = 0")
      case True
      then show ?thesis using vec_exists[OF q(1)] q(2) by blast
    next
      case False
      then have "vec R n (X div Y) q" using q by (auto simp: vec_def)
      then show ?thesis by blast
    qed
    then obtain u where u: "vec R n u q" "Y \<noteq> 0 \<longrightarrow> u = X div Y" by blast
    have ones: "vec R n (- 1) (replicate n (el_One E))" by (rule vec_replicate) (simp add: R_One)
    have zeros: "vec R m 0 (replicate m (el_Zero E))" by (rule vec_replicate) (simp add: R_Zero)
    have sel: "yields (\<lambda>(q, r). vec R n (if Y = 0 then - 1 else X div Y) q \<and> vec R m (if Y = 0 then 0 else X mod Y) r)
      (do { q \<leftarrow> AE_Select E [AE_OrReduce E b ! 0] [replicate n (el_One E), q] None;
            r \<leftarrow> AE_Select E [AE_OrReduce E b ! 0] [replicate m (el_Zero E), r] None; Some (q, r) })"
      by (rule yields_bind[OF Select_two[OF nonzero(1) ones u(1)]], rule yields_bind[OF Select_two[OF nonzero(1) zeros z(1)]])
        (use u(2) z(2) in auto)
    then show ?case using vecD(1)[OF z(1)] q(1) nonzero(2) unfolding qr by simp
  qed
  have "yields (\<lambda>(q, r). vec R n (if Y = 0 then - 1 else X div Y) q \<and> vec R m (if Y = 0 then 0 else X mod Y) r)
     (do { divisor \<leftarrow> AE_ZeroExtend E b (m + 1); neg_divisor \<leftarrow> AE_Neg E divisor;
       qr \<leftarrow> for_state (divide_step E a divisor neg_divisor) (rev [0..<n]) (replicate n (el_Zero E), replicate m (el_Zero E));
       q \<leftarrow> AE_Select E (AE_OrReduce E b) [replicate (length (fst qr)) (el_One E), fst qr] None;
       r \<leftarrow> AE_Select E (AE_OrReduce E b) [replicate (length (snd qr)) (el_Zero E), snd qr] None;
       Some (q, r) })"
  proof (rule yields_bind[OF ZeroExtend_vec[OF b, of "m + 1"]])
    fix divisor assume "vec R (m + 1) (take_bit m y) divisor"
    then have dv: "vec R (Suc m) Y divisor" by (simp add: Y_def)
    show "yields (\<lambda>(q, r). vec R n (if Y = 0 then - 1 else X div Y) q \<and> vec R m (if Y = 0 then 0 else X mod Y) r)
     (do { neg_divisor \<leftarrow> AE_Neg E divisor;
       qr \<leftarrow> for_state (divide_step E a divisor neg_divisor) (rev [0..<n]) (replicate n (el_Zero E), replicate m (el_Zero E));
       q \<leftarrow> AE_Select E (AE_OrReduce E b) [replicate (length (fst qr)) (el_One E), fst qr] None;
       r \<leftarrow> AE_Select E (AE_OrReduce E b) [replicate (length (snd qr)) (el_Zero E), snd qr] None;
       Some (q, r) })"
      by (rule yields_bind[OF Neg_vec[OF dv]], simp, rule loop[OF dv])
  qed simp
  then show ?thesis unfolding AE_UDivMod_def len Let_def .
qed

end

end
