(* ===== verification/ElementMul.thy ===== *)
theory ElementMul
  imports ElementArith
begin

text \<open>
  The Dadda multiplier of \<open>AbstractEvaluator\<close>. Its state is a sequence of columns of elements, column \<open>c\<close>
  weighted \<open>2 ^ c\<close>. The partial products weigh the product; a full or half adder moves weight to the next
  column and keeps the total; a stage brings every column down to the next height of the Dadda sequence, and
  the last column is never asked for a carry; the stages end at height two, and the final carry chain turns the
  columns into one element each. The signed multiplier and the signed division follow.
\<close>

section \<open>The multiplier\<close>

text \<open>The number a sequence of columns stands for.\<close>

definition ones_count :: "bool list \<Rightarrow> int" where
  "ones_count bs = (\<Sum>b \<leftarrow> bs. of_bool b)"

definition columns_value :: "bool list list \<Rightarrow> int" where
  "columns_value cs = (\<Sum>c < length cs. 2 ^ c * ones_count (cs ! c))"

lemma ones_count_simps [simp]:
  "ones_count [] = 0" "ones_count (b # bs) = of_bool b + ones_count bs" "ones_count (bs @ cs) = ones_count bs + ones_count cs"
  by (simp_all add: ones_count_def)

lemma columns_value_update:
  assumes "k < length cs"
  shows "columns_value (cs[k := u]) = columns_value cs + 2 ^ k * (ones_count u - ones_count (cs ! k))"
proof -
  have "columns_value (cs[k := u]) = (\<Sum>c < length cs. 2 ^ c * ones_count (cs ! c) + (if c = k then 2 ^ k * (ones_count u - ones_count (cs ! k)) else 0))"
    unfolding columns_value_def by (rule sum.cong) (auto simp: nth_list_update algebra_simps)
  also have "\<dots> = columns_value cs + 2 ^ k * (ones_count u - ones_count (cs ! k))"
    unfolding sum.distrib columns_value_def using assms by simp
  finally show ?thesis .
qed

lemma columns_value_empty: "columns_value (replicate n []) = 0"
  by (simp add: columns_value_def)

text \<open>The heights before a stage that reduces to \<open>d\<close>, and the carries a column may send on.\<close>

definition height_bound :: "nat \<Rightarrow> nat \<Rightarrow> nat" where
  "height_bound d t = (if t + 2 \<le> d then t else d)"

definition carry_bound :: "nat \<Rightarrow> nat \<Rightarrow> nat \<Rightarrow> nat" where
  "carry_bound d' d t = min (d' - d) (t + 1 - d)"

lemma carry_bound_step:
  assumes "2 \<le> d" "d < d'" "L \<le> height_bound d' t + carry_bound d' d (t + 1)"
  shows "(L + 1 - d) div 2 \<le> carry_bound d' d t" "t = 0 \<Longrightarrow> L = 0" "t + 2 \<le> d \<Longrightarrow> L \<le> t"
  using assms by (auto simp: height_bound_def carry_bound_def min_def split: if_splits)

definition heights_ok :: "nat \<Rightarrow> nat \<Rightarrow> 'a list list \<Rightarrow> bool" where
  "heights_ok d N pp \<longleftrightarrow> length pp = N \<and> (\<forall>c < N. length (pp ! c) \<le> height_bound d (N - 1 - c))"

context element_logic
begin

definition cols :: "'e list list \<Rightarrow> bool list list \<Rightarrow> bool" where
  "cols pp bs \<longleftrightarrow> list_all2 (list_all2 R) pp bs"

lemma reduce_full_ok:
  "list_all2 R column bc \<Longrightarrow> list_all2 R nxt bn \<Longrightarrow> 2 \<le> h \<Longrightarrow>
   yields (\<lambda>(c, n). \<exists>bc' bn' k. list_all2 R c bc' \<and> list_all2 R n bn' \<and>
       ones_count bc' + 2 * ones_count bn' = ones_count bc + 2 * ones_count bn \<and>
       length c + 2 * k = length column \<and> length n = length nxt + k \<and> length c \<le> h + 1 \<and> (k = 0 \<or> h \<le> length c))
     (reduce_full E h column nxt)"
proof (induction "length column" arbitrary: column nxt bc bn rule: less_induct)
  case less
  show ?case
  proof (cases "length column > h + 1")
    case False
    then have "reduce_full E h column nxt = Some (column, nxt)" by (subst reduce_full.simps) simp
    then show ?thesis using False less.prems by (auto intro: exI[of _ bc])
  next
    case True
    then obtain a b c rest where col: "column = a # b # c # rest" using less.prems(3)
      by (cases column; cases "tl column"; cases "tl (tl column)") auto
    then obtain x y z bs where bc: "bc = x # y # z # bs" "R a x" "R b y" "R c z" "list_all2 R rest bs"
      using less.prems(1) by (auto simp: list_all2_Cons1)
    let ?s = "(x \<noteq> y) \<noteq> z" and ?c = "x \<and> y \<or> (x \<noteq> y) \<and> z"
    let ?col = "rest @ [fst (FullAdder E a b c)]" and ?n = "nxt @ [snd (FullAdder E a b c)]"
    have 1: "list_all2 R ?col (bs @ [?s])" "list_all2 R ?n (bn @ [?c])"
      using bc(5) less.prems(2) R_FullAdder[OF bc(2-4)] by (auto simp: list_all2_appendI)
    have 2: "of_bool ?s + 2 * of_bool ?c = (of_bool x + of_bool y + of_bool z :: int)" by auto
    have lt: "length ?col < length column" using col by simp
    have "reduce_full E h column nxt = reduce_full E h ?col ?n"
      using True by (subst reduce_full.simps) (simp add: col Let_def)
    moreover have "yields (\<lambda>(c, n). \<exists>bc' bn' k. list_all2 R c bc' \<and> list_all2 R n bn' \<and>
       ones_count bc' + 2 * ones_count bn' = ones_count bc + 2 * ones_count bn \<and>
       length c + 2 * k = length column \<and> length n = length nxt + k \<and> length c \<le> h + 1 \<and> (k = 0 \<or> h \<le> length c)) (reduce_full E h ?col ?n)"
    proof (rule yields_mono[OF less.hyps[OF lt 1 less.prems(3)]], clarify, goal_cases)
      case (1 c' n' bc' bn' k)
      then have "ones_count bc' + 2 * ones_count bn' = ones_count bc + 2 * ones_count bn" using 2 bc(1) by simp
      moreover have "length c' + 2 * (k + 1) = length column" "length n' = length nxt + (k + 1)" using 1 col by auto
      moreover have "h \<le> length c'" using 1 True col by (cases "k = 0") auto
      ultimately show ?case using 1 by (intro exI[of _ bc'] exI[of _ bn'] exI[of _ "k + 1"]) auto
    qed
    ultimately show ?thesis by simp
  qed
qed

lemma reduce_half_ok:
  assumes "list_all2 R column bc" "list_all2 R nxt bn" "2 \<le> h" "length column \<le> h + 1"
  shows "yields (\<lambda>(c, n). \<exists>bc' bn'. list_all2 R c bc' \<and> list_all2 R n bn' \<and>
       ones_count bc' + 2 * ones_count bn' = ones_count bc + 2 * ones_count bn \<and>
       length c \<le> h \<and> length c \<le> length column \<and> length n = length nxt + of_bool (length column = h + 1))
     (reduce_half E h column nxt)"
proof (cases "length column > h")
  case False
  then show ?thesis using assms by (simp add: reduce_half_def, intro exI[of _ bc] conjI exI[of _ bn]) simp_all
next
  case True
  then obtain a b rest where col: "column = a # b # rest" using assms(3) by (cases column; cases "tl column") auto
  then obtain x y bs where bc: "bc = x # y # bs" "R a x" "R b y" "list_all2 R rest bs" using assms(1) by (auto simp: list_all2_Cons1)
  obtain s c where sc: "s = (x \<noteq> y)" "c = (x \<and> y)" by blast
  have 1: "list_all2 R (rest @ [fst (HalfAdder E a b)]) (bs @ [s])" "list_all2 R (nxt @ [snd (HalfAdder E a b)]) (bn @ [c])"
    using bc(4) assms(2) R_HalfAdder[OF bc(2,3)] by (auto simp: list_all2_appendI sc)
  have "of_bool s + 2 * of_bool c = (of_bool x + of_bool y :: int)" by (auto simp: sc)
  then have "ones_count (bs @ [s]) + 2 * ones_count (bn @ [c]) = ones_count bc + 2 * ones_count bn" using bc(1) by simp
  moreover have "reduce_half E h column nxt = Some (rest @ [fst (HalfAdder E a b)], nxt @ [snd (HalfAdder E a b)])"
    using True col by (simp add: reduce_half_def Let_def)
  ultimately show ?thesis using 1 True assms(4) col by fastforce
qed

lemma reduce_column_ok:
  assumes cols: "cols pp bs" and k: "k < length pp" and h: "2 \<le> h" and nxt: "length (pp ! k) \<le> h \<or> k + 1 < length pp"
  shows "yields (\<lambda>pp'. length pp' = length pp \<and> (\<exists>bs'. cols pp' bs' \<and> columns_value bs' = columns_value bs) \<and>
      length (pp' ! k) \<le> h \<and> length (pp' ! k) \<le> length (pp ! k) \<and>
      (k + 1 < length pp \<longrightarrow> length (pp' ! (k + 1)) \<le> length (pp ! (k + 1)) + (length (pp ! k) + 1 - h) div 2) \<and>
      (\<forall>c < length pp. c \<noteq> k \<and> c \<noteq> k + 1 \<longrightarrow> length (pp' ! c) = length (pp ! c))) (reduce_column E h k pp)"
proof (cases "length (pp ! k) \<le> h")
  case True
  then show ?thesis using cols k by (auto simp: reduce_column_def)
next
  case False
  then have k1: "k + 1 < length pp" using nxt by simp
  have lb: "length bs = length pp" and rel: "\<And>c. c < length pp \<Longrightarrow> list_all2 R (pp ! c) (bs ! c)"
    using cols by (auto simp: cols_def list_all2_conv_all_nth)
  have step: "yields (\<lambda>(c, n). \<exists>bc bn. list_all2 R c bc \<and> list_all2 R n bn \<and>
      ones_count bc + 2 * ones_count bn = ones_count (bs ! k) + 2 * ones_count (bs ! (k + 1)) \<and>
      length c \<le> h \<and> length c \<le> length (pp ! k) \<and> length n \<le> length (pp ! (k + 1)) + (length (pp ! k) + 1 - h) div 2)
     (do { r \<leftarrow> reduce_full E h (pp ! k) (pp ! (k + 1)); reduce_half E h (fst r) (snd r) })"
  proof (rule yields_bind[OF reduce_full_ok[OF rel[OF k] rel[OF k1] h]], clarify, goal_cases)
    case (1 c n bc bn j)
    show ?case
      by (simp, rule yields_mono[OF reduce_half_ok[OF 1(1,2) h 1(6)]])
        (use 1(3-7) False in \<open>auto simp: of_bool_def split: if_splits; fastforce\<close>)
  qed
  have upd: "columns_value (bs[k := bc, k + 1 := bn]) = columns_value bs"
    if "ones_count bc + 2 * ones_count bn = ones_count (bs ! k) + 2 * ones_count (bs ! (k + 1))" for bc bn
  proof -
    have "columns_value (bs[k := bc, k + 1 := bn]) = columns_value bs + 2 ^ k * ((ones_count bc + 2 * ones_count bn) - (ones_count (bs ! k) + 2 * ones_count (bs ! (k + 1))))"
      using k k1 lb by (simp add: columns_value_update algebra_simps)
    then show ?thesis using that by simp
  qed
  have eq: "reduce_column E h k pp = (do { r \<leftarrow> reduce_full E h (pp ! k) (pp ! (k + 1)); reduce_half E h (fst r) (snd r) }) \<bind>
      (\<lambda>r. Some (pp[k := fst r, k + 1 := snd r]))"
    using False k k1 by (simp add: reduce_column_def)
  show ?thesis unfolding eq
  proof (rule yields_bind[OF step], clarify, goal_cases)
    case (1 c n bc bn)
    have "cols (pp[k := c, k + 1 := n]) (bs[k := bc, k + 1 := bn])"
      using 1(1,2) cols unfolding cols_def by (intro list_all2_update_cong)
    then show ?case using 1 upd[OF 1(3)] k k1 by (auto simp: nth_list_update intro!: exI[of _ "bs[k := bc, k + 1 := bn]"])
  qed
qed

end

lemma row_heights:
  fixes m :: nat
  defines "h \<equiv> \<lambda>i c. card {i'. i' < i \<and> i' \<le> c \<and> c < i' + m}"
  shows "h 0 c = 0" "h (Suc i) c = h i c + of_bool (i \<le> c \<and> c < i + m)" "h i c \<le> i"
    "c < i + m \<Longrightarrow> h i c \<le> i + m - 1 - c"
proof -
  show "h 0 c = 0" by (simp add: h_def)
  have "{i'. i' < Suc i \<and> i' \<le> c \<and> c < i' + m} = {i'. i' < i \<and> i' \<le> c \<and> c < i' + m} \<union> (if i \<le> c \<and> c < i + m then {i} else {})"
    by (auto simp: less_Suc_eq)
  then show "h (Suc i) c = h i c + of_bool (i \<le> c \<and> c < i + m)" by (auto simp: h_def)
  show "h i c \<le> i" unfolding h_def using card_mono[of "{..<i}" "{i'. i' < i \<and> i' \<le> c \<and> c < i' + m}"] by auto
  assume "c < i + m"
  moreover have "h i c \<le> card {c + 1 - m..<i}" unfolding h_def by (rule card_mono) auto
  ultimately show "h i c \<le> i + m - 1 - c" by simp
qed

context element_logic
begin

lemma colsD: "cols pp bs \<Longrightarrow> length bs = length pp" "cols pp bs \<Longrightarrow> c < length pp \<Longrightarrow> list_all2 R (pp ! c) (bs ! c)"
  by (auto simp: cols_def list_all2_conv_all_nth)

lemma cols_update: "cols pp bs \<Longrightarrow> list_all2 R u v \<Longrightarrow> cols (pp[k := u]) (bs[k := v])"
  unfolding cols_def by (rule list_all2_update_cong)

lemma partial_products_row:
  assumes x: "R e b" and y: "vec R m y bv" and i: "i < n" and cols: "cols pp bs" and len: "length pp = n + m"
  shows "yields (\<lambda>pp'. length pp' = n + m \<and>
      (\<exists>bs'. cols pp' bs' \<and> columns_value bs' = columns_value bs + of_bool b * 2 ^ i * take_bit m y) \<and>
      (\<forall>c < n + m. length (pp' ! c) = length (pp ! c) + of_bool (i \<le> c \<and> c < i + m)))
    (for_state (\<lambda>j pp. do { d \<leftarrow> list_at bv j; c \<leftarrow> list_at pp (i + j); Some (pp[i + j := c @ [el_And E e d]]) }) [0..<m] pp)"
proof (rule yields_for_upt[where P = "\<lambda>j pp'. length pp' = n + m \<and>
      (\<exists>bs'. cols pp' bs' \<and> columns_value bs' = columns_value bs + of_bool b * 2 ^ i * take_bit j y) \<and>
      (\<forall>c < n + m. length (pp' ! c) = length (pp ! c) + of_bool (i \<le> c \<and> c < i + j))"], goal_cases)
  case 1
  then show ?case using cols len by auto
next
  case (2 j p)
  then obtain bs' where b: "cols p bs'" "columns_value bs' = columns_value bs + of_bool b * 2 ^ i * take_bit j y" by blast
  have ij: "i + j < length p" using 2 i by simp
  let ?p = "p[i + j := p ! (i + j) @ [el_And E e (bv ! j)]]" and ?b = "bs'[i + j := bs' ! (i + j) @ [b \<and> bit y j]]"
  have "cols ?p ?b" using colsD[OF b(1)] ij R_And[OF x vecD(2)[OF y 2(1)]] by (auto intro!: cols_update b(1) list_all2_appendI)
  moreover have "columns_value ?b = columns_value bs + of_bool b * 2 ^ i * take_bit (Suc j) y"
    using b ij colsD(1)[OF b(1)] by (auto simp: columns_value_update take_bit_Suc_from_most algebra_simps power_add)
  moreover have "length (?p ! c) = length (pp ! c) + of_bool (i \<le> c \<and> c < i + Suc j)" if "c < n + m" for c
    using 2 that by (cases "c = i + j") auto
  ultimately show ?case using 2 ij vecD(1)[OF y] by auto
qed

lemma partial_products_ok:
  assumes x: "vec R n x a" and y: "vec R m y b" and d: "n \<le> d"
  shows "yields (\<lambda>pp. heights_ok d (n + m) pp \<and> (\<exists>bs. cols pp bs \<and> columns_value bs = take_bit n x * take_bit m y)) (partial_products E a b)"
proof -
  let ?h = "\<lambda>i c. card {i'. i' < i \<and> i' \<le> c \<and> c < i' + m}"
  let ?P = "\<lambda>i pp. length pp = n + m \<and> (\<exists>bs. cols pp bs \<and> columns_value bs = take_bit i x * take_bit m y) \<and>
    (\<forall>c < n + m. length (pp ! c) = ?h i c)"
  have "yields (?P n) (partial_products E a b)"
    unfolding partial_products_def vecD(1)[OF x] vecD(1)[OF y]
  proof (rule yields_for_upt[where P = ?P], goal_cases)
    case 1
    have "cols (replicate (n + m) []) (replicate (n + m) [])" by (simp add: cols_def list_all2_conv_all_nth)
    then show ?case using columns_value_empty by (auto simp: row_heights(1))
  next
    case (2 i pp)
    then obtain bs where b: "cols pp bs" "columns_value bs = take_bit i x * take_bit m y" by blast
    have "take_bit (Suc i) x = take_bit i x + of_bool (bit x i) * 2 ^ i" by (simp add: take_bit_Suc_from_most)
    then have v: "columns_value bs + of_bool (bit x i) * 2 ^ i * take_bit m y = take_bit (Suc i) x * take_bit m y"
      by (simp add: b(2) algebra_simps)
    note row = partial_products_row[OF vecD(2)[OF x 2(1)] y 2(1) b(1), unfolded v]
    have "list_at a i = Some (a ! i)" using 2(1) vecD(1)[OF x] by simp
    then show ?case using 2 by (simp, intro yields_mono[OF row]) (auto simp: row_heights(2))
  qed
  then show ?thesis
    by (rule yields_mono) (use d in \<open>auto simp: heights_ok_def height_bound_def intro: order_trans[OF row_heights(3)] row_heights(4) order_trans[OF row_heights(4)]\<close>)
qed

lemma reduce_stage_ok:
  assumes h: "heights_ok d' N pp" and cols: "cols pp bs" and d: "2 \<le> d" "d < d'"
  shows "yields (\<lambda>pp'. heights_ok d N pp' \<and> (\<exists>bs'. cols pp' bs' \<and> columns_value bs' = columns_value bs)) (for_state (reduce_column E d) [0..<N] pp)"
proof -
  let ?P = "\<lambda>k p. length p = N \<and> (\<exists>bs'. cols p bs' \<and> columns_value bs' = columns_value bs) \<and>
    (\<forall>c < k. length (p ! c) \<le> height_bound d (N - 1 - c)) \<and>
    (k < N \<longrightarrow> length (p ! k) \<le> height_bound d' (N - 1 - k) + carry_bound d' d (N - 1 - k + 1)) \<and>
    (\<forall>c < N. k < c \<longrightarrow> length (p ! c) \<le> height_bound d' (N - 1 - c))"
  have "yields (?P N) (for_state (reduce_column E d) [0..<N] pp)"
  proof (rule yields_for_upt[where P = ?P], goal_cases)
    case 1
    then show ?case using h cols by (auto simp: heights_ok_def intro: trans_le_add1)
  next
    case (2 k p)
    then obtain bs' where b: "cols p bs'" "columns_value bs' = columns_value bs" by blast
    have len: "length p = N" and k: "k < N" using 2 by auto
    have L: "length (p ! k) \<le> height_bound d' (N - 1 - k) + carry_bound d' d (N - 1 - k + 1)" using 2 by blast
    note cb = carry_bound_step[OF d L]
    have nxt: "length (p ! k) \<le> d \<or> k + 1 < length p" using cb(2) k len by fastforce
    have fin: "q \<le> height_bound d (N - 1 - k)" if "q \<le> d" "q \<le> length (p ! k)" for q
      using that cb(3) by (auto simp: height_bound_def)
    have t: "carry_bound d' d (N - 1 - k) = carry_bound d' d (N - 1 - (k + 1) + 1)" if "k + 1 < N" using that by (simp add: Suc_diff_Suc)
    show ?case
    proof (rule yields_mono[OF reduce_column_ok[OF b(1) _ d(1) nxt]], goal_cases)
      case 1
      then show ?case using k len by simp
    next
      case (2 q)
      note q = this[unfolded len]
      have "length (q ! (k + 1)) \<le> height_bound d' (N - 1 - (k + 1)) + carry_bound d' d (N - 1 - (k + 1) + 1)" if "k + 1 < N"
      proof -
        have "length (p ! (k + 1)) \<le> height_bound d' (N - 1 - (k + 1))" using \<open>k < N\<close> 2 that \<open>?P k p\<close> by auto
        moreover have "length (q ! (k + 1)) \<le> length (p ! (k + 1)) + (length (p ! k) + 1 - d) div 2" using q that by simp
        ultimately show ?thesis using cb(1) t[OF that] by linarith
      qed
      moreover have "length (q ! c) \<le> height_bound d (N - 1 - c)" if "c < Suc k" for c
        using that q fin \<open>?P k p\<close> k by (cases "c = k") auto
      moreover have "length (q ! c) \<le> height_bound d' (N - 1 - c)" if "c < N" "Suc k < c" for c
        using that q \<open>?P k p\<close> by auto
      ultimately show ?case using q b(2) by auto
    qed
  qed
  then show ?thesis by (rule yields_mono) (auto simp: heights_ok_def)
qed

end

lemma first_height_ok: "2 \<le> h \<Longrightarrow> yields (\<lambda>k. 2 \<le> k \<and> n \<le> k) (first_height h n)"
proof (induction "n - h" arbitrary: h rule: less_induct)
  case less
  have "FloorOfRatio (int (3 * h)) 2 = Some (int (3 * h) div 2)" by (rule FloorOfRatio_eq) auto
  then have f: "FloorOfRatio (int (3 * h)) 2 = Some (int (3 * h div 2))" by (simp add: zdiv_int)
  have "first_height h n = (if h < n then first_height (3 * h div 2) n else Some h)"
    by (subst first_height.simps) (simp add: f del: of_nat_mult)
  moreover have "yields (\<lambda>k. 2 \<le> k \<and> n \<le> k) (first_height (3 * h div 2) n)" if "h < n"
    using less.prems that by (intro less.hyps) auto
  ultimately show ?case using less.prems by simp
qed

definition fin_height :: "nat \<Rightarrow> nat \<Rightarrow> nat \<Rightarrow> nat \<Rightarrow> bool" where
  "fin_height N k c l \<longleftrightarrow> (k < c \<longrightarrow> l \<le> (if c + 1 = N then 0 else 2)) \<and> (c = k \<longrightarrow> l \<le> (if c + 1 = N then 1 else 3))"

context element_logic
begin

lemma reduce_stages_ok:
  "2 \<le> d \<Longrightarrow> heights_ok d N pp \<Longrightarrow> cols pp bs \<Longrightarrow>
   yields (\<lambda>pp'. heights_ok 2 N pp' \<and> (\<exists>bs'. cols pp' bs' \<and> columns_value bs' = columns_value bs)) (reduce_stages E d pp)"
proof (induction d arbitrary: pp bs rule: less_induct)
  case (less d)
  show ?case
  proof (cases "d > 2")
    case False
    then have "d = 2" using less.prems by simp
    then show ?thesis using less.prems by (subst reduce_stages.simps) auto
  next
    case True
    obtain e where e: "e = (2 * d + 3 - 1) div 3" by blast
    have "CeilOfRatio (int (2 * d)) (int 3) = Some (int ((2 * d + 3 - 1) div 3))" by (rule CeilOfRatio_nat) simp
    then have c: "CeilOfRatio (int (2 * d)) 3 = Some (int e)" by (simp add: e)
    have ed: "2 \<le> e" "e < d" using True e by auto
    have len: "length pp = N" using less.prems by (simp add: heights_ok_def)
    have "reduce_stages E d pp = (do { pp' \<leftarrow> for_state (reduce_column E e) [0..<N] pp; reduce_stages E e pp' })"
      using True by (subst reduce_stages.simps) (simp add: c len del: of_nat_mult)
    moreover have "yields (\<lambda>pp'. heights_ok 2 N pp' \<and> (\<exists>bs'. cols pp' bs' \<and> columns_value bs' = columns_value bs))
      (do { pp' \<leftarrow> for_state (reduce_column E e) [0..<N] pp; reduce_stages E e pp' })"
    proof (rule yields_bind[OF reduce_stage_ok[OF less.prems(2,3) ed]])
      fix p assume p: "heights_ok e N p \<and> (\<exists>bs'. cols p bs' \<and> columns_value bs' = columns_value bs)"
      then obtain bs' where "cols p bs'" "columns_value bs' = columns_value bs" by blast
      then show "yields (\<lambda>pp'. heights_ok 2 N pp' \<and> (\<exists>bs'. cols pp' bs' \<and> columns_value bs' = columns_value bs)) (reduce_stages E e p)"
        using less.IH[OF ed(2,1), of p bs'] p by simp
    qed
    ultimately show ?thesis by simp
  qed
qed

text \<open>One column of the carry chain: the sum bit, and the carry in the next column.\<close>

lemma ripple_column_ok:
  assumes cols: "cols pp bs" and k: "k < length pp" and h: "length (pp ! k) \<le> (if k + 1 = length pp then 1 else 3)"
  shows "yields (\<lambda>(p, r). \<exists>s c e. r = result @ [e] \<and> R e s \<and> of_bool s + 2 * ones_count c = ones_count (bs ! k) \<and>
    length c \<le> 1 \<and> (k + 1 = length pp \<longrightarrow> c = [] \<and> p = pp) \<and>
    (k + 1 < length pp \<longrightarrow> (\<exists>u. list_all2 R u c \<and> p = pp[k + 1 := pp ! (k + 1) @ u]))) (ripple_column E k (pp, result))"
proof -
  have rel: "list_all2 R (pp ! k) (bs ! k)" using colsD[OF cols] k by simp
  have at: "list_at pp k = Some (pp ! k)" using k by simp
  have same: "pp[k + 1 := pp ! (k + 1) @ []] = pp" by simp
  consider (0) "pp ! k = []" | (1) a where "pp ! k = [a]" | (2) a b where "pp ! k = [a, b]" "k + 1 < length pp"
    | (3) a b c where "pp ! k = [a, b, c]" "k + 1 < length pp"
  proof -
    have "length (pp ! k) \<le> 3" using h by (auto split: if_splits)
    then have "pp ! k = [] \<or> (\<exists>a. pp ! k = [a]) \<or> (\<exists>a b. pp ! k = [a, b]) \<or> (\<exists>a b c. pp ! k = [a, b, c])"
      by (cases "pp ! k"; cases "tl (pp ! k)"; cases "tl (tl (pp ! k))"; cases "tl (tl (tl (pp ! k)))") auto
    moreover have "k + 1 < length pp" if "length (pp ! k) > 1" using that h k by (auto split: if_splits)
    ultimately show thesis using 0 1 2 3 by auto
  qed
  moreover have carry: ?thesis if eq: "ripple_column E k (pp, result) = Some (pp[k + 1 := pp ! (k + 1) @ [u]], result @ [e])"
    and "k + 1 < length pp" "R e s" "R u c" "of_bool s + 2 * ones_count [c] = ones_count (bs ! k)" for e u s c
    unfolding eq using that(2-)
    by (simp only: yields_Some prod.case, intro exI[of _ s] exI[of _ "[c]"] exI[of _ e] conjI impI exI[of _ "[u]"]) simp_all
  ultimately show ?thesis
  proof cases
    case 0
    then show ?thesis using rel same at by (auto simp: ripple_column_def R_Zero intro!: exI[of _ False] exI[of _ "[]"])
  next
    case 1
    then obtain x where "bs ! k = [x]" "R a x" using rel by (auto simp: list_all2_Cons1)
    then show ?thesis using 1 same at by (auto simp: ripple_column_def intro!: exI[of _ x] exI[of _ "[]"])
  next
    case 2
    then obtain x y where b: "bs ! k = [x, y]" "R a x" "R b y" using rel by (auto simp: list_all2_Cons1)
    obtain s c where sc: "s = (x \<noteq> y)" "c = (x \<and> y)" by blast
    have "of_bool s + 2 * of_bool c = (of_bool x + of_bool y :: int)" by (auto simp: sc)
    then have "of_bool s + 2 * ones_count [c] = ones_count (bs ! k)" using b(1) by simp
    moreover have "R (fst (HalfAdder E a b)) s" "R (snd (HalfAdder E a b)) c" using R_HalfAdder[OF b(2,3)] by (simp_all add: sc)
    moreover have "ripple_column E k (pp, result) = Some (pp[k + 1 := pp ! (k + 1) @ [snd (HalfAdder E a b)]], result @ [fst (HalfAdder E a b)])"
      using 2 at by (simp add: ripple_column_def Let_def)
    ultimately show ?thesis using carry 2(2) by blast
  next
    case 3
    then obtain x y z where b: "bs ! k = [x, y, z]" "R a x" "R b y" "R c z" using rel by (auto simp: list_all2_Cons1)
    obtain s d where sc: "s = ((x \<noteq> y) \<noteq> z)" "d = (x \<and> y \<or> (x \<noteq> y) \<and> z)" by blast
    have "of_bool s + 2 * of_bool d = (of_bool x + of_bool y + of_bool z :: int)" by (auto simp: sc)
    then have "of_bool s + 2 * ones_count [d] = ones_count (bs ! k)" using b(1) by simp
    moreover have "R (fst (FullAdder E a b c)) s" "R (snd (FullAdder E a b c)) d" using R_FullAdder[OF b(2-4)] by (simp_all add: sc)
    moreover have "ripple_column E k (pp, result) = Some (pp[k + 1 := pp ! (k + 1) @ [snd (FullAdder E a b c)]], result @ [fst (FullAdder E a b c)])"
      using 3 at by (simp add: ripple_column_def Let_def)
    ultimately show ?thesis using carry 3(2) by blast
  qed
qed

end

lemma bits_of_value: "horner_sum of_bool 2 rb = (v :: int) \<Longrightarrow> i < length rb \<Longrightarrow> bit v i = rb ! i"
  by (auto simp: bit_horner_sum_bit_iff)

lemma pending_split:
  "k < N \<Longrightarrow> (\<Sum>c = k..<N. 2 ^ c * f c :: int) = 2 ^ k * f k + (\<Sum>c = Suc k..<N. 2 ^ c * f c)"
  by (rule sum.atLeast_Suc_lessThan)

definition pending :: "nat \<Rightarrow> bool list list \<Rightarrow> int" where
  "pending k bs = (\<Sum>c = k..<length bs. 2 ^ c * ones_count (bs ! c))"

lemma pending_step:
  assumes "k < length bs" "of_bool s + 2 * ones_count c = ones_count (bs ! k)" "k + 1 = length bs \<Longrightarrow> c = []"
  shows "2 ^ k * of_bool s + pending (Suc k) (bs[k + 1 := bs ! (k + 1) @ c]) = pending k bs"
proof -
  have 1: "pending k bs = 2 ^ k * ones_count (bs ! k) + pending (Suc k) bs"
    using assms(1) by (simp only: pending_def pending_split)
  have 2: "pending (Suc k) (bs[k + 1 := bs ! (k + 1) @ c]) = pending (Suc k) bs + 2 ^ (k + 1) * ones_count c"
  proof (cases "k + 1 < length bs")
    case True
    have "(\<Sum>i = Suc (Suc k)..<length bs. 2 ^ i * ones_count (bs[k + 1 := bs ! (k + 1) @ c] ! i)) =
      (\<Sum>i = Suc (Suc k)..<length bs. 2 ^ i * ones_count (bs ! i))" by (rule sum.cong) auto
    then show ?thesis using True by (simp add: pending_def pending_split distrib_left)
  next
    case False
    then show ?thesis using assms(1,3) by simp
  qed
  have "2 ^ k * ones_count (bs ! k) = 2 ^ k * of_bool s + 2 ^ (k + 1) * ones_count c"
    unfolding assms(2)[symmetric] by (simp add: distrib_left)
  then show ?thesis using 1 2 by simp
qed

context element_logic
begin

lemma ripple_ok:
  assumes h: "heights_ok 2 N pp" and cols: "cols pp bs"
  shows "yields (\<lambda>r. vec R N (columns_value bs) (snd r)) (for_state (ripple_column E) [0..<N] (pp, []))"
proof -
  have len: "length pp = N" and lb: "length bs = N" using h colsD[OF cols] by (auto simp: heights_ok_def)
  let ?P = "\<lambda>k (p, r). length p = N \<and> (\<forall>c < N. fin_height N k c (length (p ! c))) \<and>
    (\<exists>ps rb. cols p ps \<and> list_all2 R r rb \<and> length rb = k \<and> horner_sum of_bool 2 rb + pending k ps = columns_value bs)"
  have "yields (?P N) (for_state (ripple_column E) [0..<N] (pp, []))"
  proof (rule yields_for_upt[where P = ?P], goal_cases)
    case 1
    have "length (pp ! c) \<le> (if c + 1 = N then 0 else 2)" if "c < N" for c
      using h that by (auto simp: heights_ok_def height_bound_def split: if_splits)
    then have "fin_height N 0 c (length (pp ! c))" if "c < N" for c using that by (fastforce simp: fin_height_def split: if_splits)
    moreover have "pending 0 bs = columns_value bs" by (simp add: pending_def columns_value_def atLeast0LessThan)
    ultimately show ?case using len cols by auto
  next
    case (2 k st)
    obtain p r where st: "st = (p, r)" by (cases st)
    then obtain ps rb where I: "cols p ps" "list_all2 R r rb" "length rb = k" "horner_sum of_bool 2 rb + pending k ps = columns_value bs"
      using 2(2) by auto
    have lp: "length p = N" "length ps = N" and H: "\<And>c. c < N \<Longrightarrow> fin_height N k c (length (p ! c))"
      using 2(2) st colsD(1)[OF I(1)] by auto
    have hk: "length (p ! k) \<le> (if k + 1 = length p then 1 else 3)" using H[OF 2(1)] lp by (auto simp: fin_height_def)
    show ?case unfolding st
    proof (rule yields_mono[OF ripple_column_ok[OF I(1) _ hk]], goal_cases)
      case 1
      then show ?case using 2(1) lp by simp
    next
      case (2 q)
      obtain q1 q2 where q: "q = (q1, q2)" by (cases q)
      from 2 obtain s c e where sc: "q2 = r @ [e]" "R e s" "of_bool s + 2 * ones_count c = ones_count (ps ! k)" "length c \<le> 1"
          "k + 1 = N \<Longrightarrow> c = [] \<and> q1 = p" "k + 1 < N \<Longrightarrow> \<exists>u. list_all2 R u c \<and> q1 = p[k + 1 := p ! (k + 1) @ u]"
        unfolding q lp by auto
      have k: "k < N" by fact
      obtain u where u: "list_all2 R u c" "q1 = p[k + 1 := p ! (k + 1) @ u]"
      proof (cases "k + 1 = N")
        case True
        then show ?thesis using sc(5) that[of "[]"] by (simp add: list_update_beyond lp)
      next
        case False
        then show ?thesis using sc(6) k that by auto
      qed
      let ?ps = "ps[k + 1 := ps ! (k + 1) @ c]"
      have "cols q1 ?ps"
      proof (cases "k + 1 < N")
        case True
        then show ?thesis unfolding u(2) using colsD(2)[OF I(1)] u(1) lp by (auto intro!: cols_update I(1) list_all2_appendI)
      next
        case False
        then show ?thesis using u(2) I(1) lp by (simp add: list_update_beyond)
      qed
      moreover have "list_all2 R q2 (rb @ [s])" using I(2) sc(1,2) by (simp add: list_all2_appendI)
      moreover have "horner_sum of_bool 2 (rb @ [s]) + pending (Suc k) ?ps = columns_value bs"
        using pending_step[of k ps s c] sc(3,5) k lp I(3,4) by (simp add: horner_sum_append)
      moreover have "fin_height N (Suc k) i (length (q1 ! i))" if "i < N" for i
        using H[OF that] that list_all2_lengthD[OF u(1)] sc(4,5) lp unfolding u(2)
        by (cases "i = k + 1") (auto simp: fin_height_def split: if_splits)
      ultimately show ?case using I(3) lp u(2) unfolding q by (auto intro!: exI[of _ ?ps] exI[of _ "rb @ [s]"])
    qed
  qed
  then show ?thesis
  proof (rule yields_mono, clarify, goal_cases)
    case (1 p r ps rb)
    then have "horner_sum of_bool 2 rb = columns_value bs" by (simp add: pending_def cols_def list_all2_lengthD)
    from bits_of_value[OF this] show ?case using 1 by (auto simp: vec_def list_all2_conv_all_nth)
  qed
qed

lemma UMul_vec:
  assumes x: "vec R n x a" and y: "vec R m y b"
  shows "yields (vec R (n + m) (take_bit n x * take_bit m y)) (AE_UMul E a b)"
proof -
  obtain d where d: "first_height 2 (max n m) = Some d" "2 \<le> d" "max n m \<le> d"
    using first_height_ok[of 2 "max n m"] by (auto simp: yields_def)
  have nd: "n \<le> d" using d(3) by simp
  show ?thesis unfolding AE_UMul_def vecD(1)[OF x] vecD(1)[OF y] d(1) bind.bind_lunit
  proof (rule yields_bind[OF partial_products_ok[OF x y nd]])
    fix pp assume "heights_ok d (n + m) pp \<and> (\<exists>bs. cols pp bs \<and> columns_value bs = take_bit n x * take_bit m y)"
    then obtain bs where pp: "heights_ok d (n + m) pp" "cols pp bs" and v: "columns_value bs = take_bit n x * take_bit m y" by blast
    show "yields (vec R (n + m) (take_bit n x * take_bit m y))
        (do { pp \<leftarrow> reduce_stages E d pp; r \<leftarrow> for_state (ripple_column E) [0..<n + m] (pp, []); Some (snd r) })"
    proof (rule yields_bind[OF reduce_stages_ok[OF d(2) pp]])
      fix p assume "heights_ok 2 (n + m) p \<and> (\<exists>bs'. cols p bs' \<and> columns_value bs' = columns_value bs)"
      then obtain bs' where p: "heights_ok 2 (n + m) p" "cols p bs'" "columns_value bs' = take_bit n x * take_bit m y" using v by auto
      show "yields (vec R (n + m) (take_bit n x * take_bit m y)) (do { r \<leftarrow> for_state (ripple_column E) [0..<n + m] (p, []); Some (snd r) })"
        by (rule yields_bind[OF ripple_ok[OF p(1,2)]]) (simp add: p(3))
    qed
  qed
qed

lemma SMul_vec:
  assumes x: "vec R n x a" and y: "vec R m y b" and n: "0 < n" "0 < m"
  shows "yields (vec R (n + m) (signed_take_bit (n - 1) x * signed_take_bit (m - 1) y)) (AE_SMul E a b)"
proof -
  let ?w = "max n m * 2" and ?p = "signed_take_bit (n - 1) x * signed_take_bit (m - 1) y"
  have w: "n \<le> ?w" "m \<le> ?w" "n + m \<le> ?w" by auto
  show ?thesis unfolding AE_SMul_def Let_def vecD(1)[OF x] vecD(1)[OF y]
  proof (rule yields_bind[OF SignExtend_vec[OF x n(1) w(1)]], rule yields_bind[OF SignExtend_vec[OF y n(2) w(2)]], rule yields_bind[OF UMul_vec], assumption, assumption)
    fix v assume v: "vec R (?w + ?w) (take_bit ?w (signed_take_bit (n - 1) x) * take_bit ?w (signed_take_bit (m - 1) y)) v"
    have eq: "take_bit ?w (take_bit ?w (signed_take_bit (n - 1) x) * take_bit ?w (signed_take_bit (m - 1) y)) = take_bit ?w ?p"
      by (simp add: take_bit_mult)
    have "take_bit (n + m) (take_bit ?w (signed_take_bit (n - 1) x) * take_bit ?w (signed_take_bit (m - 1) y)) = take_bit (n + m) ?p"
      using arg_cong[OF eq, of "take_bit (n + m)"] unfolding take_bit_take_bit min.absorb1[OF w(3)] .
    note c = vec_cong[OF this, of R]
    show "yields (vec R (n + m) ?p) (AE_BitSlice v 0 (n + m))"
    proof (rule yields_mono[OF BitSlice_vec[OF v, of 0 "n + m"]])
      show "vec R (n + m) ?p u" if "vec R (n + m) (drop_bit 0 (take_bit ?w (signed_take_bit (n - 1) x) * take_bit ?w (signed_take_bit (m - 1) y))) u" for u
        using that c[of u] by simp
    qed (use w(3) in simp)
  qed
qed

lemma abs_signed: "0 < n \<Longrightarrow> take_bit n \<bar>signed_take_bit (n - 1) (x :: int)\<bar> = \<bar>signed_take_bit (n - 1) x\<bar>"
proof -
  assume "0 < n"
  then have "(2 :: int) ^ n = 2 * 2 ^ (n - 1)" by (metis Suc_diff_1 power_Suc)
  moreover have "\<bar>signed_take_bit (n - 1) x\<bar> \<le> 2 ^ (n - 1)"
    using signed_take_bit_int_less_exp[of "n - 1" x] signed_take_bit_int_greater_eq_minus_exp[of "n - 1" x] by linarith
  ultimately have "\<bar>signed_take_bit (n - 1) x\<bar> < 2 ^ n" by (smt (verit) zero_less_power)
  then show ?thesis by (simp add: take_bit_int_eq_self)
qed

lemma largest_vec:
  assumes "0 < n"
  shows "vec R n (mask (n - 1)) ((replicate n (el_One E))[n - 1 := el_Zero E])"
    "vec R n (2 ^ (n - 1)) ((replicate n (el_Zero E))[n - 1 := el_One E])"
  using assms by (auto simp: vec_def bit_mask_iff bit_exp_iff nth_list_update R_One R_Zero intro!: R_cong[OF R_One])

lemma SDivMod_ok:
  assumes a: "vec R n x a" and b: "vec R m y b" and n: "0 < n" "0 < m"
  defines "X \<equiv> signed_take_bit (n - 1) x" and "Y \<equiv> signed_take_bit (m - 1) y"
  shows "yields (\<lambda>(q, r). vec R n (if Y = 0 then if X < 0 then 2 ^ (n - 1) else mask (n - 1) else c_div X Y) q \<and>
    vec R m (if Y = 0 then 0 else c_mod X Y) r) (AE_SDivMod E a b)"
proof -
  have len: "length a = n" "length b = m" using a b vecD(1) by auto
  have neg: "bit x (n - 1) = (X < 0)" "bit y (m - 1) = (Y < 0)" by (simp_all add: X_def Y_def)
  have nz: "(take_bit m y \<noteq> 0) = (Y \<noteq> 0)" unfolding Y_def using n(2) by (metis Suc_diff_1 signed_take_bit_eq_iff_take_bit_eq signed_take_bit_of_0 take_bit_of_0)
  have ab: "take_bit n \<bar>X\<bar> = \<bar>X\<bar>" "take_bit m \<bar>Y\<bar> = \<bar>Y\<bar>" using abs_signed n by (auto simp: X_def Y_def)
  let ?q = "if Y = 0 then - 1 else \<bar>X\<bar> div \<bar>Y\<bar>" and ?r = "if Y = 0 then 0 else \<bar>X\<bar> mod \<bar>Y\<bar>"
  have udm: "yields (\<lambda>(q, r). vec R n ?q q \<and> vec R m ?r r) (AE_UDivMod E an ad)" if "vec R n \<bar>X\<bar> an" "vec R m \<bar>Y\<bar> ad" for an ad
    using UDivMod_ok[OF that] unfolding ab abs_eq_0 .
  have lenif: "0 < length a" "0 < length b" using len n by auto
  show ?thesis unfolding AE_SDivMod_def if_P[OF lenif(1)] if_P[OF lenif(2)]
  proof (rule yields_bind[OF vec_back[OF OrReduce_vec[OF b]]], simp, rule yields_bind[OF vec_back[OF a n(1)]], rule yields_bind[OF vec_back[OF b n(2)]],
      rule yields_bind[OF Abs_vec[OF a n(1), folded X_def]], rule yields_bind[OF Abs_vec[OF b n(2), folded Y_def]], rule yields_bind[OF udm], assumption, assumption)
    fix nz' nn dn an ad qr
    assume 0: "R nz' (bit (of_bool (take_bit m y \<noteq> 0) :: int) (1 - 1))" "R nn (bit x (n - 1))" "R dn (bit y (m - 1))" "case qr of (q, r) \<Rightarrow> vec R n ?q q \<and> vec R m ?r r"
    obtain q r where qr: "qr = (q, r)" "vec R n ?q q" "vec R m ?r r" using 0(4) by (cases qr) auto
    have R: "R nz' (Y \<noteq> 0)" "R nn (X < 0)" "R dn (Y < 0)" using 0(1-3) nz neg by (simp_all add: bit_0)
    show "yields (\<lambda>(q, r). vec R n (if Y = 0 then if X < 0 then 2 ^ (n - 1) else mask (n - 1) else c_div X Y) q \<and> vec R m (if Y = 0 then 0 else c_mod X Y) r)
     (do { nr \<leftarrow> AE_Neg E (snd qr);
     remainder \<leftarrow> AE_Select E [nn] [snd qr, nr] None;
     nq \<leftarrow> AE_Neg E (fst qr);
     quotient \<leftarrow> AE_Select E [el_Xor E nn dn] [fst qr, nq] None;
     let w = length quotient;
     let largest_positive = (if w > 0 then (replicate w (el_One E))[w - 1 := el_Zero E] else []);
     let largest_negative = (if w > 0 then (replicate w (el_Zero E))[w - 1 := el_One E] else []);
     quotient \<leftarrow> AE_Select E [nn, nz'] [largest_positive, largest_negative] (Some quotient);
     Some (quotient, remainder) })" unfolding qr fst_conv snd_conv
    proof (rule yields_bind[OF Neg_vec[OF qr(3) n(2)]], rule yields_bind[OF Select_two[OF R(2) qr(3)]], assumption,
        rule yields_bind[OF Neg_vec[OF qr(2) n(1)]], rule yields_bind[OF Select_two[OF R_Xor[OF R(2,3)] qr(2)]], assumption)
      fix nr rem nq quo
      assume rem: "vec R m (if X < 0 then - ?r else ?r) rem" and quo: "vec R n (if (X < 0) \<noteq> (Y < 0) then - ?q else ?q) quo"
      have rem': "vec R m (if Y = 0 then 0 else c_mod X Y) rem" using rem by (auto simp: c_mod_alt sgn_if split: if_splits)
      let ?s = "of_bool (X < 0) + 2 * of_bool (Y \<noteq> 0) :: int"
      have sel: "vec R 2 ?s [nn, nz']" using R(1,2) by (auto simp: vec_def less_2_cases_iff bit_0 bit_Suc)
      have "vec R n (if i = 0 then mask (n - 1) else 2 ^ (n - 1)) ([(replicate n (el_One E))[n - 1 := el_Zero E], (replicate n (el_Zero E))[n - 1 := el_One E]] ! i)"
        if "i < 2" for i using largest_vec[OF n(1)] that by (cases i) auto
      from Select_default_vec[OF sel _ this quo] have Q: "yields (vec R n (if take_bit 2 ?s < 2 then if nat (take_bit 2 ?s) = 0 then mask (n - 1) else 2 ^ (n - 1) else if (X < 0) \<noteq> (Y < 0) then - ?q else ?q))
        (AE_Select E [nn, nz'] [(replicate n (el_One E))[n - 1 := el_Zero E], (replicate n (el_Zero E))[n - 1 := el_One E]] (Some quo))" by simp
      have eq: "(if take_bit 2 ?s < 2 then if nat (take_bit 2 ?s) = 0 then mask (n - 1) else 2 ^ (n - 1) else if (X < 0) \<noteq> (Y < 0) then - ?q else ?q) =
        (if Y = 0 then if X < 0 then 2 ^ (n - 1) else mask (n - 1) else c_div X Y)"
        by (auto simp: c_div_def sgn_if take_bit_int_def)
      show "yields (\<lambda>(q, r). vec R n (if Y = 0 then if X < 0 then 2 ^ (n - 1) else mask (n - 1) else c_div X Y) q \<and> vec R m (if Y = 0 then 0 else c_mod X Y) r)
        (let w = length quo;
             largest_positive = (if w > 0 then (replicate w (el_One E))[w - 1 := el_Zero E] else []);
             largest_negative = (if w > 0 then (replicate w (el_Zero E))[w - 1 := el_One E] else [])
         in do { quotient \<leftarrow> AE_Select E [nn, nz'] [largest_positive, largest_negative] (Some quo); Some (quotient, rem) })"
        unfolding Let_def vecD(1)[OF quo] if_P[OF n(1)]
        by (rule yields_bind[OF Q[unfolded eq]]) (use rem' in \<open>simp only: yields_Some prod.case simp_thms\<close>)
    qed
  qed
qed

end

end
