(* ===== verification/Evaluators.thy ===== *)
theory Evaluators
  imports ElementMul
begin

text \<open>
  The circuits of \<open>AbstractEvaluator\<close> against the operations of \<open>bits_ops\<close>: under the contract of the element
  logic every arithmetic, shift and comparison circuit refines the operation on literals. The contract is
  interpreted for the ternary evaluator of the optimisation passes, twice, and for the two-valued evaluator.
\<close>

section \<open>Circuits that implement a literal operation\<close>

text \<open>
  \<open>stands R b a\<close>: the vector \<open>a\<close> stands for the literal \<open>b\<close>. A circuit refines an operation on literals when
  neither aborts and the circuit's result stands for the operation's.
\<close>

definition stands :: "('e \<Rightarrow> bool \<Rightarrow> bool) \<Rightarrow> bits \<Rightarrow> 'e list \<Rightarrow> bool" where
  "stands R b a \<longleftrightarrow> vec R (bit_count b) (int (uval b)) a"

definition refines :: "('e \<Rightarrow> bool \<Rightarrow> bool) \<Rightarrow> 'e list option \<Rightarrow> bits option \<Rightarrow> bool" where
  "refines R circuit operation \<longleftrightarrow> (\<exists>v p. circuit = Some v \<and> operation = Some p \<and> bm_inv p \<and> stands R p v)"

lemma stands_mk_bits: "stands R (mk_bits n v) a \<longleftrightarrow> vec R n (int v) a"
proof -
  have "bit (int (take_bit n v)) i = bit (int v) i" if "i < n" for i
    using that by (simp add: bit_of_nat_iff bit_take_bit_iff)
  then show ?thesis by (auto simp: stands_def vec_def)
qed

lemma stands_mk_int: "stands R (mk_int n x) a \<longleftrightarrow> vec R n x a"
  by (simp add: mk_int_def stands_mk_bits)

lemma refinesI: "yields (vec R n x) c \<Longrightarrow> operation = Some (mk_int n x) \<Longrightarrow> refines R c operation"
  by (auto simp: yields_def refines_def stands_mk_int)

lemma sval_signed: "0 < n \<Longrightarrow> sval (mk_bits n v) = signed_take_bit (n - 1) (int v)"
proof -
  assume n: "0 < n"
  then have "signed_take_bit (n - 1) (int v) = take_bit n (int v) - (if bit (int v) (n - 1) then 2 ^ n else 0)"
    by (cases n) (simp_all add: signed_take_bit_eq_take_bit_minus)
  then show ?thesis using n by (simp add: sval_def bit_take_bit_iff bit_of_nat_iff flip: of_nat_take_bit)
qed

context element_logic
begin

lemma refines_Add:
  assumes L: "bignum_ok L val" and "bm_inv x" "bm_inv y" "bit_count x = bit_count y" "stands R x a" "stands R y b"
  shows "refines R (AE_Add E a b) (bits_ops_Add L x y)"
proof -
  obtain n v w where x: "x = mk_bits n v" "y = mk_bits n w" using assms by (metis bm_inv_cases mk_bits_fields(1))
  have "mk_bits n (v + w) = mk_int n (int v + int w)" by (metis mk_int_of_nat of_nat_add)
  then show ?thesis using assms by (auto simp: x stands_mk_bits bits_ops_Add_eq[OF L] intro: refinesI[OF Add_vec])
qed

lemma refines_Neg:
  assumes L: "bignum_ok L val" and "bm_inv x" "0 < bit_count x" "stands R x a"
  shows "refines R (AE_Neg E a) (bits_ops_Negate L x)"
proof -
  obtain n v where x: "x = mk_bits n v" using assms by (metis bm_inv_cases)
  then show ?thesis using assms by (auto simp: stands_mk_bits bits_ops_Negate_eq[OF L] intro: refinesI[OF Neg_vec])
qed

lemma refines_UMul:
  assumes L: "bignum_ok L val" and "bm_inv x" "bm_inv y" "stands R x a" "stands R y b"
  shows "refines R (AE_UMul E a b) (bits_ops_UMul L x y)"
proof -
  obtain n v m w where x: "x = mk_bits n v" "y = mk_bits m w" using assms by (metis bm_inv_cases)
  have "mk_bits (n + m) (take_bit n v * take_bit m w) = mk_int (n + m) (take_bit n (int v) * take_bit m (int w))"
    by (metis mk_int_of_nat of_nat_mult of_nat_take_bit)
  then show ?thesis using assms by (auto simp: x stands_mk_bits bits_ops_UMul_eq[OF L] intro: refinesI[OF UMul_vec])
qed

lemma refines_SMul:
  assumes L: "bignum_ok L val" and "bm_inv x" "bm_inv y" "0 < bit_count x" "0 < bit_count y" "stands R x a" "stands R y b"
  shows "refines R (AE_SMul E a b) (bits_ops_SMul L x y)"
proof -
  obtain n v m w where x: "x = mk_bits n v" "y = mk_bits m w" using assms by (metis bm_inv_cases)
  then show ?thesis using assms
    by (auto simp: x stands_mk_bits bits_ops_SMul_eq[OF L] sval_signed intro: refinesI[OF SMul_vec])
qed

lemma refines_UDivMod:
  assumes L: "bignum_ok L val" and "bm_inv x" "bm_inv y" "stands R x a" "stands R y b"
  shows "refines R (AE_UDiv E a b) (bits_ops_UDiv L x y) \<and> refines R (AE_UMod E a b) (bits_ops_UMod L x y)"
proof -
  obtain n v m w where x: "x = mk_bits n v" "y = mk_bits m w" using assms by (metis bm_inv_cases)
  obtain X Y where XY: "X = take_bit n (int v)" "Y = take_bit m (int w)" by blast
  have nat: "int (take_bit n v) = X" "int (take_bit m w) = Y" by (simp_all add: XY of_nat_take_bit)
  have z: "(take_bit m w = 0) = (Y = 0)" unfolding nat(2)[symmetric] by simp
  have "mk_bits n (if take_bit m w = 0 then mask n else take_bit n v div take_bit m w) = mk_int n (if Y = 0 then - 1 else X div Y)"
  proof (cases "Y = 0")
    case True
    have "mk_bits n (mask n) = mk_int n (- 1)" by (simp add: mk_int_def nat_mask_eq)
    then show ?thesis using True z by simp
  next
    case False
    then show ?thesis unfolding z using mk_int_of_nat[of n "take_bit n v div take_bit m w"] nat by (simp add: of_nat_div)
  qed
  moreover have "mk_bits m (if take_bit m w = 0 then 0 else take_bit n v mod take_bit m w) = mk_int m (if Y = 0 then 0 else X mod Y)"
    unfolding z using mk_int_of_nat[of m "take_bit n v mod take_bit m w"] nat by (simp add: of_nat_mod mk_int_def)
  moreover have "yields (\<lambda>(q, r). vec R n (if Y = 0 then - 1 else X div Y) q \<and> vec R m (if Y = 0 then 0 else X mod Y) r) (AE_UDivMod E a b)"
    using UDivMod_ok[of n "int v" a m "int w" b] assms unfolding XY by (simp add: x stands_mk_bits)
  ultimately show ?thesis unfolding x bits_ops_UDiv_eq[OF L] bits_ops_UMod_eq[OF L]
    by (auto simp: AE_UDiv_def AE_UMod_def refines_def yields_def stands_mk_int)
qed

lemma refines_SDivMod:
  assumes L: "bignum_ok L val" and "bm_inv x" "bm_inv y" "0 < bit_count x" "0 < bit_count y" "stands R x a" "stands R y b"
  shows "refines R (AE_SDiv E a b) (bits_ops_SDiv L x y) \<and> refines R (AE_SMod E a b) (bits_ops_SMod L x y)"
proof -
  obtain n v m w where x: "x = mk_bits n v" "y = mk_bits m w" using assms by (metis bm_inv_cases)
  have n: "0 < n" "0 < m" using assms x by auto
  obtain X Y where XY: "X = sval (mk_bits n v)" "Y = sval (mk_bits m w)" by blast
  have z: "(take_bit m w = 0) = (Y = 0)" unfolding XY sval_signed[OF n(2)]
    using n(2) by (metis Suc_diff_1 of_nat_eq_0_iff of_nat_take_bit signed_take_bit_eq_iff_take_bit_eq signed_take_bit_of_0 take_bit_of_0)
  have c: "mk_bits k (2 ^ j) = mk_int k (2 ^ j)" "mk_bits k (mask j) = mk_int k (mask j)" for k j
    by (metis mk_int_of_nat of_nat_numeral of_nat_power, metis mk_int_of_nat of_nat_mask_eq)
  have z0: "mk_bits m 0 = mk_int m 0" by (simp add: mk_int_def)
  have q: "bits_ops_SDiv L x y = Some (mk_int n (if Y = 0 then if X < 0 then 2 ^ (n - 1) else mask (n - 1) else c_div X Y))"
    unfolding x bits_ops_SDiv_eq[OF L] z XY[symmetric] c by simp
  have r: "bits_ops_SMod L x y = Some (mk_int m (if Y = 0 then 0 else c_mod X Y))"
    unfolding x bits_ops_SMod_eq[OF L] z XY[symmetric] z0 by simp
  have "yields (\<lambda>(q, r). vec R n (if Y = 0 then if X < 0 then 2 ^ (n - 1) else mask (n - 1) else c_div X Y) q \<and> vec R m (if Y = 0 then 0 else c_mod X Y) r) (AE_SDivMod E a b)"
    using SDivMod_ok[of n "int v" a m "int w" b] assms n unfolding XY sval_signed[OF n(1)] sval_signed[OF n(2)] by (simp add: x stands_mk_bits)
  then show ?thesis unfolding q r
    by (auto simp: AE_SDiv_def AE_SMod_def refines_def yields_def stands_mk_int simp del: mk_int_of_nat)
qed

lemma refines_shifts:
  assumes "bm_inv x" "bm_inv y" "0 < bit_count x" "bit_count x < 2 ^ 64" "stands R x a" "stands R y b"
  shows "refines R (AE_ShiftLeftLogical E a b) (ShiftLeftLogical x (uval y)) \<and>
    refines R (AE_ShiftRightLogical E a b) (ShiftRightLogical x (uval y)) \<and>
    refines R (AE_ShiftRightArith E a b) (ShiftRightArith x (uval y))"
proof -
  obtain n v m w where x: "x = mk_bits n v" "y = mk_bits m w" using assms by (metis bm_inv_cases)
  have n: "0 < n" "n < 2 ^ 64" and a: "vec R n (int v) a" and b: "vec R m (int w) b" using assms by (auto simp: x stands_mk_bits)
  have k: "nat (take_bit m (int w)) = take_bit m w" by (simp add: nat_take_bit_eq)
  have l: "mk_bits n (push_bit (take_bit m w) v) = mk_int n (push_bit (take_bit m w) (int v))"
    by (metis mk_int_of_nat of_nat_push_bit)
  have r: "mk_bits n (drop_bit (take_bit m w) (take_bit n v)) = mk_int n (drop_bit (take_bit m w) (take_bit n (int v)))"
    by (metis mk_int_of_nat of_nat_drop_bit of_nat_take_bit)
  note S = Shift_ok[OF a b n(2), unfolded k]
  show ?thesis unfolding x using refinesI[OF S(1)] refinesI[OF S(2)[OF n(1)]] refinesI[OF S(3)] n(1)
    by (simp add: AE_ShiftLeftLogical_def AE_ShiftRightLogical_def AE_ShiftRightArith_def l r sval_signed)
qed

lemma refines_compare:
  assumes L: "bignum_ok L val" and "bm_inv x" "bm_inv y" "bit_count x = bit_count y" "0 < bit_count x" "stands R x a" "stands R y b"
  shows "(\<exists>e. AE_Equals E a b = Some e \<and> R e (x = y)) \<and>
    (\<exists>e c. AE_ULessThan E a b = Some e \<and> ULessThan x y = Some c \<and> R e c) \<and>
    (\<exists>e c. AE_SLessThan E a b = Some e \<and> SLessThan L x y = Some c \<and> R e c)"
proof -
  obtain n v w where x: "x = mk_bits n v" "y = mk_bits n w" using assms by (metis bm_inv_cases mk_bits_fields(1))
  have n: "0 < n" and a: "vec R n (int v) a" and b: "vec R n (int w) b" using assms by (auto simp: x stands_mk_bits)
  have u: "(take_bit n (int v) = take_bit n (int w)) = (x = y)" "(take_bit n (int v) < take_bit n (int w)) = (take_bit n v < take_bit n w)"
    by (simp_all add: x mk_bits_eq_iff flip: of_nat_take_bit)
  have "ULessThan x y = Some (take_bit n v < take_bit n w)" by (simp add: ULessThan_def x)
  moreover have "SLessThan L x y = Some (signed_take_bit (n - 1) (int v) < signed_take_bit (n - 1) (int w))"
    unfolding x SLessThan_eq[OF L] sval_signed[OF n] ..
  ultimately show ?thesis using Equals_vec[OF a b] ULessThan_vec[OF a b] SLessThan_vec[OF a b n] unfolding u yields_def by auto
qed

end

section \<open>The three readings\<close>

definition ternary_known :: "TernaryValue \<Rightarrow> bool \<Rightarrow> bool" where
  "ternary_known t b \<longleftrightarrow> t = (if b then kKnownOne else kKnownZero)"

text \<open>
  The ternary evaluator is sound for what its vectors leave open, exact on vectors without unknown bits,
  and the two-valued evaluator is exact.
\<close>

interpretation ternaries: element_logic TernaryEvaluator ternary_covers
  by unfold_locales (auto simp: TernaryEvaluator_def intro: ternary_covers_ops)

interpretation literals: element_logic TernaryEvaluator ternary_known
  by unfold_locales (auto simp: TernaryEvaluator_def ternary_known_def ternary_And_def ternary_Or_def)

interpretation booleans: element_logic BoolEvaluator "(=)"
  by unfold_locales (auto simp: BoolEvaluator_def)

lemma stands_covers: "stands ternary_covers b v \<longleftrightarrow> vector_covers v b"
  by (auto simp: stands_def vec_def vector_covers_def bit_of_nat_iff)

text \<open>The analysis is sound: neither side aborts and the vector leaves the literal's value open.\<close>

definition sound_result :: "TernaryVector option \<Rightarrow> bits option \<Rightarrow> bool" where
  "sound_result circuit operation \<longleftrightarrow> (\<exists>v p. circuit = Some v \<and> operation = Some p \<and> bm_inv p \<and> vector_covers v p)"

lemma refines_covers: "refines ternary_covers c op \<longleftrightarrow> sound_result c op"
  by (simp add: refines_def sound_result_def stands_covers)

lemma stands_known: "bm_inv b \<Longrightarrow> stands ternary_known b v \<longleftrightarrow> BitsToTernary b = Some v"
proof (erule bm_inv_cases)
  fix n w assume b: "b = mk_bits n w"
  show ?thesis
    by (auto simp: b stands_mk_bits vec_def BitsToTernary_eq ternary_known_def bit_of_nat_iff list_eq_iff_nth_eq)
qed

lemma BitsToVector_eq: "BitsToVector E (mk_bits n v) = Some (map (\<lambda>i. if bit v i then el_One E else el_Zero E) [0..<n])"
  unfolding BitsToVector_def by (simp, rule generate_eq) simp

lemma stands_bool: "bm_inv b \<Longrightarrow> stands (=) b v \<longleftrightarrow> BitsToVector BoolEvaluator b = Some v"
proof (erule bm_inv_cases)
  fix n w assume b: "b = mk_bits n w"
  show ?thesis
    by (auto simp: b stands_mk_bits vec_def BitsToVector_eq BoolEvaluator_def bit_of_nat_iff list_eq_iff_nth_eq)
qed

lemma BitsToTernary_ex: "bm_inv b \<Longrightarrow> \<exists>v. BitsToTernary b = Some v"
  by (erule bm_inv_cases) (simp add: BitsToTernary_eq)

text \<open>A circuit that refines an operation under the exact reading is the operation on literals.\<close>

lemma refines_known:
  assumes "\<And>a b. stands ternary_known x a \<Longrightarrow> stands ternary_known y b \<Longrightarrow> refines ternary_known (c a b) op"
    and "bm_inv x" "bm_inv y"
  shows "(do { a \<leftarrow> BitsToTernary x; b \<leftarrow> BitsToTernary y; c a b }) = op \<bind> BitsToTernary"
proof -
  obtain a b where ab: "BitsToTernary x = Some a" "BitsToTernary y = Some b" using BitsToTernary_ex assms(2,3) by blast
  then have "refines ternary_known (c a b) op" using assms(1-3) by (simp add: stands_known)
  then show ?thesis using ab by (auto simp: refines_def stands_known)
qed

text \<open>The number of a vector of Booleans.\<close>

lemma vec_bools: "vec (=) n x a \<longleftrightarrow> length a = n \<and> horner_sum of_bool 2 a = take_bit n x"
proof
  assume a: "vec (=) n x a"
  then have "horner_sum of_bool 2 a = (horner_sum of_bool 2 (map (bit x) [0..<n]) :: int)"
    by (intro arg_cong[of _ _ "horner_sum of_bool 2"] nth_equalityI) (auto simp: vec_def)
  then show "length a = n \<and> horner_sum of_bool 2 a = take_bit n x" using a by (simp add: horner_sum_bit_eq_take_bit vec_def)
next
  assume a: "length a = n \<and> horner_sum of_bool 2 a = take_bit n x"
  then have "bit x i = a ! i" if "i < n" for i
    using that bits_of_value[of a "take_bit n x" i] by (simp add: bit_take_bit_iff)
  then show "vec (=) n x a" using a by (simp add: vec_def)
qed

lemma horner_bool_nonneg: "0 \<le> (horner_sum of_bool 2 bs :: int)"
  by (induction bs) auto

end
