(* ===== verification/IrType.thy ===== *)
theory IrType
  imports XlsPrelude
begin

text \<open>
  \<open>xls/ir/type.h\<close> and \<open>type.cc\<close>: the types of the IR, their sizes, equality, text and protobuf form, and the
  reading of a protobuf back (\<open>Package::GetTypeFromProto\<close>). A package owns one object per type, so that its
  types are compared by address; here a type is the tree it stands for. The protobuf messages are the
  records of \<open>xls_type.proto\<close>, with \<open>None\<close> for a field that is not set.
\<close>

section \<open>Types\<close>

datatype ir_type = BitsType nat | TupleType "ir_type list" | ArrayType nat ir_type | TokenType

fun IsBits :: "ir_type \<Rightarrow> bool" where
  "IsBits (BitsType n) = True" | "IsBits _ = False"

fun IsTuple :: "ir_type \<Rightarrow> bool" where
  "IsTuple (TupleType ts) = True" | "IsTuple _ = False"

fun IsArray :: "ir_type \<Rightarrow> bool" where
  "IsArray (ArrayType n t) = True" | "IsArray _ = False"

fun IsToken :: "ir_type \<Rightarrow> bool" where
  "IsToken TokenType = True" | "IsToken _ = False"

fun Type_GetFlatBitCount :: "ir_type \<Rightarrow> nat" where
  "Type_GetFlatBitCount (BitsType n) = n"
| "Type_GetFlatBitCount (TupleType ts) = sum_list (map Type_GetFlatBitCount ts)"
| "Type_GetFlatBitCount (ArrayType n t) = Type_GetFlatBitCount t * n"
| "Type_GetFlatBitCount TokenType = 0"

fun Type_leaf_count :: "ir_type \<Rightarrow> nat" where
  "Type_leaf_count (BitsType n) = 1"
| "Type_leaf_count (TupleType ts) = sum_list (map Type_leaf_count ts)"
| "Type_leaf_count (ArrayType n t) = n * Type_leaf_count t"
| "Type_leaf_count TokenType = 1"

text \<open>\<open>IsEqualTo\<close>; two objects at one address are the same tree, so the shortcut adds nothing.\<close>

fun Type_IsEqualTo :: "ir_type \<Rightarrow> ir_type \<Rightarrow> bool"
  and Type_elements_equal :: "ir_type list \<Rightarrow> ir_type list \<Rightarrow> bool" where
  "Type_IsEqualTo (BitsType n) other = (case other of BitsType m \<Rightarrow> n = m | _ \<Rightarrow> False)"
| "Type_IsEqualTo (TupleType ts) other =
     (case other of TupleType us \<Rightarrow> length ts = length us \<and> Type_elements_equal ts us | _ \<Rightarrow> False)"
| "Type_IsEqualTo (ArrayType n t) other = (case other of ArrayType m u \<Rightarrow> n = m \<and> Type_IsEqualTo t u | _ \<Rightarrow> False)"
| "Type_IsEqualTo TokenType other = IsToken other"
| "Type_elements_equal (t # ts) (u # us) = (Type_IsEqualTo t u \<and> Type_elements_equal ts us)"
| "Type_elements_equal ts us = True"

fun Type_ToString :: "ir_type \<Rightarrow> string" where
  "Type_ToString (BitsType n) = ''bits['' @ nat_string n @ '']''"
| "Type_ToString (TupleType ts) = ''('' @ str_join (map Type_ToString ts) '', '' @ '')''"
| "Type_ToString (ArrayType n t) = Type_ToString t @ ''['' @ nat_string n @ '']''"
| "Type_ToString TokenType = ''token''"

fun GetIndexedElementType :: "ir_type \<Rightarrow> nat \<Rightarrow> ir_type status_or" where
  "GetIndexedElementType t 0 = Inr t"
| "GetIndexedElementType t (Suc k) =
     (case t of ArrayType n u \<Rightarrow> GetIndexedElementType u k | _ \<Rightarrow> Inl InvalidArgumentError)"

fun GetArrayDimensionCount :: "ir_type \<Rightarrow> nat" where
  "GetArrayDimensionCount (ArrayType n t) = Suc (GetArrayDimensionCount t)"
| "GetArrayDimensionCount _ = 0"

fun TypeHasToken :: "ir_type \<Rightarrow> bool" where
  "TypeHasToken TokenType = True"
| "TypeHasToken (ArrayType n t) = TypeHasToken t"
| "TypeHasToken (TupleType ts) = list_ex TypeHasToken ts"
| "TypeHasToken (BitsType n) = False"

text \<open>Types of functions.\<close>

record FunctionType =
  parameters :: "ir_type list"
  return_type :: ir_type

definition FunctionType_IsEqualTo :: "FunctionType \<Rightarrow> FunctionType \<Rightarrow> bool" where
  "FunctionType_IsEqualTo f g \<longleftrightarrow>
     Type_IsEqualTo (return_type f) (return_type g) \<and> length (parameters f) = length (parameters g) \<and>
     Type_elements_equal (parameters f) (parameters g)"

definition FunctionType_ToString :: "FunctionType \<Rightarrow> string" where
  "FunctionType_ToString f =
     ''('' @ str_join (map Type_ToString (parameters f)) '', '' @ '') -> '' @ Type_ToString (return_type f)"

section \<open>Protobufs\<close>

datatype TypeEnum = INVALID | BITS | TUPLE | ARRAY | TOKEN

datatype TypeProto = TypeProto (type_enum: "TypeEnum option") (proto_bit_count: "int option")
  (tuple_elements: "TypeProto list") (array_size: "int option") (array_element: "TypeProto option")

fun Type_ToProto :: "ir_type \<Rightarrow> TypeProto" where
  "Type_ToProto (BitsType n) = TypeProto (Some BITS) (Some (int n)) [] None None"
| "Type_ToProto (TupleType ts) = TypeProto (Some TUPLE) None (map Type_ToProto ts) None None"
| "Type_ToProto (ArrayType n t) = TypeProto (Some ARRAY) None [] (Some (int n)) (Some (Type_ToProto t))"
| "Type_ToProto TokenType = TypeProto (Some TOKEN) None [] None None"

fun GetTypeFromProto :: "TypeProto \<Rightarrow> ir_type status_or"
  and GetTypesFromProtos :: "TypeProto list \<Rightarrow> ir_type list \<Rightarrow> ir_type list status_or" where
  "GetTypeFromProto (TypeProto e bits tuple asize element) =
     (case e of
        None \<Rightarrow> Inl InvalidArgumentError
      | Some BITS \<Rightarrow>
          (case bits of None \<Rightarrow> Inl InvalidArgumentError
           | Some n \<Rightarrow> if n < 0 then Inl InvalidArgumentError else Inr (BitsType (nat n)))
      | Some TUPLE \<Rightarrow> (case GetTypesFromProtos tuple [] of Inl s \<Rightarrow> Inl s | Inr ts \<Rightarrow> Inr (TupleType ts))
      | Some ARRAY \<Rightarrow>
          (case asize of None \<Rightarrow> Inl InvalidArgumentError
           | Some n \<Rightarrow>
               if n < 0 then Inl InvalidArgumentError
               else (case element of None \<Rightarrow> Inl InvalidArgumentError
                     | Some p \<Rightarrow> (case GetTypeFromProto p of Inl s \<Rightarrow> Inl s | Inr t \<Rightarrow> Inr (ArrayType (nat n) t))))
      | Some TOKEN \<Rightarrow> Inr TokenType
      | Some INVALID \<Rightarrow> Inl InvalidArgumentError)"
| "GetTypesFromProtos [] elements = Inr elements"
| "GetTypesFromProtos (p # ps) elements =
     (case GetTypeFromProto p of Inl s \<Rightarrow> Inl s | Inr t \<Rightarrow> GetTypesFromProtos ps (elements @ [t]))"

record FunctionTypeProto =
  proto_parameters :: "TypeProto list"
  proto_return_type :: "TypeProto option"

definition FunctionType_ToProto :: "FunctionType \<Rightarrow> FunctionTypeProto" where
  "FunctionType_ToProto f =
     \<lparr>proto_parameters = map Type_ToProto (parameters f), proto_return_type = Some (Type_ToProto (return_type f))\<rparr>"

definition GetFunctionTypeFromProto :: "FunctionTypeProto \<Rightarrow> FunctionType status_or" where
  "GetFunctionTypeFromProto proto =
     (case GetTypesFromProtos (proto_parameters proto) [] of
        Inl s \<Rightarrow> Inl s
      | Inr param_types \<Rightarrow>
          (case proto_return_type proto of
             None \<Rightarrow> Inl InvalidArgumentError
           | Some r \<Rightarrow>
               (case GetTypeFromProto r of
                  Inl s \<Rightarrow> Inl s
                | Inr t \<Rightarrow> Inr \<lparr>parameters = param_types, return_type = t\<rparr>)))"

section \<open>Lemmas\<close>

lemma Type_IsEqualTo_eq:
  "Type_IsEqualTo t u \<longleftrightarrow> t = u" "length ts = length us \<Longrightarrow> Type_elements_equal ts us \<longleftrightarrow> ts = us"
proof (induction t u and ts us rule: Type_IsEqualTo_Type_elements_equal.induct)
  case (4 other)
  then show ?case by (cases other) auto
qed (auto split: ir_type.splits)

lemma FunctionType_IsEqualTo_eq: "FunctionType_IsEqualTo f g \<longleftrightarrow> f = g"
  by (cases f; cases g) (auto simp: FunctionType_IsEqualTo_def Type_IsEqualTo_eq)

lemma type_proto_roundtrip: "GetTypeFromProto (Type_ToProto t) = Inr t"
proof (induction t)
  case (TupleType ts)
  have "GetTypesFromProtos (map Type_ToProto us) acc = Inr (acc @ us)" if "set us \<subseteq> set ts" for us acc
    using that TupleType by (induction us arbitrary: acc) auto
  then show ?case by simp
qed auto

lemma types_proto_roundtrip: "GetTypesFromProtos (map Type_ToProto us) acc = Inr (acc @ us)"
  by (induction us arbitrary: acc) (simp_all add: type_proto_roundtrip)

lemma function_type_proto_roundtrip: "GetFunctionTypeFromProto (FunctionType_ToProto f) = Inr f"
  by (simp add: GetFunctionTypeFromProto_def FunctionType_ToProto_def types_proto_roundtrip type_proto_roundtrip)

lemma GetIndexedElementType_ok:
  "(\<exists>u. GetIndexedElementType t k = Inr u) \<longleftrightarrow> k \<le> GetArrayDimensionCount t"
proof (induction t arbitrary: k)
  case (ArrayType n t)
  then show ?case by (cases k) auto
next
  case (BitsType n)
  then show ?case by (cases k) auto
next
  case (TupleType ts)
  then show ?case by (cases k) auto
next
  case TokenType
  then show ?case by (cases k) auto
qed

end
