(* ===== verification/NumberText.thy ===== *)
theory NumberText
  imports BitsOps
begin

text \<open>
  Literals as text: \<open>Bits::ToString\<close> and \<open>ToRawDigits\<close> (\<open>xls/ir/bits.cc\<close>), \<open>xls/ir/format_preference.cc\<close>,
  \<open>xls/ir/number_parser.cc\<close> and \<open>xls/common/string_to_int.cc\<close>. A string is a list of characters. The lemmas read
  text as a list of digits: printing and parsing are inverse on the number, and the parser ends with a value or
  an error on every text without a minus sign behind its first character.
\<close>

section \<open>Formats\<close>

datatype FormatPreference = kDefault | kBinary | kSignedDecimal | kUnsignedDecimal | kHex | kPlainBinary | kPlainHex

fun FormatPreferenceToString :: "FormatPreference \<Rightarrow> string" where
  "FormatPreferenceToString kDefault = ''default''"
| "FormatPreferenceToString kBinary = ''binary''"
| "FormatPreferenceToString kSignedDecimal = ''signed-decimal''"
| "FormatPreferenceToString kUnsignedDecimal = ''unsigned-decimal''"
| "FormatPreferenceToString kHex = ''hex''"
| "FormatPreferenceToString kPlainBinary = ''plain_binary''"
| "FormatPreferenceToString kPlainHex = ''plain_hex''"

fun FormatPreferenceToXlsSpecifier :: "FormatPreference \<Rightarrow> string" where
  "FormatPreferenceToXlsSpecifier kDefault = ''{}''"
| "FormatPreferenceToXlsSpecifier kBinary = ''{:#b}''"
| "FormatPreferenceToXlsSpecifier kUnsignedDecimal = ''{:u}''"
| "FormatPreferenceToXlsSpecifier kSignedDecimal = ''{:d}''"
| "FormatPreferenceToXlsSpecifier kHex = ''{:#x}''"
| "FormatPreferenceToXlsSpecifier kPlainBinary = ''{:b}''"
| "FormatPreferenceToXlsSpecifier kPlainHex = ''{:x}''"

fun FormatPreferenceToVerilogSpecifier :: "FormatPreference \<Rightarrow> string" where
  "FormatPreferenceToVerilogSpecifier kDefault = ''%d''"
| "FormatPreferenceToVerilogSpecifier kSignedDecimal = ''%d''"
| "FormatPreferenceToVerilogSpecifier kUnsignedDecimal = ''%u''"
| "FormatPreferenceToVerilogSpecifier kBinary = ''0b%b''"
| "FormatPreferenceToVerilogSpecifier kHex = ''0x%h''"
| "FormatPreferenceToVerilogSpecifier kPlainBinary = ''%b''"
| "FormatPreferenceToVerilogSpecifier kPlainHex = ''%h''"

definition FormatPreferenceFromString :: "string \<Rightarrow> FormatPreference status_or" where
  "FormatPreferenceFromString s =
     (if s = ''default'' then Inr kDefault
      else if s = ''binary'' then Inr kBinary
      else if s = ''hex'' then Inr kHex
      else if s = ''signed-decimal'' then Inr kSignedDecimal
      else if s = ''unsigned-decimal'' then Inr kUnsignedDecimal
      else if s = ''plain_binary'' then Inr kPlainBinary
      else if s = ''plain_hex'' then Inr kPlainHex
      else Inl InvalidArgumentError)"

section \<open>Printing literals\<close>

text \<open>The digit of \<open>absl::StrFormat("%x")\<close>; the sources print one digit at a time.\<close>

definition hex_char :: "nat \<Rightarrow> char" where
  "hex_char d = char_of (if d < 10 then 48 + d else 87 + d)"

function hex_string :: "nat \<Rightarrow> string" where
  "hex_string n = (if n < 16 then [hex_char n] else hex_string (n div 16) @ [hex_char (n mod 16)])"
  by pat_completeness auto
termination
  by (relation "measure id") auto

text \<open>The digit loop of \<open>ToRawDigits\<close>, from the most significant digit down.\<close>

definition raw_digit :: "bits \<Rightarrow> bool \<Rightarrow> nat \<Rightarrow> nat \<Rightarrow> string \<times> bool \<Rightarrow> (string \<times> bool) option" where
  "raw_digit b include_separators digit_width digit_no = (\<lambda>(result, eliding_leading_zeros). do {
     let result = (if include_separators \<and> (digit_no + 1) mod 4 = 0 \<and> result \<noteq> [] then result @ ''_'' else result);
     let start = digit_no * digit_width;
     let width = min digit_width (bit_count b - start);
     s \<leftarrow> Bits_Slice b start width;
     r \<leftarrow> Bits_ToUint64 s;
     digit_value \<leftarrow> status_value r;
     if digit_value = 0 \<and> eliding_leading_zeros \<and> digit_no \<noteq> 0 then Some (result, eliding_leading_zeros)
     else Some (result @ hex_string (unat digit_value), False) })"

definition Bits_ToRawDigits :: "bits \<Rightarrow> FormatPreference \<Rightarrow> bool \<Rightarrow> string option" where
  "Bits_ToRawDigits b preference emit_leading_zeros = do {
     check (preference \<noteq> kDefault);
     if preference = kSignedDecimal then do {
       check (\<not> emit_leading_zeros);
       f \<leftarrow> Bits_FitsInInt64 b;
       check f;
       r \<leftarrow> Bits_ToInt64 b;
       v \<leftarrow> status_value r;
       Some (int_string (sint v)) }
     else if preference = kUnsignedDecimal then do {
       check (\<not> emit_leading_zeros);
       f \<leftarrow> Bits_FitsInUint64 b;
       check f;
       r \<leftarrow> Bits_ToUint64 b;
       v \<leftarrow> status_value r;
       Some (nat_string (unat v)) }
     else if bit_count b = 0 then Some ''0''
     else do {
       let binary_format = (preference = kBinary \<or> preference = kPlainBinary);
       let hex_format = (preference = kHex \<or> preference = kPlainHex);
       let plain_format = (preference = kPlainBinary \<or> preference = kPlainHex);
       check (binary_format \<or> hex_format);
       let digit_width = (if binary_format then 1 else 4);
       digit_count \<leftarrow> CeilOfRatio (int (bit_count b)) (int digit_width);
       r \<leftarrow> for_state (raw_digit b (\<not> plain_format) digit_width) (rev [0..<nat digit_count]) ([], \<not> emit_leading_zeros);
       Some (fst r) } }"

definition Bits_ToString :: "bits \<Rightarrow> FormatPreference \<Rightarrow> bool \<Rightarrow> string option" where
  "Bits_ToString b preference include_bit_count = do {
     let preference = (if preference = kDefault then if bit_count b \<le> 64 then kUnsignedDecimal else kHex else preference);
     digits \<leftarrow> Bits_ToRawDigits b preference False;
     let result = (if preference = kBinary then ''0b'' else if preference = kHex then ''0x'' else []) @ digits;
     Some (if include_bit_count then result @ '' ['' @ nat_string (bit_count b) @ '' bits]'' else result) }"

section \<open>Machine integers from text\<close>

definition ConsumePrefix :: "string \<Rightarrow> string \<Rightarrow> bool \<times> string" where
  "ConsumePrefix s p = (if take (length p) s = p then (True, drop (length p) s) else (False, s))"

text \<open>A \<open>char\<close> is signed; the difference is converted to \<open>uint64_t\<close>.\<close>

definition char_value :: "char \<Rightarrow> int" where
  "char_value c = (let v = int (of_char c) in if v < 128 then v else v - 256)"

definition char_to_digit :: "int \<Rightarrow> char \<Rightarrow> u64 status_or option" where
  "char_to_digit base c = do {
     r \<leftarrow> (if base = 2 \<or> base = 8 \<or> base = 10 then Some (Inr (word_of_int (char_value c - 48)))
        else if base = 16 then
          (if 97 \<le> char_value c \<and> char_value c \<le> 102 then Some (Inr (word_of_int (char_value c - 97 + 10)))
           else if 65 \<le> char_value c \<and> char_value c \<le> 70 then Some (Inr (word_of_int (char_value c - 65 + 10)))
           else if 48 \<le> char_value c \<and> char_value c \<le> 57 then Some (Inr (word_of_int (char_value c - 48)))
           else Some (Inl InvalidArgumentError))
        else None);
     (case r of Inl e \<Rightarrow> Some (Inl e)
      | Inr digit \<Rightarrow> if word_of_int base \<le> (digit :: u64) then Some (Inl InvalidArgumentError) else Some (Inr digit)) }"

fun scan_digits :: "int \<Rightarrow> string \<Rightarrow> 128 word \<Rightarrow> 128 word status_or option" where
  "scan_digits base [] accum = Some (Inr accum)"
| "scan_digits base (c # s) accum = or_return (char_to_digit base c) (\<lambda>digit.
     let accum = accum * word_of_int base + ucast digit
     in if drop_bit 64 accum \<noteq> 0 then Some (Inl InvalidArgumentError) else scan_digits base s accum)"

definition StrTo64Base :: "string \<Rightarrow> int \<Rightarrow> u64 status_or option" where
  "StrTo64Base s base =
     (if s = ''0'' \<or> s = ''-0'' then Some (Inr 0)
      else let (negated, s) = ConsumePrefix s ''-'';
        (base, s) =
          (if base = 0 then
             (if fst (ConsumePrefix s ''0b'') then (2, snd (ConsumePrefix s ''0b''))
              else if fst (ConsumePrefix s ''0x'') then (16, snd (ConsumePrefix s ''0x''))
              else if fst (ConsumePrefix s ''0'') then (8, snd (ConsumePrefix s ''0''))
              else (10, s))
           else if base = 16 then (base, snd (ConsumePrefix s ''0x''))
           else if base = 8 then (base, snd (ConsumePrefix s ''0''))
           else if base = 2 then (base, snd (ConsumePrefix s ''0b''))
           else (base, s))
      in if base < 2 then Some (Inl InternalError)
         else if s = [] then Some (Inl InvalidArgumentError)
         else or_return (scan_digits base s 0) (\<lambda>accum. Some (Inr (ucast (if negated then - accum else accum)))))"

section \<open>Literals from text\<close>

text \<open>\<open>absl::SimpleAtoi\<close> of a single character.\<close>

definition SimpleAtoi_char :: "char \<Rightarrow> u64 option" where
  "SimpleAtoi_char c = (if 48 \<le> char_value c \<and> char_value c \<le> 57 then Some (word_of_int (char_value c - 48)) else None)"

fun parse_decimal :: "('n, 'z) bignum_lib_scheme \<Rightarrow> bits \<Rightarrow> string \<Rightarrow> bits \<Rightarrow> bits status_or option" where
  "parse_decimal L bits_10 [] result = Some (Inr result)"
| "parse_decimal L bits_10 (c # s) result = do {
     result \<leftarrow> bits_ops_UMul L result bits_10;
     (case SimpleAtoi_char c of
        None \<Rightarrow> Some (Inl InvalidArgumentError)
      | Some magnitude \<Rightarrow> do {
          new_char \<leftarrow> UBits magnitude (bit_count result);
          result \<leftarrow> bits_ops_Add L result new_char;
          result \<leftarrow> DropLeadingZeroes result;
          parse_decimal L bits_10 s result }) }"

partial_function (option) parse_chunks :: "string \<Rightarrow> int \<Rightarrow> nat \<Rightarrow> nat \<Rightarrow> bits list \<Rightarrow> bits list status_or option" where
  "parse_chunks s base base_bits i chunks =
     (if i < length s then do {
        let step_size = 64 div base_bits;
        let chunk_length = min step_size (length s - i);
        chunk_value_or \<leftarrow> StrTo64Base (take chunk_length (drop i s)) base;
        (case chunk_value_or of
           Inl e \<Rightarrow> Some (Inl InvalidArgumentError)
         | Inr v \<Rightarrow> do {
             b \<leftarrow> UBits v (chunk_length * base_bits);
             parse_chunks s base base_bits (i + step_size) (chunks @ [b]) }) }
      else Some (Inr chunks))"

definition kMinimumBitCount :: int where
  "kMinimumBitCount = - 1"

definition narrow_parsed :: "bits \<Rightarrow> int \<Rightarrow> bits option" where
  "narrow_parsed unnarrowed width =
     (if width = kMinimumBitCount then do {
        z \<leftarrow> Bits_CountLeadingZeros unnarrowed;
        Bits_Slice unnarrowed 0 (bit_count unnarrowed - z) }
      else if width > int (bit_count unnarrowed) then do {
        rope \<leftarrow> BitsRope_new (nat width);
        rope \<leftarrow> BitsRope_push_back unnarrowed rope;
        rest \<leftarrow> Bits_new (nat width - bit_count unnarrowed);
        rope \<leftarrow> BitsRope_push_back rest rope;
        BitsRope_Build rope }
      else do { check (0 \<le> width); Bits_Slice unnarrowed 0 (nat width) })"

definition ParseUnsignedNumberHelper ::
  "('n, 'z) bignum_lib_scheme \<Rightarrow> string \<Rightarrow> FormatPreference \<Rightarrow> int \<Rightarrow> bits status_or option" where
  "ParseUnsignedNumberHelper L input format width =
     (if format = kDefault then Some (Inl InvalidArgumentError)
      else let numeric_string = filter (\<lambda>c. c \<noteq> CHR ''_'') input
      in if numeric_string = [] then Some (Inl InvalidArgumentError)
      else if format = kUnsignedDecimal then do {
        result \<leftarrow> UBits 0 32;
        bits_10 \<leftarrow> UBits 10 8;
        parse_decimal L bits_10 numeric_string result }
      else if format \<noteq> kBinary \<and> format \<noteq> kHex then Some (Inl InvalidArgumentError)
      else or_return (if format = kBinary then parse_chunks numeric_string 2 1 0 [] else parse_chunks numeric_string 16 4 0 [])
        (\<lambda>chunks. do {
          unnarrowed \<leftarrow> bits_ops_Concat chunks;
          r \<leftarrow> narrow_parsed unnarrowed width;
          Some (Inr r) }))"

definition ParseUnsignedNumberWithoutPrefix ::
  "('n, 'z) bignum_lib_scheme \<Rightarrow> string \<Rightarrow> FormatPreference \<Rightarrow> int \<Rightarrow> bits status_or option" where
  "ParseUnsignedNumberWithoutPrefix L input format width = ParseUnsignedNumberHelper L input format width"

definition GetSignAndMagnitude :: "('n, 'z) bignum_lib_scheme \<Rightarrow> string \<Rightarrow> (bool \<times> bits) status_or option" where
  "GetSignAndMagnitude L input =
     (if input = [] then Some (Inl InvalidArgumentError)
      else let is_negative = (hd input = CHR ''-'');
        numeric_substring = (if is_negative then tl input else input)
      in or_return
        (if 2 \<le> length numeric_substring \<and> numeric_substring ! 0 = CHR ''0'' then
           (if numeric_substring ! 1 = CHR ''b'' then Some (Inr (kBinary, drop 2 numeric_substring))
            else if numeric_substring ! 1 = CHR ''x'' then Some (Inr (kHex, drop 2 numeric_substring))
            else Some (Inl InvalidArgumentError))
         else Some (Inr (kUnsignedDecimal, numeric_substring)))
        (\<lambda>(format, numeric_substring).
           or_return (ParseUnsignedNumberHelper L numeric_substring format kMinimumBitCount)
             (\<lambda>value. Some (Inr (is_negative, value)))))"

text \<open>The loop that counts the leading ones of a negated magnitude, from the index below \<open>i\<close> down.\<close>

fun leading_ones_from :: "bits \<Rightarrow> nat \<Rightarrow> nat \<Rightarrow> nat option" where
  "leading_ones_from b 0 n = Some n"
| "leading_ones_from b (Suc i) n = do { x \<leftarrow> Bits_Get b i; if x then leading_ones_from b i (n + 1) else Some n }"

definition ParseNumber :: "('n, 'z) bignum_lib_scheme \<Rightarrow> string \<Rightarrow> bits status_or option" where
  "ParseNumber L input = or_return (GetSignAndMagnitude L input) (\<lambda>(is_negative, magnitude). do {
     z \<leftarrow> Bits_IsZero magnitude;
     if is_negative \<and> \<not> z then do {
       x \<leftarrow> ZeroExtend magnitude (bit_count magnitude + 1);
       result \<leftarrow> bits_ops_Negate L x;
       leading_ones \<leftarrow> leading_ones_from result (bit_count result) 0;
       if 0 < leading_ones then do {
         r \<leftarrow> Bits_Slice result 0 (bit_count result - leading_ones + 1);
         Some (Inr r) }
       else Some (Inl InternalError) }
     else Some (Inr magnitude) })"

definition ParseNumberAsUint64 :: "('n, 'z) bignum_lib_scheme \<Rightarrow> string \<Rightarrow> u64 status_or option" where
  "ParseNumberAsUint64 L input = or_return (GetSignAndMagnitude L input) (\<lambda>(is_negative, magnitude). do {
     z \<leftarrow> Bits_IsZero magnitude;
     if is_negative \<and> \<not> z \<or> bit_count magnitude > 64 then Some (Inl InvalidArgumentError)
     else Bits_ToUint64 magnitude })"

definition ParseNumberAsInt64 :: "('n, 'z) bignum_lib_scheme \<Rightarrow> string \<Rightarrow> u64 status_or option" where
  "ParseNumberAsInt64 L input = or_return (GetSignAndMagnitude L input) (\<lambda>(is_negative, magnitude).
     if \<not> is_negative then
       (if bit_count magnitude > 63 then Some (Inl InvalidArgumentError)
        else do { x \<leftarrow> ZeroExtend magnitude 64; Bits_ToInt64 x })
     else if bit_count magnitude \<ge> 64 then do {
       m \<leftarrow> Bits_msb magnitude;
       ones \<leftarrow> Bits_PopCount magnitude;
       Some (if bit_count magnitude = 64 \<and> m \<and> ones = 1 then Inr (push_bit 63 1) else Inl InvalidArgumentError) }
     else do { x \<leftarrow> ZeroExtend magnitude 64; y \<leftarrow> bits_ops_Negate L x; Bits_ToInt64 y })"

definition ParseNumberAsBool :: "('n, 'z) bignum_lib_scheme \<Rightarrow> string \<Rightarrow> bool status_or option" where
  "ParseNumberAsBool L input =
     (if input = ''true'' then Some (Inr True)
      else if input = ''false'' then Some (Inr False)
      else or_return (GetSignAndMagnitude L input) (\<lambda>(is_negative, magnitude).
        if is_negative then Some (Inl InvalidArgumentError)
        else if bit_count magnitude > 1 then Some (Inl InvalidArgumentError)
        else do { x \<leftarrow> Bits_Get magnitude 0; Some (Inr x) }))"

section \<open>Digits\<close>

definition digits_from :: "nat \<Rightarrow> nat \<Rightarrow> nat list \<Rightarrow> nat" where
  "digits_from base a ds = foldl (\<lambda>a d. a * base + d) a ds"

lemma digits_from_simps [simp]:
  "digits_from base a [] = a" "digits_from base a (d # ds) = digits_from base (a * base + d) ds"
  "digits_from base a (ds @ es) = digits_from base (digits_from base a ds) es"
  by (simp_all add: digits_from_def)

lemma digits_from_split: "digits_from base a ds = a * base ^ length ds + digits_from base 0 ds"
proof (induction ds arbitrary: a)
  case (Cons d ds)
  show ?case using Cons[of "a * base + d"] Cons[of d] by (simp add: algebra_simps)
qed simp

lemma digits_from_less:
  assumes "\<forall>d \<in> set ds. d < base"
  shows "digits_from base 0 ds < base ^ length ds"
  using assms
proof (induction ds)
  case (Cons d ds)
  have "digits_from base 0 (d # ds) = d * base ^ length ds + digits_from base 0 ds"
    using digits_from_split[of base d ds] by simp
  also have "\<dots> < (d + 1) * base ^ length ds" using Cons by simp
  also have "\<dots> \<le> base * base ^ length ds" using Cons.prems by (intro mult_right_mono) auto
  finally show ?case by simp
qed simp

lemma upto_16: "d < (16 :: nat) \<Longrightarrow> d = 0 \<or> d = 1 \<or> d = 2 \<or> d = 3 \<or> d = 4 \<or> d = 5 \<or> d = 6 \<or> d = 7 \<or> d = 8 \<or> d = 9
   \<or> d = 10 \<or> d = 11 \<or> d = 12 \<or> d = 13 \<or> d = 14 \<or> d = 15"
  by presburger

lemma char_value_hex: "d < 16 \<Longrightarrow> char_value (hex_char d) = (if d < 10 then 48 + int d else 87 + int d)"
  unfolding char_value_def hex_char_def Let_def of_char_of by auto

lemma hex_char_not [simp]:
  "d < 16 \<Longrightarrow> hex_char d \<noteq> CHR ''-''" "d < 16 \<Longrightarrow> hex_char d \<noteq> CHR ''x''" "d < 16 \<Longrightarrow> hex_char d \<noteq> CHR ''_''"
  using char_value_hex[of d] by (auto simp: char_value_def split: if_splits)

lemma hex_char_b: "d < 10 \<Longrightarrow> hex_char d \<noteq> CHR ''b''"
  using char_value_hex[of d] by (auto simp: char_value_def split: if_splits)

lemma hex_char_0 [simp]: "d < 16 \<Longrightarrow> hex_char d = CHR ''0'' \<longleftrightarrow> d = 0"
  using of_char_eq_iff[where ?'a = nat, of "hex_char d" "CHR ''0''"] by (auto simp: hex_char_def split: if_splits)

lemma char_to_digit_hex [simp]:
  "d < 2 \<Longrightarrow> char_to_digit 2 (hex_char d) = Some (Inr (of_nat d))"
  "d < 16 \<Longrightarrow> char_to_digit 16 (hex_char d) = Some (Inr (of_nat d))"
proof -
  show "char_to_digit 2 (hex_char d) = Some (Inr (of_nat d))" if "d < 2"
  proof -
    have "d = 0 \<or> d = 1" using that by auto
    then show ?thesis by (elim disjE) (simp_all add: char_to_digit_def char_value_hex word_le_nat_alt)
  qed
  show "char_to_digit 16 (hex_char d) = Some (Inr (of_nat d))" if "d < 16"
    using upto_16[OF that] by (elim disjE) (simp_all add: char_to_digit_def char_value_hex word_le_nat_alt)
qed

lemma SimpleAtoi_hex [simp]: "d < 10 \<Longrightarrow> SimpleAtoi_char (hex_char d) = Some (of_nat d)"
  by (simp add: SimpleAtoi_char_def char_value_hex)

section \<open>Machine integers\<close>

lemma drop_bit_of_nat_128: "v < 2 ^ 64 \<Longrightarrow> drop_bit 64 (of_nat v :: 128 word) = 0"
  by (simp add: drop_bit_eq_div word_arith_nat_div unat_of_nat take_bit_eq_mod)

lemma le_mult_one: "1 \<le> (k :: nat) \<Longrightarrow> x \<le> x * k"
  by (cases k) auto

lemma scan_digits_ok:
  assumes "base = 2 \<or> base = 16" "\<forall>d \<in> set ds. d < base" "digits_from base a ds < 2 ^ 64"
  shows "scan_digits (int base) (map hex_char ds) (of_nat a) = Some (Inr (of_nat (digits_from base a ds)))"
  using assms(2,3)
proof (induction ds arbitrary: a)
  case (Cons d ds)
  have d: "char_to_digit (int base) (hex_char d) = Some (Inr (of_nat d))" using Cons.prems(1) assms(1) by auto
  have u: "ucast (of_nat d :: u64) = (of_nat d :: 128 word)"
  proof -
    have "d < 16" using Cons.prems(1) assms(1) by auto
    then show ?thesis by (simp add: unsigned_of_nat take_bit_nat_eq_self)
  qed
  have "a * base + d \<le> (a * base + d) * base ^ length ds" using assms(1) by (intro le_mult_one) auto
  then have "a * base + d \<le> digits_from base a (d # ds)"
    using digits_from_split[of base "a * base + d" ds] by (metis digits_from_simps(2) trans_le_add1)
  then have lt: "a * base + d < 2 ^ 64" using Cons.prems(2) by simp
  show ?case using Cons.IH[of "a * base + d"] Cons.prems drop_bit_of_nat_128[OF lt]
    by (simp add: d u ac_simps)
qed simp

lemma StrTo64Base_ok:
  assumes "base = 2 \<and> bb = 1 \<or> base = 16 \<and> bb = 4" "\<forall>d \<in> set ds. d < base" "ds \<noteq> []" "length ds * bb \<le> (64 :: nat)"
  shows "StrTo64Base (map hex_char ds) (int base) = Some (Inr (of_nat (digits_from base 0 ds)))"
proof -
  obtain d es where ds: "ds = d # es" using assms(3) by (cases ds) auto
  have base: "base = 2 ^ bb" using assms(1) by auto
  have "digits_from base 0 ds < base ^ length ds" using digits_from_less[OF assms(2)] .
  also have "\<dots> = 2 ^ (length ds * bb)" by (simp add: base power_mult[symmetric] ac_simps)
  also have "\<dots> \<le> 2 ^ 64" using assms(4) by (rule power_increasing) simp
  finally have lt: "digits_from base 0 ds < 2 ^ 64" .
  have d16: "d < 16" "es \<noteq> [] \<Longrightarrow> hd es < 16" using assms(1,2) ds by (auto simp: hd_in_set) (use hd_in_set in fastforce)+
  have pre: "ConsumePrefix (map hex_char ds) ''-'' = (False, map hex_char ds)" using d16 by (simp add: ConsumePrefix_def ds)
  have pre2: "snd (ConsumePrefix (map hex_char ds) (if base = 16 then ''0x'' else ''0b'')) = map hex_char ds"
    using d16 assms(1,2) hex_char_b[of "hd es"] by (cases es) (auto simp: ConsumePrefix_def ds)
  have "map hex_char ds = ''0'' \<Longrightarrow> digits_from base 0 ds = 0" using d16 by (auto simp: ds)
  moreover have "map hex_char ds \<noteq> ''-0''" using d16 by (auto simp: ds)
  moreover have "ucast (of_nat v :: 128 word) = (of_nat v :: u64)" if "v < 2 ^ 64" for v
    using that by (simp add: unsigned_of_nat take_bit_nat_eq_self)
  moreover have "scan_digits (int base) (map hex_char ds) 0 = Some (Inr (of_nat (digits_from base 0 ds)))"
    using scan_digits_ok[of base ds 0] assms lt by auto
  ultimately show ?thesis using assms(1,3) lt pre pre2
    by (auto simp: StrTo64Base_def split: if_splits)
qed

section \<open>Literals\<close>

lemma mk_bits_minimal: "n - run_length (\<lambda>i. \<not> bit v (n - 1 - i)) n = num_bits (take_bit n v)"
proof -
  let ?u = "take_bit n v" let ?k = "num_bits ?u"
  have k: "?k \<le> n" by (rule num_bits_take_bit)
  have "run_length (\<lambda>i. \<not> bit v (n - 1 - i)) n = n - ?k"
  proof (rule run_length_unique)
    fix i assume i: "i < n - ?k"
    have "?u < 2 ^ ?k" using num_bits_le_iff[of ?u ?k] by simp
    then have "\<not> bit ?u (n - 1 - i)" using i k bit_nat_less_iff[of ?u ?k] by auto
    then show "\<not> bit v (n - 1 - i)" using i by (auto simp: bit_take_bit_iff)
  next
    show "n - ?k = n \<or> \<not> \<not> bit v (n - 1 - (n - ?k))"
    proof (cases "?k = 0")
      case False
      then have "0 < ?k" by simp
      then have u: "0 < ?u" by (cases "?u = 0") (simp_all add: num_bits.simps)
      then have "bit ?u (?k - 1)" using num_bits_bounds[OF u] bit_top[of "?k - 1" ?u] by simp
      then show ?thesis using k \<open>0 < ?k\<close> by (simp add: bit_take_bit_iff)
    qed simp
  qed simp
  then show ?thesis using k by simp
qed

lemma narrow_parsed_minimal [simp]:
  "narrow_parsed (mk_bits n v) kMinimumBitCount = Some (mk_bits (num_bits (take_bit n v)) v)"
  using num_bits_take_bit[of n v] mk_bits_minimal[of n v] by (simp add: narrow_parsed_def)

lemma parse_decimal_ok:
  assumes "bignum_ok L val" "\<forall>d \<in> set ds. d < 10"
  shows "a < 2 ^ w \<Longrightarrow> parse_decimal L (mk_bits 8 10) (map hex_char ds) (mk_bits w a) =
    Some (Inr (if ds = [] then mk_bits w a else mk_bits (num_bits (digits_from 10 a ds)) (digits_from 10 a ds)))"
  using assms(2)
proof (induction ds arbitrary: a w)
  case (Cons d ds)
  let ?a = "a * 10 + d"
  have d: "d < 10" using Cons.prems by simp
  have "a * 10 + d < 2 ^ w * 10" using Cons.prems(1) d by linarith
  also have "\<dots> \<le> 2 ^ (w + 8)" by (simp add: power_add)
  finally have lt: "?a < 2 ^ (w + 8)" .
  have m: "bits_ops_UMul L (mk_bits w a) (mk_bits 8 10) = Some (mk_bits (w + 8) (a * 10))"
    using bits_ops_UMul_eq[OF assms(1), of w a 8 10] Cons.prems(1) by (simp add: take_bit_eq_mod)
  have u: "UBits (of_nat d) (w + 8) = Some (mk_bits (w + 8) d)"
    using d lt by (simp add: unat_of_nat take_bit_eq_mod)
  have "a < 2 ^ num_bits a" for a using num_bits_le_iff[of a "num_bits a"] by simp
  then show ?case
    using Cons.IH[of ?a "num_bits ?a"] Cons.prems(2) lt d
    by (simp add: m u bits_ops_Add_eq[OF assms(1)] take_bit_nat_eq_self del: UBits_eq)
qed simp

lemma chunk_lengths: "min s (l - i) + (l - (i + s)) = l - (i :: nat)"
  by arith

lemma parse_chunks_ok:
  assumes b: "base = 2 \<and> bb = 1 \<or> base = 16 \<and> bb = 4" and ds: "\<forall>d \<in> set ds. d < base"
  shows "\<exists>cs. parse_chunks (map hex_char ds) (int base) bb i chunks = Some (Inr (chunks @ cs)) \<and>
    (\<forall>c \<in> set cs. bm_inv c) \<and> sum_list (map bit_count cs) = (length ds - i) * bb \<and>
    concat_nat cs = digits_from base 0 (drop i ds)"
proof (induction "length ds - i" arbitrary: i chunks rule: less_induct)
  case less
  show ?case
  proof (cases "i < length ds")
    case True
    let ?step = "64 div bb" let ?len = "min ?step (length ds - i)" let ?es = "take ?len (drop i ds)"
    have step: "0 < ?step" "?step * bb = 64" using b by auto
    have base: "base = 2 ^ bb" using b by auto
    have es: "?es \<noteq> []" "length ?es = ?len" "\<forall>d \<in> set ?es. d < base"
      using True step ds by (auto dest!: in_set_takeD in_set_dropD)
    have "?len * bb \<le> ?step * bb" by (intro mult_right_mono) auto
    then have len: "length ?es * bb \<le> 64" using step es(2) by simp
    let ?v = "digits_from base 0 ?es"
    have "?v < base ^ length ?es" by (rule digits_from_less[OF es(3)])
    then have v: "?v < 2 ^ (?len * bb)" unfolding es(2) by (simp add: base power_mult[symmetric] ac_simps)
    also have "\<dots> \<le> 2 ^ 64" using len es(2) by (intro power_increasing) auto
    finally have "unat (of_nat ?v :: u64) = ?v" by (simp add: unat_of_nat take_bit_nat_eq_self)
    then have u: "UBits (of_nat ?v) (?len * bb) = Some (mk_bits (?len * bb) ?v)" using v by simp
    let ?c = "mk_bits (?len * bb) ?v"
    obtain cs where cs: "parse_chunks (map hex_char ds) (int base) bb (i + ?step) (chunks @ [?c]) = Some (Inr ((chunks @ [?c]) @ cs))"
      "\<forall>c \<in> set cs. bm_inv c" "sum_list (map bit_count cs) = (length ds - (i + ?step)) * bb"
      "concat_nat cs = digits_from base 0 (drop (i + ?step) ds)"
      using less[of "i + ?step" "chunks @ [?c]", OF diff_less_mono2] True step(1) by auto
    have s: "StrTo64Base (take ?len (drop i (map hex_char ds))) (int base) = Some (Inr (of_nat ?v))"
      using StrTo64Base_ok[OF b es(3) es(1) len] by (simp add: drop_map take_map)
    have dd: "drop i ds = ?es @ drop (i + ?step) ds" 
      using append_take_drop_id[of ?step "drop i ds"] by (simp add: add.commute min_def)
    have "digits_from base 0 (drop i ds) = ?v * base ^ (length ds - (i + ?step)) + digits_from base 0 (drop (i + ?step) ds)"
      by (subst dd) (simp only: digits_from_simps digits_from_split[of base ?v] length_drop)
    also have "base ^ (length ds - (i + ?step)) = 2 ^ sum_list (map bit_count cs)"
      unfolding cs(3) base by (simp add: power_mult[symmetric] ac_simps)
    finally have val: "digits_from base 0 (drop i ds) = concat_nat (?c # cs)"
      using v cs(4) by (simp add: ac_simps take_bit_nat_eq_self)
    have w: "sum_list (map bit_count (?c # cs)) = (length ds - i) * bb"
      using cs(3) chunk_lengths[of ?step "length ds" i] by (simp add: add_mult_distrib[symmetric])
    have "parse_chunks (map hex_char ds) (int base) bb i chunks = Some (Inr (chunks @ (?c # cs)))"
      using True cs(1) by (subst parse_chunks.simps) (simp add: s u Let_def del: UBits_eq)
    then show ?thesis using val w cs(2) by (intro exI[of _ "?c # cs"]) auto
  next
    case False
    then show ?thesis by (subst parse_chunks.simps) (auto intro!: exI[of _ "[]"])
  qed
qed

lemma ParseUnsignedNumberHelper_digits:
  assumes "bignum_ok L val" "filter (\<lambda>c. c \<noteq> CHR ''_'') s = map hex_char ds" "ds \<noteq> []"
    "format = kBinary \<and> base = 2 \<or> format = kHex \<and> base = 16 \<or> format = kUnsignedDecimal \<and> base = 10" "\<forall>d \<in> set ds. d < base"
  shows "ParseUnsignedNumberHelper L s format kMinimumBitCount =
    Some (Inr (mk_bits (num_bits (digits_from base 0 ds)) (digits_from base 0 ds)))"
proof (cases "format = kUnsignedDecimal")
  case True
  then show ?thesis
    using parse_decimal_ok[OF assms(1), of ds 0 32] assms(2-5) by (auto simp: ParseUnsignedNumberHelper_def)
next
  case False
  define bb :: nat where "bb = (if base = 2 then 1 else 4)"
  have b: "base = 2 \<and> bb = 1 \<or> base = 16 \<and> bb = 4" using assms(4) False by (auto simp: bb_def)
  obtain cs where cs: "parse_chunks (map hex_char ds) (int base) bb 0 [] = Some (Inr cs)" "\<forall>c \<in> set cs. bm_inv c"
    "sum_list (map bit_count cs) = length ds * bb" "concat_nat cs = digits_from base 0 ds"
    using parse_chunks_ok[OF b assms(5), of 0 "[]"] by auto
  have base: "base = 2 ^ bb" using b by auto
  have "digits_from base 0 ds < 2 ^ (length ds * bb)"
    using digits_from_less[OF assms(5)] by (simp add: base power_mult[symmetric] ac_simps)
  then have "narrow_parsed (mk_bits (length ds * bb) (digits_from base 0 ds)) kMinimumBitCount
      = Some (mk_bits (num_bits (digits_from base 0 ds)) (digits_from base 0 ds))" by (simp add: take_bit_nat_eq_self)
  then show ?thesis using cs False assms(2-4) bits_ops_Concat_eq[OF cs(2)] b
    by (auto simp: ParseUnsignedNumberHelper_def)
qed

section \<open>Printed digits\<close>

lemma hex_char_zero [simp]: "hex_char 0 = CHR ''0''"
  by (rule hex_char_0[THEN iffD2]) simp_all

lemma hex_char_dec: "d < 10 \<Longrightarrow> char_of (48 + d) = hex_char d"
  by (simp add: hex_char_def)

lemma nat_string_digits:
  "\<exists>ds. nat_string v = map hex_char ds \<and> ds \<noteq> [] \<and> (\<forall>d \<in> set ds. d < 10) \<and> digits_from 10 0 ds = v \<and>
    (2 \<le> length ds \<longrightarrow> hd ds \<noteq> 0)"
proof (induction v rule: nat_string.induct)
  case (1 v)
  show ?case
  proof (cases "v < 10")
    case True
    then show ?thesis by (intro exI[of _ "[v]"]) (simp add: hex_char_dec)
  next
    case False
    then obtain ds where ds: "nat_string (v div 10) = map hex_char ds" "ds \<noteq> []" "\<forall>d \<in> set ds. d < 10"
      "digits_from 10 0 ds = v div 10" "2 \<le> length ds \<longrightarrow> hd ds \<noteq> 0" using 1 by blast
    have "hd ds \<noteq> 0"
    proof (cases "2 \<le> length ds")
      case False
      then obtain d where "ds = [d]" using ds(2) by (cases ds; cases "tl ds") auto
      then show ?thesis using ds(4) \<open>\<not> v < 10\<close> by auto
    qed (use ds in blast)
    then show ?thesis using ds False
      by (intro exI[of _ "ds @ [v mod 10]"]) (simp add: hex_char_dec)
  qed
qed

declare nat_string.simps [simp del] hex_string.simps [simp del]

lemma hex_string_digit [simp]: "d < 16 \<Longrightarrow> hex_string d = [hex_char d]"
  by (subst hex_string.simps) simp

lemma filter_hex [simp]: "\<forall>d \<in> set ds. d < 16 \<Longrightarrow> filter (\<lambda>c. c \<noteq> CHR ''_'') (map hex_char ds) = map hex_char ds"
  by (intro filter_True) auto

text \<open>What the digit loop has printed before digit \<open>k\<close> (counting down) of the number \<open>v\<close>.\<close>

definition printed :: "nat \<Rightarrow> nat \<Rightarrow> nat \<Rightarrow> string \<times> bool \<Rightarrow> bool" where
  "printed dw v k = (\<lambda>(result, eliding). \<exists>ds. filter (\<lambda>c. c \<noteq> CHR ''_'') result = map hex_char ds \<and>
     (\<forall>d \<in> set ds. d < 2 ^ dw) \<and> digits_from (2 ^ dw) 0 ds = v div 2 ^ (k * dw) \<and> (eliding \<longrightarrow> result = []) \<and> (k = 0 \<longrightarrow> ds \<noteq> []))"

lemma raw_digit_ok:
  assumes dw: "dw = 1 \<or> dw = 4" and v: "v < 2 ^ n" and k: "k * dw < n" and P: "printed dw v (k + 1) st"
  shows "\<exists>st'. raw_digit (mk_bits n v) sep dw k st = Some st' \<and> printed dw v k st'"
proof -
  obtain result eliding where st: "st = (result, eliding)" by (cases st)
  obtain ds where ds: "filter (\<lambda>c. c \<noteq> CHR ''_'') result = map hex_char ds" "\<forall>d \<in> set ds. d < 2 ^ dw"
    "digits_from (2 ^ dw) 0 ds = v div 2 ^ ((k + 1) * dw)" "eliding \<longrightarrow> result = []"
    using P by (auto simp: printed_def st)
  define d where "d = v div 2 ^ (k * dw) mod 2 ^ dw"
  have d16: "d < 16" "d < 2 ^ dw" using dw by (auto simp: d_def intro: less_le_trans[OF mod_less_divisor])
  have "v div 2 ^ (k * dw) < 2 ^ (n - k * dw)"
    using v k by (simp add: less_mult_imp_div_less power_add[symmetric])
  then have slice: "take_bit (min dw (n - k * dw)) (drop_bit (k * dw) v) = d"
    unfolding d_def by (simp add: drop_bit_eq_div take_bit_eq_mod min_def)
      (metis mod_less nat_le_linear order_less_le_trans power_increasing one_le_numeral)
  define result' where "result' = (if sep \<and> (k + 1) mod 4 = 0 \<and> result \<noteq> [] then result @ ''_'' else result)"
  have r': "filter (\<lambda>c. c \<noteq> CHR ''_'') result' = map hex_char ds" "result' = [] \<longleftrightarrow> result = []" using ds(1) by (auto simp: result'_def)
  have vd: "v div 2 ^ (k * dw) = v div 2 ^ ((k + 1) * dw) * 2 ^ dw + d"
    using div_mult_mod_eq[of "v div 2 ^ (k * dw)" "2 ^ dw"]
    unfolding d_def add_mult_distrib mult_1 power_add div_mult2_eq by simp
  have u: "unat (word_of_nat d :: u64) = d" using d16 by (simp add: unat_of_nat take_bit_nat_eq_self)
  have le: "k * dw + min dw (n - k * dw) \<le> n" using k by simp
  have run: "raw_digit (mk_bits n v) sep dw k st =
      (if d = 0 \<and> eliding \<and> k \<noteq> 0 then Some (result', eliding) else Some (result' @ [hex_char d], False))"
  proof -
    have "d = 0" if "(word_of_nat d :: u64) = 0" using u unfolding that by simp
    then have "(word_of_nat d :: u64) = 0 \<longleftrightarrow> d = 0" by auto
    moreover have "d < 2 ^ 64" using d16 by simp
    ultimately show ?thesis using k d16 slice u
      le by (simp add: raw_digit_def st Bits_ToUint64_eq result'_def Let_def)
  qed
  show ?thesis
  proof (cases "d = 0 \<and> eliding \<and> k \<noteq> 0")
    case True
    then have "result' = []" "ds = []" using ds r' by auto
    then have "printed dw v k (result', eliding)" using True vd ds(3) by (auto simp: printed_def intro!: exI[of _ "[]"])
    then show ?thesis using run True by auto
  next
    case False
    have "printed dw v k (result' @ [hex_char d], False)" unfolding printed_def
      using r' ds(2,3) d16 vd by (auto intro!: exI[of _ "ds @ [d]"])
    then show ?thesis using run False by (auto simp: False)
  qed
qed

lemma ToRawDigits_ok:
  assumes b: "bm_inv b" and f: "f = kBinary \<and> dw = 1 \<or> f = kHex \<and> dw = 4 \<or> f = kPlainBinary \<and> dw = 1 \<or> f = kPlainHex \<and> dw = 4"
  shows "\<exists>s ds. Bits_ToRawDigits b f lead = Some s \<and> filter (\<lambda>c. c \<noteq> CHR ''_'') s = map hex_char ds \<and> ds \<noteq> [] \<and>
    (\<forall>d \<in> set ds. d < 2 ^ dw) \<and> digits_from (2 ^ dw) 0 ds = uval b"
proof (cases "bit_count b = 0")
  case True
  then have "uval b = 0" using b by (auto simp: bm_inv_def)
  moreover have "''0'' = map hex_char [0]" by simp
  ultimately show ?thesis using f True
    by (intro exI[of _ "''0''"] exI[of _ "[0]"]) (auto simp: Bits_ToRawDigits_def)
next
  case False
  let ?n = "bit_count b" and ?v = "uval b"
  have bv: "b = mk_bits ?n ?v" and v: "?v < 2 ^ ?n" using bm_inv_eq_mk_bits[OF b] b by (auto simp: bm_inv_def)
  have dw: "dw = 1 \<or> dw = 4" using f by auto
  define c where "c = (?n + dw - 1) div dw"
  have c: "CeilOfRatio (int ?n) (int dw) = Some (int c)" using CeilOfRatio_nat[of dw ?n] dw by (auto simp: c_def)
  have k: "k * dw < ?n" if "k < c" for k using that dw False by (auto simp: c_def)
  have big: "?n \<le> c * dw" using dw by (auto simp: c_def)
  define sep where "sep = (\<not> (f = kPlainBinary \<or> f = kPlainHex))"
  have "\<exists>st. for_state (raw_digit b sep dw) (rev [0..<m]) st0 = Some st \<and> printed dw ?v 0 st" if "printed dw ?v m st0" "m \<le> c" for m st0
    using that
  proof (induction m arbitrary: st0)
    case (Suc m)
    obtain st where "raw_digit (mk_bits ?n ?v) sep dw m st0 = Some st" "printed dw ?v m st"
      using raw_digit_ok[OF dw v k[of m], of st0 sep] Suc.prems by auto
    then show ?case using Suc.IH[of st] Suc.prems bv by simp
  qed simp
  moreover have "printed dw ?v c ([], \<not> lead)"
  proof -
    have "?v < 2 ^ (c * dw)" using less_le_trans[OF v power_increasing[OF big]] by simp
    moreover have "c \<noteq> 0" using False big by (cases c) auto
    ultimately show ?thesis by (auto simp: printed_def intro!: exI[of _ "[]"])
  qed
  ultimately obtain result e where st: "for_state (raw_digit b sep dw) (rev [0..<c]) ([], \<not> lead) = Some (result, e)"
    "printed dw ?v 0 (result, e)" by (metis order_refl prod.exhaust)
  moreover have "Bits_ToRawDigits b f lead = Some result"
    using f False c st(1) by (auto simp: Bits_ToRawDigits_def Let_def sep_def)
  moreover obtain ds where "filter (\<lambda>c. c \<noteq> CHR ''_'') result = map hex_char ds" "\<forall>d \<in> set ds. d < 2 ^ dw"
    "digits_from (2 ^ dw) 0 ds = ?v" "ds \<noteq> []" using st(2) by (auto simp: printed_def)
  ultimately show ?thesis by blast
qed

section \<open>Round trips\<close>

lemma GetSignAndMagnitude_prefixed:
  assumes "bignum_ok L val" "filter (\<lambda>c. c \<noteq> CHR ''_'') s = map hex_char ds" "ds \<noteq> []"
    "p = CHR ''b'' \<and> base = 2 \<or> p = CHR ''x'' \<and> base = 16" "\<forall>d \<in> set ds. d < base"
  shows "GetSignAndMagnitude L (CHR ''0'' # p # s) =
    Some (Inr (False, mk_bits (num_bits (digits_from base 0 ds)) (digits_from base 0 ds)))"
  using assms(4) ParseUnsignedNumberHelper_digits[OF assms(1-3) _ assms(5)] by (auto simp: GetSignAndMagnitude_def)

lemma GetSignAndMagnitude_decimal:
  assumes "bignum_ok L val"
  shows "GetSignAndMagnitude L (nat_string v) = Some (Inr (False, mk_bits (num_bits v) v))"
    "GetSignAndMagnitude L (CHR ''-'' # nat_string v) = Some (Inr (True, mk_bits (num_bits v) v))"
proof -
  obtain ds where ds: "nat_string v = map hex_char ds" "ds \<noteq> []" "\<forall>d \<in> set ds. d < 10" "digits_from 10 0 ds = v"
    "2 \<le> length ds \<longrightarrow> hd ds \<noteq> 0" using nat_string_digits by blast
  have d16: "\<forall>d \<in> set ds. d < 16" using ds(3) by auto
  then have fil: "filter (\<lambda>c. c \<noteq> CHR ''_'') (nat_string v) = map hex_char ds" unfolding ds(1) by (rule filter_hex)
  have "\<not> (2 \<le> length (nat_string v) \<and> nat_string v ! 0 = CHR ''0'')"
    using ds(2,5) d16 hd_in_set[OF ds(2)] by (auto simp: ds(1) hd_conv_nth)
  moreover have "hd (nat_string v) \<noteq> CHR ''-''" using ds(2) d16 by (simp add: ds(1) hd_map)
  moreover have "nat_string v \<noteq> []" using ds(1,2) by simp
  ultimately show "GetSignAndMagnitude L (nat_string v) = Some (Inr (False, mk_bits (num_bits v) v))"
    "GetSignAndMagnitude L (CHR ''-'' # nat_string v) = Some (Inr (True, mk_bits (num_bits v) v))"
    using ParseUnsignedNumberHelper_digits[OF assms fil ds(2) _ ds(3)] ds(4) by (auto simp: GetSignAndMagnitude_def Let_def)
qed

lemma uval_fits: "v < 2 ^ num_bits v"
  using num_bits_le_iff[of v "num_bits v"] by simp

lemma ToString_magnitude:
  assumes ok: "bignum_ok L val" and b: "bm_inv b"
    and f: "f = kBinary \<or> f = kHex \<or> f = kDefault \<or> f = kUnsignedDecimal \<and> uval b < 2 ^ 64"
  shows "\<exists>s. Bits_ToString b f False = Some s \<and>
    GetSignAndMagnitude L s = Some (Inr (False, mk_bits (num_bits (uval b)) (uval b)))"
proof -
  define g where "g = (if f = kDefault then if bit_count b \<le> 64 then kUnsignedDecimal else kHex else f)"
  have bv: "b = mk_bits (bit_count b) (uval b)" and v: "uval b < 2 ^ bit_count b"
    using bm_inv_eq_mk_bits[OF b] b by (auto simp: bm_inv_def)
  have "bit_count b \<le> 64 \<Longrightarrow> uval b < 2 ^ 64" using less_le_trans[OF v power_increasing[of "bit_count b" 64 2]] by simp
  then consider (dec) "g = kUnsignedDecimal" "uval b < 2 ^ 64" | (bin) "g = kBinary" | (hex) "g = kHex"
    using f by (cases "bit_count b \<le> 64") (auto simp: g_def)
  then show ?thesis
  proof cases
    case dec
    have u: "Bits_FitsInUint64 (mk_bits n w) = Some (take_bit n w < 2 ^ 64)" for n w by (simp add: Bits_FitsInUint64_def)
    have d: "Bits_ToRawDigits b kUnsignedDecimal False = Some (nat_string (uval b))"
      unfolding Bits_ToRawDigits_def by (subst (1 2) bv)
        (use dec v in \<open>simp add: u Bits_ToUint64_eq take_bit_nat_eq_self unat_of_nat\<close>)
    then have "Bits_ToString b f False = Some (nat_string (uval b))"
      unfolding Bits_ToString_def g_def[symmetric] Let_def by (simp add: dec)
    then show ?thesis using GetSignAndMagnitude_decimal(1)[OF ok] by blast
  next
    case bin
    obtain s ds where s: "Bits_ToRawDigits b kBinary False = Some s" "filter (\<lambda>c. c \<noteq> CHR ''_'') s = map hex_char ds"
      "ds \<noteq> []" "\<forall>d \<in> set ds. d < 2" "digits_from 2 0 ds = uval b" using ToRawDigits_ok[OF b, of kBinary 1 False] by auto
    have "Bits_ToString b f False = Some (CHR ''0'' # CHR ''b'' # s)"
      unfolding Bits_ToString_def g_def[symmetric] Let_def by (simp add: bin s)
    then show ?thesis using GetSignAndMagnitude_prefixed[OF ok s(2,3) _ s(4), of "CHR ''b''"] s(5) by auto
  next
    case hex
    obtain s ds where s: "Bits_ToRawDigits b kHex False = Some s" "filter (\<lambda>c. c \<noteq> CHR ''_'') s = map hex_char ds"
      "ds \<noteq> []" "\<forall>d \<in> set ds. d < 16" "digits_from 16 0 ds = uval b" using ToRawDigits_ok[OF b, of kHex 4 False] by auto
    have "Bits_ToString b f False = Some (CHR ''0'' # CHR ''x'' # s)"
      unfolding Bits_ToString_def g_def[symmetric] Let_def by (simp add: hex s)
    then show ?thesis using GetSignAndMagnitude_prefixed[OF ok s(2,3) _ s(4), of "CHR ''x''"] s(5) by auto
  qed
qed

lemma ParseNumber_nonneg:
  "GetSignAndMagnitude L s = Some (Inr (False, mk_bits n v)) \<Longrightarrow> ParseNumber L s = Some (Inr (mk_bits n v))"
  by (simp add: ParseNumber_def)

lemma leading_ones_from_eq:
  assumes "k \<le> i" "i \<le> n" "\<And>j. k \<le> j \<Longrightarrow> j < i \<Longrightarrow> bit v j" "k = 0 \<or> \<not> bit v (k - 1)"
  shows "leading_ones_from (mk_bits n v) i c = Some (c + (i - k))"
  using assms
proof (induction i arbitrary: c)
  case (Suc i)
  show ?case
  proof (cases "k = Suc i")
    case True
    then show ?thesis using Suc.prems by auto
  next
    case False
    then show ?thesis using Suc.prems Suc.IH[of "c + 1"] by (simp add: Suc_diff_le)
  qed
qed simp

lemma ParseNumber_negative:
  assumes ok: "bignum_ok L val" and g: "GetSignAndMagnitude L s = Some (Inr (True, mk_bits (num_bits v) v))" and v: "0 < v"
  shows "ParseNumber L s = Some (Inr (mk_int (num_bits_signed (- int v)) (- int v)))"
proof -
  let ?w = "num_bits v" and ?k = "num_bits (v - 1)"
  have w: "v < 2 ^ ?w" "v - 1 < 2 ^ ?k" by (rule uval_fits)+
  have k: "?k \<le> ?w" using w(1) by (simp add: num_bits_le_iff)
  let ?r = "mk_int (?w + 1) (- int v)"
  have neg: "- int v = NOT (int (v - 1))" using v by (simp add: not_int_def)
  have bits: "bit (uval ?r) j \<longleftrightarrow> j < ?w + 1 \<and> \<not> bit (v - 1) j" for j
    unfolding mk_int_def neg using bit_of_nat_iff[where ?'a = int, of "v - 1" j]
    by (auto simp: bit_take_bit_iff bit_nat_iff bit_not_iff)
  have r: "?r = mk_bits (?w + 1) (uval ?r)" using bm_inv_eq_mk_bits[of ?r] by simp
  have "leading_ones_from ?r (?w + 1) 0 = Some (0 + (?w + 1 - ?k))"
  proof (subst r, rule leading_ones_from_eq)
    fix j assume "?k \<le> j" "j < ?w + 1"
    then show "bit (uval ?r) j" unfolding bits using w(2) bit_nat_less_iff[of "v - 1" ?k] by auto
  next
    show "?k = 0 \<or> \<not> bit (uval ?r) (?k - 1)"
    proof (cases "?k = 0")
      case False
      then have "0 < v - 1" by (cases "v - 1 = 0") (simp_all add: num_bits.simps)
      then have "bit (v - 1) (?k - 1)" using num_bits_bounds[of "v - 1"] bit_top[of "?k - 1" "v - 1"] by simp
      then show ?thesis unfolding bits by simp
    qed simp
  qed (use k in auto)
  moreover have "Bits_Slice ?r 0 (?k + 1) = Some (mk_int (?k + 1) (- int v))" using slice_low[of "?k + 1" "?w + 1"] k by simp
  moreover have "?w + 1 - (?w + 1 - ?k) + 1 = ?k + 1" using k by simp
  moreover have "num_bits_signed (- int v) = ?k + 1"
    using v by (simp add: num_bits_signed_def nat_diff_distrib)
  moreover have "bits_ops_Negate L (mk_bits (?w + 1) v) = Some ?r" by (rule bits_ops_Negate_eq[OF ok])
  ultimately show ?thesis using w(1) v k
    by (simp add: ParseNumber_def g take_bit_nat_eq_self)
qed

lemma ToString_signed:
  assumes ok: "bignum_ok L val" and b: "bm_inv b" and r: "- (2 ^ 63) \<le> sval b" "sval b < 2 ^ 63"
  shows "Bits_ToString b kSignedDecimal False = Some (int_string (sval b))"
proof -
  have bv: "b = mk_bits (bit_count b) (uval b)" using bm_inv_eq_mk_bits[OF b] .
  have "sint (word_of_int (sval b) :: u64) = sval b" using r sint_word_of_int_64 by blast
  moreover have "Bits_ToInt64 b = Some (Inr (word_of_int (sval b)))" using Bits_ToInt64_eq[of "bit_count b" "uval b"] bv r by simp
  moreover have "Bits_FitsInInt64 b = Some True" 
    using Bits_FitsInNBitsSigned_eq[of "bit_count b" "uval b" 64] bv r by (simp add: Bits_FitsInInt64_def)
  ultimately show ?thesis by (simp add: Bits_ToString_def Bits_ToRawDigits_def)
qed

lemma int_string_parse:
  assumes "bignum_ok L val"
  shows "GetSignAndMagnitude L (int_string x) = Some (Inr (x < 0, mk_bits (num_bits (nat \<bar>x\<bar>)) (nat \<bar>x\<bar>)))"
  using GetSignAndMagnitude_decimal[OF assms, of "nat \<bar>x\<bar>"] by (auto simp: int_string_def)

lemma ParseNumber_int_string:
  assumes ok: "bignum_ok L val"
  shows "ParseNumber L (int_string x) = Some (Inr (if x < 0 then mk_int (num_bits_signed x) x else mk_bits (num_bits (nat x)) (nat x)))"
proof (cases "x < 0")
  case True
  then show ?thesis using ParseNumber_negative[OF ok, of "int_string x" "nat (- x)"] int_string_parse[OF ok, of x] by simp
next
  case False
  then show ?thesis using ParseNumber_nonneg[of L "int_string x"] int_string_parse[OF ok, of x] by simp
qed

lemma ParseNumberAsUint64_nat_string:
  assumes ok: "bignum_ok L val"
  shows "ParseNumberAsUint64 L (nat_string v) = Some (if v < 2 ^ 64 then Inr (of_nat v) else Inl InvalidArgumentError)"
proof -
  have "num_bits v \<le> 64 \<longleftrightarrow> v < 2 ^ 64" by (rule num_bits_le_iff)
  then show ?thesis using uval_fits[of v]
    by (auto simp: ParseNumberAsUint64_def GetSignAndMagnitude_decimal[OF ok] Bits_ToUint64_eq take_bit_nat_eq_self)
qed

lemma popcount_one: "card {i. i < n \<and> bit v i} = 1 \<longleftrightarrow> (\<exists>k. take_bit n v = 2 ^ k)" for v :: nat
proof -
  have "Bits_IsPowerOfTwo (mk_bits n v) = Some (card {i. i < n \<and> bit v i} = 1)" by (simp add: Bits_IsPowerOfTwo_def del: Bits_IsPowerOfTwo_eq)
  then show ?thesis by simp
qed

lemma ParseNumberAsInt64_int_string:
  assumes ok: "bignum_ok L val"
  shows "ParseNumberAsInt64 L (int_string x) =
    Some (if - (2 ^ 63) \<le> x \<and> x < 2 ^ 63 then Inr (word_of_int x) else Inl InvalidArgumentError)"
proof -
  let ?m = "nat \<bar>x\<bar>" let ?w = "num_bits ?m"
  have m: "?m < 2 ^ ?w" by (rule uval_fits)
  have le: "?w \<le> 63 \<longleftrightarrow> ?m < 2 ^ 63" "?w \<le> 64 \<longleftrightarrow> ?m < 2 ^ 64" by (rule num_bits_le_iff)+
  show ?thesis
  proof (cases "x < 0")
    case False
    have "sval (mk_bits 64 ?m) = x" if "?m < 2 ^ 63"
      using sval_mk_int_exact[of 64 x] that False mk_int_of_nat[of 64 ?m] by simp
    then show ?thesis using False le m
      by (auto simp: ParseNumberAsInt64_def int_string_parse[OF ok] take_bit_nat_eq_self Bits_ToInt64_eq)
  next
    case True
    note neg = this
    show ?thesis
    proof (cases "?w \<le> 63")
      case True
      then have x: "- (2 ^ 63) < x" "take_bit ?w ?m = ?m" using le m by (auto simp: take_bit_nat_eq_self)
      have n: "bits_ops_Negate L (mk_bits 64 ?m) = Some (mk_int 64 x)" using bits_ops_Negate_eq[OF ok, of 64 ?m] neg by simp
      have s: "sval (mk_int 64 x) = x" using sval_mk_int_exact[of 64 x] x neg by simp
      have "Bits_ToInt64 (mk_int 64 x) = Some (Inr (word_of_int x))"
        using Bits_ToInt64_eq[of 64 "uval (mk_int 64 x)"] bm_inv_eq_mk_bits[of "mk_int 64 x"] s x neg by simp
      then show ?thesis using True neg n x by (simp add: ParseNumberAsInt64_def int_string_parse[OF ok])
    next
      case False
      then have big: "2 ^ 63 \<le> ?m" using le by simp
      have tb: "take_bit ?w ?m = ?m" using m by (simp add: take_bit_nat_eq_self)
      have c1: "card {i. i < ?w \<and> bit ?m i} = 1 \<longleftrightarrow> (\<exists>k. ?m = 2 ^ k)" using popcount_one[of ?w ?m] tb by simp
      have c2: "(?w = 64 \<and> (\<exists>k. ?m = 2 ^ k)) \<longleftrightarrow> ?m = 2 ^ 63"
      proof
        assume a: "?w = 64 \<and> (\<exists>k. ?m = 2 ^ k)"
        then obtain k where k: "?m = 2 ^ k" by blast
        have "(2 :: nat) ^ 63 \<le> 2 ^ k" using big unfolding k .
        moreover have "?m < 2 ^ 64" using a le(2) by simp
        then have "(2 :: nat) ^ k < 2 ^ 64" unfolding k .
        ultimately have "k = 63" using power_le_imp_le_exp[of "2 :: nat" 63 k] power_less_imp_less_exp[of "2 :: nat" k 64] by simp
        then show "?m = 2 ^ 63" using k by simp
      next
        assume m63: "?m = 2 ^ 63"
        then have "?m < 2 ^ 64" by simp
        then have "?w = 64" using le(2) False by linarith
        then show "?w = 64 \<and> (\<exists>k. ?m = 2 ^ k)" using m63 by blast
      qed
      have c3: "?w = 64 \<Longrightarrow> bit ?m (?w - 1)" using num_bits_bounds[of ?m] big bit_top[of "?w - 1" ?m] by simp
      have c4: "?m = 2 ^ 63 \<longleftrightarrow> x = - (2 ^ 63)" using neg by auto
      have iff: "?w = 64 \<and> (?w \<noteq> 0 \<and> bit ?m (?w - 1)) \<and> card {i. i < ?w \<and> bit ?m i} = 1 \<longleftrightarrow> x = - (2 ^ 63)"
        using c1 c2 c3 c4 by auto
      have "ParseNumberAsInt64 L (int_string x) = Some (if x = - (2 ^ 63) then Inr (push_bit 63 1) else Inl InvalidArgumentError)"
        using False neg by (simp only: ParseNumberAsInt64_def int_string_parse[OF ok] or_return_simps case_prod_conv mk_bits_fields
          Bits_msb_eq Bits_PopCount_eq bind.bind_lunit iff) simp
      moreover have "- (2 ^ 63) \<le> x \<longleftrightarrow> x = - (2 ^ 63)" using neg big by auto
      ultimately show ?thesis using neg by (simp add: push_bit_eq_mult)
    qed
  qed
qed

section \<open>Every text\<close>

lemma char_to_digit_cases:
  assumes "base = 2 \<or> base = 16"
  shows "char_to_digit base c = Some (Inl InvalidArgumentError) \<or> (\<exists>d. char_to_digit base c = Some (Inr d) \<and> unat d < nat base)"
proof -
  have fin: "(if word_of_int base \<le> d then Some (Inl InvalidArgumentError) else Some (Inr d)) = Some (Inl InvalidArgumentError) \<or>
      (\<exists>d'. (if word_of_int base \<le> d then Some (Inl InvalidArgumentError) else Some (Inr d)) = Some (Inr d') \<and> unat d' < nat base)"
    for d :: u64 using assms by (cases "word_of_int base \<le> d") (auto simp: word_le_nat_alt)
  from assms show ?thesis
  proof
    assume b: "base = 2"
    show ?thesis using fin[of "word_of_int (char_value c - 48)"] unfolding b char_to_digit_def
      by (simp only: simp_thms if_True bind.bind_lunit sum.case)
  next
    assume b: "base = 16"
    consider "97 \<le> char_value c \<and> char_value c \<le> 102" | "\<not> (97 \<le> char_value c \<and> char_value c \<le> 102)" "65 \<le> char_value c \<and> char_value c \<le> 70"
      | "\<not> (97 \<le> char_value c \<and> char_value c \<le> 102)" "\<not> (65 \<le> char_value c \<and> char_value c \<le> 70)" "48 \<le> char_value c \<and> char_value c \<le> 57"
      | "\<not> (97 \<le> char_value c \<and> char_value c \<le> 102)" "\<not> (65 \<le> char_value c \<and> char_value c \<le> 70)" "\<not> (48 \<le> char_value c \<and> char_value c \<le> 57)"
      by blast
    then show ?thesis
      using fin[of "word_of_int (char_value c - 97 + 10)"] fin[of "word_of_int (char_value c - 65 + 10)"]
        fin[of "word_of_int (char_value c - 48)"]
      unfolding b char_to_digit_def
      by cases (simp_all only: simp_thms if_True if_False bind.bind_lunit sum.case num.simps numeral_eq_iff)
  qed
qed

lemma unat_step_128:
  assumes "base = 2 \<or> base = 16" "unat (accum :: 128 word) < 2 ^ 64" "unat (d :: u64) < nat base"
  shows "unat (accum * word_of_int base + ucast d) = unat accum * nat base + unat d"
proof -
  have b: "unat (word_of_int base :: 128 word) = nat base" using assms(1) by auto
  have "unat accum * nat base + unat d < 2 ^ 64 * 16 + 16" using assms by auto
  then have "unat accum * nat base + unat d < 2 ^ 128" by simp
  moreover have "unat d < 2 ^ 128" using assms(1,3) by auto
  then have "unat (ucast d :: 128 word) = unat d" by (simp add: unsigned_ucast_eq take_bit_nat_eq_self)
  ultimately show ?thesis using b by (simp add: unat_word_ariths)
qed

lemma scan_digits_cases:
  assumes "base = 2 \<or> base = 16" "unat accum < 2 ^ 64"
  shows "scan_digits base s accum = Some (Inl InvalidArgumentError) \<or>
    (\<exists>r. scan_digits base s accum = Some (Inr r) \<and> unat r < 2 ^ 64 \<and> unat r < (unat accum + 1) * nat base ^ length s)"
  using assms(2)
proof (induction s arbitrary: accum)
  case (Cons c s)
  consider (err) "char_to_digit base c = Some (Inl InvalidArgumentError)" | (ok) d where "char_to_digit base c = Some (Inr d)" "unat d < nat base"
    using char_to_digit_cases[OF assms(1)] by blast
  then show ?case
  proof cases
    case (ok d)
    let ?a = "accum * word_of_int base + ucast d :: 128 word"
    have a: "unat ?a = unat accum * nat base + unat d" by (rule unat_step_128[OF assms(1) Cons.prems ok(2)])
    show ?thesis
    proof (cases "drop_bit 64 ?a = 0")
      case True
      then have "unat ?a div 2 ^ 64 = 0" by (metis drop_bit_eq_div unat_drop_bit_eq unat_0)
      then have lt: "unat ?a < 2 ^ 64" by (simp add: div_eq_0_iff)
      have "(unat ?a + 1) * nat base ^ length s \<le> (unat accum + 1) * nat base * nat base ^ length s"
        using a ok(2) by (intro mult_right_mono) (auto simp: algebra_simps)
      then have "r < (unat ?a + 1) * nat base ^ length s \<Longrightarrow> r < (unat accum + 1) * nat base ^ length (c # s)" for r
        by (simp add: algebra_simps)
      then show ?thesis using Cons.IH[OF lt] ok True by (auto simp: Let_def)
    next
      case False
      then show ?thesis using ok by (simp add: Let_def)
    qed
  qed simp
qed simp

lemma StrTo64Base_cases:
  assumes b: "base = 2 \<and> bb = 1 \<or> base = 16 \<and> bb = (4 :: nat)" and s: "CHR ''-'' \<notin> set s" and len: "s \<noteq> []"
  shows "\<exists>r. StrTo64Base s base = Some r \<and> (\<forall>v. r = Inr v \<longrightarrow> unat v < 2 ^ (length s * bb))"
proof (cases "s = ''0''")
  case True
  then show ?thesis by (simp add: StrTo64Base_def)
next
  case False
  define p where "p = (if base = 16 then ''0x'' else ''0b'')"
  define t where "t = snd (ConsumePrefix s p)"
  have t: "length t \<le> length s" by (auto simp: t_def ConsumePrefix_def)
  have neg: "ConsumePrefix s ''-'' = (False, s)" using s len by (cases s) (auto simp: ConsumePrefix_def)
  have "s \<noteq> ''-0''" using s by auto
  then have eq: "StrTo64Base s base = (if t = [] then Some (Inl InvalidArgumentError)
      else or_return (scan_digits base t 0) (\<lambda>accum. Some (Inr (ucast accum))))"
    using False b neg by (auto simp: StrTo64Base_def t_def p_def)
  have base: "nat base = 2 ^ bb" using b by auto
  have "unat (ucast r :: u64) < 2 ^ (length s * bb)" if "unat (r :: 128 word) < 2 ^ 64" "unat r < nat base ^ length t" for r
  proof -
    have "unat (ucast r :: u64) = unat r" using that(1) by (simp add: unsigned_ucast_eq take_bit_nat_eq_self)
    also have "\<dots> < 2 ^ (length t * bb)" using that(2) by (simp add: base power_mult[symmetric] ac_simps)
    also have "\<dots> \<le> 2 ^ (length s * bb)" using t by (intro power_increasing) auto
    finally show ?thesis .
  qed
  moreover have "base = 2 \<or> base = 16" using b by auto
  ultimately show ?thesis using scan_digits_cases[of base 0 t] eq by auto
qed

lemma parse_chunks_total:
  assumes b: "base = 2 \<and> bb = 1 \<or> base = 16 \<and> bb = 4" and s: "CHR ''-'' \<notin> set s"
  shows "(\<forall>c \<in> set chunks. bm_inv c) \<Longrightarrow>
    \<exists>r. parse_chunks s base bb i chunks = Some r \<and> (\<forall>cs. r = Inr cs \<longrightarrow> (\<forall>c \<in> set cs. bm_inv c))"
proof (induction "length s - i" arbitrary: i chunks rule: less_induct)
  case less
  show ?case
  proof (cases "i < length s")
    case True
    let ?step = "64 div bb" let ?len = "min ?step (length s - i)" let ?t = "take ?len (drop i s)"
    have step: "0 < ?step" using b by auto
    have "?t \<noteq> []" "CHR ''-'' \<notin> set ?t" "length ?t = ?len" using True step s by (auto dest!: in_set_takeD in_set_dropD)
    then obtain r where r: "StrTo64Base ?t base = Some r" "\<forall>v. r = Inr v \<longrightarrow> unat v < 2 ^ (?len * bb)"
      using StrTo64Base_cases[OF b, of ?t] by metis
    show ?thesis
    proof (cases r)
      case (Inl e)
      then show ?thesis using True r(1) by (subst parse_chunks.simps) (simp add: Let_def)
    next
      case (Inr v)
      let ?c = "mk_bits (?len * bb) (unat v)"
      have "UBits v (?len * bb) = Some ?c" using r(2) Inr by simp
      moreover obtain r' where "parse_chunks s base bb (i + ?step) (chunks @ [?c]) = Some r'"
        "\<forall>cs. r' = Inr cs \<longrightarrow> (\<forall>c \<in> set cs. bm_inv c)"
        using less(1)[of "i + ?step" "chunks @ [?c]", OF diff_less_mono2] less(2) True step by auto
      ultimately show ?thesis using True r(1) Inr by (subst parse_chunks.simps) (simp add: Let_def del: UBits_eq)
    qed
  next
    case False
    then show ?thesis using less(2) by (subst parse_chunks.simps) auto
  qed
qed

lemma parse_decimal_total:
  assumes ok: "bignum_ok L val"
  shows "a < 2 ^ w \<Longrightarrow> \<exists>r. parse_decimal L (mk_bits 8 10) s (mk_bits w a) = Some r \<and> (\<forall>b. r = Inr b \<longrightarrow> bm_inv b)"
proof (induction s arbitrary: a w)
  case (Cons c s)
  have m: "bits_ops_UMul L (mk_bits w a) (mk_bits 8 10) = Some (mk_bits (w + 8) (a * 10))"
    using bits_ops_UMul_eq[OF ok, of w a 8 10] Cons.prems by (simp add: take_bit_eq_mod)
  show ?case
  proof (cases "SimpleAtoi_char c")
    case (Some d)
    then obtain k where k: "k < 10" "d = of_nat k"
      by (auto simp: SimpleAtoi_char_def split: if_splits intro!: that[of "nat (char_value c - 48)"])
    have "k < 2 ^ (w + 8)" 
      using less_le_trans[OF k(1), of "2 ^ 8"] power_increasing[of 8 "w + 8" "2 :: nat"] by simp
    then have u: "UBits d (w + 8) = Some (mk_bits (w + 8) k)" using k by (simp add: unat_of_nat take_bit_nat_eq_self)
    let ?v = "take_bit (w + 8) (a * 10 + k)"
    have "mk_bits (num_bits ?v) (a * 10 + k) = mk_bits (num_bits ?v) ?v"
      using num_bits_take_bit[of "w + 8" "a * 10 + k"] by (simp add: mk_bits_eq_iff min_absorb1)
    then show ?thesis using Some m u Cons.IH[OF uval_fits[of ?v]] by (simp add: bits_ops_Add_eq[OF ok] del: UBits_eq)
  qed (use m in simp)
qed simp

lemma narrow_parsed_total: "bm_inv b \<Longrightarrow> \<exists>r. narrow_parsed b kMinimumBitCount = Some r \<and> bm_inv r"
proof -
  assume "bm_inv b"
  then obtain n v where b: "b = mk_bits n v" using bm_inv_eq_mk_bits by blast
  show ?thesis unfolding b narrow_parsed_minimal by simp
qed

lemma ParseUnsignedNumberHelper_total:
  assumes ok: "bignum_ok L val" and s: "CHR ''-'' \<notin> set s"
  shows "\<exists>r. ParseUnsignedNumberHelper L s f kMinimumBitCount = Some r \<and> (\<forall>b. r = Inr b \<longrightarrow> bm_inv b)"
proof -
  let ?s = "filter (\<lambda>c. c \<noteq> CHR ''_'') s"
  have d: "\<exists>r. parse_decimal L (mk_bits 8 10) ?s (mk_bits 32 0) = Some r \<and> (\<forall>b. r = Inr b \<longrightarrow> bm_inv b)"
    by (rule parse_decimal_total[OF ok]) simp
  have "\<exists>r. or_return (parse_chunks ?s base bb 0 []) (\<lambda>chunks. do { u \<leftarrow> bits_ops_Concat chunks;
      r \<leftarrow> narrow_parsed u kMinimumBitCount; Some (Inr r) }) = Some r \<and> (\<forall>b. r = Inr b \<longrightarrow> bm_inv b)"
    if b: "base = 2 \<and> bb = 1 \<or> base = 16 \<and> bb = 4" for base bb
  proof -
    obtain r where r: "parse_chunks ?s base bb 0 [] = Some r" "\<forall>cs. r = Inr cs \<longrightarrow> (\<forall>c \<in> set cs. bm_inv c)"
      using parse_chunks_total[OF b, of ?s "[]" 0] s by auto
    show ?thesis
    proof (cases r)
      case (Inr cs)
      let ?u = "mk_bits (sum_list (map bit_count cs)) (concat_nat cs)"
      obtain n where "narrow_parsed ?u kMinimumBitCount = Some n" "bm_inv n" using narrow_parsed_total[of ?u] by auto
      then show ?thesis using r Inr bits_ops_Concat_eq[of cs] by simp
    qed (use r in simp)
  qed
  from this[of 2 1] this[of 16 4] show ?thesis using d
    by (cases f) (auto simp: ParseUnsignedNumberHelper_def Let_def)
qed

lemma GetSignAndMagnitude_total:
  assumes ok: "bignum_ok L val" and s: "CHR ''-'' \<notin> set (tl s)"
  shows "\<exists>r. GetSignAndMagnitude L s = Some r \<and> (\<forall>neg b. r = Inr (neg, b) \<longrightarrow> bm_inv b)"
proof (cases "s = []")
  case False
  define t where "t = (if hd s = CHR ''-'' then tl s else s)"
  have t: "CHR ''-'' \<notin> set t" using s False by (cases s) (auto simp: t_def)
  have "CHR ''-'' \<notin> set (drop 2 t)" using t by (auto dest: in_set_dropD)
  then obtain r1 r2 r3 where "ParseUnsignedNumberHelper L (drop 2 t) kBinary kMinimumBitCount = Some r1" "\<forall>b. r1 = Inr b \<longrightarrow> bm_inv b"
    "ParseUnsignedNumberHelper L (drop 2 t) kHex kMinimumBitCount = Some r2" "\<forall>b. r2 = Inr b \<longrightarrow> bm_inv b"
    "ParseUnsignedNumberHelper L t kUnsignedDecimal kMinimumBitCount = Some r3" "\<forall>b. r3 = Inr b \<longrightarrow> bm_inv b"
    using ParseUnsignedNumberHelper_total[OF ok] t by metis
  then show ?thesis using False
    by (cases r1; cases r2; cases r3) (auto simp: GetSignAndMagnitude_def t_def[symmetric] Let_def)
qed (simp add: GetSignAndMagnitude_def)

lemma leading_ones_from_total:
  "i \<le> n \<Longrightarrow> \<exists>k. leading_ones_from (mk_bits n v) i c = Some k \<and> k \<le> c + i"
proof (induction i arbitrary: c)
  case (Suc i)
  then show ?case using Suc.IH[of "c + 1"] by auto
qed simp

lemma bm_inv_mk_bitsE:
  assumes "bm_inv b"
  obtains n v where "b = mk_bits n v" "v < 2 ^ n"
  using bm_inv_eq_mk_bits[OF assms] assms by (auto simp: bm_inv_def)

lemma parsers_total:
  assumes ok: "bignum_ok L val" and s: "CHR ''-'' \<notin> set (tl s)"
  shows "\<exists>r. ParseNumber L s = Some r" "\<exists>r. ParseNumberAsUint64 L s = Some r" "\<exists>r. ParseNumberAsInt64 L s = Some r"
proof -
  obtain r where r: "GetSignAndMagnitude L s = Some r" "\<forall>neg b. r = Inr (neg, b) \<longrightarrow> bm_inv b"
    using GetSignAndMagnitude_total[OF assms] by blast
  have "(\<exists>r. ParseNumber L s = Some r) \<and> (\<exists>r. ParseNumberAsUint64 L s = Some r) \<and> (\<exists>r. ParseNumberAsInt64 L s = Some r)"
  proof (cases r)
    case (Inl e)
    then show ?thesis using r(1) by (simp add: ParseNumber_def ParseNumberAsUint64_def ParseNumberAsInt64_def)
  next
    case (Inr p)
    then obtain neg b where p: "r = Inr (neg, b)" by (cases p) auto
    then obtain n v where b: "b = mk_bits n v" "v < 2 ^ n" using r(2) bm_inv_mk_bitsE by blast
    note g = r(1)[unfolded p b]
    have u: "\<exists>r. ParseNumberAsUint64 L s = Some r" using g by (simp add: ParseNumberAsUint64_def Bits_ToUint64_eq)
    have neg64: "bits_ops_Negate L (mk_bits 64 w) = Some (mk_bits 64 (uval (mk_int 64 (- int w))))" for w
      using bits_ops_Negate_eq[OF ok, of 64 w] bm_inv_eq_mk_bits[of "mk_int 64 (- int w)"] by simp
    have i: "\<exists>r. ParseNumberAsInt64 L s = Some r"
      using g by (auto simp: ParseNumberAsInt64_def Bits_ToInt64_eq neg64)
    let ?r = "mk_int (n + 1) (- int v)" let ?x = "mk_bits (n + 1) (uval ?r)"
    have neg: "bits_ops_Negate L (mk_bits (n + 1) v) = Some ?x"
      using bits_ops_Negate_eq[OF ok, of "n + 1" v] bm_inv_eq_mk_bits[of ?r] by simp
    obtain k where k: "leading_ones_from ?x (n + 1) 0 = Some k" "k \<le> n + 1" using leading_ones_from_total[of "n + 1" "n + 1"] by force
    have "\<exists>r. ParseNumber L s = Some r" using g b(2) neg k by (auto simp: ParseNumber_def take_bit_nat_eq_self)
    then show ?thesis using u i by blast
  qed
  then show "\<exists>r. ParseNumber L s = Some r" "\<exists>r. ParseNumberAsUint64 L s = Some r" "\<exists>r. ParseNumberAsInt64 L s = Some r" by blast+
qed

lemma hex_minus_aborts: "ParseNumber L ''0x-1'' = None"
proof -
  have d: "char_to_digit 16 (CHR ''1'') = Some (Inr 1)" by (simp add: char_to_digit_def char_value_def word_le_nat_alt)
  have "(ucast (- 1 :: 128 word) :: u64) = - 1" by (rule bit_word_eqI) (simp add: bit_simps)
  then have "StrTo64Base ''-1'' 16 = Some (Inr (- 1))"
    by (simp add: StrTo64Base_def ConsumePrefix_def d Let_def)
  moreover have "unat (- 1 :: u64) = 2 ^ 64 - 1" by (simp add: unsigned_minus_1_eq_mask mask_eq_exp_minus_1)
  ultimately have "parse_chunks ''-1'' 16 4 0 [] = None" by (subst parse_chunks.simps) (simp add: Let_def)
  then show ?thesis by (simp add: ParseNumber_def GetSignAndMagnitude_def ParseUnsignedNumberHelper_def Let_def)
qed

lemma bool_zero_aborts:
  assumes "bignum_ok L val"
  shows "ParseNumberAsBool L ''0'' = None" "ParseNumber L ''0'' = Some (Inr (mk_bits 0 0))"
proof -
  have n: "nat_string 0 = ''0''" using hex_char_dec[of 0] by (subst nat_string.simps) simp
  have g: "GetSignAndMagnitude L ''0'' = Some (Inr (False, mk_bits 0 0))"
    using GetSignAndMagnitude_decimal(1)[OF assms, of 0] unfolding n by (simp add: num_bits.simps)
  then show "ParseNumberAsBool L ''0'' = None" "ParseNumber L ''0'' = Some (Inr (mk_bits 0 0))"
    by (simp_all add: ParseNumberAsBool_def ParseNumber_def)
qed

end
