(* ===== verification/IrValue.thy ===== *)
theory IrValue
  imports IrType NumberText
begin

text \<open>
  \<open>xls/ir/value.h\<close>, \<open>value.cc\<close>, \<open>value_helpers.h\<close> and \<open>value_helpers.cc\<close>: the values of the IR. A value is its kind
  and payload; a failed \<open>std::get\<close>, an element access out of range and \<open>XLS_LOG(FATAL)\<close> abort. \<open>wf_value\<close> is what the
  constructors establish: literals are well formed, arrays are not empty and their elements have one type.
  A float is its bit pattern.
\<close>

section \<open>Values\<close>

datatype ir_value = InvalidValue | BitsValue bits | TupleValue "ir_value list" | ArrayValue "ir_value list" | TokenValue

text \<open>\<open>elements\<close> and \<open>bits\<close> abort when the payload is of the other kind.\<close>

fun Value_elements :: "ir_value \<Rightarrow> ir_value list option" where
  "Value_elements (TupleValue vs) = Some vs"
| "Value_elements (ArrayValue vs) = Some vs"
| "Value_elements TokenValue = Some []"
| "Value_elements _ = None"

fun Value_bits :: "ir_value \<Rightarrow> bits option" where
  "Value_bits (BitsValue b) = Some b" | "Value_bits _ = None"

definition Value_element :: "ir_value \<Rightarrow> nat \<Rightarrow> ir_value option" where
  "Value_element v i = do { vs \<leftarrow> Value_elements v; list_at vs i }"

definition GetElements :: "ir_value \<Rightarrow> ir_value list status_or" where
  "GetElements v = (case Value_elements v of None \<Rightarrow> Inl InvalidArgumentError | Some vs \<Rightarrow> Inr vs)"

definition GetBitsWithStatus :: "ir_value \<Rightarrow> bits status_or" where
  "GetBitsWithStatus v = (case Value_bits v of None \<Rightarrow> Inl InvalidArgumentError | Some b \<Rightarrow> Inr b)"

fun SameTypeAs :: "ir_value \<Rightarrow> ir_value \<Rightarrow> bool option"
  and SameTypes :: "ir_value list \<Rightarrow> ir_value list \<Rightarrow> bool option" where
  "SameTypeAs (BitsValue b) other = (case other of BitsValue c \<Rightarrow> Some (bit_count b = bit_count c) | _ \<Rightarrow> Some False)"
| "SameTypeAs (TupleValue vs) other =
     (case other of TupleValue ws \<Rightarrow> if length vs \<noteq> length ws then Some False else SameTypes vs ws | _ \<Rightarrow> Some False)"
| "SameTypeAs (ArrayValue vs) other =
     (case other of
        ArrayValue ws \<Rightarrow>
          if length vs = length ws
          then (case vs of v # _ \<Rightarrow> (case ws of w # _ \<Rightarrow> SameTypeAs v w | [] \<Rightarrow> None) | [] \<Rightarrow> None)
          else Some False
      | _ \<Rightarrow> Some False)"
| "SameTypeAs TokenValue other = Some (other = TokenValue)"
| "SameTypeAs InvalidValue other = (if other = InvalidValue then None else Some False)"
| "SameTypes (v # vs) (w # ws) = do { s \<leftarrow> SameTypeAs v w; if s then SameTypes vs ws else Some False }"
| "SameTypes vs ws = Some True"

text \<open>\<open>Value::Array\<close>; the empty array and elements of two types are errors.\<close>

fun all_same_type :: "ir_value \<Rightarrow> ir_value list \<Rightarrow> bool option" where
  "all_same_type v [] = Some True"
| "all_same_type v (w # ws) = do { s \<leftarrow> SameTypeAs v w; if s then all_same_type v ws else Some False }"

definition Value_Array :: "ir_value list \<Rightarrow> ir_value status_or option" where
  "Value_Array elements =
     (case elements of
        [] \<Rightarrow> Some (Inl UnimplementedError)
      | v # vs \<Rightarrow> do { s \<leftarrow> all_same_type v vs; Some (if s then Inr (ArrayValue elements) else Inl InternalError) })"

definition ArrayOrDie :: "ir_value list \<Rightarrow> ir_value option" where
  "ArrayOrDie elements = do { r \<leftarrow> Value_Array elements; status_value r }"

text \<open>The shortcuts for arrays of literals; \<open>f\<close> is \<open>UBitsWithStatus\<close> or \<open>SBitsWithStatus\<close>.\<close>

fun literal_elements :: "(u64 \<Rightarrow> nat \<Rightarrow> bits status_or option) \<Rightarrow> nat \<Rightarrow> u64 list \<Rightarrow> ir_value list \<Rightarrow> ir_value list status_or option" where
  "literal_elements f width [] values = Some (Inr values)"
| "literal_elements f width (x # xs) values = do {
     r \<leftarrow> f x width;
     (case r of Inl e \<Rightarrow> Some (Inl e) | Inr b \<Rightarrow> literal_elements f width xs (values @ [BitsValue b])) }"

definition literal_array :: "(u64 \<Rightarrow> nat \<Rightarrow> bits status_or option) \<Rightarrow> u64 list \<Rightarrow> nat \<Rightarrow> ir_value status_or option" where
  "literal_array f elements width =
     (if elements = [] then Some (Inl UnimplementedError)
      else do {
        r \<leftarrow> literal_elements f width elements [];
        (case r of Inl e \<Rightarrow> Some (Inl e) | Inr vs \<Rightarrow> Value_Array vs) })"

definition UBitsArray :: "u64 list \<Rightarrow> nat \<Rightarrow> ir_value status_or option" where
  "UBitsArray elements width = literal_array UBitsWithStatus elements width"

definition SBitsArray :: "u64 list \<Rightarrow> nat \<Rightarrow> ir_value status_or option" where
  "SBitsArray elements width = literal_array SBitsWithStatus elements width"

fun rows_of :: "(u64 list \<Rightarrow> nat \<Rightarrow> ir_value status_or option) \<Rightarrow> nat \<Rightarrow> nat option \<Rightarrow> u64 list list \<Rightarrow> ir_value list \<Rightarrow> ir_value list status_or option" where
  "rows_of f width element_size [] values = Some (Inr values)"
| "rows_of f width element_size (x # xs) values = do {
     r \<leftarrow> f x width;
     (case r of
        Inl e \<Rightarrow> Some (Inl e)
      | Inr v \<Rightarrow> do {
          es \<leftarrow> Value_elements v;
          if element_size \<noteq> None \<and> element_size \<noteq> Some (length es) then Some (Inl InternalError)
          else rows_of f width (Some (length es)) xs (values @ [v]) }) }"

definition literal_array_2d :: "(u64 list \<Rightarrow> nat \<Rightarrow> ir_value status_or option) \<Rightarrow> u64 list list \<Rightarrow> nat \<Rightarrow> ir_value status_or option" where
  "literal_array_2d f elements width =
     (if elements = [] then Some (Inl UnimplementedError)
      else do {
        r \<leftarrow> rows_of f width None elements [];
        (case r of Inl e \<Rightarrow> Some (Inl e) | Inr vs \<Rightarrow> Value_Array vs) })"

definition UBits2DArray :: "u64 list list \<Rightarrow> nat \<Rightarrow> ir_value status_or option" where
  "UBits2DArray elements width = literal_array_2d UBitsArray elements width"

definition SBits2DArray :: "u64 list list \<Rightarrow> nat \<Rightarrow> ir_value status_or option" where
  "SBits2DArray elements width = literal_array_2d SBitsArray elements width"

definition Value_Bool :: "bool \<Rightarrow> ir_value option" where
  "Value_Bool enabled = do { b \<leftarrow> UBits (of_bool enabled) 1; Some (BitsValue b) }"

section \<open>Observation\<close>

fun Value_GetFlatBitCount :: "ir_value \<Rightarrow> nat option"
  and flat_bit_counts :: "ir_value list \<Rightarrow> nat \<Rightarrow> nat option" where
  "Value_GetFlatBitCount (BitsValue b) = Some (bit_count b)"
| "Value_GetFlatBitCount TokenValue = Some 0"
| "Value_GetFlatBitCount (TupleValue vs) = flat_bit_counts vs 0"
| "Value_GetFlatBitCount (ArrayValue vs) =
     (case vs of [] \<Rightarrow> Some 0 | v # _ \<Rightarrow> do { n \<leftarrow> Value_GetFlatBitCount v; Some (length vs * n) })"
| "Value_GetFlatBitCount InvalidValue = None"
| "flat_bit_counts [] total_size = Some total_size"
| "flat_bit_counts (v # vs) total_size = do { n \<leftarrow> Value_GetFlatBitCount v; flat_bit_counts vs (total_size + n) }"

text \<open>\<open>IsAllZeros\<close> and \<open>IsAllOnes\<close> are one recursion over the test of a literal.\<close>

fun all_bits :: "(bits \<Rightarrow> bool option) \<Rightarrow> ir_value \<Rightarrow> bool option"
  and all_elements :: "(bits \<Rightarrow> bool option) \<Rightarrow> ir_value list \<Rightarrow> bool option" where
  "all_bits f (BitsValue b) = f b"
| "all_bits f (TupleValue vs) = all_elements f vs"
| "all_bits f (ArrayValue vs) = all_elements f vs"
| "all_bits f _ = None"
| "all_elements f [] = Some True"
| "all_elements f (v # vs) = do { x \<leftarrow> all_bits f v; if \<not> x then Some False else all_elements f vs }"

definition IsAllZeros :: "ir_value \<Rightarrow> bool option" where
  "IsAllZeros v = all_bits Bits_IsZero v"

definition IsAllOnes :: "ir_value \<Rightarrow> bool option" where
  "IsAllOnes v = all_bits Bits_IsAllOnes v"

fun Value_ToString :: "FormatPreference \<Rightarrow> ir_value \<Rightarrow> string option"
  and Values_ToStrings :: "FormatPreference \<Rightarrow> ir_value list \<Rightarrow> string list option" where
  "Value_ToString preference InvalidValue = Some ''<invalid value>''"
| "Value_ToString preference (BitsValue b) = do {
     s \<leftarrow> Bits_ToString b preference False;
     Some (''bits['' @ nat_string (bit_count b) @ '']:'' @ s) }"
| "Value_ToString preference (TupleValue vs) = do { ss \<leftarrow> Values_ToStrings preference vs; Some (''('' @ str_join ss '', '' @ '')'') }"
| "Value_ToString preference (ArrayValue vs) = do { ss \<leftarrow> Values_ToStrings preference vs; Some (''['' @ str_join ss '', '' @ '']'') }"
| "Value_ToString preference TokenValue = Some ''token''"
| "Values_ToStrings preference [] = Some []"
| "Values_ToStrings preference (v # vs) = do {
     s \<leftarrow> Value_ToString preference v; ss \<leftarrow> Values_ToStrings preference vs; Some (s # ss) }"

fun ToHumanString :: "FormatPreference \<Rightarrow> ir_value \<Rightarrow> string option"
  and ToHumanStrings :: "FormatPreference \<Rightarrow> ir_value list \<Rightarrow> string list option" where
  "ToHumanString preference InvalidValue = Some ''<invalid value>''"
| "ToHumanString preference (BitsValue b) = Bits_ToString b preference False"
| "ToHumanString preference (ArrayValue vs) = do { ss \<leftarrow> ToHumanStrings preference vs; Some (''['' @ str_join ss '', '' @ '']'') }"
| "ToHumanString preference (TupleValue vs) = do { ss \<leftarrow> ToHumanStrings preference vs; Some (''('' @ str_join ss '', '' @ '')'') }"
| "ToHumanString preference TokenValue = Some ''token''"
| "ToHumanStrings preference [] = Some []"
| "ToHumanStrings preference (v # vs) = do {
     s \<leftarrow> ToHumanString preference v; ss \<leftarrow> ToHumanStrings preference vs; Some (s # ss) }"

fun Value_FlattenTo :: "ir_value \<Rightarrow> bool list \<Rightarrow> bool list option"
  and flatten_elements :: "ir_value list \<Rightarrow> bool list \<Rightarrow> bool list option" where
  "Value_FlattenTo (BitsValue b) buffer = Bits_FlattenTo b buffer"
| "Value_FlattenTo (TupleValue vs) buffer = flatten_elements vs buffer"
| "Value_FlattenTo (ArrayValue vs) buffer = flatten_elements vs buffer"
| "Value_FlattenTo _ buffer = None"
| "flatten_elements [] buffer = Some buffer"
| "flatten_elements (v # vs) buffer = do { buf \<leftarrow> Value_FlattenTo v buffer; flatten_elements vs buf }"

text \<open>\<open>TypeAsProto\<close>; a nested error is returned.\<close>

fun TypeAsProto :: "ir_value \<Rightarrow> TypeProto status_or"
  and TypesAsProtos :: "ir_value list \<Rightarrow> TypeProto list \<Rightarrow> TypeProto list status_or" where
  "TypeAsProto (BitsValue b) = Inr (TypeProto (Some BITS) (Some (int (bit_count b))) [] None None)"
| "TypeAsProto (TupleValue vs) =
     (case TypesAsProtos vs [] of Inl e \<Rightarrow> Inl e | Inr ps \<Rightarrow> Inr (TypeProto (Some TUPLE) None ps None None))"
| "TypeAsProto (ArrayValue vs) =
     (case vs of
        [] \<Rightarrow> Inl InternalError
      | v # _ \<Rightarrow> (case TypeAsProto v of Inl e \<Rightarrow> Inl e
                  | Inr p \<Rightarrow> Inr (TypeProto (Some ARRAY) None [] (Some (int (length vs))) (Some p))))"
| "TypeAsProto TokenValue = Inr (TypeProto (Some TOKEN) None [] None None)"
| "TypeAsProto InvalidValue = Inl InternalError"
| "TypesAsProtos [] protos = Inr protos"
| "TypesAsProtos (v # vs) protos =
     (case TypeAsProto v of Inl e \<Rightarrow> Inl e | Inr p \<Rightarrow> TypesAsProtos vs (protos @ [p]))"

fun Value_eq :: "ir_value \<Rightarrow> ir_value \<Rightarrow> bool option"
  and Values_eq :: "ir_value list \<Rightarrow> ir_value list \<Rightarrow> bool option" where
  "Value_eq (BitsValue b) other = (case other of BitsValue c \<Rightarrow> Bits_eq b c | _ \<Rightarrow> Some False)"
| "Value_eq (TupleValue vs) other =
     (case other of TupleValue ws \<Rightarrow> if length vs \<noteq> length ws then Some False else Values_eq vs ws | _ \<Rightarrow> Some False)"
| "Value_eq (ArrayValue vs) other =
     (case other of ArrayValue ws \<Rightarrow> if length vs \<noteq> length ws then Some False else Values_eq vs ws | _ \<Rightarrow> Some False)"
| "Value_eq TokenValue other = Some (other = TokenValue)"
| "Value_eq InvalidValue other = (if other = InvalidValue then None else Some False)"
| "Values_eq (v # vs) (w # ws) = do { e \<leftarrow> Value_eq v w; if e then Values_eq vs ws else Some False }"
| "Values_eq vs ws = Some True"

section \<open>Helpers\<close>

fun ValueConformsToType :: "ir_value \<Rightarrow> ir_type \<Rightarrow> bool option"
  and ValuesConformToTypes :: "ir_value list \<Rightarrow> ir_type list \<Rightarrow> bool option" where
  "ValueConformsToType (BitsValue b) t = (case t of BitsType n \<Rightarrow> Some (bit_count b = n) | _ \<Rightarrow> Some False)"
| "ValueConformsToType (ArrayValue vs) t =
     (case t of
        ArrayType n u \<Rightarrow>
          if n = length vs then (case vs of v # _ \<Rightarrow> ValueConformsToType v u | [] \<Rightarrow> None) else Some False
      | _ \<Rightarrow> Some False)"
| "ValueConformsToType (TupleValue vs) t =
     (case t of TupleType ts \<Rightarrow> if length ts \<noteq> length vs then Some False else ValuesConformToTypes vs ts | _ \<Rightarrow> Some False)"
| "ValueConformsToType TokenValue t = Some (IsToken t)"
| "ValueConformsToType InvalidValue t = None"
| "ValuesConformToTypes (v # vs) (t # ts) = do {
     c \<leftarrow> ValueConformsToType v t; if c then ValuesConformToTypes vs ts else Some False }"
| "ValuesConformToTypes vs ts = Some True"

fun ValueOfType :: "(nat \<Rightarrow> bits option) \<Rightarrow> ir_type \<Rightarrow> ir_value option"
  and ValuesOfTypes :: "(nat \<Rightarrow> bits option) \<Rightarrow> ir_type list \<Rightarrow> ir_value list \<Rightarrow> ir_value list option" where
  "ValueOfType fbits (BitsType n) = do { b \<leftarrow> fbits n; Some (BitsValue b) }"
| "ValueOfType fbits (TupleType ts) = do { vs \<leftarrow> ValuesOfTypes fbits ts []; Some (TupleValue vs) }"
| "ValueOfType fbits (ArrayType n t) = do {
     vs \<leftarrow> generate n (\<lambda>i. ValueOfType fbits t);
     r \<leftarrow> Value_Array vs;
     status_value r }"
| "ValueOfType fbits TokenType = Some TokenValue"
| "ValuesOfTypes fbits [] elements = Some elements"
| "ValuesOfTypes fbits (t # ts) elements = do { v \<leftarrow> ValueOfType fbits t; ValuesOfTypes fbits ts (elements @ [v]) }"

definition ZeroOfType :: "ir_type \<Rightarrow> ir_value option" where
  "ZeroOfType t = ValueOfType (\<lambda>n. UBits 0 n) t"

definition AllOnesOfType :: "ir_type \<Rightarrow> ir_value option" where
  "AllOnesOfType t = ValueOfType (\<lambda>n. if n = 0 then Bits_new 0 else SBits (- 1) n) t"

fun ValueLeafNodes :: "ir_value \<Rightarrow> ir_value list \<Rightarrow> ir_value list option"
  and ValuesLeafNodes :: "ir_value list \<Rightarrow> ir_value list \<Rightarrow> ir_value list option" where
  "ValueLeafNodes (BitsValue b) leaves = Some (leaves @ [BitsValue b])"
| "ValueLeafNodes TokenValue leaves = Some (leaves @ [TokenValue])"
| "ValueLeafNodes (TupleValue vs) leaves = ValuesLeafNodes vs leaves"
| "ValueLeafNodes (ArrayValue vs) leaves = ValuesLeafNodes vs leaves"
| "ValueLeafNodes InvalidValue leaves = None"
| "ValuesLeafNodes [] leaves = Some leaves"
| "ValuesLeafNodes (v # vs) leaves = do { ls \<leftarrow> ValueLeafNodes v leaves; ValuesLeafNodes vs ls }"

text \<open>Floats, as the 32 bits of their pattern.\<close>

definition F32ToTuple :: "32 word \<Rightarrow> ir_value option" where
  "F32ToTuple x = do {
     s \<leftarrow> Bits_FromBytes [of_bool (drop_bit 31 x \<noteq> 0)] 1;
     e \<leftarrow> Bits_FromBytes [ucast (drop_bit 23 x)] 8;
     m \<leftarrow> Mask 23;
     f \<leftarrow> UBits (ucast (x AND ucast m)) 23;
     Some (TupleValue [BitsValue s, BitsValue e, BitsValue f]) }"

definition f32_field :: "ir_value \<Rightarrow> nat \<Rightarrow> nat \<Rightarrow> 32 word status_or option" where
  "f32_field v i n = do {
     el \<leftarrow> Value_element v i;
     b \<leftarrow> Value_bits el;
     if bit_count b \<noteq> n then Some (Inl InternalError)
     else do {
       r \<leftarrow> Bits_ToUint64 b;
       Some (case r of Inl s \<Rightarrow> Inl s | Inr w \<Rightarrow> Inr (ucast w)) } }"

definition TupleToF32 :: "ir_value \<Rightarrow> 32 word status_or option" where
  "TupleToF32 v =
     (case v of
        TupleValue vs \<Rightarrow>
          if length vs \<noteq> 3 then Some (Inl InternalError)
          else do {
            sign \<leftarrow> f32_field v 0 1;
            (case sign of Inl s \<Rightarrow> Some (Inl s) | Inr sg \<Rightarrow> do {
               exponent \<leftarrow> f32_field v 1 8;
               (case exponent of Inl s \<Rightarrow> Some (Inl s) | Inr ex \<Rightarrow> do {
                  fraction \<leftarrow> f32_field v 2 23;
                  (case fraction of Inl s \<Rightarrow> Some (Inl s) | Inr fr \<Rightarrow> do {
                     m1 \<leftarrow> Mask 1; check (sg = sg AND ucast m1);
                     m8 \<leftarrow> Mask 8; check (ex = ex AND ucast m8);
                     m23 \<leftarrow> Mask 23; check (fr = fr AND ucast m23);
                     Some (Inr (push_bit 31 sg OR push_bit 23 ex OR fr)) }) }) }) }
      | _ \<Rightarrow> Some (Inl InternalError))"

section \<open>Types of values\<close>

fun type_of :: "ir_value \<Rightarrow> ir_type" where
  "type_of (BitsValue b) = BitsType (bit_count b)"
| "type_of (TupleValue vs) = TupleType (map type_of vs)"
| "type_of (ArrayValue vs) = (case vs of [] \<Rightarrow> ArrayType 0 TokenType | v # _ \<Rightarrow> ArrayType (length vs) (type_of v))"
| "type_of _ = TokenType"

fun wf_value :: "ir_value \<Rightarrow> bool" where
  "wf_value (BitsValue b) \<longleftrightarrow> bm_inv b"
| "wf_value (TupleValue vs) \<longleftrightarrow> (\<forall>v \<in> set vs. wf_value v)"
| "wf_value (ArrayValue vs) \<longleftrightarrow> vs \<noteq> [] \<and> (\<forall>v \<in> set vs. wf_value v) \<and> (\<exists>t. \<forall>v \<in> set vs. type_of v = t)"
| "wf_value TokenValue \<longleftrightarrow> True"
| "wf_value InvalidValue \<longleftrightarrow> False"

text \<open>A type whose arrays all have elements; only these have values.\<close>

fun inhabited :: "ir_type \<Rightarrow> bool" where
  "inhabited (TupleType ts) \<longleftrightarrow> (\<forall>t \<in> set ts. inhabited t)"
| "inhabited (ArrayType n t) \<longleftrightarrow> 0 < n \<and> inhabited t"
| "inhabited _ \<longleftrightarrow> True"

lemma type_of_array: "vs \<noteq> [] \<Longrightarrow> type_of (ArrayValue vs) = ArrayType (length vs) (type_of (hd vs))"
  by (cases vs) auto

lemma type_of_tuple_iff: "type_of v = TupleType ts \<longleftrightarrow> (\<exists>vs. v = TupleValue vs \<and> map type_of vs = ts)"
  by (cases v) (auto split: list.splits)

lemma inhabited_type_of: "wf_value v \<Longrightarrow> inhabited (type_of v)"
  by (induction v rule: wf_value.induct) (auto split: list.splits)

lemma SameTypeAs_eq:
  "wf_value v \<Longrightarrow> wf_value w \<Longrightarrow> SameTypeAs v w = Some (type_of v = type_of w)"
  "length vs = length ws \<Longrightarrow> (\<forall>v \<in> set vs. wf_value v) \<Longrightarrow> (\<forall>w \<in> set ws. wf_value w) \<Longrightarrow>
     SameTypes vs ws = Some (map type_of vs = map type_of ws)"
proof (induction v w and vs ws rule: SameTypeAs_SameTypes.induct)
  case (3 vs other)
  then show ?case by (cases other) (auto split: list.splits)
next
  case (4 other)
  then show ?case by (cases other) (auto split: list.splits)
qed (auto split: ir_value.splits list.splits dest: map_eq_imp_length_eq)

lemma all_same_type_eq:
  "wf_value v \<Longrightarrow> (\<forall>w \<in> set ws. wf_value w) \<Longrightarrow> all_same_type v ws = Some (\<forall>w \<in> set ws. type_of w = type_of v)"
  by (induction ws) (auto simp: SameTypeAs_eq)

lemma Value_Array_eq:
  assumes "\<forall>v \<in> set vs. wf_value v"
  shows "Value_Array vs = Some (if vs = [] then Inl UnimplementedError
    else if wf_value (ArrayValue vs) then Inr (ArrayValue vs) else Inl InternalError)"
  using assms all_same_type_eq by (cases vs) (auto simp: Value_Array_def)

lemma ValueConformsToType_eq:
  "wf_value v \<Longrightarrow> ValueConformsToType v t = Some (type_of v = t)"
  "length vs = length ts \<Longrightarrow> (\<forall>v \<in> set vs. wf_value v) \<Longrightarrow> ValuesConformToTypes vs ts = Some (map type_of vs = ts)"
proof (induction v t and vs ts rule: ValueConformsToType_ValuesConformToTypes.induct)
  case (4 t)
  then show ?case by (cases t) auto
qed (auto split: ir_type.splits list.splits)

lemma Value_GetFlatBitCount_eq:
  "wf_value v \<Longrightarrow> Value_GetFlatBitCount v = Some (Type_GetFlatBitCount (type_of v))"
  "(\<forall>v \<in> set vs. wf_value v) \<Longrightarrow> flat_bit_counts vs k = Some (k + sum_list (map (\<lambda>v. Type_GetFlatBitCount (type_of v)) vs))"
  by (induction v and vs k rule: Value_GetFlatBitCount_flat_bit_counts.induct) (auto split: list.splits simp: comp_def)

lemma TypeAsProto_eq:
  "wf_value v \<Longrightarrow> TypeAsProto v = Inr (Type_ToProto (type_of v))"
  "(\<forall>v \<in> set vs. wf_value v) \<Longrightarrow> TypesAsProtos vs ps = Inr (ps @ map (\<lambda>v. Type_ToProto (type_of v)) vs)"
  by (induction v and vs ps rule: TypeAsProto_TypesAsProtos.induct) (auto split: list.splits simp: comp_def)

lemma Bits_eq_iff: "bm_inv b \<Longrightarrow> bm_inv c \<Longrightarrow> Bits_eq b c = Some (b = c)"
  by (erule bm_inv_cases, erule bm_inv_cases) (simp add: Bits_eq_def mk_bits_eq_iff)

lemma Value_eq_iff:
  "wf_value v \<Longrightarrow> wf_value w \<Longrightarrow> Value_eq v w = Some (v = w)"
  "length vs = length ws \<Longrightarrow> (\<forall>v \<in> set vs. wf_value v) \<Longrightarrow> (\<forall>w \<in> set ws. wf_value w) \<Longrightarrow> Values_eq vs ws = Some (vs = ws)"
  by (induction v w and vs ws rule: Value_eq_Values_eq.induct) (auto split: ir_value.splits simp: Bits_eq_iff)

section \<open>Values of types\<close>

lemma all_elements_True: "all_elements g vs = Some True \<longleftrightarrow> (\<forall>v \<in> set vs. all_bits g v = Some True)"
  by (induction vs) (auto split: bind_splits)

lemma ValuesOfTypes_ok:
  assumes "\<And>t. t \<in> set ts \<Longrightarrow> \<exists>v. ValueOfType fbits t = Some v \<and> Q t v"
  shows "\<exists>vs. ValuesOfTypes fbits ts us = Some (us @ vs) \<and> list_all2 Q ts vs"
  using assms
proof (induction ts arbitrary: us)
  case (Cons t ts)
  obtain v where v: "ValueOfType fbits t = Some v" "Q t v" using Cons.prems[of t] by auto
  obtain vs where "ValuesOfTypes fbits ts (us @ [v]) = Some ((us @ [v]) @ vs)" "list_all2 Q ts vs"
    using Cons.IH[of "us @ [v]"] Cons.prems by auto
  then show ?case using v by (intro exI[of _ "v # vs"]) simp
qed simp

lemma ValueOfType_ok:
  assumes f: "\<And>n. \<exists>b. fbits n = Some b \<and> bm_inv b \<and> bit_count b = n \<and> g b = Some True"
  shows "inhabited t \<Longrightarrow> \<exists>v. ValueOfType fbits t = Some v \<and> wf_value v \<and> type_of v = t \<and> (\<not> TypeHasToken t \<longrightarrow> all_bits g v = Some True)"
proof (induction t)
  case (BitsType n)
  then show ?case using f[of n] by auto
next
  case (TupleType ts)
  then obtain vs where vs: "ValuesOfTypes fbits ts [] = Some vs"
    "list_all2 (\<lambda>t v. wf_value v \<and> type_of v = t \<and> (\<not> TypeHasToken t \<longrightarrow> all_bits g v = Some True)) ts vs"
    using ValuesOfTypes_ok[of ts fbits "\<lambda>t v. wf_value v \<and> type_of v = t \<and> (\<not> TypeHasToken t \<longrightarrow> all_bits g v = Some True)" "[]"] by auto
  have "map type_of vs = ts" using vs(2) by (induction rule: list_all2_induct) auto
  moreover have "\<forall>v \<in> set vs. wf_value v" "\<not> list_ex TypeHasToken ts \<longrightarrow> (\<forall>v \<in> set vs. all_bits g v = Some True)"
    using vs(2) by (induction rule: list_all2_induct) auto
  ultimately show ?case using vs(1) by (simp add: all_elements_True)
next
  case (ArrayType n t)
  then obtain v where v: "ValueOfType fbits t = Some v" "wf_value v" "type_of v = t" "\<not> TypeHasToken t \<longrightarrow> all_bits g v = Some True" by auto
  have gen: "generate n (\<lambda>i. ValueOfType fbits t) = Some (replicate n v)"
    using generate_eq[of n "\<lambda>i. ValueOfType fbits t" "\<lambda>_. v"] v(1) by (simp add: map_replicate_const)
  have wf: "wf_value (ArrayValue (replicate n v))" using v(2) ArrayType.prems by auto
  have "Value_Array (replicate n v) = Some (Inr (ArrayValue (replicate n v)))"
    using Value_Array_eq[of "replicate n v"] wf v(2) ArrayType.prems by auto
  then show ?case using gen wf v ArrayType.prems by (auto simp: type_of_array all_elements_True simp del: type_of.simps)
qed auto

lemma ZeroOfType_ok:
  "inhabited t \<Longrightarrow> \<exists>v. ZeroOfType t = Some v \<and> wf_value v \<and> type_of v = t \<and> (\<not> TypeHasToken t \<longrightarrow> IsAllZeros v = Some True)"
  unfolding ZeroOfType_def IsAllZeros_def by (rule ValueOfType_ok) simp

lemma AllOnesOfType_ok:
  "inhabited t \<Longrightarrow> \<exists>v. AllOnesOfType t = Some v \<and> wf_value v \<and> type_of v = t \<and> (\<not> TypeHasToken t \<longrightarrow> IsAllOnes v = Some True)"
  unfolding AllOnesOfType_def IsAllOnes_def
proof (rule ValueOfType_ok)
  fix n
  have "SBits (- 1) n = Some (mk_bits n (mask n))" if "n \<noteq> 0"
  proof -
    have "mk_int n (- 1) = mk_bits n (mask n)" by (simp add: mk_int_def nat_mask_eq)
    moreover have "(- 1 :: int) < 2 ^ (n - 1)" by (rule less_le_trans[of _ 0]) simp_all
    ultimately show ?thesis using that by (simp add: SBits_eq)
  qed
  moreover have "Bits_new 0 = Some (mk_bits 0 (mask 0))" by (simp add: Bits_new_def)
  ultimately show "\<exists>b. (if n = 0 then Bits_new 0 else SBits (- 1) n) = Some b \<and> bm_inv b \<and> bit_count b = n \<and> Bits_IsAllOnes b = Some True"
    by (intro exI[of _ "mk_bits n (mask n)"]) auto
qed

lemma ZeroOfType_empty_array: "ZeroOfType (ArrayType 0 t) = None"
  by (simp add: ZeroOfType_def generate_def Value_Array_def)

section \<open>Floats\<close>

lemma f32_parts:
  fixes x :: "32 word"
  shows "words_nat [w :: u8] = unat w" "(drop_bit 31 x \<noteq> 0) = bit x 31"
    "unat (ucast (drop_bit 23 x) :: u8) = take_bit 8 (drop_bit 23 (unat x))"
    "unat (ucast (x AND ucast (mask 23 :: u64)) :: u64) = take_bit 23 (unat x)"
proof -
  show "words_nat [w] = unat w" by (simp add: words_nat_def)
  have "bit x 31" if nz: "drop_bit 31 x \<noteq> 0"
  proof -
    obtain n where n: "bit (drop_bit 31 x) n" using nz bit_word_eqI[of "drop_bit 31 x" 0] by auto
    then have "n = 0" using bit_imp_le_length[of x "31 + n"] by (simp add: bit_drop_bit_eq)
    then show ?thesis using n by (simp add: bit_drop_bit_eq)
  qed
  moreover have "drop_bit 31 x \<noteq> 0" if "bit x 31" using that bit_drop_bit_eq[of 31 x] by (metis add_0_right bit_0_eq comp_apply bot_apply bot_bool_def)
  ultimately show "(drop_bit 31 x \<noteq> 0) = bit x 31" by blast
  show "unat (ucast (drop_bit 23 x) :: u8) = take_bit 8 (drop_bit 23 (unat x))"
    by (rule bit_eqI) (auto simp: bit_simps dest: bit_imp_le_length)
  show "unat (ucast (x AND ucast (mask 23 :: u64)) :: u64) = take_bit 23 (unat x)"
    by (rule bit_eqI) (auto simp: bit_simps)
qed

lemma F32ToTuple_eq:
  "F32ToTuple x = Some (TupleValue [BitsValue (mk_bits 1 (of_bool (bit x 31))), BitsValue (mk_bits 8 (drop_bit 23 (unat x))),
     BitsValue (mk_bits 23 (unat x))])"
proof -
  have t: "take_bit 23 (unat x) < 2 ^ 23" by (rule take_bit_nat_less_exp)
  have "unat (of_bool (bit x 31) :: u8) = of_bool (bit x 31)" by simp
  moreover have "mk_bits n (take_bit n v) = mk_bits n v" for n v by (simp add: mk_bits_eq_iff)
  ultimately show ?thesis using t by (simp add: F32ToTuple_def f32_parts)
qed

lemma TupleToF32_fields:
  assumes "f32_field (TupleValue [a, b, c]) 0 1 = Some (Inr sg)" "f32_field (TupleValue [a, b, c]) 1 8 = Some (Inr ex)"
    "f32_field (TupleValue [a, b, c]) 2 23 = Some (Inr fr)"
    "sg = sg AND ucast (mask 1 :: u64)" "ex = ex AND ucast (mask 8 :: u64)" "fr = fr AND ucast (mask 23 :: u64)"
  shows "TupleToF32 (TupleValue [a, b, c]) = Some (Inr (push_bit 31 sg OR push_bit 23 ex OR fr))"
  using assms unfolding TupleToF32_def by simp

lemma f32_roundtrip: "F32ToTuple x \<bind> TupleToF32 = Some (Inr x)"
proof -
  let ?s = "of_bool (bit x 31) :: nat" and ?e = "take_bit 8 (drop_bit 23 (unat x))" and ?f = "take_bit 23 (unat x)"
  let ?v = "TupleValue [BitsValue (mk_bits 1 (of_bool (bit x 31))), BitsValue (mk_bits 8 (drop_bit 23 (unat x))), BitsValue (mk_bits 23 (unat x))]"
  have lt: "?e < 2 ^ 64" "?f < 2 ^ 64"
    using take_bit_nat_less_exp[of 8 "drop_bit 23 (unat x)"] take_bit_nat_less_exp[of 23 "unat x"] by auto
  have f: "f32_field ?v 0 1 = Some (Inr (ucast (word_of_nat ?s :: u64)))" "f32_field ?v 1 8 = Some (Inr (ucast (word_of_nat ?e :: u64)))"
    "f32_field ?v 2 23 = Some (Inr (ucast (word_of_nat ?f :: u64)))"
    using lt by (simp_all add: f32_field_def Value_element_def Bits_ToUint64_eq)
  have w: "bit (ucast (word_of_nat k :: u64) :: 32 word) i \<longleftrightarrow> i < 32 \<and> bit k i" for k i
    by (auto simp: bit_simps)
  have b: "i < 32 \<Longrightarrow> bit (push_bit 31 (ucast (word_of_nat ?s :: u64)) OR push_bit 23 (ucast (word_of_nat ?e :: u64)) OR ucast (word_of_nat ?f :: u64) :: 32 word) i = bit x i" for i
    by (cases "i = 31") (auto simp: bit_or_iff bit_push_bit_iff w bit_take_bit_iff bit_drop_bit_eq bit_unat bit_of_bool_iff)
  then have eq: "push_bit 31 (ucast (word_of_nat ?s :: u64)) OR push_bit 23 (ucast (word_of_nat ?e :: u64)) OR ucast (word_of_nat ?f :: u64) = x"
    by (intro bit_word_eqI) simp
  have m: "ucast (word_of_nat ?s :: u64) = (ucast (word_of_nat ?s :: u64) AND ucast (mask 1 :: u64) :: 32 word)"
    "ucast (word_of_nat ?e :: u64) = (ucast (word_of_nat ?e :: u64) AND ucast (mask 8 :: u64) :: 32 word)"
    "ucast (word_of_nat ?f :: u64) = (ucast (word_of_nat ?f :: u64) AND ucast (mask 23 :: u64) :: 32 word)"
    by (rule bit_word_eqI; auto simp: bit_and_iff w bit_simps)+
  have "TupleToF32 ?v = Some (Inr x)" using TupleToF32_fields[OF f m] unfolding eq .
  then show ?thesis unfolding F32ToTuple_eq by simp
qed

end
