(* ===== verification/Flattening.thy ===== *)
theory Flattening
  imports IrValue
begin

text \<open>
  \<open>xls/codegen/flattening.cc\<close>: values as flat literals, the way generated Verilog passes them. A tuple's first
  element and an array's last element are the most significant. The recursion of \<open>UnflattenBitsToValue\<close> and
  its element loops are one function, which ends because the type gets smaller. \<open>leaves\<close> and \<open>flat_bits\<close> give the
  flat literal of a value directly; every literal of the width of a type is the flat literal of exactly one
  value of that type.
\<close>

section \<open>Flattening\<close>

fun GatherValueLeaves :: "ir_value \<Rightarrow> bits list \<Rightarrow> bits list option"
  and GatherElements :: "ir_value list \<Rightarrow> bits list \<Rightarrow> bits list option"
  and GatherReversed :: "ir_value list \<Rightarrow> bits list \<Rightarrow> bits list option" where
  "GatherValueLeaves (BitsValue b) leaves = Some (leaves @ [b])"
| "GatherValueLeaves (TupleValue vs) leaves = GatherElements vs leaves"
| "GatherValueLeaves (ArrayValue vs) leaves = GatherReversed vs leaves"
| "GatherValueLeaves _ leaves = None"
| "GatherElements [] leaves = Some leaves"
| "GatherElements (v # vs) leaves = do { ls \<leftarrow> GatherValueLeaves v leaves; GatherElements vs ls }"
| "GatherReversed [] leaves = Some leaves"
| "GatherReversed (v # vs) leaves = do { ls \<leftarrow> GatherReversed vs leaves; GatherValueLeaves v ls }"

definition FlattenValueToBits :: "ir_value \<Rightarrow> bits option" where
  "FlattenValueToBits v = do { leaves \<leftarrow> GatherValueLeaves v []; bits_ops_Concat leaves }"

definition GetFlatBitIndexOfTupleElement :: "ir_type list \<Rightarrow> nat \<Rightarrow> nat option" where
  "GetFlatBitIndexOfTupleElement ts index = do {
     check (index < length ts);
     Some (fold (\<lambda>i flat_index. flat_index + Type_GetFlatBitCount (ts ! i)) (rev [index + 1..<length ts]) 0) }"

definition GetFlatBitIndexOfArrayElement :: "nat \<Rightarrow> ir_type \<Rightarrow> nat \<Rightarrow> nat option" where
  "GetFlatBitIndexOfArrayElement n t index = do { check (index < n); Some (index * Type_GetFlatBitCount t) }"

text \<open>The element loops of \<open>UnflattenBitsToValue\<close>; an error of an element is returned.\<close>

function UnflattenBitsToValue :: "bits \<Rightarrow> ir_type \<Rightarrow> ir_value status_or option"
  and unflatten_tuple :: "bits \<Rightarrow> ir_type list \<Rightarrow> nat \<Rightarrow> ir_value list \<Rightarrow> ir_value list status_or option"
  and unflatten_array :: "bits \<Rightarrow> nat \<Rightarrow> ir_type \<Rightarrow> nat \<Rightarrow> ir_value list \<Rightarrow> ir_value list status_or option" where
  "UnflattenBitsToValue b t =
     (if bit_count b \<noteq> Type_GetFlatBitCount t then Some (Inl InvalidArgumentError)
      else case t of
        BitsType n \<Rightarrow> Some (Inr (BitsValue b))
      | TupleType ts \<Rightarrow> do {
          r \<leftarrow> unflatten_tuple b ts 0 [];
          (case r of Inl e \<Rightarrow> Some (Inl e) | Inr vs \<Rightarrow> Some (Inr (TupleValue vs))) }
      | ArrayType n u \<Rightarrow> do {
          r \<leftarrow> unflatten_array b n u 0 [];
          (case r of Inl e \<Rightarrow> Some (Inl e) | Inr vs \<Rightarrow> Value_Array vs) }
      | TokenType \<Rightarrow> Some (Inl InvalidArgumentError))"
| "unflatten_tuple b ts i elements =
     (if i < length ts then do {
        index \<leftarrow> GetFlatBitIndexOfTupleElement ts i;
        s \<leftarrow> Bits_Slice b index (Type_GetFlatBitCount (ts ! i));
        r \<leftarrow> UnflattenBitsToValue s (ts ! i);
        (case r of Inl e \<Rightarrow> Some (Inl e) | Inr v \<Rightarrow> unflatten_tuple b ts (i + 1) (elements @ [v])) }
      else Some (Inr elements))"
| "unflatten_array b n u i elements =
     (if i < n then do {
        index \<leftarrow> GetFlatBitIndexOfArrayElement n u i;
        s \<leftarrow> Bits_Slice b index (Type_GetFlatBitCount u);
        r \<leftarrow> UnflattenBitsToValue s u;
        (case r of Inl e \<Rightarrow> Some (Inl e) | Inr v \<Rightarrow> unflatten_array b n u (i + 1) (elements @ [v])) }
      else Some (Inr elements))"
  by pat_completeness auto
termination
proof (relation "measures [\<lambda>x. case x of Inl (b, t) \<Rightarrow> 2 * size t | Inr (Inl (b, ts, i, es)) \<Rightarrow> 2 * size (TupleType ts) - 1
      | Inr (Inr (b, n, u, i, es)) \<Rightarrow> 2 * size (ArrayType n u) - 1,
    \<lambda>x. case x of Inl (b, t) \<Rightarrow> 0 | Inr (Inl (b, ts, i, es)) \<Rightarrow> length ts - i | Inr (Inr (b, n, u, i, es)) \<Rightarrow> n - i]", goal_cases)
  case (4 b ts i elements)
  then have "size (ts ! i) \<le> sum_list (map size ts)" by (intro member_le_sum_list) auto
  then show ?case by (simp add: size_list_conv_sum_list)
qed (auto simp: size_list_conv_sum_list)

declare UnflattenBitsToValue.simps [simp del] unflatten_tuple.simps [simp del] unflatten_array.simps [simp del]

section \<open>The flat number of a value\<close>

fun leaves :: "ir_value \<Rightarrow> bits list" where
  "leaves (BitsValue b) = [b]"
| "leaves (TupleValue vs) = concat (map leaves vs)"
| "leaves (ArrayValue vs) = concat (rev (map leaves vs))"
| "leaves _ = []"

definition width_sum :: "bits list \<Rightarrow> nat" where
  "width_sum bs = sum_list (map bit_count bs)"

lemma width_sum_simps [simp]: "width_sum [] = 0" "width_sum (b # bs) = bit_count b + width_sum bs" "width_sum (xs @ ys) = width_sum xs + width_sum ys"
  by (simp_all add: width_sum_def)

lemma concat_nat_append: "concat_nat (xs @ ys) = concat_nat ys + 2 ^ width_sum ys * concat_nat xs"
  by (induction xs) (simp_all add: width_sum_def algebra_simps power_add)

lemma concat_nat_less: "\<forall>b \<in> set bs. bm_inv b \<Longrightarrow> concat_nat bs < 2 ^ width_sum bs"
proof (induction bs)
  case (Cons b bs)
  have "uval b + 1 \<le> 2 ^ bit_count b" using Cons.prems by (auto simp: bm_inv_def)
  then have "2 ^ width_sum bs * (uval b + 1) \<le> 2 ^ width_sum bs * 2 ^ bit_count b" by (rule mult_le_mono2)
  moreover have "concat_nat bs < 2 ^ width_sum bs" using Cons by simp
  ultimately show ?case by (simp add: width_sum_def[symmetric] power_add algebra_simps)
qed simp

lemma slice_concat:
  assumes "\<forall>b \<in> set xs. bm_inv b" "\<forall>b \<in> set ys. bm_inv b" "\<forall>b \<in> set zs. bm_inv b"
  shows "Bits_Slice (mk_bits (width_sum (xs @ ys @ zs)) (concat_nat (xs @ ys @ zs))) (width_sum zs) (width_sum ys)
    = Some (mk_bits (width_sum ys) (concat_nat ys))"
proof -
  have z: "concat_nat zs < 2 ^ width_sum zs" and y: "concat_nat ys < 2 ^ width_sum ys" using concat_nat_less assms by auto
  have "concat_nat (xs @ ys @ zs) = concat_nat zs + 2 ^ width_sum zs * (concat_nat ys + 2 ^ width_sum ys * concat_nat xs)"
    by (simp add: concat_nat_append algebra_simps power_add)
  then have "concat_nat (xs @ ys @ zs) div 2 ^ width_sum zs = concat_nat ys + 2 ^ width_sum ys * concat_nat xs"
    using z by simp
  then have "take_bit (width_sum ys) (drop_bit (width_sum zs) (concat_nat (xs @ ys @ zs))) = take_bit (width_sum ys) (concat_nat ys)"
    using y by (simp add: drop_bit_eq_div take_bit_eq_mod)
  then show ?thesis by (simp add: mk_bits_eq_iff)
qed

lemma leaves_ok:
  "wf_value v \<Longrightarrow> (\<forall>b \<in> set (leaves v). bm_inv b) \<and> width_sum (leaves v) = Type_GetFlatBitCount (type_of v)"
proof (induction v)
  case (TupleValue vs)
  have "width_sum (concat (map leaves us)) = sum_list (map (\<lambda>v. Type_GetFlatBitCount (type_of v)) us)" if "set us \<subseteq> set vs" for us
    using that TupleValue by (induction us) auto
  then show ?case using TupleValue by (auto simp: comp_def)
next
  case (ArrayValue vs)
  then obtain t where t: "\<forall>v \<in> set vs. type_of v = t" by auto
  have "width_sum (concat (rev (map leaves us))) = Type_GetFlatBitCount t * length us" if "set us \<subseteq> set vs" for us
    using that ArrayValue t by (induction us) auto
  then show ?case using ArrayValue t by (auto simp: type_of_array simp del: type_of.simps)
qed auto

fun token_free :: "ir_value \<Rightarrow> bool" where
  "token_free (TupleValue vs) \<longleftrightarrow> (\<forall>v \<in> set vs. token_free v)"
| "token_free (ArrayValue vs) \<longleftrightarrow> (\<forall>v \<in> set vs. token_free v)"
| "token_free TokenValue \<longleftrightarrow> False"
| "token_free _ \<longleftrightarrow> True"

lemma token_free_type: "wf_value v \<Longrightarrow> token_free v \<longleftrightarrow> \<not> TypeHasToken (type_of v)"
proof (induction v)
  case (ArrayValue vs)
  then obtain t where t: "\<forall>v \<in> set vs. type_of v = t" "vs \<noteq> []" by auto
  then have "hd vs \<in> set vs" by simp
  then show ?case using ArrayValue t by (auto simp: type_of_array simp del: type_of.simps)
qed (auto simp: list_ex_iff)

lemma Gather_eq:
  "wf_value v \<Longrightarrow> token_free v \<Longrightarrow> GatherValueLeaves v ls = Some (ls @ leaves v)"
  "(\<forall>v \<in> set vs. wf_value v \<and> token_free v) \<Longrightarrow> GatherElements vs ls = Some (ls @ concat (map leaves vs))"
  "(\<forall>v \<in> set ws. wf_value v \<and> token_free v) \<Longrightarrow> GatherReversed ws ls = Some (ls @ concat (rev (map leaves ws)))"
  by (induction v ls and vs ls and ws ls rule: GatherValueLeaves_GatherElements_GatherReversed.induct) auto

lemma FlattenValueToBits_eq:
  "wf_value v \<Longrightarrow> token_free v \<Longrightarrow> FlattenValueToBits v = Some (mk_bits (width_sum (leaves v)) (concat_nat (leaves v)))"
  using leaves_ok[of v] bits_ops_Concat_eq[of "leaves v"] by (simp add: FlattenValueToBits_def Gather_eq width_sum_def)

lemma flat_index_sum:
  "fold (\<lambda>i flat_index. flat_index + f (ts ! i)) (rev [k..<length ts]) a = a + sum_list (map f (drop k ts))" for f :: "'a \<Rightarrow> nat"
proof (induction "length ts - k" arbitrary: k a)
  case (Suc n)
  then have k: "k < length ts" by simp
  have "fold (\<lambda>i flat_index. flat_index + f (ts ! i)) (rev [Suc k..<length ts]) a = a + sum_list (map f (drop (Suc k) ts))"
    using Suc.hyps(1)[of "Suc k"] Suc.hyps(2) by simp
  then show ?case using k by (simp add: upt_conv_Cons Cons_nth_drop_Suc[symmetric])
qed simp

lemma width_sum_elements:
  "\<forall>v \<in> set vs. wf_value v \<Longrightarrow> width_sum (concat (map leaves vs)) = sum_list (map (\<lambda>v. Type_GetFlatBitCount (type_of v)) vs)"
  using leaves_ok by (induction vs) auto

lemma width_sum_reversed:
  "\<forall>v \<in> set vs. wf_value v \<and> type_of v = t \<Longrightarrow> width_sum (concat (rev (map leaves vs))) = length vs * Type_GetFlatBitCount t"
  using leaves_ok by (induction vs) auto

definition flat_bits :: "ir_value \<Rightarrow> bits" where
  "flat_bits v = mk_bits (width_sum (leaves v)) (concat_nat (leaves v))"

lemma unflatten_tuple_ok:
  assumes wf: "\<forall>v \<in> set vs. wf_value v" and IH: "\<And>v. v \<in> set vs \<Longrightarrow> UnflattenBitsToValue (flat_bits v) (type_of v) = Some (Inr v)"
  shows "i \<le> length vs \<Longrightarrow> unflatten_tuple (flat_bits (TupleValue vs)) (map type_of vs) i (take i vs) = Some (Inr vs)"
proof (induction "length vs - i" arbitrary: i)
  case 0
  then show ?case by (simp add: unflatten_tuple.simps)
next
  case (Suc n)
  then have i: "i < length vs" by simp
  let ?zs = "concat (map leaves (drop (Suc i) vs))"
  have split: "leaves (TupleValue vs) = concat (map leaves (take i vs)) @ leaves (vs ! i) @ ?zs"
    using id_take_nth_drop[OF i] by (metis append_eq_Cons_conv concat.simps(2) concat_append leaves.simps(2) list.map(2) map_append)
  have wi: "wf_value (vs ! i)" and wr: "\<forall>v \<in> set (drop (Suc i) vs). wf_value v" and wl: "\<forall>v \<in> set (take i vs). wf_value v"
    using wf i by (auto dest: in_set_dropD in_set_takeD)
  have inv: "\<forall>b \<in> set (leaves v). bm_inv b" if "wf_value v" for v using leaves_ok[OF that] by blast
  have ix: "GetFlatBitIndexOfTupleElement (map type_of vs) i = Some (width_sum ?zs)"
    using i width_sum_elements[OF wr] flat_index_sum[of Type_GetFlatBitCount "map type_of vs" "i + 1" 0]
    by (simp add: GetFlatBitIndexOfTupleElement_def drop_map comp_def)
  have "Bits_Slice (flat_bits (TupleValue vs)) (width_sum ?zs) (width_sum (leaves (vs ! i))) = Some (flat_bits (vs ! i))"
    unfolding flat_bits_def split by (rule slice_concat) (use inv wi wr wl in auto)
  then have sl: "Bits_Slice (flat_bits (TupleValue vs)) (width_sum ?zs) (Type_GetFlatBitCount (type_of (vs ! i))) = Some (flat_bits (vs ! i))"
    using leaves_ok[OF wi] by simp
  have "unflatten_tuple (flat_bits (TupleValue vs)) (map type_of vs) i (take i vs) =
    unflatten_tuple (flat_bits (TupleValue vs)) (map type_of vs) (Suc i) (take (Suc i) vs)"
    using i ix sl IH[of "vs ! i"] by (subst unflatten_tuple.simps) (simp add: take_Suc_conv_app_nth)
  then show ?case using Suc.hyps(1)[of "Suc i"] Suc.hyps(2) i by simp
qed

lemma unflatten_array_ok:
  assumes wf: "\<forall>v \<in> set vs. wf_value v \<and> type_of v = t" and IH: "\<And>v. v \<in> set vs \<Longrightarrow> UnflattenBitsToValue (flat_bits v) t = Some (Inr v)"
  shows "i \<le> length vs \<Longrightarrow> unflatten_array (flat_bits (ArrayValue vs)) (length vs) t i (take i vs) = Some (Inr vs)"
proof (induction "length vs - i" arbitrary: i)
  case 0
  then show ?case by (simp add: unflatten_array.simps)
next
  case (Suc n)
  then have i: "i < length vs" by simp
  let ?zs = "concat (rev (map leaves (take i vs)))"
  have "vs = take i vs @ vs ! i # drop (Suc i) vs" using id_take_nth_drop[OF i] .
  then have "concat (rev (map leaves vs)) = concat (rev (map leaves (take i vs @ vs ! i # drop (Suc i) vs)))" by simp
  then have split: "leaves (ArrayValue vs) = concat (rev (map leaves (drop (Suc i) vs))) @ leaves (vs ! i) @ ?zs" by simp
  have wi: "wf_value (vs ! i)" "type_of (vs ! i) = t" and wr: "\<forall>v \<in> set (drop (Suc i) vs). wf_value v \<and> type_of v = t"
    and wl: "\<forall>v \<in> set (take i vs). wf_value v \<and> type_of v = t"
    using wf i by (auto dest: in_set_dropD in_set_takeD)
  have inv: "\<forall>b \<in> set (leaves v). bm_inv b" if "wf_value v" for v using leaves_ok[OF that] by blast
  have ix: "GetFlatBitIndexOfArrayElement (length vs) t i = Some (width_sum ?zs)"
    using i width_sum_reversed[OF wl] by (simp add: GetFlatBitIndexOfArrayElement_def)
  have "Bits_Slice (flat_bits (ArrayValue vs)) (width_sum ?zs) (width_sum (leaves (vs ! i))) = Some (flat_bits (vs ! i))"
    unfolding flat_bits_def split by (rule slice_concat) (use inv wi wr wl in auto)
  then have sl: "Bits_Slice (flat_bits (ArrayValue vs)) (width_sum ?zs) (Type_GetFlatBitCount t) = Some (flat_bits (vs ! i))"
    using leaves_ok[OF wi(1)] wi(2) by simp
  have "unflatten_array (flat_bits (ArrayValue vs)) (length vs) t i (take i vs) =
    unflatten_array (flat_bits (ArrayValue vs)) (length vs) t (Suc i) (take (Suc i) vs)"
    using i ix sl IH[of "vs ! i"] by (subst unflatten_array.simps) (simp add: take_Suc_conv_app_nth)
  then show ?case using Suc.hyps(1)[of "Suc i"] Suc.hyps(2) i by simp
qed

lemma unflatten_flat_bits: "wf_value v \<Longrightarrow> token_free v \<Longrightarrow> UnflattenBitsToValue (flat_bits v) (type_of v) = Some (Inr v)"
proof (induction v)
  case (BitsValue b)
  then show ?case using bm_inv_eq_mk_bits[of b] by (simp add: UnflattenBitsToValue.simps flat_bits_def)
next
  case (TupleValue vs)
  have w: "bit_count (flat_bits (TupleValue vs)) = Type_GetFlatBitCount (type_of (TupleValue vs))"
    using leaves_ok[OF TupleValue.prems(1)] by (simp add: flat_bits_def)
  then show ?case using unflatten_tuple_ok[of vs 0] TupleValue by (subst UnflattenBitsToValue.simps) simp
next
  case (ArrayValue vs)
  then obtain t where t: "\<forall>v \<in> set vs. type_of v = t" "vs \<noteq> []" by auto
  have ty: "type_of (ArrayValue vs) = ArrayType (length vs) t" using t type_of_array by simp
  have w: "bit_count (flat_bits (ArrayValue vs)) = Type_GetFlatBitCount (ArrayType (length vs) t)"
    using leaves_ok[OF ArrayValue.prems(1)] unfolding ty by (simp add: flat_bits_def)
  have "Value_Array vs = Some (Inr (ArrayValue vs))" using Value_Array_eq[of vs] ArrayValue.prems by auto
  then show ?case unfolding ty using w unflatten_array_ok[of vs t 0] ArrayValue t by (subst UnflattenBitsToValue.simps) auto
qed auto

text \<open>Every number of the width of a type is the flat number of one of its values.\<close>

lemma flat_surj:
  "inhabited t \<Longrightarrow> \<not> TypeHasToken t \<Longrightarrow> x < 2 ^ Type_GetFlatBitCount t \<Longrightarrow> \<exists>v. wf_value v \<and> type_of v = t \<and> concat_nat (leaves v) = x"
proof (induction t arbitrary: x)
  case (BitsType n)
  then show ?case by (intro exI[of _ "BitsValue (mk_bits n x)"]) (simp add: take_bit_nat_eq_self)
next
  case (TupleType ts)
  have "\<exists>vs. (\<forall>v \<in> set vs. wf_value v) \<and> map type_of vs = us \<and> concat_nat (concat (map leaves vs)) = x"
    if "set us \<subseteq> set ts" "x < 2 ^ sum_list (map Type_GetFlatBitCount us)" for us x
    using that
  proof (induction us arbitrary: x)
    case (Cons u us)
    let ?w = "sum_list (map Type_GetFlatBitCount us)"
    have x: "x div 2 ^ ?w < 2 ^ Type_GetFlatBitCount u" "x mod 2 ^ ?w < 2 ^ ?w"
      using Cons.prems(2) by (simp_all add: less_mult_imp_div_less power_add)
    obtain v where v: "wf_value v" "type_of v = u" "concat_nat (leaves v) = x div 2 ^ ?w"
      using TupleType.IH[of u "x div 2 ^ ?w"] TupleType.prems(1,2) Cons.prems(1) x(1) by (auto simp: list_ex_iff)
    obtain vs where vs: "\<forall>v \<in> set vs. wf_value v" "map type_of vs = us" "concat_nat (concat (map leaves vs)) = x mod 2 ^ ?w"
      using Cons.IH[of "x mod 2 ^ ?w"] Cons.prems(1) x(2) by auto
    have "width_sum (concat (map leaves vs)) = ?w" using width_sum_elements[OF vs(1)] vs(2) by (auto simp: comp_def)
    then show ?case using v vs by (intro exI[of _ "v # vs"]) (simp add: concat_nat_append)
  qed simp
  from this[of ts x] TupleType.prems(3) obtain vs where "\<forall>v \<in> set vs. wf_value v" "map type_of vs = ts" "concat_nat (concat (map leaves vs)) = x" by auto
  then show ?case by (intro exI[of _ "TupleValue vs"]) simp
next
  case (ArrayType n t)
  let ?w = "Type_GetFlatBitCount t"
  have "\<exists>vs. (\<forall>v \<in> set vs. wf_value v \<and> type_of v = t) \<and> length vs = k \<and> concat_nat (concat (rev (map leaves vs))) = x"
    if "x < 2 ^ (k * ?w)" for k x
    using that
  proof (induction k arbitrary: x)
    case (Suc k)
    have x: "x div 2 ^ ?w < 2 ^ (k * ?w)" "x mod 2 ^ ?w < 2 ^ ?w"
      using Suc.prems by (simp_all add: less_mult_imp_div_less power_add mult.commute)
    obtain v where v: "wf_value v" "type_of v = t" "concat_nat (leaves v) = x mod 2 ^ ?w"
      using ArrayType.IH[of "x mod 2 ^ ?w"] ArrayType.prems(1,2) x(2) by auto
    obtain vs where vs: "\<forall>v \<in> set vs. wf_value v \<and> type_of v = t" "length vs = k" "concat_nat (concat (rev (map leaves vs))) = x div 2 ^ ?w"
      using Suc.IH[of "x div 2 ^ ?w"] x(1) by auto
    have "width_sum (leaves v) = ?w" using leaves_ok[OF v(1)] v(2) by simp
    then show ?case using v vs by (intro exI[of _ "v # vs"]) (simp add: concat_nat_append)
  qed simp
  from this[of x n] ArrayType.prems(3) obtain vs where vs: "\<forall>v \<in> set vs. wf_value v \<and> type_of v = t" "length vs = n"
    "concat_nat (concat (rev (map leaves vs))) = x" by (auto simp: mult.commute)
  moreover have "vs \<noteq> []" using vs(2) ArrayType.prems(1) by auto
  ultimately show ?case by (intro exI[of _ "ArrayValue vs"]) (auto simp: type_of_array simp del: type_of.simps)
qed auto

lemma unflatten_ok:
  assumes "inhabited t" "\<not> TypeHasToken t" "bm_inv b" "bit_count b = Type_GetFlatBitCount t"
  shows "\<exists>v. UnflattenBitsToValue b t = Some (Inr v) \<and> wf_value v \<and> type_of v = t \<and> FlattenValueToBits v = Some b"
proof -
  obtain v where v: "wf_value v" "type_of v = t" "concat_nat (leaves v) = uval b"
    using flat_surj[OF assms(1,2), of "uval b"] assms(3,4) by (auto simp: bm_inv_def)
  have f: "token_free v" using token_free_type[OF v(1)] v(2) assms(2) by simp
  have "flat_bits v = b" using leaves_ok[OF v(1)] v assms(3,4) bm_inv_eq_mk_bits[of b] by (simp add: flat_bits_def)
  then show ?thesis using unflatten_flat_bits[OF v(1) f] FlattenValueToBits_eq[OF v(1) f] v by (intro exI[of _ v]) (simp add: flat_bits_def)
qed

end
