(* ===== verification/IrNode.thy ===== *)
theory IrNode
  imports IrValue
begin

text \<open>
  The nodes, functions and packages of the IR as data. The node classes are rendered at build time from
  \<open>xls/ir/op_specification.py\<close>; a node here is its operation with the attributes of its class, its type and its
  operands. Nodes are referred to by their position in the function's node list, where the sources use addresses,
  and functions by their position in the package. Attributes that count or index are natural numbers, which is
  what the verifier's tests for negative attributes establish. The second part is the traversal of a function by a
  visitor (\<open>Node::Accept\<close>, \<open>FunctionBase::Accept\<close>).
\<close>

section \<open>Operations\<close>

datatype bin_op = kAdd | kSub | kUDiv | kSDiv | kUMod | kSMod | kShll | kShra | kShrl
datatype compare_op = kEq | kNe | kSGe | kSGt | kSLe | kSLt | kUGe | kUGt | kULe | kULt
datatype nary_op = kNaryAnd | kNaryNand | kNaryNor | kNaryOr | kNaryXor
datatype reduction_op = kAndReduce | kOrReduce | kXorReduce
datatype un_op = kIdentity | kNeg | kNot | kReverse
datatype extend_op = kSignExt | kZeroExt
datatype mul_op = kUMul | kSMul
datatype LsbOrMsb = kLsb | kMsb

text \<open>The operations of procs and blocks.\<close>

datatype stateful_op = kReceive | kSend | kRegisterRead | kRegisterWrite | kInputPort | kOutputPort | kInstantiationInput | kInstantiationOutput

text \<open>The steps of a format string: literal text or the format of the next argument.\<close>

type_synonym format_step = "string + FormatPreference"

datatype node_op =
    BinOp bin_op
  | CompareOp compare_op
  | NaryOp nary_op
  | BitwiseReductionOp reduction_op
  | UnOp un_op
  | ExtendOp extend_op nat
  | ArithOp mul_op
  | PartialProductOp mul_op nat
  | AfterAll
  | Array
  | ArrayIndex
  | ArraySlice nat
  | ArrayUpdate
  | ArrayConcat
  | Assert string
  | Trace "format_step list"
  | Cover string
  | BitSlice nat nat
  | BitSliceUpdateOp
  | DynamicBitSlice nat
  | Concat
  | CountedFor int int nat
  | DynamicCountedFor nat
  | Decode nat
  | Encode
  | Gate
  | Invoke nat
  | Literal ir_value
  | MapOp nat
  | OneHot LsbOrMsb
  | OneHotSelect
  | PrioritySelect
  | Param string
  | Select nat bool
  | TupleOp
  | TupleIndex nat
  | StatefulOp stateful_op

record ir_node =
  node_op :: node_op
  node_type :: ir_type
  operands :: "nat list"

record ir_function =
  fn_nodes :: "ir_node list"
  fn_params :: "nat list"
  fn_return :: nat

type_synonym package = "ir_function list"

section \<open>Accessors\<close>

definition operand :: "ir_node \<Rightarrow> nat \<Rightarrow> nat option" where
  "operand node i = list_at (operands node) i"

definition node_at :: "ir_function \<Rightarrow> nat \<Rightarrow> ir_node option" where
  "node_at f n = list_at (fn_nodes f) n"

definition GetType :: "ir_function \<Rightarrow> nat \<Rightarrow> ir_type option" where
  "GetType f n = do { node \<leftarrow> node_at f n; Some (node_type node) }"

fun bits_width :: "ir_type \<Rightarrow> nat option" where
  "bits_width (BitsType w) = Some w" | "bits_width _ = None"

definition BitCountOrDie :: "ir_node \<Rightarrow> nat option" where
  "BitCountOrDie node = bits_width (node_type node)"

definition operand_type :: "ir_function \<Rightarrow> ir_node \<Rightarrow> nat \<Rightarrow> ir_type option" where
  "operand_type f node i = do { m \<leftarrow> operand node i; GetType f m }"

text \<open>
  The operands of the classes with several: the cases of a select follow the selector and its default value is the
  last operand; the indices of an array operation follow the array (and the update value).
\<close>

definition Select_cases :: "nat \<Rightarrow> ir_node \<Rightarrow> nat list" where
  "Select_cases cases_size node = take cases_size (tl (operands node))"

definition Select_default :: "bool \<Rightarrow> ir_node \<Rightarrow> nat option option" where
  "Select_default has_default node = (if has_default then do { check (operands node \<noteq> []); Some (Some (last (operands node))) } else Some None)"

section \<open>Traversal\<close>

text \<open>
  \<open>Node::Accept\<close>: depth first, operands before the node, each node once. The set of nodes being traversed is the
  same before and after a call that returns, so it is an argument; meeting one of them again is the error of a
  cycle.
\<close>

function Node_Accept :: "(nat \<Rightarrow> 's \<Rightarrow> 's status_or option) \<Rightarrow> nat list list \<Rightarrow> nat \<Rightarrow> nat list \<Rightarrow> nat list \<times> 's \<Rightarrow> (nat list \<times> 's) status_or option"
  and Accept_operands :: "(nat \<Rightarrow> 's \<Rightarrow> 's status_or option) \<Rightarrow> nat list list \<Rightarrow> nat list \<Rightarrow> nat list \<Rightarrow> nat list \<times> 's \<Rightarrow> (nat list \<times> 's) status_or option" where
  "Node_Accept visit graph n traversing s =
     (if n \<in> set (fst s) then Some (Inr s)
      else if n \<in> set traversing then Some (Inl InternalError)
      else if n < length graph then
        or_return (Accept_operands visit graph (graph ! n) (n # traversing) s)
          (\<lambda>s. or_return (visit n (snd s)) (\<lambda>st. Some (Inr (n # fst s, st))))
      else None)"
| "Accept_operands visit graph [] traversing s = Some (Inr s)"
| "Accept_operands visit graph (m # ms) traversing s =
     or_return (Node_Accept visit graph m traversing s) (Accept_operands visit graph ms traversing)"
  by pat_completeness auto
termination
proof (relation "measures [\<lambda>x. case x of Inl (v, g, n, t, s) \<Rightarrow> card ({0..<length g} - set t)
      | Inr (v, g, ms, t, s) \<Rightarrow> card ({0..<length g} - set t),
    \<lambda>x. case x of Inl (v, g, n, t, s) \<Rightarrow> 0 | Inr (v, g, ms, t, s) \<Rightarrow> Suc (length ms)]", goal_cases)
  case (2 visit graph n traversing s)
  have "{0..<length graph} - set (n # traversing) \<subset> {0..<length graph} - set traversing" using 2(2,3) by fastforce
  from psubset_card_mono[OF _ this] show ?case by simp
qed auto

definition node_users :: "nat list list \<Rightarrow> nat \<Rightarrow> nat list" where
  "node_users graph n = filter (\<lambda>m. n \<in> set (graph ! m)) [0..<length graph]"

text \<open>
  \<open>FunctionBase::Accept\<close> starts at the nodes without users. A node that is not reached lies on a cycle or behind one,
  which is an error.
\<close>

fun Accept_roots :: "(nat \<Rightarrow> 's \<Rightarrow> 's status_or option) \<Rightarrow> nat list list \<Rightarrow> nat list \<Rightarrow> nat list \<times> 's \<Rightarrow> (nat list \<times> 's) status_or option" where
  "Accept_roots visit graph [] s = Some (Inr s)"
| "Accept_roots visit graph (n # ns) s =
     or_return (if node_users graph n = [] then Node_Accept visit graph n [] s else Some (Inr s)) (Accept_roots visit graph ns)"

definition FunctionBase_Accept :: "(nat \<Rightarrow> 's \<Rightarrow> 's status_or option) \<Rightarrow> ir_function \<Rightarrow> 's \<Rightarrow> 's status_or option" where
  "FunctionBase_Accept visit f st = (let graph = map operands (fn_nodes f) in
     or_return (Accept_roots visit graph [0..<length graph] ([], st))
       (\<lambda>s. if length (fst s) < length graph then Some (Inl InternalError) else Some (Inr (snd s))))"

end
