(* ===== verification/IrInterpreter.thy ===== *)
theory IrInterpreter
  imports IrNode
begin

text \<open>
  The interpreter of the IR: the handlers of \<open>IrInterpreter\<close> (\<open>xls/interpreter/ir_interpreter.cc\<close>), the handler of
  parameters and \<open>InterpretFunction\<close> (\<open>xls/interpreter/function_interpreter.cc\<close>). A handler gets the number of its
  node, the node and the state of the interpreter (the values computed so far and the recorded events) and returns
  the new state, an error status, or \<open>None\<close> where the sources abort. Calls of other functions go through the
  argument \<open>call\<close>, which \<open>InterpretFunction\<close> ties to itself with a bound on the depth of calls.
\<close>

section \<open>State\<close>

record InterpreterEvents =
  trace_msgs :: "string list"
  assert_msgs :: "string list"

record interp_state =
  node_values :: "nat \<rightharpoonup> ir_value"
  events :: InterpreterEvents

definition no_events :: InterpreterEvents where
  "no_events = \<lparr>trace_msgs = [], assert_msgs = []\<rparr>"

type_synonym handler = "interp_state \<Rightarrow> interp_state status_or option"

text \<open>\<open>InterpretFunction\<close> of another function, as the handlers call it: value and events, or an error.\<close>

type_synonym interpret_call = "nat \<Rightarrow> ir_value list \<Rightarrow> (ir_value \<times> InterpreterEvents) status_or option"

definition AddInterpreterEvents :: "InterpreterEvents \<Rightarrow> interp_state \<Rightarrow> interp_state" where
  "AddInterpreterEvents e st = st\<lparr>events :=
     \<lparr>trace_msgs = trace_msgs (events st) @ trace_msgs e, assert_msgs = assert_msgs (events st) @ assert_msgs e\<rparr>\<rparr>"

definition ResolveAsValue :: "interp_state \<Rightarrow> nat \<Rightarrow> ir_value option" where
  "ResolveAsValue st n = node_values st n"

definition ResolveAsBits :: "interp_state \<Rightarrow> nat \<Rightarrow> bits option" where
  "ResolveAsBits st n = do { v \<leftarrow> node_values st n; Value_bits v }"

definition ResolveAsBool :: "interp_state \<Rightarrow> nat \<Rightarrow> bool option" where
  "ResolveAsBool st n = do { b \<leftarrow> ResolveAsBits st n; check (bit_count b = 1); Bits_IsAllOnes b }"

fun ResolveAsValues :: "interp_state \<Rightarrow> nat list \<Rightarrow> ir_value list option" where
  "ResolveAsValues st [] = Some []"
| "ResolveAsValues st (n # ns) = do { v \<leftarrow> ResolveAsValue st n; vs \<leftarrow> ResolveAsValues st ns; Some (v # vs) }"

fun ResolveAsBitsVector :: "interp_state \<Rightarrow> nat list \<Rightarrow> bits list option" where
  "ResolveAsBitsVector st [] = Some []"
| "ResolveAsBitsVector st (n # ns) = do { b \<leftarrow> ResolveAsBits st n; bs \<leftarrow> ResolveAsBitsVector st ns; Some (b # bs) }"

definition BitsToBoundedUint64 :: "bits \<Rightarrow> u64 \<Rightarrow> u64 option" where
  "BitsToBoundedUint64 b upper_limit = do {
     above \<leftarrow> (if MinBitCountUnsigned upper_limit \<le> bit_count b then do { u \<leftarrow> UBits upper_limit (bit_count b); UGreaterThan b u } else Some False);
     if above then Some upper_limit else do { r \<leftarrow> Bits_ToUint64 b; status_value r } }"

definition ResolveAsBoundedUint64 :: "interp_state \<Rightarrow> nat \<Rightarrow> u64 \<Rightarrow> u64 option" where
  "ResolveAsBoundedUint64 st n upper_limit = do { b \<leftarrow> ResolveAsBits st n; BitsToBoundedUint64 b upper_limit }"

definition SetValueResult :: "nat \<Rightarrow> ir_node \<Rightarrow> ir_value \<Rightarrow> handler" where
  "SetValueResult n node result st =
     (if node_values st n \<noteq> None then Some (Inl InternalError)
      else do {
        c \<leftarrow> ValueConformsToType result (node_type node);
        if \<not> c then Some (Inl InternalError)
        else Some (Inr (st\<lparr>node_values := (node_values st)(n \<mapsto> result)\<rparr>)) })"

definition SetBitsResult :: "nat \<Rightarrow> ir_node \<Rightarrow> bits \<Rightarrow> handler" where
  "SetBitsResult n node result st =
     (case node_type node of
        BitsType w \<Rightarrow> if w \<noteq> bit_count result then Some (Inl InternalError) else SetValueResult n node (BitsValue result) st
      | _ \<Rightarrow> Some (Inl InternalError))"

definition SetUint64Result :: "nat \<Rightarrow> ir_node \<Rightarrow> u64 \<Rightarrow> handler" where
  "SetUint64Result n node result st =
     (case node_type node of
        BitsType w \<Rightarrow> if w < MinBitCountUnsigned result then Some (Inl InternalError)
          else do { b \<leftarrow> UBits result w; SetValueResult n node (BitsValue b) st }
      | _ \<Rightarrow> Some (Inl InternalError))"

section \<open>Operations on bits\<close>

text \<open>The handlers that apply one function to their operands; \<open>g\<close> may abort.\<close>

definition operand_bits :: "ir_node \<Rightarrow> interp_state \<Rightarrow> nat \<Rightarrow> bits option" where
  "operand_bits node st i = do { m \<leftarrow> operand node i; ResolveAsBits st m }"

definition operand_value :: "ir_node \<Rightarrow> interp_state \<Rightarrow> nat \<Rightarrow> ir_value option" where
  "operand_value node st i = do { m \<leftarrow> operand node i; ResolveAsValue st m }"

definition unary_bits :: "(bits \<Rightarrow> bits option) \<Rightarrow> nat \<Rightarrow> ir_node \<Rightarrow> handler" where
  "unary_bits g n node st = do { x \<leftarrow> operand_bits node st 0; r \<leftarrow> g x; SetBitsResult n node r st }"

definition binary_bits :: "(bits \<Rightarrow> bits \<Rightarrow> bits option) \<Rightarrow> nat \<Rightarrow> ir_node \<Rightarrow> handler" where
  "binary_bits g n node st = do {
     x \<leftarrow> operand_bits node st 0; y \<leftarrow> operand_bits node st 1; r \<leftarrow> g x y; SetBitsResult n node r st }"

definition compare_bits :: "(bits \<Rightarrow> bits \<Rightarrow> bool option) \<Rightarrow> nat \<Rightarrow> ir_node \<Rightarrow> handler" where
  "compare_bits g n node st = do {
     x \<leftarrow> operand_bits node st 0; y \<leftarrow> operand_bits node st 1; r \<leftarrow> g x y; SetUint64Result n node (of_bool r) st }"

definition nary_bits :: "(bits list \<Rightarrow> bits option) \<Rightarrow> nat \<Rightarrow> ir_node \<Rightarrow> handler" where
  "nary_bits g n node st = do { xs \<leftarrow> ResolveAsBitsVector st (operands node); r \<leftarrow> g xs; SetBitsResult n node r st }"

definition HandleAdd :: "('n, 'z) bignum_lib_scheme \<Rightarrow> nat \<Rightarrow> ir_node \<Rightarrow> handler" where
  "HandleAdd L = binary_bits (bits_ops_Add L)"

definition HandleSub :: "('n, 'z) bignum_lib_scheme \<Rightarrow> nat \<Rightarrow> ir_node \<Rightarrow> handler" where
  "HandleSub L = binary_bits (bits_ops_Sub L)"

definition HandleUDiv :: "('n, 'z) bignum_lib_scheme \<Rightarrow> nat \<Rightarrow> ir_node \<Rightarrow> handler" where
  "HandleUDiv L = binary_bits (bits_ops_UDiv L)"

definition HandleSDiv :: "('n, 'z) bignum_lib_scheme \<Rightarrow> nat \<Rightarrow> ir_node \<Rightarrow> handler" where
  "HandleSDiv L = binary_bits (bits_ops_SDiv L)"

definition HandleUMod :: "('n, 'z) bignum_lib_scheme \<Rightarrow> nat \<Rightarrow> ir_node \<Rightarrow> handler" where
  "HandleUMod L = binary_bits (bits_ops_UMod L)"

definition HandleSMod :: "('n, 'z) bignum_lib_scheme \<Rightarrow> nat \<Rightarrow> ir_node \<Rightarrow> handler" where
  "HandleSMod L = binary_bits (bits_ops_SMod L)"

definition HandleAndReduce :: "nat \<Rightarrow> ir_node \<Rightarrow> handler" where
  "HandleAndReduce = unary_bits AndReduce"

definition HandleOrReduce :: "nat \<Rightarrow> ir_node \<Rightarrow> handler" where
  "HandleOrReduce = unary_bits OrReduce"

definition HandleXorReduce :: "nat \<Rightarrow> ir_node \<Rightarrow> handler" where
  "HandleXorReduce = unary_bits XorReduce"

definition HandleNaryAnd :: "nat \<Rightarrow> ir_node \<Rightarrow> handler" where
  "HandleNaryAnd = nary_bits NaryAnd"

definition HandleNaryNand :: "nat \<Rightarrow> ir_node \<Rightarrow> handler" where
  "HandleNaryNand = nary_bits NaryNand"

definition HandleNaryNor :: "nat \<Rightarrow> ir_node \<Rightarrow> handler" where
  "HandleNaryNor = nary_bits NaryNor"

definition HandleNaryOr :: "nat \<Rightarrow> ir_node \<Rightarrow> handler" where
  "HandleNaryOr = nary_bits NaryOr"

definition HandleNaryXor :: "nat \<Rightarrow> ir_node \<Rightarrow> handler" where
  "HandleNaryXor = nary_bits NaryXor"

definition HandleNeg :: "('n, 'z) bignum_lib_scheme \<Rightarrow> nat \<Rightarrow> ir_node \<Rightarrow> handler" where
  "HandleNeg L = unary_bits (bits_ops_Negate L)"

definition HandleNot :: "nat \<Rightarrow> ir_node \<Rightarrow> handler" where
  "HandleNot = unary_bits bits_ops_Not"

definition HandleReverse :: "nat \<Rightarrow> ir_node \<Rightarrow> handler" where
  "HandleReverse = unary_bits bits_ops_Reverse"

definition HandleSignExtend :: "nat \<Rightarrow> nat \<Rightarrow> ir_node \<Rightarrow> handler" where
  "HandleSignExtend new_bit_count = unary_bits (\<lambda>b. SignExtend b new_bit_count)"

definition HandleZeroExtend :: "nat \<Rightarrow> nat \<Rightarrow> ir_node \<Rightarrow> handler" where
  "HandleZeroExtend new_bit_count = unary_bits (\<lambda>b. ZeroExtend b new_bit_count)"

definition HandleBitSlice :: "nat \<Rightarrow> nat \<Rightarrow> nat \<Rightarrow> ir_node \<Rightarrow> handler" where
  "HandleBitSlice start width = unary_bits (\<lambda>b. Bits_Slice b start width)"

definition HandleConcat :: "nat \<Rightarrow> ir_node \<Rightarrow> handler" where
  "HandleConcat = nary_bits bits_ops_Concat"

definition HandleSGe :: "('n, 'z) bignum_lib_scheme \<Rightarrow> nat \<Rightarrow> ir_node \<Rightarrow> handler" where
  "HandleSGe L = compare_bits (SGreaterThanOrEqual L)"

definition HandleSGt :: "('n, 'z) bignum_lib_scheme \<Rightarrow> nat \<Rightarrow> ir_node \<Rightarrow> handler" where
  "HandleSGt L = compare_bits (SGreaterThan L)"

definition HandleSLe :: "('n, 'z) bignum_lib_scheme \<Rightarrow> nat \<Rightarrow> ir_node \<Rightarrow> handler" where
  "HandleSLe L = compare_bits (SLessThanOrEqual L)"

definition HandleSLt :: "('n, 'z) bignum_lib_scheme \<Rightarrow> nat \<Rightarrow> ir_node \<Rightarrow> handler" where
  "HandleSLt L = compare_bits (SLessThan L)"

definition HandleUGe :: "nat \<Rightarrow> ir_node \<Rightarrow> handler" where
  "HandleUGe = compare_bits UGreaterThanOrEqual"

definition HandleUGt :: "nat \<Rightarrow> ir_node \<Rightarrow> handler" where
  "HandleUGt = compare_bits UGreaterThan"

definition HandleULe :: "nat \<Rightarrow> ir_node \<Rightarrow> handler" where
  "HandleULe = compare_bits ULessThanOrEqual"

definition HandleULt :: "nat \<Rightarrow> ir_node \<Rightarrow> handler" where
  "HandleULt = compare_bits ULessThan"

definition HandleEq :: "nat \<Rightarrow> ir_node \<Rightarrow> handler" where
  "HandleEq n node st = do {
     x \<leftarrow> operand_value node st 0; y \<leftarrow> operand_value node st 1; e \<leftarrow> Value_eq x y; SetUint64Result n node (of_bool e) st }"

definition HandleNe :: "nat \<Rightarrow> ir_node \<Rightarrow> handler" where
  "HandleNe n node st = do {
     x \<leftarrow> operand_value node st 0; y \<leftarrow> operand_value node st 1; e \<leftarrow> Value_eq x y; SetUint64Result n node (of_bool (\<not> e)) st }"

definition shift_bits :: "(bits \<Rightarrow> nat \<Rightarrow> bits option) \<Rightarrow> nat \<Rightarrow> ir_node \<Rightarrow> handler" where
  "shift_bits g n node st = do {
     input \<leftarrow> operand_bits node st 0;
     m \<leftarrow> operand node 1;
     shift_amt \<leftarrow> ResolveAsBoundedUint64 st m (of_nat (bit_count input));
     r \<leftarrow> g input (unat shift_amt);
     SetBitsResult n node r st }"

definition HandleShll :: "nat \<Rightarrow> ir_node \<Rightarrow> handler" where
  "HandleShll = shift_bits ShiftLeftLogical"

definition HandleShra :: "nat \<Rightarrow> ir_node \<Rightarrow> handler" where
  "HandleShra = shift_bits ShiftRightArith"

definition HandleShrl :: "nat \<Rightarrow> ir_node \<Rightarrow> handler" where
  "HandleShrl = shift_bits ShiftRightLogical"

definition HandleSMul :: "('n, 'z) bignum_lib_scheme \<Rightarrow> nat \<Rightarrow> ir_node \<Rightarrow> handler" where
  "HandleSMul L n node st = do {
     mul_width \<leftarrow> BitCountOrDie node;
     x \<leftarrow> operand_bits node st 0; y \<leftarrow> operand_bits node st 1;
     result \<leftarrow> bits_ops_SMul L x y;
     r \<leftarrow> (if bit_count result > mul_width then Bits_Slice result 0 mul_width
        else if bit_count result < mul_width then SignExtend result mul_width else Some result);
     SetBitsResult n node r st }"

definition HandleUMul :: "('n, 'z) bignum_lib_scheme \<Rightarrow> nat \<Rightarrow> ir_node \<Rightarrow> handler" where
  "HandleUMul L n node st = do {
     mul_width \<leftarrow> BitCountOrDie node;
     x \<leftarrow> operand_bits node st 0; y \<leftarrow> operand_bits node st 1;
     result \<leftarrow> bits_ops_UMul L x y;
     r \<leftarrow> (if bit_count result > mul_width then Bits_Slice result 0 mul_width
        else if bit_count result < mul_width then ZeroExtend result mul_width else Some result);
     SetBitsResult n node r st }"

definition HandleSMulp :: "('n, 'z) bignum_lib_scheme \<Rightarrow> nat \<Rightarrow> nat \<Rightarrow> ir_node \<Rightarrow> handler" where
  "HandleSMulp L mul_width n node st = do {
     x \<leftarrow> operand_bits node st 0; y \<leftarrow> operand_bits node st 1;
     result \<leftarrow> bits_ops_SMul L x y;
     zero \<leftarrow> Bits_new mul_width;
     r \<leftarrow> (if bit_count result > mul_width then Bits_Slice result 0 mul_width
        else if bit_count result < mul_width then SignExtend result mul_width else Some result);
     SetValueResult n node (TupleValue [BitsValue zero, BitsValue r]) st }"

definition HandleUMulp :: "('n, 'z) bignum_lib_scheme \<Rightarrow> nat \<Rightarrow> nat \<Rightarrow> ir_node \<Rightarrow> handler" where
  "HandleUMulp L mul_width n node st = do {
     x \<leftarrow> operand_bits node st 0; y \<leftarrow> operand_bits node st 1;
     result \<leftarrow> bits_ops_UMul L x y;
     empty \<leftarrow> Bits_new mul_width;
     r \<leftarrow> (if bit_count result > mul_width then Bits_Slice result 0 mul_width
        else if bit_count result < mul_width then ZeroExtend result mul_width else Some result);
     SetValueResult n node (TupleValue [BitsValue empty, BitsValue r]) st }"

definition HandleBitSliceUpdate :: "nat \<Rightarrow> ir_node \<Rightarrow> handler" where
  "HandleBitSliceUpdate n node st = do {
     to_update \<leftarrow> operand_bits node st 0; start \<leftarrow> operand_bits node st 1; update_value \<leftarrow> operand_bits node st 2;
     out \<leftarrow> UGreaterThanOrEqual_int start (of_nat (bit_count to_update));
     if out then SetBitsResult n node to_update st
     else do {
       r \<leftarrow> Bits_ToUint64 start; start_index \<leftarrow> status_value r;
       u \<leftarrow> BitSliceUpdate to_update (unat start_index) update_value;
       SetBitsResult n node u st } }"

definition HandleDynamicBitSlice :: "nat \<Rightarrow> ir_function \<Rightarrow> nat \<Rightarrow> ir_node \<Rightarrow> handler" where
  "HandleDynamicBitSlice width f n node st = do {
     t \<leftarrow> operand_type f node 0; operand_width \<leftarrow> bits_width t;
     start_bits \<leftarrow> operand_bits node st 1;
     out \<leftarrow> UGreaterThanOrEqual_int start_bits (of_nat operand_width);
     if out then do { z \<leftarrow> Bits_new width; SetBitsResult n node z st }
     else do {
       r \<leftarrow> Bits_ToUint64 start_bits; start \<leftarrow> status_value r;
       x \<leftarrow> operand_bits node st 0;
       shifted_value \<leftarrow> ShiftRightLogical x (unat start);
       truncated_value \<leftarrow> Bits_Slice shifted_value 0 width;
       SetBitsResult n node truncated_value st } }"

text \<open>The decoded number is converted to \<open>int64_t\<close>.\<close>

definition HandleDecode :: "nat \<Rightarrow> ir_node \<Rightarrow> handler" where
  "HandleDecode n node st = do {
     x \<leftarrow> operand_bits node st 0;
     or_return (Bits_ToUint64 x) (\<lambda>input_value. do {
       w \<leftarrow> BitCountOrDie node;
       r \<leftarrow> (if sint input_value < int w then do { check (0 \<le> sint input_value); Bits_PowerOfTwo (nat (sint input_value)) w } else Bits_new w);
       SetBitsResult n node r st }) }"

definition HandleEncode :: "nat \<Rightarrow> ir_node \<Rightarrow> handler" where
  "HandleEncode n node st = do {
     input \<leftarrow> operand_bits node st 0;
     w \<leftarrow> BitCountOrDie node;
     zero \<leftarrow> Bits_new w;
     r \<leftarrow> for_state (\<lambda>i result. do {
            x \<leftarrow> Bits_Get input i;
            if x then do { u \<leftarrow> UBits (of_nat i) w; bits_ops_Or result u } else Some result }) [0..<bit_count input] zero;
     SetBitsResult n node r st }"

definition HandleOneHot :: "LsbOrMsb \<Rightarrow> nat \<Rightarrow> ir_node \<Rightarrow> handler" where
  "HandleOneHot priority n node st = do {
     output_width \<leftarrow> BitCountOrDie node;
     input \<leftarrow> operand_bits node st 0;
     found \<leftarrow> for_find (\<lambda>i. do {
            let index = (if priority = kLsb then i else bit_count input - i - 1);
            x \<leftarrow> Bits_Get input index;
            Some (if x then Some index else None) }) [0..<bit_count input];
     one \<leftarrow> UBits 1 output_width;
     (case found of
        Some index \<Rightarrow> do { r \<leftarrow> ShiftLeftLogical one index; SetBitsResult n node r st }
      | None \<Rightarrow> do { r \<leftarrow> ShiftLeftLogical one (output_width - 1); SetBitsResult n node r st }) }"

section \<open>Selects, tuples and arrays\<close>

definition HandleIdentity :: "nat \<Rightarrow> ir_node \<Rightarrow> handler" where
  "HandleIdentity n node st = do { v \<leftarrow> operand_value node st 0; SetValueResult n node v st }"

definition HandleLiteral :: "ir_value \<Rightarrow> nat \<Rightarrow> ir_node \<Rightarrow> handler" where
  "HandleLiteral v n node st = SetValueResult n node v st"

definition HandleAfterAll :: "nat \<Rightarrow> ir_node \<Rightarrow> handler" where
  "HandleAfterAll n node st = SetValueResult n node TokenValue st"

definition HandleTuple :: "nat \<Rightarrow> ir_node \<Rightarrow> handler" where
  "HandleTuple n node st = do { vs \<leftarrow> ResolveAsValues st (operands node); SetValueResult n node (TupleValue vs) st }"

definition HandleTupleIndex :: "nat \<Rightarrow> nat \<Rightarrow> ir_node \<Rightarrow> handler" where
  "HandleTupleIndex tuple_index n node st = do {
     v \<leftarrow> operand_value node st 0; es \<leftarrow> Value_elements v; e \<leftarrow> list_at es tuple_index; SetValueResult n node e st }"

definition HandleArray :: "nat \<Rightarrow> ir_node \<Rightarrow> handler" where
  "HandleArray n node st = do {
     vs \<leftarrow> ResolveAsValues st (operands node);
     or_return (Value_Array vs) (\<lambda>result. SetValueResult n node result st) }"

definition HandleGate :: "nat \<Rightarrow> ir_node \<Rightarrow> handler" where
  "HandleGate n node st = do {
     condition \<leftarrow> operand_bits node st 0;
     one \<leftarrow> Bits_IsOne condition;
     if one then do { v \<leftarrow> operand_value node st 1; SetValueResult n node v st }
     else do { z \<leftarrow> ZeroOfType (node_type node); SetValueResult n node z st } }"

fun array_index_loop :: "interp_state \<Rightarrow> nat list \<Rightarrow> ir_value \<Rightarrow> ir_value option" where
  "array_index_loop st [] v = Some v"
| "array_index_loop st (m # ms) v = do {
     es \<leftarrow> Value_elements v;
     idx \<leftarrow> ResolveAsBoundedUint64 st m (of_nat (length es) - 1);
     e \<leftarrow> list_at es (unat idx);
     array_index_loop st ms e }"

definition HandleArrayIndex :: "nat \<Rightarrow> ir_node \<Rightarrow> handler" where
  "HandleArrayIndex n node st = do {
     v \<leftarrow> operand_value node st 0;
     r \<leftarrow> array_index_loop st (tl (operands node)) v;
     SetValueResult n node r st }"

definition HandleArraySlice :: "nat \<Rightarrow> nat \<Rightarrow> ir_node \<Rightarrow> handler" where
  "HandleArraySlice width n node st = do {
     v \<leftarrow> operand_value node st 0;
     es \<leftarrow> Value_elements v;
     m \<leftarrow> operand node 1;
     start \<leftarrow> ResolveAsBoundedUint64 st m (of_nat (length es) - 1);
     sliced \<leftarrow> generate width (\<lambda>i. if length es \<le> unat start + i then do { check (es \<noteq> []); Some (last es) } else list_at es (unat start + i));
     or_return (Value_Array sliced) (\<lambda>result. SetValueResult n node result st) }"

fun SetArrayElement :: "bits list \<Rightarrow> ir_value \<Rightarrow> ir_value list \<Rightarrow> ir_value list status_or option" where
  "SetArrayElement [] v es = Some (Inl InternalError)"
| "SetArrayElement (i # indices) v es = do {
     index \<leftarrow> BitsToBoundedUint64 i (of_nat (length es));
     if length es \<le> unat index then Some (Inr es)
     else if indices = [] then Some (Inr (es[unat index := v]))
     else do {
       subelements \<leftarrow> Value_elements (es ! unat index);
       or_return (SetArrayElement indices v subelements) (\<lambda>sub.
         or_return (Value_Array sub) (\<lambda>array_element. Some (Inr (es[unat index := array_element])))) } }"

definition HandleArrayUpdate :: "nat \<Rightarrow> ir_node \<Rightarrow> handler" where
  "HandleArrayUpdate n node st = do {
     input_array \<leftarrow> operand_value node st 0;
     update_value \<leftarrow> operand_value node st 1;
     let indices = drop 2 (operands node);
     if indices = [] then SetValueResult n node update_value st
     else or_return (Some (GetElements input_array)) (\<lambda>array_elements. do {
       index_vector \<leftarrow> ResolveAsBitsVector st indices;
       or_return (SetArrayElement index_vector update_value array_elements) (\<lambda>es.
         or_return (Value_Array es) (\<lambda>result. SetValueResult n node result st)) }) }"

fun concat_elements :: "interp_state \<Rightarrow> nat list \<Rightarrow> ir_value list \<Rightarrow> ir_value list option" where
  "concat_elements st [] array_elements = Some array_elements"
| "concat_elements st (m # ms) array_elements = do {
     v \<leftarrow> ResolveAsValue st m; es \<leftarrow> Value_elements v; concat_elements st ms (array_elements @ es) }"

definition HandleArrayConcat :: "nat \<Rightarrow> ir_node \<Rightarrow> handler" where
  "HandleArrayConcat n node st = do {
     es \<leftarrow> concat_elements st (operands node) [];
     or_return (Value_Array es) (\<lambda>result. SetValueResult n node result st) }"

definition HandleSel :: "nat \<Rightarrow> bool \<Rightarrow> nat \<Rightarrow> ir_node \<Rightarrow> handler" where
  "HandleSel cases_size has_default n node st = do {
     selector \<leftarrow> operand_bits node st 0;
     limit \<leftarrow> UBits (of_nat (length (Select_cases cases_size node)) - 1) (bit_count selector);
     above \<leftarrow> UGreaterThan selector limit;
     if above then do {
       d \<leftarrow> Select_default has_default node;
       (case d of
          None \<Rightarrow> Some (Inl InternalError)
        | Some m \<Rightarrow> do { v \<leftarrow> ResolveAsValue st m; SetValueResult n node v st }) }
     else or_return (Bits_ToUint64 selector) (\<lambda>i. do {
       m \<leftarrow> list_at (Select_cases cases_size node) (unat i);
       v \<leftarrow> ResolveAsValue st m;
       SetValueResult n node v st }) }"

definition HandlePrioritySel :: "nat \<Rightarrow> ir_node \<Rightarrow> handler" where
  "HandlePrioritySel n node st = do {
     selector \<leftarrow> operand_bits node st 0;
     found \<leftarrow> for_find (\<lambda>i. do { x \<leftarrow> Bits_Get selector i; Some (if x then Some i else None) }) [0..<bit_count selector];
     (case found of
        Some i \<Rightarrow> do { m \<leftarrow> list_at (tl (operands node)) i; v \<leftarrow> ResolveAsValue st m; SetValueResult n node v st }
      | None \<Rightarrow> do { z \<leftarrow> ZeroOfType (node_type node); SetValueResult n node z st }) }"

text \<open>\<open>DeepOr\<close> of values of one type, element by element.\<close>

fun elements_at :: "ir_value list \<Rightarrow> nat \<Rightarrow> ir_value list option" where
  "elements_at [] i = Some []"
| "elements_at (v # vs) i = do { es \<leftarrow> Value_elements v; e \<leftarrow> list_at es i; rest \<leftarrow> elements_at vs i; Some (e # rest) }"

fun collect :: "(nat \<Rightarrow> 'a status_or option) \<Rightarrow> nat list \<Rightarrow> 'a list \<Rightarrow> 'a list status_or option" where
  "collect f [] acc = Some (Inr acc)"
| "collect f (i # is) acc = or_return (f i) (\<lambda>x. collect f is (acc @ [x]))"

fun DeepOr :: "ir_type \<Rightarrow> ir_value list \<Rightarrow> ir_value status_or option"
  and DeepOr_tuple :: "ir_type list \<Rightarrow> nat \<Rightarrow> ir_value list \<Rightarrow> ir_value list \<Rightarrow> ir_value list status_or option" where
  "DeepOr (BitsType w) inputs = do {
     zero \<leftarrow> Bits_new w;
     r \<leftarrow> for_state (\<lambda>v result. do { b \<leftarrow> Value_bits v; bits_ops_Or result b }) inputs zero;
     Some (Inr (BitsValue r)) }"
| "DeepOr (ArrayType k t) inputs =
     or_return (collect (\<lambda>i. do { es \<leftarrow> elements_at inputs i; DeepOr t es }) [0..<k] []) Value_Array"
| "DeepOr (TupleType ts) inputs = or_return (DeepOr_tuple ts 0 inputs []) (\<lambda>es. Some (Inr (TupleValue es)))"
| "DeepOr TokenType inputs = Some (Inl InternalError)"
| "DeepOr_tuple [] i inputs acc = Some (Inr acc)"
| "DeepOr_tuple (t # ts) i inputs acc = do {
     es \<leftarrow> elements_at inputs i;
     or_return (DeepOr t es) (\<lambda>e. DeepOr_tuple ts (i + 1) inputs (acc @ [e])) }"

definition HandleOneHotSel :: "nat \<Rightarrow> ir_node \<Rightarrow> handler" where
  "HandleOneHotSel n node st = do {
     selector \<leftarrow> operand_bits node st 0;
     activated_inputs \<leftarrow> for_state (\<lambda>i acc. do {
            x \<leftarrow> Bits_Get selector i;
            if x then do { m \<leftarrow> list_at (tl (operands node)) i; v \<leftarrow> ResolveAsValue st m; Some (acc @ [v]) } else Some acc })
          [0..<bit_count selector] [];
     or_return (DeepOr (node_type node) activated_inputs) (\<lambda>result. SetValueResult n node result st) }"

section \<open>Events and calls\<close>

definition HandleAssert :: "string \<Rightarrow> nat \<Rightarrow> ir_node \<Rightarrow> handler" where
  "HandleAssert message n node st = do {
     m \<leftarrow> operand node 1;
     c \<leftarrow> ResolveAsBool st m;
     SetValueResult n node TokenValue
       (if c then st else st\<lparr>events := (events st)\<lparr>assert_msgs := assert_msgs (events st) @ [message]\<rparr>\<rparr>) }"

fun trace_output :: "interp_state \<Rightarrow> format_step list \<Rightarrow> nat list \<Rightarrow> string \<Rightarrow> string status_or option" where
  "trace_output st [] args out = (if args \<noteq> [] then Some (Inl InternalError) else Some (Inr out))"
| "trace_output st (Inl text # steps) args out = trace_output st steps args (out @ text)"
| "trace_output st (Inr format # steps) args out =
     (case args of
        [] \<Rightarrow> Some (Inl InternalError)
      | m # ms \<Rightarrow> do { v \<leftarrow> ResolveAsValue st m; s \<leftarrow> ToHumanString format v; trace_output st steps ms (out @ s) })"

definition HandleTrace :: "format_step list \<Rightarrow> nat \<Rightarrow> ir_node \<Rightarrow> handler" where
  "HandleTrace format n node st = do {
     m \<leftarrow> operand node 1;
     c \<leftarrow> ResolveAsBool st m;
     if c then or_return (trace_output st format (drop 2 (operands node)) []) (\<lambda>out.
       SetValueResult n node TokenValue (st\<lparr>events := (events st)\<lparr>trace_msgs := trace_msgs (events st) @ [out]\<rparr>\<rparr>))
     else SetValueResult n node TokenValue st }"

text \<open>\<open>HandleCover\<close> records nothing and sets no value.\<close>

definition HandleCover :: "nat \<Rightarrow> ir_node \<Rightarrow> handler" where
  "HandleCover n node st = Some (Inr st)"

definition HandleInvoke :: "package \<Rightarrow> interpret_call \<Rightarrow> nat \<Rightarrow> nat \<Rightarrow> ir_node \<Rightarrow> handler" where
  "HandleInvoke pkg call to_apply n node st = do {
     g \<leftarrow> list_at pkg to_apply;
     args \<leftarrow> generate (length (fn_params g)) (operand_value node st);
     or_return (call to_apply args) (\<lambda>(v, e). SetValueResult n node v (AddInterpreterEvents e st)) }"

fun map_elements :: "interpret_call \<Rightarrow> nat \<Rightarrow> ir_value list \<Rightarrow> ir_value list \<Rightarrow> interp_state \<Rightarrow> (ir_value list \<times> interp_state) status_or option" where
  "map_elements call to_apply [] results st = Some (Inr (results, st))"
| "map_elements call to_apply (v # vs) results st =
     or_return (call to_apply [v]) (\<lambda>(r, e). map_elements call to_apply vs (results @ [r]) (AddInterpreterEvents e st))"

definition HandleMap :: "interpret_call \<Rightarrow> nat \<Rightarrow> nat \<Rightarrow> ir_node \<Rightarrow> handler" where
  "HandleMap call to_apply n node st = do {
     v \<leftarrow> operand_value node st 0;
     es \<leftarrow> Value_elements v;
     or_return (map_elements call to_apply es [] st) (\<lambda>(results, st).
       or_return (Value_Array results) (\<lambda>result_array. SetValueResult n node result_array st)) }"

text \<open>The loop of \<open>counted_for\<close>: \<open>k\<close> iterations are left and the induction variable is \<open>iv\<close>.\<close>

fun counted_for_loop :: "interpret_call \<Rightarrow> nat \<Rightarrow> nat \<Rightarrow> int \<Rightarrow> ir_value list \<Rightarrow> nat \<Rightarrow> int \<Rightarrow> ir_value \<Rightarrow> interp_state \<Rightarrow>
  (ir_value \<times> interp_state) status_or option" where
  "counted_for_loop call body width stride invariant_args 0 iv loop_state st = Some (Inr (loop_state, st))"
| "counted_for_loop call body width stride invariant_args (Suc k) iv loop_state st = do {
     i \<leftarrow> UBits (word_of_int iv) width;
     or_return (call body (BitsValue i # loop_state # invariant_args)) (\<lambda>(v, e).
       counted_for_loop call body width stride invariant_args k (iv + stride) v (AddInterpreterEvents e st)) }"

definition param_type :: "ir_function \<Rightarrow> nat \<Rightarrow> ir_type option" where
  "param_type g i = do { m \<leftarrow> list_at (fn_params g) i; GetType g m }"

definition HandleCountedFor :: "package \<Rightarrow> interpret_call \<Rightarrow> int \<Rightarrow> int \<Rightarrow> nat \<Rightarrow> nat \<Rightarrow> ir_node \<Rightarrow> handler" where
  "HandleCountedFor pkg call trip_count stride body n node st = do {
     g \<leftarrow> list_at pkg body;
     invariant_args \<leftarrow> ResolveAsValues st (tl (operands node));
     loop_state \<leftarrow> operand_value node st 0;
     t \<leftarrow> param_type g 0;
     width \<leftarrow> bits_width t;
     or_return (counted_for_loop call body width stride invariant_args (nat trip_count) 0 loop_state st)
       (\<lambda>(v, st). SetValueResult n node v st) }"

partial_function (option) dynamic_for_loop ::
  "('n, 'z) bignum_lib_scheme \<Rightarrow> interpret_call \<Rightarrow> nat \<Rightarrow> bits \<Rightarrow> bits \<Rightarrow> ir_value list \<Rightarrow> bits \<Rightarrow> ir_value \<Rightarrow> interp_state \<Rightarrow>
   (ir_value \<times> interp_state) status_or option" where
  "dynamic_for_loop L call body index_limit extended_stride invariant_args index loop_state st = do {
     stop \<leftarrow> SEqual L index index_limit;
     if stop then Some (Inr (loop_state, st))
     else do {
       r \<leftarrow> call body (BitsValue index # loop_state # invariant_args);
       (case r of
          Inl err \<Rightarrow> Some (Inl err)
        | Inr ve \<Rightarrow> do {
            index' \<leftarrow> bits_ops_Add L index extended_stride;
            dynamic_for_loop L call body index_limit extended_stride invariant_args index' (fst ve) (AddInterpreterEvents (snd ve) st) }) } }"

definition HandleDynamicCountedFor :: "('n, 'z) bignum_lib_scheme \<Rightarrow> package \<Rightarrow> interpret_call \<Rightarrow> nat \<Rightarrow> nat \<Rightarrow> ir_node \<Rightarrow> handler" where
  "HandleDynamicCountedFor L pkg call body n node st = do {
     g \<leftarrow> list_at pkg body;
     invariant_args \<leftarrow> ResolveAsValues st (drop 3 (operands node));
     loop_state \<leftarrow> operand_value node st 0;
     t \<leftarrow> param_type g 0;
     width \<leftarrow> bits_width t;
     trip_count_unsigned \<leftarrow> operand_bits node st 1;
     trip_count \<leftarrow> ZeroExtend trip_count_unsigned (bit_count trip_count_unsigned + 1);
     stride \<leftarrow> operand_bits node st 2;
     index_limit \<leftarrow> bits_ops_SMul L trip_count stride;
     index \<leftarrow> Bits_new width;
     extended_stride \<leftarrow> SignExtend stride width;
     or_return (dynamic_for_loop L call body index_limit extended_stride invariant_args index loop_state st)
       (\<lambda>(v, st). SetValueResult n node v st) }"

text \<open>\<open>FunctionInterpreter::HandleParam\<close>.\<close>

definition HandleParam :: "ir_function \<Rightarrow> ir_value list \<Rightarrow> nat \<Rightarrow> ir_node \<Rightarrow> handler" where
  "HandleParam f args n node st =
     (case find (\<lambda>i. fn_params f ! i = n) [0..<length (fn_params f)] of
        None \<Rightarrow> Some (Inl InvalidArgumentError)
      | Some index \<Rightarrow> if length args \<le> index then Some (Inl InternalError) else SetValueResult n node (args ! index) st)"

section \<open>The interpreter\<close>

fun visit_bin_op :: "('n, 'z) bignum_lib_scheme \<Rightarrow> bin_op \<Rightarrow> nat \<Rightarrow> ir_node \<Rightarrow> handler" where
  "visit_bin_op L kAdd = HandleAdd L"
| "visit_bin_op L kSub = HandleSub L"
| "visit_bin_op L kUDiv = HandleUDiv L"
| "visit_bin_op L kSDiv = HandleSDiv L"
| "visit_bin_op L kUMod = HandleUMod L"
| "visit_bin_op L kSMod = HandleSMod L"
| "visit_bin_op L kShll = HandleShll"
| "visit_bin_op L kShra = HandleShra"
| "visit_bin_op L kShrl = HandleShrl"

fun visit_compare_op :: "('n, 'z) bignum_lib_scheme \<Rightarrow> compare_op \<Rightarrow> nat \<Rightarrow> ir_node \<Rightarrow> handler" where
  "visit_compare_op L kEq = HandleEq"
| "visit_compare_op L kNe = HandleNe"
| "visit_compare_op L kSGe = HandleSGe L"
| "visit_compare_op L kSGt = HandleSGt L"
| "visit_compare_op L kSLe = HandleSLe L"
| "visit_compare_op L kSLt = HandleSLt L"
| "visit_compare_op L kUGe = HandleUGe"
| "visit_compare_op L kUGt = HandleUGt"
| "visit_compare_op L kULe = HandleULe"
| "visit_compare_op L kULt = HandleULt"

fun visit_nary_op :: "nary_op \<Rightarrow> nat \<Rightarrow> ir_node \<Rightarrow> handler" where
  "visit_nary_op kNaryAnd = HandleNaryAnd"
| "visit_nary_op kNaryNand = HandleNaryNand"
| "visit_nary_op kNaryNor = HandleNaryNor"
| "visit_nary_op kNaryOr = HandleNaryOr"
| "visit_nary_op kNaryXor = HandleNaryXor"

fun visit_un_op :: "('n, 'z) bignum_lib_scheme \<Rightarrow> un_op \<Rightarrow> nat \<Rightarrow> ir_node \<Rightarrow> handler" where
  "visit_un_op L kIdentity = HandleIdentity"
| "visit_un_op L kNeg = HandleNeg L"
| "visit_un_op L kNot = HandleNot"
| "visit_un_op L kReverse = HandleReverse"

fun visit_reduction_op :: "reduction_op \<Rightarrow> nat \<Rightarrow> ir_node \<Rightarrow> handler" where
  "visit_reduction_op kAndReduce = HandleAndReduce"
| "visit_reduction_op kOrReduce = HandleOrReduce"
| "visit_reduction_op kXorReduce = HandleXorReduce"

text \<open>\<open>VisitSingleNode\<close> on the function interpreter: the dispatch on the operation.\<close>

fun visit_op :: "('n, 'z) bignum_lib_scheme \<Rightarrow> package \<Rightarrow> interpret_call \<Rightarrow> ir_function \<Rightarrow> ir_value list \<Rightarrow> node_op \<Rightarrow> nat \<Rightarrow> ir_node \<Rightarrow> handler" where
  "visit_op L pkg call f args (BinOp b) = visit_bin_op L b"
| "visit_op L pkg call f args (CompareOp c) = visit_compare_op L c"
| "visit_op L pkg call f args (NaryOp k) = visit_nary_op k"
| "visit_op L pkg call f args (BitwiseReductionOp r) = visit_reduction_op r"
| "visit_op L pkg call f args (UnOp u) = visit_un_op L u"
| "visit_op L pkg call f args (ExtendOp kSignExt w) = HandleSignExtend w"
| "visit_op L pkg call f args (ExtendOp kZeroExt w) = HandleZeroExtend w"
| "visit_op L pkg call f args (ArithOp kUMul) = HandleUMul L"
| "visit_op L pkg call f args (ArithOp kSMul) = HandleSMul L"
| "visit_op L pkg call f args (PartialProductOp kUMul w) = HandleUMulp L w"
| "visit_op L pkg call f args (PartialProductOp kSMul w) = HandleSMulp L w"
| "visit_op L pkg call f args AfterAll = HandleAfterAll"
| "visit_op L pkg call f args Array = HandleArray"
| "visit_op L pkg call f args ArrayIndex = HandleArrayIndex"
| "visit_op L pkg call f args (ArraySlice w) = HandleArraySlice w"
| "visit_op L pkg call f args ArrayUpdate = HandleArrayUpdate"
| "visit_op L pkg call f args ArrayConcat = HandleArrayConcat"
| "visit_op L pkg call f args (Assert m) = HandleAssert m"
| "visit_op L pkg call f args (Trace fmt) = HandleTrace fmt"
| "visit_op L pkg call f args (Cover c) = HandleCover"
| "visit_op L pkg call f args (BitSlice s w) = HandleBitSlice s w"
| "visit_op L pkg call f args BitSliceUpdateOp = HandleBitSliceUpdate"
| "visit_op L pkg call f args (DynamicBitSlice w) = HandleDynamicBitSlice w f"
| "visit_op L pkg call f args Concat = HandleConcat"
| "visit_op L pkg call f args (CountedFor trip stride body) = HandleCountedFor pkg call trip stride body"
| "visit_op L pkg call f args (DynamicCountedFor body) = HandleDynamicCountedFor L pkg call body"
| "visit_op L pkg call f args (Decode w) = HandleDecode"
| "visit_op L pkg call f args Encode = HandleEncode"
| "visit_op L pkg call f args Gate = HandleGate"
| "visit_op L pkg call f args (Invoke g) = HandleInvoke pkg call g"
| "visit_op L pkg call f args (Literal v) = HandleLiteral v"
| "visit_op L pkg call f args (MapOp g) = HandleMap call g"
| "visit_op L pkg call f args (OneHot p) = HandleOneHot p"
| "visit_op L pkg call f args OneHotSelect = HandleOneHotSel"
| "visit_op L pkg call f args PrioritySelect = HandlePrioritySel"
| "visit_op L pkg call f args (Param name) = HandleParam f args"
| "visit_op L pkg call f args (Select k d) = HandleSel k d"
| "visit_op L pkg call f args TupleOp = HandleTuple"
| "visit_op L pkg call f args (TupleIndex i) = HandleTupleIndex i"
| "visit_op L pkg call f args (StatefulOp s) = (\<lambda>n node st. Some (Inl UnimplementedError))"

definition visit_node :: "('n, 'z) bignum_lib_scheme \<Rightarrow> package \<Rightarrow> interpret_call \<Rightarrow> ir_function \<Rightarrow> ir_value list \<Rightarrow> nat \<Rightarrow> handler" where
  "visit_node L pkg call f args n st = do { node \<leftarrow> node_at f n; visit_op L pkg call f args (node_op node) n node st }"

text \<open>\<open>Package::GetTypeForValue\<close>; the type of an empty array has no element type to look up and aborts.\<close>

fun GetTypeForValue :: "ir_value \<Rightarrow> ir_type option"
  and GetTypesForValues :: "ir_value list \<Rightarrow> ir_type list option" where
  "GetTypeForValue (BitsValue b) = Some (BitsType (bit_count b))"
| "GetTypeForValue (TupleValue vs) = do { ts \<leftarrow> GetTypesForValues vs; Some (TupleType ts) }"
| "GetTypeForValue (ArrayValue vs) =
     (case vs of [] \<Rightarrow> None | v # _ \<Rightarrow> do { t \<leftarrow> GetTypeForValue v; Some (ArrayType (length vs) t) })"
| "GetTypeForValue TokenValue = Some TokenType"
| "GetTypeForValue InvalidValue = None"
| "GetTypesForValues [] = Some []"
| "GetTypesForValues (v # vs) = do { t \<leftarrow> GetTypeForValue v; ts \<leftarrow> GetTypesForValues vs; Some (t # ts) }"

fun check_args :: "ir_function \<Rightarrow> nat \<Rightarrow> ir_value list \<Rightarrow> unit status_or option" where
  "check_args f argno [] = Some (Inr ())"
| "check_args f argno (v # vs) = do {
     t \<leftarrow> param_type f argno;
     u \<leftarrow> GetTypeForValue v;
     if u \<noteq> t then Some (Inl InvalidArgumentError) else check_args f (argno + 1) vs }"

text \<open>
  \<open>InterpretFunction\<close>. Calls nest as deep as the fuel allows; a package whose functions only call functions before them
  needs no more than the position of the function plus one.
\<close>

fun InterpretFunction :: "('n, 'z) bignum_lib_scheme \<Rightarrow> package \<Rightarrow> nat \<Rightarrow> interpret_call" where
  "InterpretFunction L pkg 0 i args = None"
| "InterpretFunction L pkg (Suc fuel) i args = do {
     f \<leftarrow> list_at pkg i;
     if length args \<noteq> length (fn_params f) then Some (Inl InvalidArgumentError)
     else or_return (check_args f 0 args) (\<lambda>_.
       or_return (FunctionBase_Accept (visit_node L pkg (InterpretFunction L pkg fuel) f args) f
           \<lparr>node_values = Map.empty, events = no_events\<rparr>) (\<lambda>st. do {
         result \<leftarrow> ResolveAsValue st (fn_return f);
         Some (Inr (result, events st)) })) }"

end
