(* ===== verification/IrVerifier.thy ===== *)
theory IrVerifier
  imports IrInterpreter
begin

text \<open>
  The verifier of functions (\<open>xls/ir/verifier.cc\<close>): the expectations on operand counts and types, the rule of every
  operation as \<open>NodeChecker\<close> states it, the checks of a node and of a function. The last part reads off what an
  accepted check guarantees.
\<close>

section \<open>Expectations\<close>

text \<open>
  A check succeeds, returns an error status, or aborts where an accessor does. \<open>checks\<close> is a sequence of
  \<open>XLS_RETURN_IF_ERROR\<close>: the first check that does not succeed decides. Two types are compared by address in the
  sources and as trees here; the package holds one object per type.
\<close>

type_synonym verdict = "unit status_or option"

fun checks :: "verdict list \<Rightarrow> verdict" where
  "checks [] = Some (Inr ())"
| "checks (c # cs) = or_return c (\<lambda>_. checks cs)"

definition expect :: "bool \<Rightarrow> verdict" where
  "expect b = Some (if b then Inr () else Inl InternalError)"

definition expect_argument :: "bool \<Rightarrow> verdict" where
  "expect_argument b = Some (if b then Inr () else Inl InvalidArgumentError)"

definition ExpectOperandCount :: "ir_node \<Rightarrow> nat \<Rightarrow> verdict" where
  "ExpectOperandCount node expected = expect (length (operands node) = expected)"

definition ExpectOperandCountGt :: "ir_node \<Rightarrow> nat \<Rightarrow> verdict" where
  "ExpectOperandCountGt node expected = expect (expected < length (operands node))"

definition ExpectSameType :: "ir_type \<Rightarrow> ir_type \<Rightarrow> verdict" where
  "ExpectSameType type_a type_b = expect (type_a = type_b)"

definition ExpectOperandHasType :: "ir_function \<Rightarrow> ir_node \<Rightarrow> nat \<Rightarrow> ir_type \<Rightarrow> verdict" where
  "ExpectOperandHasType f node operand_no type = do { t \<leftarrow> operand_type f node operand_no; expect (t = type) }"

definition ExpectDoesNotContainToken :: "ir_node \<Rightarrow> verdict" where
  "ExpectDoesNotContainToken node = expect (\<not> TypeHasToken (node_type node))"

definition ExpectHasTokenType :: "ir_node \<Rightarrow> verdict" where
  "ExpectHasTokenType node = expect (node_type node = TokenType)"

text \<open>The default arguments of the sources, a null type and a negative size, are \<open>None\<close>.\<close>

fun matches_array :: "ir_type \<Rightarrow> ir_type option \<Rightarrow> nat option \<Rightarrow> bool" where
  "matches_array (ArrayType k t) expected_element_type expected_size \<longleftrightarrow>
     (case expected_element_type of None \<Rightarrow> True | Some u \<Rightarrow> t = u) \<and> (case expected_size of None \<Rightarrow> True | Some s \<Rightarrow> k = s)"
| "matches_array _ expected_element_type expected_size \<longleftrightarrow> False"

definition ExpectHasArrayType :: "ir_type \<Rightarrow> ir_type option \<Rightarrow> nat option \<Rightarrow> verdict" where
  "ExpectHasArrayType type expected_element_type expected_size = expect (matches_array type expected_element_type expected_size)"

definition ExpectOperandHasArrayType :: "ir_function \<Rightarrow> ir_node \<Rightarrow> nat \<Rightarrow> ir_type option \<Rightarrow> nat option \<Rightarrow> verdict" where
  "ExpectOperandHasArrayType f node operand_no expected_element_type expected_size = do {
     t \<leftarrow> operand_type f node operand_no; expect (matches_array t expected_element_type expected_size) }"

definition ExpectHasTupleType :: "ir_type \<Rightarrow> verdict" where
  "ExpectHasTupleType type = expect (IsTuple type)"

fun matches_bits :: "ir_type \<Rightarrow> nat option \<Rightarrow> bool" where
  "matches_bits (BitsType w) expected_bit_count \<longleftrightarrow> (case expected_bit_count of None \<Rightarrow> True | Some k \<Rightarrow> w = k)"
| "matches_bits _ expected_bit_count \<longleftrightarrow> False"

definition ExpectHasBitsType :: "ir_type \<Rightarrow> nat option \<Rightarrow> verdict" where
  "ExpectHasBitsType type expected_bit_count = expect (matches_bits type expected_bit_count)"

definition ExpectOperandHasBitsType :: "ir_function \<Rightarrow> ir_node \<Rightarrow> nat \<Rightarrow> nat option \<Rightarrow> verdict" where
  "ExpectOperandHasBitsType f node operand_no expected_bit_count = do {
     t \<leftarrow> operand_type f node operand_no; expect (matches_bits t expected_bit_count) }"

definition ExpectOperandHasTokenType :: "ir_function \<Rightarrow> ir_node \<Rightarrow> nat \<Rightarrow> verdict" where
  "ExpectOperandHasTokenType f node operand_no = do { t \<leftarrow> operand_type f node operand_no; expect (t = TokenType) }"

definition ExpectAllSameType :: "ir_function \<Rightarrow> ir_node \<Rightarrow> verdict" where
  "ExpectAllSameType f node = checks (map (\<lambda>i. ExpectOperandHasType f node i (node_type node)) [0..<length (operands node)])"

definition ExpectAllSameBitsType :: "ir_function \<Rightarrow> ir_node \<Rightarrow> verdict" where
  "ExpectAllSameBitsType f node = checks [ExpectHasBitsType (node_type node) None, ExpectAllSameType f node]"

text \<open>Only the equality of the types is tested, not that they are types of bits.\<close>

definition ExpectOperandsSameBitsType :: "ir_function \<Rightarrow> ir_node \<Rightarrow> verdict" where
  "ExpectOperandsSameBitsType f node =
     (if operands node = [] then Some (Inr ())
      else do {
        type \<leftarrow> operand_type f node 0;
        checks (map (\<lambda>i. ExpectOperandHasType f node i type) [1..<length (operands node)]) })"

fun ExpectValueIsType :: "ir_value \<Rightarrow> ir_type \<Rightarrow> verdict"
  and ExpectValuesAreTypes :: "ir_value list \<Rightarrow> ir_type list \<Rightarrow> verdict"
  and ExpectValuesAreType :: "ir_value list \<Rightarrow> ir_type \<Rightarrow> verdict" where
  "ExpectValueIsType (BitsValue b) t = expect (t = BitsType (bit_count b))"
| "ExpectValueIsType TokenValue t = expect (t = TokenType)"
| "ExpectValueIsType (TupleValue vs) t =
     (case t of TupleType ts \<Rightarrow> if length vs = length ts then ExpectValuesAreTypes vs ts else expect False | _ \<Rightarrow> expect False)"
| "ExpectValueIsType (ArrayValue vs) t =
     (case t of ArrayType k u \<Rightarrow> if length vs = k then ExpectValuesAreType vs u else expect False | _ \<Rightarrow> expect False)"
| "ExpectValueIsType InvalidValue t = expect False"
| "ExpectValuesAreTypes (v # vs) (t # ts) = or_return (ExpectValueIsType v t) (\<lambda>_. ExpectValuesAreTypes vs ts)"
| "ExpectValuesAreTypes [] ts = Some (Inr ())"
| "ExpectValuesAreTypes (v # vs) [] = Some (Inr ())"
| "ExpectValuesAreType [] t = Some (Inr ())"
| "ExpectValuesAreType (v # vs) t = or_return (ExpectValueIsType v t) (\<lambda>_. ExpectValuesAreType vs t)"

definition VerifyMultidimensionalArrayIndex :: "ir_function \<Rightarrow> nat list \<Rightarrow> ir_type \<Rightarrow> verdict" where
  "VerifyMultidimensionalArrayIndex f indices type_to_index = checks
     (map (\<lambda>m. do { t \<leftarrow> GetType f m; expect_argument (IsBits t) }) indices @
      [expect_argument (length indices \<le> GetArrayDimensionCount type_to_index)])"

section \<open>The rules of the operations\<close>

text \<open>The rules that several operations share.\<close>

definition check_same_bits :: "nat \<Rightarrow> ir_function \<Rightarrow> ir_node \<Rightarrow> verdict" where
  "check_same_bits k f node = checks [ExpectOperandCount node k, ExpectAllSameBitsType f node]"

definition check_nary :: "ir_function \<Rightarrow> ir_node \<Rightarrow> verdict" where
  "check_nary f node = checks [ExpectOperandCountGt node 0, ExpectAllSameBitsType f node]"

definition check_reduction :: "ir_function \<Rightarrow> ir_node \<Rightarrow> verdict" where
  "check_reduction f node = checks
     [ExpectOperandCount node 1, ExpectOperandHasBitsType f node 0 None, ExpectHasBitsType (node_type node) (Some 1)]"

definition check_compare :: "ir_function \<Rightarrow> ir_node \<Rightarrow> verdict" where
  "check_compare f node = checks
     [ExpectOperandCount node 2, ExpectOperandsSameBitsType f node, ExpectHasBitsType (node_type node) (Some 1)]"

definition HandleShiftOp :: "ir_function \<Rightarrow> ir_node \<Rightarrow> verdict" where
  "HandleShiftOp f node = checks
     [ExpectHasBitsType (node_type node) None,
      do { t \<leftarrow> operand_type f node 0; ExpectSameType t (node_type node) },
      ExpectOperandHasBitsType f node 1 None]"

fun check_bin_op :: "bin_op \<Rightarrow> ir_function \<Rightarrow> ir_node \<Rightarrow> verdict" where
  "check_bin_op kShll = HandleShiftOp"
| "check_bin_op kShra = HandleShiftOp"
| "check_bin_op kShrl = HandleShiftOp"
| "check_bin_op _ = check_same_bits 2"

definition NodeChecker_HandleIdentity :: "ir_function \<Rightarrow> ir_node \<Rightarrow> verdict" where
  "NodeChecker_HandleIdentity f node = checks [ExpectOperandCount node 1, ExpectAllSameType f node]"

fun check_un_op :: "un_op \<Rightarrow> ir_function \<Rightarrow> ir_node \<Rightarrow> verdict" where
  "check_un_op kIdentity = NodeChecker_HandleIdentity"
| "check_un_op _ = check_same_bits 1"

definition HandleExtendOp :: "nat \<Rightarrow> ir_function \<Rightarrow> ir_node \<Rightarrow> verdict" where
  "HandleExtendOp new_bit_count f node = checks
     [ExpectOperandCount node 1, ExpectOperandHasBitsType f node 0 None,
      do { t \<leftarrow> operand_type f node 0; operand_bit_count \<leftarrow> bits_width t; expect (operand_bit_count \<le> new_bit_count) },
      ExpectHasBitsType (node_type node) (Some new_bit_count)]"

definition check_mul :: "ir_function \<Rightarrow> ir_node \<Rightarrow> verdict" where
  "check_mul f node = checks
     [ExpectOperandCount node 2, ExpectOperandHasBitsType f node 0 None, ExpectOperandHasBitsType f node 1 None,
      ExpectHasBitsType (node_type node) None]"

definition check_mulp :: "ir_function \<Rightarrow> ir_node \<Rightarrow> verdict" where
  "check_mulp f node = checks
     [ExpectOperandCount node 2, ExpectOperandHasBitsType f node 0 None, ExpectOperandHasBitsType f node 1 None,
      ExpectHasTupleType (node_type node),
      expect (case node_type node of TupleType [a, b] \<Rightarrow> IsBits a \<and> b = a | _ \<Rightarrow> False)]"

definition NodeChecker_HandleAssert :: "ir_function \<Rightarrow> ir_node \<Rightarrow> verdict" where
  "NodeChecker_HandleAssert f node = checks
     [ExpectOperandCount node 2, ExpectOperandHasTokenType f node 0, ExpectOperandHasBitsType f node 1 (Some 1), ExpectHasTokenType node]"

definition OperandsExpectedByFormat :: "format_step list \<Rightarrow> nat" where
  "OperandsExpectedByFormat format = length (filter (\<lambda>step. case step of Inl _ \<Rightarrow> False | Inr _ \<Rightarrow> True) format)"

definition NodeChecker_HandleTrace :: "format_step list \<Rightarrow> ir_function \<Rightarrow> ir_node \<Rightarrow> verdict" where
  "NodeChecker_HandleTrace format f node = checks
     ([ExpectOperandHasTokenType f node 0, ExpectOperandHasBitsType f node 1 (Some 1)] @
      map (\<lambda>i. ExpectOperandHasBitsType f node i None) [2..<length (operands node)] @
      [ExpectOperandCount node (OperandsExpectedByFormat format + 2), ExpectHasTokenType node])"

definition NodeChecker_HandleCover :: "ir_function \<Rightarrow> ir_node \<Rightarrow> verdict" where
  "NodeChecker_HandleCover f node = checks
     [ExpectOperandCount node 2, ExpectOperandHasTokenType f node 0, ExpectOperandHasBitsType f node 1 (Some 1), ExpectHasTokenType node]"

definition NodeChecker_HandleAfterAll :: "ir_function \<Rightarrow> ir_node \<Rightarrow> verdict" where
  "NodeChecker_HandleAfterAll f node = checks
     (ExpectHasTokenType node # map (ExpectOperandHasTokenType f node) [0..<length (operands node)])"

definition NodeChecker_HandleArray :: "ir_function \<Rightarrow> ir_node \<Rightarrow> verdict" where
  "NodeChecker_HandleArray f node =
     (case node_type node of
        ArrayType k t \<Rightarrow> checks (ExpectOperandCount node k # map (\<lambda>i. ExpectOperandHasType f node i t) [0..<length (operands node)])
      | _ \<Rightarrow> expect False)"

definition NodeChecker_HandleBitSlice :: "nat \<Rightarrow> nat \<Rightarrow> ir_function \<Rightarrow> ir_node \<Rightarrow> verdict" where
  "NodeChecker_HandleBitSlice start width f node = checks
     [ExpectHasBitsType (node_type node) (Some width), ExpectOperandCount node 1, ExpectOperandHasBitsType f node 0 None,
      do { t \<leftarrow> operand_type f node 0; w \<leftarrow> bits_width t; expect (int64_wrap (int (start + width)) \<le> int w) }]"

definition NodeChecker_HandleDynamicBitSlice :: "nat \<Rightarrow> ir_function \<Rightarrow> ir_node \<Rightarrow> verdict" where
  "NodeChecker_HandleDynamicBitSlice width f node = checks
     [ExpectHasBitsType (node_type node) (Some width), ExpectOperandCount node 2,
      ExpectOperandHasBitsType f node 0 None, ExpectOperandHasBitsType f node 1 None,
      do { t \<leftarrow> operand_type f node 0; w \<leftarrow> bits_width t; expect (width \<le> w) }]"

definition NodeChecker_HandleBitSliceUpdate :: "ir_function \<Rightarrow> ir_node \<Rightarrow> verdict" where
  "NodeChecker_HandleBitSliceUpdate f node = checks
     [ExpectOperandHasBitsType f node 0 None, ExpectOperandHasBitsType f node 1 None, ExpectOperandHasBitsType f node 2 None,
      do { t \<leftarrow> operand_type f node 0; w \<leftarrow> bits_width t; ExpectHasBitsType (node_type node) (Some w) }]"

fun concat_bits :: "ir_function \<Rightarrow> nat list \<Rightarrow> nat \<Rightarrow> nat status_or option" where
  "concat_bits f [] total_bits = Some (Inr total_bits)"
| "concat_bits f (m # ms) total_bits = do {
     t \<leftarrow> GetType f m;
     or_return (ExpectHasBitsType t None) (\<lambda>_. do { w \<leftarrow> bits_width t; concat_bits f ms (total_bits + w) }) }"

definition NodeChecker_HandleConcat :: "ir_function \<Rightarrow> ir_node \<Rightarrow> verdict" where
  "NodeChecker_HandleConcat f node =
     or_return (concat_bits f (operands node) 0) (\<lambda>total_bits. ExpectHasBitsType (node_type node) (Some total_bits))"

definition NodeChecker_HandleDecode :: "nat \<Rightarrow> ir_function \<Rightarrow> ir_node \<Rightarrow> verdict" where
  "NodeChecker_HandleDecode width f node = checks
     [ExpectOperandHasBitsType f node 0 None, ExpectHasBitsType (node_type node) (Some width),
      do { t \<leftarrow> operand_type f node 0; w \<leftarrow> bits_width t; expect (\<not> (w < 63 \<and> 2 ^ w < width)) }]"

definition NodeChecker_HandleEncode :: "ir_function \<Rightarrow> ir_node \<Rightarrow> verdict" where
  "NodeChecker_HandleEncode f node = checks
     [ExpectOperandHasBitsType f node 0 None,
      do { t \<leftarrow> operand_type f node 0; w \<leftarrow> bits_width t; ExpectHasBitsType (node_type node) (Some (MinBitCountUnsigned (of_nat w - 1))) }]"

definition NodeChecker_HandleOneHot :: "ir_function \<Rightarrow> ir_node \<Rightarrow> verdict" where
  "NodeChecker_HandleOneHot f node = checks
     [ExpectOperandCount node 1, ExpectOperandHasBitsType f node 0 None,
      do { t \<leftarrow> operand_type f node 0; w \<leftarrow> bits_width t; ExpectHasBitsType (node_type node) (Some (w + 1)) }]"

definition NodeChecker_HandleGate :: "ir_function \<Rightarrow> ir_node \<Rightarrow> verdict" where
  "NodeChecker_HandleGate f node = checks
     [ExpectOperandCount node 2, ExpectOperandHasBitsType f node 0 (Some 1), ExpectOperandHasType f node 1 (node_type node)]"

definition NodeChecker_HandleArrayIndex :: "ir_function \<Rightarrow> ir_node \<Rightarrow> verdict" where
  "NodeChecker_HandleArrayIndex f node = checks
     [ExpectOperandCountGt node 0,
      do { t \<leftarrow> operand_type f node 0; VerifyMultidimensionalArrayIndex f (tl (operands node)) t },
      ExpectDoesNotContainToken node,
      do { t \<leftarrow> operand_type f node 0;
           or_return (Some (GetIndexedElementType t (length (operands node) - 1))) (\<lambda>indexed_type. expect_argument (node_type node = indexed_type)) }]"

definition NodeChecker_HandleArraySlice :: "nat \<Rightarrow> ir_function \<Rightarrow> ir_node \<Rightarrow> verdict" where
  "NodeChecker_HandleArraySlice width f node = checks
     [ExpectOperandHasArrayType f node 0 None None, ExpectOperandHasBitsType f node 1 None, ExpectDoesNotContainToken node,
      do { t \<leftarrow> operand_type f node 0;
           (case t of
              ArrayType k u \<Rightarrow> checks [ExpectHasArrayType (node_type node) (Some u) (Some width), expect_argument (k \<noteq> 0)]
            | _ \<Rightarrow> None) },
      expect_argument (0 < width)]"

definition NodeChecker_HandleArrayUpdate :: "ir_function \<Rightarrow> ir_node \<Rightarrow> verdict" where
  "NodeChecker_HandleArrayUpdate f node = checks
     [ExpectOperandCountGt node 1,
      do { t \<leftarrow> operand_type f node 0; ExpectSameType (node_type node) t },
      do { t \<leftarrow> operand_type f node 0; VerifyMultidimensionalArrayIndex f (drop 2 (operands node)) t },
      do { t \<leftarrow> operand_type f node 0;
           or_return (Some (GetIndexedElementType t (length (operands node) - 2))) (\<lambda>indexed_type. do {
             u \<leftarrow> operand_type f node 1; expect_argument (u = indexed_type) }) }]"

fun array_concat_size :: "ir_function \<Rightarrow> nat list \<Rightarrow> ir_type option \<Rightarrow> nat \<Rightarrow> (ir_type option \<times> nat) status_or option" where
  "array_concat_size f [] zeroth_element_type total_size = Some (Inr (zeroth_element_type, total_size))"
| "array_concat_size f (m # ms) zeroth_element_type total_size = do {
     t \<leftarrow> GetType f m;
     (case t of
        ArrayType k u \<Rightarrow>
          (case zeroth_element_type of
             None \<Rightarrow> array_concat_size f ms (Some u) (total_size + k)
           | Some z \<Rightarrow> if u \<noteq> z then Some (Inl InternalError) else array_concat_size f ms (Some z) (total_size + k))
      | _ \<Rightarrow> Some (Inl InternalError)) }"

definition NodeChecker_HandleArrayConcat :: "ir_function \<Rightarrow> ir_node \<Rightarrow> verdict" where
  "NodeChecker_HandleArrayConcat f node = checks
     [ExpectOperandCountGt node 0,
      or_return (array_concat_size f (operands node) None 0) (\<lambda>(t, total_size). ExpectHasArrayType (node_type node) t (Some total_size))]"

definition NodeChecker_HandleLiteral :: "ir_value \<Rightarrow> ir_node \<Rightarrow> verdict" where
  "NodeChecker_HandleLiteral v node = checks [ExpectOperandCount node 0, ExpectValueIsType v (node_type node)]"

definition NodeChecker_HandleOneHotSel :: "ir_function \<Rightarrow> ir_node \<Rightarrow> verdict" where
  "NodeChecker_HandleOneHotSel f node = checks
     [ExpectOperandCountGt node 1, ExpectOperandHasBitsType f node 0 None, ExpectDoesNotContainToken node,
      do { t \<leftarrow> operand_type f node 0; selector_width \<leftarrow> bits_width t; expect (selector_width = length (operands node) - 1) }]"

definition NodeChecker_HandlePrioritySel :: "ir_function \<Rightarrow> ir_node \<Rightarrow> verdict" where
  "NodeChecker_HandlePrioritySel f node = checks
     [ExpectOperandCountGt node 1, ExpectOperandHasBitsType f node 0 None, ExpectDoesNotContainToken node,
      do { t \<leftarrow> operand_type f node 0; selector_width \<leftarrow> bits_width t; expect (selector_width = length (operands node) - 1) }]"

definition NodeChecker_HandleSel :: "nat \<Rightarrow> bool \<Rightarrow> ir_function \<Rightarrow> ir_node \<Rightarrow> verdict" where
  "NodeChecker_HandleSel cases_size has_default f node =
     (let cases = Select_cases cases_size node;
          minimum_selector_width = MinBitCountUnsigned (of_nat (length cases) - 1);
          power_of_2_cases = IsPowerOfTwo (of_nat (length cases)) in
      checks
        ([ExpectOperandCountGt node 1, ExpectOperandHasBitsType f node 0 None, ExpectDoesNotContainToken node,
          do { t \<leftarrow> operand_type f node 0; selector_width \<leftarrow> bits_width t;
               checks
                 [expect (minimum_selector_width \<le> selector_width),
                  expect (\<not> (selector_width = minimum_selector_width \<and> power_of_2_cases \<and> has_default)),
                  expect (\<not> ((selector_width > minimum_selector_width \<or> (selector_width = minimum_selector_width \<and> \<not> power_of_2_cases)) \<and> \<not> has_default))] }] @
         map (\<lambda>m. do { t \<leftarrow> GetType f m; expect (t = node_type node) }) cases))"

definition NodeChecker_HandleTuple :: "ir_function \<Rightarrow> ir_node \<Rightarrow> verdict" where
  "NodeChecker_HandleTuple f node =
     (case node_type node of
        TupleType ts \<Rightarrow> checks
          (expect (length ts = length (operands node)) #
           map (\<lambda>i. do { t \<leftarrow> list_at ts i; ExpectOperandHasType f node i t }) [0..<length (operands node)])
      | _ \<Rightarrow> expect False)"

definition NodeChecker_HandleTupleIndex :: "nat \<Rightarrow> ir_function \<Rightarrow> ir_node \<Rightarrow> verdict" where
  "NodeChecker_HandleTupleIndex index f node = checks
     [ExpectOperandCount node 1,
      do { t \<leftarrow> operand_type f node 0;
           (case t of
              TupleType ts \<Rightarrow> if index < length ts then ExpectSameType (node_type node) (ts ! index) else expect False
            | _ \<Rightarrow> expect False) }]"

section \<open>The rules of calls\<close>

definition return_type_of :: "ir_function \<Rightarrow> ir_type option" where
  "return_type_of g = GetType g (fn_return g)"

definition NodeChecker_HandleInvoke :: "package \<Rightarrow> nat \<Rightarrow> ir_function \<Rightarrow> ir_node \<Rightarrow> verdict" where
  "NodeChecker_HandleInvoke pkg to_apply f node = do {
     func \<leftarrow> list_at pkg to_apply;
     checks
       (expect (length (operands node) = length (fn_params func)) #
        map (\<lambda>i. do { t \<leftarrow> param_type func i; ExpectOperandHasType f node i t }) [0..<length (operands node)] @
        [do { t \<leftarrow> return_type_of func; ExpectSameType (node_type node) t }]) }"

text \<open>The numbers of elements of the operand and of the result are not compared.\<close>

definition NodeChecker_HandleMap :: "package \<Rightarrow> nat \<Rightarrow> ir_function \<Rightarrow> ir_node \<Rightarrow> verdict" where
  "NodeChecker_HandleMap pkg to_apply f node = do {
     func \<leftarrow> list_at pkg to_apply;
     checks
       [ExpectOperandCount node 1, ExpectHasArrayType (node_type node) None None, ExpectOperandHasArrayType f node 0 None None,
        do { u \<leftarrow> return_type_of func; ExpectHasArrayType (node_type node) (Some u) None },
        expect (length (fn_params func) = 1),
        do { t \<leftarrow> param_type func 0; ExpectOperandHasArrayType f node 0 (Some t) None }] }"

definition check_invariant_args :: "ir_function \<Rightarrow> ir_function \<Rightarrow> nat list \<Rightarrow> verdict" where
  "check_invariant_args func f invariant_args = checks
     (map (\<lambda>i. do { t \<leftarrow> GetType f (invariant_args ! i); u \<leftarrow> param_type func (i + 2); expect (t = u) }) [0..<length invariant_args])"

text \<open>The largest value of the induction variable, computed in \<open>int64_t\<close>.\<close>

definition NodeChecker_HandleCountedFor :: "package \<Rightarrow> int \<Rightarrow> int \<Rightarrow> nat \<Rightarrow> ir_function \<Rightarrow> ir_node \<Rightarrow> verdict" where
  "NodeChecker_HandleCountedFor pkg trip_count stride body f node = do {
     func \<leftarrow> list_at pkg body;
     checks
       [expect (0 \<le> trip_count), ExpectOperandCountGt node 0,
        expect (length (fn_params func) = 2 + (length (operands node) - 1)),
        do { i_type \<leftarrow> param_type func 0;
             let min_i_bits = (if trip_count \<le> 1 then 1 else MinBitCountUnsigned (word_of_int (stride * (trip_count - 1))));
             expect (case i_type of BitsType w \<Rightarrow> min_i_bits \<le> w | _ \<Rightarrow> False) },
        do { data_type \<leftarrow> operand_type f node 0; body_ret_type \<leftarrow> return_type_of func; expect (data_type = body_ret_type) },
        do { data_type \<leftarrow> operand_type f node 0; body_data_param_type \<leftarrow> param_type func 1; expect (data_type = body_data_param_type) },
        check_invariant_args func f (tl (operands node)),
        ExpectOperandHasType f node 0 (node_type node)] }"

definition NodeChecker_HandleDynamicCountedFor :: "package \<Rightarrow> nat \<Rightarrow> ir_function \<Rightarrow> ir_node \<Rightarrow> verdict" where
  "NodeChecker_HandleDynamicCountedFor pkg body f node = do {
     func \<leftarrow> list_at pkg body;
     checks
       [expect (int (length (fn_params func)) = 2 + (int (length (operands node)) - 3)),
        do { index_type \<leftarrow> param_type func 0; expect (IsBits index_type) },
        do { data_type \<leftarrow> operand_type f node 0; body_ret_type \<leftarrow> return_type_of func; expect (data_type = body_ret_type) },
        do { data_type \<leftarrow> operand_type f node 0; body_data_param_type \<leftarrow> param_type func 1; expect (data_type = body_data_param_type) },
        check_invariant_args func f (drop 3 (operands node)),
        do { index_type \<leftarrow> param_type func 0; index_width \<leftarrow> bits_width index_type; trip_count_type \<leftarrow> operand_type f node 1;
             expect (case trip_count_type of BitsType w \<Rightarrow> w < index_width | _ \<Rightarrow> False) },
        do { index_type \<leftarrow> param_type func 0; index_width \<leftarrow> bits_width index_type; stride_type \<leftarrow> operand_type f node 2;
             expect (case stride_type of BitsType w \<Rightarrow> w \<le> index_width | _ \<Rightarrow> False) },
        ExpectOperandHasType f node 0 (node_type node)] }"

section \<open>Nodes and functions\<close>

text \<open>
  \<open>VisitSingleNode\<close> on the checker. The operations of procs and blocks are checked against channels and registers, which
  are not part of the model; \<open>check_stateful\<close> stands for those rules.
\<close>

fun check_op :: "(stateful_op \<Rightarrow> ir_node \<Rightarrow> verdict) \<Rightarrow> package \<Rightarrow> ir_function \<Rightarrow> node_op \<Rightarrow> ir_node \<Rightarrow> verdict" where
  "check_op check_stateful pkg f (BinOp b) = check_bin_op b f"
| "check_op check_stateful pkg f (CompareOp c) = check_compare f"
| "check_op check_stateful pkg f (NaryOp k) = check_nary f"
| "check_op check_stateful pkg f (BitwiseReductionOp r) = check_reduction f"
| "check_op check_stateful pkg f (UnOp u) = check_un_op u f"
| "check_op check_stateful pkg f (ExtendOp e w) = HandleExtendOp w f"
| "check_op check_stateful pkg f (ArithOp m) = check_mul f"
| "check_op check_stateful pkg f (PartialProductOp m w) = check_mulp f"
| "check_op check_stateful pkg f AfterAll = NodeChecker_HandleAfterAll f"
| "check_op check_stateful pkg f Array = NodeChecker_HandleArray f"
| "check_op check_stateful pkg f ArrayIndex = NodeChecker_HandleArrayIndex f"
| "check_op check_stateful pkg f (ArraySlice w) = NodeChecker_HandleArraySlice w f"
| "check_op check_stateful pkg f ArrayUpdate = NodeChecker_HandleArrayUpdate f"
| "check_op check_stateful pkg f ArrayConcat = NodeChecker_HandleArrayConcat f"
| "check_op check_stateful pkg f (Assert m) = NodeChecker_HandleAssert f"
| "check_op check_stateful pkg f (Trace fmt) = NodeChecker_HandleTrace fmt f"
| "check_op check_stateful pkg f (Cover c) = NodeChecker_HandleCover f"
| "check_op check_stateful pkg f (BitSlice s w) = NodeChecker_HandleBitSlice s w f"
| "check_op check_stateful pkg f BitSliceUpdateOp = NodeChecker_HandleBitSliceUpdate f"
| "check_op check_stateful pkg f (DynamicBitSlice w) = NodeChecker_HandleDynamicBitSlice w f"
| "check_op check_stateful pkg f Concat = NodeChecker_HandleConcat f"
| "check_op check_stateful pkg f (CountedFor trip stride body) = NodeChecker_HandleCountedFor pkg trip stride body f"
| "check_op check_stateful pkg f (DynamicCountedFor body) = NodeChecker_HandleDynamicCountedFor pkg body f"
| "check_op check_stateful pkg f (Decode w) = NodeChecker_HandleDecode w f"
| "check_op check_stateful pkg f Encode = NodeChecker_HandleEncode f"
| "check_op check_stateful pkg f Gate = NodeChecker_HandleGate f"
| "check_op check_stateful pkg f (Invoke g) = NodeChecker_HandleInvoke pkg g f"
| "check_op check_stateful pkg f (Literal v) = NodeChecker_HandleLiteral v"
| "check_op check_stateful pkg f (MapOp g) = NodeChecker_HandleMap pkg g f"
| "check_op check_stateful pkg f (OneHot p) = NodeChecker_HandleOneHot f"
| "check_op check_stateful pkg f OneHotSelect = NodeChecker_HandleOneHotSel f"
| "check_op check_stateful pkg f PrioritySelect = NodeChecker_HandlePrioritySel f"
| "check_op check_stateful pkg f (Param name) = (\<lambda>node. ExpectOperandCount node 0)"
| "check_op check_stateful pkg f (Select k d) = NodeChecker_HandleSel k d f"
| "check_op check_stateful pkg f TupleOp = NodeChecker_HandleTuple f"
| "check_op check_stateful pkg f (TupleIndex i) = NodeChecker_HandleTupleIndex i f"
| "check_op check_stateful pkg f (StatefulOp s) = check_stateful s"

text \<open>
  The users of a node are computed from the operands, so the two agree; an operand of another function has no
  number here.
\<close>

definition VerifyNode :: "(stateful_op \<Rightarrow> ir_node \<Rightarrow> verdict) \<Rightarrow> package \<Rightarrow> ir_function \<Rightarrow> ir_node \<Rightarrow> verdict" where
  "VerifyNode check_stateful pkg f node = checks
     [expect (\<forall>m \<in> set (operands node). m < length (fn_nodes f)), check_op check_stateful pkg f (node_op node) node]"

fun param_name :: "node_op \<Rightarrow> string option" where
  "param_name (Param name) = Some name" | "param_name _ = None"

definition param_names :: "ir_function \<Rightarrow> string list option" where
  "param_names f = generate (length (fn_params f)) (\<lambda>i. do { p \<leftarrow> list_at (fn_params f) i; node \<leftarrow> node_at f p; param_name (node_op node) })"

definition is_param :: "ir_node \<Rightarrow> bool" where
  "is_param node \<longleftrightarrow> param_name (node_op node) \<noteq> None"

text \<open>
  \<open>VerifyFunctionBase\<close>. That a package owns its types and that identifiers are unique holds of this model by
  construction. The nodes are first visited once to find cycles. The rules of stateful operations may depend on the
  number of the node: in a proc it gives the channel.
\<close>

definition VerifyFunctionBase :: "(nat \<Rightarrow> stateful_op \<Rightarrow> ir_node \<Rightarrow> verdict) \<Rightarrow> package \<Rightarrow> ir_function \<Rightarrow> verdict" where
  "VerifyFunctionBase check_stateful pkg f = checks
     ([FunctionBase_Accept (\<lambda>n st. Some (Inr st)) f ()] @
      map (\<lambda>n. VerifyNode (check_stateful n) pkg f (fn_nodes f ! n)) [0..<length (fn_nodes f)] @
      [do { names \<leftarrow> param_names f; expect (distinct (fn_params f) \<and> distinct names) },
       expect (\<forall>n < length (fn_nodes f). is_param (fn_nodes f ! n) \<longrightarrow> n \<in> set (fn_params f)),
       expect (length (fn_params f) = length (filter is_param (fn_nodes f)))])"

definition VerifyFunction :: "(stateful_op \<Rightarrow> ir_node \<Rightarrow> verdict) \<Rightarrow> package \<Rightarrow> ir_function \<Rightarrow> verdict" where
  "VerifyFunction check_stateful pkg f = checks
     (VerifyFunctionBase (\<lambda>n. check_stateful) pkg f #
      map (\<lambda>node. expect (node_op node \<noteq> StatefulOp kSend \<and> node_op node \<noteq> StatefulOp kReceive)) (fn_nodes f))"

text \<open>The loop of \<open>VerifyPackage\<close> over the functions.\<close>

definition VerifyFunctions :: "(stateful_op \<Rightarrow> ir_node \<Rightarrow> verdict) \<Rightarrow> package \<Rightarrow> verdict" where
  "VerifyFunctions check_stateful pkg = checks (map (VerifyFunction check_stateful pkg) pkg)"

section \<open>Accepted checks\<close>

lemma checks_ok [simp]: "checks cs = Some (Inr ()) \<longleftrightarrow> (\<forall>c \<in> set cs. c = Some (Inr ()))"
proof (induction cs)
  case (Cons c cs)
  show ?case
  proof (cases c)
    case (Some r)
    then show ?thesis using Cons by (cases r) auto
  qed simp
qed simp

declare checks.simps(2) [simp del]

lemma expect_ok [simp]: "expect b = Some (Inr ()) \<longleftrightarrow> b" "expect_argument b = Some (Inr ()) \<longleftrightarrow> b"
  by (simp_all add: expect_def expect_argument_def)

lemma bind_ok: "(m \<bind> g) = Some r \<longleftrightarrow> (\<exists>x. m = Some x \<and> g x = Some r)"
  by (cases m) auto

lemma or_return_ok: "or_return m g = Some (Inr r) \<longleftrightarrow> (\<exists>x. m = Some (Inr x) \<and> g x = Some (Inr r))"
  by (cases m) (auto simp: or_return_def split: sum.splits)

lemma matches_bits_iff: "matches_bits t (Some w) \<longleftrightarrow> t = BitsType w" "matches_bits t None \<longleftrightarrow> (\<exists>w. t = BitsType w)"
  by (cases t; simp)+

lemma matches_array_iff:
  "matches_array t None None \<longleftrightarrow> (\<exists>k u. t = ArrayType k u)"
  "matches_array t (Some u) None \<longleftrightarrow> (\<exists>k. t = ArrayType k u)"
  "matches_array t (Some u) (Some k) \<longleftrightarrow> t = ArrayType k u"
  by (cases t; auto)+

lemma bits_width_iff: "bits_width t = Some w \<longleftrightarrow> t = BitsType w"
  by (cases t) auto

lemma IsBits_iff: "IsBits t \<longleftrightarrow> (\<exists>w. t = BitsType w)"
  by (cases t) auto

lemma IsTuple_iff: "IsTuple t \<longleftrightarrow> (\<exists>ts. t = TupleType ts)"
  by (cases t) auto

lemmas expectation_defs = ExpectOperandCount_def ExpectOperandCountGt_def ExpectSameType_def ExpectOperandHasType_def
  ExpectDoesNotContainToken_def ExpectHasTokenType_def ExpectHasArrayType_def ExpectOperandHasArrayType_def
  ExpectHasTupleType_def ExpectHasBitsType_def ExpectOperandHasBitsType_def ExpectOperandHasTokenType_def
  ExpectAllSameType_def ExpectAllSameBitsType_def

lemmas expectation_iffs = bind_ok or_return_ok matches_bits_iff matches_array_iff bits_width_iff IsBits_iff IsTuple_iff

end
