(* ===== verification/HandlerTyping.thy ===== *)
theory HandlerTyping
  imports IrVerifier
begin

text \<open>
  One lemma per operation without calls: if the verifier accepts a node, its operands have values of their types and
  the node has no value yet, the handler of the interpreter succeeds and sets a value of the node's type. Where the
  verifier leaves something open, the lemma has it as a hypothesis.
\<close>

section \<open>Values of a type\<close>

definition has_type :: "ir_value \<Rightarrow> ir_type \<Rightarrow> bool" where
  "has_type v t \<longleftrightarrow> wf_value v \<and> type_of v = t"

lemma has_type_bits: "has_type v (BitsType w) \<longleftrightarrow> (\<exists>x < 2 ^ w. v = BitsValue (mk_bits w x))"
proof
  assume "has_type v (BitsType w)"
  then obtain b where b: "v = BitsValue b" "bm_inv b" "bit_count b = w"
    by (cases v) (auto simp: has_type_def split: list.splits)
  show "\<exists>x < 2 ^ w. v = BitsValue (mk_bits w x)"
    using b by (intro exI[of _ "take_bit w (uval b)"]) (auto simp: bm_inv_eq_mk_bits mk_bits_take_bit)
qed (auto simp: has_type_def)

lemma has_type_mk_bits [simp]: "has_type (BitsValue (mk_bits w x)) t \<longleftrightarrow> t = BitsType w"
  by (auto simp: has_type_def)

lemma has_type_mk_int [simp]: "has_type (BitsValue (mk_int w x)) t \<longleftrightarrow> t = BitsType w"
  by (auto simp: has_type_def mk_int_def)

lemma has_type_token [simp]: "has_type v TokenType \<longleftrightarrow> v = TokenValue"
  by (cases v) (auto simp: has_type_def split: list.splits)

lemma list_all2_has_type: "list_all2 has_type vs ts \<longleftrightarrow> (\<forall>v \<in> set vs. wf_value v) \<and> map type_of vs = ts"
  by (induction vs arbitrary: ts) (auto simp: has_type_def list_all2_Cons1)

lemma has_type_tuple: "has_type v (TupleType ts) \<longleftrightarrow> (\<exists>vs. v = TupleValue vs \<and> list_all2 has_type vs ts)"
proof (cases v)
  case (ArrayValue vs)
  then show ?thesis by (cases vs) (auto simp: has_type_def)
qed (auto simp: has_type_def list_all2_has_type)

lemma has_type_array:
  "has_type v (ArrayType k t) \<longleftrightarrow> (\<exists>vs. v = ArrayValue vs \<and> length vs = k \<and> 0 < k \<and> (\<forall>u \<in> set vs. has_type u t))"
proof (cases v)
  case (ArrayValue vs)
  then show ?thesis by (cases vs) (auto simp: has_type_def)
qed (auto simp: has_type_def)

lemma has_type_inhabited: "has_type v t \<Longrightarrow> inhabited t"
  using inhabited_type_of by (auto simp: has_type_def)

lemma Value_Array_ok:
  assumes "\<forall>v \<in> set vs. has_type v t" "vs \<noteq> []"
  shows "Value_Array vs = Some (Inr (ArrayValue vs))" "has_type (ArrayValue vs) (ArrayType (length vs) t)"
proof -
  show 2: "has_type (ArrayValue vs) (ArrayType (length vs) t)" using assms by (auto simp: has_type_array)
  show "Value_Array vs = Some (Inr (ArrayValue vs))" using assms 2 by (subst Value_Array_eq) (auto simp: has_type_def)
qed

text \<open>All counts of a type are within \<open>int64_t\<close>, as the sources keep them.\<close>

fun int64_type :: "ir_type \<Rightarrow> bool" where
  "int64_type (BitsType w) \<longleftrightarrow> w < 2 ^ 63"
| "int64_type (TupleType ts) \<longleftrightarrow> (\<forall>t \<in> set ts. int64_type t)"
| "int64_type (ArrayType k t) \<longleftrightarrow> k < 2 ^ 63 \<and> int64_type t"
| "int64_type TokenType \<longleftrightarrow> True"

lemma GetTypeForValue_ok:
  "wf_value v \<Longrightarrow> GetTypeForValue v = Some (type_of v)"
  "(\<forall>v \<in> set vs. wf_value v) \<Longrightarrow> GetTypesForValues vs = Some (map type_of vs)"
proof (induction v and vs rule: GetTypeForValue_GetTypesForValues.induct)
  case (3 vs)
  then show ?case by (cases vs) auto
qed auto

lemma ExpectValueIsType_ok:
  "ExpectValueIsType v t = Some (Inr ()) \<Longrightarrow> wf_value v \<Longrightarrow> has_type v t"
  "ExpectValuesAreTypes vs ts = Some (Inr ()) \<Longrightarrow> length vs = length ts \<Longrightarrow> (\<forall>v \<in> set vs. wf_value v) \<Longrightarrow> list_all2 has_type vs ts"
  "ExpectValuesAreType vs t = Some (Inr ()) \<Longrightarrow> (\<forall>v \<in> set vs. wf_value v) \<Longrightarrow> \<forall>v \<in> set vs. has_type v t"
proof (induction v t and vs ts and vs t rule: ExpectValueIsType_ExpectValuesAreTypes_ExpectValuesAreType.induct)
  case (3 vs t)
  then show ?case by (cases t) (auto simp: has_type_tuple split: if_splits)
next
  case (4 vs t)
  then show ?case by (cases t) (auto simp: has_type_array split: if_splits)
qed (auto simp: has_type_def or_return_ok)

section \<open>Results of handlers\<close>

text \<open>The operands have been evaluated to values of their types.\<close>

definition operands_typed :: "ir_function \<Rightarrow> ir_node \<Rightarrow> interp_state \<Rightarrow> bool" where
  "operands_typed f node st \<longleftrightarrow> (\<forall>m \<in> set (operands node). \<exists>v t. node_values st m = Some v \<and> GetType f m = Some t \<and> has_type v t)"

definition sets_typed :: "nat \<Rightarrow> ir_node \<Rightarrow> interp_state \<Rightarrow> interp_state status_or option \<Rightarrow> bool" where
  "sets_typed n node st r \<longleftrightarrow> (\<exists>v st'. r = Some (Inr st') \<and> has_type v (node_type node) \<and> node_values st' = (node_values st)(n \<mapsto> v))"

lemma SetValueResult_ok:
  assumes "has_type v (node_type node)" "node_values st n = None" "node_values st' = node_values st"
  shows "sets_typed n node st (SetValueResult n node v st')"
  using assms by (auto simp: sets_typed_def SetValueResult_def has_type_def ValueConformsToType_eq)

lemma SetBitsResult_ok:
  assumes "node_type node = BitsType w" "node_values st n = None"
  shows "sets_typed n node st (SetBitsResult n node (mk_bits w x) st)" "sets_typed n node st (SetBitsResult n node (mk_int w y) st)"
  using assms SetValueResult_ok by (auto simp: SetBitsResult_def mk_int_def)

lemma SetUint64Result_ok:
  assumes t: "node_type node = BitsType 1" and st: "node_values st n = None"
  shows "sets_typed n node st (SetUint64Result n node (of_bool b) st)"
proof -
  have m: "MinBitCountUnsigned (of_bool b) \<le> 1" unfolding MinBitCountUnsigned_le_iff by (cases b) auto
  have u: "UBits (of_bool b) 1 = Some (mk_bits 1 (of_bool b))" by (cases b) auto
  have "SetUint64Result n node (of_bool b) st = SetValueResult n node (BitsValue (mk_bits 1 (of_bool b))) st"
    unfolding SetUint64Result_def t using m u by (simp only: ir_type.case not_less[THEN iffD2] if_False bind.bind_lunit)
  then show ?thesis using SetValueResult_ok[of "BitsValue (mk_bits 1 (of_bool b))" node st n st] t st by simp
qed

lemma operand_valueD:
  assumes "operands_typed f node st" "operand_type f node i = Some t"
  obtains v where "operand_value node st i = Some v" "has_type v t"
  using assms by (fastforce simp: operands_typed_def operand_type_def operand_value_def operand_def ResolveAsValue_def bind_ok list_at_eq_Some)

lemma operand_bitsD:
  assumes "operands_typed f node st" "operand_type f node i = Some (BitsType w)"
  obtains x where "operand_bits node st i = Some (mk_bits w x)" "x < 2 ^ w"
proof -
  obtain v where "operand_value node st i = Some v" "has_type v (BitsType w)" using operand_valueD[OF assms] .
  then show thesis using that
    by (auto simp: has_type_bits operand_value_def operand_bits_def ResolveAsValue_def ResolveAsBits_def bind_ok)
qed

section \<open>Handlers of operations on bits\<close>

text \<open>A computation that gives bits of a width.\<close>

definition gives_bits :: "nat \<Rightarrow> bits option \<Rightarrow> bool" where
  "gives_bits w r \<longleftrightarrow> (\<exists>y. r = Some (mk_bits w y))"

lemma gives_bits_simps [simp]: "gives_bits w (Some (mk_bits u y)) \<longleftrightarrow> w = u" "gives_bits w (Some (mk_int u z)) \<longleftrightarrow> w = u"
  by (auto simp: gives_bits_def mk_int_def mk_bits_eq_iff)

lemma unary_bits_ok:
  assumes "operands_typed f node st" "node_values st n = None" "operand_type f node 0 = Some (BitsType w)" "node_type node = BitsType u"
    "\<And>x. gives_bits u (g (mk_bits w x))"
  shows "sets_typed n node st (unary_bits g n node st)"
proof -
  obtain x where x: "operand_bits node st 0 = Some (mk_bits w x)" using operand_bitsD[OF assms(1,3)] by blast
  obtain y where "g (mk_bits w x) = Some (mk_bits u y)" using assms(5)[of x] by (auto simp: gives_bits_def)
  then show ?thesis using x SetBitsResult_ok(1)[OF assms(4,2)] by (simp add: unary_bits_def)
qed

lemma binary_bits_ok:
  assumes "operands_typed f node st" "node_values st n = None" "operand_type f node 0 = Some (BitsType w)" "operand_type f node 1 = Some (BitsType w')"
    "node_type node = BitsType u" "\<And>x y. gives_bits u (g (mk_bits w x) (mk_bits w' y))"
  shows "sets_typed n node st (binary_bits g n node st)"
proof -
  obtain x where x: "operand_bits node st 0 = Some (mk_bits w x)" using operand_bitsD[OF assms(1,3)] by blast
  obtain x' where x': "operand_bits node st 1 = Some (mk_bits w' x')" using operand_bitsD[OF assms(1,4)] by blast
  obtain y where "g (mk_bits w x) (mk_bits w' x') = Some (mk_bits u y)" using assms(6)[of x x'] by (auto simp: gives_bits_def)
  then show ?thesis using x x' SetBitsResult_ok(1)[OF assms(5,2)] by (simp add: binary_bits_def)
qed

lemma compare_bits_ok:
  assumes "operands_typed f node st" "node_values st n = None" "operand_type f node 0 = Some (BitsType w)" "operand_type f node 1 = Some (BitsType w)"
    "node_type node = BitsType 1" "\<And>x y. \<exists>b. g (mk_bits w x) (mk_bits w y) = Some b"
  shows "sets_typed n node st (compare_bits g n node st)"
proof -
  obtain x where x: "operand_bits node st 0 = Some (mk_bits w x)" using operand_bitsD[OF assms(1,3)] by blast
  obtain x' where x': "operand_bits node st 1 = Some (mk_bits w x')" using operand_bitsD[OF assms(1,4)] by blast
  obtain b where "g (mk_bits w x) (mk_bits w x') = Some b" using assms(6) by blast
  then show ?thesis using x x' SetUint64Result_ok[OF assms(5,2)] by (simp add: compare_bits_def)
qed

lemma ResolveAsBitsVector_ok:
  "(\<And>m. m \<in> set ms \<Longrightarrow> \<exists>x. ResolveAsBits st m = Some (mk_bits (w m) x)) \<Longrightarrow>
     \<exists>xs. ResolveAsBitsVector st ms = Some (map2 (\<lambda>m x. mk_bits (w m) x) ms xs) \<and> length xs = length ms"
proof (induction ms)
  case (Cons m ms)
  obtain x where x: "ResolveAsBits st m = Some (mk_bits (w m) x)" using Cons.prems[of m] by auto
  obtain xs where xs: "ResolveAsBitsVector st ms = Some (map2 (\<lambda>m x. mk_bits (w m) x) ms xs)" "length xs = length ms"
    using Cons.IH Cons.prems by auto
  show ?case using x xs by (intro exI[of _ "x # xs"]) simp
qed simp

lemma ResolveAsBits_typed:
  assumes "operands_typed f node st" "m \<in> set (operands node)" "GetType f m = Some (BitsType w)"
  shows "\<exists>x < 2 ^ w. ResolveAsBits st m = Some (mk_bits w x)"
  using assms by (fastforce simp: operands_typed_def ResolveAsBits_def has_type_bits)

lemma operand_type_nth: "i < length (operands node) \<Longrightarrow> operand_type f node i = GetType f (operands node ! i)"
  by (simp add: operand_type_def operand_def)

lemma nary_bits_ok:
  assumes "operands_typed f node st" "node_values st n = None" "\<And>m. m \<in> set (operands node) \<Longrightarrow> GetType f m = Some (BitsType w)"
    "node_type node = BitsType w" "operands node \<noteq> []" "\<And>x xs. gives_bits w (g (map (mk_bits w) (x # xs)))"
  shows "sets_typed n node st (nary_bits g n node st)"
proof -
  have "\<exists>x. ResolveAsBits st m = Some (mk_bits w x)" if "m \<in> set (operands node)" for m
    using ResolveAsBits_typed[OF assms(1) that assms(3)[OF that]] by blast
  from ResolveAsBitsVector_ok[of "operands node" st "\<lambda>_. w", OF this] obtain xs
    where xs: "ResolveAsBitsVector st (operands node) = Some (map2 (\<lambda>m. mk_bits w) (operands node) xs)" "length xs = length (operands node)"
    by blast
  have "map2 (\<lambda>m. mk_bits w) (operands node) xs = map (mk_bits w) xs" using xs(2) by (auto intro: nth_equalityI)
  moreover obtain x ys where "xs = x # ys" using xs(2) assms(5) by (cases xs) auto
  ultimately have r: "ResolveAsBitsVector st (operands node) = Some (map (mk_bits w) (x # ys))" using xs(1) by simp
  obtain y where "g (map (mk_bits w) (x # ys)) = Some (mk_bits w y)" using assms(6)[of x ys] by (auto simp: gives_bits_def)
  then show ?thesis using r SetBitsResult_ok(1)[OF assms(4,2)] by (simp add: nary_bits_def)
qed

lemma BitsToBoundedUint64_eq:
  "BitsToBoundedUint64 (mk_bits w x) c = Some (word_of_nat (min (take_bit w x) (unat c)))"
proof (cases "take_bit w x > unat c")
  case True
  have "take_bit w x < 2 ^ w" by simp
  then have "unat c < 2 ^ w" using True by linarith
  then show ?thesis using True by (simp add: BitsToBoundedUint64_def MinBitCountUnsigned_le_iff take_bit_nat_eq_self)
next
  case False
  have "unat c < 2 ^ 64" using unsigned_less[of c, where ?'a = nat] by simp
  then have "take_bit w x < 2 ^ 64" using False by linarith
  then show ?thesis using False by (auto simp: BitsToBoundedUint64_def MinBitCountUnsigned_le_iff Bits_ToUint64_eq not_less take_bit_nat_eq_self)
qed

lemma shift_bits_ok:
  assumes "operands_typed f node st" "node_values st n = None" "operand_type f node 0 = Some (BitsType w)" "operand_type f node 1 = Some (BitsType w')"
    "node_type node = BitsType w" "\<And>x k. gives_bits w (g (mk_bits w x) k)"
  shows "sets_typed n node st (shift_bits g n node st)"
proof -
  obtain x where x: "operand_bits node st 0 = Some (mk_bits w x)" using operand_bitsD[OF assms(1,3)] by blast
  obtain x' where x': "operand_bits node st 1 = Some (mk_bits w' x')" using operand_bitsD[OF assms(1,4)] by blast
  then obtain m where m: "operand node 1 = Some m" "ResolveAsBits st m = Some (mk_bits w' x')" by (auto simp: operand_bits_def bind_ok)
  obtain y where "g (mk_bits w x) (unat (word_of_nat (min (take_bit w' x') (unat (of_nat w :: u64))) :: u64)) = Some (mk_bits w y)"
    using assms(6) by (fastforce simp: gives_bits_def)
  then show ?thesis using x m SetBitsResult_ok(1)[OF assms(5,2)]
    by (simp add: shift_bits_def ResolveAsBoundedUint64_def BitsToBoundedUint64_eq)
qed

lemma check_same_bitsD:
  assumes "check_same_bits k f node = Some (Inr ())"
  obtains w where "length (operands node) = k" "node_type node = BitsType w" "\<And>i. i < k \<Longrightarrow> operand_type f node i = Some (BitsType w)"
  using assms by (auto simp: check_same_bits_def expectation_defs expectation_iffs)

lemma bin_op_ok:
  assumes L: "bignum_ok L val" and c: "check_bin_op b f node = Some (Inr ())" and st: "operands_typed f node st" "node_values st n = None"
  shows "sets_typed n node st (visit_bin_op L b n node st)"
proof (cases "b \<in> {kShll, kShra, kShrl}")
  case True
  then have "HandleShiftOp f node = Some (Inr ())" using c by auto
  then obtain w w' where t: "node_type node = BitsType w" "operand_type f node 0 = Some (BitsType w)" "operand_type f node 1 = Some (BitsType w')"
    by (auto simp: HandleShiftOp_def expectation_defs expectation_iffs)
  show ?thesis using True shift_bits_ok[OF st t(2,3,1)] by (auto simp: HandleShll_def HandleShra_def HandleShrl_def)
next
  case False
  then have "check_same_bits 2 f node = Some (Inr ())" using c by (cases b) auto
  from check_same_bitsD[OF this] obtain w where w: "node_type node = BitsType w" "\<And>i. i < 2 \<Longrightarrow> operand_type f node i = Some (BitsType w)"
    by blast
  have t: "node_type node = BitsType w" "operand_type f node 0 = Some (BitsType w)" "operand_type f node 1 = Some (BitsType w)"
    using w(1) w(2)[of 0] w(2)[of 1] by simp_all
  note ok = binary_bits_ok[OF st t(2,3,1)]
  note eqs = bits_ops_Add_eq[OF L] bits_ops_Sub_eq[OF L] bits_ops_UDiv_eq[OF L] bits_ops_UMod_eq[OF L] bits_ops_SDiv_eq[OF L] bits_ops_SMod_eq[OF L]
  show ?thesis using False
    by (cases b) (auto simp: HandleAdd_def HandleSub_def HandleUDiv_def HandleSDiv_def HandleUMod_def HandleSMod_def eqs intro!: ok split: if_splits)
qed

lemma nary_op_ok:
  assumes c: "check_nary f node = Some (Inr ())" and st: "operands_typed f node st" "node_values st n = None"
  shows "sets_typed n node st (visit_nary_op k n node st)"
proof -
  obtain w where w: "node_type node = BitsType w" "operands node \<noteq> []" "\<And>i. i < length (operands node) \<Longrightarrow> operand_type f node i = Some (BitsType w)"
    using c by (auto simp: check_nary_def expectation_defs expectation_iffs)
  have t: "GetType f m = Some (BitsType w)" if "m \<in> set (operands node)" for m
    using that w(3) operand_type_nth[of _ node f] by (metis in_set_conv_nth)
  note ok = nary_bits_ok[OF st t w(1,2)]
  have o: "bits_ops_And (mk_bits w a) (mk_bits w b) = Some (mk_bits w (a AND b))" "bits_ops_Or (mk_bits w a) (mk_bits w b) = Some (mk_bits w (a OR b))"
    "bits_ops_Xor (mk_bits w a) (mk_bits w b) = Some (mk_bits w (a XOR b))" for a b by simp_all
  have eqs: "gives_bits w (nary_fold bits_ops_And (map (mk_bits w) (x # xs)))" "gives_bits w (nary_fold bits_ops_Or (map (mk_bits w) (x # xs)))"
    "gives_bits w (nary_fold bits_ops_Xor (map (mk_bits w) (x # xs)))" for x xs
    by (simp_all only: nary_fold_eq[where n = w and f = bits_ops_And and g = "\<lambda>a b. a AND b", OF o(1)]
        nary_fold_eq[where n = w and f = bits_ops_Or and g = "\<lambda>a b. a OR b", OF o(2)] nary_fold_eq[where n = w and f = bits_ops_Xor and g = "\<lambda>a b. a XOR b", OF o(3)] gives_bits_simps)
  have n: "gives_bits w r \<Longrightarrow> gives_bits w (r \<bind> bits_ops_Not)" for r by (auto simp: gives_bits_def)
  show ?thesis
    by (cases k) (auto simp del: list.map simp: HandleNaryAnd_def HandleNaryNand_def HandleNaryNor_def HandleNaryOr_def HandleNaryXor_def
        NaryAnd_def NaryOr_def NaryXor_def NaryNand_def NaryNor_def intro!: ok eqs n)
qed

lemma reduction_op_ok:
  assumes c: "check_reduction f node = Some (Inr ())" and st: "operands_typed f node st" "node_values st n = None"
  shows "sets_typed n node st (visit_reduction_op r n node st)"
proof -
  obtain w where t: "operand_type f node 0 = Some (BitsType w)" "node_type node = BitsType 1"
    using c by (auto simp: check_reduction_def expectation_defs expectation_iffs)
  note ok = unary_bits_ok[OF st t]
  show ?thesis by (cases r) (auto simp: HandleAndReduce_def HandleOrReduce_def HandleXorReduce_def intro!: ok)
qed

lemma has_type_Value_eq: "has_type v t \<Longrightarrow> has_type w t \<Longrightarrow> Value_eq v w = Some (v = w)"
  by (simp add: has_type_def Value_eq_iff)

lemma compare_op_ok:
  assumes L: "bignum_ok L val" and c: "check_compare f node = Some (Inr ())" and st: "operands_typed f node st" "node_values st n = None"
    and b: "k \<in> {kEq, kNe} \<or> (\<exists>w. operand_type f node 0 = Some (BitsType w))"
  shows "sets_typed n node st (visit_compare_op L k n node st)"
proof -
  have l: "length (operands node) = 2" and t3: "node_type node = BitsType 1" and s: "ExpectOperandsSameBitsType f node = Some (Inr ())"
    using c by (auto simp: check_compare_def expectation_defs expectation_iffs)
  then have "operands node \<noteq> []" by auto
  then obtain t where t0: "operand_type f node 0 = Some t" "operand_type f node 1 = Some t"
    using s l by (auto simp: ExpectOperandsSameBitsType_def expectation_defs expectation_iffs)
  note t = t0 t3
  show ?thesis
  proof (cases "k \<in> {kEq, kNe}")
    case True
    obtain v where v: "operand_value node st 0 = Some v" "has_type v t" using operand_valueD[OF st(1) t(1)] .
    obtain w where w: "operand_value node st 1 = Some w" "has_type w t" using operand_valueD[OF st(1) t(2)] .
    show ?thesis using True v w has_type_Value_eq[OF v(2) w(2)] SetUint64Result_ok[OF t(3) st(2)] by (auto simp: HandleEq_def HandleNe_def)
  next
    case False
    then obtain w where w: "operand_type f node 0 = Some (BitsType w)" "operand_type f node 1 = Some (BitsType w)" using b t by auto
    note ok = compare_bits_ok[OF st w t(3)]
    show ?thesis using False
      by (cases k) (auto simp: HandleSGe_def HandleSGt_def HandleSLe_def HandleSLt_def HandleUGe_def HandleUGt_def HandleULe_def HandleULt_def
          signed_compare_eq[OF L] SLessThan_eq[OF L] intro!: ok)
  qed
qed

lemma un_op_ok:
  assumes L: "bignum_ok L val" and c: "check_un_op u f node = Some (Inr ())" and st: "operands_typed f node st" "node_values st n = None"
  shows "sets_typed n node st (visit_un_op L u n node st)"
proof (cases "u = kIdentity")
  case True
  then have "operand_type f node 0 = Some (node_type node)"
    using c by (auto simp: NodeChecker_HandleIdentity_def expectation_defs expectation_iffs)
  from operand_valueD[OF st(1) this] obtain v where "operand_value node st 0 = Some v" "has_type v (node_type node)" .
  then show ?thesis using True SetValueResult_ok[OF _ st(2)] by (simp add: HandleIdentity_def)
next
  case False
  then have "check_same_bits 1 f node = Some (Inr ())" using c by (cases u) auto
  from check_same_bitsD[OF this] obtain w where w: "node_type node = BitsType w" "\<And>i. i < 1 \<Longrightarrow> operand_type f node i = Some (BitsType w)" by blast
  note ok = unary_bits_ok[OF st w(2)[of 0, simplified] w(1)]
  show ?thesis using False
    by (cases u) (auto simp: HandleNeg_def HandleNot_def HandleReverse_def bits_ops_Negate_eq[OF L] intro!: ok)
qed

lemma extend_op_ok:
  assumes c: "HandleExtendOp w f node = Some (Inr ())" and st: "operands_typed f node st" "node_values st n = None"
  shows "sets_typed n node st (HandleSignExtend w n node st)" "sets_typed n node st (HandleZeroExtend w n node st)"
proof -
  obtain u where t: "operand_type f node 0 = Some (BitsType u)" "node_type node = BitsType w" "u \<le> w"
    using c by (auto simp: HandleExtendOp_def expectation_defs expectation_iffs)
  note ok = unary_bits_ok[OF st t(1,2)]
  show "sets_typed n node st (HandleSignExtend w n node st)" "sets_typed n node st (HandleZeroExtend w n node st)"
    using t(3) by (auto simp: HandleSignExtend_def HandleZeroExtend_def intro!: ok)
qed

lemma mul_ok:
  assumes L: "bignum_ok L val" and c: "check_mul f node = Some (Inr ())" and st: "operands_typed f node st" "node_values st n = None"
  shows "sets_typed n node st (HandleUMul L n node st)" "sets_typed n node st (HandleSMul L n node st)"
proof -
  obtain w w' u where t: "operand_type f node 0 = Some (BitsType w)" "operand_type f node 1 = Some (BitsType w')" "node_type node = BitsType u"
    using c by (auto simp: check_mul_def expectation_defs expectation_iffs)
  obtain x where x: "operand_bits node st 0 = Some (mk_bits w x)" using operand_bitsD[OF st(1) t(1)] by blast
  obtain y where y: "operand_bits node st 1 = Some (mk_bits w' y)" using operand_bitsD[OF st(1) t(2)] by blast
  show "sets_typed n node st (HandleUMul L n node st)" "sets_typed n node st (HandleSMul L n node st)"
    using x y t(3) SetBitsResult_ok[OF t(3) st(2)]
    by (auto simp: HandleUMul_def HandleSMul_def BitCountOrDie_def bits_ops_UMul_eq[OF L] bits_ops_SMul_eq[OF L] mk_int_def)
qed

lemma mulp_ok:
  assumes L: "bignum_ok L val" and c: "check_mulp f node = Some (Inr ())" and st: "operands_typed f node st" "node_values st n = None"
    and u: "node_type node = TupleType [BitsType u, BitsType u]"
  shows "sets_typed n node st (HandleUMulp L u n node st)" "sets_typed n node st (HandleSMulp L u n node st)"
proof -
  obtain w w' where t: "operand_type f node 0 = Some (BitsType w)" "operand_type f node 1 = Some (BitsType w')"
    using c by (auto simp: check_mulp_def expectation_defs expectation_iffs)
  obtain x where x: "operand_bits node st 0 = Some (mk_bits w x)" using operand_bitsD[OF st(1) t(1)] by blast
  obtain y where y: "operand_bits node st 1 = Some (mk_bits w' y)" using operand_bitsD[OF st(1) t(2)] by blast
  have s: "sets_typed n node st (SetValueResult n node (TupleValue [BitsValue (mk_bits u a), BitsValue (mk_bits u b)]) st)" for a b
    using st(2) u by (intro SetValueResult_ok) (auto simp: has_type_tuple)
  show "sets_typed n node st (HandleUMulp L u n node st)" "sets_typed n node st (HandleSMulp L u n node st)"
    using x y s by (auto simp: HandleUMulp_def HandleSMulp_def bits_ops_UMul_eq[OF L] bits_ops_SMul_eq[OF L] mk_int_def)
qed

lemma bit_slice_ok:
  assumes c: "NodeChecker_HandleBitSlice s w f node = Some (Inr ())" and s: "s + w < 2 ^ 63" and st: "operands_typed f node st" "node_values st n = None"
  shows "sets_typed n node st (HandleBitSlice s w n node st)"
proof -
  obtain u where t: "operand_type f node 0 = Some (BitsType u)" "node_type node = BitsType w" "s + w \<le> u"
    using c int64_wrap_exact[of "int (s + w)"] s by (auto simp: NodeChecker_HandleBitSlice_def expectation_defs expectation_iffs)
  show ?thesis using t(3) unary_bits_ok[OF st t(1,2)] by (auto simp: HandleBitSlice_def)
qed

lemma of_nat_small: "k < 2 ^ 63 \<Longrightarrow> 0 \<le> sint (of_nat k :: u64) \<and> unat (of_nat k :: u64) = k"
  using sint_word_of_int_64[of "int k"] by (simp add: unat_word_of_nat_64)

lemma bit_slice_update_ok:
  assumes c: "NodeChecker_HandleBitSliceUpdate f node = Some (Inr ())" and st: "operands_typed f node st" "node_values st n = None"
    and b: "int64_type (node_type node)"
  shows "sets_typed n node st (HandleBitSliceUpdate n node st)"
proof -
  obtain w s u where t: "operand_type f node 0 = Some (BitsType w)" "operand_type f node 1 = Some (BitsType s)" "operand_type f node 2 = Some (BitsType u)"
    "node_type node = BitsType w"
    using c by (auto simp: NodeChecker_HandleBitSliceUpdate_def expectation_defs expectation_iffs)
  obtain x where x: "operand_bits node st 0 = Some (mk_bits w x)" using operand_bitsD[OF st(1) t(1)] by blast
  obtain y where y: "operand_bits node st 1 = Some (mk_bits s y)" "y < 2 ^ s" using operand_bitsD[OF st(1) t(2)] by blast
  obtain z where z: "operand_bits node st 2 = Some (mk_bits u z)" using operand_bitsD[OF st(1) t(3)] by blast
  have w: "0 \<le> sint (of_nat w :: u64)" "unat (of_nat w :: u64) = w" "w < 2 ^ 63" using of_nat_small[of w] b t(4) by auto
  show ?thesis using x y(1) z w(2,3) SetBitsResult_ok[OF t(4) st(2)]
    by (auto simp: HandleBitSliceUpdate_def unsigned_compare_int_eq[OF w(1)] Bits_ToUint64_eq)
qed

lemma dynamic_bit_slice_ok:
  assumes c: "NodeChecker_HandleDynamicBitSlice k f node = Some (Inr ())" and st: "operands_typed f node st" "node_values st n = None"
    and b: "\<And>t. operand_type f node 0 = Some t \<Longrightarrow> int64_type t"
  shows "sets_typed n node st (HandleDynamicBitSlice k f n node st)"
proof -
  obtain w s where t: "operand_type f node 0 = Some (BitsType w)" "operand_type f node 1 = Some (BitsType s)" "node_type node = BitsType k" "k \<le> w"
    using c by (auto simp: NodeChecker_HandleDynamicBitSlice_def expectation_defs expectation_iffs)
  obtain x where x: "operand_bits node st 0 = Some (mk_bits w x)" using operand_bitsD[OF st(1) t(1)] by blast
  obtain y where y: "operand_bits node st 1 = Some (mk_bits s y)" using operand_bitsD[OF st(1) t(2)] by blast
  have w: "0 \<le> sint (of_nat w :: u64)" "unat (of_nat w :: u64) = w" "w < 2 ^ 63" using of_nat_small[of w] b[OF t(1)] by auto
  show ?thesis using x y w(2,3) t(1,4) SetBitsResult_ok[OF t(3) st(2)]
    by (auto simp: HandleDynamicBitSlice_def unsigned_compare_int_eq[OF w(1)] Bits_ToUint64_eq)
qed

lemma decode_ok:
  assumes c: "NodeChecker_HandleDecode k f node = Some (Inr ())" and st: "operands_typed f node st" "node_values st n = None"
    and b: "\<And>w. operand_type f node 0 = Some (BitsType w) \<Longrightarrow> w < 64"
  shows "sets_typed n node st (HandleDecode n node st)"
proof -
  obtain w where t: "operand_type f node 0 = Some (BitsType w)" "node_type node = BitsType k"
    using c by (auto simp: NodeChecker_HandleDecode_def expectation_defs expectation_iffs)
  obtain x where x: "operand_bits node st 0 = Some (mk_bits w x)" "x < 2 ^ w" using operand_bitsD[OF st(1) t(1)] by blast
  have "x < 2 ^ 63" using less_le_trans[OF x(2) power_increasing[of w 63]] b[OF t(1)] by simp
  then have s: "0 \<le> sint (of_nat x :: u64)" "unat (of_nat x :: u64) = x" "sint (of_nat x :: u64) = int x"
    using of_nat_small[of x] sint_word_of_int_64[of "int x"] by auto
  have "Bits_ToUint64 (mk_bits w x) = Some (Inr (word_of_nat x))"
    using x(2) \<open>x < 2 ^ 63\<close> by (simp add: Bits_ToUint64_eq take_bit_nat_eq_self)
  then show ?thesis using x(1) s(3) t(2) SetBitsResult_ok[OF t(2) st(2)] by (auto simp: HandleDecode_def BitCountOrDie_def)
qed

lemma encode_ok:
  assumes c: "NodeChecker_HandleEncode f node = Some (Inr ())" and st: "operands_typed f node st" "node_values st n = None"
    and b: "\<And>t. operand_type f node 0 = Some t \<Longrightarrow> int64_type t"
  shows "sets_typed n node st (HandleEncode n node st)"
proof -
  obtain w where t: "operand_type f node 0 = Some (BitsType w)" "node_type node = BitsType (MinBitCountUnsigned (of_nat w - 1))"
    using c by (auto simp: NodeChecker_HandleEncode_def expectation_defs expectation_iffs)
  define k where "k = MinBitCountUnsigned (of_nat w - 1)"
  obtain x where x: "operand_bits node st 0 = Some (mk_bits w x)" using operand_bitsD[OF st(1) t(1)] by blast
  have w: "w < 2 ^ 63" using b[OF t(1)] by simp
  have u: "\<exists>y. UBits (of_nat i) k = Some (mk_bits k y)" if "i < w" for i
  proof -
    have "unat (of_nat w - 1 :: u64) = w - 1" using that w by (simp add: unat_sub_if_size unat_word_of_nat_64 word_size)
    moreover have "unat (of_nat w - 1 :: u64) < 2 ^ k" using MinBitCountUnsigned_le_iff[of "of_nat w - 1" k] by (simp add: k_def)
    moreover have "unat (of_nat i :: u64) = i" using that w by (simp add: unat_word_of_nat_64)
    ultimately show ?thesis using that by auto
  qed
  have "\<exists>r. for_state (\<lambda>i result. do {
            x \<leftarrow> Bits_Get (mk_bits w x) i;
            if x then do { u \<leftarrow> UBits (of_nat i) k; bits_ops_Or result u } else Some result }) [0..<w] (mk_bits k 0) = Some r \<and> (\<exists>y. r = mk_bits k y)"
  proof (rule for_state_inv)
    fix i s assume i: "i \<in> set [0..<w]" and s: "\<exists>y. s = mk_bits k y"
    obtain a where a: "s = mk_bits k a" using s by blast
    obtain d where d: "UBits (of_nat i) k = Some (mk_bits k d)" using u i by auto
    show "\<exists>t'. (do { x \<leftarrow> Bits_Get (mk_bits w x) i; if x then do { u \<leftarrow> UBits (of_nat i) k; bits_ops_Or s u } else Some s }) = Some t' \<and> (\<exists>y. t' = mk_bits k y)"
      using i a d by (auto simp del: UBits_eq)
  qed blast
  moreover have tk: "node_type node = BitsType k" using t(2) by (simp add: k_def)
  ultimately show ?thesis using x SetBitsResult_ok(1)[OF tk st(2)] by (auto simp: HandleEncode_def BitCountOrDie_def tk simp del: UBits_eq)
qed

lemma one_hot_ok:
  assumes c: "NodeChecker_HandleOneHot f node = Some (Inr ())" and st: "operands_typed f node st" "node_values st n = None"
  shows "sets_typed n node st (HandleOneHot p n node st)"
proof -
  obtain w where t: "operand_type f node 0 = Some (BitsType w)" "node_type node = BitsType (w + 1)"
    using c by (auto simp: NodeChecker_HandleOneHot_def expectation_defs expectation_iffs)
  obtain x where x: "operand_bits node st 0 = Some (mk_bits w x)" using operand_bitsD[OF st(1) t(1)] by blast
  have "for_find (\<lambda>i. do {
            let index = (if p = kLsb then i else bit_count (mk_bits w x) - i - 1);
            y \<leftarrow> Bits_Get (mk_bits w x) index;
            Some (if y then Some index else None) }) [0..<w] =
      Some (map_option (\<lambda>i. if p = kLsb then i else w - i - 1) (find (\<lambda>i. bit x (if p = kLsb then i else w - i - 1)) [0..<w]))"
    by (rule for_find_index) (auto simp: Let_def)
  moreover have "Suc 0 < 2 * 2 ^ w" using one_le_power[of "2::nat" w] by linarith
  ultimately show ?thesis using x t(2) SetBitsResult_ok(1)[OF t(2) st(2)]
    by (auto simp: HandleOneHot_def BitCountOrDie_def Let_def split: option.splits)
qed

lemma concat_bits_ok:
  "concat_bits f ms k = Some (Inr tot) \<Longrightarrow> \<exists>w. (\<forall>m \<in> set ms. GetType f m = Some (BitsType (w m))) \<and> tot = k + sum_list (map w ms)"
proof (induction ms arbitrary: k)
  case (Cons m ms)
  obtain u where u: "GetType f m = Some (BitsType u)" "concat_bits f ms (k + u) = Some (Inr tot)"
    using Cons.prems by (auto simp: expectation_defs expectation_iffs)
  obtain w where w: "\<forall>m \<in> set ms. GetType f m = Some (BitsType (w m))" "tot = k + u + sum_list (map w ms)" using Cons.IH[OF u(2)] by blast
  have "(\<Sum>a\<leftarrow>ms. if a = m then u else w a) = sum_list (map w ms)" using w(1) u(1) by (intro arg_cong[where f = sum_list] map_cong) auto
  then show ?case using u(1) w by (intro exI[of _ "w(m := u)"]) auto
qed simp

lemma concat_ok:
  assumes c: "NodeChecker_HandleConcat f node = Some (Inr ())" and st: "operands_typed f node st" "node_values st n = None"
  shows "sets_typed n node st (HandleConcat n node st)"
proof -
  obtain tot where total: "concat_bits f (operands node) 0 = Some (Inr tot)" "node_type node = BitsType tot"
    using c by (auto simp: NodeChecker_HandleConcat_def expectation_defs expectation_iffs)
  obtain w where w: "\<forall>m \<in> set (operands node). GetType f m = Some (BitsType (w m))" "tot = sum_list (map w (operands node))"
    using concat_bits_ok[OF total(1)] by auto
  have "\<exists>x. ResolveAsBits st m = Some (mk_bits (w m) x)" if "m \<in> set (operands node)" for m
    using ResolveAsBits_typed[OF st(1) that] w(1) that by blast
  from ResolveAsBitsVector_ok[of "operands node" st w, OF this] obtain xs
    where xs: "ResolveAsBitsVector st (operands node) = Some (map2 (\<lambda>m. mk_bits (w m)) (operands node) xs)" "length xs = length (operands node)"
    by blast
  have "map bit_count (map2 (\<lambda>m. mk_bits (w m)) (operands node) xs) = map w (operands node)" using xs(2) by (auto intro: nth_equalityI)
  then have "sum_list (map bit_count (map2 (\<lambda>m. mk_bits (w m)) (operands node) xs)) = tot" using w(2) by simp
  moreover have "\<forall>b \<in> set (map2 (\<lambda>m. mk_bits (w m)) (operands node) xs). bm_inv b" by auto
  ultimately show ?thesis using xs(1) SetBitsResult_ok(1)[OF total(2) st(2)] by (simp add: HandleConcat_def nary_bits_def bits_ops_Concat_eq)
qed

section \<open>Handlers of aggregates and selects\<close>

lemma ResolveAsValue_typed:
  assumes "operands_typed f node st" "m \<in> set (operands node)" "GetType f m = Some t"
  shows "\<exists>v. ResolveAsValue st m = Some v \<and> has_type v t"
  using assms by (fastforce simp: operands_typed_def ResolveAsValue_def)

lemma ResolveAsValues_ok:
  "(\<And>m. m \<in> set ms \<Longrightarrow> \<exists>v t. ResolveAsValue st m = Some v \<and> GetType f m = Some t \<and> has_type v t) \<Longrightarrow>
     \<exists>vs. ResolveAsValues st ms = Some vs \<and> list_all2 (\<lambda>m v. \<exists>t. GetType f m = Some t \<and> has_type v t) ms vs"
proof (induction ms)
  case (Cons m ms)
  obtain vs where "ResolveAsValues st ms = Some vs" "list_all2 (\<lambda>m v. \<exists>t. GetType f m = Some t \<and> has_type v t) ms vs"
    using Cons.IH[OF Cons.prems[OF list.set_intros(2)]] by blast
  moreover obtain v t where "ResolveAsValue st m = Some v" "GetType f m = Some t" "has_type v t" using Cons.prems[of m] by auto
  ultimately show ?case by (intro exI[of _ "v # vs"]) auto
qed simp

lemma operands_values:
  assumes "operands_typed f node st" "set ms \<subseteq> set (operands node)"
  obtains vs where "ResolveAsValues st ms = Some vs" "length vs = length ms"
    "\<forall>i < length ms. \<exists>t. GetType f (ms ! i) = Some t \<and> has_type (vs ! i) t"
proof -
  have "\<exists>v t. ResolveAsValue st m = Some v \<and> GetType f m = Some t \<and> has_type v t" if "m \<in> set ms" for m
    using assms that by (auto simp: operands_typed_def ResolveAsValue_def)
  from ResolveAsValues_ok[of ms st f, OF this] show thesis using that by (auto simp: list_all2_conv_all_nth)
qed

lemma literal_ok:
  assumes "NodeChecker_HandleLiteral v node = Some (Inr ())" "wf_value v" "node_values st n = None"
  shows "sets_typed n node st (HandleLiteral v n node st)"
  using assms SetValueResult_ok ExpectValueIsType_ok(1)[of v "node_type node"] by (auto simp: NodeChecker_HandleLiteral_def HandleLiteral_def)

lemma after_all_ok:
  assumes "NodeChecker_HandleAfterAll f node = Some (Inr ())" "node_values st n = None"
  shows "sets_typed n node st (HandleAfterAll n node st)"
  using assms SetValueResult_ok by (auto simp: NodeChecker_HandleAfterAll_def HandleAfterAll_def expectation_defs)

lemma tuple_ok:
  assumes c: "NodeChecker_HandleTuple f node = Some (Inr ())" and st: "operands_typed f node st" "node_values st n = None"
  shows "sets_typed n node st (HandleTuple n node st)"
proof -
  obtain ts where ts: "node_type node = TupleType ts" "length ts = length (operands node)" "\<And>i. i < length (operands node) \<Longrightarrow> operand_type f node i = Some (ts ! i)"
    using c by (auto simp: NodeChecker_HandleTuple_def expectation_defs expectation_iffs split: ir_type.splits)
  obtain vs where vs: "ResolveAsValues st (operands node) = Some vs" "length vs = length (operands node)"
    "\<forall>i < length (operands node). \<exists>t. GetType f (operands node ! i) = Some t \<and> has_type (vs ! i) t"
    using operands_values[OF st(1) subset_refl] .
  have "list_all2 has_type vs ts" using ts(2,3) vs(2,3) operand_type_nth[of _ node f] by (fastforce simp: list_all2_conv_all_nth)
  then show ?thesis using vs(1) ts(1) st(2) by (auto simp: HandleTuple_def has_type_tuple intro!: SetValueResult_ok)
qed

lemma tuple_index_ok:
  assumes c: "NodeChecker_HandleTupleIndex i f node = Some (Inr ())" and st: "operands_typed f node st" "node_values st n = None"
  shows "sets_typed n node st (HandleTupleIndex i n node st)"
proof -
  obtain t where t: "operand_type f node 0 = Some t" "(case t of TupleType ts \<Rightarrow> if i < length ts then ExpectSameType (node_type node) (ts ! i) else expect False | _ \<Rightarrow> expect False) = Some (Inr ())"
    using c by (auto simp: NodeChecker_HandleTupleIndex_def bind_ok)
  then obtain ts where ts: "operand_type f node 0 = Some (TupleType ts)" "i < length ts" "node_type node = ts ! i"
    by (cases t) (auto simp: expectation_defs split: if_splits)
  obtain vs where "operand_value node st 0 = Some (TupleValue vs)" "list_all2 has_type vs ts"
    using operand_valueD[OF st(1) ts(1)] by (auto simp: has_type_tuple)
  then show ?thesis using ts(2,3) st(2) by (auto simp: HandleTupleIndex_def list_all2_conv_all_nth intro!: SetValueResult_ok)
qed

lemma array_ok:
  assumes c: "NodeChecker_HandleArray f node = Some (Inr ())" and st: "operands_typed f node st" "node_values st n = None"
    and i: "inhabited (node_type node)"
  shows "sets_typed n node st (HandleArray n node st)"
proof -
  obtain k t where t: "node_type node = ArrayType k t" "length (operands node) = k" "\<And>i. i < k \<Longrightarrow> operand_type f node i = Some t"
    using c by (auto simp: NodeChecker_HandleArray_def expectation_defs expectation_iffs split: ir_type.splits)
  obtain vs where vs: "ResolveAsValues st (operands node) = Some vs" "length vs = k"
    "\<forall>i < k. \<exists>t. GetType f (operands node ! i) = Some t \<and> has_type (vs ! i) t"
    using operands_values[OF st(1) subset_refl, unfolded t(2)] .
  have h: "\<forall>v \<in> set vs. has_type v t" using t(2,3) vs(2,3) operand_type_nth[of _ node f] by (fastforce simp: in_set_conv_nth)
  have "vs \<noteq> []" using i t(1) vs(2) by auto
  then show ?thesis using Value_Array_ok[OF h] vs(1,2) t(1) st(2) by (auto simp: HandleArray_def intro!: SetValueResult_ok)
qed

lemma gate_ok:
  assumes c: "NodeChecker_HandleGate f node = Some (Inr ())" and st: "operands_typed f node st" "node_values st n = None"
  shows "sets_typed n node st (HandleGate n node st)"
proof -
  have t: "operand_type f node 0 = Some (BitsType 1)" "operand_type f node 1 = Some (node_type node)"
    using c by (auto simp: NodeChecker_HandleGate_def expectation_defs expectation_iffs)
  obtain x where x: "operand_bits node st 0 = Some (mk_bits 1 x)" using operand_bitsD[OF st(1) t(1)] by blast
  obtain v where v: "operand_value node st 1 = Some v" "has_type v (node_type node)" using operand_valueD[OF st(1) t(2)] .
  obtain z where z: "ZeroOfType (node_type node) = Some z" "has_type z (node_type node)"
    using ZeroOfType_ok[OF has_type_inhabited[OF v(2)]] by (auto simp: has_type_def)
  show ?thesis using x v z st(2) by (auto simp: HandleGate_def intro!: SetValueResult_ok)
qed

lemma ResolveAsBool_ok:
  assumes "operands_typed f node st" "operand_type f node i = Some (BitsType 1)"
  obtains m b where "operand node i = Some m" "ResolveAsBool st m = Some b"
proof -
  obtain x where "operand_bits node st i = Some (mk_bits 1 x)" using operand_bitsD[OF assms] by blast
  then show thesis using that by (auto simp: operand_bits_def ResolveAsBool_def bind_ok)
qed

lemma assert_ok:
  assumes c: "NodeChecker_HandleAssert f node = Some (Inr ())" and st: "operands_typed f node st" "node_values st n = None"
  shows "sets_typed n node st (HandleAssert msg n node st)"
proof -
  have t: "operand_type f node 1 = Some (BitsType 1)" "node_type node = TokenType"
    using c by (auto simp: NodeChecker_HandleAssert_def expectation_defs expectation_iffs)
  obtain m b where m: "operand node 1 = Some m" "ResolveAsBool st m = Some b" using ResolveAsBool_ok[OF st(1) t(1)] .
  show ?thesis using m t(2) st(2) by (auto simp: HandleAssert_def intro!: SetValueResult_ok)
qed

lemma Bits_ToString_total:
  assumes "w \<le> 64 \<or> p \<noteq> kSignedDecimal \<and> p \<noteq> kUnsignedDecimal" "x < 2 ^ w"
  shows "\<exists>s. Bits_ToString (mk_bits w x) p False = Some s"
proof -
  define q where "q = (if p = kDefault then if w \<le> 64 then kUnsignedDecimal else kHex else p)"
  have "\<exists>s. Bits_ToRawDigits (mk_bits w x) q False = Some s"
  proof (cases "q = kSignedDecimal \<or> q = kUnsignedDecimal")
    case True
    then have w: "w \<le> 64" using assms(1) by (auto simp: q_def split: if_splits)
    have x: "x < 2 ^ 64" using less_le_trans[OF assms(2) power_increasing[OF w]] by simp
    have b: "bm_inv (mk_bits w x)" by simp
    have "- (2 ^ 63) \<le> sval (mk_bits w x) \<and> sval (mk_bits w x) < 2 ^ 63"
    proof (cases "w = 0")
      case False
      have "(2::int) ^ (w - 1) \<le> 2 ^ 63" using w by (intro power_increasing) auto
      then show ?thesis using sval_range[of "mk_bits w x"] False by auto
    qed simp
    then have "Bits_FitsInInt64 (mk_bits w x) = Some True" "\<exists>v. Bits_ToInt64 (mk_bits w x) = Some (Inr v)"
      by (simp_all add: Bits_FitsInInt64_def Bits_FitsInNBitsSigned_eq Bits_ToInt64_eq)
    moreover have "Bits_FitsInUint64 (mk_bits w x) = Some True" "\<exists>v. Bits_ToUint64 (mk_bits w x) = Some (Inr v)"
      using x assms(2) by (simp_all add: Bits_FitsInUint64_def Bits_FitsInNBitsUnsigned_eq Bits_ToUint64_eq take_bit_nat_eq_self)
    ultimately show ?thesis using True by (auto simp: Bits_ToRawDigits_def)
  next
    case False
    then show ?thesis using ToRawDigits_ok[of "mk_bits w x" q 1 False] ToRawDigits_ok[of "mk_bits w x" q 4 False] by (cases q) (auto simp: q_def split: if_splits)
  qed
  then show ?thesis by (auto simp: Bits_ToString_def q_def Let_def)
qed

lemma trace_output_ok:
  assumes "OperandsExpectedByFormat fmt = length ms"
    "\<And>m p. m \<in> set ms \<Longrightarrow> Inr p \<in> set fmt \<Longrightarrow> \<exists>v s. ResolveAsValue st m = Some v \<and> ToHumanString p v = Some s"
  shows "\<exists>s. trace_output st fmt ms out = Some (Inr s)"
  using assms
proof (induction st fmt ms out rule: trace_output.induct)
  case (3 st p fmt args out)
  obtain m ms where m: "args = m # ms" "OperandsExpectedByFormat fmt = length ms"
    using 3(2) by (cases args) (auto simp: OperandsExpectedByFormat_def)
  obtain v s where "ResolveAsValue st m = Some v" "ToHumanString p v = Some s" using 3(3)[of m p] m(1) by auto
  then show ?case using 3(1)[OF m(1)] 3(3) m by auto
qed (auto simp: OperandsExpectedByFormat_def)

text \<open>A trace prints a wide operand in decimal only if its value fits a machine integer.\<close>

definition printable :: "ir_function \<Rightarrow> format_step list \<Rightarrow> ir_node \<Rightarrow> bool" where
  "printable f format node \<longleftrightarrow> Inr kSignedDecimal \<notin> set format \<and> Inr kUnsignedDecimal \<notin> set format \<or>
     (\<forall>m \<in> set (drop 2 (operands node)). case GetType f m of Some (BitsType w) \<Rightarrow> w \<le> 64 | _ \<Rightarrow> False)"

lemma trace_ok:
  assumes c: "NodeChecker_HandleTrace fmt f node = Some (Inr ())" and st: "operands_typed f node st" "node_values st n = None"
    and p: "printable f fmt node"
  shows "sets_typed n node st (HandleTrace fmt n node st)"
proof -
  have t: "operand_type f node 1 = Some (BitsType 1)" "node_type node = TokenType" "length (operands node) = OperandsExpectedByFormat fmt + 2"
    "\<And>i. 2 \<le> i \<Longrightarrow> i < length (operands node) \<Longrightarrow> \<exists>w. operand_type f node i = Some (BitsType w)"
    using c by (auto simp: NodeChecker_HandleTrace_def expectation_defs expectation_iffs)
  obtain m b where m: "operand node 1 = Some m" "ResolveAsBool st m = Some b" using ResolveAsBool_ok[OF st(1) t(1)] .
  have "\<exists>v s. ResolveAsValue st m = Some v \<and> ToHumanString q v = Some s" if m: "m \<in> set (drop 2 (operands node))" and q: "Inr q \<in> set fmt" for m q
  proof -
    obtain i where i: "i + 2 < length (operands node)" "m = operands node ! (i + 2)" using m by (fastforce simp: in_set_conv_nth less_diff_conv)
    obtain w where w: "GetType f m = Some (BitsType w)" using t(4)[of "i + 2"] i operand_type_nth[of "i + 2" node f] by auto
    obtain v where v: "ResolveAsValue st m = Some v" "has_type v (BitsType w)" using ResolveAsValue_typed[OF st(1) _ w] i by auto
    then obtain x where x: "v = BitsValue (mk_bits w x)" "x < 2 ^ w" by (auto simp: has_type_bits)
    have "w \<le> 64 \<or> q \<noteq> kSignedDecimal \<and> q \<noteq> kUnsignedDecimal" using p m q w by (auto simp: printable_def)
    then show ?thesis using Bits_ToString_total x v(1) by auto
  qed
  then obtain out where "trace_output st fmt (drop 2 (operands node)) [] = Some (Inr out)"
    using trace_output_ok[of fmt "drop 2 (operands node)" st "[]"] t(3) by auto
  then show ?thesis using m t(2) st(2) by (auto simp: HandleTrace_def intro!: SetValueResult_ok)
qed

definition args_typed :: "ir_function \<Rightarrow> ir_value list \<Rightarrow> bool" where
  "args_typed g args \<longleftrightarrow> length args = length (fn_params g) \<and> (\<forall>i < length args. \<exists>t. param_type g i = Some t \<and> has_type (args ! i) t)"

lemma param_ok:
  assumes "node_at f n = Some node" "n \<in> set (fn_params f)" "args_typed f args" "node_values st n = None"
  shows "sets_typed n node st (HandleParam f args n node st)"
proof -
  obtain i where i: "find (\<lambda>i. fn_params f ! i = n) [0..<length (fn_params f)] = Some i"
    using assms(2) by (cases "find (\<lambda>i. fn_params f ! i = n) [0..<length (fn_params f)]") (auto simp: find_None_iff in_set_conv_nth)
  then have i': "i < length (fn_params f)" "fn_params f ! i = n" by (auto simp: find_Some_iff)
  then have "has_type (args ! i) (node_type node)" using assms(1,3) by (auto simp: args_typed_def param_type_def GetType_def bind_ok)
  then show ?thesis using i i' assms(3,4) by (auto simp: HandleParam_def args_typed_def intro!: SetValueResult_ok)
qed

lemma sel_ok:
  assumes c: "NodeChecker_HandleSel k d f node = Some (Inr ())" and st: "operands_typed f node st" "node_values st n = None"
    and len: "length (operands node) = 1 + k + of_bool d" "0 < k" "k < 2 ^ 63"
    and def: "d \<Longrightarrow> GetType f (last (operands node)) = Some (node_type node)"
  shows "sets_typed n node st (HandleSel k d n node st)"
proof -
  have cs: "Select_cases k node = take k (tl (operands node))" "length (Select_cases k node) = k" "set (Select_cases k node) \<subseteq> set (operands node)"
    using len(1) set_take_subset[of k "tl (operands node)"] list.set_sel(2)[of "operands node"] by (cases "operands node"; force simp: Select_cases_def)+
  obtain s where t: "operand_type f node 0 = Some (BitsType s)" "MinBitCountUnsigned (of_nat k - 1) \<le> s"
    "\<not> d \<Longrightarrow> s = MinBitCountUnsigned (of_nat k - 1) \<and> IsPowerOfTwo (of_nat k)"
    "\<And>m. m \<in> set (Select_cases k node) \<Longrightarrow> GetType f m = Some (node_type node)"
    using c cs(2) by (auto simp: NodeChecker_HandleSel_def Let_def expectation_defs expectation_iffs)
  have k: "unat (of_nat k :: u64) = k" "unat (of_nat k - 1 :: u64) = k - 1"
    using len(2,3) by (simp_all add: unat_sub_if_size unat_word_of_nat_64 word_size)
  obtain x where x: "operand_bits node st 0 = Some (mk_bits s x)" "x < 2 ^ s" using operand_bitsD[OF st(1) t(1)] by blast
  have ks: "k - 1 < 2 ^ s" using t(2) k(2) by (simp add: MinBitCountUnsigned_le_iff)
  have lim: "UBits (of_nat k - 1) s = Some (mk_bits s (k - 1))" using ks k(2) by simp
  show ?thesis
  proof (cases "x > k - 1")
    case True
    have d
    proof (rule ccontr)
      assume "\<not> d"
      then obtain j where j: "k = 2 ^ j" "s = MinBitCountUnsigned (of_nat k - 1)" using t(3) k(1) by (auto simp: IsPowerOfTwo_iff)
      have "s \<le> j" using j len(2) k(2) by (simp add: MinBitCountUnsigned_le_iff)
      then have "x < k" using less_le_trans[OF x(2) power_increasing[of s j 2]] j(1) by simp
      then show False using True by simp
    qed
    have l: "last (operands node) \<in> set (operands node)" "operands node \<noteq> []" using len(1) by (auto intro: last_in_set)
    obtain v where "ResolveAsValue st (last (operands node)) = Some v" "has_type v (node_type node)"
      using ResolveAsValue_typed[OF st(1) l(1) def[OF \<open>d\<close>]] by blast
    then show ?thesis using True x lim ks l(2) \<open>d\<close> st(2)
      by (auto simp: HandleSel_def cs(2) Select_default_def take_bit_nat_eq_self simp del: UBits_eq intro!: SetValueResult_ok)
  next
    case False
    then have xk: "x < k" using len(2) by simp
    then have x64: "x < 2 ^ 64" using len(3) by simp
    define m where "m = Select_cases k node ! x"
    have m: "m \<in> set (Select_cases k node)" using xk cs(2) by (auto simp: m_def)
    obtain v where "ResolveAsValue st m = Some v" "has_type v (node_type node)"
      using ResolveAsValue_typed[OF st(1) _ t(4)[OF m]] m cs(3) by blast
    moreover have "Bits_ToUint64 (mk_bits s x) = Some (Inr (word_of_nat x))" using x(2) x64 by (simp add: Bits_ToUint64_eq take_bit_nat_eq_self)
    moreover have "unat (word_of_nat x :: u64) = x" using x64 by (rule unat_word_of_nat_64)
    ultimately show ?thesis using False x lim ks st(2) xk
      by (auto simp: HandleSel_def cs(2) m_def take_bit_nat_eq_self simp del: UBits_eq intro!: SetValueResult_ok)
  qed
qed

lemma priority_sel_ok:
  assumes c: "NodeChecker_HandlePrioritySel f node = Some (Inr ())" and st: "operands_typed f node st" "node_values st n = None"
    and i: "inhabited (node_type node)" and cs: "\<And>m. m \<in> set (tl (operands node)) \<Longrightarrow> GetType f m = Some (node_type node)"
  shows "sets_typed n node st (HandlePrioritySel n node st)"
proof -
  obtain s where t: "operand_type f node 0 = Some (BitsType s)" "s = length (tl (operands node))"
    using c by (auto simp: NodeChecker_HandlePrioritySel_def expectation_defs expectation_iffs)
  obtain x where x: "operand_bits node st 0 = Some (mk_bits s x)" using operand_bitsD[OF st(1) t(1)] by blast
  obtain z where z: "ZeroOfType (node_type node) = Some z" "has_type z (node_type node)" using ZeroOfType_ok[OF i] by (auto simp: has_type_def)
  have f: "for_find (\<lambda>i. do { y \<leftarrow> Bits_Get (mk_bits s x) i; Some (if y then Some i else None) }) [0..<s] = Some (find (bit x) [0..<s])"
    by (subst for_find_index[where g = "\<lambda>i. i"]) (auto simp: option.map_ident)
  show ?thesis
  proof (cases "find (bit x) [0..<s]")
    case None
    then show ?thesis using x f z st(2) by (auto simp: HandlePrioritySel_def intro!: SetValueResult_ok)
  next
    case (Some i)
    then have i_s: "i < s" by (auto simp: find_Some_iff)
    define m where "m = tl (operands node) ! i"
    have m: "m \<in> set (tl (operands node))" using i_s t(2) by (auto simp: m_def)
    then have "m \<in> set (operands node)" by (cases "operands node") auto
    from ResolveAsValue_typed[OF st(1) this cs[OF m]] obtain v where "ResolveAsValue st m = Some v" "has_type v (node_type node)" by blast
    then show ?thesis using Some i_s t(2) x f st(2) by (auto simp: HandlePrioritySel_def m_def intro!: SetValueResult_ok)
  qed
qed

lemma elements_at_ok:
  "(\<And>v. v \<in> set vs \<Longrightarrow> \<exists>es. Value_elements v = Some es \<and> i < length es \<and> P (es ! i)) \<Longrightarrow> \<exists>es. elements_at vs i = Some es \<and> (\<forall>e \<in> set es. P e)"
proof (induction vs)
  case (Cons v vs)
  obtain es where "Value_elements v = Some es" "i < length es" "P (es ! i)" using Cons.prems[of v] by auto
  moreover obtain rs where "elements_at vs i = Some rs" "\<forall>e \<in> set rs. P e" using Cons.IH[OF Cons.prems[OF list.set_intros(2)]] by blast
  ultimately show ?case by auto
qed simp

lemma collect_ok:
  "(\<And>i. i \<in> set is \<Longrightarrow> \<exists>x. g i = Some (Inr x) \<and> P x) \<Longrightarrow> \<exists>xs. collect g is acc = Some (Inr (acc @ xs)) \<and> length xs = length is \<and> (\<forall>x \<in> set xs. P x)"
proof (induction "is" arbitrary: acc)
  case (Cons i ks)
  obtain x where "g i = Some (Inr x)" "P x" using Cons.prems[of i] by auto
  moreover obtain xs where "collect g ks (acc @ [x]) = Some (Inr ((acc @ [x]) @ xs))" "length xs = length ks" "\<forall>x \<in> set xs. P x"
    using Cons.IH[OF Cons.prems[OF list.set_intros(2)], of "acc @ [x]"] by blast
  ultimately show ?case by (intro exI[of _ "x # xs"]) auto
qed simp

lemma DeepOr_ok:
  "inhabited t \<Longrightarrow> \<not> TypeHasToken t \<Longrightarrow> (\<forall>v \<in> set vs. has_type v t) \<Longrightarrow> \<exists>v. DeepOr t vs = Some (Inr v) \<and> has_type v t"
  "(\<forall>t \<in> set ts. inhabited t \<and> \<not> TypeHasToken t) \<Longrightarrow>
     (\<forall>v \<in> set vs. \<exists>us. v = TupleValue us \<and> length us = i + length ts \<and> list_all2 has_type (drop i us) ts) \<Longrightarrow>
     \<exists>es. DeepOr_tuple ts i vs acc = Some (Inr (acc @ es)) \<and> list_all2 has_type es ts"
proof (induction t vs and ts i vs acc rule: DeepOr_DeepOr_tuple.induct)
  case (1 w inputs)
  have "\<exists>r. for_state (\<lambda>v result. do { b \<leftarrow> Value_bits v; bits_ops_Or result b }) inputs (mk_bits w 0) = Some r \<and> (\<exists>y. r = mk_bits w y)"
  proof (rule for_state_inv)
    fix v s assume "v \<in> set inputs" "\<exists>y. s = mk_bits w y"
    then show "\<exists>t'. (do { b \<leftarrow> Value_bits v; bits_ops_Or s b }) = Some t' \<and> (\<exists>y. t' = mk_bits w y)"
      using 1(3) by (fastforce simp: has_type_bits)
  qed blast
  then show ?case by auto
next
  case (2 k t inputs)
  have "\<exists>x. (do { es \<leftarrow> elements_at inputs i; DeepOr t es }) = Some (Inr x) \<and> has_type x t" if i: "i \<in> set [0..<k]" for i
  proof -
    have "\<exists>es. elements_at inputs i = Some es \<and> (\<forall>e \<in> set es. has_type e t)"
    proof (rule elements_at_ok)
      fix v assume "v \<in> set inputs"
      then obtain us where "v = ArrayValue us" "length us = k" "\<forall>u \<in> set us. has_type u t" using 2(4) by (auto simp: has_type_array)
      then show "\<exists>es. Value_elements v = Some es \<and> i < length es \<and> has_type (es ! i) t" using i by auto
    qed
    then obtain es where es: "elements_at inputs i = Some es" "\<forall>e \<in> set es. has_type e t" by blast
    show ?thesis using 2(1)[OF es(1)] 2(2,3) es by simp
  qed
  from collect_ok[of "[0..<k]", OF this] obtain xs where xs:
    "collect (\<lambda>i. do { es \<leftarrow> elements_at inputs i; DeepOr t es }) [0..<k] [] = Some (Inr xs)" "length xs = k" "\<forall>x \<in> set xs. has_type x t"
    by fastforce
  have "xs \<noteq> []" using xs(2) 2(2) by auto
  then show ?case using xs(1,2) Value_Array_ok[OF xs(3)] by auto
next
  case (3 ts inputs)
  have "\<forall>v \<in> set inputs. \<exists>us. v = TupleValue us \<and> length us = 0 + length ts \<and> list_all2 has_type (drop 0 us) ts"
    using 3(4) by (auto simp: has_type_tuple dest: list_all2_lengthD)
  moreover have "\<forall>t \<in> set ts. inhabited t \<and> \<not> TypeHasToken t" using 3(2,3) by (auto simp: list_ex_iff)
  ultimately show ?case using 3(1) by (auto simp: has_type_tuple)
next
  case (6 t ts i inputs acc)
  have "\<exists>es. elements_at inputs i = Some es \<and> (\<forall>e \<in> set es. has_type e t)"
  proof (rule elements_at_ok)
    fix v assume "v \<in> set inputs"
    then obtain us where "v = TupleValue us" "length us = i + length (t # ts)" "list_all2 has_type (drop i us) (t # ts)" using 6(4) by blast
    then show "\<exists>es. Value_elements v = Some es \<and> i < length es \<and> has_type (es ! i) t" by (auto simp: list_all2_Cons2 Cons_nth_drop_Suc[symmetric])
  qed
  then obtain es where es: "elements_at inputs i = Some es" "\<forall>e \<in> set es. has_type e t" by blast
  obtain e where e: "DeepOr t es = Some (Inr e)" "has_type e t" using 6(1)[of es] 6(3) es by auto
  have "\<forall>v \<in> set inputs. \<exists>us. v = TupleValue us \<and> length us = i + 1 + length ts \<and> list_all2 has_type (drop (i + 1) us) ts"
  proof
    fix v assume "v \<in> set inputs"
    then obtain us where us: "v = TupleValue us" "length us = i + length (t # ts)" "list_all2 has_type (drop i us) (t # ts)" using 6(4) by blast
    have "drop i us = us ! i # drop (Suc i) us" using us(2) by (intro Cons_nth_drop_Suc[symmetric]) simp
    then show "\<exists>us. v = TupleValue us \<and> length us = i + 1 + length ts \<and> list_all2 has_type (drop (i + 1) us) ts" using us by auto
  qed
  then obtain rs where "DeepOr_tuple ts (i + 1) inputs (acc @ [e]) = Some (Inr ((acc @ [e]) @ rs))" "list_all2 has_type rs ts"
    using 6(2)[of es e] 6(3) es by auto
  then show ?case using es e by (intro exI[of _ "e # rs"]) auto
qed auto

lemma one_hot_sel_ok:
  assumes c: "NodeChecker_HandleOneHotSel f node = Some (Inr ())" and st: "operands_typed f node st" "node_values st n = None"
    and i: "inhabited (node_type node)" and cs: "\<And>m. m \<in> set (tl (operands node)) \<Longrightarrow> GetType f m = Some (node_type node)"
  shows "sets_typed n node st (HandleOneHotSel n node st)"
proof -
  obtain s where t: "operand_type f node 0 = Some (BitsType s)" "s = length (tl (operands node))" "\<not> TypeHasToken (node_type node)"
    using c by (auto simp: NodeChecker_HandleOneHotSel_def expectation_defs expectation_iffs)
  obtain x where x: "operand_bits node st 0 = Some (mk_bits s x)" using operand_bitsD[OF st(1) t(1)] by blast
  have "\<exists>vs. for_state (\<lambda>i acc. do {
            y \<leftarrow> Bits_Get (mk_bits s x) i;
            if y then do { m \<leftarrow> list_at (tl (operands node)) i; v \<leftarrow> ResolveAsValue st m; Some (acc @ [v]) } else Some acc }) [0..<s] [] = Some vs \<and>
      (\<forall>v \<in> set vs. has_type v (node_type node))"
  proof (rule for_state_inv)
    fix i acc assume i: "i \<in> set [0..<s]" and acc: "\<forall>v \<in> set acc. has_type v (node_type node)"
    define m where "m = tl (operands node) ! i"
    have m: "m \<in> set (tl (operands node))" using i t(2) by (auto simp: m_def)
    then have "m \<in> set (operands node)" by (cases "operands node") auto
    from ResolveAsValue_typed[OF st(1) this cs[OF m]] obtain v where "ResolveAsValue st m = Some v" "has_type v (node_type node)" by blast
    then show "\<exists>t'. (do { y \<leftarrow> Bits_Get (mk_bits s x) i;
            if y then do { m \<leftarrow> list_at (tl (operands node)) i; v \<leftarrow> ResolveAsValue st m; Some (acc @ [v]) } else Some acc }) = Some t' \<and>
        (\<forall>v \<in> set t'. has_type v (node_type node))"
      using i acc t(2) by (auto simp: m_def)
  qed simp
  then obtain vs where vs: "for_state (\<lambda>i acc. do {
            y \<leftarrow> Bits_Get (mk_bits s x) i;
            if y then do { m \<leftarrow> list_at (tl (operands node)) i; v \<leftarrow> ResolveAsValue st m; Some (acc @ [v]) } else Some acc }) [0..<s] [] = Some vs"
      "\<forall>v \<in> set vs. has_type v (node_type node)" by blast
  obtain r where "DeepOr (node_type node) vs = Some (Inr r)" "has_type r (node_type node)" using DeepOr_ok(1)[OF i t(3) vs(2)] by blast
  then show ?thesis using x vs(1) st(2) by (auto simp: HandleOneHotSel_def intro!: SetValueResult_ok)
qed

section \<open>Handlers of arrays\<close>

lemma VerifyMultidimensionalArrayIndex_ok:
  assumes "VerifyMultidimensionalArrayIndex f ms t = Some (Inr ())"
  shows "m \<in> set ms \<Longrightarrow> \<exists>w. GetType f m = Some (BitsType w)"
  using assms by (auto simp: VerifyMultidimensionalArrayIndex_def expectation_iffs)

lemma bounded_index:
  assumes "ResolveAsBits st m = Some (mk_bits w x)" "0 < k" "k < 2 ^ 63"
  shows "\<exists>i. ResolveAsBoundedUint64 st m (of_nat k - 1) = Some i \<and> unat i < k"
proof -
  have "unat (of_nat k - 1 :: u64) = k - 1" using assms(2,3) by (simp add: unat_sub_if_size unat_word_of_nat_64 word_size)
  then have b: "BitsToBoundedUint64 (mk_bits w x) (of_nat k - 1) = Some (word_of_nat (min (take_bit w x) (k - 1)))"
    by (simp add: BitsToBoundedUint64_eq)
  have "min (take_bit w x) (k - 1) < k" using assms(2) by linarith
  then have "unat (word_of_nat (min (take_bit w x) (k - 1)) :: u64) < k" using assms(3) unat_word_of_nat_64[of "min (take_bit w x) (k - 1)"] by simp
  then show ?thesis using b assms(1) by (auto simp: ResolveAsBoundedUint64_def)
qed

lemma array_index_loop_ok:
  "(\<And>m. m \<in> set ms \<Longrightarrow> \<exists>w x. ResolveAsBits st m = Some (mk_bits w x)) \<Longrightarrow> has_type v t \<Longrightarrow> int64_type t \<Longrightarrow>
     GetIndexedElementType t (length ms) = Inr u \<Longrightarrow> \<exists>r. array_index_loop st ms v = Some r \<and> has_type r u"
proof (induction ms arbitrary: v t)
  case (Cons m ms)
  obtain k t' where t: "t = ArrayType k t'" "GetIndexedElementType t' (length ms) = Inr u"
    using Cons.prems(4) by (cases t) auto
  obtain es where es: "v = ArrayValue es" "length es = k" "0 < k" "\<forall>e \<in> set es. has_type e t'" using Cons.prems(2) t(1) by (auto simp: has_type_array)
  obtain w x where "ResolveAsBits st m = Some (mk_bits w x)" using Cons.prems(1)[of m] by auto
  from bounded_index[OF this es(3)] obtain i where i: "ResolveAsBoundedUint64 st m (of_nat k - 1) = Some i" "unat i < k"
    using Cons.prems(3) t(1) by auto
  have "\<exists>r. array_index_loop st ms (es ! unat i) = Some r \<and> has_type r u"
    using Cons.prems(1,3) t es i(2) by (intro Cons.IH[of _ t']) auto
  then show ?case using es i by auto
qed simp

lemma array_index_ok:
  assumes c: "NodeChecker_HandleArrayIndex f node = Some (Inr ())" and st: "operands_typed f node st" "node_values st n = None"
    and b: "\<And>t. operand_type f node 0 = Some t \<Longrightarrow> int64_type t"
  shows "sets_typed n node st (HandleArrayIndex n node st)"
proof -
  obtain t where t: "operand_type f node 0 = Some t" "VerifyMultidimensionalArrayIndex f (tl (operands node)) t = Some (Inr ())"
      "GetIndexedElementType t (length (operands node) - 1) = Inr (node_type node)"
    using c by (auto simp: NodeChecker_HandleArrayIndex_def expectation_defs expectation_iffs)
  obtain v where v: "operand_value node st 0 = Some v" "has_type v t" using operand_valueD[OF st(1) t(1)] .
  have "\<exists>w x. ResolveAsBits st m = Some (mk_bits w x)" if m: "m \<in> set (tl (operands node))" for m
  proof -
    have "m \<in> set (operands node)" using m by (cases "operands node") auto
    then show ?thesis using VerifyMultidimensionalArrayIndex_ok[OF t(2) m] ResolveAsBits_typed[OF st(1)] by blast
  qed
  from array_index_loop_ok[of "tl (operands node)", OF this v(2) b[OF t(1)]] obtain r
    where "array_index_loop st (tl (operands node)) v = Some r" "has_type r (node_type node)" using t(3) by auto
  then show ?thesis using v(1) st(2) by (auto simp: HandleArrayIndex_def intro!: SetValueResult_ok)
qed

lemma array_slice_ok:
  assumes c: "NodeChecker_HandleArraySlice w f node = Some (Inr ())" and st: "operands_typed f node st" "node_values st n = None"
    and b: "\<And>t. operand_type f node 0 = Some t \<Longrightarrow> int64_type t"
  shows "sets_typed n node st (HandleArraySlice w n node st)"
proof -
  obtain k u where t0: "operand_type f node 0 = Some (ArrayType k u)"
    using c by (auto simp: NodeChecker_HandleArraySlice_def ExpectOperandHasArrayType_def expectation_iffs)
  obtain s where s: "operand_type f node 1 = Some (BitsType s)" using c by (auto simp: NodeChecker_HandleArraySlice_def ExpectOperandHasBitsType_def expectation_iffs)
  have "node_type node = ArrayType w u" "0 < w" using c t0 by (simp_all add: NodeChecker_HandleArraySlice_def ExpectHasArrayType_def matches_array_iff)
  note t = t0 s this
  obtain es where es: "operand_value node st 0 = Some (ArrayValue es)" "length es = k" "0 < k" "\<forall>e \<in> set es. has_type e u"
    by (rule operand_valueD[OF st(1) t(1)]) (auto simp: has_type_array)
  obtain x where "operand_bits node st 1 = Some (mk_bits s x)" using operand_bitsD[OF st(1) t(2)] by blast
  then obtain m where m: "operand node 1 = Some m" "ResolveAsBits st m = Some (mk_bits s x)" by (auto simp: operand_bits_def bind_ok)
  obtain i where i: "ResolveAsBoundedUint64 st m (of_nat k - 1) = Some i" using bounded_index[OF m(2) es(3)] b[OF t(1)] by auto
  have ne: "es \<noteq> []" using es(2,3) by auto
  have "\<exists>vs. generate w (\<lambda>j. if length es \<le> unat i + j then do { check (es \<noteq> []); Some (last es) } else list_at es (unat i + j)) = Some vs \<and>
      length vs = w \<and> (\<forall>j < w. has_type (vs ! j) u)"
  proof (rule generate_ex)
    fix j
    show "\<exists>x. (if length es \<le> unat i + j then do { check (es \<noteq> []); Some (last es) } else list_at es (unat i + j)) = Some x \<and> has_type x u"
      using es(4) ne by (cases "length es \<le> unat i + j") auto
  qed
  then obtain vs where vs: "generate w (\<lambda>j. if length es \<le> unat i + j then do { check (es \<noteq> []); Some (last es) } else list_at es (unat i + j)) = Some vs"
      "length vs = w" "\<forall>j < w. has_type (vs ! j) u" by blast
  have h: "\<forall>v \<in> set vs. has_type v u" "vs \<noteq> []" using vs(2,3) t(4) by (auto simp: in_set_conv_nth)
  show ?thesis using es(1,2) m(1) i vs(1,2) Value_Array_ok[OF h] t(3) st(2) by (auto simp: HandleArraySlice_def intro!: SetValueResult_ok)
qed

lemma SetArrayElement_ok:
  "is \<noteq> [] \<Longrightarrow> (\<forall>i \<in> set is. \<exists>w x. i = mk_bits w x) \<Longrightarrow> int64_type (ArrayType (length es) t) \<Longrightarrow> es \<noteq> [] \<Longrightarrow> (\<forall>e \<in> set es. has_type e t) \<Longrightarrow>
     GetIndexedElementType (ArrayType (length es) t) (length is) = Inr u \<Longrightarrow> has_type v u \<Longrightarrow>
     \<exists>es'. SetArrayElement is v es = Some (Inr es') \<and> length es' = length es \<and> (\<forall>e \<in> set es'. has_type e t)"
proof (induction "is" v es arbitrary: t rule: SetArrayElement.induct)
  case (2 b bs v es)
  obtain w x where b: "b = mk_bits w x" using 2(3) by auto
  define idx :: u64 where "idx = word_of_nat (min (take_bit w x) (unat (of_nat (length es) :: u64)))"
  have idx: "BitsToBoundedUint64 b (of_nat (length es)) = Some idx" by (simp add: b idx_def BitsToBoundedUint64_eq)
  show ?case
  proof (cases "length es \<le> unat idx \<or> bs = []")
    case True
    then show ?thesis using 2(4-8) idx by (auto simp: set_update_memI split: if_splits dest: set_update_subset_insert[THEN subsetD])
  next
    case False
    then obtain bs' k t' where bs: "t = ArrayType k t'" "bs \<noteq> []" "unat idx < length es" using 2(7) by (cases bs; cases t) auto
    have "has_type (es ! unat idx) (ArrayType k t')" using 2(6) bs by auto
    then obtain sub where sub: "es ! unat idx = ArrayValue sub" "length sub = k" "0 < k" "\<forall>e \<in> set sub. has_type e t'" by (auto simp: has_type_array)
    have "\<exists>es'. SetArrayElement bs v sub = Some (Inr es') \<and> length es' = length sub \<and> (\<forall>e \<in> set es'. has_type e t')"
      using False idx sub bs 2(3,4,7,8) by (intro 2(1)[OF idx, where t = t']) auto
    then obtain es' where es': "SetArrayElement bs v sub = Some (Inr es')" "length es' = k" "\<forall>e \<in> set es'. has_type e t'" using sub(2) by auto
    have "es' \<noteq> []" using es'(2) sub(3) by auto
    note A = Value_Array_ok[OF es'(3) this]
    have "\<forall>e \<in> set (es[unat idx := ArrayValue es']). has_type e t"
      using A(2) es'(2) bs(1) 2(6) by (auto dest: set_update_subset_insert[THEN subsetD])
    then show ?thesis using False idx sub(1) es'(1) A(1) by auto
  qed
qed simp

lemma array_update_ok:
  assumes c: "NodeChecker_HandleArrayUpdate f node = Some (Inr ())" and st: "operands_typed f node st" "node_values st n = None"
    and b: "int64_type (node_type node)"
  shows "sets_typed n node st (HandleArrayUpdate n node st)"
proof -
  define ms where "ms = drop 2 (operands node)"
  obtain u where t: "operand_type f node 0 = Some (node_type node)" "operand_type f node 1 = Some u"
      "VerifyMultidimensionalArrayIndex f ms (node_type node) = Some (Inr ())" "GetIndexedElementType (node_type node) (length ms) = Inr u"
    using c by (auto simp: NodeChecker_HandleArrayUpdate_def expectation_defs expectation_iffs ms_def)
  obtain a where a: "operand_value node st 0 = Some a" "has_type a (node_type node)" using operand_valueD[OF st(1) t(1)] .
  obtain v where v: "operand_value node st 1 = Some v" "has_type v u" using operand_valueD[OF st(1) t(2)] .
  show ?thesis
  proof (cases "ms = []")
    case True
    then show ?thesis using a v t(4) st(2) by (auto simp: HandleArrayUpdate_def ms_def intro!: SetValueResult_ok)
  next
    case False
    then obtain k t' where k: "node_type node = ArrayType k t'" using t(4) by (cases ms; cases "node_type node") auto
    obtain es where es: "a = ArrayValue es" "length es = k" "0 < k" "\<forall>e \<in> set es. has_type e t'" using a(2) k by (auto simp: has_type_array)
    have "\<exists>w. GetType f m = Some (BitsType w)" if "m \<in> set ms" for m using VerifyMultidimensionalArrayIndex_ok[OF t(3) that] .
    then obtain w where "\<And>m. m \<in> set ms \<Longrightarrow> GetType f m = Some (BitsType (w m))" by metis
    then have "\<exists>x. ResolveAsBits st m = Some (mk_bits (w m) x)" if "m \<in> set ms" for m
      using ResolveAsBits_typed[OF st(1)] that set_drop_subset[of 2 "operands node"] by (fastforce simp: ms_def)
    from ResolveAsBitsVector_ok[of ms st w, OF this] obtain xs where xs: "ResolveAsBitsVector st ms = Some (map2 (\<lambda>m. mk_bits (w m)) ms xs)" "length xs = length ms" by blast
    have "\<exists>es'. SetArrayElement (map2 (\<lambda>m. mk_bits (w m)) ms xs) v es = Some (Inr es') \<and> length es' = length es \<and> (\<forall>e \<in> set es'. has_type e t')"
      using False xs(2) es b k t(4) v(2) by (intro SetArrayElement_ok) auto
    then obtain es' where es': "SetArrayElement (map2 (\<lambda>m. mk_bits (w m)) ms xs) v es = Some (Inr es')" "length es' = k" "\<forall>e \<in> set es'. has_type e t'"
      using es(2) by auto
    have "es' \<noteq> []" using es'(2) es(3) by auto
    note A = Value_Array_ok[OF es'(3) this]
    show ?thesis using False a(1) v(1) es(1) xs(1) es'(1,2) A k st(2)
      by (auto simp: HandleArrayUpdate_def GetElements_def ms_def[symmetric] Let_def intro!: SetValueResult_ok)
  qed
qed

lemma array_concat_size_Cons:
  "array_concat_size f (m # ms) z k = Some (Inr r) \<longleftrightarrow>
     (\<exists>j t. GetType f m = Some (ArrayType j t) \<and> (z = None \<or> z = Some t) \<and> array_concat_size f ms (Some t) (k + j) = Some (Inr r))"
proof (cases "GetType f m")
  case (Some t)
  then show ?thesis by (cases t; cases z) auto
qed simp

lemma concat_elements_ok:
  "array_concat_size f ms z k = Some (Inr (Some u, k')) \<Longrightarrow>
     (\<And>m t. m \<in> set ms \<Longrightarrow> GetType f m = Some t \<Longrightarrow> \<exists>v. ResolveAsValue st m = Some v \<and> has_type v t) \<Longrightarrow>
     \<exists>es. concat_elements st ms acc = Some (acc @ es) \<and> k' = k + length es \<and> (\<forall>e \<in> set es. has_type e u) \<and> (z \<noteq> None \<longrightarrow> z = Some u)"
proof (induction ms arbitrary: z k acc)
  case (Cons m ms)
  obtain j t where j: "GetType f m = Some (ArrayType j t)" "array_concat_size f ms (Some t) (k + j) = Some (Inr (Some u, k'))" "z \<noteq> None \<longrightarrow> z = Some t"
    using Cons.prems(1) unfolding array_concat_size_Cons by blast
  obtain es where es: "ResolveAsValue st m = Some (ArrayValue es)" "length es = j" "\<forall>e \<in> set es. has_type e t"
    using Cons.prems(2)[OF _ j(1)] by (auto simp: has_type_array)
  obtain rs where "concat_elements st ms (acc @ es) = Some ((acc @ es) @ rs)" "k' = k + j + length rs" "\<forall>e \<in> set rs. has_type e u" "t = u"
    using Cons.IH[OF j(2) Cons.prems(2)[OF list.set_intros(2)], of "acc @ es"] by auto
  then show ?case using es j(3) by (intro exI[of _ "es @ rs"]) auto
qed simp

lemma array_concat_ok:
  assumes c: "NodeChecker_HandleArrayConcat f node = Some (Inr ())" and st: "operands_typed f node st" "node_values st n = None"
    and i: "inhabited (node_type node)"
  shows "sets_typed n node st (HandleArrayConcat n node st)"
proof -
  obtain z k where z: "array_concat_size f (operands node) None 0 = Some (Inr (z, k))" "matches_array (node_type node) z (Some k)" "operands node \<noteq> []"
    using c by (auto simp: NodeChecker_HandleArrayConcat_def expectation_defs or_return_ok)
  have mono: "array_concat_size f ms (Some y) j = Some (Inr (z, k)) \<Longrightarrow> z \<noteq> None" for ms y j
  proof (induction ms arbitrary: j)
    case (Cons m ms)
    then show ?case unfolding array_concat_size_Cons by auto
  qed auto
  obtain m ms where ms: "operands node = m # ms" using z(3) by (cases "operands node") auto
  obtain j t where "array_concat_size f ms (Some t) j = Some (Inr (z, k))" using z(1) unfolding ms array_concat_size_Cons by auto
  from mono[OF this] obtain u where u: "z = Some u" by blast
  obtain es where es: "concat_elements st (operands node) [] = Some es" "k = length es" "\<forall>e \<in> set es. has_type e u"
    using concat_elements_ok[OF z(1)[unfolded u], of st "[]"] ResolveAsValue_typed[OF st(1)] by auto
  have t: "node_type node = ArrayType k u" using z(2) u by (simp add: matches_array_iff)
  have "es \<noteq> []" using i t es(2) by auto
  then show ?thesis using es t Value_Array_ok[OF es(3)] st(2) by (auto simp: HandleArrayConcat_def intro!: SetValueResult_ok)
qed

end
