(* ===== verification/CallTyping.thy ===== *)
theory CallTyping
  imports HandlerTyping
begin

text \<open>
  The same for the operations that call functions, over the interface \<open>typed_calls\<close>: invocations, maps and the two kinds of
  loops. The loop whose trip count is a value ends because its induction variable reaches the limit without
  wrapping around.
\<close>

section \<open>Calls\<close>

text \<open>
  What the handlers of calls rely on: a callee that is given arguments of its parameters' types returns a value of
  its return type.
\<close>

locale typed_calls =
  fixes pkg :: package and call :: interpret_call and callable :: "nat \<Rightarrow> bool"
  assumes call_typed: "callable g \<Longrightarrow> list_at pkg g = Some func \<Longrightarrow> args_typed func args \<Longrightarrow>
    \<exists>v e t. call g args = Some (Inr (v, e)) \<and> return_type_of func = Some t \<and> has_type v t"
begin

lemma invoke_ok:
  assumes c: "NodeChecker_HandleInvoke pkg g f node = Some (Inr ())" and st: "operands_typed f node st" "node_values st n = None" and g: "callable g"
  shows "sets_typed n node st (HandleInvoke pkg call g n node st)"
proof -
  obtain func where func: "list_at pkg g = Some func" "length (operands node) = length (fn_params func)" "return_type_of func = Some (node_type node)"
    "\<And>i. i < length (operands node) \<Longrightarrow> \<exists>t. param_type func i = Some t \<and> operand_type f node i = Some t"
    using c by (auto simp: NodeChecker_HandleInvoke_def bind_ok expectation_defs)
  have "\<exists>v. operand_value node st i = Some v \<and> (\<exists>t. param_type func i = Some t \<and> has_type v t)" if "i < length (fn_params func)" for i
    using func(2,4) that operand_valueD[OF st(1)] by metis
  from generate_ex[where n = "length (fn_params func)" and f = "operand_value node st", OF this] obtain args where args: "generate (length (fn_params func)) (operand_value node st) = Some args" "length args = length (fn_params func)"
    "\<forall>i < length (fn_params func). \<exists>t. param_type func i = Some t \<and> has_type (args ! i) t" by blast
  have "args_typed func args" using args(2,3) by (auto simp: args_typed_def)
  from call_typed[OF g func(1) this] obtain v e where "call g args = Some (Inr (v, e))" "has_type v (node_type node)" using func(3) by auto
  then show ?thesis using func(1) args(1) st(2) by (auto simp: HandleInvoke_def AddInterpreterEvents_def intro!: SetValueResult_ok)
qed

lemma map_elements_ok:
  assumes g: "callable g" "list_at pkg g = Some func" "fn_params func = [p]" "param_type func 0 = Some t" "return_type_of func = Some u"
  shows "\<forall>v \<in> set vs. has_type v t \<Longrightarrow> \<exists>rs st'. map_elements call g vs acc st = Some (Inr (acc @ rs, st')) \<and> length rs = length vs \<and>
    (\<forall>r \<in> set rs. has_type r u) \<and> node_values st' = node_values st"
proof (induction vs arbitrary: acc st)
  case (Cons v vs)
  have "args_typed func [v]" using g(3,4) Cons.prems by (auto simp: args_typed_def)
  from call_typed[OF g(1,2) this] obtain r e where r: "call g [v] = Some (Inr (r, e))" "has_type r u" using g(5) by auto
  obtain rs st' where "map_elements call g vs (acc @ [r]) (AddInterpreterEvents e st) = Some (Inr ((acc @ [r]) @ rs, st'))" "length rs = length vs"
    "\<forall>r \<in> set rs. has_type r u" "node_values st' = node_values (AddInterpreterEvents e st)" using Cons.IH[of "acc @ [r]" "AddInterpreterEvents e st"] Cons.prems by auto
  then show ?case using r by (intro exI[of _ "r # rs"] exI[of _ st']) (auto simp: AddInterpreterEvents_def)
qed simp

lemma map_ok:
  assumes c: "NodeChecker_HandleMap pkg g f node = Some (Inr ())" and st: "operands_typed f node st" "node_values st n = None" and g: "callable g"
    and k: "\<And>j t k u. operand_type f node 0 = Some (ArrayType j t) \<Longrightarrow> node_type node = ArrayType k u \<Longrightarrow> j = k"
  shows "sets_typed n node st (HandleMap call g n node st)"
proof -
  obtain func t u j k' where func: "list_at pkg g = Some func" "length (fn_params func) = 1" "param_type func 0 = Some t" "return_type_of func = Some u"
    "operand_type f node 0 = Some (ArrayType j t)" "node_type node = ArrayType k' u"
    using c by (auto simp: NodeChecker_HandleMap_def expectation_defs expectation_iffs)
  have t: "node_type node = ArrayType j u" using k[OF func(5,6)] func(6) by simp
  obtain p where p: "fn_params func = [p]" using func(2) by (cases "fn_params func") auto
  obtain a where a: "operand_value node st 0 = Some a" "has_type a (ArrayType j t)" using operand_valueD[OF st(1) func(5)] .
  then obtain es where es: "a = ArrayValue es" "length es = j" "0 < j" "\<forall>e \<in> set es. has_type e t" by (auto simp: has_type_array)
  obtain rs st' where rs: "map_elements call g es [] st = Some (Inr (rs, st'))" "length rs = j" "\<forall>r \<in> set rs. has_type r u" "node_values st' = node_values st"
    using map_elements_ok[OF g func(1) p func(3,4) es(4), of "[]" st] es(2) by auto
  have "rs \<noteq> []" using rs(2) es(3) by auto
  then show ?thesis using a(1) es(1) rs Value_Array_ok[OF rs(3)] t st(2) by (auto simp: HandleMap_def intro!: SetValueResult_ok)
qed

lemma loop_args_typed:
  assumes "length (fn_params func) = length invs + 2" "param_type func 0 = Some (BitsType w)" "param_type func 1 = Some t"
    "\<forall>i < length invs. \<exists>u. param_type func (i + 2) = Some u \<and> has_type (invs ! i) u" "has_type ls t"
  shows "args_typed func (BitsValue (mk_bits w x) # ls # invs)"
  using assms by (auto simp: args_typed_def nth_Cons less_Suc_eq_0_disj split: nat.splits)

lemma counted_for_loop_ok:
  assumes g: "callable g" "list_at pkg g = Some func" "return_type_of func = Some t"
    and p: "length (fn_params func) = length invs + 2" "param_type func 0 = Some (BitsType w)" "param_type func 1 = Some t"
      "\<forall>i < length invs. \<exists>u. param_type func (i + 2) = Some u \<and> has_type (invs ! i) u"
  shows "has_type ls t \<Longrightarrow> (\<And>j. j < k \<Longrightarrow> unat (word_of_int (iv + int j * stride) :: u64) < 2 ^ w) \<Longrightarrow>
    \<exists>v st'. counted_for_loop call g w stride invs k iv ls st = Some (Inr (v, st')) \<and> has_type v t \<and> node_values st' = node_values st"
proof (induction k arbitrary: iv ls st)
  case (Suc k)
  obtain x where x: "UBits (word_of_int iv) w = Some (mk_bits w x)" using Suc.prems(2)[of 0] by auto
  from call_typed[OF g(1,2) loop_args_typed[OF p Suc.prems(1)]] obtain v e
    where v: "call g (BitsValue (mk_bits w x) # ls # invs) = Some (Inr (v, e))" "has_type v t" using g(3) by fastforce
  have "\<exists>v' st'. counted_for_loop call g w stride invs k (iv + stride) v (AddInterpreterEvents e st) = Some (Inr (v', st')) \<and> has_type v' t \<and>
      node_values st' = node_values (AddInterpreterEvents e st)"
    using Suc.prems(2)[of "Suc _"] v(2) by (intro Suc.IH) (auto simp: algebra_simps)
  then show ?case using x v(1) by (auto simp: AddInterpreterEvents_def simp del: UBits_eq)
qed simp

end

lemma unat_small_int: "0 \<le> x \<Longrightarrow> x < 2 ^ 63 \<Longrightarrow> unat (word_of_int x :: u64) = nat x"
  by (simp add: unsigned_of_int take_bit_int_eq_self)

lemma induction_variable_fits:
  assumes b: "1 < trip \<Longrightarrow> - (2 ^ 63) \<le> stride * (trip - 1) \<and> stride * (trip - 1) < 2 ^ 63"
    and m: "(if trip \<le> 1 then 1 else MinBitCountUnsigned (word_of_int (stride * (trip - 1)))) \<le> w" and j: "j < nat trip"
  shows "unat (word_of_int (int j * stride) :: u64) < 2 ^ w"
proof (cases "trip \<le> 1 \<or> stride = 0")
  case True
  then have "int j * stride = 0" using j by auto
  then show ?thesis by (simp only: of_int_0 unsigned_0) simp
next
  case False
  have m': "unat (word_of_int (stride * (trip - 1)) :: u64) < 2 ^ w" using m False by (simp add: MinBitCountUnsigned_le_iff)
  have j': "0 \<le> int j" "int j \<le> trip - 1" using j False by auto
  show ?thesis
  proof (cases "stride > 0")
    case True
    then have s: "0 \<le> int j * stride" "int j * stride \<le> stride * (trip - 1)" using j' by (simp_all add: mult.commute mult_left_mono)
    have m: "stride * (trip - 1) < 2 ^ 63" using b False by auto
    have "unat (word_of_int (int j * stride) :: u64) = nat (int j * stride)" using s m by (intro unat_small_int) linarith+
    moreover have "unat (word_of_int (stride * (trip - 1)) :: u64) = nat (stride * (trip - 1))" using s m by (intro unat_small_int) linarith+
    ultimately show ?thesis using m' s by linarith
  next
    case neg: False
    have "stride * (trip - 1) < 0" using neg False by (simp add: mult_neg_pos)
    then have "sint (word_of_int (stride * (trip - 1)) :: u64) < 0" using b False sint_word_of_int_64[of "stride * (trip - 1)"] by auto
    then have "bit (word_of_int (stride * (trip - 1)) :: u64) 63" by (simp add: sint_neg_iff)
    then have "2 ^ 63 \<le> unat (word_of_int (stride * (trip - 1)) :: u64)" 
      using bit_nat_less_iff[of "unat (word_of_int (stride * (trip - 1)) :: u64)" 63] bit_unat[of "word_of_int (stride * (trip - 1)) :: u64" 63] by fastforce
    then have "(2::nat) ^ 63 < 2 ^ w" using m' by linarith
    then have "63 < w" by (rule power_less_imp_less_exp[rotated]) simp
    then have "64 \<le> w" by simp
    then have "(2::nat) ^ 64 \<le> 2 ^ w" by (rule power_increasing) simp
    then show ?thesis using unsigned_less[of "word_of_int (int j * stride) :: u64", where ?'a = nat] by simp
  qed
qed

lemma Add_mk_int:
  assumes "bignum_ok L val"
  shows "bits_ops_Add L (mk_int w a) (mk_int w b) = Some (mk_int w (a + b))"
proof -
  have "mk_bits w (nat (take_bit w a) + nat (take_bit w b)) = mk_int w (int (nat (take_bit w a) + nat (take_bit w b)))" by (rule mk_int_of_nat[symmetric])
  also have "\<dots> = mk_int w (a + b)" by (rule mk_int_cong) (simp add: take_bit_eq_mod mod_add_eq)
  finally show ?thesis by (simp add: mk_int_def[of w a] mk_int_def[of w b] bits_ops_Add_eq[OF assms])
qed

lemma SEqual_mk_int:
  assumes "bignum_ok L val" "0 < w" "- (2 ^ (w - 1)) \<le> a" "a < 2 ^ (w - 1)" "0 < u" "- (2 ^ (u - 1)) \<le> b" "b < 2 ^ (u - 1)"
  shows "SEqual L (mk_int w a) (mk_int u b) = Some (a = b)"
proof -
  have "SEqual L (mk_int w a) (mk_int u b) = Some (sval (mk_int w a) = sval (mk_int u b))"
    unfolding mk_int_def by (rule SEqual_eq[OF assms(1)])
  then show ?thesis using sval_mk_int_exact[OF assms(2-4)] sval_mk_int_exact[OF assms(5-7)] by simp
qed

text \<open>The product of an unsigned and a signed number of given widths.\<close>

lemma product_bound:
  assumes "t < 2 ^ tw" "0 < sw" "\<bar>s\<bar> \<le> 2 ^ (sw - 1)"
  shows "\<bar>int t * s\<bar> < 2 ^ (tw + sw - 1)"
proof -
  have "\<bar>int t * s\<bar> = int t * \<bar>s\<bar>" by (simp add: abs_mult)
  also have "\<dots> \<le> int t * 2 ^ (sw - 1)" using assms(3) by (intro mult_left_mono) auto
  also have "\<dots> < 2 ^ tw * 2 ^ (sw - 1)" using assms(1) by (intro mult_strict_right_mono) auto
  also have "\<dots> = 2 ^ (tw + sw - 1)" using assms(2) by (simp add: power_add[symmetric])
  finally show ?thesis .
qed

context typed_calls
begin

lemma dynamic_for_loop_ok:
  assumes L: "bignum_ok L val" and g: "callable g" "list_at pkg g = Some func" "return_type_of func = Some t"
    and p: "length (fn_params func) = length invs + 2" "param_type func 0 = Some (BitsType w)" "param_type func 1 = Some t"
      "\<forall>i < length invs. \<exists>u. param_type func (i + 2) = Some u \<and> has_type (invs ! i) u"
    and r: "0 < w" "0 < u" "\<And>i. i \<le> trip \<Longrightarrow> \<bar>int i * stride\<bar> < 2 ^ (w - 1)" "\<bar>int trip * stride\<bar> < 2 ^ (u - 1)"
  shows "has_type ls t \<Longrightarrow> i \<le> trip \<Longrightarrow>
    \<exists>v st'. dynamic_for_loop L call g (mk_int u (int trip * stride)) (mk_int w stride) invs (mk_int w (int i * stride)) ls st = Some (Inr (v, st')) \<and>
      has_type v t \<and> node_values st' = node_values st"
proof (induction "trip - i" arbitrary: i ls st)
  case 0
  then have "i = trip" by simp
  have "SEqual L (mk_int w (int i * stride)) (mk_int u (int trip * stride)) = Some True"
    using SEqual_mk_int[OF L r(1) _ _ r(2), of "int i * stride" "int trip * stride"] r(3)[of i] r(4) \<open>i = trip\<close> by (simp add: abs_less_iff)
  then show ?case using 0 by (subst dynamic_for_loop.simps) auto
next
  case (Suc d)
  have e: "SEqual L (mk_int w (int i * stride)) (mk_int u (int trip * stride)) = Some (int i * stride = int trip * stride)"
    using SEqual_mk_int[OF L r(1) _ _ r(2), of "int i * stride" "int trip * stride"] r(3)[of i] r(4) Suc.prems(2) by (simp add: abs_less_iff)
  show ?case
  proof (cases "int i * stride = int trip * stride")
    case True
    then show ?thesis using e Suc.prems(1) by (subst dynamic_for_loop.simps) auto
  next
    case False
    have "args_typed func (BitsValue (mk_int w (int i * stride)) # ls # invs)" unfolding mk_int_def by (rule loop_args_typed[OF p Suc.prems(1)])
    from call_typed[OF g(1,2) this] obtain v e' where v: "call g (BitsValue (mk_int w (int i * stride)) # ls # invs) = Some (Inr (v, e'))" "has_type v t"
      using g(3) by fastforce
    have a: "bits_ops_Add L (mk_int w (int i * stride)) (mk_int w stride) = Some (mk_int w (int (Suc i) * stride))"
      by (simp add: Add_mk_int[OF L] algebra_simps)
    have "\<exists>v' st'. dynamic_for_loop L call g (mk_int u (int trip * stride)) (mk_int w stride) invs (mk_int w (int (Suc i) * stride)) v (AddInterpreterEvents e' st) = Some (Inr (v', st')) \<and>
        has_type v' t \<and> node_values st' = node_values (AddInterpreterEvents e' st)"
      using Suc.hyps(2) Suc.prems(2) v(2) by (intro Suc.hyps(1)) auto
    then show ?thesis using e False v(1) a by (subst dynamic_for_loop.simps) (auto simp: AddInterpreterEvents_def)
  qed
qed

lemma invariant_args_typed:
  assumes "check_invariant_args func f ms = Some (Inr ())" "operands_typed f node st" "set ms \<subseteq> set (operands node)"
  obtains vs where "ResolveAsValues st ms = Some vs" "length vs = length ms" "\<forall>i < length vs. \<exists>u. param_type func (i + 2) = Some u \<and> has_type (vs ! i) u"
proof -
  obtain vs where vs: "ResolveAsValues st ms = Some vs" "length vs = length ms"
    "\<forall>i < length ms. \<exists>t. GetType f (ms ! i) = Some t \<and> has_type (vs ! i) t" using operands_values[OF assms(2,3)] .
  have "\<forall>i < length ms. \<exists>t. GetType f (ms ! i) = Some t \<and> param_type func (i + 2) = Some t"
    using assms(1) by (auto simp: check_invariant_args_def bind_ok)
  then show thesis using that[OF vs(1,2)] vs(2,3) by fastforce
qed

lemma counted_for_ok:
  assumes c: "NodeChecker_HandleCountedFor pkg trip stride g f node = Some (Inr ())" and st: "operands_typed f node st" "node_values st n = None" and g: "callable g"
    and b: "1 < trip \<Longrightarrow> - (2 ^ 63) \<le> stride * (trip - 1) \<and> stride * (trip - 1) < 2 ^ 63"
  shows "sets_typed n node st (HandleCountedFor pkg call trip stride g n node st)"
proof -
  obtain func where func: "list_at pkg g = Some func" using c by (auto simp: NodeChecker_HandleCountedFor_def bind_ok)
  note c' = c[unfolded NodeChecker_HandleCountedFor_def func, simplified]
  have ops: "operands node \<noteq> []" "length (fn_params func) = length (tl (operands node)) + 2" using c' by (auto simp: expectation_defs)
  have inv: "check_invariant_args func f (tl (operands node)) = Some (Inr ())" using c' by simp
  have t: "operand_type f node 0 = Some (node_type node)" "return_type_of func = Some (node_type node)" "param_type func 1 = Some (node_type node)"
    using c' by (auto simp: expectation_defs bind_ok)
  obtain i_type where it: "param_type func 0 = Some i_type"
    "case i_type of BitsType w \<Rightarrow> (if trip \<le> 1 then 1 else MinBitCountUnsigned (word_of_int (stride * (trip - 1)))) \<le> w | _ \<Rightarrow> False"
    using c' by (auto simp: Let_def bind_ok)
  then obtain w where w: "param_type func 0 = Some (BitsType w)" "(if trip \<le> 1 then 1 else MinBitCountUnsigned (word_of_int (stride * (trip - 1)))) \<le> w"
    by (cases i_type) auto
  have "set (tl (operands node)) \<subseteq> set (operands node)" using ops(1) by (cases "operands node") auto
  from invariant_args_typed[OF inv st(1) this] obtain vs where vs: "ResolveAsValues st (tl (operands node)) = Some vs" "length vs = length (tl (operands node))"
    "\<forall>i < length vs. \<exists>u. param_type func (i + 2) = Some u \<and> has_type (vs ! i) u" .
  obtain ls where ls: "operand_value node st 0 = Some ls" "has_type ls (node_type node)" using operand_valueD[OF st(1) t(1)] .
  have fit: "unat (word_of_int (0 + int j * stride) :: u64) < 2 ^ w" if "j < nat trip" for j
    unfolding add_0 by (rule induction_variable_fits[OF b w(2) that])
  have len: "length (fn_params func) = length vs + 2" using ops(2) vs(2) by simp
  have "\<exists>v st'. counted_for_loop call g w stride vs (nat trip) 0 ls st = Some (Inr (v, st')) \<and> has_type v (node_type node) \<and> node_values st' = node_values st"
    by (rule counted_for_loop_ok[OF g func t(2) len w(1) t(3) vs(3) ls(2) fit])
  then obtain v st' where
    "counted_for_loop call g w stride vs (nat trip) 0 ls st = Some (Inr (v, st'))" "has_type v (node_type node)" "node_values st' = node_values st" by blast
  then show ?thesis using func vs(1) ls(1) w(1) st(2) by (auto simp: HandleCountedFor_def intro!: SetValueResult_ok)
qed

lemma dynamic_counted_for_ok:
  assumes L: "bignum_ok L val" and c: "NodeChecker_HandleDynamicCountedFor pkg g f node = Some (Inr ())" and st: "operands_typed f node st" "node_values st n = None" and g: "callable g"
    and b: "\<And>func w tw sw. list_at pkg g = Some func \<Longrightarrow> param_type func 0 = Some (BitsType w) \<Longrightarrow> operand_type f node 1 = Some (BitsType tw) \<Longrightarrow>
      operand_type f node 2 = Some (BitsType sw) \<Longrightarrow> tw + sw \<le> w"
  shows "sets_typed n node st (HandleDynamicCountedFor L pkg call g n node st)"
proof -
  obtain func where func: "list_at pkg g = Some func" using c by (auto simp: NodeChecker_HandleDynamicCountedFor_def bind_ok)
  note c' = c[unfolded NodeChecker_HandleDynamicCountedFor_def func, simplified]
  have t: "operand_type f node 0 = Some (node_type node)" "return_type_of func = Some (node_type node)" "param_type func 1 = Some (node_type node)"
    using c' by (auto simp: expectation_defs bind_ok)
  obtain w where w: "param_type func 0 = Some (BitsType w)" using c' by (auto simp: bind_ok IsBits_iff)
  obtain tt where tt: "operand_type f node 1 = Some tt" "case tt of BitsType k \<Rightarrow> k < w | _ \<Rightarrow> False" using c' w by (auto simp: bind_ok)
  then obtain tw where tw: "operand_type f node 1 = Some (BitsType tw)" "tw < w" by (cases tt) auto
  obtain ss where ss: "operand_type f node 2 = Some ss" "case ss of BitsType k \<Rightarrow> k \<le> w | _ \<Rightarrow> False" using c' w by (auto simp: bind_ok)
  then obtain sw where sw: "operand_type f node 2 = Some (BitsType sw)" "sw \<le> w" by (cases ss) auto
  have ops: "2 < length (operands node)" using sw(1) by (auto simp: operand_type_def operand_def bind_ok list_at_eq_Some)
  have len: "length (fn_params func) = length (drop 3 (operands node)) + 2" using c' ops by auto
  have inv: "check_invariant_args func f (drop 3 (operands node)) = Some (Inr ())" using c' by simp
  from invariant_args_typed[OF inv st(1) set_drop_subset] obtain vs where vs: "ResolveAsValues st (drop 3 (operands node)) = Some vs" "length vs = length (drop 3 (operands node))"
    "\<forall>i < length vs. \<exists>u. param_type func (i + 2) = Some u \<and> has_type (vs ! i) u" .
  obtain ls where ls: "operand_value node st 0 = Some ls" "has_type ls (node_type node)" using operand_valueD[OF st(1) t(1)] .
  obtain x where x: "operand_bits node st 1 = Some (mk_bits tw x)" "x < 2 ^ tw" using operand_bitsD[OF st(1) tw(1)] by blast
  obtain y where y: "operand_bits node st 2 = Some (mk_bits sw y)" using operand_bitsD[OF st(1) sw(1)] by blast
  define s where "s = sval (mk_bits sw y)"
  have ws: "tw + sw \<le> w" using b[OF func w tw(1) sw(1)] .
  have bound: "\<bar>int i * s\<bar> < 2 ^ (tw + sw)" "\<bar>int i * s\<bar> < 2 ^ (w - 1)" if "i \<le> x" for i
  proof -
    show w1: "\<bar>int i * s\<bar> < 2 ^ (w - 1)"
    proof (cases "sw = 0")
      case False
      have "\<bar>int i * s\<bar> < 2 ^ (tw + sw - 1)" using False sval_abs_le[of "mk_bits sw y"] x(2) that by (intro product_bound) (auto simp: s_def)
      also have "(2::int) ^ (tw + sw - 1) \<le> 2 ^ (w - 1)" using ws by (intro power_increasing) auto
      finally show ?thesis .
    qed (simp add: s_def)
    show "\<bar>int i * s\<bar> < 2 ^ (tw + sw)"
    proof (cases "sw = 0")
      case False
      have "\<bar>int i * s\<bar> < 2 ^ (tw + sw - 1)" using False sval_abs_le[of "mk_bits sw y"] x(2) that by (intro product_bound) (auto simp: s_def)
      also have "(2::int) ^ (tw + sw - 1) \<le> 2 ^ (tw + sw)" by (intro power_increasing) auto
      finally show ?thesis .
    qed (simp add: s_def)
  qed
  have "- (2 ^ tw) \<le> int x" by (rule order_trans[of _ 0]) auto
  then have sx: "sval (mk_bits (tw + 1) x) = int x" using sval_mk_int_exact[of "tw + 1" "int x"] x(2) by simp
  have "\<exists>v st'. dynamic_for_loop L call g (mk_int (tw + 1 + sw) (int x * s)) (mk_int w s) vs (mk_int w (int 0 * s)) ls st = Some (Inr (v, st')) \<and>
      has_type v (node_type node) \<and> node_values st' = node_values st"
    using dynamic_for_loop_ok[OF L g func t(2) _ w t(3) vs(3), where trip = x and stride = s and u = "tw + 1 + sw" and i = 0 and ls = ls and st = st] bound len vs(2) ls(2) tw(2) by auto
  then obtain v st' where "dynamic_for_loop L call g (mk_int (tw + 1 + sw) (int x * s)) (mk_int w s) vs (mk_bits w 0) ls st = Some (Inr (v, st'))"
      "has_type v (node_type node)" "node_values st' = node_values st" using mk_int_of_nat[of w 0] by auto
  then show ?thesis using func vs(1) ls(1) w x y sx sw(2) st(2)
    by (auto simp: HandleDynamicCountedFor_def s_def take_bit_nat_eq_self bits_ops_SMul_eq[OF L] intro!: SetValueResult_ok)
qed

end

section \<open>Termination of the dynamic loop\<close>

text \<open>A limit that no index of the width takes is never reached: the loop has no result unless the body fails.\<close>

lemma dynamic_for_loop_diverges:
  assumes L: "bignum_ok L val" and limit: "\<And>x. sval (mk_bits w x) \<noteq> sval (mk_bits u z)"
    and r: "dynamic_for_loop L call body (mk_bits u z) (mk_bits w d) invs (mk_bits w x) ls st = Some r"
  shows "\<exists>err. r = Inl err"
proof -
  let ?P = "\<lambda>M (c :: interpret_call) (b :: nat) lim stride (is :: ir_value list) idx (l :: ir_value) (s :: interp_state) r.
    M = L \<and> lim = mk_bits u z \<and> stride = mk_bits w d \<and> (\<exists>x. idx = mk_bits w x) \<longrightarrow> (\<exists>err. r = Inl err)"
  have "?P L call body (mk_bits u z) (mk_bits w d) invs (mk_bits w x) ls st r"
  proof (rule dynamic_for_loop.raw_induct[where P = ?P, OF _ r])
    fix loop M c b lim stride "is" idx l s r
    assume IH: "\<And>M c b lim stride is idx l s r. loop M c b lim stride is idx l s = Some r \<Longrightarrow> ?P M c b lim stride is idx l s r"
      and step: "SEqual M idx lim \<bind> (\<lambda>stop. if stop then Some (Inr (l, s))
         else c b (BitsValue idx # l # is) \<bind> (\<lambda>r. case r of Inl err \<Rightarrow> Some (Inl err)
           | Inr ve \<Rightarrow> bits_ops_Add M idx stride \<bind> (\<lambda>index'. loop M c b lim stride is index' (fst ve) (AddInterpreterEvents (snd ve) s)))) = Some r"
    show "?P M c b lim stride is idx l s r"
    proof
      assume a: "M = L \<and> lim = mk_bits u z \<and> stride = mk_bits w d \<and> (\<exists>x. idx = mk_bits w x)"
      then obtain x where x: "idx = mk_bits w x" by blast
      have "SEqual L idx lim = Some False" using SEqual_eq[OF L, of w x u z] limit[of x] a x by simp
      then obtain r' where r': "c b (BitsValue idx # l # is) = Some r'"
        "(case r' of Inl err \<Rightarrow> Some (Inl err) | Inr ve \<Rightarrow> loop L c b lim stride is (mk_bits w (x + d)) (fst ve) (AddInterpreterEvents (snd ve) s)) = Some r"
        using step a x by (auto simp: bind_ok bits_ops_Add_eq[OF L])
      show "\<exists>err. r = Inl err"
      proof (cases r')
        case (Inr ve)
        then show ?thesis using r'(2) IH[of L c b lim stride "is" "mk_bits w (x + d)" "fst ve" "AddInterpreterEvents (snd ve) s" r] a by auto
      qed (use r'(2) in auto)
    qed
  qed
  then show ?thesis by blast
qed

lemma multiples_between:
  fixes s a b :: int
  assumes "a \<le> int t * s" "int t * s < b" "a \<le> 0" "0 < b" "i \<le> t"
  shows "a \<le> int i * s \<and> int i * s < b"
proof (cases "0 \<le> s")
  case True
  then have "0 \<le> int i * s" "int i * s \<le> int t * s" using assms(5) by (simp_all add: mult_right_mono)
  then show ?thesis using assms by linarith
next
  case False
  then have "int i * s \<le> 0" "int t * s \<le> int i * s" using assms(5) by (simp_all add: mult_right_mono_neg mult_nonneg_nonpos)
  then show ?thesis using assms by linarith
qed

lemma dynamic_for_loop_returns:
  assumes L: "bignum_ok L val" and call: "\<And>args. \<exists>v e. call body args = Some (Inr (v, e))"
    and r: "0 < w" "0 < u" "- (2 ^ (w - 1)) \<le> int trip * stride" "int trip * stride < 2 ^ (w - 1)" "- (2 ^ (u - 1)) \<le> int trip * stride" "int trip * stride < 2 ^ (u - 1)"
  shows "i \<le> trip \<Longrightarrow> \<exists>r. dynamic_for_loop L call body (mk_int u (int trip * stride)) (mk_int w stride) invs (mk_int w (int i * stride)) ls st = Some (Inr r)"
proof (induction "trip - i" arbitrary: i ls st)
  case 0
  then have "i = trip" by simp
  then have "SEqual L (mk_int w (int i * stride)) (mk_int u (int trip * stride)) = Some True" using SEqual_mk_int[OF L r(1,3,4,2,5,6)] by simp
  then show ?case by (subst dynamic_for_loop.simps) auto
next
  case (Suc d)
  have "- (2 ^ (w - 1)) \<le> int i * stride \<and> int i * stride < 2 ^ (w - 1)" using multiples_between[OF r(3,4) _ _ Suc.prems] by simp
  then have e: "SEqual L (mk_int w (int i * stride)) (mk_int u (int trip * stride)) = Some (int i * stride = int trip * stride)"
    using SEqual_mk_int[OF L r(1) _ _ r(2,5,6)] by simp
  show ?case
  proof (cases "int i * stride = int trip * stride")
    case True
    then show ?thesis using e by (subst dynamic_for_loop.simps) auto
  next
    case False
    obtain v e' where v: "call body (BitsValue (mk_int w (int i * stride)) # ls # invs) = Some (Inr (v, e'))" using call by blast
    have a: "bits_ops_Add L (mk_int w (int i * stride)) (mk_int w stride) = Some (mk_int w (int (Suc i) * stride))"
      by (simp add: Add_mk_int[OF L] algebra_simps)
    have "\<exists>r. dynamic_for_loop L call body (mk_int u (int trip * stride)) (mk_int w stride) invs (mk_int w (int (Suc i) * stride)) v (AddInterpreterEvents e' st) = Some (Inr r)"
      using Suc.hyps(2) Suc.prems by (intro Suc.hyps(1)) auto
    then show ?thesis using e False v a by (subst dynamic_for_loop.simps) auto
  qed
qed

text \<open>
  With a body that always returns, the loop returns exactly if the limit is in the signed range of the index.
\<close>

lemma dynamic_for_loop_terminates_iff:
  assumes L: "bignum_ok L val" and call: "\<And>args. \<exists>v e. call body args = Some (Inr (v, e))"
    and r: "0 < w" "0 < u" "- (2 ^ (u - 1)) \<le> int trip * stride" "int trip * stride < 2 ^ (u - 1)"
  shows "(\<exists>r. dynamic_for_loop L call body (mk_int u (int trip * stride)) (mk_int w stride) invs (mk_bits w 0) ls st = Some (Inr r)) \<longleftrightarrow>
    - (2 ^ (w - 1)) \<le> int trip * stride \<and> int trip * stride < 2 ^ (w - 1)"
proof
  assume "\<exists>r. dynamic_for_loop L call body (mk_int u (int trip * stride)) (mk_int w stride) invs (mk_bits w 0) ls st = Some (Inr r)"
  then obtain r' where r': "dynamic_for_loop L call body (mk_int u (int trip * stride)) (mk_int w stride) invs (mk_bits w 0) ls st = Some (Inr r')" by blast
  show "- (2 ^ (w - 1)) \<le> int trip * stride \<and> int trip * stride < 2 ^ (w - 1)"
  proof (rule ccontr)
    assume n: "\<not> (- (2 ^ (w - 1)) \<le> int trip * stride \<and> int trip * stride < 2 ^ (w - 1))"
    have "sval (mk_bits w x) \<noteq> sval (mk_int u (int trip * stride))" for x
      using n sval_range[of "mk_bits w x"] sval_mk_int_exact[OF r(2-4)] r(1) by auto
    then show False using dynamic_for_loop_diverges[OF L _ r'[unfolded mk_int_def]] unfolding mk_int_def by blast
  qed
next
  assume "- (2 ^ (w - 1)) \<le> int trip * stride \<and> int trip * stride < 2 ^ (w - 1)"
  then show "\<exists>r. dynamic_for_loop L call body (mk_int u (int trip * stride)) (mk_int w stride) invs (mk_bits w 0) ls st = Some (Inr r)"
    using dynamic_for_loop_returns[where call = call and body = body, OF L call r(1,2) _ _ r(3,4), of 0 invs ls st] mk_int_of_nat[of w 0] by simp
qed

end
