(* ===== verification/IrSoundness.thy ===== *)
theory IrSoundness
  imports CallTyping
begin

text \<open>
  Verified functions evaluate. The theory states what the interpreter needs beyond the verifier's checks, lifts the
  lemmas on single nodes to the depth-first traversal of a function, and closes the interface \<open>typed_calls\<close> by
  induction on the depth of calls: the interpreter itself is an instance of it.
\<close>

section \<open>Functions that can be evaluated\<close>

text \<open>
  What the verifier leaves open and the interpreter needs: comparisons other than equality are of bits, a partial product has
  the width of its attribute, decoded indices are below \<open>2 ^ 63\<close>, the cases and the default of a select have its type, a map
  keeps the number of elements, the induction variables of loops do not overflow, and there is no cover, no operation
  of a proc or a block and no array without elements. Counts are within \<open>int64_t\<close>.
\<close>

definition all_have_type :: "ir_function \<Rightarrow> ir_type \<Rightarrow> nat list \<Rightarrow> bool" where
  "all_have_type f t ms \<longleftrightarrow> (\<forall>m \<in> set ms. GetType f m = Some t)"

definition loop_bound_ok :: "ir_function option \<Rightarrow> ir_function \<Rightarrow> ir_node \<Rightarrow> bool" where
  "loop_bound_ok body f node \<longleftrightarrow>
     (case (body \<bind> (\<lambda>func. param_type func 0), operand_type f node 1, operand_type f node 2) of
        (Some (BitsType w), Some (BitsType tw), Some (BitsType sw)) \<Rightarrow> tw + sw \<le> w
      | _ \<Rightarrow> True)"

fun evaluable_op :: "package \<Rightarrow> ir_function \<Rightarrow> ir_node \<Rightarrow> node_op \<Rightarrow> bool" where
  "evaluable_op pkg f node (CompareOp c) \<longleftrightarrow> c = kEq \<or> c = kNe \<or> (case operand_type f node 0 of Some (BitsType w) \<Rightarrow> True | _ \<Rightarrow> False)"
| "evaluable_op pkg f node (PartialProductOp m w) \<longleftrightarrow> node_type node = TupleType [BitsType w, BitsType w]"
| "evaluable_op pkg f node (Trace fmt) \<longleftrightarrow> printable f fmt node"
| "evaluable_op pkg f node (BitSlice s w) \<longleftrightarrow> s + w < 2 ^ 63"
| "evaluable_op pkg f node (Cover c) \<longleftrightarrow> False"
| "evaluable_op pkg f node (StatefulOp s) \<longleftrightarrow> False"
| "evaluable_op pkg f node (CountedFor trip stride body) \<longleftrightarrow> (1 < trip \<longrightarrow> - (2 ^ 63) \<le> stride * (trip - 1) \<and> stride * (trip - 1) < 2 ^ 63)"
| "evaluable_op pkg f node (DynamicCountedFor body) \<longleftrightarrow> loop_bound_ok (list_at pkg body) f node"
| "evaluable_op pkg f node (Decode w) \<longleftrightarrow> (case operand_type f node 0 of Some (BitsType u) \<Rightarrow> u < 64 | _ \<Rightarrow> True)"
| "evaluable_op pkg f node (Literal v) \<longleftrightarrow> wf_value v"
| "evaluable_op pkg f node (MapOp g) \<longleftrightarrow> (case (operand_type f node 0, node_type node) of (Some (ArrayType j t), ArrayType k u) \<Rightarrow> j = k | _ \<Rightarrow> True)"
| "evaluable_op pkg f node OneHotSelect \<longleftrightarrow> all_have_type f (node_type node) (tl (operands node))"
| "evaluable_op pkg f node PrioritySelect \<longleftrightarrow> all_have_type f (node_type node) (tl (operands node))"
| "evaluable_op pkg f node (Select k d) \<longleftrightarrow> length (operands node) = 1 + k + of_bool d \<and> 0 < k \<and> k < 2 ^ 63 \<and>
     (d \<longrightarrow> all_have_type f (node_type node) [last (operands node)])"
| "evaluable_op pkg f node op \<longleftrightarrow> True"

definition evaluable :: "package \<Rightarrow> ir_function \<Rightarrow> ir_node \<Rightarrow> bool" where
  "evaluable pkg f node \<longleftrightarrow> inhabited (node_type node) \<and> int64_type (node_type node) \<and> evaluable_op pkg f node (node_op node)"

fun callees :: "node_op \<Rightarrow> nat list" where
  "callees (Invoke g) = [g]"
| "callees (MapOp g) = [g]"
| "callees (CountedFor trip stride g) = [g]"
| "callees (DynamicCountedFor g) = [g]"
| "callees op = []"

text \<open>A function all of whose nodes can be evaluated and call only functions before it.\<close>

definition function_evaluable :: "package \<Rightarrow> nat \<Rightarrow> bool" where
  "function_evaluable pkg i \<longleftrightarrow> (case list_at pkg i of
     None \<Rightarrow> False
   | Some f \<Rightarrow> fn_return f < length (fn_nodes f) \<and>
       (\<forall>node \<in> set (fn_nodes f). evaluable pkg f node \<and> (\<forall>g \<in> set (callees (node_op node)). g < i)))"

context typed_calls
begin

lemma visit_op_ok:
  assumes L: "bignum_ok L val" and c: "check_op check_stateful pkg f (node_op node) node = Some (Inr ())" and e: "evaluable pkg f node"
    and g: "\<And>g. g \<in> set (callees (node_op node)) \<Longrightarrow> callable g"
    and b: "\<And>m t. GetType f m = Some t \<Longrightarrow> int64_type t"
    and p: "\<And>name. node_op node = Param name \<Longrightarrow> n \<in> set (fn_params f) \<and> node_at f n = Some node \<and> args_typed f args"
    and st: "operands_typed f node st" "node_values st n = None"
  shows "sets_typed n node st (visit_op L pkg call f args (node_op node) n node st)"
proof -
  have t: "inhabited (node_type node)" "int64_type (node_type node)" and o: "evaluable_op pkg f node (node_op node)" using e by (auto simp: evaluable_def)
  have b0: "operand_type f node i = Some t \<Longrightarrow> int64_type t" for i t using b by (auto simp: operand_type_def bind_ok)
  show ?thesis
  proof (cases "node_op node")
    case (BinOp k)
    then show ?thesis using c o bin_op_ok[OF L _ st, of k] by simp
  next
    case (CompareOp k)
    then have "k \<in> {kEq, kNe} \<or> (\<exists>w. operand_type f node 0 = Some (BitsType w))" using o by (auto split: option.splits ir_type.splits)
    then show ?thesis using c CompareOp compare_op_ok[OF L _ st] by simp
  next
    case (NaryOp k)
    then show ?thesis using c o nary_op_ok[OF _ st] by simp
  next
    case (BitwiseReductionOp k)
    then show ?thesis using c o reduction_op_ok[OF _ st] by simp
  next
    case (UnOp k)
    then show ?thesis using c o un_op_ok[OF L _ st] by simp
  next
    case (ExtendOp k w)
    then show ?thesis using c o extend_op_ok[OF _ st] by (cases k) simp_all
  next
    case (ArithOp k)
    then show ?thesis using c o mul_ok[OF L _ st] by (cases k) simp_all
  next
    case (PartialProductOp k w)
    then show ?thesis using c o mulp_ok[OF L _ st] by (cases k) simp_all
  next
    case AfterAll
    then show ?thesis using c o after_all_ok[OF _ st(2)] by simp
  next
    case Array
    then show ?thesis using c o array_ok[OF _ st t(1)] by simp
  next
    case ArrayIndex
    then show ?thesis using c o array_index_ok[OF _ st b0] by simp
  next
    case (ArraySlice w)
    then show ?thesis using c o array_slice_ok[OF _ st b0] by simp
  next
    case ArrayUpdate
    then show ?thesis using c o array_update_ok[OF _ st t(2)] by simp
  next
    case ArrayConcat
    then show ?thesis using c o array_concat_ok[OF _ st t(1)] by simp
  next
    case (Assert m)
    then show ?thesis using c o assert_ok[OF _ st] by simp
  next
    case (Trace fmt)
    then show ?thesis using c o trace_ok[OF _ st] by simp
  next
    case (Cover m)
    then show ?thesis using o by simp
  next
    case (BitSlice s w)
    then show ?thesis using c o bit_slice_ok[OF _ _ st] by simp
  next
    case BitSliceUpdateOp
    then show ?thesis using c o bit_slice_update_ok[OF _ st t(2)] by simp
  next
    case (DynamicBitSlice w)
    then show ?thesis using c o dynamic_bit_slice_ok[OF _ st b0] by simp
  next
    case Concat
    then show ?thesis using c o concat_ok[OF _ st] by simp
  next
    case (CountedFor trip stride body)
    then show ?thesis using c o counted_for_ok[OF _ st g] by simp
  next
    case (DynamicCountedFor body)
    have l: "tw + sw \<le> w" if "list_at pkg body = Some func" "param_type func 0 = Some (BitsType w)" "operand_type f node 1 = Some (BitsType tw)"
      "operand_type f node 2 = Some (BitsType sw)" for func w tw sw using o that DynamicCountedFor by (simp add: loop_bound_ok_def)
    show ?thesis using c DynamicCountedFor dynamic_counted_for_ok[OF L _ st g l] by simp
  next
    case (Decode w)
    have "u < 64" if "operand_type f node 0 = Some (BitsType u)" for u using o that Decode by simp
    then show ?thesis using c Decode decode_ok[OF _ st] by simp
  next
    case Encode
    then show ?thesis using c o encode_ok[OF _ st b0] by simp
  next
    case Gate
    then show ?thesis using c o gate_ok[OF _ st] by simp
  next
    case (Invoke h)
    then show ?thesis using c o invoke_ok[OF _ st g] by simp
  next
    case (Literal v)
    then show ?thesis using c o literal_ok[OF _ _ st(2)] by simp
  next
    case (MapOp h)
    have "j = k" if "operand_type f node 0 = Some (ArrayType j t)" "node_type node = ArrayType k u" for j t k u using o that MapOp by simp
    then show ?thesis using c MapOp map_ok[OF _ st g] by simp
  next
    case (OneHot q)
    then show ?thesis using c o one_hot_ok[OF _ st] by simp
  next
    case OneHotSelect
    then show ?thesis using c o one_hot_sel_ok[OF _ st t(1)] by (auto simp: all_have_type_def)
  next
    case PrioritySelect
    then show ?thesis using c o priority_sel_ok[OF _ st t(1)] by (auto simp: all_have_type_def)
  next
    case (Param name)
    then show ?thesis using c o p param_ok[of f n node args st, OF _ _ _ st(2)] by simp
  next
    case (Select k d)
    then show ?thesis using c o sel_ok[OF _ st] by (auto simp: all_have_type_def)
  next
    case TupleOp
    then show ?thesis using c o tuple_ok[OF _ st] by simp
  next
    case (TupleIndex i)
    then show ?thesis using c o tuple_index_ok[OF _ st] by simp
  next
    case (StatefulOp s)
    then show ?thesis using o by simp
  qed
qed

end

section \<open>The traversal\<close>

text \<open>
  If the traversal that only looks for cycles accepts a graph, a traversal with another visitor succeeds as well,
  provided the visitor succeeds on a node whose operands have been visited and keeps an invariant.
\<close>

definition no_visit :: "nat \<Rightarrow> unit \<Rightarrow> unit status_or option" where
  "no_visit n st = Some (Inr st)"

lemma Accept_sim:
  fixes I :: "nat list \<Rightarrow> 's \<Rightarrow> bool"
  assumes step: "\<And>n vs st. n < length graph \<Longrightarrow> n \<notin> set vs \<Longrightarrow> set (graph ! n) \<subseteq> set vs \<Longrightarrow> I vs st \<Longrightarrow> \<exists>st'. visit n st = Some (Inr st') \<and> I (n # vs) st'"
  shows "v = no_visit \<Longrightarrow> g = graph \<Longrightarrow> Node_Accept v g n t s = Some (Inr s') \<Longrightarrow> I (fst s) st \<Longrightarrow> set t \<inter> set (fst s) = {} \<Longrightarrow>
      \<exists>st'. Node_Accept visit graph n t (fst s, st) = Some (Inr (fst s', st')) \<and> I (fst s') st' \<and> set (fst s) \<subseteq> set (fst s') \<and> n \<in> set (fst s') \<and> set t \<inter> set (fst s') = {}"
    and "v = no_visit \<Longrightarrow> g = graph \<Longrightarrow> Accept_operands v g ms t s = Some (Inr s') \<Longrightarrow> I (fst s) st \<Longrightarrow> set t \<inter> set (fst s) = {} \<Longrightarrow>
      \<exists>st'. Accept_operands visit graph ms t (fst s, st) = Some (Inr (fst s', st')) \<and> I (fst s') st' \<and> set (fst s) \<subseteq> set (fst s') \<and> set ms \<subseteq> set (fst s') \<and> set t \<inter> set (fst s') = {}"
proof (induction v g n t s and v g ms t s arbitrary: s' st and s' st rule: Node_Accept_Accept_operands.induct)
  case (1 v g n t s)
  show ?case
  proof (cases "n \<in> set (fst s)")
    case True
    then show ?thesis using 1(4-6) by (auto simp: Node_Accept.simps)
  next
    case False
    have nt: "n \<notin> set t" and n: "n < length graph" using 1(2-4) False by (auto simp: Node_Accept.simps split: if_splits)
    obtain s1 where s1: "Accept_operands v g (g ! n) (n # t) s = Some (Inr s1)" "fst s' = n # fst s1"
      using 1(2-4) False nt n by (auto simp: Node_Accept.simps no_visit_def or_return_ok)
    obtain st1 where st1: "Accept_operands visit graph (graph ! n) (n # t) (fst s, st) = Some (Inr (fst s1, st1))" "I (fst s1) st1" "set (fst s) \<subseteq> set (fst s1)"
        "set (graph ! n) \<subseteq> set (fst s1)" "set (n # t) \<inter> set (fst s1) = {}"
      using 1(1)[OF False nt _ 1(2,3) s1(1) 1(5)] 1(3,6) False n by auto
    obtain st2 where "visit n st1 = Some (Inr st2)" "I (n # fst s1) st2" using step[OF n _ st1(4,2)] st1(5) by auto
    then show ?thesis using False nt n st1 s1(2) by (auto simp: Node_Accept.simps)
  qed
next
  case (3 v g m ms t s)
  obtain s1 where s1: "Node_Accept v g m t s = Some (Inr s1)" "Accept_operands v g ms t s1 = Some (Inr s')"
    using 3(5) by (auto simp: or_return_ok simp del: Node_Accept.simps)
  obtain st1 where st1: "Node_Accept visit graph m t (fst s, st) = Some (Inr (fst s1, st1))" "I (fst s1) st1" "set (fst s) \<subseteq> set (fst s1)" "m \<in> set (fst s1)" "set t \<inter> set (fst s1) = {}"
    using 3(1)[OF 3(3,4) s1(1) 3(6,7)] by blast
  obtain st2 where "Accept_operands visit graph ms t (fst s1, st1) = Some (Inr (fst s', st2))" "I (fst s') st2" "set (fst s1) \<subseteq> set (fst s')" "set ms \<subseteq> set (fst s')" "set t \<inter> set (fst s') = {}"
    using 3(2)[OF 3(3,4) s1(2) st1(2,5)] by blast
  then show ?case using st1 by (auto simp del: Node_Accept.simps)
qed auto

lemma Accept_roots_sim:
  fixes I :: "nat list \<Rightarrow> 's \<Rightarrow> bool"
  assumes step: "\<And>n vs st. n < length graph \<Longrightarrow> n \<notin> set vs \<Longrightarrow> set (graph ! n) \<subseteq> set vs \<Longrightarrow> I vs st \<Longrightarrow> \<exists>st'. visit n st = Some (Inr st') \<and> I (n # vs) st'"
  shows "Accept_roots no_visit graph ns s = Some (Inr s') \<Longrightarrow> I (fst s) st \<Longrightarrow> \<exists>st'. Accept_roots visit graph ns (fst s, st) = Some (Inr (fst s', st')) \<and> I (fst s') st'"
proof (induction ns arbitrary: s st)
  case (Cons n ns)
  obtain s1 where s1: "(if node_users graph n = [] then Node_Accept no_visit graph n [] s else Some (Inr s)) = Some (Inr s1)"
    "Accept_roots no_visit graph ns s1 = Some (Inr s')"
    using Cons.prems(1) by (auto simp: or_return_ok simp del: Node_Accept.simps)
  obtain st1 where "(if node_users graph n = [] then Node_Accept visit graph n [] (fst s, st) else Some (Inr (fst s, st))) = Some (Inr (fst s1, st1))" "I (fst s1) st1"
  proof (cases "node_users graph n = []")
    case True
    then have "Node_Accept no_visit graph n [] s = Some (Inr s1)" using s1(1) by (simp del: Node_Accept.simps)
    from Accept_sim(1)[of graph I visit, OF step refl refl this Cons.prems(2)] show thesis using True that by (auto simp del: Node_Accept.simps)
  qed (use s1(1) Cons.prems(2) that in auto)
  then show ?case using Cons.IH[OF s1(2)] by (auto simp del: Node_Accept.simps)
qed auto

lemma FunctionBase_Accept_sim:
  fixes I :: "nat list \<Rightarrow> 's \<Rightarrow> bool"
  assumes a: "FunctionBase_Accept no_visit f () = Some (Inr ())"
    and step: "\<And>n vs st. n < length (fn_nodes f) \<Longrightarrow> n \<notin> set vs \<Longrightarrow> set (operands (fn_nodes f ! n)) \<subseteq> set vs \<Longrightarrow> I vs st \<Longrightarrow> \<exists>st'. visit n st = Some (Inr st') \<and> I (n # vs) st'"
    and i: "I [] st"
  shows "\<exists>st' vs. FunctionBase_Accept visit f st = Some (Inr st') \<and> I vs st' \<and> {0..<length (fn_nodes f)} \<subseteq> set vs"
proof -
  define graph where "graph = map operands (fn_nodes f)"
  let ?J = "\<lambda>vs st. I vs st \<and> distinct vs \<and> set vs \<subseteq> {0..<length graph}"
  have step': "\<exists>st'. visit n st = Some (Inr st') \<and> ?J (n # vs) st'"
    if "n < length graph" "n \<notin> set vs" "set (graph ! n) \<subseteq> set vs" "?J vs st" for n vs st
    using step[of n vs st] that by (auto simp: graph_def)
  obtain vs where vs: "Accept_roots no_visit graph [0..<length graph] ([], ()) = Some (Inr (vs, ()))" "length graph \<le> length vs"
    using a by (auto simp: FunctionBase_Accept_def or_return_ok graph_def Let_def not_less split: if_splits)
  obtain st' where st': "Accept_roots visit graph [0..<length graph] ([], st) = Some (Inr (vs, st'))" "?J vs st'"
    using Accept_roots_sim[of graph ?J visit, OF step' vs(1), of st] i by auto
  have "card (set vs) = length vs" using st'(2) distinct_card by blast
  then have "set vs = {0..<length graph}" using st'(2) vs(2) by (intro card_seteq) auto
  moreover have "length graph = length (fn_nodes f)" by (simp add: graph_def)
  ultimately show ?thesis using st' vs(2) by (intro exI[of _ st'] exI[of _ vs]) (auto simp: FunctionBase_Accept_def graph_def[symmetric] Let_def)
qed

section \<open>Evaluation of functions\<close>

text \<open>The nodes visited so far have values of their types, the others have none.\<close>

definition visited_typed :: "ir_function \<Rightarrow> nat list \<Rightarrow> interp_state \<Rightarrow> bool" where
  "visited_typed f vs st \<longleftrightarrow> (\<forall>n < length (fn_nodes f). if n \<in> set vs
     then \<exists>v. node_values st n = Some v \<and> has_type v (node_type (fn_nodes f ! n)) else node_values st n = None)"

lemma GetType_nth: "n < length (fn_nodes f) \<Longrightarrow> GetType f n = Some (node_type (fn_nodes f ! n))"
  by (simp add: GetType_def node_at_def)

lemma check_args_ok:
  assumes "\<forall>i < length args. \<exists>t. param_type f (i + k) = Some t \<and> has_type (args ! i) t"
  shows "check_args f k args = Some (Inr ())"
  using assms
proof (induction args arbitrary: k)
  case (Cons v vs)
  have v: "\<exists>t. param_type f k = Some t \<and> has_type v t" using Cons.prems by force
  have "\<forall>i < length vs. \<exists>t. param_type f (i + (k + 1)) = Some t \<and> has_type (vs ! i) t"
  proof (intro allI impI)
    fix i assume "i < length vs"
    then show "\<exists>t. param_type f (i + (k + 1)) = Some t \<and> has_type (vs ! i) t" using Cons.prems[rule_format, of "Suc i"] by simp
  qed
  then show ?case using v Cons.IH[of "k + 1"] by (auto simp: has_type_def GetTypeForValue_ok)
qed simp

lemma VerifyFunctionD:
  assumes "VerifyFunction check_stateful pkg f = Some (Inr ())"
  shows "FunctionBase_Accept no_visit f () = Some (Inr ())"
    "node \<in> set (fn_nodes f) \<Longrightarrow> set (operands node) \<subseteq> {0..<length (fn_nodes f)}"
    "node \<in> set (fn_nodes f) \<Longrightarrow> check_op check_stateful pkg f (node_op node) node = Some (Inr ())"
    "n < length (fn_nodes f) \<Longrightarrow> is_param (fn_nodes f ! n) \<Longrightarrow> n \<in> set (fn_params f)"
proof -
  have v: "VerifyFunctionBase (\<lambda>n. check_stateful) pkg f = Some (Inr ())" using assms by (auto simp: VerifyFunction_def)
  have e: "no_visit = (\<lambda>n st. Some (Inr ()))" by (simp add: fun_eq_iff no_visit_def)
  show "FunctionBase_Accept no_visit f () = Some (Inr ())" using v by (auto simp: VerifyFunctionBase_def e)
  have n: "VerifyNode check_stateful pkg f node = Some (Inr ())" if "node \<in> set (fn_nodes f)" for node
    using v that by (auto simp: VerifyFunctionBase_def in_set_conv_nth)
  show "node \<in> set (fn_nodes f) \<Longrightarrow> set (operands node) \<subseteq> {0..<length (fn_nodes f)}"
    "node \<in> set (fn_nodes f) \<Longrightarrow> check_op check_stateful pkg f (node_op node) node = Some (Inr ())"
    using n by (auto simp: VerifyNode_def)
  show "n < length (fn_nodes f) \<Longrightarrow> is_param (fn_nodes f ! n) \<Longrightarrow> n \<in> set (fn_params f)"
    using v by (auto simp: VerifyFunctionBase_def)
qed

context typed_calls
begin

lemma visit_sets:
  assumes L: "bignum_ok L val" and f: "VerifyFunction check_stateful pkg f = Some (Inr ())" "\<forall>node \<in> set (fn_nodes f). evaluable pkg f node \<and> (\<forall>g \<in> set (callees (node_op node)). callable g)" and args: "args_typed f args"
    and n: "n < length (fn_nodes f)" "n \<notin> set vs" "set (operands (fn_nodes f ! n)) \<subseteq> set vs" and st: "visited_typed f vs st"
  shows "operands_typed f (fn_nodes f ! n) st" "sets_typed n (fn_nodes f ! n) st (visit_op L pkg call f args (node_op (fn_nodes f ! n)) n (fn_nodes f ! n) st)"
proof -
  define node where "node = fn_nodes f ! n"
  have node: "node \<in> set (fn_nodes f)" "node_at f n = Some node" using n(1) by (auto simp: node_def node_at_def)
  have b: "int64_type t" if "GetType f m = Some t" for m t
    using that f(2) by (auto simp: GetType_def node_at_def bind_ok list_at_eq_Some evaluable_def)
  have o: "operands_typed f node st" unfolding operands_typed_def
  proof
    fix m assume m: "m \<in> set (operands node)"
    then have "m < length (fn_nodes f)" using VerifyFunctionD(2)[OF f(1) node(1)] by auto
    then show "\<exists>v t. node_values st m = Some v \<and> GetType f m = Some t \<and> has_type v t" using m n(3) st GetType_nth[of m f] by (auto simp: visited_typed_def node_def)
  qed
  then show "operands_typed f (fn_nodes f ! n) st" by (simp add: node_def)
  have "node_values st n = None" using st n(1,2) by (simp add: visited_typed_def)
  moreover have "n \<in> set (fn_params f)" if "node_op node = Param name" for name using VerifyFunctionD(4)[OF f(1) n(1)] that by (simp add: is_param_def node_def)
  ultimately have "sets_typed n node st (visit_op L pkg call f args (node_op node) n node st)"
    using o f(2) node b args by (intro visit_op_ok[OF L VerifyFunctionD(3)[OF f(1) node(1)]]) auto
  then show "sets_typed n (fn_nodes f ! n) st (visit_op L pkg call f args (node_op (fn_nodes f ! n)) n (fn_nodes f ! n) st)" by (simp add: node_def)
qed

lemma visit_step:
  assumes L: "bignum_ok L val" and f: "VerifyFunction check_stateful pkg f = Some (Inr ())" "\<forall>node \<in> set (fn_nodes f). evaluable pkg f node \<and> (\<forall>g \<in> set (callees (node_op node)). callable g)" and args: "args_typed f args"
    and n: "n < length (fn_nodes f)" "n \<notin> set vs" "set (operands (fn_nodes f ! n)) \<subseteq> set vs" and st: "visited_typed f vs st"
  shows "\<exists>st'. visit_node L pkg call f args n st = Some (Inr st') \<and> visited_typed f (n # vs) st'"
  using visit_sets(2)[OF assms] st n(1) by (auto simp: sets_typed_def visit_node_def visited_typed_def node_at_def)

lemma function_evaluates:
  assumes L: "bignum_ok L val" and f: "VerifyFunction check_stateful pkg f = Some (Inr ())" "\<forall>node \<in> set (fn_nodes f). evaluable pkg f node \<and> (\<forall>g \<in> set (callees (node_op node)). callable g)" and args: "args_typed f args" and r: "fn_return f < length (fn_nodes f)"
  obtains st v where "FunctionBase_Accept (visit_node L pkg call f args) f \<lparr>node_values = Map.empty, events = no_events\<rparr> = Some (Inr st)"
    "node_values st (fn_return f) = Some v" "return_type_of f = Some (node_type (fn_nodes f ! fn_return f))" "has_type v (node_type (fn_nodes f ! fn_return f))"
proof -
  have "visited_typed f [] \<lparr>node_values = Map.empty, events = no_events\<rparr>" by (simp add: visited_typed_def)
  from FunctionBase_Accept_sim[where visit = "visit_node L pkg call f args" and I = "visited_typed f", OF VerifyFunctionD(1)[OF f(1)] visit_step[OF L f args] this] obtain st vs
    where st: "FunctionBase_Accept (visit_node L pkg call f args) f \<lparr>node_values = Map.empty, events = no_events\<rparr> = Some (Inr st)"
      "visited_typed f vs st" "{0..<length (fn_nodes f)} \<subseteq> set vs" by blast
  have "fn_return f \<in> set vs" using st(3) r by auto
  then obtain v where "node_values st (fn_return f) = Some v" "has_type v (node_type (fn_nodes f ! fn_return f))"
    using st(2)[unfolded visited_typed_def, rule_format, OF r] by auto
  then show thesis using that[OF st(1)] r by (simp add: return_type_of_def GetType_nth)
qed

end

text \<open>
  The interpreter with a bound on the depth of calls provides typed calls of the functions within the bound. The proof
  is by induction on the bound.
\<close>

definition package_ok :: "(stateful_op \<Rightarrow> ir_node \<Rightarrow> verdict) \<Rightarrow> package \<Rightarrow> bool" where
  "package_ok check_stateful pkg \<longleftrightarrow> VerifyFunctions check_stateful pkg = Some (Inr ()) \<and> (\<forall>i < length pkg. function_evaluable pkg i)"

lemma InterpretFunction_typed:
  assumes L: "bignum_ok L val" and ok: "package_ok check_stateful pkg"
  shows "typed_calls pkg (InterpretFunction L pkg fuel) (\<lambda>g. g < fuel)"
proof (induction fuel)
  case (Suc fuel)
  show ?case
  proof
    fix g func args assume g: "g < Suc fuel" "list_at pkg g = Some func" "args_typed func args"
    have "g < length pkg" using g(2) by (simp add: list_at_eq_Some)
    then have "function_evaluable pkg g" "func \<in> set pkg" using ok g(2) by (auto simp: package_ok_def list_at_eq_Some)
    then have f: "VerifyFunction check_stateful pkg func = Some (Inr ())" "fn_return func < length (fn_nodes func)"
      "\<forall>node \<in> set (fn_nodes func). evaluable pkg func node \<and> (\<forall>h \<in> set (callees (node_op node)). h < fuel)"
      using ok g(1,2) by (fastforce simp: function_evaluable_def package_ok_def VerifyFunctions_def)+
    obtain st v where e: "FunctionBase_Accept (visit_node L pkg (InterpretFunction L pkg fuel) func args) func \<lparr>node_values = Map.empty, events = no_events\<rparr> = Some (Inr st)"
      "node_values st (fn_return func) = Some v" "return_type_of func = Some (node_type (fn_nodes func ! fn_return func))" "has_type v (node_type (fn_nodes func ! fn_return func))"
      using typed_calls.function_evaluates[OF Suc L f(1,3) g(3) f(2)] .
    have "check_args func 0 args = Some (Inr ())" using g(3) by (intro check_args_ok) (simp add: args_typed_def)
    then show "\<exists>v e t. InterpretFunction L pkg (Suc fuel) g args = Some (Inr (v, e)) \<and> return_type_of func = Some t \<and> has_type v t"
      using g(2,3) e by (simp add: args_typed_def ResolveAsValue_def)
  qed
qed (unfold_locales, simp)

interpretation interpreter: typed_calls pkg "InterpretFunction L pkg fuel" "\<lambda>g. g < fuel \<and> bignum_ok L val \<and> package_ok check_stateful pkg"
  for L :: "('n, 'z) bignum_lib_scheme" and val pkg fuel check_stateful
proof
  fix g func args assume "g < fuel \<and> bignum_ok L val \<and> package_ok check_stateful pkg" "list_at pkg g = Some func" "args_typed func args"
  then show "\<exists>v e t. InterpretFunction L pkg fuel g args = Some (Inr (v, e)) \<and> return_type_of func = Some t \<and> has_type v t"
    using typed_calls.call_typed[OF InterpretFunction_typed] by blast
qed

section \<open>An example\<close>

text \<open>A package of two functions: a loop body that adds the index to the accumulator and a function that runs it four times.\<close>

definition sample_body :: ir_function where
  "sample_body = \<lparr>fn_nodes = [\<lparr>node_op = Param ''i'', node_type = BitsType 8, operands = []\<rparr>,
     \<lparr>node_op = Param ''acc'', node_type = BitsType 8, operands = []\<rparr>,
     \<lparr>node_op = BinOp kAdd, node_type = BitsType 8, operands = [1, 0]\<rparr>], fn_params = [0, 1], fn_return = 2\<rparr>"

definition sample_main :: ir_function where
  "sample_main = \<lparr>fn_nodes = [\<lparr>node_op = Param ''x'', node_type = BitsType 8, operands = []\<rparr>,
     \<lparr>node_op = CountedFor 4 1 0, node_type = BitsType 8, operands = [0]\<rparr>], fn_params = [0], fn_return = 1\<rparr>"

definition sample_package :: package where
  "sample_package = [sample_body, sample_main]"

lemmas sample_defs = sample_package_def sample_main_def sample_body_def

lemma sample_verified: "VerifyFunctions (\<lambda>s node. None) sample_package = Some (Inr ())"
  by code_simp

lemma sample_evaluable: "\<forall>j < length sample_package. function_evaluable sample_package j"
  by (simp add: sample_defs function_evaluable_def evaluable_def less_Suc_eq)

lemma sample_args: "list_at sample_package 1 = Some sample_main" "args_typed sample_main [BitsValue (mk_bits 8 5)]"
  by (simp_all add: sample_defs args_typed_def param_type_def GetType_def node_at_def)

section \<open>Accepted but not evaluated\<close>

text \<open>
  Each condition of \<open>evaluable\<close> is needed: nodes the verifier accepts on which the interpreter aborts or fails. First a
  decoder of 64 bits, whose operand is read as \<open>int64_t\<close>.
\<close>

lemma decode_top_bit_aborts:
  assumes "operand_bits node st 0 = Some (mk_bits 64 x)" "2 ^ 63 \<le> x" "x < 2 ^ 64" "node_type node = BitsType k"
  shows "HandleDecode n node st = None"
proof -
  have t: "take_bit 64 x = x" using assms(3) by (simp add: take_bit_nat_eq_self)
  have "bit (word_of_nat x :: u64) 63" using bit_top[of 63 x] assms(2,3) by (simp add: bit_word_of_nat)
  then have "sint (word_of_nat x :: u64) < 0" by (simp add: sint_neg_iff)
  then show ?thesis using assms t by (simp add: HandleDecode_def Bits_ToUint64_eq BitCountOrDie_def check_def)
qed

definition decode_function :: ir_function where
  "decode_function = \<lparr>fn_nodes = [\<lparr>node_op = Param ''x'', node_type = BitsType 64, operands = []\<rparr>,
     \<lparr>node_op = Decode 8, node_type = BitsType 8, operands = [0]\<rparr>], fn_params = [0], fn_return = 1\<rparr>"

lemma decode_verified: "VerifyFunction (\<lambda>s node. None) [decode_function] decode_function = Some (Inr ())"
  by code_simp

lemma decode_function_aborts:
  assumes "2 ^ 63 \<le> x" "x < 2 ^ 64"
  shows "InterpretFunction L [decode_function] 1 0 [BitsValue (mk_bits 64 x)] = None"
proof -
  define st where "st = \<lparr>node_values = [0 \<mapsto> BitsValue (mk_bits 64 x)], events = no_events\<rparr>"
  define node where "node = \<lparr>node_op = Decode 8, node_type = BitsType 8, operands = [0]\<rparr>"
  have n: "fn_nodes decode_function ! 1 = node" "length (fn_nodes decode_function) = 2" by (simp_all add: decode_function_def node_def)
  have "HandleDecode 1 node st = None"
    using assms by (intro decode_top_bit_aborts[of _ _ x 8]) (simp_all add: st_def node_def operand_bits_def operand_def ResolveAsBits_def)
  then have v1: "visit_node L [decode_function] call decode_function args 1 st = None" for call args
    by (simp add: visit_node_def node_at_def decode_function_def node_def)
  have v0: "visit_node L [decode_function] call decode_function [BitsValue (mk_bits 64 x)] 0 \<lparr>node_values = Map.empty, events = no_events\<rparr> = Some (Inr st)" for call
    by (simp add: visit_node_def node_at_def decode_function_def HandleParam_def SetValueResult_def ValueConformsToType_eq st_def)
  show ?thesis using v0 v1
    by (simp add: FunctionBase_Accept_def decode_function_def node_users_def param_type_def GetType_def node_at_def)
qed

text \<open>A slice whose end overflows \<open>int64_t\<close>: the sum is negative, so it passes the rule, and the handler reads out of range.\<close>

definition slice_function :: "nat \<Rightarrow> nat \<Rightarrow> ir_function" where
  "slice_function s w = \<lparr>fn_nodes = [\<lparr>node_op = Param ''x'', node_type = BitsType 8, operands = []\<rparr>,
     \<lparr>node_op = BitSlice s w, node_type = BitsType w, operands = [0]\<rparr>], fn_params = [0], fn_return = 1\<rparr>"

lemma slice_verified:
  assumes "s < 2 ^ 63" "w < 2 ^ 63" "2 ^ 63 \<le> s + w"
  shows "VerifyFunction (\<lambda>s node. None) [slice_function s w] (slice_function s w) = Some (Inr ())"
proof -
  have "int (s + w) < 2 ^ 64" "2 ^ 63 \<le> int (s + w)" using assms by simp_all
  then have "int64_wrap (int s + int w) < 0" using int64_wrap_negative[of "int (s + w)"] by simp
  then have l: "int64_wrap (int s + int w) \<le> 8" by linarith
  show ?thesis by (simp add: VerifyFunction_def VerifyFunctionBase_def VerifyNode_def slice_function_def FunctionBase_Accept_def node_users_def NodeChecker_HandleBitSlice_def
    expectation_defs expect_def param_names_def is_param_def node_at_def GetType_def operand_type_def operand_def matches_bits_iff bits_width_iff l generate_def list_at_def less_Suc_eq)
qed

lemma slice_out_of_range: "0 < w \<Longrightarrow> n \<le> s \<Longrightarrow> Bits_Slice (mk_bits n v) s w = None"
  by (simp add: Bits_Slice_def upt_conv_Cons)

lemma slice_function_aborts:
  assumes "0 < w" "8 \<le> s"
  shows "InterpretFunction L [slice_function s w] 1 0 [BitsValue (mk_bits 8 x)] = None"
proof -
  define st where "st = \<lparr>node_values = [0 \<mapsto> BitsValue (mk_bits 8 x)], events = no_events\<rparr>"
  define node where "node = \<lparr>node_op = BitSlice s w, node_type = BitsType w, operands = [0]\<rparr>"
  have "HandleBitSlice s w 1 node st = None"
    using assms by (simp add: HandleBitSlice_def unary_bits_def operand_bits_def operand_def ResolveAsBits_def st_def node_def slice_out_of_range)
  then have v1: "visit_node L [slice_function s w] call (slice_function s w) args 1 st = None" for call args
    by (simp add: visit_node_def node_at_def slice_function_def node_def)
  have v0: "visit_node L [slice_function s w] call (slice_function s w) [BitsValue (mk_bits 8 x)] 0 \<lparr>node_values = Map.empty, events = no_events\<rparr> = Some (Inr st)" for call
    by (simp add: visit_node_def node_at_def slice_function_def HandleParam_def SetValueResult_def ValueConformsToType_eq st_def)
  show ?thesis using v0 v1
    by (simp add: FunctionBase_Accept_def slice_function_def node_users_def param_type_def GetType_def node_at_def)
qed

text \<open>A comparison of tuples passes the rule of comparisons, but the handlers read bits.\<close>

lemma tuple_compare_aborts:
  assumes "operand_value node st 0 = Some (TupleValue vs)"
  shows "HandleULt n node st = None"
  using assms by (auto simp: HandleULt_def compare_bits_def operand_bits_def operand_value_def ResolveAsBits_def ResolveAsValue_def bind_ok)

definition compare_function :: ir_function where
  "compare_function = \<lparr>fn_nodes = [\<lparr>node_op = Param ''x'', node_type = TupleType [], operands = []\<rparr>,
     \<lparr>node_op = CompareOp kULt, node_type = BitsType 1, operands = [0, 0]\<rparr>], fn_params = [0], fn_return = 1\<rparr>"

lemma compare_verified: "VerifyFunction (\<lambda>s node. None) [compare_function] compare_function = Some (Inr ())"
  by code_simp

end
