(* ===== verification/NodeIterator.thy ===== *)
theory NodeIterator
  imports IrSoundness
begin

text \<open>
  \<open>xls/ir/node_iterator.cc\<close>: the topological orders of the nodes of a function that the passes and the schedulers
  iterate over. The iterator counts, for every node, the users that are not placed yet. The theory shows that it places
  every node exactly once, operands before users, and aborts exactly on the graphs with a cycle; the depth-first
  traversal of the verifier accepts only graphs without one.
\<close>

section \<open>The iterator\<close>

record sort_state =
  pending_to_remaining_users :: "nat \<rightharpoonup> int"
  ready :: "nat list"
  ordered :: "nat list"

definition is_scheduled :: "sort_state \<Rightarrow> nat \<Rightarrow> bool" where
  "is_scheduled st n \<longleftrightarrow> (case pending_to_remaining_users st n of None \<Rightarrow> False | Some k \<Rightarrow> k < 0)"

definition all_users_scheduled :: "nat list list \<Rightarrow> sort_state \<Rightarrow> nat \<Rightarrow> bool" where
  "all_users_scheduled graph st n \<longleftrightarrow> list_all (is_scheduled st) (node_users graph n)"

definition bump_down_remaining_users :: "nat list list \<Rightarrow> nat \<Rightarrow> sort_state \<Rightarrow> sort_state option" where
  "bump_down_remaining_users graph n st = do {
     check (node_users graph n \<noteq> []);
     let remaining_users = (case pending_to_remaining_users st n of None \<Rightarrow> int (length (node_users graph n)) | Some k \<Rightarrow> k);
     check (0 < remaining_users);
     if remaining_users - 1 = 0
     then Some (st\<lparr>pending_to_remaining_users := (pending_to_remaining_users st)(n \<mapsto> - 1), ready := ready st @ [n]\<rparr>)
     else Some (st\<lparr>pending_to_remaining_users := (pending_to_remaining_users st)(n \<mapsto> remaining_users - 1)\<rparr>) }"

text \<open>The loop over the operands of a placed node: an operand that occurs several times is counted once.\<close>

fun bump_operands :: "nat list list \<Rightarrow> nat list \<Rightarrow> nat list \<Rightarrow> sort_state \<Rightarrow> sort_state option" where
  "bump_operands graph [] seen_operands st = Some st"
| "bump_operands graph (m # ms) seen_operands st =
     (if m \<in> set seen_operands then bump_operands graph ms seen_operands st
      else do { st \<leftarrow> bump_down_remaining_users graph m st; bump_operands graph ms (m # seen_operands) st })"

definition add_to_order :: "nat list list \<Rightarrow> nat \<Rightarrow> sort_state \<Rightarrow> sort_state option" where
  "add_to_order graph r st = do {
     check (all_users_scheduled graph st r);
     ops \<leftarrow> list_at graph r;
     bump_operands graph (rev ops) [] (st\<lparr>ordered := ordered st @ [r]\<rparr>) }"

definition seed_ready :: "nat \<Rightarrow> sort_state \<Rightarrow> sort_state option" where
  "seed_ready n st = do {
     check (pending_to_remaining_users st n = None);
     Some (st\<lparr>ready := n # ready st, pending_to_remaining_users := (pending_to_remaining_users st)(n \<mapsto> - 1)\<rparr>) }"

text \<open>The nodes without users, the return value last and so at the front of the queue.\<close>

definition seed_nodes :: "nat list list \<Rightarrow> nat \<Rightarrow> sort_state option" where
  "seed_nodes graph return_value = do {
     st \<leftarrow> for_state (\<lambda>n st.
         if node_users graph n = [] \<and> n \<noteq> return_value then do { check (all_users_scheduled graph st n); seed_ready n st } else Some st)
       [0..<length graph] \<lparr>pending_to_remaining_users = Map.empty, ready = [], ordered = []\<rparr>;
     if return_value < length graph \<and> node_users graph return_value = [] then seed_ready return_value st else Some st }"

partial_function (option) drain :: "nat list list \<Rightarrow> sort_state \<Rightarrow> sort_state option" where
  "drain graph st =
     (if ready st = [] then Some st
      else do { st' \<leftarrow> add_to_order graph (hd (ready st)) (st\<lparr>ready := tl (ready st)\<rparr>); drain graph st' })"

text \<open>When nodes are left the code looks for the cycle to report it and aborts in either case.\<close>

definition Initialize :: "ir_function \<Rightarrow> nat list option" where
  "Initialize f = (let graph = map operands (fn_nodes f) in do {
     st \<leftarrow> seed_nodes graph (fn_return f);
     st \<leftarrow> drain graph st;
     if length (ordered st) < length graph then None else Some (ordered st) })"

definition ReverseTopoSort :: "ir_function \<Rightarrow> nat list option" where
  "ReverseTopoSort f = Initialize f"

definition TopoSort :: "ir_function \<Rightarrow> nat list option" where
  "TopoSort f = do { order \<leftarrow> Initialize f; Some (rev order) }"

section \<open>The counts\<close>

text \<open>
  \<open>counts graph done st\<close>: the state when the users in \<open>done n\<close> have been counted for the node \<open>n\<close>. A node is in the
  queue or in the order exactly when all its users have been counted.
\<close>

definition graph_ok :: "nat list list \<Rightarrow> bool" where
  "graph_ok graph \<longleftrightarrow> (\<forall>ms \<in> set graph. set ms \<subseteq> {0..<length graph})"

definition users :: "nat list list \<Rightarrow> nat \<Rightarrow> nat set" where
  "users graph n = {m. m < length graph \<and> n \<in> set (graph ! m)}"

definition counts :: "nat list list \<Rightarrow> (nat \<Rightarrow> nat set) \<Rightarrow> sort_state \<Rightarrow> bool" where
  "counts graph done st \<longleftrightarrow>
     distinct (ordered st @ ready st) \<and> set (ordered st @ ready st) = {n. n < length graph \<and> done n = users graph n} \<and>
     (\<forall>n < length graph. done n \<subseteq> users graph n \<and> pending_to_remaining_users st n =
        (if done n = users graph n then Some (- 1) else if done n = {} then None else Some (int (card (users graph n - done n)))))"

lemma users_props:
  "set (node_users graph n) = users graph n" "length (node_users graph n) = card (users graph n)" "finite (users graph n)"
  "node_users graph n = [] \<longleftrightarrow> users graph n = {}"
proof -
  show s: "set (node_users graph n) = users graph n" by (auto simp: node_users_def users_def)
  have "distinct (node_users graph n)" by (simp add: node_users_def)
  then show "length (node_users graph n) = card (users graph n)" using s distinct_card by metis
  show "finite (users graph n)" by (simp add: users_def)
  show "node_users graph n = [] \<longleftrightarrow> users graph n = {}" using s by auto
qed

lemma bump_ok:
  assumes c: "counts graph done st" and n: "n < length graph" "r \<in> users graph n" "r \<notin> done n"
  obtains st' where "bump_down_remaining_users graph n st = Some st'" "counts graph (done(n := insert r (done n))) st'" "ordered st' = ordered st"
proof -
  define k where "k = card (users graph n - done n)"
  have d: "done n \<subseteq> users graph n" "done n \<noteq> users graph n" using c n by (auto simp: counts_def)
  have p: "(case pending_to_remaining_users st n of None \<Rightarrow> int (length (node_users graph n)) | Some k \<Rightarrow> k) = int k"
    using c n(1) d by (auto simp: counts_def k_def users_props)
  have "users graph n - insert r (done n) = (users graph n - done n) - {r}" by auto
  then have k: "card (users graph n - insert r (done n)) = k - 1" using n by (simp add: k_def)
  have k0: "0 < k" using n users_props(3)[of graph n] by (auto simp: k_def card_gt_0_iff)
  have e: "users graph n \<noteq> {}" using n by auto
  show thesis
  proof (cases "k = 1")
    case True
    then have "users graph n - insert r (done n) = {}" using k users_props(3)[of graph n] by simp
    then have u: "insert r (done n) = users graph n" using d n by auto
    have "n \<notin> set (ordered st @ ready st)" using c d by (auto simp: counts_def)
    then have "counts graph (done(n := insert r (done n))) (st\<lparr>pending_to_remaining_users := (pending_to_remaining_users st)(n \<mapsto> - 1), ready := ready st @ [n]\<rparr>)"
      using c n(1) unfolding counts_def u by auto
    then show thesis using True p e that by (auto simp: bump_down_remaining_users_def users_props check_def)
  next
    case False
    have u: "insert r (done n) \<noteq> users graph n" using k k0 False by auto
    have "counts graph (done(n := insert r (done n))) (st\<lparr>pending_to_remaining_users := (pending_to_remaining_users st)(n \<mapsto> int k - 1)\<rparr>)"
      using c n d u k k0 False by (auto simp: counts_def of_nat_diff)
    then show thesis using False k0 p e that by (auto simp: bump_down_remaining_users_def users_props check_def)
  qed
qed

lemma bump_operands_ok:
  assumes "r < length graph" "\<And>n. r \<notin> base n"
  shows "set ms \<subseteq> set (graph ! r) \<Longrightarrow> set ms \<subseteq> {0..<length graph} \<Longrightarrow> counts graph (\<lambda>n. if n \<in> set seen then insert r (base n) else base n) st \<Longrightarrow>
    \<exists>st'. bump_operands graph ms seen st = Some st' \<and> counts graph (\<lambda>n. if n \<in> set seen \<union> set ms then insert r (base n) else base n) st' \<and> ordered st' = ordered st"
proof (induction ms arbitrary: seen st)
  case (Cons m ms)
  show ?case
  proof (cases "m \<in> set seen")
    case True
    then have "set seen \<union> set (m # ms) = set seen \<union> set ms" by auto
    then show ?thesis using True Cons.IH[of seen st] Cons.prems by simp
  next
    case False
    have m: "m < length graph" "r \<in> users graph m" using Cons.prems assms(1) by (auto simp: users_def)
    obtain st1 where st1: "bump_down_remaining_users graph m st = Some st1" "ordered st1 = ordered st"
      "counts graph ((\<lambda>n. if n \<in> set seen then insert r (base n) else base n)(m := insert r (base m))) st1"
      using bump_ok[OF Cons.prems(3) m] False assms(2) by auto
    have "(\<lambda>n. if n \<in> set seen then insert r (base n) else base n)(m := insert r (base m)) = (\<lambda>n. if n \<in> set (m # seen) then insert r (base n) else base n)"
      by (rule ext) simp
    then have "\<exists>st'. bump_operands graph ms (m # seen) st1 = Some st' \<and> counts graph (\<lambda>n. if n \<in> set (m # seen) \<union> set ms then insert r (base n) else base n) st' \<and> ordered st' = ordered st1"
      using Cons.IH[of "m # seen" st1] Cons.prems st1(3) by simp
    moreover have "set (m # seen) \<union> set ms = set seen \<union> set (m # ms)" by auto
    ultimately show ?thesis using False st1(1,2) by simp
  qed
qed simp

section \<open>The order\<close>

definition users_first :: "nat list list \<Rightarrow> nat list \<Rightarrow> bool" where
  "users_first graph order \<longleftrightarrow> (\<forall>i < length order. users graph (order ! i) \<subseteq> set (take i order))"

definition sort_inv :: "nat list list \<Rightarrow> sort_state \<Rightarrow> bool" where
  "sort_inv graph st \<longleftrightarrow> counts graph (\<lambda>n. users graph n \<inter> set (ordered st)) st \<and> users_first graph (ordered st)"

lemma sort_invD:
  assumes "sort_inv graph st"
  shows "distinct (ordered st @ ready st)"
    "n \<in> set (ordered st) \<or> n \<in> set (ready st) \<longleftrightarrow> n < length graph \<and> users graph n \<subseteq> set (ordered st)"
    "n \<in> set (ordered st) \<or> n \<in> set (ready st) \<Longrightarrow> is_scheduled st n"
proof -
  have c: "counts graph (\<lambda>n. users graph n \<inter> set (ordered st)) st" using assms by (simp add: sort_inv_def)
  show "distinct (ordered st @ ready st)" using c by (simp add: counts_def)
  have "set (ordered st @ ready st) = {n. n < length graph \<and> users graph n \<inter> set (ordered st) = users graph n}" using c by (simp add: counts_def)
  then show s: "n \<in> set (ordered st) \<or> n \<in> set (ready st) \<longleftrightarrow> n < length graph \<and> users graph n \<subseteq> set (ordered st)"
    by (auto simp: set_eq_iff Int_absorb2)
  assume "n \<in> set (ordered st) \<or> n \<in> set (ready st)"
  then have "n < length graph" "users graph n \<inter> set (ordered st) = users graph n" using s by auto
  then show "is_scheduled st n" using c by (simp add: counts_def is_scheduled_def)
qed

lemma add_to_order_ok:
  assumes g: "graph_ok graph" and st: "sort_inv graph st" "ready st = r # rs"
  shows "\<exists>st'. add_to_order graph r (st\<lparr>ready := rs\<rparr>) = Some st' \<and> sort_inv graph st' \<and> ordered st' = ordered st @ [r]"
proof -
  define base where "base = (\<lambda>n. users graph n \<inter> set (ordered st))"
  have r: "r < length graph" "users graph r \<subseteq> set (ordered st)" using sort_invD(2)[OF st(1), of r] st(2) by auto
  have nr: "r \<notin> set (ordered st)" using sort_invD(1)[OF st(1)] st(2) by auto
  have "is_scheduled (st\<lparr>ready := rs\<rparr>) u" if "u \<in> users graph r" for u
    using sort_invD(3)[OF st(1), of u] that r(2) by (auto simp: is_scheduled_def)
  then have a: "all_users_scheduled graph (st\<lparr>ready := rs\<rparr>) r" by (auto simp: all_users_scheduled_def list_all_iff users_props)
  have c: "counts graph base st" using st(1) by (simp add: sort_inv_def base_def)
  then have c: "counts graph (\<lambda>n. if n \<in> set [] then insert r (base n) else base n) (st\<lparr>ready := rs, ordered := ordered st @ [r]\<rparr>)"
    using st(2) by (auto simp: counts_def)
  have ops: "set (rev (graph ! r)) \<subseteq> {0..<length graph}" using g r(1) by (auto simp: graph_ok_def)
  obtain st' where st': "bump_operands graph (rev (graph ! r)) [] (st\<lparr>ready := rs, ordered := ordered st @ [r]\<rparr>) = Some st'"
    "counts graph (\<lambda>n. if n \<in> set [] \<union> set (rev (graph ! r)) then insert r (base n) else base n) st'" "ordered st' = ordered st @ [r]"
    using bump_operands_ok[OF r(1) _ _ ops c] nr by (auto simp: base_def)
  have "(\<lambda>n. if n \<in> set [] \<union> set (rev (graph ! r)) then insert r (base n) else base n) = (\<lambda>n. users graph n \<inter> set (ordered st'))"
    using r(1) by (auto simp: st'(3) base_def users_def fun_eq_iff)
  moreover have "users_first graph (ordered st')" using st(1) r(2) by (auto simp: sort_inv_def users_first_def st'(3) nth_append less_Suc_eq)
  ultimately have "sort_inv graph st'" using st'(2) by (simp add: sort_inv_def)
  then show ?thesis using a r(1) st' by (auto simp: add_to_order_def check_def)
qed

lemma drain_ok:
  assumes g: "graph_ok graph"
  shows "sort_inv graph st \<Longrightarrow> \<exists>st' more. drain graph st = Some st' \<and> sort_inv graph st' \<and> ready st' = [] \<and> ordered st' = ordered st @ more \<and>
    (ready st \<noteq> [] \<longrightarrow> more \<noteq> [] \<and> hd more = hd (ready st))"
proof (induction "length graph - length (ordered st)" arbitrary: st rule: less_induct)
  case less
  show ?case
  proof (cases "ready st")
    case Nil
    then show ?thesis using less.prems by (subst drain.simps) simp
  next
    case (Cons r rs)
    obtain st1 where st1: "add_to_order graph r (st\<lparr>ready := rs\<rparr>) = Some st1" "sort_inv graph st1" "ordered st1 = ordered st @ [r]"
      using add_to_order_ok[OF g less.prems Cons] by blast
    have "card (set (ordered st1)) \<le> card {0..<length graph}" using sort_invD(2)[OF st1(2)] by (intro card_mono subsetI) (simp_all, blast)
    moreover have "card (set (ordered st1)) = length (ordered st1)" using sort_invD(1)[OF st1(2)] by (simp add: distinct_card)
    ultimately have "length graph - length (ordered st1) < length graph - length (ordered st)" using st1(3) by simp
    from less.hyps[OF this st1(2)] show ?thesis using Cons st1 by (subst drain.simps) auto
  qed
qed

lemma seed_ok:
  "\<exists>st. seed_nodes graph r = Some st \<and> sort_inv graph st \<and> ordered st = [] \<and> (r < length graph \<and> users graph r = {} \<longrightarrow> ready st \<noteq> [] \<and> hd (ready st) = r)"
proof -
  define Q where "Q = (\<lambda>k (st :: sort_state). ordered st = [] \<and> distinct (ready st) \<and> set (ready st) = {n. n < k \<and> n \<noteq> r \<and> users graph n = {}} \<and>
    pending_to_remaining_users st = (\<lambda>n. if n \<in> set (ready st) then Some (- 1) else None))"
  have "yields (Q (length graph)) (for_state (\<lambda>n st.
         if node_users graph n = [] \<and> n \<noteq> r then do { check (all_users_scheduled graph st n); seed_ready n st } else Some st)
       [0..<length graph] \<lparr>pending_to_remaining_users = Map.empty, ready = [], ordered = []\<rparr>)"
  proof (rule yields_for_upt)
    show "Q 0 \<lparr>pending_to_remaining_users = Map.empty, ready = [], ordered = []\<rparr>" by (simp add: Q_def)
  next
    fix k st assume "k < length graph" "Q k st"
    then show "yields (Q (Suc k)) (if node_users graph k = [] \<and> k \<noteq> r then do { check (all_users_scheduled graph st k); seed_ready k st } else Some st)"
      by (auto simp: Q_def seed_ready_def check_def users_props all_users_scheduled_def list_all_iff yields_def less_Suc_eq fun_eq_iff)
  qed
  then obtain st where st: "for_state (\<lambda>n st.
         if node_users graph n = [] \<and> n \<noteq> r then do { check (all_users_scheduled graph st n); seed_ready n st } else Some st)
       [0..<length graph] \<lparr>pending_to_remaining_users = Map.empty, ready = [], ordered = []\<rparr> = Some st" "Q (length graph) st" by (auto simp: yields_def)
  have inv: "sort_inv graph s" if "ordered s = []" "distinct (ready s)" "set (ready s) = {n. n < length graph \<and> users graph n = {}}"
    "pending_to_remaining_users s = (\<lambda>n. if n \<in> set (ready s) then Some (- 1) else None)" for s
    using that by (auto simp: sort_inv_def counts_def users_first_def)
  show ?thesis
  proof (cases "r < length graph \<and> users graph r = {}")
    case True
    define s where "s = st\<lparr>ready := r # ready st, pending_to_remaining_users := (pending_to_remaining_users st)(r \<mapsto> - 1)\<rparr>"
    have "seed_ready r st = Some s" using st(2) by (simp add: Q_def seed_ready_def check_def s_def)
    moreover have "sort_inv graph s" using st(2) True by (intro inv) (auto simp: Q_def s_def fun_eq_iff)
    ultimately show ?thesis using st True by (simp add: seed_nodes_def users_props Q_def s_def)
  next
    case False
    then have "sort_inv graph st" using st(2) by (intro inv) (auto simp: Q_def)
    then show ?thesis using st False by (auto simp: seed_nodes_def users_props Q_def)
  qed
qed

section \<open>Graphs without cycles\<close>

definition operand_edges :: "nat list list \<Rightarrow> (nat \<times> nat) set" where
  "operand_edges graph = {(m, n). n < length graph \<and> m \<in> set (graph ! n)}"

lemma acyclic_rank: "(\<And>m n. (m, n) \<in> e \<Longrightarrow> (rank m :: nat) < rank n) \<Longrightarrow> acyclic e"
  by (rule acyclic_subset[OF wf_acyclic[OF wf_measure[of rank]]]) auto

lemma finite_edges: "graph_ok graph \<Longrightarrow> finite (operand_edges graph)"
  by (rule finite_subset[of _ "{0..<length graph} \<times> {0..<length graph}"]) (fastforce simp: operand_edges_def graph_ok_def)+

lemma graph_okD: "graph_ok graph \<Longrightarrow> n < length graph \<Longrightarrow> m \<in> set (graph ! n) \<Longrightarrow> m < length graph"
  unfolding graph_ok_def by (meson atLeastLessThan_iff nth_mem subsetD)

text \<open>An order with all nodes exists exactly when there is no cycle.\<close>

lemma all_placed:
  assumes g: "graph_ok graph" and st: "sort_inv graph st" "ready st = []" and a: "acyclic (operand_edges graph)"
  shows "n < length graph \<Longrightarrow> n \<in> set (ordered st)"
proof (induction n rule: wf_induct_rule[OF finite_acyclic_wf_converse[OF finite_edges[OF g] a]])
  case (1 n)
  have "u \<in> set (ordered st)" if "u \<in> users graph n" for u
    using that 1 by (auto simp: users_def operand_edges_def)
  then show ?case using sort_invD(2)[OF st(1), of n] st(2) 1(2) by auto
qed

lemma users_first_acyclic:
  assumes o: "users_first graph order" "distinct order" "set order = {0..<length graph}" and g: "graph_ok graph"
  shows "acyclic (operand_edges graph)"
proof -
  have "\<forall>n \<in> set order. \<exists>i < length order. order ! i = n" by (metis in_set_conv_nth)
  then obtain pos where p: "\<forall>n \<in> set order. pos n < length order \<and> order ! pos n = n" using bchoice[of "set order" "\<lambda>n i. i < length order \<and> order ! i = n"] by blast
  have "length order - pos m < length order - pos n" if "(m, n) \<in> operand_edges graph" for m n
  proof -
    have mn: "n \<in> users graph m" "n \<in> set order" "m \<in> set order" using that o(3) graph_okD[OF g] by (auto simp: operand_edges_def users_def)
    have "users graph (order ! pos m) \<subseteq> set (take (pos m) order)" using o(1) p mn(3) unfolding users_first_def by blast
    then have "n \<in> set (take (pos m) order)" using mn p by auto
    then obtain j where "j < pos m" "order ! j = n" using p mn(3) by (auto simp: in_set_conv_nth)
    then have "pos n < pos m" using p mn o(2) by (metis nth_eq_iff_index_eq less_trans)
    then show ?thesis using p mn(3) by (meson diff_less_mono2 less_trans)
  qed
  then show ?thesis by (rule acyclic_rank)
qed

lemma Initialize_result:
  assumes g: "graph_ok graph" and graph: "graph = map operands (fn_nodes f)"
  shows "if acyclic (operand_edges graph)
    then \<exists>order. Initialize f = Some order \<and> distinct order \<and> set order = {0..<length graph} \<and> users_first graph order \<and>
      (fn_return f < length graph \<and> users graph (fn_return f) = {} \<longrightarrow> hd order = fn_return f)
    else Initialize f = None"
proof -
  obtain s where s: "seed_nodes graph (fn_return f) = Some s" "sort_inv graph s" "ordered s = []"
    "fn_return f < length graph \<and> users graph (fn_return f) = {} \<longrightarrow> ready s \<noteq> [] \<and> hd (ready s) = fn_return f" using seed_ok by blast
  obtain st more where st: "drain graph s = Some st" "sort_inv graph st" "ready st = []" "ordered st = ordered s @ more"
    "ready s \<noteq> [] \<longrightarrow> more \<noteq> [] \<and> hd more = hd (ready s)" using drain_ok[OF g s(2)] by blast
  have i: "Initialize f = (if length (ordered st) < length graph then None else Some (ordered st))"
    using s(1) st(1) by (simp add: Initialize_def Let_def flip: graph)
  have d: "distinct (ordered st)" "set (ordered st) \<subseteq> {0..<length graph}" "users_first graph (ordered st)"
    using sort_invD(1,2)[OF st(2)] st(2,3) by (auto simp: sort_inv_def)
  have l: "length (ordered st) < length graph \<longleftrightarrow> set (ordered st) \<noteq> {0..<length graph}"
    using d card_seteq[OF _ d(2)] distinct_card[OF d(1)] by fastforce
  show ?thesis
  proof (cases "acyclic (operand_edges graph)")
    case True
    then have "set (ordered st) = {0..<length graph}" using all_placed[OF g st(2,3)] d(2) by auto
    then show ?thesis using True i l d s(3,4) st(4,5) by auto
  next
    case False
    then have "set (ordered st) \<noteq> {0..<length graph}" using users_first_acyclic[OF d(3,1) _ g] by auto
    then show ?thesis using False i l by auto
  qed
qed

lemma users_first_rev:
  assumes "users_first graph order" "distinct order" "set order = {0..<length graph}" "graph_ok graph" "i < length order"
  shows "set (graph ! (rev order ! i)) \<subseteq> set (take i (rev order))"
proof
  fix m assume m: "m \<in> set (graph ! (rev order ! i))"
  define n where "n = rev order ! i"
  have n: "n \<in> set order" "n = order ! (length order - Suc i)" using assms(5) by (auto simp: n_def rev_nth)
  have "n < length graph" using n(1) assms(3) by auto
  then have mu: "n \<in> users graph m" "m \<in> set order" using m assms(3) graph_okD[OF assms(4)] by (auto simp: n_def users_def)
  then obtain j where j: "j < length order" "order ! j = m" by (auto simp: in_set_conv_nth)
  then have "n \<in> set (take j order)" using assms(1) mu(1) by (auto simp: users_first_def)
  then obtain k where "k < j" "order ! k = n" using j by (auto simp: in_set_conv_nth)
  moreover have "length order - Suc i < length order" using assms(5) by simp
  ultimately have "length order - Suc i < j" using n(2) j(1) assms(2) nth_eq_iff_index_eq[of order k "length order - Suc i"] by auto
  then have "length order - Suc j < i" "rev order ! (length order - Suc j) = m" using j assms(5) by (auto simp: rev_nth)
  then show "m \<in> set (take i (rev order))" using assms(5) by (auto simp: in_set_conv_nth intro!: exI[of _ "length order - Suc j"])
qed

text \<open>The two traversals agree: a graph the depth-first traversal accepts has no cycle.\<close>

definition stamp :: "nat \<Rightarrow> nat \<times> (nat \<Rightarrow> nat) \<Rightarrow> (nat \<times> (nat \<Rightarrow> nat)) status_or option" where
  "stamp n s = Some (Inr (Suc (fst s), (snd s)(n := fst s)))"

lemma accepted_acyclic:
  assumes "FunctionBase_Accept no_visit f () = Some (Inr ())"
  shows "acyclic (operand_edges (map operands (fn_nodes f)))"
proof -
  define I where "I = (\<lambda>vs s. \<forall>n \<in> set vs. snd s n < fst s \<and> (\<forall>m \<in> set (operands (fn_nodes f ! n)). m \<in> set vs \<and> snd s m < (snd s n :: nat)))"
  have step: "\<exists>s'. stamp n s = Some (Inr s') \<and> I (n # vs) s'"
    if "n < length (fn_nodes f)" "n \<notin> set vs" "set (operands (fn_nodes f ! n)) \<subseteq> set vs" "I vs s" for n vs s
  proof -
    have "I (n # vs) (Suc (fst s), (snd s)(n := fst s))" unfolding I_def
    proof
      fix k assume "k \<in> set (n # vs)"
      then show "snd (Suc (fst s), (snd s)(n := fst s)) k < fst (Suc (fst s), (snd s)(n := fst s)) \<and>
        (\<forall>m \<in> set (operands (fn_nodes f ! k)). m \<in> set (n # vs) \<and> snd (Suc (fst s), (snd s)(n := fst s)) m < snd (Suc (fst s), (snd s)(n := fst s)) k)"
        using that by (cases "k = n") (auto simp: I_def less_Suc_eq)
    qed
    then show ?thesis by (simp add: stamp_def)
  qed
  have "I [] (0, \<lambda>_. 0)" by (simp add: I_def)
  from FunctionBase_Accept_sim[where visit = stamp and I = I, OF assms step this] obtain s vs
    where "I vs s" "{0..<length (fn_nodes f)} \<subseteq> set vs" by blast
  then show ?thesis by (intro acyclic_rank[where rank = "snd s"]) (auto simp: operand_edges_def I_def)
qed

lemma TopoSort_result:
  assumes g: "\<forall>node \<in> set (fn_nodes f). set (operands node) \<subseteq> {0..<length (fn_nodes f)}"
    and a: "acyclic (operand_edges (map operands (fn_nodes f)))"
  obtains order where "TopoSort f = Some order" "distinct order" "set order = {0..<length (fn_nodes f)}"
    "\<And>i. i < length order \<Longrightarrow> set (operands (fn_nodes f ! (order ! i))) \<subseteq> set (take i order)"
proof -
  define graph where "graph = map operands (fn_nodes f)"
  have gr: "graph_ok graph" "acyclic (operand_edges graph)" using g a by (auto simp: graph_ok_def graph_def)
  obtain order where o: "Initialize f = Some order" "distinct order" "set order = {0..<length graph}" "users_first graph order"
    using Initialize_result[OF gr(1) graph_def] gr(2) by auto
  have "set (operands (fn_nodes f ! (rev order ! i))) \<subseteq> set (take i (rev order))" if i: "i < length order" for i
  proof -
    have "rev order ! i \<in> set order" using i by (metis length_rev nth_mem set_rev)
    then have "graph ! (rev order ! i) = operands (fn_nodes f ! (rev order ! i))" using o(3) by (simp add: graph_def)
    then show ?thesis using users_first_rev[OF o(4,2,3) gr(1) i] by simp
  qed
  then show thesis using that[of "rev order"] o by (simp add: TopoSort_def graph_def)
qed

text \<open>And a graph without a cycle is accepted: the nodes being traversed form a path that no operand closes.\<close>

definition visited_ok :: "nat list list \<Rightarrow> nat list \<Rightarrow> nat list \<Rightarrow> bool" where
  "visited_ok graph t vs \<longleftrightarrow> distinct vs \<and> set vs \<subseteq> {0..<length graph} \<and> (\<forall>k \<in> set vs. set (graph ! k) \<subseteq> set vs) \<and> set t \<inter> set vs = {}"

lemma Accept_acyclic:
  assumes g: "graph_ok graph" and a: "acyclic (operand_edges graph)"
  shows "v = no_visit \<Longrightarrow> gr = graph \<Longrightarrow> n < length graph \<Longrightarrow> \<forall>k \<in> set t. (n, k) \<in> (operand_edges graph)\<^sup>+ \<Longrightarrow> visited_ok graph t (fst s) \<Longrightarrow>
      \<exists>s'. Node_Accept v gr n t s = Some (Inr s') \<and> visited_ok graph t (fst s') \<and> set (fst s) \<subseteq> set (fst s') \<and> n \<in> set (fst s')"
    and "v = no_visit \<Longrightarrow> gr = graph \<Longrightarrow> \<forall>m \<in> set ms. m < length graph \<and> (\<forall>k \<in> set t. (m, k) \<in> (operand_edges graph)\<^sup>+) \<Longrightarrow> visited_ok graph t (fst s) \<Longrightarrow>
      \<exists>s'. Accept_operands v gr ms t s = Some (Inr s') \<and> visited_ok graph t (fst s') \<and> set (fst s) \<subseteq> set (fst s') \<and> set ms \<subseteq> set (fst s')"
proof (induction v gr n t s and v gr ms t s rule: Node_Accept_Accept_operands.induct)
  case (1 v gr n t s)
  show ?case
  proof (cases "n \<in> set (fst s)")
    case True
    then show ?thesis using 1 by (simp add: Node_Accept.simps)
  next
    case False
    have nt: "n \<notin> set t" using 1(5) a by (auto simp: acyclic_def)
    have "m < length graph \<and> (\<forall>k \<in> set (n # t). (m, k) \<in> (operand_edges graph)\<^sup>+)" if "m \<in> set (graph ! n)" for m
    proof -
      have e: "(m, n) \<in> operand_edges graph" using that 1(4) by (simp add: operand_edges_def)
      then have "(m, k) \<in> (operand_edges graph)\<^sup>+" if "k \<in> set (n # t)" for k using that 1(5) by (auto intro: trancl_into_trancl2)
      then show ?thesis using graph_okD[OF g 1(4) that] by blast
    qed
    then obtain s1 where s1: "Accept_operands v gr (gr ! n) (n # t) s = Some (Inr s1)" "visited_ok graph (n # t) (fst s1)" "set (fst s) \<subseteq> set (fst s1)" "set (graph ! n) \<subseteq> set (fst s1)"
      using 1(1)[OF False nt _ 1(2,3)] 1(3,4,6) False by (auto simp: visited_ok_def)
    then show ?thesis using False nt 1(2-4) by (auto simp: Node_Accept.simps no_visit_def visited_ok_def)
  qed
next
  case (3 v gr m ms t s)
  obtain s1 where s1: "Node_Accept v gr m t s = Some (Inr s1)" "visited_ok graph t (fst s1)" "set (fst s) \<subseteq> set (fst s1)" "m \<in> set (fst s1)"
    using 3(1)[OF 3(3,4)] 3(5,6) by auto
  obtain s2 where "Accept_operands v gr ms t s1 = Some (Inr s2)" "visited_ok graph t (fst s2)" "set (fst s1) \<subseteq> set (fst s2)" "set ms \<subseteq> set (fst s2)"
    using 3(2)[OF 3(3,4) _ s1(2)] 3(5) by auto
  then show ?case using s1 by (auto simp del: Node_Accept.simps)
qed simp

lemma Accept_roots_acyclic:
  assumes g: "graph_ok graph" and a: "acyclic (operand_edges graph)"
  shows "set ns \<subseteq> {0..<length graph} \<Longrightarrow> visited_ok graph [] (fst s) \<Longrightarrow>
    \<exists>s'. Accept_roots no_visit graph ns s = Some (Inr s') \<and> visited_ok graph [] (fst s') \<and> set (fst s) \<subseteq> set (fst s') \<and> (\<forall>n \<in> set ns. users graph n = {} \<longrightarrow> n \<in> set (fst s'))"
proof (induction ns arbitrary: s)
  case (Cons n ns)
  obtain s1 where "(if node_users graph n = [] then Node_Accept no_visit graph n [] s else Some (Inr s)) = Some (Inr s1)" "visited_ok graph [] (fst s1)"
    "set (fst s) \<subseteq> set (fst s1)" "users graph n = {} \<longrightarrow> n \<in> set (fst s1)"
    using Accept_acyclic(1)[OF g a refl refl, of n "[]" s] Cons.prems by (cases "node_users graph n = []") (auto simp: users_props simp del: Node_Accept.simps)
  moreover obtain s2 where "Accept_roots no_visit graph ns s1 = Some (Inr s2)" "visited_ok graph [] (fst s2)" "set (fst s1) \<subseteq> set (fst s2)"
    "\<forall>n \<in> set ns. users graph n = {} \<longrightarrow> n \<in> set (fst s2)" using Cons.IH[of s1] Cons.prems calculation(2) by auto
  ultimately show ?case by (auto simp del: Node_Accept.simps)
qed simp

lemma accepted_iff:
  assumes g: "graph_ok (map operands (fn_nodes f))"
  shows "FunctionBase_Accept no_visit f () = Some (Inr ()) \<longleftrightarrow> acyclic (operand_edges (map operands (fn_nodes f)))"
proof
  assume a: "acyclic (operand_edges (map operands (fn_nodes f)))"
  define graph where "graph = map operands (fn_nodes f)"
  note g = g[folded graph_def] and a = a[folded graph_def]
  have "visited_ok graph [] (fst ([], ()))" by (simp add: visited_ok_def)
  from Accept_roots_acyclic[OF g a _ this, of "[0..<length graph]"] obtain s
    where s: "Accept_roots no_visit graph [0..<length graph] ([], ()) = Some (Inr s)" "visited_ok graph [] (fst s)" "\<forall>n < length graph. users graph n = {} \<longrightarrow> n \<in> set (fst s)"
    by auto
  have "n \<in> set (fst s)" if "n < length graph" for n using that
  proof (induction n rule: wf_induct_rule[OF finite_acyclic_wf_converse[OF finite_edges[OF g] a]])
    case (1 n)
    show ?case
    proof (cases "users graph n = {}")
      case False
      then obtain u where "u < length graph" "n \<in> set (graph ! u)" by (auto simp: users_def)
      then have "u \<in> set (fst s)" using 1(1)[of u] by (simp add: operand_edges_def)
      then show ?thesis using s(2) \<open>n \<in> set (graph ! u)\<close> by (auto simp: visited_ok_def)
    qed (use s(3) 1(2) in simp)
  qed
  then have "set (fst s) = {0..<length graph}" using s(2) by (auto simp: visited_ok_def)
  then have "length (fst s) = length graph" using distinct_card[of "fst s"] s(2) by (simp add: visited_ok_def)
  then show "FunctionBase_Accept no_visit f () = Some (Inr ())" using s(1) by (simp add: FunctionBase_Accept_def Let_def flip: graph_def)
qed (rule accepted_acyclic)

end
