(* ===== verification/NodeEvaluator.thy ===== *)
theory NodeEvaluator
  imports Evaluators Flattening NodeIterator
begin

text \<open>
  \<open>xls/ir/abstract_node_evaluator.h\<close>: the evaluation of a node over an abstract evaluator, used by the query engines of the
  passes, the BDD construction and the solvers. The theory shows that the vector computed for a node stands for the
  value that the interpreter computes for it, for every operation: the circuits of \<open>AbstractEvaluator\<close> and the handlers of
  \<open>IrInterpreter\<close> agree.
\<close>

section \<open>Evaluation of a node\<close>

definition check_operand_count :: "nat \<Rightarrow> 'v list \<Rightarrow> unit status_or" where
  "check_operand_count expected xs = (if length xs \<noteq> expected then Inl InvalidArgumentError else Inr ())"

text \<open>The cases with one and with two counted operands, and a result without a count.\<close>

definition unary_case :: "('v \<Rightarrow> 'v option) \<Rightarrow> 'v list \<Rightarrow> 'v status_or option" where
  "unary_case g xs = or_return (Some (check_operand_count 1 xs)) (\<lambda>_. do { a \<leftarrow> list_at xs 0; r \<leftarrow> g a; Some (Inr r) })"

definition binary_case :: "('v \<Rightarrow> 'v \<Rightarrow> 'v option) \<Rightarrow> 'v list \<Rightarrow> 'v status_or option" where
  "binary_case g xs = or_return (Some (check_operand_count 2 xs)) (\<lambda>_. do {
     a \<leftarrow> list_at xs 0; b \<leftarrow> list_at xs 1; r \<leftarrow> g a b; Some (Inr r) })"

definition plain_case :: "'v option \<Rightarrow> 'v status_or option" where
  "plain_case r = do { v \<leftarrow> r; Some (Inr v) }"

fun AbstractEvaluate_bin_op :: "'e evaluator \<Rightarrow> bin_op \<Rightarrow> 'e list list \<Rightarrow> 'e list status_or option" where
  "AbstractEvaluate_bin_op E kAdd = binary_case (AE_Add E)"
| "AbstractEvaluate_bin_op E kSub = binary_case (\<lambda>a b. do { n \<leftarrow> AE_Neg E b; AE_Add E a n })"
| "AbstractEvaluate_bin_op E kUDiv = binary_case (AE_UDiv E)"
| "AbstractEvaluate_bin_op E kSDiv = binary_case (AE_SDiv E)"
| "AbstractEvaluate_bin_op E kUMod = binary_case (AE_UMod E)"
| "AbstractEvaluate_bin_op E kSMod = binary_case (AE_SMod E)"
| "AbstractEvaluate_bin_op E kShll = binary_case (AE_ShiftLeftLogical E)"
| "AbstractEvaluate_bin_op E kShra = binary_case (AE_ShiftRightArith E)"
| "AbstractEvaluate_bin_op E kShrl = binary_case (AE_ShiftRightLogical E)"

fun AbstractEvaluate_compare_op :: "'e evaluator \<Rightarrow> compare_op \<Rightarrow> 'e list list \<Rightarrow> 'e list status_or option" where
  "AbstractEvaluate_compare_op E kEq = binary_case (\<lambda>a b. do { e \<leftarrow> AE_Equals E a b; Some [e] })"
| "AbstractEvaluate_compare_op E kNe = binary_case (\<lambda>a b. do { e \<leftarrow> AE_Equals E a b; Some [el_Not E e] })"
| "AbstractEvaluate_compare_op E kSGe = binary_case (\<lambda>a b. do { e \<leftarrow> AE_SLessThan E a b; Some [el_Not E e] })"
| "AbstractEvaluate_compare_op E kSGt = binary_case (\<lambda>a b. do { e \<leftarrow> AE_SLessThan E b a; Some [e] })"
| "AbstractEvaluate_compare_op E kSLe = binary_case (\<lambda>a b. do { e \<leftarrow> AE_SLessThan E b a; Some [el_Not E e] })"
| "AbstractEvaluate_compare_op E kSLt = binary_case (\<lambda>a b. do { e \<leftarrow> AE_SLessThan E a b; Some [e] })"
| "AbstractEvaluate_compare_op E kUGe = binary_case (\<lambda>a b. do { e \<leftarrow> AE_ULessThan E a b; Some [el_Not E e] })"
| "AbstractEvaluate_compare_op E kUGt = binary_case (\<lambda>a b. do { e \<leftarrow> AE_ULessThan E b a; Some [e] })"
| "AbstractEvaluate_compare_op E kULe = binary_case (\<lambda>a b. do { e \<leftarrow> AE_ULessThan E b a; Some [el_Not E e] })"
| "AbstractEvaluate_compare_op E kULt = binary_case (\<lambda>a b. do { e \<leftarrow> AE_ULessThan E a b; Some [e] })"

fun AbstractEvaluate_nary_op :: "'e evaluator \<Rightarrow> nary_op \<Rightarrow> 'e list list \<Rightarrow> 'e list status_or option" where
  "AbstractEvaluate_nary_op E kNaryAnd xs = plain_case (BitwiseAnd E xs)"
| "AbstractEvaluate_nary_op E kNaryNand xs = plain_case (do { v \<leftarrow> BitwiseAnd E xs; Some (BitwiseNot E v) })"
| "AbstractEvaluate_nary_op E kNaryNor xs = plain_case (do { v \<leftarrow> BitwiseOr E xs; Some (BitwiseNot E v) })"
| "AbstractEvaluate_nary_op E kNaryOr xs = plain_case (BitwiseOr E xs)"
| "AbstractEvaluate_nary_op E kNaryXor xs = plain_case (BitwiseXor E xs)"

fun AbstractEvaluate_reduction_op :: "'e evaluator \<Rightarrow> reduction_op \<Rightarrow> 'e list list \<Rightarrow> 'e list status_or option" where
  "AbstractEvaluate_reduction_op E kAndReduce xs = plain_case (do { a \<leftarrow> list_at xs 0; Some (AE_AndReduce E a) })"
| "AbstractEvaluate_reduction_op E kOrReduce xs = plain_case (do { a \<leftarrow> list_at xs 0; Some (AE_OrReduce E a) })"
| "AbstractEvaluate_reduction_op E kXorReduce xs = plain_case (do { a \<leftarrow> list_at xs 0; Some (AE_XorReduce E a) })"

fun AbstractEvaluate_un_op :: "'e evaluator \<Rightarrow> un_op \<Rightarrow> 'e list list \<Rightarrow> 'e list status_or option" where
  "AbstractEvaluate_un_op E kIdentity = unary_case Some"
| "AbstractEvaluate_un_op E kNeg = unary_case (AE_Neg E)"
| "AbstractEvaluate_un_op E kNot = unary_case (\<lambda>a. Some (BitwiseNot E a))"
| "AbstractEvaluate_un_op E kReverse = unary_case (\<lambda>a. Some (rev a))"

text \<open>The product is cut or extended to the width of the node.\<close>

fun AbstractEvaluate_mul :: "'e evaluator \<Rightarrow> mul_op \<Rightarrow> nat \<Rightarrow> 'e list \<Rightarrow> 'e list \<Rightarrow> 'e list option" where
  "AbstractEvaluate_mul E kSMul expected_width a b = do {
     result \<leftarrow> AE_SMul E a b;
     if length result > expected_width then AE_BitSlice result 0 expected_width
     else if length result < expected_width then AE_SignExtend result expected_width else Some result }"
| "AbstractEvaluate_mul E kUMul expected_width a b = do {
     result \<leftarrow> AE_UMul E a b;
     if length result > expected_width then AE_BitSlice result 0 expected_width
     else if length result < expected_width then AE_ZeroExtend E result expected_width else Some result }"

fun is_one_hot :: "node_op \<Rightarrow> bool" where
  "is_one_hot (OneHot p) \<longleftrightarrow> True" | "is_one_hot _ \<longleftrightarrow> False"

definition selector_is_one_hot :: "ir_function \<Rightarrow> ir_node \<Rightarrow> bool option" where
  "selector_is_one_hot f node = do { m \<leftarrow> operand node 0; sel \<leftarrow> node_at f m; Some (is_one_hot (node_op sel)) }"

definition AbstractEvaluate_select :: "'e evaluator \<Rightarrow> bool \<Rightarrow> 'e list list \<Rightarrow> 'e list option" where
  "AbstractEvaluate_select E has_default xs = do {
     selector \<leftarrow> list_at xs 0;
     if has_default then do {
       check (2 \<le> length xs);
       AE_Select E selector (take (length xs - 2) (tl xs)) (Some (last xs)) }
     else AE_Select E selector (tl xs) None }"

text \<open>
  \<open>AbstractEvaluate\<close> of a node of the function \<open>f\<close>, with the vectors of its operands. Operations without a circuit go to
  \<open>default_handler\<close>.
\<close>

fun AbstractEvaluate_op :: "ir_function \<Rightarrow> 'e evaluator \<Rightarrow> (ir_node \<Rightarrow> 'e list option) \<Rightarrow> node_op \<Rightarrow> ir_node \<Rightarrow> 'e list list \<Rightarrow> 'e list status_or option" where
  "AbstractEvaluate_op f E dh (BinOp b) node xs = AbstractEvaluate_bin_op E b xs"
| "AbstractEvaluate_op f E dh (CompareOp c) node xs = AbstractEvaluate_compare_op E c xs"
| "AbstractEvaluate_op f E dh (node_op.NaryOp k) node xs = AbstractEvaluate_nary_op E k xs"
| "AbstractEvaluate_op f E dh (BitwiseReductionOp r) node xs = AbstractEvaluate_reduction_op E r xs"
| "AbstractEvaluate_op f E dh (UnOp u) node xs = AbstractEvaluate_un_op E u xs"
| "AbstractEvaluate_op f E dh (ExtendOp kSignExt w) node xs = unary_case (\<lambda>a. do { n \<leftarrow> BitCountOrDie node; AE_SignExtend a n }) xs"
| "AbstractEvaluate_op f E dh (ExtendOp kZeroExt w) node xs = unary_case (\<lambda>a. do { n \<leftarrow> BitCountOrDie node; AE_ZeroExtend E a n }) xs"
| "AbstractEvaluate_op f E dh (ArithOp m) node xs = binary_case (\<lambda>a b. do { n \<leftarrow> BitCountOrDie node; AbstractEvaluate_mul E m n a b }) xs"
| "AbstractEvaluate_op f E dh (PartialProductOp m w) node xs = Some (Inl UnimplementedError)"
| "AbstractEvaluate_op f E dh (BitSlice start width) node xs = unary_case (\<lambda>a. AE_BitSlice a start width) xs"
| "AbstractEvaluate_op f E dh BitSliceUpdateOp node xs =
     or_return (Some (check_operand_count 3 xs)) (\<lambda>_. plain_case (do {
       a \<leftarrow> list_at xs 0; b \<leftarrow> list_at xs 1; c \<leftarrow> list_at xs 2; AE_BitSliceUpdate E a b c }))"
| "AbstractEvaluate_op f E dh Concat node xs = Some (Inr (AE_Concat xs))"
| "AbstractEvaluate_op f E dh (Decode width) node xs = unary_case (\<lambda>a. AE_Decode E a width) xs"
| "AbstractEvaluate_op f E dh Encode node xs = unary_case (AE_Encode E) xs"
| "AbstractEvaluate_op f E dh (Literal v) node xs =
     or_return (Some (check_operand_count 0 xs)) (\<lambda>_. plain_case (case v of BitsValue b \<Rightarrow> BitsToVector E b | _ \<Rightarrow> dh node))"
| "AbstractEvaluate_op f E dh (OneHot p) node xs = unary_case (if p = kLsb then AE_OneHotLsbToMsb E else AE_OneHotMsbToLsb E) xs"
| "AbstractEvaluate_op f E dh OneHotSelect node xs =
     plain_case (do { s \<leftarrow> list_at xs 0; h \<leftarrow> selector_is_one_hot f node; AE_OneHotSelect E s (tl xs) (\<not> h) })"
| "AbstractEvaluate_op f E dh PrioritySelect node xs =
     plain_case (do { s \<leftarrow> list_at xs 0; h \<leftarrow> selector_is_one_hot f node; AE_PrioritySelect E s (tl xs) (\<not> h) })"
| "AbstractEvaluate_op f E dh (Select k d) node xs = plain_case (AbstractEvaluate_select E d xs)"
| "AbstractEvaluate_op f E dh op node xs = plain_case (dh node)"

definition AbstractEvaluate :: "ir_function \<Rightarrow> 'e evaluator \<Rightarrow> (ir_node \<Rightarrow> 'e list option) \<Rightarrow> ir_node \<Rightarrow> 'e list list \<Rightarrow> 'e list status_or option" where
  "AbstractEvaluate f E default_handler node xs = AbstractEvaluate_op f E default_handler (node_op node) node xs"

section \<open>Vectors and values of the operands\<close>

text \<open>
  \<open>tracked R f node st xs\<close>: the operands of the node are bits, of positive width, with values in \<open>st\<close>, and the vectors
  \<open>xs\<close> stand for them. \<open>agrees R n circuit handler\<close>: the circuit gives a vector, and if the handler succeeds, the vector
  stands for the value that it has set.
\<close>

definition tracked :: "('e \<Rightarrow> bool \<Rightarrow> bool) \<Rightarrow> ir_function \<Rightarrow> ir_node \<Rightarrow> interp_state \<Rightarrow> 'e list list \<Rightarrow> bool" where
  "tracked R f node st xs \<longleftrightarrow> length xs = length (operands node) \<and> (\<forall>i < length xs. \<exists>w x. 0 < w \<and> w < 2 ^ 63 \<and> x < 2 ^ w \<and>
     GetType f (operands node ! i) = Some (BitsType w) \<and> node_values st (operands node ! i) = Some (BitsValue (mk_bits w x)) \<and> vec R w (int x) (xs ! i))"

definition sets_bits :: "nat \<Rightarrow> interp_state status_or option \<Rightarrow> bits \<Rightarrow> bool" where
  "sets_bits n r p \<longleftrightarrow> (\<forall>st'. r = Some (Inr st') \<longrightarrow> node_values st' n = Some (BitsValue p))"

definition agrees :: "('e \<Rightarrow> bool \<Rightarrow> bool) \<Rightarrow> nat \<Rightarrow> 'e list status_or option \<Rightarrow> interp_state status_or option \<Rightarrow> bool" where
  "agrees R n circuit r \<longleftrightarrow> (\<exists>v p. circuit = Some (Inr v) \<and> sets_bits n r p \<and> stands R p v)"

lemma trackedD:
  assumes "tracked R f node st xs" "operand_type f node i = Some (BitsType w)"
  obtains x where "list_at xs i = Some (xs ! i)" "operand_bits node st i = Some (mk_bits w x)" "operand_value node st i = Some (BitsValue (mk_bits w x))"
    "vec R w (int x) (xs ! i)" "0 < w" "w < 2 ^ 63" "x < 2 ^ w"
proof -
  have i: "i < length (operands node)" using assms(2) by (auto simp: operand_type_def operand_def bind_ok list_at_eq_Some)
  then have t: "GetType f (operands node ! i) = Some (BitsType w)" using assms(2) operand_type_nth[OF i] by metis
  have "i < length xs" using i assms(1) by (simp add: tracked_def)
  then have "\<exists>u x. 0 < u \<and> u < 2 ^ 63 \<and> x < 2 ^ u \<and> GetType f (operands node ! i) = Some (BitsType u) \<and> node_values st (operands node ! i) = Some (BitsValue (mk_bits u x)) \<and> vec R u (int x) (xs ! i)"
    using assms(1) unfolding tracked_def by blast
  then obtain x where "0 < w" "w < 2 ^ 63" "x < 2 ^ w" "node_values st (operands node ! i) = Some (BitsValue (mk_bits w x))" "vec R w (int x) (xs ! i)" using t by auto
  then show thesis using that[of x] i \<open>i < length xs\<close> by (simp add: operand_bits_def operand_value_def operand_def ResolveAsBits_def ResolveAsValue_def)
qed

lemma sets_bits_results:
  "sets_bits n (SetBitsResult n node p st) p" "sets_bits n (SetValueResult n node (BitsValue p) st) p"
  by (auto simp: sets_bits_def SetBitsResult_def SetValueResult_def bind_ok split: ir_type.splits if_splits)

lemma sets_bits_bool: "node_type node = BitsType 1 \<Longrightarrow> sets_bits n (SetUint64Result n node (of_bool b) st) (mk_bits 1 (of_bool b))"
  by (cases b) (auto simp: sets_bits_def SetUint64Result_def SetValueResult_def bind_ok split: if_splits)

text \<open>The cases of the evaluation against the forms of the handlers.\<close>

lemma refinesD: "refines R c p \<Longrightarrow> \<exists>v q. c = Some v \<and> p = Some q \<and> stands R q v"
  by (auto simp: refines_def)

lemma agreesI: "circuit = Some (Inr v) \<Longrightarrow> stands R p v \<Longrightarrow> sets_bits n r p \<Longrightarrow> agrees R n circuit r"
  by (auto simp: agrees_def)

lemma unary_agrees:
  assumes "list_at xs 0 = Some a" "length xs = 1" "operand_bits node st 0 = Some x" "refines R (c a) (g x)"
  shows "agrees R n (unary_case c xs) (unary_bits g n node st)"
proof -
  obtain v p where "c a = Some v" "g x = Some p" "stands R p v" using refinesD[OF assms(4)] by blast
  then show ?thesis using assms(1-3) sets_bits_results(1)[of n node p st]
    by (intro agreesI[of _ v R p]) (simp_all add: unary_case_def unary_bits_def check_operand_count_def)
qed

lemma binary_agrees:
  assumes "list_at xs 0 = Some a" "list_at xs 1 = Some b" "length xs = 2" "operand_bits node st 0 = Some x" "operand_bits node st 1 = Some y" "refines R (c a b) (g x y)"
  shows "agrees R n (binary_case c xs) (binary_bits g n node st)"
proof -
  obtain v p where "c a b = Some v" "g x y = Some p" "stands R p v" using refinesD[OF assms(6)] by blast
  then show ?thesis using assms(1-5) sets_bits_results(1)[of n node p st]
    by (intro agreesI[of _ v R p]) (simp_all add: binary_case_def binary_bits_def check_operand_count_def)
qed

section \<open>The operations on bits\<close>

lemma refines_bits:
  "yields (vec R n x) c \<Longrightarrow> op = Some (mk_bits n p) \<Longrightarrow> (\<And>i. i < n \<Longrightarrow> bit x i = bit p i) \<Longrightarrow> refines R c op"
  using vec_bits[of R n x _ "int p"] by (auto simp: yields_def refines_def stands_mk_bits bit_of_nat_iff)

lemma int_bits_eq [simp]: "bit (int v) i \<longleftrightarrow> bit v i"
  by (simp add: bit_of_nat_iff)

context element_logic
begin

lemma refines_Sub:
  assumes L: "bignum_ok L val" and v: "vec R n (int x) a" "vec R n (int y) b" and n: "0 < n"
  shows "refines R (do { c \<leftarrow> AE_Neg E b; AE_Add E a c }) (bits_ops_Sub L (mk_bits n x) (mk_bits n y))"
proof -
  have "yields (vec R n (int x + - int y)) (do { c \<leftarrow> AE_Neg E b; AE_Add E a c })"
    by (rule yields_bind[OF Neg_vec[OF v(2) n]]) (rule Add_vec[OF v(1)])
  then show ?thesis by (intro refinesI) (simp_all add: bits_ops_Sub_eq[OF L])
qed

lemma refines_un:
  assumes v: "vec R n (int x) a"
  shows "refines R (Some (BitwiseNot E a)) (bits_ops_Not (mk_bits n x))" "refines R (Some (rev a)) (bits_ops_Reverse (mk_bits n x))"
    "refines R (Some (AE_AndReduce E a)) (AndReduce (mk_bits n x))" "refines R (Some (AE_OrReduce E a)) (OrReduce (mk_bits n x))"
    "refines R (Some (AE_XorReduce E a)) (XorReduce (mk_bits n x))"
proof -
  show "refines R (Some (BitwiseNot E a)) (bits_ops_Not (mk_bits n x))"
    using BitwiseNot_vec[OF v] by (intro refines_bits[of R n "NOT (int x)"]) (auto simp: bit_simps)
  have "vec R n (int (reverse_nat n x)) (rev a)" using v by (auto simp: vec_def rev_nth bit_reverse_nat)
  then show "refines R (Some (rev a)) (bits_ops_Reverse (mk_bits n x))" by (intro refines_bits[where x = "int (reverse_nat n x)"]) auto
  have e: "(take_bit n (int x) = mask n) = (take_bit n x = mask n)" "(take_bit n (int x) \<noteq> 0) = (take_bit n x \<noteq> 0)"
    by (metis of_nat_eq_iff of_nat_mask_eq of_nat_take_bit) (metis of_nat_eq_0_iff of_nat_take_bit)
  have o: "bit (of_bool c :: int) i = bit (of_bool c :: nat) i" for c i by (cases c) (auto simp: bit_1_iff bit_Suc_0_iff)
  show "refines R (Some (AE_AndReduce E a)) (AndReduce (mk_bits n x))"
    using AndReduce_vec[OF v] by (intro refines_bits[where x = "of_bool (take_bit n (int x) = mask n)"]) (simp_all add: e(1) o)
  show "refines R (Some (AE_OrReduce E a)) (OrReduce (mk_bits n x))"
    using OrReduce_vec[OF v] by (intro refines_bits[where x = "of_bool (take_bit n (int x) \<noteq> 0)"]) (simp_all only: e(2) o OrReduce_eq yields_Some)
  show "refines R (Some (AE_XorReduce E a)) (XorReduce (mk_bits n x))"
    using XorReduce_vec[OF v] by (intro refines_bits[where x = "of_bool (odd (card {i. i < n \<and> bit (int x) i}))"]) (simp_all add: o)
qed

lemma refines_extend:
  assumes v: "vec R n (int x) a" and m: "0 < n" "n \<le> m"
  shows "refines R (AE_SignExtend a m) (SignExtend (mk_bits n x) m)" "refines R (AE_ZeroExtend E a m) (ZeroExtend (mk_bits n x) m)"
proof -
  show "refines R (AE_SignExtend a m) (SignExtend (mk_bits n x) m)"
    using SignExtend_vec[OF v m] m by (intro refinesI) (simp_all add: sval_signed)
  show "refines R (AE_ZeroExtend E a m) (ZeroExtend (mk_bits n x) m)"
    by (rule refines_bits[OF ZeroExtend_vec[OF v m(2)], where p = "take_bit n x"]) (use m(2) in \<open>simp_all add: bit_take_bit_iff\<close>)
qed

lemma refines_slice:
  assumes v: "vec R n (int x) a" and s: "s + w \<le> n"
  shows "refines R (AE_BitSlice a s w) (Bits_Slice (mk_bits n x) s w)"
  by (rule refines_bits[OF BitSlice_vec[OF v s], where p = "drop_bit s x"]) (use s in \<open>simp_all add: bit_drop_bit_eq\<close>)

text \<open>A product that is cut or extended to the width of the node.\<close>

lemma refines_mul:
  assumes L: "bignum_ok L val" and v: "vec R n (int x) a" "vec R m (int y) b" and n: "0 < n" "0 < m"
  shows "refines R (AbstractEvaluate_mul E kSMul w a b)
      (do { result \<leftarrow> bits_ops_SMul L (mk_bits n x) (mk_bits m y);
         if bit_count result > w then Bits_Slice result 0 w else if bit_count result < w then SignExtend result w else Some result })"
    "refines R (AbstractEvaluate_mul E kUMul w a b)
      (do { result \<leftarrow> bits_ops_UMul L (mk_bits n x) (mk_bits m y);
         if bit_count result > w then Bits_Slice result 0 w else if bit_count result < w then ZeroExtend result w else Some result })"
proof -
  have s: "refines R (AE_SMul E a b) (bits_ops_SMul L (mk_bits n x) (mk_bits m y))" "refines R (AE_UMul E a b) (bits_ops_UMul L (mk_bits n x) (mk_bits m y))"
    using refines_SMul[OF L _ _ _ _ , of "mk_bits n x" "mk_bits m y" a b] refines_UMul[OF L, of "mk_bits n x" "mk_bits m y" a b] v n by (simp_all add: stands_mk_bits)
  obtain u p where u: "AE_SMul E a b = Some u" "bits_ops_SMul L (mk_bits n x) (mk_bits m y) = Some (mk_bits (n + m) p)" "vec R (n + m) (int p) u"
    using s(1) by (auto simp: refines_def bits_ops_SMul_eq[OF L] mk_int_def stands_mk_bits)
  obtain t q where t: "AE_UMul E a b = Some t" "bits_ops_UMul L (mk_bits n x) (mk_bits m y) = Some (mk_bits (n + m) q)" "vec R (n + m) (int q) t"
    using s(2) by (auto simp: refines_def bits_ops_UMul_eq[OF L] stands_mk_bits)
  have c: "length u = n + m" "length t = n + m" using vecD(1)[OF u(3)] vecD(1)[OF t(3)] by auto
  have z: "refines R (Some u) (Some (mk_bits (n + m) p))" "refines R (Some t) (Some (mk_bits (n + m) q))"
    using u(3) t(3) by (auto simp: refines_def stands_mk_bits)
  have nm: "0 < n + m" using n by simp
  show "refines R (AbstractEvaluate_mul E kSMul w a b)
      (do { result \<leftarrow> bits_ops_SMul L (mk_bits n x) (mk_bits m y);
         if bit_count result > w then Bits_Slice result 0 w else if bit_count result < w then SignExtend result w else Some result })"
    using refines_slice[OF u(3), of 0 w] refines_extend(1)[OF u(3) nm, of w] z(1) u(1,2) c(1)
    by (auto simp del: Bits_Slice_eq SignExtend_eq simp: not_less)
  show "refines R (AbstractEvaluate_mul E kUMul w a b)
      (do { result \<leftarrow> bits_ops_UMul L (mk_bits n x) (mk_bits m y);
         if bit_count result > w then Bits_Slice result 0 w else if bit_count result < w then ZeroExtend result w else Some result })"
    using refines_slice[OF t(3), of 0 w] refines_extend(2)[OF t(3) nm, of w] z(2) t(1,2) c(2)
    by (auto simp del: Bits_Slice_eq ZeroExtend_eq simp: not_less)
qed

lemma refines_decode:
  assumes v: "vec R n (int x) a" and x: "x < 2 ^ n" and w: "w \<le> 2 ^ n" "w < 2 ^ 63"
  shows "refines R (AE_Decode E a w) (if x < w then Bits_PowerOfTwo x w else Bits_new w)"
proof -
  have t: "nat (take_bit n (int x)) = x" using x by (simp add: take_bit_nat_eq_self flip: of_nat_take_bit)
  have "yields (vec R w (2 ^ x)) (AE_Decode E a w)" using Decode_vec[OF v w(1)] w(2) t by simp
  then show ?thesis by (rule refines_bits[where p = "if x < w then 2 ^ x else 0"]) (auto simp: bit_simps)
qed

end

context element_logic
begin

lemma refines_encode:
  assumes v: "vec R n (int x) a" and n: "0 < n" "n < 2 ^ 63"
  defines "w \<equiv> MinBitCountUnsigned (of_nat n - 1)"
  shows "refines R (AE_Encode E a) (for_state (\<lambda>i result. do {
            b \<leftarrow> Bits_Get (mk_bits n x) i;
            if b then do { u \<leftarrow> UBits (of_nat i) w; bits_ops_Or result u } else Some result }) [0..<n] (mk_bits w 0))"
proof -
  have u: "UBits (of_nat i) w = Some (mk_bits w i)" if "i < n" for i
  proof -
    have "unat (of_nat n - 1 :: u64) = n - 1" using n by (simp add: unat_sub_if_size unat_word_of_nat_64 word_size)
    moreover have "unat (of_nat n - 1 :: u64) < 2 ^ w" using MinBitCountUnsigned_le_iff[of "of_nat n - 1" w] by (simp add: w_def)
    moreover have "unat (of_nat i :: u64) = i" using that n by (simp add: unat_word_of_nat_64)
    ultimately show ?thesis using that by simp
  qed
  define g where "g = (\<lambda>i result. do {
            b \<leftarrow> Bits_Get (mk_bits n x) i;
            if b then do { u \<leftarrow> UBits (of_nat i) w; bits_ops_Or result u } else Some result })"
  have "yields (\<lambda>r. \<exists>y. r = mk_bits w y \<and> (\<forall>j < w. bit y j \<longleftrightarrow> (\<exists>i < n. bit i j \<and> bit x i))) (for_state g [0..<n] (mk_bits w 0))"
  proof (rule yields_for_upt)
    fix k t assume k: "k < n" and t: "\<exists>y. t = mk_bits w y \<and> (\<forall>j < w. bit y j \<longleftrightarrow> (\<exists>i < k. bit i j \<and> bit x i))"
    then obtain y where y: "t = mk_bits w y" "\<forall>j < w. bit y j \<longleftrightarrow> (\<exists>i < k. bit i j \<and> bit x i)" by blast
    have "g k t = Some (mk_bits w (if bit x k then y OR k else y))" using k y(1) u[OF k] by (simp add: g_def del: UBits_eq)
    moreover have "\<forall>j < w. bit (if bit x k then y OR k else y) j \<longleftrightarrow> (\<exists>i < Suc k. bit i j \<and> bit x i)"
      using y(2) by (auto simp: bit_or_iff less_Suc_eq)
    ultimately show "yields (\<lambda>r. \<exists>y. r = mk_bits w y \<and> (\<forall>j < w. bit y j \<longleftrightarrow> (\<exists>i < Suc k. bit i j \<and> bit x i))) (g k t)"
      by (auto simp: yields_def)
  qed (auto intro: exI[of _ 0])
  then obtain y where y: "for_state g [0..<n] (mk_bits w 0) = Some (mk_bits w y)" "\<forall>j < w. bit y j \<longleftrightarrow> (\<exists>i < n. bit i j \<and> bit x i)"
    by (auto simp: yields_def)
  obtain v' where "AE_Encode E a = Some v'" "length v' = w" "\<forall>j < w. R (v' ! j) (\<exists>i < n. bit i j \<and> bit (int x) i)"
    using Encode_ok[OF v] by (auto simp: yields_def w_def)
  then have "refines R (AE_Encode E a) (for_state g [0..<n] (mk_bits w 0))" using y by (auto simp: refines_def stands_mk_bits vec_def)
  then show ?thesis by (simp only: g_def)
qed

text \<open>The handler of one-hot finds the first set bit from the end that has priority.\<close>

lemma refines_one_hot:
  assumes v: "vec R n (int x) a"
  shows "refines R ((if p = kLsb then AE_OneHotLsbToMsb E else AE_OneHotMsbToLsb E) a)
    (Some (mk_bits (n + 1) (2 ^ (case find (\<lambda>i. bit x (if p = kLsb then i else n - i - 1)) [0..<n] of Some i \<Rightarrow> (if p = kLsb then i else n - i - 1) | None \<Rightarrow> n))))"
proof (cases "p = kLsb")
  case True
  have "run_length (\<lambda>i. \<not> bit x i) n = (case find (bit x) [0..<n] of Some i \<Rightarrow> i | None \<Rightarrow> n)"
    by (rule run_length_unique) (auto simp: find_Some_iff find_None_iff split: option.splits)
  then show ?thesis using OneHotLsbToMsb_vec[OF v] True
    by (intro refines_bits[where x = "2 ^ run_length (\<lambda>i. \<not> bit (int x) i) n"]) (auto simp: bit_simps split: option.splits)
next
  case False
  obtain u where u: "AE_OneHotMsbToLsb E a = Some u" "length u = n + 1" "R (u ! n) (\<forall>j < n. \<not> bit x j)"
    "\<forall>i < n. R (u ! i) (bit x i \<and> (\<forall>j < n. i < j \<longrightarrow> \<not> bit x j))" using OneHotMsbToLsb_ok[OF v] by (auto simp: yields_def)
  define k where "k = (case find (\<lambda>i. bit x (n - i - 1)) [0..<n] of Some i \<Rightarrow> n - i - 1 | None \<Rightarrow> n)"
  have k: "if \<forall>j < n. \<not> bit x j then k = n else k < n \<and> bit x k \<and> (\<forall>j < n. k < j \<longrightarrow> \<not> bit x j)"
  proof (cases "find (\<lambda>i. bit x (n - i - 1)) [0..<n]")
    case None
    have "\<not> bit x j" if "j < n" for j using None that by (auto simp: find_None_iff dest!: spec[of _ "n - 1 - j"])
    then show ?thesis using None by (simp add: k_def)
  next
    case (Some i)
    then have i: "i < n" "bit x (n - i - 1)" "\<forall>j < i. \<not> bit x (n - j - 1)" by (auto simp: find_Some_iff)
    have "\<not> bit x j" if "j < n" "n - i - 1 < j" for j using i(3)[rule_format, of "n - 1 - j"] that i(1) by simp
    moreover have "n - i - 1 < n" using i(1) by simp
    ultimately show ?thesis using Some i(2) by (auto simp: k_def)
  qed
  have "R (u ! i) (bit (2 ^ k :: nat) i)" if "i < n + 1" for i
  proof (cases "i = n")
    case True
    have "(\<forall>j < n. \<not> bit x j) = (n = k)" using k by (cases "\<forall>j < n. \<not> bit x j") (simp_all only: if_True if_False, blast+)
    then show ?thesis using u(3) True by (simp add: bit_simps)
  next
    case False
    then have "R (u ! i) (bit x i \<and> (\<forall>j < n. i < j \<longrightarrow> \<not> bit x j))" using that u(4) by simp
    moreover have "(bit x i \<and> (\<forall>j < n. i < j \<longrightarrow> \<not> bit x j)) = bit (2 ^ k :: nat) i" 
    proof (cases "\<forall>j < n. \<not> bit x j")
      case True
      have "k = n" using k unfolding if_P[OF True] .
      moreover have "\<not> bit x i" using True[rule_format, of i] that False by linarith
      ultimately show ?thesis using False by (simp add: bit_simps)
    next
      case none: False
      have k': "k < n" "bit x k" "\<forall>j < n. k < j \<longrightarrow> \<not> bit x j" using k unfolding if_not_P[OF none] by blast+
      have "i < n" using that False by simp
      then have "(bit x i \<and> (\<forall>j < n. i < j \<longrightarrow> \<not> bit x j)) = (i = k)" using k' by (meson linorder_neqE_nat)
      then show ?thesis by (simp add: bit_simps eq_commute[of k])
    qed
    ultimately show ?thesis by simp
  qed
  then have "stands R (mk_bits (n + 1) (2 ^ k)) u" using u(2) by (auto simp: stands_mk_bits vec_def bit_simps)
  then show ?thesis using u(1) False by (auto simp: refines_def k_def split: option.splits)
qed

lemma refines_slice_update:
  assumes v: "vec R n (int x) a" "vec R m (int y) b" "vec R k (int z) c" and n: "n < 2 ^ 63" and y: "y < 2 ^ m"
  shows "refines R (AE_BitSliceUpdate E a b c) (BitSliceUpdate (mk_bits n x) y (mk_bits k z))"
proof -
  have t: "nat (take_bit m (int y)) = y" using y by (simp add: take_bit_nat_eq_self flip: of_nat_take_bit)
  have "yields (vec R n ((int x AND NOT (push_bit y (mask k))) OR push_bit y (take_bit k (int z)))) (AE_BitSliceUpdate E a b c)"
    using BitSliceUpdate_vec[OF v] n t by simp
  then show ?thesis by (rule refines_bits[where p = "take_bit y x OR push_bit y (take_bit k z) OR push_bit (y + k) (drop_bit (y + k) x)"])
    (auto simp: bit_simps)
qed

end

end
