(* ===== verification/NodeAgreement.thy ===== *)
theory NodeAgreement
  imports NodeEvaluator
begin

text \<open>
  The evaluation of nodes over an abstract evaluator against the handlers of the interpreter, operation by operation, and
  the theorem for all operations. The proofs are in the locale \<open>element_logic\<close> and hold for each of its interpretations.
\<close>

section \<open>Operations with circuits\<close>

lemma compare_agrees:
  assumes "list_at xs 0 = Some a" "list_at xs 1 = Some b" "length xs = 2" "operand_bits node st 0 = Some x" "operand_bits node st 1 = Some y"
    and "node_type node = BitsType 1" and "c a b = Some [e]" "g x y = Some r" "R e r"
  shows "agrees R n (binary_case c xs) (compare_bits g n node st)"
proof -
  have "stands R (mk_bits 1 (of_bool r)) [e]" using assms(9) by (cases r) (simp_all add: stands_mk_bits vec_def)
  then show ?thesis using assms(1-8) sets_bits_bool[OF assms(6), of n r st]
    by (intro agreesI[of _ "[e]" R "mk_bits 1 (of_bool r)"]) (simp_all add: binary_case_def compare_bits_def check_operand_count_def)
qed

text \<open>The handlers of equality compare values of any type; on bits they are comparisons of bits.\<close>

lemma equality_bits:
  assumes "operand_bits node st 0 = Some (mk_bits w x)" "operand_bits node st 1 = Some (mk_bits w y)"
    "operand_value node st 0 = Some (BitsValue (mk_bits w x))" "operand_value node st 1 = Some (BitsValue (mk_bits w y))"
  shows "HandleEq n node st = compare_bits (\<lambda>a b. Some (a = b)) n node st" "HandleNe n node st = compare_bits (\<lambda>a b. Some (a \<noteq> b)) n node st"
  using assms has_type_Value_eq[of "BitsValue (mk_bits w x)" "BitsType w" "BitsValue (mk_bits w y)"]
  by (simp_all add: HandleEq_def HandleNe_def compare_bits_def)

lemma tracked_length: "tracked R f node st xs \<Longrightarrow> length xs = length (operands node)"
  by (simp add: tracked_def)

lemma tracked_type: "tracked R f node st xs \<Longrightarrow> operand_type f node i = Some u \<Longrightarrow> \<exists>w. u = BitsType w"
  by (fastforce simp: tracked_def operand_type_def operand_def bind_ok list_at_eq_Some)

context element_logic
begin

lemma bin_op_agrees:
  assumes L: "bignum_ok L val" and c: "check_bin_op b f node = Some (Inr ())" and l: "length (operands node) = 2" and t: "tracked R f node st xs"
  shows "agrees R n (AbstractEvaluate_bin_op E b xs) (visit_bin_op L b n node st)"
proof (cases "b \<in> {kShll, kShra, kShrl}")
  case True
  then have "HandleShiftOp f node = Some (Inr ())" using c by auto
  then obtain w w' where w: "operand_type f node 0 = Some (BitsType w)" "operand_type f node 1 = Some (BitsType w')"
    by (auto simp: HandleShiftOp_def expectation_defs expectation_iffs)
  obtain x where x: "list_at xs 0 = Some (xs ! 0)" "operand_bits node st 0 = Some (mk_bits w x)" "vec R w (int x) (xs ! 0)" "0 < w" "w < 2 ^ 63"
    using trackedD[OF t w(1)] .
  obtain y where y: "list_at xs 1 = Some (xs ! 1)" "operand_bits node st 1 = Some (mk_bits w' y)" "vec R w' (int y) (xs ! 1)" using trackedD[OF t w(2)] .
  have s: "shift_bits g n node st = binary_bits (\<lambda>a b. g a (uval b)) n node st"
    if "\<And>k. g (mk_bits w x) k = g (mk_bits w x) (min k w)" for g
  proof -
    obtain m where m: "operand node 1 = Some m" "ResolveAsBits st m = Some (mk_bits w' y)" using y(2) by (auto simp: operand_bits_def bind_ok)
    have "unat (of_nat w :: u64) = w" using of_nat_small[of w] x(5) by simp
    then have "unat (word_of_nat (min (take_bit w' y) (unat (of_nat w :: u64))) :: u64) = min (take_bit w' y) w"
      using x(5) by (simp add: unat_word_of_nat_64)
    then show ?thesis using x(2) y(2) m that[of "take_bit w' y"] by (simp add: shift_bits_def binary_bits_def ResolveAsBoundedUint64_def BitsToBoundedUint64_eq)
  qed
  have e: "ShiftLeftLogical (mk_bits w x) k = ShiftLeftLogical (mk_bits w x) (min k w)" "ShiftRightArith (mk_bits w x) k = ShiftRightArith (mk_bits w x) (min k w)"
    "ShiftRightLogical (mk_bits w x) k = ShiftRightLogical (mk_bits w x) (min k w)" for k
    by (simp_all only: ShiftLeftLogical_def ShiftRightArith_def ShiftRightLogical_def mk_bits_fields min.assoc min.idem)
  have "w < 2 ^ 64" using x(5) by simp
  then have r: "refines R (AE_ShiftLeftLogical E (xs ! 0) (xs ! 1)) (ShiftLeftLogical (mk_bits w x) (uval (mk_bits w' y)))"
    "refines R (AE_ShiftRightLogical E (xs ! 0) (xs ! 1)) (ShiftRightLogical (mk_bits w x) (uval (mk_bits w' y)))"
    "refines R (AE_ShiftRightArith E (xs ! 0) (xs ! 1)) (ShiftRightArith (mk_bits w x) (uval (mk_bits w' y)))"
    using refines_shifts[of "mk_bits w x" "mk_bits w' y" "xs ! 0" "xs ! 1"] x(3,4) y(3) by (simp_all add: stands_mk_bits)
  have l2: "length xs = 2" using l t by (simp add: tracked_length)
  show ?thesis using True binary_agrees[OF x(1) y(1) l2 x(2) y(2)] r
    by (auto simp: HandleShll_def HandleShra_def HandleShrl_def s[of ShiftLeftLogical, OF e(1)] s[of ShiftRightArith, OF e(2)] s[of ShiftRightLogical, OF e(3)])
next
  case False
  then have "check_same_bits 2 f node = Some (Inr ())" using c by (cases b) auto
  from check_same_bitsD[OF this] obtain w where w: "\<And>i. i < 2 \<Longrightarrow> operand_type f node i = Some (BitsType w)" by blast
  then have w: "operand_type f node 0 = Some (BitsType w)" "operand_type f node 1 = Some (BitsType w)" by simp_all
  obtain x where x: "list_at xs 0 = Some (xs ! 0)" "operand_bits node st 0 = Some (mk_bits w x)" "vec R w (int x) (xs ! 0)" "0 < w" using trackedD[OF t w(1)] .
  obtain y where y: "list_at xs 1 = Some (xs ! 1)" "operand_bits node st 1 = Some (mk_bits w y)" "vec R w (int y) (xs ! 1)" using trackedD[OF t w(2)] .
  have l2: "length xs = 2" using l t by (simp add: tracked_length)
  have s: "stands R (mk_bits w x) (xs ! 0)" "stands R (mk_bits w y) (xs ! 1)" using x(3) y(3) by (simp_all add: stands_mk_bits)
  note ok = binary_agrees[OF x(1) y(1) l2 x(2) y(2)]
  show ?thesis using False refines_Add[OF L _ _ _ s] refines_Sub[OF L x(3) y(3) x(4)] refines_UDivMod[OF L _ _ s] refines_SDivMod[OF L _ _ _ _ s] x(4)
    by (cases b) (auto simp: HandleAdd_def HandleSub_def HandleUDiv_def HandleSDiv_def HandleUMod_def HandleSMod_def intro!: ok)
qed

lemma compare_op_agrees:
  assumes L: "bignum_ok L val" and c: "check_compare f node = Some (Inr ())" and t: "tracked R f node st xs"
  shows "agrees R n (AbstractEvaluate_compare_op E k xs) (visit_compare_op L k n node st)"
proof -
  have l: "length (operands node) = 2" and t1: "node_type node = BitsType 1" and s: "ExpectOperandsSameBitsType f node = Some (Inr ())"
    using c by (auto simp: check_compare_def expectation_defs expectation_iffs)
  then have ne: "operands node \<noteq> []" by auto
  then obtain u where u: "operand_type f node 0 = Some u" "operand_type f node 1 = Some u"
    using s l by (auto simp: ExpectOperandsSameBitsType_def expectation_defs expectation_iffs)
  obtain w where "u = BitsType w" using tracked_type[OF t u(1)] by blast
  then have w: "operand_type f node 0 = Some (BitsType w)" "operand_type f node 1 = Some (BitsType w)" using u by simp_all
  obtain x where x: "list_at xs 0 = Some (xs ! 0)" "operand_bits node st 0 = Some (mk_bits w x)" "vec R w (int x) (xs ! 0)" "0 < w"
    "operand_value node st 0 = Some (BitsValue (mk_bits w x))" using trackedD[OF t w(1)] .
  obtain y where y: "list_at xs 1 = Some (xs ! 1)" "operand_bits node st 1 = Some (mk_bits w y)" "vec R w (int y) (xs ! 1)"
    "operand_value node st 1 = Some (BitsValue (mk_bits w y))" using trackedD[OF t w(2)] .
  have l2: "length xs = 2" using l t by (simp add: tracked_length)
  have s: "stands R (mk_bits w x) (xs ! 0)" "stands R (mk_bits w y) (xs ! 1)" using x(3) y(3) by (simp_all add: stands_mk_bits)
  note ok = compare_agrees[where R = R and node = node and n = n, OF x(1) y(1) l2 x(2) y(2) t1]
  have v: "vec R w (int x) (xs ! 0)" "vec R w (int y) (xs ! 1)" using x(3) y(3) by simp_all
  have u: "(take_bit w (int a) = take_bit w (int b)) = (mk_bits w a = mk_bits w b)" "(take_bit w (int a) < take_bit w (int b)) = (take_bit w a < take_bit w b)" for a b
    by (simp_all add: mk_bits_eq_iff flip: of_nat_take_bit)
  obtain e where e: "AE_Equals E (xs ! 0) (xs ! 1) = Some e" "R e (mk_bits w x = mk_bits w y)" using Equals_vec[OF v] unfolding u by (auto simp: yields_def)
  obtain d where d: "AE_ULessThan E (xs ! 0) (xs ! 1) = Some d" "R d (take_bit w x < take_bit w y)" using ULessThan_vec[OF v] unfolding u by (auto simp: yields_def)
  obtain d' where d': "AE_ULessThan E (xs ! 1) (xs ! 0) = Some d'" "R d' (take_bit w y < take_bit w x)" using ULessThan_vec[OF v(2,1)] unfolding u by (auto simp: yields_def)
  obtain g where g: "AE_SLessThan E (xs ! 0) (xs ! 1) = Some g" "R g (sval (mk_bits w x) < sval (mk_bits w y))"
    using SLessThan_vec[OF v x(4)] by (auto simp: yields_def sval_signed[OF x(4)])
  obtain g' where g': "AE_SLessThan E (xs ! 1) (xs ! 0) = Some g'" "R g' (sval (mk_bits w y) < sval (mk_bits w x))"
    using SLessThan_vec[OF v(2,1) x(4)] by (auto simp: yields_def sval_signed[OF x(4)])
  note neg = R_Not[OF e(2)] R_Not[OF d(2), unfolded not_less] R_Not[OF d'(2), unfolded not_less] R_Not[OF g(2), unfolded not_less] R_Not[OF g'(2), unfolded not_less]
  note signed = signed_compare_eq[OF L] SLessThan_eq[OF L]
  show ?thesis
    by (cases k; simp only: AbstractEvaluate_compare_op.simps visit_compare_op.simps HandleSGe_def HandleSGt_def HandleSLe_def HandleSLt_def HandleUGe_def HandleUGt_def
        HandleULe_def HandleULt_def equality_bits[OF x(2) y(2) x(5) y(4)]; rule ok;
        (simp only: e(1) d(1) d'(1) g(1) g'(1) bind.bind_lunit signed unsigned_compare_eq)?; (rule refl e(2) d(2) d'(2) g(2) g'(2) neg)?)
qed

end

lemma plain_agrees: "c = Some v \<Longrightarrow> stands R p v \<Longrightarrow> sets_bits n r p \<Longrightarrow> agrees R n (plain_case c) r"
  by (auto simp: plain_case_def intro: agreesI)

lemma check_unary:
  "check_same_bits 1 f node = Some (Inr ()) \<Longrightarrow> length (operands node) = 1 \<and> (\<exists>w. operand_type f node 0 = Some (BitsType w) \<and> node_type node = BitsType w)"
  by (rule check_same_bitsD[of 1 f node]) auto

context element_logic
begin

lemma un_op_agrees:
  assumes L: "bignum_ok L val" and c: "check_un_op u f node = Some (Inr ())" and t: "tracked R f node st xs" and b: "node_type node = BitsType k"
  shows "agrees R n (AbstractEvaluate_un_op E u xs) (visit_un_op L u n node st)"
proof -
  have l: "length (operands node) = 1" "operand_type f node 0 = Some (BitsType k)"
    using c check_unary[of f node] b by (cases u; auto simp: NodeChecker_HandleIdentity_def expectation_defs expectation_iffs)+
  obtain x where x: "list_at xs 0 = Some (xs ! 0)" "operand_bits node st 0 = Some (mk_bits k x)" "vec R k (int x) (xs ! 0)" "0 < k"
    "operand_value node st 0 = Some (BitsValue (mk_bits k x))" using trackedD[OF t l(2)] .
  have l1: "length xs = 1" using l t by (simp add: tracked_length)
  note ok = unary_agrees[where n = n, OF x(1) l1 x(2)]
  show ?thesis
  proof (cases u)
    case kIdentity
    have "agrees R n (unary_case Some xs) (HandleIdentity n node st)"
      using x l1 sets_bits_results(2)[of n node "mk_bits k x" st]
      by (intro agreesI[of _ "xs ! 0" R "mk_bits k x"]) (simp_all add: unary_case_def check_operand_count_def HandleIdentity_def stands_mk_bits)
    then show ?thesis using kIdentity by simp
  next
    case kNeg
    then show ?thesis using refines_Neg[OF L, of "mk_bits k x" "xs ! 0"] x(3,4) by (auto simp: HandleNeg_def stands_mk_bits intro!: ok)
  next
    case kNot
    then show ?thesis using refines_un(1)[OF x(3)] by (auto simp: HandleNot_def simp del: bits_ops_Not_eq intro!: ok)
  next
    case kReverse
    then show ?thesis using refines_un(2)[OF x(3)] by (auto simp: HandleReverse_def simp del: bits_ops_Reverse_eq intro!: ok)
  qed
qed

lemma reduction_op_agrees:
  assumes c: "check_reduction f node = Some (Inr ())" and t: "tracked R f node st xs"
  shows "agrees R n (AbstractEvaluate_reduction_op E r xs) (visit_reduction_op r n node st)"
proof -
  obtain w where l: "length (operands node) = 1" "operand_type f node 0 = Some (BitsType w)"
    using c by (auto simp: check_reduction_def expectation_defs expectation_iffs)
  obtain x where x: "list_at xs 0 = Some (xs ! 0)" "operand_bits node st 0 = Some (mk_bits w x)" "vec R w (int x) (xs ! 0)" using trackedD[OF t l(2)] .
  have ok: "agrees R n (plain_case (do { a \<leftarrow> list_at xs 0; Some (h a) })) (unary_bits g n node st)" if "refines R (Some (h (xs ! 0))) (g (mk_bits w x))" for g h
    using that x(1,2) sets_bits_results(1)[of n node _ st] by (auto simp: refines_def unary_bits_def intro!: plain_agrees)
  show ?thesis
    by (cases r; simp only: AbstractEvaluate_reduction_op.simps visit_reduction_op.simps HandleAndReduce_def HandleOrReduce_def HandleXorReduce_def)
      (rule ok, rule refines_un(3,4,5)[OF x(3)])+
qed

lemma nary_op_agrees:
  assumes c: "check_nary f node = Some (Inr ())" and t: "tracked R f node st xs"
  shows "agrees R n (AbstractEvaluate_nary_op E k xs) (visit_nary_op k n node st)"
proof -
  obtain w where w: "operands node \<noteq> []" "\<And>i. i < length (operands node) \<Longrightarrow> operand_type f node i = Some (BitsType w)"
    using c by (auto simp: check_nary_def expectation_defs expectation_iffs)
  have l: "length xs = length (operands node)" using t by (rule tracked_length)
  have "\<exists>y. node_values st (operands node ! i) = Some (BitsValue (mk_bits w y)) \<and> vec R w (int y) (xs ! i)" if "i < length (operands node)" for i
    using trackedD[OF t w(2)[OF that]] that by (auto simp: operand_value_def operand_def ResolveAsValue_def)
  then obtain y where y: "\<And>i. i < length (operands node) \<Longrightarrow> node_values st (operands node ! i) = Some (BitsValue (mk_bits w (y i))) \<and> vec R w (int (y i)) (xs ! i)" by metis
  define vs where "vs = map y [0..<length (operands node)]"
  have vs: "vs \<noteq> []" "list_all2 (\<lambda>v a. vec R w v a) (map int vs) xs" using y w(1) l by (auto simp: vs_def list_all2_conv_all_nth)
  have "ResolveAsBitsVector st ms = Some (map (mk_bits w) us)" if "list_all2 (\<lambda>m u. node_values st m = Some (BitsValue (mk_bits w u))) ms us" for ms us
    using that by (induction rule: list_all2_induct) (simp_all add: ResolveAsBits_def)
  from this[of "operands node" vs] have r: "ResolveAsBitsVector st (operands node) = Some (map (mk_bits w) vs)" using y by (auto simp: vs_def list_all2_conv_all_nth)
  have xs: "xs \<noteq> []" using l w(1) by auto
  have fold: "bit (fold (\<lambda>y x. g x y) (map int us) (int u)) i \<longleftrightarrow> bit (fold (\<lambda>y x. h x y) us u) i"
    if "\<And>a b. g (int a) (int b) = int (h a b)" for g h us u i using that by (induction us arbitrary: u) simp_all
  have ok: "refines R (AbstractEvaluator.NaryOp e xs) (nary_fold o' (map (mk_bits w) vs))"
    if "\<And>x y e1 d i. R e1 (bit x i) \<Longrightarrow> R d (bit y i) \<Longrightarrow> R (e e1 d) (bit (g x y) i)" "\<And>a b. g (int a) (int b) = int (h a b)"
      "\<And>a b. o' (mk_bits w a) (mk_bits w b) = Some (mk_bits w (h a b))" for e o' g h
  proof (rule refines_bits[OF NaryOp_vec[where f = e and g = g, OF xs vs(2) that(1)]])
    show "nary_fold o' (map (mk_bits w) vs) = Some (mk_bits w (fold (\<lambda>x acc. h acc x) (tl vs) (hd vs)))"
      using nary_fold_eq[where f = o' and g = h and v = "hd vs" and vs = "tl vs", OF that(3)] vs(1) by simp
    show "bit (fold (\<lambda>y x. g x y) (tl (map int vs)) (hd (map int vs))) i = bit (fold (\<lambda>x acc. h acc x) (tl vs) (hd vs)) i" if "i < w" for i
      using fold[where g = g and h = h, OF \<open>\<And>a b. g (int a) (int b) = int (h a b)\<close>] vs(1) by (simp add: hd_map flip: map_tl)
  qed
  have a: "refines R (BitwiseAnd E xs) (NaryAnd (map (mk_bits w) vs))" unfolding BitwiseAnd_def NaryAnd_def
    by (rule ok[where g = "\<lambda>a b. a AND b" and h = "\<lambda>a b. a AND b"]) (simp_all add: R_And bit_and_iff of_nat_and_eq)
  have o: "refines R (BitwiseOr E xs) (NaryOr (map (mk_bits w) vs))" unfolding BitwiseOr_def NaryOr_def
    by (rule ok[where g = "\<lambda>a b. a OR b" and h = "\<lambda>a b. a OR b"]) (simp_all add: R_Or bit_or_iff of_nat_or_eq)
  have x: "refines R (BitwiseXor E xs) (NaryXor (map (mk_bits w) vs))" unfolding BitwiseXor_def NaryXor_def
    by (rule ok[where g = "\<lambda>a b. a XOR b" and h = "\<lambda>a b. a XOR b"]) (use R_Xor in \<open>simp_all add: bit_xor_iff of_nat_xor_eq\<close>)
  have neg: "refines R (do { v \<leftarrow> c; Some (BitwiseNot E v) }) (do { p \<leftarrow> q; bits_ops_Not p })" if rf: "refines R c q" for c q
  proof -
    obtain v p where v: "c = Some v" "q = Some p" "bm_inv p" "stands R p v" using rf by (auto simp: refines_def)
    obtain m z where "p = mk_bits m z" using v(3) by (metis bm_inv_cases)
    then show ?thesis using v refines_un(1)[of m z v] by (simp add: stands_mk_bits del: bits_ops_Not_eq)
  qed
  have go: "agrees R n (plain_case c) (nary_bits g n node st)" if "refines R c (g (map (mk_bits w) vs))" for c g
    using that r sets_bits_results(1)[of n node _ st] by (auto simp: refines_def nary_bits_def intro!: plain_agrees)
  have "NaryNand us = NaryAnd us \<bind> bits_ops_Not" "NaryNor us = NaryOr us \<bind> bits_ops_Not" for us by (simp_all add: NaryNand_def NaryNor_def NaryAnd_def NaryOr_def)
  then have na: "refines R (do { v \<leftarrow> BitwiseAnd E xs; Some (BitwiseNot E v) }) (NaryNand (map (mk_bits w) vs))"
    and no: "refines R (do { v \<leftarrow> BitwiseOr E xs; Some (BitwiseNot E v) }) (NaryNor (map (mk_bits w) vs))" using neg[OF a] neg[OF o] by simp_all
  show ?thesis
    by (cases k) (simp_all only: AbstractEvaluate_nary_op.simps visit_nary_op.simps HandleNaryAnd_def HandleNaryNand_def HandleNaryNor_def HandleNaryOr_def HandleNaryXor_def a o x na no go)
qed

end

text \<open>The bit that a one-hot node sets.\<close>

definition one_hot_index :: "LsbOrMsb \<Rightarrow> nat \<Rightarrow> nat \<Rightarrow> nat" where
  "one_hot_index p w x = (case find (\<lambda>i. bit x (if p = kLsb then i else w - i - 1)) [0..<w] of Some i \<Rightarrow> (if p = kLsb then i else w - i - 1) | None \<Rightarrow> w)"

lemma one_hot_index_less: "one_hot_index p w x < w + 1"
  by (auto simp: one_hot_index_def find_Some_iff split: option.split)

lemma HandleOneHot_eq:
  assumes "operand_bits node st 0 = Some (mk_bits w x)" "node_type node = BitsType (w + 1)"
  shows "HandleOneHot p n node st = SetBitsResult n node (mk_bits (w + 1) (2 ^ one_hot_index p w x)) st"
proof -
  have "for_find (\<lambda>i. do {
            let index = (if p = kLsb then i else bit_count (mk_bits w x) - i - 1);
            y \<leftarrow> Bits_Get (mk_bits w x) index;
            Some (if y then Some index else None) }) [0..<w] =
      Some (map_option (\<lambda>i. if p = kLsb then i else w - i - 1) (find (\<lambda>i. bit x (if p = kLsb then i else w - i - 1)) [0..<w]))"
    by (rule for_find_index) (auto simp: Let_def)
  moreover have "Suc 0 < 2 * 2 ^ w" using one_le_power[of "2::nat" w] by linarith
  ultimately show ?thesis using assms by (auto simp: HandleOneHot_def BitCountOrDie_def Let_def one_hot_index_def push_bit_eq_mult split: option.split)
qed

context element_logic
begin

lemma extend_op_agrees:
  assumes c: "HandleExtendOp m f node = Some (Inr ())" and t: "tracked R f node st xs"
  shows "agrees R n (unary_case (\<lambda>a. do { k \<leftarrow> BitCountOrDie node; AE_SignExtend a k }) xs) (HandleSignExtend m n node st)"
    "agrees R n (unary_case (\<lambda>a. do { k \<leftarrow> BitCountOrDie node; AE_ZeroExtend E a k }) xs) (HandleZeroExtend m n node st)"
proof -
  obtain w where l: "length (operands node) = 1" "operand_type f node 0 = Some (BitsType w)" "w \<le> m" "node_type node = BitsType m"
    using c by (auto simp: HandleExtendOp_def expectation_defs expectation_iffs)
  obtain x where x: "list_at xs 0 = Some (xs ! 0)" "operand_bits node st 0 = Some (mk_bits w x)" "vec R w (int x) (xs ! 0)" "0 < w" using trackedD[OF t l(2)] .
  have l1: "length xs = 1" using l t by (simp add: tracked_length)
  note ok = unary_agrees[where n = n, OF x(1) l1 x(2)]
  show "agrees R n (unary_case (\<lambda>a. do { k \<leftarrow> BitCountOrDie node; AE_SignExtend a k }) xs) (HandleSignExtend m n node st)"
    "agrees R n (unary_case (\<lambda>a. do { k \<leftarrow> BitCountOrDie node; AE_ZeroExtend E a k }) xs) (HandleZeroExtend m n node st)"
    using refines_extend[OF x(3,4) l(3)] l(4)
    by (auto simp: HandleSignExtend_def HandleZeroExtend_def BitCountOrDie_def simp del: SignExtend_eq ZeroExtend_eq intro!: ok)
qed

lemma mul_agrees:
  assumes L: "bignum_ok L val" and c: "check_mul f node = Some (Inr ())" and t: "tracked R f node st xs"
  shows "agrees R n (binary_case (\<lambda>a b. do { k \<leftarrow> BitCountOrDie node; AbstractEvaluate_mul E kSMul k a b }) xs) (HandleSMul L n node st)"
    "agrees R n (binary_case (\<lambda>a b. do { k \<leftarrow> BitCountOrDie node; AbstractEvaluate_mul E kUMul k a b }) xs) (HandleUMul L n node st)"
proof -
  obtain w w' u where l: "operand_type f node 0 = Some (BitsType w)" "operand_type f node 1 = Some (BitsType w')" "node_type node = BitsType u" "length (operands node) = 2"
    using c by (auto simp: check_mul_def expectation_defs expectation_iffs)
  obtain x where x: "list_at xs 0 = Some (xs ! 0)" "operand_bits node st 0 = Some (mk_bits w x)" "vec R w (int x) (xs ! 0)" "0 < w" using trackedD[OF t l(1)] .
  obtain y where y: "list_at xs 1 = Some (xs ! 1)" "operand_bits node st 1 = Some (mk_bits w' y)" "vec R w' (int y) (xs ! 1)" "0 < w'" using trackedD[OF t l(2)] .
  have l2: "length xs = 2" using l t by (simp add: tracked_length)
  define s where "s = (\<lambda>a b. do { result \<leftarrow> bits_ops_SMul L a b;
     if bit_count result > u then Bits_Slice result 0 u else if bit_count result < u then SignExtend result u else Some result })"
  define q where "q = (\<lambda>a b. do { result \<leftarrow> bits_ops_UMul L a b;
     if bit_count result > u then Bits_Slice result 0 u else if bit_count result < u then ZeroExtend result u else Some result })"
  have h: "HandleSMul L n node st = binary_bits s n node st" "HandleUMul L n node st = binary_bits q n node st"
    using l(3) by (simp_all add: HandleSMul_def HandleUMul_def binary_bits_def BitCountOrDie_def s_def q_def)
  have r: "refines R (AbstractEvaluate_mul E kSMul u (xs ! 0) (xs ! 1)) (s (mk_bits w x) (mk_bits w' y))"
    "refines R (AbstractEvaluate_mul E kUMul u (xs ! 0) (xs ! 1)) (q (mk_bits w x) (mk_bits w' y))"
    unfolding s_def q_def using refines_mul[OF L x(3) y(3) x(4) y(4)] by blast+
  have e: "BitCountOrDie node = Some u" using l(3) by (simp add: BitCountOrDie_def)
  show "agrees R n (binary_case (\<lambda>a b. do { k \<leftarrow> BitCountOrDie node; AbstractEvaluate_mul E kSMul k a b }) xs) (HandleSMul L n node st)"
    "agrees R n (binary_case (\<lambda>a b. do { k \<leftarrow> BitCountOrDie node; AbstractEvaluate_mul E kUMul k a b }) xs) (HandleUMul L n node st)"
    unfolding h e bind.bind_lunit by (rule binary_agrees[OF x(1) y(1) l2 x(2) y(2)], rule r)+
qed

lemma bit_slice_agrees:
  assumes c: "NodeChecker_HandleBitSlice s w f node = Some (Inr ())" and s: "s + w < 2 ^ 63" and t: "tracked R f node st xs"
  shows "agrees R n (unary_case (\<lambda>a. AE_BitSlice a s w) xs) (HandleBitSlice s w n node st)"
proof -
  obtain k where l: "length (operands node) = 1" "operand_type f node 0 = Some (BitsType k)" "s + w \<le> k"
    using c int64_wrap_exact[of "int (s + w)"] s by (auto simp: NodeChecker_HandleBitSlice_def expectation_defs expectation_iffs)
  obtain x where x: "list_at xs 0 = Some (xs ! 0)" "operand_bits node st 0 = Some (mk_bits k x)" "vec R k (int x) (xs ! 0)" using trackedD[OF t l(2)] .
  have l1: "length xs = 1" using l t by (simp add: tracked_length)
  show ?thesis unfolding HandleBitSlice_def by (rule unary_agrees[OF x(1) l1 x(2)]) (rule refines_slice[OF x(3) l(3)])
qed

lemma bit_slice_update_agrees:
  assumes c: "NodeChecker_HandleBitSliceUpdate f node = Some (Inr ())" and l: "length (operands node) = 3" and t: "tracked R f node st xs"
  shows "agrees R n (or_return (Some (check_operand_count 3 xs)) (\<lambda>_. plain_case (do {
       a \<leftarrow> list_at xs 0; b \<leftarrow> list_at xs 1; c \<leftarrow> list_at xs 2; AE_BitSliceUpdate E a b c }))) (HandleBitSliceUpdate n node st)"
proof -
  obtain w s u where o: "operand_type f node 0 = Some (BitsType w)" "operand_type f node 1 = Some (BitsType s)" "operand_type f node 2 = Some (BitsType u)"
    using c by (auto simp: NodeChecker_HandleBitSliceUpdate_def expectation_defs expectation_iffs)
  obtain x where x: "list_at xs 0 = Some (xs ! 0)" "operand_bits node st 0 = Some (mk_bits w x)" "vec R w (int x) (xs ! 0)" "w < 2 ^ 63" "x < 2 ^ w" using trackedD[OF t o(1)] .
  obtain y where y: "list_at xs 1 = Some (xs ! 1)" "operand_bits node st 1 = Some (mk_bits s y)" "vec R s (int y) (xs ! 1)" "y < 2 ^ s" using trackedD[OF t o(2)] .
  obtain z where z: "list_at xs 2 = Some (xs ! 2)" "operand_bits node st 2 = Some (mk_bits u z)" "vec R u (int z) (xs ! 2)" using trackedD[OF t o(3)] .
  have w: "0 \<le> sint (of_nat w :: u64)" "unat (of_nat w :: u64) = w" using of_nat_small[of w] x(4) by auto
  have l3: "length xs = 3" using l t by (simp add: tracked_length)
  define p where "p = mk_bits w (take_bit y x OR push_bit y (take_bit u z) OR push_bit (y + u) (drop_bit (y + u) x))"
  obtain v where v: "AE_BitSliceUpdate E (xs ! 0) (xs ! 1) (xs ! 2) = Some v" "stands R p v"
    using refines_slice_update[OF x(3) y(3) z(3) x(4) y(4)] by (auto simp: refines_def p_def)
  have "HandleBitSliceUpdate n node st = SetBitsResult n node p st"
  proof (cases "w \<le> y")
    case True
    have "mk_bits w x = p" unfolding p_def by (rule mk_bits_cong) (use True in \<open>auto simp: bit_simps\<close>)
    moreover have "HandleBitSliceUpdate n node st = SetBitsResult n node (mk_bits w x) st"
      using True x(2) y(2,4) z(2) w by (simp add: HandleBitSliceUpdate_def unsigned_compare_int_eq[OF w(1)] take_bit_nat_eq_self)
    ultimately show ?thesis by simp
  next
    case False
    then have "y < 2 ^ 64" using x(4) by simp
    then have "Bits_ToUint64 (mk_bits s y) = Some (Inr (word_of_nat y))" "unat (word_of_nat y :: u64) = y"
      using y(4) by (simp_all add: Bits_ToUint64_eq take_bit_nat_eq_self unat_word_of_nat_64)
    then show ?thesis using False x(2) y(2,4) z(2) w by (simp add: HandleBitSliceUpdate_def unsigned_compare_int_eq[OF w(1)] take_bit_nat_eq_self p_def)
  qed
  then show ?thesis using l3 x(1) y(1) z(1) v sets_bits_results(1)[of n node p st] by (simp add: check_operand_count_def plain_agrees)
qed

lemma decode_agrees:
  assumes c: "NodeChecker_HandleDecode k f node = Some (Inr ())" and l: "length (operands node) = 1" and t: "tracked R f node st xs"
    and b: "\<And>w. operand_type f node 0 = Some (BitsType w) \<Longrightarrow> w < 64" and k: "k < 2 ^ 63"
  shows "agrees R n (unary_case (\<lambda>a. AE_Decode E a k) xs) (HandleDecode n node st)"
proof -
  obtain w where o: "operand_type f node 0 = Some (BitsType w)" "node_type node = BitsType k" "\<not> (w < 63 \<and> 2 ^ w < k)"
    using c by (auto simp: NodeChecker_HandleDecode_def expectation_defs expectation_iffs)
  obtain x where x: "list_at xs 0 = Some (xs ! 0)" "operand_bits node st 0 = Some (mk_bits w x)" "vec R w (int x) (xs ! 0)" "x < 2 ^ w" using trackedD[OF t o(1)] .
  have w: "w < 64" "k \<le> 2 ^ w"
  proof -
    show "w < 64" using b[OF o(1)] .
    show "k \<le> 2 ^ w"
    proof (cases "w < 63")
      case False
      then have "w = 63" using \<open>w < 64\<close> by simp
      then show ?thesis using k by simp
    qed (use o(3) in simp)
  qed
  have l1: "length xs = 1" using l t by (simp add: tracked_length)
  have "x < 2 ^ 63" using less_le_trans[OF x(4) power_increasing[of w 63]] w(1) by simp
  then have s: "sint (of_nat x :: u64) = int x" using of_nat_small[of x] sint_word_of_int_64[of "int x"] by auto
  have u: "Bits_ToUint64 (mk_bits w x) = Some (Inr (word_of_nat x))" using x(4) \<open>x < 2 ^ 63\<close> by (simp add: Bits_ToUint64_eq take_bit_nat_eq_self)
  have h: "HandleDecode n node st = unary_bits (\<lambda>_. if x < k then Bits_PowerOfTwo x k else Bits_new k) n node st"
    using x(2) o(2) s u by (simp add: HandleDecode_def unary_bits_def BitCountOrDie_def del: Bits_new_eq Bits_PowerOfTwo_eq)
  show ?thesis unfolding h by (rule unary_agrees[OF x(1) l1 x(2)]) (rule refines_decode[OF x(3,4) w(2) k])
qed

lemma encode_agrees:
  assumes c: "NodeChecker_HandleEncode f node = Some (Inr ())" and l: "length (operands node) = 1" and t: "tracked R f node st xs"
  shows "agrees R n (unary_case (AE_Encode E) xs) (HandleEncode n node st)"
proof -
  obtain w where o: "operand_type f node 0 = Some (BitsType w)" "node_type node = BitsType (MinBitCountUnsigned (of_nat w - 1))"
    using c by (auto simp: NodeChecker_HandleEncode_def expectation_defs expectation_iffs)
  obtain x where x: "list_at xs 0 = Some (xs ! 0)" "operand_bits node st 0 = Some (mk_bits w x)" "vec R w (int x) (xs ! 0)" "0 < w" "w < 2 ^ 63" using trackedD[OF t o(1)] .
  have l1: "length xs = 1" using l t by (simp add: tracked_length)
  define k where "k = MinBitCountUnsigned (of_nat w - 1)"
  define e where "e = for_state (\<lambda>i result. do { b \<leftarrow> Bits_Get (mk_bits w x) i; if b then do { u \<leftarrow> UBits (of_nat i) k; bits_ops_Or result u } else Some result }) [0..<w] (mk_bits k 0)"
  have "BitCountOrDie node = Some k" using o(2) by (simp add: BitCountOrDie_def k_def)
  then have h: "HandleEncode n node st = unary_bits (\<lambda>_. e) n node st"
    using x(2) by (simp add: HandleEncode_def unary_bits_def e_def del: Bits_Get_eq UBits_eq)
  have "refines R (AE_Encode E (xs ! 0)) e" using refines_encode[OF x(3,4,5)] by (simp only: e_def k_def)
  then show ?thesis unfolding h by (rule unary_agrees[OF x(1) l1 x(2)])
qed

lemma one_hot_agrees:
  assumes c: "NodeChecker_HandleOneHot f node = Some (Inr ())" and t: "tracked R f node st xs"
  shows "agrees R n (unary_case (if p = kLsb then AE_OneHotLsbToMsb E else AE_OneHotMsbToLsb E) xs) (HandleOneHot p n node st)"
proof -
  obtain w where o: "operand_type f node 0 = Some (BitsType w)" "node_type node = BitsType (w + 1)" "length (operands node) = 1"
    using c by (auto simp: NodeChecker_HandleOneHot_def expectation_defs expectation_iffs)
  obtain x where x: "list_at xs 0 = Some (xs ! 0)" "operand_bits node st 0 = Some (mk_bits w x)" "vec R w (int x) (xs ! 0)" using trackedD[OF t o(1)] .
  have l1: "length xs = 1" using o t by (simp add: tracked_length)
  have h: "HandleOneHot p n node st = unary_bits (\<lambda>_. Some (mk_bits (w + 1) (2 ^ one_hot_index p w x))) n node st"
    using x(2) HandleOneHot_eq[OF x(2) o(2)] by (simp add: unary_bits_def)
  show ?thesis unfolding h by (rule unary_agrees[OF x(1) l1 x(2)]) (use refines_one_hot[OF x(3), of p] in \<open>simp only: one_hot_index_def\<close>)
qed

end

lemma take_bit_nonzero: "take_bit s x \<noteq> 0 \<Longrightarrow> \<exists>i < s. bit x i" for x :: nat
  by (rule ccontr) (auto simp: bit_eq_iff bit_take_bit_iff)

lemma tracked_values:
  assumes "tracked R f node st xs"
  obtains wd y where "\<And>i. i < length (operands node) \<Longrightarrow> GetType f (operands node ! i) = Some (BitsType (wd i)) \<and>
      node_values st (operands node ! i) = Some (BitsValue (mk_bits (wd i) (y i))) \<and> vec R (wd i) (int (y i)) (xs ! i) \<and> 0 < wd i"
proof -
  have "\<forall>i. \<exists>w x. i < length (operands node) \<longrightarrow> GetType f (operands node ! i) = Some (BitsType w) \<and>
      node_values st (operands node ! i) = Some (BitsValue (mk_bits w x)) \<and> vec R w (int x) (xs ! i) \<and> 0 < w"
    using assms unfolding tracked_def by metis
  then show thesis using that by metis
qed

lemma deep_or_loop:
  "\<exists>r. for_state (\<lambda>v result. do { b \<leftarrow> Value_bits v; bits_ops_Or result b }) (map (\<lambda>i. BitsValue (mk_bits u (z i))) is) (mk_bits u a) = Some (mk_bits u r) \<and>
    (\<forall>j. bit r j \<longleftrightarrow> bit a j \<or> (\<exists>i \<in> set is. bit (z i) j))"
proof (induction "is" arbitrary: a)
  case (Cons i ks)
  show ?case using Cons[of "a OR z i"] by (auto simp: bit_or_iff)
qed auto

lemma filter_upt_loop:
  "(\<And>i. i < s \<Longrightarrow> \<exists>m. list_at ms i = Some m \<and> ResolveAsValue st m = Some (v i)) \<Longrightarrow> k \<le> s \<Longrightarrow>
   for_state (\<lambda>i acc. do { b \<leftarrow> Bits_Get (mk_bits s x) i; if b then do { m \<leftarrow> list_at ms i; v \<leftarrow> ResolveAsValue st m; Some (acc @ [v]) } else Some acc }) [0..<k] [] =
     Some (map v (filter (bit x) [0..<k]))"
proof (induction k)
  case (Suc k)
  obtain m where "list_at ms k = Some m" "ResolveAsValue st m = Some (v k)" using Suc.prems(1)[of k] Suc.prems(2) by auto
  then show ?case using Suc by (simp add: for_state_append)
qed simp

context element_logic
begin

lemma concat_vec:
  "list_all2 (\<lambda>b a. bm_inv b \<and> vec R (bit_count b) (int (uval b)) a) bs xs \<Longrightarrow> vec R (sum_list (map bit_count bs)) (int (concat_nat bs)) (concat (rev xs))"
proof (induction rule: list_all2_induct)
  case Nil
  show ?case by (simp add: vec_def)
next
  case (Cons b bs a xs)
  let ?n = "sum_list (map bit_count bs)"
  have inv: "\<forall>b \<in> set bs. bm_inv b" using Cons.hyps(2) by (auto simp: list_all2_conv_all_nth in_set_conv_nth)
  have less: "concat_nat bs < 2 ^ ?n" using concat_nat_less[OF inv] by (simp add: width_sum_def)
  have "vec R (?n + bit_count b) (take_bit ?n (int (concat_nat bs)) OR push_bit ?n (int (uval b))) (concat (rev xs) @ a)"
    using vec_append[OF Cons.IH] Cons.hyps(1) by blast
  moreover have "take_bit ?n (int (concat_nat bs)) OR push_bit ?n (int (uval b)) = int (concat_nat bs) + 2 ^ ?n * int (uval b)"
  proof -
    have "take_bit ?n (int (concat_nat bs)) = int (concat_nat bs)" using less by (simp add: take_bit_nat_eq_self flip: of_nat_take_bit)
    moreover have "take_bit ?n (int (concat_nat bs)) AND push_bit ?n (int (uval b)) = 0" by (auto simp: bit_eq_iff bit_simps)
    ultimately show ?thesis using disjunctive_add_eq_or[of "take_bit ?n (int (concat_nat bs))" "push_bit ?n (int (uval b))"] by (simp add: push_bit_eq_mult mult.commute)
  qed
  ultimately show ?case by (simp add: add.commute)
qed

lemma concat_agrees:
  assumes c: "NodeChecker_HandleConcat f node = Some (Inr ())" and t: "tracked R f node st xs"
  shows "agrees R n (Some (Inr (AE_Concat xs))) (HandleConcat n node st)"
proof -
  obtain wd y where y: "\<And>i. i < length (operands node) \<Longrightarrow> GetType f (operands node ! i) = Some (BitsType (wd i)) \<and>
      node_values st (operands node ! i) = Some (BitsValue (mk_bits (wd i) (y i))) \<and> vec R (wd i) (int (y i)) (xs ! i) \<and> 0 < wd i" using tracked_values[OF t] by blast
  define bs where "bs = map (\<lambda>i. mk_bits (wd i) (y i)) [0..<length (operands node)]"
  have "ResolveAsBitsVector st ms = Some us" if "list_all2 (\<lambda>m u. node_values st m = Some (BitsValue u)) ms us" for ms us
    using that by (induction rule: list_all2_induct) (simp_all add: ResolveAsBits_def)
  from this[of "operands node" bs] have r: "ResolveAsBitsVector st (operands node) = Some bs" using y by (auto simp: bs_def list_all2_conv_all_nth)
  have b: "list_all2 (\<lambda>b a. bm_inv b \<and> vec R (bit_count b) (int (uval b)) a) bs xs"
    using y tracked_length[OF t] by (auto simp: bs_def list_all2_conv_all_nth of_nat_take_bit)
  have "stands R (mk_bits (sum_list (map bit_count bs)) (concat_nat bs)) (AE_Concat xs)" using concat_vec[OF b] by (simp add: stands_mk_bits Concat_eq)
  moreover have "\<forall>b \<in> set bs. bm_inv b" by (auto simp: bs_def)
  ultimately show ?thesis using r sets_bits_results(1)[of n node "mk_bits (sum_list (map bit_count bs)) (concat_nat bs)" st]
    by (intro agreesI) (simp_all add: HandleConcat_def nary_bits_def bits_ops_Concat_eq)
qed

lemma literal_agrees:
  assumes c: "NodeChecker_HandleLiteral v node = Some (Inr ())" and w: "wf_value v" "node_type node = BitsType k" and t: "tracked R f node st xs"
  shows "agrees R n (or_return (Some (check_operand_count 0 xs)) (\<lambda>_. plain_case (case v of BitsValue b \<Rightarrow> BitsToVector E b | _ \<Rightarrow> dh node))) (HandleLiteral v n node st)"
proof -
  have l: "length (operands node) = 0" and ty: "has_type v (BitsType k)" using c w ExpectValueIsType_ok(1)[of v "BitsType k"]
    by (auto simp: NodeChecker_HandleLiteral_def expectation_defs)
  obtain x where v: "v = BitsValue (mk_bits k x)" using ty by (auto simp: has_type_bits)
  obtain a where a: "BitsToVector E (mk_bits k x) = Some a" "vec R k (int x) a" using BitsToVector_vec[of k x] by (auto simp: yields_def)
  have "length xs = 0" using l t by (simp add: tracked_length)
  then show ?thesis using a sets_bits_results(2)[of n node "mk_bits k x" st] unfolding v
    by (intro agreesI[of _ a R "mk_bits k x"]) (simp_all add: check_operand_count_def plain_case_def HandleLiteral_def stands_mk_bits)
qed

end

context element_logic
begin

lemma sel_agrees:
  assumes c: "NodeChecker_HandleSel k d f node = Some (Inr ())" and t: "tracked R f node st xs" and b: "node_type node = BitsType u"
    and len: "length (operands node) = 1 + k + of_bool d" "0 < k" "k < 2 ^ 63" and def: "d \<Longrightarrow> GetType f (last (operands node)) = Some (node_type node)"
  shows "agrees R n (plain_case (AbstractEvaluate_select E d xs)) (HandleSel k d n node st)"
proof -
  obtain wd y where y: "\<And>i. i < length (operands node) \<Longrightarrow> GetType f (operands node ! i) = Some (BitsType (wd i)) \<and>
      node_values st (operands node ! i) = Some (BitsValue (mk_bits (wd i) (y i))) \<and> vec R (wd i) (int (y i)) (xs ! i) \<and> 0 < wd i" using tracked_values[OF t] by blast
  have cs: "length (Select_cases k node) = k" "\<And>i. i < k \<Longrightarrow> Select_cases k node ! i = operands node ! Suc i"
    using len(1) by (auto simp: Select_cases_def nth_tl)
  obtain s where s: "operand_type f node 0 = Some (BitsType s)" "MinBitCountUnsigned (of_nat k - 1) \<le> s"
    "\<not> d \<Longrightarrow> s = MinBitCountUnsigned (of_nat k - 1) \<and> IsPowerOfTwo (of_nat k)" "\<And>m. m \<in> set (Select_cases k node) \<Longrightarrow> GetType f m = Some (BitsType u)"
    using c cs(1) b by (auto simp: NodeChecker_HandleSel_def Let_def expectation_defs expectation_iffs)
  obtain x where x: "list_at xs 0 = Some (xs ! 0)" "operand_bits node st 0 = Some (mk_bits s x)" "vec R s (int x) (xs ! 0)" "x < 2 ^ s" using trackedD[OF t s(1)] .
  have k: "unat (of_nat k :: u64) = k" "unat (of_nat k - 1 :: u64) = k - 1"
    using len(2,3) by (simp_all add: unat_sub_if_size unat_word_of_nat_64 word_size)
  have ks: "k - 1 < 2 ^ s" using s(2) k(2) by (simp add: MinBitCountUnsigned_le_iff)
  have lim: "UBits (of_nat k - 1) s = Some (mk_bits s (k - 1))" using ks k(2) by simp
  have tx: "nat (take_bit s (int x)) = x" "take_bit s (int x) = int x" using x(4) by (simp_all add: take_bit_nat_eq_self flip: of_nat_take_bit)
  have lx: "length xs = 1 + k + of_bool d" using t len(1) by (simp add: tracked_length)
  have wd: "wd (Suc i) = u" "vec R u (int (y (Suc i))) (xs ! Suc i)" "node_values st (Select_cases k node ! i) = Some (BitsValue (mk_bits u (y (Suc i))))" if "i < k" for i
  proof -
    have "Select_cases k node ! i \<in> set (Select_cases k node)" using that cs(1) by simp
    then have "GetType f (operands node ! Suc i) = Some (BitsType u)" using s(4) cs(2)[OF that] by metis
    then show "wd (Suc i) = u" "vec R u (int (y (Suc i))) (xs ! Suc i)" "node_values st (Select_cases k node ! i) = Some (BitsValue (mk_bits u (y (Suc i))))"
      using y[of "Suc i"] that len(1) cs(2)[OF that] by auto
  qed
  have pick: "HandleSel k d n node st = SetValueResult n node (BitsValue (mk_bits u (y (Suc x)))) st" if xk: "x < k"
  proof -
    have "x < 2 ^ 64" using xk len(3) by simp
    then have "Bits_ToUint64 (mk_bits s x) = Some (Inr (word_of_nat x))" "unat (word_of_nat x :: u64) = x"
      using x(4) by (simp_all add: Bits_ToUint64_eq take_bit_nat_eq_self unat_word_of_nat_64)
    moreover have "\<not> k - 1 < x" using xk by simp
    ultimately show ?thesis using x(2,4) lim ks xk cs(1) wd(3)[OF xk] by (simp add: HandleSel_def take_bit_nat_eq_self ResolveAsValue_def del: UBits_eq)
  qed
  have kp: "k \<le> 2 ^ s" "k \<le> 2 ^ 64" using ks len(3) by auto
  show ?thesis
  proof (cases d)
    case False
    then obtain j where j: "k = 2 ^ j" "s = MinBitCountUnsigned (of_nat k - 1)" using s(3) k(1) by (auto simp: IsPowerOfTwo_iff)
    have "s \<le> j" using j len(2) k(2) by (simp add: MinBitCountUnsigned_le_iff)
    then have xk: "x < k" using less_le_trans[OF x(4) power_increasing[of s j 2]] j(1) by simp
    have "yields (vec R u (int (y (Suc x)))) (AE_Select E (xs ! 0) (tl xs) None)"
      using Select_vec[OF x(3), of "tl xs" k u "\<lambda>i. int (y (Suc i))"] wd(2) lx False kp xk tx by (simp add: nth_tl)
    then obtain v where "AE_Select E (xs ! 0) (tl xs) None = Some v" "vec R u (int (y (Suc x))) v" by (auto simp: yields_def)
    then show ?thesis using False x(1) sets_bits_results(2)[of n node "mk_bits u (y (Suc x))" st] unfolding pick[OF xk]
      by (intro plain_agrees) (simp_all add: AbstractEvaluate_select_def stands_mk_bits)
  next
    case True
    define l where "l = length (operands node) - 1"
    have ne: "operands node \<noteq> []" "xs \<noteq> []" using len(1) lx by auto
    have l: "last (operands node) = operands node ! l" "l < length (operands node)" "last xs = xs ! l" using len(1) lx True last_conv_nth[OF ne(1)] last_conv_nth[OF ne(2)] by (simp_all add: l_def)
    have dv: "vec R u (int (y l)) (last xs)" "node_values st (last (operands node)) = Some (BitsValue (mk_bits u (y l)))"
      using y[OF l(2)] def[OF True] l b by auto
    define p where "p = (if x < k then y (Suc x) else y l)"
    have cv: "vec R u (int (y (Suc i))) (take k (tl xs) ! i)" if "i < k" for i using wd(2)[OF that] that lx by (simp add: nth_tl)
    have "yields (vec R u (if take_bit s (int x) < int k then int (y (Suc (nat (take_bit s (int x))))) else int (y l))) (AE_Select E (xs ! 0) (take k (tl xs)) (Some (last xs)))"
      by (rule Select_default_vec[OF x(3) _ cv dv(1) kp len(2)]) (use lx in auto)
    then obtain v where v: "AE_Select E (xs ! 0) (take k (tl xs)) (Some (last xs)) = Some v" "vec R u (int p) v" unfolding tx by (auto simp: yields_def p_def split: if_splits)
    have "HandleSel k d n node st = SetValueResult n node (BitsValue (mk_bits u p)) st"
    proof (cases "x < k")
      case True
      then show ?thesis using pick[OF True] by (simp add: p_def)
    next
      case False
      then have "k - 1 < x" using len(2) by simp
      then show ?thesis using False x(2,4) lim ks cs(1) dv(2) len(1) \<open>d\<close> by (auto simp: HandleSel_def Select_default_def take_bit_nat_eq_self ResolveAsValue_def p_def simp del: UBits_eq)
    qed
    then show ?thesis using True x(1) v lx sets_bits_results(2)[of n node "mk_bits u p" st]
      by (intro plain_agrees) (simp_all add: AbstractEvaluate_select_def stands_mk_bits)
  qed
qed

text \<open>The selects with one selector bit per case. A selector that is a one-hot node is not zero.\<close>

lemma bitwise_sel_args:
  assumes s: "operand_type f node 0 = Some (BitsType (length (operands node) - 1))" and t: "tracked R f node st xs"
    and cs: "\<And>m. m \<in> set (tl (operands node)) \<Longrightarrow> GetType f m = Some (BitsType u)"
  obtains x y where "list_at xs 0 = Some (xs ! 0)" "operand_bits node st 0 = Some (mk_bits (length (operands node) - 1) x)"
    "select_args (length (operands node) - 1) u (bit x) (\<lambda>i. int (y i)) (xs ! 0) (tl xs)"
    "\<And>i. i < length (operands node) - 1 \<Longrightarrow> \<exists>m. list_at (tl (operands node)) i = Some m \<and> ResolveAsValue st m = Some (BitsValue (mk_bits u (y i)))"
proof -
  define s' where "s' = length (operands node) - 1"
  obtain wd y where y: "\<And>i. i < length (operands node) \<Longrightarrow> GetType f (operands node ! i) = Some (BitsType (wd i)) \<and>
      node_values st (operands node ! i) = Some (BitsValue (mk_bits (wd i) (y i))) \<and> vec R (wd i) (int (y i)) (xs ! i) \<and> 0 < wd i" using tracked_values[OF t] by blast
  obtain x where x: "list_at xs 0 = Some (xs ! 0)" "operand_bits node st 0 = Some (mk_bits s' x)" "vec R s' (int x) (xs ! 0)" "0 < s'" using trackedD[OF t s] by (auto simp: s'_def)
  have v: "node_values st (tl (operands node) ! i) = Some (BitsValue (mk_bits u (y (Suc i))))" "vec R u (int (y (Suc i))) (tl xs ! i)" if "i < s'" for i
  proof -
    have i: "Suc i < length (operands node)" "tl (operands node) ! i = operands node ! Suc i" "tl xs ! i = xs ! Suc i"
      using that tracked_length[OF t] by (auto simp: s'_def nth_tl)
    have "tl (operands node) ! i \<in> set (tl (operands node))" using i(1) by (intro nth_mem) simp
    then have "GetType f (operands node ! Suc i) = Some (BitsType u)" using cs i(2) by metis
    then show "node_values st (tl (operands node) ! i) = Some (BitsValue (mk_bits u (y (Suc i))))" "vec R u (int (y (Suc i))) (tl xs ! i)" using y[OF i(1)] i(2,3) by auto
  qed
  have "select_args s' u (bit x) (\<lambda>i. int (y (Suc i))) (xs ! 0) (tl xs)"
    using x(3,4) v(2) tracked_length[OF t] by (auto simp: select_args_def vec_def s'_def)
  then show thesis using that[of x "\<lambda>i. y (Suc i)"] x(1,2) v(1) by (auto simp: s'_def ResolveAsValue_def)
qed

lemma one_hot_sel_agrees:
  assumes c: "NodeChecker_HandleOneHotSel f node = Some (Inr ())" and t: "tracked R f node st xs" and b: "node_type node = BitsType u"
    and cs: "\<And>m. m \<in> set (tl (operands node)) \<Longrightarrow> GetType f m = Some (node_type node)"
    and h: "selector_is_one_hot f node = Some h" "\<And>b. h \<Longrightarrow> operand_bits node st 0 = Some b \<Longrightarrow> uval b \<noteq> 0"
  shows "agrees R n (plain_case (do { s \<leftarrow> list_at xs 0; h \<leftarrow> selector_is_one_hot f node; AE_OneHotSelect E s (tl xs) (\<not> h) })) (HandleOneHotSel n node st)"
proof -
  define s where "s = length (operands node) - 1"
  have ty: "operand_type f node 0 = Some (BitsType (length (operands node) - 1))"
    using c by (auto simp: NodeChecker_HandleOneHotSel_def expectation_defs expectation_iffs)
  obtain x y where x: "list_at xs 0 = Some (xs ! 0)" "operand_bits node st 0 = Some (mk_bits s x)" "select_args s u (bit x) (\<lambda>i. int (y i)) (xs ! 0) (tl xs)"
    "\<And>i. i < s \<Longrightarrow> \<exists>m. list_at (tl (operands node)) i = Some m \<and> ResolveAsValue st m = Some (BitsValue (mk_bits u (y i)))"
    using bitwise_sel_args[OF ty t cs[unfolded b]] unfolding s_def by metis
  have "\<not> h \<or> (\<exists>i < s. bit x i)" using h(2)[OF _ x(2)] take_bit_nonzero[of s x] by auto
  then obtain v where v: "AE_OneHotSelect E (xs ! 0) (tl xs) (\<not> h) = Some v" "length v = u" "\<forall>j < u. R (v ! j) (\<exists>i < s. bit x i \<and> bit (y i) j)"
    using OneHotSelectInternal_ok[OF x(3), of "\<not> h"] by (auto simp: AE_OneHotSelect_def yields_def)
  obtain r where r: "for_state (\<lambda>v result. do { b \<leftarrow> Value_bits v; bits_ops_Or result b }) (map (\<lambda>i. BitsValue (mk_bits u (y i))) (filter (bit x) [0..<s])) (mk_bits u 0) = Some (mk_bits u r)"
    "\<forall>j. bit r j \<longleftrightarrow> (\<exists>i < s. bit x i \<and> bit (y i) j)" using deep_or_loop[of u y "filter (bit x) [0..<s]" 0] by auto
  have "HandleOneHotSel n node st = SetValueResult n node (BitsValue (mk_bits u r)) st"
    using x(2) filter_upt_loop[of s "tl (operands node)" st "\<lambda>i. BitsValue (mk_bits u (y i))" s x, OF x(4)] r(1) b by (simp add: HandleOneHotSel_def del: Bits_Get_eq)
  then show ?thesis using x(1) h(1) v r(2) sets_bits_results(2)[of n node "mk_bits u r" st]
    by (intro plain_agrees[of _ v R "mk_bits u r"]) (simp_all add: stands_mk_bits vec_def)
qed

lemma priority_sel_agrees:
  assumes c: "NodeChecker_HandlePrioritySel f node = Some (Inr ())" and t: "tracked R f node st xs" and b: "node_type node = BitsType u"
    and cs: "\<And>m. m \<in> set (tl (operands node)) \<Longrightarrow> GetType f m = Some (node_type node)"
    and h: "selector_is_one_hot f node = Some h" "\<And>b. h \<Longrightarrow> operand_bits node st 0 = Some b \<Longrightarrow> uval b \<noteq> 0"
  shows "agrees R n (plain_case (do { s \<leftarrow> list_at xs 0; h \<leftarrow> selector_is_one_hot f node; AE_PrioritySelect E s (tl xs) (\<not> h) })) (HandlePrioritySel n node st)"
proof -
  define s where "s = length (operands node) - 1"
  have ty: "operand_type f node 0 = Some (BitsType (length (operands node) - 1))"
    using c by (auto simp: NodeChecker_HandlePrioritySel_def expectation_defs expectation_iffs)
  obtain x y where x: "list_at xs 0 = Some (xs ! 0)" "operand_bits node st 0 = Some (mk_bits s x)" "select_args s u (bit x) (\<lambda>i. int (y i)) (xs ! 0) (tl xs)"
    "\<And>i. i < s \<Longrightarrow> \<exists>m. list_at (tl (operands node)) i = Some m \<and> ResolveAsValue st m = Some (BitsValue (mk_bits u (y i)))"
    using bitwise_sel_args[OF ty t cs[unfolded b]] unfolding s_def by metis
  have "\<not> h \<or> (\<exists>i < s. bit x i)" using h(2)[OF _ x(2)] take_bit_nonzero[of s x] by auto
  then obtain v where v: "AE_PrioritySelect E (xs ! 0) (tl xs) (\<not> h) = Some v" "length v = u" "\<forall>j < u. R (v ! j) (\<exists>i < s. bit x i \<and> (\<forall>l < i. \<not> bit x l) \<and> bit (y i) j)"
    using PrioritySelectInternal_ok[OF x(3), of "\<not> h"] by (auto simp: AE_PrioritySelect_def yields_def)
  define r where "r = (case find (bit x) [0..<s] of Some i \<Rightarrow> y i | None \<Rightarrow> 0)"
  have r: "bit r j \<longleftrightarrow> (\<exists>i < s. bit x i \<and> (\<forall>l < i. \<not> bit x l) \<and> bit (y i) j)" for j
  proof (cases "find (bit x) [0..<s]")
    case None
    then have "r = 0" by (simp add: r_def)
    moreover have "\<forall>i < s. \<not> bit x i" using None by (auto simp: find_None_iff)
    ultimately show ?thesis by auto
  next
    case (Some i)
    then have i: "i < s" "bit x i" "\<forall>l < i. \<not> bit x l" by (auto simp: find_Some_iff)
    have "i' = i" if "bit x i'" "\<forall>l < i'. \<not> bit x l" for i' using that i(2,3) by (meson linorder_neqE_nat)
    moreover have "r = y i" using Some by (simp add: r_def)
    ultimately show ?thesis using i by metis
  qed
  have f: "for_find (\<lambda>i. do { y \<leftarrow> Bits_Get (mk_bits s x) i; Some (if y then Some i else None) }) [0..<s] = Some (find (bit x) [0..<s])"
    by (subst for_find_index[where g = "\<lambda>i. i"]) (auto simp: option.map_ident)
  have "HandlePrioritySel n node st = SetValueResult n node (BitsValue (mk_bits u r)) st"
  proof (cases "find (bit x) [0..<s]")
    case None
    then show ?thesis using x(2) f b by (simp add: HandlePrioritySel_def r_def ZeroOfType_def del: Bits_Get_eq)
  next
    case (Some i)
    then have "i < s" by (auto simp: find_Some_iff)
    then obtain m where "list_at (tl (operands node)) i = Some m" "ResolveAsValue st m = Some (BitsValue (mk_bits u (y i)))" using x(4) by blast
    then show ?thesis using Some x(2) f by (simp add: HandlePrioritySel_def r_def del: Bits_Get_eq)
  qed
  then show ?thesis using x(1) h(1) v r sets_bits_results(2)[of n node "mk_bits u r" st]
    by (intro plain_agrees[of _ v R "mk_bits u r"]) (simp_all add: stands_mk_bits vec_def)
qed

end

section \<open>Every operation\<close>

text \<open>
  What the classes of the nodes establish beyond the verifier's rules: the number of operands of the classes whose rule
  does not count them. Operands that are bits have a positive width, see the lemma at the end of the theory.
\<close>

fun operand_count_ok :: "node_op \<Rightarrow> nat \<Rightarrow> bool" where
  "operand_count_ok (BinOp b) k \<longleftrightarrow> k = 2"
| "operand_count_ok BitSliceUpdateOp k \<longleftrightarrow> k = 3"
| "operand_count_ok (Decode w) k \<longleftrightarrow> k = 1"
| "operand_count_ok Encode k \<longleftrightarrow> k = 1"
| "operand_count_ok op k \<longleftrightarrow> True"

definition analysable :: "ir_function \<Rightarrow> ir_node \<Rightarrow> bool" where
  "analysable f node \<longleftrightarrow> operand_count_ok (node_op node) (length (operands node)) \<and> (\<forall>m \<in> set (operands node). GetType f m \<noteq> Some (BitsType 0))"

text \<open>The values of the nodes so far: a one-hot node is not zero.\<close>

definition one_hot_nonzero :: "ir_function \<Rightarrow> interp_state \<Rightarrow> bool" where
  "one_hot_nonzero f st \<longleftrightarrow> (\<forall>m node b. node_at f m = Some node \<and> is_one_hot (node_op node) \<and> node_values st m = Some (BitsValue b) \<longrightarrow> uval b \<noteq> 0)"

lemma default_agrees:
  assumes "\<exists>v. dh node = Some v \<and> (\<forall>x. stands R (mk_bits k x) v)" "sets_typed n node st r" "node_type node = BitsType k"
  shows "agrees R n (plain_case (dh node)) r"
proof -
  obtain v where v: "dh node = Some v" "\<And>x. stands R (mk_bits k x) v" using assms(1) by blast
  obtain x st' where "r = Some (Inr st')" "node_values st' n = Some (BitsValue (mk_bits k x))"
    using assms(2,3) by (auto simp: sets_typed_def has_type_bits)
  then show ?thesis using v by (intro plain_agrees[of _ v R "mk_bits k x"]) (simp_all add: sets_bits_def)
qed

context element_logic
begin

lemma AbstractEvaluate_agrees:
  assumes L: "bignum_ok L val" and c: "check_op check_stateful pkg f (node_op node) node = Some (Inr ())" and e: "evaluable pkg f node" and a: "analysable f node"
    and b: "node_type node = BitsType k" and t: "tracked R f node st xs" and h: "one_hot_nonzero f st"
    and dh: "\<exists>v. dh node = Some v \<and> (\<forall>x. stands R (mk_bits k x) v)"
    and r: "r = visit_op L pkg call f args (node_op node) n node st" "sets_typed n node st r"
  shows "agrees R n (AbstractEvaluate f E dh node xs) r"
proof -
  have o: "evaluable_op pkg f node (node_op node)" and k: "k < 2 ^ 63" using e b by (auto simp: evaluable_def)
  have n: "operand_count_ok (node_op node) (length (operands node))" using a by (simp add: analysable_def)
  note df = default_agrees[where dh = dh and node = node and k = k, OF dh r(2) b]
  have sel: "\<exists>hh. selector_is_one_hot f node = Some hh \<and> (\<forall>b. hh \<longrightarrow> operand_bits node st 0 = Some b \<longrightarrow> uval b \<noteq> 0)"
    if ot: "operand_type f node 0 = Some u" for u
  proof -
    obtain m s where "operand node 0 = Some m" "node_at f m = Some s" using ot by (auto simp: operand_type_def GetType_def bind_ok)
    then show ?thesis using h by (auto simp: selector_is_one_hot_def operand_bits_def ResolveAsBits_def one_hot_nonzero_def bind_ok elim!: Value_bits.elims)
  qed
  show ?thesis
  proof (cases "node_op node")
    case (BinOp x)
    then show ?thesis using bin_op_agrees[OF L _ _ t, of x n] c n r(1) by (simp add: AbstractEvaluate_def)
  next
    case (CompareOp x)
    then show ?thesis using compare_op_agrees[OF L _ t, of n x] c r(1) by (simp add: AbstractEvaluate_def)
  next
    case (NaryOp x)
    then show ?thesis using nary_op_agrees[OF _ t, of n x] c r(1) by (simp add: AbstractEvaluate_def)
  next
    case (BitwiseReductionOp x)
    then show ?thesis using reduction_op_agrees[OF _ t, of n x] c r(1) by (simp add: AbstractEvaluate_def)
  next
    case (UnOp x)
    then show ?thesis using un_op_agrees[OF L _ t b, of x n] c r(1) by (simp add: AbstractEvaluate_def)
  next
    case (ExtendOp x w)
    then show ?thesis using extend_op_agrees[OF _ t, of w n] c r(1) by (cases x) (simp_all add: AbstractEvaluate_def)
  next
    case (ArithOp x)
    then show ?thesis using mul_agrees[OF L _ t, of n] c r(1) by (cases x) (simp_all add: AbstractEvaluate_def)
  next
    case (PartialProductOp x w)
    then show ?thesis using o b by simp
  next
    case (BitSlice s w)
    then show ?thesis using bit_slice_agrees[OF _ _ t, of s w n] c o r(1) by (simp add: AbstractEvaluate_def)
  next
    case BitSliceUpdateOp
    then show ?thesis using bit_slice_update_agrees[OF _ _ t, of n] c n r(1) by (simp add: AbstractEvaluate_def)
  next
    case Concat
    then show ?thesis using concat_agrees[OF _ t, of n] c r(1) by (simp add: AbstractEvaluate_def)
  next
    case (Decode w)
    have "w = k" using c b Decode by (auto simp: NodeChecker_HandleDecode_def expectation_defs expectation_iffs)
    moreover have "u < 64" if "operand_type f node 0 = Some (BitsType u)" for u using o Decode that by simp
    ultimately show ?thesis using Decode decode_agrees[OF _ _ t, of w n] c n r(1) k by (simp add: AbstractEvaluate_def)
  next
    case Encode
    then show ?thesis using encode_agrees[OF _ _ t, of n] c n r(1) by (simp add: AbstractEvaluate_def)
  next
    case (Literal v)
    then show ?thesis using literal_agrees[OF _ _ b t, of v n dh] c o r(1) by (simp add: AbstractEvaluate_def)
  next
    case (OneHot p)
    then show ?thesis using one_hot_agrees[OF _ t, of n p] c r(1) by (simp add: AbstractEvaluate_def)
  next
    case OneHotSelect
    then obtain u where "operand_type f node 0 = Some u" using c by (auto simp: NodeChecker_HandleOneHotSel_def expectation_defs expectation_iffs)
    then obtain hh where "selector_is_one_hot f node = Some hh" "\<And>b. hh \<Longrightarrow> operand_bits node st 0 = Some b \<Longrightarrow> uval b \<noteq> 0" using sel by blast
    then show ?thesis using OneHotSelect one_hot_sel_agrees[OF _ t b, of hh n] c o r(1) by (simp add: AbstractEvaluate_def all_have_type_def)
  next
    case PrioritySelect
    then obtain u where "operand_type f node 0 = Some u" using c by (auto simp: NodeChecker_HandlePrioritySel_def expectation_defs expectation_iffs)
    then obtain hh where "selector_is_one_hot f node = Some hh" "\<And>b. hh \<Longrightarrow> operand_bits node st 0 = Some b \<Longrightarrow> uval b \<noteq> 0" using sel by blast
    then show ?thesis using PrioritySelect priority_sel_agrees[OF _ t b, of hh n] c o r(1) by (simp add: AbstractEvaluate_def all_have_type_def)
  next
    case (Select j d)
    then show ?thesis using sel_agrees[OF _ t b, of j d n] c o r(1) by (simp add: AbstractEvaluate_def all_have_type_def)
  qed (use df in \<open>simp_all add: AbstractEvaluate_def\<close>)
qed

end

text \<open>The restriction on widths is needed: the negation of a vector without bits aborts, since the literal one does not fit.\<close>

lemma empty_negation_aborts: "AbstractEvaluate_un_op E kNeg [[]] = None"
  by (simp add: unary_case_def check_operand_count_def AE_Neg_def)

lemma empty_negation_evaluates: "bignum_ok L val \<Longrightarrow> bits_ops_Negate L (mk_bits 0 0) = Some (mk_bits 0 0)"
  by (simp add: bits_ops_Negate_eq mk_int_def)

end
