(* ===== verification/QueryEngine.thy ===== *)
theory QueryEngine
  imports NodeAgreement
begin

text \<open>
  \<open>xls/passes/ternary_query_engine.cc\<close> and \<open>query_engine.cc\<close>: what the optimisation passes know statically about the bits
  of the nodes of a function. \<open>Populate\<close> evaluates the nodes in topological order over ternary vectors and merges the
  result into the known bits; the queries read them. The theory shows that the engine never aborts on a function that
  can be evaluated, that the known bits hold in every evaluation of the function, and that the answers of the queries
  are true of the values.
\<close>

section \<open>Population\<close>

datatype ReachedFixpoint = Unchanged | Changed | Unknown

text \<open>The maps of the engine are keyed by the number of the node. \<open>Populate\<close> keeps their keys the same.\<close>

record TernaryQueryEngine =
  known_bits :: "nat \<rightharpoonup> bits"
  bits_values :: "nat \<rightharpoonup> bits"

definition TernaryQueryEngine_new :: TernaryQueryEngine where
  "TernaryQueryEngine_new = \<lparr>known_bits = Map.empty, bits_values = Map.empty\<rparr>"

definition IsExpensiveToEvaluate :: "ir_node \<Rightarrow> bool" where
  "IsExpensiveToEvaluate node \<longleftrightarrow>
     (node_op node = BinOp kShrl \<or> node_op node = BinOp kShra \<or> node_op node = BinOp kShll) \<and> Type_GetFlatBitCount (node_type node) > 256"

definition TernaryVectorToKnownBits :: "TernaryVector \<Rightarrow> bits option" where
  "TernaryVectorToKnownBits ternary_vector = Bits_of_span (map (\<lambda>t. t = kKnownOne \<or> t = kKnownZero) ternary_vector)"

definition TernaryVectorToValueBits :: "TernaryVector \<Rightarrow> bits option" where
  "TernaryVectorToValueBits ternary_vector = Bits_of_span (map (\<lambda>t. t = kKnownOne) ternary_vector)"

definition create_unknown_vector :: "ir_node \<Rightarrow> TernaryVector option" where
  "create_unknown_vector node = do { w \<leftarrow> BitCountOrDie node; Some (replicate w kUnknown) }"

fun any_operand_not_bits :: "ir_function \<Rightarrow> nat list \<Rightarrow> bool option" where
  "any_operand_not_bits f [] = Some False"
| "any_operand_not_bits f (m # ms) = do { t \<leftarrow> GetType f m; if \<not> IsBits t then Some True else any_operand_not_bits f ms }"

type_synonym ternary_values = "nat \<rightharpoonup> TernaryVector"

definition Populate_node :: "ir_function \<Rightarrow> nat \<Rightarrow> ternary_values \<Rightarrow> ternary_values status_or option" where
  "Populate_node f n values = do {
     node \<leftarrow> node_at f n;
     if \<not> IsBits (node_type node) then Some (Inr values)
     else do {
       other \<leftarrow> (if IsExpensiveToEvaluate node then Some True else any_operand_not_bits f (operands node));
       if other then do { v \<leftarrow> create_unknown_vector node; Some (Inr (values(n \<mapsto> v))) }
       else do {
         operand_values \<leftarrow> generate (length (operands node)) (\<lambda>i. values (operands node ! i));
         or_return (AbstractEvaluate f TernaryEvaluator create_unknown_vector node operand_values) (\<lambda>v. Some (Inr (values(n \<mapsto> v)))) } } }"

fun Populate_values :: "ir_function \<Rightarrow> nat list \<Rightarrow> ternary_values \<Rightarrow> ternary_values status_or option" where
  "Populate_values f [] values = Some (Inr values)"
| "Populate_values f (n # ns) values = or_return (Populate_node f n values) (Populate_values f ns)"

definition Populate_merge :: "ir_function \<Rightarrow> ternary_values \<Rightarrow> nat \<Rightarrow> TernaryQueryEngine \<times> ReachedFixpoint \<Rightarrow> (TernaryQueryEngine \<times> ReachedFixpoint) option" where
  "Populate_merge f values n = (\<lambda>(engine, rf). do {
     node \<leftarrow> node_at f n;
     if \<not> IsBits (node_type node) then Some (engine, rf)
     else do {
       v \<leftarrow> values n;
       empty \<leftarrow> Bits_new (length v);
       let engine = (if known_bits engine n = None
         then engine\<lparr>known_bits := (known_bits engine)(n \<mapsto> empty), bits_values := (bits_values engine)(n \<mapsto> empty)\<rparr> else engine);
       known \<leftarrow> known_bits engine n; vals \<leftarrow> bits_values engine n;
       k \<leftarrow> TernaryVectorToKnownBits v; combined_known_bits \<leftarrow> bits_ops_Or known k;
       b \<leftarrow> TernaryVectorToValueBits v; combined_bits_values \<leftarrow> bits_ops_Or vals b;
       same_known \<leftarrow> Bits_eq combined_known_bits known;
       same_values \<leftarrow> Bits_eq combined_bits_values vals;
       Some (engine\<lparr>known_bits := (known_bits engine)(n \<mapsto> combined_known_bits), bits_values := (bits_values engine)(n \<mapsto> combined_bits_values)\<rparr>,
             if \<not> same_known \<or> \<not> same_values then Changed else rf) } })"

definition Populate :: "ir_function \<Rightarrow> TernaryQueryEngine \<Rightarrow> (TernaryQueryEngine \<times> ReachedFixpoint) status_or option" where
  "Populate f engine = do {
     order \<leftarrow> TopoSort f;
     or_return (Populate_values f order Map.empty) (\<lambda>values. do {
       r \<leftarrow> for_state (Populate_merge f values) [0..<length (fn_nodes f)] (engine, Unchanged);
       Some (Inr r) }) }"

section \<open>Queries\<close>

record TreeBitLocation =
  location_node :: nat
  bit_index :: nat
  tree_index :: "nat list"

definition bit_location :: "nat \<Rightarrow> nat \<Rightarrow> TreeBitLocation" where
  "bit_location n i = \<lparr>location_node = n, bit_index = i, tree_index = []\<rparr>"

definition IsTracked :: "TernaryQueryEngine \<Rightarrow> nat \<Rightarrow> bool" where
  "IsTracked q n \<longleftrightarrow> known_bits q n \<noteq> None"

text \<open>The leaf of a type at an index. An index that does not end at a leaf aborts.\<close>

fun leaf_type_at :: "ir_type \<Rightarrow> nat list \<Rightarrow> ir_type option" where
  "leaf_type_at (TupleType ts) (i # is) = (if i < length ts then leaf_type_at (ts ! i) is else None)"
| "leaf_type_at (ArrayType k t) (i # is) = (if i < k then leaf_type_at t is else None)"
| "leaf_type_at (BitsType w) [] = Some (BitsType w)"
| "leaf_type_at TokenType [] = Some TokenType"
| "leaf_type_at _ _ = None"

text \<open>\<open>GetTernary(node).Get(index)\<close>.\<close>

definition GetTernary :: "ir_function \<Rightarrow> TernaryQueryEngine \<Rightarrow> nat \<Rightarrow> nat list \<Rightarrow> TernaryVector option" where
  "GetTernary f q n index = do {
     t \<leftarrow> GetType f n;
     leaf \<leftarrow> leaf_type_at t index;
     if \<not> IsBits t then Some (replicate (Type_GetFlatBitCount leaf) kUnknown)
     else do { k \<leftarrow> known_bits q n; v \<leftarrow> bits_values q n; FromKnownBits k v } }"

definition QueryEngine_IsKnown :: "ir_function \<Rightarrow> TernaryQueryEngine \<Rightarrow> TreeBitLocation \<Rightarrow> bool option" where
  "QueryEngine_IsKnown f q loc =
     (if \<not> IsTracked q (location_node loc) then Some False
      else do { t \<leftarrow> GetTernary f q (location_node loc) (tree_index loc); x \<leftarrow> list_at t (bit_index loc); Some (x \<noteq> kUnknown) })"

definition IsOne :: "ir_function \<Rightarrow> TernaryQueryEngine \<Rightarrow> TreeBitLocation \<Rightarrow> bool option" where
  "IsOne f q loc = do {
     known \<leftarrow> QueryEngine_IsKnown f q loc;
     if \<not> known then Some False
     else do { t \<leftarrow> GetTernary f q (location_node loc) (tree_index loc); b \<leftarrow> ToKnownBitsValues t; Bits_Get b (bit_index loc) } }"

definition IsZero :: "ir_function \<Rightarrow> TernaryQueryEngine \<Rightarrow> TreeBitLocation \<Rightarrow> bool option" where
  "IsZero f q loc = do {
     known \<leftarrow> QueryEngine_IsKnown f q loc;
     if \<not> known then Some False
     else do { t \<leftarrow> GetTernary f q (location_node loc) (tree_index loc); b \<leftarrow> ToKnownBitsValues t; x \<leftarrow> Bits_Get b (bit_index loc); Some (\<not> x) } }"

definition check_bits_node :: "ir_function \<Rightarrow> nat \<Rightarrow> unit option" where
  "check_bits_node f n = do { t \<leftarrow> GetType f n; check (IsBits t) }"

definition IsMsbKnown :: "ir_function \<Rightarrow> TernaryQueryEngine \<Rightarrow> nat \<Rightarrow> bool option" where
  "IsMsbKnown f q n = do {
     check_bits_node f n;
     if \<not> IsTracked q n then Some False
     else do { t \<leftarrow> GetTernary f q n []; b \<leftarrow> ToKnownBits t; Bits_msb b } }"

definition GetKnownMsb :: "ir_function \<Rightarrow> TernaryQueryEngine \<Rightarrow> nat \<Rightarrow> bool option" where
  "GetKnownMsb f q n = do {
     check_bits_node f n;
     k \<leftarrow> IsMsbKnown f q n;
     check k;
     t \<leftarrow> GetTernary f q n []; b \<leftarrow> ToKnownBitsValues t; Bits_msb b }"

definition QueryEngine_IsAllZeros :: "ir_function \<Rightarrow> TernaryQueryEngine \<Rightarrow> nat \<Rightarrow> bool option" where
  "QueryEngine_IsAllZeros f q n = do {
     check_bits_node f n;
     if \<not> IsTracked q n then Some False else do { t \<leftarrow> GetTernary f q n []; Some (list_all (\<lambda>x. x = kKnownZero) t) } }"

definition QueryEngine_IsAllOnes :: "ir_function \<Rightarrow> TernaryQueryEngine \<Rightarrow> nat \<Rightarrow> bool option" where
  "QueryEngine_IsAllOnes f q n = do {
     check_bits_node f n;
     if \<not> IsTracked q n then Some False else do { t \<leftarrow> GetTernary f q n []; Some (list_all (\<lambda>x. x = kKnownOne) t) } }"

definition AllBitsKnown :: "ir_function \<Rightarrow> TernaryQueryEngine \<Rightarrow> nat \<Rightarrow> bool option" where
  "AllBitsKnown f q n = do {
     check_bits_node f n;
     if \<not> IsTracked q n then Some False else do { t \<leftarrow> GetTernary f q n []; Some (list_all (\<lambda>x. x \<noteq> kUnknown) t) } }"

definition node_width :: "ir_function \<Rightarrow> nat \<Rightarrow> nat option" where
  "node_width f n = do { t \<leftarrow> GetType f n; bits_width t }"

definition MaxUnsignedValue :: "ir_function \<Rightarrow> TernaryQueryEngine \<Rightarrow> nat \<Rightarrow> bits option" where
  "MaxUnsignedValue f q n = do {
     check_bits_node f n;
     w \<leftarrow> node_width f n;
     bs \<leftarrow> generate w (\<lambda>i. do { z \<leftarrow> IsZero f q (bit_location n i); Some (\<not> z) });
     Bits_of_span bs }"

definition MinUnsignedValue :: "ir_function \<Rightarrow> TernaryQueryEngine \<Rightarrow> nat \<Rightarrow> bits option" where
  "MinUnsignedValue f q n = do {
     check_bits_node f n;
     w \<leftarrow> node_width f n;
     bs \<leftarrow> generate w (\<lambda>i. IsOne f q (bit_location n i));
     Bits_of_span bs }"

fun maybe_one_count :: "ir_function \<Rightarrow> TernaryQueryEngine \<Rightarrow> TreeBitLocation list \<Rightarrow> nat option" where
  "maybe_one_count f q [] = Some 0"
| "maybe_one_count f q (loc # locs) = do {
     k \<leftarrow> QueryEngine_IsKnown f q loc;
     c \<leftarrow> (if \<not> k then Some True else IsOne f q loc);
     r \<leftarrow> maybe_one_count f q locs;
     Some (of_bool c + r) }"

definition AtMostOneTrue :: "ir_function \<Rightarrow> TernaryQueryEngine \<Rightarrow> TreeBitLocation list \<Rightarrow> bool option" where
  "AtMostOneTrue f q locs = do { c \<leftarrow> maybe_one_count f q locs; Some (c \<le> 1) }"

fun AtLeastOneTrue :: "ir_function \<Rightarrow> TernaryQueryEngine \<Rightarrow> TreeBitLocation list \<Rightarrow> bool option" where
  "AtLeastOneTrue f q [] = Some False"
| "AtLeastOneTrue f q (loc # locs) = do { x \<leftarrow> IsOne f q loc; if x then Some True else AtLeastOneTrue f q locs }"

definition KnownEquals :: "ir_function \<Rightarrow> TernaryQueryEngine \<Rightarrow> TreeBitLocation \<Rightarrow> TreeBitLocation \<Rightarrow> bool option" where
  "KnownEquals f q a b = do {
     ka \<leftarrow> QueryEngine_IsKnown f q a;
     if \<not> ka then Some False
     else do { kb \<leftarrow> QueryEngine_IsKnown f q b; if \<not> kb then Some False else do { x \<leftarrow> IsOne f q a; y \<leftarrow> IsOne f q b; Some (x = y) } } }"

definition KnownNotEquals :: "ir_function \<Rightarrow> TernaryQueryEngine \<Rightarrow> TreeBitLocation \<Rightarrow> TreeBitLocation \<Rightarrow> bool option" where
  "KnownNotEquals f q a b = do {
     ka \<leftarrow> QueryEngine_IsKnown f q a;
     if \<not> ka then Some False
     else do { kb \<leftarrow> QueryEngine_IsKnown f q b; if \<not> kb then Some False else do { x \<leftarrow> IsOne f q a; y \<leftarrow> IsOne f q b; Some (x \<noteq> y) } } }"

text \<open>The overloads of \<open>ToTreeBitLocations\<close>: all bits of a node, and the bits of several one-bit nodes.\<close>

definition ToTreeBitLocations :: "ir_function \<Rightarrow> nat \<Rightarrow> TreeBitLocation list option" where
  "ToTreeBitLocations f n = do { check_bits_node f n; w \<leftarrow> node_width f n; Some (map (bit_location n) [0..<w]) }"

fun ToTreeBitLocations_nodes :: "ir_function \<Rightarrow> nat list \<Rightarrow> TreeBitLocation list option" where
  "ToTreeBitLocations_nodes f [] = Some []"
| "ToTreeBitLocations_nodes f (n # ns) = do {
     check_bits_node f n;
     w \<leftarrow> node_width f n;
     check (w = 1);
     locs \<leftarrow> ToTreeBitLocations_nodes f ns;
     Some (bit_location n 0 # locs) }"

definition AtMostOneNodeTrue :: "ir_function \<Rightarrow> TernaryQueryEngine \<Rightarrow> nat list \<Rightarrow> bool option" where
  "AtMostOneNodeTrue f q preds = do { locs \<leftarrow> ToTreeBitLocations_nodes f preds; AtMostOneTrue f q locs }"

definition AtMostOneBitTrue :: "ir_function \<Rightarrow> TernaryQueryEngine \<Rightarrow> nat \<Rightarrow> bool option" where
  "AtMostOneBitTrue f q n = do { locs \<leftarrow> ToTreeBitLocations f n; AtMostOneTrue f q locs }"

definition AtLeastOneNodeTrue :: "ir_function \<Rightarrow> TernaryQueryEngine \<Rightarrow> nat list \<Rightarrow> bool option" where
  "AtLeastOneNodeTrue f q preds = do { locs \<leftarrow> ToTreeBitLocations_nodes f preds; AtLeastOneTrue f q locs }"

definition AtLeastOneBitTrue :: "ir_function \<Rightarrow> TernaryQueryEngine \<Rightarrow> nat \<Rightarrow> bool option" where
  "AtLeastOneBitTrue f q n = do { locs \<leftarrow> ToTreeBitLocations f n; AtLeastOneTrue f q locs }"

definition get_known_bit :: "ir_function \<Rightarrow> TernaryQueryEngine \<Rightarrow> nat \<Rightarrow> nat \<Rightarrow> TernaryValue option" where
  "get_known_bit f q n index = do {
     w \<leftarrow> node_width f n;
     if index \<ge> w then Some kKnownZero
     else do {
       z \<leftarrow> IsZero f q (bit_location n index);
       if z then Some kKnownZero
       else do { x \<leftarrow> IsOne f q (bit_location n index); Some (if x then kKnownOne else kUnknown) } } }"

definition NodesKnownUnsignedNotEquals :: "ir_function \<Rightarrow> TernaryQueryEngine \<Rightarrow> nat \<Rightarrow> nat \<Rightarrow> bool option" where
  "NodesKnownUnsignedNotEquals f q a b = do {
     check_bits_node f a; check_bits_node f b;
     wa \<leftarrow> node_width f a; wb \<leftarrow> node_width f b;
     r \<leftarrow> for_find (\<lambda>i. do {
         a_bit \<leftarrow> get_known_bit f q a i; b_bit \<leftarrow> get_known_bit f q b i;
         Some (if a_bit \<noteq> b_bit \<and> a_bit \<noteq> kUnknown \<and> b_bit \<noteq> kUnknown then Some () else None) }) [0..<max wa wb];
     Some (r \<noteq> None) }"

definition NodesKnownUnsignedEquals :: "ir_function \<Rightarrow> TernaryQueryEngine \<Rightarrow> nat \<Rightarrow> nat \<Rightarrow> bool option" where
  "NodesKnownUnsignedEquals f q a b = do {
     check_bits_node f a; check_bits_node f b;
     a_ternary \<leftarrow> GetTernary f q a []; b_ternary \<leftarrow> GetTernary f q b [];
     if a = b then Some True
     else do {
       ka \<leftarrow> AllBitsKnown f q a;
       if \<not> ka then Some False
       else do {
         kb \<leftarrow> AllBitsKnown f q b;
         if \<not> kb then Some False
         else do { x \<leftarrow> ToKnownBitsValues a_ternary; y \<leftarrow> ToKnownBitsValues b_ternary; UEqual x y } } } }"

definition QueryEngine_ToString :: "ir_function \<Rightarrow> TernaryQueryEngine \<Rightarrow> nat \<Rightarrow> string option" where
  "QueryEngine_ToString f q n = do { check_bits_node f n; check (IsTracked q n); t \<leftarrow> GetTernary f q n []; Some (ternary_ToString t) }"

text \<open>Ternary values say nothing about implications.\<close>

definition Implies :: "TernaryQueryEngine \<Rightarrow> TreeBitLocation \<Rightarrow> TreeBitLocation \<Rightarrow> bool" where
  "Implies q a b = False"

definition ImpliedNodeValue :: "TernaryQueryEngine \<Rightarrow> (TreeBitLocation \<times> bool) list \<Rightarrow> nat \<Rightarrow> bits option" where
  "ImpliedNodeValue q predicate_bit_values n = None"

section \<open>Evaluations\<close>

text \<open>
  \<open>justified\<close>: the value of a node in the final state is the one its handler sets in a state that has the final values of
  the operands. \<open>evaluation\<close>: what holds of the state at the end of an evaluation of the function.
\<close>

definition justified :: "('n, 'z) bignum_lib_scheme \<Rightarrow> package \<Rightarrow> interpret_call \<Rightarrow> ir_function \<Rightarrow> ir_value list \<Rightarrow> interp_state \<Rightarrow> nat \<Rightarrow> bool" where
  "justified L pkg call f args st n \<longleftrightarrow> (let node = fn_nodes f ! n in
     \<exists>s. operands_typed f node s \<and> one_hot_nonzero f s \<and> (\<forall>m \<in> set (operands node). node_values s m = node_values st m) \<and>
       sets_typed n node s (visit_op L pkg call f args (node_op node) n node s) \<and>
       (\<forall>s'. visit_op L pkg call f args (node_op node) n node s = Some (Inr s') \<longrightarrow> node_values s' n = node_values st n))"

definition evaluation :: "('n, 'z) bignum_lib_scheme \<Rightarrow> package \<Rightarrow> interpret_call \<Rightarrow> ir_function \<Rightarrow> ir_value list \<Rightarrow> nat list \<Rightarrow> interp_state \<Rightarrow> bool" where
  "evaluation L pkg call f args vs st \<longleftrightarrow> visited_typed f vs st \<and> one_hot_nonzero f st \<and>
     (\<forall>n \<in> set vs. n < length (fn_nodes f) \<and> set (operands (fn_nodes f ! n)) \<subseteq> set vs \<and> justified L pkg call f args st n)"

lemma justified_update:
  assumes "justified L pkg call f args st n" "node_values st' = (node_values st)(k \<mapsto> v)" "k \<noteq> n" "k \<notin> set (operands (fn_nodes f ! n))"
  shows "justified L pkg call f args st' n"
  using assms unfolding justified_def Let_def by (metis fun_upd_apply)

lemma one_hot_value:
  assumes c: "NodeChecker_HandleOneHot f node = Some (Inr ())" and st: "operands_typed f node st"
    and r: "HandleOneHot p n node st = Some (Inr st')" "node_values st' n = Some (BitsValue b)"
  shows "uval b \<noteq> 0"
proof -
  obtain w where o: "operand_type f node 0 = Some (BitsType w)" "node_type node = BitsType (w + 1)"
    using c by (auto simp: NodeChecker_HandleOneHot_def expectation_defs expectation_iffs)
  obtain x where x: "operand_bits node st 0 = Some (mk_bits w x)" using operand_bitsD[OF st o(1)] by blast
  have "sets_bits n (HandleOneHot p n node st) (mk_bits (w + 1) (2 ^ one_hot_index p w x))"
    unfolding HandleOneHot_eq[OF x o(2)] by (rule sets_bits_results(1))
  then have "b = mk_bits (w + 1) (2 ^ one_hot_index p w x)" using r by (simp add: sets_bits_def)
  then show ?thesis using one_hot_index_less[of p w x] by (simp add: take_bit_nat_eq_self)
qed

lemma one_hot_nonzero_update:
  assumes h: "one_hot_nonzero f st" and u: "node_values st' = (node_values st)(n \<mapsto> v)"
    and n: "node_at f n = Some node" "\<And>b. is_one_hot (node_op node) \<Longrightarrow> v = BitsValue b \<Longrightarrow> uval b \<noteq> 0"
  shows "one_hot_nonzero f st'"
  unfolding one_hot_nonzero_def
proof (intro allI impI)
  fix m nd b assume a: "node_at f m = Some nd \<and> is_one_hot (node_op nd) \<and> node_values st' m = Some (BitsValue b)"
  show "uval b \<noteq> 0"
  proof (cases "m = n")
    case True
    then show ?thesis using a u n by simp
  next
    case False
    then show ?thesis using a u h unfolding one_hot_nonzero_def by (metis fun_upd_apply)
  qed
qed

context typed_calls
begin

lemma evaluation_step:
  assumes L: "bignum_ok L val" and f: "VerifyFunction check_stateful pkg f = Some (Inr ())" "\<forall>node \<in> set (fn_nodes f). evaluable pkg f node \<and> (\<forall>g \<in> set (callees (node_op node)). callable g)" and args: "args_typed f args"
    and n: "n < length (fn_nodes f)" "n \<notin> set vs" "set (operands (fn_nodes f ! n)) \<subseteq> set vs" and st: "evaluation L pkg call f args vs st"
  shows "\<exists>st'. visit_node L pkg call f args n st = Some (Inr st') \<and> evaluation L pkg call f args (n # vs) st'"
proof -
  define node where "node = fn_nodes f ! n"
  have t: "visited_typed f vs st" using st by (simp add: evaluation_def)
  have o: "operands_typed f node st" and s: "sets_typed n node st (visit_op L pkg call f args (node_op node) n node st)"
    using visit_sets[OF L f args n t] by (simp_all add: node_def)
  obtain v st' where v: "visit_op L pkg call f args (node_op node) n node st = Some (Inr st')" "has_type v (node_type node)" "node_values st' = (node_values st)(n \<mapsto> v)"
    using s by (auto simp: sets_typed_def)
  have at: "node_at f n = Some node" "node \<in> set (fn_nodes f)" using n(1) by (auto simp: node_at_def node_def)
  have "uval b \<noteq> 0" if oh: "is_one_hot (node_op node)" "v = BitsValue b" for b
  proof -
    obtain p where p: "node_op node = OneHot p" using oh(1) by (cases "node_op node") auto
    have "NodeChecker_HandleOneHot f node = Some (Inr ())" using VerifyFunctionD(3)[OF f(1) at(2)] p by simp
    from one_hot_value[OF this o] show ?thesis using v p oh(2) by simp
  qed
  then have h: "one_hot_nonzero f st'" using st one_hot_nonzero_update[OF _ v(3) at(1)] by (simp add: evaluation_def)
  have no: "n \<notin> set (operands node)" using n(2,3) by (auto simp: node_def)
  have "justified L pkg call f args st' n"
    unfolding justified_def Let_def node_def[symmetric] using o st no v s by (intro exI[of _ st]) (auto simp: evaluation_def)
  moreover have "justified L pkg call f args st' m" if "m \<in> set vs" for m
    using that st n(2) by (intro justified_update[OF _ v(3)]) (auto simp: evaluation_def)
  moreover have "visited_typed f (n # vs) st'" using t v n(1) by (auto simp: visited_typed_def node_def)
  ultimately have "evaluation L pkg call f args (n # vs) st'" using h st n by (auto simp: evaluation_def)
  then show ?thesis using v(1) at(1) by (simp add: visit_node_def)
qed

lemma evaluation_exists:
  assumes L: "bignum_ok L val" and f: "VerifyFunction check_stateful pkg f = Some (Inr ())" "\<forall>node \<in> set (fn_nodes f). evaluable pkg f node \<and> (\<forall>g \<in> set (callees (node_op node)). callable g)" and args: "args_typed f args"
  obtains st vs where "FunctionBase_Accept (visit_node L pkg call f args) f \<lparr>node_values = Map.empty, events = no_events\<rparr> = Some (Inr st)"
    "evaluation L pkg call f args vs st" "{0..<length (fn_nodes f)} \<subseteq> set vs"
proof -
  have "evaluation L pkg call f args [] \<lparr>node_values = Map.empty, events = no_events\<rparr>" by (simp add: evaluation_def visited_typed_def one_hot_nonzero_def)
  from FunctionBase_Accept_sim[where visit = "visit_node L pkg call f args" and I = "evaluation L pkg call f args", OF VerifyFunctionD(1)[OF f(1)] evaluation_step[OF L f args] this]
  show thesis using that by blast
qed

end

section \<open>Vectors that stand for the values\<close>

text \<open>\<open>good f st D values\<close>: the vectors of the nodes in \<open>D\<close> stand for the values of an evaluation.\<close>

definition good :: "ir_function \<Rightarrow> interp_state \<Rightarrow> nat set \<Rightarrow> ternary_values \<Rightarrow> bool" where
  "good f st D values \<longleftrightarrow> (\<forall>n \<in> D. \<forall>w. node_type (fn_nodes f ! n) = BitsType w \<longrightarrow>
     (\<exists>v x. values n = Some v \<and> node_values st n = Some (BitsValue (mk_bits w x)) \<and> vec ternary_covers w (int x) v))"

lemma unknown_covers: "vec ternary_covers w x (replicate w kUnknown)"
  by (simp add: vec_def)

lemma any_operand_not_bits_eq:
  "set ms \<subseteq> {0..<length (fn_nodes f)} \<Longrightarrow> any_operand_not_bits f ms = Some (\<exists>m \<in> set ms. \<not> IsBits (node_type (fn_nodes f ! m)))"
  by (induction ms) (auto simp: GetType_nth)

lemma generate_total: "(\<And>i. i < n \<Longrightarrow> g i = Some (h i)) \<Longrightarrow> generate n g = Some (map h [0..<n])"
  by (rule generate_eq)

lemma evaluation_value:
  assumes "evaluation L pkg call f args vs st" "{0..<length (fn_nodes f)} \<subseteq> set vs" "n < length (fn_nodes f)" "node_type (fn_nodes f ! n) = BitsType w"
  obtains x where "node_values st n = Some (BitsValue (mk_bits w x))" "x < 2 ^ w"
proof -
  have "n \<in> set vs" using assms(2,3) by auto
  then obtain v where "node_values st n = Some v" "has_type v (BitsType w)" using assms(1,3,4) unfolding evaluation_def visited_typed_def by metis
  then show thesis using that by (auto simp: has_type_bits)
qed

lemma Populate_node_good:
  assumes L: "bignum_ok L val" and f: "VerifyFunction check_stateful pkg f = Some (Inr ())" "\<forall>node \<in> set (fn_nodes f). evaluable pkg f node \<and> analysable f node"
    and e: "evaluation L pkg call f args vs st" "{0..<length (fn_nodes f)} \<subseteq> set vs"
    and n: "n < length (fn_nodes f)" "set (operands (fn_nodes f ! n)) \<subseteq> D" and g: "good f st D values"
  shows "\<exists>values'. Populate_node f n values = Some (Inr values') \<and> good f st (insert n D) values'"
proof -
  define node where "node = fn_nodes f ! n"
  have at: "node_at f n = Some node" "node \<in> set (fn_nodes f)" using n(1) by (auto simp: node_at_def node_def)
  have ops: "set (operands node) \<subseteq> {0..<length (fn_nodes f)}" using VerifyFunctionD(2)[OF f(1) at(2)] .
  show ?thesis
  proof (cases "IsBits (node_type node)")
    case False
    then show ?thesis using at(1) g by (auto simp: Populate_node_def good_def node_def)
  next
    case True
    then obtain w where w: "node_type node = BitsType w" by (auto simp: IsBits_iff)
    have wn: "node_type (fn_nodes f ! n) = BitsType w" using w by (simp add: node_def)
    obtain x where x: "node_values st n = Some (BitsValue (mk_bits w x))" "x < 2 ^ w" using evaluation_value[OF e n(1) wn] .
    have upd: "good f st (insert n D) (values(n \<mapsto> v))" if "vec ternary_covers w (int x) v" for v
      using that g x(1) wn by (auto simp: good_def)
    have u: "create_unknown_vector node = Some (replicate w kUnknown)" using w by (simp add: create_unknown_vector_def BitCountOrDie_def)
    show ?thesis
    proof (cases "IsExpensiveToEvaluate node \<or> (\<exists>m \<in> set (operands node). \<not> IsBits (node_type (fn_nodes f ! m)))")
      case True
      then have "(if IsExpensiveToEvaluate node then Some True else any_operand_not_bits f (operands node)) = Some True"
        using any_operand_not_bits_eq[OF ops] by auto
      then show ?thesis using at(1) \<open>IsBits (node_type node)\<close> u upd[OF unknown_covers] by (simp add: Populate_node_def)
    next
      case False
      then have o: "(if IsExpensiveToEvaluate node then Some True else any_operand_not_bits f (operands node)) = Some False"
        using any_operand_not_bits_eq[OF ops] by auto
      define xs where "xs = map (\<lambda>i. the (values (operands node ! i))) [0..<length (operands node)]"
      have "n \<in> set vs" using e(2) n(1) by auto
      then have "justified L pkg call f args st n" using e(1) by (simp add: evaluation_def)
      from this[unfolded justified_def Let_def, folded node_def] obtain s where s: "operands_typed f node s" "one_hot_nonzero f s" "\<forall>m \<in> set (operands node). node_values s m = node_values st m"
        "sets_typed n node s (visit_op L pkg call f args (node_op node) n node s)"
        "\<forall>s'. visit_op L pkg call f args (node_op node) n node s = Some (Inr s') \<longrightarrow> node_values s' n = node_values st n" by blast
      have op: "\<exists>k y v. 0 < k \<and> k < 2 ^ 63 \<and> y < 2 ^ k \<and> GetType f m = Some (BitsType k) \<and> node_values s m = Some (BitsValue (mk_bits k y)) \<and>
          values m = Some v \<and> vec ternary_covers k (int y) v" if m: "m \<in> set (operands node)" for m
      proof -
        have mN: "m < length (fn_nodes f)" "m \<in> D" using m ops n(2) by (auto simp: node_def)
        have "IsBits (node_type (fn_nodes f ! m))" using False m by auto
        then obtain k where k: "node_type (fn_nodes f ! m) = BitsType k" by (auto simp: IsBits_iff)
        obtain y where y: "node_values st m = Some (BitsValue (mk_bits k y))" "y < 2 ^ k" using evaluation_value[OF e mN(1) k] .
        have t: "GetType f m = Some (BitsType k)" using GetType_nth[OF mN(1)] k by simp
        obtain v z where v: "values m = Some v" "node_values st m = Some (BitsValue (mk_bits k z))" "vec ternary_covers k (int z) v"
          using g mN(2) k unfolding good_def by blast
        have "mk_bits k z = mk_bits k y" using v(2) y(1) by simp
        then have "vec ternary_covers k (int y) v" using v(3) vec_cong[of k "int z" "int y" ternary_covers v] by (simp add: mk_bits_eq_iff flip: of_nat_take_bit)
        moreover have "0 < k" using f(2) at(2) m t by (fastforce simp: analysable_def)
        moreover have "k < 2 ^ 63"
        proof -
          have "evaluable pkg f (fn_nodes f ! m)" using f(2) mN(1) by auto
          then show ?thesis by (simp add: evaluable_def k)
        qed
        ultimately show ?thesis using y t v(1) s(3) m by auto
      qed
      have gen: "generate (length (operands node)) (\<lambda>i. values (operands node ! i)) = Some xs"
        unfolding xs_def by (rule generate_total) (use op[OF nth_mem] in fastforce)
      have tr: "tracked ternary_covers f node s xs" unfolding tracked_def
      proof (intro conjI allI impI)
        fix i assume i: "i < length xs"
        then have "operands node ! i \<in> set (operands node)" by (simp add: xs_def)
        from op[OF this] obtain k y v where "0 < k" "k < 2 ^ 63" "y < 2 ^ k" "GetType f (operands node ! i) = Some (BitsType k)"
          "node_values s (operands node ! i) = Some (BitsValue (mk_bits k y))" "values (operands node ! i) = Some v" "vec ternary_covers k (int y) v" by blast
        moreover have "xs ! i = the (values (operands node ! i))" using i by (simp add: xs_def)
        ultimately show "\<exists>k y. 0 < k \<and> k < 2 ^ 63 \<and> y < 2 ^ k \<and> GetType f (operands node ! i) = Some (BitsType k) \<and>
            node_values s (operands node ! i) = Some (BitsValue (mk_bits k y)) \<and> vec ternary_covers k (int y) (xs ! i)"
          by (intro exI[of _ k] exI[of _ y]) simp
      qed (simp add: xs_def)
      have dh: "\<exists>v. create_unknown_vector node = Some v \<and> (\<forall>x. stands ternary_covers (mk_bits w x) v)"
        using u unknown_covers by (simp add: stands_mk_bits)
      have ea: "evaluable pkg f node" "analysable f node" using f(2) at(2) by auto
      have "agrees ternary_covers n (AbstractEvaluate f TernaryEvaluator create_unknown_vector node xs) (visit_op L pkg call f args (node_op node) n node s)"
        by (rule ternaries.AbstractEvaluate_agrees[where dh = create_unknown_vector, OF L VerifyFunctionD(3)[OF f(1) at(2)] ea w tr s(2) dh refl s(4)])
      then obtain v p where v: "AbstractEvaluate f TernaryEvaluator create_unknown_vector node xs = Some (Inr v)"
        "sets_bits n (visit_op L pkg call f args (node_op node) n node s) p" "stands ternary_covers p v" by (auto simp: agrees_def)
      obtain s' where "visit_op L pkg call f args (node_op node) n node s = Some (Inr s')" using s(4) by (auto simp: sets_typed_def)
      then have "p = mk_bits w x" using v(2) s(5) x(1) by (simp add: sets_bits_def)
      then have "vec ternary_covers w (int x) v" using v(3) by (simp add: stands_mk_bits)
      then show ?thesis using at(1) \<open>IsBits (node_type node)\<close> o gen v(1) upd by (simp add: Populate_node_def)
    qed
  qed
qed

lemma Populate_values_good:
  assumes L: "bignum_ok L val" and f: "VerifyFunction check_stateful pkg f = Some (Inr ())" "\<forall>node \<in> set (fn_nodes f). evaluable pkg f node \<and> analysable f node"
    and e: "evaluation L pkg call f args vs st" "{0..<length (fn_nodes f)} \<subseteq> set vs"
  shows "set ns \<subseteq> {0..<length (fn_nodes f)} \<Longrightarrow> (\<And>i. i < length ns \<Longrightarrow> set (operands (fn_nodes f ! (ns ! i))) \<subseteq> D \<union> set (take i ns)) \<Longrightarrow> good f st D values \<Longrightarrow>
    \<exists>values'. Populate_values f ns values = Some (Inr values') \<and> good f st (D \<union> set ns) values'"
proof (induction ns arbitrary: D "values")
  case (Cons n ns)
  obtain v1 where v1: "Populate_node f n values = Some (Inr v1)" "good f st (insert n D) v1"
    using Populate_node_good[OF L f e, of n D "values"] Cons.prems(1,3) Cons.prems(2)[of 0] by auto
  have "set (operands (fn_nodes f ! (ns ! i))) \<subseteq> insert n D \<union> set (take i ns)" if "i < length ns" for i using Cons.prems(2)[of "Suc i"] that by auto
  then obtain v2 where "Populate_values f ns v1 = Some (Inr v2)" "good f st (insert n D \<union> set ns) v2" using Cons.IH[of "insert n D" v1] Cons.prems(1) v1(2) by auto
  then show ?case using v1(1) by simp
qed simp

section \<open>The merge into the known bits\<close>

abbreviation known_mask :: "TernaryVector \<Rightarrow> nat" where
  "known_mask v \<equiv> horner_sum of_bool 2 (map (\<lambda>t. t \<noteq> kUnknown) v)"

abbreviation ones_mask :: "TernaryVector \<Rightarrow> nat" where
  "ones_mask v \<equiv> horner_sum of_bool 2 (map (\<lambda>t. t = kKnownOne) v)"

lemma TernaryVector_masks:
  "TernaryVectorToKnownBits v = Some (mk_bits (length v) (known_mask v))"
  "TernaryVectorToValueBits v = Some (mk_bits (length v) (ones_mask v))"
proof -
  have "(\<lambda>t. t = kKnownOne \<or> t = kKnownZero) = (\<lambda>t. t \<noteq> kUnknown)" by (rule ext, rename_tac t, case_tac t) auto
  then show "TernaryVectorToKnownBits v = Some (mk_bits (length v) (known_mask v))" by (simp add: TernaryVectorToKnownBits_def)
qed (simp add: TernaryVectorToValueBits_def)

text \<open>The entries of a node, with the empty literals that the merge starts from.\<close>

definition entries :: "TernaryQueryEngine \<Rightarrow> nat \<Rightarrow> nat \<Rightarrow> nat \<Rightarrow> nat \<Rightarrow> bool" where
  "entries q n w k b \<longleftrightarrow> known_bits q n = None \<and> k = 0 \<and> b = 0 \<or> known_bits q n = Some (mk_bits w k) \<and> bits_values q n = Some (mk_bits w b)"

lemma Populate_merge_eq:
  assumes n: "n < length (fn_nodes f)" "node_type (fn_nodes f ! n) = BitsType w" and v: "values n = Some v" "length v = w" and e: "entries q n w k b"
  shows "Populate_merge f values n (q, rf) =
    Some (q\<lparr>known_bits := (known_bits q)(n \<mapsto> mk_bits w (k OR known_mask v)), bits_values := (bits_values q)(n \<mapsto> mk_bits w (b OR ones_mask v))\<rparr>,
      if mk_bits w (k OR known_mask v) = mk_bits w k \<and> mk_bits w (b OR ones_mask v) = mk_bits w b then rf else Changed)"
  using e unfolding entries_def
proof
  assume "known_bits q n = None \<and> k = 0 \<and> b = 0"
  then show ?thesis using n v by (simp add: Populate_merge_def node_at_def TernaryVector_masks Bits_eq_iff)
next
  assume "known_bits q n = Some (mk_bits w k) \<and> bits_values q n = Some (mk_bits w b)"
  then show ?thesis using n v by (simp add: Populate_merge_def node_at_def TernaryVector_masks Bits_eq_iff)
qed

text \<open>What a node knows holds of its value, in the state at the end of an evaluation.\<close>

definition holds_at :: "ir_function \<Rightarrow> interp_state \<Rightarrow> TernaryQueryEngine \<Rightarrow> nat \<Rightarrow> bool" where
  "holds_at f st q n \<longleftrightarrow> n < length (fn_nodes f) \<and> (\<exists>w k b x. node_type (fn_nodes f ! n) = BitsType w \<and> known_bits q n = Some (mk_bits w k) \<and>
     bits_values q n = Some (mk_bits w b) \<and> node_values st n = Some (BitsValue (mk_bits w x)) \<and>
     (\<forall>i < w. if bit k i then bit b i = bit x i else \<not> bit b i))"

definition engine_true :: "ir_function \<Rightarrow> interp_state \<Rightarrow> TernaryQueryEngine \<Rightarrow> bool" where
  "engine_true f st q \<longleftrightarrow> (\<forall>n. IsTracked q n \<longrightarrow> holds_at f st q n)"

text \<open>A node whose vector has been merged: merging it again changes nothing.\<close>

definition absorbed :: "ir_function \<Rightarrow> ternary_values \<Rightarrow> TernaryQueryEngine \<Rightarrow> nat \<Rightarrow> bool" where
  "absorbed f values q n \<longleftrightarrow> (\<forall>w. node_type (fn_nodes f ! n) = BitsType w \<longrightarrow> (\<exists>k b v. values n = Some v \<and> length v = w \<and>
     known_bits q n = Some (mk_bits w (k OR known_mask v)) \<and> bits_values q n = Some (mk_bits w (b OR ones_mask v))))"

lemma absorbed_merge:
  assumes a: "absorbed f values q n" and n: "n < length (fn_nodes f)"
  shows "Populate_merge f values n (q, rf) = Some (q, rf)"
proof (cases "IsBits (node_type (fn_nodes f ! n))")
  case False
  then show ?thesis using n by (simp add: Populate_merge_def node_at_def)
next
  case True
  then obtain w where w: "node_type (fn_nodes f ! n) = BitsType w" by (auto simp: IsBits_iff)
  then obtain k b v where v: "values n = Some v" "length v = w" "known_bits q n = Some (mk_bits w (k OR known_mask v))" "bits_values q n = Some (mk_bits w (b OR ones_mask v))"
    using a by (auto simp: absorbed_def)
  then have "entries q n w (k OR known_mask v) (b OR ones_mask v)" by (simp add: entries_def)
  from Populate_merge_eq[of n f w "values", OF n w v(1,2) this] show ?thesis using v(3,4) by (simp add: or.assoc fun_upd_idem)
qed

lemma holds_at_entries:
  assumes "engine_true f st q" "good f st {n} values" "n < length (fn_nodes f)" "node_type (fn_nodes f ! n) = BitsType w"
  obtains k b x v where "entries q n w k b" "values n = Some v" "vec ternary_covers w (int x) v" "node_values st n = Some (BitsValue (mk_bits w x))"
    "\<forall>i < w. if bit k i then bit b i = bit x i else \<not> bit b i"
proof -
  obtain v x where v: "values n = Some v" "node_values st n = Some (BitsValue (mk_bits w x))" "vec ternary_covers w (int x) v"
    using assms(2,4) unfolding good_def by blast
  show thesis
  proof (cases "known_bits q n")
    case None
    then show thesis using that[of 0 0 v x] v by (simp add: entries_def)
  next
    case (Some a)
    then have "holds_at f st q n" using assms(1) by (simp add: engine_true_def IsTracked_def)
    then obtain k b y where h: "known_bits q n = Some (mk_bits w k)" "bits_values q n = Some (mk_bits w b)" "node_values st n = Some (BitsValue (mk_bits w y))"
      "\<forall>i < w. if bit k i then bit b i = bit y i else \<not> bit b i" using assms(4) by (auto simp: holds_at_def)
    have "take_bit w y = take_bit w x" using h(3) v(2) by (simp add: mk_bits_eq_iff)
    then have "bit y i = bit x i" if "i < w" for i using that by (metis bit_take_bit_iff)
    then show thesis using that[of k b v x] h v by (simp add: entries_def)
  qed
qed

lemma merged_bits:
  assumes "vec ternary_covers w (int x) v" "\<forall>i < w. if bit k i then bit b i = bit x i else \<not> bit b i" "i < w"
  shows "if bit (k OR known_mask v) i then bit (b OR ones_mask v) i = bit x i else \<not> bit (b OR ones_mask v) i"
proof -
  have "length v = w" "ternary_covers (v ! i) (bit x i)" using vecD[OF assms(1)] assms(3) by (simp_all add: bit_of_nat_iff_bit)
  then show ?thesis using assms(2,3) by (cases "v ! i") (auto simp: bit_or_iff bit_horner_sum_bit_iff split: if_splits)
qed

lemma Populate_merge_step:
  assumes q: "engine_true f st q" and g: "good f st {n} values" and n: "n < length (fn_nodes f)"
    and d: "\<forall>m < n. absorbed f values q m"
  shows "yields (\<lambda>(q', rf'). engine_true f st q' \<and> (\<forall>m < Suc n. absorbed f values q' m)) (Populate_merge f values n (q, rf))"
proof (cases "IsBits (node_type (fn_nodes f ! n))")
  case False
  then have "absorbed f values q n" by (auto simp: absorbed_def)
  moreover from absorbed_merge[OF this n] have "Populate_merge f values n (q, rf) = Some (q, rf)" .
  ultimately show ?thesis using q d by (auto simp: less_Suc_eq)
next
  case True
  then obtain w where w: "node_type (fn_nodes f ! n) = BitsType w" by (auto simp: IsBits_iff)
  obtain k b x v where e: "entries q n w k b" "values n = Some v" "vec ternary_covers w (int x) v" "node_values st n = Some (BitsValue (mk_bits w x))"
    "\<forall>i < w. if bit k i then bit b i = bit x i else \<not> bit b i" using holds_at_entries[OF q g n w] .
  have l: "length v = w" using vecD(1)[OF e(3)] .
  define q' where "q' = q\<lparr>known_bits := (known_bits q)(n \<mapsto> mk_bits w (k OR known_mask v)), bits_values := (bits_values q)(n \<mapsto> mk_bits w (b OR ones_mask v))\<rparr>"
  have an: "absorbed f values q' n" using w e(2) l by (auto simp: absorbed_def q'_def)
  have am: "absorbed f values q' m" if "m < n" for m
    using that d by (simp add: absorbed_def q'_def)
  have h: "holds_at f st q' n" unfolding holds_at_def using n w e(4) merged_bits[OF e(3,5)]
    by (intro conjI exI[of _ w] exI[of _ "k OR known_mask v"] exI[of _ "b OR ones_mask v"] exI[of _ x]) (simp_all add: q'_def)
  have "holds_at f st q' m" if "IsTracked q' m" for m
    using that h q by (cases "m = n") (auto simp: q'_def engine_true_def IsTracked_def holds_at_def)
  then show ?thesis using an am Populate_merge_eq[of n f w "values", OF n w e(2) l e(1), folded q'_def] by (auto simp: engine_true_def less_Suc_eq)
qed

text \<open>
  One population: it never aborts on a function that has an evaluation, what it adds to the engine holds, every node of a
  bits type is then tracked, and a second population changes nothing.
\<close>

lemma merge_absorbed:
  assumes "\<forall>n < N. absorbed f values q n" "N \<le> length (fn_nodes f)"
  shows "for_state (Populate_merge f values) [0..<N] (q, rf) = Some (q, rf)"
  using assms
proof (induction N)
  case (Suc N)
  then show ?case using absorbed_merge[of f "values" q N rf] by (simp add: for_state_append)
qed simp

lemma Populate_sound:
  assumes L: "bignum_ok L val" and f: "VerifyFunction check_stateful pkg f = Some (Inr ())" "\<forall>node \<in> set (fn_nodes f). evaluable pkg f node \<and> analysable f node"
    and e: "evaluation L pkg call f args vs st" "{0..<length (fn_nodes f)} \<subseteq> set vs" and q: "engine_true f st q"
  obtains q' rf where "Populate f q = Some (Inr (q', rf))" "engine_true f st q'"
    "\<And>n. n < length (fn_nodes f) \<Longrightarrow> IsBits (node_type (fn_nodes f ! n)) \<Longrightarrow> IsTracked q' n" "Populate f q' = Some (Inr (q', Unchanged))"
proof -
  let ?N = "length (fn_nodes f)"
  have g: "\<forall>node \<in> set (fn_nodes f). set (operands node) \<subseteq> {0..<?N}" using VerifyFunctionD(2)[OF f(1)] by simp
  obtain order where o: "TopoSort f = Some order" "set order = {0..<?N}" "\<And>i. i < length order \<Longrightarrow> set (operands (fn_nodes f ! (order ! i))) \<subseteq> set (take i order)"
    using TopoSort_result[OF g accepted_acyclic[OF VerifyFunctionD(1)[OF f(1)]]] by metis
  obtain "values" where v: "Populate_values f order Map.empty = Some (Inr values)" "good f st {0..<?N} values"
    using Populate_values_good[OF L f e, of order "{}" Map.empty] o(2,3) by (auto simp: good_def)
  have "yields (\<lambda>(q', rf). engine_true f st q' \<and> (\<forall>n < ?N. absorbed f values q' n)) (for_state (Populate_merge f values) [0..<?N] (q, Unchanged))"
  proof (rule yields_for_upt[where P = "\<lambda>i (q', rf). engine_true f st q' \<and> (\<forall>n < i. absorbed f values q' n)"])
    fix i and t :: "TernaryQueryEngine \<times> ReachedFixpoint"
    assume i: "i < ?N" "case t of (q', rf) \<Rightarrow> engine_true f st q' \<and> (\<forall>n < i. absorbed f values q' n)"
    have "good f st {i} values" using v(2) i(1) by (simp add: good_def)
    then show "yields (\<lambda>(q', rf). engine_true f st q' \<and> (\<forall>n < Suc i. absorbed f values q' n)) (Populate_merge f values i t)"
      using Populate_merge_step[of f st "fst t" i "values" "snd t"] i by (auto simp: case_prod_beta)
  qed (use q in simp)
  then obtain q' rf where r: "for_state (Populate_merge f values) [0..<?N] (q, Unchanged) = Some (q', rf)" "engine_true f st q'" "\<forall>n < ?N. absorbed f values q' n"
    by (auto simp: yields_def)
  have "IsTracked q' n" if "n < ?N" "IsBits (node_type (fn_nodes f ! n))" for n
    using that r(3) by (fastforce simp: absorbed_def IsTracked_def IsBits_iff)
  moreover have "Populate f q' = Some (Inr (q', Unchanged))" using merge_absorbed[OF r(3)] o(1) v(1) by (simp add: Populate_def)
  ultimately show thesis using that[of q' rf] r o(1) v(1) by (simp add: Populate_def)
qed

section \<open>The answers of the queries\<close>

text \<open>
  \<open>answers f q n w k x\<close>: the engine tracks the node \<open>n\<close> of \<open>w\<close> bits, knows the bits in \<open>k\<close>, and these are the ones of \<open>x\<close>.
\<close>

definition answers :: "ir_function \<Rightarrow> TernaryQueryEngine \<Rightarrow> nat \<Rightarrow> nat \<Rightarrow> nat \<Rightarrow> nat \<Rightarrow> bool" where
  "answers f q n w k x \<longleftrightarrow> GetType f n = Some (BitsType w) \<and> IsTracked q n \<and>
     GetTernary f q n [] = Some (map (\<lambda>i. if bit k i then if bit x i then kKnownOne else kKnownZero else kUnknown) [0..<w])"

lemma engine_answers:
  assumes "engine_true f st q" "IsTracked q n"
  obtains w k x where "answers f q n w k x" "node_values st n = Some (BitsValue (mk_bits w x))"
proof -
  obtain w k b x where h: "n < length (fn_nodes f)" "node_type (fn_nodes f ! n) = BitsType w" "known_bits q n = Some (mk_bits w k)" "bits_values q n = Some (mk_bits w b)"
    "node_values st n = Some (BitsValue (mk_bits w x))" "\<forall>i < w. if bit k i then bit b i = bit x i else \<not> bit b i"
    using assms by (auto simp: engine_true_def holds_at_def)
  have "map (\<lambda>i. if bit k i then if bit b i then kKnownOne else kKnownZero else kUnknown) [0..<w] = map (\<lambda>i. if bit k i then if bit x i then kKnownOne else kKnownZero else kUnknown) [0..<w]"
    using h(6) by (intro map_cong) auto
  then have "answers f q n w k x" using h assms(2) by (simp add: answers_def GetTernary_def GetType_nth FromKnownBits_eq)
  then show thesis using that h(5) by blast
qed

lemma bit_location_simps [simp]: "location_node (bit_location n i) = n" "bit_index (bit_location n i) = i" "tree_index (bit_location n i) = []"
  by (simp_all add: bit_location_def)

lemma bit_answers:
  assumes "answers f q n w k x" "i < w"
  shows "QueryEngine_IsKnown f q (bit_location n i) = Some (bit k i)"
    and "IsOne f q (bit_location n i) = Some (bit k i \<and> bit x i)"
    and "IsZero f q (bit_location n i) = Some (bit k i \<and> \<not> bit x i)"
proof -
  show k: "QueryEngine_IsKnown f q (bit_location n i) = Some (bit k i)" using assms by (simp add: QueryEngine_IsKnown_def answers_def)
  show "IsOne f q (bit_location n i) = Some (bit k i \<and> bit x i)"
    using assms k by (auto simp: IsOne_def answers_def ToKnownBits_eq bit_horner_sum_bit_iff)
  show "IsZero f q (bit_location n i) = Some (bit k i \<and> \<not> bit x i)"
    using assms k by (auto simp: IsZero_def answers_def ToKnownBits_eq bit_horner_sum_bit_iff)
qed

lemma list_all_upt: "list_all P (map g [0..<n]) \<longleftrightarrow> (\<forall>i < n. P (g i))"
  by (auto simp: list_all_iff)

lemma answers_width: "answers f q n w k x \<Longrightarrow> check_bits_node f n = Some ()" "answers f q n w k x \<Longrightarrow> node_width f n = Some w"
  by (simp_all add: answers_def check_bits_node_def node_width_def check_def)

lemma node_answers:
  assumes "answers f q n w k x"
  shows "QueryEngine_IsAllZeros f q n = Some (\<forall>i < w. bit k i \<and> \<not> bit x i)"
    and "QueryEngine_IsAllOnes f q n = Some (\<forall>i < w. bit k i \<and> bit x i)"
    and "AllBitsKnown f q n = Some (\<forall>i < w. bit k i)"
    and "IsMsbKnown f q n = Some (0 < w \<and> bit k (w - 1))"
  using assms answers_width[OF assms]
  by (auto simp: QueryEngine_IsAllZeros_def QueryEngine_IsAllOnes_def AllBitsKnown_def IsMsbKnown_def answers_def list_all_upt ToKnownBits_eq bit_horner_sum_bit_iff split: if_splits)

lemma GetKnownMsb_answer:
  assumes "answers f q n w k x"
  shows "GetKnownMsb f q n = (if 0 < w \<and> bit k (w - 1) then Some (bit x (w - 1)) else None)"
  using assms answers_width[OF assms] node_answers(4)[OF assms]
  by (auto simp: GetKnownMsb_def answers_def ToKnownBits_eq bit_horner_sum_bit_iff check_def)

text \<open>The bounds are the least and the greatest number with the known bits.\<close>

lemma bits_subset_le: "(\<And>i. bit a i \<Longrightarrow> bit b i) \<Longrightarrow> a \<le> (b :: nat)"
proof -
  assume s: "\<And>i. bit a i \<Longrightarrow> bit b i"
  have "a AND b = a" by (rule bit_eqI) (use s in \<open>auto simp: bit_and_iff\<close>)
  then show ?thesis by (metis and_nat_def nat_int nat_mono and.commute AND_upper2 of_nat_0_le_iff)
qed

definition same_on :: "nat \<Rightarrow> nat \<Rightarrow> nat \<Rightarrow> nat \<Rightarrow> bool" where
  "same_on k w x y \<longleftrightarrow> (\<forall>i < w. bit k i \<longrightarrow> bit x i = bit y i)"

lemma bound_answers:
  assumes "answers f q n w k x"
  obtains lo hi where "MinUnsignedValue f q n = Some (mk_bits w lo)" "MaxUnsignedValue f q n = Some (mk_bits w hi)"
    "lo < 2 ^ w" "hi < 2 ^ w" "same_on k w lo x" "same_on k w hi x" "\<And>y. y < 2 ^ w \<Longrightarrow> same_on k w y x \<Longrightarrow> lo \<le> y \<and> y \<le> hi"
proof -
  let ?l = "map (\<lambda>i. bit k i \<and> bit x i) [0..<w]" and ?h = "map (\<lambda>i. \<not> (bit k i \<and> \<not> bit x i)) [0..<w]"
  let ?lo = "horner_sum of_bool 2 ?l :: nat" and ?hi = "horner_sum of_bool 2 ?h :: nat"
  have g: "generate w (\<lambda>i. IsOne f q (bit_location n i)) = Some ?l"
    "generate w (\<lambda>i. do { z \<leftarrow> IsZero f q (bit_location n i); Some (\<not> z) }) = Some ?h"
    by (rule generate_eq; simp add: bit_answers[OF assms])+
  have b: "i < w \<Longrightarrow> bit ?lo i \<longleftrightarrow> bit k i \<and> bit x i" "i < w \<Longrightarrow> bit ?hi i \<longleftrightarrow> \<not> bit k i \<or> bit x i" "bit ?lo i \<Longrightarrow> i < w" "bit ?hi i \<Longrightarrow> i < w" for i
    by (auto simp: bit_horner_sum_bit_iff)
  have lt: "?lo < 2 ^ w" "?hi < 2 ^ w" using horner_sum_of_bool_2_less[of ?l] horner_sum_of_bool_2_less[of ?h] by simp_all
  have y: "?lo \<le> y \<and> y \<le> ?hi" if "y < 2 ^ w" "same_on k w y x" for y
  proof -
    have "i < w" if "bit y i" for i using that \<open>y < 2 ^ w\<close> by (metis bit_take_bit_iff take_bit_nat_eq_self)
    then have s: "i < w \<and> (bit k i \<longrightarrow> bit x i)" if "bit y i" for i using that \<open>same_on k w y x\<close> unfolding same_on_def by blast
    have "?lo \<le> y" by (rule bits_subset_le) (use b(1,3) that(2) in \<open>unfold same_on_def, blast\<close>)
    moreover have "y \<le> ?hi" by (rule bits_subset_le) (use b(2) s in blast)
    ultimately show ?thesis ..
  qed
  have m: "MinUnsignedValue f q n = Some (mk_bits w ?lo)" using g(1) answers_width[OF assms] by (simp add: MinUnsignedValue_def)
  have M: "MaxUnsignedValue f q n = Some (mk_bits w ?hi)" using g(2) answers_width[OF assms] by (simp add: MaxUnsignedValue_def del: bind_assoc)
  have s: "same_on k w ?lo x" "same_on k w ?hi x" using b(1,2) unfolding same_on_def by blast+
  show thesis by (rule that[OF m M lt s y])
qed

text \<open>Two nodes.\<close>

definition known_at :: "nat \<Rightarrow> nat \<Rightarrow> nat \<Rightarrow> nat \<Rightarrow> TernaryValue" where
  "known_at w k x i = (if w \<le> i then kKnownZero else if bit k i then if bit x i then kKnownOne else kKnownZero else kUnknown)"

lemma get_known_bit_answer: "answers f q n w k x \<Longrightarrow> get_known_bit f q n i = Some (known_at w k x i)"
  using bit_answers[of f q n w k x i] answers_width[of f q n w k x] by (cases "i < w") (auto simp: get_known_bit_def known_at_def)

lemma for_find_Some: "for_find (\<lambda>i. Some (if P i then Some () else None)) is = Some (if \<exists>i \<in> set is. P i then Some () else None)"
  by (induction "is") auto

lemma NotEquals_answer:
  assumes a: "answers f q a w k x" and b: "answers f q b v l y"
  shows "NodesKnownUnsignedNotEquals f q a b =
    Some (\<exists>i < max w v. known_at w k x i \<noteq> known_at v l y i \<and> known_at w k x i \<noteq> kUnknown \<and> known_at v l y i \<noteq> kUnknown)"
  using answers_width[OF a] answers_width[OF b]
  by (auto simp: NodesKnownUnsignedNotEquals_def get_known_bit_answer[OF a] get_known_bit_answer[OF b] for_find_Some)

lemma known_at_differ: "known_at w k x i \<noteq> known_at v l y i \<Longrightarrow> known_at w k x i \<noteq> kUnknown \<Longrightarrow> known_at v l y i \<noteq> kUnknown \<Longrightarrow> take_bit w x \<noteq> take_bit v y"
  by (auto simp: known_at_def bit_take_bit_iff split: if_splits dest!: arg_cong[where f = "\<lambda>n. bit n i"])

lemma Equals_answer:
  assumes a: "answers f q a w k x" and b: "answers f q b v l y"
  shows "NodesKnownUnsignedEquals f q a b =
    Some (a = b \<or> (\<forall>i < w. bit k i) \<and> (\<forall>i < v. bit l i) \<and> take_bit w x = take_bit v y)"
proof -
  let ?t = "\<lambda>w k x. map (\<lambda>i. if bit k i then if bit x i then kKnownOne else kKnownZero else kUnknown) [0..<w]"
  have v: "ToKnownBitsValues (?t w k x) = Some (mk_bits w x)" if "\<forall>i < w. bit k i" for w k x
  proof -
    have "map (\<lambda>t. t = kKnownOne) (?t w k x) = map (bit x) [0..<w]" using that by (auto simp: bit_simps)
    then have "horner_sum of_bool 2 (map (\<lambda>t. t = kKnownOne) (?t w k x)) = take_bit w x" by (simp only: horner_sum_bit_eq_take_bit)
    then show ?thesis by (simp add: ToKnownBits_eq del: map_map)
  qed
  have "GetTernary f q a [] = Some (?t w k x)" "GetTernary f q b [] = Some (?t v l y)" using a b by (simp_all add: answers_def)
  then show ?thesis using answers_width[OF a] answers_width[OF b] node_answers(3)[OF a] node_answers(3)[OF b] v[of w k x] v[of v l y]
    by (cases "a = b"; cases "\<forall>i < w. bit k i"; cases "\<forall>i < v. bit l i") (simp_all add: NodesKnownUnsignedEquals_def)
qed

text \<open>
  Sets of bits. \<open>locations_answer\<close>: every location is a bit of a tracked node; \<open>holds\<close> gives the bits of the values.
\<close>

definition location_answer :: "ir_function \<Rightarrow> TernaryQueryEngine \<Rightarrow> (TreeBitLocation \<Rightarrow> bool) \<Rightarrow> TreeBitLocation \<Rightarrow> bool" where
  "location_answer f q holds loc \<longleftrightarrow> (\<exists>n i w k x. loc = bit_location n i \<and> i < w \<and> answers f q n w k x \<and> holds loc = bit x i)"

lemma maybe_one_count_bound:
  "\<forall>loc \<in> set locs. location_answer f q holds loc \<Longrightarrow> \<exists>c. maybe_one_count f q locs = Some c \<and> length (filter holds locs) \<le> c"
proof (induction locs)
  case (Cons loc locs)
  then obtain n i w k x where l: "loc = bit_location n i" "i < w" "answers f q n w k x" "holds loc = bit x i"
    by (auto simp: location_answer_def)
  obtain c where "maybe_one_count f q locs = Some c" "length (filter holds locs) \<le> c" using Cons by auto
  then show ?case using bit_answers[OF l(3,2)] l(1,4) by (auto simp: of_bool_def)
qed simp

lemma AtLeastOne_found:
  "\<forall>loc \<in> set locs. location_answer f q holds loc \<Longrightarrow> \<exists>r. AtLeastOneTrue f q locs = Some r \<and> (r \<longrightarrow> (\<exists>loc \<in> set locs. holds loc))"
proof (induction locs)
  case (Cons loc locs)
  then obtain n i w k x where l: "loc = bit_location n i" "i < w" "answers f q n w k x" "holds loc = bit x i"
    by (auto simp: location_answer_def)
  then show ?case using Cons bit_answers(2)[OF l(3,2)] by auto
qed auto

section \<open>The engine of a verified function\<close>

definition initial_state :: interp_state where
  "initial_state = \<lparr>node_values = Map.empty, events = no_events\<rparr>"

lemma engine_true_new: "engine_true f st TernaryQueryEngine_new"
  by (simp add: engine_true_def IsTracked_def TernaryQueryEngine_new_def)

lemma population:
  assumes L: "bignum_ok L val" and p: "package_ok check_stateful pkg" "list_at pkg i = Some f" "\<forall>node \<in> set (fn_nodes f). analysable f node" and args: "args_typed f args"
  obtains q rf st where "Populate f TernaryQueryEngine_new = Some (Inr (q, rf))" "FunctionBase_Accept (visit_node L pkg (InterpretFunction L pkg i) f args) f initial_state = Some (Inr st)"
    "engine_true f st q" "\<And>n. n < length (fn_nodes f) \<Longrightarrow> IsBits (node_type (fn_nodes f ! n)) \<Longrightarrow> IsTracked q n" "Populate f q = Some (Inr (q, Unchanged))"
proof -
  have "i < length pkg" using p(2) by (simp add: list_at_eq_Some)
  then have "function_evaluable pkg i" "f \<in> set pkg" using p by (auto simp: package_ok_def list_at_eq_Some)
  then have f: "VerifyFunction check_stateful pkg f = Some (Inr ())" "\<forall>node \<in> set (fn_nodes f). evaluable pkg f node \<and> (\<forall>g \<in> set (callees (node_op node)). g < i)"
    using p(1,2) by (auto simp: function_evaluable_def package_ok_def VerifyFunctions_def)
  obtain st vs where st: "FunctionBase_Accept (visit_node L pkg (InterpretFunction L pkg i) f args) f initial_state = Some (Inr st)"
    "evaluation L pkg (InterpretFunction L pkg i) f args vs st" "{0..<length (fn_nodes f)} \<subseteq> set vs"
    unfolding initial_state_def by (rule typed_calls.evaluation_exists[OF InterpretFunction_typed[OF L p(1)] L f args])
  have a: "\<forall>node \<in> set (fn_nodes f). evaluable pkg f node \<and> analysable f node" using f(2) p(3) by blast
  from Populate_sound[OF L f(1) a st(2,3) engine_true_new] obtain q rf where "Populate f TernaryQueryEngine_new = Some (Inr (q, rf))" "engine_true f st q"
    "\<And>n. n < length (fn_nodes f) \<Longrightarrow> IsBits (node_type (fn_nodes f ! n)) \<Longrightarrow> IsTracked q n" "Populate f q = Some (Inr (q, Unchanged))" by blast
  then show thesis using that st(1) by blast
qed

text \<open>What a query about bits and nodes may answer: true statements about the values \<open>st\<close> of an evaluation.\<close>

definition value_bit :: "interp_state \<Rightarrow> TreeBitLocation \<Rightarrow> bool" where
  "value_bit st loc \<longleftrightarrow> (case node_values st (location_node loc) of Some (BitsValue b) \<Rightarrow> bit (uval b) (bit_index loc) | _ \<Rightarrow> False)"

definition valid_location :: "ir_function \<Rightarrow> TreeBitLocation \<Rightarrow> bool" where
  "valid_location f loc \<longleftrightarrow> tree_index loc = [] \<and> (case GetType f (location_node loc) of Some (BitsType w) \<Rightarrow> bit_index loc < w | _ \<Rightarrow> False)"

lemma engine_bits_node:
  assumes q: "engine_true f st q" "\<And>n. n < length (fn_nodes f) \<Longrightarrow> IsBits (node_type (fn_nodes f ! n)) \<Longrightarrow> IsTracked q n" and n: "GetType f n = Some (BitsType w)"
  obtains k x where "answers f q n w k x" "node_values st n = Some (BitsValue (mk_bits w x))"
proof -
  have "n < length (fn_nodes f)" "node_type (fn_nodes f ! n) = BitsType w" using n by (auto simp: GetType_def node_at_def bind_ok list_at_eq_Some)
  then have "IsTracked q n" using q(2) by simp
  then obtain w' k x where a: "answers f q n w' k x" "node_values st n = Some (BitsValue (mk_bits w' x))" using engine_answers[OF q(1)] by blast
  then have "w' = w" using n by (simp add: answers_def)
  then show thesis using that a by blast
qed

lemma location_answers:
  assumes q: "engine_true f st q" "\<And>n. n < length (fn_nodes f) \<Longrightarrow> IsBits (node_type (fn_nodes f ! n)) \<Longrightarrow> IsTracked q n" and l: "valid_location f loc"
  shows "location_answer f q (value_bit st) loc"
proof -
  obtain w where w: "GetType f (location_node loc) = Some (BitsType w)" "bit_index loc < w" using l by (auto simp: valid_location_def split: option.splits ir_type.splits)
  obtain k x where a: "answers f q (location_node loc) w k x" "node_values st (location_node loc) = Some (BitsValue (mk_bits w x))"
    using engine_bits_node[OF q w(1)] .
  have "loc = bit_location (location_node loc) (bit_index loc)" using l by (simp add: bit_location_def valid_location_def)
  moreover have "value_bit st loc = bit x (bit_index loc)" using a(2) w(2) by (simp add: value_bit_def bit_take_bit_iff)
  ultimately show ?thesis unfolding location_answer_def using w(2) a(1) by blast
qed

lemma pair_answers:
  assumes q: "engine_true f st q" "\<And>n. n < length (fn_nodes f) \<Longrightarrow> IsBits (node_type (fn_nodes f ! n)) \<Longrightarrow> IsTracked q n"
    and t: "GetType f a = Some (BitsType v)" "GetType f b = Some (BitsType w)"
  shows "\<exists>x y eq ne. node_values st a = Some (BitsValue (mk_bits v x)) \<and> node_values st b = Some (BitsValue (mk_bits w y)) \<and> x < 2 ^ v \<and> y < 2 ^ w \<and>
      NodesKnownUnsignedEquals f q a b = Some eq \<and> (eq \<longrightarrow> x = y) \<and> NodesKnownUnsignedNotEquals f q a b = Some ne \<and> (ne \<longrightarrow> x \<noteq> y)"
proof -
  obtain k x where x: "answers f q a v k x" "node_values st a = Some (BitsValue (mk_bits v x))" using engine_bits_node[OF q t(1)] .
  obtain l y where y: "answers f q b w l y" "node_values st b = Some (BitsValue (mk_bits w y))" using engine_bits_node[OF q t(2)] .
  have s: "take_bit v x = take_bit w y" if "a = b" using that x(2) y(2) t by (auto simp: mk_bits_eq_iff)
  have e: "\<exists>eq. NodesKnownUnsignedEquals f q a b = Some eq \<and> (eq \<longrightarrow> take_bit v x = take_bit w y)" using Equals_answer[OF x(1) y(1)] s by auto
  have n: "\<exists>ne. NodesKnownUnsignedNotEquals f q a b = Some ne \<and> (ne \<longrightarrow> take_bit v x \<noteq> take_bit w y)"
    unfolding NotEquals_answer[OF x(1) y(1)] using known_at_differ[of v k x _ w l y] by blast
  have "mk_bits v x = mk_bits v (take_bit v x)" "mk_bits w y = mk_bits w (take_bit w y)" by (simp_all add: mk_bits_eq_iff)
  moreover have "take_bit v x < 2 ^ v" "take_bit w y < 2 ^ w" by simp_all
  ultimately show ?thesis using x(2) y(2) e n by metis
qed

lemma set_answers:
  assumes q: "engine_true f st q" "\<And>n. n < length (fn_nodes f) \<Longrightarrow> IsBits (node_type (fn_nodes f ! n)) \<Longrightarrow> IsTracked q n" and l: "list_all (valid_location f) locs"
  shows "\<exists>most least. AtMostOneTrue f q locs = Some most \<and> (most \<longrightarrow> length (filter (value_bit st) locs) \<le> 1) \<and>
      AtLeastOneTrue f q locs = Some least \<and> (least \<longrightarrow> filter (value_bit st) locs \<noteq> [])"
proof -
  have a: "\<forall>loc \<in> set locs. location_answer f q (value_bit st) loc" using location_answers[OF q] l by (auto simp: list_all_iff)
  obtain c where "maybe_one_count f q locs = Some c" "length (filter (value_bit st) locs) \<le> c" using maybe_one_count_bound[OF a] by blast
  moreover obtain r where "AtLeastOneTrue f q locs = Some r" "r \<longrightarrow> (\<exists>loc \<in> set locs. value_bit st loc)" using AtLeastOne_found[OF a] by blast
  ultimately show ?thesis by (auto simp: AtMostOneTrue_def filter_empty_conv)
qed

section \<open>An example\<close>

text \<open>The low half of a byte: the engine knows the upper four bits.\<close>

definition mask_function :: ir_function where
  "mask_function = \<lparr>fn_nodes = [\<lparr>node_op = Param ''x'', node_type = BitsType 8, operands = []\<rparr>,
     \<lparr>node_op = Literal (BitsValue (mk_bits 8 15)), node_type = BitsType 8, operands = []\<rparr>,
     \<lparr>node_op = NaryOp kNaryAnd, node_type = BitsType 8, operands = [0, 1]\<rparr>], fn_params = [0], fn_return = 2\<rparr>"

lemma mask_verified: "VerifyFunctions (\<lambda>s node. None) [mask_function] = Some (Inr ())"
  by code_simp

lemma mask_package: "package_ok (\<lambda>s node. None) [mask_function]" "list_at [mask_function] 0 = Some mask_function"
  "\<forall>node \<in> set (fn_nodes mask_function). analysable mask_function node" "args_typed mask_function [BitsValue (mk_bits 8 77)]"
  using mask_verified by (auto simp: package_ok_def mask_function_def function_evaluable_def evaluable_def analysable_def args_typed_def param_type_def GetType_def node_at_def)

end
