(* ===== verification/UnionFind.thy ===== *)
theory UnionFind
  imports XlsPrelude
begin

text \<open>
  \<open>xls/data_structures/union_find_map.h\<close> and \<open>union_find.h\<close>: a map from keys to values in which keys can be united. The
  trees of parents are updated by every search (path halving) and joined by size. The theory shows that the searches
  end, that the map implements an equivalence relation on the keys with one value for each class, and that the trees
  are of logarithmic height.
\<close>

section \<open>The map\<close>

text \<open>The offsets of \<open>uint32_t\<close> are natural numbers: the structure is limited to \<open>2 ^ 32\<close> elements.\<close>

record uf_node =
  parent :: nat
  node_size :: nat

record ('k, 'v) UnionFindMap =
  key_to_index :: "'k \<rightharpoonup> nat"
  uf_keys :: "'k list"
  uf_values :: "'v list"
  uf_nodes :: "uf_node list"

definition UnionFindMap_new :: "('k, 'v) UnionFindMap" where
  "UnionFindMap_new = \<lparr>key_to_index = Map.empty, uf_keys = [], uf_values = [], uf_nodes = []\<rparr>"

definition GetIndex :: "('k, 'v) UnionFindMap \<Rightarrow> 'k \<Rightarrow> nat option" where
  "GetIndex m key = key_to_index m key"

text \<open>The search updates the nodes on its way. An index out of range aborts, and a loop that does not end has no result.\<close>

partial_function (option) FindRoot :: "uf_node list \<Rightarrow> nat \<Rightarrow> (nat \<times> uf_node list) option" where
  "FindRoot nodes x = do {
     nx \<leftarrow> list_at nodes x;
     np \<leftarrow> list_at nodes (parent nx);
     if parent nx = x then Some (x, nodes)
     else FindRoot (nodes[x := nx\<lparr>parent := parent np\<rparr>]) (parent np) }"

definition UnionFindMap_Insert :: "('k, 'v) UnionFindMap \<Rightarrow> 'k \<Rightarrow> 'v \<Rightarrow> ('v \<Rightarrow> 'v \<Rightarrow> 'v) \<Rightarrow> ('k, 'v) UnionFindMap option" where
  "UnionFindMap_Insert m key v merge = (case key_to_index m key of
     Some i \<Rightarrow> do {
       (index, nodes) \<leftarrow> FindRoot (uf_nodes m) i;
       old \<leftarrow> list_at (uf_values m) index;
       Some (m\<lparr>uf_nodes := nodes, uf_values := (uf_values m)[index := merge old v]\<rparr>) }
   | None \<Rightarrow> let index = length (uf_nodes m) in
       Some (m\<lparr>uf_nodes := uf_nodes m @ [\<lparr>parent = index, node_size = 1\<rparr>], key_to_index := (key_to_index m)(key \<mapsto> index),
               uf_keys := uf_keys m @ [key], uf_values := uf_values m @ [v]\<rparr>))"

text \<open>The overload without a function replaces the value.\<close>

definition UnionFindMap_Insert_replace :: "('k, 'v) UnionFindMap \<Rightarrow> 'k \<Rightarrow> 'v \<Rightarrow> ('k, 'v) UnionFindMap option" where
  "UnionFindMap_Insert_replace m key v = UnionFindMap_Insert m key v (\<lambda>old_val new_val. new_val)"

text \<open>The inner option is the result.\<close>

definition UnionFindMap_Find :: "('k, 'v) UnionFindMap \<Rightarrow> 'k \<Rightarrow> (('k \<times> 'v) option \<times> ('k, 'v) UnionFindMap) option" where
  "UnionFindMap_Find m key = (case GetIndex m key of
     Some index \<Rightarrow> do {
       (found, nodes) \<leftarrow> FindRoot (uf_nodes m) index;
       k \<leftarrow> list_at (uf_keys m) found; v \<leftarrow> list_at (uf_values m) found;
       Some (Some (k, v), m\<lparr>uf_nodes := nodes\<rparr>) }
   | None \<Rightarrow> Some (None, m))"

definition UnionFindMap_Union :: "('k, 'v) UnionFindMap \<Rightarrow> 'k \<Rightarrow> 'k \<Rightarrow> ('v \<Rightarrow> 'v \<Rightarrow> 'v) \<Rightarrow> (bool \<times> ('k, 'v) UnionFindMap) option" where
  "UnionFindMap_Union m x y merge = (case GetIndex m x of None \<Rightarrow> Some (False, m) | Some x_index \<Rightarrow>
     (case GetIndex m y of None \<Rightarrow> Some (False, m) | Some y_index \<Rightarrow> do {
       (x_root, nodes) \<leftarrow> FindRoot (uf_nodes m) x_index;
       (y_root, nodes) \<leftarrow> FindRoot nodes y_index;
       let m = m\<lparr>uf_nodes := nodes\<rparr>;
       if x_root = y_root then Some (True, m)
       else do {
         nx \<leftarrow> list_at nodes x_root; ny \<leftarrow> list_at nodes y_root;
         let (x_root, y_root) = (if node_size nx < node_size ny then (y_root, x_root) else (x_root, y_root));
         vx \<leftarrow> list_at (uf_values m) x_root; vy \<leftarrow> list_at (uf_values m) y_root;
         let new_value = merge vx vy;
         let nodes = nodes[y_root := (nodes ! y_root)\<lparr>parent := x_root\<rparr>];
         let nodes = nodes[x_root := (nodes ! x_root)\<lparr>node_size := node_size nx + node_size ny\<rparr>];
         Some (True, m\<lparr>uf_values := (uf_values m)[x_root := new_value, y_root := new_value], uf_nodes := nodes\<rparr>) } }))"

definition UnionFindMap_Contains :: "('k, 'v) UnionFindMap \<Rightarrow> 'k \<Rightarrow> bool" where
  "UnionFindMap_Contains m key \<longleftrightarrow> key_to_index m key \<noteq> None"

definition GetKeys :: "('k, 'v) UnionFindMap \<Rightarrow> 'k list" where
  "GetKeys m = uf_keys m"

definition GetRepresentatives :: "('k, 'v) UnionFindMap \<Rightarrow> ('k set \<times> ('k, 'v) UnionFindMap) option" where
  "GetRepresentatives m = for_state (\<lambda>key (result, m). do {
     (r, m) \<leftarrow> UnionFindMap_Find m key; (k, v) \<leftarrow> r; Some (insert k result, m) }) (uf_keys m) ({}, m)"

section \<open>The set\<close>

type_synonym 'k UnionFind = "('k, unit) UnionFindMap"

definition UnionFind_Insert :: "'k UnionFind \<Rightarrow> 'k \<Rightarrow> 'k UnionFind option" where
  "UnionFind_Insert u element = UnionFindMap_Insert_replace u element ()"

definition UnionFind_Union :: "'k UnionFind \<Rightarrow> 'k \<Rightarrow> 'k \<Rightarrow> 'k UnionFind option" where
  "UnionFind_Union u x y = do { (ok, u) \<leftarrow> UnionFindMap_Union u x y (\<lambda>x y. ()); check ok; Some u }"

definition UnionFind_Find :: "'k UnionFind \<Rightarrow> 'k \<Rightarrow> ('k \<times> 'k UnionFind) option" where
  "UnionFind_Find u element = do { (r, u) \<leftarrow> UnionFindMap_Find u element; (k, v) \<leftarrow> r; Some (k, u) }"

definition UnionFind_size :: "'k UnionFind \<Rightarrow> nat" where
  "UnionFind_size u = length (GetKeys u)"

section \<open>Searches end and keep the roots\<close>

text \<open>
  \<open>forest nodes rank root\<close>: \<open>root i\<close> is the root above \<open>i\<close>, and the rank grows along every edge, so that there are no cycles.
  The size of a root is at least the power of two of its rank, and the sizes of the roots add up to the number of nodes.
\<close>

definition forest :: "uf_node list \<Rightarrow> (nat \<Rightarrow> nat) \<Rightarrow> (nat \<Rightarrow> nat) \<Rightarrow> bool" where
  "forest nodes rank root \<longleftrightarrow> (\<forall>i < length nodes. let p = parent (nodes ! i) in
     p < length nodes \<and> root i < length nodes \<and> parent (nodes ! root i) = root i \<and> root p = root i \<and>
     (if p = i then root i = i else rank i < rank p))"

definition weighted :: "uf_node list \<Rightarrow> (nat \<Rightarrow> nat) \<Rightarrow> bool" where
  "weighted nodes rank \<longleftrightarrow> (\<forall>i < length nodes. parent (nodes ! i) = i \<longrightarrow> 2 ^ rank i \<le> node_size (nodes ! i)) \<and>
     (\<Sum>i | i < length nodes \<and> parent (nodes ! i) = i. node_size (nodes ! i)) = length nodes"

lemma forestD:
  assumes "forest nodes rank root" "i < length nodes"
  shows "parent (nodes ! i) < length nodes" "root i < length nodes" "parent (nodes ! root i) = root i" "root (parent (nodes ! i)) = root i"
    "parent (nodes ! i) = i \<Longrightarrow> root i = i" "parent (nodes ! i) \<noteq> i \<Longrightarrow> rank i < rank (parent (nodes ! i))"
  using assms by (auto simp: forest_def Let_def split: if_splits)

lemma forestI:
  assumes "\<And>i. i < length nodes \<Longrightarrow> parent (nodes ! i) < length nodes \<and> root i < length nodes \<and> parent (nodes ! root i) = root i \<and> root (parent (nodes ! i)) = root i"
    "\<And>i. i < length nodes \<Longrightarrow> parent (nodes ! i) = i \<Longrightarrow> root i = i" "\<And>i. i < length nodes \<Longrightarrow> parent (nodes ! i) \<noteq> i \<Longrightarrow> rank i < rank (parent (nodes ! i))"
  shows "forest nodes rank root"
  using assms by (simp add: forest_def Let_def)

text \<open>One step of path halving.\<close>

lemma forest_halve:
  assumes f: "forest nodes rank root" and x: "x < length nodes" "parent (nodes ! x) \<noteq> x"
  defines "pp \<equiv> parent (nodes ! parent (nodes ! x))"
  shows "forest (nodes[x := (nodes ! x)\<lparr>parent := pp\<rparr>]) rank root" "pp < length nodes" "rank x < rank pp" "root pp = root x"
proof -
  note p = forestD[OF f x(1)] and q = forestD[OF f forestD(1)[OF f x(1)]]
  show pp: "pp < length nodes" "root pp = root x" using p q by (auto simp: pp_def)
  show r: "rank x < rank pp" using p(6)[OF x(2)] q(6) unfolding pp_def by (metis less_trans)
  show "forest (nodes[x := (nodes ! x)\<lparr>parent := pp\<rparr>]) rank root"
  proof (rule forestI)
    fix i assume i: "i < length (nodes[x := (nodes ! x)\<lparr>parent := pp\<rparr>])"
    then have i': "i < length nodes" by simp
    note d = forestD[OF f i']
    have "root i \<noteq> x" using d(3) x(2) by auto
    then show "parent (nodes[x := (nodes ! x)\<lparr>parent := pp\<rparr>] ! i) < length (nodes[x := (nodes ! x)\<lparr>parent := pp\<rparr>]) \<and> root i < length (nodes[x := (nodes ! x)\<lparr>parent := pp\<rparr>]) \<and>
        parent (nodes[x := (nodes ! x)\<lparr>parent := pp\<rparr>] ! root i) = root i \<and> root (parent (nodes[x := (nodes ! x)\<lparr>parent := pp\<rparr>] ! i)) = root i"
      using d pp x(1) by (cases "i = x") auto
    show "root i = i" if "parent (nodes[x := (nodes ! x)\<lparr>parent := pp\<rparr>] ! i) = i" using that d(5) r x(1) by (cases "i = x") auto
    show "rank i < rank (parent (nodes[x := (nodes ! x)\<lparr>parent := pp\<rparr>] ! i))" if "parent (nodes[x := (nodes ! x)\<lparr>parent := pp\<rparr>] ! i) \<noteq> i"
      using that d(6) r x(1) by (cases "i = x") auto
  qed
qed

text \<open>What a search keeps: the roots with their sizes, and what is a root.\<close>

definition same_roots :: "uf_node list \<Rightarrow> uf_node list \<Rightarrow> bool" where
  "same_roots nodes nodes' \<longleftrightarrow> length nodes' = length nodes \<and>
     (\<forall>i < length nodes. node_size (nodes' ! i) = node_size (nodes ! i) \<and> (parent (nodes' ! i) = i \<longleftrightarrow> parent (nodes ! i) = i))"

lemma same_roots_trans: "same_roots a b \<Longrightarrow> same_roots b c \<Longrightarrow> same_roots a c"
  by (auto simp: same_roots_def)

lemma weighted_same_roots:
  assumes "weighted nodes rank" and s: "same_roots nodes nodes'"
  shows "weighted nodes' rank"
proof -
  have "{i. i < length nodes' \<and> parent (nodes' ! i) = i} = {i. i < length nodes \<and> parent (nodes ! i) = i}" using s by (auto simp: same_roots_def)
  moreover have "(\<Sum>i \<in> {i. i < length nodes \<and> parent (nodes ! i) = i}. node_size (nodes' ! i)) = (\<Sum>i \<in> {i. i < length nodes \<and> parent (nodes ! i) = i}. node_size (nodes ! i))"
    using s by (intro sum.cong) (auto simp: same_roots_def)
  ultimately show ?thesis using assms by (simp add: weighted_def same_roots_def)
qed

lemma bounded_rank:
  fixes rank :: "nat \<Rightarrow> nat"
  obtains b where "\<And>i. i < n \<Longrightarrow> rank i \<le> b"
proof -
  obtain b where "\<forall>r \<in> rank ` {0..<n}. r \<le> b" using finite_nat_set_iff_bounded_le[of "rank ` {0..<n}"] by auto
  then show thesis using that[of b] by simp
qed

lemma FindRoot_ok:
  assumes "forest nodes rank root" "x < length nodes"
  shows "\<exists>nodes'. FindRoot nodes x = Some (root x, nodes') \<and> forest nodes' rank root \<and> same_roots nodes nodes'"
proof -
  obtain b where b: "\<And>i. i < length nodes \<Longrightarrow> rank i \<le> b" using bounded_rank[of "length nodes" rank] by blast
  have "\<exists>nodes'. FindRoot ns x = Some (root x, nodes') \<and> forest nodes' rank root \<and> same_roots ns nodes'"
    if "forest ns rank root" "x < length ns" "length ns = length nodes" for ns x
    using that
  proof (induction "b - rank x" arbitrary: ns x rule: less_induct)
    case less
    note d = forestD[OF less.prems(1,2)]
    show ?case
    proof (cases "parent (ns ! x) = x")
      case True
      then show ?thesis using d less.prems by (subst FindRoot.simps) (simp add: same_roots_def)
    next
      case False
      define pp where "pp = parent (ns ! parent (ns ! x))"
      define ns' where "ns' = ns[x := (ns ! x)\<lparr>parent := pp\<rparr>]"
      note h = forest_halve[OF less.prems(1,2) False, folded pp_def, folded ns'_def]
      have "b - rank pp < b - rank x" using h(2,3) b[of pp] less.prems(3) by simp
      from less.hyps[OF this h(1)] obtain nodes' where n: "FindRoot ns' pp = Some (root pp, nodes')" "forest nodes' rank root" "same_roots ns' nodes'"
        using h(2) less.prems(3) by (auto simp: ns'_def)
      have "pp \<noteq> x" using h(3) by auto
      then have "same_roots ns ns'" using False less.prems(2) by (auto simp: same_roots_def ns'_def nth_list_update)
      moreover have "FindRoot ns x = FindRoot ns' pp" using False d(1) less.prems(2) by (subst FindRoot.simps) (simp add: ns'_def pp_def)
      ultimately show ?thesis using n h(4) same_roots_trans by metis
    qed
  qed
  then show ?thesis using assms by blast
qed

section \<open>The abstract map\<close>

text \<open>
  The structure stands for two partial functions: the representative of a key and the value of its class. They are
  computed by the search.
\<close>

definition uf_root :: "uf_node list \<Rightarrow> nat \<Rightarrow> nat" where
  "uf_root nodes i = fst (the (FindRoot nodes i))"

definition representative :: "('k, 'v) UnionFindMap \<Rightarrow> 'k \<rightharpoonup> 'k" where
  "representative m key = map_option (\<lambda>i. uf_keys m ! uf_root (uf_nodes m) i) (key_to_index m key)"

definition class_value :: "('k, 'v) UnionFindMap \<Rightarrow> 'k \<rightharpoonup> 'v" where
  "class_value m key = map_option (\<lambda>i. uf_values m ! uf_root (uf_nodes m) i) (key_to_index m key)"

definition same_class :: "('k, 'v) UnionFindMap \<Rightarrow> 'k \<Rightarrow> 'k \<Rightarrow> bool" where
  "same_class m a b \<longleftrightarrow> representative m a \<noteq> None \<and> representative m a = representative m b"

definition indexed :: "('k, 'v) UnionFindMap \<Rightarrow> bool" where
  "indexed m \<longleftrightarrow> length (uf_keys m) = length (uf_nodes m) \<and> length (uf_values m) = length (uf_nodes m) \<and> distinct (uf_keys m) \<and>
     (\<forall>k i. key_to_index m k = Some i \<longleftrightarrow> i < length (uf_keys m) \<and> uf_keys m ! i = k)"

definition uf_inv :: "('k, 'v) UnionFindMap \<Rightarrow> bool" where
  "uf_inv m \<longleftrightarrow> indexed m \<and> (\<exists>rank root. forest (uf_nodes m) rank root \<and> weighted (uf_nodes m) rank)"

lemma uf_root_eq: "forest nodes rank root \<Longrightarrow> i < length nodes \<Longrightarrow> uf_root nodes i = root i"
  using FindRoot_ok[of nodes rank root i] by (auto simp: uf_root_def)

lemma indexedD:
  assumes "indexed m"
  shows "length (uf_keys m) = length (uf_nodes m)" "length (uf_values m) = length (uf_nodes m)" "distinct (uf_keys m)"
    "key_to_index m k = Some i \<Longrightarrow> i < length (uf_nodes m) \<and> uf_keys m ! i = k" "i < length (uf_nodes m) \<Longrightarrow> key_to_index m (uf_keys m ! i) = Some i"
  using assms by (auto simp: indexed_def)

lemma abstract_eq:
  assumes "indexed m" "forest (uf_nodes m) rank root"
  shows "representative m k = map_option (\<lambda>i. uf_keys m ! root i) (key_to_index m k)" "class_value m k = map_option (\<lambda>i. uf_values m ! root i) (key_to_index m k)"
  using indexedD(4)[OF assms(1)] uf_root_eq[OF assms(2)] by (auto simp: representative_def class_value_def intro!: option.map_cong0 split: option.splits)

lemma keys_eq_iff: "indexed m \<Longrightarrow> i < length (uf_nodes m) \<Longrightarrow> j < length (uf_nodes m) \<Longrightarrow> uf_keys m ! i = uf_keys m ! j \<longleftrightarrow> i = j"
  using indexedD(1,3)[of m] by (simp add: nth_eq_iff_index_eq)

text \<open>After a search.\<close>

lemma search_ok:
  assumes m: "indexed m" "forest (uf_nodes m) rank root" "weighted (uf_nodes m) rank" and i: "key_to_index m k = Some i"
  obtains nodes where "FindRoot (uf_nodes m) i = Some (root i, nodes)" "indexed (m\<lparr>uf_nodes := nodes\<rparr>)" "forest nodes rank root" "weighted nodes rank" "same_roots (uf_nodes m) nodes"
    "representative (m\<lparr>uf_nodes := nodes\<rparr>) = representative m" "class_value (m\<lparr>uf_nodes := nodes\<rparr>) = class_value m" "root i < length nodes"
proof -
  have i': "i < length (uf_nodes m)" using indexedD(4)[OF m(1) i] by simp
  obtain nodes where n: "FindRoot (uf_nodes m) i = Some (root i, nodes)" "forest nodes rank root" "same_roots (uf_nodes m) nodes"
    using FindRoot_ok[OF m(2) i'] by blast
  have x: "indexed (m\<lparr>uf_nodes := nodes\<rparr>)" using m(1) n(3) by (simp add: indexed_def same_roots_def)
  then have "representative (m\<lparr>uf_nodes := nodes\<rparr>) = representative m" "class_value (m\<lparr>uf_nodes := nodes\<rparr>) = class_value m"
    using abstract_eq[OF m(1,2)] abstract_eq[OF x, of rank root] n(2) by auto
  then show thesis using that[of nodes] n x weighted_same_roots[OF m(3) n(3)] forestD(2)[OF m(2) i'] by (simp add: same_roots_def)
qed

lemma UnionFindMap_Find_ok:
  assumes "uf_inv m"
  obtains m' where "UnionFindMap_Find m key = Some ((case representative m key of None \<Rightarrow> None | Some k \<Rightarrow> map_option (Pair k) (class_value m key)), m')"
    "uf_inv m'" "representative m' = representative m" "class_value m' = class_value m" "uf_keys m' = uf_keys m"
proof -
  obtain rank root where m: "indexed m" "forest (uf_nodes m) rank root" "weighted (uf_nodes m) rank" using assms by (auto simp: uf_inv_def)
  show thesis
  proof (cases "key_to_index m key")
    case None
    then show thesis using that[of m] assms by (simp add: UnionFindMap_Find_def GetIndex_def representative_def)
  next
    case (Some i)
    obtain nodes where n: "FindRoot (uf_nodes m) i = Some (root i, nodes)" "indexed (m\<lparr>uf_nodes := nodes\<rparr>)" "forest nodes rank root" "weighted nodes rank" "same_roots (uf_nodes m) nodes"
      "representative (m\<lparr>uf_nodes := nodes\<rparr>) = representative m" "class_value (m\<lparr>uf_nodes := nodes\<rparr>) = class_value m" "root i < length nodes"
      using search_ok[OF m Some] .
    have "root i < length (uf_keys m)" "root i < length (uf_values m)" using indexedD(1,2)[OF m(1)] n(5,8) by (auto simp: same_roots_def)
    then show thesis using that[of "m\<lparr>uf_nodes := nodes\<rparr>"] n Some abstract_eq[OF m(1,2), of key]
      by (auto simp: UnionFindMap_Find_def GetIndex_def uf_inv_def)
  qed
qed

text \<open>The link of two roots.\<close>

lemma forest_link:
  assumes f: "forest nodes rank root" and w: "weighted nodes rank"
    and a: "a < length nodes" "parent (nodes ! a) = a" and b: "b < length nodes" "parent (nodes ! b) = b" and ab: "a \<noteq> b" "node_size (nodes ! b) \<le> node_size (nodes ! a)"
  defines "nodes' \<equiv> nodes[b := (nodes ! b)\<lparr>parent := a\<rparr>, a := (nodes ! a)\<lparr>node_size := node_size (nodes ! a) + node_size (nodes ! b)\<rparr>]"
  defines "rank' \<equiv> rank(a := max (rank a) (rank b + 1))"
  shows "forest nodes' rank' (\<lambda>i. if root i = b then a else root i)" "weighted nodes' rank'"
proof -
  have p: "parent (nodes' ! i) = (if i = b then a else parent (nodes ! i))" if "i < length nodes" for i
    using that a(1) b(1) ab(1) by (auto simp: nodes'_def nth_list_update)
  have s: "node_size (nodes' ! i) = (if i = a then node_size (nodes ! a) + node_size (nodes ! b) else node_size (nodes ! i))" if "i < length nodes" for i
    using that a(1) b(1) ab(1) by (auto simp: nodes'_def nth_list_update)
  have l: "length nodes' = length nodes" by (simp add: nodes'_def)
  have r: "root a = a" "root b = b" using forestD(5)[OF f] a b by auto
  show "forest nodes' rank' (\<lambda>i. if root i = b then a else root i)"
  proof (rule forestI)
    fix i assume "i < length nodes'"
    then have i: "i < length nodes" by (simp add: l)
    note d = forestD[OF f i]
    show "parent (nodes' ! i) < length nodes' \<and> (if root i = b then a else root i) < length nodes' \<and>
        parent (nodes' ! (if root i = b then a else root i)) = (if root i = b then a else root i) \<and>
        (if root (parent (nodes' ! i)) = b then a else root (parent (nodes' ! i))) = (if root i = b then a else root i)"
      using d i a b ab(1) r p l by auto
    show "(if root i = b then a else root i) = i" if "parent (nodes' ! i) = i" using that d(5) p[OF i] ab(1) by (auto split: if_splits)
    show "rank' i < rank' (parent (nodes' ! i))" if "parent (nodes' ! i) \<noteq> i"
      using that d(6) p[OF i] a(2) ab(1) by (auto simp: rank'_def less_max_iff_disj split: if_splits)
  qed
  define R where "R = {i. i < length nodes \<and> parent (nodes ! i) = i}"
  have w1: "2 ^ rank i \<le> node_size (nodes ! i)" if "i \<in> R" for i using that w by (auto simp: weighted_def R_def)
  have R: "{i. i < length nodes' \<and> parent (nodes' ! i) = i} = R - {b}" using p l ab(1) by (auto simp: R_def split: if_splits)
  have ai: "a \<in> R" "b \<in> R" "finite R" using a b by (auto simp: R_def)
  have "(\<Sum>i \<in> R - {b}. node_size (nodes' ! i)) = (\<Sum>i \<in> R. node_size (nodes ! i))"
  proof -
    have "(\<Sum>i \<in> R - {b}. node_size (nodes' ! i)) = node_size (nodes' ! a) + (\<Sum>i \<in> R - {b} - {a}. node_size (nodes' ! i))"
      using ai ab(1) by (intro sum.remove) auto
    also have "(\<Sum>i \<in> R - {b} - {a}. node_size (nodes' ! i)) = (\<Sum>i \<in> R - {b} - {a}. node_size (nodes ! i))" using s by (intro sum.cong) (auto simp: R_def)
    also have "node_size (nodes' ! a) = node_size (nodes ! b) + node_size (nodes ! a)" using s[OF a(1)] by simp
    finally have "(\<Sum>i \<in> R - {b}. node_size (nodes' ! i)) = node_size (nodes ! b) + (node_size (nodes ! a) + (\<Sum>i \<in> R - {b} - {a}. node_size (nodes ! i)))" by simp
    also have "\<dots> = node_size (nodes ! b) + (\<Sum>i \<in> R - {b}. node_size (nodes ! i))" using ai ab(1) by (subst sum.remove[of "R - {b}" a]) auto
    also have "\<dots> = (\<Sum>i \<in> R. node_size (nodes ! i))" using ai by (subst sum.remove[of R b]) auto
    finally show ?thesis .
  qed
  moreover have "2 ^ rank' i \<le> node_size (nodes' ! i)" if "i < length nodes'" "parent (nodes' ! i) = i" for i
  proof -
    have i: "i \<in> R" "i \<noteq> b" using that R by auto
    have "2 ^ max (rank a) (rank b + 1) \<le> node_size (nodes ! a) + node_size (nodes ! b)" using w1[OF ai(1)] w1[OF ai(2)] ab(2) by (auto simp: max_def)
    then show ?thesis using i w1[of i] s[of i] by (auto simp: rank'_def R_def)
  qed
  ultimately show "weighted nodes' rank'" using w unfolding weighted_def R by (simp add: R_def l)
qed

lemma UnionFindMap_new_inv: "uf_inv UnionFindMap_new" "representative UnionFindMap_new = Map.empty" "class_value UnionFindMap_new = Map.empty"
  by (auto simp: UnionFindMap_new_def uf_inv_def indexed_def forest_def weighted_def representative_def class_value_def)

text \<open>The link of two roots in the map: the keys of the class of \<open>b\<close> get the representative of \<open>a\<close>.\<close>

definition linked :: "('k, 'v) UnionFindMap \<Rightarrow> nat \<Rightarrow> nat \<Rightarrow> 'v \<Rightarrow> ('k, 'v) UnionFindMap" where
  "linked m a b v = m\<lparr>uf_values := (uf_values m)[a := v, b := v], uf_nodes := (uf_nodes m)[b := (uf_nodes m ! b)\<lparr>parent := a\<rparr>,
      a := (uf_nodes m ! a)\<lparr>node_size := node_size (uf_nodes m ! a) + node_size (uf_nodes m ! b)\<rparr>]\<rparr>"

lemma linked_ok:
  assumes m: "indexed m" "forest (uf_nodes m) rank root" "weighted (uf_nodes m) rank"
    and a: "a < length (uf_nodes m)" "parent (uf_nodes m ! a) = a" and b: "b < length (uf_nodes m)" "parent (uf_nodes m ! b) = b"
    and ab: "a \<noteq> b" "node_size (uf_nodes m ! b) \<le> node_size (uf_nodes m ! a)"
  shows "uf_inv (linked m a b v)"
    and "representative (linked m a b v) k = (if representative m k = Some (uf_keys m ! b) then Some (uf_keys m ! a) else representative m k)"
    and "class_value (linked m a b v) k = (if representative m k = Some (uf_keys m ! a) \<or> representative m k = Some (uf_keys m ! b) then Some v else class_value m k)"
proof -
  note l = forest_link[OF m(2,3) a b ab]
  have x: "indexed (linked m a b v)" using m(1) by (simp add: indexed_def linked_def)
  then show "uf_inv (linked m a b v)" using l by (auto simp: uf_inv_def linked_def)
  have f: "forest (uf_nodes (linked m a b v)) (rank(a := max (rank a) (rank b + 1))) (\<lambda>i. if root i = b then a else root i)" using l(1) by (simp add: linked_def)
  have "representative (linked m a b v) k = (if representative m k = Some (uf_keys m ! b) then Some (uf_keys m ! a) else representative m k) \<and>
    class_value (linked m a b v) k = (if representative m k = Some (uf_keys m ! a) \<or> representative m k = Some (uf_keys m ! b) then Some v else class_value m k)"
  proof (cases "key_to_index m k")
    case (Some i)
    have i: "i < length (uf_nodes m)" using indexedD(4)[OF m(1) Some] by simp
    have r: "root i < length (uf_nodes m)" using forestD(2)[OF m(2) i] .
    have k: "key_to_index (linked m a b v) k = Some i" "uf_keys (linked m a b v) = uf_keys m" using Some by (simp_all add: linked_def)
    have v: "uf_values (linked m a b v) ! (if root i = b then a else root i) = (if root i = a \<or> root i = b then v else uf_values m ! root i)"
      using a(1) b(1) r indexedD(2)[OF m(1)] by (auto simp: linked_def nth_list_update)
    show ?thesis
      using abstract_eq[OF x f, of k] abstract_eq[OF m(1,2), of k] Some k v keys_eq_iff[OF m(1) r a(1)] keys_eq_iff[OF m(1) r b(1)] by simp
  qed (simp add: representative_def class_value_def linked_def)
  then show "representative (linked m a b v) k = (if representative m k = Some (uf_keys m ! b) then Some (uf_keys m ! a) else representative m k)"
    and "class_value (linked m a b v) k = (if representative m k = Some (uf_keys m ! a) \<or> representative m k = Some (uf_keys m ! b) then Some v else class_value m k)"
    by blast+
qed

text \<open>The two searches of a call of \<open>Union\<close>.\<close>

lemma two_searches:
  assumes inv: "uf_inv m" and xy: "representative m x = Some p" "representative m y = Some q"
  obtains i j nodes1 nodes rank root where "key_to_index m x = Some i" "key_to_index m y = Some j" "p = uf_keys m ! root i" "q = uf_keys m ! root j" "root i = root j \<longleftrightarrow> p = q"
    "FindRoot (uf_nodes m) i = Some (root i, nodes1)" "FindRoot nodes1 j = Some (root j, nodes)" "i < length nodes" "j < length nodes"
    "indexed (m\<lparr>uf_nodes := nodes\<rparr>)" "forest nodes rank root" "weighted nodes rank"
    "representative (m\<lparr>uf_nodes := nodes\<rparr>) = representative m" "class_value (m\<lparr>uf_nodes := nodes\<rparr>) = class_value m"
proof -
  obtain rank root where m: "indexed m" "forest (uf_nodes m) rank root" "weighted (uf_nodes m) rank" using inv by (auto simp: uf_inv_def)
  obtain i j where k: "key_to_index m x = Some i" "key_to_index m y = Some j" "p = uf_keys m ! root i" "q = uf_keys m ! root j"
    using xy abstract_eq(1)[OF m(1,2)] by auto
  obtain n1 where n1: "FindRoot (uf_nodes m) i = Some (root i, n1)" "indexed (m\<lparr>uf_nodes := n1\<rparr>)" "forest n1 rank root" "weighted n1 rank"
    "representative (m\<lparr>uf_nodes := n1\<rparr>) = representative m" "class_value (m\<lparr>uf_nodes := n1\<rparr>) = class_value m"
    using search_ok[OF m k(1)] by blast
  obtain n2 where n2: "FindRoot n1 j = Some (root j, n2)" "indexed (m\<lparr>uf_nodes := n2\<rparr>)" "forest n2 rank root" "weighted n2 rank"
    "representative (m\<lparr>uf_nodes := n2\<rparr>) = representative m" "class_value (m\<lparr>uf_nodes := n2\<rparr>) = class_value m"
    using search_ok[OF n1(2), of rank root y j] n1(3-6) k(2) by (auto elim: that)
  have l: "i < length n2" "j < length n2" using indexedD(4)[OF n2(2)] k(1,2) by auto
  have "root i = root j \<longleftrightarrow> p = q" using keys_eq_iff[OF n2(2), of "root i" "root j"] k(3,4) l forestD(2)[OF n2(3)] by simp
  then show thesis using that[OF k(1,2,3,4) _ n1(1) n2(1) l n2(2-6)] by blast
qed

lemma Union_missing: "representative m x = None \<or> representative m y = None \<Longrightarrow> UnionFindMap_Union m x y merge = Some (False, m)"
  by (auto simp: UnionFindMap_Union_def GetIndex_def representative_def split: option.splits)

lemma Union_same:
  assumes "uf_inv m" "representative m x = Some p" "representative m y = Some p"
  obtains m' where "UnionFindMap_Union m x y merge = Some (True, m')" "uf_inv m'" "representative m' = representative m" "class_value m' = class_value m" "uf_keys m' = uf_keys m"
proof -
  obtain i j n1 nodes rank root where n: "key_to_index m x = Some i" "key_to_index m y = Some j" "root i = root j"
    "FindRoot (uf_nodes m) i = Some (root i, n1)" "FindRoot n1 j = Some (root j, nodes)"
    "indexed (m\<lparr>uf_nodes := nodes\<rparr>)" "forest nodes rank root" "weighted nodes rank"
    "representative (m\<lparr>uf_nodes := nodes\<rparr>) = representative m" "class_value (m\<lparr>uf_nodes := nodes\<rparr>) = class_value m" by (rule two_searches[OF assms]) blast
  have "UnionFindMap_Union m x y merge = Some (True, m\<lparr>uf_nodes := nodes\<rparr>)" using n(1-5) by (simp add: UnionFindMap_Union_def GetIndex_def)
  then show thesis using that[of "m\<lparr>uf_nodes := nodes\<rparr>"] n(6-10) by (auto simp: uf_inv_def)
qed

lemma Union_distinct:
  assumes "uf_inv m" "representative m x = Some p" "representative m y = Some q" "p \<noteq> q"
  obtains m' r s u v where "UnionFindMap_Union m x y merge = Some (True, m')" "uf_inv m'" "(r, s) = (p, q) \<or> (r, s) = (q, p)" "class_value m r = Some u" "class_value m s = Some v"
    "\<And>k. representative m' k = (if representative m k = Some s then Some r else representative m k)"
    "\<And>k. class_value m' k = (if representative m k = Some r \<or> representative m k = Some s then Some (merge u v) else class_value m k)" "uf_keys m' = uf_keys m"
proof -
  obtain i j n1 nodes rank root where n: "key_to_index m x = Some i" "key_to_index m y = Some j" "p = uf_keys m ! root i" "q = uf_keys m ! root j" "root i = root j \<longleftrightarrow> p = q"
    "FindRoot (uf_nodes m) i = Some (root i, n1)" "FindRoot n1 j = Some (root j, nodes)" "i < length nodes" "j < length nodes"
    "indexed (m\<lparr>uf_nodes := nodes\<rparr>)" "forest nodes rank root" "weighted nodes rank"
    "representative (m\<lparr>uf_nodes := nodes\<rparr>) = representative m" "class_value (m\<lparr>uf_nodes := nodes\<rparr>) = class_value m" by (rule two_searches[OF assms(1-3)])
  define small where "small \<longleftrightarrow> node_size (nodes ! root i) < node_size (nodes ! root j)"
  define a where "a = (if small then root j else root i)"
  define b where "b = (if small then root i else root j)"
  define m0 where "m0 = m\<lparr>uf_nodes := nodes\<rparr>"
  note di = forestD[OF n(11,8)] and dj = forestD[OF n(11,9)]
  have ne: "root i \<noteq> root j" using n(5) assms(4) by blast
  have ab: "a < length (uf_nodes m0)" "parent (uf_nodes m0 ! a) = a" "b < length (uf_nodes m0)" "parent (uf_nodes m0 ! b) = b" "a \<noteq> b" "node_size (uf_nodes m0 ! b) \<le> node_size (uf_nodes m0 ! a)"
    using di(2,3) dj(2,3) ne by (auto simp: a_def b_def small_def m0_def)
  have f: "indexed m0" "forest (uf_nodes m0) rank root" "weighted (uf_nodes m0) rank" using n(10-12) by (simp_all add: m0_def)
  define w where "w = merge (uf_values m ! a) (uf_values m ! b)"
  have lv: "length (uf_values m) = length nodes" using indexedD(2)[OF f(1)] by (simp add: m0_def)
  have k: "uf_keys m0 = uf_keys m" "representative m0 = representative m" "class_value m0 = class_value m" using n(13,14) by (simp_all add: m0_def)
  note c = linked_ok[OF f ab, of w, unfolded k]
  have u: "UnionFindMap_Union m x y merge = Some (True, linked m0 a b w)"
    using n(1,2,6,7) ne di(2) dj(2) lv
    by (cases small) (auto simp: UnionFindMap_Union_def GetIndex_def linked_def m0_def w_def a_def b_def small_def Let_def add.commute)
  have v: "class_value m (uf_keys m ! a) = Some (uf_values m ! a)" "class_value m (uf_keys m ! b) = Some (uf_values m ! b)"
    using abstract_eq(2)[OF f(1,2)] indexedD(5)[OF f(1)] ab(1-4) forestD(5)[OF f(2)] unfolding k by (auto simp: m0_def)
  have o: "(uf_keys m ! a, uf_keys m ! b) = (p, q) \<or> (uf_keys m ! a, uf_keys m ! b) = (q, p)" using n(3,4) by (auto simp: a_def b_def)
  have "uf_keys (linked m0 a b w) = uf_keys m" by (simp add: linked_def m0_def)
  with that[OF u c(1) o v c(2)] show thesis using c(3) by (simp add: w_def)
qed

lemma Insert_new:
  assumes inv: "uf_inv m" and k: "representative m key = None"
  obtains m' where "UnionFindMap_Insert m key v merge = Some m'" "uf_inv m'" "representative m' = (representative m)(key \<mapsto> key)" "class_value m' = (class_value m)(key \<mapsto> v)"
    "uf_keys m' = uf_keys m @ [key]"
proof -
  obtain rank root where m: "indexed m" "forest (uf_nodes m) rank root" "weighted (uf_nodes m) rank" using inv by (auto simp: uf_inv_def)
  define n where "n = length (uf_nodes m)"
  have none: "key_to_index m key = None" using k by (simp add: representative_def)
  have notin: "key \<notin> set (uf_keys m)" using none indexedD(1,5)[OF m(1)] by (metis in_set_conv_nth option.distinct(1))
  define m' where "m' = m\<lparr>uf_nodes := uf_nodes m @ [\<lparr>parent = n, node_size = 1\<rparr>], key_to_index := (key_to_index m)(key \<mapsto> n), uf_keys := uf_keys m @ [key], uf_values := uf_values m @ [v]\<rparr>"
  have ins: "UnionFindMap_Insert m key v merge = Some m'" using none by (simp add: UnionFindMap_Insert_def m'_def n_def Let_def)
  have ki: "key_to_index m k = Some i \<longleftrightarrow> i < n \<and> uf_keys m ! i = k" for k i using m(1) by (auto simp: indexed_def n_def)
  have x: "indexed m'" unfolding indexed_def
  proof (intro conjI allI)
    fix k i show "key_to_index m' k = Some i \<longleftrightarrow> i < length (uf_keys m') \<and> uf_keys m' ! i = k"
      using ki indexedD(1)[OF m(1)] notin by (auto simp: m'_def nth_append n_def[symmetric] less_Suc_eq)
  qed (use m(1) notin in \<open>auto simp: m'_def indexed_def\<close>)
  have f: "forest (uf_nodes m') (rank(n := 0)) (root(n := n))"
  proof (rule forestI)
    fix i assume "i < length (uf_nodes m')"
    then have i: "i < n \<or> i = n" by (auto simp: m'_def n_def)
    note d = forestD[OF m(2), folded n_def]
    show "parent (uf_nodes m' ! i) < length (uf_nodes m') \<and> (root(n := n)) i < length (uf_nodes m') \<and> parent (uf_nodes m' ! (root(n := n)) i) = (root(n := n)) i \<and>
        (root(n := n)) (parent (uf_nodes m' ! i)) = (root(n := n)) i" using i d[of i] by (auto simp: m'_def nth_append n_def[symmetric])
    show "(root(n := n)) i = i" if "parent (uf_nodes m' ! i) = i" using that i d(5)[of i] by (auto simp: m'_def nth_append n_def[symmetric])
    show "(rank(n := 0)) i < (rank(n := 0)) (parent (uf_nodes m' ! i))" if "parent (uf_nodes m' ! i) \<noteq> i"
      using that i d(1,6)[of i] by (auto simp: m'_def nth_append n_def[symmetric])
  qed
  have "{i. i < length (uf_nodes m') \<and> parent (uf_nodes m' ! i) = i} = insert n {i. i < n \<and> parent (uf_nodes m ! i) = i}"
    by (auto simp: m'_def nth_append n_def[symmetric])
  moreover have "(\<Sum>i | i < n \<and> parent (uf_nodes m ! i) = i. node_size (uf_nodes m' ! i)) = (\<Sum>i | i < n \<and> parent (uf_nodes m ! i) = i. node_size (uf_nodes m ! i))"
    by (rule sum.cong) (auto simp: m'_def nth_append n_def[symmetric])
  ultimately have w: "weighted (uf_nodes m') (rank(n := 0))"
    using m(3) by (auto simp: weighted_def n_def[symmetric] m'_def nth_append less_Suc_eq)
  have "representative m' k = ((representative m)(key \<mapsto> key)) k \<and> class_value m' k = ((class_value m)(key \<mapsto> v)) k" for k
  proof (cases "key_to_index m k")
    case None
    then show ?thesis using abstract_eq[OF x f, of k] abstract_eq[OF m(1,2), of k] indexedD(1,2)[OF m(1)] by (auto simp: m'_def nth_append n_def)
  next
    case (Some i)
    have "k \<noteq> key" using Some none by auto
    moreover have "i < n" using Some ki by simp
    ultimately show ?thesis using Some abstract_eq[OF x f, of k] abstract_eq[OF m(1,2), of k] indexedD(1,2)[OF m(1)] forestD(2)[OF m(2), of i]
      by (auto simp: m'_def nth_append n_def)
  qed
  then have "representative m' = (representative m)(key \<mapsto> key)" "class_value m' = (class_value m)(key \<mapsto> v)" by blast+
  then show thesis using that[OF ins] x f w by (auto simp: uf_inv_def m'_def)
qed

lemma Insert_existing:
  assumes inv: "uf_inv m" and k: "representative m key = Some r" "class_value m key = Some old"
  obtains m' where "UnionFindMap_Insert m key v merge = Some m'" "uf_inv m'" "representative m' = representative m"
    "class_value m' = (\<lambda>k. if representative m k = Some r then Some (merge old v) else class_value m k)" "uf_keys m' = uf_keys m"
proof -
  obtain rank root where m: "indexed m" "forest (uf_nodes m) rank root" "weighted (uf_nodes m) rank" using inv by (auto simp: uf_inv_def)
  obtain i where i: "key_to_index m key = Some i" using k by (auto simp: representative_def)
  obtain nodes where n: "FindRoot (uf_nodes m) i = Some (root i, nodes)" "indexed (m\<lparr>uf_nodes := nodes\<rparr>)" "forest nodes rank root" "weighted nodes rank" "same_roots (uf_nodes m) nodes"
    "representative (m\<lparr>uf_nodes := nodes\<rparr>) = representative m" "class_value (m\<lparr>uf_nodes := nodes\<rparr>) = class_value m" "root i < length nodes"
    using search_ok[OF m i] .
  have l: "length nodes = length (uf_nodes m)" "length (uf_values m) = length (uf_nodes m)" using n(5) indexedD(2)[OF m(1)] by (auto simp: same_roots_def)
  have o: "uf_values m ! root i = old" "r = uf_keys m ! root i" using k i abstract_eq[OF m(1,2), of key] by auto
  define m' where "m' = m\<lparr>uf_nodes := nodes, uf_values := (uf_values m)[root i := merge old v]\<rparr>"
  have ins: "UnionFindMap_Insert m key v merge = Some m'" using i n(1,8) l o by (simp add: UnionFindMap_Insert_def m'_def)
  have x: "indexed m'" "forest (uf_nodes m') rank root" "weighted (uf_nodes m') rank" using n(2-4) by (auto simp: indexed_def m'_def)
  have "representative m' k = representative m k \<and> class_value m' k = (if representative m k = Some r then Some (merge old v) else class_value m k)" for k
  proof (cases "key_to_index m k")
    case None
    then show ?thesis by (simp add: m'_def representative_def class_value_def)
  next
    case (Some j)
    have j: "root j < length (uf_nodes m)" using forestD(2)[OF m(2)] indexedD(4)[OF m(1) Some] by simp
    have "uf_keys m ! root j = r \<longleftrightarrow> root j = root i" using keys_eq_iff[OF m(1) j] n(8) l(1) o(2) by simp
    then show ?thesis using Some abstract_eq[OF x(1,2), of k] abstract_eq[OF m(1,2), of k] j l by (auto simp: m'_def nth_list_update)
  qed
  then have "representative m' = representative m" "class_value m' = (\<lambda>k. if representative m k = Some r then Some (merge old v) else class_value m k)" by blast+
  then show thesis using that[OF ins] x by (auto simp: uf_inv_def m'_def)
qed

section \<open>Heights\<close>

text \<open>From a node to its root it is at most the binary logarithm of the number of keys.\<close>

lemma rank_bound:
  assumes "weighted nodes rank" "i < length nodes" "parent (nodes ! i) = i"
  shows "2 ^ rank i \<le> length nodes"
proof -
  have "node_size (nodes ! i) \<le> (\<Sum>i | i < length nodes \<and> parent (nodes ! i) = i. node_size (nodes ! i))" by (rule member_le_sum) (use assms in auto)
  then show ?thesis using assms unfolding weighted_def by (metis le_trans)
qed

lemma path_length:
  assumes f: "forest nodes rank root" and i: "i < length nodes"
  shows "\<exists>k \<le> rank (root i) - rank i. ((\<lambda>i. parent (nodes ! i)) ^^ k) i = root i \<and> rank i \<le> rank (root i)"
proof -
  obtain b where b: "\<And>i. i < length nodes \<Longrightarrow> rank i \<le> b" using bounded_rank[of "length nodes" rank] by blast
  from i show ?thesis
  proof (induction "b - rank i" arbitrary: i rule: less_induct)
    case less
    note d = forestD[OF f less.prems]
    show ?case
    proof (cases "parent (nodes ! i) = i")
      case True
      then show ?thesis using d(5) by (intro exI[of _ 0]) simp
    next
      case False
      have "b - rank (parent (nodes ! i)) < b - rank i" using d(6)[OF False] b[OF d(1)] by simp
      from less.hyps[OF this d(1)] obtain k where k: "k \<le> rank (root i) - rank (parent (nodes ! i))" "((\<lambda>i. parent (nodes ! i)) ^^ k) (parent (nodes ! i)) = root i"
        "rank (parent (nodes ! i)) \<le> rank (root i)" using d(4) by auto
      then show ?thesis using d(6)[OF False] by (intro exI[of _ "Suc k"]) (simp add: funpow_swap1[of "\<lambda>i. parent (nodes ! i)"])
    qed
  qed
qed

lemma logarithmic_height:
  assumes "uf_inv m" "i < length (uf_nodes m)"
  obtains k where "2 ^ k \<le> length (uf_nodes m)" "((\<lambda>i. parent (uf_nodes m ! i)) ^^ k) i = uf_root (uf_nodes m) i"
proof -
  obtain rank root where m: "forest (uf_nodes m) rank root" "weighted (uf_nodes m) rank" using assms(1) by (auto simp: uf_inv_def)
  obtain k where k: "k \<le> rank (root i) - rank i" "((\<lambda>i. parent (uf_nodes m ! i)) ^^ k) i = root i" using path_length[OF m(1) assms(2)] by blast
  have "2 ^ rank (root i) \<le> length (uf_nodes m)" using rank_bound[OF m(2)] forestD(2,3)[OF m(1) assms(2)] by blast
  moreover have "(2 :: nat) ^ k \<le> 2 ^ rank (root i)" using k(1) by (intro power_increasing) auto
  ultimately have "2 ^ k \<le> length (uf_nodes m)" by (rule le_trans[rotated])
  then show thesis using that[of k] k(2) uf_root_eq[OF m(1) assms(2)] by simp
qed

section \<open>All maps the class can build\<close>

inductive uf_reachable :: "('k, 'v) UnionFindMap \<Rightarrow> bool" where
  new: "uf_reachable UnionFindMap_new"
| insert: "uf_reachable m \<Longrightarrow> UnionFindMap_Insert m key v merge = Some m' \<Longrightarrow> uf_reachable m'"
| find: "uf_reachable m \<Longrightarrow> UnionFindMap_Find m key = Some (r, m') \<Longrightarrow> uf_reachable m'"
| union: "uf_reachable m \<Longrightarrow> UnionFindMap_Union m x y merge = Some (b, m') \<Longrightarrow> uf_reachable m'"

lemma representative_class: "representative m k = None \<longleftrightarrow> class_value m k = None"
  by (simp add: representative_def class_value_def)

lemma Insert_total:
  assumes "uf_inv m"
  obtains m' where "UnionFindMap_Insert m key v merge = Some m'" "uf_inv m'"
proof (cases "representative m key")
  case None
  then show thesis using Insert_new[OF assms] that by metis
next
  case (Some r)
  then obtain old where "class_value m key = Some old" using representative_class[of m key] by auto
  then show thesis using Insert_existing[OF assms Some] that by metis
qed

lemma Union_total:
  assumes "uf_inv m"
  obtains b m' where "UnionFindMap_Union m x y merge = Some (b, m')" "uf_inv m'" "b \<longleftrightarrow> representative m x \<noteq> None \<and> representative m y \<noteq> None"
proof (cases "representative m x = None \<or> representative m y = None")
  case True
  then show thesis using Union_missing[OF True] that assms by blast
next
  case False
  then obtain p q where pq: "representative m x = Some p" "representative m y = Some q" by auto
  show thesis
  proof (cases "p = q")
    case True
    then show thesis using Union_same[OF assms, of x p y] pq that by (metis False)
  next
    case False
    show thesis by (rule Union_distinct[OF assms pq False, where merge = merge]) (use that pq in blast)
  qed
qed

lemma uf_reachable_inv: "uf_reachable m \<Longrightarrow> uf_inv m"
proof (induction rule: uf_reachable.induct)
  case new
  then show ?case by (rule UnionFindMap_new_inv)
next
  case (insert m key v merge m')
  then show ?case using Insert_total[OF insert.IH, of key v merge] by (metis option.inject)
next
  case (find m key r m')
  then show ?case using UnionFindMap_Find_ok[OF find.IH, of key] by (metis option.inject prod.inject)
next
  case (union m x y merge b m')
  then show ?case using Union_total[OF union.IH, of x y merge] by (metis option.inject prod.inject)
qed

lemma representative_root:
  assumes "uf_inv m" "representative m k = Some r"
  shows "representative m r = Some r" "r \<in> set (uf_keys m)"
proof -
  obtain rank root where m: "indexed m" "forest (uf_nodes m) rank root" using assms(1) by (auto simp: uf_inv_def)
  obtain i where i: "key_to_index m k = Some i" "r = uf_keys m ! root i" using assms(2) abstract_eq(1)[OF m] by auto
  have l: "i < length (uf_nodes m)" using indexedD(4)[OF m(1) i(1)] by simp
  have r: "root i < length (uf_nodes m)" "root (root i) = root i" using forestD[OF m(2) l] forestD(5)[OF m(2)] by auto
  show "representative m r = Some r" using abstract_eq(1)[OF m, of r] indexedD(5)[OF m(1) r(1)] r(2) i(2) by simp
  show "r \<in> set (uf_keys m)" using r(1) i(2) indexedD(1)[OF m(1)] by simp
qed

lemma same_value:
  assumes "uf_inv m" "representative m k = representative m l"
  shows "class_value m k = class_value m l"
proof -
  obtain rank root where m: "indexed m" "forest (uf_nodes m) rank root" using assms(1) by (auto simp: uf_inv_def)
  show ?thesis
  proof (cases "key_to_index m k")
    case None
    then show ?thesis using assms(2) by (auto simp: representative_def class_value_def)
  next
    case (Some i)
    then obtain j where j: "key_to_index m l = Some j" "uf_keys m ! root i = uf_keys m ! root j" using assms(2) abstract_eq(1)[OF m, of k] abstract_eq(1)[OF m, of l] by (cases "key_to_index m l") auto
    have "root i = root j" using keys_eq_iff[OF m(1)] forestD(2)[OF m(2)] indexedD(4)[OF m(1)] Some j by metis
    then show ?thesis using abstract_eq(2)[OF m] Some j by simp
  qed
qed

lemma representative_dom: "uf_inv m \<Longrightarrow> representative m k \<noteq> None \<longleftrightarrow> k \<in> set (uf_keys m)"
  by (auto simp: uf_inv_def indexed_def representative_def in_set_conv_nth)

text \<open>The representatives: one key of every class. They need not be the smallest keys.\<close>

lemma GetRepresentatives_ok:
  assumes inv: "uf_inv m"
  obtains m' where "GetRepresentatives m = Some (ran (representative m), m')" "uf_inv m'" "representative m' = representative m" "class_value m' = class_value m"
proof -
  let ?step = "\<lambda>key (result, m). do { (r, m) \<leftarrow> UnionFindMap_Find m key; (k, v) \<leftarrow> r; Some (insert k result, m) }"
  have "\<exists>m'. for_state ?step ks (S, n) = Some (S \<union> {r. \<exists>k \<in> set ks. representative m k = Some r}, m') \<and> uf_inv m' \<and> representative m' = representative m \<and> class_value m' = class_value m"
    if "uf_inv n" "representative n = representative m" "class_value n = class_value m" "set ks \<subseteq> set (uf_keys m)" for ks S n
    using that
  proof (induction ks arbitrary: S n)
    case (Cons k ks)
    have "representative m k \<noteq> None" using representative_dom[OF inv, of k] Cons.prems(4) by simp
    then obtain r v where r: "representative m k = Some r" "class_value m k = Some v" using representative_class[of m k] by auto
    obtain n' where n: "UnionFindMap_Find n k = Some (Some (r, v), n')" "uf_inv n'" "representative n' = representative m" "class_value n' = class_value m"
      by (rule UnionFindMap_Find_ok[OF Cons.prems(1), of k]) (use r Cons.prems(2,3) in simp)
    obtain m' where "for_state ?step ks (insert r S, n') = Some (insert r S \<union> {r. \<exists>k \<in> set ks. representative m k = Some r}, m')" "uf_inv m'" "representative m' = representative m" "class_value m' = class_value m"
      using Cons.IH[OF n(2-4), of "insert r S"] Cons.prems(4) by auto
    moreover have "insert r S \<union> {r. \<exists>k \<in> set ks. representative m k = Some r} = S \<union> {r. \<exists>k \<in> set (k # ks). representative m k = Some r}" using r(1) by auto
    ultimately show ?case using n(1) by simp
  qed auto
  from this[of m "uf_keys m" "{}"] inv obtain m' where "GetRepresentatives m = Some ({r. \<exists>k \<in> set (uf_keys m). representative m k = Some r}, m')"
    "uf_inv m'" "representative m' = representative m" "class_value m' = class_value m" by (auto simp: GetRepresentatives_def)
  moreover have "{r. \<exists>k \<in> set (uf_keys m). representative m k = Some r} = ran (representative m)" using representative_dom[OF inv] by (fastforce simp: ran_def)
  ultimately show thesis using that by simp
qed

section \<open>Partitions\<close>

text \<open>
  The interface of a store of a partition: \<open>same\<close> is an equivalence on the members, and \<open>unite\<close> merges two classes. A
  client that unites the ends of edges obtains the connected components.
\<close>

locale partition_store =
  fixes ok :: "'s \<Rightarrow> bool" and same :: "'s \<Rightarrow> 'k \<Rightarrow> 'k \<Rightarrow> bool" and unite :: "'s \<Rightarrow> 'k \<Rightarrow> 'k \<Rightarrow> 's option"
  assumes same_sym: "same s a b \<Longrightarrow> same s b a"
    and same_trans: "same s a b \<Longrightarrow> same s b c \<Longrightarrow> same s a c"
    and unite_same: "ok s \<Longrightarrow> same s x x \<Longrightarrow> same s y y \<Longrightarrow>
      \<exists>s'. unite s x y = Some s' \<and> ok s' \<and> (\<forall>a b. same s' a b \<longleftrightarrow> same s a b \<or> same s a x \<and> same s y b \<or> same s a y \<and> same s x b)"
begin

definition unite_all :: "('k \<times> 'k) list \<Rightarrow> 's \<Rightarrow> 's option" where
  "unite_all es s = for_state (\<lambda>(x, y) s. unite s x y) es s"

definition classes :: "'s \<Rightarrow> ('k \<times> 'k) set" where
  "classes s = {(a, b). same s a b}"

lemma classes_rtrancl: "(a, b) \<in> (classes s)\<^sup>* \<Longrightarrow> same s a a \<Longrightarrow> same s a b"
  by (induction rule: rtrancl_induct) (auto simp: classes_def intro: same_trans)

lemma unite_all_components:
  assumes "ok s" "\<forall>(x, y) \<in> set es. same s x x \<and> same s y y"
  shows "\<exists>s'. unite_all es s = Some s' \<and> ok s' \<and> (\<forall>a b. same s' a b \<longleftrightarrow> same s a a \<and> (a, b) \<in> (classes s \<union> (set es \<union> (set es)\<inverse>))\<^sup>*)"
  using assms
proof (induction es arbitrary: s)
  case Nil
  have "same s a b \<longleftrightarrow> same s a a \<and> (a, b) \<in> (classes s)\<^sup>*" for a b
  proof
    assume "same s a b"
    moreover from this have "same s a a" using same_trans[OF _ same_sym] by blast
    ultimately show "same s a a \<and> (a, b) \<in> (classes s)\<^sup>*" by (auto simp: classes_def)
  qed (use classes_rtrancl in blast)
  moreover have "unite_all [] s = Some s" "classes s \<union> (set [] \<union> (set [])\<inverse>) = classes s" by (simp_all add: unite_all_def)
  ultimately show ?case using Nil.prems(1) by (intro exI[of _ s]) metis
next
  case (Cons e es)
  obtain x y where e: "e = (x, y)" by (cases e)
  have m: "same s x x" "same s y y" using Cons.prems(2) e by auto
  obtain s1 where s1: "unite s x y = Some s1" "ok s1" "\<And>a b. same s1 a b \<longleftrightarrow> same s a b \<or> same s a x \<and> same s y b \<or> same s a y \<and> same s x b"
    using unite_same[OF Cons.prems(1) m] by blast
  have r: "same s1 a a \<longleftrightarrow> same s a a" for a using s1(3) same_sym same_trans by blast
  define E where "E = set es \<union> (set es)\<inverse>"
  have "(classes s1 \<union> E)\<^sup>* = (classes s \<union> insert (x, y) (insert (y, x) E))\<^sup>*"
  proof (rule rtrancl_subset)
    show "classes s \<union> insert (x, y) (insert (y, x) E) \<subseteq> classes s1 \<union> E" using s1(3) m by (auto simp: classes_def)
    have "(a, b) \<in> (classes s \<union> insert (x, y) (insert (y, x) E))\<^sup>*" if "same s1 a b" for a b
    proof -
      have s: "(c, d) \<in> (classes s \<union> insert (x, y) (insert (y, x) E))\<^sup>*" if "same s c d" for c d using that by (auto simp: classes_def)
      have t: "(x, y) \<in> (classes s \<union> insert (x, y) (insert (y, x) E))\<^sup>*" "(y, x) \<in> (classes s \<union> insert (x, y) (insert (y, x) E))\<^sup>*" by auto
      show ?thesis using that[unfolded s1(3)] s t by (meson rtrancl_trans)
    qed
    then show "classes s1 \<union> E \<subseteq> (classes s \<union> insert (x, y) (insert (y, x) E))\<^sup>*" by (auto simp: classes_def)
  qed
  moreover have "set (e # es) \<union> (set (e # es))\<inverse> = insert (x, y) (insert (y, x) E)" using e by (auto simp: E_def)
  moreover obtain s' where "unite_all es s1 = Some s'" "ok s'" "\<forall>a b. same s' a b \<longleftrightarrow> same s1 a a \<and> (a, b) \<in> (classes s1 \<union> E)\<^sup>*"
    using Cons.IH[OF s1(2)] Cons.prems(2) r by (auto simp: E_def)
  ultimately show ?case using s1(1) e r by (simp add: unite_all_def)
qed

end

section \<open>The operations\<close>

lemma Insert_cases:
  assumes inv: "uf_inv m"
  shows "\<exists>m'. UnionFindMap_Insert m x w merge = Some m' \<and> (case representative m x of
        None \<Rightarrow> representative m' = (representative m)(x \<mapsto> x) \<and> class_value m' = (class_value m)(x \<mapsto> w)
      | Some r \<Rightarrow> representative m' = representative m \<and>
          class_value m' = (\<lambda>k. if representative m k = Some r then map_option (\<lambda>old. merge old w) (class_value m k) else class_value m k))"
proof (cases "representative m x")
  case None
  obtain m' where "UnionFindMap_Insert m x w merge = Some m'" "representative m' = (representative m)(x \<mapsto> x)" "class_value m' = (class_value m)(x \<mapsto> w)"
    by (rule Insert_new[OF inv None])
  then show ?thesis using None by simp
next
  case (Some r)
  then obtain old where old: "class_value m x = Some old" using representative_class[of m x] by auto
  have "class_value m k = Some old" if "representative m k = Some r" for k using same_value[OF inv, of k x] that Some old by simp
  then have "(\<lambda>k. if representative m k = Some r then Some (merge old w) else class_value m k) =
      (\<lambda>k. if representative m k = Some r then map_option (\<lambda>old. merge old w) (class_value m k) else class_value m k)" by auto
  moreover obtain m' where "UnionFindMap_Insert m x w merge = Some m'" "representative m' = representative m"
    "class_value m' = (\<lambda>k. if representative m k = Some r then Some (merge old w) else class_value m k)" by (rule Insert_existing[OF inv Some old])
  ultimately show ?thesis using Some by simp
qed

lemma Union_cases:
  assumes inv: "uf_inv m"
  shows "\<exists>b m'. UnionFindMap_Union m x y merge = Some (b, m') \<and> (case (representative m x, representative m y) of
        (Some p, Some q) \<Rightarrow> b \<and> (if p = q then representative m' = representative m \<and> class_value m' = class_value m
          else \<exists>r s u v. ((r, s) = (p, q) \<or> (r, s) = (q, p)) \<and> class_value m r = Some u \<and> class_value m s = Some v \<and>
            representative m' = (\<lambda>k. if representative m k = Some s then Some r else representative m k) \<and>
            class_value m' = (\<lambda>k. if representative m k = Some r \<or> representative m k = Some s then Some (merge u v) else class_value m k))
      | _ \<Rightarrow> \<not> b \<and> m' = m)"
proof (cases "representative m x = None \<or> representative m y = None")
  case True
  then have "case (representative m x, representative m y) of (Some p, Some q) \<Rightarrow> False | _ \<Rightarrow> True" by (auto split: option.split)
  then show ?thesis using Union_missing[OF True, of merge] by (intro exI[of _ False] exI[of _ m]) (auto split: option.splits)
next
  case False
  then obtain p q where pq: "representative m x = Some p" "representative m y = Some q" by auto
  show ?thesis
  proof (cases "p = q")
    case True
    obtain m' where "UnionFindMap_Union m x y merge = Some (True, m')" "representative m' = representative m" "class_value m' = class_value m"
      using Union_same[OF inv, of x p y merge] pq True by metis
    then show ?thesis using pq True by (intro exI[of _ True] exI[of _ m']) simp
  next
    case ne: False
    obtain m' r s u v where m': "UnionFindMap_Union m x y merge = Some (True, m')" "uf_inv m'" "(r, s) = (p, q) \<or> (r, s) = (q, p)" "class_value m r = Some u" "class_value m s = Some v"
      "\<And>k. representative m' k = (if representative m k = Some s then Some r else representative m k)"
      "\<And>k. class_value m' k = (if representative m k = Some r \<or> representative m k = Some s then Some (merge u v) else class_value m k)" "uf_keys m' = uf_keys m"
      using Union_distinct[OF inv pq ne, of merge] by metis
    have "representative m' = (\<lambda>k. if representative m k = Some s then Some r else representative m k)"
      "class_value m' = (\<lambda>k. if representative m k = Some r \<or> representative m k = Some s then Some (merge u v) else class_value m k)" using m'(6,7) by blast+
    then show ?thesis using m'(1,3,4,5) pq ne by (intro exI[of _ True] exI[of _ m']) (simp, blast)
  qed
qed

lemma UnionFind_Union_same:
  fixes m :: "'k UnionFind"
  assumes inv: "uf_inv m" and xy: "same_class m x x" "same_class m y y"
  shows "\<exists>m'. UnionFind_Union m x y = Some m' \<and> uf_inv m' \<and>
    (\<forall>a b. same_class m' a b \<longleftrightarrow> same_class m a b \<or> same_class m a x \<and> same_class m y b \<or> same_class m a y \<and> same_class m x b)"
proof -
  obtain p q where pq: "representative m x = Some p" "representative m y = Some q" using xy by (auto simp: same_class_def)
  show ?thesis
  proof (cases "p = q")
    case True
    obtain m' where m': "UnionFindMap_Union m x y (\<lambda>x y. ()) = Some (True, m')" "uf_inv m'" "representative m' = representative m"
      using Union_same[OF inv, of x p y] pq True by metis
    then show ?thesis using pq True by (auto simp: UnionFind_Union_def same_class_def check_def)
  next
    case False
    obtain m' r s where m': "UnionFindMap_Union m x y (\<lambda>x y. ()) = Some (True, m')" "uf_inv m'" "(r, s) = (p, q) \<or> (r, s) = (q, p)"
      "\<And>k. representative m' k = (if representative m k = Some s then Some r else representative m k)"
      by (rule Union_distinct[OF inv pq False, where merge = "\<lambda>x y. ()"]) blast
    have "same_class m' a b \<longleftrightarrow> same_class m a b \<or> same_class m a x \<and> same_class m y b \<or> same_class m a y \<and> same_class m x b" for a b
      using m'(3,4) pq by (auto simp: same_class_def)
    then show ?thesis using m'(1,2) by (auto simp: UnionFind_Union_def check_def)
  qed
qed

interpretation union_find: partition_store "uf_inv :: 'k UnionFind \<Rightarrow> bool" same_class UnionFind_Union
proof
  fix s :: "'k UnionFind" and x y assume "uf_inv s" "same_class s x x" "same_class s y y"
  then show "\<exists>s'. UnionFind_Union s x y = Some s' \<and> uf_inv s' \<and>
    (\<forall>a b. same_class s' a b \<longleftrightarrow> same_class s a b \<or> same_class s a x \<and> same_class s y b \<or> same_class s a y \<and> same_class s x b)" by (rule UnionFind_Union_same)
qed (unfold same_class_def, metis+)

lemma UnionFind_Insert_ok:
  fixes u :: "'k UnionFind"
  assumes "uf_inv u"
  obtains u' where "UnionFind_Insert u k = Some u'" "uf_inv u'" "representative u' = (if representative u k = None then (representative u)(k \<mapsto> k) else representative u)"
proof (cases "representative u k")
  case None
  then show thesis using Insert_new[OF assms None, where v = "()" and merge = "\<lambda>old_val new_val. new_val"] that
    by (metis UnionFind_Insert_def UnionFindMap_Insert_replace_def)
next
  case (Some r)
  moreover obtain old where "class_value u k = Some old" using Some representative_class[of u k] by auto
  ultimately show thesis using Insert_existing[OF assms Some, where v = "()" and merge = "\<lambda>old_val new_val. new_val"] that
    by (metis UnionFind_Insert_def UnionFindMap_Insert_replace_def option.distinct(1))
qed

lemma UnionFind_singletons:
  "\<exists>u :: 'k UnionFind. for_state (\<lambda>k u. UnionFind_Insert u k) ks UnionFindMap_new = Some u \<and> uf_inv u \<and> representative u = (\<lambda>k. if k \<in> set ks then Some k else None)"
proof (induction ks rule: rev_induct)
  case Nil
  then show ?case using UnionFindMap_new_inv by auto
next
  case (snoc k ks)
  then obtain u :: "'k UnionFind" where u: "for_state (\<lambda>k u. UnionFind_Insert u k) ks UnionFindMap_new = Some u" "uf_inv u" "representative u = (\<lambda>k. if k \<in> set ks then Some k else None)" by blast
  obtain u' where "UnionFind_Insert u k = Some u'" "uf_inv u'" "representative u' = (if representative u k = None then (representative u)(k \<mapsto> k) else representative u)"
    using UnionFind_Insert_ok[OF u(2)] .
  then show ?case using u by (auto simp: for_state_append)
qed

lemma UnionFind_Find_ok:
  fixes u :: "'k UnionFind"
  assumes "uf_inv u" "representative u k = Some r"
  shows "\<exists>u'. UnionFind_Find u k = Some (r, u')"
proof -
  have c: "class_value u k = Some ()" using assms(2) representative_class[of u k] by auto
  show ?thesis by (rule UnionFindMap_Find_ok[OF assms(1), of k]) (use assms(2) c in \<open>simp add: UnionFind_Find_def\<close>)
qed

text \<open>Elements and edges: the classes are the connected components of the graph.\<close>

definition components :: "'k list \<Rightarrow> ('k \<times> 'k) list \<Rightarrow> 'k UnionFind option" where
  "components ks es = do { u \<leftarrow> for_state (\<lambda>k u. UnionFind_Insert u k) ks UnionFindMap_new; for_state (\<lambda>(x, y) u. UnionFind_Union u x y) es u }"

lemma components_connected:
  assumes "\<forall>(x, y) \<in> set es. x \<in> set ks \<and> y \<in> set ks"
  obtains u where "components ks es = Some u" "uf_inv u" "\<And>a b. same_class u a b \<longleftrightarrow> a \<in> set ks \<and> (a, b) \<in> (set es \<union> (set es)\<inverse>)\<^sup>*"
proof -
  obtain u :: "'a UnionFind" where u: "for_state (\<lambda>k u. UnionFind_Insert u k) ks UnionFindMap_new = Some u" "uf_inv u" "representative u = (\<lambda>k. if k \<in> set ks then Some k else None)"
    using UnionFind_singletons[of ks] by blast
  have s: "same_class u a b \<longleftrightarrow> a \<in> set ks \<and> a = b" for a b using u(3) by (auto simp: same_class_def split: if_splits)
  have "(union_find.classes u \<union> (set es \<union> (set es)\<inverse>))\<^sup>* = (set es \<union> (set es)\<inverse>)\<^sup>*"
    by (rule rtrancl_subset) (auto simp: union_find.classes_def s)
  then show thesis using union_find.unite_all_components[OF u(2), of es] assms that u(1) unfolding union_find.unite_all_def s by (fastforce simp: components_def)
qed

section \<open>Examples\<close>

definition sample_map :: "(nat, nat) UnionFindMap" where
  "sample_map = \<lparr>key_to_index = [1 \<mapsto> 0, 2 \<mapsto> 1], uf_keys = [1, 2], uf_values = [10, 20], uf_nodes = [\<lparr>parent = 0, node_size = 1\<rparr>, \<lparr>parent = 1, node_size = 1\<rparr>]\<rparr>"

lemma sample_map_reachable: "uf_reachable sample_map"
proof -
  define m1 :: "(nat, nat) UnionFindMap" where "m1 = \<lparr>key_to_index = [1 \<mapsto> 0], uf_keys = [1], uf_values = [10], uf_nodes = [\<lparr>parent = 0, node_size = 1\<rparr>]\<rparr>"
  have "UnionFindMap_Insert UnionFindMap_new 1 10 (\<lambda>a b. b) = Some m1" "UnionFindMap_Insert m1 2 20 (\<lambda>a b. b) = Some sample_map"
    by (simp_all add: UnionFindMap_Insert_def UnionFindMap_new_def m1_def sample_map_def)
  then show ?thesis using uf_reachable.new uf_reachable.insert by metis
qed

text \<open>The representative of a class need not be its smallest key.\<close>

lemma representative_not_smallest:
  "map_option (\<lambda>r. map_option fst (UnionFindMap_Find (snd r) 1)) (UnionFindMap_Union sample_map 2 1 (\<lambda>a b. a)) =
   Some (Some (Some (2, 20)))"
  by (simp add: UnionFindMap_Union_def UnionFindMap_Find_def GetIndex_def sample_map_def FindRoot.simps)

end
