(* ===== verification/BinarySearch.thy ===== *)
theory BinarySearch
  imports MathUtil
begin

text \<open>
  \<open>xls/data_structures/binary_search.cc\<close>: the search for the last value of a range at which a predicate holds, and for the
  first one. The theory shows that the searches end, what they return for any predicate and for monotone ones, their
  errors, and on which ranges the arithmetic overflows.
\<close>

section \<open>The searches\<close>

text \<open>
  Numbers of type \<open>int64_t\<close> are integers. A result out of range is undefined behaviour in C++ and is an abort here. The
  predicate is a call that may abort or return an error.
\<close>

definition i64 :: "int \<Rightarrow> int option" where
  "i64 x = (if - (2 ^ 63) \<le> x \<and> x < 2 ^ 63 then Some x else None)"

type_synonym search_predicate = "int \<Rightarrow> bool status_or option"

partial_function (option) MaxTrue_loop :: "search_predicate \<Rightarrow> int \<Rightarrow> int \<Rightarrow> int status_or option" where
  "MaxTrue_loop f highest_true lowest_false = do {
     l \<leftarrow> i64 (lowest_false - 1);
     if highest_true < l then do {
       d \<leftarrow> i64 (lowest_false - highest_true);
       middle \<leftarrow> i64 (highest_true + c_div d 2);
       f_middle \<leftarrow> f middle;
       (case f_middle of
          Inl e \<Rightarrow> Some (Inl e)
        | Inr t \<Rightarrow> if t then MaxTrue_loop f middle lowest_false else MaxTrue_loop f highest_true middle) }
     else Some (Inr highest_true) }"

definition BinarySearchMaxTrueWithStatus :: "int \<Rightarrow> int \<Rightarrow> search_predicate \<Rightarrow> int status_or option" where
  "BinarySearchMaxTrueWithStatus start finish f =
     (if \<not> start \<le> finish then Some (Inl InternalError)
      else or_return (f start) (\<lambda>f_start.
        if \<not> f_start then Some (Inl InvalidArgumentError)
        else or_return (f finish) (\<lambda>f_end. if f_end then Some (Inr finish) else MaxTrue_loop f start finish)))"

partial_function (option) MinTrue_loop :: "search_predicate \<Rightarrow> int \<Rightarrow> int \<Rightarrow> int status_or option" where
  "MinTrue_loop f highest_false lowest_true = do {
     l \<leftarrow> i64 (lowest_true - 1);
     if highest_false < l then do {
       d \<leftarrow> i64 (lowest_true - highest_false);
       middle \<leftarrow> i64 (highest_false + c_div d 2);
       f_middle \<leftarrow> f middle;
       (case f_middle of
          Inl e \<Rightarrow> Some (Inl e)
        | Inr t \<Rightarrow> if t then MinTrue_loop f highest_false middle else MinTrue_loop f middle lowest_true) }
     else Some (Inr lowest_true) }"

definition BinarySearchMinTrueWithStatus :: "int \<Rightarrow> int \<Rightarrow> search_predicate \<Rightarrow> int status_or option" where
  "BinarySearchMinTrueWithStatus start finish f =
     (if \<not> start \<le> finish then Some (Inl InternalError)
      else or_return (f finish) (\<lambda>f_end.
        if \<not> f_end then Some (Inl InvalidArgumentError)
        else or_return (f start) (\<lambda>f_start. if f_start then Some (Inr start) else MinTrue_loop f start finish)))"

text \<open>The variants without a status abort instead. The predicate is a call without errors.\<close>

definition BinarySearchMaxTrue :: "int \<Rightarrow> int \<Rightarrow> (int \<Rightarrow> bool option) \<Rightarrow> int option" where
  "BinarySearchMaxTrue start finish f = do {
     check (start \<le> finish);
     f_start \<leftarrow> f start; check f_start;
     f_end \<leftarrow> f finish;
     if f_end then Some finish
     else do { r \<leftarrow> BinarySearchMaxTrueWithStatus start finish (\<lambda>i. map_option Inr (f i)); status_value r } }"

definition BinarySearchMinTrue :: "int \<Rightarrow> int \<Rightarrow> (int \<Rightarrow> bool option) \<Rightarrow> int option" where
  "BinarySearchMinTrue start finish f = do {
     check (start \<le> finish);
     f_end \<leftarrow> f finish; check f_end;
     f_start \<leftarrow> f start;
     if f_start then Some start
     else do { r \<leftarrow> BinarySearchMinTrueWithStatus start finish (\<lambda>i. map_option Inr (f i)); status_value r } }"

section \<open>What the loops return\<close>

lemma i64_ok: "- (2 ^ 63) \<le> x \<Longrightarrow> x < 2 ^ 63 \<Longrightarrow> i64 x = Some x"
  by (simp add: i64_def)

text \<open>The middle of an interval of more than one step is strictly inside.\<close>

lemma middle_inside: "a + 1 < b \<Longrightarrow> a < a + c_div (b - a) 2 \<and> a + c_div (b - a) 2 < b"
  by (simp add: c_div_def) presburger

text \<open>Ranges on which no subtraction overflows.\<close>

definition searchable :: "int \<Rightarrow> int \<Rightarrow> bool" where
  "searchable lo hi \<longleftrightarrow> - (2 ^ 63) \<le> lo \<and> hi < 2 ^ 63 \<and> hi - lo < 2 ^ 63"

lemma searchable_arith:
  assumes "searchable lo hi" "lo \<le> a" "a < b" "b \<le> hi"
  shows "i64 (b - 1) = Some (b - 1)" "i64 (b - a) = Some (b - a)" "a + 1 < b \<Longrightarrow> i64 (a + c_div (b - a) 2) = Some (a + c_div (b - a) 2)"
  using assms middle_inside[of a b] by (auto simp: i64_def searchable_def)

lemma halving_induct [consumes 1, case_names base step]:
  assumes "a < b" "\<And>a. Q a (a + 1)" "\<And>a b. a + 1 < b \<Longrightarrow> Q a (a + c_div (b - a) 2) \<Longrightarrow> Q (a + c_div (b - a) 2) b \<Longrightarrow> Q a (b :: int)"
  shows "Q a b"
  using assms(1)
proof (induction "nat (b - a)" arbitrary: a b rule: less_induct)
  case less
  show ?case
  proof (cases "a + 1 < b")
    case True
    note m = middle_inside[OF True]
    have "nat (b - (a + c_div (b - a) 2)) < nat (b - a)" "nat (a + c_div (b - a) 2 - a) < nat (b - a)" using m by linarith+
    then show ?thesis using less.hyps m assms(3)[OF True] by blast
  next
    case False
    then have "b = a + 1" using less.prems by simp
    then show ?thesis using assms(2) by simp
  qed
qed

lemma MaxTrue_loop_ok:
  assumes r: "searchable lo hi" and f: "\<And>i. lo \<le> i \<Longrightarrow> i \<le> hi \<Longrightarrow> f i = Some (Inr (P i))" and "a < b"
  shows "lo \<le> a \<Longrightarrow> b \<le> hi \<Longrightarrow> P a \<Longrightarrow> \<not> P b \<Longrightarrow> \<exists>r. MaxTrue_loop f a b = Some (Inr r) \<and> a \<le> r \<and> r < b \<and> P r \<and> \<not> P (r + 1)"
  using \<open>a < b\<close>
proof (induction rule: halving_induct)
  case (base a)
  then show ?case using searchable_arith(1)[OF r, of a "a + 1"] by (subst MaxTrue_loop.simps) simp
next
  case (step a b)
  define m where "m = a + c_div (b - a) 2"
  have m: "a < m" "m < b" using middle_inside[OF step.hyps] by (auto simp: m_def)
  have "MaxTrue_loop f a b = (if P m then MaxTrue_loop f m b else MaxTrue_loop f a m)"
    using searchable_arith[OF r, of a b] f[of m] step.hyps step.prems m by (subst MaxTrue_loop.simps) (simp add: m_def)
  then show ?case using step.IH step.prems m unfolding m_def[symmetric] by (cases "P m") fastforce+
qed

lemma MinTrue_loop_ok:
  assumes r: "searchable lo hi" and f: "\<And>i. lo \<le> i \<Longrightarrow> i \<le> hi \<Longrightarrow> f i = Some (Inr (P i))" and "a < b"
  shows "lo \<le> a \<Longrightarrow> b \<le> hi \<Longrightarrow> \<not> P a \<Longrightarrow> P b \<Longrightarrow> \<exists>r. MinTrue_loop f a b = Some (Inr r) \<and> a < r \<and> r \<le> b \<and> P r \<and> \<not> P (r - 1)"
  using \<open>a < b\<close>
proof (induction rule: halving_induct)
  case (base a)
  then show ?case using searchable_arith(1)[OF r, of a "a + 1"] by (subst MinTrue_loop.simps) simp
next
  case (step a b)
  define m where "m = a + c_div (b - a) 2"
  have m: "a < m" "m < b" using middle_inside[OF step.hyps] by (auto simp: m_def)
  have "MinTrue_loop f a b = (if P m then MinTrue_loop f a m else MinTrue_loop f m b)"
    using searchable_arith[OF r, of a b] f[of m] step.hyps step.prems m by (subst MinTrue_loop.simps) (simp add: m_def)
  then show ?case using step.IH step.prems m unfolding m_def[symmetric] by (cases "P m") fastforce+
qed

text \<open>A range of more than half of the numbers overflows.\<close>

lemma MaxTrue_loop_overflow: "- (2 ^ 63) \<le> a \<Longrightarrow> b < 2 ^ 63 \<Longrightarrow> 2 ^ 63 \<le> b - a \<Longrightarrow> MaxTrue_loop f a b = None"
  by (subst MaxTrue_loop.simps) (simp add: i64_def)

section \<open>The searches, for any predicate\<close>

lemma MaxTrueWithStatus_ok:
  assumes "searchable start finish" "\<And>i. start \<le> i \<Longrightarrow> i \<le> finish \<Longrightarrow> f i = Some (Inr (P i))"
  shows "\<not> start \<le> finish \<Longrightarrow> BinarySearchMaxTrueWithStatus start finish f = Some (Inl InternalError)"
    and "start \<le> finish \<Longrightarrow> \<not> P start \<Longrightarrow> BinarySearchMaxTrueWithStatus start finish f = Some (Inl InvalidArgumentError)"
    and "start \<le> finish \<Longrightarrow> P start \<Longrightarrow> \<exists>r. BinarySearchMaxTrueWithStatus start finish f = Some (Inr r) \<and> start \<le> r \<and> r \<le> finish \<and> P r \<and> (r = finish \<or> \<not> P (r + 1))"
proof -
  show "\<exists>r. BinarySearchMaxTrueWithStatus start finish f = Some (Inr r) \<and> start \<le> r \<and> r \<le> finish \<and> P r \<and> (r = finish \<or> \<not> P (r + 1))"
    if s: "start \<le> finish" "P start"
  proof (cases "P finish")
    case True
    then show ?thesis using assms(2)[of start] assms(2)[of finish] s by (simp add: BinarySearchMaxTrueWithStatus_def)
  next
    case False
    then have lt: "start < finish" using s by (cases "start = finish") auto
    have "\<exists>r. MaxTrue_loop f start finish = Some (Inr r) \<and> start \<le> r \<and> r < finish \<and> P r \<and> \<not> P (r + 1)"
      by (rule MaxTrue_loop_ok[OF assms(1) _ lt order_refl order_refl]) (use assms(2) s False in auto)
    then show ?thesis using assms(2)[of start] assms(2)[of finish] s False by (auto simp: BinarySearchMaxTrueWithStatus_def)
  qed
qed (use assms(2)[of start] in \<open>auto simp: BinarySearchMaxTrueWithStatus_def\<close>)

lemma MinTrueWithStatus_ok:
  assumes "searchable start finish" "\<And>i. start \<le> i \<Longrightarrow> i \<le> finish \<Longrightarrow> f i = Some (Inr (P i))"
  shows "\<not> start \<le> finish \<Longrightarrow> BinarySearchMinTrueWithStatus start finish f = Some (Inl InternalError)"
    and "start \<le> finish \<Longrightarrow> \<not> P finish \<Longrightarrow> BinarySearchMinTrueWithStatus start finish f = Some (Inl InvalidArgumentError)"
    and "start \<le> finish \<Longrightarrow> P finish \<Longrightarrow> \<exists>r. BinarySearchMinTrueWithStatus start finish f = Some (Inr r) \<and> start \<le> r \<and> r \<le> finish \<and> P r \<and> (r = start \<or> \<not> P (r - 1))"
proof -
  show "\<exists>r. BinarySearchMinTrueWithStatus start finish f = Some (Inr r) \<and> start \<le> r \<and> r \<le> finish \<and> P r \<and> (r = start \<or> \<not> P (r - 1))"
    if s: "start \<le> finish" "P finish"
  proof (cases "P start")
    case True
    then show ?thesis using assms(2)[of start] assms(2)[of finish] s by (simp add: BinarySearchMinTrueWithStatus_def)
  next
    case False
    then have lt: "start < finish" using s by (cases "start = finish") auto
    have "\<exists>r. MinTrue_loop f start finish = Some (Inr r) \<and> start < r \<and> r \<le> finish \<and> P r \<and> \<not> P (r - 1)"
      by (rule MinTrue_loop_ok[OF assms(1) _ lt order_refl order_refl]) (use assms(2) s False in auto)
    then show ?thesis using assms(2)[of start] assms(2)[of finish] s False by (auto simp: BinarySearchMinTrueWithStatus_def)
  qed
qed (use assms(2)[of finish] in \<open>auto simp: BinarySearchMinTrueWithStatus_def\<close>)

text \<open>For monotone predicates these are the last and the first value.\<close>

lemma boundary_last:
  assumes "\<And>i j. start \<le> i \<Longrightarrow> i \<le> j \<Longrightarrow> j \<le> finish \<Longrightarrow> P j \<Longrightarrow> P i" "start \<le> r" "r \<le> finish" "P r" "r = finish \<or> \<not> P (r + 1)" "start \<le> i" "i \<le> finish"
  shows "P i \<longleftrightarrow> i \<le> (r :: int)"
  using assms(1)[of i r] assms(1)[of "r + 1" i] assms(2-) by (cases "i \<le> r") auto

lemma boundary_first:
  assumes "\<And>i j. start \<le> i \<Longrightarrow> i \<le> j \<Longrightarrow> j \<le> finish \<Longrightarrow> P i \<Longrightarrow> P j" "start \<le> r" "r \<le> finish" "P r" "r = start \<or> \<not> P (r - 1)" "start \<le> i" "i \<le> finish"
  shows "P i \<longleftrightarrow> (r :: int) \<le> i"
  using assms(1)[of r i] assms(1)[of i "r - 1"] assms(2-) by (cases "r \<le> i") auto

text \<open>The variants without a status: they abort exactly where the others return an error.\<close>

lemma BinarySearchMaxTrue_eq:
  "BinarySearchMaxTrue start finish f = BinarySearchMaxTrueWithStatus start finish (\<lambda>i. map_option Inr (f i)) \<bind> status_value"
  by (cases "f start"; cases "f finish") (auto simp: BinarySearchMaxTrue_def BinarySearchMaxTrueWithStatus_def check_def)

lemma BinarySearchMinTrue_eq:
  "BinarySearchMinTrue start finish f = BinarySearchMinTrueWithStatus start finish (\<lambda>i. map_option Inr (f i)) \<bind> status_value"
  by (cases "f start"; cases "f finish") (auto simp: BinarySearchMinTrue_def BinarySearchMinTrueWithStatus_def check_def)

lemma search_last:
  assumes "searchable start finish" and "start \<le> finish" and m: "\<And>i j. start \<le> i \<Longrightarrow> i \<le> j \<Longrightarrow> j \<le> finish \<Longrightarrow> P j \<Longrightarrow> P i"
  shows "case BinarySearchMaxTrueWithStatus start finish (\<lambda>i. Some (Inr (P i))) of
        Some (Inr r) \<Rightarrow> start \<le> r \<and> r \<le> finish \<and> (\<forall>i. start \<le> i \<and> i \<le> finish \<longrightarrow> (P i \<longleftrightarrow> i \<le> r)) \<and> BinarySearchMaxTrue start finish (\<lambda>i. Some (P i)) = Some r
      | Some (Inl e) \<Rightarrow> e = InvalidArgumentError \<and> (\<forall>i. start \<le> i \<and> i \<le> finish \<longrightarrow> \<not> P i) \<and> BinarySearchMaxTrue start finish (\<lambda>i. Some (P i)) = None
      | None \<Rightarrow> False"
proof (cases "P start")
  case True
  obtain r where r: "BinarySearchMaxTrueWithStatus start finish (\<lambda>i. Some (Inr (P i))) = Some (Inr r)" "start \<le> r" "r \<le> finish" "P r" "r = finish \<or> \<not> P (r + 1)"
    using MaxTrueWithStatus_ok(3)[OF assms(1) refl, of P] assms(2) True by blast
  have "P i \<longleftrightarrow> i \<le> r" if "start \<le> i" "i \<le> finish" for i by (rule boundary_last[of start finish P r]) (use m r that in blast)+
  then show ?thesis using r by (auto simp: BinarySearchMaxTrue_eq)
next
  case False
  then have "\<not> P i" if "start \<le> i" "i \<le> finish" for i using m[of start i] that by blast
  then show ?thesis using MaxTrueWithStatus_ok(2)[OF assms(1) refl assms(2), of P] False by (simp add: BinarySearchMaxTrue_eq)
qed

lemma search_first:
  assumes "searchable start finish" and "start \<le> finish" and m: "\<And>i j. start \<le> i \<Longrightarrow> i \<le> j \<Longrightarrow> j \<le> finish \<Longrightarrow> P j \<Longrightarrow> P i"
  shows "case BinarySearchMinTrueWithStatus start finish (\<lambda>i. Some (Inr (\<not> P i))) of
        Some (Inr r) \<Rightarrow> start \<le> r \<and> r \<le> finish \<and> (\<forall>i. start \<le> i \<and> i \<le> finish \<longrightarrow> (P i \<longleftrightarrow> i < r)) \<and> BinarySearchMinTrue start finish (\<lambda>i. Some (\<not> P i)) = Some r
      | Some (Inl e) \<Rightarrow> e = InvalidArgumentError \<and> (\<forall>i. start \<le> i \<and> i \<le> finish \<longrightarrow> P i) \<and> BinarySearchMinTrue start finish (\<lambda>i. Some (\<not> P i)) = None
      | None \<Rightarrow> False"
proof (cases "P finish")
  case True
  then have "P i" if "start \<le> i" "i \<le> finish" for i using m[of i finish] that by blast
  then show ?thesis using MinTrueWithStatus_ok(2)[OF assms(1) refl assms(2), of "\<lambda>i. \<not> P i"] True by (simp add: BinarySearchMinTrue_eq)
next
  case False
  obtain r where r: "BinarySearchMinTrueWithStatus start finish (\<lambda>i. Some (Inr (\<not> P i))) = Some (Inr r)" "start \<le> r" "r \<le> finish" "\<not> P r" "r = start \<or> P (r - 1)"
    using MinTrueWithStatus_ok(3)[OF assms(1) refl, of "\<lambda>i. \<not> P i"] assms(2) False by blast
  have "\<not> P i \<longleftrightarrow> r \<le> i" if "start \<le> i" "i \<le> finish" for i
    by (rule boundary_first[of start finish "\<lambda>i. \<not> P i" r]) (use m r that in blast)+
  then have "P i \<longleftrightarrow> i < r" if "start \<le> i" "i \<le> finish" for i using that by (meson not_le)
  then show ?thesis using r(1,2,3) by (simp add: BinarySearchMinTrue_eq)
qed

end
