(* ===== verification/ChannelQueue.thy ===== *)
theory ChannelQueue
  imports HandlerTyping
begin

text \<open>
  Channels and their queues: \<open>xls/ir/channel.h\<close>, the channel tables of \<open>xls/ir/package.cc\<close>, and
  \<open>xls/interpreter/channel_queue.cc\<close>. The theory shows the invariant of the tables and the error path that breaks it, that
  streaming queues are first-in first-out and single-value queues hold the last value, that queues hold values of the
  type of the channel, and which queue the manager returns for a channel.
\<close>

section \<open>Channels\<close>

datatype ChannelOps = kSendOnly | kReceiveOnly | kSendReceive
datatype ChannelKind = kStreaming | kSingleValue

text \<open>The metadata for code generation is left out. A pointer to a channel is the channel: they are never copied.\<close>

record channel =
  channel_name :: string
  channel_id :: int
  supported_ops :: ChannelOps
  channel_kind :: ChannelKind
  channel_type :: ir_type
  initial_values :: "ir_value list"

definition CanSend :: "channel \<Rightarrow> bool" where
  "CanSend c \<longleftrightarrow> supported_ops c = kSendOnly \<or> supported_ops c = kSendReceive"

definition CanReceive :: "channel \<Rightarrow> bool" where
  "CanReceive c \<longleftrightarrow> supported_ops c = kReceiveOnly \<or> supported_ops c = kSendReceive"

definition ascii_isalpha :: "char \<Rightarrow> bool" where
  "ascii_isalpha c \<longleftrightarrow> (let n = of_char c :: nat in 65 \<le> n \<and> n \<le> 90 \<or> 97 \<le> n \<and> n \<le> 122)"

definition ascii_isalnum :: "char \<Rightarrow> bool" where
  "ascii_isalnum c \<longleftrightarrow> ascii_isalpha c \<or> (let n = of_char c :: nat in 48 \<le> n \<and> n \<le> 57)"

fun IsValidIdentifier :: "string \<Rightarrow> bool" where
  "IsValidIdentifier [] \<longleftrightarrow> False"
| "IsValidIdentifier (c # cs) \<longleftrightarrow> (ascii_isalpha c \<or> c = CHR ''_'') \<and> list_all (\<lambda>c. ascii_isalnum c \<or> c = CHR ''_'') cs"

section \<open>The channels of a package\<close>

record package_channels =
  channels_by_id :: "int \<rightharpoonup> channel"
  channel_vec :: "channel list"
  next_channel_id :: int

definition no_channels :: package_channels where
  "no_channels = \<lparr>channels_by_id = Map.empty, channel_vec = [], next_channel_id = 0\<rparr>"

text \<open>The state is returned beside the status: it may have changed when the status is an error.\<close>

definition AddChannel :: "channel \<Rightarrow> package_channels \<Rightarrow> unit status_or \<times> package_channels" where
  "AddChannel c p =
     (if channels_by_id p (channel_id c) \<noteq> None then (Inl InternalError, p)
      else let p = p\<lparr>channels_by_id := (channels_by_id p)(channel_id c \<mapsto> c)\<rparr> in
        if list_ex (\<lambda>ch. channel_name ch = channel_name c) (channel_vec p) then (Inl InvalidArgumentError, p)
        else if \<not> IsValidIdentifier (channel_name c) then (Inl InvalidArgumentError, p)
        else (Inr (), p\<lparr>channel_vec := sort_key channel_id (channel_vec p @ [c]), next_channel_id := max (next_channel_id p) (int64_wrap (channel_id c + 1))\<rparr>))"

fun VerifyValuesAreType :: "ir_value list \<Rightarrow> ir_type \<Rightarrow> unit status_or option" where
  "VerifyValuesAreType [] t = Some (Inr ())"
| "VerifyValuesAreType (v # vs) t = do { c \<leftarrow> ValueConformsToType v t; if \<not> c then Some (Inl InvalidArgumentError) else VerifyValuesAreType vs t }"

definition CreateStreamingChannel ::
  "string \<Rightarrow> ChannelOps \<Rightarrow> ir_type \<Rightarrow> ir_value list \<Rightarrow> int option \<Rightarrow> package_channels \<Rightarrow> (channel status_or \<times> package_channels) option" where
  "CreateStreamingChannel name ops t values cid p = do {
     s \<leftarrow> VerifyValuesAreType values t;
     (case s of
        Inl e \<Rightarrow> Some (Inl e, p)
      | Inr _ \<Rightarrow>
          let actual_id = (case cid of Some i \<Rightarrow> i | None \<Rightarrow> next_channel_id p);
              c = \<lparr>channel_name = name, channel_id = actual_id, supported_ops = ops, channel_kind = kStreaming, channel_type = t, initial_values = values\<rparr>;
              (s, p) = AddChannel c p
          in Some (case s of Inl e \<Rightarrow> Inl e | Inr _ \<Rightarrow> Inr c, p)) }"

definition CreateSingleValueChannel ::
  "string \<Rightarrow> ChannelOps \<Rightarrow> ir_type \<Rightarrow> int option \<Rightarrow> package_channels \<Rightarrow> channel status_or \<times> package_channels" where
  "CreateSingleValueChannel name ops t cid p =
     (let actual_id = (case cid of Some i \<Rightarrow> i | None \<Rightarrow> next_channel_id p);
          c = \<lparr>channel_name = name, channel_id = actual_id, supported_ops = ops, channel_kind = kSingleValue, channel_type = t, initial_values = []\<rparr>;
          (s, p) = AddChannel c p
      in (case s of Inl e \<Rightarrow> Inl e | Inr _ \<Rightarrow> Inr c, p))"

text \<open>\<open>used_ids\<close>: the channels of the send and receive nodes of all procs, in the order of the nodes.\<close>

definition RemoveChannel :: "int list \<Rightarrow> channel \<Rightarrow> package_channels \<Rightarrow> unit status_or \<times> package_channels" where
  "RemoveChannel used_ids c p =
     (if c \<notin> set (channel_vec p) then (Inl InternalError, p)
      else if channel_id c \<in> set used_ids then (Inl InternalError, p)
      else let p = p\<lparr>channel_vec := remove1 c (channel_vec p)\<rparr> in
        if channels_by_id p (channel_id c) = None then (Inl InternalError, p)
        else (Inr (), p\<lparr>channels_by_id := (channels_by_id p)(channel_id c := None)\<rparr>))"

definition GetChannel :: "package_channels \<Rightarrow> int \<Rightarrow> channel status_or" where
  "GetChannel p cid = (case channels_by_id p cid of None \<Rightarrow> Inl NotFoundError | Some c \<Rightarrow> Inr c)"

definition GetChannel_by_name :: "package_channels \<Rightarrow> string \<Rightarrow> channel status_or" where
  "GetChannel_by_name p name = (case find (\<lambda>c. channel_name c = name) (channel_vec p) of None \<Rightarrow> Inl NotFoundError | Some c \<Rightarrow> Inr c)"

definition HasChannelWithId :: "package_channels \<Rightarrow> int \<Rightarrow> bool" where
  "HasChannelWithId p cid \<longleftrightarrow> channels_by_id p cid \<noteq> None"

section \<open>Queues\<close>

text \<open>
  A generator is a callable object: its state of type \<open>'g\<close> and the function \<open>call\<close> that computes the next value. The lock
  makes each operation one step.
\<close>

record 'g ChannelQueue =
  queue_channel :: channel
  queue_values :: "ir_value list"
  generator :: "'g option"

definition ChannelQueue_new :: "channel \<Rightarrow> 'g ChannelQueue" where
  "ChannelQueue_new c = \<lparr>queue_channel = c, queue_values = [], generator = None\<rparr>"

definition GetSize :: "'g ChannelQueue \<Rightarrow> nat" where
  "GetSize q = length (queue_values q)"

definition ChannelQueue_IsEmpty :: "'g ChannelQueue \<Rightarrow> bool" where
  "ChannelQueue_IsEmpty q \<longleftrightarrow> GetSize q = 0"

definition AttachGenerator :: "'g \<Rightarrow> 'g ChannelQueue \<Rightarrow> 'g ChannelQueue status_or" where
  "AttachGenerator g q =
     (if generator q \<noteq> None then Inl InternalError
      else if channel_kind (queue_channel q) = kSingleValue then Inl InternalError
      else Inr (q\<lparr>generator := Some g\<rparr>))"

definition WriteInternal :: "ir_value \<Rightarrow> 'g ChannelQueue \<Rightarrow> 'g ChannelQueue option" where
  "WriteInternal v q =
     (if channel_kind (queue_channel q) = kSingleValue then
        Some (case queue_values q of [] \<Rightarrow> q\<lparr>queue_values := [v]\<rparr> | _ # vs \<Rightarrow> q\<lparr>queue_values := v # vs\<rparr>)
      else do { check (channel_kind (queue_channel q) = kStreaming); Some (q\<lparr>queue_values := queue_values q @ [v]\<rparr>) })"

definition ChannelQueue_Write :: "ir_value \<Rightarrow> 'g ChannelQueue \<Rightarrow> 'g ChannelQueue status_or option" where
  "ChannelQueue_Write v q =
     (if generator q \<noteq> None then Some (Inl InternalError)
      else do {
        c \<leftarrow> ValueConformsToType v (channel_type (queue_channel q));
        if \<not> c then Some (Inl InvalidArgumentError) else do { q \<leftarrow> WriteInternal v q; Some (Inr q) } })"

definition ReadInternal :: "'g ChannelQueue \<Rightarrow> ir_value option \<times> 'g ChannelQueue" where
  "ReadInternal q = (case queue_values q of
     [] \<Rightarrow> (None, q)
   | v # vs \<Rightarrow> (Some v, if channel_kind (queue_channel q) \<noteq> kSingleValue then q\<lparr>queue_values := vs\<rparr> else q))"

definition ChannelQueue_Read :: "('g \<Rightarrow> ir_value option \<times> 'g) \<Rightarrow> 'g ChannelQueue \<Rightarrow> (ir_value option \<times> 'g ChannelQueue) option" where
  "ChannelQueue_Read call q = do {
     q \<leftarrow> (case generator q of
        None \<Rightarrow> Some q
      | Some g \<Rightarrow> (case call g of
           (Some v, g) \<Rightarrow> WriteInternal v (q\<lparr>generator := Some g\<rparr>)
         | (None, g) \<Rightarrow> Some (q\<lparr>generator := Some g\<rparr>)));
     Some (ReadInternal q) }"

text \<open>The functor of a fixed sequence; its state are the remaining values.\<close>

fun FixedValueGenerator :: "ir_value list \<Rightarrow> ir_value option \<times> ir_value list" where
  "FixedValueGenerator [] = (None, [])"
| "FixedValueGenerator (v # vs) = (Some v, vs)"

section \<open>The queues of a package\<close>

record 'g ChannelQueueManager =
  manager_package :: package_channels
  queues :: "channel \<rightharpoonup> 'g ChannelQueue"
  queue_vec :: "channel list"

definition ChannelQueueManager_new :: "package_channels \<Rightarrow> 'g ChannelQueue list \<Rightarrow> 'g ChannelQueueManager" where
  "ChannelQueueManager_new p qs = \<lparr>manager_package = p, queues = map_of (rev (map (\<lambda>q. (queue_channel q, q)) qs)),
     queue_vec = sort_key channel_id (map queue_channel qs)\<rparr>"

fun check_queues :: "package_channels \<Rightarrow> 'g ChannelQueue list \<Rightarrow> channel set \<Rightarrow> channel set status_or" where
  "check_queues p [] seen = Inr seen"
| "check_queues p (q # qs) seen =
     (if queue_channel q \<notin> set (channel_vec p) then Inl InvalidArgumentError
      else if queue_channel q \<in> seen then Inl InvalidArgumentError
      else check_queues p qs (insert (queue_channel q) seen))"

definition ChannelQueueManager_Create :: "'g ChannelQueue list \<Rightarrow> package_channels \<Rightarrow> 'g ChannelQueueManager status_or" where
  "ChannelQueueManager_Create qs p = (case check_queues p qs {} of
     Inl e \<Rightarrow> Inl e
   | Inr seen \<Rightarrow> if list_ex (\<lambda>c. c \<notin> seen) (channel_vec p) then Inl InvalidArgumentError else Inr (ChannelQueueManager_new p qs))"

definition ChannelQueueManager_Create_default :: "package_channels \<Rightarrow> 'g ChannelQueueManager status_or" where
  "ChannelQueueManager_Create_default p =
     (if list_ex (\<lambda>c. channel_kind c \<noteq> kStreaming \<and> channel_kind c \<noteq> kSingleValue) (channel_vec p) then Inl UnimplementedError
      else Inr (ChannelQueueManager_new p (map ChannelQueue_new (channel_vec p))))"

definition GetQueue :: "'g ChannelQueueManager \<Rightarrow> channel \<Rightarrow> 'g ChannelQueue option" where
  "GetQueue m c = queues m c"

definition GetQueueById :: "'g ChannelQueueManager \<Rightarrow> int \<Rightarrow> 'g ChannelQueue status_or option" where
  "GetQueueById m cid = (case GetChannel (manager_package m) cid of Inl e \<Rightarrow> Some (Inl e) | Inr c \<Rightarrow> map_option Inr (queues m c))"

definition GetQueueByName :: "'g ChannelQueueManager \<Rightarrow> string \<Rightarrow> 'g ChannelQueue status_or option" where
  "GetQueueByName m name = (case GetChannel_by_name (manager_package m) name of Inl e \<Rightarrow> Some (Inl e) | Inr c \<Rightarrow> map_option Inr (queues m c))"

section \<open>The invariant of the tables\<close>

definition channels_inv :: "package_channels \<Rightarrow> bool" where
  "channels_inv p \<longleftrightarrow> sorted_wrt (<) (map channel_id (channel_vec p)) \<and> distinct (map channel_name (channel_vec p)) \<and>
     (\<forall>i c. channels_by_id p i = Some c \<longleftrightarrow> c \<in> set (channel_vec p) \<and> channel_id c = i) \<and> (\<forall>c \<in> set (channel_vec p). channel_id c < next_channel_id p \<or> channel_id c = 2 ^ 63 - 1)"

lemma channels_invD:
  assumes "channels_inv p"
  shows "sorted (map channel_id (channel_vec p))" "distinct (map channel_id (channel_vec p))" "distinct (map channel_name (channel_vec p))" "distinct (channel_vec p)"
    "channels_by_id p i = Some c \<longleftrightarrow> c \<in> set (channel_vec p) \<and> channel_id c = i" "c \<in> set (channel_vec p) \<Longrightarrow> channel_id c < next_channel_id p \<or> channel_id c = 2 ^ 63 - 1"
  using assms by (auto simp: channels_inv_def strict_sorted_iff distinct_map)

lemma no_channels_inv: "channels_inv no_channels"
  by (simp add: channels_inv_def no_channels_def)

definition can_add :: "channel \<Rightarrow> package_channels \<Rightarrow> bool" where
  "can_add c p \<longleftrightarrow> channels_by_id p (channel_id c) = None \<and> channel_name c \<notin> channel_name ` set (channel_vec p) \<and> IsValidIdentifier (channel_name c)"

lemma distinct_map_sort_key: "distinct (map f (sort_key k xs)) \<longleftrightarrow> distinct (map f xs)"
  by (simp add: distinct_map)

lemma name_taken: "list_ex (\<lambda>ch. channel_name ch = name) cs \<longleftrightarrow> name \<in> channel_name ` set cs"
  by (auto simp: list_ex_iff)

definition int64_id :: "channel \<Rightarrow> bool" where
  "int64_id c \<longleftrightarrow> - (2 ^ 63) \<le> channel_id c \<and> channel_id c < 2 ^ 63"

lemma AddChannel_ok:
  assumes inv: "channels_inv p" and c: "can_add c p" and r: "int64_id c"
  obtains p' where "AddChannel c p = (Inr (), p')" "channels_inv p'" "set (channel_vec p') = insert c (set (channel_vec p))"
proof -
  define p' where "p' = p\<lparr>channels_by_id := (channels_by_id p)(channel_id c \<mapsto> c), channel_vec := sort_key channel_id (channel_vec p @ [c]), next_channel_id := max (next_channel_id p) (int64_wrap (channel_id c + 1))\<rparr>"
  note d = channels_invD[OF inv]
  have a: "AddChannel c p = (Inr (), p')" using c by (simp add: AddChannel_def can_add_def name_taken p'_def Let_def)
  have s: "set (channel_vec p') = insert c (set (channel_vec p))" by (simp add: p'_def)
  have fresh: "ch \<in> set (channel_vec p) \<Longrightarrow> channel_id ch \<noteq> channel_id c" for ch using c d(5)[of "channel_id c" ch] by (auto simp: can_add_def)
  have "channel_id c \<notin> channel_id ` set (channel_vec p)" using fresh by force
  then have "distinct (map channel_id (channel_vec p @ [c]))" "distinct (map channel_name (channel_vec p @ [c]))" using d(2,3) c by (simp_all add: can_add_def)
  then have "sorted_wrt (<) (map channel_id (channel_vec p'))" "distinct (map channel_name (channel_vec p'))" by (simp_all add: p'_def strict_sorted_iff distinct_map_sort_key del: map_append)
  moreover have "channels_by_id p' i = Some ch \<longleftrightarrow> ch \<in> set (channel_vec p') \<and> channel_id ch = i" for i ch using d(5)[of i ch] fresh s by (auto simp: p'_def)
  moreover have "channel_id ch < next_channel_id p' \<or> channel_id ch = 2 ^ 63 - 1" if "ch \<in> set (channel_vec p')" for ch
  proof (cases "ch = c \<and> channel_id c < 2 ^ 63 - 1")
    case True
    then have "int64_wrap (channel_id c + 1) = channel_id c + 1" using r by (intro int64_wrap_exact) (simp add: int64_id_def)
    then show ?thesis using True by (simp add: p'_def)
  next
    case False
    then show ?thesis using that d(6)[of ch] s r by (auto simp: p'_def int64_id_def)
  qed
  ultimately have "channels_inv p'" by (simp add: channels_inv_def)
  then show thesis using that a s by blast
qed

lemma AddChannel_error:
  assumes "\<not> can_add c p"
  shows "\<exists>e p'. AddChannel c p = (Inl e, p') \<and> channel_vec p' = channel_vec p \<and>
    channels_by_id p' = (if channels_by_id p (channel_id c) = None then (channels_by_id p)(channel_id c \<mapsto> c) else channels_by_id p)"
  using assms by (auto simp: AddChannel_def can_add_def name_taken Let_def)

text \<open>A channel that is refused for its name stays in the table by identifiers and breaks the invariant.\<close>

lemma AddChannel_leaves_channel:
  assumes "channels_inv p" "channels_by_id p (channel_id c) = None" "\<not> can_add c p"
  obtains e p' where "AddChannel c p = (Inl e, p')" "GetChannel p' (channel_id c) = Inr c" "c \<notin> set (channel_vec p')" "\<not> channels_inv p'"
proof -
  obtain e p' where a: "AddChannel c p = (Inl e, p')" "channel_vec p' = channel_vec p" "channels_by_id p' = (channels_by_id p)(channel_id c \<mapsto> c)"
    using AddChannel_error[OF assms(3)] assms(2) by metis
  have c: "c \<notin> set (channel_vec p)" using channels_invD(5)[OF assms(1), of "channel_id c" c] assms(2) by auto
  then have "\<not> channels_inv p'" using channels_invD(5)[of p' "channel_id c" c] a by auto
  then show thesis using that[of e p'] a c by (simp add: GetChannel_def)
qed

lemma RemoveChannel_ok:
  assumes inv: "channels_inv p" and c: "c \<in> set (channel_vec p)" "channel_id c \<notin> set used_ids"
  obtains p' where "RemoveChannel used_ids c p = (Inr (), p')" "channels_inv p'" "set (channel_vec p') = set (channel_vec p) - {c}"
proof -
  define p' where "p' = p\<lparr>channel_vec := remove1 c (channel_vec p), channels_by_id := (channels_by_id p)(channel_id c := None)\<rparr>"
  note d = channels_invD[OF inv]
  have s: "set (channel_vec p') = set (channel_vec p) - {c}" using d(4) by (simp add: p'_def)
  have r: "RemoveChannel used_ids c p = (Inr (), p')" using c d(5)[of "channel_id c" c] by (auto simp: RemoveChannel_def p'_def Let_def)
  have u: "channel_id ch = channel_id c \<longleftrightarrow> ch = c" if "ch \<in> set (channel_vec p)" for ch using d(2) c(1) that by (auto simp: distinct_map inj_on_def)
  have "channels_by_id p' i = Some ch \<longleftrightarrow> ch \<in> set (channel_vec p') \<and> channel_id ch = i" for i ch using d(5)[of i ch] u s by (auto simp: p'_def)
  moreover have "sorted (map channel_id (remove1 c (channel_vec p)))" using d(1) by (rule sorted_map_remove1)
  moreover have "distinct (map channel_id (remove1 c (channel_vec p)))" "distinct (map channel_name (remove1 c (channel_vec p)))"
    using d(2,3,4) by (auto simp: distinct_map inj_on_def)
  ultimately have "channels_inv p'" using s d(6) by (auto simp: channels_inv_def strict_sorted_iff p'_def)
  then show thesis using that r s by blast
qed

text \<open>Both look-ups.\<close>

lemma GetChannel_by_name_eq:
  assumes "channels_inv p"
  shows "GetChannel_by_name p name = Inr c \<longleftrightarrow> c \<in> set (channel_vec p) \<and> channel_name c = name"
proof (cases "find (\<lambda>c. channel_name c = name) (channel_vec p)")
  case None
  moreover from this have "\<not> (c \<in> set (channel_vec p) \<and> channel_name c = name)" by (auto simp: find_None_iff)
  ultimately show ?thesis by (simp add: GetChannel_by_name_def)
next
  case (Some ch)
  then have "ch \<in> set (channel_vec p)" "channel_name ch = name" by (auto simp: find_Some_iff)
  moreover have "inj_on channel_name (set (channel_vec p))" using channels_invD(3)[OF assms] by (simp add: distinct_map)
  ultimately have "ch = c \<longleftrightarrow> c \<in> set (channel_vec p) \<and> channel_name c = name" by (auto dest: inj_onD)
  then show ?thesis using Some by (simp add: GetChannel_by_name_def)
qed

lemma GetChannel_eq: "channels_inv p \<Longrightarrow> GetChannel p i = Inr c \<longleftrightarrow> c \<in> set (channel_vec p) \<and> channel_id c = i"
  using channels_invD(5)[of p i c] by (auto simp: GetChannel_def split: option.splits)

section \<open>Order of the values\<close>

datatype 'v queue_op = Put 'v | Get

fun puts :: "'v queue_op list \<Rightarrow> 'v list" where
  "puts [] = []"
| "puts (Put v # ops) = v # puts ops"
| "puts (Get # ops) = puts ops"

text \<open>A sequence of writes and reads, in the order in which the lock admits them: the values read and the final state.\<close>

fun run_ops :: "('v \<Rightarrow> 's \<Rightarrow> 's status_or option) \<Rightarrow> ('s \<Rightarrow> ('v option \<times> 's) option) \<Rightarrow> 'v queue_op list \<Rightarrow> 's \<Rightarrow> ('v list \<times> 's) status_or option" where
  "run_ops put get [] s = Some (Inr ([], s))"
| "run_ops put get (Put v # ops) s = or_return (put v s) (run_ops put get ops)"
| "run_ops put get (Get # ops) s = do {
     (r, s) \<leftarrow> get s;
     or_return (run_ops put get ops s) (\<lambda>(vs, s). Some (Inr ((case r of None \<Rightarrow> vs | Some v \<Rightarrow> v # vs), s))) }"

text \<open>The interface of a first-in first-out store, and what holds of every sequence of operations.\<close>

locale fifo_store =
  fixes ok :: "'s \<Rightarrow> bool" and accepts :: "'s \<Rightarrow> 'v \<Rightarrow> bool" and put :: "'v \<Rightarrow> 's \<Rightarrow> 's status_or option" and get :: "'s \<Rightarrow> ('v option \<times> 's) option"
    and contents :: "'s \<Rightarrow> 'v list"
  assumes put_ok: "ok s \<Longrightarrow> accepts s v \<Longrightarrow> \<exists>s'. put v s = Some (Inr s') \<and> ok s' \<and> contents s' = contents s @ [v] \<and> accepts s' = accepts s"
    and get_empty: "ok s \<Longrightarrow> contents s = [] \<Longrightarrow> get s = Some (None, s)"
    and get_first: "ok s \<Longrightarrow> contents s = v # vs \<Longrightarrow> \<exists>s'. get s = Some (Some v, s') \<and> ok s' \<and> contents s' = vs \<and> accepts s' = accepts s"
begin

lemma run_fifo:
  assumes "ok s" "\<forall>v \<in> set (puts ops). accepts s v"
  shows "\<exists>vs s'. run_ops put get ops s = Some (Inr (vs, s')) \<and> ok s' \<and> vs @ contents s' = contents s @ puts ops"
  using assms
proof (induction ops arbitrary: s)
  case (Cons op ops)
  show ?case
  proof (cases op)
    case (Put v)
    obtain s1 where "put v s = Some (Inr s1)" "ok s1" "contents s1 = contents s @ [v]" "accepts s1 = accepts s" using put_ok[OF Cons.prems(1), of v] Cons.prems(2) Put by auto
    then show ?thesis using Cons.IH[of s1] Cons.prems(2) Put by auto
  next
    case Get
    show ?thesis
    proof (cases "contents s")
      case Nil
      then show ?thesis using Cons.IH[OF Cons.prems(1)] Cons.prems(2) get_empty[OF Cons.prems(1) Nil] Get by auto
    next
      case (Cons v ws)
      obtain s1 where "get s = Some (Some v, s1)" "ok s1" "contents s1 = ws" "accepts s1 = accepts s" using get_first[OF Cons.prems(1) Cons] by blast
      then show ?thesis using Cons.IH[of s1] Cons.prems(2) Get Cons by auto
    qed
  qed
qed auto

end

definition streaming_queue :: "'g ChannelQueue \<Rightarrow> bool" where
  "streaming_queue q \<longleftrightarrow> channel_kind (queue_channel q) = kStreaming \<and> generator q = None \<and> (\<forall>v \<in> set (queue_values q). has_type v (channel_type (queue_channel q)))"

definition queue_accepts :: "'g ChannelQueue \<Rightarrow> ir_value \<Rightarrow> bool" where
  "queue_accepts q v \<longleftrightarrow> has_type v (channel_type (queue_channel q))"

lemma Write_streaming:
  assumes "streaming_queue q" "queue_accepts q v"
  shows "ChannelQueue_Write v q = Some (Inr (q\<lparr>queue_values := queue_values q @ [v]\<rparr>))"
  using assms by (auto simp: ChannelQueue_Write_def WriteInternal_def streaming_queue_def queue_accepts_def has_type_def ValueConformsToType_eq check_def)

interpretation streaming: fifo_store streaming_queue queue_accepts ChannelQueue_Write "ChannelQueue_Read call" queue_values
  for call :: "'g \<Rightarrow> ir_value option \<times> 'g"
proof
  fix q :: "'g ChannelQueue" and v assume q: "streaming_queue q" "queue_accepts q v"
  then show "\<exists>s'. ChannelQueue_Write v q = Some (Inr s') \<and> streaming_queue s' \<and> queue_values s' = queue_values q @ [v] \<and> queue_accepts s' = queue_accepts q"
    unfolding Write_streaming[OF q] by (auto simp: streaming_queue_def queue_accepts_def fun_eq_iff)
next
  fix q :: "'g ChannelQueue" assume "streaming_queue q" "queue_values q = []"
  then show "ChannelQueue_Read call q = Some (None, q)" by (simp add: ChannelQueue_Read_def ReadInternal_def streaming_queue_def)
next
  fix q :: "'g ChannelQueue" and v vs assume "streaming_queue q" "queue_values q = v # vs"
  then show "\<exists>s'. ChannelQueue_Read call q = Some (Some v, s') \<and> streaming_queue s' \<and> queue_values s' = vs \<and> queue_accepts s' = queue_accepts q"
    by (auto simp: ChannelQueue_Read_def ReadInternal_def streaming_queue_def queue_accepts_def fun_eq_iff)
qed

text \<open>A queue with a generator of fixed values: they are read in order and nothing can be written.\<close>

definition generated_queue :: "ir_value list ChannelQueue \<Rightarrow> bool" where
  "generated_queue q \<longleftrightarrow> channel_kind (queue_channel q) = kStreaming \<and> generator q \<noteq> None"

definition remaining_values :: "ir_value list ChannelQueue \<Rightarrow> ir_value list" where
  "remaining_values q = queue_values q @ the (generator q)"

interpretation generated: fifo_store generated_queue "\<lambda>q v. False" ChannelQueue_Write "ChannelQueue_Read FixedValueGenerator" remaining_values
proof
  fix q assume q: "generated_queue q" "remaining_values q = []"
  then have "q\<lparr>generator := Some []\<rparr> = q" by (cases q) (auto simp: generated_queue_def remaining_values_def)
  then show "ChannelQueue_Read FixedValueGenerator q = Some (None, q)" using q by (auto simp: generated_queue_def remaining_values_def ChannelQueue_Read_def ReadInternal_def)
next
  fix q v vs assume q: "generated_queue q" "remaining_values q = v # vs"
  then obtain g where g: "generator q = Some g" "channel_kind (queue_channel q) = kStreaming" by (auto simp: generated_queue_def)
  show "\<exists>s'. ChannelQueue_Read FixedValueGenerator q = Some (Some v, s') \<and> generated_queue s' \<and> remaining_values s' = vs \<and> (\<lambda>v. False) = (\<lambda>v. False)"
    using q g by (cases g; cases "queue_values q") (auto simp: generated_queue_def remaining_values_def ChannelQueue_Read_def ReadInternal_def WriteInternal_def check_def)
qed simp

text \<open>A single-value channel: a read returns the last value written and leaves it.\<close>

definition single_value_queue :: "'g ChannelQueue \<Rightarrow> bool" where
  "single_value_queue q \<longleftrightarrow> channel_kind (queue_channel q) = kSingleValue \<and> generator q = None \<and> length (queue_values q) \<le> 1"

lemma single_value_write:
  assumes "single_value_queue q" "queue_accepts q v"
  obtains q' where "ChannelQueue_Write v q = Some (Inr q')" "single_value_queue q'" "queue_values q' = [v]" "queue_channel q' = queue_channel q" "ChannelQueue_Read call q' = Some (Some v, q')"
proof -
  have "ChannelQueue_Write v q = Some (Inr (q\<lparr>queue_values := [v]\<rparr>))"
    using assms by (cases "queue_values q")
      (auto simp: ChannelQueue_Write_def WriteInternal_def single_value_queue_def queue_accepts_def has_type_def ValueConformsToType_eq)
  then show thesis using that assms by (auto simp: single_value_queue_def ChannelQueue_Read_def ReadInternal_def)
qed

text \<open>What \<open>Write\<close> refuses. A generated value is not checked: the queue can then hold a value of another type.\<close>

lemma Write_errors:
  "generator q \<noteq> None \<Longrightarrow> ChannelQueue_Write v q = Some (Inl InternalError)"
  "generator q = None \<Longrightarrow> wf_value v \<Longrightarrow> \<not> queue_accepts q v \<Longrightarrow> ChannelQueue_Write v q = Some (Inl InvalidArgumentError)"
  by (auto simp: ChannelQueue_Write_def queue_accepts_def has_type_def ValueConformsToType_eq)

lemma generated_value_unchecked:
  assumes "channel_kind (queue_channel q) = kStreaming" "queue_values q = []" "generator q = Some (v # vs)"
  shows "ChannelQueue_Read FixedValueGenerator q = Some (Some v, q\<lparr>generator := Some vs\<rparr>)"
  using assms by (cases q) (simp add: ChannelQueue_Read_def ReadInternal_def WriteInternal_def check_def)

section \<open>The manager\<close>

lemma check_queues_ok:
  "check_queues p qs seen = Inr s \<longleftrightarrow> s = seen \<union> queue_channel ` set qs \<and> queue_channel ` set qs \<subseteq> set (channel_vec p) \<and> distinct (map queue_channel qs) \<and> seen \<inter> queue_channel ` set qs = {}"
  by (induction qs arbitrary: seen) auto

lemma Create_ok:
  "ChannelQueueManager_Create qs p = Inr m \<longleftrightarrow> m = ChannelQueueManager_new p qs \<and> distinct (map queue_channel qs) \<and> queue_channel ` set qs = set (channel_vec p)"
proof (cases "check_queues p qs {}")
  case (Inl e)
  then have "\<not> (queue_channel ` set qs \<subseteq> set (channel_vec p) \<and> distinct (map queue_channel qs))" using check_queues_ok[of p qs "{}" "queue_channel ` set qs"] by auto
  then show ?thesis using Inl by (auto simp: ChannelQueueManager_Create_def)
next
  case (Inr s)
  then have "s = queue_channel ` set qs" "queue_channel ` set qs \<subseteq> set (channel_vec p)" "distinct (map queue_channel qs)" using check_queues_ok[of p qs "{}" s] by auto
  then show ?thesis using Inr by (auto simp: ChannelQueueManager_Create_def list_ex_iff)
qed

lemma manager_queue:
  assumes "distinct (map queue_channel qs)" "q \<in> set qs"
  shows "queues (ChannelQueueManager_new p qs) (queue_channel q) = Some q"
proof -
  have "distinct (map fst (rev (map (\<lambda>q. (queue_channel q, q)) qs)))" using assms(1) by (auto simp: distinct_map inj_on_def)
  then show ?thesis using assms(2) by (auto simp: ChannelQueueManager_new_def)
qed

lemma Create_queues:
  assumes inv: "channels_inv p" and m: "ChannelQueueManager_Create qs p = Inr m" and c: "c \<in> set (channel_vec p)"
  shows "\<exists>q \<in> set qs. queue_channel q = c \<and> GetQueue m c = Some q \<and> GetQueueById m (channel_id c) = Some (Inr q) \<and> GetQueueByName m (channel_name c) = Some (Inr q)"
proof -
  have d: "m = ChannelQueueManager_new p qs" "distinct (map queue_channel qs)" "queue_channel ` set qs = set (channel_vec p)" using m by (simp_all add: Create_ok)
  have "c \<in> queue_channel ` set qs" using c d(3) by simp
  then obtain q where q: "q \<in> set qs" "queue_channel q = c" by (auto simp: image_iff)
  have s: "queues m c = Some q" using manager_queue[OF d(2) q(1)] d(1) q(2) by simp
  have "GetChannel p (channel_id c) = Inr c" "GetChannel_by_name p (channel_name c) = Inr c" using GetChannel_eq[OF inv] GetChannel_by_name_eq[OF inv] c by auto
  moreover have "manager_package m = p" using d(1) by (simp add: ChannelQueueManager_new_def)
  ultimately show ?thesis using q s by (auto simp: GetQueue_def GetQueueById_def GetQueueByName_def)
qed

lemma Create_order:
  assumes "channels_inv p" "ChannelQueueManager_Create qs p = Inr m"
  shows "queue_vec m = channel_vec p"
proof -
  have d: "m = ChannelQueueManager_new p qs" "distinct (map queue_channel qs)" "queue_channel ` set qs = set (channel_vec p)" using assms(2) by (simp_all add: Create_ok)
  note i = channels_invD[OF assms(1)]
  have s: "set (map queue_channel qs) = set (channel_vec p)" using d(3) by simp
  have "sort_key channel_id (map queue_channel qs) = sort_key channel_id (channel_vec p)"
  proof (rule map_sorted_distinct_set_unique[where f = channel_id])
    show "inj_on channel_id (set (sort_key channel_id (map queue_channel qs)) \<union> set (sort_key channel_id (channel_vec p)))" using i(2) s by (simp add: distinct_map)
    show "distinct (map channel_id (sort_key channel_id (map queue_channel qs)))" using d(2) i(2) s by (auto simp: distinct_map comp_inj_on_iff inj_on_def)
    show "distinct (map channel_id (sort_key channel_id (channel_vec p)))" using i(2) by (simp add: distinct_map)
  qed (use s in simp_all)
  then show ?thesis using d(1) i(1) by (simp add: ChannelQueueManager_new_def sort_key_id_if_sorted)
qed

section \<open>An example\<close>

definition sample_channel :: channel where
  "sample_channel = \<lparr>channel_name = ''c'', channel_id = 0, supported_ops = kSendReceive, channel_kind = kStreaming, channel_type = BitsType 8, initial_values = []\<rparr>"

definition sample_channels :: package_channels where
  "sample_channels = \<lparr>channels_by_id = [0 \<mapsto> sample_channel], channel_vec = [sample_channel], next_channel_id = 1\<rparr>"

lemma sample_channels_inv: "channels_inv sample_channels"
  by (auto simp: channels_inv_def sample_channels_def sample_channel_def)

lemma sample_manager: "ChannelQueueManager_Create [ChannelQueue_new sample_channel] sample_channels = Inr (ChannelQueueManager_new sample_channels [ChannelQueue_new sample_channel])"
  by (simp add: Create_ok ChannelQueue_new_def sample_channels_def)

end
