(* ===== verification/ProcRuntime.thy ===== *)
theory ProcRuntime
  imports ChannelQueue NodeIterator "HOL-Library.AList"
begin

text \<open>
  The execution of procs: \<open>xls/interpreter/proc_interpreter.cc\<close>, a tick of one proc that can stop at a send or a blocked
  receive and resume, and \<open>serial_proc_runtime.cc\<close> and \<open>proc_runtime.cc\<close>, the scheduler of a network of procs. The
  theory shows what a tick does to the continuation, that a tick of the network ends for every evaluator that keeps
  its contract, and that the interpreter keeps it.
\<close>

section \<open>Procs and continuations\<close>

text \<open>
  The nodes of a proc as those of a function; the first parameter is the token and the others are the state. The
  attributes of the send and receive nodes are tables over the numbers of the nodes. A proc has no return value: as a
  function its return value is no node. A call that ends with an error returns no state: the runtime is not used again.
\<close>

record ir_proc =
  proc_nodes :: "ir_node list"
  proc_params :: "nat list"
  NextToken :: nat
  NextState :: "nat list"
  InitValues :: "ir_value list"
  channel_ids :: "nat \<rightharpoonup> int"
  is_blocking :: "nat \<Rightarrow> bool"

definition proc_function :: "ir_proc \<Rightarrow> ir_function" where
  "proc_function p = \<lparr>fn_nodes = proc_nodes p, fn_params = proc_params p, fn_return = length (proc_nodes p)\<rparr>"

record ProcContinuation =
  node_index :: nat
  cont_state :: "ir_value list"
  cont_interp :: interp_state

definition NewContinuation :: "ir_proc \<Rightarrow> ProcContinuation" where
  "NewContinuation p = \<lparr>node_index = 0, cont_state = InitValues p, cont_interp = \<lparr>node_values = Map.empty, events = no_events\<rparr>\<rparr>"

definition AtStartOfTick :: "ProcContinuation \<Rightarrow> bool" where
  "AtStartOfTick c \<longleftrightarrow> node_index c = 0"

definition NextTick :: "ir_value list \<Rightarrow> ProcContinuation \<Rightarrow> ProcContinuation" where
  "NextTick next_state c = c\<lparr>node_index := 0, cont_state := next_state, cont_interp := (cont_interp c)\<lparr>node_values := Map.empty\<rparr>\<rparr>"

section \<open>The handlers of procs\<close>

record 'g proc_interp =
  pi_state :: interp_state
  pi_manager :: "'g ChannelQueueManager"
  blocked_channel :: "channel option"
  sent_channel :: "channel option"

type_synonym 'g proc_handler = "'g proc_interp \<Rightarrow> 'g proc_interp status_or option"

definition set_result :: "nat \<Rightarrow> ir_node \<Rightarrow> ir_value \<Rightarrow> 'g proc_handler" where
  "set_result n node v s = or_return (SetValueResult n node v (pi_state s)) (\<lambda>st. Some (Inr (s\<lparr>pi_state := st\<rparr>)))"

definition put_queue :: "'g ChannelQueue \<Rightarrow> 'g ChannelQueueManager \<Rightarrow> 'g ChannelQueueManager" where
  "put_queue q m = m\<lparr>queues := (queues m)(queue_channel q \<mapsto> q)\<rparr>"

definition predicate_is_zero :: "ir_node \<Rightarrow> nat \<Rightarrow> interp_state \<Rightarrow> bool option" where
  "predicate_is_zero node i st = (if length (operands node) > i then do { b \<leftarrow> operand_bits node st i; Bits_IsZero b } else Some False)"

definition HandleReceive :: "('g \<Rightarrow> ir_value option \<times> 'g) \<Rightarrow> ir_proc \<Rightarrow> nat \<Rightarrow> ir_node \<Rightarrow> 'g proc_handler" where
  "HandleReceive gen p n node s = do {
     cid \<leftarrow> channel_ids p n;
     or_return (GetQueueById (pi_manager s) cid) (\<lambda>queue. do {
       zero \<leftarrow> predicate_is_zero node 1 (pi_state s);
       if zero then do { z \<leftarrow> ZeroOfType (node_type node); set_result n node z s }
       else do {
         (v, queue') \<leftarrow> ChannelQueue_Read gen queue;
         let s = s\<lparr>pi_manager := put_queue queue' (pi_manager s)\<rparr>;
         (case v of
            None \<Rightarrow>
              if is_blocking p n then Some (Inr (s\<lparr>blocked_channel := Some (queue_channel queue)\<rparr>))
              else do { z \<leftarrow> ZeroOfType (node_type node); set_result n node z s }
          | Some v \<Rightarrow>
              if is_blocking p n then set_result n node (TupleValue [TokenValue, v]) s
              else do { b \<leftarrow> UBits 1 1; set_result n node (TupleValue [TokenValue, v, BitsValue b]) s }) } }) }"

definition HandleSend :: "ir_proc \<Rightarrow> nat \<Rightarrow> ir_node \<Rightarrow> 'g proc_handler" where
  "HandleSend p n node s = do {
     cid \<leftarrow> channel_ids p n;
     or_return (GetQueueById (pi_manager s) cid) (\<lambda>queue. do {
       zero \<leftarrow> predicate_is_zero node 2 (pi_state s);
       if zero then set_result n node TokenValue s
       else do {
         let s = s\<lparr>sent_channel := Some (queue_channel queue)\<rparr>;
         data \<leftarrow> operand_value node (pi_state s) 1;
         or_return (ChannelQueue_Write data queue) (\<lambda>queue'. set_result n node TokenValue (s\<lparr>pi_manager := put_queue queue' (pi_manager s)\<rparr>)) } }) }"

definition HandleParam_proc :: "ir_proc \<Rightarrow> ir_value list \<Rightarrow> nat \<Rightarrow> ir_node \<Rightarrow> 'g proc_handler" where
  "HandleParam_proc p state n node s =
     (case find (\<lambda>i. proc_params p ! i = n) [0..<length (proc_params p)] of
        None \<Rightarrow> Some (Inl InvalidArgumentError)
      | Some index \<Rightarrow> if index = 0 then set_result n node TokenValue s else do { v \<leftarrow> list_at state (index - 1); set_result n node v s })"

definition ExecuteNode ::
  "('n, 'z) bignum_lib_scheme \<Rightarrow> package \<Rightarrow> interpret_call \<Rightarrow> ('g \<Rightarrow> ir_value option \<times> 'g) \<Rightarrow> ir_proc \<Rightarrow> ir_value list \<Rightarrow> nat \<Rightarrow> 'g proc_handler" where
  "ExecuteNode L pkg call gen p state n s = do {
     node \<leftarrow> list_at (proc_nodes p) n;
     let s = s\<lparr>blocked_channel := None, sent_channel := None\<rparr>;
     (case node_op node of
        StatefulOp kReceive \<Rightarrow> HandleReceive gen p n node s
      | StatefulOp kSend \<Rightarrow> HandleSend p n node s
      | Param name \<Rightarrow> HandleParam_proc p state n node s
      | op \<Rightarrow> or_return (visit_op L pkg call (proc_function p) [] op n node (pi_state s)) (\<lambda>st. Some (Inr (s\<lparr>pi_state := st\<rparr>)))) }"

section \<open>A tick of a proc\<close>

datatype TickExecutionState = kCompleted | kBlockedOnReceive | kSentOnChannel

record TickResult =
  execution_state :: TickExecutionState
  tick_channel :: "channel option"
  progress_made :: bool

definition InterpreterEventsToStatus :: "InterpreterEvents \<Rightarrow> unit status_or" where
  "InterpreterEventsToStatus e = (if assert_msgs e = [] then Inr () else Inl AbortedError)"

text \<open>The loop over the nodes: where it stops, and the index at which to resume.\<close>

fun Tick_loop :: "(nat \<Rightarrow> 'g proc_handler) \<Rightarrow> nat list \<Rightarrow> nat \<Rightarrow> 'g proc_interp \<Rightarrow> (TickExecutionState \<times> channel option \<times> nat \<times> 'g proc_interp) status_or option" where
  "Tick_loop execute [] i s = Some (Inr (kCompleted, None, i, s))"
| "Tick_loop execute (n # ns) i s = or_return (execute n s) (\<lambda>s.
     if sent_channel s \<noteq> None then Some (Inr (kSentOnChannel, sent_channel s, i + 1, s))
     else if blocked_channel s \<noteq> None then Some (Inr (kBlockedOnReceive, blocked_channel s, i, s))
     else Tick_loop execute ns (i + 1) s)"

definition resolve_all :: "interp_state \<Rightarrow> nat list \<Rightarrow> ir_value list option" where
  "resolve_all st ns = generate (length ns) (\<lambda>i. ResolveAsValue st (ns ! i))"

definition ProcInterpreter_Tick ::
  "('n, 'z) bignum_lib_scheme \<Rightarrow> package \<Rightarrow> interpret_call \<Rightarrow> ('g \<Rightarrow> ir_value option \<times> 'g) \<Rightarrow> ir_proc \<Rightarrow> nat list \<Rightarrow>
   ProcContinuation \<Rightarrow> 'g ChannelQueueManager \<Rightarrow> (TickResult \<times> ProcContinuation \<times> 'g ChannelQueueManager) status_or option" where
  "ProcInterpreter_Tick L pkg call gen p execution_order c m =
     or_return (Tick_loop (ExecuteNode L pkg call gen p (cont_state c)) (drop (node_index c) execution_order) (node_index c)
         \<lparr>pi_state = cont_interp c, pi_manager = m, blocked_channel = None, sent_channel = None\<rparr>)
       (\<lambda>(ex, ch, i, s). do {
         c' \<leftarrow> (if ex = kCompleted then do { next_state \<leftarrow> resolve_all (pi_state s) (NextState p); Some (NextTick next_state (c\<lparr>cont_interp := pi_state s\<rparr>)) }
                else Some (c\<lparr>node_index := i, cont_interp := pi_state s\<rparr>));
         (case InterpreterEventsToStatus (events (cont_interp c')) of
            Inl e \<Rightarrow> Some (Inl e)
          | Inr _ \<Rightarrow> Some (Inr (\<lparr>execution_state = ex, tick_channel = ch, progress_made = (ex = kCompleted \<or> node_index c' \<noteq> node_index c)\<rparr>, c', pi_manager s))) })"

section \<open>The scheduler\<close>

text \<open>
  The evaluator of a proc is an object with a virtual method \<open>Tick\<close>: a function of the number of the proc and of the state
  \<open>'w\<close> of all continuations and queues. An abort of the evaluator is an abort of the runtime.
\<close>

type_synonym 'w evaluator_tick = "nat \<Rightarrow> 'w \<Rightarrow> (TickResult \<times> 'w) status_or option"

type_synonym blocked_procs = "(channel \<times> nat) list"

partial_function (option) run_ready :: "'w evaluator_tick \<Rightarrow> nat list \<Rightarrow> blocked_procs \<Rightarrow> bool \<Rightarrow> 'w \<Rightarrow> (bool \<times> blocked_procs \<times> 'w) status_or option" where
  "run_ready tick ready_procs blocked progress w = (case ready_procs of
     [] \<Rightarrow> Some (Inr (progress, blocked, w))
   | proc # ready_procs \<Rightarrow> do {
       r \<leftarrow> tick proc w;
       (case r of
          Inl e \<Rightarrow> Some (Inl e)
        | Inr (t, w) \<Rightarrow>
            let progress = (progress \<or> progress_made t) in
            (case execution_state t of
               kSentOnChannel \<Rightarrow> do {
                 c \<leftarrow> tick_channel t;
                 (case map_of blocked c of
                    Some b \<Rightarrow> run_ready tick (ready_procs @ [b, proc]) (AList.delete c blocked) progress w
                  | None \<Rightarrow> run_ready tick (ready_procs @ [proc]) blocked progress w) }
             | kBlockedOnReceive \<Rightarrow> do { c \<leftarrow> tick_channel t; run_ready tick ready_procs (AList.update c proc blocked) progress w }
             | kCompleted \<Rightarrow> run_ready tick ready_procs blocked progress w)) })"

record NetworkTickResult =
  network_progress :: bool
  blocked_channels :: "channel list"

definition TickInternal :: "'w evaluator_tick \<Rightarrow> nat \<Rightarrow> 'w \<Rightarrow> (NetworkTickResult \<times> 'w) status_or option" where
  "TickInternal tick procs w = or_return (run_ready tick [0..<procs] [] False w) (\<lambda>(progress, blocked, w).
     Some (Inr (\<lparr>network_progress = progress, blocked_channels = sort_key channel_id (map fst blocked)\<rparr>, w)))"

definition ProcRuntime_Tick :: "'w evaluator_tick \<Rightarrow> nat \<Rightarrow> 'w \<Rightarrow> 'w status_or option" where
  "ProcRuntime_Tick tick procs w = or_return (TickInternal tick procs w) (\<lambda>(r, w). Some (if \<not> network_progress r then Inl InternalError else Inr w))"

text \<open>The limit and the counts are 64-bit integers; a runtime does not count to the end of that range.\<close>

partial_function (option) TickUntilBlocked_loop :: "'w evaluator_tick \<Rightarrow> nat \<Rightarrow> int option \<Rightarrow> int \<Rightarrow> 'w \<Rightarrow> (int \<times> 'w) status_or option" where
  "TickUntilBlocked_loop tick procs max_ticks ticks w =
     (if max_ticks = None \<or> ticks < the max_ticks then do {
        r \<leftarrow> TickInternal tick procs w;
        (case r of
           Inl e \<Rightarrow> Some (Inl e)
         | Inr (r, w) \<Rightarrow> if \<not> network_progress r then Some (Inr (ticks, w)) else TickUntilBlocked_loop tick procs max_ticks (ticks + 1) w) }
      else Some (Inl DeadlineExceededError))"

definition TickUntilBlocked :: "'w evaluator_tick \<Rightarrow> nat \<Rightarrow> int option \<Rightarrow> 'w \<Rightarrow> (int \<times> 'w) status_or option" where
  "TickUntilBlocked tick procs max_ticks w = TickUntilBlocked_loop tick procs max_ticks 0 w"

text \<open>
  The expected outputs in the order of the names of their channels, which decides only the message of an error; the
  size of the queue of a channel is a function of the state, undefined for a channel without a queue.
\<close>

fun needs_more_output :: "('w \<Rightarrow> channel \<Rightarrow> int option) \<Rightarrow> (channel \<times> int) list \<Rightarrow> 'w \<Rightarrow> bool option" where
  "needs_more_output queue_size [] w = Some False"
| "needs_more_output queue_size ((ch, count) # output_counts) w = do { size \<leftarrow> queue_size w ch; if size < count then Some True else needs_more_output queue_size output_counts w }"

partial_function (option) TickUntilOutput_loop ::
  "'w evaluator_tick \<Rightarrow> nat \<Rightarrow> ('w \<Rightarrow> channel \<Rightarrow> int option) \<Rightarrow> (channel \<times> int) list \<Rightarrow> int option \<Rightarrow> int \<Rightarrow> 'w \<Rightarrow> (int \<times> 'w) status_or option" where
  "TickUntilOutput_loop tick procs queue_size output_counts max_ticks ticks w = do {
     more \<leftarrow> needs_more_output queue_size output_counts w;
     if \<not> more then Some (Inr (ticks, w))
     else if max_ticks \<noteq> None \<and> the max_ticks \<le> ticks then Some (Inl DeadlineExceededError)
     else do {
       r \<leftarrow> ProcRuntime_Tick tick procs w;
       (case r of Inl e \<Rightarrow> Some (Inl e) | Inr w \<Rightarrow> TickUntilOutput_loop tick procs queue_size output_counts max_ticks (ticks + 1) w) } }"

definition TickUntilOutput ::
  "'w evaluator_tick \<Rightarrow> nat \<Rightarrow> ('w \<Rightarrow> channel \<Rightarrow> int option) \<Rightarrow> (channel \<times> int) list \<Rightarrow> int option \<Rightarrow> 'w \<Rightarrow> (int \<times> 'w) status_or option" where
  "TickUntilOutput tick procs queue_size output_counts max_ticks w =
     (if list_ex (\<lambda>(ch, count). supported_ops ch \<noteq> kSendOnly \<or> (channel_kind ch = kSingleValue \<and> 1 < count)) output_counts
      then Some (Inl InvalidArgumentError)
      else TickUntilOutput_loop tick procs queue_size output_counts max_ticks 0 w)"

lemma needs_more_output_cases:
  "needs_more_output queue_size output_counts w = Some False \<Longrightarrow> list_all (\<lambda>(ch, count). case queue_size w ch of None \<Rightarrow> False | Some k \<Rightarrow> count \<le> k) output_counts"
  "needs_more_output queue_size output_counts w = None \<Longrightarrow> list_ex (\<lambda>(ch, count). queue_size w ch = None) output_counts"
  by (induction output_counts) (auto split: bind_splits if_splits)

text \<open>Procs are numbered as in the package; an evaluator for a proc of another package has a number out of range.\<close>

definition SerialProcRuntime_Create :: "nat \<Rightarrow> nat list \<Rightarrow> unit status_or" where
  "SerialProcRuntime_Create procs evaluators =
     (if \<not> distinct evaluators then Inl InternalError
      else if \<not> list_all (\<lambda>p. p \<in> set evaluators) [0..<procs] then Inl InternalError
      else if length evaluators \<noteq> procs then Inl InternalError
      else Inr ())"

section \<open>The runtime of interpreted procs\<close>

record 'g network =
  continuations :: "ProcContinuation list"
  queue_manager :: "'g ChannelQueueManager"

definition network_tick ::
  "('n, 'z) bignum_lib_scheme \<Rightarrow> package \<Rightarrow> interpret_call \<Rightarrow> ('g \<Rightarrow> ir_value option \<times> 'g) \<Rightarrow> ir_proc list \<Rightarrow> 'g network evaluator_tick" where
  "network_tick L pkg call gen procs i w = do {
     p \<leftarrow> list_at procs i;
     execution_order \<leftarrow> TopoSort (proc_function p);
     c \<leftarrow> list_at (continuations w) i;
     or_return (ProcInterpreter_Tick L pkg call gen p execution_order c (queue_manager w)) (\<lambda>(t, c, m).
       Some (Inr (t, w\<lparr>continuations := (continuations w)[i := c], queue_manager := m\<rparr>))) }"

definition ProcRuntime_new :: "ir_proc list \<Rightarrow> 'g ChannelQueueManager \<Rightarrow> 'g network" where
  "ProcRuntime_new procs m = \<lparr>continuations = map NewContinuation procs, queue_manager = m\<rparr>"

definition network_queue_size :: "'g network \<Rightarrow> channel \<Rightarrow> int option" where
  "network_queue_size w ch = map_option (\<lambda>q. int (GetSize q)) (GetQueue (queue_manager w) ch)"

definition ResetState :: "ir_proc list \<Rightarrow> 'g network \<Rightarrow> 'g network" where
  "ResetState procs w = w\<lparr>continuations := map NewContinuation procs\<rparr>"

section \<open>Ticks end\<close>

text \<open>The states a runtime of \<open>procs\<close> procs can be in between the ticks of single procs.\<close>

inductive tick_reaches :: "'w evaluator_tick \<Rightarrow> nat \<Rightarrow> 'w \<Rightarrow> 'w \<Rightarrow> bool" for tick procs where
  here: "tick_reaches tick procs w w"
| there: "p < procs \<Longrightarrow> tick p w = Some (Inr (t, w')) \<Longrightarrow> tick_reaches tick procs w' w'' \<Longrightarrow> tick_reaches tick procs w w''"

lemma tick_reaches_trans: "tick_reaches tick procs w w' \<Longrightarrow> tick_reaches tick procs w' w'' \<Longrightarrow> tick_reaches tick procs w w''"
  by (induction rule: tick_reaches.induct) (auto intro: there)

text \<open>An execution aborts: a proc of the network aborts in a state that it reaches.\<close>

definition some_tick_aborts :: "'w evaluator_tick \<Rightarrow> nat \<Rightarrow> 'w \<Rightarrow> bool" where
  "some_tick_aborts tick procs w \<longleftrightarrow> (\<exists>p < procs. \<exists>w'. tick_reaches tick procs w w' \<and> tick p w' = None)"

lemma some_tick_aborts_step: "tick_reaches tick procs w w' \<Longrightarrow> some_tick_aborts tick procs w' \<Longrightarrow> some_tick_aborts tick procs w"
  unfolding some_tick_aborts_def by (blast intro: tick_reaches_trans)

text \<open>A call that returns an error, or a state that can be reached.\<close>

definition ends_in_reach :: "'w evaluator_tick \<Rightarrow> nat \<Rightarrow> 'w \<Rightarrow> ('r \<Rightarrow> 'w) \<Rightarrow> 'r status_or option \<Rightarrow> bool" where
  "ends_in_reach tick procs w st r \<longleftrightarrow> (\<exists>x. r = Some x \<and> (\<forall>y. x = Inr y \<longrightarrow> tick_reaches tick procs w (st y)))"

lemma ends_in_reach_step: "tick_reaches tick procs w w' \<Longrightarrow> ends_in_reach tick procs w' st r \<Longrightarrow> ends_in_reach tick procs w st r"
  unfolding ends_in_reach_def by (blast intro: tick_reaches_trans)

lemma update_procs: "snd ` set (AList.update c p blocked) \<subseteq> insert p (snd ` set blocked)"
  by (induction blocked) auto

lemma distinct_update: "distinct (map snd blocked) \<Longrightarrow> p \<notin> snd ` set blocked \<Longrightarrow> distinct (map snd (AList.update c p blocked))"
proof (induction blocked)
  case (Cons e es)
  then show ?case using update_procs[of c p es] by (cases e) auto
qed simp

lemma delete_procs:
  assumes "distinct (map snd blocked)" "map_of blocked c = Some b"
  shows "distinct (map snd (AList.delete c blocked))" "b \<in> snd ` set blocked" "b \<notin> snd ` set (AList.delete c blocked)" "snd ` set (AList.delete c blocked) \<subseteq> snd ` set blocked"
proof -
  have e: "(c, b) \<in> set blocked" using assms(2) by (rule map_of_SomeD)
  have inj: "inj_on snd (set blocked)" using assms(1) by (simp add: distinct_map)
  show "distinct (map snd (AList.delete c blocked))" using assms(1) by (simp add: AList.delete_eq distinct_map_filter)
  show "b \<in> snd ` set blocked" using e by force
  show "snd ` set (AList.delete c blocked) \<subseteq> snd ` set blocked" by (auto simp: AList.delete_eq)
  show "b \<notin> snd ` set (AList.delete c blocked)"
  proof
    assume "b \<in> snd ` set (AList.delete c blocked)"
    then obtain k where "(k, b) \<in> set blocked" "k \<noteq> c" by (auto simp: AList.delete_eq)
    then show False using inj_onD[OF inj, of "(k, b)" "(c, b)"] e by simp
  qed
qed

text \<open>One turn of the loop: the ready and the blocked procs after the tick of \<open>p\<close>.\<close>

definition reschedule :: "TickResult \<Rightarrow> nat \<Rightarrow> nat list \<Rightarrow> blocked_procs \<Rightarrow> nat list \<times> blocked_procs" where
  "reschedule t p ps waiting = (let c = the (tick_channel t) in case execution_state t of
     kCompleted \<Rightarrow> (ps, waiting)
   | kBlockedOnReceive \<Rightarrow> (ps, AList.update c p waiting)
   | kSentOnChannel \<Rightarrow> (case map_of waiting c of Some b \<Rightarrow> (ps @ [b, p], AList.delete c waiting) | None \<Rightarrow> (ps @ [p], waiting)))"

lemma run_ready_step:
  assumes "tick p w = Some (Inr (t, w'))" "execution_state t = kCompleted \<or> tick_channel t \<noteq> None"
  shows "run_ready tick (p # ps) waiting progress w = run_ready tick (fst (reschedule t p ps waiting)) (snd (reschedule t p ps waiting)) (progress \<or> progress_made t) w'"
  using assms by (subst run_ready.simps) (auto simp: reschedule_def split: TickExecutionState.splits option.splits)

lemma reschedule_ok:
  assumes "distinct ((p # ps) @ map snd waiting)"
  shows "distinct (fst (reschedule t p ps waiting) @ map snd (snd (reschedule t p ps waiting)))"
    "set (fst (reschedule t p ps waiting)) \<union> snd ` set (snd (reschedule t p ps waiting)) \<subseteq> set (p # ps) \<union> snd ` set waiting"
proof -
  let ?c = "the (tick_channel t)"
  have p: "p \<notin> set ps" "p \<notin> snd ` set waiting" "distinct ps" "distinct (map snd waiting)" "set ps \<inter> snd ` set waiting = {}" using assms by auto
  have "distinct (fst (reschedule t p ps waiting) @ map snd (snd (reschedule t p ps waiting))) \<and>
    set (fst (reschedule t p ps waiting)) \<union> snd ` set (snd (reschedule t p ps waiting)) \<subseteq> set (p # ps) \<union> snd ` set waiting"
  proof (cases "execution_state t")
    case kCompleted
    then show ?thesis using p by (auto simp: reschedule_def)
  next
    case kBlockedOnReceive
    have "p \<notin> set ps" "set ps \<inter> snd ` set (AList.update ?c p waiting) = {}" using p(1,5) update_procs[of ?c p waiting] by blast+
    then show ?thesis using kBlockedOnReceive p(3) update_procs[of ?c p waiting] distinct_update[OF p(4,2), of ?c] by (simp add: reschedule_def) blast
  next
    case kSentOnChannel
    show ?thesis
    proof (cases "map_of waiting ?c")
      case None
      then show ?thesis using kSentOnChannel p by (auto simp: reschedule_def)
    next
      case (Some b)
      note q = delete_procs[OF p(4) Some]
      have "b \<notin> set ps" "b \<noteq> p" "p \<notin> snd ` set (AList.delete ?c waiting)" "set ps \<inter> snd ` set (AList.delete ?c waiting) = {}" using p(2,5) q(2,4) by blast+
      then show ?thesis using kSentOnChannel Some p(1,3) q by (simp add: reschedule_def) blast
    qed
  qed
  then show "distinct (fst (reschedule t p ps waiting) @ map snd (snd (reschedule t p ps waiting)))"
    "set (fst (reschedule t p ps waiting)) \<union> snd ` set (snd (reschedule t p ps waiting)) \<subseteq> set (p # ps) \<union> snd ` set waiting" by blast+
qed

text \<open>
  The contract of an evaluator: a tick of a proc leaves the work of the others alone; a tick that ends with a send has
  done some of its own work, and one that blocks has not added any.
\<close>

locale evaluator_contract =
  fixes tick :: "'w evaluator_tick" and remaining :: "'w \<Rightarrow> nat \<Rightarrow> nat"
  assumes others: "tick p w = Some (Inr (t, w')) \<Longrightarrow> q \<noteq> p \<Longrightarrow> remaining w' q = remaining w q"
    and sent: "tick p w = Some (Inr (t, w')) \<Longrightarrow> execution_state t = kSentOnChannel \<Longrightarrow> remaining w' p < remaining w p \<and> tick_channel t \<noteq> None"
    and blocked: "tick p w = Some (Inr (t, w')) \<Longrightarrow> execution_state t = kBlockedOnReceive \<Longrightarrow> remaining w' p \<le> remaining w p \<and> tick_channel t \<noteq> None"
begin

definition work :: "'w \<Rightarrow> nat set \<Rightarrow> nat" where
  "work w A = sum (remaining w) A"

lemma work_le: "finite A \<Longrightarrow> B \<subseteq> A \<Longrightarrow> (\<And>q. q \<in> B \<Longrightarrow> remaining w' q \<le> remaining w q) \<Longrightarrow> work w' B \<le> work w A"
  unfolding work_def by (meson le_trans sum_mono sum_mono2 zero_le)

lemma work_less:
  assumes "finite A" "B \<subseteq> A" "p \<in> A" "remaining w' p < remaining w p" "\<And>q. q \<noteq> p \<Longrightarrow> remaining w' q = remaining w q"
  shows "work w' B < work w A"
proof -
  have "work w' B \<le> work w' A" using assms(1,2) by (intro work_le) auto
  also have "\<dots> < work w A" unfolding work_def using assms by (intro sum_strict_mono_ex1) (auto, metis less_imp_le order_refl)
  finally show ?thesis .
qed

lemma reschedule_less:
  assumes tick: "tick p w = Some (Inr (t, w'))" and d: "distinct ((p # ps) @ map snd waiting)"
  shows "((work w' (set (fst (reschedule t p ps waiting)) \<union> snd ` set (snd (reschedule t p ps waiting))), length (fst (reschedule t p ps waiting))),
    (work w (set (p # ps) \<union> snd ` set waiting), length (p # ps))) \<in> less_than <*lex*> less_than"
proof -
  let ?A = "set (p # ps) \<union> snd ` set waiting" and ?r = "reschedule t p ps waiting"
  have fin: "finite ?A" by simp
  note o = others[OF tick]
  have sub: "set (fst ?r) \<union> snd ` set (snd ?r) \<subseteq> ?A" using reschedule_ok(2)[OF d] .
  show ?thesis
  proof (cases "execution_state t")
    case kCompleted
    have r: "?r = (ps, waiting)" using kCompleted by (simp add: reschedule_def)
    have "q \<noteq> p" if "q \<in> set ps \<union> snd ` set waiting" for q using that d by auto
    then have "work w' (set ps \<union> snd ` set waiting) \<le> work w ?A" by (intro work_le[OF fin]) (auto simp: o)
    then show ?thesis using r by auto
  next
    case kBlockedOnReceive
    then have "remaining w' p \<le> remaining w p" using blocked[OF tick] by simp
    then have "work w' (set (fst ?r) \<union> snd ` set (snd ?r)) \<le> work w ?A" by (intro work_le[OF fin sub]) (metis o order_refl)
    moreover have "length (fst ?r) < length (p # ps)" using kBlockedOnReceive by (simp add: reschedule_def)
    ultimately show ?thesis by auto
  next
    case kSentOnChannel
    then have "remaining w' p < remaining w p" using sent[OF tick] by simp
    then have "work w' (set (fst ?r) \<union> snd ` set (snd ?r)) < work w ?A" by (intro work_less[OF fin sub _ _ o]) auto
    then show ?thesis by auto
  qed
qed

text \<open>Unless a tick of some proc aborts, the loop over the ready procs returns.\<close>

lemma run_ready_ends:
  assumes "distinct (ready_procs @ map snd waiting)" "set ready_procs \<union> snd ` set waiting \<subseteq> {..<procs}"
  shows "ends_in_reach tick procs w (\<lambda>y. snd (snd y)) (run_ready tick ready_procs waiting progress w) \<or> some_tick_aborts tick procs w"
  using assms
proof (induction "(work w (set ready_procs \<union> snd ` set waiting), length ready_procs)" arbitrary: ready_procs waiting progress w rule: wf_induct_rule[OF wf_lex_prod[OF wf_less_than wf_less_than], case_names less])
  case (less ready_procs waiting w progress)
  show ?case
  proof (cases ready_procs)
    case Nil
    then show ?thesis by (subst run_ready.simps) (auto simp: ends_in_reach_def intro: here)
  next
    case (Cons p ps)
    have p: "p < procs" using less.prems(2) Cons by simp
    consider "tick p w = None" | e where "tick p w = Some (Inl e)" | t w' where "tick p w = Some (Inr (t, w'))"
      by (metis option.exhaust old.sum.exhaust surj_pair)
    then show ?thesis
    proof cases
      case 1
      then show ?thesis using p by (auto simp: some_tick_aborts_def intro: here)
    next
      case 2
      then show ?thesis using Cons by (subst run_ready.simps) (simp add: ends_in_reach_def)
    next
      case (3 t w')
      have d: "distinct ((p # ps) @ map snd waiting)" using less.prems(1) Cons by simp
      have sub: "set (fst (reschedule t p ps waiting)) \<union> snd ` set (snd (reschedule t p ps waiting)) \<subseteq> {..<procs}"
        using reschedule_ok(2)[OF d, of t] less.prems(2) Cons by blast
      have w': "tick_reaches tick procs w w'" using there[of p procs tick w t w' w', OF p 3 here] .
      have "execution_state t = kCompleted \<or> tick_channel t \<noteq> None" using sent[OF 3] blocked[OF 3] by (cases "execution_state t") auto
      note step = run_ready_step[of tick p w t w', OF 3 this, of ps waiting progress, folded Cons]
      show ?thesis unfolding step
        using less.hyps[OF reschedule_less[OF 3 d, folded Cons] reschedule_ok(1)[OF d] sub, of "progress \<or> progress_made t"]
          ends_in_reach_step[OF w'] some_tick_aborts_step[OF w'] by blast
    qed
  qed
qed

lemma TickInternal_ends: "ends_in_reach tick procs w snd (TickInternal tick procs w) \<or> some_tick_aborts tick procs w"
proof -
  have "ends_in_reach tick procs w (\<lambda>y. snd (snd y)) (run_ready tick [0..<procs] [] False w) \<or> some_tick_aborts tick procs w"
    by (rule run_ready_ends) auto
  then show ?thesis by (auto simp: TickInternal_def or_return_def ends_in_reach_def split: sum.splits)
qed

lemma TickInternal_cases:
  obtains "some_tick_aborts tick procs w" | e where "TickInternal tick procs w = Some (Inl e)"
    | r w' where "TickInternal tick procs w = Some (Inr (r, w'))" "tick_reaches tick procs w w'"
  using TickInternal_ends[of procs w] unfolding ends_in_reach_def by (metis old.sum.exhaust prod.collapse)

lemma TickUntilBlocked_loop_ends:
  "(\<exists>n w'. TickUntilBlocked_loop tick procs (Some max_ticks) ticks w = Some (Inr (n, w')) \<and> n < max_ticks \<and> tick_reaches tick procs w w') \<or>
   (\<exists>e. TickUntilBlocked_loop tick procs (Some max_ticks) ticks w = Some (Inl e)) \<or> some_tick_aborts tick procs w"
proof (induction "nat (max_ticks - ticks)" arbitrary: ticks w rule: less_induct)
  case less
  show ?case
  proof (cases "ticks < max_ticks")
    case False
    then show ?thesis by (subst (2) TickUntilBlocked_loop.simps) simp
  next
    case True
    show ?thesis
    proof (cases rule: TickInternal_cases[of procs w])
      case 1
      then show ?thesis by simp
    next
      case (2 e)
      then have "TickUntilBlocked_loop tick procs (Some max_ticks) ticks w = Some (Inl e)" using True by (subst TickUntilBlocked_loop.simps) simp
      then show ?thesis by blast
    next
      case (3 r w')
      have step: "TickUntilBlocked_loop tick procs (Some max_ticks) ticks w =
        (if \<not> network_progress r then Some (Inr (ticks, w')) else TickUntilBlocked_loop tick procs (Some max_ticks) (ticks + 1) w')"
        using True 3(1) by (subst TickUntilBlocked_loop.simps) simp
      show ?thesis unfolding step
        using less[of "ticks + 1" w'] True 3(2) some_tick_aborts_step[OF 3(2)] tick_reaches_trans[OF 3(2)] by (cases "network_progress r") auto
    qed
  qed
qed

lemma TickUntilOutput_loop_ends:
  "(\<exists>n w'. TickUntilOutput_loop tick procs queue_size expected (Some max_ticks) ticks w = Some (Inr (n, w')) \<and> needs_more_output queue_size expected w' = Some False \<and> tick_reaches tick procs w w') \<or>
   (\<exists>e. TickUntilOutput_loop tick procs queue_size expected (Some max_ticks) ticks w = Some (Inl e)) \<or> some_tick_aborts tick procs w \<or>
   (\<exists>w'. tick_reaches tick procs w w' \<and> needs_more_output queue_size expected w' = None)"
proof (induction "nat (max_ticks - ticks)" arbitrary: ticks w rule: less_induct)
  case less
  note unroll = TickUntilOutput_loop.simps[of tick procs queue_size expected "Some max_ticks" ticks w]
  consider "needs_more_output queue_size expected w = None" | "needs_more_output queue_size expected w = Some False"
    | "needs_more_output queue_size expected w = Some True" "max_ticks \<le> ticks" | "needs_more_output queue_size expected w = Some True" "ticks < max_ticks"
    by (metis (full_types) not_le option.exhaust)
  then show ?case
  proof cases
    case 1
    then show ?thesis using here[of tick procs w] by blast
  next
    case 2
    then show ?thesis using unroll here[of tick procs w] by auto
  next
    case 3
    then show ?thesis using unroll by auto
  next
    case 4
    show ?thesis
    proof (cases rule: TickInternal_cases[of procs w])
      case 1
      then show ?thesis by simp
    next
      case (2 e)
      then show ?thesis using unroll 4 by (auto simp: ProcRuntime_Tick_def or_return_def)
    next
      case (3 r w')
      have step: "TickUntilOutput_loop tick procs queue_size expected (Some max_ticks) ticks w =
        (if \<not> network_progress r then Some (Inl InternalError) else TickUntilOutput_loop tick procs queue_size expected (Some max_ticks) (ticks + 1) w')"
        using unroll 4 3(1) by (simp add: ProcRuntime_Tick_def or_return_def)
      show ?thesis unfolding step
        using less[of "ticks + 1" w'] 4(2) some_tick_aborts_step[OF 3(2)] tick_reaches_trans[OF 3(2)] by (cases "network_progress r") (simp, blast, simp)
    qed
  qed
qed

end

section \<open>The interpreter keeps the contract\<close>

text \<open>
  A tick resumes at the first node that has not run: after the send, at the receive that blocked, and at the start
  once all nodes have run.
\<close>

lemma Tick_loop_stop:
  assumes "Tick_loop execute ns i s = Some (Inr (ex, ch, j, s'))"
  shows "i \<le> j \<and> j \<le> i + length ns \<and> (ex = kSentOnChannel \<longrightarrow> i < j \<and> ch \<noteq> None) \<and> (ex = kBlockedOnReceive \<longrightarrow> j < i + length ns \<and> ch \<noteq> None)"
  using assms
proof (induction ns arbitrary: i s)
  case (Cons n ns)
  from Cons.prems obtain s1 where "execute n s = Some (Inr s1)"
    by (cases "execute n s") (auto simp: or_return_def split: sum.splits)
  then show ?case using Cons.prems Cons.IH[of "Suc i" s1] by (auto simp: or_return_def split: if_splits) (metis)+
qed auto

definition nodes_left :: "ir_proc list \<Rightarrow> 'g network \<Rightarrow> nat \<Rightarrow> nat" where
  "nodes_left procs w q = length (the (TopoSort (proc_function (procs ! q)))) - node_index (continuations w ! q)"

lemma ProcInterpreter_Tick_stop:
  assumes "ProcInterpreter_Tick L pkg call gen p execution_order c m = Some (Inr (t, c', m'))"
  shows "execution_state t = kSentOnChannel \<longrightarrow> node_index c < node_index c' \<and> node_index c < length execution_order \<and> tick_channel t \<noteq> None"
    "execution_state t = kBlockedOnReceive \<longrightarrow> node_index c \<le> node_index c' \<and> tick_channel t \<noteq> None"
proof -
  obtain ex ch j s where l: "Tick_loop (ExecuteNode L pkg call gen p (cont_state c)) (drop (node_index c) execution_order) (node_index c)
      \<lparr>pi_state = cont_interp c, pi_manager = m, blocked_channel = None, sent_channel = None\<rparr> = Some (Inr (ex, ch, j, s))"
    and t: "execution_state t = ex" "tick_channel t = ch" "ex \<noteq> kCompleted \<longrightarrow> node_index c' = j"
    using assms unfolding ProcInterpreter_Tick_def or_return_def
    by (auto split: option.splits sum.splits if_splits bind_splits)
  note stop = Tick_loop_stop[OF l]
  show "execution_state t = kSentOnChannel \<longrightarrow> node_index c < node_index c' \<and> node_index c < length execution_order \<and> tick_channel t \<noteq> None"
    "execution_state t = kBlockedOnReceive \<longrightarrow> node_index c \<le> node_index c' \<and> tick_channel t \<noteq> None"
    using stop t by auto
qed

lemma network_tick_cases:
  assumes "network_tick L pkg call gen procs i w = Some (Inr (t, w'))"
  obtains execution_order c' m' where "i < length procs" "i < length (continuations w)" "TopoSort (proc_function (procs ! i)) = Some execution_order"
    "ProcInterpreter_Tick L pkg call gen (procs ! i) execution_order (continuations w ! i) (queue_manager w) = Some (Inr (t, c', m'))"
    "continuations w' = (continuations w)[i := c']"
  using assms by (auto simp: network_tick_def or_return_def list_at_def split: option.splits sum.splits if_splits bind_splits)

interpretation interpreted: evaluator_contract "network_tick L pkg call gen procs" "nodes_left procs"
proof
  fix p w t w'
  assume a: "network_tick L pkg call gen procs p w = Some (Inr (t, w'))"
  obtain eo c' m' where e: "p < length procs" "p < length (continuations w)" "TopoSort (proc_function (procs ! p)) = Some eo"
    "ProcInterpreter_Tick L pkg call gen (procs ! p) eo (continuations w ! p) (queue_manager w) = Some (Inr (t, c', m'))"
    "continuations w' = (continuations w)[p := c']" using a by (rule network_tick_cases)
  note stop = ProcInterpreter_Tick_stop[OF e(4)]
  show "nodes_left procs w' q = nodes_left procs w q" if "q \<noteq> p" for q using that e(5) by (simp add: nodes_left_def)
  show "nodes_left procs w' p < nodes_left procs w p \<and> tick_channel t \<noteq> None" if "execution_state t = kSentOnChannel"
    using stop(1) that e by (auto simp: nodes_left_def)
  show "nodes_left procs w' p \<le> nodes_left procs w p \<and> tick_channel t \<noteq> None" if "execution_state t = kBlockedOnReceive"
    using stop(2) that e by (auto simp: nodes_left_def)
qed

end
