(* ===== verification/ProcSoundness.thy ===== *)
theory ProcSoundness
  imports ProcRuntime
begin

text \<open>
  Procs that the verifier accepts: the rules of \<open>xls/ir/verifier.cc\<close> on sends, receives and procs, and the proof that
  a network of accepted procs runs without aborts. Every state that the runtime reaches is well-typed, every tick of a
  proc returns, and so the calls of the runtime end.
\<close>

section \<open>The verifier on procs\<close>

definition ExpectOperandCountRange :: "ir_node \<Rightarrow> nat \<Rightarrow> nat \<Rightarrow> verdict" where
  "ExpectOperandCountRange node lower_limit upper_limit = expect (lower_limit \<le> length (operands node) \<and> length (operands node) \<le> upper_limit)"

definition NodeChecker_HandleReceive :: "package_channels \<Rightarrow> ir_proc \<Rightarrow> nat \<Rightarrow> ir_function \<Rightarrow> ir_node \<Rightarrow> verdict" where
  "NodeChecker_HandleReceive channels p n f node = checks
     [ExpectOperandCountRange node 1 2, ExpectOperandHasTokenType f node 0,
      if length (operands node) > 1 then ExpectOperandHasBitsType f node 1 (Some 1) else Some (Inr ()),
      do {
        cid \<leftarrow> channel_ids p n;
        if \<not> HasChannelWithId channels cid then Some (Inl InternalError)
        else or_return (Some (GetChannel channels cid)) (\<lambda>channel. checks
          [expect (node_type node = (if is_blocking p n then TupleType [TokenType, channel_type channel] else TupleType [TokenType, channel_type channel, BitsType 1])),
           expect (CanReceive channel)]) }]"

definition NodeChecker_HandleSend :: "package_channels \<Rightarrow> ir_proc \<Rightarrow> nat \<Rightarrow> ir_function \<Rightarrow> ir_node \<Rightarrow> verdict" where
  "NodeChecker_HandleSend channels p n f node = checks
     [ExpectHasTokenType node, ExpectOperandCountRange node 2 3, ExpectOperandHasTokenType f node 0,
      if length (operands node) > 2 then ExpectOperandHasBitsType f node 2 (Some 1) else Some (Inr ()),
      do {
        cid \<leftarrow> channel_ids p n;
        if \<not> HasChannelWithId channels cid then Some (Inl InternalError)
        else or_return (Some (GetChannel channels cid)) (\<lambda>channel. checks
          [expect (CanSend channel), ExpectOperandHasType f node 1 (channel_type channel)]) }]"

text \<open>The other stateful operations, which belong to blocks, stay a parameter.\<close>

fun check_proc_op :: "(stateful_op \<Rightarrow> ir_node \<Rightarrow> verdict) \<Rightarrow> package_channels \<Rightarrow> ir_proc \<Rightarrow> nat \<Rightarrow> stateful_op \<Rightarrow> ir_node \<Rightarrow> verdict" where
  "check_proc_op check_stateful channels p n kReceive node = NodeChecker_HandleReceive channels p n (proc_function p) node"
| "check_proc_op check_stateful channels p n kSend node = NodeChecker_HandleSend channels p n (proc_function p) node"
| "check_proc_op check_stateful channels p n s node = check_stateful s node"

text \<open>
  \<open>VerifyProc\<close> without its last check, the connectivity of tokens. The span of the state parameters exists only if there
  is a token parameter.
\<close>

definition VerifyProc :: "(stateful_op \<Rightarrow> ir_node \<Rightarrow> verdict) \<Rightarrow> package \<Rightarrow> package_channels \<Rightarrow> ir_proc \<Rightarrow> verdict" where
  "VerifyProc check_stateful pkg channels p = (let f = proc_function p in checks
     ([VerifyFunctionBase (check_proc_op check_stateful channels p) pkg f,
       do { check (proc_params p \<noteq> []); t \<leftarrow> param_type f 0; expect (t = TokenType) },
       expect (length (proc_params p) - 1 = length (InitValues p)),
       expect (length (proc_params p) - 1 = length (NextState p))] @
      map (\<lambda>i. do {
          t \<leftarrow> param_type f (i + 1);
          m \<leftarrow> list_at (NextState p) i;
          u \<leftarrow> GetType f m;
          if t \<noteq> u then Some (Inl InternalError)
          else do { v \<leftarrow> list_at (InitValues p) i; c \<leftarrow> ValueConformsToType v t; expect c } })
        [0..<length (proc_params p) - 1] @
      [do { t \<leftarrow> GetType f (NextToken p); expect (t = TokenType) }]))"

text \<open>What the interpreter needs and the verifier does not check: \<open>evaluable\<close> on a proc.\<close>

definition proc_node_evaluable :: "package \<Rightarrow> ir_function \<Rightarrow> ir_node \<Rightarrow> bool" where
  "proc_node_evaluable pkg f node \<longleftrightarrow> inhabited (node_type node) \<and> int64_type (node_type node) \<and>
     (node_op node = StatefulOp kSend \<or> node_op node = StatefulOp kReceive \<or>
      evaluable_op pkg f node (node_op node) \<and> (\<forall>g \<in> set (callees (node_op node)). g < length pkg))"

definition proc_ok :: "(stateful_op \<Rightarrow> ir_node \<Rightarrow> verdict) \<Rightarrow> package \<Rightarrow> package_channels \<Rightarrow> ir_proc \<Rightarrow> bool" where
  "proc_ok check_stateful pkg channels p \<longleftrightarrow> VerifyProc check_stateful pkg channels p = Some (Inr ()) \<and>
     (\<forall>node \<in> set (proc_nodes p). proc_node_evaluable pkg (proc_function p) node) \<and> (\<forall>v \<in> set (InitValues p). wf_value v)"

lemma proc_function_simps [simp]: "fn_nodes (proc_function p) = proc_nodes p" "fn_params (proc_function p) = proc_params p"
  by (simp_all add: proc_function_def)

lemma proc_okD:
  assumes "proc_ok check_stateful pkg channels p"
  shows "FunctionBase_Accept no_visit (proc_function p) () = Some (Inr ())"
    "n < length (proc_nodes p) \<Longrightarrow> set (operands (proc_nodes p ! n)) \<subseteq> {0..<length (proc_nodes p)}"
    "n < length (proc_nodes p) \<Longrightarrow> check_op (check_proc_op check_stateful channels p n) pkg (proc_function p) (node_op (proc_nodes p ! n)) (proc_nodes p ! n) = Some (Inr ())"
    "length (InitValues p) = length (proc_params p) - 1" "length (NextState p) = length (proc_params p) - 1" "\<forall>m \<in> set (NextState p). m < length (proc_nodes p)"
    "\<forall>v \<in> set (InitValues p). wf_value v" "node \<in> set (proc_nodes p) \<Longrightarrow> proc_node_evaluable pkg (proc_function p) node"
proof -
  have e: "(\<lambda>n st. Some (Inr st)) = no_visit" by (intro ext) (simp add: no_visit_def)
  have v: "VerifyFunctionBase (check_proc_op check_stateful channels p) pkg (proc_function p) = Some (Inr ())" "VerifyProc check_stateful pkg channels p = Some (Inr ())"
    using assms by (auto simp: proc_ok_def VerifyProc_def Let_def)
  show "FunctionBase_Accept no_visit (proc_function p) () = Some (Inr ())" using v(1) unfolding VerifyFunctionBase_def e Let_def checks_ok by simp
  have n: "VerifyNode (check_proc_op check_stateful channels p n) pkg (proc_function p) (proc_nodes p ! n) = Some (Inr ())" if "n < length (proc_nodes p)" for n
    using v(1) that by (auto simp: VerifyFunctionBase_def Let_def)
  show "n < length (proc_nodes p) \<Longrightarrow> set (operands (proc_nodes p ! n)) \<subseteq> {0..<length (proc_nodes p)}"
    "n < length (proc_nodes p) \<Longrightarrow> check_op (check_proc_op check_stateful channels p n) pkg (proc_function p) (node_op (proc_nodes p ! n)) (proc_nodes p ! n) = Some (Inr ())"
    using n by (auto simp: VerifyNode_def)
  show l: "length (InitValues p) = length (proc_params p) - 1" "length (NextState p) = length (proc_params p) - 1" using v(2) by (auto simp: VerifyProc_def Let_def)
  have "NextState p ! i < length (proc_nodes p)" if "i < length (NextState p)" for i
    using v(2) that l(2) by (force simp: VerifyProc_def Let_def bind_ok list_at_eq_Some GetType_def node_at_def)
  then show "\<forall>m \<in> set (NextState p). m < length (proc_nodes p)" by (auto simp: in_set_conv_nth)
  show "\<forall>v \<in> set (InitValues p). wf_value v" "node \<in> set (proc_nodes p) \<Longrightarrow> proc_node_evaluable pkg (proc_function p) node" using assms by (auto simp: proc_ok_def)
qed

lemma proc_order:
  assumes "proc_ok check_stateful pkg channels p"
  obtains order where "TopoSort (proc_function p) = Some order" "distinct order" "set order = {0..<length (proc_nodes p)}"
    "\<And>i. i < length order \<Longrightarrow> set (operands (proc_nodes p ! (order ! i))) \<subseteq> set (take i order)"
proof -
  have r: "\<forall>node \<in> set (fn_nodes (proc_function p)). set (operands node) \<subseteq> {0..<length (fn_nodes (proc_function p))}"
    using proc_okD(2)[OF assms] by (simp add: all_set_conv_all_nth)
  then have "graph_ok (map operands (fn_nodes (proc_function p)))" by (auto simp: graph_ok_def)
  then have "acyclic (operand_edges (map operands (fn_nodes (proc_function p))))" using accepted_iff proc_okD(1)[OF assms] by blast
  then show thesis by (rule TopoSort_result[OF r]) (rule that, simp_all)
qed

section \<open>Well-typed networks\<close>

text \<open>Every registered channel has its queue, and the queues hold well-formed values.\<close>

definition manager_ok :: "package_channels \<Rightarrow> 'g ChannelQueueManager \<Rightarrow> bool" where
  "manager_ok channels m \<longleftrightarrow> manager_package m = channels \<and>
     (\<forall>cid c. channels_by_id channels cid = Some c \<longrightarrow> (\<exists>q. queues m c = Some q \<and> queue_channel q = c \<and> (\<forall>v \<in> set (queue_values q). wf_value v)))"

definition generates_values :: "('g \<Rightarrow> ir_value option \<times> 'g) \<Rightarrow> bool" where
  "generates_values gen \<longleftrightarrow> (\<forall>g v g'. gen g = (Some v, g') \<longrightarrow> wf_value v)"

definition cont_ok :: "ir_proc \<Rightarrow> nat list \<Rightarrow> ProcContinuation \<Rightarrow> bool" where
  "cont_ok p order c \<longleftrightarrow> node_index c \<le> length order \<and> visited_typed (proc_function p) (take (node_index c) order) (cont_interp c) \<and>
     length (cont_state c) = length (proc_params p) - 1 \<and> (\<forall>v \<in> set (cont_state c). wf_value v)"

definition network_ok :: "package_channels \<Rightarrow> ir_proc list \<Rightarrow> 'g network \<Rightarrow> bool" where
  "network_ok channels procs w \<longleftrightarrow> length (continuations w) = length procs \<and> manager_ok channels (queue_manager w) \<and>
     (\<forall>i < length procs. \<exists>order. TopoSort (proc_function (procs ! i)) = Some order \<and> cont_ok (procs ! i) order (continuations w ! i))"

lemma manager_ok_lookup:
  assumes "manager_ok channels m"
  shows "\<exists>r. GetQueueById m cid = Some r \<and> (\<forall>q. r = Inr q \<longrightarrow>
    (\<exists>c. channels_by_id channels cid = Some c \<and> queue_channel q = c) \<and> (\<forall>v \<in> set (queue_values q). wf_value v))"
proof (cases "channels_by_id channels cid")
  case None
  then show ?thesis using assms by (simp add: GetQueueById_def GetChannel_def manager_ok_def)
next
  case (Some c)
  then obtain q where "queues m c = Some q" "queue_channel q = c" "\<forall>v \<in> set (queue_values q). wf_value v" using assms by (auto simp: manager_ok_def)
  then show ?thesis using Some assms by (simp add: GetQueueById_def GetChannel_def manager_ok_def)
qed

lemma manager_ok_put: "manager_ok channels m \<Longrightarrow> \<forall>v \<in> set (queue_values q). wf_value v \<Longrightarrow> manager_ok channels (put_queue q m)"
  by (auto simp: manager_ok_def put_queue_def)

lemma WriteInternal_ok:
  assumes "wf_value v" "\<forall>v \<in> set (queue_values q). wf_value v"
  obtains q' where "WriteInternal v q = Some q'" "queue_channel q' = queue_channel q" "\<forall>v \<in> set (queue_values q'). wf_value v"
proof (cases "channel_kind (queue_channel q)")
  case kStreaming
  then show thesis using that[of "q\<lparr>queue_values := queue_values q @ [v]\<rparr>"] assms by (auto simp: WriteInternal_def)
next
  case kSingleValue
  then show thesis using that assms by (cases "queue_values q") (auto simp: WriteInternal_def)
qed

lemma ChannelQueue_Write_ok:
  assumes "wf_value v" "\<forall>v \<in> set (queue_values q). wf_value v"
  obtains r where "ChannelQueue_Write v q = Some r" "\<And>q'. r = Inr q' \<Longrightarrow> queue_channel q' = queue_channel q \<and> (\<forall>v \<in> set (queue_values q'). wf_value v)"
proof -
  obtain q' where "WriteInternal v q = Some q'" "queue_channel q' = queue_channel q" "\<forall>v \<in> set (queue_values q'). wf_value v" using WriteInternal_ok[OF assms] .
  then show thesis using assms(1)
    by (intro that[of "if generator q \<noteq> None then Inl InternalError else if type_of v \<noteq> channel_type (queue_channel q) then Inl InvalidArgumentError else Inr q'"])
      (auto simp: ChannelQueue_Write_def ValueConformsToType_eq split: if_splits)
qed

lemma ReadInternal_ok:
  assumes "\<forall>v \<in> set (queue_values q). wf_value v"
  shows "queue_channel (snd (ReadInternal q)) = queue_channel q" "\<forall>v \<in> set (queue_values (snd (ReadInternal q))). wf_value v" "fst (ReadInternal q) = Some v \<Longrightarrow> wf_value v"
  using assms by (auto simp: ReadInternal_def split: list.splits if_splits)

lemma ChannelQueue_Read_ok:
  assumes g: "generates_values gen" and q: "\<forall>v \<in> set (queue_values q). wf_value v"
  obtains v q' where "ChannelQueue_Read gen q = Some (v, q')" "queue_channel q' = queue_channel q" "\<forall>v \<in> set (queue_values q'). wf_value v" "\<And>x. v = Some x \<Longrightarrow> wf_value x"
proof -
  have "\<exists>q1. (case generator q of None \<Rightarrow> Some q | Some g \<Rightarrow> (case gen g of (Some v, g) \<Rightarrow> WriteInternal v (q\<lparr>generator := Some g\<rparr>) | (None, g) \<Rightarrow> Some (q\<lparr>generator := Some g\<rparr>))) = Some q1 \<and>
    queue_channel q1 = queue_channel q \<and> (\<forall>v \<in> set (queue_values q1). wf_value v)"
  proof (cases "generator q")
    case (Some h)
    show ?thesis
    proof (cases "gen h")
      case (Pair v h')
      show ?thesis
      proof (cases v)
        case (Some x)
        then have "wf_value x" using g Pair by (auto simp: generates_values_def)
        then obtain q1 where "WriteInternal x (q\<lparr>generator := Some h'\<rparr>) = Some q1" "queue_channel q1 = queue_channel q" "\<forall>v \<in> set (queue_values q1). wf_value v"
          using WriteInternal_ok[of x "q\<lparr>generator := Some h'\<rparr>"] q by auto
        then show ?thesis using \<open>generator q = Some h\<close> Pair Some by simp
      qed (use Some Pair q in simp)
    qed
  qed (use q in simp)
  then obtain q1 where q1: "ChannelQueue_Read gen q = Some (ReadInternal q1)" "queue_channel q1 = queue_channel q" "\<forall>v \<in> set (queue_values q1). wf_value v"
    by (auto simp: ChannelQueue_Read_def)
  then show thesis using that[of "fst (ReadInternal q1)" "snd (ReadInternal q1)"] ReadInternal_ok[OF q1(3)] by simp
qed

section \<open>One node\<close>

text \<open>
  What a handler leaves: an error, or a state in which the node has a value of its type, or in which it blocks and
  nothing has changed. The nodes in \<open>vs\<close> have been executed.
\<close>

definition node_done :: "package_channels \<Rightarrow> ir_proc \<Rightarrow> nat list \<Rightarrow> nat \<Rightarrow> 'g proc_interp status_or option \<Rightarrow> bool" where
  "node_done channels p vs n r \<longleftrightarrow> (\<exists>x. r = Some x \<and> (\<forall>s. x = Inr s \<longrightarrow> manager_ok channels (pi_manager s) \<and>
     (if sent_channel s = None \<and> blocked_channel s \<noteq> None then visited_typed (proc_function p) vs (pi_state s)
      else visited_typed (proc_function p) (n # vs) (pi_state s))))"

lemma visited_typedD:
  "visited_typed f vs st \<Longrightarrow> m \<in> set vs \<Longrightarrow> m < length (fn_nodes f) \<Longrightarrow> \<exists>v. node_values st m = Some v \<and> has_type v (node_type (fn_nodes f ! m))"
  by (auto simp: visited_typed_def)

lemma visited_typed_insert:
  assumes "visited_typed f vs st" "has_type v (node_type (fn_nodes f ! n))" "node_values st' = (node_values st)(n \<mapsto> v)"
  shows "visited_typed f (n # vs) st'"
  using assms by (auto simp: visited_typed_def)

lemma set_result_done:
  assumes "wf_value v" "visited_typed (proc_function p) vs (pi_state s)" "manager_ok channels (pi_manager s)" "blocked_channel s = None \<or> sent_channel s \<noteq> None"
  shows "node_done channels p vs n (set_result n (proc_nodes p ! n) v s)"
proof -
  have "\<exists>x. SetValueResult n (proc_nodes p ! n) v (pi_state s) = Some x \<and> (\<forall>st. x = Inr st \<longrightarrow> visited_typed (proc_function p) (n # vs) st)"
    using assms(1) visited_typed_insert[OF assms(2), of v n] by (auto simp: SetValueResult_def ValueConformsToType_eq has_type_def)
  then show ?thesis using assms(3,4) by (auto simp: node_done_def set_result_def or_return_def split: sum.splits)
qed

lemma HandleReceive_done:
  assumes c: "NodeChecker_HandleReceive ch p n (proc_function p) (proc_nodes p ! n) = Some (Inr ())" and i: "inhabited (node_type (proc_nodes p ! n))" and g: "generates_values gen"
    and o: "operands_typed (proc_function p) (proc_nodes p ! n) (pi_state s)" and s: "visited_typed (proc_function p) vs (pi_state s)" "manager_ok channels (pi_manager s)" "blocked_channel s = None" "sent_channel s = None"
  shows "node_done channels p vs n (HandleReceive gen p n (proc_nodes p ! n) s)"
proof -
  let ?node = "proc_nodes p ! n"
  obtain cid where cid: "channel_ids p n = Some cid" using c by (auto simp: NodeChecker_HandleReceive_def bind_ok)
  have p: "length (operands ?node) > 1 \<longrightarrow> operand_type (proc_function p) ?node 1 = Some (BitsType 1)"
    using c by (auto simp: NodeChecker_HandleReceive_def expectation_defs expectation_iffs)
  obtain z where z: "ZeroOfType (node_type ?node) = Some z" "wf_value z" using ZeroOfType_ok[OF i] by blast
  have zero: "\<exists>b. predicate_is_zero ?node 1 (pi_state s) = Some b"
    using p operand_bitsD[OF o, of 1 1] by (fastforce simp: predicate_is_zero_def)
  obtain r where r: "GetQueueById (pi_manager s) cid = Some r" "\<And>q. r = Inr q \<Longrightarrow> \<forall>v \<in> set (queue_values q). wf_value v"
    using manager_ok_lookup[OF s(2), of cid] by blast
  show ?thesis
  proof (cases r)
    case (Inl e)
    then show ?thesis using cid r by (simp add: HandleReceive_def or_return_def node_done_def)
  next
    case (Inr q)
    obtain v q' where q: "ChannelQueue_Read gen q = Some (v, q')" "\<forall>v \<in> set (queue_values q'). wf_value v" "\<And>x. v = Some x \<Longrightarrow> wf_value x"
      using ChannelQueue_Read_ok[OF g r(2)[OF Inr]] by metis
    let ?s = "s\<lparr>pi_manager := put_queue q' (pi_manager s)\<rparr>"
    have m: "manager_ok channels (pi_manager ?s)" using manager_ok_put[OF s(2) q(2)] by simp
    have d: "wf_value x \<Longrightarrow> node_done channels p vs n (set_result n ?node x ?s)" for x using s m by (intro set_result_done) auto
    have b: "node_done channels p vs n (Some (Inr (?s\<lparr>blocked_channel := Some (queue_channel q)\<rparr>)))" using s m by (simp add: node_done_def)
    have u: "\<exists>b. UBits 1 1 = Some b \<and> wf_value (BitsValue b)" by (simp add: UBits_eq)
    show ?thesis using zero z cid r(1) Inr q(1,3) b d set_result_done[OF z(2) s(1,2)] s(3) u
      by (auto simp: HandleReceive_def or_return_def Let_def split: option.splits)
  qed
qed

lemma HandleSend_done:
  assumes c: "NodeChecker_HandleSend ch p n (proc_function p) (proc_nodes p ! n) = Some (Inr ())"
    and o: "operands_typed (proc_function p) (proc_nodes p ! n) (pi_state s)" and s: "visited_typed (proc_function p) vs (pi_state s)" "manager_ok channels (pi_manager s)" "blocked_channel s = None" "sent_channel s = None"
  shows "node_done channels p vs n (HandleSend p n (proc_nodes p ! n) s)"
proof -
  let ?node = "proc_nodes p ! n"
  obtain cid where cid: "channel_ids p n = Some cid" using c by (auto simp: NodeChecker_HandleSend_def bind_ok)
  have p: "length (operands ?node) > 2 \<longrightarrow> operand_type (proc_function p) ?node 2 = Some (BitsType 1)"
    using c by (auto simp: NodeChecker_HandleSend_def expectation_defs expectation_iffs)
  obtain t where t: "operand_type (proc_function p) ?node 1 = Some t"
    using c cid by (auto simp: NodeChecker_HandleSend_def ExpectOperandHasType_def or_return_ok bind_ok split: if_splits)
  obtain data where data: "operand_value ?node (pi_state s) 1 = Some data" "wf_value data" using operand_valueD[OF o t] by (auto simp: has_type_def)
  have zero: "\<exists>b. predicate_is_zero ?node 2 (pi_state s) = Some b"
    using p operand_bitsD[OF o, of 2 1] by (fastforce simp: predicate_is_zero_def)
  obtain r where r: "GetQueueById (pi_manager s) cid = Some r" "\<And>q. r = Inr q \<Longrightarrow> \<forall>v \<in> set (queue_values q). wf_value v"
    using manager_ok_lookup[OF s(2), of cid] by blast
  show ?thesis
  proof (cases r)
    case (Inl e)
    then show ?thesis using cid r by (simp add: HandleSend_def or_return_def node_done_def)
  next
    case (Inr q)
    obtain x where x: "ChannelQueue_Write data q = Some x" "\<And>q'. x = Inr q' \<Longrightarrow> \<forall>v \<in> set (queue_values q'). wf_value v"
      using ChannelQueue_Write_ok[OF data(2) r(2)[OF Inr]] by metis
    have d: "node_done channels p vs n (set_result n ?node TokenValue (s\<lparr>sent_channel := Some (queue_channel q), pi_manager := put_queue q' (pi_manager s)\<rparr>))" if "x = Inr q'" for q'
      using s manager_ok_put[OF s(2) x(2)[OF that]] by (intro set_result_done) auto
    have e: "node_done channels p vs n (Some (Inl e))" for e by (simp add: node_done_def)
    have t: "node_done channels p vs n (set_result n ?node TokenValue s)" using s by (intro set_result_done) auto
    show ?thesis using zero cid r(1) Inr data(1) x(1) d e t
      by (auto simp: HandleSend_def or_return_def Let_def split: sum.splits)
  qed
qed

lemma HandleParam_proc_done:
  assumes "length state = length (proc_params p) - 1" "\<forall>v \<in> set state. wf_value v"
    and s: "visited_typed (proc_function p) vs (pi_state s)" "manager_ok channels (pi_manager s)" "blocked_channel s = None"
  shows "node_done channels p vs n (HandleParam_proc p state n (proc_nodes p ! n) s)"
proof (cases "find (\<lambda>i. proc_params p ! i = n) [0..<length (proc_params p)]")
  case None
  then show ?thesis by (simp add: HandleParam_proc_def node_done_def)
next
  case (Some i)
  then have "i < length (proc_params p)" by (auto simp: find_Some_iff)
  then have "\<exists>v. list_at state (i - 1) = Some v \<and> wf_value v" if "i \<noteq> 0" using that assms(1,2) by (auto simp: list_at_eq_Some)
  then show ?thesis using Some set_result_done[OF _ s(1,2)] s(3) by (auto simp: HandleParam_proc_def)
qed

lemma ExecuteNode_done:
  assumes L: "bignum_ok L val" and pkg: "package_ok check_stateful pkg" and p: "proc_ok check_stateful pkg ch p" and g: "generates_values gen"
    and state: "length state = length (proc_params p) - 1" "\<forall>v \<in> set state. wf_value v"
    and n: "n < length (proc_nodes p)" "n \<notin> set vs" "set (operands (proc_nodes p ! n)) \<subseteq> set vs"
    and s: "visited_typed (proc_function p) vs (pi_state s)" "manager_ok channels (pi_manager s)"
  shows "node_done channels p vs n (ExecuteNode L pkg (InterpretFunction L pkg (length pkg)) gen p state n s)"
proof -
  let ?node = "proc_nodes p ! n" and ?f = "proc_function p" and ?s = "s\<lparr>blocked_channel := None, sent_channel := None\<rparr>"
  have c: "check_op (check_proc_op check_stateful ch p n) pkg ?f (node_op ?node) ?node = Some (Inr ())" using proc_okD(3)[OF p n(1)] .
  have e: "proc_node_evaluable pkg ?f ?node" using proc_okD(8)[OF p] n(1) by simp
  have b: "int64_type t" if "GetType ?f m = Some t" for m t
    using that proc_okD(8)[OF p] by (auto simp: GetType_def node_at_def bind_ok list_at_eq_Some proc_node_evaluable_def)
  have o: "operands_typed ?f ?node (pi_state s)" unfolding operands_typed_def
  proof
    fix m assume m: "m \<in> set (operands ?node)"
    then have "m < length (proc_nodes p)" using proc_okD(2)[OF p n(1)] by auto
    then show "\<exists>v t. node_values (pi_state s) m = Some v \<and> GetType ?f m = Some t \<and> has_type v t" using m n(3) visited_typedD[OF s(1), of m] GetType_nth[of m ?f] by auto
  qed
  have un: "node_values (pi_state s) n = None" using s(1) n(1,2) by (simp add: visited_typed_def)
  have default: "node_done channels p vs n (or_return (visit_op L pkg (InterpretFunction L pkg (length pkg)) ?f [] (node_op ?node) n ?node (pi_state ?s)) (\<lambda>st. Some (Inr (?s\<lparr>pi_state := st\<rparr>))))"
    if "node_op ?node \<noteq> StatefulOp kSend" "node_op ?node \<noteq> StatefulOp kReceive" "\<And>name. node_op ?node \<noteq> Param name"
  proof -
    have ev: "evaluable pkg ?f ?node" "\<And>g. g \<in> set (callees (node_op ?node)) \<Longrightarrow> g < length pkg \<and> bignum_ok L val \<and> package_ok check_stateful pkg"
      using e that L pkg by (auto simp: proc_node_evaluable_def evaluable_def)
    have "sets_typed n ?node (pi_state s) (visit_op L pkg (InterpretFunction L pkg (length pkg)) ?f [] (node_op ?node) n ?node (pi_state s))"
      by (rule interpreter.visit_op_ok[OF L c ev(1) ev(2) b _ o un]) (use that in auto)
    then obtain v st' where "visit_op L pkg (InterpretFunction L pkg (length pkg)) ?f [] (node_op ?node) n ?node (pi_state s) = Some (Inr st')"
      "has_type v (node_type ?node)" "node_values st' = (node_values (pi_state s))(n \<mapsto> v)" by (auto simp: sets_typed_def)
    then show ?thesis using visited_typed_insert[OF s(1), of v n st'] s(2) by (simp add: node_done_def or_return_def)
  qed
  have at: "list_at (proc_nodes p) n = Some ?node" using n(1) by (simp add: list_at_eq_Some)
  consider "node_op ?node = StatefulOp kReceive" | "node_op ?node = StatefulOp kSend" | name where "node_op ?node = Param name"
    | "node_op ?node \<noteq> StatefulOp kSend" "node_op ?node \<noteq> StatefulOp kReceive" "\<And>name. node_op ?node \<noteq> Param name" by blast
  then show ?thesis
  proof cases
    case 1
    then have "NodeChecker_HandleReceive ch p n ?f ?node = Some (Inr ())" using c by simp
    then show ?thesis using HandleReceive_done[of ch p n gen ?s vs channels] 1 e g o s at by (simp add: ExecuteNode_def proc_node_evaluable_def Let_def)
  next
    case 2
    then have "NodeChecker_HandleSend ch p n ?f ?node = Some (Inr ())" using c by simp
    then show ?thesis using HandleSend_done[of ch p n ?s vs channels] 2 o s at by (simp add: ExecuteNode_def Let_def)
  next
    case (3 name)
    then show ?thesis using HandleParam_proc_done[OF state, of vs ?s channels n] s at by (simp add: ExecuteNode_def Let_def)
  next
    case 4
    have "ExecuteNode L pkg (InterpretFunction L pkg (length pkg)) gen p state n s =
      or_return (visit_op L pkg (InterpretFunction L pkg (length pkg)) ?f [] (node_op ?node) n ?node (pi_state ?s)) (\<lambda>st. Some (Inr (?s\<lparr>pi_state := st\<rparr>)))"
      using 4 at by (auto simp: ExecuteNode_def Let_def split: node_op.split stateful_op.split)
    then show ?thesis using default[OF 4] by simp
  qed
qed

section \<open>One tick\<close>

lemma Tick_loop_typed:
  assumes ex: "\<And>i s. i < length order \<Longrightarrow> visited_typed (proc_function p) (take i order) (pi_state s) \<Longrightarrow> manager_ok channels (pi_manager s) \<Longrightarrow>
      node_done channels p (take i order) (order ! i) (execute (order ! i) s)"
    and s: "i \<le> length order" "visited_typed (proc_function p) (take i order) (pi_state s)" "manager_ok channels (pi_manager s)"
  shows "\<exists>r. Tick_loop execute (drop i order) i s = Some r \<and> (\<forall>e c j s'. r = Inr (e, c, j, s') \<longrightarrow>
    j \<le> length order \<and> (e = kCompleted \<longrightarrow> j = length order) \<and> visited_typed (proc_function p) (take j order) (pi_state s') \<and> manager_ok channels (pi_manager s'))"
  using s
proof (induction "length order - i" arbitrary: i s)
  case 0
  then show ?case by simp
next
  case (Suc k)
  then have i: "i < length order" by simp
  have d: "drop i order = order ! i # drop (Suc i) order" using i by (simp add: Cons_nth_drop_Suc)
  have v: "visited_typed (proc_function p) (order ! i # take i order) st \<longleftrightarrow> visited_typed (proc_function p) (take (Suc i) order) st" for st
    using i by (simp add: visited_typed_def take_Suc_conv_app_nth)
  obtain x where x: "execute (order ! i) s = Some x" "\<And>s'. x = Inr s' \<Longrightarrow> manager_ok channels (pi_manager s') \<and>
      (if sent_channel s' = None \<and> blocked_channel s' \<noteq> None then visited_typed (proc_function p) (take i order) (pi_state s')
       else visited_typed (proc_function p) (take (Suc i) order) (pi_state s'))"
    using ex[OF i Suc.prems(2,3)] unfolding node_done_def v by blast
  show ?case
  proof (cases x)
    case (Inl e)
    then show ?thesis using x(1) by (simp add: d or_return_def)
  next
    case (Inr s1)
    note s1 = x(2)[OF Inr]
    show ?thesis
    proof (cases "sent_channel s1 = None \<and> blocked_channel s1 = None")
      case True
      then show ?thesis using x(1) Inr s1 i Suc.hyps(1)[of "Suc i" s1] Suc.hyps(2) by (simp add: d or_return_def)
    next
      case False
      then show ?thesis using x(1) Inr s1 i by (auto simp: d or_return_def split: if_splits)
    qed
  qed
qed

lemma resolve_all_ok:
  assumes "visited_typed f vs st" "\<forall>m \<in> set ms. m < length (fn_nodes f) \<and> m \<in> set vs"
  obtains vals where "resolve_all st ms = Some vals" "length vals = length ms" "\<forall>v \<in> set vals. wf_value v"
proof -
  have v: "\<exists>v. node_values st (ms ! i) = Some v \<and> wf_value v" if "i < length ms" for i
    using visited_typedD[OF assms(1), of "ms ! i"] assms(2) nth_mem[OF that] by (auto simp: has_type_def)
  have "resolve_all st ms = Some (map (\<lambda>i. the (node_values st (ms ! i))) [0..<length ms])"
    unfolding resolve_all_def by (rule generate_eq) (use v in \<open>fastforce simp: ResolveAsValue_def\<close>)
  moreover have "\<forall>v \<in> set (map (\<lambda>i. the (node_values st (ms ! i))) [0..<length ms]). wf_value v" using v by fastforce
  ultimately show thesis using that by simp
qed

lemma ProcInterpreter_Tick_ok:
  assumes L: "bignum_ok L val" and pkg: "package_ok check_stateful pkg" and p: "proc_ok check_stateful pkg ch p" and g: "generates_values gen"
    and order: "TopoSort (proc_function p) = Some order" and c: "cont_ok p order c" and m: "manager_ok channels m"
  shows "\<exists>r. ProcInterpreter_Tick L pkg (InterpretFunction L pkg (length pkg)) gen p order c m = Some r \<and>
    (\<forall>t c' m'. r = Inr (t, c', m') \<longrightarrow> cont_ok p order c' \<and> manager_ok channels m')"
proof -
  let ?call = "InterpretFunction L pkg (length pkg)" and ?f = "proc_function p"
  obtain ord where ord: "TopoSort ?f = Some ord" "distinct ord" "set ord = {0..<length (proc_nodes p)}"
    "\<And>i. i < length ord \<Longrightarrow> set (operands (proc_nodes p ! (ord ! i))) \<subseteq> set (take i ord)" by (rule proc_order[OF p]) blast
  have o: "distinct order" "set order = {0..<length (proc_nodes p)}" "\<And>i. i < length order \<Longrightarrow> set (operands (proc_nodes p ! (order ! i))) \<subseteq> set (take i order)"
    using ord order by auto
  have state: "length (cont_state c) = length (proc_params p) - 1" "\<forall>v \<in> set (cont_state c). wf_value v" and i: "node_index c \<le> length order"
    and vt: "visited_typed ?f (take (node_index c) order) (cont_interp c)" using c by (auto simp: cont_ok_def)
  have ex: "node_done channels p (take i order) (order ! i) (ExecuteNode L pkg ?call gen p (cont_state c) (order ! i) s)"
    if "i < length order" "visited_typed ?f (take i order) (pi_state s)" "manager_ok channels (pi_manager s)" for i s
  proof (rule ExecuteNode_done[OF L pkg p g state _ _ o(3)[OF that(1)] that(2,3)])
    show "order ! i < length (proc_nodes p)" using that(1) o(2) nth_mem by fastforce
    show "order ! i \<notin> set (take i order)" using that(1) o(1) by (metis distinct_take id_take_nth_drop not_distinct_conv_prefix)
  qed
  obtain r where r: "Tick_loop (ExecuteNode L pkg ?call gen p (cont_state c)) (drop (node_index c) order) (node_index c)
       \<lparr>pi_state = cont_interp c, pi_manager = m, blocked_channel = None, sent_channel = None\<rparr> = Some r"
    "\<And>e ch j s. r = Inr (e, ch, j, s) \<Longrightarrow> j \<le> length order \<and> (e = kCompleted \<longrightarrow> j = length order) \<and> visited_typed ?f (take j order) (pi_state s) \<and> manager_ok channels (pi_manager s)"
    using Tick_loop_typed[where execute = "ExecuteNode L pkg ?call gen p (cont_state c)" and s = "\<lparr>pi_state = cont_interp c, pi_manager = m, blocked_channel = None, sent_channel = None\<rparr>", OF ex i] vt m by auto
  show ?thesis
  proof (cases r)
    case (Inl e)
    then show ?thesis using r(1) by (simp add: ProcInterpreter_Tick_def or_return_def)
  next
    case (Inr x)
    obtain e d j s where x: "x = (e, d, j, s)" by (cases x) auto
    note q = r(2)[OF Inr[unfolded x]]
    show ?thesis
    proof (cases "e = kCompleted")
      case True
      then have j: "j = length order" using q by blast
      then have "visited_typed ?f order (pi_state s)" using q by simp
      then obtain vals where "resolve_all (pi_state s) (NextState p) = Some vals" "length vals = length (NextState p)" "\<forall>v \<in> set vals. wf_value v"
        by (rule resolve_all_ok[of _ _ _ "NextState p"]) (use proc_okD(6)[OF p] o(2) in auto)
      then show ?thesis using r(1) Inr x True q proc_okD(5)[OF p]
        by (auto simp: ProcInterpreter_Tick_def or_return_def NextTick_def cont_ok_def visited_typed_def split: sum.splits)
    next
      case False
      then show ?thesis using r(1) Inr x q state by (auto simp: ProcInterpreter_Tick_def or_return_def cont_ok_def split: sum.splits)
    qed
  qed
qed

section \<open>Networks\<close>

lemma network_tick_ok:
  assumes L: "bignum_ok L val" and pkg: "package_ok check_stateful pkg" and p: "\<forall>p \<in> set procs. proc_ok check_stateful pkg channels p" and g: "generates_values gen"
    and w: "network_ok channels procs w" and i: "i < length procs"
  shows "\<exists>r. network_tick L pkg (InterpretFunction L pkg (length pkg)) gen procs i w = Some r \<and> (\<forall>t w'. r = Inr (t, w') \<longrightarrow> network_ok channels procs w')"
proof -
  obtain order where o: "TopoSort (proc_function (procs ! i)) = Some order" "cont_ok (procs ! i) order (continuations w ! i)" using w i by (auto simp: network_ok_def)
  have pi: "proc_ok check_stateful pkg channels (procs ! i)" using p i by simp
  have m: "manager_ok channels (queue_manager w)" "length (continuations w) = length procs" using w by (auto simp: network_ok_def)
  obtain r where r: "ProcInterpreter_Tick L pkg (InterpretFunction L pkg (length pkg)) gen (procs ! i) order (continuations w ! i) (queue_manager w) = Some r"
    "\<And>t c' m'. r = Inr (t, c', m') \<Longrightarrow> cont_ok (procs ! i) order c' \<and> manager_ok channels m'"
    using ProcInterpreter_Tick_ok[OF L pkg pi g o m(1)] by blast
  have n: "network_ok channels procs (w\<lparr>continuations := (continuations w)[i := c'], queue_manager := m'\<rparr>)" if "r = Inr (t, c', m')" for t c' m'
  proof -
    have "\<exists>order. TopoSort (proc_function (procs ! k)) = Some order \<and> cont_ok (procs ! k) order ((continuations w)[i := c'] ! k)" if "k < length procs" for k
      using w r(2)[OF \<open>r = Inr (t, c', m')\<close>] o(1) m(2) that by (cases "k = i") (auto simp: network_ok_def)
    then show ?thesis using r(2)[OF that] m(2) by (simp add: network_ok_def)
  qed
  have "list_at procs i = Some (procs ! i)" "list_at (continuations w) i = Some (continuations w ! i)" using i m(2) by (simp_all add: list_at_eq_Some)
  then show ?thesis using r(1) o(1) n by (auto simp: network_tick_def or_return_def split: sum.splits)
qed

lemma reached_ok:
  assumes "tick_reaches (network_tick L pkg (InterpretFunction L pkg (length pkg)) gen procs) (length procs) w w'" and w: "network_ok channels procs w"
    and a: "bignum_ok L val" "package_ok check_stateful pkg" "\<forall>p \<in> set procs. proc_ok check_stateful pkg channels p" "generates_values gen"
  shows "network_ok channels procs w'"
  using assms(1) w
proof (induction rule: tick_reaches.induct)
  case (there p w t w' w'')
  then show ?case using network_tick_ok[OF a there.prems there.hyps(1)] by auto
qed

lemma no_tick_aborts:
  assumes a: "bignum_ok L val" "package_ok check_stateful pkg" "\<forall>p \<in> set procs. proc_ok check_stateful pkg channels p" "generates_values gen" and w: "network_ok channels procs w"
  shows "\<not> some_tick_aborts (network_tick L pkg (InterpretFunction L pkg (length pkg)) gen procs) (length procs) w"
  using network_tick_ok[OF a reached_ok[OF _ w a]] by (fastforce simp: some_tick_aborts_def)

lemma ProcRuntime_new_ok:
  assumes "\<forall>p \<in> set procs. proc_ok check_stateful pkg channels p" "manager_ok channels m"
  shows "network_ok channels procs (ProcRuntime_new procs m)"
proof -
  have "\<exists>order. TopoSort (proc_function p) = Some order \<and> cont_ok p order (NewContinuation p)" if p: "proc_ok check_stateful pkg channels p" for p
  proof -
    obtain order where "TopoSort (proc_function p) = Some order" by (rule proc_order[OF p]) blast
    then show ?thesis using proc_okD(4,7)[OF p] by (simp add: cont_ok_def NewContinuation_def visited_typed_def)
  qed
  then show ?thesis using assms by (simp add: network_ok_def ProcRuntime_new_def)
qed

lemma network_queue_size_ok: "network_ok channels procs w \<Longrightarrow> channels_by_id channels (channel_id ch) = Some ch \<Longrightarrow> network_queue_size w ch \<noteq> None"
  by (fastforce simp: network_ok_def manager_ok_def network_queue_size_def GetQueue_def)

lemma needs_more_output_defined:
  "\<forall>(ch, count) \<in> set output_counts. queue_size w ch \<noteq> None \<Longrightarrow> needs_more_output queue_size output_counts w \<noteq> None"
  by (induction output_counts) auto

text \<open>The manager that the runtime is created with.\<close>

lemma created_manager_ok:
  assumes "channels_inv channels" "ChannelQueueManager_Create qs channels = Inr m" "\<forall>q \<in> set qs. \<forall>v \<in> set (queue_values q). wf_value v"
  shows "manager_ok channels m"
proof -
  have "\<exists>q. queues m c = Some q \<and> queue_channel q = c \<and> (\<forall>v \<in> set (queue_values q). wf_value v)" if "channels_by_id channels cid = Some c" for cid c
  proof -
    have "c \<in> set (channel_vec channels)" using channels_invD(5)[OF assms(1), of cid c] that by simp
    then show ?thesis using Create_queues[OF assms(1,2)] assms(3) by (fastforce simp: GetQueue_def)
  qed
  moreover have "manager_package m = channels" using assms(2) by (simp add: Create_ok ChannelQueueManager_new_def)
  ultimately show ?thesis by (simp add: manager_ok_def)
qed

section \<open>A network\<close>

text \<open>A proc that sends its state and one that receives it.\<close>

definition sender :: ir_proc where
  "sender = \<lparr>proc_nodes = [\<lparr>node_op = Param ''tok'', node_type = TokenType, operands = []\<rparr>, \<lparr>node_op = Param ''st'', node_type = BitsType 8, operands = []\<rparr>,
       \<lparr>node_op = StatefulOp kSend, node_type = TokenType, operands = [0, 1]\<rparr>],
     proc_params = [0, 1], NextToken = 2, NextState = [1], InitValues = [BitsValue (mk_bits 8 3)], channel_ids = [2 \<mapsto> 0], is_blocking = (\<lambda>n. False)\<rparr>"

definition receiver :: ir_proc where
  "receiver = \<lparr>proc_nodes = [\<lparr>node_op = Param ''tok'', node_type = TokenType, operands = []\<rparr>,
       \<lparr>node_op = StatefulOp kReceive, node_type = TupleType [TokenType, BitsType 8], operands = [0]\<rparr>, \<lparr>node_op = TupleIndex 0, node_type = TokenType, operands = [1]\<rparr>],
     proc_params = [0], NextToken = 2, NextState = [], InitValues = [], channel_ids = [1 \<mapsto> 0], is_blocking = (\<lambda>n. True)\<rparr>"

lemma sample_procs_ok: "\<forall>p \<in> set [sender, receiver]. proc_ok (\<lambda>s node. None) sample_package sample_channels p"
proof -
  have "VerifyProc (\<lambda>s node. None) sample_package sample_channels sender = Some (Inr ())" by code_simp
  moreover have "VerifyProc (\<lambda>s node. None) sample_package sample_channels receiver = Some (Inr ())" by code_simp
  ultimately show ?thesis by (auto simp: proc_ok_def sender_def receiver_def proc_node_evaluable_def)
qed

lemma fixed_values_generated: "generates_values (\<lambda>g :: unit. (None, g))"
  by (simp add: generates_values_def)

lemma sample_package_ok: "package_ok (\<lambda>s node. None) sample_package"
  using sample_verified sample_evaluable by (simp add: package_ok_def)

end
