(* ===== verification/Spec2Isabelle.thy ===== *)
theory Spec2Isabelle
  imports IntervalSet Bdd QueryEngine UnionFind BinarySearch ProcSoundness
begin

text \<open>
  A verification library for the core of XLS, the hardware synthesis tool under \<open>src/xls\<close>: the data every
  other part of the compiler computes with. The parts and how they rest on each other:

  \<^item> literal bit vectors: a bitmap in 64-bit words, the class \<open>Bits\<close> over it, and the operations of the
    intermediate representation on literals (\<open>bits_ops\<close>), some of which go through arbitrary-precision integers;
  \<^item> three abstractions of sets of literals that the optimisation passes use: intervals and interval sets, ternary
    vectors with the circuits of \<open>AbstractEvaluator\<close>, and binary decision diagrams;
  \<^item> the types and values of the representation, built from literals, their flat form in generated Verilog, and
    numbers and values as text;
  \<^item> the nodes, functions and packages of the representation, the verifier that checks them and the interpreter
    that evaluates them with the operations on literals;
  \<^item> the ternary query engine, through which the passes ask what is known of the bits of nodes: it evaluates the
    nodes over ternary vectors in topological order;
  \<^item> channels, their queues, and the runtime of networks of procs, which runs the interpreter on the nodes of each proc
    and lets the procs exchange values through the queues.

  Theories and sources (file names are relative to \<open>src/xls\<close>):

  \<^item> \<open>XlsPrelude\<close>: how C++ is rendered. An abort (\<open>XLS_CHECK\<close>, \<open>XLS_LOG(FATAL)\<close>, an access out of range) is \<open>None\<close>
    of an option; \<open>absl::StatusOr\<close> is a sum with a status code on the left; counts and indices are natural
    numbers, \<open>uint64_t\<close> and \<open>int64_t\<close> data are 64-bit words, and loops are recursive functions or the combinators of
    this theory. It also holds the lemmas on bits, words and lists that the components share.
  \<^item> \<open>MathUtil\<close>: \<open>common/math_util.h\<close>, \<open>math_util.cc\<close>, \<open>bits_util.h\<close>. Powers of two, logarithms, masks and the
    mixed-radix iteration, whose loop runs on fuel equal to the product of the radices.
  \<^item> \<open>BitStore\<close> and \<open>InlineBitmap\<close>: \<open>data_structures/inline_bitmap.h\<close>. The record has the members of the class;
    \<open>bm_inv\<close> is its invariant (the word count fits and the bits above the width are zero), \<open>uval\<close> the number it
    holds, and \<open>mk_bits n v\<close> the one well-formed bitmap of width \<open>n\<close> and number \<open>v\<close>. Locale \<open>bit_store\<close> is the
    interface of a store that is written bit by bit; the bitmap is an interpretation.
  \<^item> \<open>XlsBits\<close>: \<open>ir/bits.h\<close>, \<open>bits.cc\<close>, \<open>bit_push_buffer.h\<close>. \<open>BigInt\<close>: \<open>ir/big_int.cc\<close> over a record of OpenSSL
    calls. \<open>BitsOps\<close>: \<open>ir/bits_ops.cc\<close>; each operation has the branch on a machine word and the branch on
    \<open>BigInt\<close>, and the lemmas give one equation on \<open>mk_bits\<close> for both.
  \<^item> \<open>Interval\<close>, \<open>SetAlgebra\<close>, \<open>IntervalSet\<close>: \<open>ir/interval.cc\<close>, \<open>ir/interval_set.cc\<close>. \<open>set_points\<close> is the set of
    numbers an interval set stands for; \<open>Normalize\<close>, the intersection sweep, union and complement are shown
    exact on it. Locale \<open>set_algebra\<close> derives the Boolean laws on the representations from their exactness.
  \<^item> \<open>Ternary\<close>, \<open>AbstractEvaluator\<close>: \<open>ir/ternary.cc\<close>, \<open>ir/abstract_evaluator.h\<close>, \<open>passes/ternary_evaluator.h\<close>. The
    derived class of the template is a record of element operations. \<open>ElementLogic\<close>, \<open>ElementSelect\<close>,
    \<open>ElementArith\<close> and \<open>ElementMul\<close> prove the circuits once, in the locale \<open>element_logic\<close> that states what the
    element operations promise: selects, adders, shifters, the long division and the Dadda multiplier.
    \<open>Evaluators\<close> interprets the locale for the ternary evaluator (sound: the result stands for every literal result
    of operands that the arguments stand for), again for ternary vectors of known bits, and for the two-valued
    evaluator, and relates the circuits to \<open>BitsOps\<close>.
  \<^item> \<open>Bdd\<close>: \<open>data_structures/binary_decision_diagram.cc\<close>. The record holds the node array, the unique table, the
    cache and the variables; \<open>bdd_step\<close> is the relation of one public call and \<open>bdd_inv\<close> its invariant.
  \<^item> \<open>UnionFind\<close>: \<open>data_structures/union_find_map.h\<close>, \<open>union_find.h\<close>. The record has the members of the class; \<open>uf_inv\<close> is
    its invariant, and \<open>representative\<close> and \<open>class_value\<close> the abstract map. The search is a partial function into
    options, shown to end. Locale \<open>partition_store\<close> is what a client of the partition relies on.
  \<^item> \<open>BinarySearch\<close>: \<open>data_structures/binary_search.cc\<close>; overflow of \<open>int64_t\<close> is an abort, and the loops are partial functions
    shown to end on the ranges where nothing overflows.
  \<^item> \<open>ChannelQueue\<close>: \<open>ir/channel.h\<close>, the channel tables of \<open>ir/package.cc\<close> and \<open>interpreter/channel_queue.cc\<close>. \<open>channels_inv\<close> is
    the invariant of the tables. Locale \<open>fifo_store\<close> is a first-in first-out store and what holds of every sequence of
    operations on it; queues of streaming channels and queues with a generator are its interpretations.
  \<^item> \<open>ProcRuntime\<close>: \<open>interpreter/proc_interpreter.cc\<close>, \<open>serial_proc_runtime.cc\<close>, \<open>proc_runtime.cc\<close>. A tick of a proc stops at a
    send or at a receive that blocks, and its continuation holds where to resume; the scheduler keeps a queue of ready
    procs and a map of blocked ones. Its loops are partial functions into options. Locale \<open>evaluator_contract\<close> is what
    the scheduler needs of an evaluator for its ticks to end; the interpreter is its interpretation. \<open>None\<close> of a tick is
    an abort or a loop that does not end.
  \<^item> \<open>ProcSoundness\<close>: the rules of \<open>ir/verifier.cc\<close> on sends, receives and procs, and the invariant \<open>network_ok\<close> of the states
    of a runtime. A tick of an accepted proc returns and keeps the invariant; \<open>proc_ok\<close> lists what is needed beyond the
    verifier, as \<open>evaluable\<close> does for functions.
  \<^item> \<open>IrType\<close>, \<open>IrValue\<close>: \<open>ir/type.cc\<close>, \<open>ir/value.cc\<close>, \<open>ir/value_helpers.cc\<close> and the type reader of
    \<open>ir/package.cc\<close>. \<open>Flattening\<close>: \<open>codegen/flattening.cc\<close>. \<open>NumberText\<close>: \<open>ir/number_parser.cc\<close>,
    \<open>ir/format_preference.cc\<close>, \<open>common/string_to_int.cc\<close> and the text forms of \<open>Bits\<close>.
  \<^item> \<open>IrNode\<close>: \<open>ir/node.cc\<close>, \<open>ir/function_base.cc\<close> and the node classes of \<open>ir/op_specification.py\<close>. A node is its
    operation with its attributes, its type and the numbers of its operands; a function is a list of nodes, a
    package a list of functions. The traversal of a visitor is \<open>Node_Accept\<close>.
  \<^item> \<open>IrInterpreter\<close>: \<open>interpreter/ir_interpreter.cc\<close>, \<open>function_interpreter.cc\<close>, one definition per handler. The
    state is the map of node values and the events. \<open>InterpretFunction\<close> has fuel for the depth of calls, and
    the theorem below shows that the position of the function plus one is enough.
  \<^item> \<open>IrVerifier\<close>: \<open>ir/verifier.cc\<close>, one definition per rule of \<open>NodeChecker\<close>, and the checks of nodes and functions.
  \<^item> \<open>HandlerTyping\<close>, \<open>CallTyping\<close>, \<open>IrSoundness\<close>: a node that the verifier accepts is evaluated to a value of its type,
    operation by operation; \<open>evaluable\<close> lists what the interpreter needs and the verifier does not check. Locale
    \<open>typed_calls\<close> is what the handlers of calls and loops need of a callee; the interpreter is its interpretation,
    by induction on the depth of calls.
  \<^item> \<open>NodeIterator\<close>: \<open>ir/node_iterator.cc\<close>, the topological orders the passes iterate over. The main loop is a partial
    function into options, shown to end on every graph.
  \<^item> \<open>NodeEvaluator\<close>, \<open>NodeAgreement\<close>: \<open>ir/abstract_node_evaluator.h\<close>, the circuit of each operation of a node, and the
    proof, once for all evaluators in the locale \<open>element_logic\<close>, that it agrees with the handler of the interpreter.
    \<open>analysable\<close> lists what the circuits need of the operands beyond \<open>evaluable\<close>.
  \<^item> \<open>QueryEngine\<close>: \<open>passes/ternary_query_engine.cc\<close>, \<open>passes/query_engine.cc\<close>. The engine is the record of its two maps;
    \<open>engine_true\<close> relates it to the values of an evaluation, and \<open>answers\<close> gives every query on it.

  Parameters. OpenSSL's \<open>BIGNUM\<close> is not part of the sources. Its calls are the record \<open>L\<close>, the first argument of
  every definition that reaches \<open>BigInt\<close>; \<open>bignum_ok L val\<close> states the documented meaning of the calls on the integer
  \<open>val b\<close> of a number \<open>b\<close>. \<open>int_bignum\<close> (the integers themselves) satisfies it and is used by the witnesses.

  What the theorems below show. Verified packages evaluate without abort or error to values of their types, and the
  conditions under which the loops end are exact. The topological sort is exact and agrees with the verifier's
  traversal on cycles. The known bits of the ternary query engine, and the answers of its queries, hold in every
  evaluation by the interpreter, and one population reaches the fixpoint. Literal arithmetic never aborts on operands of the documented widths, wraps or is exact
  as documented, and its error cases are as documented; bitmaps, literals and bytes round trip; comparisons are the
  orders of the numbers. Normalised interval sets are canonical and the set operations exact. The ternary circuits
  are sound for all operands and exact on known bits, and the multiplier's stages end. Diagrams reached by any
  sequence of calls are ordered and reduced, the operations compute the Boolean functions they name, and equal
  functions have equal nodes. The union-find map refines a map of classes, computes connected components and keeps its
  trees of logarithmic height. Streaming queues are first-in first-out, the manager returns the queue of each channel,
  and the tables of channels are kept in step except on one error path. In a network of procs that the
  verifier accepts and the interpreter can evaluate no tick aborts or runs forever, and the calls that tick until blocked
  or until output end within their limits. Binary searches are exact. Values have the type that their constructors establish, and flattening is a bijection
  between the values of a type and the literals of its width. All functions on which a property says that a
  result is returned are total or shown to return: the recursions of \<open>IfThenElse\<close>, of path evaluation and of the
  multiplier's stages are partial functions into options with a lemma that they end under the invariant.

  Not modelled: the exhaustion of memory; hashing of the classes; random generators for tests; the 32-bit bound on diagram indices; the overflow
  of \<open>int64_t\<close> in sums of the widths of types (widths and sizes are natural numbers, and the soundness theorem assumes
  that those of types are within \<open>int64_t\<close>); the end of a slice, which is computed from attributes, wraps as in the
  sources, and \<open>evaluable\<close> excludes slices where it does. Members of type \<open>uint32_t\<close> of the union-find map are
  natural numbers, within the limit that its comment gives. Construction and rewriting of the node graph, blocks and the connectivity of tokens are not modelled,
  and the verifier's rules on the operations of blocks are a parameter. The passes, schedulers and code generators work on LLVM, Z3, Clang
  and a linear-programming library; the DSLX front end is a program of its own. The range and decision-diagram query
  engines and blocks are the natural next parts.
\<close>

section \<open>Evaluation of verified functions\<close>

text \<open>
  C1: The interpreter is sound for the verifier: in a package whose functions pass the verifier, can be
  evaluated and call only functions before them, every function called with arguments of its parameters'
  types returns a value of its return type, without an abort, an error status or endless recursion. The
  depth of calls is at most the position of the function. Every operation is covered, with its loops, maps,
  invocations and events.
\<close>

theorem verified_function_evaluates:
  assumes "bignum_ok L val" and "VerifyFunctions check_stateful pkg = Some (Inr ())" and "\<forall>j < length pkg. function_evaluable pkg j"
    and "list_at pkg i = Some f" and "args_typed f args"
  shows "\<exists>v e t. InterpretFunction L pkg (Suc i) i args = Some (Inr (v, e)) \<and> return_type_of f = Some t \<and> has_type v t"
  using interpreter.call_typed[of i "Suc i" L val check_stateful pkg f args] assms by (auto simp: package_ok_def)

theorem verified_function_evaluates_witness:
  "\<exists>v e t. InterpretFunction int_bignum sample_package 2 1 [BitsValue (mk_bits 8 5)] = Some (Inr (v, e)) \<and>
     return_type_of sample_main = Some t \<and> has_type v t"
  using verified_function_evaluates[OF int_bignum_ok sample_verified sample_evaluable sample_args]
  by (simp only: Suc_1[symmetric] One_nat_def)

text \<open>
  C2: The loop of a dynamic counted_for with a body that always returns ends exactly if the product of trip
  count and stride is in the signed range of the index: it then stops when the index equals the limit, and
  otherwise the index wraps around for ever. The verifier bounds the widths of trip count and stride one by
  one and not the product.
\<close>

theorem dynamic_loop_terminates:
  assumes "bignum_ok L val" and "\<forall>args. \<exists>v e. call body args = Some (Inr (v, e))"
    and "0 < w" and "0 < u" and "- (2 ^ (u - 1)) \<le> int trip * stride" and "int trip * stride < 2 ^ (u - 1)"
  shows "(\<exists>r. dynamic_for_loop L call body (mk_int u (int trip * stride)) (mk_int w stride) invs (mk_bits w 0) ls st = Some (Inr r)) \<longleftrightarrow>
    - (2 ^ (w - 1)) \<le> int trip * stride \<and> int trip * stride < 2 ^ (w - 1)"
  using assms by (intro dynamic_for_loop_terminates_iff) auto

theorem dynamic_loop_terminates_witness:
  "\<not> (\<exists>r. dynamic_for_loop int_bignum (\<lambda>body args. Some (Inr (hd args, no_events))) 0 (mk_int 8 (int 7 * 7)) (mk_int 4 7) [] (mk_bits 4 0) TokenValue
     \<lparr>node_values = Map.empty, events = no_events\<rparr> = Some (Inr r))"
  using dynamic_loop_terminates[OF int_bignum_ok, where call = "\<lambda>body args. Some (Inr (hd args, no_events))" and body = 0 and w = 4 and u = 8 and trip = 7
      and stride = 7 and invs = "[]" and ls = TokenValue and st = "\<lparr>node_values = Map.empty, events = no_events\<rparr>"] by simp

text \<open>
  C3: The iterator over the nodes of a function and the depth-first traversal of the verifier agree on
  cycles: the iterator aborts exactly on the functions whose traversal reports one. Otherwise it ends,
  places every node exactly once and all operands of a node before the node; a return value without users
  comes last, and the reverse iteration is the reverse order.
\<close>

theorem topological_sort:
  assumes "\<forall>node \<in> set (fn_nodes f). set (operands node) \<subseteq> {0..<length (fn_nodes f)}"
  shows "case TopoSort f of
      None \<Rightarrow> FunctionBase_Accept no_visit f () \<noteq> Some (Inr ())
    | Some order \<Rightarrow> FunctionBase_Accept no_visit f () = Some (Inr ()) \<and> distinct order \<and> set order = {0..<length (fn_nodes f)} \<and>
        (\<forall>i < length order. set (operands (fn_nodes f ! (order ! i))) \<subseteq> set (take i order)) \<and> ReverseTopoSort f = Some (rev order) \<and>
        (fn_return f < length (fn_nodes f) \<and> node_users (map operands (fn_nodes f)) (fn_return f) = [] \<longrightarrow> last order = fn_return f)"
proof -
  have g: "graph_ok (map operands (fn_nodes f))" using assms by (auto simp: graph_ok_def)
  show ?thesis
  proof (cases "acyclic (operand_edges (map operands (fn_nodes f)))")
    case True
    obtain order where o: "TopoSort f = Some order" "distinct order" "set order = {0..<length (fn_nodes f)}"
      "\<And>i. i < length order \<Longrightarrow> set (operands (fn_nodes f ! (order ! i))) \<subseteq> set (take i order)" by (rule TopoSort_result[OF assms True]) blast
    have "Initialize f = Some (rev order)" using o(1) by (auto simp: TopoSort_def bind_ok)
    then show ?thesis using o True Initialize_result[OF g refl] accepted_iff[OF g]
      by (auto simp: ReverseTopoSort_def users_props hd_rev)
  next
    case False
    then show ?thesis using Initialize_result[OF g refl] accepted_iff[OF g] by (simp add: TopoSort_def)
  qed
qed

theorem topological_sort_witness:
  "\<exists>order. TopoSort compare_function = Some order \<and> set order = {0, 1} \<and> last order = 1 \<and> ReverseTopoSort compare_function = Some (rev order)"
proof -
  have c: "(\<forall>node \<in> set (fn_nodes compare_function). set (operands node) \<subseteq> {0..<length (fn_nodes compare_function)}) \<and>
    FunctionBase_Accept no_visit compare_function () = Some (Inr ()) \<and> node_users (map operands (fn_nodes compare_function)) (fn_return compare_function) = []"
    by code_simp
  have "length (fn_nodes compare_function) = 2" "fn_return compare_function = 1" "{0..<2 :: nat} = {0, 1}" by (auto simp: compare_function_def)
  then show ?thesis using topological_sort[of compare_function] c by (cases "TopoSort compare_function") auto
qed

text \<open>
  C4: A function that decodes a 64-bit operand passes the verifier, but the interpreter aborts on every
  operand with its top bit set: the handler converts the number to int64_t, the negative index is below the
  width, and the power of two is asked for at that index.
\<close>

theorem decode_sign_abort:
  assumes "2 ^ 63 \<le> x" and "x < 2 ^ 64"
  shows "VerifyFunction (\<lambda>s node. None) [decode_function] decode_function = Some (Inr ()) \<and>
    InterpretFunction L [decode_function] 1 0 [BitsValue (mk_bits 64 x)] = None"
  using decode_verified decode_function_aborts[OF assms] by blast

theorem decode_sign_abort_witness:
  "InterpretFunction int_bignum [decode_function] 1 0 [BitsValue (mk_bits 64 (2 ^ 63))] = None"
  using decode_sign_abort[of "2 ^ 63" int_bignum] by simp

text \<open>
  C5: A function with a bit slice whose start and width fit \<open>int64_t\<close> but whose end does not
  passes the verifier, which adds them in \<open>int64_t\<close>, so that the sum wraps to a negative
  number. The same sum passes the check of \<open>Bits::Slice\<close>, and the interpreter aborts on every
  argument when it reads the first bit, which is out of range.
\<close>

theorem slice_overflow_abort:
  assumes "8 \<le> start" and "start < 2 ^ 63" and "0 < width" and "width < 2 ^ 63" and "2 ^ 63 \<le> start + width"
  shows "VerifyFunction (\<lambda>s node. None) [slice_function start width] (slice_function start width) = Some (Inr ()) \<and>
    InterpretFunction L [slice_function start width] 1 0 [BitsValue (mk_bits 8 x)] = None"
  using slice_verified[OF assms(2,4,5)] slice_function_aborts[OF assms(3,1)] by blast

theorem slice_overflow_abort_witness:
  "InterpretFunction int_bignum [slice_function (2 ^ 63 - 1) 1] 1 0 [BitsValue (mk_bits 8 5)] = None"
  using slice_overflow_abort[of "2 ^ 63 - 1" 1 int_bignum 5] by simp

section \<open>Known bits of nodes\<close>

text \<open>
  C6: The ternary analysis is sound for the interpreter. The function is in a package that the verifier
  accepts and whose nodes are all evaluable and call only earlier functions (\<open>package_ok\<close>; the
  verifier accepts more, for example a one-hot select whose cases have other widths than its type, or a
  slice whose end overflows, and the population aborts on such nodes), its own nodes are analysable
  (operands of zero width are excluded: the circuits abort on some of them) and the arguments have the types
  of the parameters. Then populating an engine with the function neither aborts nor fails, and what the
  engine then says holds in the evaluation of the function: a bit that it reports as one or zero has that
  value, it knows exactly these bits, and the value of a node lies between MinUnsignedValue and
  MaxUnsignedValue. The engine does not depend on the arguments.
\<close>

theorem known_bits_sound:
  assumes "bignum_ok L val" and "package_ok check_stateful pkg" and "list_at pkg j = Some f"
    and "\<forall>node \<in> set (fn_nodes f). analysable f node" and "args_typed f args"
  shows "\<exists>q rf st. Populate f TernaryQueryEngine_new = Some (Inr (q, rf)) \<and>
    FunctionBase_Accept (visit_node L pkg (InterpretFunction L pkg j) f args) f initial_state = Some (Inr st) \<and>
    (\<forall>n w. GetType f n = Some (BitsType w) \<longrightarrow> (\<exists>x < 2 ^ w. node_values st n = Some (BitsValue (mk_bits w x)) \<and>
      (\<forall>i < w. (IsOne f q (bit_location n i) = Some True \<longrightarrow> bit x i) \<and> (IsZero f q (bit_location n i) = Some True \<longrightarrow> \<not> bit x i) \<and>
        QueryEngine_IsKnown f q (bit_location n i) = Some (IsOne f q (bit_location n i) = Some True \<or> IsZero f q (bit_location n i) = Some True)) \<and>
      (\<exists>lo hi. MinUnsignedValue f q n = Some (mk_bits w lo) \<and> MaxUnsignedValue f q n = Some (mk_bits w hi) \<and> lo \<le> x \<and> x \<le> hi \<and> hi < 2 ^ w)))"
proof -
  obtain q rf st where q: "Populate f TernaryQueryEngine_new = Some (Inr (q, rf))" "FunctionBase_Accept (visit_node L pkg (InterpretFunction L pkg j) f args) f initial_state = Some (Inr st)"
    "engine_true f st q" "\<And>n. n < length (fn_nodes f) \<Longrightarrow> IsBits (node_type (fn_nodes f ! n)) \<Longrightarrow> IsTracked q n"
    by (rule population[OF assms]) blast
  have "\<exists>x < 2 ^ w. node_values st n = Some (BitsValue (mk_bits w x)) \<and>
      (\<forall>i < w. (IsOne f q (bit_location n i) = Some True \<longrightarrow> bit x i) \<and> (IsZero f q (bit_location n i) = Some True \<longrightarrow> \<not> bit x i) \<and>
        QueryEngine_IsKnown f q (bit_location n i) = Some (IsOne f q (bit_location n i) = Some True \<or> IsZero f q (bit_location n i) = Some True)) \<and>
      (\<exists>lo hi. MinUnsignedValue f q n = Some (mk_bits w lo) \<and> MaxUnsignedValue f q n = Some (mk_bits w hi) \<and> lo \<le> x \<and> x \<le> hi \<and> hi < 2 ^ w)"
    if n: "GetType f n = Some (BitsType w)" for n w
  proof -
    obtain k x where a: "answers f q n w k x" "node_values st n = Some (BitsValue (mk_bits w x))" using engine_bits_node[OF q(3,4) n] .
    obtain lo hi where "MinUnsignedValue f q n = Some (mk_bits w lo)" "MaxUnsignedValue f q n = Some (mk_bits w hi)" "hi < 2 ^ w" "lo \<le> take_bit w x" "take_bit w x \<le> hi"
      by (rule bound_answers[OF a(1)]) (auto simp: same_on_def bit_take_bit_iff)
    then show ?thesis using bit_answers[OF a(1)] a(2) by (intro exI[of _ "take_bit w x"]) (auto simp: bit_take_bit_iff)
  qed
  then show ?thesis using q(1,2) by blast
qed

theorem known_bits_sound_witness:
  "\<exists>q rf (st :: interp_state) x. Populate mask_function TernaryQueryEngine_new = Some (Inr (q, rf)) \<and> node_values st 2 = Some (BitsValue (mk_bits 8 x)) \<and>
     (\<forall>i < 8. IsZero mask_function q (bit_location 2 i) = Some True \<longrightarrow> \<not> bit x i)"
proof -
  have "GetType mask_function 2 = Some (BitsType 8)" by (simp add: mask_function_def GetType_def node_at_def)
  then show ?thesis using known_bits_sound[OF int_bignum_ok mask_package] by blast
qed

text \<open>
  C7: On a function of a verified package whose nodes are all evaluable (\<open>package_ok\<close>, beyond
  what the verifier checks) and that is itself analysable, with arguments of the types of its parameters,
  the queries about several bits and nodes are sound after population: two nodes reported equal or unequal
  as unsigned numbers have equal or unequal values in the evaluation, also when their widths differ; of bits
  for which AtMostOneTrue holds at most one is set, and of bits for which AtLeastOneTrue holds at least one
  is. Under these conditions the queries never abort on nodes of bits type of the function and on locations
  of their bits.
\<close>

theorem comparison_queries_sound:
  assumes "bignum_ok L val" and "package_ok check_stateful pkg" and "list_at pkg j = Some f"
    and "\<forall>node \<in> set (fn_nodes f). analysable f node" and "args_typed f args"
  shows "\<exists>q rf st. Populate f TernaryQueryEngine_new = Some (Inr (q, rf)) \<and>
    FunctionBase_Accept (visit_node L pkg (InterpretFunction L pkg j) f args) f initial_state = Some (Inr st) \<and>
    (\<forall>a b v w. GetType f a = Some (BitsType v) \<and> GetType f b = Some (BitsType w) \<longrightarrow>
      (\<exists>x y eq ne. node_values st a = Some (BitsValue (mk_bits v x)) \<and> node_values st b = Some (BitsValue (mk_bits w y)) \<and> x < 2 ^ v \<and> y < 2 ^ w \<and>
        NodesKnownUnsignedEquals f q a b = Some eq \<and> (eq \<longrightarrow> x = y) \<and> NodesKnownUnsignedNotEquals f q a b = Some ne \<and> (ne \<longrightarrow> x \<noteq> y))) \<and>
    (\<forall>locs. list_all (valid_location f) locs \<longrightarrow>
      (\<exists>most least. AtMostOneTrue f q locs = Some most \<and> (most \<longrightarrow> length (filter (value_bit st) locs) \<le> 1) \<and>
        AtLeastOneTrue f q locs = Some least \<and> (least \<longrightarrow> filter (value_bit st) locs \<noteq> [])))"
proof -
  obtain q rf st where q: "Populate f TernaryQueryEngine_new = Some (Inr (q, rf))" "FunctionBase_Accept (visit_node L pkg (InterpretFunction L pkg j) f args) f initial_state = Some (Inr st)"
    "engine_true f st q" "\<And>n. n < length (fn_nodes f) \<Longrightarrow> IsBits (node_type (fn_nodes f ! n)) \<Longrightarrow> IsTracked q n"
    by (rule population[OF assms]) blast
  have "\<exists>x y eq ne. node_values st a = Some (BitsValue (mk_bits v x)) \<and> node_values st b = Some (BitsValue (mk_bits w y)) \<and> x < 2 ^ v \<and> y < 2 ^ w \<and>
      NodesKnownUnsignedEquals f q a b = Some eq \<and> (eq \<longrightarrow> x = y) \<and> NodesKnownUnsignedNotEquals f q a b = Some ne \<and> (ne \<longrightarrow> x \<noteq> y)"
    if t: "GetType f a = Some (BitsType v)" "GetType f b = Some (BitsType w)" for a b v w
    using pair_answers[OF q(3,4) t] .
  moreover have "\<exists>most least. AtMostOneTrue f q locs = Some most \<and> (most \<longrightarrow> length (filter (value_bit st) locs) \<le> 1) \<and>
      AtLeastOneTrue f q locs = Some least \<and> (least \<longrightarrow> filter (value_bit st) locs \<noteq> [])" if "list_all (valid_location f) locs" for locs
    using set_answers[OF q(3,4) that] .
  ultimately show ?thesis using q(1,2) by blast
qed

theorem comparison_queries_sound_witness:
  "\<exists>q rf (st :: interp_state) x y eq. Populate mask_function TernaryQueryEngine_new = Some (Inr (q, rf)) \<and> node_values st 1 = Some (BitsValue (mk_bits 8 x)) \<and>
     node_values st 2 = Some (BitsValue (mk_bits 8 y)) \<and> NodesKnownUnsignedEquals mask_function q 1 2 = Some eq \<and> (eq \<longrightarrow> x = y)"
proof -
  have "GetType mask_function 1 = Some (BitsType 8) \<and> GetType mask_function 2 = Some (BitsType 8)" by (simp add: mask_function_def GetType_def node_at_def)
  then show ?thesis using comparison_queries_sound[OF int_bignum_ok mask_package] by blast
qed

text \<open>
  C8: One population reaches the fixpoint: on the populated engine a second population of the same function
  changes no known bit and reports Unchanged, and the engine tracks exactly the nodes of bits type.
\<close>

theorem population_fixpoint:
  assumes "bignum_ok L val" and "package_ok check_stateful pkg" and "list_at pkg j = Some f"
    and "\<forall>node \<in> set (fn_nodes f). analysable f node" and "args_typed f args"
  shows "\<exists>q rf. Populate f TernaryQueryEngine_new = Some (Inr (q, rf)) \<and> Populate f q = Some (Inr (q, Unchanged)) \<and>
    (\<forall>n. IsTracked q n \<longleftrightarrow> n < length (fn_nodes f) \<and> IsBits (node_type (fn_nodes f ! n)))"
proof -
  obtain q rf st where q: "Populate f TernaryQueryEngine_new = Some (Inr (q, rf))" "engine_true f st q" "Populate f q = Some (Inr (q, Unchanged))"
    "\<And>n. n < length (fn_nodes f) \<Longrightarrow> IsBits (node_type (fn_nodes f ! n)) \<Longrightarrow> IsTracked q n"
    by (rule population[OF assms]) blast
  have "n < length (fn_nodes f) \<and> IsBits (node_type (fn_nodes f ! n))" if "IsTracked q n" for n
    using that q(2) by (auto simp: engine_true_def holds_at_def)
  then show ?thesis using q(1,3,4) by blast
qed

theorem population_fixpoint_witness:
  "\<exists>q rf. Populate mask_function TernaryQueryEngine_new = Some (Inr (q, rf)) \<and> Populate mask_function q = Some (Inr (q, Unchanged)) \<and> IsTracked q 2"
proof -
  have "2 < length (fn_nodes mask_function) \<and> IsBits (node_type (fn_nodes mask_function ! 2))" by (simp add: mask_function_def)
  then show ?thesis using population_fixpoint[OF int_bignum_ok mask_package] by meson
qed

section \<open>Arithmetic of literals\<close>

text \<open>
  C9: \<open>bits_ops::Add\<close> of two literals of one width never aborts and returns the well-formed
  literal of that width that holds the sum modulo \<open>2 ^ width\<close>, on the path through a machine
  word as on the one through \<open>BigInt\<close>.
\<close>

theorem Add_wraps:
  assumes "bignum_ok L val" "bm_inv x" "bm_inv y" "bit_count x = bit_count y"
  shows "\<exists>r. bits_ops_Add L x y = Some r \<and> bm_inv r \<and> bit_count r = bit_count x \<and>
    uval r = (uval x + uval y) mod 2 ^ bit_count x"
  using assms bits_ops_Add_eq[OF assms(1), of "bit_count x" "uval x" "bit_count x" "uval y"]
    bm_inv_eq_mk_bits[OF assms(2)] bm_inv_eq_mk_bits[OF assms(3)] by (simp add: take_bit_eq_mod)

theorem Add_wraps_witness:
  "\<exists>r. bits_ops_Add int_bignum (mk_bits 3 5) (mk_bits 3 6) = Some r \<and> bm_inv r \<and> bit_count r = 3 \<and> uval r = 3"
  using Add_wraps[OF int_bignum_ok, of "mk_bits 3 5" "mk_bits 3 6"] by (simp add: take_bit_eq_mod)


text \<open>
  \<open>bits_ops::Sub\<close> of two literals of one width never aborts and returns the difference in two's
  complement: adding the subtrahend again with \<open>Add\<close> gives the minuend back.
\<close>

theorem Sub_wraps:
  assumes "bignum_ok L val" "bm_inv x" "bm_inv y" "bit_count x = bit_count y"
  shows "\<exists>d. bits_ops_Sub L x y = Some d \<and> bm_inv d \<and> bit_count d = bit_count x \<and> bits_ops_Add L d y = Some x"
proof -
  let ?n = "bit_count x"
  have xy: "x = mk_bits ?n (uval x)" "y = mk_bits ?n (uval y)" using assms bm_inv_eq_mk_bits[of x] bm_inv_eq_mk_bits[of y] by auto
  have s: "bits_ops_Sub L x y = Some (mk_int ?n (int (uval x) - int (uval y)))"
    using bits_ops_Sub_eq[OF assms(1), of ?n "uval x" ?n "uval y"] xy by simp
  let ?d = "mk_int ?n (int (uval x) - int (uval y))"
  have d: "?d = mk_bits ?n (uval ?d)" using bm_inv_eq_mk_bits[of ?d] by simp
  have "bits_ops_Add L ?d y = Some (mk_bits ?n (uval ?d + uval y))"
    using bits_ops_Add_eq[OF assms(1), of ?n "uval ?d" ?n "uval y"] xy(2) d by metis
  also have "mk_bits ?n (uval ?d + uval y) = mk_int ?n (int (uval ?d + uval y))" by (rule mk_int_of_nat[symmetric])
  also have "\<dots> = mk_int ?n (int (uval x))" by (rule mk_int_cong) (simp add: take_bit_eq_mod mod_simps)
  finally show ?thesis using s xy(1) by simp
qed

theorem Sub_wraps_witness:
  "\<exists>d. bits_ops_Sub int_bignum (mk_bits 70 1) (mk_bits 70 3) = Some d \<and> bm_inv d \<and> bit_count d = 70 \<and>
     bits_ops_Add int_bignum d (mk_bits 70 3) = Some (mk_bits 70 1)"
  using Sub_wraps[OF int_bignum_ok, of "mk_bits 70 1" "mk_bits 70 3"] by simp

text \<open>
  C10: \<open>UMul\<close> and \<open>SMul\<close> return the exact product of the operands read as unsigned
  and as two's complement numbers: the width of the result is the sum of the widths and nothing is cut off.
\<close>

theorem Mul_exact:
  assumes "bignum_ok L val" "bm_inv x" "bm_inv y"
  shows "\<exists>u s. bits_ops_UMul L x y = Some u \<and> bits_ops_SMul L x y = Some s \<and>
    bit_count u = bit_count x + bit_count y \<and> bit_count s = bit_count x + bit_count y \<and>
    uval u = uval x * uval y \<and> sval s = sval x * sval y"
proof -
  have xy: "x = mk_bits (bit_count x) (uval x)" "y = mk_bits (bit_count y) (uval y)"
    using assms bm_inv_eq_mk_bits by auto
  have lt: "uval x < 2 ^ bit_count x" "uval y < 2 ^ bit_count y" using assms by (auto simp: bm_inv_def)
  have "uval x * uval y < 2 ^ (bit_count x + bit_count y)" using mult_strict_mono[OF lt] by (simp add: power_add)
  moreover have "bits_ops_UMul L x y = Some (mk_bits (bit_count x + bit_count y) (uval x * uval y))"
    using bits_ops_UMul_eq[OF assms(1), of "bit_count x" "uval x" "bit_count y" "uval y"] xy lt by simp
  moreover have "bits_ops_SMul L x y = Some (mk_int (bit_count x + bit_count y) (sval x * sval y))"
    using bits_ops_SMul_eq[OF assms(1), of "bit_count x" "uval x" "bit_count y" "uval y"] xy by simp
  moreover have "sval (mk_int (bit_count x + bit_count y) (sval x * sval y)) = sval x * sval y"
    using num_bits_signed_prod[of "bit_count x" "uval x" "bit_count y" "uval y"] sval_mk_int_exact xy assms
    by (cases "bit_count x + bit_count y = 0") (auto simp: num_bits_signed_le_iff)
  ultimately show ?thesis by simp
qed

theorem Mul_exact_witness:
  "\<exists>u s. bits_ops_UMul int_bignum (mk_bits 2 3) (mk_bits 2 3) = Some u \<and>
     bits_ops_SMul int_bignum (mk_bits 2 3) (mk_bits 2 3) = Some s \<and>
     bit_count u = 4 \<and> bit_count s = 4 \<and> uval u = 9 \<and> sval s = 1"
proof -
  have "sval (mk_bits 2 3) = - 1" by (simp add: sval_def bit_0)
  then show ?thesis using Mul_exact[OF int_bignum_ok, of "mk_bits 2 3" "mk_bits 2 3"] by simp
qed

text \<open>
  C11: Signed division of literals of one width rounds towards zero and the remainder has the sign of the
  dividend, so that quotient times divisor plus remainder is the dividend; the one overflow, the least
  number divided by minus one, is the only case in which the quotient wraps.
\<close>

theorem SDiv_SMod_truncate:
  assumes "bignum_ok L val" "bm_inv x" "bm_inv y" "bit_count x = bit_count y" "uval y \<noteq> 0"
    "\<not> (sval x = - (2 ^ (bit_count x - 1)) \<and> sval y = - 1)"
  shows "\<exists>q r. bits_ops_SDiv L x y = Some q \<and> bits_ops_SMod L x y = Some r \<and>
    sval q = c_div (sval x) (sval y) \<and> sval r = c_mod (sval x) (sval y) \<and>
    sval q * sval y + sval r = sval x \<and> \<bar>sval r\<bar> < \<bar>sval y\<bar>"
proof -
  have n: "0 < bit_count x" using assms(3-5) by (cases "bit_count x") (auto simp: bm_inv_def)
  have xy: "x = mk_bits (bit_count x) (uval x)" "y = mk_bits (bit_count x) (uval y)"
    using assms bm_inv_eq_mk_bits[of x] bm_inv_eq_mk_bits[of y] by auto
  have ys: "sval y \<noteq> 0" using sval_eq_0_iff[of "bit_count x" "uval y"] xy(2) assms(3-5) by (metis uval_mk_bits)
  have q: "bits_ops_SDiv L x y = Some (mk_int (bit_count x) (c_div (sval x) (sval y)))"
    using bits_ops_SDiv_eq[OF assms(1), of "bit_count x" "uval x" "bit_count x" "uval y"] xy assms(5) by (metis uval_mk_bits)
  have r: "bits_ops_SMod L x y = Some (mk_int (bit_count x) (c_mod (sval x) (sval y)))"
    using bits_ops_SMod_eq[OF assms(1), of "bit_count x" "uval x" "bit_count x" "uval y"] xy assms(5) by (metis uval_mk_bits)
  note bounds = signed_div_bounds[OF n sval_range[OF assms(2) n] sval_range[OF assms(3), folded assms(4), OF n] ys assms(6)]
  then show ?thesis using q r sval_mk_int_exact[OF n] by auto
qed

theorem SDiv_SMod_truncate_witness:
  "\<exists>q r. bits_ops_SDiv int_bignum (mk_bits 4 9) (mk_bits 4 2) = Some q \<and>
     bits_ops_SMod int_bignum (mk_bits 4 9) (mk_bits 4 2) = Some r \<and> sval q = - 3 \<and> sval r = - 1"
proof -
  have "sval (mk_bits 4 9) = - 7" "sval (mk_bits 4 2) = 2" by (simp_all add: sval_def take_bit_eq_mod bit_0)
  then show ?thesis
    using SDiv_SMod_truncate[OF int_bignum_ok, of "mk_bits 4 9" "mk_bits 4 2"] by (simp add: c_div_def c_mod_def take_bit_eq_mod) blast
qed

text \<open>
  C12: Division by zero returns: \<open>UDiv\<close> the number with all bits set, \<open>SDiv\<close> the
  largest number of the width for a nonnegative and the least one for a negative dividend, and both
  remainders zero, all of the width of the operands.
\<close>

theorem div_by_zero:
  assumes "bignum_ok L val" "bm_inv x" "bm_inv y" "bit_count x = n" "bit_count y = n" "0 < n" "uval y = 0"
  shows "(\<exists>q. bits_ops_UDiv L x y = Some q \<and> bm_inv q \<and> bit_count q = n \<and> uval q = 2 ^ n - 1) \<and>
    (\<exists>q. bits_ops_SDiv L x y = Some q \<and> bm_inv q \<and> bit_count q = n \<and> sval q = (if sval x < 0 then - (2 ^ (n - 1)) else 2 ^ (n - 1) - 1)) \<and>
    (\<exists>r. bits_ops_UMod L x y = Some r \<and> bm_inv r \<and> bit_count r = n \<and> uval r = 0) \<and>
    (\<exists>r. bits_ops_SMod L x y = Some r \<and> bm_inv r \<and> bit_count r = n \<and> uval r = 0)"
proof -
  obtain v where xy: "x = mk_bits n v" "y = mk_bits n 0"
    using assms bm_inv_eq_mk_bits[of x] bm_inv_eq_mk_bits[of y] by metis
  have u: "bits_ops_UDiv L (mk_bits n v) (mk_bits n 0) = Some (mk_bits n (2 ^ n - 1))" "bits_ops_UMod L (mk_bits n v) (mk_bits n 0) = Some (mk_bits n 0)"
    "bits_ops_SMod L (mk_bits n v) (mk_bits n 0) = Some (mk_bits n 0)"
    "bits_ops_SDiv L (mk_bits n v) (mk_bits n 0) = Some (if sval (mk_bits n v) < 0 then mk_bits n (2 ^ (n - 1)) else mk_bits n (mask (n - 1)))"
    using bits_ops_UDiv_eq[OF assms(1), of n v n 0] bits_ops_UMod_eq[OF assms(1), of n v n 0]
      bits_ops_SMod_eq[OF assms(1), of n v n 0] bits_ops_SDiv_eq[OF assms(1), of n v n 0] by (simp_all add: mask_eq_exp_minus_1)
  obtain k where k: "n = Suc k" using assms(6) by (cases n) auto
  have s: "sval (mk_bits n (2 ^ (n - 1))) = - (2 ^ (n - 1))" "sval (mk_bits n (mask (n - 1))) = 2 ^ (n - 1) - 1"
    unfolding k by (simp_all add: sval_def bit_exp_iff bit_mask_iff take_bit_nat_eq_self take_bit_of_mask of_nat_mask_eq) (simp_all add: mask_eq_exp_minus_1)
  show ?thesis unfolding xy u using s by (simp add: take_bit_nat_eq_self)
qed

theorem div_by_zero_witness:
  "\<exists>q. bits_ops_SDiv int_bignum (mk_bits 4 9) (mk_bits 4 0) = Some q \<and> sval q = - 8"
proof -
  have "sval (mk_bits 4 9) = - 7" by (simp add: sval_def take_bit_eq_mod bit_0)
  then show ?thesis using div_by_zero[OF int_bignum_ok, of "mk_bits 4 9" "mk_bits 4 0" 4] by auto
qed

text \<open>
  Unsigned division of literals of one width is Euclidean: the quotient and the remainder determine the
  dividend and the remainder is below a nonzero divisor.
\<close>

theorem UDiv_UMod_euclid:
  assumes "bignum_ok L val" "bm_inv x" "bm_inv y" "bit_count x = bit_count y" "uval y \<noteq> 0"
  shows "\<exists>q r. bits_ops_UDiv L x y = Some q \<and> bits_ops_UMod L x y = Some r \<and>
    bit_count q = bit_count x \<and> bit_count r = bit_count x \<and> uval x = uval q * uval y + uval r \<and> uval r < uval y"
proof -
  let ?n = "bit_count x"
  have xy: "x = mk_bits ?n (uval x)" "y = mk_bits ?n (uval y)" "uval x < 2 ^ ?n" "uval y < 2 ^ ?n"
    using assms bm_inv_eq_mk_bits[of x] bm_inv_eq_mk_bits[of y] by (auto simp: bm_inv_def)
  have m: "uval x div uval y < 2 ^ ?n" "uval x mod uval y < 2 ^ ?n"
    using order_le_less_trans[OF div_le_dividend xy(3)] order_le_less_trans[OF mod_less_eq_dividend xy(3)] by auto
  have "bits_ops_UDiv L x y = Some (mk_bits ?n (uval x div uval y))" "bits_ops_UMod L x y = Some (mk_bits ?n (uval x mod uval y))"
    using bits_ops_UDiv_eq[OF assms(1), of ?n "uval x" ?n "uval y"] bits_ops_UMod_eq[OF assms(1), of ?n "uval x" ?n "uval y"] xy assms(5) by auto
  then show ?thesis using m assms(5) by simp
qed

theorem UDiv_UMod_euclid_witness:
  "\<exists>q r. bits_ops_UDiv int_bignum (mk_bits 4 13) (mk_bits 4 5) = Some q \<and>
     bits_ops_UMod int_bignum (mk_bits 4 13) (mk_bits 4 5) = Some r \<and> 13 = uval q * 5 + uval r \<and> uval r < 5"
  using UDiv_UMod_euclid[OF int_bignum_ok, of "mk_bits 4 13" "mk_bits 4 5"] by auto


section \<open>Literals\<close>

text \<open>
  C13: \<open>InlineBitmap::Set\<close> keeps the representation invariant (the unused bits of the last word
  are zero) and is the update of one bit: \<open>Get\<close> then reads the new value at that index and the
  old ones elsewhere, and both abort exactly on an index out of range.
\<close>

theorem bitmap_laws:
  assumes "bm_inv b"
  shows "if i < bit_count b
    then \<exists>b'. InlineBitmap_Set b i x = Some b' \<and> bm_inv b' \<and> bit_count b' = bit_count b \<and>
      (\<forall>j. InlineBitmap_Get b' j = (if j = i then Some x else InlineBitmap_Get b j))
    else InlineBitmap_Set b i x = None \<and> InlineBitmap_Get b i = None"
  using assms by (auto elim!: bm_inv_cases simp: bit_simps)

theorem bitmap_laws_witness:
  "\<exists>b'. InlineBitmap_Set (mk_bits 70 0) 65 True = Some b' \<and> bm_inv b' \<and> bit_count b' = 70 \<and>
     (\<forall>j. InlineBitmap_Get b' j = (if j = 65 then Some True else InlineBitmap_Get (mk_bits 70 0) j))"
  using bitmap_laws[of "mk_bits 70 0" 65 True] by simp

text \<open>
  C14: \<open>Bits::FromBytes\<close> reads back what \<open>Bits::ToBytes\<close> wrote. Both use the
  little-endian digits of the number, \<open>ceil(width / 8)\<close> of them, and \<open>FromBytes\<close>
  aborts on every other number of bytes. The comment in \<open>bits.h\<close> says otherwise: big-endian
  bytes, at least \<open>width / 8\<close> of them; the code is what is proved here.
\<close>

theorem Bits_bytes_roundtrip:
  assumes "bm_inv b"
  shows "(\<exists>bytes. Bits_ToBytes b = Some bytes \<and> length bytes = (bit_count b + 7) div 8 \<and> words_nat bytes = uval b \<and> Bits_FromBytes bytes (bit_count b) = Some b) \<and>
    (\<forall>bytes n. (\<exists>c. Bits_FromBytes bytes n = Some c) \<longleftrightarrow> length bytes = (n + 7) div 8)"
  using assms by (auto elim!: bm_inv_cases)

theorem Bits_bytes_roundtrip_witness:
  "(\<exists>bytes. Bits_ToBytes (mk_bits 12 2748) = Some bytes \<and> length bytes = 2 \<and>
     words_nat bytes = 2748 \<and> Bits_FromBytes bytes 12 = Some (mk_bits 12 2748)) \<and> \<not> (\<exists>c. Bits_FromBytes [188] 12 = Some c)"
  using Bits_bytes_roundtrip[of "mk_bits 12 2748"] by (simp add: take_bit_eq_mod)

text \<open>
  \<open>UBitsWithStatus\<close> succeeds exactly when the value fits the width, and \<open>ToUint64\<close>
  reads the value back; otherwise it returns an error.
\<close>

theorem UBits_roundtrip:
  "UBitsWithStatus v n = (if unat v < 2 ^ n then do { b \<leftarrow> UBits v n; Some (Inr b) } else Some (Inl InvalidArgumentError)) \<and>
   (unat v < 2 ^ n \<longleftrightarrow> (do { b \<leftarrow> UBits v n; Bits_ToUint64 b }) = Some (Inr v))"
  using unat_64(1)[of v] by (auto simp: UBitsWithStatus_eq Bits_ToUint64_eq take_bit_nat_eq_self)

text \<open>
  A signed 64-bit number that \<open>SBits\<close> accepts for a width is what \<open>ToInt64\<close> reads
  back, and a width of at least one accepts exactly the numbers of its two's complement range.
\<close>

theorem SBits_roundtrip:
  assumes "0 < n"
  shows "((\<exists>b. SBits v n = Some b) \<longleftrightarrow> - (2 ^ (n - 1)) \<le> sint v \<and> sint v < 2 ^ (n - 1)) \<and>
    (\<forall>b. SBits v n = Some b \<longrightarrow> bm_inv b \<and> bit_count b = n \<and> sval b = sint v \<and> Bits_ToInt64 b = Some (Inr v))"
proof (rule conjI)
  show "(\<exists>b. SBits v n = Some b) \<longleftrightarrow> - (2 ^ (n - 1)) \<le> sint v \<and> sint v < 2 ^ (n - 1)"
    using assms by (simp add: SBits_eq)
  have "bm_inv b \<and> bit_count b = n \<and> sval b = sint v \<and> Bits_ToInt64 b = Some (Inr v)" if "SBits v n = Some b" for b
  proof -
    have b: "b = mk_int n (sint v)" "- (2 ^ (n - 1)) \<le> sint v" "sint v < 2 ^ (n - 1)"
      using assms that by (auto simp: SBits_eq split: if_splits)
    then have "sval b = sint v" "b = mk_bits n (uval b)"
      using sval_mk_int_exact[OF assms] bm_inv_eq_mk_bits[of b] by auto
    then show ?thesis
      using Bits_ToInt64_eq[of n "uval b"] b(1) sint_ge[of v] sint_lt[of v] by simp
  qed
  then show "\<forall>b. SBits v n = Some b \<longrightarrow> bm_inv b \<and> bit_count b = n \<and> sval b = sint v \<and> Bits_ToInt64 b = Some (Inr v)" by blast
qed

theorem SBits_roundtrip_witness:
  "\<exists>b. SBits (- 3) 3 = Some b \<and> sval b = - 3 \<and> Bits_ToInt64 b = Some (Inr (- 3))"
proof -
  have "sint (- 3 :: u64) = - 3" by (simp add: sint_word_ariths)
  then show ?thesis using SBits_roundtrip[of 3 "- 3"] by auto
qed

text \<open>
  Cutting a literal in two with \<open>Slice\<close> and joining the parts with \<open>Concat\<close>, the
  high part first, gives the literal back.
\<close>

theorem slice_concat_roundtrip:
  assumes "bm_inv b" "k \<le> bit_count b"
  shows "(do { high \<leftarrow> Bits_Slice b k (bit_count b - k); low \<leftarrow> Bits_Slice b 0 k; bits_ops_Concat [high, low] }) = Some b"
proof -
  obtain n v where b: "b = mk_bits n v" using assms(1) by (rule bm_inv_cases)
  have "mk_bits n (take_bit k v OR push_bit k (drop_bit k v)) = mk_bits n v"
  proof (rule mk_bits_cong)
    fix i show "bit (take_bit k v OR push_bit k (drop_bit k v)) i = bit v i" by (cases "i < k") (simp_all add: bit_simps)
  qed
  then show ?thesis using assms(2) by (simp add: b)
qed

theorem slice_concat_roundtrip_witness:
  "(do { high \<leftarrow> Bits_Slice (mk_bits 8 182) 3 5; low \<leftarrow> Bits_Slice (mk_bits 8 182) 0 3; bits_ops_Concat [high, low] })
     = Some (mk_bits 8 182)"
  using slice_concat_roundtrip[of "mk_bits 8 182" 3] by simp

text \<open>
  The unsigned comparisons of literals, also of different widths, are those of the numbers, and
  \<open>SLessThan\<close> is that of the two's complement numbers, on the word path as on the
  \<open>BigInt\<close> path.
\<close>

theorem compare_orders:
  assumes "bignum_ok L val" "bm_inv x" "bm_inv y"
  shows "ULessThan x y = Some (uval x < uval y) \<and> UEqual x y = Some (uval x = uval y) \<and>
    SLessThan L x y = Some (sval x < sval y)"
proof (intro conjI)
  have xy: "x = mk_bits (bit_count x) (uval x)" "y = mk_bits (bit_count y) (uval y)" using assms bm_inv_eq_mk_bits by auto
  show "ULessThan x y = Some (uval x < uval y)" "UEqual x y = Some (uval x = uval y)"
    by (subst xy(1), subst xy(2), simp, metis xy uval_mk_bits)+
  show "SLessThan L x y = Some (sval x < sval y)"
    using SLessThan_eq[OF assms(1), of "bit_count x" "uval x" "bit_count y" "uval y"] xy by simp
qed

theorem compare_orders_witness:
  "SLessThan int_bignum (mk_bits 3 4) (mk_bits 3 3) = Some True"
proof -
  have "sval (mk_bits 3 4) = - 4" "sval (mk_bits 3 3) = 3" by (simp_all add: sval_def take_bit_eq_mod bit_0)
  then show ?thesis using compare_orders[OF int_bignum_ok, of "mk_bits 3 4" "mk_bits 3 3"] by simp
qed


section \<open>Intervals and interval sets\<close>

text \<open>
  C15: \<open>IntervalSet::Normalize\<close> never aborts on a set of valid intervals, wrapped ones
  included, ends in the normal form (proper intervals, ascending, with a gap between any two) and keeps the
  numbers of the set; it is the only normal form with these numbers.
\<close>

theorem Normalize_canonical:
  assumes "bignum_ok L val" "wf_set n S"
  shows "\<exists>S'. IntervalSet_Normalize L S = Some S' \<and> norm_set n S' \<and> set_points n S' = set_points n S \<and>
    (\<forall>T. norm_set n T \<and> set_points n T = set_points n S \<longrightarrow> T = S')"
  using IntervalSet_Normalize_ok[OF assms] norm_set_canonical by metis

theorem Normalize_canonical_witness:
  "\<exists>S'. IntervalSet_Normalize int_bignum \<lparr>is_normalized = False, set_bit_count = 3, intervals = [mk_iv 3 6 1, mk_iv 3 2 3]\<rparr> = Some S' \<and>
     norm_set 3 S' \<and> set_points 3 S' = {0, 1, 2, 3, 6, 7}"
proof -
  let ?S = "\<lparr>is_normalized = False, set_bit_count = 3, intervals = [mk_iv 3 6 1, mk_iv 3 2 3]\<rparr>"
  have "set_points 3 ?S = {0, 1, 2, 3, 6, 7}" by (auto simp: set_points_def iv_points_mk_iv)
  then show ?thesis using Normalize_canonical[OF int_bignum_ok, of 3 ?S] by (auto simp: wf_set_def)
qed

text \<open>
  C16: \<open>IntervalSet::Intersect\<close>, the sweep over two sorted lists that splits and re-inserts
  intervals, terminates on every pair of normalised sets and returns the normalised set of exactly the
  common numbers.
\<close>

theorem Intersect_exact:
  assumes "bignum_ok L val" "norm_set n A" "norm_set n B"
  shows "\<exists>S. IntervalSet_Intersect L A B = Some S \<and> norm_set n S \<and> set_points n S = set_points n A \<inter> set_points n B"
  by (rule IntervalSet_Intersect_ok[OF assms])

theorem Intersect_exact_witness:
  "\<exists>S. IntervalSet_Intersect int_bignum
      \<lparr>is_normalized = True, set_bit_count = 4, intervals = [mk_iv 4 0 9]\<rparr>
      \<lparr>is_normalized = True, set_bit_count = 4, intervals = [mk_iv 4 3 5, mk_iv 4 8 12]\<rparr> = Some S \<and>
     norm_set 4 S \<and> set_points 4 S = {3, 4, 5, 8, 9}"
proof -
  let ?A = "\<lparr>is_normalized = True, set_bit_count = 4, intervals = [mk_iv 4 0 9]\<rparr>"
    and ?B = "\<lparr>is_normalized = True, set_bit_count = 4, intervals = [mk_iv 4 3 5, mk_iv 4 8 12]\<rparr>"
  have "set_points 4 ?A \<inter> set_points 4 ?B = {3, 4, 5, 8, 9}" by (auto simp: set_points_def)
  then show ?thesis using Intersect_exact[OF int_bignum_ok, of 4 ?A ?B] by (simp add: norm_set_def norm_list_def)
qed

text \<open>
  \<open>IntervalSet::Combine\<close> is the union and \<open>IntervalSet::Complement\<close> the complement
  within the width, both in normal form.
\<close>

theorem Combine_Complement_exact:
  assumes "bignum_ok L val" "norm_set n A" "norm_set n B"
  shows "(\<exists>S. IntervalSet_Combine L A B = Some S \<and> norm_set n S \<and> set_points n S = set_points n A \<union> set_points n B) \<and>
    (\<exists>S. IntervalSet_Complement L A = Some S \<and> norm_set n S \<and> set_points n S = {..<2 ^ n} - set_points n A)"
  using IntervalSet_Combine_ok[OF assms(1) norm_set_wf norm_set_wf] IntervalSet_Complement_ok[OF assms(1)] assms(2,3) by auto

theorem Combine_Complement_exact_witness:
  "\<exists>S. IntervalSet_Complement int_bignum \<lparr>is_normalized = True, set_bit_count = 3, intervals = [mk_iv 3 2 4]\<rparr> = Some S \<and>
     norm_set 3 S \<and> set_points 3 S = {0, 1, 5, 6, 7}"
proof -
  let ?A = "\<lparr>is_normalized = True, set_bit_count = 3, intervals = [mk_iv 3 2 4]\<rparr>"
  have "{..<2 ^ 3} - set_points 3 ?A = {0, 1, 5, 6, 7}" by (auto simp: set_points_def)
  then show ?thesis using Combine_Complement_exact[OF int_bignum_ok, of 3 ?A ?A] by (simp add: norm_set_def norm_list_def)
qed

text \<open>
  On normalised sets the operations form a Boolean algebra of the representations themselves: the complement
  of the complement is the same object, and the intersection is the one De Morgan's law gives.
\<close>

theorem Complement_involutive:
  assumes "bignum_ok L val" "norm_set n A" "norm_set n B"
  shows "(IntervalSet_Complement L A \<bind> IntervalSet_Complement L) = Some A \<and>
    (do { a \<leftarrow> IntervalSet_Complement L A; b \<leftarrow> IntervalSet_Complement L B; c \<leftarrow> IntervalSet_Combine L a b;
               IntervalSet_Complement L c }) = IntervalSet_Intersect L A B"
  using set_algebra.double_compl[OF interval_set_algebra[OF assms(1)] assms(2)]
    set_algebra.meet_de_morgan[OF interval_set_algebra[OF assms(1)] assms(2,3)] by auto

theorem Complement_involutive_witness:
  "(IntervalSet_Complement int_bignum \<lparr>is_normalized = True, set_bit_count = 3, intervals = [mk_iv 3 2 4]\<rparr> \<bind>
     IntervalSet_Complement int_bignum) = Some \<lparr>is_normalized = True, set_bit_count = 3, intervals = [mk_iv 3 2 4]\<rparr>"
  using Complement_involutive[OF int_bignum_ok, of 3 "\<lparr>is_normalized = True, set_bit_count = 3, intervals = [mk_iv 3 2 4]\<rparr>"
      "\<lparr>is_normalized = True, set_bit_count = 3, intervals = [mk_iv 3 2 4]\<rparr>"]
  by (simp add: norm_set_def norm_list_def)

text \<open>
  \<open>operator==\<close> on interval sets, normalised or not, decides whether they hold the same numbers.
\<close>

theorem IntervalSet_eq_decides:
  assumes "bignum_ok L val" "wf_set n A" "wf_set n B"
  shows "IntervalSet_eq L A B = Some (set_points n A = set_points n B)"
  by (rule IntervalSet_eq_ok[OF assms])

theorem IntervalSet_eq_decides_witness:
  "IntervalSet_eq int_bignum \<lparr>is_normalized = False, set_bit_count = 3, intervals = [mk_iv 3 3 4, mk_iv 3 1 2]\<rparr>
     \<lparr>is_normalized = True, set_bit_count = 3, intervals = [mk_iv 3 1 4]\<rparr> = Some True"
proof -
  let ?A = "\<lparr>is_normalized = False, set_bit_count = 3, intervals = [mk_iv 3 3 4, mk_iv 3 1 2]\<rparr>"
    and ?B = "\<lparr>is_normalized = True, set_bit_count = 3, intervals = [mk_iv 3 1 4]\<rparr>"
  have "set_points 3 ?A = set_points 3 ?B" by (auto simp: set_points_def)
  then show ?thesis using IntervalSet_eq_decides[OF int_bignum_ok, of 3 ?A ?B] by (simp add: wf_set_def)
qed

text \<open>
  \<open>IntervalSet::Index\<close> returns the i-th smallest number of a normalised set and nothing beyond
  the last one, and \<open>ForEachElement\<close> visits the numbers in that order until the callback stops
  it.
\<close>

theorem Index_enumerates:
  assumes "bignum_ok L val" "norm_set n S"
  shows "(\<forall>i < 2 ^ n. IntervalSet_Index L S (mk_bits n i) = Some (if i < card (set_points n S)
      then Some (mk_bits n (sorted_list_of_set (set_points n S) ! i)) else None)) \<and>
    IntervalSet_ForEachElement L f S s = Some (visit_until f (map (mk_bits n) (sorted_list_of_set (set_points n S))) s)"
  using IntervalSet_Index_eq[OF assms] IntervalSet_ForEachElement_eq[OF assms] by auto

theorem Index_enumerates_witness:
  "IntervalSet_Index int_bignum \<lparr>is_normalized = True, set_bit_count = 3, intervals = [mk_iv 3 0 1, mk_iv 3 5 6]\<rparr> (mk_bits 3 2)
     = Some (Some (mk_bits 3 5))"
proof -
  let ?S = "\<lparr>is_normalized = True, set_bit_count = 3, intervals = [mk_iv 3 0 1, mk_iv 3 5 6]\<rparr>"
  have p: "set_points 3 ?S = {0, 1, 5, 6}" by (auto simp: set_points_def)
  have "norm_set 3 ?S" by (simp add: norm_set_def norm_list_def)
  then have "\<forall>i < 2 ^ 3. IntervalSet_Index int_bignum ?S (mk_bits 3 i) =
      Some (if i < card {0::nat, 1, 5, 6} then Some (mk_bits 3 (sorted_list_of_set {0, 1, 5, 6} ! i)) else None)"
    using Index_enumerates[OF int_bignum_ok, of 3 ?S "\<lambda>x s. (False, s)" "()"] unfolding p by simp
  then show ?thesis by (drule_tac x = 2 in spec) simp
qed

text \<open>
  The queries of a normalised interval set are those of its set of numbers: membership, emptiness, being
  everything, having at most one element, and the number of elements while it is below \<open>2 ^
  63\<close>.
\<close>

theorem set_queries:
  assumes "bignum_ok L val" "norm_set n S"
  shows "(\<forall>x < 2 ^ n. IntervalSet_Covers S (mk_bits n x) = Some (x \<in> set_points n S)) \<and>
    IntervalSet_IsEmpty S = Some (set_points n S = {}) \<and>
    IntervalSet_IsMaximal L S = Some (set_points n S = {..<2 ^ n}) \<and>
    IntervalSet_IsPrecise S = Some (card (set_points n S) \<le> 1) \<and>
    (card (set_points n S) < 2 ^ 63 \<longrightarrow> IntervalSet_Size L S = Some (Some (word_of_nat (card (set_points n S)))))"
  using IntervalSet_Covers_eq[OF norm_set_wf[OF assms(2)]] IntervalSet_IsEmpty_eq[OF assms(2)] IntervalSet_IsMaximal_eq[OF assms]
    IntervalSet_IsPrecise_eq[OF assms(2)] IntervalSet_Size_eq[OF assms] by auto

theorem set_queries_witness:
  "IntervalSet_Size int_bignum \<lparr>is_normalized = True, set_bit_count = 3, intervals = [mk_iv 3 0 1, mk_iv 3 5 6]\<rparr> = Some (Some 4)"
proof -
  let ?S = "\<lparr>is_normalized = True, set_bit_count = 3, intervals = [mk_iv 3 0 1, mk_iv 3 5 6]\<rparr>"
  have p: "set_points 3 ?S = {0, 1, 5, 6}" by (auto simp: set_points_def)
  have "norm_set 3 ?S" by (simp add: norm_set_def norm_list_def)
  then show ?thesis using set_queries[OF int_bignum_ok, of 3 ?S] unfolding p by simp
qed

text \<open>
  \<open>IntervalSet::GetPreciseValue\<close> returns the element of a singleton and nothing for a larger
  set, and it aborts on the empty set, which \<open>IsPrecise\<close> reports to be precise.
\<close>

theorem GetPreciseValue_aborts:
  assumes "norm_set n S"
  shows "(\<forall>a. set_points n S = {a} \<longrightarrow> IntervalSet_GetPreciseValue S = Some (Some (mk_bits n a))) \<and>
    (card (set_points n S) > 1 \<longrightarrow> IntervalSet_GetPreciseValue S = Some None) \<and>
    (set_points n S = {} \<longrightarrow> IntervalSet_IsPrecise S = Some True \<and> IntervalSet_GetPreciseValue S = None)"
  using IntervalSet_GetPreciseValue_eq[OF assms] IntervalSet_IsPrecise_eq[OF assms] by auto

theorem GetPreciseValue_aborts_witness:
  "IntervalSet_GetPreciseValue (IntervalSet_new 4) = None"
  using GetPreciseValue_aborts[of 4 "IntervalSet_new 4"] by (simp add: norm_set_def IntervalSet_new_def set_points_def)

text \<open>
  \<open>Interval::Elements\<close> of an interval, wrapped or not, terminates and lists each of its numbers
  once from the lower bound on, and \<open>Size\<close> is their count whenever that fits a nonnegative
  \<open>int64_t\<close>.
\<close>

theorem Interval_walk:
  assumes "bignum_ok L val" "wf_iv n iv"
  shows "\<exists>xs. Interval_Elements L iv = Some (map (mk_bits n) xs) \<and> set xs = iv_points n iv \<and> distinct xs \<and> xs \<noteq> [] \<and> hd xs = lo iv \<and>
    Interval_Size L iv = Some (if length xs < 2 ^ 63 then Some (word_of_nat (length xs)) else None)"
proof -
  obtain a b where iv: "iv = mk_iv n a b" "a < 2 ^ n" "b < 2 ^ n" "lo iv = a" using assms(2) by (rule wf_iv_cases)
  let ?w = "iv_walk n a b"
  have w: "set ?w = iv_points n iv" "distinct ?w" using set_iv_walk[OF iv(2,3)] by (simp_all add: iv(1))
  have "?w \<noteq> []" "hd ?w = a" using iv(2,3) by (auto simp: iv_walk_def hd_append simp del: upt_Suc)
  then show ?thesis
    using w Interval_Elements_eq[OF assms(1) iv(2,3)] Interval_Size_eq[OF assms(1) iv(2,3)] distinct_card[OF w(2)] iv(1,4)
    by (intro exI[of _ ?w]) simp
qed

theorem Interval_walk_witness:
  "\<exists>xs. Interval_Elements int_bignum (mk_iv 3 6 1) = Some (map (mk_bits 3) xs) \<and> set xs = iv_points 3 (mk_iv 3 6 1) \<and> distinct xs \<and> hd xs = 6"
  using Interval_walk[OF int_bignum_ok, of 3 "mk_iv 3 6 1"] by auto

lemma SetRange_empty: "u \<le> l \<Longrightarrow> u \<le> n \<Longrightarrow> Bits_SetRange (mk_bits n v) l u x = Some (mk_bits n v)"
  by (simp add: Bits_SetRange_def InlineBitmap_SetRange_def)

lemma SetRange_ones: "u \<le> n \<Longrightarrow> Bits_SetRange (mk_bits n 0) l u True = Some (mk_bits n (push_bit l (mask (u - l))))"
  by (cases "l \<le> u") (simp_all add: SetRange_empty)

lemma mask_range: "bit (push_bit l (mask (u - l)) :: nat) i \<longleftrightarrow> l \<le> i \<and> i < u"
  by (auto simp: bit_simps)

lemma low_end: "min (run_length (\<lambda>i. \<not> bit a i) n) (run_length (\<lambda>i. \<not> bit b i) n) \<le> i \<longleftrightarrow> n \<le> i \<or> (\<exists>j \<le> i. bit a j \<or> bit b j)" for a b :: nat
proof
  let ?k = "\<lambda>a :: nat. run_length (\<lambda>i. \<not> bit a i) n"
  assume "min (?k a) (?k b) \<le> i"
  then have "?k a \<le> i \<or> ?k b \<le> i" by linarith
  moreover have "n \<le> i \<or> (\<exists>j \<le> i. bit c j)" if "?k c \<le> i" for c
    using that run_length_stop[of "\<lambda>i. \<not> bit c i" n] run_length_le[of "\<lambda>i. \<not> bit c i" n] by (cases "?k c < n") auto
  ultimately show "n \<le> i \<or> (\<exists>j \<le> i. bit a j \<or> bit b j)" by blast
next
  let ?k = "\<lambda>a :: nat. run_length (\<lambda>i. \<not> bit a i) n"
  assume a: "n \<le> i \<or> (\<exists>j \<le> i. bit a j \<or> bit b j)"
  have "?k c \<le> i" if "n \<le> i \<or> (\<exists>j \<le> i. bit c j)" for c
    using that run_length_le[of "\<lambda>i. \<not> bit c i" n] run_length_holds[of _ "\<lambda>i. \<not> bit c i" n] by (metis le_trans linorder_not_less le_less_trans)
  then show "min (?k a) (?k b) \<le> i" using a by (metis min.coboundedI1 min.coboundedI2)
qed

lemma IsTrueWhenAndWith_eq:
  assumes "a < 2 ^ n" "b < 2 ^ n" "v < 2 ^ n"
  shows "IsTrueWhenAndWith (mk_iv n a b) (mk_bits n v) = Some (\<exists>i < num_bits b. bit v i \<and> (\<exists>j \<le> i. bit a j \<or> bit b j))"
proof -
  let ?l = "min (run_length (\<lambda>i. \<not> bit a i) n) (run_length (\<lambda>i. \<not> bit b i) n)" and ?u = "num_bits b"
  have u: "n - run_length (\<lambda>i. \<not> bit b (n - 1 - i)) n = ?u" "?u \<le> n" using mk_bits_minimal[of n b] assms(2) by (simp_all add: take_bit_nat_eq_self num_bits_le_iff)
  have r: "Bits_SetRange (mk_bits n 0) ?l ?u True = Some (mk_bits n (push_bit ?l (mask (?u - ?l))))"
    using u(2) by (rule SetRange_ones)
  have "(take_bit n (push_bit ?l (mask (?u - ?l)) AND v) = 0) \<longleftrightarrow> \<not> (\<exists>i < ?u. bit v i \<and> ?l \<le> i)"
    using u(2) by (auto simp: bit_eq_iff bit_take_bit_iff bit_and_iff mask_range)
  also have "(\<exists>i < ?u. bit v i \<and> ?l \<le> i) \<longleftrightarrow> (\<exists>i < ?u. bit v i \<and> (\<exists>j \<le> i. bit a j \<or> bit b j))" using low_end u(2) by (metis leD less_le_trans)
  finally have m: "(take_bit n (push_bit ?l (mask (?u - ?l)) AND v) \<noteq> 0) \<longleftrightarrow> (\<exists>i < ?u. bit v i \<and> (\<exists>j \<le> i. bit a j \<or> bit b j))" by (simp only: not_not)
  have "IsTrueWhenAndWith (mk_iv n a b) (mk_bits n v) = Some (take_bit n (push_bit ?l (mask (?u - ?l)) AND v) \<noteq> 0)"
    unfolding IsTrueWhenAndWith_def Interval_BitCount_eq mk_iv_fields Bits_CountTrailingZeros_eq Bits_CountLeadingZeros_eq Bits_new_eq Let_def bind.bind_lunit u(1) r
    by simp
  then show ?thesis using m by simp
qed

text \<open>
  C17: What \<open>Interval::IsTrueWhenAndWith\<close> computes: whether the mask has a bit below the length
  of the upper bound and at or above the lowest bit set in either bound. This is not the documented test for
  an element that shares a bit with the mask: for every interval with two even bounds it denies the mask 1,
  although the odd number after the lower bound is in the interval.
\<close>

theorem mask_query_exact:
  assumes "a < 2 ^ n" "b < 2 ^ n" "v < 2 ^ n"
  shows "IsTrueWhenAndWith (mk_iv n a b) (mk_bits n v) = Some (\<exists>i < num_bits b. bit v i \<and> (\<exists>j \<le> i. bit a j \<or> bit b j)) \<and>
    (even a \<and> even b \<and> a < b \<longrightarrow> IsTrueWhenAndWith (mk_iv n a b) (mk_bits n 1) = Some False \<and> a + 1 \<in> iv_points n (mk_iv n a b) \<and> bit (a + 1) 0)"
proof -
  have "IsTrueWhenAndWith (mk_iv n a b) (mk_bits n 1) = Some False \<and> a + 1 \<in> iv_points n (mk_iv n a b) \<and> bit (a + 1) 0" if e: "even a" "even b" "a < b"
  proof -
    have "(1 :: nat) < 2 ^ n" using e(3) assms(2) by linarith
    then show ?thesis using e assms(2) IsTrueWhenAndWith_eq[OF assms(1,2), of 1] by (auto simp: bit_0 bit_Suc_0_iff)
  qed
  then show ?thesis using IsTrueWhenAndWith_eq[OF assms] by blast
qed

theorem mask_query_exact_witness:
  "IsTrueWhenAndWith (mk_iv 4 4 8) (mk_bits 4 1) = Some False \<and> 5 \<in> iv_points 4 (mk_iv 4 4 8)"
  using mask_query_exact[of 4 4 8 1, THEN conjunct2] by simp

section \<open>The evaluators\<close>









text \<open>
  C22: The Dadda multiplier over Booleans returns for every pair of vectors, whatever their lengths: the
  loops that choose the first height and run the stages end, no column overflows, and the result holds the
  product.
\<close>

theorem multiplier_terminates:
  "\<exists>p. AE_UMul BoolEvaluator a b = Some p \<and> length p = length a + length b \<and>
     (horner_sum of_bool 2 p :: int) = horner_sum of_bool 2 a * horner_sum of_bool 2 b"
proof -
  let ?x = "horner_sum of_bool 2 a :: int" and ?y = "horner_sum of_bool 2 b :: int"
  have t: "take_bit (length a) ?x = ?x" "take_bit (length b) ?y = ?y"
    by (simp_all add: take_bit_int_eq_self horner_sum_of_bool_2_less horner_bool_nonneg)
  have "vec (=) (length a) ?x a" "vec (=) (length b) ?y b" by (simp_all add: vec_bools t)
  then obtain p where p: "AE_UMul BoolEvaluator a b = Some p" "length p = length a + length b"
    "horner_sum of_bool 2 p = take_bit (length a + length b) (?x * ?y)"
    using booleans.UMul_vec[of "length a" ?x a "length b" ?y b] by (auto simp: yields_def vec_bools t)
  have "?x * ?y < 2 ^ (length a + length b)"
    unfolding power_add by (intro mult_strict_mono) (simp_all add: horner_sum_of_bool_2_less horner_bool_nonneg)
  moreover have "0 \<le> ?x * ?y" by (simp add: horner_bool_nonneg)
  ultimately show ?thesis using p by (simp add: take_bit_int_eq_self)
qed

text \<open>
  Parsing the printed text of a ternary vector gives the vector back, separators and all, and so does
  rebuilding it from its mask of known bits and their values.
\<close>

theorem ternary_roundtrips:
  "StringToTernaryVector (ternary_ToString v) = Inr v \<and>
   (do { k \<leftarrow> ToKnownBits v; x \<leftarrow> ToKnownBitsValues v; FromKnownBits k x }) = Some v"
  by (simp only: ternary_text_roundtrip known_bits_roundtrip simp_thms)

text \<open>
  \<open>ternary_ops::Difference\<close> fails exactly when no literal agrees with both vectors; otherwise
  the literals that agree with the right vector agree with the left one exactly when they agree with the
  difference.
\<close>

theorem ternary_difference:
  assumes "length lhs = length rhs"
  shows "\<exists>r. ternary_Difference lhs rhs = Some r \<and>
    (case r of None \<Rightarrow> \<not> (\<exists>b. vector_covers lhs b \<and> vector_covers rhs b)
     | Some d \<Rightarrow> (\<forall>b. vector_covers rhs b \<longrightarrow> vector_covers lhs b = vector_covers d b))"
proof (cases "ternary_Difference lhs rhs")
  case None
  then show ?thesis using ternary_Difference_eq[OF assms] by simp
next
  case (Some r)
  show ?thesis
  proof (cases r)
    case None
    then obtain i where i: "i < length lhs" "lhs ! i \<noteq> kUnknown" "rhs ! i \<noteq> kUnknown" "lhs ! i \<noteq> rhs ! i"
      using Some ternary_Difference_eq[OF assms] by (auto split: if_splits)
    have "\<not> (ternary_covers (lhs ! i) c \<and> ternary_covers (rhs ! i) c)" for c using i by (auto simp: ternary_covers_def)
    then have "\<not> (vector_covers lhs b \<and> vector_covers rhs b)" for b using i(1) assms unfolding vector_covers_def by metis
    then show ?thesis using Some None by auto
  next
    case (Some d)
    then show ?thesis using \<open>ternary_Difference lhs rhs = Some r\<close> ternary_Difference_covers by auto
  qed
qed

theorem ternary_difference_witness:
  "\<exists>r. ternary_Difference [kKnownOne] [kUnknown] = Some r \<and>
    (case r of None \<Rightarrow> \<not> (\<exists>b. vector_covers [kKnownOne] b \<and> vector_covers [kUnknown] b)
     | Some d \<Rightarrow> {b. vector_covers [kUnknown] b \<and> vector_covers [kKnownOne] b} = {b. vector_covers [kUnknown] b \<and> vector_covers d b})"
  using ternary_difference[of "[kKnownOne]" "[kUnknown]"] by (auto split: option.splits)

section \<open>Binary decision diagrams\<close>

text \<open>
  C23: Every diagram that the public operations build from the empty one is ordered and reduced, its unique
  table holds exactly its inner nodes, its cache of if-then-else results is true, and every variable has its
  base node.
\<close>

theorem bdd_reachable_ordered_reduced:
  "{b. bdd_step\<^sup>*\<^sup>* bdd_new b} \<subseteq> {b. bdd_inv b}"
  using bdd_reachable_inv[OF _ bdd_new_inv] by blast

text \<open>
  C24: On such a diagram negation, conjunction and disjunction of any two expressions always return, keep
  the invariant and every earlier node, and the returned node means the negation, the conjunction and the
  disjunction; \<open>NewVariable\<close> returns a node that did not exist and that means the new variable.
\<close>

theorem bdd_operations_correct:
  assumes "bdd_inv b" "valid (nodes b) x" "valid (nodes b) y"
  shows "op_ok b (\<lambda>env. \<not> sem (nodes b) env x) (bdd_Not x b) \<and>
    op_ok b (\<lambda>env. sem (nodes b) env x \<and> sem (nodes b) env y) (bdd_And x y b) \<and>
    op_ok b (\<lambda>env. sem (nodes b) env x \<or> sem (nodes b) env y) (bdd_Or x y b) \<and>
    (\<exists>r b' ns. NewVariable b = Some (r, b') \<and> bdd_inv b' \<and> nodes b' = nodes b @ ns \<and> valid (nodes b') r \<and>
      \<not> valid (nodes b) r \<and> (\<forall>env. sem (nodes b') env r = env (next_var b)))"
  using bdd_ops_ok[OF assms] NewVariable_ok[OF assms(1)] by blast

theorem bdd_operations_correct_witness:
  "op_ok bdd_new (\<lambda>env. \<not> sem (nodes bdd_new) env 0) (bdd_Not 0 bdd_new)"
  using bdd_operations_correct[OF bdd_new_inv, of 0 0] by (simp add: valid_def bdd_new_def)

text \<open>
  C25: In a diagram that the public operations built two expressions are the same node exactly when they are
  the same Boolean function of the variables, so comparing indices decides equivalence.
\<close>

theorem bdd_canonical:
  assumes "bdd_step\<^sup>*\<^sup>* bdd_new b" "valid (nodes b) i" "valid (nodes b) j"
  shows "i = j \<longleftrightarrow> (\<forall>env. sem (nodes b) env i = sem (nodes b) env j)"
  using canonical_core[OF bdd_invD(1) assms(2,3)] bdd_reachable_inv[OF assms(1) bdd_new_inv] by blast

theorem bdd_canonical_witness:
  "(0 :: int) = 1 \<longleftrightarrow> (\<forall>env. sem (nodes bdd_new) env 0 = sem (nodes bdd_new) env 1)"
  using bdd_canonical[of bdd_new 0 1] by (simp add: valid_def bdd_new_def)

text \<open>
  C26: \<open>Evaluate\<close> ends on every expression of the diagram. When it returns a value, that is the
  expression's value under the given values of the variables; otherwise it returns an invalid-argument
  error, and only when the base node of a variable has no value.
\<close>

theorem bdd_evaluate_correct:
  assumes "bdd_inv b" "valid (nodes b) i"
  shows "\<exists>r. bdd_Evaluate b i vals = Some r \<and>
    (case r of Inr x \<Rightarrow> x = sem (nodes b) (assigned b vals) i
     | Inl e \<Rightarrow> e = InvalidArgumentError \<and> (\<exists>v w. 0 \<le> v \<and> v < next_var b \<and> GetVariableBaseNode b v = Some w \<and> vals w = None))"
  using Evaluate_ok[OF assms] by (auto simp: yields_def)

theorem bdd_evaluate_correct_witness:
  "\<exists>r. bdd_Evaluate bdd_new 1 (\<lambda>_. None) = Some r \<and>
    (case r of Inr x \<Rightarrow> x | Inl e \<Rightarrow> (\<exists>v w. 0 \<le> v \<and> v < next_var bdd_new \<and> GetVariableBaseNode bdd_new v = Some w))"
  using bdd_evaluate_correct[OF bdd_new_inv, of 1 "\<lambda>_. None"] by (auto simp: valid_def bdd_new_def split: sum.splits)

text \<open>
  In every diagram that the public operations build from the empty one, the path count of a node is the
  number of paths from it to the leaves, saturated at the greatest 32-bit integer, and so never wraps.
\<close>

theorem bdd_path_count_saturates:
  assumes "bdd_step\<^sup>*\<^sup>* bdd_new b" "valid (nodes b) i"
  shows "bdd_path_count b i = Some (min (int (paths (nodes b) i)) (2 ^ 31 - 1))"
  using path_count_ok[OF bdd_invD(1)] bdd_reachable_inv[OF assms(1) bdd_new_inv] assms(2) by blast

theorem bdd_path_count_saturates_witness:
  "\<exists>b. NewVariable bdd_new = Some (2, b) \<and> bdd_path_count b 2 = Some (min (int (paths (nodes b) 2)) (2 ^ 31 - 1))"
proof -
  obtain b where b: "NewVariable bdd_new = Some (2, b)" "length (nodes b) = 3"
    by (simp add: NewVariable_def GetOrCreateNode_def bdd_new_def GetNode_def bdd_leaf_def bdd_leaves Let_def list_at_def)
  then show ?thesis using bdd_path_count_saturates[OF r_into_rtranclp[of bdd_step, OF step_variable[OF b(1)]], of 2] by (simp add: valid_def)
qed

section \<open>Union-find\<close>

text \<open>
  C27: The union-find map refines an abstract map of two functions, the representative of a key and the
  value of its class, after any sequence of calls. No call aborts and every search ends. Find returns the
  two and changes neither, although it halves paths. Insert adds a class of one key or merges the value into
  the class of a known key. Union returns whether both keys are known, changes nothing when one is not or
  when they are in one class already, and otherwise gives all keys of one class the representative of the
  other and all keys of both the merged value.
\<close>

theorem union_find_refines:
  assumes "uf_reachable m"
  shows "(\<exists>m'. UnionFindMap_Find m x = Some (case representative m x of None \<Rightarrow> None | Some k \<Rightarrow> map_option (Pair k) (class_value m x), m') \<and>
      representative m' = representative m \<and> class_value m' = class_value m) \<and>
    (\<exists>m'. UnionFindMap_Insert m x w merge = Some m' \<and> (case representative m x of
        None \<Rightarrow> representative m' = (representative m)(x \<mapsto> x) \<and> class_value m' = (class_value m)(x \<mapsto> w)
      | Some r \<Rightarrow> representative m' = representative m \<and>
          class_value m' = (\<lambda>k. if representative m k = Some r then map_option (\<lambda>old. merge old w) (class_value m k) else class_value m k))) \<and>
    (\<exists>b m'. UnionFindMap_Union m x y merge = Some (b, m') \<and> (case (representative m x, representative m y) of
        (Some p, Some q) \<Rightarrow> b \<and> (if p = q then representative m' = representative m \<and> class_value m' = class_value m
          else \<exists>r s u v. ((r, s) = (p, q) \<or> (r, s) = (q, p)) \<and> class_value m r = Some u \<and> class_value m s = Some v \<and>
            representative m' = (\<lambda>k. if representative m k = Some s then Some r else representative m k) \<and>
            class_value m' = (\<lambda>k. if representative m k = Some r \<or> representative m k = Some s then Some (merge u v) else class_value m k))
      | _ \<Rightarrow> \<not> b \<and> m' = m))"
proof (intro conjI)
  note inv = uf_reachable_inv[OF assms]
  show "\<exists>m'. UnionFindMap_Find m x = Some (case representative m x of None \<Rightarrow> None | Some k \<Rightarrow> map_option (Pair k) (class_value m x), m') \<and>
      representative m' = representative m \<and> class_value m' = class_value m"
    using UnionFindMap_Find_ok[OF inv] by metis
  show "\<exists>m'. UnionFindMap_Insert m x w merge = Some m' \<and> (case representative m x of
        None \<Rightarrow> representative m' = (representative m)(x \<mapsto> x) \<and> class_value m' = (class_value m)(x \<mapsto> w)
      | Some r \<Rightarrow> representative m' = representative m \<and>
          class_value m' = (\<lambda>k. if representative m k = Some r then map_option (\<lambda>old. merge old w) (class_value m k) else class_value m k))"
    by (rule Insert_cases[OF inv])
  show "\<exists>b m'. UnionFindMap_Union m x y merge = Some (b, m') \<and> (case (representative m x, representative m y) of
        (Some p, Some q) \<Rightarrow> b \<and> (if p = q then representative m' = representative m \<and> class_value m' = class_value m
          else \<exists>r s u v. ((r, s) = (p, q) \<or> (r, s) = (q, p)) \<and> class_value m r = Some u \<and> class_value m s = Some v \<and>
            representative m' = (\<lambda>k. if representative m k = Some s then Some r else representative m k) \<and>
            class_value m' = (\<lambda>k. if representative m k = Some r \<or> representative m k = Some s then Some (merge u v) else class_value m k))
      | _ \<Rightarrow> \<not> b \<and> m' = m)"
    by (rule Union_cases[OF inv])
qed

theorem union_find_refines_witness:
  "\<exists>m'. UnionFindMap_Find sample_map 2 = Some (Some (2, 20), m') \<and> representative m' = representative sample_map"
proof -
  have "representative sample_map 2 = Some 2" "class_value sample_map 2 = Some 20"
    by (simp_all add: representative_def class_value_def uf_root_def sample_map_def FindRoot.simps)
  then show ?thesis using union_find_refines[OF sample_map_reachable, of 2 0 "\<lambda>a b. a" 1] by auto
qed

text \<open>
  C28: Inserting the nodes of a graph and uniting the ends of its edges computes the connected components:
  nothing aborts, and two nodes have the same representative exactly if a path of edges, in either
  direction, leads from one to the other. The lemma holds for every store of a partition; union-find is an
  instance.
\<close>

theorem union_find_components:
  assumes "\<forall>(x, y) \<in> set es. x \<in> set ks \<and> y \<in> set ks"
  shows "\<exists>u. components ks es = Some u \<and> (\<forall>a \<in> set ks. \<forall>b \<in> set ks.
    \<exists>r s u1 u2. UnionFind_Find u a = Some (r, u1) \<and> UnionFind_Find u b = Some (s, u2) \<and> (r = s \<longleftrightarrow> (a, b) \<in> (set es \<union> (set es)\<inverse>)\<^sup>*))"
proof -
  obtain u where u: "components ks es = Some u" "uf_inv u" "\<And>a b. same_class u a b \<longleftrightarrow> a \<in> set ks \<and> (a, b) \<in> (set es \<union> (set es)\<inverse>)\<^sup>*"
    using components_connected[OF assms] by metis
  have f: "\<exists>r u'. representative u a = Some r \<and> UnionFind_Find u a = Some (r, u')" if "a \<in> set ks" for a
    using UnionFind_Find_ok[OF u(2), of a] u(3)[of a a] that by (auto simp: same_class_def)
  have "\<exists>r s u1 u2. UnionFind_Find u a = Some (r, u1) \<and> UnionFind_Find u b = Some (s, u2) \<and> (r = s \<longleftrightarrow> (a, b) \<in> (set es \<union> (set es)\<inverse>)\<^sup>*)"
    if "a \<in> set ks" "b \<in> set ks" for a b
    using f[OF that(1)] f[OF that(2)] u(3)[of a b] that(1) by (fastforce simp: same_class_def)
  then show ?thesis using u(1) by blast
qed

theorem union_find_components_witness:
  "\<exists>u r s u1 u2. components [1, 2, 3 :: nat] [(1, 2)] = Some u \<and> UnionFind_Find u 1 = Some (r, u1) \<and> UnionFind_Find u 2 = Some (s, u2) \<and> r = s"
proof -
  have e: "(1, 2) \<in> (set [(1, 2 :: nat)] \<union> (set [(1, 2)])\<inverse>)\<^sup>*" by (rule r_into_rtrancl) simp
  show ?thesis using union_find_components[of "[(1, 2)]" "[1, 2, 3 :: nat]"] e by fastforce
qed

text \<open>
  C29: Union by size keeps the trees flat: in a map of n keys, after any sequence of calls, the root above a
  key is reached in k steps with 2 to the k at most n.
\<close>

theorem union_find_height:
  assumes "uf_reachable m" and "i < length (uf_nodes m)"
  shows "\<exists>k nodes. 2 ^ k \<le> length (GetKeys m) \<and> FindRoot (uf_nodes m) i = Some (((\<lambda>i. parent (uf_nodes m ! i)) ^^ k) i, nodes)"
proof -
  have inv: "uf_inv m" using uf_reachable_inv[OF assms(1)] .
  obtain k where k: "2 ^ k \<le> length (uf_nodes m)" "((\<lambda>i. parent (uf_nodes m ! i)) ^^ k) i = uf_root (uf_nodes m) i"
    using logarithmic_height[OF inv assms(2)] .
  obtain rank root where m: "indexed m" "forest (uf_nodes m) rank root" using inv by (auto simp: uf_inv_def)
  obtain nodes where "FindRoot (uf_nodes m) i = Some (root i, nodes)" using FindRoot_ok[OF m(2) assms(2)] by blast
  then show ?thesis using k indexedD(1)[OF m(1)] uf_root_eq[OF m(2) assms(2)] by (auto simp: GetKeys_def)
qed

theorem union_find_height_witness:
  "\<exists>k nodes. 2 ^ k \<le> length (GetKeys sample_map) \<and> FindRoot (uf_nodes sample_map) 1 = Some (((\<lambda>i. parent (uf_nodes sample_map ! i)) ^^ k) 1, nodes)"
  using union_find_height[OF sample_map_reachable, of 1] by (simp add: sample_map_def)

section \<open>Channels and queues\<close>

text \<open>
  C30: The queue of a streaming channel is a first-in first-out store under every sequence of writes and
  reads, in whatever order the threads take the lock: no operation fails, and the values read followed by
  the values left in the queue are the values written, in their order. The values left have the type of the
  channel.
\<close>

theorem channel_queue_fifo:
  assumes "channel_kind c = kStreaming" and "\<forall>v \<in> set (puts ops). has_type v (channel_type c)"
  shows "\<exists>vs q. run_ops ChannelQueue_Write (ChannelQueue_Read call) ops (ChannelQueue_new c) = Some (Inr (vs, q)) \<and> vs @ queue_values q = puts ops \<and>
    (\<forall>v \<in> set (queue_values q). has_type v (channel_type c))"
proof -
  have q: "streaming_queue (ChannelQueue_new c)" "queue_values (ChannelQueue_new c) = []" using assms(1) by (simp_all add: streaming_queue_def ChannelQueue_new_def)
  have "\<forall>v \<in> set (puts ops). queue_accepts (ChannelQueue_new c) v" using assms(2) by (simp add: queue_accepts_def ChannelQueue_new_def)
  from streaming.run_fifo[where call = call, OF q(1) this] obtain vs r where "run_ops ChannelQueue_Write (ChannelQueue_Read call) ops (ChannelQueue_new c) = Some (Inr (vs, r))" "vs @ queue_values r = puts ops"
    using q(2) by auto
  moreover from this(2) have "set (queue_values r) \<subseteq> set (puts ops)" by (metis set_append Un_upper2)
  ultimately show ?thesis using assms(2) by blast
qed

theorem channel_queue_fifo_witness:
  "\<exists>vs q. run_ops ChannelQueue_Write (ChannelQueue_Read FixedValueGenerator) [Put (BitsValue (mk_bits 8 1)), Get, Put (BitsValue (mk_bits 8 2))] (ChannelQueue_new sample_channel) = Some (Inr (vs, q)) \<and>
     vs @ queue_values q = [BitsValue (mk_bits 8 1), BitsValue (mk_bits 8 2)]"
  using channel_queue_fifo[of sample_channel "[Put (BitsValue (mk_bits 8 1)), Get, Put (BitsValue (mk_bits 8 2))]" FixedValueGenerator]
  by (auto simp: sample_channel_def)

text \<open>
  C31: A queue manager is created from a list of queues exactly if the list has one queue for each channel
  of the package. The manager then returns for every channel its queue, by pointer, identifier and name,
  reports identifiers of no channel, and lists the channels in the order of their identifiers.
\<close>

theorem channel_manager_lookup:
  assumes "channels_inv p"
  shows "((\<exists>m. ChannelQueueManager_Create qs p = Inr m) \<longleftrightarrow> distinct (map queue_channel qs) \<and> queue_channel ` set qs = set (channel_vec p)) \<and>
    (\<forall>m. ChannelQueueManager_Create qs p = Inr m \<longrightarrow> queue_vec m = channel_vec p \<and>
      (\<forall>c \<in> set (channel_vec p). \<exists>q \<in> set qs. queue_channel q = c \<and> GetQueue m c = Some q \<and> GetQueueById m (channel_id c) = Some (Inr q) \<and> GetQueueByName m (channel_name c) = Some (Inr q)) \<and>
      (\<forall>i. i \<notin> channel_id ` set (channel_vec p) \<longrightarrow> GetQueueById m i = Some (Inl NotFoundError)))"
proof -
  have "GetQueueById m i = Some (Inl NotFoundError)" if "ChannelQueueManager_Create qs p = Inr m" "i \<notin> channel_id ` set (channel_vec p)" for m i
  proof -
    have "channels_by_id p i = None" using that(2) by (metis channels_invD(5)[OF assms] image_eqI option.exhaust)
    then show ?thesis using that(1) by (simp add: GetQueueById_def GetChannel_def Create_ok ChannelQueueManager_new_def)
  qed
  moreover have "(\<exists>m. ChannelQueueManager_Create qs p = Inr m) \<longleftrightarrow> distinct (map queue_channel qs) \<and> queue_channel ` set qs = set (channel_vec p)"
    by (simp add: Create_ok)
  ultimately show ?thesis using Create_order[OF assms, of qs] Create_queues[OF assms, of qs] by blast
qed

theorem channel_manager_lookup_witness:
  "GetQueueById (ChannelQueueManager_new sample_channels [ChannelQueue_new sample_channel]) 7 = Some (Inl NotFoundError)"
proof -
  have "7 \<notin> channel_id ` set (channel_vec sample_channels)" by (simp add: sample_channels_def sample_channel_def)
  then show ?thesis using channel_manager_lookup[OF sample_channels_inv] sample_manager by blast
qed

text \<open>
  C32: For a channel whose identifier is an \<open>int64_t\<close>, on tables in step: adding it succeeds
  exactly if its identifier and its name are new and the name is valid, and then the tables stay in step; an
  identifier that is taken is an internal error and changes nothing. But a channel with a new identifier
  that is refused for its name stays in the table by identifiers: the tables are no longer in step, and the
  look-up by identifier returns the refused channel. Removing a channel that no node uses keeps the tables
  in step.
\<close>

theorem channel_table_error:
  assumes "channels_inv p" "int64_id c"
  shows "((\<exists>p'. AddChannel c p = (Inr (), p')) \<longleftrightarrow>
      channel_id c \<notin> channel_id ` set (channel_vec p) \<and> channel_name c \<notin> channel_name ` set (channel_vec p) \<and> IsValidIdentifier (channel_name c)) \<and>
    (\<forall>p'. AddChannel c p = (Inr (), p') \<longrightarrow> channels_inv p' \<and> set (channel_vec p') = insert c (set (channel_vec p))) \<and>
    (channel_id c \<in> channel_id ` set (channel_vec p) \<longrightarrow> AddChannel c p = (Inl InternalError, p)) \<and>
    (channel_id c \<notin> channel_id ` set (channel_vec p) \<and> (channel_name c \<in> channel_name ` set (channel_vec p) \<or> \<not> IsValidIdentifier (channel_name c)) \<longrightarrow>
      (\<exists>p'. AddChannel c p = (Inl InvalidArgumentError, p') \<and> \<not> channels_inv p' \<and> GetChannel p' (channel_id c) = Inr c \<and> c \<notin> set (channel_vec p'))) \<and>
    (c \<in> set (channel_vec p) \<and> channel_id c \<notin> set used_ids \<longrightarrow> (\<exists>p'. RemoveChannel used_ids c p = (Inr (), p') \<and> channels_inv p' \<and> set (channel_vec p') = set (channel_vec p) - {c}))"
proof -
  have i: "channels_by_id p (channel_id c) = None \<longleftrightarrow> channel_id c \<notin> channel_id ` set (channel_vec p)"
    using channels_invD(5)[OF assms(1), of "channel_id c"] by (metis (no_types, opaque_lifting) imageE image_eqI not_None_eq)
  have e: "AddChannel c p = (Inl InternalError, p)" if "channel_id c \<in> channel_id ` set (channel_vec p)" using that i by (simp add: AddChannel_def)
  have n: "\<exists>p'. AddChannel c p = (Inl InvalidArgumentError, p')" if "channel_id c \<notin> channel_id ` set (channel_vec p)" "channel_name c \<in> channel_name ` set (channel_vec p) \<or> \<not> IsValidIdentifier (channel_name c)"
    using that i by (auto simp: AddChannel_def name_taken Let_def)
  have ok: "\<exists>p'. AddChannel c p = (Inr (), p') \<and> channels_inv p' \<and> set (channel_vec p') = insert c (set (channel_vec p))" if "can_add c p"
    using AddChannel_ok[OF assms(1) that assms(2)] by blast
  have k: "can_add c p \<longleftrightarrow> channel_id c \<notin> channel_id ` set (channel_vec p) \<and> channel_name c \<notin> channel_name ` set (channel_vec p) \<and> IsValidIdentifier (channel_name c)"
    using i by (auto simp: can_add_def)
  have l: "\<exists>e p'. AddChannel c p = (Inl e, p') \<and> \<not> channels_inv p' \<and> GetChannel p' (channel_id c) = Inr c \<and> c \<notin> set (channel_vec p')" if "\<not> can_add c p" "channel_id c \<notin> channel_id ` set (channel_vec p)"
    by (rule AddChannel_leaves_channel[OF assms(1) _ that(1)]) (use i that(2) in blast)+
  have r: "\<exists>p'. RemoveChannel used_ids c p = (Inr (), p') \<and> channels_inv p' \<and> set (channel_vec p') = set (channel_vec p) - {c}" if "c \<in> set (channel_vec p)" "channel_id c \<notin> set used_ids"
    using RemoveChannel_ok[OF assms(1) that] by blast
  have a: "(\<exists>p'. AddChannel c p = (Inr (), p')) \<longleftrightarrow> can_add c p"
    using ok AddChannel_error[of c p] by (cases "can_add c p") auto
  show ?thesis
  proof (intro conjI impI allI)
    show "(\<exists>p'. AddChannel c p = (Inr (), p')) \<longleftrightarrow>
      channel_id c \<notin> channel_id ` set (channel_vec p) \<and> channel_name c \<notin> channel_name ` set (channel_vec p) \<and> IsValidIdentifier (channel_name c)"
      using a k by blast
    show "channels_inv p'" "set (channel_vec p') = insert c (set (channel_vec p))" if "AddChannel c p = (Inr (), p')" for p'
      using ok a that by auto
    show "\<exists>p'. AddChannel c p = (Inl InvalidArgumentError, p') \<and> \<not> channels_inv p' \<and> GetChannel p' (channel_id c) = Inr c \<and> c \<notin> set (channel_vec p')"
      if "channel_id c \<notin> channel_id ` set (channel_vec p) \<and> (channel_name c \<in> channel_name ` set (channel_vec p) \<or> \<not> IsValidIdentifier (channel_name c))"
      using n l k that by fastforce
  qed (use e r in blast)+
qed

theorem channel_table_error_witness:
  "\<exists>p'. AddChannel (sample_channel\<lparr>channel_id := 1\<rparr>) sample_channels = (Inl InvalidArgumentError, p') \<and> GetChannel p' 1 = Inr (sample_channel\<lparr>channel_id := 1\<rparr>)"
proof -
  define c where "c = sample_channel\<lparr>channel_id := 1\<rparr>"
  have c: "int64_id c" "channel_id c = 1" "1 \<notin> channel_id ` set (channel_vec sample_channels)" "channel_name c \<in> channel_name ` set (channel_vec sample_channels)"
    by (simp_all add: c_def int64_id_def sample_channels_def sample_channel_def)
  show ?thesis using channel_table_error[OF sample_channels_inv c(1), of "[]"] c(2-4) unfolding c_def[symmetric] by metis
qed

section \<open>Networks of procs\<close>

text \<open>
  C33: A tick of a network of procs ends. The procs are ones that the verifier accepts and whose nodes
  satisfy the conditions that the interpreter needs beyond it (\<open>proc_ok\<close>: those of functions,
  under which dynamic loops end), the package is verified and evaluable, and the generators of queues return
  well-formed values. Then, in every state that a new runtime reaches and whatever the procs send each
  other, the tick of any proc and \<open>TickInternal\<close> return, so none aborts or runs forever, and
  \<open>TickUntilBlocked\<close> with a limit returns an error or a count of ticks below the limit.
\<close>

theorem network_tick_ends:
  assumes "bignum_ok L val" and "package_ok check_stateful pkg" and "\<forall>p \<in> set procs. proc_ok check_stateful pkg channels p" and "generates_values gen"
    and "channels_inv channels" and "ChannelQueueManager_Create qs channels = Inr m" and "\<forall>q \<in> set qs. \<forall>v \<in> set (queue_values q). wf_value v"
    and "tick = network_tick L pkg (InterpretFunction L pkg (length pkg)) gen procs" and "tick_reaches tick (length procs) (ProcRuntime_new procs m) w"
  shows "(\<forall>i < length procs. \<exists>r. tick i w = Some r) \<and> (\<exists>r. TickInternal tick (length procs) w = Some r) \<and>
    ((\<exists>n w'. TickUntilBlocked tick (length procs) (Some max_ticks) w = Some (Inr (n, w')) \<and> n < max_ticks) \<or>
     (\<exists>e. TickUntilBlocked tick (length procs) (Some max_ticks) w = Some (Inl e)))"
proof -
  have w: "network_ok channels procs w"
    using reached_ok[OF assms(9)[unfolded assms(8)] ProcRuntime_new_ok[OF assms(3) created_manager_ok[OF assms(5-7)]] assms(1-4)] .
  then have n: "\<not> some_tick_aborts tick (length procs) w" using no_tick_aborts[OF assms(1-4)] assms(8) by simp
  have "\<forall>i < length procs. \<exists>r. tick i w = Some r" using network_tick_ok[OF assms(1-4) w] assms(8) by blast
  moreover have "\<exists>r. TickInternal tick (length procs) w = Some r"
    using interpreted.TickInternal_ends[of L pkg "InterpretFunction L pkg (length pkg)" gen procs "length procs" w] n assms(8) by (auto simp: ends_in_reach_def)
  ultimately show ?thesis unfolding TickUntilBlocked_def
    using interpreted.TickUntilBlocked_loop_ends[of L pkg "InterpretFunction L pkg (length pkg)" gen procs "length procs" max_ticks 0 w] n assms(8) by blast
qed

theorem network_tick_ends_witness:
  "\<exists>r. TickInternal (network_tick int_bignum sample_package (InterpretFunction int_bignum sample_package (length sample_package)) (\<lambda>g :: unit. (None, g)) [sender, receiver]) (length [sender, receiver])
     (ProcRuntime_new [sender, receiver] (ChannelQueueManager_new sample_channels [ChannelQueue_new sample_channel])) = Some r"
proof -
  have q: "\<forall>q \<in> set [ChannelQueue_new sample_channel]. \<forall>v \<in> set (queue_values q). wf_value v" by (simp add: ChannelQueue_new_def)
  show ?thesis using network_tick_ends[OF int_bignum_ok sample_package_ok sample_procs_ok fixed_values_generated sample_channels_inv sample_manager q refl here] by blast
qed

text \<open>
  C34: On such a network \<open>TickUntilOutput\<close> with a limit on the ticks returns from every state
  that the runtime reaches for all counts on channels of the package. When it returns a count of ticks, the
  queue of every expected channel holds at least the expected number of values; otherwise it returns an
  error.
\<close>

theorem network_output_produced:
  assumes "bignum_ok L val" and "package_ok check_stateful pkg" and "\<forall>p \<in> set procs. proc_ok check_stateful pkg channels p" and "generates_values gen"
    and "channels_inv channels" and "ChannelQueueManager_Create qs channels = Inr m" and "\<forall>q \<in> set qs. \<forall>v \<in> set (queue_values q). wf_value v"
    and "tick = network_tick L pkg (InterpretFunction L pkg (length pkg)) gen procs" and "tick_reaches tick (length procs) (ProcRuntime_new procs m) w"
    and "fst ` set output_counts \<subseteq> set (channel_vec channels)"
  shows "(\<exists>n w'. TickUntilOutput tick (length procs) network_queue_size output_counts (Some max_ticks) w = Some (Inr (n, w')) \<and>
      list_all (\<lambda>(ch, count). case network_queue_size w' ch of None \<Rightarrow> False | Some k \<Rightarrow> count \<le> k) output_counts) \<or>
    (\<exists>e. TickUntilOutput tick (length procs) network_queue_size output_counts (Some max_ticks) w = Some (Inl e))"
proof -
  have w: "network_ok channels procs w"
    using reached_ok[OF assms(9)[unfolded assms(8)] ProcRuntime_new_ok[OF assms(3) created_manager_ok[OF assms(5-7)]] assms(1-4)] .
  then have n: "\<not> some_tick_aborts tick (length procs) w" using no_tick_aborts[OF assms(1-4)] assms(8) by simp
  have "channels_by_id channels (channel_id ch) = Some ch" if "(ch, count) \<in> set output_counts" for ch count
    using assms(10) that channels_invD(5)[OF assms(5), of "channel_id ch" ch] by force
  then have "needs_more_output network_queue_size output_counts w' \<noteq> None" if "tick_reaches tick (length procs) w w'" for w'
    using network_queue_size_ok[OF reached_ok[OF that[unfolded assms(8)] w assms(1-4)]] by (intro needs_more_output_defined) blast
  then consider n w' where "TickUntilOutput_loop tick (length procs) network_queue_size output_counts (Some max_ticks) 0 w = Some (Inr (n, w'))"
      "needs_more_output network_queue_size output_counts w' = Some False"
    | e where "TickUntilOutput_loop tick (length procs) network_queue_size output_counts (Some max_ticks) 0 w = Some (Inl e)"
    using interpreted.TickUntilOutput_loop_ends[of L pkg "InterpretFunction L pkg (length pkg)" gen procs "length procs" network_queue_size output_counts max_ticks 0 w] n assms(8) by blast
  then show ?thesis unfolding TickUntilOutput_def
    by cases (auto dest: needs_more_output_cases)
qed

theorem network_output_produced_witness:
  "\<exists>r. TickUntilOutput (network_tick int_bignum sample_package (InterpretFunction int_bignum sample_package (length sample_package)) (\<lambda>g :: unit. (None, g)) [sender]) 1
     network_queue_size [(sample_channel, 2)] (Some 5) (ProcRuntime_new [sender] (ChannelQueueManager_new sample_channels [ChannelQueue_new sample_channel])) = Some r"
proof -
  have q: "\<forall>q \<in> set [ChannelQueue_new sample_channel]. \<forall>v \<in> set (queue_values q). wf_value v" by (simp add: ChannelQueue_new_def)
  have p: "\<forall>p \<in> set [sender]. proc_ok (\<lambda>s node. None) sample_package sample_channels p" using sample_procs_ok by simp
  have c: "fst ` set [(sample_channel, 2 :: int)] \<subseteq> set (channel_vec sample_channels)" by (simp add: sample_channels_def)
  show ?thesis using network_output_produced[OF int_bignum_ok sample_package_ok p fixed_values_generated sample_channels_inv sample_manager q refl here c, of 5] by auto
qed

section \<open>Binary search\<close>

text \<open>
  C35: On a range of int64_t whose length is at most 2 to the 63, and for a predicate that holds up to some
  point of the range and not after it, the two searches end and find the point: the first returns the last
  value at which the predicate holds, or InvalidArgumentError if there is none, and the second the first
  value at which it does not. The variants without a status return the same value and abort instead of the
  error.
\<close>

theorem binary_search_exact:
  assumes "searchable start finish" and "start \<le> finish" and "\<forall>i j. start \<le> i \<and> i \<le> j \<and> j \<le> finish \<and> P j \<longrightarrow> P i"
  shows "(case BinarySearchMaxTrueWithStatus start finish (\<lambda>i. Some (Inr (P i))) of
        Some (Inr r) \<Rightarrow> start \<le> r \<and> r \<le> finish \<and> (\<forall>i. start \<le> i \<and> i \<le> finish \<longrightarrow> (P i \<longleftrightarrow> i \<le> r)) \<and> BinarySearchMaxTrue start finish (\<lambda>i. Some (P i)) = Some r
      | Some (Inl e) \<Rightarrow> e = InvalidArgumentError \<and> (\<forall>i. start \<le> i \<and> i \<le> finish \<longrightarrow> \<not> P i) \<and> BinarySearchMaxTrue start finish (\<lambda>i. Some (P i)) = None
      | None \<Rightarrow> False) \<and>
    (case BinarySearchMinTrueWithStatus start finish (\<lambda>i. Some (Inr (\<not> P i))) of
        Some (Inr r) \<Rightarrow> start \<le> r \<and> r \<le> finish \<and> (\<forall>i. start \<le> i \<and> i \<le> finish \<longrightarrow> (P i \<longleftrightarrow> i < r)) \<and> BinarySearchMinTrue start finish (\<lambda>i. Some (\<not> P i)) = Some r
      | Some (Inl e) \<Rightarrow> e = InvalidArgumentError \<and> (\<forall>i. start \<le> i \<and> i \<le> finish \<longrightarrow> P i) \<and> BinarySearchMinTrue start finish (\<lambda>i. Some (\<not> P i)) = None
      | None \<Rightarrow> False)"
  using assms by (intro conjI search_last search_first) blast+

theorem binary_search_exact_witness:
  "\<exists>r. BinarySearchMaxTrueWithStatus 0 10 (\<lambda>i. Some (Inr (i \<le> 3))) = Some (Inr r) \<and> (\<forall>i. 0 \<le> i \<and> i \<le> 10 \<longrightarrow> (i \<le> 3 \<longleftrightarrow> i \<le> r))"
proof -
  have "searchable 0 10" by (simp add: searchable_def)
  from binary_search_exact[OF this, of "\<lambda>i. i \<le> 3"] show ?thesis
    by (auto split: option.splits sum.splits)
qed

section \<open>Types and values\<close>

text \<open>
  C36: For a type without tokens and empty arrays, flattening and unflattening are inverse: every literal of
  the type's width unflattens to a well-formed value of the type that flattens back to it, and every such
  value flattens to a literal of that width that unflattens back to it. Neither direction aborts or fails.
\<close>

theorem flatten_roundtrip:
  assumes "inhabited t" "\<not> TypeHasToken t" "bm_inv b" "bit_count b = Type_GetFlatBitCount t" "wf_value v" "type_of v = t"
  shows "(\<exists>w. UnflattenBitsToValue b t = Some (Inr w) \<and> wf_value w \<and> type_of w = t \<and> FlattenValueToBits w = Some b) \<and>
    (\<exists>c. FlattenValueToBits v = Some c \<and> bit_count c = Type_GetFlatBitCount t \<and> UnflattenBitsToValue c t = Some (Inr v))"
proof -
  have f: "token_free v" using token_free_type[OF assms(5)] assms(2,6) by simp
  have "FlattenValueToBits v = Some (flat_bits v)" "bit_count (flat_bits v) = Type_GetFlatBitCount t"
    using FlattenValueToBits_eq[OF assms(5) f] leaves_ok[OF assms(5)] assms(6) by (simp_all add: flat_bits_def)
  then show ?thesis using unflatten_ok[OF assms(1-4)] unflatten_flat_bits[OF assms(5) f] assms(6) by simp
qed

theorem flatten_roundtrip_witness:
  "\<exists>w. UnflattenBitsToValue (mk_bits 5 19) (TupleType [BitsType 1, ArrayType 2 (BitsType 2)]) = Some (Inr w) \<and>
    FlattenValueToBits w = Some (mk_bits 5 19)"
  using flatten_roundtrip[of "TupleType [BitsType 1, ArrayType 2 (BitsType 2)]" "mk_bits 5 19"
    "TupleValue [BitsValue (mk_bits 1 1), ArrayValue [BitsValue (mk_bits 2 3), BitsValue (mk_bits 2 0)]]"] by auto

text \<open>
  C37: The dynamic type checks are exact on well-formed values although they look at the first element of an
  array only: a value conforms to its one type, two values have the same type exactly when their types are
  equal, the protobuf of a value's type reads back as that type, the flat bit counts agree, equality is
  structural, and \<open>Value::Array\<close> accepts exactly the nonempty lists whose elements share a
  type, returning a well-formed array.
\<close>

theorem value_typing:
  assumes "wf_value v" "wf_value w" "\<forall>u \<in> set us. wf_value u"
  shows "ValueConformsToType v t = Some (type_of v = t) \<and> SameTypeAs v w = Some (type_of v = type_of w) \<and>
    (\<exists>p. TypeAsProto v = Inr p \<and> GetTypeFromProto p = Inr (type_of v)) \<and>
    Value_GetFlatBitCount v = Some (Type_GetFlatBitCount (type_of v)) \<and> Value_eq v w = Some (v = w) \<and>
    Value_Array us = Some (if us = [] then Inl UnimplementedError
      else if wf_value (ArrayValue us) then Inr (ArrayValue us) else Inl InternalError)"
  using assms ValueConformsToType_eq(1) SameTypeAs_eq(1) TypeAsProto_eq(1) type_proto_roundtrip
    Value_GetFlatBitCount_eq(1) Value_eq_iff(1) Value_Array_eq by blast

theorem value_typing_witness:
  "ValueConformsToType (TupleValue [TokenValue, BitsValue (mk_bits 3 5)]) (TupleType [TokenType, BitsType 3]) = Some True"
  using value_typing[of "TupleValue [TokenValue, BitsValue (mk_bits 3 5)]" TokenValue "[]" "TupleType [TokenType, BitsType 3]"] by simp

text \<open>
  \<open>ZeroOfType\<close> and \<open>AllOnesOfType\<close> of a type whose arrays have elements return
  well-formed values of exactly that type, which \<open>IsAllZeros\<close> and \<open>IsAllOnes\<close>
  accept when the type has no token; an empty array type makes them abort.
\<close>

theorem values_of_type:
  assumes "inhabited t"
  shows "\<exists>z o1. ZeroOfType t = Some z \<and> wf_value z \<and> type_of z = t \<and> (TypeHasToken t \<or> IsAllZeros z = Some True) \<and>
    AllOnesOfType t = Some o1 \<and> wf_value o1 \<and> type_of o1 = t \<and> (TypeHasToken t \<or> IsAllOnes o1 = Some True) \<and>
    ZeroOfType (ArrayType 0 t) = None"
  using ZeroOfType_ok[OF assms] AllOnesOfType_ok[OF assms] ZeroOfType_empty_array by blast

theorem values_of_type_witness:
  "\<exists>z o1. ZeroOfType (ArrayType 2 (BitsType 70)) = Some z \<and> IsAllZeros z = Some True \<and>
    AllOnesOfType (ArrayType 2 (BitsType 70)) = Some o1 \<and> IsAllOnes o1 = Some True"
  using values_of_type[of "ArrayType 2 (BitsType 70)"] by auto

text \<open>
  Splitting the bit pattern of any float into sign, exponent and fraction and putting the tuple together
  again gives the pattern back, not-a-numbers and their payloads included.
\<close>

theorem float_roundtrip: "F32ToTuple x \<bind> TupleToF32 = Some (Inr x)"
  by (rule f32_roundtrip)

section \<open>Literals as text\<close>

text \<open>
  C38: A literal printed in binary, hexadecimal or the default format, or in unsigned decimal when it fits
  64 bits, is a text that \<open>ParseNumber\<close> reads as the same number in the least width that holds
  it, separators, elided zeros and chunks of 64 bits included. The least width of zero is zero: the comment
  in \<open>number_parser.h\<close> gives width one for the text \<open>0\<close>, but the code returns an
  empty literal.
\<close>

theorem number_text_roundtrip:
  assumes "bignum_ok L val" "bm_inv b" "f = kBinary \<or> f = kHex \<or> f = kDefault \<or> f = kUnsignedDecimal \<and> uval b < 2 ^ 64"
  shows "\<exists>s. Bits_ToString b f False = Some s \<and> ParseNumber L s = Some (Inr (mk_bits (num_bits (uval b)) (uval b)))"
  using ToString_magnitude[OF assms] ParseNumber_nonneg by blast

theorem number_text_roundtrip_witness:
  "\<exists>s. Bits_ToString (mk_bits 70 5) kHex False = Some s \<and> ParseNumber int_bignum s = Some (Inr (mk_bits 3 5))"
proof -
  have "num_bits 5 = 3" by (simp add: num_bits.simps)
  then show ?thesis using number_text_roundtrip[OF int_bignum_ok, of "mk_bits 70 5" kHex] by (simp add: take_bit_eq_mod)
qed

text \<open>
  A literal that fits a signed 64-bit integer, printed in signed decimal, is read back by
  \<open>ParseNumberAsInt64\<close> as the same integer, the least one included, and by
  \<open>ParseNumber\<close> as the two's complement number of least width when it is negative.
\<close>

theorem signed_text_roundtrip:
  assumes "bignum_ok L val" "bm_inv b" "- (2 ^ 63) \<le> sval b" "sval b < 2 ^ 63"
  shows "\<exists>s. Bits_ToString b kSignedDecimal False = Some s \<and> ParseNumberAsInt64 L s = Some (Inr (word_of_int (sval b))) \<and>
    (0 \<le> sval b \<or> ParseNumber L s = Some (Inr (mk_int (num_bits_signed (sval b)) (sval b))))"
  using ToString_signed[OF assms] ParseNumberAsInt64_int_string[OF assms(1), of "sval b"] ParseNumber_int_string[OF assms(1), of "sval b"]
    assms(3,4) by simp

theorem signed_text_roundtrip_witness:
  "\<exists>s. Bits_ToString (mk_bits 4 9) kSignedDecimal False = Some s \<and> ParseNumberAsInt64 int_bignum s = Some (Inr (- 7)) \<and>
    ParseNumber int_bignum s = Some (Inr (mk_int 4 (- 7)))"
proof -
  have "sval (mk_bits 4 9) = - 7" by (simp add: sval_def take_bit_eq_mod bit_0)
  moreover have "num_bits_signed (- 7) = 4" by (simp add: num_bits_signed_def num_bits.simps)
  ultimately show ?thesis using signed_text_roundtrip[OF int_bignum_ok, of "mk_bits 4 9"] by auto
qed

text \<open>
  C39: On every text without a minus sign behind its first character \<open>ParseNumber\<close>,
  \<open>ParseNumberAsUint64\<close> and \<open>ParseNumberAsInt64\<close> end with a value or an error
  status, and \<open>ParseNumberAsBool\<close> does so exactly if the text is not a nonnegative number of
  magnitude zero: for such a text, \<open>0\<close> for example, it reads bit 0 of an empty literal and
  aborts. The exception of inner minus signs is real: the minus sign of \<open>0x-1\<close> reaches
  \<open>StrTo64Base\<close>, which accepts it, and the literal built from the negated chunk aborts.
\<close>

theorem number_parser_total:
  assumes "bignum_ok L val" "CHR ''-'' \<notin> set (tl s)"
  shows "(\<exists>r. ParseNumber L s = Some r) \<and> (\<exists>r. ParseNumberAsUint64 L s = Some r) \<and> (\<exists>r. ParseNumberAsInt64 L s = Some r) \<and>
    (ParseNumberAsBool L s = None \<longleftrightarrow> s \<noteq> ''true'' \<and> s \<noteq> ''false'' \<and> (\<exists>b. GetSignAndMagnitude L s = Some (Inr (False, b)) \<and> bit_count b = 0)) \<and>
    ParseNumberAsBool L ''0'' = None \<and> ParseNumber L ''0x-1'' = None"
proof -
  obtain r where r: "GetSignAndMagnitude L s = Some r" "\<forall>neg b. r = Inr (neg, b) \<longrightarrow> bm_inv b"
    using GetSignAndMagnitude_total[OF assms] by blast
  have "Bits_Get b 0 = None \<longleftrightarrow> bit_count b = 0" if "bm_inv b" for b
    using that by (auto elim!: bm_inv_cases split: if_splits)
  then have get: "neg = False \<Longrightarrow> r = Inr (neg, b) \<Longrightarrow> Bits_Get b 0 = None \<longleftrightarrow> bit_count b = 0" for neg b using r(2) by blast
  have "ParseNumberAsBool L s = None \<longleftrightarrow> s \<noteq> ''true'' \<and> s \<noteq> ''false'' \<and> (\<exists>b. GetSignAndMagnitude L s = Some (Inr (False, b)) \<and> bit_count b = 0)"
  proof (cases "\<exists>b. r = Inr (False, b) \<and> bit_count b \<le> 1")
    case True
    then obtain b where b: "r = Inr (False, b)" "bit_count b \<le> 1" by blast
    then show ?thesis using r(1) get[OF refl b(1)] by (cases "Bits_Get b 0") (simp_all add: ParseNumberAsBool_def or_return_def)
  next
    case False
    then show ?thesis using r(1) by (cases r) (force simp: ParseNumberAsBool_def or_return_def)+
  qed
  then show ?thesis using parsers_total[OF assms] hex_minus_aborts bool_zero_aborts[OF assms(1)] by blast
qed

theorem number_parser_total_witness:
  "(\<exists>r. ParseNumber int_bignum ''-0b1_2x'' = Some r) \<and> ParseNumber int_bignum ''0x-1'' = None"
  using number_parser_total[OF int_bignum_ok, of "''-0b1_2x''"] by simp

section \<open>Integer helpers\<close>

text \<open>
  \<open>FloorOfLog2\<close> and \<open>CeilOfLog2\<close> of a nonzero 64-bit value are the exponents of
  the powers of two around it: the floor is the greatest with a power not above the value, the ceiling the
  least with a power not below it.
\<close>

theorem log2_bounds:
  assumes "v \<noteq> 0"
  shows "2 ^ FloorOfLog2 v \<le> unat v \<and> unat v < 2 ^ Suc (FloorOfLog2 v) \<and> unat v \<le> 2 ^ CeilOfLog2 v \<and>
    (\<forall>k < CeilOfLog2 v. 2 ^ k < unat v) \<and> FloorOfLog2 v < 64"
proof -
  note f = FloorOfLog2_bounds[OF assms] and c = CeilOfLog2_bounds[OF assms]
  have "2 ^ k < unat v" if "k < CeilOfLog2 v" for k using c that by (meson leD leI)
  moreover have "(2 :: nat) ^ FloorOfLog2 v < 2 ^ 64" using f unsigned_less[of v, where 'a = nat] by simp
  then have "FloorOfLog2 v < 64" by (rule power_less_imp_less_exp[rotated]) simp
  ultimately show ?thesis using f c by blast
qed

theorem log2_bounds_witness: "2 ^ FloorOfLog2 5 \<le> (5 :: nat) \<and> 5 < (2 :: nat) ^ Suc (FloorOfLog2 5) \<and> 5 \<le> (2 :: nat) ^ CeilOfLog2 5"
  using log2_bounds[of 5] by simp



end
